(* ===== verification/Prelude.thy ===== *)
theory Prelude
  imports Main "HOL-Library.Word" "HOL-Library.Code_Target_Numeral"
begin

text \<open>
  Shared vocabulary of the development: the error codes of the code base, the two result types in
  which every exception is a value, the machine-integer synonyms, the fact collections that carry
  the component proofs, and generic lemmas on lists, words and results.

  Two shapes of computation are used.  An operation that throws only before it changes anything
  returns \<open>'a res\<close> (\<open>Inl\<close> the exception, \<open>Inr\<close> the result).  An operation that can throw after a
  change is a state transformer \<open>('s, 'a) act\<close>: it always returns the state as the exception
  leaves it, next to the result or the exception.
\<close>

section \<open>Errors and results\<close>

text \<open>The error codes of \<open>diagnostics/error/error.h\<close>, in the order of the enum.\<close>

datatype orteaf_errc =
    Success | Unknown | InvalidArgument | InvalidState | ExecutionUnavailable | OutOfMemory
  | OperationFailed | InvalidParameter | NullPointer | OutOfRange | Misaligned | NotReady
  | Timeout | DeviceLost | ResourceBusy | PermissionDenied | Unsupported | CompilationFailed

text \<open>
  What a call can end in beside a value: an \<open>OrteafError\<close> with its code, one of the two standard
  exceptions the containers throw, \<open>std::bad_alloc\<close>, or undefined behaviour of the language (signed overflow, access
  through a pointer to storage that holds no object, the end of a function that should return a value).
\<close>

datatype exn =
    OrteafError orteaf_errc
  | StdOutOfRange
  | StdInvalidArgument
  | StdBadAlloc
  | SignedOverflow
  | DanglingPointer
  | MissingReturn

type_synonym 'a res = "exn + 'a"

definition throw :: "orteaf_errc \<Rightarrow> 'a res" where
  "throw c = Inl (OrteafError c)"

definition bindR :: "'a res \<Rightarrow> ('a \<Rightarrow> 'b res) \<Rightarrow> 'b res" where
  "bindR m k = (case m of Inl e \<Rightarrow> Inl e | Inr x \<Rightarrow> k x)"

named_theorems res_simps \<open>rewrite rules for results and state transformers\<close>

lemma bindR_simps [simp, res_simps]:
  "bindR (Inl e) k = Inl e"
  "bindR (Inr x) k = k x"
  by (simp_all add: bindR_def)

lemma bindR_Inr_iff:
  "bindR m k = Inr y \<longleftrightarrow> (\<exists>x. m = Inr x \<and> k x = Inr y)"
  by (cases m) auto

lemma bindR_InrE:
  assumes "bindR m k = Inr y"
  obtains x where "m = Inr x" and "k x = Inr y"
  using assms by (auto simp: bindR_Inr_iff)

lemma throw_neq_Inr [simp]: "throw c \<noteq> Inr x" "Inr x \<noteq> throw c"
  by (simp_all add: throw_def)

lemma throw_eq_iff [simp]: "throw c = Inl e \<longleftrightarrow> e = OrteafError c"
  by (auto simp: throw_def)

lemma throw_inject [simp]: "throw c = throw d \<longleftrightarrow> c = d"
  by (simp add: throw_def)

lemma bindR_throw [simp, res_simps]: "bindR (throw c) k = throw c"
  by (simp add: throw_def)

lemma case_throw [simp, res_simps]: "(case throw c of Inl e \<Rightarrow> f e | Inr x \<Rightarrow> g x) = f (OrteafError c)"
  by (simp add: throw_def)

type_synonym ('s, 'a) act = "'s \<Rightarrow> 'a res \<times> 's"

definition returnA :: "'a \<Rightarrow> ('s, 'a) act" where
  "returnA x = (\<lambda>s. (Inr x, s))"

definition throwA :: "orteaf_errc \<Rightarrow> ('s, 'a) act" where
  "throwA c = (\<lambda>s. (throw c, s))"

definition bindA :: "('s, 'a) act \<Rightarrow> ('a \<Rightarrow> ('s, 'b) act) \<Rightarrow> ('s, 'b) act" where
  "bindA m k = (\<lambda>s. case m s of (Inl e, s') \<Rightarrow> (Inl e, s') | (Inr x, s') \<Rightarrow> k x s')"

lemma returnA_apply [simp, res_simps]: "returnA x s = (Inr x, s)"
  by (simp add: returnA_def)

lemma throwA_apply [simp, res_simps]: "throwA c s = (throw c, s)"
  by (simp add: throwA_def)

lemma bindA_apply:
  "bindA m k s = (case fst (m s) of Inl e \<Rightarrow> (Inl e, snd (m s)) | Inr x \<Rightarrow> k x (snd (m s)))"
  by (simp add: bindA_def split: prod.splits sum.splits)

lemma bindA_Inr: "m s = (Inr x, s') \<Longrightarrow> bindA m k s = k x s'"
  by (simp add: bindA_def)

lemma bindA_from: "m s = m' s' \<Longrightarrow> bindA m k s = bindA m' k s'"
  by (simp add: bindA_def)

text \<open>
  Hoare triples for state transformers: from a state with \<open>P\<close>, a result \<open>x\<close> comes with \<open>Q x\<close>, an
  exception \<open>e\<close> with \<open>E e\<close>.
\<close>

definition triple ::
  "('s \<Rightarrow> bool) \<Rightarrow> ('s, 'a) act \<Rightarrow> ('a \<Rightarrow> 's \<Rightarrow> bool) \<Rightarrow> (exn \<Rightarrow> 's \<Rightarrow> bool) \<Rightarrow> bool" where
  "triple P m Q E \<longleftrightarrow> (\<forall>s. P s \<longrightarrow> (case m s of (Inl e, s') \<Rightarrow> E e s' | (Inr x, s') \<Rightarrow> Q x s'))"

named_theorems triple_rules \<open>introduction rules for triples\<close>

lemma tripleI:
  assumes "\<And>s x s'. P s \<Longrightarrow> m s = (Inr x, s') \<Longrightarrow> Q x s'"
    and "\<And>s e s'. P s \<Longrightarrow> m s = (Inl e, s') \<Longrightarrow> E e s'"
  shows "triple P m Q E"
  using assms by (fastforce simp: triple_def split: prod.split sum.split)

lemma tripleD:
  assumes "triple P m Q E" and "P s"
  shows "m s = (Inr x, s') \<Longrightarrow> Q x s'" "m s = (Inl e, s') \<Longrightarrow> E e s'"
  using assms by (fastforce simp: triple_def)+

lemma triple_bind:
  assumes "triple P m R E" and "\<And>x. triple (R x) (k x) Q E"
  shows "triple P (bindA m k) Q E"
  using assms by (fastforce simp: triple_def bindA_def split: prod.split sum.split)

lemma triple_return [triple_rules]: "(\<And>s. P s \<Longrightarrow> Q x s) \<Longrightarrow> triple P (returnA x) Q E"
  by (simp add: triple_def)

lemma triple_throw [triple_rules]: "(\<And>s. P s \<Longrightarrow> E (OrteafError c) s) \<Longrightarrow> triple P (throwA c) Q E"
  by (simp add: triple_def throw_def)

lemma triple_if [triple_rules]:
  "(b \<Longrightarrow> triple P m Q E) \<Longrightarrow> (\<not> b \<Longrightarrow> triple P n Q E) \<Longrightarrow> triple P (if b then m else n) Q E"
  by simp

lemma triple_split:
  "(\<And>s. P s \<Longrightarrow> triple (\<lambda>t. t = s) m Q E) \<Longrightarrow> triple P m Q E"
  by (simp add: triple_def)

lemma triple_weaken:
  "triple P m Q E \<Longrightarrow> (\<And>s. P' s \<Longrightarrow> P s) \<Longrightarrow> (\<And>x s. Q x s \<Longrightarrow> Q' x s) \<Longrightarrow>
   (\<And>e s. E e s \<Longrightarrow> E' e s) \<Longrightarrow> triple P' m Q' E'"
  by (fastforce simp: triple_def split: prod.splits sum.splits)

text \<open>Reading a \<open>std::array\<close>; an index past its end is undefined behaviour.\<close>

definition ar_at :: "'a list \<Rightarrow> nat \<Rightarrow> 'a res" where
  "ar_at xs i = (if i < length xs then Inr (xs ! i) else Inl DanglingPointer)"

section \<open>Machine integers\<close>

type_synonym u8 = "8 word"
type_synonym u16 = "16 word"
type_synonym u32 = "32 word"
type_synonym u64 = "64 word"

text \<open>
  \<open>int64_t\<close> arithmetic: signed overflow is undefined in C++, so each operation that could overflow
  is checked and an overflow is the exception value \<open>SignedOverflow\<close>.
\<close>

definition fits_i64 :: "int \<Rightarrow> bool" where
  "fits_i64 x \<longleftrightarrow> - (2 ^ 63) \<le> x \<and> x < 2 ^ 63"

definition i64 :: "int \<Rightarrow> int res" where
  "i64 x = (if fits_i64 x then Inr x else Inl SignedOverflow)"

lemma i64_Inr_iff [simp]: "i64 x = Inr y \<longleftrightarrow> fits_i64 x \<and> y = x"
  by (auto simp: i64_def)

section \<open>Lists\<close>

named_theorems list_upd_simps \<open>rewrite rules for indexed updates\<close>

lemma nth_list_update_eq_if [list_upd_simps]:
  "i < length xs \<Longrightarrow> xs[i := x] ! j = (if i = j then x else xs ! j)"
  by (simp add: nth_list_update)

lemma map_upt_nth_eq: "map (\<lambda>i. xs ! i) [0..<length xs] = xs"
  by (rule map_nth)

lemma set_butlast_subset: "set (butlast xs) \<subseteq> set xs"
  by (meson in_set_butlastD subsetI)

lemma distinct_butlast_last:
  "xs \<noteq> [] \<Longrightarrow> distinct xs \<Longrightarrow> last xs \<notin> set (butlast xs)"
  by (metis append_butlast_last_id distinct_append list.set_intros(1) disjoint_iff)

lemma set_butlast_distinct:
  "xs \<noteq> [] \<Longrightarrow> distinct xs \<Longrightarrow> set (butlast xs) = set xs - {last xs}"
proof -
  assume "xs \<noteq> []" "distinct xs"
  then have "set xs = insert (last xs) (set (butlast xs))"
    by (metis append_butlast_last_id list.simps(15) rotate1.simps(2) set_rotate1)
  with distinct_butlast_last[OF \<open>xs \<noteq> []\<close> \<open>distinct xs\<close>] show ?thesis
    by auto
qed

lemma butlast_snoc_last: "xs \<noteq> [] \<Longrightarrow> butlast xs @ [last xs] = xs"
  by simp

text \<open>Counting the elements of a list that satisfy a predicate, under an indexed update.\<close>

definition cnt :: "('a \<Rightarrow> bool) \<Rightarrow> 'a list \<Rightarrow> nat" where
  "cnt Q xs = length (filter Q xs)"

lemma cnt_simps [simp]:
  "cnt Q [] = 0"
  "cnt Q (x # xs) = (if Q x then 1 else 0) + cnt Q xs"
  "cnt Q (xs @ ys) = cnt Q xs + cnt Q ys"
  by (simp_all add: cnt_def)

lemma cnt_update_add:
  "i < length xs \<Longrightarrow>
   cnt Q (xs[i := x]) + (if Q (xs ! i) then 1 else 0) = cnt Q xs + (if Q x then 1 else 0)"
proof (induction xs arbitrary: i)
  case (Cons y ys)
  then show ?case by (cases i) auto
qed simp

lemma cnt_update:
  assumes "i < length xs"
  shows "cnt Q (xs[i := x]) = (if Q x then 1 else 0) + cnt Q xs - (if Q (xs ! i) then 1 else 0)"
  using cnt_update_add[OF assms, of Q x] by simp

lemma cnt_pos: "i < length xs \<Longrightarrow> Q (xs ! i) \<Longrightarrow> 0 < cnt Q xs"
  by (auto simp: cnt_def filter_empty_conv)

lemma cnt_le_length: "cnt Q xs \<le> length xs"
  by (simp add: cnt_def)

lemma cnt_eq_0_iff: "cnt Q xs = 0 \<longleftrightarrow> (\<forall>x \<in> set xs. \<not> Q x)"
  by (simp add: cnt_def filter_empty_conv)

text \<open>A sequence of calls on a state, with all answers.\<close>

fun runs :: "('c \<Rightarrow> 's \<Rightarrow> 'a \<times> 's) \<Rightarrow> 'c list \<Rightarrow> 's \<Rightarrow> 'a list \<times> 's" where
  "runs f [] s = ([], s)"
| "runs f (x # xs) s = (let (a, s') = f x s; (rest, s'') = runs f xs s' in (a # rest, s''))"

end
