(* ===== verification/HeapVector.thy ===== *)
theory HeapVector
  imports Prelude
begin

text \<open>
  \<open>base/heap_vector.h\<close>: the growable array every other component stores its bookkeeping in.  The
  state is the constructed elements in order and the capacity of the one heap block; \<open>size_\<close> is
  the length of the list.  Element constructors are taken not to throw.
\<close>

record 'a heap_vector =
  hv_data :: "'a list"
  hv_capacity :: nat

definition hv_new :: "'a heap_vector" where
  "hv_new = \<lparr>hv_data = [], hv_capacity = 0\<rparr>"

definition hv_size :: "'a heap_vector \<Rightarrow> nat" where
  "hv_size v = length (hv_data v)"

definition hv_isEmpty :: "'a heap_vector \<Rightarrow> bool" where
  "hv_isEmpty v \<longleftrightarrow> hv_size v = 0"

definition hv_nth :: "'a heap_vector \<Rightarrow> nat \<Rightarrow> 'a" where
  "hv_nth v i = hv_data v ! i"

definition hv_set :: "'a heap_vector \<Rightarrow> nat \<Rightarrow> 'a \<Rightarrow> 'a heap_vector" where
  "hv_set v i x = v\<lparr>hv_data := (hv_data v)[i := x]\<rparr>"

definition hv_at :: "'a heap_vector \<Rightarrow> nat \<Rightarrow> 'a res" where
  "hv_at v i = (if i \<ge> hv_size v then Inl StdOutOfRange else Inr (hv_nth v i))"

definition hv_back :: "'a heap_vector \<Rightarrow> 'a" where
  "hv_back v = hv_nth v (hv_size v - 1)"

text \<open>\<open>reallocate\<close> moves every element to a block of the given capacity.\<close>

definition hv_reallocate :: "'a heap_vector \<Rightarrow> nat \<Rightarrow> 'a heap_vector" where
  "hv_reallocate v n = v\<lparr>hv_capacity := n\<rparr>"

text \<open>The loop \<open>while (new_cap < required) new_cap *= 2\<close>; it is entered with \<open>new_cap \<ge> 1\<close>.\<close>

function hv_double :: "nat \<Rightarrow> nat \<Rightarrow> nat" where
  "hv_double c required = (if 0 < c \<and> c < required then hv_double (c * 2) required else c)"
  by pat_completeness auto
termination
  by (relation "measure (\<lambda>(c, required). required - c)") auto

declare hv_double.simps [simp del]

definition hv_ensureCapacityFor :: "'a heap_vector \<Rightarrow> nat \<Rightarrow> 'a heap_vector" where
  "hv_ensureCapacityFor v required =
     (if required \<le> hv_capacity v then v
      else hv_reallocate v (hv_double (if hv_capacity v = 0 then 1 else hv_capacity v) required))"

definition hv_emplaceBack :: "'a heap_vector \<Rightarrow> 'a \<Rightarrow> 'a heap_vector" where
  "hv_emplaceBack v x =
     (let w = hv_ensureCapacityFor v (hv_size v + 1) in w\<lparr>hv_data := hv_data w @ [x]\<rparr>)"

definition hv_pushBack :: "'a heap_vector \<Rightarrow> 'a \<Rightarrow> 'a heap_vector" where
  "hv_pushBack v x = hv_emplaceBack v x"

definition hv_popBack :: "'a heap_vector \<Rightarrow> 'a heap_vector" where
  "hv_popBack v = (if hv_size v = 0 then v else v\<lparr>hv_data := butlast (hv_data v)\<rparr>)"

definition hv_reserve :: "'a heap_vector \<Rightarrow> nat \<Rightarrow> 'a heap_vector" where
  "hv_reserve v n = (if n \<le> hv_capacity v then v else hv_reallocate v n)"

text \<open>
  \<open>resize(n, value)\<close>; \<open>resize(n)\<close> is the same with the default-constructed element as value.
\<close>

definition hv_resize :: "'a heap_vector \<Rightarrow> nat \<Rightarrow> 'a \<Rightarrow> 'a heap_vector" where
  "hv_resize v n x =
     (if n < hv_size v then v\<lparr>hv_data := take n (hv_data v)\<rparr>
      else let w = hv_ensureCapacityFor v n
           in w\<lparr>hv_data := hv_data w @ replicate (n - hv_size v) x\<rparr>)"

definition hv_clear :: "'a heap_vector \<Rightarrow> 'a heap_vector" where
  "hv_clear v = v\<lparr>hv_data := []\<rparr>"

definition hv_shrinkToFit :: "'a heap_vector \<Rightarrow> 'a heap_vector" where
  "hv_shrinkToFit v =
     (if hv_size v = hv_capacity v then v
      else if hv_size v = 0 then v\<lparr>hv_capacity := 0\<rparr>
      else hv_reallocate v (hv_size v))"

text \<open>Copy construction, copy assignment and move assignment (the pair is target, source).\<close>

definition hv_copy :: "'a heap_vector \<Rightarrow> 'a heap_vector" where
  "hv_copy other =
     (if hv_size other = 0 then hv_new
      else \<lparr>hv_data = hv_data other, hv_capacity = hv_size other\<rparr>)"

definition hv_copyAssign :: "'a heap_vector \<Rightarrow> 'a heap_vector \<Rightarrow> 'a heap_vector" where
  "hv_copyAssign v other =
     (if hv_size other = 0 then (hv_clear v)\<lparr>hv_capacity := 0\<rparr>
      else if hv_capacity v < hv_size other
      then \<lparr>hv_data = hv_data other, hv_capacity = hv_size other\<rparr>
      else v\<lparr>hv_data := hv_data other\<rparr>)"

definition hv_moveAssign ::
  "'a heap_vector \<Rightarrow> 'a heap_vector \<Rightarrow> 'a heap_vector \<times> 'a heap_vector" where
  "hv_moveAssign v other =
     (\<lparr>hv_data = hv_data other, hv_capacity = hv_capacity other\<rparr>, hv_new)"

section \<open>Capacity and contents\<close>

definition hv_ok :: "'a heap_vector \<Rightarrow> bool" where
  "hv_ok v \<longleftrightarrow> hv_size v \<le> hv_capacity v"

lemma hv_double_ge: "0 < c \<Longrightarrow> required \<le> hv_double c required \<and> c \<le> hv_double c required"
proof (induction c required rule: hv_double.induct)
  case (1 c required)
  then show ?case
    by (cases "c < required") (auto simp: hv_double.simps[of c required])
qed

text \<open>Doubling never overshoots by a factor of two or more: growth is geometric.\<close>

lemma hv_double_lt: "0 < c \<Longrightarrow> c < required \<Longrightarrow> hv_double c required < 2 * required"
proof (induction c required rule: hv_double.induct)
  case (1 c required)
  then show ?case
    by (cases "c * 2 < required")
      (auto simp: hv_double.simps[of c required] hv_double.simps[of "c * 2" required])
qed

lemma hv_ensureCapacityFor_simps [simp]:
  "hv_data (hv_ensureCapacityFor v n) = hv_data v"
  "n \<le> hv_capacity (hv_ensureCapacityFor v n)"
  "hv_capacity v \<le> hv_capacity (hv_ensureCapacityFor v n)"
  using hv_double_ge[of "if hv_capacity v = 0 then 1 else hv_capacity v" n]
  by (auto simp: hv_ensureCapacityFor_def hv_reallocate_def)

lemma hv_data_ops [simp]:
  "hv_data hv_new = []"
  "hv_data (hv_set v i x) = (hv_data v)[i := x]"
  "hv_data (hv_reallocate v n) = hv_data v"
  "hv_data (hv_emplaceBack v x) = hv_data v @ [x]"
  "hv_data (hv_pushBack v x) = hv_data v @ [x]"
  "hv_data (hv_popBack v) = butlast (hv_data v)"
  "hv_data (hv_reserve v n) = hv_data v"
  "hv_data (hv_clear v) = []"
  "hv_data (hv_shrinkToFit v) = hv_data v"
  "hv_data (hv_copy v) = hv_data v"
  "hv_data (hv_copyAssign w v) = hv_data v"
  by (auto simp: hv_new_def hv_set_def hv_reallocate_def hv_emplaceBack_def hv_pushBack_def Let_def
      hv_popBack_def hv_size_def hv_reserve_def hv_clear_def hv_shrinkToFit_def hv_copy_def
      hv_copyAssign_def)

lemma hv_data_resize [simp]:
  "hv_data (hv_resize v n x) =
     (if n < hv_size v then take n (hv_data v)
      else hv_data v @ replicate (n - hv_size v) x)"
  by (simp add: hv_resize_def Let_def)

lemma hv_data_resize_down: "n \<le> hv_size v \<Longrightarrow> hv_data (hv_resize v n x) = take n (hv_data v)"
  by (auto simp: hv_size_def)

lemma hv_data_resize_pop [simp]:
  "hv_data (hv_resize v (hv_size v - Suc 0) x) = butlast (hv_data v)"
  by (cases "hv_data v") (auto simp: hv_size_def butlast_conv_take)

lemma hv_ok_ops:
  "hv_ok hv_new"
  "hv_ok v \<Longrightarrow> hv_ok (hv_set v i x)"
  "hv_ok v \<Longrightarrow> hv_ok (hv_emplaceBack v x)"
  "hv_ok v \<Longrightarrow> hv_ok (hv_pushBack v x)"
  "hv_ok v \<Longrightarrow> hv_ok (hv_popBack v)"
  "hv_ok v \<Longrightarrow> hv_ok (hv_reserve v n)"
  "hv_ok v \<Longrightarrow> hv_ok (hv_resize v n x)"
  "hv_ok v \<Longrightarrow> hv_ok (hv_clear v)"
  "hv_ok v \<Longrightarrow> hv_ok (hv_shrinkToFit v)"
  "hv_ok (hv_copy v)"
  "hv_ok (hv_copyAssign w v)"
  using hv_ensureCapacityFor_simps(2)[of "Suc (length (hv_data v))" v]
    hv_ensureCapacityFor_simps(2)[of n v]
  by (auto simp: hv_ok_def hv_size_def hv_new_def hv_set_def hv_emplaceBack_def hv_pushBack_def
      Let_def hv_popBack_def hv_reserve_def hv_reallocate_def hv_resize_def hv_clear_def
      hv_shrinkToFit_def hv_copy_def hv_copyAssign_def simp del: hv_ensureCapacityFor_simps(2))

section \<open>The vector interface\<close>

text \<open>
  What the pools rely on of a vector: an abstraction to a list, an invariant, and the list laws of
  appending, popping, reading and writing.
\<close>

locale vector =
  fixes empty :: "'v"
    and push :: "'v \<Rightarrow> 'a \<Rightarrow> 'v"
    and pop :: "'v \<Rightarrow> 'v"
    and nth_at :: "'v \<Rightarrow> nat \<Rightarrow> 'a"
    and set_at :: "'v \<Rightarrow> nat \<Rightarrow> 'a \<Rightarrow> 'v"
    and len :: "'v \<Rightarrow> nat"
    and list :: "'v \<Rightarrow> 'a list"
    and ok :: "'v \<Rightarrow> bool"
  assumes ok_empty: "ok empty"
    and list_empty: "list empty = []"
    and ok_push: "ok v \<Longrightarrow> ok (push v x)"
    and list_push: "ok v \<Longrightarrow> list (push v x) = list v @ [x]"
    and ok_pop: "ok v \<Longrightarrow> ok (pop v)"
    and list_pop: "ok v \<Longrightarrow> list (pop v) = butlast (list v)"
    and len: "ok v \<Longrightarrow> len v = length (list v)"
    and nth_at: "ok v \<Longrightarrow> i < len v \<Longrightarrow> nth_at v i = list v ! i"
    and ok_set: "ok v \<Longrightarrow> i < len v \<Longrightarrow> ok (set_at v i x)"
    and list_set: "ok v \<Longrightarrow> i < len v \<Longrightarrow> list (set_at v i x) = (list v)[i := x]"
begin

lemma ok_pushes: "ok v \<Longrightarrow> ok (foldl push v xs)"
  by (induction xs arbitrary: v) (auto simp: ok_push)

lemma list_pushes: "ok v \<Longrightarrow> list (foldl push v xs) = list v @ xs"
  by (induction xs arbitrary: v) (auto simp: ok_push list_push)

text \<open>Appending then popping is the identity on the contents: stack discipline.\<close>

lemma list_pop_push: "ok v \<Longrightarrow> list (pop (push v x)) = list v"
  by (simp add: ok_push list_push list_pop)

text \<open>Appending leaves the elements below in place; the new one is at the old length.\<close>

lemma nth_push:
  assumes "ok v" and "i \<le> len v"
  shows "nth_at (push v x) i = (if i = len v then x else nth_at v i)"
  using assms by (auto simp: nth_at ok_push list_push len nth_append)

lemma nth_pushes:
  assumes "ok v" and "i < length xs"
  shows "nth_at (foldl push v xs) (len v + i) = xs ! i"
  using assms by (simp add: nth_at ok_pushes list_pushes len nth_append)

lemma nth_set:
  assumes "ok v" "i < len v" "j < len v"
  shows "nth_at (set_at v i x) j = (if i = j then x else nth_at v j)"
proof -
  from assms have "len (set_at v i x) = len v"
    by (simp add: len ok_set list_set)
  with assms show ?thesis
    by (simp add: nth_at ok_set list_set len nth_list_update)
qed

end

interpretation hv: vector hv_new hv_pushBack hv_popBack hv_nth hv_set hv_size hv_data hv_ok
  by unfold_locales (auto simp: hv_ok_ops hv_size_def hv_nth_def)

section \<open>Properties\<close>

text \<open>A sequence of appends reads back in order, and its capacity stays within twice its length.\<close>

lemma hv_pushes_data: "hv_data (foldl hv_pushBack v xs) = hv_data v @ xs"
  by (induction xs arbitrary: v) auto

lemma hv_pushes_capacity:
  "hv_ok v \<Longrightarrow> hv_capacity (foldl hv_pushBack v xs) \<le> max (hv_capacity v) (2 * (hv_size v + length xs))"
proof (induction xs arbitrary: v)
  case Nil
  then show ?case by simp
next
  case (Cons x xs)
  let ?w = "hv_pushBack v x"
  let ?c = "if hv_capacity v = 0 then 1 else hv_capacity v"
  have "hv_capacity ?w \<le> max (hv_capacity v) (2 * (hv_size v + 1))"
    using hv_double_lt[of ?c "hv_size v + 1"]
    by (cases "?c < hv_size v + 1")
      (auto simp: hv_pushBack_def hv_emplaceBack_def hv_ensureCapacityFor_def hv_reallocate_def
        Let_def hv_double.simps[of ?c "Suc (hv_size v)"])
  moreover have "hv_size ?w = Suc (hv_size v)"
    by (simp add: hv_size_def)
  ultimately show ?case
    using Cons.IH[of ?w] Cons.prems by (simp add: hv_ok_ops)
qed

end
