(* ===== verification/BlockVector.thy ===== *)
theory BlockVector
  imports HeapVector
begin

text \<open>
  \<open>base/runtime_block_vector.h\<close>: the segmented vector the pools keep their payloads in.  Its
  promise is that growing never relocates an element, so raw pointers to payloads and control
  blocks stay valid; the model therefore has addresses.  \<open>rbv_mem\<close> maps an address to the object
  living there (\<open>None\<close> is raw storage), \<open>rbv_blocks\<close> holds the base addresses of the blocks, and
  \<open>operator new\<close> hands out the next free addresses from \<open>rbv_brk\<close>.  \<open>rbv_list\<close> is the abstraction
  to the sequence of elements.
\<close>

record 'a rbv =
  rbv_blocks :: "nat heap_vector"
  rbv_size :: nat
  rbv_capacity :: nat
  rbv_block_size :: nat
  rbv_mem :: "nat \<Rightarrow> 'a option"
  rbv_brk :: nat

definition rbv_new :: "nat \<Rightarrow> 'a rbv res" where
  "rbv_new bs =
     (if bs = 0 then Inl StdInvalidArgument
      else Inr \<lparr>rbv_blocks = hv_new, rbv_size = 0, rbv_capacity = 0, rbv_block_size = bs,
                rbv_mem = (\<lambda>_. None), rbv_brk = 0\<rparr>)"

text \<open>The default-constructed vector has block size 64.\<close>

definition rbv_default :: "'a rbv" where
  "rbv_default = \<lparr>rbv_blocks = hv_new, rbv_size = 0, rbv_capacity = 0, rbv_block_size = 64,
                  rbv_mem = (\<lambda>_. None), rbv_brk = 0\<rparr>"

definition rbv_isEmpty :: "'a rbv \<Rightarrow> bool" where
  "rbv_isEmpty v \<longleftrightarrow> rbv_size v = 0"

definition rbv_ptrAt :: "'a rbv \<Rightarrow> nat \<Rightarrow> nat" where
  "rbv_ptrAt v idx =
     (let block_index = idx div rbv_block_size v; offset = idx mod rbv_block_size v
      in hv_nth (rbv_blocks v) block_index + offset)"

definition rbv_allocateBlock :: "'a rbv \<Rightarrow> nat \<times> 'a rbv" where
  "rbv_allocateBlock v = (rbv_brk v, v\<lparr>rbv_brk := rbv_brk v + rbv_block_size v\<rparr>)"

text \<open>The loop \<open>while (blocks_.size() < needed_blocks) blocks_.pushBack(allocateBlock())\<close>.\<close>

function rbv_addBlocks :: "'a rbv \<Rightarrow> nat \<Rightarrow> 'a rbv" where
  "rbv_addBlocks v needed =
     (if hv_size (rbv_blocks v) < needed
      then (let (p, w) = rbv_allocateBlock v
            in rbv_addBlocks (w\<lparr>rbv_blocks := hv_pushBack (rbv_blocks w) p\<rparr>) needed)
      else v)"
  by pat_completeness auto
termination
  by (relation "measure (\<lambda>(v, needed). needed - hv_size (rbv_blocks v))")
    (auto simp: rbv_allocateBlock_def hv_size_def)

declare rbv_addBlocks.simps [simp del]

definition rbv_ensureCapacityFor :: "'a rbv \<Rightarrow> nat \<Rightarrow> 'a rbv" where
  "rbv_ensureCapacityFor v required =
     (if required \<le> rbv_capacity v then v
      else let needed_blocks = (required + rbv_block_size v - 1) div rbv_block_size v;
               w = rbv_addBlocks v needed_blocks
           in w\<lparr>rbv_capacity := hv_size (rbv_blocks w) * rbv_block_size w\<rparr>)"

text \<open>Placement new of \<open>x\<close> at the given index, and destruction of the elements of a range.\<close>

definition rbv_construct :: "'a rbv \<Rightarrow> nat \<Rightarrow> 'a \<Rightarrow> 'a rbv" where
  "rbv_construct v i x = v\<lparr>rbv_mem := (rbv_mem v)(rbv_ptrAt v i := Some x)\<rparr>"

definition rbv_destroyRange :: "'a rbv \<Rightarrow> nat \<Rightarrow> nat \<Rightarrow> 'a rbv" where
  "rbv_destroyRange v b e =
     foldl (\<lambda>w i. w\<lparr>rbv_mem := (rbv_mem w)(rbv_ptrAt w i := None)\<rparr>) v [b..<e]"

definition rbv_resize :: "'a rbv \<Rightarrow> nat \<Rightarrow> 'a \<Rightarrow> 'a rbv" where
  "rbv_resize v n dflt =
     (if n < rbv_size v then (rbv_destroyRange v n (rbv_size v))\<lparr>rbv_size := n\<rparr>
      else let w = rbv_ensureCapacityFor v n;
               w' = foldl (\<lambda>w i. rbv_construct w i dflt) w [rbv_size v..<n]
           in w'\<lparr>rbv_size := n\<rparr>)"

definition rbv_emplaceBack :: "'a rbv \<Rightarrow> 'a \<Rightarrow> 'a rbv" where
  "rbv_emplaceBack v x =
     (let w = rbv_ensureCapacityFor v (rbv_size v + 1)
      in (rbv_construct w (rbv_size w) x)\<lparr>rbv_size := rbv_size w + 1\<rparr>)"

definition rbv_popBack :: "'a rbv \<Rightarrow> 'a rbv" where
  "rbv_popBack v =
     (if rbv_size v = 0 then v
      else (rbv_destroyRange v (rbv_size v - 1) (rbv_size v))\<lparr>rbv_size := rbv_size v - 1\<rparr>)"

definition rbv_clear :: "'a rbv \<Rightarrow> 'a rbv" where
  "rbv_clear v = (rbv_destroyRange v 0 (rbv_size v))\<lparr>rbv_size := 0\<rparr>"

definition rbv_reserve :: "'a rbv \<Rightarrow> nat \<Rightarrow> 'a rbv" where
  "rbv_reserve v n = (if n \<le> rbv_capacity v then v else rbv_ensureCapacityFor v n)"

text \<open>Element access: \<open>operator[]\<close> (unchecked), assignment through it, and the checked \<open>at\<close>.\<close>

definition rbv_nth :: "'a rbv \<Rightarrow> nat \<Rightarrow> 'a" where
  "rbv_nth v i = the (rbv_mem v (rbv_ptrAt v i))"

definition rbv_set :: "'a rbv \<Rightarrow> nat \<Rightarrow> 'a \<Rightarrow> 'a rbv" where
  "rbv_set v i x = v\<lparr>rbv_mem := (rbv_mem v)(rbv_ptrAt v i \<mapsto> x)\<rparr>"

definition rbv_at :: "'a rbv \<Rightarrow> nat \<Rightarrow> 'a res" where
  "rbv_at v i = (if i \<ge> rbv_size v then Inl StdOutOfRange else Inr (rbv_nth v i))"

text \<open>
  \<open>rebuildStorage\<close>: allocate the new blocks, move every element, destroy the old elements and free
  the old blocks.  The new vector is built beside the old one in the same memory.
\<close>

definition rbv_newBlocks :: "'a rbv \<Rightarrow> nat \<Rightarrow> nat \<Rightarrow> 'a rbv" where
  "rbv_newBlocks v new_bs needed =
     rbv_addBlocks (v\<lparr>rbv_blocks := hv_reserve hv_new needed, rbv_block_size := new_bs\<rparr>) needed"

definition rbv_rebuildStorage :: "'a rbv \<Rightarrow> nat \<Rightarrow> 'a rbv" where
  "rbv_rebuildStorage v new_bs =
     (let count = rbv_size v;
          needed_blocks = (if count = 0 then 0 else (count + new_bs - 1) div new_bs);
          w = rbv_newBlocks v new_bs needed_blocks;
          moved = foldl (\<lambda>w i. rbv_construct w i (rbv_nth v i)) w [0..<count];
          old = rbv_destroyRange (v\<lparr>rbv_mem := rbv_mem moved\<rparr>) 0 count
      in moved\<lparr>rbv_mem := rbv_mem old,
               rbv_capacity := hv_size (rbv_blocks moved) * new_bs\<rparr>)"

definition rbv_resizeBlocks :: "'a rbv \<Rightarrow> nat \<Rightarrow> 'a rbv res" where
  "rbv_resizeBlocks v bs =
     (if bs = 0 then Inl StdInvalidArgument
      else if rbv_block_size v = bs then Inr v
      else Inr (rbv_rebuildStorage v bs))"

section \<open>Invariant and abstraction\<close>

definition rbv_list :: "'a rbv \<Rightarrow> 'a list" where
  "rbv_list v = map (rbv_nth v) [0..<rbv_size v]"

text \<open>
  Blocks lie below \<open>rbv_brk\<close> and do not overlap; the capacity is what the blocks hold; exactly the
  first \<open>size\<close> cells hold objects.
\<close>

definition rbv_ok :: "'a rbv \<Rightarrow> bool" where
  "rbv_ok v \<longleftrightarrow>
     0 < rbv_block_size v \<and>
     rbv_capacity v = hv_size (rbv_blocks v) * rbv_block_size v \<and>
     rbv_size v \<le> rbv_capacity v \<and>
     (\<forall>a < hv_size (rbv_blocks v). hv_nth (rbv_blocks v) a + rbv_block_size v \<le> rbv_brk v) \<and>
     (\<forall>a < hv_size (rbv_blocks v). \<forall>b < a.
        hv_nth (rbv_blocks v) b + rbv_block_size v \<le> hv_nth (rbv_blocks v) a) \<and>
     (\<forall>p. rbv_mem v p \<noteq> None \<longleftrightarrow> (\<exists>i < rbv_size v. p = rbv_ptrAt v i))"

lemmas rbv_ops_def =
  rbv_construct_def rbv_set_def rbv_popBack_def rbv_clear_def rbv_reserve_def

lemma rbv_construct_eq_set: "rbv_construct v i x = rbv_set v i x"
  by (simp add: rbv_construct_def rbv_set_def)

lemma rbv_okD:
  assumes "rbv_ok v"
  shows "0 < rbv_block_size v"
    and "rbv_capacity v = hv_size (rbv_blocks v) * rbv_block_size v"
    and "rbv_size v \<le> rbv_capacity v"
    and "rbv_mem v p \<noteq> None \<longleftrightarrow> (\<exists>i < rbv_size v. p = rbv_ptrAt v i)"
    and "a < hv_size (rbv_blocks v) \<Longrightarrow> hv_nth (rbv_blocks v) a + rbv_block_size v \<le> rbv_brk v"
    and "a < hv_size (rbv_blocks v) \<Longrightarrow> b < a \<Longrightarrow>
      hv_nth (rbv_blocks v) b + rbv_block_size v \<le> hv_nth (rbv_blocks v) a"
  using assms unfolding rbv_ok_def by (blast+)

lemma rbv_length_list [simp]: "length (rbv_list v) = rbv_size v"
  by (simp add: rbv_list_def)

lemma rbv_nth_list: "i < rbv_size v \<Longrightarrow> rbv_list v ! i = rbv_nth v i"
  by (simp add: rbv_list_def)

subsection \<open>Addresses\<close>

lemma rbv_block_index: "i < n * (bs::nat) \<Longrightarrow> i div bs < n"
  by (simp add: less_mult_imp_div_less)

lemma rbv_ptrAt_less_brk:
  assumes "rbv_ok v" "i < rbv_capacity v"
  shows "rbv_ptrAt v i < rbv_brk v"
proof -
  have "i div rbv_block_size v < hv_size (rbv_blocks v)"
    using assms by (simp add: rbv_okD(2) rbv_block_index)
  from rbv_okD(5)[OF assms(1) this] show ?thesis
    using mod_less_divisor[OF rbv_okD(1)[OF assms(1)], of i]
    by (simp add: rbv_ptrAt_def Let_def)
qed

text \<open>Different indices below the capacity have different addresses.\<close>

lemma rbv_ptrAt_inj:
  assumes ok: "rbv_ok v" and i: "i < rbv_capacity v" and j: "j < rbv_capacity v"
    and eq: "rbv_ptrAt v i = rbv_ptrAt v j"
  shows "i = j"
proof -
  let ?bs = "rbv_block_size v" and ?B = "hv_nth (rbv_blocks v)"
  have bi: "i div ?bs < hv_size (rbv_blocks v)" and bj: "j div ?bs < hv_size (rbv_blocks v)"
    using i j ok by (simp_all add: rbv_okD(2) rbv_block_index)
  have mi: "i mod ?bs < ?bs" and mj: "j mod ?bs < ?bs"
    using rbv_okD(1)[OF ok] by simp_all
  from eq have eq': "?B (i div ?bs) + i mod ?bs = ?B (j div ?bs) + j mod ?bs"
    by (simp add: rbv_ptrAt_def Let_def)
  have "\<not> i div ?bs < j div ?bs"
    using eq' mi rbv_okD(6)[OF ok bj, of "i div ?bs"] by linarith
  moreover have "\<not> j div ?bs < i div ?bs"
    using eq' mj rbv_okD(6)[OF ok bi, of "j div ?bs"] by linarith
  ultimately have "i div ?bs = j div ?bs"
    by simp
  with eq' have "i mod ?bs = j mod ?bs"
    by simp
  with \<open>i div ?bs = j div ?bs\<close> show ?thesis
    by (metis div_mult_mod_eq)
qed

lemma rbv_ptrAt_cong:
  "rbv_blocks w = rbv_blocks v \<Longrightarrow> rbv_block_size w = rbv_block_size v \<Longrightarrow>
   rbv_ptrAt w i = rbv_ptrAt v i"
  by (simp add: rbv_ptrAt_def)

lemma rbv_ptrAt_upds [simp]:
  "rbv_ptrAt (v\<lparr>rbv_mem := m\<rparr>) i = rbv_ptrAt v i"
  "rbv_ptrAt (v\<lparr>rbv_size := n\<rparr>) i = rbv_ptrAt v i"
  "rbv_ptrAt (v\<lparr>rbv_capacity := c\<rparr>) i = rbv_ptrAt v i"
  "rbv_ptrAt (rbv_construct v k x) i = rbv_ptrAt v i"
  "rbv_ptrAt (rbv_set v k x) i = rbv_ptrAt v i"
  by (simp_all add: rbv_ptrAt_def rbv_construct_def rbv_set_def)

subsection \<open>Growing\<close>

text \<open>What a growth step guarantees: nothing but blocks, break and capacity changes.\<close>

definition rbv_extends :: "'a rbv \<Rightarrow> 'a rbv \<Rightarrow> bool" where
  "rbv_extends v w \<longleftrightarrow>
     rbv_mem w = rbv_mem v \<and> rbv_size w = rbv_size v \<and> rbv_block_size w = rbv_block_size v \<and>
     (\<exists>bs. hv_data (rbv_blocks w) = hv_data (rbv_blocks v) @ bs)"

lemma rbv_extends_ptrAt:
  assumes "rbv_extends v w" "i < hv_size (rbv_blocks v) * rbv_block_size v"
  shows "rbv_ptrAt w i = rbv_ptrAt v i"
proof -
  have "i div rbv_block_size v < hv_size (rbv_blocks v)"
    using assms(2) by (rule rbv_block_index)
  with assms(1) show ?thesis
    by (auto simp: rbv_extends_def rbv_ptrAt_def Let_def hv_nth_def hv_size_def nth_append)
qed

text \<open>The block geometry part of the invariant, kept by adding blocks at the break.\<close>

definition rbv_geometry :: "'a rbv \<Rightarrow> bool" where
  "rbv_geometry v \<longleftrightarrow> 0 < rbv_block_size v \<and>
     (\<forall>a < hv_size (rbv_blocks v). hv_nth (rbv_blocks v) a + rbv_block_size v \<le> rbv_brk v) \<and>
     (\<forall>a < hv_size (rbv_blocks v). \<forall>b < a.
        hv_nth (rbv_blocks v) b + rbv_block_size v \<le> hv_nth (rbv_blocks v) a)"

lemma rbv_geometry_add:
  assumes "rbv_geometry v"
  shows "rbv_geometry (v\<lparr>rbv_brk := rbv_brk v + rbv_block_size v,
    rbv_blocks := hv_pushBack (rbv_blocks v) (rbv_brk v)\<rparr>)"
  using assms unfolding rbv_geometry_def
  by (auto simp: hv_size_def hv_nth_def nth_append less_Suc_eq_le le_less add_increasing2)

lemma rbv_addBlocks_spec:
  assumes "rbv_geometry v"
  shows "rbv_geometry (rbv_addBlocks v needed) \<and> rbv_extends v (rbv_addBlocks v needed) \<and>
    hv_size (rbv_blocks (rbv_addBlocks v needed)) = max (hv_size (rbv_blocks v)) needed \<and>
    rbv_capacity (rbv_addBlocks v needed) = rbv_capacity v \<and>
    rbv_brk v \<le> rbv_brk (rbv_addBlocks v needed) \<and>
    (\<forall>a < hv_size (rbv_blocks (rbv_addBlocks v needed)).
       hv_size (rbv_blocks v) \<le> a \<longrightarrow> rbv_brk v \<le> hv_nth (rbv_blocks (rbv_addBlocks v needed)) a)"
  using assms
proof (induction v needed rule: rbv_addBlocks.induct)
  case (1 v needed)
  let ?w = "v\<lparr>rbv_brk := rbv_brk v + rbv_block_size v,
    rbv_blocks := hv_pushBack (rbv_blocks v) (rbv_brk v)\<rparr>"
  show ?case
  proof (cases "hv_size (rbv_blocks v) < needed")
    case True
    have eq: "rbv_addBlocks v needed = rbv_addBlocks ?w needed"
      using True by (subst rbv_addBlocks.simps) (simp add: rbv_allocateBlock_def)
    have "rbv_geometry ?w"
      using "1.prems" by (rule rbv_geometry_add)
    with "1.IH"[OF True] True
    have IH: "rbv_geometry (rbv_addBlocks ?w needed) \<and> rbv_extends ?w (rbv_addBlocks ?w needed) \<and>
      hv_size (rbv_blocks (rbv_addBlocks ?w needed)) = max (hv_size (rbv_blocks ?w)) needed \<and>
      rbv_capacity (rbv_addBlocks ?w needed) = rbv_capacity ?w \<and>
      rbv_brk ?w \<le> rbv_brk (rbv_addBlocks ?w needed) \<and>
      (\<forall>a < hv_size (rbv_blocks (rbv_addBlocks ?w needed)).
        hv_size (rbv_blocks ?w) \<le> a \<longrightarrow> rbv_brk ?w \<le> hv_nth (rbv_blocks (rbv_addBlocks ?w needed)) a)"
      by (simp add: rbv_allocateBlock_def)
    have "rbv_brk v \<le> hv_nth (rbv_blocks (rbv_addBlocks ?w needed)) a"
      if "a < hv_size (rbv_blocks (rbv_addBlocks ?w needed))" "hv_size (rbv_blocks v) \<le> a" for a
    proof (cases "a = hv_size (rbv_blocks v)")
      case True
      then show ?thesis
        using IH by (auto simp: rbv_extends_def hv_nth_def hv_size_def nth_append)
    next
      case False
      with that IH have "rbv_brk ?w \<le> hv_nth (rbv_blocks (rbv_addBlocks ?w needed)) a"
        by (auto simp: hv_size_def)
      then show ?thesis by simp
    qed
    then show ?thesis
      using True IH unfolding eq by (auto simp: rbv_extends_def hv_size_def)
  next
    case False
    then show ?thesis
      using "1.prems" by (simp add: rbv_addBlocks.simps[of v needed] rbv_extends_def)
  qed
qed

lemma rbv_ceil_div: "0 < (bs::nat) \<Longrightarrow> n \<le> (n + bs - 1) div bs * bs"
  using dividend_less_div_times[of bs "n + bs - 1"] by linarith

lemma rbv_geometryI: "rbv_ok v \<Longrightarrow> rbv_geometry v"
  by (simp add: rbv_ok_def rbv_geometry_def)

lemma rbv_okI:
  assumes "rbv_geometry v" "rbv_capacity v = hv_size (rbv_blocks v) * rbv_block_size v"
    "rbv_size v \<le> rbv_capacity v"
    "\<And>p. rbv_mem v p \<noteq> None \<longleftrightarrow> (\<exists>i < rbv_size v. p = rbv_ptrAt v i)"
  shows "rbv_ok v"
  using assms by (simp add: rbv_ok_def rbv_geometry_def)

lemma rbv_ok_setcap:
  assumes ok: "rbv_ok v" and geo: "rbv_geometry w" and ext: "rbv_extends v w"
    and "hv_size (rbv_blocks v) \<le> hv_size (rbv_blocks w)"
  shows "rbv_ok (w\<lparr>rbv_capacity := hv_size (rbv_blocks w) * rbv_block_size w\<rparr>)"
proof (rule rbv_okI, goal_cases)
  case 1
  then show ?case using geo by (simp add: rbv_geometry_def)
next
  case 2
  then show ?case by simp
next
  case 3
  have "rbv_size v \<le> hv_size (rbv_blocks v) * rbv_block_size v"
    using rbv_okD(2,3)[OF ok] by simp
  also have "\<dots> \<le> hv_size (rbv_blocks w) * rbv_block_size w"
    using assms(4) ext by (simp add: rbv_extends_def)
  finally show ?case using ext by (simp add: rbv_extends_def)
next
  case (4 p)
  have "rbv_ptrAt w i = rbv_ptrAt v i" if "i < rbv_size v" for i
    using that ext rbv_okD(2,3)[OF ok] by (intro rbv_extends_ptrAt) auto
  then show ?case
    using rbv_okD(4)[OF ok] ext by (auto simp: rbv_extends_def)
qed

lemma rbv_ensureCapacityFor_spec:
  fixes n :: nat
  assumes ok: "rbv_ok v"
  defines "w \<equiv> rbv_ensureCapacityFor v n"
  shows "rbv_ok w" and "rbv_extends v w" and "n \<le> rbv_capacity w"
    and "rbv_capacity v \<le> rbv_capacity w"
proof -
  let ?needed = "(n + rbv_block_size v - 1) div rbv_block_size v"
  let ?g = "rbv_addBlocks v ?needed"
  note spec = rbv_addBlocks_spec[OF rbv_geometryI[OF ok], of ?needed]
  have bs: "0 < rbv_block_size v" by (rule rbv_okD(1)[OF ok])
  have bsg: "rbv_block_size ?g = rbv_block_size v"
    using spec by (simp add: rbv_extends_def)
  have w: "w = (if n \<le> rbv_capacity v then v
      else ?g\<lparr>rbv_capacity := hv_size (rbv_blocks ?g) * rbv_block_size ?g\<rparr>)"
    by (simp add: w_def rbv_ensureCapacityFor_def Let_def)
  have "rbv_ok (?g\<lparr>rbv_capacity := hv_size (rbv_blocks ?g) * rbv_block_size ?g\<rparr>)"
    using spec by (intro rbv_ok_setcap[OF ok]) auto
  then show "rbv_ok w" using ok by (simp add: w)
  show "rbv_extends v w"
    using spec by (auto simp: w rbv_extends_def)
  have "n \<le> ?needed * rbv_block_size v" using bs by (rule rbv_ceil_div)
  also have "\<dots> \<le> max (hv_size (rbv_blocks v)) ?needed * rbv_block_size v" by simp
  finally show "n \<le> rbv_capacity w"
    using spec bsg by (simp add: w)
  show "rbv_capacity v \<le> rbv_capacity w"
    using spec bsg rbv_okD(2)[OF ok] by (simp add: w)
qed

lemma rbv_list_extends:
  assumes "rbv_ok v" "rbv_extends v w"
  shows "rbv_list w = rbv_list v"
proof -
  have "rbv_ptrAt w i = rbv_ptrAt v i" if "i < rbv_size v" for i
    using that assms rbv_okD(2,3)[OF assms(1)] by (intro rbv_extends_ptrAt) auto
  with assms(2) show ?thesis
    by (auto simp: rbv_list_def rbv_nth_def rbv_extends_def)
qed

subsection \<open>Constructing, writing and destroying elements\<close>

lemma rbv_construct_next:
  assumes ok: "rbv_ok v" and room: "rbv_size v < rbv_capacity v"
  shows "rbv_ok ((rbv_construct v (rbv_size v) x)\<lparr>rbv_size := Suc (rbv_size v)\<rparr>)"
    and "rbv_list ((rbv_construct v (rbv_size v) x)\<lparr>rbv_size := Suc (rbv_size v)\<rparr>) = rbv_list v @ [x]"
proof -
  have new: "rbv_ptrAt v i \<noteq> rbv_ptrAt v (rbv_size v)" if "i < rbv_size v" for i
    using rbv_ptrAt_inj[OF ok _ room, of i] that room by auto
  show "rbv_ok ((rbv_construct v (rbv_size v) x)\<lparr>rbv_size := Suc (rbv_size v)\<rparr>)"
    using rbv_geometryI[OF ok] room rbv_okD(2)[OF ok] rbv_okD(4)[OF ok] 
    by (intro rbv_okI) (auto simp: rbv_geometry_def rbv_construct_def rbv_ptrAt_def less_Suc_eq)
  show "rbv_list ((rbv_construct v (rbv_size v) x)\<lparr>rbv_size := Suc (rbv_size v)\<rparr>) = rbv_list v @ [x]"
    using new by (auto simp: rbv_list_def rbv_nth_def rbv_construct_def)
qed

lemma rbv_set_spec:
  assumes ok: "rbv_ok v" and i: "i < rbv_size v"
  shows "rbv_ok (rbv_set v i x)" and "rbv_list (rbv_set v i x) = (rbv_list v)[i := x]"
proof -
  have icap: "i < rbv_capacity v" using i rbv_okD(3)[OF ok] by simp
  have other: "rbv_ptrAt v j \<noteq> rbv_ptrAt v i" if "j < rbv_size v" "j \<noteq> i" for j
    using rbv_ptrAt_inj[OF ok _ icap, of j] that rbv_okD(3)[OF ok] by auto
  show "rbv_ok (rbv_set v i x)"
    using rbv_geometryI[OF ok] rbv_okD(2,3)[OF ok] rbv_okD(4)[OF ok] i
    by (intro rbv_okI) (auto simp: rbv_geometry_def rbv_set_def)
  show "rbv_list (rbv_set v i x) = (rbv_list v)[i := x]"
    using other i by (auto simp: list_eq_iff_nth_eq rbv_list_def rbv_nth_def rbv_set_def nth_list_update)
qed

lemma rbv_destroyRange_eq:
  "rbv_destroyRange v b e =
     v\<lparr>rbv_mem := (\<lambda>p. if \<exists>i. b \<le> i \<and> i < e \<and> p = rbv_ptrAt v i then None else rbv_mem v p)\<rparr>"
proof (induction e)
  case 0
  then show ?case by (simp add: rbv_destroyRange_def)
next
  case (Suc e)
  show ?case
  proof (cases "b \<le> e")
    case True
    then have "rbv_destroyRange v b (Suc e) =
        (rbv_destroyRange v b e)\<lparr>rbv_mem := (rbv_mem (rbv_destroyRange v b e))
          (rbv_ptrAt (rbv_destroyRange v b e) e := None)\<rparr>"
      by (simp add: rbv_destroyRange_def)
    moreover have "(\<lambda>p. if \<exists>i\<ge>b. i < e \<and> p = rbv_ptrAt v i then None else rbv_mem v p)
          (rbv_ptrAt v e := None) =
        (\<lambda>p. if \<exists>i. b \<le> i \<and> i < Suc e \<and> p = rbv_ptrAt v i then None else rbv_mem v p)"
      using True by (auto simp: fun_eq_iff less_Suc_eq)
    ultimately show ?thesis
      unfolding Suc.IH by simp
  next
    case False
    then have "(\<lambda>p. if \<exists>i. b \<le> i \<and> i < Suc e \<and> p = rbv_ptrAt v i then None else rbv_mem v p) = rbv_mem v"
      by (auto simp: fun_eq_iff)
    moreover have "rbv_destroyRange v b (Suc e) = v"
      using False by (simp add: rbv_destroyRange_def)
    ultimately show ?thesis
      by simp
  qed
qed

text \<open>Shrinking to \<open>n\<close> elements: used by \<open>resize\<close>, \<open>popBack\<close> and \<open>clear\<close>.\<close>

lemma rbv_shrink_spec:
  assumes ok: "rbv_ok v" and n: "n \<le> rbv_size v"
  shows "rbv_ok ((rbv_destroyRange v n (rbv_size v))\<lparr>rbv_size := n\<rparr>)"
    and "rbv_list ((rbv_destroyRange v n (rbv_size v))\<lparr>rbv_size := n\<rparr>) = take n (rbv_list v)"
proof -
  have other: "rbv_ptrAt v i \<noteq> rbv_ptrAt v j" if "i < n" "n \<le> j" "j < rbv_size v" for i j
    using rbv_ptrAt_inj[OF ok, of i j] that rbv_okD(3)[OF ok] by auto
  have mem: "(\<exists>i\<ge>n. i < rbv_size v \<and> p = rbv_ptrAt v i) \<or> rbv_mem v p = None \<longleftrightarrow>
      \<not> (\<exists>i<n. p = rbv_ptrAt v i)" for p
    using rbv_okD(4)[OF ok, of p] other n
    by (metis leI less_le_trans)
  have mem': "rbv_mem ((rbv_destroyRange v n (rbv_size v))\<lparr>rbv_size := n\<rparr>) p \<noteq> None \<longleftrightarrow>
      (\<exists>i<n. p = rbv_ptrAt v i)" for p
  proof -
    have "rbv_mem ((rbv_destroyRange v n (rbv_size v))\<lparr>rbv_size := n\<rparr>) p \<noteq> None \<longleftrightarrow>
        \<not> ((\<exists>i\<ge>n. i < rbv_size v \<and> p = rbv_ptrAt v i) \<or> rbv_mem v p = None)"
      by (auto simp: rbv_destroyRange_eq simp del: not_None_eq)
    then show ?thesis
      unfolding mem by simp
  qed
  show "rbv_ok ((rbv_destroyRange v n (rbv_size v))\<lparr>rbv_size := n\<rparr>)"
    using rbv_geometryI[OF ok] rbv_okD(2,3)[OF ok] n mem'
    by (intro rbv_okI) (auto simp: rbv_geometry_def rbv_destroyRange_eq simp del: not_None_eq)
  show "rbv_list ((rbv_destroyRange v n (rbv_size v))\<lparr>rbv_size := n\<rparr>) = take n (rbv_list v)"
    using other n by (auto simp: list_eq_iff_nth_eq rbv_list_def rbv_nth_def rbv_destroyRange_eq)
qed

subsection \<open>The list laws\<close>

lemma rbv_default_spec [simp]: "rbv_ok rbv_default" "rbv_list rbv_default = []" "rbv_size rbv_default = 0"
  by (simp_all add: rbv_ok_def rbv_default_def rbv_list_def hv_size_def)

lemma rbv_emplaceBack_spec:
  assumes ok: "rbv_ok v"
  shows "rbv_ok (rbv_emplaceBack v x)" and "rbv_list (rbv_emplaceBack v x) = rbv_list v @ [x]"
proof -
  let ?w = "rbv_ensureCapacityFor v (Suc (rbv_size v))"
  note w = rbv_ensureCapacityFor_spec[OF ok, of "Suc (rbv_size v)"]
  have sz: "rbv_size ?w = rbv_size v" using w(2) by (simp add: rbv_extends_def)
  have room: "rbv_size ?w < rbv_capacity ?w" using w(3) sz by simp
  have eq: "rbv_emplaceBack v x = (rbv_construct ?w (rbv_size ?w) x)\<lparr>rbv_size := Suc (rbv_size ?w)\<rparr>"
    by (simp add: rbv_emplaceBack_def Let_def)
  show "rbv_ok (rbv_emplaceBack v x)"
    unfolding eq by (rule rbv_construct_next(1)[OF w(1) room])
  show "rbv_list (rbv_emplaceBack v x) = rbv_list v @ [x]"
    unfolding eq using rbv_construct_next(2)[OF w(1) room, of x] rbv_list_extends[OF ok w(2)] by simp
qed

lemma rbv_popBack_spec:
  assumes ok: "rbv_ok v"
  shows "rbv_ok (rbv_popBack v)" and "rbv_list (rbv_popBack v) = butlast (rbv_list v)"
  using rbv_shrink_spec[OF ok, of "rbv_size v - 1"] ok
  by (cases "rbv_size v = 0"; simp add: rbv_popBack_def butlast_conv_take rbv_list_def)+

lemma rbv_clear_spec:
  assumes ok: "rbv_ok v"
  shows "rbv_ok (rbv_clear v)" and "rbv_list (rbv_clear v) = []" and "rbv_size (rbv_clear v) = 0"
  using rbv_shrink_spec[OF ok, of 0] by (simp_all add: rbv_clear_def)

lemma rbv_reserve_spec:
  assumes ok: "rbv_ok v"
  shows "rbv_ok (rbv_reserve v n)" and "rbv_list (rbv_reserve v n) = rbv_list v"
    and "n \<le> rbv_capacity (rbv_reserve v n)"
  using rbv_ensureCapacityFor_spec[OF ok, of n] rbv_list_extends[OF ok] ok
  by (auto simp: rbv_reserve_def)

lemma rbv_construct_many:
  assumes "rbv_ok v" "rbv_size v + k \<le> rbv_capacity v"
  shows "rbv_ok ((foldl (\<lambda>w i. rbv_construct w i x) v [rbv_size v..<rbv_size v + k])
      \<lparr>rbv_size := rbv_size v + k\<rparr>) \<and>
    rbv_list ((foldl (\<lambda>w i. rbv_construct w i x) v [rbv_size v..<rbv_size v + k])
      \<lparr>rbv_size := rbv_size v + k\<rparr>) = rbv_list v @ replicate k x"
  using assms
proof (induction k)
  case 0
  then show ?case by simp
next
  case (Suc k)
  let ?f = "foldl (\<lambda>w i. rbv_construct w i x) v [rbv_size v..<rbv_size v + k]"
  let ?u = "?f\<lparr>rbv_size := rbv_size v + k\<rparr>"
  have inv: "rbv_capacity (foldl (\<lambda>w i. rbv_construct w i x) v is) = rbv_capacity v" for "is"
    by (induction "is" rule: rev_induct) (simp_all add: rbv_construct_def)
  have IH: "rbv_ok ?u" "rbv_list ?u = rbv_list v @ replicate k x"
    using Suc by simp_all
  have "(foldl (\<lambda>w i. rbv_construct w i x) v [rbv_size v..<rbv_size v + Suc k])\<lparr>rbv_size := rbv_size v + Suc k\<rparr>
      = (rbv_construct ?u (rbv_size ?u) x)\<lparr>rbv_size := Suc (rbv_size ?u)\<rparr>"
    by (simp add: rbv_construct_def)
  moreover have "rbv_size ?u < rbv_capacity ?u"
    using Suc.prems(2) by (simp add: inv)
  ultimately show ?case
    using rbv_construct_next[OF IH(1), of x] IH(2) by (simp add: replicate_append_same)
qed

lemma rbv_resize_spec:
  assumes ok: "rbv_ok v"
  shows "rbv_ok (rbv_resize v n x)"
    and "rbv_list (rbv_resize v n x) = take n (rbv_list v) @ replicate (n - rbv_size v) x"
proof -
  let ?w = "rbv_ensureCapacityFor v n"
  note w = rbv_ensureCapacityFor_spec[OF ok, of n]
  have sz: "rbv_size ?w = rbv_size v" using w(2) by (simp add: rbv_extends_def)
  have many: "n \<ge> rbv_size v \<Longrightarrow> rbv_ok (rbv_resize v n x) \<and>
      rbv_list (rbv_resize v n x) = rbv_list v @ replicate (n - rbv_size v) x"
    using rbv_construct_many[OF w(1), of "n - rbv_size v" x] w(3) rbv_list_extends[OF ok w(2)]
    by (simp add: sz rbv_resize_def Let_def)
  show "rbv_ok (rbv_resize v n x)"
    using many rbv_shrink_spec[OF ok, of n] by (cases "n < rbv_size v") (auto simp: rbv_resize_def)
  show "rbv_list (rbv_resize v n x) = take n (rbv_list v) @ replicate (n - rbv_size v) x"
    using many rbv_shrink_spec[OF ok, of n] by (cases "n < rbv_size v") (auto simp: rbv_resize_def)
qed

interpretation rbv: vector rbv_default rbv_emplaceBack rbv_popBack rbv_nth rbv_set rbv_size rbv_list rbv_ok
  by unfold_locales
    (simp_all add: rbv_emplaceBack_spec rbv_popBack_spec rbv_set_spec rbv_nth_list)

subsection \<open>Rebuilding with another block size\<close>

lemma rbv_construct_all:
  assumes inj: "\<And>i j. i < k \<Longrightarrow> j < k \<Longrightarrow> rbv_ptrAt w i = rbv_ptrAt w j \<Longrightarrow> i = j"
  shows "let u = foldl (\<lambda>w i. rbv_construct w i (g i)) w [0..<k] in
    (\<forall>i<k. rbv_mem u (rbv_ptrAt w i) = Some (g i)) \<and>
    (\<forall>p. (\<forall>i<k. p \<noteq> rbv_ptrAt w i) \<longrightarrow> rbv_mem u p = rbv_mem w p) \<and>
    u = w\<lparr>rbv_mem := rbv_mem u\<rparr>"
  using inj
proof (induction k)
  case 0
  then show ?case by simp
next
  case (Suc k)
  let ?u = "foldl (\<lambda>w i. rbv_construct w i (g i)) w [0..<k]"
  have IH: "\<forall>i<k. rbv_mem ?u (rbv_ptrAt w i) = Some (g i)"
    "\<forall>p. (\<forall>i<k. p \<noteq> rbv_ptrAt w i) \<longrightarrow> rbv_mem ?u p = rbv_mem w p"
    "?u = w\<lparr>rbv_mem := rbv_mem ?u\<rparr>"
    using Suc.IH Suc.prems by (simp_all add: Let_def)
  obtain m where m: "?u = w\<lparr>rbv_mem := m\<rparr>"
    using IH(3) by blast
  have m1: "\<forall>i<k. m (rbv_ptrAt w i) = Some (g i)"
    and m2: "\<forall>p. (\<forall>i<k. p \<noteq> rbv_ptrAt w i) \<longrightarrow> m p = rbv_mem w p"
    using IH(1,2) by (simp_all add: m)
  have ne: "rbv_ptrAt w i \<noteq> rbv_ptrAt w k" if "i < k" for i
    using Suc.prems[of i k] that by auto
  have step: "foldl (\<lambda>w i. rbv_construct w i (g i)) w [0..<Suc k] = rbv_construct ?u k (g k)"
    by simp
  show ?case
    unfolding step m Let_def using m1 m2 ne by (auto simp: rbv_construct_def less_Suc_eq)
qed

lemma rbv_newBlocks_spec:
  assumes ok: "rbv_ok v" and bs: "0 < bs" and k: "k = rbv_size v"
  defines "w \<equiv> rbv_newBlocks v bs (if k = 0 then 0 else (k + bs - 1) div bs)"
  shows "rbv_geometry w" and "rbv_mem w = rbv_mem v" and "rbv_size w = rbv_size v"
    and "rbv_block_size w = bs"
    and "k \<le> hv_size (rbv_blocks w) * bs"
    and "\<And>i. i < hv_size (rbv_blocks w) * bs \<Longrightarrow> rbv_brk v \<le> rbv_ptrAt w i"
proof -
  let ?n = "if k = 0 then 0 else (k + bs - 1) div bs"
  let ?v = "v\<lparr>rbv_blocks := hv_reserve hv_new ?n, rbv_block_size := bs\<rparr>"
  have "rbv_geometry ?v"
    using bs by (simp add: rbv_geometry_def hv_size_def)
  note spec = rbv_addBlocks_spec[OF this, of ?n]
  have w: "w = rbv_addBlocks ?v ?n"
    by (simp add: w_def rbv_newBlocks_def)
  show "rbv_geometry w" "rbv_mem w = rbv_mem v" "rbv_size w = rbv_size v"
    and bsw: "rbv_block_size w = bs"
    using spec by (simp_all add: w rbv_extends_def)
  show "k \<le> hv_size (rbv_blocks w) * bs"
    using spec rbv_ceil_div[OF bs, of k] by (simp add: w hv_size_def)
  show "rbv_brk v \<le> rbv_ptrAt w i" if "i < hv_size (rbv_blocks w) * bs" for i
    using spec rbv_block_index[OF that] bsw
    by (auto simp: w rbv_ptrAt_def Let_def hv_size_def intro!: trans_le_add1)
qed

lemma rbv_rebuildStorage_spec:
  assumes ok: "rbv_ok v" and bs: "0 < bs"
  shows "rbv_ok (rbv_rebuildStorage v bs)" and "rbv_list (rbv_rebuildStorage v bs) = rbv_list v"
    and "rbv_block_size (rbv_rebuildStorage v bs) = bs"
proof -
  let ?k = "rbv_size v"
  let ?w = "rbv_newBlocks v bs (if ?k = 0 then 0 else (?k + bs - 1) div bs)"
  let ?u = "foldl (\<lambda>w i. rbv_construct w i (rbv_nth v i)) ?w [0..<?k]"
  note w = rbv_newBlocks_spec[OF ok bs refl]
  define w' where "w' = ?w\<lparr>rbv_capacity := hv_size (rbv_blocks ?w) * bs, rbv_size := 0, rbv_mem := (\<lambda>_. None)\<rparr>"
  have okw': "rbv_ok w'"
    using w(1,4) by (intro rbv_okI) (auto simp: w'_def rbv_geometry_def)
  have inj: "i = j" if "i < ?k" "j < ?k" "rbv_ptrAt ?w i = rbv_ptrAt ?w j" for i j
    using rbv_ptrAt_inj[OF okw', of i j] that w(5) by (simp add: w'_def)
  have u: "\<forall>i<?k. rbv_mem ?u (rbv_ptrAt ?w i) = Some (rbv_nth v i)"
    "\<forall>p. (\<forall>i<?k. p \<noteq> rbv_ptrAt ?w i) \<longrightarrow> rbv_mem ?u p = rbv_mem ?w p"
    "?u = ?w\<lparr>rbv_mem := rbv_mem ?u\<rparr>"
    using rbv_construct_all[of ?k ?w "rbv_nth v", OF inj] by (simp_all add: Let_def)
  define M where "M = rbv_mem (rbv_destroyRange (v\<lparr>rbv_mem := rbv_mem ?u\<rparr>) 0 ?k)"
  have M: "M p = (if \<exists>i<?k. p = rbv_ptrAt v i then None else rbv_mem ?u p)" for p
    by (auto simp: M_def rbv_destroyRange_eq)
  have eq: "rbv_rebuildStorage v bs = ?w\<lparr>rbv_mem := M, rbv_capacity := hv_size (rbv_blocks ?w) * bs\<rparr>"
    unfolding rbv_rebuildStorage_def Let_def M_def by (subst u(3), subst (2) u(3)) simp
  have old_new: "rbv_ptrAt v i \<noteq> rbv_ptrAt ?w j" if "i < ?k" "j < ?k" for i j
  proof -
    have "rbv_ptrAt v i < rbv_brk v"
      using that rbv_okD(3)[OF ok] by (intro rbv_ptrAt_less_brk[OF ok]) simp
    also have "\<dots> \<le> rbv_ptrAt ?w j"
      using that w(5) by (intro w(6)) simp
    finally show ?thesis by simp
  qed
  have Mnew: "M (rbv_ptrAt ?w i) = Some (rbv_nth v i)" if "i < ?k" for i
  proof -
    have "\<not> (\<exists>j<?k. rbv_ptrAt ?w i = rbv_ptrAt v j)"
      using old_new that by metis
    then show ?thesis
      using u(1) that by (simp add: M)
  qed
  have Mdom: "M p \<noteq> None \<longleftrightarrow> (\<exists>i<?k. p = rbv_ptrAt ?w i)" for p
  proof (cases "\<exists>i<?k. p = rbv_ptrAt ?w i")
    case True
    then show ?thesis using Mnew by auto
  next
    case False
    with u(2) w(2) have "rbv_mem ?u p = rbv_mem v p" by simp
    with False rbv_okD(4)[OF ok, of p] show ?thesis by (auto simp: M)
  qed
  show "rbv_ok (rbv_rebuildStorage v bs)"
    unfolding eq using w Mdom
    by (intro rbv_okI) (auto simp: rbv_geometry_def simp del: not_None_eq)
  show "rbv_list (rbv_rebuildStorage v bs) = rbv_list v"
    unfolding eq using Mnew w(3) by (simp add: rbv_list_def rbv_nth_def[of "rbv_newBlocks _ _ _\<lparr>rbv_mem := _, rbv_capacity := _\<rparr>"])
  show "rbv_block_size (rbv_rebuildStorage v bs) = bs"
    unfolding eq using w(4) by simp
qed

lemma rbv_resizeBlocks_spec:
  assumes "rbv_ok v" "rbv_resizeBlocks v bs = Inr w"
  shows "rbv_ok w" "rbv_list w = rbv_list v" "rbv_block_size w = bs" "0 < bs"
  using assms rbv_rebuildStorage_spec[OF assms(1), of bs]
  by (auto simp: rbv_resizeBlocks_def split: if_splits)

section \<open>Address stability\<close>

text \<open>
  Growing keeps every element where it is: the address of an existing element and the object at
  that address are the same after \<open>emplaceBack\<close>, \<open>reserve\<close> and a growing \<open>resize\<close>.
\<close>

definition rbv_in_place :: "'a rbv \<Rightarrow> 'a rbv \<Rightarrow> bool" where
  "rbv_in_place v w \<longleftrightarrow>
     (\<forall>i < rbv_size v. rbv_ptrAt w i = rbv_ptrAt v i \<and>
        rbv_mem w (rbv_ptrAt v i) = rbv_mem v (rbv_ptrAt v i))"

lemma rbv_in_placeI:
  assumes ok: "rbv_ok v" "rbv_ok w" and le: "rbv_size v \<le> rbv_size w"
    and ptr: "\<And>i. i < rbv_size v \<Longrightarrow> rbv_ptrAt w i = rbv_ptrAt v i"
    and val: "\<And>i. i < rbv_size v \<Longrightarrow> rbv_list w ! i = rbv_list v ! i"
  shows "rbv_in_place v w"
  unfolding rbv_in_place_def
proof (intro allI impI conjI)
  fix i assume i: "i < rbv_size v"
  then show "rbv_ptrAt w i = rbv_ptrAt v i" by (rule ptr)
  have "the (rbv_mem w (rbv_ptrAt v i)) = the (rbv_mem v (rbv_ptrAt v i))"
    using val[OF i] ptr[OF i] i le by (simp add: rbv_nth_list rbv_nth_def)
  moreover have "rbv_mem w (rbv_ptrAt v i) \<noteq> None"
    using rbv_okD(4)[OF ok(2), of "rbv_ptrAt v i"] ptr[OF i] i le
    by (metis less_le_trans)
  moreover have "rbv_mem v (rbv_ptrAt v i) \<noteq> None"
    using rbv_okD(4)[OF ok(1), of "rbv_ptrAt v i"] i by blast
  ultimately show "rbv_mem w (rbv_ptrAt v i) = rbv_mem v (rbv_ptrAt v i)"
    by auto
qed

lemma rbv_ptrAt_ensure:
  assumes "rbv_ok v" "i < rbv_size v"
  shows "rbv_ptrAt (rbv_ensureCapacityFor v n) i = rbv_ptrAt v i"
  using rbv_extends_ptrAt[OF rbv_ensureCapacityFor_spec(2)[OF assms(1)]] assms rbv_okD(2,3)[OF assms(1)]
  by simp

lemma rbv_ptrAt_constructs [simp]:
  "rbv_ptrAt (foldl (\<lambda>w i. rbv_construct w i x) v is) j = rbv_ptrAt v j"
  by (induction "is" rule: rev_induct) simp_all

lemma rbv_ptrAt_grow:
  assumes "rbv_ok v" "i < rbv_size v"
  shows "rbv_ptrAt (rbv_emplaceBack v x) i = rbv_ptrAt v i"
    and "rbv_ptrAt (rbv_reserve v n) i = rbv_ptrAt v i"
    and "rbv_size v \<le> n \<Longrightarrow> rbv_ptrAt (rbv_resize v n x) i = rbv_ptrAt v i"
  using assms
  by (simp_all add: rbv_emplaceBack_def rbv_reserve_def rbv_resize_def Let_def rbv_ptrAt_ensure)

lemma rbv_size_ops [simp]:
  assumes "rbv_ok v"
  shows "rbv_size (rbv_emplaceBack v x) = Suc (rbv_size v)"
    and "rbv_size (rbv_reserve v n) = rbv_size v"
    and "rbv_size (rbv_resize v n x) = n"
    and "i < rbv_size v \<Longrightarrow> rbv_size (rbv_set v i x) = rbv_size v"
  using rbv_emplaceBack_spec[OF assms, of x] rbv_reserve_spec[OF assms, of n]
    rbv_set_spec[OF assms, of i x]
  by (metis length_append_singleton rbv_length_list, metis rbv_length_list,
      simp add: rbv_resize_def Let_def, metis length_list_update rbv_length_list)

text \<open>
  growing a segmented vector never relocates an element.  After \<open>emplaceBack\<close>, after
  \<open>reserve\<close> and after a \<open>resize\<close> that does not shrink, every element that was in the vector has the
  address it had before, and the object at that address is the one that was there: raw pointers
  into the vector held elsewhere (payload and control-block pointers) stay valid.
\<close>

theorem rbv_growth_in_place:
  assumes "rbv_ok v" and "rbv_size v \<le> n"
  shows "rbv_in_place v (rbv_emplaceBack v x) \<and> rbv_in_place v (rbv_reserve v m) \<and>
    rbv_in_place v (rbv_resize v n x)"
proof (intro conjI)
  show "rbv_in_place v (rbv_emplaceBack v x)"
    using assms by (intro rbv_in_placeI)
      (auto simp: rbv_emplaceBack_spec rbv_ptrAt_grow nth_append)
  show "rbv_in_place v (rbv_reserve v m)"
    using assms by (intro rbv_in_placeI) (auto simp: rbv_reserve_spec rbv_ptrAt_grow)
  show "rbv_in_place v (rbv_resize v n x)"
    using assms by (intro rbv_in_placeI)
      (auto simp: rbv_resize_spec rbv_ptrAt_grow nth_append)
qed

definition rbv_example :: "nat rbv" where
  "rbv_example = foldl rbv_emplaceBack (rbv_default\<lparr>rbv_block_size := 2\<rparr>) [10, 11, 12]"

lemma rbv_example_ok: "rbv_ok rbv_example" and rbv_example_list: "rbv_list rbv_example = [10, 11, 12]"
proof -
  have ok: "rbv_ok (rbv_default\<lparr>rbv_block_size := 2\<rparr> :: nat rbv)"
    and nil: "rbv_list (rbv_default\<lparr>rbv_block_size := 2\<rparr> :: nat rbv) = []"
    by (auto simp: rbv_ok_def rbv_default_def hv_size_def rbv_list_def)
  show "rbv_ok rbv_example" "rbv_list rbv_example = [10, 11, 12]"
    unfolding rbv_example_def
    using rbv.ok_pushes[OF ok, of "[10, 11, 12]"] rbv.list_pushes[OF ok, of "[10, 11, 12]"] nil
    by (simp_all only: append_Nil)
qed

theorem rbv_growth_in_place_witness:
  "rbv_in_place rbv_example (rbv_emplaceBack rbv_example 13) \<and>
   rbv_in_place rbv_example (rbv_reserve rbv_example 9) \<and>
   rbv_in_place rbv_example (rbv_resize rbv_example 8 0)"
proof -
  have "rbv_size rbv_example = 3"
    using rbv_example_list by (metis length_Cons list.size(3) numeral_3_eq_3 rbv_length_list)
  then show ?thesis
    using rbv_growth_in_place[OF rbv_example_ok, of 8 13 9] rbv_growth_in_place[OF rbv_example_ok, of 8 0 9]
    by simp
qed

text \<open>
  Changing the block size keeps the contents.  \<open>resizeBlocks\<close> with a positive size returns a
  well-formed vector with that block size and the same elements in the same order, although it
  moves them to new blocks; with size 0 it throws.
\<close>

theorem rbv_resizeBlocks_contents:
  assumes "rbv_ok v"
  shows "(case rbv_resizeBlocks v bs of
      Inl e \<Rightarrow> bs = 0 \<and> e = StdInvalidArgument
    | Inr w \<Rightarrow> 0 < bs \<and> rbv_ok w \<and> rbv_list w = rbv_list v \<and> rbv_block_size w = bs)"
  using assms rbv_rebuildStorage_spec[OF assms, of bs]
  by (auto simp: rbv_resizeBlocks_def)

theorem rbv_resizeBlocks_contents_witness:
  "rbv_list (projr (rbv_resizeBlocks rbv_example 5)) = [10, 11, 12]"
  using rbv_resizeBlocks_contents[OF rbv_example_ok, of 5] rbv_example_list
  by (auto simp: rbv_resizeBlocks_def split: sum.splits if_splits)

end
