(* ===== verification/Handles.thy ===== *)
theory Handles
  imports Prelude
begin

text \<open>
  \<open>base/handle.h\<close>: the lightweight handle of every pool, a 32-bit slot index with a generation of
  type \<open>'w\<close>, a word of 8 bits for control blocks and events, of 32 for buffers, storages and tensors.  The variant
  without a generation field is the same type with the generation left at 0; the pools know from
  their traits which variant they use.
\<close>

datatype 'w handle = Handle (h_index: u32) (h_generation: 'w)

definition handle_invalid_index :: u32 where
  "handle_invalid_index = - 1"

definition handle_invalid :: "'g::len word handle" where
  "handle_invalid = Handle handle_invalid_index (- 1)"

definition handle_isValid :: "'w handle \<Rightarrow> bool" where
  "handle_isValid h \<longleftrightarrow> h_index h \<noteq> handle_invalid_index"

text \<open>The defaulted three-way comparison: by index, then by generation.\<close>

instantiation handle :: (linorder) linorder
begin

definition less_eq_handle :: "'a handle \<Rightarrow> 'a handle \<Rightarrow> bool" where
  "less_eq_handle a b \<longleftrightarrow>
     h_index a < h_index b \<or> h_index a = h_index b \<and> h_generation a \<le> h_generation b"

definition less_handle :: "'a handle \<Rightarrow> 'a handle \<Rightarrow> bool" where
  "less_handle a b \<longleftrightarrow>
     h_index a < h_index b \<or> h_index a = h_index b \<and> h_generation a < h_generation b"

instance
proof
  fix x y z :: "'a handle"
  show "(x < y) = (x \<le> y \<and> \<not> y \<le> x)"
    by (auto simp: less_eq_handle_def less_handle_def)
  show "x \<le> x"
    by (simp add: less_eq_handle_def)
  show "x \<le> y \<Longrightarrow> y \<le> z \<Longrightarrow> x \<le> z"
    by (auto simp: less_eq_handle_def)
  show "x \<le> y \<Longrightarrow> y \<le> x \<Longrightarrow> x = y"
    by (cases x; cases y) (auto simp: less_eq_handle_def)
  show "x \<le> y \<or> y \<le> x"
    by (auto simp: less_eq_handle_def)
qed

end

lemma handle_invalid_simps [simp]:
  "\<not> handle_isValid handle_invalid"
  "h_index handle_invalid = handle_invalid_index"
  by (simp_all add: handle_isValid_def handle_invalid_def)

lemma unat_invalid_index: "unat handle_invalid_index = 2 ^ 32 - 1"
  by (simp add: handle_invalid_index_def unsigned_minus_1_eq_mask mask_eq_exp_minus_1)

lemma index_below_range: "n \<le> 2 ^ 32 - 1 \<Longrightarrow> i < n \<Longrightarrow> unat (word_of_nat i :: u32) = i"
  by (simp add: unat_of_nat)

lemma handle_isValidI: "unat (h_index h) < 2 ^ 32 - 1 \<Longrightarrow> handle_isValid h"
  by (auto simp: handle_isValid_def unat_invalid_index)

end
