(* ===== verification/SlotPool.thy ===== *)
theory SlotPool
  imports BlockVector Handles "HOL-Library.Multiset"
begin

text \<open>
  \<open>base/pool/slot_pool.h\<close>: the slot pool, template parameter \<open>Traits\<close> as a record of its hooks.
  Payloads live in a segmented vector, generations, created flags and the freelist in three
  heap vectors; the freelist is a stack whose top is the last element.  \<open>Payload *\<close> is an address
  of the payload vector's memory.
\<close>

record ('w, 'p, 'r, 'c) pool_traits =
  tr_default :: 'p
  tr_create :: "'p \<Rightarrow> 'r \<Rightarrow> 'c \<Rightarrow> bool \<times> 'p"
  tr_destroy :: "'p \<Rightarrow> 'r \<Rightarrow> 'c \<Rightarrow> 'p"
  tr_setHandle :: "'r \<Rightarrow> 'w handle \<Rightarrow> 'r"
  tr_request :: 'r
  tr_context :: 'c
  tr_destroy_on_release :: bool
  tr_has_generation :: bool

record ('w, 'p) slot_pool =
  sp_payloads :: "'p rbv"
  sp_generations :: "'w heap_vector"
  sp_created :: "u8 heap_vector"
  sp_freelist :: "u32 heap_vector"

definition sp_new :: "('g::len word, 'p) slot_pool" where
  "sp_new = \<lparr>sp_payloads = rbv_default, sp_generations = hv_new, sp_created = hv_new,
             sp_freelist = hv_new\<rparr>"

definition sp_size :: "('g::len word, 'p) slot_pool \<Rightarrow> nat" where
  "sp_size P = rbv_size (sp_payloads P)"

definition sp_capacity :: "('g::len word, 'p) slot_pool \<Rightarrow> nat" where
  "sp_capacity P = rbv_capacity (sp_payloads P)"

definition sp_blockSize :: "('g::len word, 'p) slot_pool \<Rightarrow> nat" where
  "sp_blockSize P = rbv_block_size (sp_payloads P)"

definition sp_available :: "('g::len word, 'p) slot_pool \<Rightarrow> nat" where
  "sp_available P = hv_size (sp_freelist P)"

definition sp_empty :: "('g::len word, 'p) slot_pool \<Rightarrow> bool" where
  "sp_empty P \<longleftrightarrow> rbv_isEmpty (sp_payloads P)"

section \<open>Validation\<close>

definition sp_isValid ::
  "('g::len word, 'p, 'r, 'c) pool_traits \<Rightarrow> ('g word, 'p) slot_pool \<Rightarrow> 'g word handle \<Rightarrow> bool" where
  "sp_isValid T P h =
     (let idx = unat (h_index h) in
      if idx \<ge> sp_size P then False
      else if tr_has_generation T then h_generation h = hv_nth (sp_generations P) idx
      else True)"

definition sp_isCreated ::
  "('g::len word, 'p, 'r, 'c) pool_traits \<Rightarrow> ('g word, 'p) slot_pool \<Rightarrow> 'g word handle \<Rightarrow> bool" where
  "sp_isCreated T P h =
     (if \<not> sp_isValid T P h then False
      else hv_nth (sp_created P) (unat (h_index h)) \<noteq> 0)"

definition sp_makeHandle ::
  "('g::len word, 'p, 'r, 'c) pool_traits \<Rightarrow> ('g word, 'p) slot_pool \<Rightarrow> u32 \<Rightarrow> 'g word handle" where
  "sp_makeHandle T P idx =
     (if tr_has_generation T then Handle idx (hv_nth (sp_generations P) (unat idx))
      else Handle idx 0)"

definition sp_setCreated ::
  "('g::len word, 'p, 'r, 'c) pool_traits \<Rightarrow> ('g word, 'p) slot_pool \<Rightarrow> 'g word handle \<Rightarrow> bool \<Rightarrow>
   ('g word, 'p) slot_pool" where
  "sp_setCreated T P h b =
     (if \<not> sp_isValid T P h then P
      else P\<lparr>sp_created := hv_set (sp_created P) (unat (h_index h)) (if b then 1 else 0)\<rparr>)"

definition sp_get ::
  "('g::len word, 'p, 'r, 'c) pool_traits \<Rightarrow> ('g word, 'p) slot_pool \<Rightarrow> 'g word handle \<Rightarrow> nat option" where
  "sp_get T P h =
     (if \<not> sp_isValid T P h then None
      else Some (rbv_ptrAt (sp_payloads P) (unat (h_index h))))"

text \<open>\<open>forEachCreated\<close> visits these slots in this order.\<close>

definition sp_createdSlots :: "('g::len word, 'p) slot_pool \<Rightarrow> (nat \<times> 'p) list" where
  "sp_createdSlots P =
     [(idx, rbv_nth (sp_payloads P) idx). idx \<leftarrow> [0..<sp_size P], hv_nth (sp_created P) idx \<noteq> 0]"

section \<open>Creation and destruction of payloads\<close>

text \<open>The overloads that take a caller-provided function, then the ones that use the traits.\<close>

definition sp_emplaceWith ::
  "('g::len word, 'p, 'r, 'c) pool_traits \<Rightarrow> ('g word, 'p) slot_pool \<Rightarrow> 'g word handle \<Rightarrow> 'r \<Rightarrow> 'c \<Rightarrow>
   ('p \<Rightarrow> 'r \<Rightarrow> 'c \<Rightarrow> bool \<times> 'p) \<Rightarrow> bool \<times> ('g word, 'p) slot_pool" where
  "sp_emplaceWith T P h request context createFn =
     (if \<not> sp_isValid T P h \<or> sp_isCreated T P h then (False, P)
      else let idx = unat (h_index h);
               (created, payload) = createFn (rbv_nth (sp_payloads P) idx) request context;
               P' = P\<lparr>sp_payloads := rbv_set (sp_payloads P) idx payload\<rparr>
           in if created then (True, sp_setCreated T P' h True) else (False, P'))"

definition sp_emplace ::
  "('g::len word, 'p, 'r, 'c) pool_traits \<Rightarrow> ('g word, 'p) slot_pool \<Rightarrow> 'g word handle \<Rightarrow> 'r \<Rightarrow> 'c \<Rightarrow>
   bool \<times> ('g word, 'p) slot_pool" where
  "sp_emplace T P h request context =
     (if \<not> sp_isValid T P h \<or> sp_isCreated T P h then (False, P)
      else let idx = unat (h_index h);
               (created, payload) = tr_create T (rbv_nth (sp_payloads P) idx) request context;
               P' = P\<lparr>sp_payloads := rbv_set (sp_payloads P) idx payload\<rparr>
           in if created then (True, sp_setCreated T P' h True) else (False, P'))"

text \<open>A destroy function returning \<open>void\<close> is one whose flag is always \<open>True\<close>.\<close>

definition sp_destroyWith ::
  "('g::len word, 'p, 'r, 'c) pool_traits \<Rightarrow> ('g word, 'p) slot_pool \<Rightarrow> 'g word handle \<Rightarrow> 'r \<Rightarrow> 'c \<Rightarrow>
   ('p \<Rightarrow> 'r \<Rightarrow> 'c \<Rightarrow> bool \<times> 'p) \<Rightarrow> bool \<times> ('g word, 'p) slot_pool" where
  "sp_destroyWith T P h request context destroyFn =
     (if \<not> sp_isValid T P h \<or> \<not> sp_isCreated T P h then (False, P)
      else let idx = unat (h_index h);
               (done, payload) = destroyFn (rbv_nth (sp_payloads P) idx) request context;
               P' = P\<lparr>sp_payloads := rbv_set (sp_payloads P) idx payload\<rparr>
           in if \<not> done then (False, P') else (True, sp_setCreated T P' h False))"

definition sp_destroy ::
  "('g::len word, 'p, 'r, 'c) pool_traits \<Rightarrow> ('g word, 'p) slot_pool \<Rightarrow> 'g word handle \<Rightarrow> 'r \<Rightarrow> 'c \<Rightarrow>
   bool \<times> ('g word, 'p) slot_pool" where
  "sp_destroy T P h request context =
     (if \<not> sp_isValid T P h \<or> \<not> sp_isCreated T P h then (False, P)
      else let idx = unat (h_index h);
               payload = tr_destroy T (rbv_nth (sp_payloads P) idx) request context;
               P' = P\<lparr>sp_payloads := rbv_set (sp_payloads P) idx payload\<rparr>
           in (True, sp_setCreated T P' h False))"

section \<open>Acquisition and release of slots\<close>

text \<open>
  The scan loop of \<open>tryAcquireCreated\<close> (\<open>want = True\<close>) and \<open>tryReserveUncreated\<close>
  (\<open>want = False\<close>): pop the top index, return it if its created flag is the wanted one, otherwise
  push it back and go on, \<open>scan_count\<close> times at most.
\<close>

fun sp_scan ::
  "('g::len word, 'p, 'r, 'c) pool_traits \<Rightarrow> bool \<Rightarrow> nat \<Rightarrow> ('g word, 'p) slot_pool \<Rightarrow>
   'g word handle \<times> ('g word, 'p) slot_pool" where
  "sp_scan T want 0 P = (handle_invalid, P)"
| "sp_scan T want (Suc i) P =
     (let idx = hv_back (sp_freelist P);
          P' = P\<lparr>sp_freelist := hv_resize (sp_freelist P) (hv_size (sp_freelist P) - 1) 0\<rparr>
      in if (hv_nth (sp_created P') (unat idx) \<noteq> 0) = want
         then (sp_makeHandle T P' idx, P')
         else sp_scan T want i (P'\<lparr>sp_freelist := hv_pushBack (sp_freelist P') idx\<rparr>))"

definition sp_tryAcquireCreated ::
  "('g::len word, 'p, 'r, 'c) pool_traits \<Rightarrow> ('g word, 'p) slot_pool \<Rightarrow> 'g word handle \<times> ('g word, 'p) slot_pool" where
  "sp_tryAcquireCreated T P =
     (if hv_isEmpty (sp_freelist P) then (handle_invalid, P)
      else sp_scan T True (hv_size (sp_freelist P)) P)"

definition sp_tryReserveUncreated ::
  "('g::len word, 'p, 'r, 'c) pool_traits \<Rightarrow> ('g word, 'p) slot_pool \<Rightarrow> 'g word handle \<times> ('g word, 'p) slot_pool" where
  "sp_tryReserveUncreated T P =
     (if hv_isEmpty (sp_freelist P) then (handle_invalid, P)
      else sp_scan T False (hv_size (sp_freelist P)) P)"

definition sp_acquireCreated ::
  "('g::len word, 'p, 'r, 'c) pool_traits \<Rightarrow> (('g word, 'p) slot_pool, 'g word handle) act" where
  "sp_acquireCreated T P =
     (let (h, P') = sp_tryAcquireCreated T P
      in if \<not> handle_isValid h then (throw OutOfRange, P') else (Inr h, P'))"

definition sp_reserveUncreated ::
  "('g::len word, 'p, 'r, 'c) pool_traits \<Rightarrow> (('g word, 'p) slot_pool, 'g word handle) act" where
  "sp_reserveUncreated T P =
     (let (h, P') = sp_tryReserveUncreated T P
      in if \<not> handle_isValid h then (throw OutOfRange, P') else (Inr h, P'))"

definition sp_releaseImpl ::
  "('g::len word, 'p, 'r, 'c) pool_traits \<Rightarrow> ('g word, 'p) slot_pool \<Rightarrow> 'g word handle \<Rightarrow>
   bool \<times> ('g word, 'p) slot_pool" where
  "sp_releaseImpl T P h =
     (if \<not> sp_isValid T P h then (False, P)
      else let idx = unat (h_index h);
               P' = (if tr_has_generation T
                     then P\<lparr>sp_generations := hv_set (sp_generations P) idx
                              (hv_nth (sp_generations P) idx + 1)\<rparr>
                     else P)
           in (True, P'\<lparr>sp_freelist := hv_pushBack (sp_freelist P') (word_of_nat idx)\<rparr>))"

definition sp_releaseRC ::
  "('g::len word, 'p, 'r, 'c) pool_traits \<Rightarrow> ('g word, 'p) slot_pool \<Rightarrow> 'g word handle \<Rightarrow> 'r \<Rightarrow> 'c \<Rightarrow>
   bool \<times> ('g word, 'p) slot_pool" where
  "sp_releaseRC T P h request context =
     (if \<not> sp_isValid T P h then (False, P)
      else if tr_destroy_on_release T
      then (if \<not> sp_isCreated T P h then (False, P)
            else case sp_destroy T P h request context of
                (False, P') \<Rightarrow> (False, P')
              | (True, P') \<Rightarrow> sp_releaseImpl T P' h)
      else sp_releaseImpl T P h)"

definition sp_release ::
  "('g::len word, 'p, 'r, 'c) pool_traits \<Rightarrow> ('g word, 'p) slot_pool \<Rightarrow> 'g word handle \<Rightarrow>
   bool \<times> ('g word, 'p) slot_pool" where
  "sp_release T P h =
     (if tr_destroy_on_release T then sp_releaseRC T P h (tr_request T) (tr_context T)
      else sp_releaseImpl T P h)"

section \<open>Configuration\<close>

definition sp_setBlockSize :: "('g::len word, 'p) slot_pool \<Rightarrow> nat \<Rightarrow> (nat \<times> ('g word, 'p) slot_pool) res" where
  "sp_setBlockSize P block_size =
     (if block_size = 0 then throw InvalidArgument
      else let old_block_size = rbv_block_size (sp_payloads P)
           in if old_block_size \<noteq> block_size
              then bindR (rbv_resizeBlocks (sp_payloads P) block_size)
                     (\<lambda>v. Inr (old_block_size, P\<lparr>sp_payloads := v\<rparr>))
              else Inr (old_block_size, P))"

definition sp_reserve :: "('g::len word, 'p) slot_pool \<Rightarrow> nat \<Rightarrow> ('g word, 'p) slot_pool res" where
  "sp_reserve P new_capacity =
     (if new_capacity > unat handle_invalid_index then throw InvalidArgument
      else Inr (P\<lparr>sp_payloads := rbv_reserve (sp_payloads P) new_capacity,
                 sp_generations := hv_reserve (sp_generations P) new_capacity,
                 sp_created := hv_reserve (sp_created P) new_capacity,
                 sp_freelist := hv_reserve (sp_freelist P) new_capacity\<rparr>))"

text \<open>New slots are pushed from the highest index down, so the lowest new index is on top.\<close>

definition sp_resize ::
  "('g::len word, 'p, 'r, 'c) pool_traits \<Rightarrow> ('g word, 'p) slot_pool \<Rightarrow> nat \<Rightarrow>
   (nat \<times> ('g word, 'p) slot_pool) res" where
  "sp_resize T P new_size =
     (let old_size = sp_size P in
      if new_size < old_size then throw InvalidArgument
      else if new_size > unat handle_invalid_index then throw InvalidArgument
      else if new_size = old_size then Inr (old_size, P)
      else let fl = hv_reserve (sp_freelist P) new_size;
               fl' = foldl (\<lambda>f i. hv_pushBack f (word_of_nat (i - 1))) fl (rev [old_size + 1..<new_size + 1])
           in Inr (old_size,
                P\<lparr>sp_payloads := rbv_resize (sp_payloads P) new_size (tr_default T),
                  sp_generations := hv_resize (sp_generations P) new_size 0,
                  sp_created := hv_resize (sp_created P) new_size 0,
                  sp_freelist := fl'\<rparr>))"

fun sp_createLoop ::
  "('g::len word, 'p, 'r, 'c) pool_traits \<Rightarrow> 'r \<Rightarrow> 'c \<Rightarrow> nat list \<Rightarrow> bool \<Rightarrow> ('g word, 'p) slot_pool \<Rightarrow>
   bool \<times> ('g word, 'p) slot_pool" where
  "sp_createLoop T request context [] all_created P = (all_created, P)"
| "sp_createLoop T request context (idx # is) all_created P =
     (let h = sp_makeHandle T P (word_of_nat idx);
          slot_request = tr_setHandle T request h;
          (b, P') = sp_emplace T P h slot_request context
      in sp_createLoop T request context is (all_created \<and> b) P')"

definition sp_createRange ::
  "('g::len word, 'p, 'r, 'c) pool_traits \<Rightarrow> ('g word, 'p) slot_pool \<Rightarrow> nat \<Rightarrow> nat \<Rightarrow> 'r \<Rightarrow> 'c \<Rightarrow>
   (bool \<times> ('g word, 'p) slot_pool) res" where
  "sp_createRange T P start end request context =
     (if start > end \<or> end > sp_size P then throw InvalidArgument
      else Inr (sp_createLoop T request context [start..<end] True P))"

definition sp_createAll ::
  "('g::len word, 'p, 'r, 'c) pool_traits \<Rightarrow> ('g word, 'p) slot_pool \<Rightarrow> 'r \<Rightarrow> 'c \<Rightarrow>
   (bool \<times> ('g word, 'p) slot_pool) res" where
  "sp_createAll T P request context = sp_createRange T P 0 (sp_size P) request context"

definition sp_destroyCreated ::
  "('g::len word, 'p, 'r, 'c) pool_traits \<Rightarrow> ('g word, 'p) slot_pool \<Rightarrow> 'r \<Rightarrow> 'c \<Rightarrow> ('g word, 'p) slot_pool" where
  "sp_destroyCreated T P request context =
     foldl (\<lambda>P idx. if hv_nth (sp_created P) idx \<noteq> 0
                    then snd (sp_destroy T P (sp_makeHandle T P (word_of_nat idx)) request context)
                    else P) P [0..<sp_size P]"

definition sp_clear ::
  "('g::len word, 'p, 'r, 'c) pool_traits \<Rightarrow> ('g word, 'p) slot_pool \<Rightarrow> 'r \<Rightarrow> 'c \<Rightarrow> ('g word, 'p) slot_pool" where
  "sp_clear T P request context =
     (let P' = sp_destroyCreated T P request context
      in P'\<lparr>sp_payloads := rbv_clear (sp_payloads P'), sp_generations := hv_clear (sp_generations P'),
           sp_created := hv_clear (sp_created P'), sp_freelist := hv_clear (sp_freelist P')\<rparr>)"

section \<open>Well-formed pools\<close>

text \<open>
  The three parallel vectors have one entry per slot, every index fits a handle below the reserved
  one, and the freelist names existing slots.
\<close>

definition sp_ok :: "('g::len word, 'p) slot_pool \<Rightarrow> bool" where
  "sp_ok P \<longleftrightarrow> rbv_ok (sp_payloads P) \<and> hv_size (sp_generations P) = sp_size P \<and>
     hv_size (sp_created P) = sp_size P \<and> sp_size P \<le> 2 ^ 32 - 1 \<and> hv_ok (sp_freelist P) \<and>
     (\<forall>x \<in> set (hv_data (sp_freelist P)). unat x < sp_size P)"

lemma sp_okD:
  assumes "sp_ok P"
  shows "rbv_ok (sp_payloads P)" "hv_size (sp_generations P) = sp_size P"
    "hv_size (sp_created P) = sp_size P" "sp_size P \<le> 2 ^ 32 - 1" "hv_ok (sp_freelist P)"
    "x \<in> set (hv_data (sp_freelist P)) \<Longrightarrow> unat x < sp_size P"
  using assms by (auto simp: sp_ok_def)

lemma sp_ok_new [simp]: "sp_ok sp_new"
  by (simp add: sp_ok_def sp_new_def sp_size_def rbv.ok_empty hv_size_def hv_ok_ops)

lemma hv_size_set [simp]: "hv_size (hv_set v i x) = hv_size v"
  by (simp add: hv_size_def)

lemma hv_nth_set [simp]:
  "i < hv_size v \<Longrightarrow> hv_nth (hv_set v i x) j = (if i = j then x else hv_nth v j)"
  by (simp add: hv_nth_def hv_size_def nth_list_update)

lemma hv_set_same [simp]: "hv_set v i (hv_nth v i) = v"
  by (simp add: hv_set_def hv_nth_def)

lemma sp_isValid_index: "sp_isValid T P h \<Longrightarrow> unat (h_index h) < sp_size P"
  by (auto simp: sp_isValid_def Let_def split: if_splits)

lemma sp_isValid_handle:
  assumes "sp_ok P" "sp_isValid T P h"
  shows "handle_isValid h"
  using sp_isValid_index[OF assms(2)] sp_okD(4)[OF assms(1)] by (intro handle_isValidI) simp

lemma sp_isCreated_valid: "sp_isCreated T P h \<Longrightarrow> sp_isValid T P h"
  by (simp add: sp_isCreated_def split: if_splits)

text \<open>Validity depends on the size and the generations alone.\<close>

lemma sp_isValid_cong:
  "sp_size P' = sp_size P \<Longrightarrow> sp_generations P' = sp_generations P \<Longrightarrow>
   sp_isValid T P' h = sp_isValid T P h"
  by (simp add: sp_isValid_def)

lemma sp_setCreated_fields [simp]:
  "sp_payloads (sp_setCreated T P h b) = sp_payloads P"
  "sp_generations (sp_setCreated T P h b) = sp_generations P"
  "sp_freelist (sp_setCreated T P h b) = sp_freelist P"
  "sp_size (sp_setCreated T P h b) = sp_size P"
  "hv_size (sp_created (sp_setCreated T P h b)) = hv_size (sp_created P)"
  by (simp_all add: sp_setCreated_def sp_size_def)

lemma sp_makeHandle_index [simp]: "h_index (sp_makeHandle T P idx) = idx"
  by (simp add: sp_makeHandle_def)

lemma sp_makeHandle_valid [simp]: "sp_isValid T P (sp_makeHandle T P idx) \<longleftrightarrow> unat idx < sp_size P"
  by (auto simp: sp_isValid_def sp_makeHandle_def)

text \<open>The traits overloads are the function overloads on the traits' own hooks.\<close>

lemma sp_emplace_eq: "sp_emplace T P h r c = sp_emplaceWith T P h r c (tr_create T)"
  by (simp add: sp_emplace_def sp_emplaceWith_def)

lemma sp_destroy_eq:
  "sp_destroy T P h r c = sp_destroyWith T P h r c (\<lambda>p r c. (True, tr_destroy T p r c))"
  by (simp add: sp_destroy_def sp_destroyWith_def)

text \<open>What \<open>emplace\<close> and \<open>destroy\<close> leave alone: sizes, generations and the freelist.\<close>

definition sp_frame :: "('g::len word, 'p) slot_pool \<Rightarrow> ('g word, 'p) slot_pool \<Rightarrow> bool" where
  "sp_frame P Q \<longleftrightarrow> sp_ok Q \<and> sp_size Q = sp_size P \<and> sp_generations Q = sp_generations P \<and>
     sp_freelist Q = sp_freelist P"

lemma sp_frame_refl [simp]: "sp_frame P P \<longleftrightarrow> sp_ok P"
  by (auto simp: sp_frame_def)

lemma sp_frame_trans: "sp_frame P Q \<Longrightarrow> sp_frame Q R \<Longrightarrow> sp_frame P R"
  by (auto simp: sp_frame_def)

lemma sp_frame_put:
  assumes "sp_ok P" "i < sp_size P"
  shows "sp_frame P (P\<lparr>sp_payloads := rbv_set (sp_payloads P) i p\<rparr>)"
  using assms rbv_set_spec[of "sp_payloads P" i p]
  by (auto simp: sp_frame_def sp_ok_def sp_size_def rbv_size_ops)

lemma sp_frame_setCreated:
  assumes "sp_frame P Q" shows "sp_frame P (sp_setCreated T Q h b)"
  using assms by (auto simp: sp_frame_def sp_ok_def)

lemma sp_emplaceWith_frame: "sp_ok P \<Longrightarrow> sp_frame P (snd (sp_emplaceWith T P h r c f))"
  by (auto simp: sp_emplaceWith_def Let_def sp_isValid_index sp_frame_put
      intro!: sp_frame_setCreated split: prod.split)

lemma sp_destroyWith_frame: "sp_ok P \<Longrightarrow> sp_frame P (snd (sp_destroyWith T P h r c f))"
  by (auto simp: sp_destroyWith_def Let_def sp_isValid_index sp_frame_put
      intro!: sp_frame_setCreated split: prod.split)

lemmas sp_emplace_frame = sp_emplaceWith_frame[where f = "tr_create T" for T, folded sp_emplace_eq]

lemma sp_destroy_frame: "sp_ok P \<Longrightarrow> sp_frame P (snd (sp_destroy T P h r c))"
  by (simp add: sp_destroy_eq sp_destroyWith_frame)

lemma sp_createLoop_frame:
  "sp_ok P \<Longrightarrow> sp_frame P (snd (sp_createLoop T r c is b P))"
proof (induction "is" arbitrary: b P)
  case Nil
  then show ?case by simp
next
  case (Cons idx "is")
  let ?h = "sp_makeHandle T P (word_of_nat idx)"
  let ?E = "sp_emplace T P ?h (tr_setHandle T r ?h) c"
  have "sp_frame P (snd ?E)"
    by (simp add: sp_emplace_eq sp_emplaceWith_frame Cons.prems)
  moreover from this have "sp_frame (snd ?E) (snd (sp_createLoop T r c is (b \<and> fst ?E) (snd ?E)))"
    by (intro Cons.IH) (simp add: sp_frame_def)
  ultimately show ?case
    by (auto simp: Let_def split: prod.split intro: sp_frame_trans)
qed

lemma sp_frame_foldl:
  assumes "\<And>Q i. sp_ok Q \<Longrightarrow> sp_frame Q (f Q i)" and "sp_ok P"
  shows "sp_frame P (foldl f P is)"
  using assms(2)
proof (induction "is" arbitrary: P)
  case (Cons i "is")
  with assms(1)[of P i] have "sp_frame (f P i) (foldl f (f P i) is)"
    by (simp add: sp_frame_def)
  with assms(1)[OF Cons.prems, of i] show ?case
    by (auto intro: sp_frame_trans)
qed simp

lemma sp_destroyCreated_frame: "sp_ok P \<Longrightarrow> sp_frame P (sp_destroyCreated T P r c)"
  unfolding sp_destroyCreated_def by (rule sp_frame_foldl) (auto intro: sp_destroy_frame)

lemma sp_createRange_frame:
  "sp_ok P \<Longrightarrow> sp_createRange T P a b r c = Inr (ok, Q) \<Longrightarrow> sp_frame P Q"
  using sp_createLoop_frame[of P T r c "[a..<b]" True]
  by (auto simp: sp_createRange_def split: if_splits)

section \<open>The free list\<close>

text \<open>
  The scan pops an index and, when it does not match, pushes the same index back; the next round
  pops it again.  It therefore only ever looks at the top of the freelist.
\<close>

lemma sp_scan_top:
  assumes "hv_ok (sp_freelist P)" and "hv_data (sp_freelist P) \<noteq> []"
  shows "sp_scan T want (Suc n) P =
    (if (hv_nth (sp_created P) (unat (hv_back (sp_freelist P))) \<noteq> 0) = want
     then (sp_makeHandle T P (hv_back (sp_freelist P)),
           P\<lparr>sp_freelist := (sp_freelist P)\<lparr>hv_data := butlast (hv_data (sp_freelist P))\<rparr>\<rparr>)
     else (handle_invalid, P))"
proof -
  let ?f = "sp_freelist P"
  have pop: "hv_resize ?f (hv_size ?f - 1) 0 = ?f\<lparr>hv_data := butlast (hv_data ?f)\<rparr>"
    using assms(2) by (cases "hv_data ?f") (auto simp: hv_resize_def hv_size_def butlast_conv_take)
  have top: "hv_back ?f = last (hv_data ?f)"
    using assms(2) by (simp add: hv_back_def hv_nth_def hv_size_def last_conv_nth)
  have push: "hv_pushBack (?f\<lparr>hv_data := butlast (hv_data ?f)\<rparr>) (hv_back ?f) = ?f"
    using assms by (simp add: hv_pushBack_def hv_emplaceBack_def hv_ensureCapacityFor_def hv_size_def
        hv_ok_def top Let_def)
  have mk: "sp_makeHandle T (P\<lparr>sp_freelist := f\<rparr>) i = sp_makeHandle T P i" for f i
    by (simp add: sp_makeHandle_def)
  have step: "sp_scan T want (Suc m) P =
    (if (hv_nth (sp_created P) (unat (hv_back ?f)) \<noteq> 0) = want
     then (sp_makeHandle T P (hv_back ?f), P\<lparr>sp_freelist := ?f\<lparr>hv_data := butlast (hv_data ?f)\<rparr>\<rparr>)
     else sp_scan T want m P)" for m
    by (simp add: Let_def pop push mk del: One_nat_def)
  have "sp_scan T want m P = (handle_invalid, P)"
    if "(hv_nth (sp_created P) (unat (hv_back ?f)) \<noteq> 0) \<noteq> want" for m
    using that by (induction m) (simp_all add: step del: sp_scan.simps(2))
  then show ?thesis
    by (simp add: step del: sp_scan.simps(2))
qed

text \<open>Both acquisitions through one specification; \<open>sp_take T want\<close> is either of them.\<close>

definition sp_take ::
  "('g::len word, 'p, 'r, 'c) pool_traits \<Rightarrow> bool \<Rightarrow> ('g word, 'p) slot_pool \<Rightarrow>
   'g word handle \<times> ('g word, 'p) slot_pool" where
  "sp_take T want P = (if want then sp_tryAcquireCreated T P else sp_tryReserveUncreated T P)"

definition sp_free :: "('g::len word, 'p) slot_pool \<Rightarrow> nat list" where
  "sp_free P = map unat (hv_data (sp_freelist P))"

definition sp_created_at :: "('g::len word, 'p) slot_pool \<Rightarrow> nat \<Rightarrow> bool" where
  "sp_created_at P i \<longleftrightarrow> hv_nth (sp_created P) i \<noteq> 0"

definition sp_pop :: "('g::len word, 'p) slot_pool \<Rightarrow> ('g word, 'p) slot_pool" where
  "sp_pop P = P\<lparr>sp_freelist := (sp_freelist P)\<lparr>hv_data := butlast (hv_data (sp_freelist P))\<rparr>\<rparr>"

lemma sp_take_eq:
  assumes "sp_ok P"
  shows "sp_take T want P =
    (if sp_free P \<noteq> [] \<and> sp_created_at P (last (sp_free P)) = want
     then (sp_makeHandle T P (word_of_nat (last (sp_free P))), sp_pop P)
     else (handle_invalid, P))"
proof (cases "hv_data (sp_freelist P) = []")
  case True
  then show ?thesis
    by (auto simp: sp_take_def sp_tryAcquireCreated_def sp_tryReserveUncreated_def hv_isEmpty_def
        hv_size_def sp_free_def)
next
  case False
  let ?f = "sp_freelist P"
  from False obtain n where n: "hv_size ?f = Suc n" "\<not> hv_isEmpty ?f"
    by (cases "hv_data ?f") (auto simp: hv_size_def hv_isEmpty_def)
  have top: "hv_back ?f = last (hv_data ?f)"
    using False by (simp add: hv_back_def hv_nth_def hv_size_def last_conv_nth)
  show ?thesis
    using False sp_scan_top[OF sp_okD(5)[OF assms] False, of T want n] n
    by (auto simp: sp_take_def sp_tryAcquireCreated_def sp_tryReserveUncreated_def sp_free_def
        last_map top sp_created_at_def sp_pop_def)
qed

lemma sp_pop_fields [simp]:
  "sp_payloads (sp_pop P) = sp_payloads P" "sp_generations (sp_pop P) = sp_generations P"
  "sp_created (sp_pop P) = sp_created P" "sp_size (sp_pop P) = sp_size P"
  "sp_free (sp_pop P) = butlast (sp_free P)"
  by (simp_all add: sp_pop_def sp_size_def sp_free_def map_butlast)

lemma sp_ok_pop: "sp_ok P \<Longrightarrow> sp_ok (sp_pop P)"
  by (auto simp: sp_ok_def hv_ok_def hv_size_def sp_pop_def sp_size_def dest: in_set_butlastD)

lemma sp_free_less: "sp_ok P \<Longrightarrow> i \<in> set (sp_free P) \<Longrightarrow> i < sp_size P"
  by (auto simp: sp_free_def sp_okD)

section \<open>Release, growth, creation and clearing\<close>

lemma sp_frame_free: "sp_frame P Q \<Longrightarrow> sp_free Q = sp_free P"
  by (simp add: sp_frame_def sp_free_def)

lemma sp_frame_isValid: "sp_frame P Q \<Longrightarrow> sp_isValid T Q h = sp_isValid T P h"
  by (simp add: sp_frame_def sp_isValid_def)

definition sp_gen :: "('g::len word, 'p) slot_pool \<Rightarrow> nat \<Rightarrow> 'g word" where
  "sp_gen P i = hv_nth (sp_generations P) i"

lemma sp_isValid_gen:
  "sp_isValid T P h \<longleftrightarrow> unat (h_index h) < sp_size P \<and>
     (tr_has_generation T \<longrightarrow> h_generation h = sp_gen P (unat (h_index h)))"
  by (simp add: sp_isValid_def sp_gen_def Let_def not_le)

lemma sp_releaseImpl_spec:
  assumes ok: "sp_ok P"
  shows "fst (sp_releaseImpl T P h) = sp_isValid T P h"
    and "\<not> sp_isValid T P h \<Longrightarrow> snd (sp_releaseImpl T P h) = P"
    and "sp_isValid T P h \<Longrightarrow> sp_ok (snd (sp_releaseImpl T P h))"
    and "sp_size (snd (sp_releaseImpl T P h)) = sp_size P"
    and "sp_isValid T P h \<Longrightarrow> sp_free (snd (sp_releaseImpl T P h)) = sp_free P @ [unat (h_index h)]"
    and "sp_isValid T P h \<Longrightarrow> i < sp_size P \<Longrightarrow> sp_gen (snd (sp_releaseImpl T P h)) i =
      (if tr_has_generation T \<and> i = unat (h_index h) then sp_gen P i + 1 else sp_gen P i)"
  using sp_isValid_index[of T P h] ok
  by (auto simp: sp_releaseImpl_def Let_def sp_size_def sp_free_def sp_ok_def hv_ok_ops sp_gen_def)

lemma sp_frame_okD: "sp_frame P Q \<Longrightarrow> sp_ok Q" "sp_frame P Q \<Longrightarrow> sp_size Q = sp_size P"
    "sp_frame P Q \<Longrightarrow> sp_gen Q i = sp_gen P i"
  by (simp_all add: sp_frame_def sp_gen_def)

definition sp_returned ::
  "('g::len word, 'p, 'r, 'c) pool_traits \<Rightarrow> 'g word handle \<Rightarrow> ('g word, 'p) slot_pool \<Rightarrow>
   ('g word, 'p) slot_pool \<Rightarrow> bool" where
  "sp_returned T h P Q \<longleftrightarrow> sp_isValid T P h \<and> sp_ok Q \<and> sp_size Q = sp_size P \<and>
     sp_free Q = sp_free P @ [unat (h_index h)] \<and>
     (\<forall>i < sp_size P. sp_gen Q i =
        (if tr_has_generation T \<and> i = unat (h_index h) then sp_gen P i + 1 else sp_gen P i))"

lemma sp_releaseImpl_returned:
  "sp_ok P \<Longrightarrow> sp_isValid T P h \<Longrightarrow> sp_returned T h P (snd (sp_releaseImpl T P h))"
  by (simp add: sp_returned_def sp_releaseImpl_spec)

lemma sp_returned_frame:
  assumes "sp_frame P Q" "sp_returned T h Q R" shows "sp_returned T h P R"
  using assms by (auto simp: sp_returned_def sp_frame_isValid sp_frame_okD sp_frame_free)

lemma sp_releaseRC_cases:
  assumes ok: "sp_ok P"
  shows "if fst (sp_releaseRC T P h r c) then sp_returned T h P (snd (sp_releaseRC T P h r c))
    else sp_frame P (snd (sp_releaseRC T P h r c))"
proof (cases "sp_isValid T P h \<and> tr_destroy_on_release T \<and> sp_isCreated T P h")
  case True
  have fr: "sp_frame P (snd (sp_destroy T P h r c))"
    by (rule sp_destroy_frame[OF ok])
  have b: "fst (sp_destroy T P h r c)"
    using True by (simp add: sp_destroy_def Let_def)
  have "sp_returned T h (snd (sp_destroy T P h r c)) (snd (sp_releaseImpl T (snd (sp_destroy T P h r c)) h))"
    using fr True by (intro sp_releaseImpl_returned) (auto simp: sp_frame_okD sp_frame_isValid)
  with fr b True show ?thesis
    by (simp add: sp_releaseRC_def sp_returned_frame sp_releaseImpl_spec sp_frame_okD sp_frame_isValid
        split: prod.split bool.split) (auto simp: sp_returned_frame sp_releaseImpl_spec(1) sp_frame_okD
        sp_frame_isValid)
next
  case False
  with ok show ?thesis
    by (auto simp: sp_releaseRC_def sp_releaseImpl_returned sp_releaseImpl_spec(1,2))
qed

lemma sp_release_cases:
  assumes "sp_ok P"
  shows "if fst (sp_release T P h) then sp_returned T h P (snd (sp_release T P h))
    else sp_frame P (snd (sp_release T P h))"
  using sp_releaseRC_cases[OF assms, of T h "tr_request T" "tr_context T"]
    sp_releaseImpl_spec(1,2)[OF assms, of T h] sp_releaseImpl_returned[OF assms, of T h] assms
  by (auto simp: sp_release_def)

text \<open>Growth appends the new slots to the freelist, the lowest of them on top.\<close>

lemma foldl_hv_push: "hv_data (foldl (\<lambda>f i. hv_pushBack f (g i)) f xs) = hv_data f @ map g xs"
  by (induction xs arbitrary: f) auto

lemma foldl_hv_push_ok: "hv_ok f \<Longrightarrow> hv_ok (foldl (\<lambda>f i. hv_pushBack f (g i)) f xs)"
  by (induction xs arbitrary: f) (auto simp: hv_ok_ops)

lemma sp_resize_spec:
  assumes ok: "sp_ok P" and r: "sp_resize T P n = Inr (k, Q)"
  shows "sp_ok Q" and "sp_size Q = n" and "k = sp_size P" and "sp_size P \<le> n"
    and "sp_free Q = sp_free P @ rev [sp_size P..<n]"
    and "i < n \<Longrightarrow> sp_gen Q i = (if i < sp_size P then sp_gen P i else 0)"
    and "i < n \<Longrightarrow> sp_created_at Q i \<longleftrightarrow> i < sp_size P \<and> sp_created_at P i"
proof -
  have le: "sp_size P \<le> n" "n \<le> 2 ^ 32 - 1"
    using r by (auto simp: sp_resize_def Let_def unat_invalid_index split: if_splits)
  have shift: "map unat (map (\<lambda>i. word_of_nat (i - 1) :: u32) (rev [sp_size P + 1..<n + 1])) = rev [sp_size P..<n]"
  proof -
    have "map (\<lambda>i. i - 1) [sp_size P + 1..<n + 1] = [sp_size P..<n]"
      by (simp add: map_Suc_upt[symmetric] comp_def del: upt_Suc)
    moreover have "map (\<lambda>i. unat (word_of_nat (i - 1) :: u32)) [sp_size P + 1..<n + 1] = map (\<lambda>i. i - 1) [sp_size P + 1..<n + 1]"
    proof (intro map_cong refl)
      fix x assume "x \<in> set [sp_size P + 1..<n + 1]"
      then have "x - 1 < n" by auto
      with le show "unat (word_of_nat (x - 1) :: u32) = x - 1"
        by (intro index_below_range[of n]) auto
    qed
    ultimately show ?thesis
      by (simp add: rev_map[symmetric] comp_def del: upt_Suc)
  qed
  let ?fl = "foldl (\<lambda>f i. hv_pushBack f (word_of_nat (i - 1))) (hv_reserve (sp_freelist P) n)
    (rev [sp_size P + 1..<n + 1])"
  note d = sp_okD[OF ok]
  have k: "k = sp_size P" and same: "n = sp_size P \<Longrightarrow> Q = P"
    using r le by (auto simp: sp_resize_def Let_def split: if_splits)
  have Q: "sp_payloads Q = rbv_resize (sp_payloads P) n (tr_default T)"
      "sp_generations Q = hv_resize (sp_generations P) n 0"
      "sp_created Q = hv_resize (sp_created P) n 0" "sp_freelist Q = ?fl" if "n \<noteq> sp_size P"
    using r le that by (auto simp: sp_resize_def Let_def unat_invalid_index simp del: upt_Suc split: if_splits)
  have free: "map unat (hv_data ?fl) = sp_free P @ rev [sp_size P..<n]"
    by (simp only: foldl_hv_push map_append sp_free_def shift hv_data_ops)
  show "k = sp_size P" "sp_size P \<le> n" by (fact k, fact le(1))
  show sz: "sp_size Q = n"
    using Q same d(1) by (cases "n = sp_size P") (auto simp: sp_size_def rbv_size_ops)
  show fr: "sp_free Q = sp_free P @ rev [sp_size P..<n]"
    using Q same free by (cases "n = sp_size P") (auto simp: sp_free_def)
  have inside: "\<forall>x \<in> set (hv_data (sp_freelist Q)). unat x < n"
  proof
    fix x assume "x \<in> set (hv_data (sp_freelist Q))"
    then have "unat x \<in> set (sp_free Q)" by (simp add: sp_free_def)
    then show "unat x < n"
      using fr sp_free_less[OF ok, of "unat x"] le by auto
  qed
  show "sp_ok Q"
  proof (cases "n = sp_size P")
    case False
    have "hv_ok ?fl" using d(5) by (intro foldl_hv_push_ok hv_ok_ops)
    moreover have "sp_size P < n" using False le by simp
    ultimately show ?thesis
      unfolding sp_ok_def sz using inside d(1-3) le Q[OF False]
      by (simp add: rbv_resize_spec hv_size_def del: upt_Suc)
  qed (use same ok in simp)
  have at: "hv_nth (hv_resize v n 0) i = (if i < hv_size v then hv_nth v i else 0)"
    if "hv_size v = sp_size P" "i < n" for v :: "'z::zero heap_vector"
    using that le by (auto simp: hv_nth_def hv_size_def nth_append)
  show "i < n \<Longrightarrow> sp_gen Q i = (if i < sp_size P then sp_gen P i else 0)"
    using Q(2) same at[OF d(2)] d(2) by (cases "n = sp_size P") (auto simp: sp_gen_def)
  show "i < n \<Longrightarrow> sp_created_at Q i \<longleftrightarrow> i < sp_size P \<and> sp_created_at P i"
    using Q(3) same at[OF d(3)] d(3) by (cases "n = sp_size P") (auto simp: sp_created_at_def)
qed

lemma sp_reserve_spec:
  assumes ok: "sp_ok P" and r: "sp_reserve P n = Inr Q"
  shows "sp_ok Q" "sp_size Q = sp_size P" "sp_free Q = sp_free P" "sp_gen Q i = sp_gen P i"
proof -
  note d = sp_okD[OF ok]
  from r have Q: "sp_payloads Q = rbv_reserve (sp_payloads P) n"
    "sp_generations Q = hv_reserve (sp_generations P) n"
    "sp_created Q = hv_reserve (sp_created P) n" "sp_freelist Q = hv_reserve (sp_freelist P) n"
    by (auto simp: sp_reserve_def split: if_splits)
  show "sp_free Q = sp_free P" "sp_gen Q i = sp_gen P i"
    by (simp_all add: Q sp_free_def sp_gen_def hv_nth_def)
  show sz: "sp_size Q = sp_size P"
    using d(1) by (simp add: sp_size_def Q rbv_size_ops)
  show "sp_ok Q"
    unfolding sp_ok_def sz using d
    by (simp add: Q rbv_reserve_spec hv_ok_ops hv_size_def)
qed

lemma sp_setBlockSize_frame:
  assumes ok: "sp_ok P" and r: "sp_setBlockSize P n = Inr (k, Q)"
  shows "sp_frame P Q"
proof (cases "rbv_block_size (sp_payloads P) = n")
  case True
  with r ok show ?thesis by (simp add: sp_setBlockSize_def split: if_splits)
next
  case False
  with r have "bindR (rbv_resizeBlocks (sp_payloads P) n)
      (\<lambda>v. Inr (rbv_block_size (sp_payloads P), P\<lparr>sp_payloads := v\<rparr>)) = Inr (k, Q)"
    by (simp add: sp_setBlockSize_def split: if_splits)
  then obtain v where v: "rbv_resizeBlocks (sp_payloads P) n = Inr v" and Q: "Q = P\<lparr>sp_payloads := v\<rparr>"
    by (elim bindR_InrE) blast
  note v = rbv_resizeBlocks_spec[OF sp_okD(1)[OF ok] v]
  have "rbv_size v = rbv_size (sp_payloads P)"
    using v(2) by (metis rbv_length_list)
  with ok v(1) show ?thesis
    by (simp add: Q sp_frame_def sp_ok_def sp_size_def)
qed

lemma sp_clear_spec:
  assumes "sp_ok P"
  shows "sp_ok (sp_clear T P r c)" "sp_size (sp_clear T P r c) = 0" "sp_free (sp_clear T P r c) = []"
  using sp_destroyCreated_frame[OF assms, of T r c] sp_okD(5)[OF assms]
  by (simp_all add: sp_clear_def Let_def sp_ok_def sp_size_def sp_free_def sp_frame_def rbv_clear_spec
      hv_size_def hv_ok_ops)

section \<open>Sequences of calls\<close>

text \<open>
  Every state-changing member function but \<open>clear\<close> as one call; \<open>sp_exec\<close> performs it and also
  returns the handle it granted, if any.  A throwing call leaves the pool as it was.
\<close>

datatype ('w, 'p, 'r, 'c) sp_call =
    TryAcquireCreated
  | TryReserveUncreated
  | Release "'w handle"
  | ReleaseRC "'w handle" 'r 'c
  | Emplace "'w handle" 'r 'c
  | EmplaceWith "'w handle" 'r 'c "'p \<Rightarrow> 'r \<Rightarrow> 'c \<Rightarrow> bool \<times> 'p"
  | Destroy "'w handle" 'r 'c
  | DestroyWith "'w handle" 'r 'c "'p \<Rightarrow> 'r \<Rightarrow> 'c \<Rightarrow> bool \<times> 'p"
  | CreateRange nat nat 'r 'c
  | Resize nat
  | Reserve nat
  | SetBlockSize nat

definition granted :: "'g::len word handle \<Rightarrow> 'g word handle option" where
  "granted h = (if handle_isValid h then Some h else None)"

fun sp_exec ::
  "('g::len word, 'p, 'r, 'c) pool_traits \<Rightarrow> ('g word, 'p, 'r, 'c) sp_call \<Rightarrow>
   ('g word, 'p) slot_pool \<Rightarrow> 'g word handle option \<times> ('g word, 'p) slot_pool" where
  "sp_exec T TryAcquireCreated P = apfst granted (sp_tryAcquireCreated T P)"
| "sp_exec T TryReserveUncreated P = apfst granted (sp_tryReserveUncreated T P)"
| "sp_exec T (Release h) P = (None, snd (sp_release T P h))"
| "sp_exec T (ReleaseRC h r c) P = (None, snd (sp_releaseRC T P h r c))"
| "sp_exec T (Emplace h r c) P = (None, snd (sp_emplace T P h r c))"
| "sp_exec T (EmplaceWith h r c f) P = (None, snd (sp_emplaceWith T P h r c f))"
| "sp_exec T (Destroy h r c) P = (None, snd (sp_destroy T P h r c))"
| "sp_exec T (DestroyWith h r c f) P = (None, snd (sp_destroyWith T P h r c f))"
| "sp_exec T (CreateRange a b r c) P =
     (None, case sp_createRange T P a b r c of Inl _ \<Rightarrow> P | Inr (_, Q) \<Rightarrow> Q)"
| "sp_exec T (Resize n) P = (None, case sp_resize T P n of Inl _ \<Rightarrow> P | Inr (_, Q) \<Rightarrow> Q)"
| "sp_exec T (Reserve n) P = (None, case sp_reserve P n of Inl _ \<Rightarrow> P | Inr Q \<Rightarrow> Q)"
| "sp_exec T (SetBlockSize n) P = (None, case sp_setBlockSize P n of Inl _ \<Rightarrow> P | Inr (_, Q) \<Rightarrow> Q)"

text \<open>The slot that a call returns to the freelist.\<close>

fun sp_returns ::
  "('g::len word, 'p, 'r, 'c) pool_traits \<Rightarrow> ('g word, 'p, 'r, 'c) sp_call \<Rightarrow>
   ('g word, 'p) slot_pool \<Rightarrow> 'g word handle option" where
  "sp_returns T (Release h) P = (if fst (sp_release T P h) then Some h else None)"
| "sp_returns T (ReleaseRC h r c) P = (if fst (sp_releaseRC T P h r c) then Some h else None)"
| "sp_returns T _ P = None"

definition sp_neutral :: "('g::len word, 'p) slot_pool \<Rightarrow> ('g word, 'p) slot_pool \<Rightarrow> bool" where
  "sp_neutral P Q \<longleftrightarrow> sp_ok Q \<and> sp_size P \<le> sp_size Q \<and> sp_free Q = sp_free P @ rev [sp_size P..<sp_size Q] \<and>
     (\<forall>i < sp_size P. sp_gen Q i = sp_gen P i)"

lemma sp_frame_neutral: "sp_frame P Q \<Longrightarrow> sp_neutral P Q"
  by (simp add: sp_neutral_def sp_frame_okD sp_frame_free)

lemma sp_makeHandle_word:
  assumes "sp_ok P" "i \<in> set (sp_free P)"
  shows "unat (word_of_nat i :: u32) = i" "handle_isValid (sp_makeHandle T P (word_of_nat i))"
proof -
  have "i < sp_size P" using assms by (rule sp_free_less)
  with sp_okD(4)[OF assms(1)] show *: "unat (word_of_nat i :: u32) = i"
    by (intro index_below_range[of "sp_size P"]) auto
  then show "handle_isValid (sp_makeHandle T P (word_of_nat i))"
    using \<open>i < sp_size P\<close> sp_okD(4)[OF assms(1)] by (intro handle_isValidI) simp
qed

text \<open>The three kinds of call: one grants the top of the freelist, one returns a slot, the others
  neither take nor return a slot.\<close>

lemma sp_exec_cases:
  assumes ok: "sp_ok P" and ex: "sp_exec T call P = (g, Q)"
  obtains (grant) h where "g = Some h" "sp_returns T call P = None" "sp_free P \<noteq> []"
      "h = sp_makeHandle T P (word_of_nat (last (sp_free P)))" "Q = sp_pop P"
    | (return) h where "g = None" "sp_returns T call P = Some h" "sp_returned T h P Q"
    | (neutral) "g = None" "sp_returns T call P = None" "sp_neutral P Q"
proof -
  have take: thesis if "(g, Q) = apfst granted (sp_take T want P)" "sp_returns T call P = None" for want
    using that ok grant[OF _ that(2)] neutral sp_makeHandle_word(2)[OF ok, of "last (sp_free P)" T]
    by (auto simp: sp_take_eq granted_def sp_frame_neutral split: if_splits)
  have N: thesis if "sp_frame P Q" "g = None" "sp_returns T call P = None"
    using that neutral sp_frame_neutral by blast
  show thesis
  proof (cases call)
    case TryAcquireCreated
    with ex show ?thesis by (intro take[of True]) (simp_all add: sp_take_def)
  next
    case TryReserveUncreated
    with ex show ?thesis by (intro take[of False]) (simp_all add: sp_take_def)
  next
    case (Release h)
    with ex sp_release_cases[OF ok, of T h] show ?thesis
      by (cases "fst (sp_release T P h)") (auto intro: return N)
  next
    case (ReleaseRC h r c)
    with ex sp_releaseRC_cases[OF ok, of T h r c] show ?thesis
      by (cases "fst (sp_releaseRC T P h r c)") (auto intro: return N)
  next
    case (CreateRange a b r c)
    with ex ok show ?thesis
      by (intro N) (auto split: sum.splits intro: sp_createRange_frame)
  next
    case (Resize n)
    show ?thesis
    proof (cases "sp_resize T P n")
      case (Inr kQ)
      with Resize ex have "sp_resize T P n = Inr (fst kQ, Q)" by (auto split: prod.splits)
      from sp_resize_spec[OF ok this] Resize ex show ?thesis
        by (intro neutral) (auto simp: sp_neutral_def)
    qed (use Resize ex ok N in auto)
  next
    case (Reserve n)
    with ex sp_reserve_spec[OF ok, of n Q] ok show ?thesis
      by (intro neutral) (auto simp: sp_neutral_def split: sum.splits)
  next
    case (SetBlockSize n)
    with ex ok show ?thesis
      by (intro N) (auto split: sum.splits intro: sp_setBlockSize_frame)
  qed (use ex ok N in \<open>auto simp: sp_emplace_eq sp_destroy_eq intro: sp_emplaceWith_frame sp_destroyWith_frame\<close>)
qed

fun sp_execs ::
  "('g::len word, 'p, 'r, 'c) pool_traits \<Rightarrow> ('g word, 'p, 'r, 'c) sp_call list \<Rightarrow>
   ('g word, 'p) slot_pool \<Rightarrow> ('g word, 'p) slot_pool" where
  "sp_execs T [] P = P"
| "sp_execs T (call # calls) P = sp_execs T calls (snd (sp_exec T call P))"

text \<open>How often a sequence of calls returns slot \<open>i\<close>.\<close>

fun sp_return_count ::
  "('g::len word, 'p, 'r, 'c) pool_traits \<Rightarrow> nat \<Rightarrow> ('g word, 'p, 'r, 'c) sp_call list \<Rightarrow>
   ('g word, 'p) slot_pool \<Rightarrow> nat" where
  "sp_return_count T i [] P = 0"
| "sp_return_count T i (call # calls) P =
     (case sp_returns T call P of
        Some h \<Rightarrow> (if unat (h_index h) = i then 1 else 0)
      | None \<Rightarrow> 0) + sp_return_count T i calls (snd (sp_exec T call P))"

lemma sp_exec_ok:
  assumes "sp_ok P"
  shows "sp_ok (snd (sp_exec T call P))" and "sp_size P \<le> sp_size (snd (sp_exec T call P))"
proof -
  obtain g Q where ex: "sp_exec T call P = (g, Q)" by fastforce
  have "sp_ok Q \<and> sp_size P \<le> sp_size Q"
    using assms ex
    by (cases rule: sp_exec_cases) (auto simp: assms sp_ok_pop sp_returned_def sp_neutral_def)
  with ex show "sp_ok (snd (sp_exec T call P))" "sp_size P \<le> sp_size (snd (sp_exec T call P))"
    by simp_all
qed

lemma sp_execs_ok: "sp_ok P \<Longrightarrow> sp_ok (sp_execs T calls P)"
  by (induction calls arbitrary: P) (auto simp: sp_exec_ok)

lemma sp_exec_gen:
  assumes ok: "sp_ok P" and i: "i < sp_size P" and gen: "tr_has_generation T"
  shows "sp_gen (snd (sp_exec T call P)) i = sp_gen P i +
    (case sp_returns T call P of Some h \<Rightarrow> (if unat (h_index h) = i then 1 else 0) | None \<Rightarrow> 0)"
proof -
  obtain g Q where ex: "sp_exec T call P = (g, Q)" by fastforce
  from ok ex show ?thesis
    by (cases rule: sp_exec_cases)
      (use i gen in \<open>auto simp: ex sp_returned_def sp_neutral_def sp_gen_def sp_isValid_index\<close>)
qed

lemma sp_execs_gen:
  assumes "sp_ok P" "i < sp_size P" "tr_has_generation T"
  shows "sp_gen (sp_execs T calls P) i = sp_gen P i + of_nat (sp_return_count T i calls P)"
  using assms
proof (induction calls arbitrary: P)
  case (Cons call calls)
  let ?Q = "snd (sp_exec T call P)"
  have "i < sp_size ?Q"
    using sp_exec_ok(2)[OF Cons.prems(1), of T call] Cons.prems(2) by simp
  from Cons.IH[OF sp_exec_ok(1)[OF Cons.prems(1)] this Cons.prems(3)]
  show ?case
    by (simp add: sp_exec_gen Cons.prems split: option.splits)
qed simp

lemma sp_execs_size: "sp_ok P \<Longrightarrow> sp_size P \<le> sp_size (sp_execs T calls P)"
proof (induction calls arbitrary: P)
  case (Cons call calls)
  from Cons.IH[OF sp_exec_ok(1)[OF Cons.prems, of T call]] sp_exec_ok(2)[OF Cons.prems, of T call]
  show ?case by simp
qed simp

section \<open>Clients\<close>

text \<open>
  A client starts from an empty pool and makes any calls in any order, with any handles; the one
  rule it keeps is to release only what it was granted and has not released.  \<open>held\<close> are the handles
  it owns.
\<close>

inductive sp_client ::
  "('g::len word, 'p, 'r, 'c) pool_traits \<Rightarrow> ('g word, 'p) slot_pool \<Rightarrow> 'g word handle list \<Rightarrow> bool"
  for T where
  sp_start: "sp_client T sp_new []"
| sp_call: "sp_client T P held \<Longrightarrow> sp_returns T call P = None \<Longrightarrow> sp_exec T call P = (None, Q) \<Longrightarrow>
     sp_client T Q held"
| sp_granted: "sp_client T P held \<Longrightarrow> sp_exec T call P = (Some h, Q) \<Longrightarrow> sp_client T Q (h # held)"
| sp_return: "sp_client T P held \<Longrightarrow> sp_returns T call P = Some h \<Longrightarrow> h \<in> set held \<Longrightarrow>
     sp_exec T call P = (g, Q) \<Longrightarrow> sp_client T Q (remove1 h held)"

lemma sp_client_grantI:
  "sp_client T P held \<Longrightarrow> fst (sp_exec T call P) = Some h \<Longrightarrow> sp_client T (snd (sp_exec T call P)) (h # held)"
  by (rule sp_granted[of T P held call]) (simp_all add: prod_eq_iff)

lemma sp_client_callI:
  "sp_client T P held \<Longrightarrow> sp_returns T call P = None \<Longrightarrow> fst (sp_exec T call P) = None \<Longrightarrow>
   sp_client T (snd (sp_exec T call P)) held"
  by (rule sp_call[of T P held call]) (simp_all add: prod_eq_iff)

definition sp_slot :: "'w handle \<Rightarrow> nat" where
  "sp_slot h = unat (h_index h)"

definition sp_owned :: "('g::len word, 'p, 'r, 'c) pool_traits \<Rightarrow> ('g word, 'p) slot_pool \<Rightarrow>
    'g word handle list \<Rightarrow> bool" where
  "sp_owned T P held \<longleftrightarrow> sp_ok P \<and>
     mset (map sp_slot held) + mset (sp_free P) = mset [0..<sp_size P] \<and>
     (\<forall>h \<in> set held. sp_isValid T P h)"

lemma sp_ownedD:
  assumes "sp_owned T P held"
  shows "distinct (map sp_slot held @ sp_free P)" "set (map sp_slot held) \<union> set (sp_free P) = {..<sp_size P}"
    "length held + length (sp_free P) = sp_size P"
proof -
  from assms have m: "mset (map sp_slot held @ sp_free P) = mset [0..<sp_size P]"
    by (simp add: sp_owned_def)
  from mset_eq_imp_distinct_iff[OF m] show "distinct (map sp_slot held @ sp_free P)" by simp
  from mset_eq_setD[OF m] show "set (map sp_slot held) \<union> set (sp_free P) = {..<sp_size P}" by auto
  from mset_eq_length[OF m] show "length held + length (sp_free P) = sp_size P" by simp
qed

lemma sp_owned_grant:
  assumes own: "sp_owned T P held" and ne: "sp_free P \<noteq> []"
  shows "sp_owned T (sp_pop P) (sp_makeHandle T P (word_of_nat (last (sp_free P))) # held)"
proof -
  let ?i = "last (sp_free P)"
  have ok: "sp_ok P" using own by (simp add: sp_owned_def)
  have slot: "sp_slot (sp_makeHandle T P (word_of_nat ?i)) = ?i" "?i < sp_size P"
    using sp_makeHandle_word(1)[OF ok, of ?i] sp_free_less[OF ok, of ?i] ne by (simp_all add: sp_slot_def)
  have valid: "sp_isValid T (sp_pop P) h = sp_isValid T P h" for h
    by (simp add: sp_isValid_def)
  have "mset (sp_free P) = add_mset ?i (mset (butlast (sp_free P)))"
    using ne by (metis append_butlast_last_id mset.simps(2) mset_append add_mset_add_single mset_single_iff_right)
  with own slot show ?thesis
    by (auto simp: sp_owned_def valid sp_ok_pop sp_slot_def)
qed

lemma sp_owned_return:
  assumes own: "sp_owned T P held" and h: "h \<in> set held" and ret: "sp_returned T h P Q"
  shows "sp_owned T Q (remove1 h held)"
proof -
  have dist: "distinct (map sp_slot held)" "distinct held"
    using sp_ownedD(1)[OF own] by (auto simp: distinct_map)
  have "sp_slot k \<noteq> sp_slot h" if "k \<in> set (remove1 h held)" for k
    using that h dist by (auto simp: distinct_map inj_on_def)
  moreover have "mset (map sp_slot held) = add_mset (sp_slot h) (mset (map sp_slot (remove1 h held)))"
    using h by (metis insert_DiffM image_mset_add_mset mset_map mset_remove1 set_mset_mset)
  ultimately show ?thesis
    using own ret dist(2)
    by (auto simp: sp_owned_def sp_returned_def sp_slot_def sp_isValid_gen)
qed

lemma sp_owned_neutral:
  assumes own: "sp_owned T P held" and neutral: "sp_neutral P Q"
  shows "sp_owned T Q held"
proof -
  from neutral have "mset [0..<sp_size Q] = mset [0..<sp_size P] + mset [sp_size P..<sp_size Q]"
    by (metis mset_append sp_neutral_def upt_add_eq_append le_add_diff_inverse zero_le)
  with own neutral show ?thesis
    by (auto simp: sp_owned_def sp_neutral_def sp_isValid_gen dest: less_le_trans)
qed

lemma sp_client_owned: "sp_client T P held \<Longrightarrow> sp_owned T P held"
proof (induction rule: sp_client.induct)
  case sp_start
  show ?case by (simp add: sp_owned_def) (simp add: sp_new_def sp_size_def sp_free_def)
next
  case (sp_call P held call Q)
  then have "sp_ok P" by (simp add: sp_owned_def)
  from this sp_call(3) show ?case
    by (cases rule: sp_exec_cases) (use sp_call sp_owned_neutral in auto)
next
  case (sp_granted P held call h Q)
  then have "sp_ok P" by (simp add: sp_owned_def)
  from this sp_granted(2) show ?case
    by (cases rule: sp_exec_cases) (use sp_granted sp_owned_grant in auto)
next
  case (sp_return P held call h g Q)
  then have "sp_ok P" by (simp add: sp_owned_def)
  from this sp_return(4) show ?case
    by (cases rule: sp_exec_cases) (use sp_return sp_owned_return in auto)
qed

section \<open>Properties\<close>

text \<open>A pool of two slots with 8-bit generations, over payloads that are numbers.\<close>

definition sp_ex_traits :: "(8 word, nat, nat, unit) pool_traits" where
  "sp_ex_traits = \<lparr>tr_default = 0, tr_create = (\<lambda>p r c. (r \<noteq> 0, r)), tr_destroy = (\<lambda>p r c. 0),
     tr_setHandle = (\<lambda>r h. r), tr_request = 0, tr_context = (), tr_destroy_on_release = False,
     tr_has_generation = True\<rparr>"

definition sp_ex_pool :: "(8 word, nat) slot_pool" where
  "sp_ex_pool = sp_execs sp_ex_traits [Resize 2] sp_new"

lemma sp_ex_pool_ok: "sp_ok sp_ex_pool"
  by (simp add: sp_ex_pool_def sp_execs_ok del: sp_execs.simps)

text \<open>
  C6: exclusive ownership of slots.  Whatever calls a client makes, as long as it releases only
  handles it was granted and still owns, the slots of the handles it owns are pairwise distinct,
  none of them is on the freelist, each of its handles is still valid, and every slot of the pool is
  either owned or available: no slot is handed out twice and none is lost.
\<close>

theorem sp_exclusive_ownership:
  assumes "sp_client T P held"
  shows "distinct (map sp_slot held @ sp_free P) \<and> (\<forall>h \<in> set held. sp_isValid T P h) \<and>
    length held + sp_available P = sp_size P"
  using sp_client_owned[OF assms] sp_ownedD[OF sp_client_owned[OF assms]]
  by (simp add: sp_owned_def sp_available_def sp_free_def hv_size_def)

theorem sp_exclusive_ownership_witness:
  "\<exists>P. sp_client sp_ex_traits P [Handle 1 0, Handle 0 0] \<and> sp_available P = sp_size P - 2"
proof -
  let ?r = "sp_exec sp_ex_traits"
  let ?P1 = "snd (?r (Resize 2) sp_new)"
  let ?P2 = "snd (?r TryReserveUncreated ?P1)"
  let ?P3 = "snd (?r TryReserveUncreated ?P2)"
  have "fst (?r TryReserveUncreated ?P1) = Some (Handle 0 0)"
    "fst (?r TryReserveUncreated ?P2) = Some (Handle 1 0)"
    by code_simp+
  then have "sp_client sp_ex_traits ?P3 [Handle 1 0, Handle 0 0]"
    by (intro sp_client_grantI sp_client_callI sp_start) (simp_all only: sp_returns.simps sp_exec.simps fst_conv)
  with sp_exclusive_ownership[OF this] show ?thesis by fastforce
qed

text \<open>
  C7: detection of stale handles.  In a pool whose handles carry a generation of \<open>g\<close> bits, a handle
  that is valid now is valid again after any sequence of calls exactly if its slot was released a
  multiple of \<open>2^g\<close> times in between: it is rejected after 1 up to \<open>2^g - 1\<close> releases, and accepted
  again once the counter has wrapped around.
\<close>

theorem sp_stale_handles:
  fixes T :: "('g::len word, 'p, 'r, 'c) pool_traits"
  assumes "sp_ok P" and "tr_has_generation T" and "sp_isValid T P h"
  shows "sp_isValid T (sp_execs T calls P) h \<longleftrightarrow>
    2 ^ LENGTH('g) dvd sp_return_count T (sp_slot h) calls P"
proof -
  have i: "sp_slot h < sp_size P" "h_generation h = sp_gen P (sp_slot h)"
    using assms by (auto simp: sp_isValid_gen sp_slot_def)
  have "sp_isValid T (sp_execs T calls P) h \<longleftrightarrow>
      (of_nat (sp_return_count T (sp_slot h) calls P) :: 'g word) = 0"
    using i sp_execs_size[OF assms(1), of T calls] sp_execs_gen[OF assms(1) i(1) assms(2), of calls] assms(2)
    by (auto simp: sp_isValid_gen sp_slot_def)
  then show ?thesis
    by (simp add: word_of_nat_eq_0_iff)
qed

theorem sp_stale_handles_witness:
  "\<not> sp_isValid sp_ex_traits (sp_execs sp_ex_traits [Release (Handle 0 0)] sp_ex_pool) (Handle 0 0)"
proof -
  have "sp_isValid sp_ex_traits sp_ex_pool (Handle 0 0)" "tr_has_generation sp_ex_traits"
    "sp_return_count sp_ex_traits (sp_slot (Handle 0 0 :: 8 word handle)) [Release (Handle 0 0)] sp_ex_pool = 1"
    by code_simp+
  with sp_stale_handles[OF sp_ex_pool_ok, of sp_ex_traits "Handle 0 0" "[Release (Handle 0 0)]"]
  show ?thesis by simp
qed

text \<open>
  What \<open>reserveUncreated\<close> returns.  On a well-formed pool it looks at the top of the freelist
  alone: if that slot is uncreated it is taken off the freelist and returned with its current
  generation, otherwise the call throws \<open>OutOfRange\<close> and leaves the pool unchanged, even when
  uncreated slots are available below the top.
\<close>

theorem sp_reserveUncreated_top:
  assumes "sp_ok P"
  shows "sp_reserveUncreated T P =
    (if sp_free P \<noteq> [] \<and> \<not> sp_created_at P (last (sp_free P))
     then (Inr (sp_makeHandle T P (word_of_nat (last (sp_free P)))), sp_pop P)
     else (throw OutOfRange, P))"
  using sp_take_eq[OF assms, of T False] sp_makeHandle_word(2)[OF assms, of "last (sp_free P)" T]
  by (auto simp: sp_reserveUncreated_def sp_take_def)

theorem sp_reserveUncreated_top_witness:
  "fst (sp_reserveUncreated sp_ex_traits sp_ex_pool) = Inr (Handle 0 0)"
proof -
  have "sp_free sp_ex_pool = [1, 0]" "sp_created_at sp_ex_pool 0 = False"
    "sp_makeHandle sp_ex_traits sp_ex_pool (word_of_nat 0) = Handle 0 0"
    by code_simp+
  with sp_reserveUncreated_top[OF sp_ex_pool_ok, of sp_ex_traits] show ?thesis by simp
qed

text \<open>
  a pool of two slots in which slot 0 holds a payload and slot 1 is free and uncreated refuses
  to reserve an uncreated slot: the scan over the freelist re-examines slot 0, which it pushed back,
  and never reaches slot 1.
\<close>

theorem sp_reserve_misses_free_slot:
  "let P = sp_execs sp_ex_traits [Resize 2, Emplace (Handle 0 0) 5 ()] sp_new in
     sp_free P = [1, 0] \<and> \<not> sp_created_at P 1 \<and>
     fst (sp_reserveUncreated sp_ex_traits P) = throw OutOfRange"
  by code_simp

text \<open>
  without a generation field a double release goes unnoticed.  Releasing the one reserved slot
  of a pool twice succeeds twice, and the same slot is then granted twice.
\<close>

theorem sp_double_release_without_generation:
  "let T = sp_ex_traits\<lparr>tr_has_generation := False\<rparr>;
       P = sp_execs T [Resize 1, TryReserveUncreated, Release (Handle 0 0), Release (Handle 0 0)] sp_new;
       (h, Q) = sp_tryReserveUncreated T P
   in handle_isValid h \<and> fst (sp_tryReserveUncreated T Q) = h"
  by code_simp

end
