(* ===== verification/PoolFacts.thy ===== *)
theory PoolFacts
  imports SlotPool
begin

text \<open>
  Where a pool's payloads live: every call of \<open>slot_pool.h\<close> except \<open>setBlockSize\<close> and \<open>clear\<close> leaves
  the payloads it does not work on at their addresses with their values, so the raw pointers that
  control blocks and leases keep stay good.
\<close>

definition sp_addr :: "('g::len word, 'p) slot_pool \<Rightarrow> nat \<Rightarrow> nat" where
  "sp_addr P i = rbv_ptrAt (sp_payloads P) i"

definition sp_val :: "('g::len word, 'p) slot_pool \<Rightarrow> nat \<Rightarrow> 'p" where
  "sp_val P i = rbv_nth (sp_payloads P) i"

text \<open>Everything the pool held is still there, at the same address; the block size is the same.\<close>

definition sp_inplace :: "('g::len word, 'p) slot_pool \<Rightarrow> ('g word, 'p) slot_pool \<Rightarrow> bool" where
  "sp_inplace P Q \<longleftrightarrow> sp_ok Q \<and> sp_size P \<le> sp_size Q \<and> sp_blockSize Q = sp_blockSize P \<and>
     (\<forall>i < sp_size P. sp_addr Q i = sp_addr P i)"

lemma sp_inplace_refl [simp]: "sp_inplace P P \<longleftrightarrow> sp_ok P"
  by (auto simp: sp_inplace_def)

lemma sp_inplace_trans: "sp_inplace P Q \<Longrightarrow> sp_inplace Q R \<Longrightarrow> sp_inplace P R"
  by (auto simp: sp_inplace_def)

lemma sp_inplaceD:
  assumes "sp_inplace P Q"
  shows "sp_ok Q" "sp_size P \<le> sp_size Q" "sp_blockSize Q = sp_blockSize P"
    "i < sp_size P \<Longrightarrow> sp_addr Q i = sp_addr P i"
  using assms by (simp_all add: sp_inplace_def)

lemma rbv_block_size_resize [simp]: "rbv_ok v \<Longrightarrow> rbv_block_size (rbv_resize v n x) = rbv_block_size v"
proof -
  assume ok: "rbv_ok v"
  have c: "rbv_block_size (foldl (\<lambda>w i. rbv_construct w i x) v is) = rbv_block_size v" for v :: "'a rbv" and "is"
    by (induction "is" arbitrary: v) (auto simp: rbv_construct_def)
  have d: "rbv_block_size (rbv_destroyRange v a b) = rbv_block_size v" for a b
    unfolding rbv_destroyRange_def by (induction b) auto
  from rbv_ensureCapacityFor_spec(2)[OF ok, of n] show ?thesis
    by (simp add: rbv_resize_def Let_def c d rbv_extends_def)
qed

lemma rbv_set_fields [simp]:
  "rbv_block_size (rbv_set v i x) = rbv_block_size v" "rbv_ptrAt (rbv_set v i x) j = rbv_ptrAt v j"
  "rbv_size (rbv_set v i x) = rbv_size v" "rbv_blocks (rbv_set v i x) = rbv_blocks v"
  by (simp_all add: rbv_set_def rbv_ptrAt_def)

lemma rbv_nth_set:
  assumes "rbv_ok v" "i < rbv_size v" "j < rbv_size v"
  shows "rbv_nth (rbv_set v i x) j = (if i = j then x else rbv_nth v j)"
  using rbv.nth_set[OF assms] .

lemma rbv_set_nth_same:
  assumes "rbv_ok v" "i < rbv_size v"
  shows "rbv_set v i (rbv_nth v i) = v"
proof -
  have "rbv_mem v (rbv_ptrAt v i) \<noteq> None"
    using rbv_okD(4)[OF assms(1)] assms(2) by blast
  then show ?thesis
    by (cases v) (auto simp: rbv_set_def rbv_nth_def fun_upd_idem)
qed

lemma rbv_mem_nth:
  assumes "rbv_ok v" "i < rbv_size v"
  shows "rbv_mem v (rbv_ptrAt v i) = Some (rbv_nth v i)"
proof -
  have "rbv_mem v (rbv_ptrAt v i) \<noteq> None"
    using rbv_okD(4)[OF assms(1)] assms(2) by blast
  then show ?thesis by (auto simp: rbv_nth_def)
qed

lemma sp_mem_addr:
  "sp_ok P \<Longrightarrow> i < sp_size P \<Longrightarrow> rbv_mem (sp_payloads P) (sp_addr P i) = Some (sp_val P i)"
  by (simp add: sp_addr_def sp_val_def sp_size_def rbv_mem_nth sp_okD(1))

lemma sp_addr_inj:
  assumes "sp_ok P" "i < sp_size P" "j < sp_size P" "sp_addr P i = sp_addr P j"
  shows "i = j"
  using rbv_ptrAt_inj[OF sp_okD(1)[OF assms(1)], of i j] rbv_okD(3)[OF sp_okD(1)[OF assms(1)]] assms(2-4)
  by (simp add: sp_addr_def sp_size_def)

lemma sp_get_addr: "sp_get T P h = (if sp_isValid T P h then Some (sp_addr P (sp_slot h)) else None)"
  by (simp add: sp_get_def sp_addr_def sp_slot_def)

section \<open>The calls\<close>

lemma sp_put_inplace:
  assumes "sp_ok P" "i < sp_size P"
  shows "sp_inplace P (P\<lparr>sp_payloads := rbv_set (sp_payloads P) i p\<rparr>)"
  using sp_frame_put[OF assms, of p]
  by (simp add: sp_inplace_def sp_frame_def sp_addr_def sp_blockSize_def)

lemma sp_setCreated_inplace:
  assumes "sp_inplace P Q" shows "sp_inplace P (sp_setCreated T Q h b)"
proof -
  have "sp_ok (sp_setCreated T Q h b)"
    using sp_frame_setCreated[of Q Q T h b] assms by (simp add: sp_inplace_def sp_frame_def)
  with assms show ?thesis
    by (simp add: sp_inplace_def sp_addr_def sp_blockSize_def)
qed

lemma sp_emplaceWith_inplace: "sp_ok P \<Longrightarrow> sp_inplace P (snd (sp_emplaceWith T P h r c f))"
  by (auto simp: sp_emplaceWith_def Let_def sp_isValid_index sp_put_inplace
      intro!: sp_setCreated_inplace split: prod.split)

lemma sp_destroyWith_inplace: "sp_ok P \<Longrightarrow> sp_inplace P (snd (sp_destroyWith T P h r c f))"
  by (auto simp: sp_destroyWith_def Let_def sp_isValid_index sp_put_inplace
      intro!: sp_setCreated_inplace split: prod.split)

lemma sp_emplace_inplace: "sp_ok P \<Longrightarrow> sp_inplace P (snd (sp_emplace T P h r c))"
  by (simp add: sp_emplace_eq sp_emplaceWith_inplace)

lemma sp_destroy_inplace: "sp_ok P \<Longrightarrow> sp_inplace P (snd (sp_destroy T P h r c))"
  by (simp add: sp_destroy_eq sp_destroyWith_inplace)

lemma sp_createLoop_inplace:
  "sp_ok P \<Longrightarrow> sp_inplace P (snd (sp_createLoop T r c is b P))"
proof (induction "is" arbitrary: b P)
  case (Cons idx "is")
  let ?h = "sp_makeHandle T P (word_of_nat idx)"
  let ?E = "sp_emplace T P ?h (tr_setHandle T r ?h) c"
  have step: "sp_inplace P (snd ?E)"
    by (rule sp_emplace_inplace[OF Cons.prems])
  have "sp_inplace (snd ?E) (snd (sp_createLoop T r c is (b \<and> fst ?E) (snd ?E)))"
    using sp_inplaceD(1)[OF step] by (rule Cons.IH)
  from sp_inplace_trans[OF step this] show ?case
    by (simp add: Let_def split_beta)
qed simp

lemma sp_createRange_inplace:
  "sp_ok P \<Longrightarrow> sp_createRange T P a b r c = Inr (ok, Q) \<Longrightarrow> sp_inplace P Q"
  using sp_createLoop_inplace[of P T r c "[a..<b]" True]
  by (auto simp: sp_createRange_def split: if_splits)

lemma sp_resize_fields:
  assumes "sp_resize T P n = Inr (k, Q)"
  shows "n = sp_size P \<and> Q = P \<or> sp_size P < n \<and> sp_payloads Q = rbv_resize (sp_payloads P) n (tr_default T)"
  using assms by (auto simp: sp_resize_def Let_def split: if_splits)

lemma sp_resize_inplace:
  assumes ok: "sp_ok P" and r: "sp_resize T P n = Inr (k, Q)"
  shows "sp_inplace P Q"
proof (cases "n = sp_size P")
  case True
  with sp_resize_fields[OF r] ok show ?thesis by auto
next
  case False
  with sp_resize_fields[OF r] have Q: "sp_payloads Q = rbv_resize (sp_payloads P) n (tr_default T)" by auto
  have "sp_blockSize Q = sp_blockSize P"
    unfolding sp_blockSize_def Q by (rule rbv_block_size_resize[OF sp_okD(1)[OF ok]])
  moreover have "sp_addr Q i = sp_addr P i" if "i < sp_size P" for i
    unfolding sp_addr_def Q using that sp_resize_spec(4)[OF ok r]
    by (intro rbv_ptrAt_grow(3)[OF sp_okD(1)[OF ok]]) (simp_all add: sp_size_def)
  ultimately show ?thesis
    using sp_resize_spec(1,2,4)[OF ok r] by (simp add: sp_inplace_def)
qed

lemma sp_resize_val:
  assumes ok: "sp_ok P" and r: "sp_resize T P n = Inr (k, Q)" and i: "i < n"
  shows "sp_val Q i = (if i < sp_size P then sp_val P i else tr_default T)"
proof (cases "n = sp_size P")
  case True
  with i sp_resize_fields[OF r] show ?thesis by auto
next
  case False
  note v = sp_okD(1)[OF ok]
  from False sp_resize_fields[OF r] have Q: "sp_payloads Q = rbv_resize (sp_payloads P) n (tr_default T)"
    and n: "sp_size P < n" by auto
  have "rbv_nth (sp_payloads Q) i = rbv_list (rbv_resize (sp_payloads P) n (tr_default T)) ! i"
    using i by (simp add: Q rbv_nth_list rbv_size_ops(3)[OF v])
  moreover have "i - sp_size P < n - sp_size P" if "\<not> i < sp_size P"
    using that n i by simp
  ultimately show ?thesis
    using n by (auto simp: sp_val_def rbv_resize_spec(2)[OF v] nth_append sp_size_def rbv_nth_list)
qed

lemma sp_releaseImpl_inplace: "sp_ok P \<Longrightarrow> sp_inplace P (snd (sp_releaseImpl T P h))"
  using sp_releaseImpl_spec(2,3,4)[of P T h]
  by (cases "sp_isValid T P h")
    (auto simp: sp_inplace_def sp_releaseImpl_def Let_def sp_addr_def sp_blockSize_def)

lemma sp_releaseRC_inplace:
  assumes "sp_ok P" shows "sp_inplace P (snd (sp_releaseRC T P h r c))"
proof -
  have d: "sp_inplace P (snd (sp_destroy T P h r c))" using sp_destroy_inplace[OF assms] .
  have "sp_inplace P (snd (sp_releaseImpl T (snd (sp_destroy T P h r c)) h))"
    using sp_inplace_trans[OF d sp_releaseImpl_inplace[OF sp_inplaceD(1)[OF d]]] .
  with d assms show ?thesis
    by (auto simp: sp_releaseRC_def sp_releaseImpl_inplace split: prod.split bool.split)
qed

lemma sp_release_inplace: "sp_ok P \<Longrightarrow> sp_inplace P (snd (sp_release T P h))"
  by (simp add: sp_release_def sp_releaseRC_inplace sp_releaseImpl_inplace)

lemma sp_pop_inplace: "sp_ok P \<Longrightarrow> sp_inplace P (sp_pop P)"
  by (simp add: sp_inplace_def sp_ok_pop sp_addr_def sp_blockSize_def)

lemma sp_take_inplace:
  assumes "sp_ok P"
  shows "sp_inplace P (snd (sp_tryAcquireCreated T P))" "sp_inplace P (snd (sp_tryReserveUncreated T P))"
  using sp_take_eq[OF assms, of T True] sp_take_eq[OF assms, of T False] sp_pop_inplace[OF assms] assms
  by (auto simp: sp_take_def split: if_splits)

lemma sp_setBlockSize_total: "n \<noteq> 0 \<Longrightarrow> \<exists>k Q. sp_setBlockSize P n = Inr (k, Q)"
  by (auto simp: sp_setBlockSize_def Let_def rbv_resizeBlocks_def)

lemma sp_setBlockSize_blockSize:
  assumes "sp_ok P" "sp_setBlockSize P n = Inr (k, Q)"
  shows "sp_blockSize Q = n"
proof (cases "rbv_block_size (sp_payloads P) = n")
  case False
  with assms(2) have "bindR (rbv_resizeBlocks (sp_payloads P) n)
      (\<lambda>v. Inr (rbv_block_size (sp_payloads P), P\<lparr>sp_payloads := v\<rparr>)) = Inr (k, Q)"
    by (simp add: sp_setBlockSize_def split: if_splits)
  then obtain v where v: "rbv_resizeBlocks (sp_payloads P) n = Inr v" and Q: "Q = P\<lparr>sp_payloads := v\<rparr>"
    by (elim bindR_InrE) blast
  with rbv_resizeBlocks_spec(3)[OF sp_okD(1)[OF assms(1)] v] show ?thesis
    by (simp add: sp_blockSize_def)
qed (use assms in \<open>auto simp: sp_setBlockSize_def sp_blockSize_def split: if_splits\<close>)

lemma sp_setBlockSize_vals:
  assumes ok: "sp_ok P" and r: "sp_setBlockSize P n = Inr (k, Q)"
  shows "i < sp_size P \<Longrightarrow> sp_val Q i = sp_val P i" "sp_created_at Q i = sp_created_at P i"
    "sp_blockSize P = n \<Longrightarrow> Q = P"
proof -
  consider "Q = P" | v where "rbv_block_size (sp_payloads P) \<noteq> n"
      "rbv_resizeBlocks (sp_payloads P) n = Inr v" "Q = P\<lparr>sp_payloads := v\<rparr>"
  proof (cases "rbv_block_size (sp_payloads P) = n")
    case False
    with r have "bindR (rbv_resizeBlocks (sp_payloads P) n)
        (\<lambda>v. Inr (rbv_block_size (sp_payloads P), P\<lparr>sp_payloads := v\<rparr>)) = Inr (k, Q)"
      by (simp add: sp_setBlockSize_def split: if_splits)
    then obtain v where "rbv_resizeBlocks (sp_payloads P) n = Inr v" "Q = P\<lparr>sp_payloads := v\<rparr>"
      by (elim bindR_InrE) blast
    with False that(2) show ?thesis by blast
  qed (use r that(1) in \<open>auto simp: sp_setBlockSize_def split: if_splits\<close>)
  then have "(i < sp_size P \<longrightarrow> sp_val Q i = sp_val P i) \<and> sp_created_at Q i = sp_created_at P i \<and>
    (sp_blockSize P = n \<longrightarrow> Q = P)"
  proof cases
    case (2 v)
    note v = rbv_resizeBlocks_spec[OF sp_okD(1)[OF ok] 2(2)]
    have "rbv_size v = rbv_size (sp_payloads P)"
      using v(2) by (metis rbv_length_list)
    then have "rbv_nth v i = rbv_nth (sp_payloads P) i" if "i < rbv_size (sp_payloads P)"
      using that v(2) by (metis rbv_nth_list)
    then show ?thesis
      using 2(1) by (simp add: 2(3) sp_val_def sp_size_def sp_created_at_def sp_blockSize_def)
  qed simp
  then show "i < sp_size P \<Longrightarrow> sp_val Q i = sp_val P i" "sp_created_at Q i = sp_created_at P i"
    "sp_blockSize P = n \<Longrightarrow> Q = P" by blast+
qed

lemma rbv_block_size_destroyRange [simp]: "rbv_block_size (rbv_destroyRange v a b) = rbv_block_size v"
  unfolding rbv_destroyRange_def by (induction b) auto

lemma sp_clear_blockSize: "sp_ok P \<Longrightarrow> sp_blockSize (sp_clear T P r c) = sp_blockSize P"
proof -
  assume ok: "sp_ok P"
  have "sp_inplace P (foldl (\<lambda>P idx. if hv_nth (sp_created P) idx \<noteq> 0
      then snd (sp_destroy T P (sp_makeHandle T P (word_of_nat idx)) r c) else P) P is)" for "is"
    using ok
  proof (induction "is" arbitrary: P)
    case (Cons i "is")
    let ?Q = "if hv_nth (sp_created P) i \<noteq> 0
      then snd (sp_destroy T P (sp_makeHandle T P (word_of_nat i)) r c) else P"
    have "sp_inplace P ?Q"
    proof (cases "hv_nth (sp_created P) i \<noteq> 0")
      case True
      with sp_destroy_inplace[OF Cons.prems] show ?thesis by simp
    qed (use Cons.prems in simp)
    from this Cons.IH[OF sp_inplaceD(1)[OF this]] show ?case
      unfolding foldl_Cons by (rule sp_inplace_trans)
  qed simp
  then have "sp_blockSize (sp_destroyCreated T P r c) = sp_blockSize P"
    unfolding sp_destroyCreated_def by (rule sp_inplaceD(3))
  then show ?thesis
    by (simp add: sp_clear_def Let_def sp_blockSize_def rbv_clear_def)
qed

section \<open>A pool whose creation hook changes nothing\<close>

lemma sp_emplace_idle:
  assumes ok: "sp_ok P" and create: "\<And>p r c. tr_create T p r c = (True, p)"
  shows "sp_emplace T P h r c =
    (if sp_isValid T P h \<and> \<not> sp_isCreated T P h then (True, sp_setCreated T P h True) else (False, P))"
  using sp_isValid_index[of T P h] rbv_set_nth_same[OF sp_okD(1)[OF ok], of "unat (h_index h)"]
  by (auto simp: sp_emplace_def create Let_def sp_size_def)

lemma sp_setCreated_created:
  assumes "sp_ok P" "sp_isValid T P h" "i < sp_size P"
  shows "sp_created_at (sp_setCreated T P h b) i = (if i = sp_slot h then b else sp_created_at P i)"
  using assms sp_isValid_index[OF assms(2)] sp_okD(3)[OF assms(1)]
  by (auto simp: sp_created_at_def sp_setCreated_def sp_slot_def)

lemma sp_setCreated_val [simp]: "sp_val (sp_setCreated T P h b) i = sp_val P i"
  by (simp add: sp_val_def)

lemma sp_createLoop_idle:
  assumes create: "\<And>p r c. tr_create T p r c = (True, p)" and ok: "sp_ok P"
    and "is": "\<forall>i \<in> set is. i < sp_size P"
  shows "let Q = snd (sp_createLoop T r c is b P) in
    sp_frame P Q \<and> sp_inplace P Q \<and> (\<forall>i < sp_size P. sp_val Q i = sp_val P i \<and>
      (sp_created_at Q i \<longleftrightarrow> sp_created_at P i \<or> i \<in> set is))"
  using ok "is"
proof (induction "is" arbitrary: b P)
  case (Cons idx "is")
  let ?h = "sp_makeHandle T P (word_of_nat idx)"
  let ?E = "sp_emplace T P ?h (tr_setHandle T r ?h) c"
  let ?Q = "snd (sp_createLoop T r c is (b \<and> fst ?E) (snd ?E))"
  have fr: "sp_frame P (snd ?E)" and ip: "sp_inplace P (snd ?E)"
    using sp_emplaceWith_frame[OF Cons.prems(1)] sp_emplace_inplace[OF Cons.prems(1)]
    by (simp_all add: sp_emplace_eq)
  have idx: "idx < sp_size P" "sp_slot ?h = idx"
    using Cons.prems sp_okD(4)[OF Cons.prems(1)] index_below_range[of "sp_size P" idx]
    by (auto simp: sp_slot_def)
  have valid: "sp_isValid T P ?h" using idx by (simp add: sp_slot_def)
  have cr: "sp_isCreated T P ?h = sp_created_at P idx"
    using valid idx(2) by (simp add: sp_isCreated_def sp_created_at_def sp_slot_def)
  have vals: "sp_val (snd ?E) i = sp_val P i"
    "sp_created_at (snd ?E) i \<longleftrightarrow> sp_created_at P i \<or> i = idx" if "i < sp_size P" for i
    using that cr valid idx(2) by (auto simp: sp_emplace_idle[OF Cons.prems(1) create] sp_setCreated_created Cons.prems(1))
  have "let Q = ?Q in sp_frame (snd ?E) Q \<and> sp_inplace (snd ?E) Q \<and>
      (\<forall>i < sp_size (snd ?E). sp_val Q i = sp_val (snd ?E) i \<and>
        (sp_created_at Q i \<longleftrightarrow> sp_created_at (snd ?E) i \<or> i \<in> set is))"
    using Cons.prems fr by (intro Cons.IH) (auto simp: sp_frame_okD)
  with fr ip vals have "sp_frame P ?Q \<and> sp_inplace P ?Q \<and> (\<forall>i < sp_size P. sp_val ?Q i = sp_val P i \<and>
      (sp_created_at ?Q i \<longleftrightarrow> sp_created_at P i \<or> i \<in> set (idx # is)))"
    by (auto simp: Let_def sp_frame_okD intro: sp_frame_trans sp_inplace_trans)
  moreover have eq: "snd (sp_createLoop T r c (idx # is) b P) = ?Q"
    by (simp add: Let_def split: prod.split)
  ultimately show ?case unfolding Let_def eq by blast
qed simp

end
