(* ===== verification/ControlBlock.thy ===== *)
theory ControlBlock
  imports PoolFacts
begin

text \<open>
  \<open>base/lease/control_block/strong.h\<close> and \<open>shared.h\<close>: the reference-counted control blocks.  Counts
  are 32-bit words, \<open>payload_ptr_\<close> is an address of the payload pool's memory, and the pool pointer is
  an optional value of type \<open>'q\<close>; \<open>Pool::release\<close> is passed in as a function on a state \<open>'s\<close>.  Here
  each call is one step; \<open>LeaseRace\<close> splits the calls into their atomic accesses.
\<close>

type_synonym ('w, 'q, 's) pool_release = "'q \<Rightarrow> 'w handle \<Rightarrow> 's \<Rightarrow> bool \<times> 's"

section \<open>Strong control block\<close>

record ('w, 'q) strong_cb =
  scb_strong :: u32
  scb_handle :: "'w handle"
  scb_ptr :: "nat option"
  scb_pool :: "'q option"

definition scb_new :: "('g::len word, 'q) strong_cb" where
  "scb_new = \<lparr>scb_strong = 0, scb_handle = handle_invalid, scb_ptr = None, scb_pool = None\<rparr>"

definition scb_strongCount :: "('w, 'q) strong_cb \<Rightarrow> u32" where
  "scb_strongCount cb = scb_strong cb"

definition scb_canBindPayload :: "('w, 'q) strong_cb \<Rightarrow> bool" where
  "scb_canBindPayload cb \<longleftrightarrow> scb_ptr cb = None \<and> scb_strongCount cb = 0"

definition scb_bindPayload ::
  "'w handle \<Rightarrow> nat \<Rightarrow> 'q option \<Rightarrow> ('w, 'q) strong_cb \<Rightarrow> ('w, 'q) strong_cb" where
  "scb_bindPayload h p pool cb = cb\<lparr>scb_handle := h, scb_ptr := Some p, scb_pool := pool\<rparr>"

definition scb_tryBindPayload ::
  "'w handle \<Rightarrow> nat \<Rightarrow> 'q option \<Rightarrow> ('w, 'q) strong_cb \<Rightarrow> bool \<times> ('w, 'q) strong_cb" where
  "scb_tryBindPayload h p pool cb =
     (if \<not> scb_canBindPayload cb then (False, cb) else (True, scb_bindPayload h p pool cb))"

definition scb_hasPayload :: "('w, 'q) strong_cb \<Rightarrow> bool" where
  "scb_hasPayload cb \<longleftrightarrow> scb_ptr cb \<noteq> None"

definition scb_clearPayload :: "('g::len word, 'q) strong_cb \<Rightarrow> ('g word, 'q) strong_cb" where
  "scb_clearPayload cb = cb\<lparr>scb_handle := handle_invalid, scb_ptr := None, scb_pool := None\<rparr>"

definition scb_acquireStrong :: "('w, 'q) strong_cb \<Rightarrow> ('w, 'q) strong_cb" where
  "scb_acquireStrong cb = cb\<lparr>scb_strong := scb_strong cb + 1\<rparr>"

definition scb_tryReleasePayload ::
  "('g::len word, 'q, 's) pool_release \<Rightarrow> ('g word, 'q) strong_cb \<Rightarrow> 's \<Rightarrow> ('g word, 'q) strong_cb \<times> 's" where
  "scb_tryReleasePayload release cb s =
     (if \<not> handle_isValid (scb_handle cb) then (cb, s)
      else case scb_pool cb of
          None \<Rightarrow> (scb_clearPayload cb, s)
        | Some q \<Rightarrow>
            (let (released, s') = release q (scb_handle cb) s
             in (if released then scb_clearPayload cb else cb, s')))"

definition scb_releaseStrong ::
  "('g::len word, 'q, 's) pool_release \<Rightarrow> ('g word, 'q) strong_cb \<Rightarrow> 's \<Rightarrow>
   bool \<times> ('g word, 'q) strong_cb \<times> 's" where
  "scb_releaseStrong release cb s =
     (let current = scb_strong cb in
      if current = 0 then (False, cb, s)
      else let cb' = cb\<lparr>scb_strong := current - 1\<rparr>
           in if current = 1 then (True, scb_tryReleasePayload release cb' s)
              else (False, cb', s))"

definition scb_canTeardown :: "('w, 'q) strong_cb \<Rightarrow> bool" where
  "scb_canTeardown cb \<longleftrightarrow> scb_strongCount cb = 0"

definition scb_canShutdown :: "('w, 'q) strong_cb \<Rightarrow> bool" where
  "scb_canShutdown cb \<longleftrightarrow> scb_strongCount cb = 0"

section \<open>Shared control block\<close>

record ('w, 'q) shared_cb =
  shcb_strong :: u32
  shcb_weak :: u32
  shcb_handle :: "'w handle"
  shcb_ptr :: "nat option"
  shcb_pool :: "'q option"

definition shcb_new :: "('g::len word, 'q) shared_cb" where
  "shcb_new = \<lparr>shcb_strong = 0, shcb_weak = 0, shcb_handle = handle_invalid, shcb_ptr = None,
               shcb_pool = None\<rparr>"

definition shcb_strongCount :: "('w, 'q) shared_cb \<Rightarrow> u32" where
  "shcb_strongCount cb = shcb_strong cb"

definition shcb_weakCount :: "('w, 'q) shared_cb \<Rightarrow> u32" where
  "shcb_weakCount cb = shcb_weak cb"

definition shcb_canBindPayload :: "('w, 'q) shared_cb \<Rightarrow> bool" where
  "shcb_canBindPayload cb \<longleftrightarrow> shcb_ptr cb = None \<and> shcb_strongCount cb = 0 \<and> shcb_weakCount cb = 0"

definition shcb_bindPayload ::
  "'w handle \<Rightarrow> nat \<Rightarrow> 'q option \<Rightarrow> ('w, 'q) shared_cb \<Rightarrow> ('w, 'q) shared_cb" where
  "shcb_bindPayload h p pool cb = cb\<lparr>shcb_handle := h, shcb_ptr := Some p, shcb_pool := pool\<rparr>"

definition shcb_tryBindPayload ::
  "'w handle \<Rightarrow> nat \<Rightarrow> 'q option \<Rightarrow> ('w, 'q) shared_cb \<Rightarrow> bool \<times> ('w, 'q) shared_cb" where
  "shcb_tryBindPayload h p pool cb =
     (if \<not> shcb_canBindPayload cb then (False, cb) else (True, shcb_bindPayload h p pool cb))"

definition shcb_hasPayload :: "('w, 'q) shared_cb \<Rightarrow> bool" where
  "shcb_hasPayload cb \<longleftrightarrow> shcb_ptr cb \<noteq> None"

definition shcb_clearPayload :: "('g::len word, 'q) shared_cb \<Rightarrow> ('g word, 'q) shared_cb" where
  "shcb_clearPayload cb = cb\<lparr>shcb_handle := handle_invalid, shcb_ptr := None, shcb_pool := None\<rparr>"

definition shcb_acquireStrong :: "('w, 'q) shared_cb \<Rightarrow> ('w, 'q) shared_cb" where
  "shcb_acquireStrong cb = cb\<lparr>shcb_strong := shcb_strong cb + 1\<rparr>"

definition shcb_acquireWeak :: "('w, 'q) shared_cb \<Rightarrow> ('w, 'q) shared_cb" where
  "shcb_acquireWeak cb = cb\<lparr>shcb_weak := shcb_weak cb + 1\<rparr>"

definition shcb_canTeardown :: "('w, 'q) shared_cb \<Rightarrow> bool" where
  "shcb_canTeardown cb \<longleftrightarrow> shcb_strongCount cb = 0"

definition shcb_canShutdown :: "('w, 'q) shared_cb \<Rightarrow> bool" where
  "shcb_canShutdown cb \<longleftrightarrow> shcb_strongCount cb = 0 \<and> shcb_weakCount cb = 0"

definition shcb_tryReleasePayload ::
  "('g::len word, 'q, 's) pool_release \<Rightarrow> ('g word, 'q) shared_cb \<Rightarrow> 's \<Rightarrow> ('g word, 'q) shared_cb \<times> 's" where
  "shcb_tryReleasePayload release cb s =
     (if \<not> handle_isValid (shcb_handle cb) then (cb, s)
      else case shcb_pool cb of
          None \<Rightarrow> (shcb_clearPayload cb, s)
        | Some q \<Rightarrow>
            (let (released, s') = release q (shcb_handle cb) s
             in (if released then shcb_clearPayload cb else cb, s')))"

definition shcb_releaseStrong ::
  "('g::len word, 'q, 's) pool_release \<Rightarrow> ('g word, 'q) shared_cb \<Rightarrow> 's \<Rightarrow>
   bool \<times> ('g word, 'q) shared_cb \<times> 's" where
  "shcb_releaseStrong release cb s =
     (let current = shcb_strong cb in
      if current = 0 then (False, cb, s)
      else let cb' = cb\<lparr>shcb_strong := current - 1\<rparr>
           in if current = 1 then (True, shcb_tryReleasePayload release cb' s)
              else (False, cb', s))"

definition shcb_releaseWeak :: "('g::len word, 'q) shared_cb \<Rightarrow> bool \<times> ('g word, 'q) shared_cb" where
  "shcb_releaseWeak cb =
     (let current = shcb_weak cb in
      if current = 0 then (False, cb)
      else let cb' = cb\<lparr>shcb_weak := current - 1\<rparr>
           in if current = 1
              then (True, if shcb_canShutdown cb' then shcb_clearPayload cb' else cb')
              else (False, cb'))"

definition shcb_tryPromoteWeakToStrong :: "('w, 'q) shared_cb \<Rightarrow> bool \<times> ('w, 'q) shared_cb" where
  "shcb_tryPromoteWeakToStrong cb =
     (let current = shcb_strong cb in
      if current = 0 then (False, cb) else (True, cb\<lparr>shcb_strong := current + 1\<rparr>))"

section \<open>The counting contract\<close>

text \<open>\<open>n\<close> releases in a row, with the number of them that reported the last reference.\<close>

primrec drop_refs ::
  "('cb \<Rightarrow> 's \<Rightarrow> bool \<times> 'cb \<times> 's) \<Rightarrow> nat \<Rightarrow> 'cb \<Rightarrow> 's \<Rightarrow> nat \<times> 'cb \<times> 's" where
  "drop_refs release 0 cb s = (0, cb, s)"
| "drop_refs release (Suc n) cb s =
     (let (b, cb', s') = release cb s; (k, r) = drop_refs release n cb' s'
      in ((if b then k + 1 else k), r))"

text \<open>
  What leases rely on of a control block, whichever class it is: a strong count, an \<open>acquire\<close> that
  adds one, and a \<open>release\<close> on the block and the pool that takes one off, reports the transition to
  zero and hands the payload back to the pool at that moment only.
\<close>

locale strong_counted =
  fixes count :: "'cb \<Rightarrow> u32"
    and acquire :: "'cb \<Rightarrow> 'cb"
    and release :: "'cb \<Rightarrow> 's \<Rightarrow> bool \<times> 'cb \<times> 's"
    and payload :: "'cb \<Rightarrow> nat option"
    and give_back :: "'cb \<Rightarrow> 's \<Rightarrow> 'cb \<times> 's"
  assumes count_acquire: "count (acquire cb) = count cb + 1"
    and payload_acquire: "payload (acquire cb) = payload cb"
    and release_zero: "count cb = 0 \<Longrightarrow> release cb s = (False, cb, s)"
    and release_again: "count cb \<noteq> 0 \<Longrightarrow> count cb + 1 \<noteq> 0 \<Longrightarrow>
      release (acquire cb) s = (False, cb, s)"
    and release_last: "count cb = 0 \<Longrightarrow> release (acquire cb) s = (True, give_back cb s)"
begin

lemma count_acquires: "count ((acquire ^^ n) cb) = count cb + of_nat n"
  by (induction n) (auto simp: count_acquire)

lemma payload_acquires: "payload ((acquire ^^ n) cb) = payload cb"
  by (induction n) (auto simp: payload_acquire)

lemma release_acquires:
  assumes "count cb = 0" and "0 < n" and "Suc n < 2 ^ 32"
  shows "release ((acquire ^^ Suc n) cb) s = (False, (acquire ^^ n) cb, s)"
proof -
  have nz: "(of_nat k :: u32) \<noteq> 0" if "0 < k" "k < 2 ^ 32" for k
    using that by (auto simp: word_of_nat_eq_0_iff dest: nat_dvd_not_less)
  have "count ((acquire ^^ n) cb) = of_nat n"
    using assms(1) by (simp add: count_acquires)
  with nz[of n] nz[of "Suc n"] assms(2,3) show ?thesis
    using release_again[of "(acquire ^^ n) cb" s] by (simp add: add.commute)
qed

text \<open>Every release but the last leaves the pool alone; the last one gives the payload back once.\<close>

lemma drop_keep:
  assumes "count cb = 0" and "k < n" and "n < 2 ^ 32"
  shows "drop_refs release k ((acquire ^^ n) cb) s = (0, (acquire ^^ (n - k)) cb, s)"
  using assms
proof (induction k arbitrary: n)
  case (Suc k)
  then obtain m where n: "n = Suc m" by (cases n) auto
  have "release ((acquire ^^ n) cb) s = (False, (acquire ^^ m) cb, s)"
    unfolding n using Suc.prems n by (intro release_acquires) auto
  moreover have "drop_refs release k ((acquire ^^ m) cb) s = (0, (acquire ^^ (m - k)) cb, s)"
    using Suc.prems n by (intro Suc.IH) auto
  ultimately show ?case by (simp add: n)
qed simp

lemma drop_split:
  "drop_refs release (k + l) cb s =
     (let (i, cb', s') = drop_refs release k cb s; (j, r) = drop_refs release l cb' s' in (i + j, r))"
  by (induction k arbitrary: cb s) (auto simp: Let_def split: prod.splits)

lemma drop_all:
  assumes "count cb = 0" and "0 < n" and "n < 2 ^ 32"
  shows "drop_refs release n ((acquire ^^ n) cb) s = (1, give_back cb s)"
  using drop_split[of "n - 1" 1 "(acquire ^^ n) cb" s] drop_keep[of cb "n - 1" n s] assms
    release_last[OF assms(1), of s]
  by (simp add: Let_def split: prod.splits)

end

lemma scb_strong_zero: "scb_strong cb = 0 \<Longrightarrow> cb\<lparr>scb_strong := 0\<rparr> = cb"
  by (cases cb) simp

lemma shcb_strong_zero: "shcb_strong cb = 0 \<Longrightarrow> cb\<lparr>shcb_strong := 0\<rparr> = cb"
  by (cases cb) simp

interpretation scb: strong_counted scb_strong scb_acquireStrong "scb_releaseStrong rel" scb_ptr
    "scb_tryReleasePayload rel"
  for rel :: "('g::len word, 'q, 's) pool_release"
  by unfold_locales
    (auto simp: scb_acquireStrong_def scb_releaseStrong_def Let_def scb_strong_zero)

interpretation shcb: strong_counted shcb_strong shcb_acquireStrong "shcb_releaseStrong rel" shcb_ptr
    "shcb_tryReleasePayload rel"
  for rel :: "('g::len word, 'q, 's) pool_release"
  by unfold_locales
    (auto simp: shcb_acquireStrong_def shcb_releaseStrong_def Let_def shcb_strong_zero)

section \<open>Properties\<close>

text \<open>
  The payload outlives every reference and is given back once.  On a control block without
  references, strong or shared, take \<open>n\<close> strong references (\<open>0 < n < 2^32\<close>) and drop \<open>k\<close> of them:
  while \<open>k < n\<close> no release reports the last reference, the pool is untouched and the block is the
  one with \<open>n - k\<close> references; when \<open>k = n\<close> exactly one release reported it and the pool was asked
  once to take the payload back.
\<close>

theorem cb_payload_released_once:
  assumes "0 < n" and "n < 2 ^ 32" and "k \<le> n" and "scb_strong cb = 0" and "shcb_strong cb' = 0"
  shows "drop_refs (scb_releaseStrong rel) k ((scb_acquireStrong ^^ n) cb) s =
      (if k < n then (0, (scb_acquireStrong ^^ (n - k)) cb, s) else (1, scb_tryReleasePayload rel cb s)) \<and>
    drop_refs (shcb_releaseStrong rel) k ((shcb_acquireStrong ^^ n) cb') s =
      (if k < n then (0, (shcb_acquireStrong ^^ (n - k)) cb', s) else (1, shcb_tryReleasePayload rel cb' s))"
  using assms scb.drop_keep[of cb k n rel s] scb.drop_all[of cb n rel s]
    shcb.drop_keep[of cb' k n rel s] shcb.drop_all[of cb' n rel s]
  by simp

theorem cb_payload_released_once_witness:
  "drop_refs (scb_releaseStrong (\<lambda>q h s. (True, s + 1))) 3 ((scb_acquireStrong ^^ 3)
      (scb_bindPayload (Handle 4 1) 7 (Some ()) (scb_new :: (8 word, unit) strong_cb))) (0 :: nat) =
   (1, scb_new, 1)"
  using cb_payload_released_once[of 3 3
      "scb_bindPayload (Handle 4 1) 7 (Some ()) (scb_new :: (8 word, unit) strong_cb)"
      "shcb_new :: (8 word, unit) shared_cb" "\<lambda>q h s. (True, s + 1)" "0 :: nat"]
  by (simp add: scb_bindPayload_def scb_new_def shcb_new_def scb_tryReleasePayload_def
      scb_clearPayload_def handle_isValid_def handle_invalid_index_def)

text \<open>
  Promotion never resurrects.  \<open>tryPromoteWeakToStrong\<close> succeeds exactly if a strong reference
  exists, then it adds one and touches nothing else, and the release that follows restores the block
  without contacting the pool; once the strong count is 0 every promotion fails and changes nothing.
\<close>

theorem shcb_promotion:
  assumes "shcb_strong cb + 1 \<noteq> 0"
  shows "case shcb_tryPromoteWeakToStrong cb of (b, cb') \<Rightarrow>
    b = (shcb_strong cb \<noteq> 0) \<and>
    (if b then shcb_releaseStrong rel cb' s = (False, cb, s) \<and> shcb_weak cb' = shcb_weak cb
     else cb' = cb)"
  using assms
  by (cases cb) (auto simp: shcb_tryPromoteWeakToStrong_def shcb_releaseStrong_def Let_def)

theorem shcb_promotion_witness:
  "fst (shcb_tryPromoteWeakToStrong (shcb_acquireStrong (shcb_new :: (8 word, unit) shared_cb)))"
  using shcb_promotion[of "shcb_acquireStrong (shcb_new :: (8 word, unit) shared_cb)" "\<lambda>q h s. (True, s)" "()"]
  by (auto simp: shcb_acquireStrong_def shcb_new_def split: prod.splits)

text \<open>
  A control block binds a payload only when nothing refers to it.  \<open>tryBindPayload\<close> succeeds
  exactly if no payload is bound and all counts are 0, and then the block holds that payload with
  its counts still 0; otherwise it is unchanged.
\<close>

theorem cb_binding_exclusive:
  "scb_tryBindPayload h p q cb =
     (if scb_ptr cb = None \<and> scb_strong cb = 0
      then (True, cb\<lparr>scb_handle := h, scb_ptr := Some p, scb_pool := q\<rparr>) else (False, cb)) \<and>
   shcb_tryBindPayload h p q cb' =
     (if shcb_ptr cb' = None \<and> shcb_strong cb' = 0 \<and> shcb_weak cb' = 0
      then (True, cb'\<lparr>shcb_handle := h, shcb_ptr := Some p, shcb_pool := q\<rparr>) else (False, cb'))"
  by (simp add: scb_tryBindPayload_def scb_canBindPayload_def scb_bindPayload_def scb_strongCount_def
      shcb_tryBindPayload_def shcb_canBindPayload_def shcb_bindPayload_def shcb_strongCount_def
      shcb_weakCount_def)

text \<open>
  Releasing the payload of a block that has no pool clears the binding (the comment on
  \<open>tryReleasePayload\<close> says that no action is taken).
\<close>

theorem cb_release_without_pool_clears:
  "fst (scb_tryReleasePayload rel (scb_bindPayload (Handle 0 0) p None (scb_new :: (8 word, 'q) strong_cb)) s)
     = scb_new"
  by (simp add: scb_tryReleasePayload_def scb_bindPayload_def scb_new_def scb_clearPayload_def
      handle_isValid_def handle_invalid_index_def)

end
