(* ===== verification/LeaseRace.thy ===== *)
theory LeaseRace
  imports ControlBlock
begin

text \<open>
  Releasing leases concurrently.  \<open>StrongLease::release\<close>, \<open>WeakLease::release\<close>, \<open>WeakLease::lock\<close>,
  lease copies, the control-block calls they make (\<open>shared.h\<close>) and the give-back of the block
  (\<open>SlotPool::releaseImpl\<close>, which takes no lock) are split at every access to a shared variable: each
  thread has a program counter, and any thread may take the next step.  \<open>compare_exchange_weak\<close> may
  fail spuriously.  The block starts with one strong lease and a bound payload.

  Scope: one control block, from its binding until it is back on the freelist; the accesses are
  sequentially consistent.  Taking the block off the freelist again is not modelled.  Without weak
  leases no thread touches the block once it is there, so the next life starts undisturbed; with weak
  leases a thread may still be about to clear or give back a block that is already free.  Both are
  proved below.  The other slots of the two pools, and other threads' calls of the pools, are not
  modelled either (the payload pool's \<open>release\<close> is one step); a handle is read and written as one value;
  the freelist never grows here (\<open>resizeStorage\<close> reserves its capacity).  The handle, the pointers, the
  generations and the freelist are plain variables, so C++ gives a program with racing accesses
  to them no meaning at all; the runs here are the mildest.
\<close>

text \<open>Positions inside \<open>tryReleasePayload\<close>: the first reads of the handle and of the pool, the second
  reads for the call, the call of the payload pool.\<close>

datatype lr_rel = R_handle | R_pool | R_pool2 | R_handle2 | R_call "8 word handle"

text \<open>Positions inside \<open>clearPayload\<close>.\<close>

datatype lr_clr = C_handle | C_ptr | C_pool

text \<open>Positions inside \<open>releaseImpl\<close>: \<open>isValid\<close>; load and store of \<open>++generations_[idx]\<close>; and
  \<open>HeapVector::emplaceBack\<close> on the freelist: the read of \<open>size_\<close> and the store of the element, then load
  and store of \<open>++size_\<close>.\<close>

datatype lr_give = G_valid | G_load | G_store u8 | G_size | G_cell nat | G_inc | G_set nat

datatype lr_pc =
    S_hold | S_loaded u32 | S_rel lr_rel | S_clear lr_clr | S_ckS | S_ckW | S_give lr_give | S_done | S_crash
  | W_hold | W_lock u32 | W_loaded u32 | W_ckS | W_ckW | W_clear lr_clr | W_ck2S | W_ck2W
  | W_give lr_give | W_done

text \<open>
  \<open>Go\<close> advances a thread (from a held lease it starts the release); from a held lease the other
  choices are a copy of it, a weak lease made from a strong one, and \<open>lock()\<close> on a weak lease.
  \<open>Spurious\<close> makes a compare-exchange fail.
\<close>

datatype lr_choice = Go | Spurious | CopyLease | Observe | Lock

text \<open>The shared state: the control block, the number of times the payload pool accepted the payload,
  and the control-block pool's \<open>generations_\<close> entry of the block's slot 0, and its freelist, whose
  elements of before the run are left out.\<close>

record lr_shared =
  lr_cb :: "(8 word, unit) shared_cb"
  lr_payload_returns :: nat
  lr_generation :: u8
  lr_cells :: "nat \<Rightarrow> u8 option"
  lr_size :: nat

text \<open>The slots pushed on the freelist in this run; \<open>None\<close> is an element that was never written.\<close>

definition lr_pushed :: "lr_shared \<Rightarrow> u8 option list" where
  "lr_pushed sh = map (lr_cells sh) [0..<lr_size sh]"

definition lr_setStrong :: "u32 \<Rightarrow> lr_shared \<Rightarrow> lr_shared" where
  "lr_setStrong n sh = sh\<lparr>lr_cb := (lr_cb sh)\<lparr>shcb_strong := n\<rparr>\<rparr>"

definition lr_setWeak :: "u32 \<Rightarrow> lr_shared \<Rightarrow> lr_shared" where
  "lr_setWeak n sh = sh\<lparr>lr_cb := (lr_cb sh)\<lparr>shcb_weak := n\<rparr>\<rparr>"

abbreviation "lr_strong sh \<equiv> shcb_strong (lr_cb sh)"
abbreviation "lr_weak sh \<equiv> shcb_weak (lr_cb sh)"

text \<open>One step inside \<open>tryReleasePayload\<close>.  The payload pool accepts a valid handle: the payload's slot
  belongs to this block, whose handle is given to the pool by no other thread.  A call through a pool
  pointer that became null meanwhile is a crash.\<close>

definition lr_relStep :: "lr_rel \<Rightarrow> lr_shared \<Rightarrow> lr_pc \<times> lr_shared" where
  "lr_relStep r sh =
     (case r of
        R_handle \<Rightarrow> ((if handle_isValid (shcb_handle (lr_cb sh)) then S_rel R_pool else S_ckS), sh)
      | R_pool \<Rightarrow> ((case shcb_pool (lr_cb sh) of None \<Rightarrow> S_clear C_handle | Some q \<Rightarrow> S_rel R_pool2), sh)
      | R_pool2 \<Rightarrow> ((case shcb_pool (lr_cb sh) of None \<Rightarrow> S_crash | Some q \<Rightarrow> S_rel R_handle2), sh)
      | R_handle2 \<Rightarrow> (S_rel (R_call (shcb_handle (lr_cb sh))), sh)
      | R_call h \<Rightarrow>
          if handle_isValid h then (S_clear C_handle, sh\<lparr>lr_payload_returns := lr_payload_returns sh + 1\<rparr>)
          else (S_ckS, sh))"

text \<open>One step inside \<open>clearPayload\<close>; \<open>None\<close> is its return.\<close>

definition lr_clearStep :: "lr_clr \<Rightarrow> lr_shared \<Rightarrow> lr_clr option \<times> lr_shared" where
  "lr_clearStep c sh =
     (case c of
        C_handle \<Rightarrow> (Some C_ptr, sh\<lparr>lr_cb := (lr_cb sh)\<lparr>shcb_handle := handle_invalid\<rparr>\<rparr>)
      | C_ptr \<Rightarrow> (Some C_pool, sh\<lparr>lr_cb := (lr_cb sh)\<lparr>shcb_ptr := None\<rparr>\<rparr>)
      | C_pool \<Rightarrow> (None, sh\<lparr>lr_cb := (lr_cb sh)\<lparr>shcb_pool := None\<rparr>\<rparr>))"

text \<open>One step inside \<open>releaseImpl\<close> for the block's handle, slot 0 and generation 0; \<open>None\<close> is its return.\<close>

definition lr_giveStep :: "lr_give \<Rightarrow> lr_shared \<Rightarrow> lr_give option \<times> lr_shared" where
  "lr_giveStep g sh =
     (case g of
        G_valid \<Rightarrow> ((if lr_generation sh = 0 then Some G_load else None), sh)
      | G_load \<Rightarrow> (Some (G_store (lr_generation sh)), sh)
      | G_store n \<Rightarrow> (Some G_size, sh\<lparr>lr_generation := n + 1\<rparr>)
      | G_size \<Rightarrow> (Some (G_cell (lr_size sh)), sh)
      | G_cell k \<Rightarrow> (Some G_inc, sh\<lparr>lr_cells := (lr_cells sh)(k := Some 0)\<rparr>)
      | G_inc \<Rightarrow> (Some (G_set (lr_size sh)), sh)
      | G_set k \<Rightarrow> (None, sh\<lparr>lr_size := k + 1\<rparr>))"

definition lr_at :: "('a \<Rightarrow> lr_pc) \<Rightarrow> lr_pc \<Rightarrow> 'a option \<times> lr_shared \<Rightarrow> lr_pc \<times> lr_pc list \<times> lr_shared" where
  "lr_at here after r = ((case fst r of Some x \<Rightarrow> here x | None \<Rightarrow> after), [], snd r)"

text \<open>One step of a strong lease's thread: its next program counter, new threads, shared state.\<close>

definition lr_strongStep :: "lr_choice \<Rightarrow> lr_pc \<Rightarrow> lr_shared \<Rightarrow> lr_pc \<times> lr_pc list \<times> lr_shared" where
  "lr_strongStep ch pc sh =
     (case pc of
        S_hold \<Rightarrow>
          (case ch of
             Go \<Rightarrow> (S_loaded (lr_strong sh), [], sh)
           | CopyLease \<Rightarrow> (S_hold, [S_hold], lr_setStrong (lr_strong sh + 1) sh)
           | Observe \<Rightarrow> (S_hold, [W_hold], lr_setWeak (lr_weak sh + 1) sh)
           | _ \<Rightarrow> (pc, [], sh))
      | S_loaded c \<Rightarrow>
          if c = 0 then (S_done, [], sh)
          else if ch \<noteq> Spurious \<and> lr_strong sh = c
          then ((if c = 1 then S_rel R_handle else S_done), [], lr_setStrong (c - 1) sh)
          else (S_loaded (lr_strong sh), [], sh)
      | S_rel r \<Rightarrow> (let (pc', sh') = lr_relStep r sh in (pc', [], sh'))
      | S_clear c \<Rightarrow> lr_at S_clear S_ckS (lr_clearStep c sh)
      | S_ckS \<Rightarrow> ((if lr_strong sh = 0 then S_ckW else S_done), [], sh)
      | S_ckW \<Rightarrow> ((if lr_weak sh = 0 then S_give G_valid else S_done), [], sh)
      | S_give g \<Rightarrow> lr_at S_give S_done (lr_giveStep g sh)
      | _ \<Rightarrow> (pc, [], sh))"

text \<open>One step of a weak lease's thread.\<close>

definition lr_weakStep :: "lr_choice \<Rightarrow> lr_pc \<Rightarrow> lr_shared \<Rightarrow> lr_pc \<times> lr_pc list \<times> lr_shared" where
  "lr_weakStep ch pc sh =
     (case pc of
        W_hold \<Rightarrow>
          (case ch of
             Go \<Rightarrow> (W_loaded (lr_weak sh), [], sh)
           | CopyLease \<Rightarrow> (W_hold, [W_hold], lr_setWeak (lr_weak sh + 1) sh)
           | Lock \<Rightarrow> (W_lock (lr_strong sh), [], sh)
           | _ \<Rightarrow> (pc, [], sh))
      | W_lock c \<Rightarrow>
          if c = 0 then (W_hold, [], sh)
          else if ch \<noteq> Spurious \<and> lr_strong sh = c
          then (W_hold, [S_hold], lr_setStrong (c + 1) sh)
          else (W_lock (lr_strong sh), [], sh)
      | W_loaded c \<Rightarrow>
          if c = 0 then (W_done, [], sh)
          else if ch \<noteq> Spurious \<and> lr_weak sh = c
          then ((if c = 1 then W_ckS else W_done), [], lr_setWeak (c - 1) sh)
          else (W_loaded (lr_weak sh), [], sh)
      | W_ckS \<Rightarrow> ((if lr_strong sh = 0 then W_ckW else W_ck2S), [], sh)
      | W_ckW \<Rightarrow> ((if lr_weak sh = 0 then W_clear C_handle else W_ck2S), [], sh)
      | W_clear c \<Rightarrow> lr_at W_clear W_ck2S (lr_clearStep c sh)
      | W_ck2S \<Rightarrow> ((if lr_strong sh = 0 then W_ck2W else W_done), [], sh)
      | W_ck2W \<Rightarrow> ((if lr_weak sh = 0 then W_give G_valid else W_done), [], sh)
      | W_give g \<Rightarrow> lr_at W_give W_done (lr_giveStep g sh)
      | _ \<Rightarrow> (pc, [], sh))"

definition lr_isStrong :: "lr_pc \<Rightarrow> bool" where
  "lr_isStrong pc = (case pc of
      S_hold \<Rightarrow> True | S_loaded _ \<Rightarrow> True | S_rel _ \<Rightarrow> True | S_clear _ \<Rightarrow> True | S_ckS \<Rightarrow> True | S_ckW \<Rightarrow> True
    | S_give _ \<Rightarrow> True | S_done \<Rightarrow> True | S_crash \<Rightarrow> True | _ \<Rightarrow> False)"

text \<open>The counters are 32 bits wide: fewer than \<open>2^32\<close> leases exist at any time.\<close>

definition lr_step :: "nat \<times> lr_choice \<Rightarrow> lr_pc list \<times> lr_shared \<Rightarrow> lr_pc list \<times> lr_shared" where
  "lr_step = (\<lambda>(i, ch) (ts, sh).
     if i < length ts
     then let (pc, new, sh') = (if lr_isStrong (ts ! i) then lr_strongStep ch (ts ! i) sh
                                else lr_weakStep ch (ts ! i) sh)
          in if length ts + length new < 2 ^ 32 then (ts[i := pc] @ new, sh') else (ts, sh)
     else (ts, sh))"

definition lr_start :: "lr_pc list \<times> lr_shared" where
  "lr_start = ([S_hold],
     \<lparr>lr_cb = shcb_acquireStrong (shcb_bindPayload (Handle 0 0) 0 (Some ()) shcb_new),
      lr_payload_returns = 0, lr_generation = 0, lr_cells = (\<lambda>k. None), lr_size = 0\<rparr>)"

definition lr_steps ::
  "(nat \<times> lr_choice) list \<Rightarrow> lr_pc list \<times> lr_shared \<Rightarrow> lr_pc list \<times> lr_shared" where
  "lr_steps sched s = foldl (\<lambda>s c. lr_step c s) s sched"

definition lr_run :: "(nat \<times> lr_choice) list \<Rightarrow> lr_pc list \<times> lr_shared" where
  "lr_run sched = lr_steps sched lr_start"

section \<open>Invariant\<close>

definition lr_holdsS :: "lr_pc \<Rightarrow> bool" where
  "lr_holdsS pc = (case pc of S_hold \<Rightarrow> True | S_loaded _ \<Rightarrow> True | _ \<Rightarrow> False)"

definition lr_holdsW :: "lr_pc \<Rightarrow> bool" where
  "lr_holdsW pc = (case pc of W_hold \<Rightarrow> True | W_lock _ \<Rightarrow> True | W_loaded _ \<Rightarrow> True | _ \<Rightarrow> False)"

definition lr_stuck :: "lr_pc \<Rightarrow> bool" where
  "lr_stuck pc = (case pc of S_loaded c \<Rightarrow> c = 0 | W_loaded c \<Rightarrow> c = 0 | _ \<Rightarrow> False)"

definition lr_isWeak :: "lr_pc \<Rightarrow> bool" where
  "lr_isWeak pc \<longleftrightarrow> \<not> lr_isStrong pc"

definition lr_isCrash :: "lr_pc \<Rightarrow> bool" where
  "lr_isCrash pc \<longleftrightarrow> pc = S_crash"

text \<open>The thread that dropped the last strong reference, until it is done; before the payload pool's
  answer.\<close>

definition lr_isLast :: "lr_pc \<Rightarrow> bool" where
  "lr_isLast pc = (case pc of S_rel _ \<Rightarrow> True | S_clear _ \<Rightarrow> True | S_ckS \<Rightarrow> True | S_ckW \<Rightarrow> True
     | S_give _ \<Rightarrow> True | _ \<Rightarrow> False)"

definition lr_prePay :: "lr_pc \<Rightarrow> bool" where
  "lr_prePay pc = (case pc of S_rel _ \<Rightarrow> True | _ \<Rightarrow> False)"

text \<open>Program counters reached only after the strong count was seen or made 0; after both were.\<close>

definition lr_afterS :: "lr_pc \<Rightarrow> bool" where
  "lr_afterS pc = (case pc of W_ckW \<Rightarrow> True | W_clear _ \<Rightarrow> True | W_ck2W \<Rightarrow> True | W_give _ \<Rightarrow> True
     | _ \<Rightarrow> lr_isLast pc)"

definition lr_afterSW :: "lr_pc \<Rightarrow> bool" where
  "lr_afterSW pc = (case pc of S_give _ \<Rightarrow> True | W_clear _ \<Rightarrow> True | W_give _ \<Rightarrow> True | _ \<Rightarrow> False)"

text \<open>Program counters past the store of the new generation, on the way to the freelist.\<close>

definition lr_inPush :: "lr_give \<Rightarrow> bool" where
  "lr_inPush g = (case g of G_size \<Rightarrow> True | G_cell _ \<Rightarrow> True | G_inc \<Rightarrow> True | G_set _ \<Rightarrow> True | _ \<Rightarrow> False)"

definition lr_atPush :: "lr_pc \<Rightarrow> bool" where
  "lr_atPush pc = (case pc of S_give g \<Rightarrow> lr_inPush g | W_give g \<Rightarrow> lr_inPush g | _ \<Rightarrow> False)"

text \<open>Program counters from which, with both counts at 0, a give-back will be tried.\<close>

definition lr_willGive :: "lr_pc \<Rightarrow> bool" where
  "lr_willGive pc = (case pc of W_ckS \<Rightarrow> True | W_ckW \<Rightarrow> True | W_clear _ \<Rightarrow> True | W_ck2S \<Rightarrow> True
     | W_ck2W \<Rightarrow> True | W_give _ \<Rightarrow> True | _ \<Rightarrow> lr_isLast pc)"

lemmas lr_pc_defs = lr_isStrong_def lr_holdsS_def lr_holdsW_def lr_stuck_def lr_isWeak_def lr_isCrash_def
  lr_prePay_def lr_afterS_def lr_afterSW_def lr_isLast_def lr_inPush_def lr_atPush_def lr_willGive_def

definition lr_bound :: "lr_shared \<Rightarrow> bool" where
  "lr_bound sh \<longleftrightarrow> handle_isValid (shcb_handle (lr_cb sh)) \<and> shcb_pool (lr_cb sh) = Some ()"

definition lr_inv :: "lr_pc list \<Rightarrow> lr_shared \<Rightarrow> bool" where
  "lr_inv ts sh \<longleftrightarrow>
     length ts < 2 ^ 32 \<and> unat (lr_strong sh) = cnt lr_holdsS ts \<and> unat (lr_weak sh) = cnt lr_holdsW ts \<and>
     cnt lr_stuck ts = 0 \<and> lr_payload_returns sh + cnt lr_prePay ts \<le> 1 \<and>
     (0 < cnt lr_holdsS ts \<longrightarrow> lr_bound sh \<and> lr_payload_returns sh = 0 \<and> cnt lr_afterS ts = 0) \<and>
     (0 < cnt lr_holdsS ts \<or> 0 < cnt lr_holdsW ts \<longrightarrow>
        lr_size sh = 0 \<and> lr_generation sh = 0 \<and> cnt lr_afterSW ts = 0) \<and>
     (lr_generation sh \<noteq> 0 \<longrightarrow> 0 < lr_size sh \<or> 0 < cnt lr_atPush ts) \<and>
     (cnt lr_holdsS ts = 0 \<and> cnt lr_holdsW ts = 0 \<longrightarrow>
        0 < lr_size sh \<or> 0 < cnt lr_willGive ts \<or> 0 < cnt lr_isCrash ts)"

lemma lr_shared_simps [simp]:
  "lr_strong (lr_setStrong n sh) = n" "lr_weak (lr_setStrong n sh) = lr_weak sh"
  "lr_strong (lr_setWeak n sh) = lr_strong sh" "lr_weak (lr_setWeak n sh) = n"
  "lr_bound (lr_setStrong n sh) = lr_bound sh" "lr_bound (lr_setWeak n sh) = lr_bound sh"
  "lr_generation (lr_setStrong n sh) = lr_generation sh" "lr_generation (lr_setWeak n sh) = lr_generation sh"
  "lr_size (lr_setStrong n sh) = lr_size sh" "lr_size (lr_setWeak n sh) = lr_size sh"
  "lr_cells (lr_setStrong n sh) = lr_cells sh" "lr_cells (lr_setWeak n sh) = lr_cells sh"
  "lr_payload_returns (lr_setStrong n sh) = lr_payload_returns sh"
  "lr_payload_returns (lr_setWeak n sh) = lr_payload_returns sh"
  by (simp_all add: lr_setStrong_def lr_setWeak_def lr_bound_def)

lemma unat_inc: "unat x < 2 ^ 32 - 1 \<Longrightarrow> unat ((x :: u32) + 1) = unat x + 1"
  by (simp add: unat_word_ariths)

lemma unat_dec: "x \<noteq> 0 \<Longrightarrow> unat ((x :: u32) - 1) = unat x - 1"
  by (simp add: unat_minus_one)

lemma lr_inv_start: "lr_inv (fst lr_start) (snd lr_start)"
  by (simp add: lr_inv_def lr_start_def lr_pc_defs shcb_acquireStrong_def shcb_bindPayload_def
      shcb_new_def lr_bound_def handle_isValid_def handle_invalid_index_def)

lemma lr_invD:
  assumes "lr_inv ts sh"
  shows "unat (lr_strong sh) = cnt lr_holdsS ts" "unat (lr_weak sh) = cnt lr_holdsW ts"
    "0 < cnt lr_holdsS ts \<Longrightarrow> lr_bound sh" "0 < cnt lr_holdsS ts \<Longrightarrow> cnt lr_afterS ts = 0"
  using assms by (simp_all add: lr_inv_def)

lemma lr_counts:
  assumes "lr_inv ts sh"
  shows "lr_strong sh = 0 \<longleftrightarrow> cnt lr_holdsS ts = 0" "lr_weak sh = 0 \<longleftrightarrow> cnt lr_holdsW ts = 0"
    "lr_strong sh = 1 \<longleftrightarrow> cnt lr_holdsS ts = 1" "lr_weak sh = 1 \<longleftrightarrow> cnt lr_holdsW ts = 1"
  using lr_invD(1,2)[OF assms, symmetric] by (simp_all only: word_unat_eq_iff unat_0 unat_1)

lemma cnt_update_same:
  "i < length xs \<Longrightarrow> Q x = Q (xs ! i) \<Longrightarrow> cnt Q (xs[i := x]) = cnt Q xs"
  using cnt_update_add[of i xs Q x] by simp

lemma cnt_update_le: "i < length xs \<Longrightarrow> \<not> Q x \<Longrightarrow> cnt Q (xs[i := x]) \<le> cnt Q xs"
  using cnt_update_add[of i xs Q x] by (simp split: if_splits)

lemma cnt_mono: "(\<And>x. Q x \<Longrightarrow> R x) \<Longrightarrow> cnt Q xs \<le> cnt R xs"
  by (induction xs) (auto simp: le_SucI)

lemma cnt_prePay_afterS: "cnt lr_afterS ts = 0 \<Longrightarrow> cnt lr_prePay ts = 0"
  using cnt_mono[of lr_prePay lr_afterS ts] by (auto simp: lr_pc_defs split: lr_pc.splits)

lemma lr_isLast_afterS: "lr_isLast pc \<Longrightarrow> lr_afterS pc"
  by (auto simp: lr_pc_defs split: lr_pc.splits)

lemma cnt_isLast_afterS: "cnt lr_isLast ts \<le> cnt lr_afterS ts"
  by (rule cnt_mono) (rule lr_isLast_afterS)

lemma cnt_atPush_willGive: "cnt lr_atPush ts \<le> cnt lr_willGive ts"
  by (rule cnt_mono) (auto simp: lr_pc_defs split: lr_pc.splits)

definition lr_profile :: "lr_pc \<Rightarrow> bool list" where
  "lr_profile pc = [lr_holdsS pc, lr_holdsW pc, lr_stuck pc, lr_afterS pc, lr_afterSW pc,
     lr_willGive pc, lr_isCrash pc, lr_prePay pc, lr_atPush pc]"

text \<open>Moving a thread within a class of program counters keeps the invariant.\<close>

lemma lr_inv_same:
  assumes "lr_inv ts sh" and "i < length ts" and "lr_profile p = lr_profile (ts ! i)"
  shows "lr_inv (ts[i := p]) sh"
  using assms by (simp add: lr_inv_def lr_profile_def cnt_update_same)

text \<open>A new lease is made from a held one.\<close>

lemma lr_inv_newS:
  assumes inv: "lr_inv ts sh" and "0 < cnt lr_holdsS ts" and "Suc (length ts) < 2 ^ 32"
  shows "lr_inv (ts @ [S_hold]) (lr_setStrong (lr_strong sh + 1) sh)"
proof -
  have "unat (lr_strong sh + 1) = Suc (cnt lr_holdsS ts)"
    using assms cnt_le_length[of lr_holdsS ts] lr_invD(1)[OF inv] by (subst unat_inc) auto
  with assms show ?thesis
    by (simp add: lr_inv_def lr_pc_defs)
qed

lemma lr_inv_newW:
  assumes inv: "lr_inv ts sh" and "0 < cnt lr_holdsS ts \<or> 0 < cnt lr_holdsW ts"
    and "Suc (length ts) < 2 ^ 32"
  shows "lr_inv (ts @ [W_hold]) (lr_setWeak (lr_weak sh + 1) sh)"
proof -
  have "unat (lr_weak sh + 1) = Suc (cnt lr_holdsW ts)"
    using assms cnt_le_length[of lr_holdsW ts] lr_invD(2)[OF inv] by (subst unat_inc) auto
  moreover have "\<not> lr_stuck W_hold" "lr_holdsW W_hold" "\<not> lr_holdsS W_hold" "\<not> lr_prePay W_hold"
    "\<not> lr_afterS W_hold" "\<not> lr_afterSW W_hold" "\<not> lr_atPush W_hold"
    by (simp_all add: lr_pc_defs)
  ultimately show ?thesis
    using assms by (auto simp: lr_inv_def)
qed

text \<open>A successful exchange takes a reference off.\<close>

lemma lr_inv_dropS:
  assumes inv: "lr_inv ts sh" and i: "i < length ts" and pc: "ts ! i = S_loaded c"
    and c: "c = lr_strong sh"
  shows "lr_inv (ts[i := (if c = 1 then S_rel R_handle else S_done)]) (lr_setStrong (c - 1) sh)"
proof -
  let ?p = "if c = 1 then S_rel R_handle else S_done"
  have pos: "0 < cnt lr_holdsS ts"
    using cnt_pos[OF i, of lr_holdsS] pc by (simp add: lr_pc_defs)
  have u: "unat (c - 1) = cnt lr_holdsS ts - 1"
    using pos lr_invD(1)[OF inv] lr_counts(1)[OF inv] c by (subst unat_dec) auto
  have one: "c = 1 \<longleftrightarrow> cnt lr_holdsS ts = 1"
    using lr_counts(3)[OF inv] c by simp
  have pre: "cnt lr_prePay ts = 0"
    using pos lr_invD(4)[OF inv] cnt_prePay_afterS by simp
  have "cnt lr_holdsS (ts[i := ?p]) = cnt lr_holdsS ts - 1" "cnt lr_holdsW (ts[i := ?p]) = cnt lr_holdsW ts"
    "cnt lr_stuck (ts[i := ?p]) = cnt lr_stuck ts - (if c = 0 then 1 else 0)"
    "cnt lr_afterS (ts[i := ?p]) = (if c = 1 then 1 else 0) + cnt lr_afterS ts"
    "cnt lr_afterSW (ts[i := ?p]) = cnt lr_afterSW ts" "cnt lr_isCrash (ts[i := ?p]) = cnt lr_isCrash ts"
    "cnt lr_atPush (ts[i := ?p]) = cnt lr_atPush ts"
    "cnt lr_prePay (ts[i := ?p]) = (if c = 1 then 1 else 0) + cnt lr_prePay ts"
    "cnt lr_willGive (ts[i := ?p]) = (if c = 1 then 1 else 0) + cnt lr_willGive ts"
    using pc by (auto simp: cnt_update[OF i] lr_pc_defs)
  with inv pos u one pre show ?thesis
    by (cases "cnt lr_holdsS ts = 1") (simp_all add: lr_inv_def)
qed

lemma lr_inv_dropW:
  assumes inv: "lr_inv ts sh" and i: "i < length ts" and pc: "ts ! i = W_loaded c"
    and c: "c = lr_weak sh"
  shows "lr_inv (ts[i := (if c = 1 then W_ckS else W_done)]) (lr_setWeak (c - 1) sh)"
proof -
  let ?p = "if c = 1 then W_ckS else W_done"
  have pos: "0 < cnt lr_holdsW ts"
    using cnt_pos[OF i, of lr_holdsW] pc by (simp add: lr_pc_defs)
  have u: "unat (c - 1) = cnt lr_holdsW ts - 1"
    using pos lr_invD(2)[OF inv] lr_counts(2)[OF inv] c by (subst unat_dec) auto
  have one: "c = 1 \<longleftrightarrow> cnt lr_holdsW ts = 1"
    using lr_counts(4)[OF inv] c by simp
  have "cnt lr_holdsW (ts[i := ?p]) = cnt lr_holdsW ts - 1" "cnt lr_holdsS (ts[i := ?p]) = cnt lr_holdsS ts"
    "cnt lr_stuck (ts[i := ?p]) = cnt lr_stuck ts - (if c = 0 then 1 else 0)"
    "cnt lr_afterS (ts[i := ?p]) = cnt lr_afterS ts" "cnt lr_afterSW (ts[i := ?p]) = cnt lr_afterSW ts"
    "cnt lr_isCrash (ts[i := ?p]) = cnt lr_isCrash ts" "cnt lr_atPush (ts[i := ?p]) = cnt lr_atPush ts"
    "cnt lr_prePay (ts[i := ?p]) = cnt lr_prePay ts"
    "cnt lr_willGive (ts[i := ?p]) = (if c = 1 then 1 else 0) + cnt lr_willGive ts"
    using pc by (auto simp: cnt_update[OF i] lr_pc_defs)
  with inv pos u one show ?thesis
    by (cases "cnt lr_holdsW ts = 1") (simp_all add: lr_inv_def)
qed

text \<open>The other steps: reads of the counters, and the work done once they are 0.\<close>

lemma lr_inv_zeroS:
  assumes "lr_inv ts sh" and "i < length ts" and "lr_afterS (ts ! i)"
  shows "lr_strong sh = 0"
  using assms cnt_pos[of i ts lr_afterS] lr_counts(1)[OF assms(1)] by (auto simp: lr_inv_def)

lemma lr_inv_zeroSW:
  assumes "lr_inv ts sh" and "i < length ts" and "lr_afterSW (ts ! i)"
  shows "lr_strong sh = 0 \<and> lr_weak sh = 0"
  using assms cnt_pos[of i ts lr_afterSW] lr_counts[OF assms(1)] by (auto simp: lr_inv_def)

definition lr_quiet :: "lr_pc \<Rightarrow> lr_pc \<Rightarrow> lr_shared \<Rightarrow> lr_shared \<Rightarrow> bool" where
  "lr_quiet q p sh sh' \<longleftrightarrow>
     \<not> lr_holdsS q \<and> \<not> lr_holdsW q \<and> \<not> lr_holdsS p \<and> \<not> lr_holdsW p \<and> \<not> lr_stuck p \<and>
     lr_strong sh' = lr_strong sh \<and> lr_weak sh' = lr_weak sh \<and>
     (lr_afterS p \<longrightarrow> lr_strong sh = 0) \<and> (lr_afterSW p \<longrightarrow> lr_strong sh = 0 \<and> lr_weak sh = 0) \<and>
     (lr_strong sh = 0 \<or> lr_bound sh' = lr_bound sh \<and> lr_payload_returns sh' = lr_payload_returns sh) \<and>
     (lr_strong sh = 0 \<and> lr_weak sh = 0 \<or>
        lr_size sh' = lr_size sh \<and> lr_generation sh' = lr_generation sh) \<and>
     lr_payload_returns sh' + (if lr_prePay p then 1 else 0) \<le>
       lr_payload_returns sh + (if lr_prePay q then 1 else 0) \<and>
     (0 < lr_size sh \<longrightarrow> 0 < lr_size sh') \<and>
     (lr_generation sh' \<noteq> 0 \<longrightarrow> 0 < lr_size sh' \<or> lr_atPush p \<or> lr_generation sh \<noteq> 0 \<and> \<not> lr_atPush q) \<and>
     (lr_strong sh = 0 \<and> lr_weak sh = 0 \<longrightarrow>
        lr_willGive p \<or> 0 < lr_size sh' \<or> lr_isCrash p \<or> lr_generation sh \<noteq> 0 \<and> \<not> lr_atPush q \<or>
        \<not> lr_willGive q \<and> \<not> lr_isCrash q)"

lemma lr_inv_quiet:
  assumes inv: "lr_inv ts sh" and i: "i < length ts" and q: "lr_quiet (ts ! i) p sh sh'"
  shows "lr_inv (ts[i := p]) sh'"
proof -
  note c = lr_counts[OF inv]
  from q have q1: "\<not> lr_holdsS (ts ! i)" "\<not> lr_holdsW (ts ! i)" "\<not> lr_holdsS p" "\<not> lr_holdsW p" "\<not> lr_stuck p"
    and q2: "lr_strong sh' = lr_strong sh" "lr_weak sh' = lr_weak sh"
    and q3: "lr_afterS p \<Longrightarrow> lr_strong sh = 0" "lr_afterSW p \<Longrightarrow> lr_strong sh = 0 \<and> lr_weak sh = 0"
    and q4: "lr_strong sh = 0 \<or> lr_bound sh' = lr_bound sh \<and> lr_payload_returns sh' = lr_payload_returns sh"
      "lr_strong sh = 0 \<and> lr_weak sh = 0 \<or>
        lr_size sh' = lr_size sh \<and> lr_generation sh' = lr_generation sh"
    and q5: "lr_payload_returns sh' + (if lr_prePay p then 1 else 0) \<le>
       lr_payload_returns sh + (if lr_prePay (ts ! i) then 1 else 0)"
    and q6: "0 < lr_size sh \<Longrightarrow> 0 < lr_size sh'"
    and q7: "lr_generation sh' \<noteq> 0 \<Longrightarrow>
       0 < lr_size sh' \<or> lr_atPush p \<or> lr_generation sh \<noteq> 0 \<and> \<not> lr_atPush (ts ! i)"
    and q8: "lr_strong sh = 0 \<and> lr_weak sh = 0 \<Longrightarrow>
        lr_willGive p \<or> 0 < lr_size sh' \<or> lr_isCrash p \<or> lr_generation sh \<noteq> 0 \<and> \<not> lr_atPush (ts ! i) \<or>
        \<not> lr_willGive (ts ! i) \<and> \<not> lr_isCrash (ts ! i)"
    unfolding lr_quiet_def by simp_all
  from inv have v1: "length ts < 2 ^ 32" "cnt lr_stuck ts = 0"
    and v2: "lr_payload_returns sh + cnt lr_prePay ts \<le> 1"
    and v3: "0 < cnt lr_holdsS ts \<Longrightarrow> lr_bound sh \<and> lr_payload_returns sh = 0 \<and> cnt lr_afterS ts = 0"
    and v4: "0 < cnt lr_holdsS ts \<or> 0 < cnt lr_holdsW ts \<Longrightarrow>
        lr_size sh = 0 \<and> lr_generation sh = 0 \<and> cnt lr_afterSW ts = 0"
    and v5: "lr_generation sh \<noteq> 0 \<Longrightarrow> 0 < lr_size sh \<or> 0 < cnt lr_atPush ts"
    and v6: "cnt lr_holdsS ts = 0 \<Longrightarrow> cnt lr_holdsW ts = 0 \<Longrightarrow>
        0 < lr_size sh \<or> 0 < cnt lr_willGive ts \<or> 0 < cnt lr_isCrash ts"
    unfolding lr_inv_def by simp_all
  have same: "cnt lr_holdsS (ts[i := p]) = cnt lr_holdsS ts" "cnt lr_holdsW (ts[i := p]) = cnt lr_holdsW ts"
    using q1 by (simp_all add: cnt_update_same i)
  have le: "cnt lr_stuck (ts[i := p]) \<le> cnt lr_stuck ts"
    using q1(5) by (rule cnt_update_le[OF i])
  have aS: "cnt lr_afterS (ts[i := p]) \<le> cnt lr_afterS ts" if "lr_strong sh \<noteq> 0"
    using that q3(1) by (intro cnt_update_le[OF i]) blast
  have aSW: "cnt lr_afterSW (ts[i := p]) \<le> cnt lr_afterSW ts" if "\<not> (lr_strong sh = 0 \<and> lr_weak sh = 0)"
    using that q3(2) by (intro cnt_update_le[OF i]) blast
  have "cnt lr_prePay (ts[i := p]) + (if lr_prePay (ts ! i) then 1 else 0) =
      cnt lr_prePay ts + (if lr_prePay p then 1 else 0)"
    by (rule cnt_update_add[OF i])
  then have pay: "lr_payload_returns sh' + cnt lr_prePay (ts[i := p]) \<le> 1"
    using q5 v2 by linarith
  have push: "0 < cnt lr_atPush (ts[i := p])" if "lr_atPush p \<or> 0 < cnt lr_atPush ts \<and> \<not> lr_atPush (ts ! i)"
    using that cnt_pos[of i "ts[i := p]" lr_atPush] i cnt_update_add[OF i, of lr_atPush p]
    by (cases "lr_atPush p") simp_all
  have gen: "0 < lr_size sh' \<or> 0 < cnt lr_atPush (ts[i := p])" if "lr_generation sh' \<noteq> 0"
    using q7[OF that] v5 push q6 by auto
  have give: "0 < lr_size sh' \<or> 0 < cnt lr_willGive (ts[i := p]) \<or> 0 < cnt lr_isCrash (ts[i := p])"
    if z: "cnt lr_holdsS ts = 0" "cnt lr_holdsW ts = 0"
  proof -
    have "lr_strong sh = 0 \<and> lr_weak sh = 0" using z c by simp
    from q8[OF this] consider "lr_willGive p" | "0 < lr_size sh'" | "lr_isCrash p"
      | "lr_generation sh \<noteq> 0" "\<not> lr_atPush (ts ! i)" | "\<not> lr_willGive (ts ! i)" "\<not> lr_isCrash (ts ! i)"
      by (elim disjE conjE) auto
    then show ?thesis
    proof cases
      case 4
      then show ?thesis
        using v5 q6 push cnt_atPush_willGive[of "ts[i := p]"] by (meson order.strict_trans2)
    next
      case 5
      have "cnt lr_willGive ts \<le> cnt lr_willGive (ts[i := p])" "cnt lr_isCrash ts \<le> cnt lr_isCrash (ts[i := p])"
        using 5 cnt_update_add[OF i, of lr_willGive p] cnt_update_add[OF i, of lr_isCrash p] by simp_all
      then show ?thesis
        using v6[OF z] q6 by (meson order.strict_trans2)
    qed (use cnt_pos[of i "ts[i := p]"] i in \<open>simp_all\<close>)
  qed
  have hs: "lr_bound sh' \<and> lr_payload_returns sh' = 0 \<and> cnt lr_afterS (ts[i := p]) = 0" if "0 < cnt lr_holdsS ts"
  proof -
    have "lr_strong sh \<noteq> 0" using that c(1) by simp
    then show ?thesis using v3[OF that] q4(1) aS by simp
  qed
  have hw: "lr_size sh' = 0 \<and> lr_generation sh' = 0 \<and> cnt lr_afterSW (ts[i := p]) = 0"
    if "0 < cnt lr_holdsS ts \<or> 0 < cnt lr_holdsW ts"
  proof -
    have "\<not> (lr_strong sh = 0 \<and> lr_weak sh = 0)" using that c(1,2) by auto
    then show ?thesis using v4[OF that] q4(2) aSW by auto
  qed
  have cs: "unat (lr_strong sh') = cnt lr_holdsS ts" "unat (lr_weak sh') = cnt lr_holdsW ts"
    "cnt lr_stuck (ts[i := p]) = 0"
    using lr_invD(1,2)[OF inv] q2 le v1 by simp_all
  show ?thesis
    unfolding lr_inv_def same length_list_update using cs v1(1) pay hs hw gen give by simp
qed

text \<open>The three straight-line routines only make such steps.\<close>

lemma lr_quiet_rel:
  assumes "lr_strong sh = 0" and "lr_relStep r sh = (p, sh')"
  shows "lr_quiet (S_rel r) p sh sh'"
  using assms by (cases r) (auto simp: lr_relStep_def lr_quiet_def lr_pc_defs split: if_splits option.splits)

lemma lr_clearStep_frame:
  assumes "lr_clearStep c sh = (r, sh')"
  shows "lr_strong sh' = lr_strong sh" "lr_weak sh' = lr_weak sh" "lr_size sh' = lr_size sh"
    "lr_generation sh' = lr_generation sh" "lr_payload_returns sh' = lr_payload_returns sh"
    "lr_cells sh' = lr_cells sh" "\<not> lr_bound sh \<Longrightarrow> \<not> lr_bound sh'"
  using assms by (cases c; auto simp: lr_clearStep_def lr_bound_def)+

lemma lr_quiet_clear_strong:
  assumes "lr_strong sh = 0" and "lr_clearStep c sh = (r, sh')"
  shows "lr_quiet (S_clear c) (case r of Some d \<Rightarrow> S_clear d | None \<Rightarrow> S_ckS) sh sh'"
  using assms(1) lr_clearStep_frame[OF assms(2)] by (cases r) (simp_all add: lr_quiet_def lr_pc_defs)

lemma lr_quiet_clear_weak:
  assumes "lr_strong sh = 0" and "lr_weak sh = 0" and "lr_clearStep c sh = (r, sh')"
  shows "lr_quiet (W_clear c) (case r of Some d \<Rightarrow> W_clear d | None \<Rightarrow> W_ck2S) sh sh'"
  using assms(1,2) lr_clearStep_frame[OF assms(3)] by (cases r) (simp_all add: lr_quiet_def lr_pc_defs)

lemma lr_quiet_give_strong:
  assumes "lr_strong sh = 0" and "lr_weak sh = 0" and "lr_giveStep g sh = (r, sh')"
  shows "lr_quiet (S_give g) (case r of Some d \<Rightarrow> S_give d | None \<Rightarrow> S_done) sh sh'"
  using assms by (cases g) (auto simp: lr_giveStep_def lr_quiet_def lr_pc_defs lr_bound_def split: if_splits)

lemma lr_quiet_give_weak:
  assumes "lr_strong sh = 0" and "lr_weak sh = 0" and "lr_giveStep g sh = (r, sh')"
  shows "lr_quiet (W_give g) (case r of Some d \<Rightarrow> W_give d | None \<Rightarrow> W_done) sh sh'"
  using assms by (cases g) (auto simp: lr_giveStep_def lr_quiet_def lr_pc_defs lr_bound_def split: if_splits)

lemma lr_inv_strong:
  assumes inv: "lr_inv ts sh" and i: "i < length ts" and pc: "lr_isStrong (ts ! i)"
    and st: "lr_strongStep ch (ts ! i) sh = (p, new, sh')" and len: "length ts + length new < 2 ^ 32"
  shows "lr_inv (ts[i := p] @ new) sh'"
proof -
  note pos = cnt_pos[OF i] and c = lr_counts[OF inv] and zero = lr_inv_zeroS[OF inv i]
  note quiet = lr_inv_quiet[OF inv i]
  show ?thesis
  proof (cases "ts ! i")
    case S_hold
    have "0 < cnt lr_holdsS ts"
      using pos[of lr_holdsS] S_hold by (simp add: lr_pc_defs)
    moreover from this have "lr_strong sh \<noteq> 0" using c by simp
    moreover have "ts[i := S_hold] = ts" using S_hold by (metis list_update_id)
    ultimately show ?thesis
      using st S_hold len lr_inv_newS[OF inv] lr_inv_newW[OF inv] inv
        lr_inv_same[OF inv i, of "S_loaded (lr_strong sh)"]
      by (cases ch) (auto simp: lr_strongStep_def lr_profile_def lr_pc_defs)
  next
    case (S_loaded x)
    have "0 < cnt lr_holdsS ts" "x \<noteq> 0"
      using pos[of lr_holdsS] pos[of lr_stuck] S_loaded inv by (auto simp: lr_pc_defs lr_inv_def)
    moreover from this have "lr_strong sh \<noteq> 0" using c by simp
    ultimately show ?thesis
      using st S_loaded lr_inv_dropS[OF inv i S_loaded] lr_inv_same[OF inv i, of "S_loaded (lr_strong sh)"]
      by (auto simp: lr_strongStep_def lr_profile_def lr_pc_defs split: if_splits)
  next
    case (S_rel r)
    have "lr_strong sh = 0" using zero S_rel by (simp add: lr_pc_defs)
    then have "lr_quiet (S_rel r) p sh sh'"
      using st S_rel by (intro lr_quiet_rel) (auto simp: lr_strongStep_def split: prod.splits)
    with quiet show ?thesis using st S_rel by (auto simp: lr_strongStep_def split: prod.splits)
  next
    case (S_clear d)
    have "lr_strong sh = 0" using zero S_clear by (simp add: lr_pc_defs)
    from lr_quiet_clear_strong[OF this prod.collapse[symmetric], of d] show ?thesis
      using quiet[of p sh'] st S_clear by (auto simp: lr_strongStep_def lr_at_def)
  next
    case S_ckS
    have "lr_strong sh = 0" using zero S_ckS by (simp add: lr_pc_defs)
    then show ?thesis
      using st S_ckS quiet[of S_ckW sh] by (simp add: lr_strongStep_def lr_quiet_def lr_pc_defs)
  next
    case S_ckW
    have "lr_strong sh = 0" using zero S_ckW by (simp add: lr_pc_defs)
    then have "lr_quiet S_ckW p sh sh \<and> new = [] \<and> sh' = sh"
      using st S_ckW by (auto simp: lr_strongStep_def lr_quiet_def lr_pc_defs split: if_splits)
    then show ?thesis using quiet[of p sh] S_ckW by simp
  next
    case (S_give g)
    have "lr_strong sh = 0 \<and> lr_weak sh = 0"
      using lr_inv_zeroSW[OF inv i] S_give by (simp add: lr_pc_defs)
    from lr_quiet_give_strong[OF conjunct1[OF this] conjunct2[OF this] prod.collapse[symmetric], of g]
    show ?thesis using quiet[of p sh'] st S_give by (auto simp: lr_strongStep_def lr_at_def)
  next
    case S_done
    then have "ts[i := S_done] = ts" by (metis list_update_id)
    with S_done show ?thesis using inv st by (simp add: lr_strongStep_def)
  next
    case S_crash
    then have "ts[i := S_crash] = ts" by (metis list_update_id)
    with S_crash show ?thesis using inv st by (simp add: lr_strongStep_def)
  qed (use pc in \<open>simp_all add: lr_isStrong_def\<close>)
qed

lemma lr_inv_weak:
  assumes inv: "lr_inv ts sh" and i: "i < length ts" and pc: "\<not> lr_isStrong (ts ! i)"
    and st: "lr_weakStep ch (ts ! i) sh = (p, new, sh')" and len: "length ts + length new < 2 ^ 32"
  shows "lr_inv (ts[i := p] @ new) sh'"
proof -
  note pos = cnt_pos[OF i] and c = lr_counts[OF inv] and zero = lr_inv_zeroS[OF inv i]
  note quiet = lr_inv_quiet[OF inv i]
  show ?thesis
  proof (cases "ts ! i")
    case W_hold
    have "0 < cnt lr_holdsW ts"
      using pos[of lr_holdsW] W_hold by (simp add: lr_pc_defs)
    moreover from this have "lr_weak sh \<noteq> 0" using c by simp
    moreover have "ts[i := W_hold] = ts" using W_hold by (metis list_update_id)
    ultimately show ?thesis
      using st W_hold len lr_inv_newW[OF inv] inv
        lr_inv_same[OF inv i, of "W_loaded (lr_weak sh)"] lr_inv_same[OF inv i, of "W_lock (lr_strong sh)"]
      by (cases ch) (auto simp: lr_weakStep_def lr_profile_def lr_pc_defs)
  next
    case (W_lock x)
    have h: "lr_inv (ts[i := W_hold]) sh" "lr_inv (ts[i := W_lock (lr_strong sh)]) sh"
      using W_lock lr_inv_same[OF inv i] by (simp_all add: lr_profile_def lr_pc_defs)
    have "lr_inv (ts[i := W_hold] @ [S_hold]) (lr_setStrong (lr_strong sh + 1) sh)"
      if "lr_strong sh \<noteq> 0" "Suc (length ts) < 2 ^ 32"
      using that lr_inv_newS[OF h(1)] lr_counts(1)[OF h(1)] by simp
    with h show ?thesis
      using st W_lock len by (auto simp: lr_weakStep_def split: if_splits)
  next
    case (W_loaded x)
    have "0 < cnt lr_holdsW ts" "x \<noteq> 0"
      using pos[of lr_holdsW] pos[of lr_stuck] W_loaded inv by (auto simp: lr_pc_defs lr_inv_def)
    moreover from this have "lr_weak sh \<noteq> 0" using c by simp
    ultimately show ?thesis
      using st W_loaded lr_inv_dropW[OF inv i W_loaded] lr_inv_same[OF inv i, of "W_loaded (lr_weak sh)"]
      by (auto simp: lr_weakStep_def lr_profile_def lr_pc_defs split: if_splits)
  next
    case W_ckS
    then have "lr_quiet W_ckS p sh sh \<and> new = [] \<and> sh' = sh"
      using st by (auto simp: lr_weakStep_def lr_quiet_def lr_pc_defs split: if_splits)
    then show ?thesis using quiet[of p sh] W_ckS by simp
  next
    case W_ckW
    have "lr_strong sh = 0" using zero W_ckW by (simp add: lr_pc_defs)
    then have "lr_quiet W_ckW p sh sh \<and> new = [] \<and> sh' = sh"
      using st W_ckW by (auto simp: lr_weakStep_def lr_quiet_def lr_pc_defs split: if_splits)
    then show ?thesis using quiet[of p sh] W_ckW by simp
  next
    case (W_clear d)
    have "lr_strong sh = 0 \<and> lr_weak sh = 0"
      using lr_inv_zeroSW[OF inv i] W_clear by (simp add: lr_pc_defs)
    from lr_quiet_clear_weak[OF conjunct1[OF this] conjunct2[OF this] prod.collapse[symmetric], of d]
    show ?thesis using quiet[of p sh'] st W_clear by (auto simp: lr_weakStep_def lr_at_def)
  next
    case W_ck2S
    then have "lr_quiet W_ck2S p sh sh \<and> new = [] \<and> sh' = sh"
      using st by (auto simp: lr_weakStep_def lr_quiet_def lr_pc_defs split: if_splits)
    then show ?thesis using quiet[of p sh] W_ck2S by simp
  next
    case W_ck2W
    have "lr_strong sh = 0" using zero W_ck2W by (simp add: lr_pc_defs)
    then have "lr_quiet W_ck2W p sh sh \<and> new = [] \<and> sh' = sh"
      using st W_ck2W by (auto simp: lr_weakStep_def lr_quiet_def lr_pc_defs split: if_splits)
    then show ?thesis using quiet[of p sh] W_ck2W by simp
  next
    case (W_give g)
    have "lr_strong sh = 0 \<and> lr_weak sh = 0"
      using lr_inv_zeroSW[OF inv i] W_give by (simp add: lr_pc_defs)
    from lr_quiet_give_weak[OF conjunct1[OF this] conjunct2[OF this] prod.collapse[symmetric], of g]
    show ?thesis using quiet[of p sh'] st W_give by (auto simp: lr_weakStep_def lr_at_def)
  next
    case W_done
    then have "ts[i := W_done] = ts" by (metis list_update_id)
    with W_done show ?thesis using inv st by (simp add: lr_weakStep_def)
  qed (use pc in \<open>simp_all add: lr_isStrong_def\<close>)
qed

lemma lr_step_cases:
  assumes "lr_step (i, ch) (ts, sh) = (ts', sh')"
  obtains "ts' = ts" "sh' = sh"
  | p new where "i < length ts" "length ts + length new < 2 ^ 32" "ts' = ts[i := p] @ new"
      "lr_isStrong (ts ! i)" "lr_strongStep ch (ts ! i) sh = (p, new, sh')"
  | p new where "i < length ts" "length ts + length new < 2 ^ 32" "ts' = ts[i := p] @ new"
      "\<not> lr_isStrong (ts ! i)" "lr_weakStep ch (ts ! i) sh = (p, new, sh')"
  using assms by (auto simp: lr_step_def Let_def split: if_splits prod.splits)

lemma lr_inv_step:
  assumes "lr_inv ts sh" and "lr_step (i, ch) (ts, sh) = (ts', sh')"
  shows "lr_inv ts' sh'"
  using assms(2)
proof (cases rule: lr_step_cases)
  case 1
  with assms(1) show ?thesis by simp
next
  case (2 p new)
  with lr_inv_strong[OF assms(1)] show ?thesis by blast
next
  case (3 p new)
  with lr_inv_weak[OF assms(1)] show ?thesis by blast
qed

section \<open>Strong leases only\<close>

text \<open>The state while the thread that dropped the last strong reference is at a program counter, and
  after it is done.\<close>

definition lr_unreturned :: "lr_shared \<Rightarrow> bool" where
  "lr_unreturned sh \<longleftrightarrow> lr_generation sh = 0 \<and> lr_size sh = 0"

definition lr_recycled :: "lr_shared \<Rightarrow> bool" where
  "lr_recycled sh \<longleftrightarrow> lr_payload_returns sh = 1 \<and> lr_generation sh = 1 \<and> lr_pushed sh = [Some 0]"

definition lr_givePhase :: "lr_give \<Rightarrow> lr_shared \<Rightarrow> bool" where
  "lr_givePhase g sh =
     (case g of
        G_valid \<Rightarrow> lr_generation sh = 0 \<and> lr_size sh = 0
      | G_load \<Rightarrow> lr_generation sh = 0 \<and> lr_size sh = 0
      | G_store n \<Rightarrow> n = 0 \<and> lr_size sh = 0
      | G_size \<Rightarrow> lr_generation sh = 1 \<and> lr_size sh = 0
      | G_cell k \<Rightarrow> lr_generation sh = 1 \<and> lr_size sh = 0 \<and> k = 0
      | G_inc \<Rightarrow> lr_generation sh = 1 \<and> lr_size sh = 0 \<and> lr_cells sh 0 = Some 0
      | G_set k \<Rightarrow> lr_generation sh = 1 \<and> lr_size sh = 0 \<and> k = 0 \<and> lr_cells sh 0 = Some 0)"

definition lr_phase :: "lr_pc \<Rightarrow> lr_shared \<Rightarrow> bool" where
  "lr_phase pc sh =
     (case pc of
        S_rel r \<Rightarrow> lr_bound sh \<and> lr_payload_returns sh = 0 \<and> lr_unreturned sh \<and>
          (case r of R_call h \<Rightarrow> handle_isValid h | _ \<Rightarrow> True)
      | S_clear _ \<Rightarrow> lr_payload_returns sh = 1 \<and> lr_unreturned sh
      | S_ckS \<Rightarrow> lr_payload_returns sh = 1 \<and> lr_unreturned sh
      | S_ckW \<Rightarrow> lr_payload_returns sh = 1 \<and> lr_unreturned sh
      | S_give g \<Rightarrow> lr_payload_returns sh = 1 \<and> lr_givePhase g sh
      | _ \<Rightarrow> True)"

definition lr_solo :: "lr_pc list \<Rightarrow> lr_shared \<Rightarrow> bool" where
  "lr_solo ts sh \<longleftrightarrow>
     cnt lr_isCrash ts = 0 \<and> cnt lr_isLast ts \<le> 1 \<and>
     (\<forall>pc \<in> set ts. lr_isLast pc \<longrightarrow> lr_phase pc sh) \<and>
     (cnt lr_holdsS ts = 0 \<and> cnt lr_isLast ts = 0 \<longrightarrow> lr_recycled sh)"

text \<open>The last releaser alone goes through its phases.\<close>

lemma lr_phase_step:
  assumes "lr_isLast q" and "lr_phase q sh" and "lr_strong sh = 0" and "lr_weak sh = 0"
    and "lr_strongStep ch q sh = (p, new, sh')"
  shows "new = [] \<and> (lr_isLast p \<and> lr_phase p sh' \<or> p = S_done \<and> lr_recycled sh')"
proof (cases q)
  case (S_rel r)
  with assms show ?thesis
    by (cases r) (auto simp: lr_strongStep_def lr_relStep_def lr_phase_def lr_bound_def lr_unreturned_def
        lr_isLast_def split: if_splits)
next
  case (S_clear c)
  with assms show ?thesis
    by (cases c) (auto simp: lr_strongStep_def lr_clearStep_def lr_at_def lr_phase_def lr_unreturned_def lr_isLast_def)
next
  case (S_give g)
  with assms show ?thesis
    by (cases g) (auto simp: lr_strongStep_def lr_giveStep_def lr_at_def lr_phase_def lr_givePhase_def
        lr_recycled_def lr_pushed_def lr_isLast_def)
qed (use assms in \<open>auto simp: lr_strongStep_def lr_phase_def lr_unreturned_def lr_givePhase_def lr_isLast_def\<close>)

lemma cnt_pos_iff: "0 < cnt Q xs \<longleftrightarrow> (\<exists>x \<in> set xs. Q x)"
  using cnt_eq_0_iff[of Q xs] by auto

lemma cnt_only:
  assumes "i < length xs" and "Q (xs ! i)" and "cnt Q xs \<le> 1" and "\<not> Q x"
  shows "cnt Q (xs[i := x]) = 0"
  using assms cnt_update_add[of i xs Q x] by simp

lemma lr_solo_holder:
  assumes inv: "lr_inv ts sh" and solo: "lr_solo ts sh" and h: "0 < cnt lr_holdsS ts"
    and "\<forall>pc \<in> set ts'. pc \<in> set ts \<or> \<not> lr_isLast pc \<and> pc \<noteq> S_crash"
    and "0 < cnt lr_holdsS ts'"
  shows "lr_solo ts' sh'"
proof -
  have "cnt lr_isLast ts = 0"
    using lr_invD(4)[OF inv h] cnt_isLast_afterS[of ts] by simp
  then have "\<forall>pc \<in> set ts'. \<not> lr_isLast pc"
    using assms(4) by (auto simp: cnt_eq_0_iff)
  moreover have "\<forall>pc \<in> set ts'. pc \<noteq> S_crash"
    using assms(4) solo by (auto simp: lr_solo_def cnt_eq_0_iff lr_isCrash_def)
  ultimately show ?thesis
    using assms(5) by (simp add: lr_solo_def lr_isCrash_def cnt_eq_0_iff[THEN iffD2])
qed

lemma lr_solo_hold:
  assumes inv: "lr_inv ts sh" and solo: "lr_solo ts sh" and i: "i < length ts" and pc: "ts ! i = S_hold"
    and st: "lr_strongStep ch (ts ! i) sh = (p, new, sh')" and noW: "cnt lr_isWeak (ts[i := p] @ new) = 0"
  shows "lr_solo (ts[i := p] @ new) sh'"
proof (rule lr_solo_holder[OF inv solo])
  show "0 < cnt lr_holdsS ts" using cnt_pos[OF i, of lr_holdsS] pc by (simp add: lr_holdsS_def)
  have p: "(p = S_hold \<or> p = S_loaded (lr_strong sh)) \<and> set new \<subseteq> {S_hold}"
    using st pc noW by (cases ch) (auto simp: lr_strongStep_def lr_isWeak_def lr_isStrong_def)
  then show "\<forall>pc \<in> set (ts[i := p] @ new). pc \<in> set ts \<or> \<not> lr_isLast pc \<and> pc \<noteq> S_crash"
    using set_update_subset_insert[of ts i p] by (auto simp: lr_isLast_def)
  show "0 < cnt lr_holdsS (ts[i := p] @ new)"
    using cnt_pos[of i "ts[i := p]" lr_holdsS] i p by (auto simp: lr_holdsS_def)
qed

lemma lr_solo_loaded:
  assumes inv: "lr_inv ts sh" and solo: "lr_solo ts sh" and i: "i < length ts" and pc: "ts ! i = S_loaded c"
    and st: "lr_strongStep ch (ts ! i) sh = (p, new, sh')"
  shows "lr_solo (ts[i := p] @ new) sh'"
proof -
  have h: "0 < cnt lr_holdsS ts" using cnt_pos[OF i, of lr_holdsS] pc by (simp add: lr_holdsS_def)
  have c0: "c \<noteq> 0" using cnt_pos[OF i, of lr_stuck] pc inv by (auto simp: lr_inv_def lr_stuck_def)
  have noLast: "cnt lr_isLast ts = 0"
    using lr_invD(4)[OF inv h] cnt_isLast_afterS[of ts] by simp
  have "p = S_loaded (lr_strong sh) \<and> new = [] \<or>
      c = lr_strong sh \<and> new = [] \<and> (c \<noteq> 1 \<and> p = S_done \<or>
        c = 1 \<and> p = S_rel R_handle \<and> sh' = lr_setStrong 0 sh)"
    using st unfolding pc lr_strongStep_def by (auto simp: c0 split: if_splits)
  then consider "p = S_loaded (lr_strong sh)" "new = []"
    | "c = lr_strong sh" "c \<noteq> 1" "p = S_done" "new = []"
    | "c = lr_strong sh" "c = 1" "p = S_rel R_handle" "new = []" "sh' = lr_setStrong 0 sh"
    by metis
  then show ?thesis
  proof cases
    case 1
    then have "\<forall>pc \<in> set (ts[i := p] @ new). pc \<in> set ts \<or> \<not> lr_isLast pc \<and> pc \<noteq> S_crash"
      using set_update_subset_insert[of ts i p] by (auto simp: lr_isLast_def)
    moreover have "0 < cnt lr_holdsS (ts[i := p] @ new)"
      using 1 cnt_pos[of i "ts[i := p]" lr_holdsS] i by (auto simp: lr_holdsS_def)
    ultimately show ?thesis by (rule lr_solo_holder[OF inv solo h])
  next
    case 2
    then have "\<forall>pc \<in> set (ts[i := p] @ new). pc \<in> set ts \<or> \<not> lr_isLast pc \<and> pc \<noteq> S_crash"
      using set_update_subset_insert[of ts i p] by (auto simp: lr_isLast_def)
    moreover have "0 < cnt lr_holdsS (ts[i := p] @ new)"
      using 2 h lr_counts(3)[OF inv] cnt_update_add[OF i, of lr_holdsS p] pc by (auto simp: lr_holdsS_def)
    ultimately show ?thesis by (rule lr_solo_holder[OF inv solo h])
  next
    case 3
    have "lr_phase (S_rel R_handle) sh'"
      using inv h 3 by (simp add: lr_phase_def lr_inv_def lr_unreturned_def)
    moreover have "cnt lr_isLast (ts[i := p]) = 1" "cnt lr_isCrash (ts[i := p]) = 0"
      using 3 cnt_update_add[OF i, of lr_isLast p] cnt_update_le[OF i, of lr_isCrash p] noLast pc solo
      by (auto simp: lr_isLast_def lr_isCrash_def lr_solo_def)
    moreover have "pc = p" if "pc \<in> set (ts[i := p])" "lr_isLast pc" for pc
      using that noLast set_update_subset_insert[of ts i p] by (auto simp: cnt_eq_0_iff)
    ultimately show ?thesis using 3 by (auto simp: lr_solo_def)
  qed
qed

lemma lr_solo_step:
  assumes inv: "lr_inv ts sh" and solo: "lr_solo ts sh" and noW: "cnt lr_isWeak ts = 0"
    and i: "i < length ts" and st: "lr_strongStep ch (ts ! i) sh = (p, new, sh')"
    and noW': "cnt lr_isWeak (ts[i := p] @ new) = 0"
  shows "lr_solo (ts[i := p] @ new) sh'"
proof -
  note c = lr_counts[OF inv]
  have weak: "lr_weak sh = 0"
    using c(2) noW cnt_mono[of lr_holdsW lr_isWeak ts] by (auto simp: lr_pc_defs split: lr_pc.splits)
  have strong: "lr_isStrong (ts ! i)"
    using noW i cnt_eq_0_iff[of lr_isWeak ts] by (auto simp: lr_isWeak_def)
  show ?thesis
  proof (cases "lr_isLast (ts ! i)")
    case True
    have "lr_strong sh = 0"
      using lr_inv_zeroS[OF inv i lr_isLast_afterS[OF True]] .
    then have step: "new = [] \<and> (lr_isLast p \<and> lr_phase p sh' \<or> p = S_done \<and> lr_recycled sh')"
      using lr_phase_step[OF True _ _ weak st] solo True i by (auto simp: lr_solo_def)
    have others: "cnt lr_isLast (ts[i := S_done]) = 0"
      using cnt_only[of i ts lr_isLast S_done] i True solo by (simp add: lr_solo_def lr_isLast_def)
    have "p \<noteq> S_crash" using step by (auto simp: lr_isLast_def)
    then have crash: "cnt lr_isCrash (ts[i := p]) = 0"
      using solo cnt_update_le[OF i, of lr_isCrash p] by (simp add: lr_solo_def lr_isCrash_def)
    show ?thesis
    proof (cases "p = S_done")
      case True
      with step have "lr_recycled sh'" "new = []" by (auto simp: lr_isLast_def)
      moreover have "\<forall>pc \<in> set (ts[i := S_done]). \<not> lr_isLast pc"
        using others by (simp add: cnt_eq_0_iff)
      ultimately show ?thesis using others crash True by (simp add: lr_solo_def)
    next
      case False
      with step have p: "lr_isLast p" "lr_phase p sh'" "new = []" by auto
      have "cnt lr_isLast (ts[i := p]) = 1"
        using cnt_update_add[OF i, of lr_isLast p] cnt_update_add[OF i, of lr_isLast S_done] others p(1)
        by (simp add: lr_isLast_def)
      moreover have "pc = p" if "pc \<in> set (ts[i := p])" "lr_isLast pc" for pc
      proof (rule ccontr)
        assume "pc \<noteq> p"
        then have "pc \<in> set (ts[i := S_done])"
          using that(1) i by (auto simp: in_set_conv_nth nth_list_update split: if_splits)
        with others that(2) show False by (simp add: cnt_eq_0_iff)
      qed
      ultimately show ?thesis using p crash by (auto simp: lr_solo_def)
    qed
  next
    case False
    show ?thesis
    proof (cases "lr_holdsS (ts ! i)")
      case True
      then have h: "0 < cnt lr_holdsS ts" using cnt_pos[OF i] by blast
      show ?thesis
        using True lr_solo_hold[OF inv solo i _ st noW'] lr_solo_loaded[OF inv solo i _ st]
        by (auto simp: lr_holdsS_def split: lr_pc.splits)
    next
      case False
      with \<open>\<not> lr_isLast (ts ! i)\<close> strong have "ts ! i = S_done \<or> ts ! i = S_crash"
        by (auto simp: lr_pc_defs split: lr_pc.splits)
      then have "p = ts ! i" "new = []" "sh' = sh"
        using st by (auto simp: lr_strongStep_def)
      with solo show ?thesis by simp
    qed
  qed
qed

text \<open>A run keeps the invariant, and weak threads stay.\<close>

lemma lr_isWeak_step:
  assumes "lr_step (i, ch) (ts, sh) = (ts', sh')" and "cnt lr_isWeak ts' = 0"
  shows "cnt lr_isWeak ts = 0"
  using assms(1)
proof (cases rule: lr_step_cases)
  case 1
  with assms(2) show ?thesis by simp
next
  case (2 p new)
  then show ?thesis using assms(2) cnt_update_add[of i ts lr_isWeak p] by (simp add: lr_isWeak_def)
next
  case (3 p new)
  then have "lr_isWeak p"
    by (cases "ts ! i"; auto simp: lr_weakStep_def lr_at_def lr_isWeak_def lr_isStrong_def
        split: if_splits lr_choice.splits option.splits)
  then show ?thesis using 3 assms(2) cnt_pos[of i "ts[i := p]" lr_isWeak] by simp
qed

lemma lr_solo_run_step:
  assumes "lr_inv ts sh" and "cnt lr_isWeak ts = 0 \<Longrightarrow> lr_solo ts sh"
    and "lr_step (i, ch) (ts, sh) = (ts', sh')" and "cnt lr_isWeak ts' = 0"
  shows "lr_solo ts' sh'"
proof -
  have w: "cnt lr_isWeak ts = 0" using assms(3,4) by (rule lr_isWeak_step)
  show ?thesis
    using assms(3)
  proof (cases rule: lr_step_cases)
    case 1
    with assms(2)[OF w] show ?thesis by simp
  next
    case (2 p new)
    with lr_solo_step[OF assms(1) assms(2)[OF w] w] assms(4) show ?thesis by blast
  next
    case (3 p new)
    with w show ?thesis by (auto simp: cnt_eq_0_iff lr_isWeak_def)
  qed
qed

lemma lr_run_snoc: "lr_run (sched @ [c]) = lr_step c (lr_run sched)"
  by (simp add: lr_run_def lr_steps_def)

lemma lr_run_append: "lr_run (sched @ cont) = lr_steps cont (lr_run sched)"
  by (simp add: lr_run_def lr_steps_def)

lemma lr_run_inv:
  "lr_run sched = (ts, sh) \<Longrightarrow> lr_inv ts sh \<and> (cnt lr_isWeak ts = 0 \<longrightarrow> lr_solo ts sh)"
proof (induction sched arbitrary: ts sh rule: rev_induct)
  case Nil
  then have "(ts, sh) = lr_start" by (simp add: lr_run_def lr_steps_def)
  moreover from this have "lr_solo ts sh"
    by (simp add: lr_start_def lr_solo_def lr_isCrash_def lr_isLast_def lr_holdsS_def)
  ultimately show ?case using lr_inv_start by (metis fst_conv snd_conv)
next
  case (snoc c sched)
  obtain i ch where c: "c = (i, ch)" by fastforce
  obtain ts0 sh0 where r: "lr_run sched = (ts0, sh0)" by fastforce
  then have st: "lr_step (i, ch) (ts0, sh0) = (ts, sh)"
    using snoc.prems by (simp add: lr_run_snoc c)
  have "lr_inv ts sh" using snoc.IH[OF r] lr_inv_step[OF _ st] by blast
  moreover have "lr_solo ts sh" if "cnt lr_isWeak ts = 0"
    using snoc.IH[OF r] lr_solo_run_step[OF _ _ st that] by simp
  ultimately show ?case by blast
qed

text \<open>The first element pushed on the freelist is written before the size covers it.\<close>

definition lr_wrote :: "lr_pc \<Rightarrow> bool" where
  "lr_wrote pc = (case pc of
      S_give g \<Rightarrow> (case g of G_inc \<Rightarrow> True | G_set _ \<Rightarrow> True | G_cell k \<Rightarrow> 0 < k | _ \<Rightarrow> False)
    | W_give g \<Rightarrow> (case g of G_inc \<Rightarrow> True | G_set _ \<Rightarrow> True | G_cell k \<Rightarrow> 0 < k | _ \<Rightarrow> False)
    | _ \<Rightarrow> False)"

definition lr_written :: "lr_pc list \<Rightarrow> lr_shared \<Rightarrow> bool" where
  "lr_written ts sh \<longleftrightarrow> (\<forall>pc \<in> set ts. lr_wrote pc \<longrightarrow> lr_cells sh 0 = Some 0) \<and>
     (0 < lr_size sh \<longrightarrow> lr_cells sh 0 = Some 0)"

lemma lr_written_update:
  assumes "lr_written ts sh" and "i < length ts"
    and "lr_wrote p \<Longrightarrow> lr_cells sh' 0 = Some 0" and "\<forall>pc \<in> set new. \<not> lr_wrote pc"
    and "lr_cells sh 0 = Some 0 \<Longrightarrow> lr_cells sh' 0 = Some 0"
    and "0 < lr_size sh' \<Longrightarrow> 0 < lr_size sh \<or> lr_wrote (ts ! i)"
  shows "lr_written (ts[i := p] @ new) sh'"
proof -
  have "0 < lr_size sh' \<longrightarrow> lr_cells sh' 0 = Some 0"
    using assms unfolding lr_written_def by (metis nth_mem)
  moreover have "lr_wrote pc \<longrightarrow> lr_cells sh' 0 = Some 0" if "pc \<in> set (ts[i := p] @ new)" for pc
    using that assms set_update_subset_insert[of ts i p] unfolding lr_written_def by auto
  ultimately show ?thesis unfolding lr_written_def by blast
qed

lemma lr_giveStep_written:
  assumes "lr_giveStep g sh = (r, sh')" and "0 < lr_size sh \<longrightarrow> lr_cells sh 0 = Some 0"
    and "lr_wrote (S_give g) \<longrightarrow> lr_cells sh 0 = Some 0"
  shows "(case r of Some d \<Rightarrow> lr_wrote (S_give d) \<longrightarrow> lr_cells sh' 0 = Some 0 | None \<Rightarrow> True) \<and>
    (lr_cells sh 0 = Some 0 \<longrightarrow> lr_cells sh' 0 = Some 0) \<and> (0 < lr_size sh' \<longrightarrow> 0 < lr_size sh \<or> lr_wrote (S_give g))"
  using assms by (cases g) (auto simp: lr_giveStep_def lr_wrote_def split: if_splits)

lemma lr_wrote_weak: "lr_wrote (W_give g) = lr_wrote (S_give g)"
  by (simp add: lr_wrote_def)

lemma lr_isStrong_give: "lr_isStrong (S_give g)" "\<not> lr_isStrong (W_give g)"
  by (simp_all add: lr_isStrong_def)

lemma lr_strongStep_unwritten:
  assumes "lr_strongStep ch q sh = (p, new, sh')" and "\<nexists>g. q = S_give g" and "\<nexists>g. q = W_give g"
  shows "lr_cells sh' = lr_cells sh \<and> lr_size sh' = lr_size sh \<and> \<not> lr_wrote p \<and> (\<forall>pc \<in> set new. \<not> lr_wrote pc)"
proof (cases q)
  case S_hold
  with assms show ?thesis by (cases ch) (auto simp: lr_strongStep_def lr_wrote_def)
next
  case (S_rel r)
  with assms show ?thesis
    by (cases r) (auto simp: lr_strongStep_def lr_relStep_def lr_wrote_def split: if_splits option.splits)
next
  case (S_clear c)
  with assms show ?thesis by (cases c) (auto simp: lr_strongStep_def lr_clearStep_def lr_at_def lr_wrote_def)
qed (use assms in \<open>auto simp: lr_strongStep_def lr_wrote_def split: if_splits\<close>)

lemma lr_weakStep_unwritten:
  assumes "lr_weakStep ch q sh = (p, new, sh')" and "\<nexists>g. q = W_give g" and "\<nexists>g. q = S_give g"
  shows "lr_cells sh' = lr_cells sh \<and> lr_size sh' = lr_size sh \<and> \<not> lr_wrote p \<and> (\<forall>pc \<in> set new. \<not> lr_wrote pc)"
proof (cases q)
  case W_hold
  with assms show ?thesis by (cases ch) (auto simp: lr_weakStep_def lr_wrote_def)
next
  case (W_clear c)
  with assms show ?thesis by (cases c) (auto simp: lr_weakStep_def lr_clearStep_def lr_at_def lr_wrote_def)
qed (use assms in \<open>auto simp: lr_weakStep_def lr_wrote_def split: if_splits\<close>)

lemma lr_written_strong:
  assumes w: "lr_written ts sh" and i: "i < length ts" and strong: "lr_isStrong (ts ! i)"
    and st: "lr_strongStep ch (ts ! i) sh = (p, new, sh')"
  shows "lr_written (ts[i := p] @ new) sh'"
proof (cases "\<exists>g. ts ! i = S_give g")
  case True
  then obtain g where g: "ts ! i = S_give g" by blast
  have "0 < lr_size sh \<longrightarrow> lr_cells sh 0 = Some 0" "lr_wrote (S_give g) \<longrightarrow> lr_cells sh 0 = Some 0"
    using w i g unfolding lr_written_def by (metis nth_mem)+
  from lr_giveStep_written[OF prod.collapse[symmetric] this] show ?thesis
    using st g by (intro lr_written_update[OF w i])
      (auto simp: lr_strongStep_def lr_at_def lr_wrote_def split: option.splits)
next
  case False
  then have "lr_cells sh' = lr_cells sh \<and> lr_size sh' = lr_size sh \<and> \<not> lr_wrote p \<and> (\<forall>pc \<in> set new. \<not> lr_wrote pc)"
    using lr_strongStep_unwritten[OF st] strong lr_isStrong_give by metis
  then show ?thesis by (intro lr_written_update[OF w i]) auto
qed

lemma lr_written_weak:
  assumes w: "lr_written ts sh" and i: "i < length ts" and weak: "\<not> lr_isStrong (ts ! i)"
    and st: "lr_weakStep ch (ts ! i) sh = (p, new, sh')"
  shows "lr_written (ts[i := p] @ new) sh'"
proof (cases "\<exists>g. ts ! i = W_give g")
  case True
  then obtain g where g: "ts ! i = W_give g" by blast
  have "0 < lr_size sh \<longrightarrow> lr_cells sh 0 = Some 0" "lr_wrote (S_give g) \<longrightarrow> lr_cells sh 0 = Some 0"
    using w i lr_wrote_weak[of g] g unfolding lr_written_def by (metis nth_mem)+
  from lr_giveStep_written[OF prod.collapse[symmetric] this] show ?thesis
    using st g by (intro lr_written_update[OF w i])
      (auto simp: lr_weakStep_def lr_at_def lr_wrote_def split: option.splits)
next
  case False
  then have "lr_cells sh' = lr_cells sh \<and> lr_size sh' = lr_size sh \<and> \<not> lr_wrote p \<and> (\<forall>pc \<in> set new. \<not> lr_wrote pc)"
    using lr_weakStep_unwritten[OF st] weak lr_isStrong_give by metis
  then show ?thesis by (intro lr_written_update[OF w i]) auto
qed

lemma lr_run_written: "lr_run sched = (ts, sh) \<Longrightarrow> lr_written ts sh"
proof (induction sched arbitrary: ts sh rule: rev_induct)
  case Nil
  then show ?case by (auto simp: lr_run_def lr_steps_def lr_start_def lr_written_def lr_wrote_def)
next
  case (snoc c sched)
  obtain i ch where c: "c = (i, ch)" by fastforce
  obtain ts0 sh0 where r: "lr_run sched = (ts0, sh0)" by fastforce
  then have "lr_step (i, ch) (ts0, sh0) = (ts, sh)"
    using snoc.prems by (simp add: lr_run_snoc c)
  then show ?case
    by (cases rule: lr_step_cases)
      (use snoc.IH[OF r] lr_written_strong lr_written_weak in auto)
qed

definition lr_finished :: "lr_pc list \<Rightarrow> bool" where
  "lr_finished ts \<longleftrightarrow> list_all (\<lambda>pc. pc = S_done \<or> pc = W_done) ts"

lemma lr_finished_counts:
  assumes "lr_finished ts"
  shows "cnt lr_holdsS ts = 0" "cnt lr_holdsW ts = 0" "cnt lr_willGive ts = 0" "cnt lr_isLast ts = 0"
    "cnt lr_isCrash ts = 0"
  using assms by (auto simp: lr_finished_def list_all_iff cnt_eq_0_iff lr_pc_defs)

lemma lr_solo_unfinished:
  assumes inv: "lr_inv ts sh" and solo: "lr_solo ts sh" and "\<forall>pc \<in> set ts. lr_isStrong pc"
    and "\<not> lr_finished ts"
  shows "lr_size sh = 0"
proof -
  obtain pc where pc: "pc \<in> set ts" "pc \<noteq> S_done" "lr_isStrong pc" "pc \<noteq> S_crash"
    using assms by (auto simp: lr_finished_def list_all_iff lr_solo_def cnt_eq_0_iff lr_isCrash_def)
  consider "lr_holdsS pc" | "lr_isLast pc"
    using pc(2-4) by (cases pc) (auto simp: lr_pc_defs)
  then show ?thesis
  proof cases
    case 1
    then have "0 < cnt lr_holdsS ts" using pc(1) cnt_pos_iff by blast
    then show ?thesis using inv by (simp add: lr_inv_def)
  next
    case 2
    then have "lr_phase pc sh" using solo pc(1) by (simp add: lr_solo_def)
    then show ?thesis
      using 2 by (auto simp: lr_phase_def lr_isLast_def lr_unreturned_def lr_givePhase_def
          split: lr_pc.splits lr_give.splits)
  qed
qed

section \<open>A thread on its own\<close>

definition lr_give_rank :: "lr_give \<Rightarrow> nat" where
  "lr_give_rank g = (case g of G_valid \<Rightarrow> 7 | G_load \<Rightarrow> 6 | G_store _ \<Rightarrow> 5 | G_size \<Rightarrow> 4 | G_cell _ \<Rightarrow> 3
     | G_inc \<Rightarrow> 2 | G_set _ \<Rightarrow> 1)"

definition lr_clear_rank :: "lr_clr \<Rightarrow> nat" where
  "lr_clear_rank c = (case c of C_handle \<Rightarrow> 12 | C_ptr \<Rightarrow> 11 | C_pool \<Rightarrow> 10)"

definition lr_rel_rank :: "lr_rel \<Rightarrow> nat" where
  "lr_rel_rank r = (case r of R_handle \<Rightarrow> 17 | R_pool \<Rightarrow> 16 | R_pool2 \<Rightarrow> 15 | R_handle2 \<Rightarrow> 14 | R_call _ \<Rightarrow> 13)"

text \<open>The number of steps a thread still needs when no other thread runs.\<close>

definition lr_rank :: "lr_pc \<Rightarrow> lr_shared \<Rightarrow> nat" where
  "lr_rank pc sh =
     (case pc of
        S_hold \<Rightarrow> 20 | S_loaded c \<Rightarrow> (if c = lr_strong sh then 18 else 19) | S_rel r \<Rightarrow> lr_rel_rank r
      | S_clear c \<Rightarrow> lr_clear_rank c | S_ckS \<Rightarrow> 9 | S_ckW \<Rightarrow> 8 | S_give g \<Rightarrow> lr_give_rank g
      | S_done \<Rightarrow> 0 | S_crash \<Rightarrow> 0
      | W_hold \<Rightarrow> 17 | W_lock c \<Rightarrow> (if c = lr_strong sh then 18 else 19)
      | W_loaded c \<Rightarrow> (if c = lr_weak sh then 15 else 16) | W_ckS \<Rightarrow> 14 | W_ckW \<Rightarrow> 13
      | W_clear c \<Rightarrow> lr_clear_rank c | W_ck2S \<Rightarrow> 9 | W_ck2W \<Rightarrow> 8 | W_give g \<Rightarrow> lr_give_rank g | W_done \<Rightarrow> 0)"

lemmas lr_rank_defs = lr_rank_def lr_rel_rank_def lr_clear_rank_def lr_give_rank_def

definition lr_isLock :: "lr_pc \<Rightarrow> bool" where
  "lr_isLock pc = (case pc of W_lock _ \<Rightarrow> True | _ \<Rightarrow> False)"

lemma lr_rank_strong:
  assumes "lr_isStrong pc" and "0 < lr_rank pc sh" and "lr_strongStep Go pc sh = (p, new, sh')"
  shows "lr_rank p sh' < lr_rank pc sh \<and> new = [] \<and> \<not> lr_isLock p"
proof (cases pc)
  case (S_rel r)
  with assms show ?thesis
    by (cases r) (auto simp: lr_strongStep_def lr_relStep_def lr_rank_defs lr_isLock_def split: if_splits option.splits)
next
  case (S_clear c)
  with assms show ?thesis
    by (cases c) (auto simp: lr_strongStep_def lr_clearStep_def lr_at_def lr_rank_defs lr_isLock_def)
next
  case (S_give g)
  with assms show ?thesis
    by (cases g) (auto simp: lr_strongStep_def lr_giveStep_def lr_at_def lr_rank_defs lr_isLock_def split: if_splits)
qed (use assms in \<open>auto simp: lr_strongStep_def lr_rank_defs lr_isStrong_def lr_isLock_def split: if_splits\<close>)

lemma lr_rank_weak:
  assumes "\<not> lr_isStrong pc" and "0 < lr_rank pc sh" and "lr_weakStep Go pc sh = (p, new, sh')"
  shows "lr_rank p sh' < lr_rank pc sh \<and> (new = [] \<or> lr_isLock pc \<and> length new = 1) \<and>
    (lr_isLock p \<longrightarrow> new = [] \<and> lr_isLock pc)"
proof (cases pc)
  case (W_clear c)
  with assms show ?thesis
    by (cases c) (auto simp: lr_weakStep_def lr_clearStep_def lr_at_def lr_rank_defs lr_isLock_def)
next
  case (W_give g)
  with assms show ?thesis
    by (cases g) (auto simp: lr_weakStep_def lr_giveStep_def lr_at_def lr_rank_defs lr_isLock_def split: if_splits)
qed (use assms in \<open>auto simp: lr_weakStep_def lr_rank_defs lr_isStrong_def lr_isLock_def split: if_splits\<close>)

lemma lr_rank_step:
  assumes "i < length ts" and "length ts < 2 ^ 32" and "lr_isLock (ts ! i) \<Longrightarrow> Suc (length ts) < 2 ^ 32"
    and "0 < lr_rank (ts ! i) sh" and "lr_step (i, Go) (ts, sh) = (ts', sh')"
  shows "lr_rank (ts' ! i) sh' < lr_rank (ts ! i) sh \<and> i < length ts' \<and> length ts' < 2 ^ 32 \<and>
    (lr_isLock (ts' ! i) \<longrightarrow> Suc (length ts') < 2 ^ 32)"
proof -
  obtain p new sh1 where st: "(if lr_isStrong (ts ! i) then lr_strongStep Go (ts ! i) sh
      else lr_weakStep Go (ts ! i) sh) = (p, new, sh1)"
    using prod_cases3 by blast
  have r: "lr_rank p sh1 < lr_rank (ts ! i) sh" "new = [] \<or> lr_isLock (ts ! i) \<and> length new = 1"
    "lr_isLock p \<Longrightarrow> new = [] \<and> lr_isLock (ts ! i)"
    using st lr_rank_strong[of "ts ! i" sh p new sh1] lr_rank_weak[of "ts ! i" sh p new sh1] assms(4)
    by (auto split: if_splits)
  have len: "length ts + length new < 2 ^ 32" using r(2) assms(2,3) by auto
  have "ts' = ts[i := p] @ new" "sh' = sh1"
    using assms(1,5) st len by (simp_all add: lr_step_def)
  then show ?thesis using r len assms(1,3) by (auto simp: nth_append)
qed

lemma lr_alone:
  assumes "i < length ts" and "length ts < 2 ^ 32" and "lr_isLock (ts ! i) \<Longrightarrow> Suc (length ts) < 2 ^ 32"
  shows "\<exists>n \<le> lr_rank (ts ! i) sh. i < length (fst (lr_steps (replicate n (i, Go)) (ts, sh))) \<and>
    fst (lr_steps (replicate n (i, Go)) (ts, sh)) ! i \<in> {S_done, W_done, S_crash}"
  using assms
proof (induction "lr_rank (ts ! i) sh" arbitrary: ts sh rule: less_induct)
  case less
  show ?case
  proof (cases "lr_rank (ts ! i) sh = 0")
    case True
    then have "ts ! i \<in> {S_done, W_done, S_crash}"
      by (auto simp: lr_rank_defs split: lr_pc.splits lr_rel.splits lr_clr.splits lr_give.splits if_splits)
    then show ?thesis using less.prems by (intro exI[of _ 0]) (simp add: lr_steps_def)
  next
    case False
    obtain ts' sh' where st: "lr_step (i, Go) (ts, sh) = (ts', sh')" by fastforce
    have r: "lr_rank (ts' ! i) sh' < lr_rank (ts ! i) sh" "i < length ts'" "length ts' < 2 ^ 32"
      "lr_isLock (ts' ! i) \<Longrightarrow> Suc (length ts') < 2 ^ 32"
      using lr_rank_step[OF less.prems _ st] False by auto
    from less.hyps[OF r] obtain n where "n \<le> lr_rank (ts' ! i) sh'"
      "i < length (fst (lr_steps (replicate n (i, Go)) (ts', sh')))"
      "fst (lr_steps (replicate n (i, Go)) (ts', sh')) ! i \<in> {S_done, W_done, S_crash}"
      by blast
    then show ?thesis using r(1) st by (intro exI[of _ "Suc n"]) (simp add: lr_steps_def)
  qed
qed

section \<open>Two threads\<close>

text \<open>A state in which thread \<open>i\<close> is about to release the only strong lease, thread \<open>j\<close> the only weak
  one, and every other thread has finished.\<close>

definition lr_duel :: "nat \<Rightarrow> nat \<Rightarrow> lr_pc list \<Rightarrow> bool" where
  "lr_duel i j ts \<longleftrightarrow> i < length ts \<and> j < length ts \<and> i \<noteq> j \<and> ts ! i = S_hold \<and> ts ! j = W_hold \<and>
     lr_finished (ts[i := S_done, j := W_done])"

definition lr_duelStep :: "bool \<Rightarrow> lr_pc \<times> lr_pc \<times> lr_shared \<Rightarrow> lr_pc \<times> lr_pc \<times> lr_shared" where
  "lr_duelStep b = (\<lambda>(p, q, sh).
     if b then let (p', new, sh') = lr_strongStep Go p sh in (p', q, sh')
     else let (q', new, sh') = lr_weakStep Go q sh in (p, q', sh'))"

definition lr_duelRun :: "bool list \<Rightarrow> lr_pc \<times> lr_pc \<times> lr_shared \<Rightarrow> lr_pc \<times> lr_pc \<times> lr_shared" where
  "lr_duelRun bs s = foldl (\<lambda>s b. lr_duelStep b s) s bs"

text \<open>\<open>True\<close> is a step of thread \<open>i\<close>, \<open>False\<close> one of thread \<open>j\<close>.\<close>

definition lr_turns :: "nat \<Rightarrow> nat \<Rightarrow> bool list \<Rightarrow> (nat \<times> lr_choice) list" where
  "lr_turns i j bs = map (\<lambda>b. (if b then i else j, Go)) bs"

lemma lr_strong_stays:
  assumes "lr_isStrong p" and "lr_strongStep Go p sh = (p', new, sh')"
  shows "lr_isStrong p' \<and> new = []"
  using assms by (cases p) (auto simp: lr_strongStep_def lr_relStep_def lr_at_def lr_isStrong_def
      split: if_splits option.splits lr_rel.splits)

lemma lr_weak_stays:
  assumes "\<not> lr_isStrong q" and "\<not> lr_isLock q" and "lr_weakStep Go q sh = (q', new, sh')"
  shows "\<not> lr_isStrong q' \<and> \<not> lr_isLock q' \<and> new = []"
  using assms by (cases q) (auto simp: lr_weakStep_def lr_at_def lr_isStrong_def lr_isLock_def
      split: if_splits option.splits)

lemma lr_duel_step:
  assumes ij: "i < length ts" "j < length ts" "i \<noteq> j" "length ts < 2 ^ 32"
    and pq: "lr_isStrong p" "\<not> lr_isStrong q" "\<not> lr_isLock q"
    and d: "lr_duelStep b (p, q, sh) = (p', q', sh')"
  shows "lr_step (if b then i else j, Go) (ts[i := p, j := q], sh) = (ts[i := p', j := q'], sh') \<and>
    lr_isStrong p' \<and> \<not> lr_isStrong q' \<and> \<not> lr_isLock q'"
proof (cases b)
  case True
  obtain p1 new sh1 where st: "lr_strongStep Go p sh = (p1, new, sh1)" using prod_cases3 by blast
  have "ts[i := p, j := q, i := p1] = ts[i := p1, j := q]"
    using ij(3) by (simp add: list_update_swap)
  then show ?thesis
    using True d pq ij st lr_strong_stays[OF pq(1) st] by (simp add: lr_duelStep_def lr_step_def)
next
  case False
  obtain q1 new sh1 where st: "lr_weakStep Go q sh = (q1, new, sh1)" using prod_cases3 by blast
  show ?thesis
    using False d pq ij st lr_weak_stays[OF pq(2,3) st] by (simp add: lr_duelStep_def lr_step_def)
qed

lemma lr_duel_steps:
  assumes ij: "i < length ts" "j < length ts" "i \<noteq> j" "length ts < 2 ^ 32"
  shows "lr_isStrong p \<Longrightarrow> \<not> lr_isStrong q \<Longrightarrow> \<not> lr_isLock q \<Longrightarrow>
    lr_duelRun bs (p, q, sh) = (p', q', sh') \<Longrightarrow>
    lr_steps (lr_turns i j bs) (ts[i := p, j := q], sh) = (ts[i := p', j := q'], sh')"
proof (induction bs arbitrary: p q sh)
  case Nil
  then show ?case by (simp add: lr_duelRun_def lr_steps_def lr_turns_def)
next
  case (Cons b bs)
  obtain p1 q1 sh1 where st: "lr_duelStep b (p, q, sh) = (p1, q1, sh1)" using prod_cases3 by blast
  note one = lr_duel_step[OF ij Cons.prems(1-3) st]
  moreover have "lr_duelRun bs (p1, q1, sh1) = (p', q', sh')"
    using Cons.prems(4) st by (simp add: lr_duelRun_def)
  ultimately have "lr_steps (lr_turns i j bs) (ts[i := p1, j := q1], sh1) = (ts[i := p', j := q'], sh')"
    using Cons.IH by blast
  with one show ?case by (simp add: lr_steps_def lr_turns_def)
qed

text \<open>The five schedules of interest, from the state in which both leases are held.\<close>

definition lr_held :: "lr_shared \<Rightarrow> bool" where
  "lr_held sh \<longleftrightarrow> lr_strong sh = 1 \<and> lr_weak sh = 1 \<and> lr_bound sh \<and> lr_payload_returns sh = 0 \<and>
     lr_generation sh = 0 \<and> lr_size sh = 0"

lemmas lr_duel_eval = lr_duelRun_def lr_duelStep_def lr_strongStep_def lr_weakStep_def lr_relStep_def
  lr_clearStep_def lr_giveStep_def lr_at_def lr_setStrong_def lr_setWeak_def lr_pushed_def

lemma lr_held_record:
  assumes "lr_held sh"
  obtains h p f where "handle_isValid h"
    "sh = \<lparr>lr_cb = \<lparr>shcb_strong = 1, shcb_weak = 1, shcb_handle = h, shcb_ptr = p, shcb_pool = Some ()\<rparr>,
       lr_payload_returns = 0, lr_generation = 0, lr_cells = f, lr_size = 0\<rparr>"
  using assms by (cases sh; cases "lr_cb sh") (auto simp: lr_held_def lr_bound_def)

lemma lr_duel_good:
  assumes "lr_held sh"
  shows "\<exists>sh'. lr_duelRun (replicate 12 True @ replicate 16 False) (S_hold, W_hold, sh) = (S_done, W_done, sh') \<and>
    lr_payload_returns sh' = 1 \<and> lr_pushed sh' = [Some 0]"
  using assms by (elim lr_held_record) (simp add: lr_duel_eval eval_nat_numeral)

lemma lr_duel_lost:
  assumes "lr_held sh"
  shows "\<exists>sh'. lr_duelRun (replicate 2 True @ replicate 16 False @ replicate 4 True) (S_hold, W_hold, sh) =
      (S_done, W_done, sh') \<and> lr_payload_returns sh' = 0 \<and> lr_pushed sh' = [Some 0]"
  using assms by (elim lr_held_record) (simp add: lr_duel_eval eval_nat_numeral)

lemma lr_duel_twice:
  assumes "lr_held sh"
  shows "\<exists>sh'. lr_duelRun (replicate 10 True @ replicate 2 False @ replicate 3 True @ replicate 8 False @
      replicate 6 True @ replicate 6 False) (S_hold, W_hold, sh) = (S_done, W_done, sh') \<and>
    lr_payload_returns sh' = 1 \<and> lr_pushed sh' = [Some 0, Some 0]"
  using assms by (elim lr_held_record) (simp add: lr_duel_eval eval_nat_numeral)

lemma lr_duel_crash:
  assumes "lr_held sh"
  shows "\<exists>q sh'. lr_duelRun (replicate 2 True @ replicate 2 False @ replicate 2 True @ replicate 5 False @ [True])
      (S_hold, W_hold, sh) = (S_crash, q, sh')"
  using assms by (elim lr_held_record) (simp add: lr_duel_eval eval_nat_numeral)

lemma lr_duel_late:
  assumes "lr_held sh"
  shows "\<exists>sh'. lr_duelRun (replicate 10 True @ replicate 4 False @ replicate 9 True) (S_hold, W_hold, sh) =
      (S_done, W_clear C_handle, sh') \<and> lr_pushed sh' = [Some 0]"
  using assms by (elim lr_held_record) (simp add: lr_duel_eval eval_nat_numeral)

lemma lr_duel_held:
  assumes run: "lr_run sched = (ts, sh)" and d: "lr_duel i j ts"
  shows "lr_held sh" "length ts < 2 ^ 32" "ts[i := S_hold, j := W_hold] = ts"
proof -
  have inv: "lr_inv ts sh" using lr_run_inv[OF run] by blast
  from d have ij: "i < length ts" "j < length ts" "i \<noteq> j" "ts ! i = S_hold" "ts ! j = W_hold"
    and fin: "lr_finished (ts[i := S_done, j := W_done])"
    unfolding lr_duel_def by simp_all
  have two: "cnt Q (ts[i := S_done, j := W_done]) + (if Q S_hold then 1 else 0) + (if Q W_hold then 1 else 0) =
      cnt Q ts + (if Q S_done then 1 else 0) + (if Q W_done then 1 else 0)" for Q
    using cnt_update_add[of i ts Q S_done] cnt_update_add[of j "ts[i := S_done]" Q W_done] ij by simp
  have "cnt lr_holdsS ts = 1" "cnt lr_holdsW ts = 1"
    using two[of lr_holdsS] two[of lr_holdsW] lr_finished_counts(1,2)[OF fin]
    by (simp_all add: lr_holdsS_def lr_holdsW_def)
  then show "lr_held sh"
    using inv lr_counts(3,4)[OF inv] by (simp add: lr_held_def lr_inv_def)
  show "length ts < 2 ^ 32" using inv by (simp add: lr_inv_def)
  show "ts[i := S_hold, j := W_hold] = ts" using ij by (metis list_update_id)
qed

text \<open>Each of the schedules is a continuation of the run.\<close>

lemma lr_duel_run:
  assumes run: "lr_run sched = (ts, sh)" and d: "lr_duel i j ts"
    and "lr_duelRun bs (S_hold, W_hold, sh) = (p, q, sh')"
  shows "lr_run (sched @ lr_turns i j bs) = (ts[i := p, j := q], sh')"
  using lr_duel_steps[of i ts j S_hold W_hold bs sh p q sh'] lr_duel_held[OF run d] d assms(3) run
  by (simp add: lr_run_append lr_duel_def lr_isStrong_def lr_isLock_def)

lemma lr_duel_cont:
  assumes "lr_run sched = (ts, sh)" and "lr_duel i j ts"
    and "lr_duelRun bs (S_hold, W_hold, sh) = (p, q, sh')" and "P (ts[i := p, j := q]) sh'"
  shows "\<exists>cont. case lr_run (sched @ cont) of (ts', sh') \<Rightarrow> P ts' sh'"
  using lr_duel_run[OF assms(1-3)] assms(4) by (intro exI[of _ "lr_turns i j bs"]) simp

section \<open>Properties\<close>

lemma cnt_bex: "(\<exists>pc \<in> set ts. Q pc) \<longleftrightarrow> 0 < cnt Q ts"
  by (rule cnt_pos_iff[symmetric])

text \<open>
  C27: safety of concurrent release.  In every interleaving of threads that copy, observe, lock and
  release leases of one shared control block during one life of it, with every access to a shared
  variable a step of its own: as long as some thread holds a strong lease, the payload is bound and has not been given back;
  as long as some thread holds a strong or weak lease, the block is not on the freelist and its handle
  has its generation; and the payload is given back at most once.
\<close>

theorem lr_release_safe:
  assumes "lr_run sched = (ts, sh)"
  shows "((\<exists>pc \<in> set ts. lr_holdsS pc) \<longrightarrow> lr_bound sh \<and> lr_payload_returns sh = 0) \<and>
    ((\<exists>pc \<in> set ts. lr_holdsS pc \<or> lr_holdsW pc) \<longrightarrow> lr_size sh = 0 \<and> lr_generation sh = 0) \<and>
    lr_payload_returns sh \<le> 1"
proof -
  have "lr_inv ts sh" using lr_run_inv[OF assms] by blast
  then show ?thesis
    by (simp add: lr_inv_def bex_disj_distrib cnt_bex)
qed

theorem lr_release_safe_witness:
  "case lr_run [(0, CopyLease), (0, Observe), (1, Go), (1, Go)] of (ts, sh) \<Rightarrow>
     ts = [S_hold, S_done, W_hold] \<and> lr_bound sh \<and> lr_payload_returns sh = 0 \<and> lr_size sh = 0"
proof -
  obtain ts sh where r: "lr_run [(0, CopyLease), (0, Observe), (1, Go), (1, Go)] = (ts, sh)"
    by fastforce
  have "fst (lr_run [(0, CopyLease), (0, Observe), (1, Go), (1, Go)]) = [S_hold, S_done, W_hold]"
    by code_simp
  with lr_release_safe[OF r] r show ?thesis by (auto simp: lr_holdsS_def lr_holdsW_def)
qed

text \<open>
  C28: the control block is recycled.  Whatever the interleaving, once every thread has returned both
  counts are 0 and the block is on the freelist.  If only strong leases were made, no thread crashes;
  the block is on the freelist exactly once, with the payload given back exactly once, when all
  threads have returned; and before that it is not there at all, so whoever takes the block off the
  freelist finds no thread that still works on it.
\<close>

theorem lr_control_block_returned:
  assumes "lr_run sched = (ts, sh)"
  shows "(lr_finished ts \<longrightarrow> Some 0 \<in> set (lr_pushed sh) \<and> lr_strong sh = 0 \<and> lr_weak sh = 0) \<and>
    ((\<forall>pc \<in> set ts. lr_isStrong pc) \<longrightarrow>
       S_crash \<notin> set ts \<and> (if lr_finished ts then lr_recycled sh else lr_pushed sh = []))"
proof (intro conjI impI)
  note inv = lr_run_inv[OF assms]
  assume fin: "lr_finished ts"
  have "0 < lr_size sh" "lr_cells sh 0 = Some 0"
    using inv lr_finished_counts[OF fin] lr_run_written[OF assms] by (auto simp: lr_inv_def lr_written_def)
  then show "Some 0 \<in> set (lr_pushed sh)" by (force simp: lr_pushed_def)
  show "lr_strong sh = 0" "lr_weak sh = 0"
    using lr_counts[OF conjunct1[OF inv]] lr_finished_counts[OF fin] by simp_all
next
  assume strong: "\<forall>pc \<in> set ts. lr_isStrong pc"
  have inv: "lr_inv ts sh" and solo: "lr_solo ts sh"
    using lr_run_inv[OF assms] strong by (auto simp: cnt_eq_0_iff lr_isWeak_def)
  show "S_crash \<notin> set ts"
    using solo by (auto simp: lr_solo_def cnt_eq_0_iff lr_isCrash_def)
  show "if lr_finished ts then lr_recycled sh else lr_pushed sh = []"
  proof (cases "lr_finished ts")
    case True
    then show ?thesis using solo lr_finished_counts(1,4)[OF True] by (simp add: lr_solo_def)
  next
    case False
    then show ?thesis using lr_solo_unfinished[OF inv solo strong] by (simp add: lr_pushed_def)
  qed
qed

theorem lr_control_block_returned_witness:
  "case lr_run ((0, CopyLease) # replicate 2 (0, Go) @ replicate 19 (1, Go)) of (ts, sh) \<Rightarrow>
     lr_finished ts \<and> lr_payload_returns sh = 1 \<and> lr_pushed sh = [Some 0]"
proof -
  let ?sched = "(0, CopyLease) # replicate 2 (0, Go) @ replicate 19 (1, Go)"
  have "lr_finished (fst (lr_run ?sched))" "\<forall>pc \<in> set (fst (lr_run ?sched)). lr_isStrong pc"
    by code_simp+
  then show ?thesis
    using lr_control_block_returned[of ?sched "fst (lr_run ?sched)" "snd (lr_run ?sched)"]
    by (auto simp: lr_recycled_def split: prod.splits)
qed

text \<open>
  C29: with a weak lease the release has a race.  From every reachable state in which one thread holds
  the last strong lease, another the last weak one and all others have returned, the two releases can
  go right, but they can also end with the payload never given back to its pool; with the block twice
  on the freelist, so that two later leases get the same block; with a call through the payload pool
  pointer after it was set to null; and with the block on the freelist while the weak release has yet
  to clear its payload binding.
\<close>

theorem lr_weak_race:
  assumes "lr_run sched = (ts, sh)" and "lr_duel i j ts"
  shows "(\<exists>cont. case lr_run (sched @ cont) of (ts', sh') \<Rightarrow>
        lr_finished ts' \<and> lr_payload_returns sh' = 1 \<and> lr_pushed sh' = [Some 0]) \<and>
    (\<exists>cont. case lr_run (sched @ cont) of (ts', sh') \<Rightarrow>
        lr_finished ts' \<and> lr_payload_returns sh' = 0) \<and>
    (\<exists>cont. case lr_run (sched @ cont) of (ts', sh') \<Rightarrow>
        lr_finished ts' \<and> lr_pushed sh' = [Some 0, Some 0]) \<and>
    (\<exists>cont. case lr_run (sched @ cont) of (ts', sh') \<Rightarrow> ts' ! i = S_crash) \<and>
    (\<exists>cont. case lr_run (sched @ cont) of (ts', sh') \<Rightarrow>
        ts' ! j = W_clear C_handle \<and> lr_pushed sh' = [Some 0])"
proof (intro conjI)
  note held = lr_duel_held(1)[OF assms] and cont = lr_duel_cont[OF assms]
  have ij: "i < length ts" "j < length ts" "i \<noteq> j" and fin: "lr_finished (ts[i := S_done, j := W_done])"
    using assms(2) by (simp_all add: lr_duel_def)
  show "\<exists>cont. case lr_run (sched @ cont) of (ts', sh') \<Rightarrow>
        lr_finished ts' \<and> lr_payload_returns sh' = 1 \<and> lr_pushed sh' = [Some 0]"
    using lr_duel_good[OF held] fin by (elim exE conjE) (rule cont, assumption, simp)
  show "\<exists>cont. case lr_run (sched @ cont) of (ts', sh') \<Rightarrow> lr_finished ts' \<and> lr_payload_returns sh' = 0"
    using lr_duel_lost[OF held] fin by (elim exE conjE) (rule cont, assumption, simp)
  show "\<exists>cont. case lr_run (sched @ cont) of (ts', sh') \<Rightarrow>
        lr_finished ts' \<and> lr_pushed sh' = [Some 0, Some 0]"
    using lr_duel_twice[OF held] fin by (elim exE conjE) (rule cont, assumption, simp)
  show "\<exists>cont. case lr_run (sched @ cont) of (ts', sh') \<Rightarrow> ts' ! i = S_crash"
    using lr_duel_crash[OF held] ij by (elim exE conjE) (rule cont, assumption, simp)
  show "\<exists>cont. case lr_run (sched @ cont) of (ts', sh') \<Rightarrow>
        ts' ! j = W_clear C_handle \<and> lr_pushed sh' = [Some 0]"
    using lr_duel_late[OF held] ij by (elim exE conjE) (rule cont, assumption, simp)
qed

theorem lr_weak_race_witness:
  "\<exists>cont. case lr_run ((0, Observe) # cont) of (ts, sh) \<Rightarrow> lr_finished ts \<and> lr_payload_returns sh = 0"
proof -
  have "lr_duel 0 1 (fst (lr_run [(0, Observe)]))" by code_simp
  from lr_weak_race[OF prod.collapse[symmetric] this] show ?thesis by (metis append_Cons append_Nil)
qed

text \<open>
  C14: a release always returns.  From every reachable state, a thread that runs alone and whose
  exchanges do not fail spuriously returns from its release after at most 20 steps, or has called
  through a null pool pointer: no other thread has to do anything for it.
\<close>

theorem lr_release_returns:
  assumes "lr_run sched = (ts, sh)" and "i < length ts" and "Suc (length ts) < 2 ^ 32"
  shows "\<exists>n \<le> 20. case lr_run (sched @ replicate n (i, Go)) of (ts', sh') \<Rightarrow>
    i < length ts' \<and> ts' ! i \<in> {S_done, W_done, S_crash}"
proof -
  have "lr_rank (ts ! i) sh \<le> 20"
    by (auto simp: lr_rank_defs split: lr_pc.splits lr_rel.splits lr_clr.splits lr_give.splits)
  moreover obtain n where "n \<le> lr_rank (ts ! i) sh"
    "i < length (fst (lr_steps (replicate n (i, Go)) (ts, sh)))"
    "fst (lr_steps (replicate n (i, Go)) (ts, sh)) ! i \<in> {S_done, W_done, S_crash}"
    using lr_alone[of i ts sh] assms(2,3) by auto
  ultimately show ?thesis
    using assms(1) by (intro exI[of _ n]) (simp add: lr_run_append split_beta)
qed

theorem lr_release_returns_witness:
  "\<exists>n \<le> 20. case lr_run ([(0, Observe), (0, Go)] @ replicate n (0, Go)) of (ts', sh') \<Rightarrow>
    0 < length ts' \<and> ts' ! 0 \<in> {S_done, W_done, S_crash}"
proof -
  have "length (fst (lr_run [(0, Observe), (0, Go)])) = 2" by code_simp
  then show ?thesis
    using lr_release_returns[OF prod.collapse[symmetric], of 0 "[(0, Observe), (0, Go)]"] by simp
qed
end
