(* ===== verification/SegregatePool.thy ===== *)
theory SegregatePool
  imports HeapVector
begin

text \<open>
  The segregated-fit allocator, \<open>execution/allocator/pool/segregate_pool.h\<close>, with the policies it is
  built from: \<open>size_class_utils.h\<close>, \<open>policies/fast_free\<close>, \<open>policies/chunk_locator/direct_chunk_locator.h\<close>,
  \<open>policies/freelist/host_stack_freelist_policy.h\<close>, \<open>policies/reuse/deferred_reuse_policy.h\<close> and
  \<open>policies/large_alloc/direct_resource_large_alloc.h\<close>.  The memory resource and its completion of
  reuse tokens are arguments; \<open>'r\<close> is the state of the resource, \<open>'t\<close> a reuse token.  Vectors are
  lists (theory \<open>HeapVector\<close>), their back is the last element.  Sizes are natural numbers: the code's
  \<open>size_t\<close> computations do not wrap for sizes up to \<open>2^62\<close>.  Handles and the use counters keep their
  32 bits.  Locks, statistics and debug records are not modelled.
\<close>

unbundle bit_operations_syntax

section \<open>Size classes\<close>

text \<open>\<open>std::bit_ceil\<close>, the smallest power of two not below the argument, and \<open>std::countr_zero\<close>.  On \<open>size_t\<close>
  the former is undefined above \<open>2^63\<close>; the block sizes that the pool computes stay below
  (theory \<open>SizeClasses\<close>, for a \<open>max_block_size\<close> of at most \<open>2^63\<close>).\<close>

definition sc_bit_ceil :: "nat \<Rightarrow> nat" where
  "sc_bit_ceil n = hv_double 1 n"

function sc_countr_zero :: "nat \<Rightarrow> nat" where
  "sc_countr_zero n = (if n = 0 then 64 else if odd n then 0 else Suc (sc_countr_zero (n div 2)))"
  by pat_completeness auto
termination
  by (relation "measure id") auto

declare sc_countr_zero.simps [simp del]

definition sc_sizeClassIndex :: "nat \<Rightarrow> nat \<Rightarrow> nat" where
  "sc_sizeClassIndex block_size min_block_size =
     (if block_size \<le> min_block_size then 0
      else sc_countr_zero (sc_bit_ceil block_size) - sc_countr_zero (sc_bit_ceil min_block_size))"

definition sc_sizeClassCount :: "nat \<Rightarrow> nat \<Rightarrow> nat" where
  "sc_sizeClassCount min_block_size max_block_size =
     (if max_block_size < min_block_size \<or> min_block_size = 0 then 0
      else sc_countr_zero (sc_bit_ceil max_block_size) - sc_countr_zero (sc_bit_ceil min_block_size) + 1)"

definition sc_sizeClassToBlockSize :: "nat \<Rightarrow> nat \<Rightarrow> nat" where
  "sc_sizeClassToBlockSize index min_block_size = sc_bit_ceil min_block_size * 2 ^ index"

definition ff_get_block_size :: "nat \<Rightarrow> nat \<Rightarrow> nat" where
  "ff_get_block_size min_block_size size_bytes = sc_bit_ceil (max min_block_size size_bytes)"

section \<open>Buffers and the resource\<close>

text \<open>\<open>allocate\<close> of the resource returns a view, which may be empty, or throws.\<close>

text \<open>A view is a base pointer (0 is null), an offset and a size.\<close>

record buffer_view =
  vw_base :: nat
  vw_offset :: nat
  vw_size :: nat

definition vw_none :: buffer_view where
  "vw_none = \<lparr>vw_base = 0, vw_offset = 0, vw_size = 0\<rparr>"

definition vw_empty :: "buffer_view \<Rightarrow> bool" where
  "vw_empty v \<longleftrightarrow> vw_base v = 0"

definition vw_make :: "buffer_view \<Rightarrow> nat \<Rightarrow> nat \<Rightarrow> buffer_view" where
  "vw_make base offset n = \<lparr>vw_base = vw_base base, vw_offset = offset, vw_size = n\<rparr>"

record buffer_block =
  bk_handle :: u32
  bk_view :: buffer_view

definition bk_invalidHandle :: u32 where
  "bk_invalidHandle = 0xFFFFFFFF"

definition bk_none :: buffer_block where
  "bk_none = \<lparr>bk_handle = bk_invalidHandle, bk_view = vw_none\<rparr>"

definition bk_valid :: "buffer_block \<Rightarrow> bool" where
  "bk_valid b \<longleftrightarrow> bk_handle b \<noteq> bk_invalidHandle \<and> \<not> vw_empty (bk_view b)"

record ('r, 't) resource =
  rs_allocate :: "nat \<Rightarrow> nat \<Rightarrow> 'r \<Rightarrow> buffer_view res \<times> 'r"
  rs_deallocate :: "buffer_view \<Rightarrow> nat \<Rightarrow> nat \<Rightarrow> 'r \<Rightarrow> 'r"
  rs_isCompleted :: "'r \<Rightarrow> 't \<Rightarrow> bool"

section \<open>Chunk locator\<close>

record chunk_info =
  ck_base :: buffer_view
  ck_size :: nat
  ck_alignment :: nat
  ck_used :: u32
  ck_pending :: u32
  ck_alive :: bool

definition ck_none :: chunk_info where
  "ck_none = \<lparr>ck_base = vw_none, ck_size = 0, ck_alignment = 0, ck_used = 0, ck_pending = 0, ck_alive = False\<rparr>"

record chunk_locator =
  lc_ready :: bool
  lc_chunks :: "chunk_info list"
  lc_free :: "nat list"

definition lc_kLargeMask :: u32 where
  "lc_kLargeMask = push_bit 31 1"

definition lc_kChunkMask :: u32 where
  "lc_kChunkMask = NOT lc_kLargeMask"

definition lc_encodeId :: "nat \<Rightarrow> u32" where
  "lc_encodeId slot = of_nat slot AND lc_kChunkMask"

definition lc_indexFromId :: "u32 \<Rightarrow> nat" where
  "lc_indexFromId handle = unat (handle AND lc_kChunkMask)"

definition lc_find :: "chunk_locator \<Rightarrow> u32 \<Rightarrow> nat option" where
  "lc_find l handle =
     (let slot = lc_indexFromId handle
      in if slot \<ge> length (lc_chunks l) then None
         else if ck_alive (lc_chunks l ! slot) then Some slot else None)"

definition lc_reserveSlot :: "chunk_locator \<Rightarrow> nat \<times> chunk_locator" where
  "lc_reserveSlot l =
     (if lc_free l \<noteq> [] then (last (lc_free l), l\<lparr>lc_free := butlast (lc_free l)\<rparr>)
      else (length (lc_chunks l), l\<lparr>lc_chunks := lc_chunks l @ [ck_none]\<rparr>))"

definition lc_addChunk ::
  "('r, 't) resource \<Rightarrow> nat \<Rightarrow> nat \<Rightarrow> chunk_locator \<times> 'r \<Rightarrow> buffer_block res \<times> chunk_locator \<times> 'r" where
  "lc_addChunk rs n alignment = (\<lambda>(l, r).
     if \<not> lc_ready l then (throw InvalidState, l, r)
     else if n = 0 then (throw InvalidParameter, l, r)
     else case rs_allocate rs n alignment r of (Inl e, r') \<Rightarrow> (Inl e, l, r') | (Inr base, r') \<Rightarrow>
       if vw_empty base then (Inr bk_none, l, r')
       else case lc_reserveSlot l of (slot, l') \<Rightarrow>
         (Inr \<lparr>bk_handle = lc_encodeId slot, bk_view = base\<rparr>,
          l'\<lparr>lc_chunks := (lc_chunks l')[slot :=
               \<lparr>ck_base = base, ck_size = n, ck_alignment = alignment, ck_used = 0, ck_pending = 0, ck_alive = True\<rparr>]\<rparr>,
          r'))"

definition lc_releaseChunk ::
  "('r, 't) resource \<Rightarrow> u32 \<Rightarrow> chunk_locator \<times> 'r \<Rightarrow> bool \<times> chunk_locator \<times> 'r" where
  "lc_releaseChunk rs handle = (\<lambda>(l, r).
     let slot = lc_indexFromId handle
     in if slot \<ge> length (lc_chunks l) \<or> \<not> lc_ready l then (False, l, r)
        else let chunk = lc_chunks l ! slot
             in if \<not> ck_alive chunk \<or> ck_used chunk \<noteq> 0 \<or> ck_pending chunk \<noteq> 0 then (False, l, r)
                else (True, l\<lparr>lc_chunks := (lc_chunks l)[slot := ck_none], lc_free := lc_free l @ [slot]\<rparr>,
                      rs_deallocate rs (ck_base chunk) (ck_size chunk) (ck_alignment chunk) r))"

definition lc_findChunkSize :: "chunk_locator \<Rightarrow> u32 \<Rightarrow> nat" where
  "lc_findChunkSize l handle = (case lc_find l handle of None \<Rightarrow> 0 | Some slot \<Rightarrow> ck_size (lc_chunks l ! slot))"

definition lc_findReleasable :: "chunk_locator \<Rightarrow> u32" where
  "lc_findReleasable l =
     (case find (\<lambda>i. ck_alive (lc_chunks l ! i) \<and> ck_used (lc_chunks l ! i) = 0 \<and> ck_pending (lc_chunks l ! i) = 0)
             [0..<length (lc_chunks l)] of
        None \<Rightarrow> bk_invalidHandle
      | Some i \<Rightarrow> lc_encodeId i)"

definition lc_modify :: "u32 \<Rightarrow> (chunk_info \<Rightarrow> chunk_info) \<Rightarrow> chunk_locator \<Rightarrow> chunk_locator" where
  "lc_modify handle f l =
     (case lc_find l handle of
        None \<Rightarrow> l
      | Some slot \<Rightarrow> l\<lparr>lc_chunks := (lc_chunks l)[slot := f (lc_chunks l ! slot)]\<rparr>)"

definition lc_incrementUsed :: "u32 \<Rightarrow> chunk_locator \<Rightarrow> chunk_locator" where
  "lc_incrementUsed handle = lc_modify handle (\<lambda>c. c\<lparr>ck_used := ck_used c + 1\<rparr>)"

definition lc_decrementUsed :: "u32 \<Rightarrow> chunk_locator \<Rightarrow> chunk_locator" where
  "lc_decrementUsed handle = lc_modify handle (\<lambda>c. if ck_used c > 0 then c\<lparr>ck_used := ck_used c - 1\<rparr> else c)"

definition lc_incrementPending :: "u32 \<Rightarrow> chunk_locator \<Rightarrow> chunk_locator" where
  "lc_incrementPending handle = lc_modify handle (\<lambda>c. c\<lparr>ck_pending := ck_pending c + 1\<rparr>)"

definition lc_decrementPending :: "u32 \<Rightarrow> chunk_locator \<Rightarrow> chunk_locator" where
  "lc_decrementPending handle = lc_modify handle (\<lambda>c. if ck_pending c > 0 then c\<lparr>ck_pending := ck_pending c - 1\<rparr> else c)"

definition lc_decrementPendingAndUsed :: "u32 \<Rightarrow> chunk_locator \<Rightarrow> chunk_locator" where
  "lc_decrementPendingAndUsed handle = lc_modify handle (\<lambda>c.
     let c = (if ck_pending c > 0 then c\<lparr>ck_pending := ck_pending c - 1\<rparr> else c)
     in if ck_used c > 0 then c\<lparr>ck_used := ck_used c - 1\<rparr> else c)"

definition lc_isAlive :: "chunk_locator \<Rightarrow> u32 \<Rightarrow> bool" where
  "lc_isAlive l handle \<longleftrightarrow> lc_find l handle \<noteq> None"

section \<open>Free lists\<close>

record host_freelist =
  fl_ready :: bool
  fl_stacks :: "buffer_block list list"

definition fl_ensureCapacity :: "nat \<Rightarrow> host_freelist \<Rightarrow> host_freelist" where
  "fl_ensureCapacity list_index f =
     (if list_index \<ge> length (fl_stacks f)
      then f\<lparr>fl_stacks := fl_stacks f @ replicate (list_index + 1 - length (fl_stacks f)) []\<rparr> else f)"

definition fl_push :: "nat \<Rightarrow> buffer_block \<Rightarrow> (host_freelist, unit) act" where
  "fl_push list_index block f =
     (if \<not> fl_ready f then (throw InvalidState, f)
      else let f = fl_ensureCapacity list_index f
           in (Inr (), f\<lparr>fl_stacks := (fl_stacks f)[list_index := fl_stacks f ! list_index @ [block]]\<rparr>))"

definition fl_pop :: "nat \<Rightarrow> (host_freelist, buffer_block) act" where
  "fl_pop list_index f =
     (if \<not> fl_ready f then (throw InvalidState, f)
      else if list_index \<ge> length (fl_stacks f) \<or> fl_stacks f ! list_index = [] then (Inr bk_none, f)
      else (Inr (last (fl_stacks f ! list_index)),
            f\<lparr>fl_stacks := (fl_stacks f)[list_index := butlast (fl_stacks f ! list_index)]\<rparr>))"

definition fl_empty :: "host_freelist \<Rightarrow> nat \<Rightarrow> bool" where
  "fl_empty f list_index \<longleftrightarrow> list_index \<ge> length (fl_stacks f) \<or> fl_stacks f ! list_index = []"

definition fl_total_free_blocks :: "host_freelist \<Rightarrow> nat" where
  "fl_total_free_blocks f = sum_list (map length (fl_stacks f))"

text \<open>\<open>expand\<close> cuts a chunk into blocks and pushes them in order of their offsets.\<close>

definition fl_expand :: "nat \<Rightarrow> buffer_block \<Rightarrow> nat \<Rightarrow> nat \<Rightarrow> (host_freelist, unit) act" where
  "fl_expand list_index chunk chunk_size block_size f =
     (if \<not> fl_ready f then (throw InvalidState, f)
      else if \<not> bk_valid chunk \<or> block_size = 0 then (Inr (), f)
      else let f = fl_ensureCapacity list_index f;
               num_blocks = chunk_size div block_size;
               base_offset = vw_offset (bk_view chunk);
               blocks = map (\<lambda>i. \<lparr>bk_handle = bk_handle chunk,
                                  bk_view = vw_make (bk_view chunk) (base_offset + i * block_size) block_size\<rparr>) [0..<num_blocks]
           in (Inr (), f\<lparr>fl_stacks := (fl_stacks f)[list_index := fl_stacks f ! list_index @ blocks]\<rparr>))"

text \<open>The stack is emptied from the back and what is kept is pushed again, so its order is reversed.\<close>

definition fl_removeBlocksInChunk :: "u32 \<Rightarrow> host_freelist \<Rightarrow> host_freelist" where
  "fl_removeBlocksInChunk handle f =
     f\<lparr>fl_stacks := map (\<lambda>stack. filter (\<lambda>b. bk_handle b \<noteq> handle) (rev stack)) (fl_stacks f)\<rparr>"

section \<open>Deferred reuse\<close>

record 't pending_reuse =
  pr_block :: buffer_block
  pr_token :: 't
  pr_index :: nat
  pr_timestamp :: nat

record 't deferred_reuse =
  dr_ready :: bool
  dr_timeout :: nat
  dr_pending :: "'t pending_reuse list"
  dr_queue :: "(buffer_block \<times> nat) list"

definition dr_scheduleForReuse :: "nat \<Rightarrow> buffer_block \<Rightarrow> 't \<Rightarrow> nat \<Rightarrow> ('t deferred_reuse, unit) act" where
  "dr_scheduleForReuse now block token freelist_index d =
     (if \<not> dr_ready d then (throw InvalidState, d)
      else (Inr (), d\<lparr>dr_pending := dr_pending d @
              [\<lparr>pr_block = block, pr_token = token, pr_index = freelist_index, pr_timestamp = now\<rparr>]\<rparr>))"

text \<open>The loop keeps the items that are not completed in order, with the timestamp of a timed-out one renewed.\<close>

definition dr_processPending :: "('t \<Rightarrow> bool) \<Rightarrow> nat \<Rightarrow> ('t deferred_reuse, nat) act" where
  "dr_processPending completed now d =
     (if \<not> dr_ready d then (throw InvalidState, d)
      else let ready = filter (\<lambda>p. completed (pr_token p)) (dr_pending d);
               waiting = map (\<lambda>p. if now - pr_timestamp p > dr_timeout d then p\<lparr>pr_timestamp := now\<rparr> else p)
                           (filter (\<lambda>p. \<not> completed (pr_token p)) (dr_pending d))
           in (Inr (length ready),
               d\<lparr>dr_pending := waiting, dr_queue := dr_queue d @ map (\<lambda>p. (pr_block p, pr_index p)) ready\<rparr>))"

definition dr_hasPending :: "'t deferred_reuse \<Rightarrow> bool" where
  "dr_hasPending d \<longleftrightarrow> dr_pending d \<noteq> []"

definition dr_pendingReuseCount :: "'t deferred_reuse \<Rightarrow> nat" where
  "dr_pendingReuseCount d = length (dr_pending d) + length (dr_queue d)"

definition dr_getReadyItem :: "'t deferred_reuse \<Rightarrow> (buffer_block \<times> nat) option \<times> 't deferred_reuse" where
  "dr_getReadyItem d =
     (if dr_queue d = [] then (None, d) else (Some (last (dr_queue d)), d\<lparr>dr_queue := butlast (dr_queue d)\<rparr>))"

definition dr_removeBlocksInChunk :: "u32 \<Rightarrow> 't deferred_reuse \<Rightarrow> 't deferred_reuse" where
  "dr_removeBlocksInChunk handle d =
     d\<lparr>dr_pending := filter (\<lambda>p. bk_handle (pr_block p) \<noteq> handle) (dr_pending d),
       dr_queue := filter (\<lambda>p. bk_handle (fst p) \<noteq> handle) (dr_queue d)\<rparr>"

section \<open>Large allocations\<close>

record large_entry =
  le_view :: buffer_view
  le_in_use :: bool

record large_alloc =
  la_ready :: bool
  la_entries :: "large_entry list"
  la_free :: "nat list"

definition la_encodeId :: "nat \<Rightarrow> u32" where
  "la_encodeId index = of_nat index OR lc_kLargeMask"

definition la_indexFromId :: "u32 \<Rightarrow> nat" where
  "la_indexFromId handle = unat (handle AND lc_kChunkMask)"

definition la_isLargeAlloc :: "u32 \<Rightarrow> bool" where
  "la_isLargeAlloc handle \<longleftrightarrow> handle AND lc_kLargeMask \<noteq> 0"

definition la_reserveSlot :: "large_alloc \<Rightarrow> nat \<times> large_alloc" where
  "la_reserveSlot a =
     (if la_free a \<noteq> [] then (last (la_free a), a\<lparr>la_free := butlast (la_free a)\<rparr>)
      else (length (la_entries a), a\<lparr>la_entries := la_entries a @ [\<lparr>le_view = vw_none, le_in_use = False\<rparr>]\<rparr>))"

definition la_allocate ::
  "('r, 't) resource \<Rightarrow> nat \<Rightarrow> nat \<Rightarrow> large_alloc \<times> 'r \<Rightarrow> buffer_block res \<times> large_alloc \<times> 'r" where
  "la_allocate rs n alignment = (\<lambda>(a, r).
     if \<not> la_ready a then (throw InvalidState, a, r)
     else if n = 0 then (Inr bk_none, a, r)
     else case rs_allocate rs n alignment r of (Inl e, r') \<Rightarrow> (Inl e, a, r') | (Inr buffer, r') \<Rightarrow>
       if vw_empty buffer then (Inr bk_none, a, r')
       else case la_reserveSlot a of (index, a') \<Rightarrow>
         (Inr \<lparr>bk_handle = la_encodeId index, bk_view = buffer\<rparr>,
          a'\<lparr>la_entries := (la_entries a')[index := \<lparr>le_view = buffer, le_in_use = True\<rparr>]\<rparr>, r'))"

definition la_deallocate ::
  "('r, 't) resource \<Rightarrow> u32 \<Rightarrow> nat \<Rightarrow> nat \<Rightarrow> large_alloc \<times> 'r \<Rightarrow> large_alloc \<times> 'r" where
  "la_deallocate rs handle n alignment = (\<lambda>(a, r).
     if \<not> la_isLargeAlloc handle then (a, r)
     else let index = la_indexFromId handle
          in if index \<ge> length (la_entries a) then (a, r)
             else if \<not> le_in_use (la_entries a ! index) then (a, r)
             else (a\<lparr>la_entries := (la_entries a)[index := \<lparr>le_view = vw_none, le_in_use = False\<rparr>],
                     la_free := la_free a @ [index]\<rparr>,
                   rs_deallocate rs (le_view (la_entries a ! index)) n alignment r))"

definition la_isAlive :: "large_alloc \<Rightarrow> u32 \<Rightarrow> bool" where
  "la_isAlive a handle \<longleftrightarrow>
     la_isLargeAlloc handle \<and> la_indexFromId handle < length (la_entries a) \<and>
     le_in_use (la_entries a ! la_indexFromId handle) \<and> \<not> vw_empty (le_view (la_entries a ! la_indexFromId handle))"

definition la_size :: "large_alloc \<Rightarrow> nat" where
  "la_size a = length (la_entries a) - length (la_free a)"

section \<open>The pool\<close>

record 't buffer_resource =
  bf_handle :: u32
  bf_view :: buffer_view
  bf_token :: "'t option"

definition bf_fromBlock :: "buffer_block \<Rightarrow> 't buffer_resource" where
  "bf_fromBlock b = \<lparr>bf_handle = bk_handle b, bf_view = bk_view b, bf_token = None\<rparr>"

definition bf_toBlock :: "'t buffer_resource \<Rightarrow> buffer_block" where
  "bf_toBlock b = \<lparr>bk_handle = bf_handle b, bk_view = bf_view b\<rparr>"

definition bf_valid :: "'t buffer_resource \<Rightarrow> bool" where
  "bf_valid b \<longleftrightarrow> bf_handle b \<noteq> bk_invalidHandle \<and> \<not> vw_empty (bf_view b)"

text \<open>The configuration; the flags say that the resource pointer given to a policy is not null.\<close>

record segregate_config =
  gc_large_alloc :: bool
  gc_chunk_locator :: bool
  gc_reuse :: bool
  gc_freelist :: bool
  gc_reuse_timeout :: nat
  gc_chunk_size :: nat
  gc_min_block_size :: nat
  gc_max_block_size :: nat

record ('r, 't) segregate_pool =
  gp_min_block_size :: nat
  gp_max_block_size :: nat
  gp_chunk_size :: nat
  gp_resource :: 'r
  gp_large_alloc :: large_alloc
  gp_chunk_locator :: chunk_locator
  gp_reuse :: "'t option deferred_reuse"
  gp_freelist :: host_freelist

definition gp_new :: "'r \<Rightarrow> ('r, 't) segregate_pool" where
  "gp_new r = \<lparr>gp_min_block_size = 64, gp_max_block_size = 0, gp_chunk_size = 0, gp_resource = r,
     gp_large_alloc = \<lparr>la_ready = False, la_entries = [], la_free = []\<rparr>,
     gp_chunk_locator = \<lparr>lc_ready = False, lc_chunks = [], lc_free = []\<rparr>,
     gp_reuse = \<lparr>dr_ready = False, dr_timeout = 0, dr_pending = [], dr_queue = []\<rparr>,
     gp_freelist = \<lparr>fl_ready = False, fl_stacks = []\<rparr>\<rparr>"

definition fl_initialize :: "nat \<Rightarrow> host_freelist \<Rightarrow> host_freelist" where
  "fl_initialize size_class_count f =
     f\<lparr>fl_ready := True,
       fl_stacks := (if size_class_count > 0
         then take size_class_count (fl_stacks f) @ replicate (size_class_count - length (fl_stacks f)) []
         else fl_stacks f)\<rparr>"

text \<open>\<open>initialize\<close> stops with \<open>NullPointer\<close> at the first policy that has no resource.\<close>

definition gp_initialize :: "segregate_config \<Rightarrow> (('r, 't) segregate_pool, unit) act" where
  "gp_initialize config p =
     (let p = p\<lparr>gp_chunk_size := gc_chunk_size config, gp_min_block_size := gc_min_block_size config,
                gp_max_block_size := gc_max_block_size config\<rparr>;
          size_class_count = sc_sizeClassCount (gp_min_block_size p) (gp_max_block_size p)
      in if \<not> gc_large_alloc config then (throw NullPointer, p)
         else let p = p\<lparr>gp_large_alloc := (gp_large_alloc p)\<lparr>la_ready := True\<rparr>\<rparr>
         in if \<not> gc_chunk_locator config then (throw NullPointer, p)
         else let p = p\<lparr>gp_chunk_locator := (gp_chunk_locator p)\<lparr>lc_ready := True\<rparr>\<rparr>
         in if \<not> gc_reuse config then (throw NullPointer, p)
         else let p = p\<lparr>gp_reuse := (gp_reuse p)\<lparr>dr_ready := True, dr_timeout := gc_reuse_timeout config\<rparr>\<rparr>
         in if \<not> gc_freelist config then (throw NullPointer, p)
         else (Inr (), p\<lparr>gp_freelist := fl_initialize size_class_count (gp_freelist p)\<rparr>))"

text \<open>The operations of the policies as steps of the pool.\<close>

definition gp_onFreelist :: "(host_freelist, 'a) act \<Rightarrow> (('r, 't) segregate_pool, 'a) act" where
  "gp_onFreelist m p = (case m (gp_freelist p) of (x, f) \<Rightarrow> (x, p\<lparr>gp_freelist := f\<rparr>))"

definition gp_onReuse :: "('t option deferred_reuse, 'a) act \<Rightarrow> (('r, 't) segregate_pool, 'a) act" where
  "gp_onReuse m p = (case m (gp_reuse p) of (x, d) \<Rightarrow> (x, p\<lparr>gp_reuse := d\<rparr>))"

definition gp_onLocator :: "(chunk_locator \<Rightarrow> chunk_locator) \<Rightarrow> (('r, 't) segregate_pool, unit) act" where
  "gp_onLocator f p = (Inr (), p\<lparr>gp_chunk_locator := f (gp_chunk_locator p)\<rparr>)"

definition gp_addChunk :: "('r, 't option) resource \<Rightarrow> nat \<Rightarrow> nat \<Rightarrow> (('r, 't) segregate_pool, buffer_block) act" where
  "gp_addChunk rs n alignment p =
     (case lc_addChunk rs n alignment (gp_chunk_locator p, gp_resource p) of (x, l, r) \<Rightarrow>
        (x, p\<lparr>gp_resource := r, gp_chunk_locator := l\<rparr>))"

definition gp_allocateLarge :: "('r, 't option) resource \<Rightarrow> nat \<Rightarrow> nat \<Rightarrow> (('r, 't) segregate_pool, buffer_block) act" where
  "gp_allocateLarge rs n alignment p =
     (case la_allocate rs n alignment (gp_large_alloc p, gp_resource p) of (x, a, r) \<Rightarrow>
        (x, p\<lparr>gp_resource := r, gp_large_alloc := a\<rparr>))"

definition gp_deallocateLarge ::
  "('r, 't option) resource \<Rightarrow> u32 \<Rightarrow> nat \<Rightarrow> nat \<Rightarrow> (('r, 't) segregate_pool, unit) act" where
  "gp_deallocateLarge rs handle n alignment p =
     (case la_deallocate rs handle n alignment (gp_large_alloc p, gp_resource p) of (a, r) \<Rightarrow>
        (Inr (), p\<lparr>gp_resource := r, gp_large_alloc := a\<rparr>))"

definition gp_blockSizeFor :: "('r, 't) segregate_pool \<Rightarrow> nat \<Rightarrow> nat" where
  "gp_blockSizeFor p n =
     sc_sizeClassToBlockSize (sc_sizeClassIndex (max (gp_min_block_size p) n) (gp_min_block_size p)) (gp_min_block_size p)"

text \<open>The loop \<open>while (getReadyItem(...))\<close>.\<close>

function gp_drainReady :: "(('r, 't) segregate_pool, unit) act" where
  "gp_drainReady p =
     (case dr_getReadyItem (gp_reuse p) of
        (None, d) \<Rightarrow> (Inr (), p\<lparr>gp_reuse := d\<rparr>)
      | (Some (ready_block, freelist_index), d) \<Rightarrow>
          (let p' = p\<lparr>gp_reuse := d,
                      gp_chunk_locator := lc_decrementPendingAndUsed (bk_handle ready_block) (gp_chunk_locator p)\<rparr>
           in case fl_push freelist_index ready_block (gp_freelist p') of
                (Inl e, f) \<Rightarrow> (Inl e, p'\<lparr>gp_freelist := f\<rparr>)
              | (Inr _, f) \<Rightarrow> gp_drainReady (p'\<lparr>gp_freelist := f\<rparr>)))"
  by pat_completeness auto
termination
  by (relation "measure (\<lambda>p. length (dr_queue (gp_reuse p)))")
    (auto simp: dr_getReadyItem_def Let_def split: if_splits)

declare gp_drainReady.simps [simp del]

definition gp_processPendingReuses :: "('r, 't option) resource \<Rightarrow> nat \<Rightarrow> (('r, 't) segregate_pool, unit) act" where
  "gp_processPendingReuses rs now p =
     bindA (gp_onReuse (dr_processPending (rs_isCompleted rs (gp_resource p)) now)) (\<lambda>_. gp_drainReady) p"

definition gp_expandPool :: "('r, 't option) resource \<Rightarrow> nat \<Rightarrow> nat \<Rightarrow> (('r, 't) segregate_pool, unit) act" where
  "gp_expandPool rs list_idx block_size p =
     (let num_blocks = (gp_chunk_size p + block_size - 1) div block_size;
          actual_chunk_size = num_blocks * block_size
      in bindA (gp_addChunk rs actual_chunk_size 0) (\<lambda>chunk.
         if \<not> bk_valid chunk then returnA ()
         else gp_onFreelist (fl_expand list_idx chunk actual_chunk_size block_size)) p)"

definition gp_allocate ::
  "('r, 't option) resource \<Rightarrow> nat \<Rightarrow> nat \<Rightarrow> nat \<Rightarrow> (('r, 't) segregate_pool, 't buffer_resource) act" where
  "gp_allocate rs now n alignment p =
     (if n = 0 then (Inr (bf_fromBlock bk_none), p)
      else if n > gp_max_block_size p
      then bindA (gp_allocateLarge rs n alignment) (\<lambda>block. returnA (bf_fromBlock block)) p
      else bindA (gp_processPendingReuses rs now) (\<lambda>_.
             let block_size = gp_blockSizeFor p n;
                 list_idx = sc_sizeClassIndex block_size (gp_min_block_size p)
             in bindA (gp_onFreelist (fl_pop list_idx)) (\<lambda>block.
                bindA (if bk_valid block then returnA block
                       else bindA (gp_expandPool rs list_idx block_size) (\<lambda>_. gp_onFreelist (fl_pop list_idx))) (\<lambda>block.
                if \<not> bk_valid block then returnA (bf_fromBlock bk_none)
                else bindA (gp_onLocator (lc_incrementUsed (bk_handle block))) (\<lambda>_. returnA (bf_fromBlock block))))) p)"

definition gp_deallocate ::
  "('r, 't option) resource \<Rightarrow> nat \<Rightarrow> 't buffer_resource \<Rightarrow> nat \<Rightarrow> nat \<Rightarrow> (('r, 't) segregate_pool, unit) act" where
  "gp_deallocate rs now block n alignment p =
     (if \<not> bf_valid block \<or> n = 0 then (Inr (), p)
      else if n > gp_max_block_size p then gp_deallocateLarge rs (bf_handle block) n alignment p
      else let block_size = ff_get_block_size (gp_min_block_size p) n;
               list_idx = sc_sizeClassIndex block_size (gp_min_block_size p)
           in bindA (gp_onLocator (lc_incrementPending (bf_handle block))) (\<lambda>_.
              gp_onReuse (dr_scheduleForReuse now (bf_toBlock block) (bf_token block) list_idx)) p)"

text \<open>The loop of \<open>releaseChunk\<close>; every round but the last kills a chunk.\<close>

lemma lc_release_measure:
  assumes "lc_releaseChunk rs handle (l, r) = (True, l', r')"
  shows "cnt ck_alive (lc_chunks l') < cnt ck_alive (lc_chunks l)"
proof -
  let ?s = "lc_indexFromId handle"
  have s: "?s < length (lc_chunks l)" "ck_alive (lc_chunks l ! ?s)" "lc_chunks l' = (lc_chunks l)[?s := ck_none]"
    using assms by (auto simp: lc_releaseChunk_def Let_def split: if_splits)
  then have "cnt ck_alive (lc_chunks l') + 1 = cnt ck_alive (lc_chunks l)"
    using cnt_update_add[OF s(1), of ck_alive ck_none] by (simp add: ck_none_def)
  then show ?thesis by simp
qed

function gp_releaseLoop :: "('r, 't option) resource \<Rightarrow> ('r, 't) segregate_pool \<Rightarrow> ('r, 't) segregate_pool" where
  "gp_releaseLoop rs p =
     (let handle = lc_findReleasable (gp_chunk_locator p)
      in if handle = bk_invalidHandle then p
         else let p' = p\<lparr>gp_reuse := dr_removeBlocksInChunk handle (gp_reuse p),
                         gp_freelist := fl_removeBlocksInChunk handle (gp_freelist p)\<rparr>
              in case lc_releaseChunk rs handle (gp_chunk_locator p', gp_resource p') of
                   (released, l, r) \<Rightarrow>
                     (let p'' = p'\<lparr>gp_resource := r, gp_chunk_locator := l\<rparr>
                      in if \<not> released then p'' else gp_releaseLoop rs p''))"
  by pat_completeness auto
termination
  by (relation "measure (\<lambda>(rs, p). cnt ck_alive (lc_chunks (gp_chunk_locator p)))")
    (auto dest!: sym[of _ "lc_releaseChunk _ _ _"] intro: lc_release_measure)

declare gp_releaseLoop.simps [simp del]

definition gp_releaseChunk :: "('r, 't option) resource \<Rightarrow> nat \<Rightarrow> (('r, 't) segregate_pool, unit) act" where
  "gp_releaseChunk rs now = bindA (gp_processPendingReuses rs now) (\<lambda>_ p. (Inr (), gp_releaseLoop rs p))"

end
