(* ===== verification/SizeClasses.thy ===== *)
theory SizeClasses
  imports SegregatePool
begin

text \<open>
  The arithmetic of the size classes (\<open>size_class_utils.h\<close>): \<open>bit_ceil\<close> and \<open>countr_zero\<close> are inverse
  on powers of two, and the two routines that compute a block size and a list index, the one
  \<open>allocate\<close> uses and the one \<open>deallocate\<close> uses, agree.
\<close>

section \<open>Powers of two\<close>

lemma hv_double_pow: "\<exists>j. hv_double (2 ^ k) n = 2 ^ j"
proof -
  have "\<exists>k. c = 2 ^ k \<Longrightarrow> \<exists>j. hv_double c n = 2 ^ j" for c
  proof (induction c n rule: hv_double.induct)
    case (1 c n)
    show ?case
    proof (cases "0 < c \<and> c < n")
      case True
      from 1(2) obtain k where "c = 2 ^ k" ..
      then have "\<exists>k. c * 2 = 2 ^ k" by (auto intro: exI[of _ "Suc k"])
      from 1(1)[OF True this] show ?thesis
        using True by (simp add: hv_double.simps[of c n])
    next
      case False
      with 1(2) show ?thesis by (subst hv_double.simps) auto
    qed
  qed
  then show ?thesis by blast
qed

lemma hv_double_least:
  assumes "c dvd 2 ^ j" and "n \<le> 2 ^ j" and "\<exists>k. c = 2 ^ k"
  shows "hv_double c n \<le> (2::nat) ^ j"
  using assms
proof (induction c n rule: hv_double.induct)
  case (1 c n)
  show ?case
  proof (cases "0 < c \<and> c < n")
    case True
    from 1(4) obtain k where k: "c = 2 ^ k" ..
    from True 1(3) k have "(2::nat) ^ k < 2 ^ j" by linarith
    then have "k < j" by (rule power_less_imp_less_exp[rotated]) simp
    then have "c * 2 dvd 2 ^ j" "\<exists>k. c * 2 = 2 ^ k"
      using k le_imp_power_dvd[of "Suc k" j "2::nat"] by (auto intro: exI[of _ "Suc k"])
    with 1(1)[OF True _ 1(3)] True show ?thesis
      by (subst hv_double.simps) simp
  next
    case False
    then show ?thesis
      using 1(2) by (subst hv_double.simps) (auto dest: dvd_imp_le)
  qed
qed

lemma sc_bit_ceil_pow: "\<exists>j. sc_bit_ceil n = 2 ^ j"
  using hv_double_pow[of 0 n] by (simp add: sc_bit_ceil_def)

lemma sc_bit_ceil_ge: "n \<le> sc_bit_ceil n" "1 \<le> sc_bit_ceil n"
  using hv_double_ge[of 1 n] by (auto simp: sc_bit_ceil_def)

lemma sc_bit_ceil_lt: "0 < n \<Longrightarrow> sc_bit_ceil n < 2 * n"
  using hv_double_lt[of 1 n] by (cases "n = 1") (auto simp: sc_bit_ceil_def hv_double.simps)

lemma sc_bit_ceil_least: "n \<le> 2 ^ j \<Longrightarrow> sc_bit_ceil n \<le> 2 ^ j"
  using hv_double_least[OF _ _ exI[of "\<lambda>k. (1::nat) = 2 ^ k" 0], of j n] by (simp add: sc_bit_ceil_def)

lemma sc_bit_ceil_mono: "m \<le> n \<Longrightarrow> sc_bit_ceil m \<le> sc_bit_ceil n"
  using sc_bit_ceil_pow[of n] sc_bit_ceil_ge(1)[of n] sc_bit_ceil_least[of m]
  by (metis order_trans)

lemma sc_bit_ceil_power: "sc_bit_ceil (2 ^ j) = 2 ^ j"
  using sc_bit_ceil_least[of "2 ^ j" j] sc_bit_ceil_ge(1)[of "2 ^ j"] by simp

lemma sc_bit_ceil_idem: "sc_bit_ceil (sc_bit_ceil n) = sc_bit_ceil n"
  using sc_bit_ceil_pow[of n] sc_bit_ceil_power by auto

lemma sc_countr_zero_power: "sc_countr_zero (2 ^ k) = k"
  by (induction k) (simp_all add: sc_countr_zero.simps)

section \<open>Block sizes and list indices\<close>

lemma sc_index_to_size:
  assumes "min_block \<le> m"
  shows "sc_sizeClassToBlockSize (sc_sizeClassIndex m min_block) min_block = sc_bit_ceil m"
proof (cases "m \<le> min_block")
  case True
  with assms show ?thesis
    by (simp add: sc_sizeClassIndex_def sc_sizeClassToBlockSize_def)
next
  case False
  obtain a b where ab: "sc_bit_ceil min_block = 2 ^ a" "sc_bit_ceil m = 2 ^ b"
    using sc_bit_ceil_pow by metis
  with sc_bit_ceil_mono[OF assms] have "a \<le> b"
    using power_le_imp_le_exp[of "2::nat" a b] by simp
  then show ?thesis
    using False ab by (simp add: sc_sizeClassIndex_def sc_sizeClassToBlockSize_def sc_countr_zero_power
        flip: power_add)
qed

lemma sc_index_of_ceil:
  assumes "min_block \<le> m"
  shows "sc_sizeClassIndex (sc_bit_ceil m) min_block = sc_sizeClassIndex m min_block"
proof -
  have "m \<le> sc_bit_ceil m" by (rule sc_bit_ceil_ge)
  moreover have "sc_bit_ceil m = sc_bit_ceil min_block" if "m \<le> min_block"
    using that assms by simp
  ultimately show ?thesis
    using assms by (auto simp: sc_sizeClassIndex_def sc_bit_ceil_idem)
qed

lemma gp_block_size: "gp_blockSizeFor p n = ff_get_block_size (gp_min_block_size p) n"
  using sc_index_to_size[of "gp_min_block_size p" "max (gp_min_block_size p) n"]
  by (simp add: gp_blockSizeFor_def ff_get_block_size_def)

lemma ff_block_size_ge: "n \<le> ff_get_block_size m n" "m \<le> ff_get_block_size m n" "0 < ff_get_block_size m n"
  using sc_bit_ceil_ge[of "max m n"] by (auto simp: ff_get_block_size_def)

lemma ff_index_size:
  "sc_sizeClassToBlockSize (sc_sizeClassIndex (ff_get_block_size m n) m) m = ff_get_block_size m n"
  by (simp add: ff_get_block_size_def sc_index_of_ceil sc_index_to_size)

lemma sc_index_lt_count:
  assumes "min_block \<le> m" and "m \<le> max_block" and "0 < min_block"
  shows "sc_sizeClassIndex m min_block < sc_sizeClassCount min_block max_block"
proof -
  obtain a b c where abc: "sc_bit_ceil min_block = 2 ^ a" "sc_bit_ceil m = 2 ^ b" "sc_bit_ceil max_block = 2 ^ c"
    using sc_bit_ceil_pow by metis
  with sc_bit_ceil_mono[OF assms(2)] have "b \<le> c"
    using power_le_imp_le_exp[of "2::nat" b c] by simp
  with abc assms show ?thesis
    by (auto simp: sc_sizeClassIndex_def sc_sizeClassCount_def sc_countr_zero_power)
qed

section \<open>The size-class contract\<close>

text \<open>
  C3: for a pooled request of \<open>n\<close> bytes the block size \<open>allocate\<close> computes (through the list
  index) and the one \<open>deallocate\<close> computes (by rounding up to a power of two) are the same number;
  it is a power of two, at least the request and the minimum, and less than twice the larger of the two
  (so less than half a block is wasted when the request is at least the minimum); with a maximum of at
  most \<open>2^63\<close> it is at most \<open>2^63\<close>, so that every \<open>std::bit_ceil\<close> on the way has a \<open>size_t\<close> result;
  the list index it has in both routines is below \<open>sizeClassCount\<close>, and \<open>sizeClassToBlockSize\<close> of that index is the block size again.
\<close>

theorem gp_size_classes:
  assumes "0 < gp_min_block_size p" and "gp_min_block_size p \<le> gp_max_block_size p" and "n \<le> gp_max_block_size p"
    and "gp_max_block_size p \<le> 2 ^ 63"
  shows "let m = gp_min_block_size p; bs = gp_blockSizeFor p n in
     bs = ff_get_block_size m n \<and>
     (\<exists>k. bs = 2 ^ k) \<and> max m n \<le> bs \<and> bs < 2 * max m n \<and> bs \<le> 2 ^ 63 \<and>
     sc_bit_ceil m \<le> bs \<and> bs \<le> sc_bit_ceil (gp_max_block_size p) \<and> sc_bit_ceil (gp_max_block_size p) \<le> 2 ^ 63 \<and>
     sc_sizeClassIndex bs m < sc_sizeClassCount m (gp_max_block_size p) \<and>
     sc_sizeClassToBlockSize (sc_sizeClassIndex bs m) m = bs"
proof -
  let ?m = "gp_min_block_size p"
  have "sc_sizeClassIndex (sc_bit_ceil (max ?m n)) ?m < sc_sizeClassCount ?m (gp_max_block_size p)"
    using sc_index_lt_count[of ?m "max ?m n" "gp_max_block_size p"] assms by (simp add: sc_index_of_ceil)
  then show ?thesis
    using sc_bit_ceil_pow[of "max ?m n"] sc_bit_ceil_ge(1)[of "max ?m n"] sc_bit_ceil_lt[of "max ?m n"] assms
      ff_index_size[of ?m n] sc_bit_ceil_least[of "max ?m n" 63] sc_bit_ceil_least[of "gp_max_block_size p" 63]
      sc_bit_ceil_mono[of ?m "max ?m n"] sc_bit_ceil_mono[of "max ?m n" "gp_max_block_size p"]
    by (simp add: Let_def gp_block_size ff_get_block_size_def)
qed

theorem gp_size_classes_witness:
  "let p = (gp_new ()) \<lparr>gp_min_block_size := 100, gp_max_block_size := 1000\<rparr> :: (unit, unit) segregate_pool in
     gp_blockSizeFor p 300 = 512 \<and> sc_sizeClassIndex 512 100 < 4 \<and>
     sc_sizeClassToBlockSize (sc_sizeClassIndex 512 100) 100 = 512"
proof -
  let ?p = "(gp_new ()) \<lparr>gp_min_block_size := 100, gp_max_block_size := 1000\<rparr> :: (unit, unit) segregate_pool"
  have v: "sc_bit_ceil 300 = 512" "sc_bit_ceil 100 = 128" "sc_bit_ceil 1000 = 1024"
    by (simp_all add: sc_bit_ceil_def hv_double.simps)
  have "sc_sizeClassCount 100 1000 = 4"
    by (simp add: sc_sizeClassCount_def v sc_countr_zero.simps)
  then show ?thesis
    using gp_size_classes[of ?p 300] by (auto simp: ff_get_block_size_def v Let_def)
qed

end
