(* ===== verification/MathUtils.thy ===== *)
theory MathUtils
  imports SizeClasses
begin

text \<open>
  \<open>base/math_utils.h\<close> on 64-bit words: the power-of-two test, the bit-spreading \<open>nextPowerOfTwo\<close> and
  \<open>alignDown\<close>, with the equivalence of the second with its reference, the smallest power of two.
\<close>

unbundle bit_operations_syntax

definition mu_isPowerOfTwo :: "u64 \<Rightarrow> bool" where
  "mu_isPowerOfTwo value \<longleftrightarrow> value \<noteq> 0 \<and> value AND (value - 1) = 0"

definition mu_nextPowerOfTwo :: "u64 \<Rightarrow> u64" where
  "mu_nextPowerOfTwo value =
     (if value \<le> 1 then 1
      else let value = value - 1;
               value = value OR drop_bit 1 value;
               value = value OR drop_bit 2 value;
               value = value OR drop_bit 4 value;
               value = value OR drop_bit 8 value;
               value = value OR drop_bit 16 value;
               value = value OR drop_bit 32 value
           in value + 1)"

definition mu_alignDown :: "u64 \<Rightarrow> u64 \<Rightarrow> u64" where
  "mu_alignDown value alignment = (if alignment = 0 then value else value - (value mod alignment))"

section \<open>Spreading bits\<close>

text \<open>\<open>value | value >> n\<close> doubles the distance over which bits have been spread downwards.\<close>

definition mu_spread :: "nat \<Rightarrow> u64 \<Rightarrow> u64 \<Rightarrow> bool" where
  "mu_spread n w v \<longleftrightarrow> (\<forall>i. bit w i \<longleftrightarrow> (\<exists>d < n. bit v (i + d)))"

lemma mu_spread_start: "mu_spread 1 v v"
  by (simp add: mu_spread_def)

lemma mu_spread_step:
  assumes "mu_spread n w v"
  shows "mu_spread (2 * n) (w OR drop_bit n w) v"
  unfolding mu_spread_def
proof
  fix i
  have "(\<exists>d < 2 * n. bit v (i + d)) \<longleftrightarrow> (\<exists>d < n. bit v (i + d)) \<or> (\<exists>d < n. bit v (n + i + d))"
  proof
    assume "\<exists>d < 2 * n. bit v (i + d)"
    then obtain d where d: "d < 2 * n" "bit v (i + d)" by blast
    show "(\<exists>d < n. bit v (i + d)) \<or> (\<exists>d < n. bit v (n + i + d))"
    proof (cases "d < n")
      case False
      with d have "d - n < n" "bit v (n + i + (d - n))" by (simp_all add: ac_simps)
      then show ?thesis by blast
    qed (use d in blast)
  next
    assume "(\<exists>d < n. bit v (i + d)) \<or> (\<exists>d < n. bit v (n + i + d))"
    then show "\<exists>d < 2 * n. bit v (i + d)"
    proof
      assume "\<exists>d < n. bit v (n + i + d)"
      then obtain d where "d < n" "bit v (n + i + d)" by blast
      then have "n + d < 2 * n" "bit v (i + (n + d))" by (simp_all add: ac_simps)
      then show ?thesis by blast
    next
      assume "\<exists>d < n. bit v (i + d)"
      then obtain d where "d < n" "bit v (i + d)" by blast
      then show ?thesis by (intro exI[of _ d]) simp
    qed
  qed
  then show "bit (w OR drop_bit n w) i \<longleftrightarrow> (\<exists>d < 2 * n. bit v (i + d))"
    using assms by (simp add: mu_spread_def bit_simps)
qed

lemma bit_u64_div: "bit (v :: u64) j \<longleftrightarrow> odd (unat v div 2 ^ j)"
  by (metis bit_iff_odd bit_unsigned_iff possible_bit_nat)

lemma mu_spread_mask:
  assumes "mu_spread 64 w v" and "2 ^ k \<le> unat v" and "unat v < 2 ^ Suc k"
  shows "w = mask (Suc k)"
proof (rule bit_word_eqI)
  fix i :: nat
  assume i: "i < LENGTH(64)"
  have "unat v div 2 ^ k = 1"
    using assms(2,3) by (intro div_nat_eqI) simp_all
  then have top: "bit v k" by (simp add: bit_u64_div)
  then have k: "k < 64" using bit_imp_le_length[OF top] by simp
  have above: "\<not> bit v j" if "k < j" for j
  proof -
    have "(2::nat) ^ Suc k \<le> 2 ^ j" using that by (intro power_increasing) simp_all
    then have "unat v < 2 ^ j" using assms(3) by linarith
    then show ?thesis by (simp add: bit_u64_div)
  qed
  have "(\<exists>d < 64. bit v (i + d)) \<longleftrightarrow> i \<le> k"
  proof
    assume "\<exists>d < 64. bit v (i + d)"
    then show "i \<le> k" using above by (meson le_add1 not_le order.strict_trans2)
  next
    assume "i \<le> k"
    then show "\<exists>d < 64. bit v (i + d)" using top k by (intro exI[of _ "k - i"]) simp
  qed
  then show "bit w i \<longleftrightarrow> bit (mask (Suc k) :: u64) i"
    using assms(1) i by (simp add: mu_spread_def bit_mask_iff less_Suc_eq_le)
qed

lemma mu_next_mask:
  assumes "1 < v" and "2 ^ k \<le> unat (v - 1)" and "unat (v - 1) < 2 ^ Suc k"
  shows "mu_nextPowerOfTwo v = 2 ^ Suc k"
proof -
  let ?s = "\<lambda>n w :: u64. w OR drop_bit n w"
  have "mu_spread 64 (?s 32 (?s 16 (?s 8 (?s 4 (?s 2 (?s 1 (v - 1))))))) (v - 1)"
    using mu_spread_step[OF mu_spread_step[OF mu_spread_step[OF mu_spread_step[OF mu_spread_step[OF mu_spread_step[OF
      mu_spread_start[of "v - 1"]]]]]]] by simp
  from mu_spread_mask[OF this assms(2,3)]
  have "?s 32 (?s 16 (?s 8 (?s 4 (?s 2 (?s 1 (v - 1)))))) + 1 = 2 ^ Suc k"
    by (simp only: mask_eq_exp_minus_1 diff_add_cancel)
  moreover have "\<not> v \<le> 1" using assms(1) by (simp add: not_le)
  ultimately show ?thesis
    by (simp only: mu_nextPowerOfTwo_def Let_def if_False)
qed

lemma unat_power64:
  assumes "k < 64"
  shows "unat (2 ^ k :: u64) = 2 ^ k"
proof -
  have "take_bit 64 (2 ^ k) = (2 ^ k :: nat)"
    using assms by (simp add: take_bit_nat_eq_self)
  then have "unat (of_nat (2 ^ k) :: u64) = 2 ^ k"
    by (simp only: unsigned_of_nat len_num0 len_bit0 len_num1) simp
  then show ?thesis by simp
qed

lemma nat_log2: "0 < n \<Longrightarrow> \<exists>k. 2 ^ k \<le> n \<and> n < (2::nat) ^ Suc k"
  using ex_power_ivl1[of 2 n] by auto

section \<open>Contract\<close>

lemma mu_next_unat:
  assumes "unat v \<le> 2 ^ 63"
  shows "unat (mu_nextPowerOfTwo v) = sc_bit_ceil (unat v)"
proof (cases "v \<le> 1")
  case True
  then have "unat v \<le> 1" by (simp add: word_le_nat_alt)
  then have "sc_bit_ceil (unat v) = 1" by (simp add: sc_bit_ceil_def hv_double.simps)
  with True show ?thesis by (simp add: mu_nextPowerOfTwo_def)
next
  case False
  then have v: "1 < v" "1 < unat v" by (simp_all add: word_le_nat_alt word_less_nat_alt)
  then have u: "unat (v - 1) = unat v - 1" by (metis unat_minus_one unsigned_0 not_less_zero)
  obtain k where k: "2 ^ k \<le> unat v - 1" "unat v - 1 < (2::nat) ^ Suc k"
    using nat_log2[of "unat v - 1"] v by auto
  have "(2::nat) ^ k < 2 ^ 63" using k(1) assms v by linarith
  then have "k < 63" by (rule power_less_imp_less_exp[rotated]) simp
  then have "unat (2 ^ Suc k :: u64) = 2 ^ Suc k" by (intro unat_power64) simp
  moreover have "sc_bit_ceil (unat v) = 2 ^ Suc k"
  proof -
    obtain j where j: "sc_bit_ceil (unat v) = 2 ^ j" using sc_bit_ceil_pow by blast
    have "sc_bit_ceil (unat v) \<le> 2 ^ Suc k" using k(2) v by (intro sc_bit_ceil_least) linarith
    moreover have "(2::nat) ^ k < 2 ^ j" using sc_bit_ceil_ge(1)[of "unat v"] k(1) v j by linarith
    then have "k < j" by (rule power_less_imp_less_exp[rotated]) simp
    then have "(2::nat) ^ Suc k \<le> 2 ^ j" by (intro power_increasing) simp_all
    ultimately show ?thesis using j by simp
  qed
  ultimately show ?thesis using mu_next_mask[OF v(1)] k u by simp
qed

lemma mu_next_big:
  assumes "2 ^ 63 < unat v"
  shows "mu_nextPowerOfTwo v = 0"
proof -
  have v: "1 < v" using assms by (simp add: word_less_nat_alt)
  then have "unat (v - 1) = unat v - 1" by (metis unat_minus_one unsigned_0 word_less_nat_alt not_less_zero)
  moreover have "unat v < 2 ^ 64" by (rule order.strict_trans2[OF unsigned_less]) simp
  ultimately have "2 ^ 63 \<le> unat (v - 1)" "unat (v - 1) < 2 ^ Suc 63" using assms by simp_all
  from mu_next_mask[OF v this] show ?thesis by simp
qed

text \<open>
  \<open>nextPowerOfTwo\<close> is the smallest power of two that is at least its argument (\<open>sc_bit_ceil\<close>, the
  model of \<open>std::bit_ceil\<close>) for every argument up to \<open>2^63\<close>; for larger arguments, where that power does
  not fit, the result wraps to 0.
\<close>

theorem mu_nextPowerOfTwo_is_bit_ceil:
  "unat (mu_nextPowerOfTwo v) = (if unat v \<le> 2 ^ 63 then sc_bit_ceil (unat v) else 0)"
  by (simp add: mu_next_unat mu_next_big not_le)

end
