(* ===== verification/HierarchicalSlots.thy ===== *)
theory HierarchicalSlots
  imports SegregatePool HeapVector MathUtils
begin

text \<open>
  The hierarchical slot allocator, \<open>execution/allocator/lowlevel/\<close>: \<open>hierarchical_slot_storage.h\<close> (layers
  of slots that are split and merged) and \<open>hierarchical_slot_single_ops.h\<close> (allocation of one slot);
  the operations on contiguous runs of slots are in \<open>HierarchicalDense\<close>.  The low-level operations
  \<open>HeapOps\<close>, a template parameter, are the argument \<open>H\<close>; their state is the field \<open>hs_world\<close>.  Slot
  indices are 32 bits wide: every conversion to \<open>uint32_t\<close> is \<open>hs_u32\<close>.  The mutex is not modelled.
\<close>

definition hs_u32 :: "nat \<Rightarrow> nat" where
  "hs_u32 n = n mod 2 ^ 32"

definition hs_kNoParent :: nat where
  "hs_kNoParent = 2 ^ 32 - 1"

definition hs_kInvalidLayer :: nat where
  "hs_kInvalidLayer = 2 ^ 32 - 1"

definition hs_kSystemMinThreshold :: nat where
  "hs_kSystemMinThreshold = 8"

section \<open>Storage\<close>

text \<open>A reserved region; a null pointer is address 0.\<close>

record heap_region =
  hr_data :: nat
  hr_size :: nat

record 's heap_ops =
  ho_reserve :: "nat \<Rightarrow> ('s, heap_region) act"
  ho_map :: "heap_region \<Rightarrow> ('s, buffer_view) act"
  ho_unmap :: "heap_region \<Rightarrow> nat \<Rightarrow> ('s, unit) act"

datatype slot_state = SlotFree | SlotInUse | SlotSplit

record hs_slot =
  ss_region :: heap_region
  ss_state :: slot_state
  ss_parent_slot :: nat
  ss_child_begin :: nat

definition ss_new :: hs_slot where
  "ss_new = \<lparr>ss_region = \<lparr>hr_data = 0, hr_size = 0\<rparr>, ss_state = SlotFree,
     ss_parent_slot = hs_kNoParent, ss_child_begin = 0\<rparr>"

record hs_layer =
  sy_slot_size :: nat
  sy_slots :: "hs_slot heap_vector"
  sy_free_list :: "nat heap_vector"
  sy_span_free_list :: "nat heap_vector"

definition sy_new :: "nat \<Rightarrow> hs_layer" where
  "sy_new bytes = \<lparr>sy_slot_size = bytes, sy_slots = hv_new, sy_free_list = hv_new, sy_span_free_list = hv_new\<rparr>"

record hs_config =
  hc_levels :: "nat list"
  hc_initial_bytes :: nat
  hc_expand_bytes :: nat
  hc_threshold :: nat

text \<open>\<open>hs_ops\<close>: the pointer to the heap operations is not null.\<close>

record 's hs_storage =
  hs_config :: hs_config
  hs_ops :: bool
  hs_layers :: "hs_layer list"
  hs_world :: 's

definition hs_new :: "'s \<Rightarrow> 's hs_storage" where
  "hs_new s = \<lparr>hs_config = \<lparr>hc_levels = [], hc_initial_bytes = 0, hc_expand_bytes = 0, hc_threshold = 0\<rparr>,
     hs_ops = False, hs_layers = [], hs_world = s\<rparr>"

text \<open>A call of a heap operation through the pointer.\<close>

definition hs_heap :: "('s, 'a) act \<Rightarrow> ('s hs_storage, 'a) act" where
  "hs_heap m S =
     (if \<not> hs_ops S then (Inl DanglingPointer, S)
      else case m (hs_world S) of (x, s) \<Rightarrow> (x, S\<lparr>hs_world := s\<rparr>))"

definition hs_setLayer :: "'s hs_storage \<Rightarrow> nat \<Rightarrow> hs_layer \<Rightarrow> 's hs_storage" where
  "hs_setLayer S i L = S\<lparr>hs_layers := (hs_layers S)[i := L]\<rparr>"

subsection \<open>Choice and validation of layers\<close>

fun hs_pickFrom :: "nat list \<Rightarrow> nat \<Rightarrow> nat \<Rightarrow> nat \<Rightarrow> nat" where
  "hs_pickFrom [] bytes i best = best"
| "hs_pickFrom (level # levels) bytes i best =
     (if bytes \<le> level then hs_pickFrom levels bytes (i + 1) i else best)"

definition hs_pickLayer :: "nat list \<Rightarrow> nat \<Rightarrow> nat" where
  "hs_pickLayer levels bytes = hs_pickFrom levels bytes 0 hs_kInvalidLayer"

text \<open>The loop over the levels; \<open>prev\<close> is \<open>levels[i - 1]\<close>, \<open>None\<close> for the first.\<close>

fun hs_validateFrom :: "nat \<Rightarrow> nat option \<Rightarrow> nat list \<Rightarrow> unit res" where
  "hs_validateFrom threshold prev [] = Inr ()"
| "hs_validateFrom threshold prev (level # levels) =
     (if level = 0 then throw InvalidParameter
      else case prev of
          None \<Rightarrow> hs_validateFrom threshold (Some level) levels
        | Some p \<Rightarrow>
            if p < level then throw InvalidParameter
            else if p mod level \<noteq> 0 then throw InvalidParameter
            else if threshold \<noteq> 0 \<and> level < threshold \<and> \<not> mu_isPowerOfTwo (of_nat level)
            then throw InvalidParameter
            else if threshold \<noteq> 0 \<and> level > threshold \<and> level mod threshold \<noteq> 0
            then throw InvalidParameter
            else hs_validateFrom threshold (Some level) levels)"

definition hs_validateLevels :: "nat list \<Rightarrow> nat \<Rightarrow> unit res" where
  "hs_validateLevels levels threshold =
     (if threshold \<noteq> 0 \<and> threshold < hs_kSystemMinThreshold then throw InvalidParameter
      else if threshold \<noteq> 0 \<and> \<not> mu_isPowerOfTwo (of_nat threshold) then throw InvalidParameter
      else hs_validateFrom threshold None levels)"

subsection \<open>Slots of a layer\<close>

definition sy_hasFreeSlot :: "hs_layer \<Rightarrow> bool" where
  "sy_hasFreeSlot L \<longleftrightarrow> \<not> hv_isEmpty (sy_free_list L)"

definition sy_popFreeSlot :: "hs_layer \<Rightarrow> nat \<times> hs_layer" where
  "sy_popFreeSlot L =
     (let n = hv_size (sy_free_list L) - 1
      in (hv_nth (sy_free_list L) n, L\<lparr>sy_free_list := hv_resize (sy_free_list L) n 0\<rparr>))"

definition ss_markInUse :: "hs_slot \<Rightarrow> hs_slot" where
  "ss_markInUse s = s\<lparr>ss_state := SlotInUse\<rparr>"

definition ss_markFree :: "hs_slot \<Rightarrow> hs_slot" where
  "ss_markFree s = s\<lparr>ss_state := SlotFree\<rparr>"

definition ss_markSplit :: "nat \<Rightarrow> hs_slot \<Rightarrow> hs_slot" where
  "ss_markSplit child_begin s = s\<lparr>ss_state := SlotSplit, ss_child_begin := child_begin\<rparr>"

definition sy_updateSlot :: "nat \<Rightarrow> (hs_slot \<Rightarrow> hs_slot) \<Rightarrow> hs_layer \<Rightarrow> hs_layer" where
  "sy_updateSlot i f L = L\<lparr>sy_slots := hv_set (sy_slots L) i (f (hv_nth (sy_slots L) i))\<rparr>"

definition sy_allSiblingsFree :: "hs_layer \<Rightarrow> nat \<Rightarrow> nat \<Rightarrow> bool" where
  "sy_allSiblingsFree child child_begin count \<longleftrightarrow>
     list_all (\<lambda>i. ss_state (hv_nth (sy_slots child) (child_begin + i)) = SlotFree) [0..<count]"

text \<open>The child of a parent's region at position \<open>i\<close>.\<close>

definition ss_child :: "hs_slot \<Rightarrow> nat \<Rightarrow> nat \<Rightarrow> nat \<Rightarrow> hs_slot" where
  "ss_child parent bytes parent_idx i =
     \<lparr>ss_region = \<lparr>hr_data = hr_data (ss_region parent) + i * bytes, hr_size = bytes\<rparr>,
      ss_state = SlotFree, ss_parent_slot = parent_idx, ss_child_begin = 0\<rparr>"

text \<open>The two loops of \<open>splitSlot\<close>: over a span that is used again, and over new slots.\<close>

definition sy_reuseSpan :: "hs_slot \<Rightarrow> nat \<Rightarrow> nat \<Rightarrow> nat \<Rightarrow> hs_layer \<Rightarrow> hs_layer" where
  "sy_reuseSpan parent parent_idx child_begin count child =
     foldl (\<lambda>L i. L\<lparr>sy_slots := hv_set (sy_slots L) (child_begin + i) (ss_child parent (sy_slot_size L) parent_idx i),
                    sy_free_list := hv_pushBack (sy_free_list L) (hs_u32 (child_begin + i))\<rparr>)
       child [0..<count]"

definition sy_appendSpan :: "hs_slot \<Rightarrow> nat \<Rightarrow> nat \<Rightarrow> nat \<Rightarrow> hs_layer \<Rightarrow> hs_layer" where
  "sy_appendSpan parent parent_idx child_begin count child =
     foldl (\<lambda>L i. L\<lparr>sy_slots := hv_emplaceBack (sy_slots L) (ss_child parent (sy_slot_size L) parent_idx i),
                    sy_free_list := hv_pushBack (sy_free_list L) (hs_u32 (child_begin + i))\<rparr>)
       child [0..<count]"

definition hs_splitSlot :: "hs_layer \<Rightarrow> hs_layer \<Rightarrow> nat \<Rightarrow> hs_layer \<times> hs_layer" where
  "hs_splitSlot parent child parent_idx =
     (let parent_slot = hv_nth (sy_slots parent) parent_idx;
          count = sy_slot_size parent div sy_slot_size child;
          (child_begin, child') =
            (if \<not> hv_isEmpty (sy_span_free_list child)
             then let n = hv_size (sy_span_free_list child) - 1;
                      child_begin = hv_nth (sy_span_free_list child) n
                  in (child_begin, sy_reuseSpan parent_slot parent_idx child_begin count
                        (child\<lparr>sy_span_free_list := hv_resize (sy_span_free_list child) n 0\<rparr>))
             else let child_begin = hs_u32 (hv_size (sy_slots child))
                  in (child_begin, sy_appendSpan parent_slot parent_idx child_begin count child))
      in (sy_updateSlot parent_idx (ss_markSplit child_begin) parent, child'))"

subsection \<open>Regions and initialization\<close>

text \<open>
  The loop of \<open>addRegion\<close> that cuts a region into root slots.  With a slot size of 0 it would not end;
  \<open>validateLevels\<close> refuses such levels.
\<close>

function hs_carve :: "nat \<Rightarrow> nat \<Rightarrow> nat \<Rightarrow> hs_layer \<Rightarrow> hs_layer" where
  "hs_carve base offset remaining root =
     (if remaining = 0 \<or> sy_slot_size root = 0 then root
      else let step = (if remaining \<ge> sy_slot_size root then sy_slot_size root else remaining);
               slot_index = hs_u32 (hv_size (sy_slots root));
               slot = ss_new\<lparr>ss_region := \<lparr>hr_data = base + offset, hr_size = step\<rparr>, ss_state := SlotFree\<rparr>
           in hs_carve base (offset + step) (remaining - step)
                (root\<lparr>sy_slots := hv_emplaceBack (sy_slots root) slot,
                      sy_free_list := hv_pushBack (sy_free_list root) slot_index\<rparr>))"
  by pat_completeness auto
termination
  by (relation "measure (\<lambda>(base, offset, remaining, root). remaining)") (auto simp: Let_def split: if_splits)

declare hs_carve.simps [simp del]

definition hs_addRegion :: "'s heap_ops \<Rightarrow> nat \<Rightarrow> ('s hs_storage, unit) act" where
  "hs_addRegion H bytes S =
     (if hs_layers S = [] then (throw InvalidState, S)
      else let remaining = (if bytes = 0 then sy_slot_size (hs_layers S ! 0) else bytes)
           in bindA (hs_heap (ho_reserve H remaining))
                (\<lambda>region S. (Inr (), hs_setLayer S 0 (hs_carve (hr_data region) 0 remaining (hs_layers S ! 0)))) S)"

definition hs_initialize :: "'s heap_ops \<Rightarrow> bool \<Rightarrow> hs_config \<Rightarrow> ('s hs_storage, unit) act" where
  "hs_initialize H ops config S =
     (let S = S\<lparr>hs_config := config, hs_ops := ops\<rparr>;
          levels = hc_levels config
      in if \<not> ops then (throw NullPointer, S)
         else if levels = [] then (throw InvalidParameter, S)
         else bindA (\<lambda>S. (hs_validateLevels levels (hc_threshold config), S)) (\<lambda>_ S.
           if hc_initial_bytes config > 0 \<and> hc_initial_bytes config mod (levels ! 0) \<noteq> 0
           then (throw InvalidParameter, S)
           else if hc_expand_bytes config > 0 \<and> hc_expand_bytes config mod (levels ! 0) \<noteq> 0
           then (throw InvalidParameter, S)
           else hs_addRegion H (if hc_initial_bytes config = 0 then levels ! 0 else hc_initial_bytes config)
                  (S\<lparr>hs_layers := map sy_new levels\<rparr>)) S)"

section \<open>Single slots\<close>

fun hs_findParentWithFreeSlot :: "hs_layer list \<Rightarrow> nat \<Rightarrow> nat option" where
  "hs_findParentWithFreeSlot Ls 0 = None"
| "hs_findParentWithFreeSlot Ls (Suc i) =
     (if sy_hasFreeSlot (Ls ! i) then Some i else hs_findParentWithFreeSlot Ls i)"

text \<open>One round of the loop that splits downwards, and the loop.\<close>

definition hs_splitAt :: "nat \<Rightarrow> 's hs_storage \<Rightarrow> 's hs_storage" where
  "hs_splitAt i S =
     (let (slot_idx, parent) = sy_popFreeSlot (hs_layers S ! i);
          (parent', child) = hs_splitSlot parent (hs_layers S ! (i + 1)) slot_idx
      in hs_setLayer (hs_setLayer S i parent') (i + 1) child)"

fun hs_splitDown :: "nat list \<Rightarrow> 's hs_storage \<Rightarrow> 's hs_storage" where
  "hs_splitDown [] S = S"
| "hs_splitDown (i # is) S = hs_splitDown is (hs_splitAt i S)"

definition hs_ensureSlotAvailable :: "'s heap_ops \<Rightarrow> nat \<Rightarrow> ('s hs_storage, unit) act" where
  "hs_ensureSlotAvailable H target S =
     (if sy_hasFreeSlot (hs_layers S ! target) then (Inr (), S)
      else case hs_findParentWithFreeSlot (hs_layers S) target of
          Some parent_layer \<Rightarrow> (Inr (), hs_splitDown [parent_layer..<target] S)
        | None \<Rightarrow>
            (let expand = hc_expand_bytes (hs_config S);
                 expand = (if expand = 0 then sy_slot_size (hs_layers S ! 0) else expand)
             in bindA (hs_addRegion H expand) (\<lambda>_ S. (Inr (), hs_splitDown [0..<target] S)) S))"

definition hs_acquireSlot :: "nat \<Rightarrow> 's hs_storage \<Rightarrow> nat \<times> 's hs_storage" where
  "hs_acquireSlot layer_index S =
     (let (slot_idx, L) = sy_popFreeSlot (hs_layers S ! layer_index)
      in (slot_idx, hs_setLayer S layer_index (sy_updateSlot slot_idx ss_markInUse L)))"

definition hs_acquireSpecificSlot :: "nat \<Rightarrow> nat \<Rightarrow> ('s hs_storage, unit) act" where
  "hs_acquireSpecificSlot layer_index slot_index S =
     (let L = hs_layers S ! layer_index
      in if slot_index \<ge> hv_size (sy_slots L) then (throw OutOfMemory, S)
         else if ss_state (hv_nth (sy_slots L) slot_index) \<noteq> SlotFree then (throw OutOfMemory, S)
         else (Inr (), hs_setLayer S layer_index (sy_updateSlot slot_index ss_markInUse L)))"

definition hs_slotAt :: "'s hs_storage \<Rightarrow> nat \<Rightarrow> nat \<Rightarrow> hs_slot" where
  "hs_slotAt S layer_index slot_index = hv_nth (sy_slots (hs_layers S ! layer_index)) slot_index"

definition hs_mapSlot :: "'s heap_ops \<Rightarrow> nat \<Rightarrow> nat \<Rightarrow> ('s hs_storage, buffer_view) act" where
  "hs_mapSlot H layer_index slot_index S = hs_heap (ho_map H (ss_region (hs_slotAt S layer_index slot_index))) S"

definition hs_unmapSlot :: "'s heap_ops \<Rightarrow> nat \<Rightarrow> nat \<Rightarrow> ('s hs_storage, unit) act" where
  "hs_unmapSlot H layer_index slot_index S =
     hs_heap (ho_unmap H (ss_region (hs_slotAt S layer_index slot_index))
                (sy_slot_size (hs_layers S ! layer_index))) S"

definition hs_releaseSlot :: "nat \<Rightarrow> nat \<Rightarrow> 's hs_storage \<Rightarrow> 's hs_storage" where
  "hs_releaseSlot layer_index slot_index S =
     (let L = sy_updateSlot slot_index ss_markFree (hs_layers S ! layer_index)
      in hs_setLayer S layer_index (L\<lparr>sy_free_list := hv_pushBack (sy_free_list L) slot_index\<rparr>))"

text \<open>The address of a view, and the search for the slot that is in use at an address.\<close>

definition vw_data :: "buffer_view \<Rightarrow> nat" where
  "vw_data v = vw_base v + vw_offset v"

definition sy_findInUse :: "hs_layer \<Rightarrow> nat \<Rightarrow> nat option" where
  "sy_findInUse L address =
     find (\<lambda>j. ss_state (hv_nth (sy_slots L) j) = SlotInUse \<and>
               hr_data (ss_region (hv_nth (sy_slots L) j)) = address) [0..<hv_size (sy_slots L)]"

fun hs_findSlotFrom :: "nat \<Rightarrow> hs_layer list \<Rightarrow> nat \<Rightarrow> nat \<times> nat" where
  "hs_findSlotFrom layer_idx [] address = (hs_kInvalidLayer, 0)"
| "hs_findSlotFrom layer_idx (L # Ls) address =
     (case sy_findInUse L address of
        Some slot_idx \<Rightarrow> (layer_idx, slot_idx)
      | None \<Rightarrow> hs_findSlotFrom (layer_idx + 1) Ls address)"

definition hs_findSlot :: "buffer_view \<Rightarrow> 's hs_storage \<Rightarrow> nat \<times> nat" where
  "hs_findSlot v S = hs_findSlotFrom 0 (hs_layers S) (vw_data v)"

text \<open>The part of \<open>tryMergeUpward\<close> that returns the children to their parent.\<close>

definition hs_mergeSpan :: "nat \<Rightarrow> nat \<Rightarrow> nat \<Rightarrow> 's hs_storage \<Rightarrow> 's hs_storage" where
  "hs_mergeSpan parent_layer parent_idx count S =
     (let P = hs_layers S ! parent_layer;
          C = hs_layers S ! (parent_layer + 1);
          child_begin = ss_child_begin (hv_nth (sy_slots P) parent_idx);
          C' = C\<lparr>sy_free_list := foldl (\<lambda>v idx. if idx < child_begin \<or> idx \<ge> child_begin + count
                                              then hv_pushBack v idx else v) hv_new (hv_data (sy_free_list C)),
                 sy_span_free_list := hv_pushBack (sy_span_free_list C) child_begin\<rparr>;
          P' = sy_updateSlot parent_idx (\<lambda>s. (ss_markFree s)\<lparr>ss_child_begin := 0\<rparr>) P
      in hs_setLayer (hs_setLayer S (parent_layer + 1) C') parent_layer
           (P'\<lparr>sy_free_list := hv_pushBack (sy_free_list P') parent_idx\<rparr>))"

fun hs_tryMergeUpward :: "nat \<Rightarrow> nat \<Rightarrow> 's hs_storage \<Rightarrow> 's hs_storage" where
  "hs_tryMergeUpward 0 slot_idx S = S"
| "hs_tryMergeUpward (Suc parent_layer) slot_idx S =
     (let parent_idx = ss_parent_slot (hs_slotAt S (Suc parent_layer) slot_idx)
      in if parent_idx = hs_kNoParent then S
         else let parent = hs_slotAt S parent_layer parent_idx;
                  count = sy_slot_size (hs_layers S ! parent_layer) div sy_slot_size (hs_layers S ! Suc parent_layer)
              in if ss_state parent \<noteq> SlotSplit then S
                 else if \<not> sy_allSiblingsFree (hs_layers S ! Suc parent_layer) (ss_child_begin parent) count then S
                 else hs_tryMergeUpward parent_layer parent_idx (hs_mergeSpan parent_layer parent_idx count S))"

definition hs_allocate :: "'s heap_ops \<Rightarrow> nat \<Rightarrow> ('s hs_storage, buffer_view) act" where
  "hs_allocate H bytes S =
     (let target = hs_pickLayer (hc_levels (hs_config S)) bytes
      in if target = hs_kInvalidLayer then (throw OutOfMemory, S)
         else bindA (hs_ensureSlotAvailable H target)
                (\<lambda>_ S. let (slot_idx, S') = hs_acquireSlot target S in hs_mapSlot H target slot_idx S') S)"

definition hs_deallocate :: "'s heap_ops \<Rightarrow> buffer_view \<Rightarrow> ('s hs_storage, unit) act" where
  "hs_deallocate H v S =
     (if vw_empty v then (Inr (), S)
      else let (layer_idx, slot_idx) = hs_findSlot v S
           in if layer_idx = hs_kInvalidLayer then (Inr (), S)
              else if ss_state (hs_slotAt S layer_idx slot_idx) \<noteq> SlotInUse then (Inr (), S)
              else bindA (hs_unmapSlot H layer_idx slot_idx)
                     (\<lambda>_ S. (Inr (), hs_tryMergeUpward layer_idx slot_idx (hs_releaseSlot layer_idx slot_idx S))) S)"

end
