(* ===== verification/SegregateSafety.thy ===== *)
theory SegregateSafety
  imports SizeClasses "HOL-Library.Multiset"
begin

text \<open>
  The safety of the segregated pool: whatever sequence of allocations, deallocations, releases and
  completions a program makes, the buffers it holds do not overlap.  The invariant tells where every
  block of every chunk is: with the program, waiting for its token, or on a free list.
\<close>

section \<open>Handles\<close>

lemma lc_kChunkMask_mask: "lc_kChunkMask = mask 31"
  by (simp add: lc_kChunkMask_def lc_kLargeMask_def mask_eq_exp_minus_1)

lemma unat_small: "slot < 2 ^ 31 \<Longrightarrow> unat (of_nat slot :: u32) = slot"
  by (simp add: unsigned_of_nat take_bit_nat_eq_self)

lemma lc_mask_small:
  assumes "slot < 2 ^ 31"
  shows "(of_nat slot :: u32) AND lc_kChunkMask = of_nat slot"
proof -
  have "unat (take_bit 31 (of_nat slot :: u32)) = unat (of_nat slot :: u32)"
    using assms by (simp only: unsigned_take_bit_eq unat_small take_bit_nat_eq_self)
  then show ?thesis
    by (simp only: lc_kChunkMask_mask take_bit_eq_mask[symmetric] unsigned_word_eqI)
qed

lemma lc_encodeId_small: "slot < 2 ^ 31 \<Longrightarrow> lc_encodeId slot = of_nat slot"
  by (simp only: lc_encodeId_def lc_mask_small)

lemma lc_index_encode: "slot < 2 ^ 31 \<Longrightarrow> lc_indexFromId (of_nat slot) = slot"
  by (simp only: lc_indexFromId_def lc_mask_small unat_small)

lemma lc_handle_valid: "slot < 2 ^ 31 \<Longrightarrow> of_nat slot \<noteq> bk_invalidHandle"
proof
  assume s: "slot < 2 ^ 31" and "of_nat slot = bk_invalidHandle"
  then have "unat (of_nat slot :: u32) = unat bk_invalidHandle" by simp
  then have "slot = unat bk_invalidHandle" using s by (simp only: unat_small)
  with s show False by (simp add: bk_invalidHandle_def)
qed

lemma la_index_encode: "index < 2 ^ 31 \<Longrightarrow> la_indexFromId (la_encodeId index) = index"
proof -
  assume i: "index < 2 ^ 31"
  have "(of_nat index OR lc_kLargeMask) AND lc_kChunkMask = of_nat index AND lc_kChunkMask"
    by (rule bit_word_eqI) (auto simp: lc_kChunkMask_def lc_kLargeMask_def bit_simps)
  with lc_index_encode[OF i] show ?thesis
    by (simp add: la_indexFromId_def la_encodeId_def lc_indexFromId_def)
qed

lemma la_encode_large: "la_isLargeAlloc (la_encodeId index)"
proof -
  have "bit ((of_nat index OR lc_kLargeMask) AND lc_kLargeMask) 31"
    by (simp add: lc_kLargeMask_def bit_simps)
  then show ?thesis
    by (auto simp: la_isLargeAlloc_def la_encodeId_def)
qed

lemma la_chunk_not_large: "slot < 2 ^ 31 \<Longrightarrow> \<not> la_isLargeAlloc (lc_encodeId slot)"
proof -
  have "(of_nat slot AND lc_kChunkMask) AND lc_kLargeMask = 0"
    by (rule bit_word_eqI) (auto simp: lc_kChunkMask_def lc_kLargeMask_def bit_simps)
  then show ?thesis by (simp add: la_isLargeAlloc_def lc_encodeId_def)
qed

lemma la_encode_valid: "index < 2 ^ 31 - 1 \<Longrightarrow> la_encodeId index \<noteq> bk_invalidHandle"
proof
  assume i: "index < 2 ^ 31 - 1" and "la_encodeId index = bk_invalidHandle"
  then have "la_indexFromId (la_encodeId index) = la_indexFromId bk_invalidHandle" by simp
  moreover have "la_indexFromId bk_invalidHandle = 2 ^ 31 - 1"
    by (simp add: la_indexFromId_def bk_invalidHandle_def lc_kChunkMask_def lc_kLargeMask_def)
  ultimately show False using i la_index_encode[of index] by simp
qed

section \<open>Regions and the resource\<close>

definition vw_region :: "buffer_view \<Rightarrow> nat set" where
  "vw_region v = {vw_base v + vw_offset v ..< vw_base v + vw_offset v + vw_size v}"

definition rg_disjoint :: "buffer_view set \<Rightarrow> bool" where
  "rg_disjoint V \<longleftrightarrow> (\<forall>u \<in> V. \<forall>v \<in> V. u \<noteq> v \<longrightarrow> vw_region u \<inter> vw_region v = {})"

text \<open>
  What the pool relies on: \<open>live\<close> says which regions the resource has given out.  An allocation
  returns the empty view or a region of the requested size outside all of them; a deallocation with
  the size of the region takes it back.
\<close>

definition resource_ok :: "('r, 't) resource \<Rightarrow> ('r \<Rightarrow> buffer_view set) \<Rightarrow> bool" where
  "resource_ok rs live \<longleftrightarrow>
     (\<forall>n al r. (case rs_allocate rs n al r of
        (Inl e, r') \<Rightarrow> live r' = live r
      | (Inr v, r') \<Rightarrow>
          if vw_empty v then live r' = live r
          else live r' = insert v (live r) \<and> vw_size v = n \<and>
               (\<forall>u \<in> live r. vw_region u \<inter> vw_region v = {}))) \<and>
     (\<forall>n al r v. v \<in> live r \<longrightarrow> n = vw_size v \<longrightarrow> live (rs_deallocate rs v n al r) = live r - {v})"

lemma resource_okD:
  fixes n al :: nat and r :: 'r
  assumes "resource_ok rs live"
  shows "rs_allocate rs n al r = (Inr v, r') \<Longrightarrow> vw_empty v \<Longrightarrow> live r' = live r"
    and "rs_allocate rs n al r = (Inr v, r') \<Longrightarrow> \<not> vw_empty v \<Longrightarrow> live r' = insert v (live r)"
    and "rs_allocate rs n al r = (Inr v, r') \<Longrightarrow> \<not> vw_empty v \<Longrightarrow> vw_size v = n"
    and "rs_allocate rs n al r = (Inr v, r') \<Longrightarrow> \<not> vw_empty v \<Longrightarrow> u \<in> live r \<Longrightarrow> vw_region u \<inter> vw_region v = {}"
    and "v \<in> live r \<Longrightarrow> live (rs_deallocate rs v (vw_size v) al r) = live r - {v}"
    and "rs_allocate rs n al r = (Inl e, r') \<Longrightarrow> live r' = live r"
proof -
  note ok = conjunct1[OF assms[unfolded resource_ok_def], rule_format, where n = n and al = al and r = r]
  show "rs_allocate rs n al r = (Inr v, r') \<Longrightarrow> vw_empty v \<Longrightarrow> live r' = live r"
    and "rs_allocate rs n al r = (Inr v, r') \<Longrightarrow> \<not> vw_empty v \<Longrightarrow> live r' = insert v (live r)"
    and "rs_allocate rs n al r = (Inr v, r') \<Longrightarrow> \<not> vw_empty v \<Longrightarrow> vw_size v = n"
    and "rs_allocate rs n al r = (Inr v, r') \<Longrightarrow> \<not> vw_empty v \<Longrightarrow> u \<in> live r \<Longrightarrow> vw_region u \<inter> vw_region v = {}"
    and "rs_allocate rs n al r = (Inl e, r') \<Longrightarrow> live r' = live r"
    using ok by simp_all
  show "v \<in> live r \<Longrightarrow> live (rs_deallocate rs v (vw_size v) al r) = live r - {v}"
    using assms by (simp add: resource_ok_def)
qed

section \<open>Blocks of chunks\<close>

definition sg_slot :: "buffer_block \<Rightarrow> nat" where
  "sg_slot b = lc_indexFromId (bk_handle b)"

definition sg_key :: "buffer_block \<Rightarrow> u32 \<times> nat" where
  "sg_key b = (bk_handle b, vw_offset (bk_view b))"

text \<open>A block lies in an alive chunk, at a multiple of its size.\<close>

definition sg_blk :: "chunk_info list \<Rightarrow> buffer_block \<Rightarrow> bool" where
  "sg_blk C b \<longleftrightarrow>
     sg_slot b < length C \<and> sg_slot b < 2 ^ 31 \<and> bk_handle b = of_nat (sg_slot b) \<and> ck_alive (C ! sg_slot b) \<and>
     vw_base (bk_view b) = vw_base (ck_base (C ! sg_slot b)) \<and> vw_base (bk_view b) \<noteq> 0 \<and> 0 < vw_size (bk_view b) \<and>
     vw_offset (ck_base (C ! sg_slot b)) \<le> vw_offset (bk_view b) \<and>
     vw_size (bk_view b) dvd (vw_offset (bk_view b) - vw_offset (ck_base (C ! sg_slot b))) \<and>
     vw_offset (bk_view b) + vw_size (bk_view b) \<le> vw_offset (ck_base (C ! sg_slot b)) + ck_size (C ! sg_slot b)"

definition sg_geo :: "chunk_info \<Rightarrow> buffer_view \<times> nat \<times> bool" where
  "sg_geo c = (ck_base c, ck_size c, ck_alive c)"

lemma sg_blk_cong:
  assumes "sg_slot b < length C \<Longrightarrow> sg_slot b < length D \<and> sg_geo (D ! sg_slot b) = sg_geo (C ! sg_slot b)"
  shows "sg_blk C b \<Longrightarrow> sg_blk D b"
  using assms by (auto simp: sg_blk_def sg_geo_def)

lemma sg_blk_valid: "sg_blk C b \<Longrightarrow> bk_valid b"
  by (auto simp: sg_blk_def bk_valid_def vw_empty_def lc_handle_valid)

lemma sg_blk_find: "sg_blk C b \<Longrightarrow> C = lc_chunks l \<Longrightarrow> lc_find l (bk_handle b) = Some (sg_slot b)"
  by (simp add: sg_blk_def lc_find_def sg_slot_def)

text \<open>
  \<open>H\<close> are the blocks the program holds, \<open>P\<close> those that wait for a token or are ready, \<open>F\<close> those
  on the free lists.
\<close>

definition sg_chunks ::
  "nat \<Rightarrow> chunk_info list \<Rightarrow> buffer_block multiset \<Rightarrow> buffer_block multiset \<Rightarrow> buffer_block multiset \<Rightarrow> bool" where
  "sg_chunks N C H P F \<longleftrightarrow>
     (\<forall>b \<in># H + P + F. sg_blk C b) \<and>
     (\<forall>b \<in># H + P + F. \<forall>c \<in># H + P + F. bk_handle b = bk_handle c \<longrightarrow> vw_size (bk_view b) = vw_size (bk_view c)) \<and>
     (\<forall>k. count (image_mset sg_key (H + P + F)) k \<le> 1) \<and>
     (\<forall>i. size (filter_mset (\<lambda>b. sg_slot b = i) (H + P + F)) \<le> N) \<and>
     (\<forall>i < length C. ck_alive (C ! i) \<longrightarrow>
        unat (ck_used (C ! i)) = size (filter_mset (\<lambda>b. sg_slot b = i) (H + P)) \<and>
        unat (ck_pending (C ! i)) = size (filter_mset (\<lambda>b. sg_slot b = i) P))"

lemma sg_chunksD:
  assumes "sg_chunks N C H P F"
  shows "b \<in># H + P + F \<Longrightarrow> sg_blk C b"
    and "b \<in># H + P + F \<Longrightarrow> c \<in># H + P + F \<Longrightarrow> bk_handle b = bk_handle c \<Longrightarrow> vw_size (bk_view b) = vw_size (bk_view c)"
    and "count (image_mset sg_key (H + P + F)) k \<le> 1"
    and "size (filter_mset (\<lambda>b. sg_slot b = i) (H + P + F)) \<le> N"
    and "i < length C \<Longrightarrow> ck_alive (C ! i) \<Longrightarrow> unat (ck_used (C ! i)) = size (filter_mset (\<lambda>b. sg_slot b = i) (H + P))"
    and "i < length C \<Longrightarrow> ck_alive (C ! i) \<Longrightarrow> unat (ck_pending (C ! i)) = size (filter_mset (\<lambda>b. sg_slot b = i) P)"
  using assms unfolding sg_chunks_def by blast+

text \<open>
  A block moves between the three places: the multiset of all blocks and the chunks' geometry stay, and
  only the counters of its chunk change.
\<close>

lemma sg_chunks_move:
  assumes inv: "sg_chunks N C H P F"
    and all: "H' + P' + F' = H + P + F"
    and len: "length D = length C"
    and geo: "\<And>i. i < length C \<Longrightarrow> sg_geo (D ! i) = sg_geo (C ! i)"
    and used: "\<And>i. i < length C \<Longrightarrow> ck_alive (C ! i) \<Longrightarrow>
       unat (ck_used (D ! i)) = size (filter_mset (\<lambda>b. sg_slot b = i) (H' + P'))"
    and pending: "\<And>i. i < length C \<Longrightarrow> ck_alive (C ! i) \<Longrightarrow>
       unat (ck_pending (D ! i)) = size (filter_mset (\<lambda>b. sg_slot b = i) P')"
  shows "sg_chunks N D H' P' F'"
  unfolding sg_chunks_def all
proof (intro conjI)
  show "\<forall>b \<in># H + P + F. sg_blk D b"
    using sg_chunksD(1)[OF inv] geo len by (auto intro: sg_blk_cong)
  show "\<forall>i < length D. ck_alive (D ! i) \<longrightarrow>
        unat (ck_used (D ! i)) = size (filter_mset (\<lambda>b. sg_slot b = i) (H' + P')) \<and>
        unat (ck_pending (D ! i)) = size (filter_mset (\<lambda>b. sg_slot b = i) P')"
    using used pending len geo by (simp add: sg_geo_def)
qed (use sg_chunksD(2-4)[OF inv] in blast)+

lemma unat_suc32: "unat (w :: u32) + 1 < 2 ^ 32 \<Longrightarrow> unat (w + 1) = unat w + 1"
  by (simp add: unat_word_ariths)

lemma unat_pred32: "0 < unat (w :: u32) \<Longrightarrow> unat (w - 1) = unat w - 1"
  by (metis unat_minus_one unsigned_0 less_irrefl)

lemma lc_modify_chunks:
  "sg_blk (lc_chunks l) b \<Longrightarrow>
   lc_chunks (lc_modify (bk_handle b) f l) = (lc_chunks l)[sg_slot b := f (lc_chunks l ! sg_slot b)]"
  by (simp add: lc_modify_def sg_blk_find)

lemma lc_modify_frame [simp]: "lc_free (lc_modify h f l) = lc_free l" "lc_ready (lc_modify h f l) = lc_ready l"
  by (simp_all add: lc_modify_def split: option.split)

lemmas lc_modifies = lc_incrementUsed_def lc_incrementPending_def lc_decrementPendingAndUsed_def

lemma sg_incrementUsed:
  assumes inv: "sg_chunks N (lc_chunks l) H P (add_mset b F)" and N: "N < 2 ^ 32"
  shows "sg_chunks N (lc_chunks (lc_incrementUsed (bk_handle b) l)) (add_mset b H) P F"
proof -
  let ?C = "lc_chunks l" and ?s = "sg_slot b"
  have b: "sg_blk ?C b" using sg_chunksD(1)[OF inv] by simp
  then have s: "?s < length ?C" "ck_alive (?C ! ?s)" by (simp_all add: sg_blk_def)
  have u: "unat (ck_used (?C ! ?s)) + 1 < 2 ^ 32"
    using sg_chunksD(4)[OF inv, of ?s] sg_chunksD(5)[OF inv s] N by simp
  show ?thesis
  proof (rule sg_chunks_move[OF inv])
    show "unat (ck_used (lc_chunks (lc_incrementUsed (bk_handle b) l) ! i)) =
        size (filter_mset (\<lambda>b. sg_slot b = i) (add_mset b H + P))" if "i < length ?C" "ck_alive (?C ! i)" for i
      using sg_chunksD(5)[OF inv that] that u s
      by (auto simp: lc_incrementUsed_def lc_modify_chunks[OF b] nth_list_update unat_suc32)
    show "unat (ck_pending (lc_chunks (lc_incrementUsed (bk_handle b) l) ! i)) =
        size (filter_mset (\<lambda>b. sg_slot b = i) P)" if "i < length ?C" "ck_alive (?C ! i)" for i
      using sg_chunksD(6)[OF inv that] that s
      by (auto simp: lc_incrementUsed_def lc_modify_chunks[OF b] nth_list_update)
  qed (use s in \<open>auto simp: lc_incrementUsed_def lc_modify_chunks[OF b] nth_list_update sg_geo_def\<close>)
qed

lemma sg_incrementPending:
  assumes inv: "sg_chunks N (lc_chunks l) (add_mset b H) P F" and N: "N < 2 ^ 32"
  shows "sg_chunks N (lc_chunks (lc_incrementPending (bk_handle b) l)) H (add_mset b P) F"
proof -
  let ?C = "lc_chunks l" and ?s = "sg_slot b"
  have b: "sg_blk ?C b" using sg_chunksD(1)[OF inv] by simp
  then have s: "?s < length ?C" "ck_alive (?C ! ?s)" by (simp_all add: sg_blk_def)
  have u: "unat (ck_pending (?C ! ?s)) + 1 < 2 ^ 32"
    using sg_chunksD(4)[OF inv, of ?s] sg_chunksD(6)[OF inv s] N by simp
  show ?thesis
  proof (rule sg_chunks_move[OF inv])
    show "unat (ck_used (lc_chunks (lc_incrementPending (bk_handle b) l) ! i)) =
        size (filter_mset (\<lambda>b. sg_slot b = i) (H + add_mset b P))" if "i < length ?C" "ck_alive (?C ! i)" for i
      using sg_chunksD(5)[OF inv that] that s
      by (auto simp: lc_incrementPending_def lc_modify_chunks[OF b] nth_list_update)
    show "unat (ck_pending (lc_chunks (lc_incrementPending (bk_handle b) l) ! i)) =
        size (filter_mset (\<lambda>b. sg_slot b = i) (add_mset b P))" if "i < length ?C" "ck_alive (?C ! i)" for i
      using sg_chunksD(6)[OF inv that] that u s
      by (auto simp: lc_incrementPending_def lc_modify_chunks[OF b] nth_list_update unat_suc32)
  qed (use s in \<open>auto simp: lc_incrementPending_def lc_modify_chunks[OF b] nth_list_update sg_geo_def\<close>)
qed

lemma sg_decrementPendingAndUsed:
  assumes inv: "sg_chunks N (lc_chunks l) H (add_mset b P) F"
  shows "sg_chunks N (lc_chunks (lc_decrementPendingAndUsed (bk_handle b) l)) H P (add_mset b F)"
proof -
  let ?C = "lc_chunks l" and ?s = "sg_slot b"
  have b: "sg_blk ?C b" using sg_chunksD(1)[OF inv] by simp
  then have s: "?s < length ?C" "ck_alive (?C ! ?s)" by (simp_all add: sg_blk_def)
  have u: "0 < unat (ck_pending (?C ! ?s))" "0 < unat (ck_used (?C ! ?s))"
    using sg_chunksD(5,6)[OF inv s] by simp_all
  then have w: "ck_pending (?C ! ?s) > 0" "ck_used (?C ! ?s) > 0"
    by (simp_all add: word_less_nat_alt)
  show ?thesis
  proof (rule sg_chunks_move[OF inv])
    show "unat (ck_used (lc_chunks (lc_decrementPendingAndUsed (bk_handle b) l) ! i)) =
        size (filter_mset (\<lambda>b. sg_slot b = i) (H + P))" if "i < length ?C" "ck_alive (?C ! i)" for i
      using sg_chunksD(5)[OF inv that] that s
      by (auto simp: lc_decrementPendingAndUsed_def lc_modify_chunks[OF b] nth_list_update w unat_pred32[OF u(2)])
    show "unat (ck_pending (lc_chunks (lc_decrementPendingAndUsed (bk_handle b) l) ! i)) =
        size (filter_mset (\<lambda>b. sg_slot b = i) P)" if "i < length ?C" "ck_alive (?C ! i)" for i
      using sg_chunksD(6)[OF inv that] that s
      by (auto simp: lc_decrementPendingAndUsed_def lc_modify_chunks[OF b] nth_list_update w unat_pred32[OF u(1)])
  qed (use s w in \<open>auto simp: lc_decrementPendingAndUsed_def lc_modify_chunks[OF b] nth_list_update sg_geo_def\<close>)
qed

lemma filter_mset_all: "(\<And>x. x \<in># M \<Longrightarrow> Q x) \<Longrightarrow> filter_mset Q M = M"
  by (simp add: filter_mset_eq_conv)

text \<open>A new chunk in a slot that was dead, all of its blocks free.\<close>

lemma sg_chunks_add:
  assumes inv: "sg_chunks N C H P F"
    and dead: "s < length C \<Longrightarrow> \<not> ck_alive (C ! s)"
    and slot: "s < length D" "s < 2 ^ 31"
    and len: "\<And>i. i < length D \<Longrightarrow> i < length C \<or> i = s" "length C \<le> length D"
    and same: "\<And>i. i < length C \<Longrightarrow> i \<noteq> s \<Longrightarrow> D ! i = C ! i"
    and new: "ck_alive (D ! s)" "ck_used (D ! s) = 0" "ck_pending (D ! s) = 0"
    and B: "\<And>b. b \<in># B \<Longrightarrow> sg_blk D b \<and> sg_slot b = s \<and> vw_size (bk_view b) = bs"
    and keys: "\<And>k. count (image_mset sg_key B) k \<le> 1"
    and size: "size B \<le> N"
  shows "sg_chunks N D H P (B + F)"
proof -
  have old: "sg_blk D b \<and> sg_slot b \<noteq> s \<and> bk_handle b = of_nat (sg_slot b)" if "b \<in># H + P + F" for b
  proof -
    have b: "sg_blk C b" by (rule sg_chunksD(1)[OF inv that])
    then have "sg_slot b \<noteq> s" "sg_slot b < length C" using dead by (auto simp: sg_blk_def)
    with b same len(2) show ?thesis
      by (auto intro: sg_blk_cong[rotated] simp: sg_blk_def)
  qed
  have handle: "bk_handle b \<noteq> bk_handle c" if "b \<in># H + P + F" "c \<in># B" for b c
    using old[OF that(1)] B[OF that(2)] by (metis sg_slot_def)
  have f0: "filter_mset (\<lambda>b. sg_slot b = s) M = {#}" if "\<And>b. b \<in># M \<Longrightarrow> b \<in># H + P + F" for M
    using old that by auto
  have fB: "filter_mset (\<lambda>b. sg_slot b = i) B = (if i = s then B else {#})" for i
    using B by (auto simp: filter_mset_eq_mempty_iff intro!: filter_mset_all)
  have kd: "k \<in># image_mset sg_key B \<Longrightarrow> k \<notin># image_mset sg_key (H + P + F)" for k
    using handle by (fastforce simp: sg_key_def)
  have all: "H + P + (B + F) = B + (H + P + F)" by (simp add: ac_simps)
  show ?thesis
    unfolding sg_chunks_def all
  proof (intro conjI allI impI ballI)
    fix b assume "b \<in># B + (H + P + F)"
    then show "sg_blk D b" using old B by auto
  next
    fix b c assume "b \<in># B + (H + P + F)" "c \<in># B + (H + P + F)" "bk_handle b = bk_handle c"
    then show "vw_size (bk_view b) = vw_size (bk_view c)"
      using handle B sg_chunksD(2)[OF inv] by (metis union_iff)
  next
    fix k
    show "count (image_mset sg_key (B + (H + P + F))) k \<le> 1"
      using keys[of k] sg_chunksD(3)[OF inv, of k] kd[of k] unfolding image_mset_union[of sg_key B]
      by (cases "k \<in># image_mset sg_key B") (simp_all add: not_in_iff del: image_mset_union set_image_mset)
  next
    fix i
    show "size (filter_mset (\<lambda>b. sg_slot b = i) (B + (H + P + F))) \<le> N"
      using sg_chunksD(4)[OF inv, of i] size f0[of H] f0[of P] f0[of F]
      by (cases "i = s") (simp_all add: fB del: filter_mset_eq_mempty_iff)
  next
    fix i assume i: "i < length D" "ck_alive (D ! i)"
    show "unat (ck_used (D ! i)) = size (filter_mset (\<lambda>b. sg_slot b = i) (H + P))"
      using i len(1)[of i] same[of i] sg_chunksD(5)[OF inv, of i] new f0[of H] f0[of P] by (cases "i = s") auto
    show "unat (ck_pending (D ! i)) = size (filter_mset (\<lambda>b. sg_slot b = i) P)"
      using i len(1)[of i] same[of i] sg_chunksD(6)[OF inv, of i] new f0[of P] by (cases "i = s") auto
  qed
qed

text \<open>An idle chunk goes, and with it the free blocks in it.\<close>

lemma sg_chunks_release:
  assumes inv: "sg_chunks N C H P F"
    and s: "s < length C" "ck_alive (C ! s)" "ck_used (C ! s) = 0"
  shows "sg_chunks N (C[s := ck_none]) H P (filter_mset (\<lambda>b. sg_slot b \<noteq> s) F)"
proof -
  have idle: "filter_mset (\<lambda>b. sg_slot b = s) (H + P) = {#}"
    using sg_chunksD(5)[OF inv s(1,2)] s(3) by simp
  then have ne: "sg_slot b \<noteq> s" if "b \<in># H + P" for b
    using that by auto
  have sub: "H + P + filter_mset (\<lambda>b. sg_slot b \<noteq> s) F \<subseteq># H + P + F"
    by (intro subset_mset.add_mono) simp_all
  show ?thesis
    unfolding sg_chunks_def
  proof (intro conjI allI impI ballI)
    fix b assume b: "b \<in># H + P + filter_mset (\<lambda>b. sg_slot b \<noteq> s) F"
    then have "sg_slot b \<noteq> s" using ne by auto
    with b sg_chunksD(1)[OF inv, of b] sub show "sg_blk (C[s := ck_none]) b"
      by (auto intro: sg_blk_cong[rotated])
  next
    fix b c assume "b \<in># H + P + filter_mset (\<lambda>b. sg_slot b \<noteq> s) F" "c \<in># H + P + filter_mset (\<lambda>b. sg_slot b \<noteq> s) F"
      "bk_handle b = bk_handle c"
    then show "vw_size (bk_view b) = vw_size (bk_view c)"
      using sg_chunksD(2)[OF inv] by auto
  next
    fix k
    show "count (image_mset sg_key (H + P + filter_mset (\<lambda>b. sg_slot b \<noteq> s) F)) k \<le> 1"
      using sg_chunksD(3)[OF inv, of k] mset_subset_eq_count[OF image_mset_subseteq_mono[OF sub, of sg_key], of k]
      by linarith
  next
    fix i
    show "size (filter_mset (\<lambda>b. sg_slot b = i) (H + P + filter_mset (\<lambda>b. sg_slot b \<noteq> s) F)) \<le> N"
      using sg_chunksD(4)[OF inv, of i] size_mset_mono[OF multiset_filter_mono[OF sub, of "\<lambda>b. sg_slot b = i"]]
      by linarith
  next
    fix i assume i: "i < length (C[s := ck_none])" "ck_alive (C[s := ck_none] ! i)"
    then have "i \<noteq> s" "i < length C" "ck_alive (C ! i)" by (cases "i = s"; simp add: ck_none_def)+
    then show "unat (ck_used (C[s := ck_none] ! i)) = size (filter_mset (\<lambda>b. sg_slot b = i) (H + P))"
      "unat (ck_pending (C[s := ck_none] ! i)) = size (filter_mset (\<lambda>b. sg_slot b = i) P)"
      using sg_chunksD(5,6)[OF inv] by simp_all
  qed
qed

section \<open>Owned regions\<close>

definition sg_own :: "chunk_info list \<Rightarrow> large_entry list \<Rightarrow> buffer_view list" where
  "sg_own C E = map ck_base (filter ck_alive C) @ map le_view (filter le_in_use E)"

definition sg_owned :: "buffer_view set \<Rightarrow> chunk_info list \<Rightarrow> large_entry list \<Rightarrow> bool" where
  "sg_owned V C E \<longleftrightarrow>
     rg_disjoint V \<and> distinct (sg_own C E) \<and> set (sg_own C E) \<subseteq> V \<and>
     (\<forall>c \<in> set C. ck_alive c \<longrightarrow> vw_size (ck_base c) = ck_size c)"

lemma mset_map_filter_middle:
  "mset (map f (filter Q (ys @ x # zs))) =
   mset (map f (filter Q (ys @ zs))) + (if Q x then {#f x#} else {#})"
  by simp

lemma mset_map_filter_update:
  assumes "i < length xs"
  shows "mset (map f (filter Q (xs[i := x]))) + (if Q (xs ! i) then {#f (xs ! i)#} else {#}) =
     mset (map f (filter Q xs)) + (if Q x then {#f x#} else {#})"
proof -
  have "xs = take i xs @ xs ! i # drop (Suc i) xs" using assms by (simp add: id_take_nth_drop)
  moreover have "xs[i := x] = take i xs @ x # drop (Suc i) xs" using assms by (simp add: upd_conv_take_nth_drop)
  ultimately show ?thesis
    using mset_map_filter_middle[of f Q "take i xs" "xs ! i" "drop (Suc i) xs"]
      mset_map_filter_middle[of f Q "take i xs" x "drop (Suc i) xs"] by (simp only: ac_simps)
qed

lemma sg_own_distinctD:
  assumes "distinct (map f (filter Q xs))" and "i < length xs" "j < length xs" "Q (xs ! i)" "Q (xs ! j)" "f (xs ! i) = f (xs ! j)"
  shows "i = j"
  using assms
proof (induction xs arbitrary: i j)
  case (Cons x xs)
  have mem: "Q ((x # xs) ! k) \<Longrightarrow> 0 < k \<Longrightarrow> k < length (x # xs) \<Longrightarrow> f ((x # xs) ! k) \<in> f ` set (filter Q xs)" for k
    by (cases k) auto
  show ?case
  proof (cases "i = 0 \<or> j = 0")
    case True
    then show ?thesis using Cons.prems mem[of i] mem[of j] by (cases i; cases j) auto
  next
    case False
    then obtain i' j' where "i = Suc i'" "j = Suc j'" by (metis not0_implies_Suc)
    with Cons show ?thesis by (auto split: if_splits)
  qed
qed simp

lemma sg_owned_mset:
  assumes "sg_owned V C E" and "mset (sg_own C' E') = mset (sg_own C E)"
    and "\<And>c. c \<in> set C' \<Longrightarrow> ck_alive c \<Longrightarrow> vw_size (ck_base c) = ck_size c"
  shows "sg_owned V C' E'"
  using assms mset_eq_imp_distinct_iff[OF assms(2)] mset_eq_setD[OF assms(2)] by (simp add: sg_owned_def)

lemma sg_owned_add:
  assumes inv: "sg_owned V C E" and own: "mset (sg_own C' E') = add_mset v (mset (sg_own C E))"
    and size: "0 < vw_size v" and fresh: "\<And>u. u \<in> V \<Longrightarrow> vw_region u \<inter> vw_region v = {}"
    and c: "\<And>c. c \<in> set C' \<Longrightarrow> ck_alive c \<Longrightarrow> vw_size (ck_base c) = ck_size c"
  shows "sg_owned (insert v V) C' E'"
proof -
  have "vw_region v \<noteq> {}" using size by (simp add: vw_region_def)
  then have "v \<notin> V" using fresh by blast
  moreover have "rg_disjoint (insert v V)"
    using inv fresh by (auto simp: sg_owned_def rg_disjoint_def)
  moreover have "mset (sg_own C' E') = mset (v # sg_own C E)" using own by simp
  ultimately show ?thesis
    using inv c mset_eq_imp_distinct_iff[of "sg_own C' E'" "v # sg_own C E"] mset_eq_setD[of "sg_own C' E'" "v # sg_own C E"]
    by (auto simp: sg_owned_def)
qed

lemma sg_owned_remove:
  assumes inv: "sg_owned V C E" and own: "add_mset v (mset (sg_own C' E')) = mset (sg_own C E)"
    and c: "\<And>c. c \<in> set C' \<Longrightarrow> ck_alive c \<Longrightarrow> vw_size (ck_base c) = ck_size c"
  shows "sg_owned (V - {v}) C' E'"
proof -
  have "mset (v # sg_own C' E') = mset (sg_own C E)" using own by simp
  then show ?thesis
    using inv c mset_eq_imp_distinct_iff[of "v # sg_own C' E'" "sg_own C E"] mset_eq_setD[of "v # sg_own C' E'" "sg_own C E"]
    by (auto simp: sg_owned_def rg_disjoint_def)
qed

section \<open>The free lists\<close>

definition fl_blocks :: "host_freelist \<Rightarrow> buffer_block multiset" where
  "fl_blocks f = mset (concat (fl_stacks f))"

definition fl_sized :: "nat \<Rightarrow> host_freelist \<Rightarrow> bool" where
  "fl_sized m f \<longleftrightarrow>
     (\<forall>i < length (fl_stacks f). \<forall>b \<in> set (fl_stacks f ! i). vw_size (bk_view b) = sc_sizeClassToBlockSize i m)"

lemma mset_concat_update:
  "i < length xss \<Longrightarrow> mset (concat (xss[i := xs])) + mset (xss ! i) = mset (concat xss) + mset xs"
proof (induction xss arbitrary: i)
  case (Cons ys yss)
  show ?case
  proof (cases i)
    case (Suc j)
    with Cons.IH[of j] Cons.prems have "mset (concat (yss[j := xs])) + mset (yss ! j) = mset (concat yss) + mset xs" by simp
    then show ?thesis using Suc by (simp add: ac_simps)
  qed (simp add: ac_simps)
qed simp

lemma fl_ensure:
  "fl_blocks (fl_ensureCapacity i f) = fl_blocks f"
  "fl_sized m f \<Longrightarrow> fl_sized m (fl_ensureCapacity i f)"
  "fl_ready (fl_ensureCapacity i f) = fl_ready f"
  "i < length (fl_stacks (fl_ensureCapacity i f))"
proof -
  have "concat (replicate k []) = ([] :: buffer_block list)" for k by (induction k) auto
  then show "fl_blocks (fl_ensureCapacity i f) = fl_blocks f"
    by (simp add: fl_blocks_def fl_ensureCapacity_def)
qed (auto simp: fl_sized_def fl_ensureCapacity_def nth_append)

lemma fl_append:
  assumes "i < length (fl_stacks f)"
  shows "fl_blocks (f\<lparr>fl_stacks := (fl_stacks f)[i := fl_stacks f ! i @ bs]\<rparr>) = mset bs + fl_blocks f"
    and "fl_sized m f \<Longrightarrow> (\<And>b. b \<in> set bs \<Longrightarrow> vw_size (bk_view b) = sc_sizeClassToBlockSize i m) \<Longrightarrow>
         fl_sized m (f\<lparr>fl_stacks := (fl_stacks f)[i := fl_stacks f ! i @ bs]\<rparr>)"
proof -
  show "fl_blocks (f\<lparr>fl_stacks := (fl_stacks f)[i := fl_stacks f ! i @ bs]\<rparr>) = mset bs + fl_blocks f"
    using mset_concat_update[OF assms, of "fl_stacks f ! i @ bs"] by (simp add: fl_blocks_def ac_simps)
qed (use assms in \<open>auto simp: fl_sized_def nth_list_update split: if_splits\<close>)

lemma fl_push_ok:
  assumes "fl_ready f" and "fl_sized m f" and "vw_size (bk_view b) = sc_sizeClassToBlockSize i m"
  shows "\<exists>f'. fl_push i b f = (Inr (), f') \<and> fl_ready f' \<and> fl_sized m f' \<and> fl_blocks f' = add_mset b (fl_blocks f)"
  using assms fl_append(1)[OF fl_ensure(4)[of i f], of "[b]"]
    fl_append(2)[OF fl_ensure(4)[of i f], where m = m and bs = "[b]"] by (simp add: fl_push_def Let_def fl_ensure)

lemma fl_pop_ok:
  assumes "fl_ready f" and "fl_sized m f" and "fl_pop i f = (x, f')"
  shows "fl_ready f' \<and> fl_sized m f' \<and>
     (x = Inr bk_none \<and> f' = f \<or>
      (\<exists>b. x = Inr b \<and> fl_blocks f = add_mset b (fl_blocks f') \<and> vw_size (bk_view b) = sc_sizeClassToBlockSize i m))"
proof (cases "i \<ge> length (fl_stacks f) \<or> fl_stacks f ! i = []")
  case True
  with assms show ?thesis by (auto simp: fl_pop_def)
next
  case False
  let ?xs = "fl_stacks f ! i"
  have i: "i < length (fl_stacks f)" and ne: "?xs \<noteq> []" using False by auto
  have x: "x = Inr (last ?xs)" and f': "f' = f\<lparr>fl_stacks := (fl_stacks f)[i := butlast ?xs]\<rparr>"
    using assms False by (auto simp: fl_pop_def)
  have "mset ?xs = add_mset (last ?xs) (mset (butlast ?xs))"
    using ne by (metis append_butlast_last_id mset.simps(1,2) mset_append add_mset_add_single)
  then have "fl_blocks f = add_mset (last ?xs) (fl_blocks f')"
    using mset_concat_update[OF i, of "butlast ?xs"] by (simp add: fl_blocks_def f' ac_simps)
  moreover have "vw_size (bk_view (last ?xs)) = sc_sizeClassToBlockSize i m"
    using assms(2) i ne by (auto simp: fl_sized_def)
  moreover have "fl_sized m f'"
    using assms(2) i by (auto simp: fl_sized_def f' nth_list_update dest: in_set_butlastD)
  ultimately show ?thesis
    using assms(1) x f' by auto
qed

lemma fl_remove_ok:
  "fl_ready (fl_removeBlocksInChunk h f) = fl_ready f"
  "fl_sized m f \<Longrightarrow> fl_sized m (fl_removeBlocksInChunk h f)"
  "fl_blocks (fl_removeBlocksInChunk h f) = filter_mset (\<lambda>b. bk_handle b \<noteq> h) (fl_blocks f)"
proof -
  have "mset (concat (map (\<lambda>s. filter (\<lambda>b. bk_handle b \<noteq> h) (rev s)) xss)) =
      filter_mset (\<lambda>b. bk_handle b \<noteq> h) (mset (concat xss))" for xss
    by (induction xss) auto
  then show "fl_blocks (fl_removeBlocksInChunk h f) = filter_mset (\<lambda>b. bk_handle b \<noteq> h) (fl_blocks f)"
    by (simp add: fl_blocks_def fl_removeBlocksInChunk_def)
qed (auto simp: fl_removeBlocksInChunk_def fl_sized_def)

section \<open>The invariant of the pool\<close>

definition dr_blocks :: "'t deferred_reuse \<Rightarrow> buffer_block multiset" where
  "dr_blocks d = mset (map pr_block (dr_pending d)) + mset (map fst (dr_queue d))"

definition dr_sized :: "nat \<Rightarrow> 't deferred_reuse \<Rightarrow> bool" where
  "dr_sized m d \<longleftrightarrow>
     (\<forall>p \<in> set (dr_pending d). vw_size (bk_view (pr_block p)) = sc_sizeClassToBlockSize (pr_index p) m) \<and>
     (\<forall>(b, i) \<in> set (dr_queue d). vw_size (bk_view b) = sc_sizeClassToBlockSize i m)"

definition sg_pool :: "('r \<Rightarrow> buffer_view set) \<Rightarrow> buffer_block multiset \<Rightarrow> ('r, 't) segregate_pool \<Rightarrow> bool" where
  "sg_pool live H p \<longleftrightarrow>
     lc_ready (gp_chunk_locator p) \<and> la_ready (gp_large_alloc p) \<and> dr_ready (gp_reuse p) \<and> fl_ready (gp_freelist p) \<and>
     0 < gp_min_block_size p \<and> gp_chunk_size p < 2 ^ 32 \<and>
     sg_chunks (gp_chunk_size p) (lc_chunks (gp_chunk_locator p)) H (dr_blocks (gp_reuse p)) (fl_blocks (gp_freelist p)) \<and>
     dr_sized (gp_min_block_size p) (gp_reuse p) \<and> fl_sized (gp_min_block_size p) (gp_freelist p) \<and>
     sg_owned (live (gp_resource p)) (lc_chunks (gp_chunk_locator p)) (la_entries (gp_large_alloc p)) \<and>
     distinct (lc_free (gp_chunk_locator p)) \<and>
     (\<forall>s \<in> set (lc_free (gp_chunk_locator p)).
        s < length (lc_chunks (gp_chunk_locator p)) \<and> \<not> ck_alive (lc_chunks (gp_chunk_locator p) ! s)) \<and>
     distinct (la_free (gp_large_alloc p)) \<and>
     (\<forall>s \<in> set (la_free (gp_large_alloc p)).
        s < length (la_entries (gp_large_alloc p)) \<and> \<not> le_in_use (la_entries (gp_large_alloc p) ! s))"

lemma sg_poolD:
  assumes "sg_pool live H p"
  shows "lc_ready (gp_chunk_locator p)" "la_ready (gp_large_alloc p)" "dr_ready (gp_reuse p)" "fl_ready (gp_freelist p)"
    "0 < gp_min_block_size p" "gp_chunk_size p < 2 ^ 32"
    "sg_chunks (gp_chunk_size p) (lc_chunks (gp_chunk_locator p)) H (dr_blocks (gp_reuse p)) (fl_blocks (gp_freelist p))"
    "dr_sized (gp_min_block_size p) (gp_reuse p)" "fl_sized (gp_min_block_size p) (gp_freelist p)"
    "sg_owned (live (gp_resource p)) (lc_chunks (gp_chunk_locator p)) (la_entries (gp_large_alloc p))"
    "distinct (lc_free (gp_chunk_locator p))"
    "s \<in> set (lc_free (gp_chunk_locator p)) \<Longrightarrow> s < length (lc_chunks (gp_chunk_locator p))"
    "s \<in> set (lc_free (gp_chunk_locator p)) \<Longrightarrow> \<not> ck_alive (lc_chunks (gp_chunk_locator p) ! s)"
    "distinct (la_free (gp_large_alloc p))"
    "s \<in> set (la_free (gp_large_alloc p)) \<Longrightarrow> s < length (la_entries (gp_large_alloc p))"
    "s \<in> set (la_free (gp_large_alloc p)) \<Longrightarrow> \<not> le_in_use (la_entries (gp_large_alloc p) ! s)"
  using assms by (simp_all add: sg_pool_def)

text \<open>What the pooled operations leave as it is.\<close>

definition gp_same :: "('r, 't) segregate_pool \<Rightarrow> ('r, 't) segregate_pool \<Rightarrow> bool" where
  "gp_same p p' \<longleftrightarrow>
     gp_min_block_size p' = gp_min_block_size p \<and> gp_max_block_size p' = gp_max_block_size p \<and>
     gp_chunk_size p' = gp_chunk_size p \<and> gp_large_alloc p' = gp_large_alloc p"

lemma gp_same_trans: "gp_same p q \<Longrightarrow> gp_same q r \<Longrightarrow> gp_same p r"
  by (simp add: gp_same_def)

lemma gp_same_refl [simp]: "gp_same p p"
  by (simp add: gp_same_def)

lemma sg_own_geo: "sg_own C E = map fst (filter (\<lambda>g. snd (snd g)) (map sg_geo C)) @ map le_view (filter le_in_use E)"
  by (induction C) (simp_all add: sg_own_def sg_geo_def)

lemma lc_modify_geo:
  assumes "\<And>c. sg_geo (g c) = sg_geo c"
  shows "map sg_geo (lc_chunks (lc_modify h g l)) = map sg_geo (lc_chunks l)"
proof (cases "lc_find l h")
  case (Some s)
  then have "s < length (lc_chunks l)" by (auto simp: lc_find_def Let_def split: if_splits)
  with Some assms show ?thesis
    by (simp add: lc_modify_def map_update) (metis list_update_id nth_map)
qed (simp add: lc_modify_def)

lemma lc_modifies_geo:
  "map sg_geo (lc_chunks (lc_incrementUsed h l)) = map sg_geo (lc_chunks l)"
  "map sg_geo (lc_chunks (lc_incrementPending h l)) = map sg_geo (lc_chunks l)"
  "map sg_geo (lc_chunks (lc_decrementPendingAndUsed h l)) = map sg_geo (lc_chunks l)"
  by (simp_all only: lc_modifies, rule_tac [!] lc_modify_geo) (simp_all add: sg_geo_def Let_def)

lemma lc_modifies_frame [simp]:
  "lc_free (lc_incrementUsed h l) = lc_free l" "lc_ready (lc_incrementUsed h l) = lc_ready l"
  "lc_free (lc_incrementPending h l) = lc_free l" "lc_ready (lc_incrementPending h l) = lc_ready l"
  "lc_free (lc_decrementPendingAndUsed h l) = lc_free l" "lc_ready (lc_decrementPendingAndUsed h l) = lc_ready l"
  by (simp_all add: lc_modifies)

lemma sg_pool_update:
  assumes inv: "sg_pool live H p"
    and l: "map sg_geo (lc_chunks l) = map sg_geo (lc_chunks (gp_chunk_locator p))"
      "lc_free l = lc_free (gp_chunk_locator p)" "lc_ready l = lc_ready (gp_chunk_locator p)"
    and d: "dr_ready d" "dr_sized (gp_min_block_size p) d"
    and f: "fl_ready f" "fl_sized (gp_min_block_size p) f"
    and new: "sg_chunks (gp_chunk_size p) (lc_chunks l) H' (dr_blocks d) (fl_blocks f)"
    and q: "gp_same p q" "gp_resource q = gp_resource p" "gp_chunk_locator q = l" "gp_reuse q = d" "gp_freelist q = f"
  shows "sg_pool live H' q"
proof -
  let ?C = "lc_chunks (gp_chunk_locator p)"
  have len: "length (lc_chunks l) = length ?C" by (metis l(1) length_map)
  have geo: "sg_geo (lc_chunks l ! i) = sg_geo (?C ! i)" if "i < length ?C" for i
    by (metis l(1) len nth_map that)
  have own: "sg_owned (live (gp_resource p)) (lc_chunks l) (la_entries (gp_large_alloc p))"
  proof (rule sg_owned_mset[OF sg_poolD(10)[OF inv]])
    show "mset (sg_own (lc_chunks l) (la_entries (gp_large_alloc p))) =
        mset (sg_own (lc_chunks (gp_chunk_locator p)) (la_entries (gp_large_alloc p)))"
      by (simp only: sg_own_geo l(1))
    fix c assume "c \<in> set (lc_chunks l)" "ck_alive c"
    then obtain c' where "c' \<in> set ?C" "sg_geo c' = sg_geo c"
      using l(1) by (metis (no_types, lifting) image_iff list.set_map)
    then show "vw_size (ck_base c) = ck_size c"
      using sg_poolD(10)[OF inv] \<open>ck_alive c\<close> by (auto simp: sg_owned_def sg_geo_def)
  qed
  show ?thesis
    using sg_poolD[OF inv] own new d f q l(2,3) len geo
    by (simp add: sg_pool_def gp_same_def sg_geo_def)
qed

lemma dr_get_blocks:
  assumes "dr_getReadyItem d = (Some (b, i), d')"
  shows "dr_blocks d = add_mset b (dr_blocks d')" "dr_ready d' = dr_ready d"
    "dr_sized m d \<Longrightarrow> dr_sized m d' \<and> vw_size (bk_view b) = sc_sizeClassToBlockSize i m"
proof -
  let ?q = "dr_queue d"
  have ne: "?q \<noteq> []" and b: "last ?q = (b, i)" and d': "d' = d\<lparr>dr_queue := butlast ?q\<rparr>"
    using assms by (auto simp: dr_getReadyItem_def split: if_splits)
  have q: "?q = butlast ?q @ [(b, i)]" using ne b by (metis append_butlast_last_id)
  have "mset (map fst ?q) = add_mset b (mset (map fst (butlast ?q)))"
    by (subst q) (simp del: butlast.simps)
  then show "dr_blocks d = add_mset b (dr_blocks d')" "dr_ready d' = dr_ready d" by (simp_all add: dr_blocks_def d')
  have "(b, i) \<in> set ?q" using ne b by (metis last_in_set)
  then show "dr_sized m d \<Longrightarrow> dr_sized m d' \<and> vw_size (bk_view b) = sc_sizeClassToBlockSize i m"
    by (auto simp: dr_sized_def d' dest: in_set_butlastD)
qed

lemma gp_drainReady_ok:
  assumes "sg_pool live H p"
  shows "\<exists>q. gp_drainReady p = (Inr (), q) \<and> sg_pool live H q \<and> gp_same p q \<and> gp_resource q = gp_resource p \<and>
     lc_free (gp_chunk_locator q) = lc_free (gp_chunk_locator p) \<and>
     length (lc_chunks (gp_chunk_locator q)) = length (lc_chunks (gp_chunk_locator p)) \<and> dr_queue (gp_reuse q) = []"
  using assms
proof (induction p rule: gp_drainReady.induct)
  case (1 p)
  show ?case
  proof (cases "dr_getReadyItem (gp_reuse p)")
    case (Pair r d)
    show ?thesis
    proof (cases r)
      case None
      then have "d = gp_reuse p" "dr_queue d = []" using Pair by (auto simp: dr_getReadyItem_def split: if_splits)
      then show ?thesis using 1(2) Pair None by (simp add: gp_drainReady.simps[of p])
    next
      case (Some bi)
      obtain b i where bi: "bi = (b, i)" by fastforce
      let ?l = "lc_decrementPendingAndUsed (bk_handle b) (gp_chunk_locator p)"
      note get = dr_get_blocks[OF Pair[unfolded Some bi]]
      note get3 = get(3)[OF sg_poolD(8)[OF 1(2)]]
      obtain f where f: "fl_push i b (gp_freelist p) = (Inr (), f)" "fl_ready f" "fl_sized (gp_min_block_size p) f"
          "fl_blocks f = add_mset b (fl_blocks (gp_freelist p))"
        using fl_push_ok[OF sg_poolD(4,9)[OF 1(2)] conjunct2[OF get3]] by blast
      let ?q = "p\<lparr>gp_reuse := d, gp_chunk_locator := ?l, gp_freelist := f\<rparr>"
      have "sg_chunks (gp_chunk_size p) (lc_chunks ?l) H (dr_blocks d) (fl_blocks f)"
        using sg_poolD(7)[OF 1(2)] unfolding f(4) get(1) by (rule sg_decrementPendingAndUsed)
      then have "sg_pool live H ?q"
        using get(2) get3 sg_poolD(3)[OF 1(2)] f(2,3)
        by (intro sg_pool_update[OF 1(2), of ?l d f]) (simp_all add: lc_modifies_geo gp_same_def)
      moreover have f1: "(Inr (), f) = fl_push i b (gp_freelist (p\<lparr>gp_reuse := d, gp_chunk_locator := ?l\<rparr>))"
        using f(1) by simp
      ultimately obtain q where q: "gp_drainReady ?q = (Inr (), q)" "sg_pool live H q" "gp_same ?q q" "gp_resource q = gp_resource p"
          "lc_free (gp_chunk_locator q) = lc_free (gp_chunk_locator p)"
          "length (lc_chunks (gp_chunk_locator q)) = length (lc_chunks ?l)" "dr_queue (gp_reuse q) = []"
        using 1(1)[OF Pair[symmetric] Some bi[symmetric] refl f1 refl] by auto
      have "length (lc_chunks ?l) = length (lc_chunks (gp_chunk_locator p))"
        using arg_cong[OF lc_modifies_geo(3), of length] by simp
      moreover have "gp_drainReady p = gp_drainReady ?q"
        using Pair Some bi f(1) by (simp add: gp_drainReady.simps[of p])
      ultimately show ?thesis using q by (auto simp: gp_same_def)
    qed
  qed
qed

section \<open>Completed tokens\<close>

lemma dr_processPending_ok:
  assumes "dr_ready d" and "dr_sized m d"
  shows "\<exists>k d'. dr_processPending c now d = (Inr k, d') \<and> dr_ready d' \<and> dr_sized m d' \<and> dr_blocks d' = dr_blocks d"
proof -
  define renew where "renew = (\<lambda>p :: 'a pending_reuse. if now - pr_timestamp p > dr_timeout d then p\<lparr>pr_timestamp := now\<rparr> else p)"
  have r: "pr_block (renew p) = pr_block p" "pr_index (renew p) = pr_index p" for p by (simp_all add: renew_def)
  define ready where "ready = filter (\<lambda>p. c (pr_token p)) (dr_pending d)"
  define waiting where "waiting = filter (\<lambda>p. \<not> c (pr_token p)) (dr_pending d)"
  have set: "set ready \<union> set waiting \<subseteq> set (dr_pending d)" by (auto simp: ready_def waiting_def)
  have "mset (map pr_block (filter (\<lambda>p. \<not> c (pr_token p)) ps)) + mset (map pr_block (filter (\<lambda>p. c (pr_token p)) ps)) =
      mset (map pr_block ps)" for ps :: "'a pending_reuse list"
    by (induction ps) simp_all
  then have blocks: "mset (map pr_block waiting) + mset (map pr_block ready) = mset (map pr_block (dr_pending d))"
    by (simp add: ready_def waiting_def)
  define d' where "d' = d\<lparr>dr_pending := map renew waiting, dr_queue := dr_queue d @ map (\<lambda>p. (pr_block p, pr_index p)) ready\<rparr>"
  have "dr_processPending c now d = (Inr (length ready), d')"
    using assms(1) by (simp add: dr_processPending_def Let_def d'_def ready_def waiting_def renew_def)
  moreover have "dr_ready d'" using assms(1) by (simp add: d'_def)
  moreover have "dr_sized m d'"
    using assms(2) set by (auto simp: d'_def dr_sized_def r)
  moreover have "dr_blocks d' = dr_blocks d"
    using blocks by (simp add: dr_blocks_def d'_def comp_def r ac_simps)
  ultimately show ?thesis by blast
qed

lemma gp_processPendingReuses_ok:
  assumes "sg_pool live H p"
  shows "\<exists>q. gp_processPendingReuses rs now p = (Inr (), q) \<and> sg_pool live H q \<and> gp_same p q \<and>
     gp_resource q = gp_resource p \<and> lc_free (gp_chunk_locator q) = lc_free (gp_chunk_locator p) \<and>
     length (lc_chunks (gp_chunk_locator q)) = length (lc_chunks (gp_chunk_locator p)) \<and> dr_queue (gp_reuse q) = []"
proof -
  obtain k d where d: "dr_processPending (rs_isCompleted rs (gp_resource p)) now (gp_reuse p) = (Inr k, d)" "dr_ready d"
      "dr_sized (gp_min_block_size p) d" "dr_blocks d = dr_blocks (gp_reuse p)"
    using dr_processPending_ok[OF sg_poolD(3,8)[OF assms]] by blast
  have "sg_pool live H (p\<lparr>gp_reuse := d\<rparr>)"
    using sg_poolD[OF assms] d by (intro sg_pool_update[OF assms]) (simp_all add: gp_same_def)
  from gp_drainReady_ok[OF this] show ?thesis
    by (auto simp: gp_processPendingReuses_def bindA_def gp_onReuse_def d(1) gp_same_def)
qed

section \<open>New chunks\<close>

lemma lc_reserve_ok:
  assumes free: "distinct (lc_free l)"
      "\<And>s. s \<in> set (lc_free l) \<Longrightarrow> s < length (lc_chunks l)" "\<And>s. s \<in> set (lc_free l) \<Longrightarrow> \<not> ck_alive (lc_chunks l ! s)"
    and res: "lc_reserveSlot l = (s, l')" and c: "ck_alive c"
  shows "s < length (lc_chunks l')" "length (lc_chunks l) \<le> length (lc_chunks l')" "s \<le> length (lc_chunks l)"
    "s < length (lc_chunks l) \<Longrightarrow> \<not> ck_alive (lc_chunks l ! s)"
    "i < length (lc_chunks l') \<Longrightarrow> i < length (lc_chunks l) \<or> i = s"
    "i < length (lc_chunks l) \<Longrightarrow> i \<noteq> s \<Longrightarrow> lc_chunks l' ! i = lc_chunks l ! i"
    "mset (map ck_base (filter ck_alive ((lc_chunks l')[s := c]))) = add_mset (ck_base c) (mset (map ck_base (filter ck_alive (lc_chunks l))))"
    "set ((lc_chunks l')[s := c]) \<subseteq> insert c (set (lc_chunks l))"
    "distinct (lc_free l')" "set (lc_free l') \<subseteq> set (lc_free l) - {s}" "lc_ready l' = lc_ready l"
proof -
  let ?C = "lc_chunks l"
  have "s < length (lc_chunks l') \<and> length ?C \<le> length (lc_chunks l') \<and> s \<le> length ?C \<and>
    (s < length ?C \<longrightarrow> \<not> ck_alive (?C ! s)) \<and>
    (\<forall>i < length (lc_chunks l'). i < length ?C \<or> i = s) \<and> (\<forall>i < length ?C. i \<noteq> s \<longrightarrow> lc_chunks l' ! i = ?C ! i) \<and>
    mset (map ck_base (filter ck_alive ((lc_chunks l')[s := c]))) = add_mset (ck_base c) (mset (map ck_base (filter ck_alive ?C))) \<and>
    set ((lc_chunks l')[s := c]) \<subseteq> insert c (set ?C) \<and>
    distinct (lc_free l') \<and> set (lc_free l') \<subseteq> set (lc_free l) - {s} \<and> lc_ready l' = lc_ready l"
  proof (cases "lc_free l = []")
    case True
    with res have "s = length ?C" "l' = l\<lparr>lc_chunks := ?C @ [ck_none]\<rparr>" by (auto simp: lc_reserveSlot_def)
    with True c show ?thesis by (auto simp: nth_append)
  next
    case False
    with res have s: "s = last (lc_free l)" and l': "l' = l\<lparr>lc_free := butlast (lc_free l)\<rparr>"
      by (auto simp: lc_reserveSlot_def)
    from False have "s \<in> set (lc_free l)" by (simp add: s)
    from free(2,3)[OF this] have dead: "s < length ?C" "\<not> ck_alive (?C ! s)" .
    have "set (butlast (lc_free l)) = set (lc_free l) - {s}"
      using set_butlast_distinct[OF False free(1)] by (simp add: s)
    with dead c free(1) mset_map_filter_update[OF dead(1), of ck_base ck_alive c] show ?thesis
      by (auto simp: l' distinct_butlast dest: set_update_subset_insert[THEN subsetD])
  qed
  then show "s < length (lc_chunks l')" "length (lc_chunks l) \<le> length (lc_chunks l')" "s \<le> length (lc_chunks l)"
    "s < length (lc_chunks l) \<Longrightarrow> \<not> ck_alive (lc_chunks l ! s)"
    "i < length (lc_chunks l') \<Longrightarrow> i < length (lc_chunks l) \<or> i = s"
    "i < length (lc_chunks l) \<Longrightarrow> i \<noteq> s \<Longrightarrow> lc_chunks l' ! i = lc_chunks l ! i"
    "mset (map ck_base (filter ck_alive ((lc_chunks l')[s := c]))) = add_mset (ck_base c) (mset (map ck_base (filter ck_alive (lc_chunks l))))"
    "set ((lc_chunks l')[s := c]) \<subseteq> insert c (set (lc_chunks l))"
    "distinct (lc_free l')" "set (lc_free l') \<subseteq> set (lc_free l) - {s}" "lc_ready l' = lc_ready l"
    by blast+
qed

lemma sg_num_blocks: "0 < bs \<Longrightarrow> (N + bs - 1) div bs \<le> (N :: nat)"
proof -
  assume bs: "0 < bs"
  then have "N \<le> N * bs" by simp
  moreover have "Suc N * bs = bs + N * bs" by simp
  ultimately have "N + bs - 1 < Suc N * bs" using bs by linarith
  then have "(N + bs - 1) div bs < Suc N" by (rule less_mult_imp_div_less)
  then show ?thesis by simp
qed

text \<open>The blocks \<open>expand\<close> cuts from a chunk.\<close>

definition sg_cut :: "u32 \<Rightarrow> buffer_view \<Rightarrow> nat \<Rightarrow> nat \<Rightarrow> buffer_block list" where
  "sg_cut h base k bs =
     map (\<lambda>i. \<lparr>bk_handle = h, bk_view = vw_make base (vw_offset base + i * bs) bs\<rparr>) [0..<k]"

lemma sg_cut_keys: "0 < bs \<Longrightarrow> count (image_mset sg_key (mset (sg_cut h base k bs))) x \<le> 1"
proof -
  assume bs: "0 < bs"
  have "map sg_key (sg_cut h base k bs) = map (\<lambda>i. (h, vw_offset base + i * bs)) [0..<k]"
    by (simp add: sg_cut_def sg_key_def vw_make_def)
  moreover have "distinct (map (\<lambda>i. (h, vw_offset base + i * bs)) [0..<k])"
    using bs by (simp add: distinct_map inj_on_def)
  ultimately have "distinct (map sg_key (sg_cut h base k bs))" by simp
  then have "count (mset (map sg_key (sg_cut h base k bs))) x \<le> 1"
    by (cases x) (simp add: distinct_count_atmost_1 del: mset_map)
  then show ?thesis by simp
qed

lemma sg_cut_blk:
  assumes "b \<in> set (sg_cut (of_nat s) base k bs)" and "s < length D" "s < 2 ^ 31" "ck_alive (D ! s)"
    and "ck_base (D ! s) = base" "ck_size (D ! s) = k * bs" "\<not> vw_empty base" "0 < bs"
  shows "sg_blk D b \<and> sg_slot b = s \<and> vw_size (bk_view b) = bs"
proof -
  obtain i where i: "i < k" and b: "b = \<lparr>bk_handle = of_nat s, bk_view = vw_make base (vw_offset base + i * bs) bs\<rparr>"
    using assms(1) by (auto simp: sg_cut_def)
  have "sg_slot b = s" by (simp add: sg_slot_def b lc_index_encode[OF assms(3)])
  moreover have "i * bs + bs \<le> k * bs" using i mult_le_mono1[of "Suc i" k bs] by simp
  ultimately show ?thesis
    using assms(2-) by (auto simp: sg_blk_def b vw_make_def vw_empty_def)
qed

lemma sc_block_pos: "0 < sc_sizeClassToBlockSize i m"
  using sc_bit_ceil_ge(2)[of m] by (simp add: sc_sizeClassToBlockSize_def)

lemma sg_pool_resource:
  assumes "sg_pool live H p" and "live r = live (gp_resource p)"
  shows "sg_pool live H (p\<lparr>gp_resource := r\<rparr>)"
  using assms by (simp add: sg_pool_def)

text \<open>A chunk of \<open>k\<close> blocks is added and its blocks are appended to the free list of their size.\<close>

lemma sg_pool_add:
  assumes inv: "sg_pool live H p" and rs: "resource_ok rs live" and n: "length (lc_chunks (gp_chunk_locator p)) < 2 ^ 31"
    and alloc: "rs_allocate rs (k * bs) al (gp_resource p) = (Inr base, r)" "\<not> vw_empty base"
    and k: "0 < k" "k \<le> gp_chunk_size p" and bs: "bs = sc_sizeClassToBlockSize i (gp_min_block_size p)"
    and res: "lc_reserveSlot (gp_chunk_locator p) = (s, l)"
    and D: "D = (lc_chunks l)[s := \<lparr>ck_base = base, ck_size = k * bs, ck_alignment = al, ck_used = 0, ck_pending = 0, ck_alive = True\<rparr>]"
    and f: "fl_ready f" "fl_sized (gp_min_block_size p) f" "fl_blocks f = mset (sg_cut (lc_encodeId s) base k bs) + fl_blocks (gp_freelist p)"
    and q: "gp_same p q" "gp_resource q = r" "gp_chunk_locator q = l\<lparr>lc_chunks := D\<rparr>" "gp_reuse q = gp_reuse p" "gp_freelist q = f"
  shows "sg_pool live H q"
proof -
  let ?C = "lc_chunks (gp_chunk_locator p)" and ?E = "la_entries (gp_large_alloc p)"
  define c where "c = \<lparr>ck_base = base, ck_size = k * bs, ck_alignment = al, ck_used = 0 :: u32, ck_pending = 0 :: u32, ck_alive = True\<rparr>"
  note inv' = sg_poolD[OF inv]
  note rv = lc_reserve_ok[OF inv'(11) inv'(12) inv'(13) res, of c]
  have ca: "ck_alive c" by (simp add: c_def)
  note rv = rv[OF _ _ ca, simplified]
  have Dc: "D = (lc_chunks l)[s := c]" by (simp add: D c_def)
  have bs0: "0 < bs" by (simp add: bs sc_block_pos)
  have s31: "s < 2 ^ 31" using rv(3) n by simp
  have sD: "s < length D" "D ! s = c" using rv(1) by (simp_all add: Dc)
  have chunks: "sg_chunks (gp_chunk_size p) D H (dr_blocks (gp_reuse p)) (mset (sg_cut (of_nat s) base k bs) + fl_blocks (gp_freelist p))"
  proof (rule sg_chunks_add[OF inv'(7), of s _ _ bs])
    show "sg_blk D b \<and> sg_slot b = s \<and> vw_size (bk_view b) = bs" if "b \<in># mset (sg_cut (of_nat s) base k bs)" for b
      using that sD s31 alloc(2) bs0 by (intro sg_cut_blk[of b s base k bs D]) (simp_all add: c_def)
    show "size (mset (sg_cut (of_nat s) base k bs)) \<le> gp_chunk_size p"
      using k by (simp add: sg_cut_def)
  qed (use rv(2,4,5,6) sD s31 sg_cut_keys[OF bs0] in \<open>simp_all add: Dc c_def\<close>)
  have owned: "sg_owned (insert base (live (gp_resource p))) D ?E"
  proof (rule sg_owned_add[OF inv'(10)])
    show "mset (sg_own D ?E) = add_mset base (mset (sg_own ?C ?E))"
      using rv(7) by (simp add: sg_own_def Dc c_def)
    show "0 < vw_size base" using resource_okD(3)[OF rs alloc] k bs0 by simp
    show "vw_size (ck_base c') = ck_size c'" if "c' \<in> set D" "ck_alive c'" for c'
      using that rv(8) inv'(10) resource_okD(3)[OF rs alloc] by (auto simp: Dc c_def sg_owned_def)
  qed (use resource_okD(4)[OF rs alloc] in blast)
  have free: "s' < length D \<and> \<not> ck_alive (D ! s')" if "s' \<in> set (lc_free l)" for s'
  proof -
    from that rv(10) have *: "s' \<in> set (lc_free (gp_chunk_locator p))" "s' \<noteq> s" by auto
    from inv'(12,13)[OF this(1)] * rv(2,6) show ?thesis by (simp add: Dc)
  qed
  show ?thesis
    using inv' chunks owned free f q rv(9,11) resource_okD(2)[OF rs alloc] lc_encodeId_small[OF s31]
    by (simp add: sg_pool_def gp_same_def)
qed

lemma gp_expandPool_ok:
  assumes inv: "sg_pool live H p" and rs: "resource_ok rs live" and n: "length (lc_chunks (gp_chunk_locator p)) < 2 ^ 31"
    and run: "gp_expandPool rs i (sc_sizeClassToBlockSize i (gp_min_block_size p)) p = (x, q)"
  shows "sg_pool live H q \<and> gp_same p q"
proof -
  define bs where "bs = sc_sizeClassToBlockSize i (gp_min_block_size p)"
  define k where "k = (gp_chunk_size p + bs - 1) div bs"
  note inv' = sg_poolD[OF inv]
  have bs0: "0 < bs" by (simp add: bs_def sc_block_pos)
  have run': "bindA (gp_addChunk rs (k * bs) 0) (\<lambda>chunk.
         if \<not> bk_valid chunk then returnA ()
         else gp_onFreelist (fl_expand i chunk (k * bs) bs)) p = (x, q)"
    using run unfolding gp_expandPool_def Let_def k_def bs_def by assumption
  obtain y r where alloc: "rs_allocate rs (k * bs) 0 (gp_resource p) = (y, r)" by fastforce
  obtain s l where res: "lc_reserveSlot (gp_chunk_locator p) = (s, l)" by fastforce
  consider (zero) "k * bs = 0" | (exn) e where "k * bs \<noteq> 0" "y = Inl e"
    | (none) base where "k * bs \<noteq> 0" "y = Inr base" "vw_empty base"
    | (chunk) base where "k * bs \<noteq> 0" "y = Inr base" "\<not> vw_empty base" by (cases y) metis+
  then show ?thesis
  proof cases
    case zero
    then have "q = p" using run' inv'(1) by (simp add: bindA_def gp_addChunk_def lc_addChunk_def throw_def)
    with inv show ?thesis by simp
  next
    case exn
    then have "q = p\<lparr>gp_resource := r\<rparr>"
      using run' inv'(1) alloc by (auto simp: bindA_def gp_addChunk_def lc_addChunk_def)
    with sg_pool_resource[OF inv resource_okD(6)[OF rs alloc[unfolded exn]]] show ?thesis by (simp add: gp_same_def)
  next
    case none
    then have "q = p\<lparr>gp_resource := r\<rparr>"
      using run' inv'(1) alloc by (auto simp: bindA_def gp_addChunk_def lc_addChunk_def bk_valid_def bk_none_def)
    with sg_pool_resource[OF inv resource_okD(1)[OF rs alloc[unfolded none(2)] none(3)]] show ?thesis by (simp add: gp_same_def)
  next
    case chunk
    define D where "D = (lc_chunks l)[s := \<lparr>ck_base = base, ck_size = k * bs, ck_alignment = 0, ck_used = 0 :: u32, ck_pending = 0 :: u32, ck_alive = True\<rparr>]"
    let ?ch = "\<lparr>bk_handle = lc_encodeId s, bk_view = base\<rparr>"
    let ?f = "fl_ensureCapacity i (gp_freelist p)"
    define f where "f = ?f\<lparr>fl_stacks := (fl_stacks ?f)[i := fl_stacks ?f ! i @ sg_cut (lc_encodeId s) base k bs]\<rparr>"
    have "s \<le> length (lc_chunks (gp_chunk_locator p))"
      using lc_reserve_ok(3)[OF inv'(11) inv'(12) inv'(13) res] by (metis chunk_info.select_convs(6))
    then have s31: "s < 2 ^ 31" using n by simp
    then have valid: "bk_valid ?ch"
      using chunk(3) by (simp add: bk_valid_def lc_encodeId_small lc_handle_valid)
    have "fl_expand i ?ch (k * bs) bs (gp_freelist p) = (Inr (), f)"
      using inv'(4) valid bs0 by (simp add: fl_expand_def Let_def f_def sg_cut_def)
    then have q: "q = p\<lparr>gp_resource := r, gp_chunk_locator := l\<lparr>lc_chunks := D\<rparr>, gp_freelist := f\<rparr>"
      using run' inv'(1) alloc chunk res valid
      by (auto simp: bindA_def gp_addChunk_def lc_addChunk_def D_def gp_onFreelist_def)
    have "vw_size (bk_view b) = sc_sizeClassToBlockSize i (gp_min_block_size p)"
      if "b \<in> set (sg_cut (lc_encodeId s) base k bs)" for b
      using that by (auto simp: sg_cut_def vw_make_def bs_def)
    then have "fl_ready f" "fl_sized (gp_min_block_size p) f"
        "fl_blocks f = mset (sg_cut (lc_encodeId s) base k bs) + fl_blocks (gp_freelist p)"
      using inv'(4,9) fl_append[OF fl_ensure(4)[of i "gp_freelist p"]]
      by (simp_all add: f_def fl_ensure)
    then have "sg_pool live H q"
      using chunk sg_num_blocks[OF bs0, of "gp_chunk_size p"]
      by (intro sg_pool_add[OF inv rs n alloc[unfolded chunk(2)] chunk(3) _ _ bs_def res D_def]) (simp_all add: q gp_same_def k_def)
    then show ?thesis by (simp add: q gp_same_def)
  qed
qed

section \<open>Allocation\<close>

lemma gp_pop_ok:
  assumes inv: "sg_pool live H p" and run: "gp_onFreelist (fl_pop i) p = (x, q)"
  shows "(x = Inr bk_none \<and> q = p) \<or>
     (\<exists>b. x = Inr b \<and> bk_valid b \<and> vw_size (bk_view b) = sc_sizeClassToBlockSize i (gp_min_block_size p) \<and> gp_same p q \<and>
        sg_pool live (add_mset b H) (q\<lparr>gp_chunk_locator := lc_incrementUsed (bk_handle b) (gp_chunk_locator q)\<rparr>))"
proof -
  note inv' = sg_poolD[OF inv]
  obtain f where f: "fl_pop i (gp_freelist p) = (x, f)" and q: "q = p\<lparr>gp_freelist := f\<rparr>"
    using run by (auto simp: gp_onFreelist_def split: prod.splits)
  note pop = fl_pop_ok[OF inv'(4,9) f]
  show ?thesis
  proof (cases "x = Inr bk_none \<and> f = gp_freelist p")
    case True
    then show ?thesis by (simp add: q)
  next
    case False
    with pop obtain b where b: "x = Inr b" "fl_blocks (gp_freelist p) = add_mset b (fl_blocks f)"
        "vw_size (bk_view b) = sc_sizeClassToBlockSize i (gp_min_block_size p)" "fl_ready f" "fl_sized (gp_min_block_size p) f"
      by auto
    let ?l = "lc_incrementUsed (bk_handle b) (gp_chunk_locator p)"
    have "sg_blk (lc_chunks (gp_chunk_locator p)) b"
      using sg_chunksD(1)[OF inv'(7), of b] b(2) by simp
    then have "bk_valid b" by (rule sg_blk_valid)
    moreover have "sg_chunks (gp_chunk_size p) (lc_chunks ?l) (add_mset b H) (dr_blocks (gp_reuse p)) (fl_blocks f)"
      using sg_incrementUsed[OF inv'(7)[unfolded b(2)] inv'(6)] .
    then have "sg_pool live (add_mset b H) (q\<lparr>gp_chunk_locator := ?l\<rparr>)"
      using inv' b by (intro sg_pool_update[OF inv, of ?l "gp_reuse p" f]) (simp_all add: q lc_modifies_geo gp_same_def)
    ultimately show ?thesis using b by (simp add: q gp_same_def)
  qed
qed

lemma bf_block [simp]:
  "bf_toBlock (bf_fromBlock b) = b" "bf_valid (bf_fromBlock b) = bk_valid b"
  "bf_view (bf_fromBlock b) = bk_view b" "bf_handle (bf_fromBlock b) = bk_handle b"
  by (simp_all add: bf_toBlock_def bf_fromBlock_def bf_valid_def bk_valid_def)

lemma bk_none_invalid [simp]: "\<not> bk_valid bk_none"
  by (simp add: bk_none_def bk_valid_def)

lemma gp_allocate_small:
  fixes p :: "('r, 't) segregate_pool"
  assumes inv: "sg_pool live H p" and rs: "resource_ok rs live" and len: "length (lc_chunks (gp_chunk_locator p)) < 2 ^ 31"
    and n: "n \<noteq> 0" "n \<le> gp_max_block_size p" and run: "gp_allocate rs now n al p = (x, q)"
  shows "gp_same p q \<and>
     (case x of
        Inl e \<Rightarrow> sg_pool live H q
      | Inr b \<Rightarrow> if bf_valid b
               then sg_pool live (add_mset (bf_toBlock b) H) q \<and>
                    vw_size (bf_view b) = ff_get_block_size (gp_min_block_size p) n
               else sg_pool live H q)"
proof -
  let ?m = "gp_min_block_size p"
  define bs where "bs = ff_get_block_size ?m n"
  define i where "i = sc_sizeClassIndex bs ?m"
  have bs_i: "sc_sizeClassToBlockSize i ?m = bs" by (simp add: bs_def i_def ff_index_size)
  obtain p1 where p1: "gp_processPendingReuses rs now p = (Inr (), p1)" "sg_pool live H p1" "gp_same p p1"
      "length (lc_chunks (gp_chunk_locator p1)) < 2 ^ 31"
    using gp_processPendingReuses_ok[OF inv, of rs now] len by auto
  have m1: "gp_min_block_size p1 = ?m" using p1(3) by (simp add: gp_same_def)
  define fin :: "buffer_block \<Rightarrow> (('r, 't) segregate_pool, 't buffer_resource) act" where
    "fin = (\<lambda>block. if \<not> bk_valid block then returnA (bf_fromBlock bk_none)
       else bindA (gp_onLocator (lc_incrementUsed (bk_handle block))) (\<lambda>_. returnA (bf_fromBlock block)))"
  have run1: "bindA (gp_onFreelist (fl_pop i)) (\<lambda>block.
      bindA (if bk_valid block then returnA block
             else bindA (gp_expandPool rs i bs) (\<lambda>_. gp_onFreelist (fl_pop i))) fin) p1 = (x, q)"
    using run n p1(1) unfolding gp_allocate_def fin_def i_def bs_def
    by (simp add: bindA_Inr[where m = "gp_processPendingReuses rs now" and s = p, OF p1(1)] Let_def gp_block_size)
  have fin_ok: "?thesis" if q': "gp_same p p2" "gp_same p2 p3" "gp_min_block_size p2 = ?m" "sg_pool live H p2"
      and pop: "gp_onFreelist (fl_pop i) p2 = (y, p3)" and f: "(case y of Inl e \<Rightarrow> (Inl e, p3) | Inr b \<Rightarrow> fin b p3) = (x, q)" for p2 p3 y
    using gp_pop_ok[OF q'(4) pop]
  proof
    assume "y = Inr bk_none \<and> p3 = p2"
    with f have "x = Inr (bf_fromBlock bk_none)" "q = p2" by (simp_all add: fin_def)
    with q' show ?thesis by simp
  next
    assume "\<exists>b. y = Inr b \<and> bk_valid b \<and> vw_size (bk_view b) = sc_sizeClassToBlockSize i (gp_min_block_size p2) \<and> gp_same p2 p3 \<and>
        sg_pool live (add_mset b H) (p3\<lparr>gp_chunk_locator := lc_incrementUsed (bk_handle b) (gp_chunk_locator p3)\<rparr>)"
    then obtain b where b: "y = Inr b" "bk_valid b" "vw_size (bk_view b) = bs" "gp_same p2 p3"
        "sg_pool live (add_mset b H) (p3\<lparr>gp_chunk_locator := lc_incrementUsed (bk_handle b) (gp_chunk_locator p3)\<rparr>)"
      by (auto simp: q'(3) bs_i)
    with f have "x = Inr (bf_fromBlock b)" "q = p3\<lparr>gp_chunk_locator := lc_incrementUsed (bk_handle b) (gp_chunk_locator p3)\<rparr>"
      by (auto simp: fin_def bindA_def gp_onLocator_def)
    with b gp_same_trans[OF q'(1) b(4)] show ?thesis by (simp add: bs_def gp_same_def)
  qed
  obtain y p2 where pop: "gp_onFreelist (fl_pop i) p1 = (y, p2)" by fastforce
  from gp_pop_ok[OF p1(2) pop] show ?thesis
  proof
    assume none: "y = Inr bk_none \<and> p2 = p1"
    obtain z p3 where ex: "gp_expandPool rs i bs p1 = (z, p3)" by fastforce
    have p3: "sg_pool live H p3" "gp_same p1 p3"
      using gp_expandPool_ok[OF p1(2) rs p1(4), of i z p3] ex by (simp_all add: m1 bs_i)
    note same = gp_same_trans[OF p1(3) p3(2)]
    show ?thesis
    proof (cases z)
      case (Inl e)
      then have "x = Inl e" "q = p3"
        using run1 pop none ex by (auto simp: bindA_def)
      with p3 same show ?thesis by simp
    next
      case (Inr u)
      obtain y' p4 where pop': "gp_onFreelist (fl_pop i) p3 = (y', p4)" by fastforce
      have "(case y' of Inl e \<Rightarrow> (Inl e, p4) | Inr b \<Rightarrow> fin b p4) = (x, q)"
        using run1 pop none ex Inr pop' by (simp add: bindA_def split: sum.splits)
      moreover have "gp_same p3 p4"
        using pop' by (auto simp: gp_onFreelist_def gp_same_def split: prod.splits)
      ultimately show ?thesis
        using fin_ok[OF same _ _ p3(1) pop'] same by (simp add: gp_same_def)
    qed
  next
    assume some: "\<exists>b. y = Inr b \<and> bk_valid b \<and> vw_size (bk_view b) = sc_sizeClassToBlockSize i (gp_min_block_size p1) \<and> gp_same p1 p2 \<and>
        sg_pool live (add_mset b H) (p2\<lparr>gp_chunk_locator := lc_incrementUsed (bk_handle b) (gp_chunk_locator p2)\<rparr>)"
    then have "(case y of Inl e \<Rightarrow> (Inl e, p2) | Inr b \<Rightarrow> fin b p2) = (x, q)"
      using run1 pop by (auto simp: bindA_def)
    then show ?thesis using fin_ok[OF p1(3) _ m1 p1(2) pop] some by blast
  qed
qed

section \<open>Deallocation\<close>

lemma gp_deallocate_small:
  assumes inv: "sg_pool live (add_mset (bf_toBlock b) H) p"
    and n: "n \<noteq> 0" "n \<le> gp_max_block_size p" "vw_size (bf_view b) = ff_get_block_size (gp_min_block_size p) n"
    and run: "gp_deallocate rs now (b\<lparr>bf_token := t\<rparr>) n al p = (x, q)"
  shows "x = Inr () \<and> sg_pool live H q \<and> gp_same p q"
proof -
  let ?m = "gp_min_block_size p" and ?b = "bf_toBlock b"
  let ?i = "sc_sizeClassIndex (ff_get_block_size ?m n) ?m"
  note inv' = sg_poolD[OF inv]
  have blk: "sg_blk (lc_chunks (gp_chunk_locator p)) ?b"
    using sg_chunksD(1)[OF inv'(7), of ?b] by simp
  have valid: "bf_valid (b\<lparr>bf_token := t\<rparr>)"
    using sg_blk_valid[OF blk] by (simp add: bf_valid_def bk_valid_def bf_toBlock_def)
  let ?l = "lc_incrementPending (bf_handle b) (gp_chunk_locator p)"
  define d where "d = (gp_reuse p)\<lparr>dr_pending := dr_pending (gp_reuse p) @
      [\<lparr>pr_block = ?b, pr_token = t, pr_index = ?i, pr_timestamp = now\<rparr>]\<rparr>"
  have q: "x = Inr ()" "q = p\<lparr>gp_chunk_locator := ?l, gp_reuse := d\<rparr>"
    using run valid n inv'(3)
    by (auto simp: gp_deallocate_def Let_def bindA_def gp_onLocator_def gp_onReuse_def dr_scheduleForReuse_def d_def bf_toBlock_def)
  have "sg_chunks (gp_chunk_size p) (lc_chunks ?l) H (dr_blocks d) (fl_blocks (gp_freelist p))"
    using sg_incrementPending[OF inv'(7,6)] by (simp add: d_def dr_blocks_def bf_toBlock_def)
  moreover have "dr_sized ?m d"
    using inv'(8) n(3) by (simp add: dr_sized_def d_def ff_index_size bf_toBlock_def)
  ultimately have "sg_pool live H q"
    using inv' by (intro sg_pool_update[OF inv, of ?l d "gp_freelist p"]) (simp_all add: q lc_modifies_geo gp_same_def d_def)
  then show ?thesis by (simp add: q gp_same_def)
qed

section \<open>Large allocations\<close>

text \<open>A buffer of an entry in use.\<close>

definition sg_large :: "large_entry list \<Rightarrow> 't buffer_resource \<Rightarrow> nat \<Rightarrow> bool" where
  "sg_large E b n \<longleftrightarrow>
     la_indexFromId (bf_handle b) < length E \<and> bf_handle b = la_encodeId (la_indexFromId (bf_handle b)) \<and>
     le_in_use (E ! la_indexFromId (bf_handle b)) \<and> le_view (E ! la_indexFromId (bf_handle b)) = bf_view b \<and>
     vw_size (bf_view b) = n \<and> bf_valid b"

lemma la_reserve_ok:
  assumes free: "distinct (la_free a)" "\<And>s. s \<in> set (la_free a) \<Longrightarrow> s < length (la_entries a)"
      "\<And>s. s \<in> set (la_free a) \<Longrightarrow> \<not> le_in_use (la_entries a ! s)"
    and res: "la_reserveSlot a = (s, a')" and e: "le_in_use e"
  shows "s < length (la_entries a') \<and> length (la_entries a) \<le> length (la_entries a') \<and> s \<le> length (la_entries a) \<and>
    (s < length (la_entries a) \<longrightarrow> \<not> le_in_use (la_entries a ! s)) \<and>
    (\<forall>i < length (la_entries a). i \<noteq> s \<longrightarrow> la_entries a' ! i = la_entries a ! i) \<and>
    mset (map le_view (filter le_in_use ((la_entries a')[s := e]))) = add_mset (le_view e) (mset (map le_view (filter le_in_use (la_entries a)))) \<and>
    distinct (la_free a') \<and> set (la_free a') \<subseteq> set (la_free a) - {s} \<and> la_ready a' = la_ready a"
proof (cases "la_free a = []")
  case True
  with res have "s = length (la_entries a)" "a' = a\<lparr>la_entries := la_entries a @ [\<lparr>le_view = vw_none, le_in_use = False\<rparr>]\<rparr>"
    by (auto simp: la_reserveSlot_def)
  with True e show ?thesis by (auto simp: nth_append)
next
  case False
  with res have s: "s = last (la_free a)" and a': "a' = a\<lparr>la_free := butlast (la_free a)\<rparr>"
    by (auto simp: la_reserveSlot_def)
  from False have "s \<in> set (la_free a)" by (simp add: s)
  from free(2,3)[OF this] have dead: "s < length (la_entries a)" "\<not> le_in_use (la_entries a ! s)" .
  have "set (butlast (la_free a)) = set (la_free a) - {s}"
    using set_butlast_distinct[OF False free(1)] by (simp add: s)
  with dead e free(1) mset_map_filter_update[OF dead(1), of le_view le_in_use e] show ?thesis
    by (auto simp: a' distinct_butlast)
qed

lemma gp_allocate_large:
  assumes inv: "sg_pool live H p" and rs: "resource_ok rs live" and len: "length (la_entries (gp_large_alloc p)) < 2 ^ 31 - 1"
    and n: "n \<noteq> 0" "gp_max_block_size p < n" and run: "gp_allocate rs now n al p = (x, q)"
  shows "sg_pool live H q \<and> gp_min_block_size q = gp_min_block_size p \<and> gp_max_block_size q = gp_max_block_size p \<and>
     (case x of Inl e \<Rightarrow> la_entries (gp_large_alloc q) = la_entries (gp_large_alloc p)
      | Inr b \<Rightarrow>
        (if bf_valid b
         then sg_large (la_entries (gp_large_alloc q)) b n \<and>
           length (la_entries (gp_large_alloc p)) \<le> length (la_entries (gp_large_alloc q)) \<and>
           (\<forall>i < length (la_entries (gp_large_alloc p)). le_in_use (la_entries (gp_large_alloc p) ! i) \<longrightarrow>
              i \<noteq> la_indexFromId (bf_handle b) \<and> la_entries (gp_large_alloc q) ! i = la_entries (gp_large_alloc p) ! i)
         else la_entries (gp_large_alloc q) = la_entries (gp_large_alloc p)))"
proof -
  let ?E = "la_entries (gp_large_alloc p)" and ?C = "lc_chunks (gp_chunk_locator p)"
  note inv' = sg_poolD[OF inv]
  obtain y r where alloc: "rs_allocate rs n al (gp_resource p) = (y, r)" by fastforce
  consider (exn) e where "y = Inl e" | (none) v where "y = Inr v" "vw_empty v" | (buf) v where "y = Inr v" "\<not> vw_empty v"
    by (cases y) auto
  then show ?thesis
  proof cases
    case exn
    then have "x = Inl e" "q = p\<lparr>gp_resource := r\<rparr>"
      using run n inv'(2) alloc by (auto simp: gp_allocate_def bindA_def gp_allocateLarge_def la_allocate_def)
    with sg_pool_resource[OF inv resource_okD(6)[OF rs alloc[unfolded exn]]] show ?thesis by simp
  next
    case none
    then have "x = Inr (bf_fromBlock bk_none)" "q = p\<lparr>gp_resource := r\<rparr>"
      using run n inv'(2) alloc by (auto simp: gp_allocate_def bindA_def gp_allocateLarge_def la_allocate_def)
    with sg_pool_resource[OF inv resource_okD(1)[OF rs alloc[unfolded none(1)] none(2)]] show ?thesis by simp
  next
    case buf
    note alloc = alloc[unfolded buf(1)] and False = buf(2)
    obtain s a where res: "la_reserveSlot (gp_large_alloc p) = (s, a)" by fastforce
    define e where "e = \<lparr>le_view = v, le_in_use = True\<rparr>"
    note rv = la_reserve_ok[OF inv'(14) inv'(15) inv'(16) res, of e]
    then have rv: "s < length (la_entries a)" "length ?E \<le> length (la_entries a)" "s \<le> length ?E"
        "s < length ?E \<Longrightarrow> \<not> le_in_use (?E ! s)" "\<And>i. i < length ?E \<Longrightarrow> i \<noteq> s \<Longrightarrow> la_entries a ! i = ?E ! i"
        "mset (map le_view (filter le_in_use ((la_entries a)[s := e]))) = add_mset v (mset (map le_view (filter le_in_use ?E)))"
        "distinct (la_free a)" "set (la_free a) \<subseteq> set (la_free (gp_large_alloc p)) - {s}" "la_ready a = la_ready (gp_large_alloc p)"
      by (simp_all add: e_def)
    let ?b = "\<lparr>bk_handle = la_encodeId s, bk_view = v\<rparr>"
    let ?a = "a\<lparr>la_entries := (la_entries a)[s := e]\<rparr>"
    have q: "x = Inr (bf_fromBlock ?b)" "q = p\<lparr>gp_resource := r, gp_large_alloc := ?a\<rparr>"
      using run n inv'(2) alloc False res by (auto simp: gp_allocate_def bindA_def gp_allocateLarge_def la_allocate_def e_def)
    have s31: "s < 2 ^ 31 - 1" using rv(3) len by simp
    then have ix: "la_indexFromId (la_encodeId s) = s" by (intro la_index_encode) simp
    have valid: "bk_valid ?b" using False la_encode_valid[OF s31] by (simp add: bk_valid_def)
    have free: "i < length (la_entries a) \<and> \<not> le_in_use ((la_entries a)[s := e] ! i)" if "i \<in> set (la_free a)" for i
    proof -
      from that rv(8) have *: "i \<in> set (la_free (gp_large_alloc p))" "i \<noteq> s" by auto
      from inv'(15,16)[OF this(1)] * rv(2,5) show ?thesis by simp
    qed
    have "sg_owned (insert v (live (gp_resource p))) ?C ((la_entries a)[s := e])"
    proof (rule sg_owned_add[OF inv'(10)])
      show "mset (sg_own ?C ((la_entries a)[s := e])) = add_mset v (mset (sg_own ?C ?E))"
        using rv(6) by (simp add: sg_own_def)
      show "0 < vw_size v" using resource_okD(3)[OF rs alloc False] n by simp
    qed (use resource_okD(4)[OF rs alloc False] inv'(10) in \<open>auto simp: sg_owned_def\<close>)
    then have "sg_pool live H q"
      using inv' resource_okD(2)[OF rs alloc False] rv(7,9) free
      by (simp add: sg_pool_def q)
    moreover have "sg_large ((la_entries a)[s := e]) (bf_fromBlock ?b) n"
      using rv(1) valid resource_okD(3)[OF rs alloc False] by (simp add: sg_large_def ix e_def)
    moreover have "i \<noteq> s \<and> (la_entries a)[s := e] ! i = ?E ! i" if "i < length ?E" "le_in_use (?E ! i)" for i
      using that rv(4,5) by (cases "i = s") auto
    ultimately show ?thesis
      using valid rv(2) by (simp add: q ix)
  qed
qed

lemma gp_deallocate_large:
  assumes inv: "sg_pool live H p" and rs: "resource_ok rs live"
    and n: "n \<noteq> 0" "gp_max_block_size p < n" "sg_large (la_entries (gp_large_alloc p)) b n"
    and run: "gp_deallocate rs now (b\<lparr>bf_token := t\<rparr>) n al p = (x, q)"
  shows "x = Inr () \<and> sg_pool live H q \<and> gp_min_block_size q = gp_min_block_size p \<and> gp_max_block_size q = gp_max_block_size p \<and>
     la_entries (gp_large_alloc q) =
       (la_entries (gp_large_alloc p))[la_indexFromId (bf_handle b) := \<lparr>le_view = vw_none, le_in_use = False\<rparr>]"
proof -
  let ?a = "gp_large_alloc p" and ?C = "lc_chunks (gp_chunk_locator p)"
  let ?E = "la_entries ?a" and ?i = "la_indexFromId (bf_handle b)"
  define e where "e = \<lparr>le_view = vw_none, le_in_use = False\<rparr>"
  note inv' = sg_poolD[OF inv]
  have i: "?i < length ?E" "le_in_use (?E ! ?i)" "le_view (?E ! ?i) = bf_view b" "vw_size (bf_view b) = n" "bf_valid b"
      "la_isLargeAlloc (bf_handle b)"
    using n(3) la_encode_large[of ?i] by (simp_all add: sg_large_def)
  then have "bf_valid (b\<lparr>bf_token := t\<rparr>)" by (simp add: bf_valid_def)
  then have q: "x = Inr ()" "q = p\<lparr>gp_resource := rs_deallocate rs (bf_view b) n al (gp_resource p),
      gp_large_alloc := ?a\<lparr>la_entries := ?E[?i := e], la_free := la_free ?a @ [?i]\<rparr>\<rparr>"
    using run n i by (auto simp: gp_deallocate_def gp_deallocateLarge_def la_deallocate_def Let_def e_def)
  have own: "add_mset (bf_view b) (mset (sg_own ?C (?E[?i := e]))) = mset (sg_own ?C ?E)"
    using mset_map_filter_update[OF i(1), of le_view le_in_use e] i(2,3) by (simp add: sg_own_def e_def)
  then have "bf_view b \<in> set (sg_own ?C ?E)" by (metis set_mset_mset union_single_eq_member)
  then have mem: "bf_view b \<in> live (gp_resource p)" using inv'(10) by (auto simp: sg_owned_def)
  have "sg_owned (live (gp_resource p) - {bf_view b}) ?C (?E[?i := e])"
    using inv'(10) own by (rule sg_owned_remove) (use inv'(10) in \<open>auto simp: sg_owned_def\<close>)
  moreover have "?i \<notin> set (la_free ?a)" using i(2) inv'(16) by blast
  ultimately have "sg_pool live H q"
    using inv' resource_okD(5)[OF rs mem] i(1,4) by (auto simp: sg_pool_def q e_def nth_list_update)
  then show ?thesis by (simp add: q e_def)
qed

section \<open>Releasing chunks\<close>

lemma lc_findReleasable_Some:
  assumes "lc_findReleasable l \<noteq> bk_invalidHandle" and "length (lc_chunks l) \<le> 2 ^ 31"
  obtains s where "lc_findReleasable l = of_nat s" "s < length (lc_chunks l)" "s < 2 ^ 31" "ck_alive (lc_chunks l ! s)"
    "ck_used (lc_chunks l ! s) = 0" "ck_pending (lc_chunks l ! s) = 0"
proof -
  obtain s where s: "find (\<lambda>i. ck_alive (lc_chunks l ! i) \<and> ck_used (lc_chunks l ! i) = 0 \<and> ck_pending (lc_chunks l ! i) = 0)
      [0..<length (lc_chunks l)] = Some s"
    using assms(1) by (auto simp: lc_findReleasable_def split: option.splits)
  then have "s < length (lc_chunks l)" "ck_alive (lc_chunks l ! s)" "ck_used (lc_chunks l ! s) = 0" "ck_pending (lc_chunks l ! s) = 0"
    by (auto simp: find_Some_iff)
  moreover from this(1) assms(2) have "s < 2 ^ 31" by simp
  ultimately show ?thesis
    using that[of s] s by (simp add: lc_findReleasable_def lc_encodeId_small)
qed

lemma sg_slot_handle: "sg_blk C b \<Longrightarrow> s < 2 ^ 31 \<Longrightarrow> bk_handle b = of_nat s \<longleftrightarrow> sg_slot b = s"
  unfolding sg_blk_def sg_slot_def by (metis lc_index_encode)

lemma dr_remove_ok:
  "dr_blocks (dr_removeBlocksInChunk h d) = filter_mset (\<lambda>b. bk_handle b \<noteq> h) (dr_blocks d)"
  "dr_ready (dr_removeBlocksInChunk h d) = dr_ready d" "dr_sized m d \<Longrightarrow> dr_sized m (dr_removeBlocksInChunk h d)"
proof -
  have "mset (map f (filter (\<lambda>p. bk_handle (f p) \<noteq> h) xs)) = filter_mset (\<lambda>b. bk_handle b \<noteq> h) (mset (map f xs))"
    for f :: "'b \<Rightarrow> buffer_block" and xs
    by (induction xs) auto
  note this[of pr_block "dr_pending d"] 
  moreover have "mset (map fst (filter (\<lambda>p. bk_handle (fst p) \<noteq> h) xs)) = filter_mset (\<lambda>b. bk_handle b \<noteq> h) (mset (map fst xs))"
    for xs :: "(buffer_block \<times> nat) list"
    by (induction xs) auto
  ultimately show "dr_blocks (dr_removeBlocksInChunk h d) = filter_mset (\<lambda>b. bk_handle b \<noteq> h) (dr_blocks d)"
    by (simp add: dr_blocks_def dr_removeBlocksInChunk_def)
qed (auto simp: dr_removeBlocksInChunk_def dr_sized_def)

text \<open>One round of the loop.\<close>

lemma gp_releaseRound:
  assumes inv: "sg_pool live H p" and rs: "resource_ok rs live" and len: "length (lc_chunks (gp_chunk_locator p)) \<le> 2 ^ 31"
    and h: "lc_findReleasable (gp_chunk_locator p) = h" "h \<noteq> bk_invalidHandle"
    and run: "lc_releaseChunk rs h (gp_chunk_locator p, gp_resource p) = (ok, l, r)"
  defines "q \<equiv> p\<lparr>gp_reuse := dr_removeBlocksInChunk h (gp_reuse p), gp_freelist := fl_removeBlocksInChunk h (gp_freelist p),
      gp_resource := r, gp_chunk_locator := l\<rparr>"
  shows "ok \<and> sg_pool live H q \<and> gp_same p q \<and> length (lc_chunks l) = length (lc_chunks (gp_chunk_locator p))"
proof -
  let ?C = "lc_chunks (gp_chunk_locator p)" and ?E = "la_entries (gp_large_alloc p)"
  note inv' = sg_poolD[OF inv]
  obtain s where s: "h = of_nat s" "s < length ?C" "s < 2 ^ 31" "ck_alive (?C ! s)" "ck_used (?C ! s) = 0" "ck_pending (?C ! s) = 0"
    using lc_findReleasable_Some[of "gp_chunk_locator p"] h len by metis
  let ?base = "ck_base (?C ! s)"
  have ix: "lc_indexFromId h = s" using lc_index_encode[OF s(3)] by (simp add: s(1))
  have l: "ok" "l = (gp_chunk_locator p)\<lparr>lc_chunks := ?C[s := ck_none], lc_free := lc_free (gp_chunk_locator p) @ [s]\<rparr>"
      "r = rs_deallocate rs ?base (ck_size (?C ! s)) (ck_alignment (?C ! s)) (gp_resource p)"
    using run s(2,4-6) inv'(1) by (simp_all add: lc_releaseChunk_def ix Let_def)
  have slot: "bk_handle b = h \<longleftrightarrow> sg_slot b = s" if "b \<in># H + dr_blocks (gp_reuse p) + fl_blocks (gp_freelist p)" for b
    using sg_slot_handle[OF sg_chunksD(1)[OF inv'(7) that] s(3)] by (simp add: s(1))
  have F: "filter_mset (\<lambda>b. bk_handle b \<noteq> h) (fl_blocks (gp_freelist p)) = filter_mset (\<lambda>b. sg_slot b \<noteq> s) (fl_blocks (gp_freelist p))"
    using slot by (intro filter_mset_cong) auto
  have "filter_mset (\<lambda>b. sg_slot b = s) (dr_blocks (gp_reuse p)) = {#}"
    using sg_chunksD(6)[OF inv'(7) s(2,4)] s(6) by simp
  then have D: "filter_mset (\<lambda>b. bk_handle b \<noteq> h) (dr_blocks (gp_reuse p)) = dr_blocks (gp_reuse p)"
    using slot by (intro filter_mset_all) auto
  have chunks: "sg_chunks (gp_chunk_size p) (?C[s := ck_none]) H (dr_blocks (gp_reuse p)) (filter_mset (\<lambda>b. sg_slot b \<noteq> s) (fl_blocks (gp_freelist p)))"
    by (rule sg_chunks_release[OF inv'(7) s(2,4,5)])
  have own: "add_mset ?base (mset (sg_own (?C[s := ck_none]) ?E)) = mset (sg_own ?C ?E)"
    using mset_map_filter_update[OF s(2), of ck_base ck_alive ck_none] s(4) by (simp add: sg_own_def ck_none_def)
  then have "?base \<in> set (sg_own ?C ?E)" by (metis set_mset_mset union_single_eq_member)
  then have mem: "?base \<in> live (gp_resource p)" using inv'(10) by (auto simp: sg_owned_def)
  have size: "vw_size ?base = ck_size (?C ! s)" using inv'(10) s(2,4) by (simp add: sg_owned_def)
  have "sg_owned (live (gp_resource p) - {?base}) (?C[s := ck_none]) ?E"
    using inv'(10) own
  proof (rule sg_owned_remove)
    fix c assume "c \<in> set (?C[s := ck_none])" "ck_alive c"
    then have "c \<in> set ?C" using set_update_subset_insert[of ?C s ck_none] by (auto simp: ck_none_def)
    with \<open>ck_alive c\<close> show "vw_size (ck_base c) = ck_size c" using inv'(10) by (simp add: sg_owned_def)
  qed
  then have "sg_owned (live r) (?C[s := ck_none]) ?E"
    using resource_okD(5)[OF rs mem] by (simp add: l(3) size)
  moreover have "s \<notin> set (lc_free (gp_chunk_locator p))" using s(4) inv'(13) by blast
  ultimately have "sg_pool live H q"
    using inv' chunks s(2)
    by (auto simp: sg_pool_def q_def l(2) fl_remove_ok dr_remove_ok F D nth_list_update ck_none_def)
  then show ?thesis by (simp add: l(1,2) q_def gp_same_def)
qed

lemma gp_releaseLoop_ok:
  assumes "sg_pool live H p" and "resource_ok rs live" and "length (lc_chunks (gp_chunk_locator p)) \<le> 2 ^ 31"
  shows "sg_pool live H (gp_releaseLoop rs p) \<and> gp_same p (gp_releaseLoop rs p) \<and>
     lc_findReleasable (gp_chunk_locator (gp_releaseLoop rs p)) = bk_invalidHandle"
  using assms
proof (induction rs p rule: gp_releaseLoop.induct)
  case (1 rs p)
  let ?h = "lc_findReleasable (gp_chunk_locator p)"
  show ?case
  proof (cases "?h = bk_invalidHandle")
    case True
    then show ?thesis using 1(2) by (simp add: gp_releaseLoop.simps[of rs p])
  next
    case False
    obtain ok l r where run: "lc_releaseChunk rs ?h (gp_chunk_locator p, gp_resource p) = (ok, l, r)" by (metis prod_cases3)
    let ?q = "p\<lparr>gp_reuse := dr_removeBlocksInChunk ?h (gp_reuse p), gp_freelist := fl_removeBlocksInChunk ?h (gp_freelist p),
      gp_resource := r, gp_chunk_locator := l\<rparr>"
    note q = gp_releaseRound[OF 1(2-4) refl False run]
    have run': "(ok, l, r) = lc_releaseChunk rs ?h
       (gp_chunk_locator (p\<lparr>gp_reuse := dr_removeBlocksInChunk ?h (gp_reuse p), gp_freelist := fl_removeBlocksInChunk ?h (gp_freelist p)\<rparr>),
        gp_resource (p\<lparr>gp_reuse := dr_removeBlocksInChunk ?h (gp_reuse p), gp_freelist := fl_removeBlocksInChunk ?h (gp_freelist p)\<rparr>))"
      using run by simp
    have "sg_pool live H (gp_releaseLoop rs ?q) \<and> gp_same ?q (gp_releaseLoop rs ?q) \<and>
        lc_findReleasable (gp_chunk_locator (gp_releaseLoop rs ?q)) = bk_invalidHandle"
      using 1(1)[OF refl False refl run' refl refl] q 1(3,4) by simp
    moreover have "gp_releaseLoop rs p = gp_releaseLoop rs ?q"
      using q False run by (simp add: gp_releaseLoop.simps[of rs p] Let_def)
    ultimately show ?thesis using q gp_same_trans by metis
  qed
qed

lemma gp_releaseChunk_ok:
  assumes inv: "sg_pool live H p" and rs: "resource_ok rs live" and len: "length (lc_chunks (gp_chunk_locator p)) \<le> 2 ^ 31"
    and run: "gp_releaseChunk rs now p = (x, q)"
  shows "x = Inr () \<and> sg_pool live H q \<and> gp_same p q \<and> lc_findReleasable (gp_chunk_locator q) = bk_invalidHandle"
proof -
  obtain p1 where p1: "gp_processPendingReuses rs now p = (Inr (), p1)" "sg_pool live H p1" "gp_same p p1"
      "length (lc_chunks (gp_chunk_locator p1)) \<le> 2 ^ 31"
    using gp_processPendingReuses_ok[OF inv, of rs now] len by auto
  then have "x = Inr ()" "q = gp_releaseLoop rs p1"
    using run by (simp_all add: gp_releaseChunk_def bindA_def)
  with gp_releaseLoop_ok[OF p1(2) rs p1(4)] gp_same_trans[OF p1(3)] show ?thesis by simp
qed

section \<open>A program that uses the pool\<close>

text \<open>
  The program holds buffers, each with the size it asked for.  It frees a buffer with that size and
  whatever reuse token it has put on it; in between, tokens complete (the resource moves on without
  changing what is allocated).  Side conditions: a chunk slot fits the 31 bits of a handle, and so
  does a large entry.
\<close>

inductive sg_reach ::
  "('r, 't option) resource \<Rightarrow> ('r \<Rightarrow> buffer_view set) \<Rightarrow> ('r, 't) segregate_pool \<Rightarrow> ('t buffer_resource \<times> nat) list \<Rightarrow> bool"
  for rs live where
  sg_init: "0 < gc_min_block_size config \<Longrightarrow> gc_chunk_size config < 2 ^ 32 \<Longrightarrow> rg_disjoint (live r) \<Longrightarrow>
     gp_initialize config (gp_new r) = (Inr (), p) \<Longrightarrow> sg_reach rs live p []"
| sg_alloc: "sg_reach rs live p held \<Longrightarrow> length (lc_chunks (gp_chunk_locator p)) < 2 ^ 31 \<Longrightarrow>
     length (la_entries (gp_large_alloc p)) < 2 ^ 31 - 1 \<Longrightarrow> gp_allocate rs now n al p = (x, q) \<Longrightarrow>
     sg_reach rs live q (case x of Inl e \<Rightarrow> held | Inr b \<Rightarrow> if bf_valid b then (b, n) # held else held)"
| sg_dealloc: "sg_reach rs live p held \<Longrightarrow> (b, n) \<in> set held \<Longrightarrow>
     gp_deallocate rs now (b\<lparr>bf_token := t\<rparr>) n al p = (x, q) \<Longrightarrow> sg_reach rs live q (remove1 (b, n) held)"
| sg_release: "sg_reach rs live p held \<Longrightarrow> length (lc_chunks (gp_chunk_locator p)) \<le> 2 ^ 31 \<Longrightarrow>
     gp_releaseChunk rs now p = (x, q) \<Longrightarrow> sg_reach rs live q held"
| sg_tick: "sg_reach rs live p held \<Longrightarrow> live r = live (gp_resource p) \<Longrightarrow> sg_reach rs live (p\<lparr>gp_resource := r\<rparr>) held"

definition sg_small :: "nat \<Rightarrow> ('t buffer_resource \<times> nat) list \<Rightarrow> buffer_block multiset" where
  "sg_small mx held = mset (map (\<lambda>x. bf_toBlock (fst x)) (filter (\<lambda>x. snd x \<le> mx) held))"

definition sg_larges :: "nat \<Rightarrow> ('t buffer_resource \<times> nat) list \<Rightarrow> u32 list" where
  "sg_larges mx held = map (\<lambda>x. bf_handle (fst x)) (filter (\<lambda>x. mx < snd x) held)"

definition sg_held :: "nat \<Rightarrow> nat \<Rightarrow> large_entry list \<Rightarrow> ('t buffer_resource \<times> nat) list \<Rightarrow> bool" where
  "sg_held mn mx E held \<longleftrightarrow>
     (\<forall>x \<in> set held. snd x \<noteq> 0 \<and>
        (if snd x \<le> mx then vw_size (bf_view (fst x)) = ff_get_block_size mn (snd x) else sg_large E (fst x) (snd x))) \<and>
     distinct (sg_larges mx held)"

definition sg_ok :: "('r \<Rightarrow> buffer_view set) \<Rightarrow> ('r, 't) segregate_pool \<Rightarrow> ('t buffer_resource \<times> nat) list \<Rightarrow> bool" where
  "sg_ok live p held \<longleftrightarrow>
     sg_pool live (sg_small (gp_max_block_size p) held) p \<and>
     sg_held (gp_min_block_size p) (gp_max_block_size p) (la_entries (gp_large_alloc p)) held"

lemma sg_held_D:
  assumes "sg_held mn mx E held" "x \<in> set held"
  shows "snd x \<noteq> 0" "snd x \<le> mx \<Longrightarrow> vw_size (bf_view (fst x)) = ff_get_block_size mn (snd x)"
    "mx < snd x \<Longrightarrow> sg_large E (fst x) (snd x)"
  using assms by (auto simp: sg_held_def)

lemma sg_large_mono:
  assumes "sg_large E b n" and "la_indexFromId (bf_handle b) < length E'" "E' ! la_indexFromId (bf_handle b) = E ! la_indexFromId (bf_handle b)"
  shows "sg_large E' b n"
  using assms by (simp add: sg_large_def)

lemma sg_ok_init:
  fixes p :: "('r, 't) segregate_pool"
  assumes "0 < gc_min_block_size config" "gc_chunk_size config < 2 ^ 32" "rg_disjoint (live r)"
    and "gp_initialize config (gp_new r) = (Inr (), p)"
  shows "sg_ok live p ([] :: ('t buffer_resource \<times> nat) list)"
proof -
  have nil: "concat (replicate k []) = ([] :: buffer_block list)" for k by (induction k) auto
  have "gp_min_block_size p = gc_min_block_size config \<and> gp_chunk_size p = gc_chunk_size config \<and> gp_resource p = r \<and>
      gp_large_alloc p = \<lparr>la_ready = True, la_entries = [], la_free = []\<rparr> \<and>
      gp_chunk_locator p = \<lparr>lc_ready = True, lc_chunks = [], lc_free = []\<rparr> \<and>
      dr_ready (gp_reuse p) \<and> dr_pending (gp_reuse p) = [] \<and> dr_queue (gp_reuse p) = [] \<and>
      fl_ready (gp_freelist p) \<and> (\<exists>k. fl_stacks (gp_freelist p) = replicate k [])"
    using assms(4) by (auto simp: gp_initialize_def Let_def gp_new_def fl_initialize_def split: if_splits intro: exI[of _ 0])
  then show ?thesis
    using assms(1-3)
    by (auto simp: sg_ok_def sg_pool_def sg_small_def sg_held_def sg_larges_def sg_chunks_def sg_owned_def sg_own_def
        dr_blocks_def dr_sized_def fl_sized_def fl_blocks_def nil)
qed

lemma sg_ok_alloc:
  assumes ok: "sg_ok live p held" and rs: "resource_ok rs live"
    and len: "length (lc_chunks (gp_chunk_locator p)) < 2 ^ 31" "length (la_entries (gp_large_alloc p)) < 2 ^ 31 - 1"
    and run: "gp_allocate rs now n al p = (x, q)"
  shows "sg_ok live q (case x of Inl e \<Rightarrow> held | Inr b \<Rightarrow> if bf_valid b then (b, n) # held else held)"
proof -
  let ?mx = "gp_max_block_size p" and ?mn = "gp_min_block_size p" and ?E = "la_entries (gp_large_alloc p)"
  have inv: "sg_pool live (sg_small ?mx held) p" and held: "sg_held ?mn ?mx ?E held" using ok by (simp_all add: sg_ok_def)
  consider "n = 0" | (small) "n \<noteq> 0" "n \<le> ?mx" | (large) "n \<noteq> 0" "?mx < n" by linarith
  then show ?thesis
  proof cases
    case 1
    with run ok show ?thesis by (auto simp: gp_allocate_def)
  next
    case small
    note res = gp_allocate_small[OF inv rs len(1) small run]
    then show ?thesis
      using held small
      by (auto simp: sg_ok_def gp_same_def sg_small_def sg_held_def sg_larges_def split: sum.splits if_splits)
  next
    case large
    note res = gp_allocate_large[OF inv rs len(2) large run]
    show ?thesis
    proof (cases "\<exists>b. x = Inr b \<and> bf_valid b")
      case False
      with res held inv show ?thesis by (auto simp: sg_ok_def split: sum.splits)
    next
      case True
      then obtain b where x: "x = Inr b" and True: "bf_valid b" by blast
      let ?E' = "la_entries (gp_large_alloc q)" and ?i = "la_indexFromId (bf_handle b)"
      have new: "sg_large ?E' b n" "length ?E \<le> length ?E'"
          "\<And>i. i < length ?E \<Longrightarrow> le_in_use (?E ! i) \<Longrightarrow> i \<noteq> ?i \<and> ?E' ! i = ?E ! i"
        using res x True by auto
      have old: "sg_large ?E' (fst y) (snd y) \<and> bf_handle (fst y) \<noteq> bf_handle b" if "y \<in> set held" "?mx < snd y" for y
      proof -
        have y: "sg_large ?E (fst y) (snd y)" by (rule sg_held_D(3)[OF held that])
        then have "la_indexFromId (bf_handle (fst y)) < length ?E" "le_in_use (?E ! la_indexFromId (bf_handle (fst y)))"
          by (simp_all add: sg_large_def)
        from new(3)[OF this] this new(2) y show ?thesis by (auto intro: sg_large_mono)
      qed
      then have "bf_handle b \<notin> set (sg_larges ?mx held)" by (fastforce simp: sg_larges_def)
      then have "sg_held ?mn ?mx ?E' ((b, n) # held)"
        using held new(1) old large by (auto simp: sg_held_def sg_larges_def)
      moreover have "sg_small ?mx ((b, n) # held) = sg_small ?mx held" using large by (simp add: sg_small_def)
      ultimately show ?thesis using res x True by (simp add: sg_ok_def)
    qed
  qed
qed

lemma sg_split:
  assumes "(b, n) \<in> set held"
  shows "sg_small mx held = (if n \<le> mx then {#bf_toBlock b#} else {#}) + sg_small mx (remove1 (b, n) held)"
    and "mset (sg_larges mx held) = (if mx < n then {#bf_handle b#} else {#}) + mset (sg_larges mx (remove1 (b, n) held))"
  using assms by (induction held) (auto simp: sg_small_def sg_larges_def)

lemma sg_ok_dealloc:
  assumes ok: "sg_ok live p held" and rs: "resource_ok rs live" and b: "(b, n) \<in> set held"
    and run: "gp_deallocate rs now (b\<lparr>bf_token := t\<rparr>) n al p = (x, q)"
  shows "sg_ok live q (remove1 (b, n) held)"
proof -
  let ?mx = "gp_max_block_size p" and ?mn = "gp_min_block_size p" and ?E = "la_entries (gp_large_alloc p)"
  let ?held = "remove1 (b, n) held"
  have inv: "sg_pool live (sg_small ?mx held) p" and held: "sg_held ?mn ?mx ?E held" using ok by (simp_all add: sg_ok_def)
  note h = sg_held_D[OF held b, unfolded fst_conv snd_conv]
  have sub: "set ?held \<subseteq> set held" by (rule set_remove1_subset)
  have dist: "distinct (sg_larges ?mx held)" using held by (simp add: sg_held_def)
  show ?thesis
  proof (cases "n \<le> ?mx")
    case True
    have "sg_pool live (add_mset (bf_toBlock b) (sg_small ?mx ?held)) p"
      using inv sg_split(1)[OF b, of ?mx] True by simp
    note res = gp_deallocate_small[OF this h(1) True h(2)[OF True] run]
    have "distinct (sg_larges ?mx ?held)"
      using dist sg_split(2)[OF b, of ?mx] True mset_eq_imp_distinct_iff by fastforce
    then have "sg_held ?mn ?mx ?E ?held" using held sub unfolding sg_held_def by blast
    with res show ?thesis by (simp add: sg_ok_def gp_same_def)
  next
    case False
    then have large: "?mx < n" by simp
    note res = gp_deallocate_large[OF inv rs h(1) large h(3)[OF large] run]
    have "mset (sg_larges ?mx held) = mset (bf_handle b # sg_larges ?mx ?held)"
      using sg_split(2)[OF b, of ?mx] large by simp
    then have d: "bf_handle b \<notin> set (sg_larges ?mx ?held)" "distinct (sg_larges ?mx ?held)"
      using dist mset_eq_imp_distinct_iff by fastforce+
    have "sg_large (la_entries (gp_large_alloc q)) (fst y) (snd y)" if y: "y \<in> set ?held" "?mx < snd y" for y
    proof -
      have l: "sg_large ?E (fst y) (snd y)" using sg_held_D(3)[OF held] y sub by blast
      have "bf_handle (fst y) \<in> set (sg_larges ?mx ?held)"
        using imageI[of y "{x \<in> set ?held. ?mx < snd x}" "\<lambda>x. bf_handle (fst x)"] y by (simp add: sg_larges_def)
      with d(1) have "bf_handle (fst y) \<noteq> bf_handle b" by metis
      then have "la_indexFromId (bf_handle (fst y)) \<noteq> la_indexFromId (bf_handle b)"
        using l h(3)[OF large] by (metis sg_large_def)
      with l res show ?thesis by (auto simp: sg_large_def)
    qed
    then have "sg_held ?mn ?mx (la_entries (gp_large_alloc q)) ?held"
      using held sub d(2) unfolding sg_held_def by (meson not_le subsetD)
    with res inv sg_split(1)[OF b, of ?mx] False show ?thesis by (simp add: sg_ok_def)
  qed
qed

lemma sg_reach_ok:
  assumes "resource_ok rs live" and "sg_reach rs live p held"
  shows "sg_ok live p held"
  using assms(2)
proof (induction rule: sg_reach.induct)
  case (sg_init config r p)
  then show ?case by (rule sg_ok_init)
next
  case (sg_alloc p held now n al x q)
  then show ?case by (intro sg_ok_alloc[OF _ assms(1)])
next
  case (sg_dealloc p held b n now t al x q)
  show ?case by (rule sg_ok_dealloc[OF sg_dealloc.IH assms(1) sg_dealloc.hyps(2,3)])
next
  case (sg_release p held now x q)
  have "sg_pool live (sg_small (gp_max_block_size p) held) p" using sg_release.IH by (simp add: sg_ok_def)
  from gp_releaseChunk_ok[OF this assms(1) sg_release.hyps(2,3)] sg_release.IH show ?case
    by (simp add: sg_ok_def gp_same_def)
next
  case (sg_tick p held r)
  then show ?case by (simp add: sg_ok_def sg_pool_resource)
qed

section \<open>No overlap\<close>

lemma mset_pair:
  assumes "i < j" "j < length xs" "Q (xs ! i)" "Q (xs ! j)"
  shows "\<exists>M. mset (map f (filter Q xs)) = {#f (xs ! i), f (xs ! j)#} + M"
  using assms
proof (induction xs arbitrary: i j)
  case (Cons x xs)
  obtain j' where j: "j = Suc j'" using Cons.prems(1) by (cases j) auto
  show ?case
  proof (cases i)
    case 0
    have "f (xs ! j') \<in># mset (map f (filter Q xs))" using Cons.prems j by auto
    then obtain M where "mset (map f (filter Q xs)) = add_mset (f (xs ! j')) M" by (meson mset_add)
    then show ?thesis using Cons.prems(3) by (auto simp: 0 j)
  next
    case (Suc i')
    then obtain M where "mset (map f (filter Q xs)) = {#f (xs ! i'), f (xs ! j')#} + M"
      using Cons.IH[of i' j'] Cons.prems j by auto
    then show ?thesis by (auto simp: Suc j intro: exI[of _ "(if Q x then {#f x#} else {#}) + M"])
  qed
qed simp

text \<open>Two blocks at different multiples of one size are disjoint.\<close>

lemma multiples_disjoint:
  fixes o1 o2 base k :: nat
  assumes "base \<le> o1" "base \<le> o2" "k dvd (o1 - base)" "k dvd (o2 - base)" "o1 \<noteq> o2"
  shows "{a + o1 ..< a + o1 + k} \<inter> {a + o2 ..< a + o2 + k} = {}"
proof -
  have le: "x + k \<le> y" if "base \<le> x" "x < y" "k dvd (x - base)" "k dvd (y - base)" for x y
  proof -
    have "k dvd (y - base) - (x - base)" using that(4,3) by (rule dvd_diff_nat)
    moreover have "(y - base) - (x - base) = y - x" using that(1,2) by simp
    ultimately have "k dvd y - x" by simp
    then have "k \<le> y - x" using that by (intro dvd_imp_le) simp_all
    then show ?thesis using that by simp
  qed
  show ?thesis using le[of o1 o2] le[of o2 o1] assms by (cases "o1 < o2") auto
qed

lemma sg_blk_inside:
  assumes "sg_blk C b" and "sg_owned V C E"
  shows "ck_base (C ! sg_slot b) \<in> V" "vw_region (bk_view b) \<subseteq> vw_region (ck_base (C ! sg_slot b))"
proof -
  have s: "sg_slot b < length C" "ck_alive (C ! sg_slot b)" using assms(1) by (simp_all add: sg_blk_def)
  then have "C ! sg_slot b \<in> set (filter ck_alive C)" by simp
  then show "ck_base (C ! sg_slot b) \<in> V" using assms(2) by (auto simp: sg_owned_def sg_own_def)
  have "vw_size (ck_base (C ! sg_slot b)) = ck_size (C ! sg_slot b)"
    using assms(2) s by (simp add: sg_owned_def)
  then show "vw_region (bk_view b) \<subseteq> vw_region (ck_base (C ! sg_slot b))"
    using assms(1) by (auto simp: sg_blk_def vw_region_def)
qed

lemma sg_large_inside:
  assumes "sg_large E b n" and "sg_owned V C E"
  shows "bf_view b \<in> V" "bf_view b \<in> le_view ` set (filter le_in_use E)"
proof -
  have "E ! la_indexFromId (bf_handle b) \<in> set (filter le_in_use E)" "le_view (E ! la_indexFromId (bf_handle b)) = bf_view b"
    using assms(1) by (simp_all add: sg_large_def)
  then show "bf_view b \<in> le_view ` set (filter le_in_use E)" by (metis imageI)
  then show "bf_view b \<in> V" using assms(2) by (auto simp: sg_owned_def sg_own_def)
qed

lemma rg_disjoint_sub:
  assumes "rg_disjoint V" "u \<in> V" "v \<in> V" "u \<noteq> v" "A \<subseteq> vw_region u" "B \<subseteq> vw_region v"
  shows "A \<inter> B = {}"
  using assms unfolding rg_disjoint_def by blast

lemma sg_ok_disjoint:
  assumes ok: "sg_ok live p held" and ij: "i < j" "j < length held"
  shows "vw_region (bf_view (fst (held ! i))) \<inter> vw_region (bf_view (fst (held ! j))) = {}"
proof -
  let ?mx = "gp_max_block_size p" and ?mn = "gp_min_block_size p" and ?E = "la_entries (gp_large_alloc p)"
  let ?C = "lc_chunks (gp_chunk_locator p)" and ?V = "live (gp_resource p)"
  have inv: "sg_pool live (sg_small ?mx held) p" and held: "sg_held ?mn ?mx ?E held" using ok by (simp_all add: sg_ok_def)
  note inv' = sg_poolD[OF inv]
  have V: "rg_disjoint ?V" and own: "distinct (sg_own ?C ?E)" using inv'(10) by (simp_all add: sg_owned_def)
  have mem: "held ! i \<in> set held" "held ! j \<in> set held" using ij by auto
  have small: "sg_blk ?C (bf_toBlock (fst y)) \<and> bf_toBlock (fst y) \<in># sg_small ?mx held" if "y \<in> set held" "snd y \<le> ?mx" for y
  proof -
    have "bf_toBlock (fst y) \<in># sg_small ?mx held" using that by (auto simp: sg_small_def)
    with sg_chunksD(1)[OF inv'(7)] show ?thesis by simp
  qed
  have mixed: "vw_region (bf_view (fst y)) \<inter> vw_region (bf_view (fst z)) = {}"
    if yz: "y \<in> set held" "snd y \<le> ?mx" "z \<in> set held" "?mx < snd z" for y z
  proof -
    let ?b = "bf_toBlock (fst y)"
    have b: "sg_blk ?C ?b" using small yz by blast
    have z: "sg_large ?E (fst z) (snd z)" using sg_held_D(3)[OF held yz(3,4)] .
    have "?C ! sg_slot ?b \<in> set (filter ck_alive ?C)" using b by (simp add: sg_blk_def)
    then have "ck_base (?C ! sg_slot ?b) \<noteq> bf_view (fst z)"
      using own sg_large_inside(2)[OF z inv'(10)] by (auto simp: sg_own_def)
    then show ?thesis
      using rg_disjoint_sub[OF V sg_blk_inside(1)[OF b inv'(10)] sg_large_inside(1)[OF z inv'(10)] _ sg_blk_inside(2)[OF b inv'(10)] subset_refl]
      by (simp add: bf_toBlock_def)
  qed
  consider (ss) "snd (held ! i) \<le> ?mx" "snd (held ! j) \<le> ?mx" | (sl) "snd (held ! i) \<le> ?mx" "?mx < snd (held ! j)"
    | (ls) "?mx < snd (held ! i)" "snd (held ! j) \<le> ?mx" | (ll) "?mx < snd (held ! i)" "?mx < snd (held ! j)" by linarith
  then show ?thesis
  proof cases
    case sl
    then show ?thesis using mixed mem by blast
  next
    case ls
    then show ?thesis using mixed[OF mem(2) _ mem(1)] by blast
  next
    case ll
    let ?b = "fst (held ! i)" and ?c = "fst (held ! j)"
    have b: "sg_large ?E ?b (snd (held ! i))" and c: "sg_large ?E ?c (snd (held ! j))"
      using sg_held_D(3)[OF held] mem ll by blast+
    have "bf_handle ?b \<noteq> bf_handle ?c"
      using sg_own_distinctD[of "\<lambda>x. bf_handle (fst x)" "\<lambda>x. ?mx < snd x" held i j] held ij ll
      by (auto simp: sg_held_def sg_larges_def)
    then have "la_indexFromId (bf_handle ?b) \<noteq> la_indexFromId (bf_handle ?c)" using b c by (metis sg_large_def)
    then have "bf_view ?b \<noteq> bf_view ?c"
      using sg_own_distinctD[of le_view le_in_use ?E "la_indexFromId (bf_handle ?b)" "la_indexFromId (bf_handle ?c)"] own b c
      by (auto simp: sg_own_def sg_large_def)
    then show ?thesis
      using V sg_large_inside(1)[OF b inv'(10)] sg_large_inside(1)[OF c inv'(10)] by (auto simp: rg_disjoint_def)
  next
    case ss
    let ?b = "bf_toBlock (fst (held ! i))" and ?c = "bf_toBlock (fst (held ! j))"
    have b: "sg_blk ?C ?b" "?b \<in># sg_small ?mx held" and c: "sg_blk ?C ?c" "?c \<in># sg_small ?mx held"
      using small mem ss by blast+
    obtain M where "sg_small ?mx held = {#?b, ?c#} + M"
      using mset_pair[OF ij, of "\<lambda>x. snd x \<le> ?mx" "\<lambda>x. bf_toBlock (fst x)"] ss by (auto simp: sg_small_def)
    then have key: "sg_key ?b \<noteq> sg_key ?c"
      using sg_chunksD(3)[OF inv'(7), of "sg_key ?b"] by auto
    have view: "bk_view ?b = bf_view (fst (held ! i))" "bk_view ?c = bf_view (fst (held ! j))" by (simp_all add: bf_toBlock_def)
    show ?thesis
    proof (cases "bk_handle ?b = bk_handle ?c")
      case True
      then have "sg_slot ?b = sg_slot ?c" by (simp add: sg_slot_def)
      moreover have "vw_size (bk_view ?b) = vw_size (bk_view ?c)"
        using sg_chunksD(2)[OF inv'(7) _ _ True] b(2) c(2) by simp
      moreover have "vw_offset (bk_view ?b) \<noteq> vw_offset (bk_view ?c)" using key True by (simp add: sg_key_def)
      ultimately show ?thesis
        using b(1) c(1) multiples_disjoint[of "vw_offset (ck_base (?C ! sg_slot ?b))" "vw_offset (bk_view ?b)" "vw_offset (bk_view ?c)"
            "vw_size (bk_view ?b)" "vw_base (bk_view ?b)"]
        unfolding view[symmetric] vw_region_def by (simp add: sg_blk_def)
    next
      case False
      then have "sg_slot ?b \<noteq> sg_slot ?c" using b(1) c(1) by (metis sg_blk_def)
      then have "ck_base (?C ! sg_slot ?b) \<noteq> ck_base (?C ! sg_slot ?c)"
        using sg_own_distinctD[of ck_base ck_alive ?C "sg_slot ?b" "sg_slot ?c"] own b(1) c(1)
        by (auto simp: sg_own_def sg_blk_def)
      then show ?thesis
        using rg_disjoint_sub[OF V sg_blk_inside(1)[OF b(1) inv'(10)] sg_blk_inside(1)[OF c(1) inv'(10)] _
            sg_blk_inside(2)[OF b(1) inv'(10)] sg_blk_inside(2)[OF c(1) inv'(10)]]
        by (simp add: view)
    qed
  qed
qed

lemma sg_ok_inside:
  assumes ok: "sg_ok live p held" and x: "x \<in> set held"
  shows "bf_valid (fst x) \<and> snd x \<le> vw_size (bf_view (fst x)) \<and>
    (\<exists>v \<in> live (gp_resource p). vw_region (bf_view (fst x)) \<subseteq> vw_region v)"
proof -
  let ?mx = "gp_max_block_size p" and ?mn = "gp_min_block_size p" and ?E = "la_entries (gp_large_alloc p)"
  have inv: "sg_pool live (sg_small ?mx held) p" and held: "sg_held ?mn ?mx ?E held" using ok by (simp_all add: sg_ok_def)
  note inv' = sg_poolD[OF inv]
  show ?thesis
  proof (cases "snd x \<le> ?mx")
    case True
    have "bf_toBlock (fst x) \<in># sg_small ?mx held" using True x by (auto simp: sg_small_def)
    with sg_chunksD(1)[OF inv'(7)] have b: "sg_blk (lc_chunks (gp_chunk_locator p)) (bf_toBlock (fst x))" by simp
    have "bf_valid (fst x)" using sg_blk_valid[OF b] by (simp add: bf_valid_def bk_valid_def bf_toBlock_def)
    then show ?thesis
      using sg_blk_inside[OF b inv'(10)] sg_held_D(2)[OF held x True] ff_block_size_ge(1)[of "snd x" ?mn]
      by (auto simp: bf_toBlock_def)
  next
    case False
    then have l: "sg_large ?E (fst x) (snd x)" using sg_held_D(3)[OF held x] by simp
    then have "bf_valid (fst x)" "snd x = vw_size (bf_view (fst x))" by (simp_all add: sg_large_def)
    with sg_large_inside(1)[OF l inv'(10)] show ?thesis by auto
  qed
qed

text \<open>
  C1: whatever a program does with the pool - allocations of any size and alignment, deallocations of
  buffers it holds with any reuse token, releases of chunks, completions of tokens in any order - the
  buffers it holds never overlap, each is at least as large as was asked for, and each lies inside one
  region that the resource still has allocated.
\<close>

theorem gp_no_overlap:
  assumes "resource_ok rs live" and "sg_reach rs live p held"
  shows "(\<forall>i j. i < j \<longrightarrow> j < length held \<longrightarrow>
       vw_region (bf_view (fst (held ! i))) \<inter> vw_region (bf_view (fst (held ! j))) = {}) \<and>
     (\<forall>(b, n) \<in> set held. bf_valid b \<and> n \<le> vw_size (bf_view b) \<and>
       (\<exists>v \<in> live (gp_resource p). vw_region (bf_view b) \<subseteq> vw_region v))"
  using sg_ok_disjoint[OF sg_reach_ok[OF assms]] sg_ok_inside[OF sg_reach_ok[OF assms]] by auto

text \<open>A resource that allocates after the last region it has given out.\<close>

definition bump_end :: "buffer_view \<Rightarrow> nat" where
  "bump_end v = vw_base v + vw_offset v + vw_size v"

definition bump_resource :: "(buffer_view list, nat option) resource" where
  "bump_resource = \<lparr>
     rs_allocate = (\<lambda>n al r.
        let v = \<lparr>vw_base = foldr (\<lambda>v. max (bump_end v)) r 4096, vw_offset = 0, vw_size = n\<rparr> in (Inr v, v # r)),
     rs_deallocate = (\<lambda>v n al r. filter (\<lambda>u. u \<noteq> v) r),
     rs_isCompleted = (\<lambda>r t. t = None)\<rparr>"

lemma bump_end_le: "v \<in> set r \<Longrightarrow> bump_end v \<le> foldr (\<lambda>v. max (bump_end v)) r a" "a \<le> foldr (\<lambda>v. max (bump_end v)) r a"
  by (induction r) auto

lemma bump_resource_ok: "resource_ok bump_resource set"
  unfolding resource_ok_def
proof (intro conjI allI impI)
  fix n al and r :: "buffer_view list"
  define v where "v = \<lparr>vw_base = foldr (\<lambda>v. max (bump_end v)) r 4096, vw_offset = 0, vw_size = n\<rparr>"
  have "rs_allocate bump_resource n al r = (Inr v, v # r)"
    by (simp add: bump_resource_def Let_def v_def)
  moreover have "vw_region u \<inter> vw_region v = {}" if "u \<in> set r" for u
    using bump_end_le(1)[OF that, of 4096] by (auto simp: v_def vw_region_def bump_end_def)
  moreover have "\<not> vw_empty v" using bump_end_le(2)[of 4096 r] by (simp add: v_def vw_empty_def)
  moreover have "vw_size v = n" by (simp add: v_def)
  ultimately show "case rs_allocate bump_resource n al r of (Inl e, r') \<Rightarrow> set r' = set r
      | (Inr v, r') \<Rightarrow> if vw_empty v then set r' = set r
          else set r' = insert v (set r) \<and> vw_size v = n \<and> (\<forall>u \<in> set r. vw_region u \<inter> vw_region v = {})"
    by simp
qed (auto simp: bump_resource_def)

definition bump_config :: segregate_config where
  "bump_config = \<lparr>gc_large_alloc = True, gc_chunk_locator = True, gc_reuse = True, gc_freelist = True,
     gc_reuse_timeout = 10, gc_chunk_size = 100, gc_min_block_size = 64, gc_max_block_size = 128\<rparr>"

definition bump_start :: "(buffer_view list, nat) segregate_pool" where
  "bump_start = snd (gp_initialize bump_config (gp_new []))"

definition bump_alloc :: "nat \<Rightarrow> nat \<Rightarrow> (buffer_view list, nat) segregate_pool \<Rightarrow> nat buffer_resource \<times> (buffer_view list, nat) segregate_pool" where
  "bump_alloc n al p = (case gp_allocate bump_resource 0 n al p of (x, q) \<Rightarrow> (case x of Inr b \<Rightarrow> (b, q) | Inl e \<Rightarrow> (bf_fromBlock bk_none, q)))"

lemma bump_reach_start: "sg_reach bump_resource set bump_start []"
proof (rule sg_init[of bump_config set "[]"])
  show "gp_initialize bump_config (gp_new []) = (Inr (), bump_start)"
    by (simp add: bump_start_def bump_config_def gp_initialize_def Let_def)
qed (simp_all add: bump_config_def rg_disjoint_def)

lemma bump_reach_alloc:
  assumes "sg_reach bump_resource set p held" and "bump_alloc n al p = (b, q)" and "bf_valid b"
    and "length (lc_chunks (gp_chunk_locator p)) < 10" "length (la_entries (gp_large_alloc p)) < 10"
  shows "sg_reach bump_resource set q ((b, n) # held)"
proof -
  obtain x where x: "gp_allocate bump_resource 0 n al p = (x, q)" and b: "b = (case x of Inr b \<Rightarrow> b | Inl e \<Rightarrow> bf_fromBlock bk_none)"
    using assms(2) by (auto simp: bump_alloc_def split: prod.splits sum.splits)
  have "x = Inr b" using b assms(3) by (cases x) simp_all
  with sg_alloc[OF assms(1) _ _ x] assms(3-5) show ?thesis by simp
qed

text \<open>The first allocation of 60 bytes takes a chunk of two blocks and returns the second.\<close>

definition bump_first :: "nat buffer_resource" where
  "bump_first = \<lparr>bf_handle = 0, bf_view = \<lparr>vw_base = 4096, vw_offset = 64, vw_size = 64\<rparr>, bf_token = None\<rparr>"

definition bump_next :: "(buffer_view list, nat) segregate_pool" where
  "bump_next = bump_start\<lparr>
     gp_resource := [\<lparr>vw_base = 4096, vw_offset = 0, vw_size = 128\<rparr>],
     gp_chunk_locator := \<lparr>lc_ready = True, lc_chunks =
       [\<lparr>ck_base = \<lparr>vw_base = 4096, vw_offset = 0, vw_size = 128\<rparr>, ck_size = 128, ck_alignment = 0,
          ck_used = 1, ck_pending = 0, ck_alive = True\<rparr>], lc_free = []\<rparr>,
     gp_freelist := \<lparr>fl_ready = True, fl_stacks =
       [[\<lparr>bk_handle = 0, bk_view = \<lparr>vw_base = 4096, vw_offset = 0, vw_size = 64\<rparr>\<rparr>], []]\<rparr>\<rparr>"

lemma bump_alloc_first: "bump_alloc 60 8 bump_start = (bump_first, bump_next)" "bump_alloc 60 256 bump_start = (bump_first, bump_next)"
  by code_simp+

lemma bump_reach_first: "sg_reach bump_resource set bump_next [(bump_first, 60)]"
  by (rule bump_reach_alloc[OF bump_reach_start bump_alloc_first(1)])
    (simp_all add: bump_first_def bf_valid_def bk_invalidHandle_def vw_empty_def bump_start_def gp_new_def
      gp_initialize_def bump_config_def Let_def)

theorem gp_no_overlap_witness:
  "\<exists>p b. sg_reach bump_resource set p [(b, 300), (bump_first, 60)] \<and>
     vw_region (bf_view b) \<inter> {4160..<4224} = {} \<and> 300 \<le> vw_size (bf_view b)"
proof -
  obtain b p where b: "bump_alloc 300 8 bump_next = (b, p)" by fastforce
  have "bf_valid (fst (bump_alloc 300 8 bump_next))" by code_simp
  then have r: "sg_reach bump_resource set p [(b, 300), (bump_first, 60)]"
    using bump_reach_alloc[OF bump_reach_first b] b
    by (simp add: bump_next_def bump_start_def gp_new_def gp_initialize_def bump_config_def Let_def)
  from gp_no_overlap[OF bump_resource_ok r] r show ?thesis
    by (force simp: bump_first_def vw_region_def)
qed

text \<open>
  the alignment of a pooled request is ignored: chunks are taken with alignment 0 and cut into blocks
  of the size class.  The request below, 60 bytes aligned to 256, is answered with an address that is
  no multiple of 256, although the chunk itself starts at one.
\<close>

theorem gp_alignment_ignored:
  "case bump_alloc 60 256 bump_start of (b, q) \<Rightarrow>
     bf_valid b \<and> vw_base (bf_view b) mod 256 = 0 \<and> (vw_base (bf_view b) + vw_offset (bf_view b)) mod 256 = 64"
  by (simp add: bump_alloc_first bump_first_def bf_valid_def bk_invalidHandle_def vw_empty_def)

section \<open>What releasing achieves\<close>

lemma gp_drain_pending: "gp_drainReady p = (x, q) \<Longrightarrow> dr_pending (gp_reuse q) = dr_pending (gp_reuse p)"
proof (induction p rule: gp_drainReady.induct)
  case (1 p)
  show ?case
  proof (cases "dr_queue (gp_reuse p) = []")
    case True
    with 1(2) show ?thesis by (auto simp: gp_drainReady.simps[of p] dr_getReadyItem_def)
  next
    case False
    obtain b i where bi: "last (dr_queue (gp_reuse p)) = (b, i)" by fastforce
    let ?d = "(gp_reuse p)\<lparr>dr_queue := butlast (dr_queue (gp_reuse p))\<rparr>"
    let ?p = "p\<lparr>gp_reuse := ?d, gp_chunk_locator := lc_decrementPendingAndUsed (bk_handle b) (gp_chunk_locator p)\<rparr>"
    have get: "dr_getReadyItem (gp_reuse p) = (Some (b, i), ?d)" using False bi by (simp add: dr_getReadyItem_def)
    obtain y f where push: "fl_push i b (gp_freelist ?p) = (y, f)" by fastforce
    show ?thesis
    proof (cases y)
      case (Inl e)
      with 1(2) push get show ?thesis by (auto simp: gp_drainReady.simps[of p])
    next
      case (Inr u)
      then have "gp_drainReady p = gp_drainReady (?p\<lparr>gp_freelist := f\<rparr>)"
        using push get by (simp add: gp_drainReady.simps[of p])
      with 1(1)[OF get[symmetric] refl refl refl push[symmetric] Inr] 1(2) show ?thesis by simp
    qed
  qed
qed

lemma gp_process_waiting:
  assumes "gp_processPendingReuses rs now p = (Inr (), q)" and "w \<in> set (dr_pending (gp_reuse q))"
  shows "\<not> rs_isCompleted rs (gp_resource p) (pr_token w)"
proof -
  let ?c = "rs_isCompleted rs (gp_resource p)"
  obtain k d where d: "dr_processPending ?c now (gp_reuse p) = (Inr k, d)" "gp_drainReady (p\<lparr>gp_reuse := d\<rparr>) = (Inr (), q)"
    using assms(1) by (auto simp: gp_processPendingReuses_def bindA_def gp_onReuse_def split: prod.splits sum.splits)
  have "w \<in> set (dr_pending d)" using gp_drain_pending[OF d(2)] assms(2) by simp
  then show ?thesis using d(1) by (auto simp: dr_processPending_def Let_def split: if_splits)
qed

lemma gp_releaseLoop_waiting:
  "set (dr_pending (gp_reuse (gp_releaseLoop rs p))) \<subseteq> set (dr_pending (gp_reuse p)) \<and>
   (dr_queue (gp_reuse p) = [] \<longrightarrow> dr_queue (gp_reuse (gp_releaseLoop rs p)) = [])"
proof (induction rs p rule: gp_releaseLoop.induct)
  case (1 rs p)
  let ?h = "lc_findReleasable (gp_chunk_locator p)"
  let ?p = "p\<lparr>gp_reuse := dr_removeBlocksInChunk ?h (gp_reuse p), gp_freelist := fl_removeBlocksInChunk ?h (gp_freelist p)\<rparr>"
  obtain ok l r where run: "lc_releaseChunk rs ?h (gp_chunk_locator ?p, gp_resource ?p) = (ok, l, r)" by (metis prod_cases3)
  show ?case
  proof (cases "?h = bk_invalidHandle \<or> \<not> ok")
    case True
    with run show ?thesis
      by (auto simp: gp_releaseLoop.simps[of rs p] Let_def dr_removeBlocksInChunk_def)
  next
    case False
    then have "gp_releaseLoop rs p = gp_releaseLoop rs (?p\<lparr>gp_resource := r, gp_chunk_locator := l\<rparr>)"
      using run by (simp add: gp_releaseLoop.simps[of rs p] Let_def)
    with 1[OF refl _ refl run[symmetric] refl refl] False show ?thesis
      by (auto simp: dr_removeBlocksInChunk_def)
  qed
qed

lemma gp_releaseLoop_length:
  "length (lc_chunks (gp_chunk_locator (gp_releaseLoop rs p))) = length (lc_chunks (gp_chunk_locator p))"
proof (induction rs p rule: gp_releaseLoop.induct)
  case (1 rs p)
  let ?h = "lc_findReleasable (gp_chunk_locator p)"
  let ?p = "p\<lparr>gp_reuse := dr_removeBlocksInChunk ?h (gp_reuse p), gp_freelist := fl_removeBlocksInChunk ?h (gp_freelist p)\<rparr>"
  obtain ok l r where run: "lc_releaseChunk rs ?h (gp_chunk_locator ?p, gp_resource ?p) = (ok, l, r)" by (metis prod_cases3)
  then have len: "length (lc_chunks l) = length (lc_chunks (gp_chunk_locator p))"
    by (auto simp: lc_releaseChunk_def Let_def split: if_splits)
  show ?case
  proof (cases "?h = bk_invalidHandle \<or> \<not> ok")
    case True
    with run len show ?thesis by (auto simp: gp_releaseLoop.simps[of rs p] Let_def)
  next
    case False
    then have "gp_releaseLoop rs p = gp_releaseLoop rs (?p\<lparr>gp_resource := r, gp_chunk_locator := l\<rparr>)"
      using run by (simp add: gp_releaseLoop.simps[of rs p] Let_def)
    with 1[OF refl _ refl run[symmetric] refl refl] False len show ?thesis by simp
  qed
qed

lemma lc_none_idle:
  assumes "lc_findReleasable l = bk_invalidHandle" and "length (lc_chunks l) \<le> 2 ^ 31" and "s < length (lc_chunks l)"
    and "ck_alive (lc_chunks l ! s)"
  shows "ck_used (lc_chunks l ! s) \<noteq> 0 \<or> ck_pending (lc_chunks l ! s) \<noteq> 0"
proof (rule ccontr)
  let ?Q = "\<lambda>i. ck_alive (lc_chunks l ! i) \<and> ck_used (lc_chunks l ! i) = 0 \<and> ck_pending (lc_chunks l ! i) = 0"
  assume "\<not> ?thesis"
  then have "find ?Q [0..<length (lc_chunks l)] \<noteq> None" using assms(3,4) by (auto simp: find_None_iff)
  then obtain i where i: "find ?Q [0..<length (lc_chunks l)] = Some i" by blast
  then have "i < 2 ^ 31" using assms(2) by (auto simp: find_Some_iff)
  with i assms(1) show False by (simp add: lc_findReleasable_def lc_encodeId_small lc_handle_valid)
qed

text \<open>
  C2: after \<open>releaseChunk\<close> every chunk the pool keeps is needed: a pooled buffer of it, whose handle is
  the chunk's own and not that of a large allocation, is held by the program, or one of its blocks
  waits for a reuse token that is not completed.
\<close>

theorem gp_release_leaves_no_idle:
  assumes "resource_ok rs live" and "sg_reach rs live p held" and "length (lc_chunks (gp_chunk_locator p)) \<le> 2 ^ 31"
    and "gp_releaseChunk rs now p = (x, q)"
    and "s < length (lc_chunks (gp_chunk_locator q))" and "ck_alive (lc_chunks (gp_chunk_locator q) ! s)"
  shows "x = Inr () \<and>
     ((\<exists>y \<in> set held. bf_handle (fst y) = lc_encodeId s \<and> \<not> la_isLargeAlloc (bf_handle (fst y))) \<or>
      (\<exists>w \<in> set (dr_pending (gp_reuse q)).
         bk_handle (pr_block w) = lc_encodeId s \<and> \<not> rs_isCompleted rs (gp_resource p) (pr_token w)))"
proof -
  let ?mx = "gp_max_block_size p"
  have inv: "sg_pool live (sg_small ?mx held) p" using sg_reach_ok[OF assms(1,2)] by (simp add: sg_ok_def)
  note res = gp_releaseChunk_ok[OF inv assms(1,3,4)]
  obtain p1 where p1: "gp_processPendingReuses rs now p = (Inr (), p1)" "dr_queue (gp_reuse p1) = []"
      "length (lc_chunks (gp_chunk_locator p1)) = length (lc_chunks (gp_chunk_locator p))"
      "sg_pool live (sg_small ?mx held) p1"
    using gp_processPendingReuses_ok[OF inv, of rs now] by auto
  have q: "q = gp_releaseLoop rs p1" using assms(4) p1(1) by (simp add: gp_releaseChunk_def bindA_def)
  have len: "length (lc_chunks (gp_chunk_locator q)) \<le> 2 ^ 31"
    using gp_releaseLoop_length[of rs p1] p1(3) assms(3) by (simp add: q)
  have chunks: "sg_chunks (gp_chunk_size q) (lc_chunks (gp_chunk_locator q)) (sg_small ?mx held) (dr_blocks (gp_reuse q)) (fl_blocks (gp_freelist q))"
    using res sg_poolD(7) by blast
  have "size (filter_mset (\<lambda>b. sg_slot b = s) (sg_small ?mx held + dr_blocks (gp_reuse q))) \<noteq> 0"
  proof -
    have "unat (ck_used (lc_chunks (gp_chunk_locator q) ! s)) \<noteq> 0 \<or> unat (ck_pending (lc_chunks (gp_chunk_locator q) ! s)) \<noteq> 0"
      using lc_none_idle[OF conjunct2[OF conjunct2[OF conjunct2[OF res]]] len assms(5,6)] by (metis unsigned_eq_0_iff)
    then show ?thesis
      using sg_chunksD(5,6)[OF chunks assms(5,6)] by (metis add_eq_0_iff_both_eq_0 filter_union_mset size_union)
  qed
  then obtain b where b: "b \<in># sg_small ?mx held + dr_blocks (gp_reuse q)" "sg_slot b = s" by auto
  have "dr_queue (gp_reuse q) = []" "set (dr_pending (gp_reuse q)) \<subseteq> set (dr_pending (gp_reuse p1))"
    using gp_releaseLoop_waiting[of rs p1] p1(2) by (simp_all add: q)
  moreover have "\<exists>y \<in> set held. bf_handle (fst y) = bk_handle b" if "b \<in># sg_small ?mx held"
    using that by (force simp: sg_small_def bf_toBlock_def)
  moreover have "sg_blk (lc_chunks (gp_chunk_locator q)) b"
    using sg_chunksD(1)[OF chunks, of b] b(1) by auto
  then have "bk_handle b = lc_encodeId s" "\<not> la_isLargeAlloc (bk_handle b)"
    using b(2) la_chunk_not_large[of s] lc_encodeId_small[of s] by (auto simp: sg_blk_def)
  ultimately show ?thesis
    using b gp_process_waiting[OF p1(1)] conjunct1[OF res] by (auto simp: dr_blocks_def)
qed

theorem gp_release_leaves_no_idle_witness:
  "\<exists>q. sg_reach bump_resource set bump_next [(bump_first, 60)] \<and> gp_releaseChunk bump_resource 0 bump_next = (Inr (), q) \<and>
     ck_alive (lc_chunks (gp_chunk_locator q) ! 0) \<and> bf_handle bump_first = lc_encodeId 0"
proof -
  obtain x q where q: "gp_releaseChunk bump_resource 0 bump_next = (x, q)" by fastforce
  have "(case gp_releaseChunk bump_resource 0 bump_next of (x, q) \<Rightarrow>
      0 < length (lc_chunks (gp_chunk_locator q)) \<and> ck_alive (lc_chunks (gp_chunk_locator q) ! 0) \<and> dr_pending (gp_reuse q) = [])"
    by code_simp
  then have c: "0 < length (lc_chunks (gp_chunk_locator q))" "ck_alive (lc_chunks (gp_chunk_locator q) ! 0)" "dr_pending (gp_reuse q) = []"
    using q by auto
  have "length (lc_chunks (gp_chunk_locator bump_next)) \<le> 2 ^ 31" by (simp add: bump_next_def)
  from gp_release_leaves_no_idle[OF bump_resource_ok bump_reach_first this q c(1,2)] bump_reach_first q c
  show ?thesis by simp
qed

end
