(* ===== verification/HierarchicalSafety.thy ===== *)
theory HierarchicalSafety
  imports HierarchicalSlots SegregateSafety
begin

text \<open>
  What the hierarchical slot allocator guarantees: the slots form a forest whose leaves partition the
  reserved regions, buffers in use never overlap, and returned slots are merged completely.
\<close>

section \<open>Reading the layers\<close>

definition hl_size :: "hs_layer list \<Rightarrow> nat \<Rightarrow> nat" where
  "hl_size Ls k = sy_slot_size (Ls ! k)"

definition hl_count :: "hs_layer list \<Rightarrow> nat \<Rightarrow> nat" where
  "hl_count Ls k = hv_size (sy_slots (Ls ! k))"

definition hl_at :: "hs_layer list \<Rightarrow> nat \<Rightarrow> nat \<Rightarrow> hs_slot" where
  "hl_at Ls k j = hv_nth (sy_slots (Ls ! k)) j"

definition hl_free :: "hs_layer list \<Rightarrow> nat \<Rightarrow> nat list" where
  "hl_free Ls k = hv_data (sy_free_list (Ls ! k))"

definition hl_span :: "hs_layer list \<Rightarrow> nat \<Rightarrow> nat list" where
  "hl_span Ls k = hv_data (sy_span_free_list (Ls ! k))"

abbreviation hl_state :: "hs_layer list \<Rightarrow> nat \<Rightarrow> nat \<Rightarrow> slot_state" where
  "hl_state Ls k j \<equiv> ss_state (hl_at Ls k j)"

abbreviation hl_data :: "hs_layer list \<Rightarrow> nat \<Rightarrow> nat \<Rightarrow> nat" where
  "hl_data Ls k j \<equiv> hr_data (ss_region (hl_at Ls k j))"

abbreviation hl_begin :: "hs_layer list \<Rightarrow> nat \<Rightarrow> nat \<Rightarrow> nat" where
  "hl_begin Ls k j \<equiv> ss_child_begin (hl_at Ls k j)"

definition hl_fan :: "hs_layer list \<Rightarrow> nat \<Rightarrow> nat" where
  "hl_fan Ls k = hl_size Ls k div hl_size Ls (Suc k)"

definition hl_split :: "hs_layer list \<Rightarrow> nat \<Rightarrow> nat \<Rightarrow> bool" where
  "hl_split Ls k p \<longleftrightarrow> p < hl_count Ls k \<and> hl_state Ls k p = SlotSplit"

definition hl_live :: "hs_layer list \<Rightarrow> nat \<Rightarrow> nat \<Rightarrow> bool" where
  "hl_live Ls k j \<longleftrightarrow> k < length Ls \<and> j < hl_count Ls k \<and>
     (case k of 0 \<Rightarrow> True
      | Suc i \<Rightarrow> \<exists>p. hl_split Ls i p \<and> hl_begin Ls i p \<le> j \<and> j < hl_begin Ls i p + hl_fan Ls i)"

definition hl_range :: "hs_layer list \<Rightarrow> nat \<Rightarrow> nat \<Rightarrow> nat set" where
  "hl_range Ls k j = {hl_data Ls k j ..< hl_data Ls k j + hl_size Ls k}"

definition hr_range :: "heap_region \<Rightarrow> nat set" where
  "hr_range r = {hr_data r ..< hr_data r + hr_size r}"

definition hl_used :: "hs_layer list \<Rightarrow> (nat \<times> nat) set" where
  "hl_used Ls = {(hl_data Ls k j, hl_size Ls k) | k j. k < length Ls \<and> j < hl_count Ls k \<and> hl_state Ls k j = SlotInUse}"

section \<open>The invariant\<close>

definition hi_shape :: "hs_layer list \<Rightarrow> bool" where
  "hi_shape Ls \<longleftrightarrow> 0 < length Ls \<and> (\<forall>k < length Ls. 0 < hl_size Ls k) \<and>
     (\<forall>k. Suc k < length Ls \<longrightarrow> hl_size Ls (Suc k) dvd hl_size Ls k)"

definition hi_spans :: "hs_layer list \<Rightarrow> bool" where
  "hi_spans Ls \<longleftrightarrow>
     (\<forall>k p. k < length Ls \<longrightarrow> hl_split Ls k p \<longrightarrow> Suc k < length Ls \<and>
        hl_fan Ls k dvd hl_begin Ls k p \<and> hl_begin Ls k p + hl_fan Ls k \<le> hl_count Ls (Suc k)) \<and>
     (\<forall>k p q. Suc k < length Ls \<longrightarrow> hl_split Ls k p \<longrightarrow> hl_split Ls k q \<longrightarrow> hl_begin Ls k p = hl_begin Ls k q \<longrightarrow> p = q) \<and>
     (\<forall>k. Suc k < length Ls \<longrightarrow> hl_fan Ls k dvd hl_count Ls (Suc k) \<and> distinct (hl_span Ls (Suc k))) \<and>
     (\<forall>k b. Suc k < length Ls \<longrightarrow> b \<in> set (hl_span Ls (Suc k)) \<longrightarrow>
        hl_fan Ls k dvd b \<and> b + hl_fan Ls k \<le> hl_count Ls (Suc k) \<and> (\<forall>p. hl_split Ls k p \<longrightarrow> hl_begin Ls k p \<noteq> b))"

definition hi_lists :: "hs_layer list \<Rightarrow> bool" where
  "hi_lists Ls \<longleftrightarrow>
     (\<forall>k j. k < length Ls \<longrightarrow> j < hl_count Ls k \<longrightarrow> hl_state Ls k j \<noteq> SlotFree \<longrightarrow> hl_live Ls k j) \<and>
     (\<forall>k. k < length Ls \<longrightarrow> distinct (hl_free Ls k)) \<and>
     (\<forall>k j. k < length Ls \<longrightarrow> j \<in> set (hl_free Ls k) \<longleftrightarrow> hl_live Ls k j \<and> hl_state Ls k j = SlotFree)"

definition hi_tree :: "hs_layer list \<Rightarrow> bool" where
  "hi_tree Ls \<longleftrightarrow>
     (\<forall>k p i. Suc k < length Ls \<longrightarrow> hl_split Ls k p \<longrightarrow> i < hl_fan Ls k \<longrightarrow>
        ss_region (hl_at Ls (Suc k) (hl_begin Ls k p + i)) =
          \<lparr>hr_data = hl_data Ls k p + i * hl_size Ls (Suc k), hr_size = hl_size Ls (Suc k)\<rparr> \<and>
        ss_parent_slot (hl_at Ls (Suc k) (hl_begin Ls k p + i)) = p) \<and>
     (\<forall>j < hl_count Ls 0. hr_size (ss_region (hl_at Ls 0 j)) = hl_size Ls 0)"

definition hi_apart :: "hs_layer list \<Rightarrow> bool" where
  "hi_apart Ls \<longleftrightarrow>
     (\<forall>k j k' j'. hl_live Ls k j \<longrightarrow> hl_state Ls k j \<noteq> SlotSplit \<longrightarrow> hl_live Ls k' j' \<longrightarrow> hl_state Ls k' j' \<noteq> SlotSplit \<longrightarrow>
        (k, j) \<noteq> (k', j') \<longrightarrow> hl_range Ls k j \<inter> hl_range Ls k' j' = {})"

definition hi_inside :: "heap_region set \<Rightarrow> hs_layer list \<Rightarrow> bool" where
  "hi_inside R Ls \<longleftrightarrow> (\<forall>k j. hl_live Ls k j \<longrightarrow> (\<exists>r \<in> R. hl_range Ls k j \<subseteq> hr_range r))"

definition hi_ok :: "heap_region set \<Rightarrow> hs_layer list \<Rightarrow> bool" where
  "hi_ok R Ls \<longleftrightarrow> hi_shape Ls \<and> hi_spans Ls \<and> hi_lists Ls \<and> hi_tree Ls \<and> hi_apart Ls \<and> hi_inside R Ls"

definition hi_small :: "hs_layer list \<Rightarrow> bool" where
  "hi_small Ls \<longleftrightarrow> (\<forall>k < length Ls. hl_count Ls k < 2 ^ 32)"

text \<open>
  No split slot has only free children; while an operation is under way the top of the freelist of
  one layer may be a child of such a slot.
\<close>

definition hi_idle :: "hs_layer list \<Rightarrow> nat \<Rightarrow> nat \<Rightarrow> bool" where
  "hi_idle Ls k p \<longleftrightarrow> Suc k < length Ls \<and> hl_split Ls k p \<and>
     (\<forall>i < hl_fan Ls k. hl_state Ls (Suc k) (hl_begin Ls k p + i) = SlotFree)"

definition hi_merged :: "hs_layer list \<Rightarrow> bool" where
  "hi_merged Ls \<longleftrightarrow> (\<forall>k p. \<not> hi_idle Ls k p)"

definition hi_ready :: "hs_layer list \<Rightarrow> nat \<Rightarrow> bool" where
  "hi_ready Ls k \<longleftrightarrow> k < length Ls \<and> hl_free Ls k \<noteq> [] \<and>
     (\<forall>i p. hi_idle Ls i p \<longrightarrow> Suc i = k \<and> hl_begin Ls i p \<le> last (hl_free Ls k) \<and>
        last (hl_free Ls k) < hl_begin Ls i p + hl_fan Ls i)"

lemma hi_okD:
  assumes "hi_ok R Ls"
  shows "0 < length Ls" "k < length Ls \<Longrightarrow> 0 < hl_size Ls k"
    "Suc k < length Ls \<Longrightarrow> hl_size Ls (Suc k) dvd hl_size Ls k"
    "k < length Ls \<Longrightarrow> hl_split Ls k p \<Longrightarrow> Suc k < length Ls"
    "k < length Ls \<Longrightarrow> hl_split Ls k p \<Longrightarrow> hl_fan Ls k dvd hl_begin Ls k p"
    "k < length Ls \<Longrightarrow> hl_split Ls k p \<Longrightarrow> hl_begin Ls k p + hl_fan Ls k \<le> hl_count Ls (Suc k)"
    "Suc k < length Ls \<Longrightarrow> hl_split Ls k p \<Longrightarrow> hl_split Ls k q \<Longrightarrow> hl_begin Ls k p = hl_begin Ls k q \<Longrightarrow> p = q"
    "Suc k < length Ls \<Longrightarrow> hl_fan Ls k dvd hl_count Ls (Suc k)"
    "Suc k < length Ls \<Longrightarrow> distinct (hl_span Ls (Suc k))"
    "Suc k < length Ls \<Longrightarrow> b \<in> set (hl_span Ls (Suc k)) \<Longrightarrow> hl_fan Ls k dvd b"
    "Suc k < length Ls \<Longrightarrow> b \<in> set (hl_span Ls (Suc k)) \<Longrightarrow> b + hl_fan Ls k \<le> hl_count Ls (Suc k)"
    "Suc k < length Ls \<Longrightarrow> b \<in> set (hl_span Ls (Suc k)) \<Longrightarrow> hl_split Ls k p \<Longrightarrow> hl_begin Ls k p \<noteq> b"
    "k < length Ls \<Longrightarrow> j < hl_count Ls k \<Longrightarrow> hl_state Ls k j \<noteq> SlotFree \<Longrightarrow> hl_live Ls k j"
    "k < length Ls \<Longrightarrow> distinct (hl_free Ls k)"
    "k < length Ls \<Longrightarrow> j \<in> set (hl_free Ls k) \<longleftrightarrow> hl_live Ls k j \<and> hl_state Ls k j = SlotFree"
    "Suc k < length Ls \<Longrightarrow> hl_split Ls k p \<Longrightarrow> i < hl_fan Ls k \<Longrightarrow>
       ss_region (hl_at Ls (Suc k) (hl_begin Ls k p + i)) =
         \<lparr>hr_data = hl_data Ls k p + i * hl_size Ls (Suc k), hr_size = hl_size Ls (Suc k)\<rparr>"
    "Suc k < length Ls \<Longrightarrow> hl_split Ls k p \<Longrightarrow> i < hl_fan Ls k \<Longrightarrow>
       ss_parent_slot (hl_at Ls (Suc k) (hl_begin Ls k p + i)) = p"
    "j < hl_count Ls 0 \<Longrightarrow> hr_size (ss_region (hl_at Ls 0 j)) = hl_size Ls 0"
    "hl_live Ls k j \<Longrightarrow> hl_state Ls k j \<noteq> SlotSplit \<Longrightarrow> hl_live Ls k' j' \<Longrightarrow> hl_state Ls k' j' \<noteq> SlotSplit \<Longrightarrow>
       (k, j) \<noteq> (k', j') \<Longrightarrow> hl_range Ls k j \<inter> hl_range Ls k' j' = {}"
    "hl_live Ls k j \<Longrightarrow> \<exists>r \<in> R. hl_range Ls k j \<subseteq> hr_range r"
proof -
  have parts: "hi_shape Ls" "hi_spans Ls" "hi_lists Ls" "hi_tree Ls" "hi_apart Ls" "hi_inside R Ls"
    using assms by (simp_all add: hi_ok_def)
  note shape = parts(1)[unfolded hi_shape_def] and spans = parts(2)[unfolded hi_spans_def]
    and lists = parts(3)[unfolded hi_lists_def] and tree = parts(4)[unfolded hi_tree_def]
  show "0 < length Ls" "k < length Ls \<Longrightarrow> 0 < hl_size Ls k"
    "Suc k < length Ls \<Longrightarrow> hl_size Ls (Suc k) dvd hl_size Ls k"
    using shape by blast+
  show "k < length Ls \<Longrightarrow> hl_split Ls k p \<Longrightarrow> Suc k < length Ls"
    "k < length Ls \<Longrightarrow> hl_split Ls k p \<Longrightarrow> hl_fan Ls k dvd hl_begin Ls k p"
    "k < length Ls \<Longrightarrow> hl_split Ls k p \<Longrightarrow> hl_begin Ls k p + hl_fan Ls k \<le> hl_count Ls (Suc k)"
    using conjunct1[OF spans] by blast+
  show "Suc k < length Ls \<Longrightarrow> hl_split Ls k p \<Longrightarrow> hl_split Ls k q \<Longrightarrow> hl_begin Ls k p = hl_begin Ls k q \<Longrightarrow> p = q"
    using conjunct1[OF conjunct2[OF spans]] by blast
  show "Suc k < length Ls \<Longrightarrow> hl_fan Ls k dvd hl_count Ls (Suc k)"
    "Suc k < length Ls \<Longrightarrow> distinct (hl_span Ls (Suc k))"
    using conjunct1[OF conjunct2[OF conjunct2[OF spans]]] by blast+
  show "Suc k < length Ls \<Longrightarrow> b \<in> set (hl_span Ls (Suc k)) \<Longrightarrow> hl_fan Ls k dvd b"
    "Suc k < length Ls \<Longrightarrow> b \<in> set (hl_span Ls (Suc k)) \<Longrightarrow> b + hl_fan Ls k \<le> hl_count Ls (Suc k)"
    "Suc k < length Ls \<Longrightarrow> b \<in> set (hl_span Ls (Suc k)) \<Longrightarrow> hl_split Ls k p \<Longrightarrow> hl_begin Ls k p \<noteq> b"
    using conjunct2[OF conjunct2[OF conjunct2[OF spans]]] by blast+
  show "k < length Ls \<Longrightarrow> j < hl_count Ls k \<Longrightarrow> hl_state Ls k j \<noteq> SlotFree \<Longrightarrow> hl_live Ls k j"
    "k < length Ls \<Longrightarrow> distinct (hl_free Ls k)"
    "k < length Ls \<Longrightarrow> j \<in> set (hl_free Ls k) \<longleftrightarrow> hl_live Ls k j \<and> hl_state Ls k j = SlotFree"
    using lists by blast+
  show "Suc k < length Ls \<Longrightarrow> hl_split Ls k p \<Longrightarrow> i < hl_fan Ls k \<Longrightarrow>
       ss_region (hl_at Ls (Suc k) (hl_begin Ls k p + i)) =
         \<lparr>hr_data = hl_data Ls k p + i * hl_size Ls (Suc k), hr_size = hl_size Ls (Suc k)\<rparr>"
    "Suc k < length Ls \<Longrightarrow> hl_split Ls k p \<Longrightarrow> i < hl_fan Ls k \<Longrightarrow>
       ss_parent_slot (hl_at Ls (Suc k) (hl_begin Ls k p + i)) = p"
    "j < hl_count Ls 0 \<Longrightarrow> hr_size (ss_region (hl_at Ls 0 j)) = hl_size Ls 0"
    using tree by blast+
  show "hl_live Ls k j \<Longrightarrow> hl_state Ls k j \<noteq> SlotSplit \<Longrightarrow> hl_live Ls k' j' \<Longrightarrow> hl_state Ls k' j' \<noteq> SlotSplit \<Longrightarrow>
       (k, j) \<noteq> (k', j') \<Longrightarrow> hl_range Ls k j \<inter> hl_range Ls k' j' = {}"
    using parts(5) unfolding hi_apart_def by blast
  show "hl_live Ls k j \<Longrightarrow> \<exists>r \<in> R. hl_range Ls k j \<subseteq> hr_range r"
    using parts(6) unfolding hi_inside_def by blast
qed

lemma hl_live_Suc:
  "hl_live Ls (Suc k) j \<longleftrightarrow> Suc k < length Ls \<and> j < hl_count Ls (Suc k) \<and>
     (\<exists>p. hl_split Ls k p \<and> hl_begin Ls k p \<le> j \<and> j < hl_begin Ls k p + hl_fan Ls k)"
  by (simp add: hl_live_def)

lemma hl_live_0: "hl_live Ls 0 j \<longleftrightarrow> Ls \<noteq> [] \<and> j < hl_count Ls 0"
  by (simp add: hl_live_def)

lemma hl_live_less: "hl_live Ls k j \<Longrightarrow> k < length Ls" "hl_live Ls k j \<Longrightarrow> j < hl_count Ls k"
  by (simp_all add: hl_live_def)

lemma hl_fan_mult: "hi_ok R Ls \<Longrightarrow> Suc k < length Ls \<Longrightarrow> hl_fan Ls k * hl_size Ls (Suc k) = hl_size Ls k"
  using hi_okD(3)[of R Ls k] by (simp add: hl_fan_def)

lemma hl_fan_pos: "hi_ok R Ls \<Longrightarrow> Suc k < length Ls \<Longrightarrow> 0 < hl_fan Ls k"
  using hl_fan_mult[of R Ls k] hi_okD(2)[of R Ls k] by (metis Suc_lessD gr0I less_irrefl mult_0)

text \<open>Spans at multiples of the fan-out are equal or disjoint.\<close>

lemma span_unique:
  assumes "q dvd a" "q dvd b" "(a::nat) \<le> j" "j < a + q" "b \<le> j" "j < b + q"
  shows "a = b"
proof -
  obtain m n where mn: "a = q * m" "b = q * n" using assms(1,2) by (auto simp: dvd_def)
  have "q * m < q * (n + 1)" "q * n < q * (m + 1)" using assms(3-6) by (simp_all add: mn)
  then have "m < n + 1" "n < m + 1" by (simp_all only: mult_less_cancel1)
  then show ?thesis by (simp add: mn)
qed

lemma hl_child_range:
  assumes "hi_ok R Ls" "Suc k < length Ls" "hl_split Ls k p" "i < hl_fan Ls k"
  shows "hl_range Ls (Suc k) (hl_begin Ls k p + i) \<subseteq> hl_range Ls k p"
proof -
  have "(i + 1) * hl_size Ls (Suc k) \<le> hl_fan Ls k * hl_size Ls (Suc k)" using assms(4) by (intro mult_le_mono1) simp
  then show ?thesis
    using hi_okD(16)[OF assms] hl_fan_mult[OF assms(1,2)] by (auto simp: hl_range_def)
qed

text \<open>A split slot's range is covered by its children.\<close>

lemma hl_range_children:
  assumes "hi_ok R Ls" "Suc k < length Ls" "hl_split Ls k p" "x \<in> hl_range Ls k p"
  shows "\<exists>i < hl_fan Ls k. x \<in> hl_range Ls (Suc k) (hl_begin Ls k p + i)"
proof (intro exI conjI)
  let ?s = "hl_size Ls (Suc k)" and ?i = "(x - hl_data Ls k p) div hl_size Ls (Suc k)"
  have s: "0 < ?s" using hi_okD(2)[OF assms(1,2)] .
  have x: "hl_data Ls k p \<le> x" "x - hl_data Ls k p < hl_fan Ls k * ?s"
    using assms(4) hl_fan_mult[OF assms(1,2)] by (auto simp: hl_range_def)
  show i: "?i < hl_fan Ls k" using x(2) s by (simp add: less_mult_imp_div_less)
  have "x - hl_data Ls k p = ?i * ?s + (x - hl_data Ls k p) mod ?s" by (rule div_mult_mod_eq[symmetric])
  moreover have "(x - hl_data Ls k p) mod ?s < ?s" using s by simp
  ultimately show "x \<in> hl_range Ls (Suc k) (hl_begin Ls k p + ?i)"
    using hi_okD(16)[OF assms(1-3) i] x(1) by (simp add: hl_range_def) linarith
qed

lemma hl_live_child:
  assumes "hi_ok R Ls" "k < length Ls" "hl_split Ls k p" "i < hl_fan Ls k"
  shows "hl_live Ls (Suc k) (hl_begin Ls k p + i)"
  using hi_okD(4,6)[OF assms(1-3)] assms(3,4) by (auto simp: hl_live_Suc)

section \<open>Splitting\<close>

text \<open>The layers after the free slot \<open>p\<close> of layer \<open>k\<close> has been split into the span at \<open>b\<close>.\<close>

definition hp_split :: "hs_layer list \<Rightarrow> hs_layer list \<Rightarrow> nat \<Rightarrow> nat \<Rightarrow> nat \<Rightarrow> bool" where
  "hp_split Ls Ls' k p b \<longleftrightarrow>
     length Ls' = length Ls \<and> Suc k < length Ls \<and> (\<forall>i. hl_size Ls' i = hl_size Ls i) \<and>
     (\<forall>i. hl_count Ls' i = (if i = Suc k then max (hl_count Ls i) (b + hl_fan Ls k) else hl_count Ls i)) \<and>
     (\<forall>i j. i < length Ls \<longrightarrow> j < hl_count Ls' i \<longrightarrow> hl_at Ls' i j =
        (if i = k \<and> j = p then ss_markSplit b (hl_at Ls k p)
         else if i = Suc k \<and> b \<le> j \<and> j < b + hl_fan Ls k
         then ss_child (hl_at Ls k p) (hl_size Ls (Suc k)) p (j - b) else hl_at Ls i j)) \<and>
     (\<forall>i. hl_free Ls' i = (if i = k then butlast (hl_free Ls i)
        else if i = Suc k then hl_free Ls i @ [b..<b + hl_fan Ls k] else hl_free Ls i)) \<and>
     (\<forall>i. hl_span Ls' i = (if i = Suc k then butlast (hl_span Ls i) else hl_span Ls i)) \<and>
     (if hl_span Ls (Suc k) = [] then b = hl_count Ls (Suc k) else b = last (hl_span Ls (Suc k)))"

definition hp_splitting :: "heap_region set \<Rightarrow> hs_layer list \<Rightarrow> hs_layer list \<Rightarrow> nat \<Rightarrow> nat \<Rightarrow> nat \<Rightarrow> bool" where
  "hp_splitting R Ls Ls' k p b \<longleftrightarrow> hi_ok R Ls \<and> hp_split Ls Ls' k p b \<and> hl_free Ls k \<noteq> [] \<and> p = last (hl_free Ls k)"

lemma hp_splitD:
  assumes "hp_splitting R Ls Ls' k p b"
  shows "hi_ok R Ls" "length Ls' = length Ls" "Suc k < length Ls" "k < length Ls" "hl_size Ls' i = hl_size Ls i"
    "hl_fan Ls' i = hl_fan Ls i" "hl_live Ls k p" "p < hl_count Ls k" "hl_state Ls k p = SlotFree"
    "hl_count Ls' i = (if i = Suc k then max (hl_count Ls i) (b + hl_fan Ls k) else hl_count Ls i)"
    "i < length Ls \<Longrightarrow> j < hl_count Ls' i \<Longrightarrow> hl_at Ls' i j =
      (if i = k \<and> j = p then ss_markSplit b (hl_at Ls k p)
       else if i = Suc k \<and> b \<le> j \<and> j < b + hl_fan Ls k
       then ss_child (hl_at Ls k p) (hl_size Ls (Suc k)) p (j - b) else hl_at Ls i j)"
    "hl_free Ls' i = (if i = k then butlast (hl_free Ls i)
        else if i = Suc k then hl_free Ls i @ [b..<b + hl_fan Ls k] else hl_free Ls i)"
    "hl_span Ls' i = (if i = Suc k then butlast (hl_span Ls i) else hl_span Ls i)"
    "0 < hl_fan Ls k"
proof -
  have ok: "hi_ok R Ls" and sp: "hp_split Ls Ls' k p b" and fr: "hl_free Ls k \<noteq> []" "p = last (hl_free Ls k)"
    using assms unfolding hp_splitting_def by blast+
  show "hi_ok R Ls" by (rule ok)
  show k: "Suc k < length Ls" "k < length Ls" using sp by (auto simp: hp_split_def)
  show "0 < hl_fan Ls k" using hl_fan_pos[OF ok k(1)] .
  have "p \<in> set (hl_free Ls k)" using fr by simp
  then show live: "hl_live Ls k p" "hl_state Ls k p = SlotFree" using hi_okD(15)[OF ok k(2)] by auto
  then show "p < hl_count Ls k" by (simp add: hl_live_def)
  show "length Ls' = length Ls" "hl_size Ls' i = hl_size Ls i" using sp by (simp_all add: hp_split_def)
  show "hl_fan Ls' i = hl_fan Ls i" using sp by (simp add: hp_split_def hl_fan_def)
  show "hl_count Ls' i = (if i = Suc k then max (hl_count Ls i) (b + hl_fan Ls k) else hl_count Ls i)"
    "hl_free Ls' i = (if i = k then butlast (hl_free Ls i)
        else if i = Suc k then hl_free Ls i @ [b..<b + hl_fan Ls k] else hl_free Ls i)"
    "hl_span Ls' i = (if i = Suc k then butlast (hl_span Ls i) else hl_span Ls i)"
    using sp unfolding hp_split_def by blast+
  show "i < length Ls \<Longrightarrow> j < hl_count Ls' i \<Longrightarrow> hl_at Ls' i j =
      (if i = k \<and> j = p then ss_markSplit b (hl_at Ls k p)
       else if i = Suc k \<and> b \<le> j \<and> j < b + hl_fan Ls k
       then ss_child (hl_at Ls k p) (hl_size Ls (Suc k)) p (j - b) else hl_at Ls i j)"
    using sp unfolding hp_split_def by blast
qed

text \<open>The span that is used was not in use.\<close>

lemma hp_split_span:
  assumes "hp_splitting R Ls Ls' k p b"
  shows "hl_fan Ls k dvd b" "hl_split Ls k r \<Longrightarrow> hl_begin Ls k r \<noteq> b"
    "b \<le> j \<Longrightarrow> j < b + hl_fan Ls k \<Longrightarrow> \<not> hl_live Ls (Suc k) j"
    "b \<le> j \<Longrightarrow> j < b + hl_fan Ls k \<Longrightarrow> \<not> hl_split Ls (Suc k) j"
    "b \<notin> set (hl_span Ls' (Suc k))" "set (hl_span Ls' (Suc k)) \<subseteq> set (hl_span Ls (Suc k))"
    "hl_fan Ls k dvd hl_count Ls' (Suc k)" "b \<le> hl_count Ls (Suc k)"
proof -
  note d = hp_splitD[OF assms] and ok = hp_splitD(1)[OF assms]
  have b: "if hl_span Ls (Suc k) = [] then b = hl_count Ls (Suc k) else b = last (hl_span Ls (Suc k))"
    using assms by (simp add: hp_splitting_def hp_split_def)
  show dvd: "hl_fan Ls k dvd b"
    using b hi_okD(8)[OF ok d(3)] hi_okD(10)[OF ok d(3), of b] by (auto split: if_splits)
  have ne: "hl_begin Ls k r \<noteq> b" if "hl_split Ls k r" for r
  proof (cases "hl_span Ls (Suc k) = []")
    case True
    then show ?thesis using b hi_okD(6)[OF ok d(4) that] d(14) by auto
  next
    case False
    then show ?thesis using b hi_okD(12)[OF ok d(3) _ that] by auto
  qed
  then show "hl_split Ls k r \<Longrightarrow> hl_begin Ls k r \<noteq> b" .
  show dead: "\<not> hl_live Ls (Suc k) j" if "b \<le> j" "j < b + hl_fan Ls k" for j
  proof
    assume "hl_live Ls (Suc k) j"
    then obtain r where r: "hl_split Ls k r" "hl_begin Ls k r \<le> j" "j < hl_begin Ls k r + hl_fan Ls k"
      by (auto simp: hl_live_Suc)
    have "hl_begin Ls k r = b" by (rule span_unique[OF hi_okD(5)[OF ok d(4) r(1)] dvd r(2,3) that])
    with ne[OF r(1)] show False by simp
  qed
  show "\<not> hl_split Ls (Suc k) j" if j: "b \<le> j" "j < b + hl_fan Ls k" for j
  proof
    assume "hl_split Ls (Suc k) j"
    then have "hl_live Ls (Suc k) j" using hi_okD(13)[OF ok d(3)] by (simp add: hl_split_def)
    with dead[OF j] show False by simp
  qed
  show "b \<notin> set (hl_span Ls' (Suc k))"
  proof (cases "hl_span Ls (Suc k) = []")
    case False
    then have "b = last (hl_span Ls (Suc k))" using b by simp
    with distinct_butlast_last[OF False hi_okD(9)[OF ok d(3)]] d(13)[of "Suc k"] show ?thesis by simp
  qed (use d(13)[of "Suc k"] in simp)
  show "set (hl_span Ls' (Suc k)) \<subseteq> set (hl_span Ls (Suc k))"
    using d(13)[of "Suc k"] by (auto dest: in_set_butlastD)
  have "b + hl_fan Ls k \<le> hl_count Ls (Suc k) \<or> b = hl_count Ls (Suc k)"
    using b hi_okD(11)[OF ok d(3), of b] by (auto split: if_splits)
  then show "b \<le> hl_count Ls (Suc k)" "hl_fan Ls k dvd hl_count Ls' (Suc k)"
    using d(10)[of "Suc k"] hi_okD(8)[OF ok d(3)] dvd by (auto simp: max_def)
qed

lemma hp_split_reads:
  assumes "hp_splitting R Ls Ls' k p b"
  shows "i < length Ls \<Longrightarrow> hl_split Ls' i r \<longleftrightarrow> hl_split Ls i r \<or> i = k \<and> r = p"
    "i < length Ls \<Longrightarrow> hl_split Ls' i r \<Longrightarrow> hl_begin Ls' i r = (if i = k \<and> r = p then b else hl_begin Ls i r)"
    "hl_live Ls' i j \<longleftrightarrow> hl_live Ls i j \<or> i = Suc k \<and> b \<le> j \<and> j < b + hl_fan Ls k"
    "hl_live Ls i j \<Longrightarrow> ss_region (hl_at Ls' i j) = ss_region (hl_at Ls i j)"
    "hl_live Ls i j \<Longrightarrow> hl_state Ls' i j = (if i = k \<and> j = p then SlotSplit else hl_state Ls i j)"
    "hl_live Ls i j \<Longrightarrow> ss_parent_slot (hl_at Ls' i j) = ss_parent_slot (hl_at Ls i j)"
    "b \<le> j \<Longrightarrow> j < b + hl_fan Ls k \<Longrightarrow> hl_at Ls' (Suc k) j = ss_child (hl_at Ls k p) (hl_size Ls (Suc k)) p (j - b)"
proof -
  note d = hp_splitD[OF assms] and sp = hp_split_span[OF assms]
  show new: "hl_at Ls' (Suc k) j = ss_child (hl_at Ls k p) (hl_size Ls (Suc k)) p (j - b)"
    if "b \<le> j" "j < b + hl_fan Ls k" for j
    using d(11)[OF d(3), of j] that d(10)[of "Suc k"] by simp
  have len: "hl_count Ls i \<le> hl_count Ls' i" for i using d(10)[of i] by simp
  have old: "hl_at Ls' i j = (if i = k \<and> j = p then ss_markSplit b (hl_at Ls k p) else hl_at Ls i j)"
    if "i < length Ls" "j < hl_count Ls i" "\<not> (i = Suc k \<and> b \<le> j \<and> j < b + hl_fan Ls k)" for i j
  proof -
    have "j < hl_count Ls' i" using len[of i] that(2) by linarith
    from d(11)[OF that(1) this] show ?thesis by (simp only: that(3) if_False)
  qed
  show split: "hl_split Ls' i r \<longleftrightarrow> hl_split Ls i r \<or> i = k \<and> r = p" if i: "i < length Ls" for i r
  proof (cases "i = Suc k \<and> b \<le> r \<and> r < b + hl_fan Ls k")
    case True
    then show ?thesis using new[of r] sp(4)[of r] by (simp add: hl_split_def ss_child_def)
  next
    case False
    show ?thesis
    proof (cases "r < hl_count Ls i")
      case True
      then show ?thesis
        using old[OF i True False] len[of i] by (auto simp: hl_split_def ss_markSplit_def)
    next
      case outside: False
      then have "\<not> r < hl_count Ls' i" using False d(10)[of i] sp(8) by (auto split: if_splits simp: max_def)
      with outside d(8) show ?thesis by (auto simp: hl_split_def)
    qed
  qed
  show beg: "hl_begin Ls' i r = (if i = k \<and> r = p then b else hl_begin Ls i r)"
    if i: "i < length Ls" "hl_split Ls' i r" for i r
  proof (cases "i = k \<and> r = p")
    case True
    then show ?thesis using old[OF d(4) d(8)] by (simp add: ss_markSplit_def)
  next
    case False
    then have "hl_split Ls i r" using split[OF i(1)] i(2) by auto
    then have "r < hl_count Ls i" "\<not> (i = Suc k \<and> b \<le> r \<and> r < b + hl_fan Ls k)"
      using sp(4)[of r] by (auto simp: hl_split_def)
    from old[OF i(1) this] False show ?thesis by auto
  qed
  show live: "hl_live Ls' i j \<longleftrightarrow> hl_live Ls i j \<or> i = Suc k \<and> b \<le> j \<and> j < b + hl_fan Ls k"
  proof (cases i)
    case 0
    then show ?thesis using d(2) d(10)[of 0] by (simp add: hl_live_def)
  next
    case (Suc m)
    show ?thesis
    proof (cases "m < length Ls")
      case True
      define E where "E \<longleftrightarrow> (\<exists>r. hl_split Ls m r \<and> hl_begin Ls m r \<le> j \<and> j < hl_begin Ls m r + hl_fan Ls m)"
      have "(\<exists>r. hl_split Ls' m r \<and> hl_begin Ls' m r \<le> j \<and> j < hl_begin Ls' m r + hl_fan Ls m) \<longleftrightarrow>
          E \<or> m = k \<and> b \<le> j \<and> j < b + hl_fan Ls k"
      proof
        assume "\<exists>r. hl_split Ls' m r \<and> hl_begin Ls' m r \<le> j \<and> j < hl_begin Ls' m r + hl_fan Ls m"
        then obtain r where r: "hl_split Ls' m r" "hl_begin Ls' m r \<le> j" "j < hl_begin Ls' m r + hl_fan Ls m" by blast
        show "E \<or> m = k \<and> b \<le> j \<and> j < b + hl_fan Ls k"
        proof (cases "m = k \<and> r = p")
          case new: True
          with beg[OF True r(1)] r(2,3) show ?thesis by simp
        next
          case old: False
          with split[OF True, of r] beg[OF True r(1)] r have "hl_split Ls m r" "hl_begin Ls m r = hl_begin Ls' m r" by auto
          with r(2,3) show ?thesis unfolding E_def by auto
        qed
      next
        assume "E \<or> m = k \<and> b \<le> j \<and> j < b + hl_fan Ls k"
        then show "\<exists>r. hl_split Ls' m r \<and> hl_begin Ls' m r \<le> j \<and> j < hl_begin Ls' m r + hl_fan Ls m"
        proof
          assume E
          then obtain r where r: "hl_split Ls m r" "hl_begin Ls m r \<le> j" "j < hl_begin Ls m r + hl_fan Ls m"
            unfolding E_def by blast
          have "\<not> (m = k \<and> r = p)" using r(1) d(9) by (auto simp: hl_split_def)
          moreover have "hl_split Ls' m r" using split[OF True, of r] r(1) by blast
          ultimately show ?thesis using beg[OF True, of r] r(2,3) by (intro exI[of _ r]) auto
        next
          assume n: "m = k \<and> b \<le> j \<and> j < b + hl_fan Ls k"
          have "hl_split Ls' m p" using split[OF True, of p] n by blast
          then show ?thesis using beg[OF True, of p] n by (intro exI[of _ p]) auto
        qed
      qed
      then have L': "hl_live Ls' (Suc m) j \<longleftrightarrow> Suc m < length Ls \<and> j < hl_count Ls' (Suc m) \<and>
          (E \<or> m = k \<and> b \<le> j \<and> j < b + hl_fan Ls k)"
        by (simp add: hl_live_Suc d(2,6))
      have L: "hl_live Ls (Suc m) j \<longleftrightarrow> Suc m < length Ls \<and> j < hl_count Ls (Suc m) \<and> E"
        by (simp add: hl_live_Suc E_def)
      have "j < hl_count Ls (Suc m)" if E using that hi_okD(6)[OF d(1) True] unfolding E_def by fastforce
      moreover have "j < hl_count Ls' (Suc m)" if "m = k" "j < b + hl_fan Ls k" using that d(10)[of "Suc m"] by simp
      ultimately show ?thesis unfolding Suc L L' using len[of "Suc m"] d(3) by auto
    next
      case False
      then show ?thesis using Suc d(2,3) by (auto simp: hl_live_def)
    qed
  qed
  have at: "hl_at Ls' i j = (if i = k \<and> j = p then ss_markSplit b (hl_at Ls k p) else hl_at Ls i j)" if "hl_live Ls i j"
    using old[OF hl_live_less[OF that]] that sp(3)[of j] by blast
  show "hl_live Ls i j \<Longrightarrow> ss_region (hl_at Ls' i j) = ss_region (hl_at Ls i j)"
    "hl_live Ls i j \<Longrightarrow> hl_state Ls' i j = (if i = k \<and> j = p then SlotSplit else hl_state Ls i j)"
    "hl_live Ls i j \<Longrightarrow> ss_parent_slot (hl_at Ls' i j) = ss_parent_slot (hl_at Ls i j)"
    using at by (auto simp: ss_markSplit_def)
qed

lemma hp_split_child_range:
  assumes "hp_splitting R Ls Ls' k p b" "m < hl_fan Ls k"
  shows "hl_range Ls' (Suc k) (b + m) =
      {hl_data Ls k p + m * hl_size Ls (Suc k) ..< hl_data Ls k p + (m + 1) * hl_size Ls (Suc k)}"
    "hl_range Ls' (Suc k) (b + m) \<subseteq> hl_range Ls k p"
proof -
  note d = hp_splitD[OF assms(1)]
  show r: "hl_range Ls' (Suc k) (b + m) =
      {hl_data Ls k p + m * hl_size Ls (Suc k) ..< hl_data Ls k p + (m + 1) * hl_size Ls (Suc k)}"
    using hp_split_reads(7)[OF assms(1), of "b + m"] assms(2) d(5) by (simp add: hl_range_def ss_child_def algebra_simps)
  have "(m + 1) * hl_size Ls (Suc k) \<le> hl_fan Ls k * hl_size Ls (Suc k)" using assms(2) by (intro mult_le_mono1) simp
  then show "hl_range Ls' (Suc k) (b + m) \<subseteq> hl_range Ls k p"
    using hl_fan_mult[OF d(1,3)] unfolding r by (auto simp: hl_range_def)
qed

lemma hp_split_range: "hp_splitting R Ls Ls' k p b \<Longrightarrow> hl_live Ls i j \<Longrightarrow> hl_range Ls' i j = hl_range Ls i j"
  using hp_split_reads(4)[of R Ls Ls' k p b i j] hp_splitD(5)[of R Ls Ls' k p b i] by (simp add: hl_range_def)

lemma hp_split_spans:
  assumes "hp_splitting R Ls Ls' k p b"
  shows "hi_spans Ls'"
proof -
  note d = hp_splitD[OF assms] and sp = hp_split_span[OF assms] and rd = hp_split_reads[OF assms] and ok = hp_splitD(1)[OF assms]
  have len: "hl_count Ls i \<le> hl_count Ls' i" for i using d(10)[of i] by simp
  have nosplit: "\<not> hl_split Ls k p" using d(9) by (simp add: hl_split_def)
  show ?thesis
    unfolding hi_spans_def d(2) d(6)
  proof (intro conjI allI impI)
    fix i r assume i: "i < length Ls" and r: "hl_split Ls' i r"
    show "Suc i < length Ls"
      using rd(1)[OF i, of r] r hi_okD(4)[OF ok i] d(3) by auto
    show "hl_fan Ls i dvd hl_begin Ls' i r"
      using rd(1,2)[OF i, of r] r hi_okD(5)[OF ok i] sp(1) by auto
    show "hl_begin Ls' i r + hl_fan Ls i \<le> hl_count Ls' (Suc i)"
      using rd(1,2)[OF i, of r] r hi_okD(6)[OF ok i, of r] len[of "Suc i"] d(10)[of "Suc k"] by (auto split: if_splits)
  next
    fix i r t assume i: "Suc i < length Ls" and "hl_split Ls' i r" "hl_split Ls' i t" and eq: "hl_begin Ls' i r = hl_begin Ls' i t"
    then show "r = t"
      using rd(1,2)[OF Suc_lessD[OF i]] hi_okD(7)[OF ok i, of r t] sp(2)[of r] sp(2)[of t] nosplit
      by (auto split: if_splits)
  next
    fix i assume i: "Suc i < length Ls"
    show "hl_fan Ls i dvd hl_count Ls' (Suc i)"
      using sp(7) hi_okD(8)[OF ok i] d(10)[of "Suc i"] by (cases "i = k") auto
    show "distinct (hl_span Ls' (Suc i))"
      using hi_okD(9)[OF ok i] d(13)[of "Suc i"] by (auto simp: distinct_butlast)
  next
    fix i c assume i: "Suc i < length Ls" and c: "c \<in> set (hl_span Ls' (Suc i))"
    then have old: "c \<in> set (hl_span Ls (Suc i))" using sp(6) d(13)[of "Suc i"] by (cases "i = k") auto
    show "hl_fan Ls i dvd c" by (rule hi_okD(10)[OF ok i old])
    show "c + hl_fan Ls i \<le> hl_count Ls' (Suc i)" using hi_okD(11)[OF ok i old] len[of "Suc i"] by linarith
    fix r assume "hl_split Ls' i r"
    then show "hl_begin Ls' i r \<noteq> c"
      using rd(1,2)[OF Suc_lessD[OF i], of r] hi_okD(12)[OF ok i old, of r] sp(5) c by (auto split: if_splits)
  qed
qed

lemma hp_split_lists:
  assumes "hp_splitting R Ls Ls' k p b"
  shows "hi_lists Ls'"
proof -
  note d = hp_splitD[OF assms] and sp = hp_split_span[OF assms] and rd = hp_split_reads[OF assms] and ok = hp_splitD(1)[OF assms]
  have new: "hl_state Ls' (Suc k) j = SlotFree" if "b \<le> j" "j < b + hl_fan Ls k" for j
    using rd(7)[OF that] by (simp add: ss_child_def)
  have fr: "hl_free Ls k \<noteq> []" "p = last (hl_free Ls k)" using assms by (simp_all add: hp_splitting_def)
  have butlast: "j \<in> set (hl_free Ls' k) \<longleftrightarrow> j \<in> set (hl_free Ls k) \<and> j \<noteq> p" for j
    using set_butlast_distinct[OF fr(1) hi_okD(14)[OF ok d(4)]] fr(2) d(12)[of k] by simp
  show ?thesis
    unfolding hi_lists_def d(2)
  proof (intro conjI allI impI)
    fix i j assume i: "i < length Ls" "j < hl_count Ls' i" and st: "hl_state Ls' i j \<noteq> SlotFree"
    show "hl_live Ls' i j"
    proof (rule ccontr)
      assume dead: "\<not> hl_live Ls' i j"
      then have n: "\<not> hl_live Ls i j" "\<not> (i = Suc k \<and> b \<le> j \<and> j < b + hl_fan Ls k)" using rd(3)[of i j] by auto
      then have "j < hl_count Ls i" using i(2) d(10)[of i] sp(8) by (auto split: if_splits simp: max_def)
      moreover have "hl_at Ls' i j = hl_at Ls i j" using d(11)[OF i] n d(7) by auto
      ultimately show False using hi_okD(13)[OF ok i(1), of j] st n(1) by simp
    qed
  next
    fix i assume i: "i < length Ls"
    have "set (hl_free Ls (Suc k)) \<inter> {b..<b + hl_fan Ls k} = {}"
      using sp(3) hi_okD(15)[OF ok d(3)] by auto
    then show "distinct (hl_free Ls' i)"
      using hi_okD(14)[OF ok i] d(12)[of i] by (auto simp: distinct_butlast)
  next
    fix i j assume i: "i < length Ls"
    consider "i = k" | "i = Suc k" | "i \<noteq> k" "i \<noteq> Suc k" by blast
    then show "j \<in> set (hl_free Ls' i) \<longleftrightarrow> hl_live Ls' i j \<and> hl_state Ls' i j = SlotFree"
    proof cases
      case 1
      then show ?thesis using butlast[of j] hi_okD(15)[OF ok d(4), of j] rd(3,5)[of k j] d(9) by (auto split: if_splits)
    next
      case 2
      then have "j \<in> set (hl_free Ls' i) \<longleftrightarrow> j \<in> set (hl_free Ls (Suc k)) \<or> b \<le> j \<and> j < b + hl_fan Ls k"
        using d(12)[of i] by auto
      then show ?thesis
        using 2 hi_okD(15)[OF ok d(3), of j] rd(3)[of i j] rd(5)[of i j] new[of j] by auto
    next
      case 3
      then show ?thesis using hi_okD(15)[OF ok i, of j] d(12)[of i] rd(3)[of i j] rd(5)[of i j] by auto
    qed
  qed
qed

lemma hp_split_tree:
  assumes "hp_splitting R Ls Ls' k p b"
  shows "hi_tree Ls'"
proof -
  note d = hp_splitD[OF assms] and rd = hp_split_reads[OF assms] and ok = hp_splitD(1)[OF assms]
  have reg: "hl_data Ls' i r = hl_data Ls i r" if "i < length Ls" "hl_split Ls' i r" for i r
    using rd(1)[OF that(1), of r] that hi_okD(13)[OF ok that(1), of r] d(7) rd(4)[of i r] by (auto simp: hl_split_def)
  show ?thesis
    unfolding hi_tree_def d(2) d(5) d(6)
  proof (intro conjI allI impI)
    fix i r m assume i: "Suc i < length Ls" and r: "hl_split Ls' i r" and m: "m < hl_fan Ls i"
    note i' = Suc_lessD[OF i]
    have "ss_region (hl_at Ls' (Suc i) (hl_begin Ls' i r + m)) =
          \<lparr>hr_data = hl_data Ls i r + m * hl_size Ls (Suc i), hr_size = hl_size Ls (Suc i)\<rparr> \<and>
        ss_parent_slot (hl_at Ls' (Suc i) (hl_begin Ls' i r + m)) = r"
    proof (cases "i = k \<and> r = p")
      case True
      then show ?thesis using rd(2)[OF i' r] rd(7)[of "b + m"] m by (simp add: ss_child_def)
    next
      case False
      then have old: "hl_split Ls i r" "hl_begin Ls' i r = hl_begin Ls i r" using rd(1,2)[OF i', of r] r by auto
      have live: "hl_live Ls (Suc i) (hl_begin Ls i r + m)" by (rule hl_live_child[OF ok i' old(1) m])
      show ?thesis
        unfolding old(2) rd(4)[OF live] rd(6)[OF live] using hi_okD(16,17)[OF ok i old(1) m] by simp
    qed
    then show "ss_region (hl_at Ls' (Suc i) (hl_begin Ls' i r + m)) =
          \<lparr>hr_data = hl_data Ls' i r + m * hl_size Ls (Suc i), hr_size = hl_size Ls (Suc i)\<rparr>"
      "ss_parent_slot (hl_at Ls' (Suc i) (hl_begin Ls' i r + m)) = r"
      using reg[OF i' r] by simp_all
  next
    fix j assume "j < hl_count Ls' 0"
    then have "hl_live Ls 0 j" using d(2,3) d(10)[of 0] by (auto simp: hl_live_0)
    with rd(4)[OF this] hi_okD(18)[OF ok, of j] show "hr_size (ss_region (hl_at Ls' 0 j)) = hl_size Ls 0"
      by (simp add: hl_live_0)
  qed
qed

lemma hp_split_ok:
  assumes "hp_splitting R Ls Ls' k p b"
  shows "hi_ok R Ls'" "hl_used Ls' = hl_used Ls"
proof -
  note d = hp_splitD[OF assms] and sp = hp_split_span[OF assms] and rd = hp_split_reads[OF assms] and ok = hp_splitD(1)[OF assms]
  note rng = hp_split_range[OF assms] and crng = hp_split_child_range[OF assms]
  let ?new = "\<lambda>i j. i = Suc k \<and> b \<le> j \<and> j < b + hl_fan Ls k"
  have shape: "hi_shape Ls'"
    using hi_okD(1-3)[OF ok] by (simp add: hi_shape_def d(2,5))
  have leaf: "hl_live Ls i j \<and> hl_state Ls i j \<noteq> SlotSplit \<and> (i, j) \<noteq> (k, p) \<and> \<not> ?new i j \<and> hl_range Ls' i j = hl_range Ls i j
      \<or> ?new i j \<and> hl_range Ls' i j \<subseteq> hl_range Ls k p"
    if "hl_live Ls' i j" "hl_state Ls' i j \<noteq> SlotSplit" for i j
  proof (cases "?new i j")
    case True
    then have m: "j - b < hl_fan Ls k" "b + (j - b) = j" by auto
    with crng(2)[OF m(1)] m(2) True show ?thesis by simp
  next
    case False
    then have "hl_live Ls i j" using that(1) rd(3)[of i j] by blast
    moreover from this have "hl_state Ls i j \<noteq> SlotSplit" "(i, j) \<noteq> (k, p)"
      using that(2) rd(5)[of i j] by (auto split: if_splits)
    ultimately show ?thesis using False rng[of i j] by blast
  qed
  have plive: "hl_live Ls k p" "hl_state Ls k p \<noteq> SlotSplit" using d(7,9) by simp_all
  have apart: "hi_apart Ls'"
    unfolding hi_apart_def
  proof (intro allI impI)
    fix i j i' j' assume "hl_live Ls' i j" "hl_state Ls' i j \<noteq> SlotSplit" "hl_live Ls' i' j'" "hl_state Ls' i' j' \<noteq> SlotSplit"
      and ne: "(i, j) \<noteq> (i', j')"
    from leaf[OF this(1,2)] leaf[OF this(3,4)] show "hl_range Ls' i j \<inter> hl_range Ls' i' j' = {}"
    proof (elim disjE conjE)
      assume "hl_live Ls i j" "hl_state Ls i j \<noteq> SlotSplit" "hl_range Ls' i j = hl_range Ls i j"
        "hl_live Ls i' j'" "hl_state Ls i' j' \<noteq> SlotSplit" "hl_range Ls' i' j' = hl_range Ls i' j'"
      with hi_okD(19)[OF ok this(1,2,4,5) ne] show ?thesis by simp
    next
      assume "hl_live Ls i j" "hl_state Ls i j \<noteq> SlotSplit" "(i, j) \<noteq> (k, p)" "hl_range Ls' i j = hl_range Ls i j"
        "hl_range Ls' i' j' \<subseteq> hl_range Ls k p"
      with hi_okD(19)[OF ok this(1,2) plive this(3)] show ?thesis by blast
    next
      assume "hl_live Ls i' j'" "hl_state Ls i' j' \<noteq> SlotSplit" "(i', j') \<noteq> (k, p)" "hl_range Ls' i' j' = hl_range Ls i' j'"
        "hl_range Ls' i j \<subseteq> hl_range Ls k p"
      with hi_okD(19)[OF ok this(1,2) plive this(3)] show ?thesis by blast
    next
      assume n: "i = Suc k" "b \<le> j" "j < b + hl_fan Ls k" "i' = Suc k" "b \<le> j'" "j' < b + hl_fan Ls k"
      let ?s = "hl_size Ls (Suc k)"
      have r: "hl_range Ls' i j = {hl_data Ls k p + (j - b) * ?s ..< hl_data Ls k p + (j - b + 1) * ?s}"
        "hl_range Ls' i' j' = {hl_data Ls k p + (j' - b) * ?s ..< hl_data Ls k p + (j' - b + 1) * ?s}"
        using crng(1)[of "j - b"] crng(1)[of "j' - b"] n by simp_all
      have "j - b + 1 \<le> j' - b \<or> j' - b + 1 \<le> j - b" using n ne by auto
      then have "(j - b + 1) * ?s \<le> (j' - b) * ?s \<or> (j' - b + 1) * ?s \<le> (j - b) * ?s"
        using mult_le_mono1[of "j - b + 1" "j' - b" ?s] mult_le_mono1[of "j' - b + 1" "j - b" ?s] by blast
      then show ?thesis unfolding r by auto
    qed
  qed
  have inside: "hi_inside R Ls'"
    unfolding hi_inside_def
  proof (intro allI impI)
    fix i j assume "hl_live Ls' i j"
    then consider "hl_live Ls i j" | "?new i j" using rd(3)[of i j] by blast
    then show "\<exists>r \<in> R. hl_range Ls' i j \<subseteq> hr_range r"
    proof cases
      case 1
      then show ?thesis using hi_okD(20)[OF ok 1] rng[OF 1] by simp
    next
      case 2
      then have m: "j - b < hl_fan Ls k" "b + (j - b) = j" by auto
      have "hl_range Ls' i j \<subseteq> hl_range Ls k p" using crng(2)[OF m(1)] m(2) 2 by simp
      with hi_okD(20)[OF ok d(7)] show ?thesis by blast
    qed
  qed
  show "hi_ok R Ls'"
    using shape hp_split_spans[OF assms] hp_split_lists[OF assms] hp_split_tree[OF assms] apart inside by (simp add: hi_ok_def)
  have inuse: "j < hl_count Ls' i \<and> hl_state Ls' i j = SlotInUse \<longleftrightarrow> j < hl_count Ls i \<and> hl_state Ls i j = SlotInUse"
    "j < hl_count Ls i \<and> hl_state Ls i j = SlotInUse \<Longrightarrow> hl_data Ls' i j = hl_data Ls i j" if i: "i < length Ls" for i j
  proof -
    have old: "hl_live Ls i j" if "j < hl_count Ls i" "hl_state Ls i j = SlotInUse"
      using hi_okD(13)[OF ok i that(1)] that(2) by simp
    then show "j < hl_count Ls i \<and> hl_state Ls i j = SlotInUse \<Longrightarrow> hl_data Ls' i j = hl_data Ls i j"
      using rd(4)[of i j] by simp
    have "hl_live Ls' i j" if "j < hl_count Ls' i" "hl_state Ls' i j = SlotInUse"
      using hp_split_lists[OF assms] that i d(2) unfolding hi_lists_def by auto
    then have conv: "j < hl_count Ls i \<and> hl_state Ls i j = SlotInUse" if "j < hl_count Ls' i" "hl_state Ls' i j = SlotInUse"
      using that rd(3)[of i j] rd(5)[of i j] rd(7)[of j] hl_live_less[of Ls i j] by (auto simp: ss_child_def split: if_splits)
    have "j < hl_count Ls' i \<and> hl_state Ls' i j = SlotInUse" if "j < hl_count Ls i" "hl_state Ls i j = SlotInUse"
      using old[OF that] rd(3)[of i j] rd(5)[of i j] that d(9) hl_live_less(2)[of Ls' i j] by auto
    with conv show "j < hl_count Ls' i \<and> hl_state Ls' i j = SlotInUse \<longleftrightarrow> j < hl_count Ls i \<and> hl_state Ls i j = SlotInUse" by blast
  qed
  show "hl_used Ls' = hl_used Ls"
    unfolding hl_used_def d(2) d(5) using inuse by (intro Collect_cong iffI; metis)
qed

section \<open>Marking, merging, adding\<close>

lemma hl_live_cong:
  assumes "length Ls' = length Ls" "hl_count Ls' i = hl_count Ls i"
    and "\<And>a r. i = Suc a \<Longrightarrow> i < length Ls \<Longrightarrow> hl_fan Ls' a = hl_fan Ls a"
    and "\<And>a r. i = Suc a \<Longrightarrow> i < length Ls \<Longrightarrow> hl_split Ls' a r = hl_split Ls a r"
    and "\<And>a r. i = Suc a \<Longrightarrow> i < length Ls \<Longrightarrow> hl_split Ls a r \<Longrightarrow> hl_begin Ls' a r = hl_begin Ls a r"
  shows "hl_live Ls' i j = hl_live Ls i j"
proof (cases i)
  case (Suc a)
  show ?thesis
  proof (cases "i < length Ls")
    case True
    from assms(1,2) assms(3-5)[OF Suc True] show ?thesis unfolding Suc hl_live_Suc by metis
  qed (use assms(1) in \<open>simp add: hl_live_def\<close>)
qed (use assms(1,2) in \<open>simp add: hl_live_def\<close>)

text \<open>A leaf changes between free and in use.\<close>

definition hp_mark :: "hs_layer list \<Rightarrow> hs_layer list \<Rightarrow> nat \<Rightarrow> nat \<Rightarrow> slot_state \<Rightarrow> bool" where
  "hp_mark Ls Ls' k p st \<longleftrightarrow>
     length Ls' = length Ls \<and> (\<forall>i. hl_size Ls' i = hl_size Ls i) \<and> (\<forall>i. hl_count Ls' i = hl_count Ls i) \<and>
     (\<forall>i j. i < length Ls \<longrightarrow> j < hl_count Ls i \<longrightarrow>
        hl_at Ls' i j = (if i = k \<and> j = p then (hl_at Ls k p)\<lparr>ss_state := st\<rparr> else hl_at Ls i j)) \<and>
     (\<forall>i. hl_span Ls' i = hl_span Ls i) \<and> (\<forall>i. i \<noteq> k \<longrightarrow> hl_free Ls' i = hl_free Ls i)"

lemma hp_mark_reads:
  assumes "hi_ok R Ls" "hp_mark Ls Ls' k p st" "hl_live Ls k p" "hl_state Ls k p \<noteq> SlotSplit" "st \<noteq> SlotSplit"
  shows "length Ls' = length Ls" "hl_size Ls' i = hl_size Ls i" "hl_count Ls' i = hl_count Ls i"
    "hl_fan Ls' i = hl_fan Ls i" "hl_span Ls' i = hl_span Ls i" "i \<noteq> k \<Longrightarrow> hl_free Ls' i = hl_free Ls i"
    "i < length Ls \<Longrightarrow> hl_split Ls' i r = hl_split Ls i r"
    "i < length Ls \<Longrightarrow> j < hl_count Ls i \<Longrightarrow> hl_begin Ls' i j = hl_begin Ls i j"
    "i < length Ls \<Longrightarrow> j < hl_count Ls i \<Longrightarrow> ss_region (hl_at Ls' i j) = ss_region (hl_at Ls i j)"
    "i < length Ls \<Longrightarrow> j < hl_count Ls i \<Longrightarrow> ss_parent_slot (hl_at Ls' i j) = ss_parent_slot (hl_at Ls i j)"
    "i < length Ls \<Longrightarrow> j < hl_count Ls i \<Longrightarrow> hl_state Ls' i j = (if i = k \<and> j = p then st else hl_state Ls i j)"
    "hl_live Ls' i j = hl_live Ls i j" "hl_live Ls i j \<Longrightarrow> hl_range Ls' i j = hl_range Ls i j"
proof -
  note m = assms(2)[unfolded hp_mark_def]
  show len: "length Ls' = length Ls" and sz: "hl_size Ls' i = hl_size Ls i" and cnt: "hl_count Ls' i = hl_count Ls i"
    and "hl_fan Ls' i = hl_fan Ls i" "hl_span Ls' i = hl_span Ls i" "i \<noteq> k \<Longrightarrow> hl_free Ls' i = hl_free Ls i" for i
    using m by (simp_all add: hl_fan_def)
  have at: "hl_at Ls' i j = (if i = k \<and> j = p then (hl_at Ls k p)\<lparr>ss_state := st\<rparr> else hl_at Ls i j)"
    if "i < length Ls" "j < hl_count Ls i" for i j
    using m that by blast
  show split: "hl_split Ls' i r = hl_split Ls i r" if "i < length Ls" for i r
    using at[OF that, of r] assms(4,5) by (auto simp: hl_split_def cnt split: if_splits)
  show beg: "hl_begin Ls' i j = hl_begin Ls i j" if "i < length Ls" "j < hl_count Ls i" for i j
    using at[OF that] by auto
  show reg: "ss_region (hl_at Ls' i j) = ss_region (hl_at Ls i j)"
    and "ss_parent_slot (hl_at Ls' i j) = ss_parent_slot (hl_at Ls i j)"
    and "hl_state Ls' i j = (if i = k \<and> j = p then st else hl_state Ls i j)" if "i < length Ls" "j < hl_count Ls i" for i j
    using at[OF that] by auto
  show "hl_live Ls' i j = hl_live Ls i j"
  proof (rule hl_live_cong[OF len cnt])
    fix a r assume "i = Suc a" "i < length Ls"
    then have a: "a < length Ls" by simp
    show "hl_fan Ls' a = hl_fan Ls a" using m by (simp add: hl_fan_def)
    show "hl_split Ls' a r = hl_split Ls a r" by (rule split[OF a])
    show "hl_split Ls a r \<Longrightarrow> hl_begin Ls' a r = hl_begin Ls a r" using beg[OF a] by (simp add: hl_split_def)
  qed
  show "hl_live Ls i j \<Longrightarrow> hl_range Ls' i j = hl_range Ls i j"
    using reg[of i j] hl_live_less[of Ls i j] sz[of i] by (simp add: hl_range_def)
qed

lemma hp_mark_ok:
  assumes ok: "hi_ok R Ls" and m: "hp_mark Ls Ls' k p st" and live: "hl_live Ls k p" "hl_state Ls k p \<noteq> SlotSplit"
    and st: "st \<noteq> SlotSplit" and fr: "distinct (hl_free Ls' k)"
      "set (hl_free Ls' k) = (if st = SlotFree then insert p (set (hl_free Ls k)) else set (hl_free Ls k) - {p})"
  shows "hi_ok R Ls'"
proof -
  note rd = hp_mark_reads[OF ok m live st]
  have k: "k < length Ls" using live(1) by (rule hl_live_less)
  have sb: "hl_begin Ls' i r = hl_begin Ls i r" if "i < length Ls" "hl_split Ls i r" for i r
    using rd(8)[OF that(1)] that(2) by (simp add: hl_split_def)
  have shape: "hi_shape Ls'" using hi_okD(1-3)[OF ok] by (simp add: hi_shape_def rd)
  have spans: "hi_spans Ls'"
    unfolding hi_spans_def rd(1,3,4,5)
  proof (intro conjI allI impI)
    fix i r assume i: "i < length Ls" and "hl_split Ls' i r"
    then have r: "hl_split Ls i r" using rd(7) by simp
    show "Suc i < length Ls" "hl_fan Ls i dvd hl_begin Ls' i r" "hl_begin Ls' i r + hl_fan Ls i \<le> hl_count Ls (Suc i)"
      using hi_okD(4-6)[OF ok i r] sb[OF i r] by simp_all
  next
    fix i r t assume i: "Suc i < length Ls" and "hl_split Ls' i r" "hl_split Ls' i t" and eq: "hl_begin Ls' i r = hl_begin Ls' i t"
    then have rt: "hl_split Ls i r" "hl_split Ls i t" using rd(7) by (simp_all add: Suc_lessD)
    show "r = t" using hi_okD(7)[OF ok i rt] eq sb[OF Suc_lessD[OF i] rt(1)] sb[OF Suc_lessD[OF i] rt(2)] by simp
  next
    fix i c r assume i: "Suc i < length Ls" and c: "c \<in> set (hl_span Ls (Suc i))" and "hl_split Ls' i r"
    then have "hl_split Ls i r" using rd(7) by (simp add: Suc_lessD)
    with hi_okD(12)[OF ok i c this] sb[OF Suc_lessD[OF i] this] show "hl_begin Ls' i r \<noteq> c" by simp
  next
    fix i assume i: "Suc i < length Ls"
    show "hl_fan Ls i dvd hl_count Ls (Suc i)" "distinct (hl_span Ls (Suc i))" by (rule hi_okD(8,9)[OF ok i])+
  next
    fix i c assume i: "Suc i < length Ls" and c: "c \<in> set (hl_span Ls (Suc i))"
    show "hl_fan Ls i dvd c" "c + hl_fan Ls i \<le> hl_count Ls (Suc i)" by (rule hi_okD(10,11)[OF ok i c])+
  qed
  have lists: "hi_lists Ls'"
    unfolding hi_lists_def rd(1,3,12)
  proof (intro conjI allI impI)
    fix i j assume "i < length Ls" "j < hl_count Ls i" "hl_state Ls' i j \<noteq> SlotFree"
    then show "hl_live Ls i j" using rd(11)[of i j] hi_okD(13)[OF ok, of i j] live(1) by (auto split: if_splits)
  next
    fix i assume "i < length Ls"
    then show "distinct (hl_free Ls' i)" using fr(1) rd(6)[of i] hi_okD(14)[OF ok, of i] by (cases "i = k") auto
  next
    fix i j assume i: "i < length Ls"
    show "j \<in> set (hl_free Ls' i) \<longleftrightarrow> hl_live Ls i j \<and> hl_state Ls' i j = SlotFree"
    proof (cases "i = k")
      case True
      have "j \<in> set (hl_free Ls' k) \<longleftrightarrow> (if st = SlotFree then j = p \<or> j \<in> set (hl_free Ls k) else j \<in> set (hl_free Ls k) \<and> j \<noteq> p)"
        by (simp add: fr(2))
      also have "\<dots> \<longleftrightarrow> hl_live Ls k j \<and> (if j = p then st else hl_state Ls k j) = SlotFree"
        unfolding hi_okD(15)[OF ok k] using live(1) by auto
      also have "\<dots> \<longleftrightarrow> hl_live Ls k j \<and> hl_state Ls' k j = SlotFree"
        using rd(11)[OF k, of j] hl_live_less(2)[of Ls k j] by auto
      finally show ?thesis by (simp add: True)
    next
      case False
      with rd(6)[OF False] rd(11)[OF i, of j] hl_live_less(2)[of Ls i j] hi_okD(15)[OF ok i, of j] show ?thesis by auto
    qed
  qed
  have tree: "hi_tree Ls'"
    unfolding hi_tree_def rd(1,2,3,4)
  proof (intro conjI allI impI)
    fix i r t assume i: "Suc i < length Ls" and "hl_split Ls' i r" and t: "t < hl_fan Ls i"
    then have r: "hl_split Ls i r" using rd(7) by (simp add: Suc_lessD)
    have c: "hl_begin Ls i r + t < hl_count Ls (Suc i)" using hi_okD(6)[OF ok Suc_lessD[OF i] r] t by simp
    have r': "r < hl_count Ls i" using r by (simp add: hl_split_def)
    show "ss_region (hl_at Ls' (Suc i) (hl_begin Ls' i r + t)) =
          \<lparr>hr_data = hl_data Ls' i r + t * hl_size Ls (Suc i), hr_size = hl_size Ls (Suc i)\<rparr>"
      "ss_parent_slot (hl_at Ls' (Suc i) (hl_begin Ls' i r + t)) = r"
      using hi_okD(16,17)[OF ok i r t] rd(9,10)[OF i c] rd(9)[OF Suc_lessD[OF i] r'] sb[OF Suc_lessD[OF i] r] by simp_all
  next
    fix j assume "j < hl_count Ls 0"
    then show "hr_size (ss_region (hl_at Ls' 0 j)) = hl_size Ls 0"
      using hi_okD(18)[OF ok, of j] rd(9)[of 0 j] hi_okD(1)[OF ok] by simp
  qed
  have state: "hl_state Ls' i j \<noteq> SlotSplit \<Longrightarrow> hl_state Ls i j \<noteq> SlotSplit" if "hl_live Ls i j" for i j
    using rd(11)[OF hl_live_less[OF that]] live(2) by (auto split: if_splits)
  have apart: "hi_apart Ls'"
    unfolding hi_apart_def rd(12)
  proof (intro allI impI)
    fix i j i' j' assume l: "hl_live Ls i j" "hl_live Ls i' j'" and n: "hl_state Ls' i j \<noteq> SlotSplit"
      "hl_state Ls' i' j' \<noteq> SlotSplit" "(i, j) \<noteq> (i', j')"
    show "hl_range Ls' i j \<inter> hl_range Ls' i' j' = {}"
      unfolding rd(13)[OF l(1)] rd(13)[OF l(2)] by (rule hi_okD(19)[OF ok l(1) state[OF l(1) n(1)] l(2) state[OF l(2) n(2)] n(3)])
  qed
  have "hi_inside R Ls'"
    using hi_okD(20)[OF ok] rd(13) by (simp add: hi_inside_def rd(12))
  with shape spans lists tree apart show ?thesis by (simp add: hi_ok_def)
qed

text \<open>Slots in use have distinct addresses.\<close>

lemma hl_used_inj:
  assumes "hi_ok R Ls" "hl_live Ls k j" "hl_live Ls k' j'" "hl_state Ls k j \<noteq> SlotSplit" "hl_state Ls k' j' \<noteq> SlotSplit"
    "hl_data Ls k j = hl_data Ls k' j'"
  shows "k = k' \<and> j = j'"
proof (rule ccontr)
  assume "\<not> (k = k' \<and> j = j')"
  then have "hl_range Ls k j \<inter> hl_range Ls k' j' = {}"
    using hi_okD(19)[OF assms(1,2,4,3,5)] by simp
  moreover have "hl_data Ls k j \<in> hl_range Ls k j \<inter> hl_range Ls k' j'"
    using hi_okD(2)[OF assms(1)] hl_live_less(1)[OF assms(2)] hl_live_less(1)[OF assms(3)] assms(6) by (simp add: hl_range_def)
  ultimately show False by blast
qed

lemma hl_usedI:
  "i < length Ls \<Longrightarrow> j < hl_count Ls i \<Longrightarrow> hl_state Ls i j = SlotInUse \<Longrightarrow> (hl_data Ls i j, hl_size Ls i) \<in> hl_used Ls"
  by (auto simp: hl_used_def)

lemma hp_mark_used:
  assumes ok: "hi_ok R Ls" and m: "hp_mark Ls Ls' k p st" and live: "hl_live Ls k p" "hl_state Ls k p \<noteq> SlotSplit"
  shows "st = SlotInUse \<Longrightarrow> hl_used Ls' = insert (hl_data Ls k p, hl_size Ls k) (hl_used Ls)"
    "st = SlotFree \<Longrightarrow> hl_used Ls' = hl_used Ls - {(hl_data Ls k p, hl_size Ls k)}"
proof -
  have k: "k < length Ls" "p < hl_count Ls k" using hl_live_less[OF live(1)] by auto
  have rd: "hl_data Ls' i j = hl_data Ls i j" "hl_state Ls' i j = (if i = k \<and> j = p then st else hl_state Ls i j)"
    if "i < length Ls" "j < hl_count Ls i" for i j
    using m that by (auto simp: hp_mark_def)
  have eq: "length Ls' = length Ls" "hl_size Ls' i = hl_size Ls i" "hl_count Ls' i = hl_count Ls i" for i
    using m by (simp_all add: hp_mark_def)
  show "hl_used Ls' = insert (hl_data Ls k p, hl_size Ls k) (hl_used Ls)" if st: "st = SlotInUse"
  proof (intro set_eqI iffI)
    fix x assume "x \<in> hl_used Ls'"
    then obtain i j where "x = (hl_data Ls' i j, hl_size Ls i)" "i < length Ls" "j < hl_count Ls i" "hl_state Ls' i j = SlotInUse"
      by (auto simp: hl_used_def eq)
    then show "x \<in> insert (hl_data Ls k p, hl_size Ls k) (hl_used Ls)"
      using rd[of i j] by (auto simp: hl_used_def split: if_splits)
  next
    fix x assume "x \<in> insert (hl_data Ls k p, hl_size Ls k) (hl_used Ls)"
    then obtain i j where "x = (hl_data Ls i j, hl_size Ls i)" "i < length Ls" "j < hl_count Ls i"
        "hl_state Ls i j = SlotInUse \<or> i = k \<and> j = p"
      using k by (auto simp: hl_used_def)
    then show "x \<in> hl_used Ls'" using rd[of i j] st hl_usedI[of i Ls' j] by (auto simp: eq)
  qed
  show "hl_used Ls' = hl_used Ls - {(hl_data Ls k p, hl_size Ls k)}" if st: "st = SlotFree"
  proof (intro set_eqI iffI)
    fix x assume "x \<in> hl_used Ls'"
    then obtain i j where x: "x = (hl_data Ls' i j, hl_size Ls i)" "i < length Ls" "j < hl_count Ls i" "hl_state Ls' i j = SlotInUse"
      by (auto simp: hl_used_def eq)
    then have ij: "hl_state Ls i j = SlotInUse" "\<not> (i = k \<and> j = p)" "hl_data Ls' i j = hl_data Ls i j"
      using rd[of i j] st by (auto split: if_splits)
    have "hl_live Ls i j" using hi_okD(13)[OF ok x(2,3)] ij(1) by simp
    from hl_used_inj[OF ok this live(1)] ij live(2) have "hl_data Ls i j \<noteq> hl_data Ls k p" by auto
    with x ij show "x \<in> hl_used Ls - {(hl_data Ls k p, hl_size Ls k)}" by (auto simp: hl_used_def)
  next
    fix x assume x: "x \<in> hl_used Ls - {(hl_data Ls k p, hl_size Ls k)}"
    then obtain i j where "x = (hl_data Ls i j, hl_size Ls i)" "i < length Ls" "j < hl_count Ls i" "hl_state Ls i j = SlotInUse"
      by (auto simp: hl_used_def)
    with x rd[of i j] hl_usedI[of i Ls' j] show "x \<in> hl_used Ls'" by (auto simp: eq split: if_splits)
  qed
qed

end
