(* ===== verification/HierarchicalMerge.thy ===== *)
theory HierarchicalMerge
  imports HierarchicalSafety
begin

text \<open>
  The two other changes of the forest: merging a span of free children into their parent, and adding
  root slots cut from a new region.
\<close>

section \<open>Merging\<close>

definition hp_merge :: "hs_layer list \<Rightarrow> hs_layer list \<Rightarrow> nat \<Rightarrow> nat \<Rightarrow> bool" where
  "hp_merge Ls Ls' k p \<longleftrightarrow>
     length Ls' = length Ls \<and> (\<forall>i. hl_size Ls' i = hl_size Ls i) \<and> (\<forall>i. hl_count Ls' i = hl_count Ls i) \<and>
     (\<forall>i j. i < length Ls \<longrightarrow> j < hl_count Ls i \<longrightarrow> hl_at Ls' i j =
        (if i = k \<and> j = p then (hl_at Ls k p)\<lparr>ss_state := SlotFree, ss_child_begin := 0\<rparr> else hl_at Ls i j)) \<and>
     (\<forall>i. hl_free Ls' i = (if i = k then hl_free Ls i @ [p]
        else if i = Suc k then filter (\<lambda>j. j < hl_begin Ls k p \<or> j \<ge> hl_begin Ls k p + hl_fan Ls k) (hl_free Ls i)
        else hl_free Ls i)) \<and>
     (\<forall>i. hl_span Ls' i = (if i = Suc k then hl_span Ls i @ [hl_begin Ls k p] else hl_span Ls i))"

lemma hp_merge_reads:
  assumes ok: "hi_ok R Ls" and m: "hp_merge Ls Ls' k p" and idle: "hi_idle Ls k p"
  shows "length Ls' = length Ls" "hl_size Ls' i = hl_size Ls i" "hl_count Ls' i = hl_count Ls i"
    "hl_fan Ls' i = hl_fan Ls i"
    "hl_span Ls' i = (if i = Suc k then hl_span Ls i @ [hl_begin Ls k p] else hl_span Ls i)"
    "hl_free Ls' i = (if i = k then hl_free Ls i @ [p]
        else if i = Suc k then filter (\<lambda>j. j < hl_begin Ls k p \<or> j \<ge> hl_begin Ls k p + hl_fan Ls k) (hl_free Ls i)
        else hl_free Ls i)"
    "i < length Ls \<Longrightarrow> hl_split Ls' i r \<longleftrightarrow> hl_split Ls i r \<and> \<not> (i = k \<and> r = p)"
    "i < length Ls \<Longrightarrow> hl_split Ls' i r \<Longrightarrow> hl_begin Ls' i r = hl_begin Ls i r"
    "i < length Ls \<Longrightarrow> j < hl_count Ls i \<Longrightarrow> ss_region (hl_at Ls' i j) = ss_region (hl_at Ls i j)"
    "i < length Ls \<Longrightarrow> j < hl_count Ls i \<Longrightarrow> ss_parent_slot (hl_at Ls' i j) = ss_parent_slot (hl_at Ls i j)"
    "i < length Ls \<Longrightarrow> j < hl_count Ls i \<Longrightarrow> hl_state Ls' i j = (if i = k \<and> j = p then SlotFree else hl_state Ls i j)"
    "hl_live Ls' i j \<longleftrightarrow> hl_live Ls i j \<and> \<not> (i = Suc k \<and> hl_begin Ls k p \<le> j \<and> j < hl_begin Ls k p + hl_fan Ls k)"
    "hl_live Ls i j \<Longrightarrow> hl_range Ls' i j = hl_range Ls i j"
proof -
  note m = m[unfolded hp_merge_def]
  have k: "Suc k < length Ls" "k < length Ls" "hl_split Ls k p" using idle by (auto simp: hi_idle_def)
  show len: "length Ls' = length Ls" and sz: "hl_size Ls' i = hl_size Ls i" and cnt: "hl_count Ls' i = hl_count Ls i"
    and fan: "hl_fan Ls' i = hl_fan Ls i" for i
    using m by (simp_all add: hl_fan_def)
  show "hl_span Ls' i = (if i = Suc k then hl_span Ls i @ [hl_begin Ls k p] else hl_span Ls i)"
    "hl_free Ls' i = (if i = k then hl_free Ls i @ [p]
        else if i = Suc k then filter (\<lambda>j. j < hl_begin Ls k p \<or> j \<ge> hl_begin Ls k p + hl_fan Ls k) (hl_free Ls i)
        else hl_free Ls i)"
    using m by blast+
  have at: "hl_at Ls' i j =
      (if i = k \<and> j = p then (hl_at Ls k p)\<lparr>ss_state := SlotFree, ss_child_begin := 0\<rparr> else hl_at Ls i j)"
    if "i < length Ls" "j < hl_count Ls i" for i j
    using m that by blast
  show split: "hl_split Ls' i r \<longleftrightarrow> hl_split Ls i r \<and> \<not> (i = k \<and> r = p)" if "i < length Ls" for i r
    using at[OF that, of r] by (auto simp: hl_split_def cnt split: if_splits)
  show beg: "hl_begin Ls' i r = hl_begin Ls i r" if "i < length Ls" "hl_split Ls' i r" for i r
    using at[OF that(1), of r] that(2) by (auto simp: hl_split_def cnt split: if_splits)
  show reg: "ss_region (hl_at Ls' i j) = ss_region (hl_at Ls i j)"
    and "ss_parent_slot (hl_at Ls' i j) = ss_parent_slot (hl_at Ls i j)"
    and "hl_state Ls' i j = (if i = k \<and> j = p then SlotFree else hl_state Ls i j)" if "i < length Ls" "j < hl_count Ls i" for i j
    using at[OF that] by auto
  show "hl_range Ls' i j = hl_range Ls i j" if "hl_live Ls i j"
    using reg[OF hl_live_less[OF that]] sz[of i] by (simp add: hl_range_def)
  let ?in = "hl_begin Ls k p \<le> j \<and> j < hl_begin Ls k p + hl_fan Ls k"
  show "hl_live Ls' i j \<longleftrightarrow> hl_live Ls i j \<and> \<not> (i = Suc k \<and> ?in)"
  proof (cases "i = Suc k")
    case False
    have "hl_live Ls' i j = hl_live Ls i j"
    proof (rule hl_live_cong[OF len cnt fan])
      fix a r assume a: "i = Suc a" "i < length Ls"
      then have "a < length Ls" "a \<noteq> k" using False by auto
      then show "hl_split Ls' a r = hl_split Ls a r" using split[of a r] by simp
      then show "hl_split Ls a r \<Longrightarrow> hl_begin Ls' a r = hl_begin Ls a r" using beg[OF \<open>a < length Ls\<close>] by simp
    qed
    with False show ?thesis by simp
  next
    case True
    have uniq: "r = p" if "hl_split Ls k r" "hl_begin Ls k r \<le> j" "j < hl_begin Ls k r + hl_fan Ls k" ?in for r
      using span_unique[OF hi_okD(5)[OF ok k(2) that(1)] hi_okD(5)[OF ok k(2,3)] that(2,3)] that(4)
        hi_okD(7)[OF ok k(1) that(1) k(3)] by simp
    have "(\<exists>r. hl_split Ls' k r \<and> hl_begin Ls' k r \<le> j \<and> j < hl_begin Ls' k r + hl_fan Ls k) \<longleftrightarrow>
        (\<exists>r. hl_split Ls k r \<and> hl_begin Ls k r \<le> j \<and> j < hl_begin Ls k r + hl_fan Ls k) \<and> \<not> ?in"
      (is "?L \<longleftrightarrow> ?E \<and> \<not> ?in")
    proof
      assume ?L
      then obtain r where r: "hl_split Ls' k r" "hl_begin Ls' k r \<le> j" "j < hl_begin Ls' k r + hl_fan Ls k" by blast
      with split[OF k(2), of r] beg[OF k(2), of r] have o: "hl_split Ls k r" "r \<noteq> p" "hl_begin Ls' k r = hl_begin Ls k r" by auto
      with r(2,3) uniq[of r] show "?E \<and> \<not> ?in" by auto
    next
      assume E: "?E \<and> \<not> ?in"
      then obtain r where r: "hl_split Ls k r" "hl_begin Ls k r \<le> j" "j < hl_begin Ls k r + hl_fan Ls k" by blast
      with E have "r \<noteq> p" by auto
      with split[OF k(2), of r] r(1) have "hl_split Ls' k r" by simp
      with beg[OF k(2)] r show ?L by auto
    qed
    then show ?thesis using True k(1) unfolding True hl_live_Suc len cnt fan by blast
  qed
qed

lemma hp_merge_ok:
  assumes ok: "hi_ok R Ls" and m: "hp_merge Ls Ls' k p" and idle: "hi_idle Ls k p"
  shows "hi_ok R Ls'" "hl_used Ls' = hl_used Ls"
proof -
  note rd = hp_merge_reads[OF ok m idle]
  have k: "Suc k < length Ls" "k < length Ls" "hl_split Ls k p" using idle by (auto simp: hi_idle_def)
  let ?b = "hl_begin Ls k p" and ?q = "hl_fan Ls k"
  have free: "hl_state Ls (Suc k) j = SlotFree" if "?b \<le> j" "j < ?b + ?q" for j
  proof -
    have "j - ?b < ?q" "?b + (j - ?b) = j" using that by auto
    with idle show ?thesis unfolding hi_idle_def by metis
  qed
  have p: "p < hl_count Ls k" "hl_state Ls k p = SlotSplit" "hl_live Ls k p"
    using k(3) hi_okD(13)[OF ok k(2), of p] by (auto simp: hl_split_def)
  have shape: "hi_shape Ls'" using hi_okD(1-3)[OF ok] by (simp add: hi_shape_def rd)
  have spans: "hi_spans Ls'"
    unfolding hi_spans_def rd(1,3,4)
  proof (intro conjI allI impI)
    fix i r assume i: "i < length Ls" and r': "hl_split Ls' i r"
    then have r: "hl_split Ls i r" using rd(7) by simp
    show "Suc i < length Ls" "hl_fan Ls i dvd hl_begin Ls' i r" "hl_begin Ls' i r + hl_fan Ls i \<le> hl_count Ls (Suc i)"
      using hi_okD(4-6)[OF ok i r] rd(8)[OF i r'] by simp_all
  next
    fix i r t assume i: "Suc i < length Ls" and rt: "hl_split Ls' i r" "hl_split Ls' i t" and eq: "hl_begin Ls' i r = hl_begin Ls' i t"
    have "hl_split Ls i r" "hl_split Ls i t" using rt rd(7)[OF Suc_lessD[OF i]] by blast+
    with hi_okD(7)[OF ok i this] eq rd(8)[OF Suc_lessD[OF i] rt(1)] rd(8)[OF Suc_lessD[OF i] rt(2)] show "r = t" by simp
  next
    fix i assume i: "Suc i < length Ls"
    show "hl_fan Ls i dvd hl_count Ls (Suc i)" by (rule hi_okD(8)[OF ok i])
    have "?b \<notin> set (hl_span Ls (Suc k))" using hi_okD(12)[OF ok k(1) _ k(3)] by blast
    then show "distinct (hl_span Ls' (Suc i))" using hi_okD(9)[OF ok i] rd(5)[of "Suc i"] by auto
  next
    fix i c assume i: "Suc i < length Ls" and c: "c \<in> set (hl_span Ls' (Suc i))"
    then consider "c \<in> set (hl_span Ls (Suc i))" | "i = k" "c = ?b" using rd(5)[of "Suc i"] by (auto split: if_splits)
    then have all: "hl_fan Ls i dvd c \<and> c + hl_fan Ls i \<le> hl_count Ls (Suc i) \<and> (\<forall>r. hl_split Ls' i r \<longrightarrow> hl_begin Ls i r \<noteq> c)"
    proof cases
      case 1
      then show ?thesis using hi_okD(10-12)[OF ok i 1] rd(7)[OF Suc_lessD[OF i]] by blast
    next
      case 2
      then show ?thesis using hi_okD(5,6)[OF ok k(2,3)] hi_okD(7)[OF ok k(1) _ k(3)] rd(7)[OF k(2)] by blast
    qed
    then show "hl_fan Ls i dvd c" "c + hl_fan Ls i \<le> hl_count Ls (Suc i)" by blast+
    fix r assume "hl_split Ls' i r"
    with all rd(8)[OF Suc_lessD[OF i] this] show "hl_begin Ls' i r \<noteq> c" by simp
  qed
  have lists: "hi_lists Ls'"
    unfolding hi_lists_def rd(1,3)
  proof (intro conjI allI impI)
    fix i j assume i: "i < length Ls" "j < hl_count Ls i" and st: "hl_state Ls' i j \<noteq> SlotFree"
    then have st': "hl_state Ls i j \<noteq> SlotFree" using rd(11)[OF i] by (auto split: if_splits)
    with hi_okD(13)[OF ok i] free[of j] show "hl_live Ls' i j" unfolding rd(12) by auto
  next
    fix i assume i: "i < length Ls"
    have "p \<notin> set (hl_free Ls k)" using hi_okD(15)[OF ok k(2), of p] p(2) by simp
    then show "distinct (hl_free Ls' i)" using hi_okD(14)[OF ok i] rd(6)[of i] by auto
  next
    fix i j assume i: "i < length Ls"
    consider "i = k" | "i = Suc k" | "i \<noteq> k" "i \<noteq> Suc k" by blast
    then show "j \<in> set (hl_free Ls' i) \<longleftrightarrow> hl_live Ls' i j \<and> hl_state Ls' i j = SlotFree"
    proof cases
      case 1
      have "j \<in> set (hl_free Ls' k) \<longleftrightarrow> j = p \<or> hl_live Ls k j \<and> hl_state Ls k j = SlotFree"
        using rd(6)[of k] hi_okD(15)[OF ok k(2), of j] by auto
      also have "\<dots> \<longleftrightarrow> hl_live Ls k j \<and> (if j = p then SlotFree else hl_state Ls k j) = SlotFree" using p(3) by auto
      also have "\<dots> \<longleftrightarrow> hl_live Ls' k j \<and> hl_state Ls' k j = SlotFree"
        using rd(11)[OF k(2), of j] rd(12)[of k j] hl_live_less(2)[of Ls k j] by auto
      finally show ?thesis by (simp add: 1)
    next
      case 2
      have "j \<in> set (hl_free Ls' i) \<longleftrightarrow> j \<in> set (hl_free Ls (Suc k)) \<and> \<not> (?b \<le> j \<and> j < ?b + ?q)"
        using rd(6)[of i] 2 by auto
      also have "\<dots> \<longleftrightarrow> hl_live Ls' i j \<and> hl_state Ls i j = SlotFree"
        unfolding hi_okD(15)[OF ok k(1)] rd(12) 2 by blast
      finally show ?thesis using rd(11)[OF i, of j] rd(12)[of i j] hl_live_less(2)[of Ls i j] 2 by auto
    next
      case 3
      then show ?thesis
        using rd(6)[of i] rd(11)[OF i, of j] rd(12)[of i j] hl_live_less(2)[of Ls i j] hi_okD(15)[OF ok i, of j] by auto
    qed
  qed
  have tree: "hi_tree Ls'"
    unfolding hi_tree_def rd(1,2,3,4)
  proof (intro conjI allI impI)
    fix i r t assume i: "Suc i < length Ls" and r': "hl_split Ls' i r" and t: "t < hl_fan Ls i"
    have r: "hl_split Ls i r" using rd(7) r' i by (simp add: Suc_lessD)
    have c: "hl_begin Ls i r + t < hl_count Ls (Suc i)" using hi_okD(6)[OF ok Suc_lessD[OF i] r] t by simp
    have rc: "r < hl_count Ls i" using r by (simp add: hl_split_def)
    show "ss_region (hl_at Ls' (Suc i) (hl_begin Ls' i r + t)) =
          \<lparr>hr_data = hl_data Ls' i r + t * hl_size Ls (Suc i), hr_size = hl_size Ls (Suc i)\<rparr>"
      "ss_parent_slot (hl_at Ls' (Suc i) (hl_begin Ls' i r + t)) = r"
      using hi_okD(16,17)[OF ok i r t] rd(9,10)[OF i c] rd(9)[OF Suc_lessD[OF i] rc] rd(8)[OF Suc_lessD[OF i] r'] by simp_all
  next
    fix j assume "j < hl_count Ls 0"
    then show "hr_size (ss_region (hl_at Ls' 0 j)) = hl_size Ls 0"
      using hi_okD(18)[OF ok, of j] rd(9)[of 0 j] hi_okD(1)[OF ok] by simp
  qed
  have leaf: "hl_live Ls i j \<and> hl_state Ls i j \<noteq> SlotSplit \<and> \<not> (i = Suc k \<and> ?b \<le> j \<and> j < ?b + ?q) \<or> i = k \<and> j = p"
    if "hl_live Ls' i j" "hl_state Ls' i j \<noteq> SlotSplit" for i j
    using that rd(12)[of i j] rd(11)[OF hl_live_less, of i j] by (auto split: if_splits)
  have rng: "hl_range Ls' i j = hl_range Ls i j" if "hl_live Ls' i j" for i j
    using rd(12)[of i j] rd(13)[of i j] that by blast
  have other: "hl_range Ls i j \<inter> hl_range Ls k p = {}"
    if o: "hl_live Ls i j" "hl_state Ls i j \<noteq> SlotSplit" "\<not> (i = Suc k \<and> ?b \<le> j \<and> j < ?b + ?q)" for i j
  proof (rule ccontr)
    assume "hl_range Ls i j \<inter> hl_range Ls k p \<noteq> {}"
    then obtain x where x: "x \<in> hl_range Ls i j" "x \<in> hl_range Ls k p" by blast
    obtain t where t: "t < ?q" "x \<in> hl_range Ls (Suc k) (?b + t)" using hl_range_children[OF ok k(1,3) x(2)] by blast
    have c: "hl_live Ls (Suc k) (?b + t)" by (rule hl_live_child[OF ok k(2,3) t(1)])
    have "hl_state Ls (Suc k) (?b + t) \<noteq> SlotSplit" using free[of "?b + t"] t(1) by simp
    moreover have "(i, j) \<noteq> (Suc k, ?b + t)" using o(3) t(1) by auto
    ultimately have "hl_range Ls i j \<inter> hl_range Ls (Suc k) (?b + t) = {}" using hi_okD(19)[OF ok o(1,2) c] by blast
    with x(1) t(2) show False by blast
  qed
  have apart: "hi_apart Ls'"
    unfolding hi_apart_def
  proof (intro allI impI)
    fix i j i' j' assume l: "hl_live Ls' i j" and s: "hl_state Ls' i j \<noteq> SlotSplit" and l': "hl_live Ls' i' j'"
      and s': "hl_state Ls' i' j' \<noteq> SlotSplit" and ne: "(i, j) \<noteq> (i', j')"
    have "hl_range Ls i j \<inter> hl_range Ls i' j' = {}"
      using leaf[OF l s] leaf[OF l' s']
    proof (elim disjE conjE)
      assume "hl_live Ls i j" "hl_state Ls i j \<noteq> SlotSplit" "hl_live Ls i' j'" "hl_state Ls i' j' \<noteq> SlotSplit"
      from hi_okD(19)[OF ok this ne] show ?thesis .
    next
      assume "hl_live Ls i j" "hl_state Ls i j \<noteq> SlotSplit" "\<not> (i = Suc k \<and> ?b \<le> j \<and> j < ?b + ?q)" "i' = k" "j' = p"
      then show ?thesis using other[of i j] by simp
    next
      assume "hl_live Ls i' j'" "hl_state Ls i' j' \<noteq> SlotSplit" "\<not> (i' = Suc k \<and> ?b \<le> j' \<and> j' < ?b + ?q)" "i = k" "j = p"
      then show ?thesis using other[of i' j'] by blast
    qed (use ne in simp)
    then show "hl_range Ls' i j \<inter> hl_range Ls' i' j' = {}" unfolding rng[OF l] rng[OF l'] .
  qed
  have inside: "hi_inside R Ls'"
    unfolding hi_inside_def
  proof (intro allI impI)
    fix i j assume l: "hl_live Ls' i j"
    then have "hl_live Ls i j" using rd(12) by blast
    from hi_okD(20)[OF ok this] show "\<exists>r \<in> R. hl_range Ls' i j \<subseteq> hr_range r" unfolding rng[OF l] .
  qed
  show "hi_ok R Ls'" using shape spans lists tree apart inside by (simp add: hi_ok_def)
  have inuse: "hl_state Ls' i j = SlotInUse \<longleftrightarrow> hl_state Ls i j = SlotInUse" "hl_data Ls' i j = hl_data Ls i j"
    if "i < length Ls" "j < hl_count Ls i" for i j
    using rd(9,11)[OF that] p(2) by auto
  show "hl_used Ls' = hl_used Ls"
  proof (intro set_eqI iffI)
    fix x assume "x \<in> hl_used Ls'"
    then obtain i j where "x = (hl_data Ls' i j, hl_size Ls i)" "i < length Ls" "j < hl_count Ls i" "hl_state Ls' i j = SlotInUse"
      by (auto simp: hl_used_def rd(1,2,3))
    then show "x \<in> hl_used Ls" using inuse[of i j] hl_usedI[of i Ls j] by simp
  next
    fix x assume "x \<in> hl_used Ls"
    then obtain i j where "x = (hl_data Ls i j, hl_size Ls i)" "i < length Ls" "j < hl_count Ls i" "hl_state Ls i j = SlotInUse"
      by (auto simp: hl_used_def)
    then show "x \<in> hl_used Ls'" using inuse[of i j] hl_usedI[of i Ls' j] by (simp add: rd(1,2,3))
  qed
qed

section \<open>Adding root slots\<close>

text \<open>\<open>m\<close> slots cut from the region \<open>g\<close>, which is disjoint from all regions so far.\<close>

definition hp_add :: "hs_layer list \<Rightarrow> hs_layer list \<Rightarrow> heap_region \<Rightarrow> nat \<Rightarrow> bool" where
  "hp_add Ls Ls' g m \<longleftrightarrow>
     length Ls' = length Ls \<and> (\<forall>i. hl_size Ls' i = hl_size Ls i) \<and>
     (\<forall>i. hl_count Ls' i = (if i = 0 then hl_count Ls 0 + m else hl_count Ls i)) \<and>
     (\<forall>i j. i < length Ls \<longrightarrow> j < hl_count Ls i \<longrightarrow> hl_at Ls' i j = hl_at Ls i j) \<and>
     (\<forall>t < m. hl_at Ls' 0 (hl_count Ls 0 + t) =
        ss_new\<lparr>ss_region := \<lparr>hr_data = hr_data g + t * hl_size Ls 0, hr_size = hl_size Ls 0\<rparr>, ss_state := SlotFree\<rparr>) \<and>
     (\<forall>i. hl_free Ls' i = (if i = 0 then hl_free Ls 0 @ [hl_count Ls 0..<hl_count Ls 0 + m] else hl_free Ls i)) \<and>
     (\<forall>i. hl_span Ls' i = hl_span Ls i)"

lemma hp_add_ok:
  assumes ok: "hi_ok R Ls" and a: "hp_add Ls Ls' g m" and sz: "m * hl_size Ls 0 \<le> hr_size g"
    and fresh: "\<And>r. r \<in> R \<Longrightarrow> hr_range r \<inter> hr_range g = {}"
  shows "hi_ok (insert g R) Ls'" "hl_used Ls' = hl_used Ls"
    "hi_idle Ls' i p \<longleftrightarrow> hi_idle Ls i p"
proof -
  note a = a[unfolded hp_add_def]
  have n: "0 < length Ls" using hi_okD(1)[OF ok] .
  have len: "length Ls' = length Ls" and size': "hl_size Ls' i = hl_size Ls i"
    and cnt: "hl_count Ls' i = (if i = 0 then hl_count Ls 0 + m else hl_count Ls i)"
    and fan: "hl_fan Ls' i = hl_fan Ls i" and span: "hl_span Ls' i = hl_span Ls i"
    and fr: "hl_free Ls' i = (if i = 0 then hl_free Ls 0 @ [hl_count Ls 0..<hl_count Ls 0 + m] else hl_free Ls i)" for i
    using a by (simp_all add: hl_fan_def)
  have old: "hl_at Ls' i j = hl_at Ls i j" if "i < length Ls" "j < hl_count Ls i" for i j
    using a that by blast
  have new: "hl_at Ls' 0 (hl_count Ls 0 + t) =
      ss_new\<lparr>ss_region := \<lparr>hr_data = hr_data g + t * hl_size Ls 0, hr_size = hl_size Ls 0\<rparr>, ss_state := SlotFree\<rparr>" if "t < m" for t
    using a that by blast
  have newst: "hl_state Ls' 0 j = SlotFree" "hl_data Ls' 0 j = hr_data g + (j - hl_count Ls 0) * hl_size Ls 0"
    "hr_size (ss_region (hl_at Ls' 0 j)) = hl_size Ls 0" if "hl_count Ls 0 \<le> j" "j < hl_count Ls 0 + m" for j
    using new[of "j - hl_count Ls 0"] that by simp_all
  have split: "hl_split Ls' i r = hl_split Ls i r" if "i < length Ls" for i r
    using old[OF that, of r] newst(1)[of r] cnt[of i]
    by (cases "r < hl_count Ls i") (auto simp: hl_split_def split: if_splits)
  have beg: "hl_begin Ls' i r = hl_begin Ls i r" if "i < length Ls" "hl_split Ls i r" for i r
    using old[OF that(1), of r] that(2) by (simp add: hl_split_def)
  have live: "hl_live Ls' i j \<longleftrightarrow> hl_live Ls i j \<or> i = 0 \<and> hl_count Ls 0 \<le> j \<and> j < hl_count Ls 0 + m" for i j
  proof (cases i)
    case 0
    then show ?thesis using cnt[of 0] len n by (auto simp: hl_live_0)
  next
    case (Suc b)
    have "hl_live Ls' i j = hl_live Ls i j"
      by (rule hl_live_cong[OF len]) (use Suc cnt[of i] fan split beg in auto)
    then show ?thesis using Suc by simp
  qed
  have at: "hl_at Ls' i j = hl_at Ls i j" if "hl_live Ls i j" for i j using old[OF hl_live_less[OF that]] .
  have rng: "hl_range Ls' i j = hl_range Ls i j" if "hl_live Ls i j" for i j
    using at[OF that] size' by (simp add: hl_range_def)
  have newrng: "hl_range Ls' 0 j \<subseteq> hr_range g" if "hl_count Ls 0 \<le> j" "j < hl_count Ls 0 + m" for j
  proof -
    have "(j - hl_count Ls 0 + 1) * hl_size Ls 0 \<le> m * hl_size Ls 0" using that by (intro mult_le_mono1) simp
    with sz show ?thesis using newst(2)[OF that] by (auto simp: hl_range_def hr_range_def size')
  qed
  have shape: "hi_shape Ls'" using hi_okD(1-3)[OF ok] by (simp add: hi_shape_def len size')
  have spans: "hi_spans Ls'"
    unfolding hi_spans_def len fan span
  proof (intro conjI allI impI)
    fix i r assume i: "i < length Ls" and r': "hl_split Ls' i r"
    then have r: "hl_split Ls i r" using split by simp
    show "Suc i < length Ls" "hl_fan Ls i dvd hl_begin Ls' i r" "hl_begin Ls' i r + hl_fan Ls i \<le> hl_count Ls' (Suc i)"
      using hi_okD(4-6)[OF ok i r] beg[OF i r] cnt[of "Suc i"] by simp_all
  next
    fix i r t assume i: "Suc i < length Ls" and rt: "hl_split Ls' i r" "hl_split Ls' i t" and eq: "hl_begin Ls' i r = hl_begin Ls' i t"
    have o: "hl_split Ls i r" "hl_split Ls i t" using rt split[OF Suc_lessD[OF i]] by blast+
    from hi_okD(7)[OF ok i o] eq beg[OF Suc_lessD[OF i]] o show "r = t" by simp
  next
    fix i assume i: "Suc i < length Ls"
    show "hl_fan Ls i dvd hl_count Ls' (Suc i)" "distinct (hl_span Ls (Suc i))"
      using hi_okD(8,9)[OF ok i] cnt[of "Suc i"] by simp_all
  next
    fix i c assume i: "Suc i < length Ls" and c: "c \<in> set (hl_span Ls (Suc i))"
    show "hl_fan Ls i dvd c" "c + hl_fan Ls i \<le> hl_count Ls' (Suc i)"
      using hi_okD(10,11)[OF ok i c] cnt[of "Suc i"] by simp_all
    fix r assume "hl_split Ls' i r"
    then have "hl_split Ls i r" using split[OF Suc_lessD[OF i]] by blast
    with hi_okD(12)[OF ok i c this] beg[OF Suc_lessD[OF i] this] show "hl_begin Ls' i r \<noteq> c" by simp
  qed
  have below: "j < hl_count Ls 0" if "j \<in> set (hl_free Ls 0)" for j
    using hi_okD(15)[OF ok n, of j] that by (auto simp: hl_live_0)
  have lists: "hi_lists Ls'"
    unfolding hi_lists_def len
  proof (intro conjI allI impI)
    fix i j assume i: "i < length Ls" "j < hl_count Ls' i" and st: "hl_state Ls' i j \<noteq> SlotFree"
    then have "j < hl_count Ls i" using newst(1)[of j] cnt[of i] by (cases "j < hl_count Ls i") (auto split: if_splits)
    with hi_okD(13)[OF ok i(1) this] st old[OF i(1) this] show "hl_live Ls' i j" unfolding live by simp
  next
    fix i assume i: "i < length Ls"
    show "distinct (hl_free Ls' i)" using hi_okD(14)[OF ok i] below fr[of i] by fastforce
  next
    fix i j assume i: "i < length Ls"
    show "j \<in> set (hl_free Ls' i) \<longleftrightarrow> hl_live Ls' i j \<and> hl_state Ls' i j = SlotFree"
    proof (cases "i = 0 \<and> hl_count Ls 0 \<le> j \<and> j < hl_count Ls 0 + m")
      case True
      then show ?thesis using newst(1)[of j] fr[of 0] live[of i j] by auto
    next
      case False
      then have "j \<in> set (hl_free Ls' i) \<longleftrightarrow> j \<in> set (hl_free Ls i)" using fr[of i] by auto
      also have "\<dots> \<longleftrightarrow> hl_live Ls i j \<and> hl_state Ls' i j = SlotFree" using hi_okD(15)[OF ok i, of j] at[of i j] by auto
      finally show ?thesis using live[of i j] False by blast
    qed
  qed
  have tree: "hi_tree Ls'"
    unfolding hi_tree_def len size' fan
  proof (intro conjI allI impI)
    fix i r t assume i: "Suc i < length Ls" and r': "hl_split Ls' i r" and t: "t < hl_fan Ls i"
    have r: "hl_split Ls i r" using r' split[OF Suc_lessD[OF i]] by blast
    have rc: "r < hl_count Ls i" using r by (simp add: hl_split_def)
    show "ss_region (hl_at Ls' (Suc i) (hl_begin Ls' i r + t)) =
          \<lparr>hr_data = hl_data Ls' i r + t * hl_size Ls (Suc i), hr_size = hl_size Ls (Suc i)\<rparr>"
      "ss_parent_slot (hl_at Ls' (Suc i) (hl_begin Ls' i r + t)) = r"
      using hi_okD(16,17)[OF ok i r t] at[OF hl_live_child[OF ok Suc_lessD[OF i] r t]] old[OF Suc_lessD[OF i] rc]
        beg[OF Suc_lessD[OF i] r] by simp_all
  next
    fix j assume "j < hl_count Ls' 0"
    then show "hr_size (ss_region (hl_at Ls' 0 j)) = hl_size Ls 0"
      using hi_okD(18)[OF ok, of j] old[OF n, of j] newst(3)[of j] cnt[of 0] by (cases "j < hl_count Ls 0") auto
  qed
  have inside: "hi_inside (insert g R) Ls'"
    unfolding hi_inside_def
  proof (intro allI impI)
    fix i j assume "hl_live Ls' i j"
    then consider "hl_live Ls i j" | "i = 0" "hl_count Ls 0 \<le> j" "j < hl_count Ls 0 + m" using live by blast
    then show "\<exists>r \<in> insert g R. hl_range Ls' i j \<subseteq> hr_range r"
    proof cases
      case 1
      then show ?thesis using hi_okD(20)[OF ok 1] rng[OF 1] by simp
    qed (use newrng in blast)
  qed
  have apart: "hi_apart Ls'"
    unfolding hi_apart_def
  proof (intro allI impI)
    fix i j i' j' assume l: "hl_live Ls' i j" and s: "hl_state Ls' i j \<noteq> SlotSplit" and l': "hl_live Ls' i' j'"
      and s': "hl_state Ls' i' j' \<noteq> SlotSplit" and ne: "(i, j) \<noteq> (i', j')"
    have oldnew: "hl_range Ls' a b \<inter> hl_range Ls' 0 c = {}"
      if o: "hl_live Ls a b" and c: "hl_count Ls 0 \<le> c" "c < hl_count Ls 0 + m" for a b c
    proof -
      obtain r where "r \<in> R" "hl_range Ls' a b \<subseteq> hr_range r" using hi_okD(20)[OF ok o] rng[OF o] by auto
      with fresh[of r] newrng[OF c] show ?thesis by blast
    qed
    from l l' show "hl_range Ls' i j \<inter> hl_range Ls' i' j' = {}"
      unfolding live
    proof (elim disjE conjE)
      assume o: "hl_live Ls i j" "hl_live Ls i' j'"
      then show ?thesis
        using hi_okD(19)[OF ok o(1) _ o(2) _ ne] s s' at[OF o(1)] at[OF o(2)] rng[OF o(1)] rng[OF o(2)] by simp
    next
      assume "hl_live Ls i j" "i' = 0" "hl_count Ls 0 \<le> j'" "j' < hl_count Ls 0 + m"
      then show ?thesis using oldnew by blast
    next
      assume "hl_live Ls i' j'" "i = 0" "hl_count Ls 0 \<le> j" "j < hl_count Ls 0 + m"
      then show ?thesis using oldnew by blast
    next
      assume b: "i = 0" "hl_count Ls 0 \<le> j" "j < hl_count Ls 0 + m" "i' = 0" "hl_count Ls 0 \<le> j'" "j' < hl_count Ls 0 + m"
      let ?s = "hl_size Ls 0" and ?c = "hl_count Ls 0"
      have r: "hl_range Ls' i j = {hr_data g + (j - ?c) * ?s ..< hr_data g + (j - ?c + 1) * ?s}"
        "hl_range Ls' i' j' = {hr_data g + (j' - ?c) * ?s ..< hr_data g + (j' - ?c + 1) * ?s}"
        unfolding hl_range_def size' b(1) b(4) newst(2)[OF b(2,3)] newst(2)[OF b(5,6)] by (simp_all add: ac_simps)
      have "j - ?c + 1 \<le> j' - ?c \<or> j' - ?c + 1 \<le> j - ?c" using b ne by auto
      then have "(j - ?c + 1) * ?s \<le> (j' - ?c) * ?s \<or> (j' - ?c + 1) * ?s \<le> (j - ?c) * ?s"
        using mult_le_mono1[of "j - ?c + 1" "j' - ?c" ?s] mult_le_mono1[of "j' - ?c + 1" "j - ?c" ?s] by blast
      then show ?thesis unfolding r by auto
    qed
  qed
  show "hi_ok (insert g R) Ls'" using shape spans lists tree apart inside by (simp add: hi_ok_def)
  show "hl_used Ls' = hl_used Ls"
  proof (intro set_eqI iffI)
    fix x assume "x \<in> hl_used Ls'"
    then obtain i j where x: "x = (hl_data Ls' i j, hl_size Ls i)" "i < length Ls" "j < hl_count Ls' i" "hl_state Ls' i j = SlotInUse"
      by (auto simp: hl_used_def len size')
    then have "j < hl_count Ls i" using newst(1)[of j] cnt[of i] by (cases "j < hl_count Ls i") (auto split: if_splits)
    with x old[OF x(2) this] hl_usedI[of i Ls j] show "x \<in> hl_used Ls" by simp
  next
    fix x assume "x \<in> hl_used Ls"
    then obtain i j where x: "x = (hl_data Ls i j, hl_size Ls i)" "i < length Ls" "j < hl_count Ls i" "hl_state Ls i j = SlotInUse"
      by (auto simp: hl_used_def)
    moreover have "j < hl_count Ls' i" using x(3) cnt[of i] by auto
    ultimately show "x \<in> hl_used Ls'" using old[of i j] hl_usedI[of i Ls' j] by (simp add: len size')
  qed
  show "hi_idle Ls' i p \<longleftrightarrow> hi_idle Ls i p"
  proof (cases "Suc i < length Ls \<and> hl_split Ls i p")
    case True
    then have i: "Suc i < length Ls" "hl_split Ls i p" by auto
    have "hl_state Ls' (Suc i) (hl_begin Ls i p + t) = hl_state Ls (Suc i) (hl_begin Ls i p + t)" if "t < hl_fan Ls i" for t
      using at[OF hl_live_child[OF ok Suc_lessD[OF i(1)] i(2) that]] by simp
    with split[OF Suc_lessD[OF i(1)]] beg[OF Suc_lessD[OF i(1)] i(2)] show ?thesis by (simp add: hi_idle_def len fan)
  next
    case False
    then show ?thesis using split[of i p] by (auto simp: hi_idle_def len)
  qed
qed

end
