(* ===== verification/HierarchicalClients.thy ===== *)
theory HierarchicalClients
  imports HierarchicalMerge
begin

text \<open>
  The operations of the hierarchical slot allocator that work on the layers (\<open>hierarchical_slot_storage.h\<close>,
  \<open>hierarchical_slot_single_ops.h\<close>) perform the changes of the forest: a round of the splitting loop is a
  split, \<open>hs_mergeSpan\<close> a merge, and merging upwards leaves no split slot with only free children.
\<close>

section \<open>The operations on the layers\<close>

lemma hl_update:
  assumes "k < length Ls"
  shows "hl_size (Ls[k := L]) i = (if i = k then sy_slot_size L else hl_size Ls i)"
    "hl_count (Ls[k := L]) i = (if i = k then hv_size (sy_slots L) else hl_count Ls i)"
    "hl_at (Ls[k := L]) i j = (if i = k then hv_nth (sy_slots L) j else hl_at Ls i j)"
    "hl_free (Ls[k := L]) i = (if i = k then hv_data (sy_free_list L) else hl_free Ls i)"
    "hl_span (Ls[k := L]) i = (if i = k then hv_data (sy_span_free_list L) else hl_span Ls i)"
  using assms by (simp_all add: hl_size_def hl_count_def hl_at_def hl_free_def hl_span_def nth_list_update)

lemma sy_appendSpan_eq:
  "sy_slot_size (sy_appendSpan P r b m C) = sy_slot_size C"
  "sy_span_free_list (sy_appendSpan P r b m C) = sy_span_free_list C"
  "hv_data (sy_slots (sy_appendSpan P r b m C)) = hv_data (sy_slots C) @ map (ss_child P (sy_slot_size C) r) [0..<m]"
  "hv_data (sy_free_list (sy_appendSpan P r b m C)) = hv_data (sy_free_list C) @ map (\<lambda>i. hs_u32 (b + i)) [0..<m]"
  by (induction m) (simp_all add: sy_appendSpan_def)

lemma sy_reuseSpan_eq:
  "sy_slot_size (sy_reuseSpan P r b m C) = sy_slot_size C"
  "sy_span_free_list (sy_reuseSpan P r b m C) = sy_span_free_list C"
  "hv_size (sy_slots (sy_reuseSpan P r b m C)) = hv_size (sy_slots C)"
  "j < hv_size (sy_slots C) \<Longrightarrow> hv_nth (sy_slots (sy_reuseSpan P r b m C)) j =
     (if b \<le> j \<and> j < b + m then ss_child P (sy_slot_size C) r (j - b) else hv_nth (sy_slots C) j)"
  "hv_data (sy_free_list (sy_reuseSpan P r b m C)) = hv_data (sy_free_list C) @ map (\<lambda>i. hs_u32 (b + i)) [0..<m]"
proof (induction m)
  case (Suc m)
  let ?L = "sy_reuseSpan P r b m C"
  have step: "sy_reuseSpan P r b (Suc m) C =
      ?L\<lparr>sy_slots := hv_set (sy_slots ?L) (b + m) (ss_child P (sy_slot_size ?L) r m),
         sy_free_list := hv_pushBack (sy_free_list ?L) (hs_u32 (b + m))\<rparr>"
    by (simp add: sy_reuseSpan_def)
  {
    case 1
    show ?case using Suc by (simp add: step)
  next
    case 2
    show ?case using Suc by (simp add: step)
  next
    case 3
    show ?case using Suc by (simp add: step hv_size_def)
  next
    case 4
    show ?case
    proof (cases "j = b + m")
      case True
      then show ?thesis using Suc(1,3) 4 by (simp add: step hv_nth_def hv_size_def)
    next
      case False
      then have "hv_nth (sy_slots (sy_reuseSpan P r b (Suc m) C)) j = hv_nth (sy_slots ?L) j"
        by (simp add: step hv_nth_def)
      with Suc(4)[OF 4] False show ?thesis by auto
    qed
  next
    case 5
    show ?case using Suc by (simp add: step)
  }
qed (auto simp: sy_reuseSpan_def)

lemma hs_u32_id: "n < 2 ^ 32 \<Longrightarrow> hs_u32 n = n"
  by (simp add: hs_u32_def)

lemma sy_popFreeSlot_eq:
  assumes "hv_data (sy_free_list L) \<noteq> []"
  shows "fst (sy_popFreeSlot L) = last (hv_data (sy_free_list L))"
    "sy_slot_size (snd (sy_popFreeSlot L)) = sy_slot_size L" "sy_slots (snd (sy_popFreeSlot L)) = sy_slots L"
    "sy_span_free_list (snd (sy_popFreeSlot L)) = sy_span_free_list L"
    "hv_data (sy_free_list (snd (sy_popFreeSlot L))) = butlast (hv_data (sy_free_list L))"
  using assms by (simp_all add: sy_popFreeSlot_def Let_def hv_nth_def hv_size_def last_conv_nth butlast_conv_take)

lemma sy_updateSlot_eq [simp]:
  "sy_slot_size (sy_updateSlot r f L) = sy_slot_size L" "hv_size (sy_slots (sy_updateSlot r f L)) = hv_size (sy_slots L)"
  "sy_free_list (sy_updateSlot r f L) = sy_free_list L" "sy_span_free_list (sy_updateSlot r f L) = sy_span_free_list L"
  "j < hv_size (sy_slots L) \<Longrightarrow> hv_nth (sy_slots (sy_updateSlot r f L)) j =
     (if j = r then f (hv_nth (sy_slots L) j) else hv_nth (sy_slots L) j)"
  by (auto simp: sy_updateSlot_def hv_size_def hv_nth_def)

text \<open>The layers after one round of the splitting loop.\<close>

lemma hs_splitAt_eq:
  assumes ne: "hl_free (hs_layers S) k \<noteq> []" and k: "Suc k < length (hs_layers S)"
  shows "\<exists>P C b. hs_layers (hs_splitAt k S) = (hs_layers S)[k := P, Suc k := C] \<and>
    hs_splitAt k S = S\<lparr>hs_layers := (hs_layers S)[k := P, Suc k := C]\<rparr> \<and>
    sy_slot_size P = hl_size (hs_layers S) k \<and> hv_size (sy_slots P) = hl_count (hs_layers S) k \<and>
    hv_data (sy_free_list P) = butlast (hl_free (hs_layers S) k) \<and>
    hv_data (sy_span_free_list P) = hl_span (hs_layers S) k \<and>
    (\<forall>j < hl_count (hs_layers S) k. hv_nth (sy_slots P) j =
       (if j = last (hl_free (hs_layers S) k) then ss_markSplit b (hl_at (hs_layers S) k j) else hl_at (hs_layers S) k j)) \<and>
    sy_slot_size C = hl_size (hs_layers S) (Suc k) \<and>
    hv_data (sy_span_free_list C) = butlast (hl_span (hs_layers S) (Suc k)) \<and>
    hv_data (sy_free_list C) = hl_free (hs_layers S) (Suc k) @ map (\<lambda>i. hs_u32 (b + i)) [0..<hl_fan (hs_layers S) k] \<and>
    (if hl_span (hs_layers S) (Suc k) = []
     then b = hs_u32 (hl_count (hs_layers S) (Suc k)) \<and>
       hv_data (sy_slots C) = hv_data (sy_slots (hs_layers S ! Suc k)) @
         map (ss_child (hl_at (hs_layers S) k (last (hl_free (hs_layers S) k))) (hl_size (hs_layers S) (Suc k))
           (last (hl_free (hs_layers S) k))) [0..<hl_fan (hs_layers S) k]
     else b = last (hl_span (hs_layers S) (Suc k)) \<and> hv_size (sy_slots C) = hl_count (hs_layers S) (Suc k) \<and>
       (\<forall>j < hl_count (hs_layers S) (Suc k). hv_nth (sy_slots C) j =
          (if b \<le> j \<and> j < b + hl_fan (hs_layers S) k
           then ss_child (hl_at (hs_layers S) k (last (hl_free (hs_layers S) k))) (hl_size (hs_layers S) (Suc k))
             (last (hl_free (hs_layers S) k)) (j - b)
           else hl_at (hs_layers S) (Suc k) j)))"
proof -
  let ?Ls = "hs_layers S" and ?p = "last (hl_free (hs_layers S) k)"
  define A where "A = ?Ls ! k"
  define B where "B = ?Ls ! Suc k"
  obtain p Q where pop: "sy_popFreeSlot A = (p, Q)" by fastforce
  have ne': "hv_data (sy_free_list A) \<noteq> []" using ne by (simp add: hl_free_def A_def)
  note popE = sy_popFreeSlot_eq[OF ne', unfolded pop fst_conv snd_conv]
  obtain P C where sp: "hs_splitSlot Q B p = (P, C)" by fastforce
  have eq: "hs_splitAt k S = S\<lparr>hs_layers := ?Ls[k := P, Suc k := C]\<rparr>"
    using pop sp by (simp add: hs_splitAt_def A_def B_def hs_setLayer_def)
  have p: "p = ?p" using popE(1) by (simp add: hl_free_def A_def)
  have fan: "sy_slot_size A div sy_slot_size B = hl_fan ?Ls k" by (simp add: hl_fan_def hl_size_def A_def B_def)
  let ?b = "if hv_data (sy_span_free_list B) = [] then hs_u32 (hv_size (sy_slots B)) else last (hv_data (sy_span_free_list B))"
  let ?B = "B\<lparr>sy_span_free_list := hv_resize (sy_span_free_list B) (hv_size (sy_span_free_list B) - 1) 0\<rparr>"
  have C: "C = (if hv_data (sy_span_free_list B) = []
        then sy_appendSpan (hv_nth (sy_slots A) p) p ?b (hl_fan ?Ls k) B
        else sy_reuseSpan (hv_nth (sy_slots A) p) p ?b (hl_fan ?Ls k) ?B)" and
    P: "P = sy_updateSlot p (ss_markSplit ?b) Q"
    using sp popE(2,3) fan
    by (auto simp: hs_splitSlot_def Let_def hv_isEmpty_def hv_size_def hv_nth_def last_conv_nth split: if_splits)
  have cut: "hv_data (sy_span_free_list ?B) = butlast (hv_data (sy_span_free_list B))" if "hv_data (sy_span_free_list B) \<noteq> []"
    using that by (simp add: hv_size_def butlast_conv_take)
  have Peq: "sy_slot_size P = hl_size ?Ls k" "hv_size (sy_slots P) = hl_count ?Ls k"
    "hv_data (sy_free_list P) = butlast (hl_free ?Ls k)" "hv_data (sy_span_free_list P) = hl_span ?Ls k"
    "\<And>j. j < hl_count ?Ls k \<Longrightarrow> hv_nth (sy_slots P) j = (if j = ?p then ss_markSplit ?b (hl_at ?Ls k j) else hl_at ?Ls k j)"
    using popE p by (simp_all add: P hl_size_def hl_count_def hl_free_def hl_span_def hl_at_def A_def)
  have Ceq: "sy_slot_size C = hl_size ?Ls (Suc k)" "hv_data (sy_span_free_list C) = butlast (hl_span ?Ls (Suc k))"
    "hv_data (sy_free_list C) = hl_free ?Ls (Suc k) @ map (\<lambda>i. hs_u32 (?b + i)) [0..<hl_fan ?Ls k]"
    using cut by (auto simp: C sy_appendSpan_eq sy_reuseSpan_eq hl_size_def hl_span_def hl_free_def B_def)
  have slots: "if hl_span ?Ls (Suc k) = []
     then ?b = hs_u32 (hl_count ?Ls (Suc k)) \<and>
       hv_data (sy_slots C) = hv_data (sy_slots (?Ls ! Suc k)) @
         map (ss_child (hl_at ?Ls k ?p) (hl_size ?Ls (Suc k)) ?p) [0..<hl_fan ?Ls k]
     else ?b = last (hl_span ?Ls (Suc k)) \<and> hv_size (sy_slots C) = hl_count ?Ls (Suc k) \<and>
       (\<forall>j < hl_count ?Ls (Suc k). hv_nth (sy_slots C) j =
          (if ?b \<le> j \<and> j < ?b + hl_fan ?Ls k then ss_child (hl_at ?Ls k ?p) (hl_size ?Ls (Suc k)) ?p (j - ?b)
           else hl_at ?Ls (Suc k) j))"
    using p by (auto simp: C sy_appendSpan_eq sy_reuseSpan_eq hl_size_def hl_span_def hl_count_def hl_at_def A_def B_def)
  show ?thesis
    by (rule exI[of _ P], rule exI[of _ C], rule exI[of _ ?b]) (use eq Peq Ceq slots in simp)
qed

text \<open>The splitting round is a split of the forest, as long as slot indices fit into 32 bits.\<close>

lemma hs_splitAt_splitting:
  assumes ok: "hi_ok R (hs_layers S)" and ne: "hl_free (hs_layers S) k \<noteq> []" and k: "Suc k < length (hs_layers S)"
    and small: "hl_count (hs_layers (hs_splitAt k S)) (Suc k) < 2 ^ 32"
  shows "\<exists>b. hp_splitting R (hs_layers S) (hs_layers (hs_splitAt k S)) k (last (hl_free (hs_layers S) k)) b"
    "hs_splitAt k S = S\<lparr>hs_layers := hs_layers (hs_splitAt k S)\<rparr>"
proof -
  let ?Ls = "hs_layers S" and ?p = "last (hl_free (hs_layers S) k)" and ?q = "hl_fan (hs_layers S) k"
  obtain P C b where eq: "hs_layers (hs_splitAt k S) = ?Ls[k := P, Suc k := C]" "hs_splitAt k S = S\<lparr>hs_layers := ?Ls[k := P, Suc k := C]\<rparr>"
    and P: "sy_slot_size P = hl_size ?Ls k" "hv_size (sy_slots P) = hl_count ?Ls k"
      "hv_data (sy_free_list P) = butlast (hl_free ?Ls k)" "hv_data (sy_span_free_list P) = hl_span ?Ls k"
      "\<forall>j < hl_count ?Ls k. hv_nth (sy_slots P) j = (if j = ?p then ss_markSplit b (hl_at ?Ls k j) else hl_at ?Ls k j)"
    and C: "sy_slot_size C = hl_size ?Ls (Suc k)" "hv_data (sy_span_free_list C) = butlast (hl_span ?Ls (Suc k))"
      "hv_data (sy_free_list C) = hl_free ?Ls (Suc k) @ map (\<lambda>i. hs_u32 (b + i)) [0..<?q]"
    and slots: "if hl_span ?Ls (Suc k) = []
     then b = hs_u32 (hl_count ?Ls (Suc k)) \<and>
       hv_data (sy_slots C) = hv_data (sy_slots (?Ls ! Suc k)) @ map (ss_child (hl_at ?Ls k ?p) (hl_size ?Ls (Suc k)) ?p) [0..<?q]
     else b = last (hl_span ?Ls (Suc k)) \<and> hv_size (sy_slots C) = hl_count ?Ls (Suc k) \<and>
       (\<forall>j < hl_count ?Ls (Suc k). hv_nth (sy_slots C) j =
          (if b \<le> j \<and> j < b + ?q then ss_child (hl_at ?Ls k ?p) (hl_size ?Ls (Suc k)) ?p (j - b) else hl_at ?Ls (Suc k) j))"
    using hs_splitAt_eq[OF ne k] by blast
  show "hs_splitAt k S = S\<lparr>hs_layers := hs_layers (hs_splitAt k S)\<rparr>" using eq by simp
  have k': "k < length ?Ls" using k by simp
  note upd = hl_update[OF k', of P] hl_update[of "Suc k" "?Ls[k := P]" C]
  have rd: "hl_size (hs_layers (hs_splitAt k S)) i = (if i = Suc k then sy_slot_size C else if i = k then sy_slot_size P else hl_size ?Ls i)"
    "hl_count (hs_layers (hs_splitAt k S)) i = (if i = Suc k then hv_size (sy_slots C) else if i = k then hv_size (sy_slots P) else hl_count ?Ls i)"
    "hl_at (hs_layers (hs_splitAt k S)) i j = (if i = Suc k then hv_nth (sy_slots C) j else if i = k then hv_nth (sy_slots P) j else hl_at ?Ls i j)"
    "hl_free (hs_layers (hs_splitAt k S)) i = (if i = Suc k then hv_data (sy_free_list C) else if i = k then hv_data (sy_free_list P) else hl_free ?Ls i)"
    "hl_span (hs_layers (hs_splitAt k S)) i = (if i = Suc k then hv_data (sy_span_free_list C) else if i = k then hv_data (sy_span_free_list P) else hl_span ?Ls i)"
    for i j
    using upd k by (simp_all add: eq(1))
  have cnt: "hv_size (sy_slots C) < 2 ^ 32" using small rd(2)[of "Suc k"] by simp
  have b: "(if hl_span ?Ls (Suc k) = [] then b = hl_count ?Ls (Suc k) else b = last (hl_span ?Ls (Suc k)))"
    and sizeC: "hv_size (sy_slots C) = max (hl_count ?Ls (Suc k)) (b + ?q)"
    and atC: "\<And>j. j < hv_size (sy_slots C) \<Longrightarrow> hv_nth (sy_slots C) j =
      (if b \<le> j \<and> j < b + ?q then ss_child (hl_at ?Ls k ?p) (hl_size ?Ls (Suc k)) ?p (j - b) else hl_at ?Ls (Suc k) j)"
  proof -
    have all: "(if hl_span ?Ls (Suc k) = [] then b = hl_count ?Ls (Suc k) else b = last (hl_span ?Ls (Suc k))) \<and>
        hv_size (sy_slots C) = max (hl_count ?Ls (Suc k)) (b + ?q) \<and>
        (\<forall>j < hv_size (sy_slots C). hv_nth (sy_slots C) j =
          (if b \<le> j \<and> j < b + ?q then ss_child (hl_at ?Ls k ?p) (hl_size ?Ls (Suc k)) ?p (j - b) else hl_at ?Ls (Suc k) j))"
    proof (cases "hl_span ?Ls (Suc k) = []")
      case True
      then have s: "b = hs_u32 (hl_count ?Ls (Suc k))" "hv_data (sy_slots C) = hv_data (sy_slots (?Ls ! Suc k)) @
          map (ss_child (hl_at ?Ls k ?p) (hl_size ?Ls (Suc k)) ?p) [0..<?q]" using slots by auto
      then have sz: "hv_size (sy_slots C) = hl_count ?Ls (Suc k) + ?q" by (simp add: hv_size_def hl_count_def)
      then have "b = hl_count ?Ls (Suc k)" using s(1) cnt hs_u32_id[of "hl_count ?Ls (Suc k)"] by simp
      then show ?thesis
        using True sz s(2) by (auto simp: hv_nth_def nth_append hl_count_def hl_at_def hv_size_def)
    next
      case False
      then have s: "b = last (hl_span ?Ls (Suc k))" "hv_size (sy_slots C) = hl_count ?Ls (Suc k)" using slots by auto
      have "b + ?q \<le> hl_count ?Ls (Suc k)" using hi_okD(11)[OF ok k, of b] s(1) False by simp
      then show ?thesis using False slots s by (auto simp: max_def)
    qed
    then show "(if hl_span ?Ls (Suc k) = [] then b = hl_count ?Ls (Suc k) else b = last (hl_span ?Ls (Suc k)))"
      "hv_size (sy_slots C) = max (hl_count ?Ls (Suc k)) (b + ?q)" by blast+
    show "\<And>j. j < hv_size (sy_slots C) \<Longrightarrow> hv_nth (sy_slots C) j =
      (if b \<le> j \<and> j < b + ?q then ss_child (hl_at ?Ls k ?p) (hl_size ?Ls (Suc k)) ?p (j - b) else hl_at ?Ls (Suc k) j)"
      using all by blast
  qed
  have span: "map (\<lambda>i. hs_u32 (b + i)) [0..<?q] = [b..<b + ?q]"
  proof (rule nth_equalityI)
    fix i assume "i < length (map (\<lambda>i. hs_u32 (b + i)) [0..<?q])"
    then have i: "i < ?q" by simp
    then have "b + i < 2 ^ 32" using cnt sizeC by simp
    then show "map (\<lambda>i. hs_u32 (b + i)) [0..<?q] ! i = [b..<b + ?q] ! i" using i by (simp add: hs_u32_id)
  qed simp
  have "hp_split ?Ls (hs_layers (hs_splitAt k S)) k ?p b"
    unfolding hp_split_def
  proof (intro conjI allI impI)
    show "length (hs_layers (hs_splitAt k S)) = length ?Ls" "Suc k < length ?Ls" using eq(1) k by simp_all
    fix i
    show "hl_size (hs_layers (hs_splitAt k S)) i = hl_size ?Ls i" using rd(1) P(1) C(1) by simp
    show "hl_count (hs_layers (hs_splitAt k S)) i = (if i = Suc k then max (hl_count ?Ls i) (b + ?q) else hl_count ?Ls i)"
      using rd(2) P(2) sizeC by simp
    show "hl_free (hs_layers (hs_splitAt k S)) i = (if i = k then butlast (hl_free ?Ls i)
        else if i = Suc k then hl_free ?Ls i @ [b..<b + ?q] else hl_free ?Ls i)"
      using rd(4) P(3) C(3) span by simp
    show "hl_span (hs_layers (hs_splitAt k S)) i = (if i = Suc k then butlast (hl_span ?Ls i) else hl_span ?Ls i)"
      using rd(5) P(4) C(2) by simp
    fix j assume i: "i < length ?Ls" and j: "j < hl_count (hs_layers (hs_splitAt k S)) i"
    show "hl_at (hs_layers (hs_splitAt k S)) i j = (if i = k \<and> j = ?p then ss_markSplit b (hl_at ?Ls k ?p)
         else if i = Suc k \<and> b \<le> j \<and> j < b + ?q then ss_child (hl_at ?Ls k ?p) (hl_size ?Ls (Suc k)) ?p (j - b)
         else hl_at ?Ls i j)"
    proof (cases "i = Suc k")
      case True
      then show ?thesis using rd(3)[of i j] atC[of j] j rd(2)[of i] by simp
    next
      case False
      then show ?thesis using rd(3)[of i j] P(2,5) j rd(2)[of i] by auto
    qed
  next
    show "if hl_span ?Ls (Suc k) = [] then b = hl_count ?Ls (Suc k) else b = last (hl_span ?Ls (Suc k))" by (rule b)
  qed
  with ok ne show "\<exists>b. hp_splitting R ?Ls (hs_layers (hs_splitAt k S)) k ?p b" by (auto simp: hp_splitting_def)
qed

section \<open>Readiness\<close>

lemma hp_split_ready:
  assumes sp: "hp_splitting R Ls Ls' k p b" and ready: "hi_ready Ls k"
  shows "hi_ready Ls' (Suc k)"
  unfolding hi_ready_def
proof (intro conjI allI impI)
  note d = hp_splitD[OF sp] and rd = hp_split_reads[OF sp] and ok = hp_splitD(1)[OF sp]
  have p: "p = last (hl_free Ls k)" using sp by (simp add: hp_splitting_def)
  have fr: "hl_free Ls' (Suc k) = hl_free Ls (Suc k) @ [b..<b + hl_fan Ls k]" using d(12)[of "Suc k"] by simp
  show "Suc k < length Ls'" using d(2,3) by simp
  show "hl_free Ls' (Suc k) \<noteq> []" using fr d(14) by simp
  have last: "last (hl_free Ls' (Suc k)) = b + hl_fan Ls k - 1" using fr d(14) by simp
  fix i r assume idle: "hi_idle Ls' i r"
  then have i: "Suc i < length Ls" "i < length Ls" "hl_split Ls' i r" by (auto simp: hi_idle_def d(2))
  have "i = k \<and> r = p"
  proof (rule ccontr)
    assume ne: "\<not> (i = k \<and> r = p)"
    then have o: "hl_split Ls i r" "hl_begin Ls' i r = hl_begin Ls i r" using rd(1,2)[OF i(2)] i(3) by auto
    have st: "hl_state Ls (Suc i) (hl_begin Ls i r + t) = SlotFree \<and> \<not> (Suc i = k \<and> hl_begin Ls i r + t = p)"
      if t: "t < hl_fan Ls i" for t
    proof -
      have "hl_state Ls' (Suc i) (hl_begin Ls i r + t) = SlotFree"
        using idle t o(2) by (simp add: hi_idle_def d(6))
      then show ?thesis using rd(5)[OF hl_live_child[OF ok i(2) o(1) t]] by (auto split: if_splits)
    qed
    then have "hi_idle Ls i r" using i(1) o(1) by (simp add: hi_idle_def)
    with ready p have h: "Suc i = k" "hl_begin Ls i r \<le> p" "p < hl_begin Ls i r + hl_fan Ls i"
      by (auto simp: hi_ready_def)
    then have "p - hl_begin Ls i r < hl_fan Ls i" "hl_begin Ls i r + (p - hl_begin Ls i r) = p" by auto
    with st[of "p - hl_begin Ls i r"] h(1) show False by simp
  qed
  moreover from this have "hl_begin Ls' i r = b" using rd(2)[OF i(2,3)] by simp
  ultimately show "Suc i = Suc k" "hl_begin Ls' i r \<le> last (hl_free Ls' (Suc k))"
    "last (hl_free Ls' (Suc k)) < hl_begin Ls' i r + hl_fan Ls' i"
    using last d(14) by (simp_all add: d(6))
qed

text \<open>The child of an idle slot, and which marks make slots idle.\<close>

lemma hi_idle_mark:
  assumes ok: "hi_ok R Ls" and m: "hp_mark Ls Ls' k p st" and live: "hl_live Ls k p" "hl_state Ls k p \<noteq> SlotSplit"
    and st: "st \<noteq> SlotSplit" and idle: "hi_idle Ls' i r"
  shows "hl_split Ls i r" "hl_begin Ls' i r = hl_begin Ls i r" "Suc i < length Ls"
    "t < hl_fan Ls i \<Longrightarrow> Suc i = k \<Longrightarrow> hl_begin Ls i r + t = p \<Longrightarrow> st = SlotFree"
    "t < hl_fan Ls i \<Longrightarrow> \<not> (Suc i = k \<and> hl_begin Ls i r + t = p) \<Longrightarrow>
       hl_state Ls (Suc i) (hl_begin Ls i r + t) = SlotFree"
proof -
  note rd = hp_mark_reads[OF ok m live st]
  show i: "Suc i < length Ls" using idle by (simp add: hi_idle_def rd(1))
  show s: "hl_split Ls i r" using idle rd(7)[OF Suc_lessD[OF i], of r] by (simp add: hi_idle_def)
  show b: "hl_begin Ls' i r = hl_begin Ls i r" using rd(8)[OF Suc_lessD[OF i]] s by (simp add: hl_split_def)
  have "hl_state Ls' (Suc i) (hl_begin Ls i r + t) = SlotFree" if "t < hl_fan Ls i" for t
    using idle that b by (simp add: hi_idle_def rd(4))
  then have "(if Suc i = k \<and> hl_begin Ls i r + t = p then st else hl_state Ls (Suc i) (hl_begin Ls i r + t)) = SlotFree"
    if "t < hl_fan Ls i" for t
    using that rd(11)[OF hl_live_less[OF hl_live_child[OF ok Suc_lessD[OF i] s that]]] by simp
  then show "t < hl_fan Ls i \<Longrightarrow> Suc i = k \<Longrightarrow> hl_begin Ls i r + t = p \<Longrightarrow> st = SlotFree"
    "t < hl_fan Ls i \<Longrightarrow> \<not> (Suc i = k \<and> hl_begin Ls i r + t = p) \<Longrightarrow>
       hl_state Ls (Suc i) (hl_begin Ls i r + t) = SlotFree"
    by (metis (full_types))+
qed

lemma hp_take_merged:
  assumes ok: "hi_ok R Ls" and m: "hp_mark Ls Ls' k p SlotInUse" and ready: "hi_ready Ls k" and p: "p = last (hl_free Ls k)"
  shows "hi_merged Ls'"
  unfolding hi_merged_def
proof (intro allI notI)
  fix i r assume idle: "hi_idle Ls' i r"
  have k: "k < length Ls" "p \<in> set (hl_free Ls k)" using ready p by (auto simp: hi_ready_def)
  then have live: "hl_live Ls k p" "hl_state Ls k p \<noteq> SlotSplit" using hi_okD(15)[OF ok k(1), of p] by auto
  note h = hi_idle_mark[OF ok m live _ idle, simplified]
  have "hi_idle Ls i r" unfolding hi_idle_def
  proof (intro conjI allI impI)
    fix t assume t: "t < hl_fan Ls i"
    show "hl_state Ls (Suc i) (hl_begin Ls i r + t) = SlotFree"
      using h(4)[OF t] h(5)[OF t] by blast
  qed (use h in auto)
  with ready p have "Suc i = k" "hl_begin Ls i r \<le> p" "p < hl_begin Ls i r + hl_fan Ls i" by (auto simp: hi_ready_def)
  then have "p - hl_begin Ls i r < hl_fan Ls i" "hl_begin Ls i r + (p - hl_begin Ls i r) = p" by auto
  from h(4)[OF this(1) \<open>Suc i = k\<close> this(2)] show False by simp
qed

lemma hp_release_ready:
  assumes ok: "hi_ok R Ls" and m: "hp_mark Ls Ls' k p SlotFree" and live: "hl_live Ls k p" "hl_state Ls k p \<noteq> SlotSplit"
    and merged: "hi_merged Ls" and fr: "hl_free Ls' k = hl_free Ls k @ [p]"
  shows "hi_ready Ls' k"
  unfolding hi_ready_def
proof (intro conjI allI impI)
  show "k < length Ls'" using hl_live_less(1)[OF live(1)] m by (simp add: hp_mark_def)
  show "hl_free Ls' k \<noteq> []" using fr by simp
  fix i r assume idle: "hi_idle Ls' i r"
  note h = hi_idle_mark[OF ok m live _ idle, simplified]
  have "\<not> hi_idle Ls i r" using merged by (simp add: hi_merged_def)
  then obtain t where t: "t < hl_fan Ls i" "hl_state Ls (Suc i) (hl_begin Ls i r + t) \<noteq> SlotFree"
    using h(1,3) by (auto simp: hi_idle_def)
  with h(5)[OF t(1)] have "Suc i = k \<and> hl_begin Ls i r + t = p" by blast
  moreover have "hl_fan Ls' i = hl_fan Ls i" using m by (simp add: hp_mark_def hl_fan_def)
  ultimately show "Suc i = k" "hl_begin Ls' i r \<le> last (hl_free Ls' k)" "last (hl_free Ls' k) < hl_begin Ls' i r + hl_fan Ls' i"
    using t(1) h(2) fr by auto
qed

lemma hp_merge_ready:
  assumes ok: "hi_ok R Ls" and m: "hp_merge Ls Ls' k p" and idle: "hi_idle Ls k p" and ready: "hi_ready Ls (Suc k)"
  shows "hi_ready Ls' k"
  unfolding hi_ready_def
proof (intro conjI allI impI)
  note rd = hp_merge_reads[OF ok m idle]
  have k: "Suc k < length Ls" "k < length Ls" "hl_split Ls k p" using idle by (auto simp: hi_idle_def)
  show "k < length Ls'" using k rd(1) by simp
  have fr: "hl_free Ls' k = hl_free Ls k @ [p]" using rd(6)[of k] by simp
  then show "hl_free Ls' k \<noteq> []" by simp
  fix i r assume idle': "hi_idle Ls' i r"
  then have i: "Suc i < length Ls" "i < length Ls" "hl_split Ls' i r" by (auto simp: hi_idle_def rd(1))
  have s: "hl_split Ls i r" "\<not> (i = k \<and> r = p)" "hl_begin Ls' i r = hl_begin Ls i r" using rd(7,8)[OF i(2)] i(3) by auto
  have st: "hl_state Ls' (Suc i) (hl_begin Ls i r + t) = SlotFree" if "t < hl_fan Ls i" for t
    using idle' that s(3) by (simp add: hi_idle_def rd(4))
  have "Suc i = k \<and> hl_begin Ls i r \<le> p \<and> p < hl_begin Ls i r + hl_fan Ls i"
  proof (rule ccontr)
    assume out: "\<not> (Suc i = k \<and> hl_begin Ls i r \<le> p \<and> p < hl_begin Ls i r + hl_fan Ls i)"
    have "hl_state Ls (Suc i) (hl_begin Ls i r + t) = SlotFree" if t: "t < hl_fan Ls i" for t
      using st[OF t] rd(11)[OF hl_live_less[OF hl_live_child[OF ok i(2) s(1) t]]] out t by (auto split: if_splits)
    then have "hi_idle Ls i r" using i(1) s(1) by (simp add: hi_idle_def)
    with ready have h: "Suc i = Suc k" "hl_begin Ls i r \<le> last (hl_free Ls (Suc k))"
      "last (hl_free Ls (Suc k)) < hl_begin Ls i r + hl_fan Ls i" unfolding hi_ready_def by blast+
    from ready idle have g: "hl_begin Ls k p \<le> last (hl_free Ls (Suc k))"
      "last (hl_free Ls (Suc k)) < hl_begin Ls k p + hl_fan Ls k" unfolding hi_ready_def by blast+
    have ik: "i = k" using h(1) by simp
    have "hl_begin Ls k r = hl_begin Ls k p"
      using span_unique[OF hi_okD(5)[OF ok k(2) s(1)[unfolded ik]] hi_okD(5)[OF ok k(2,3)] h(2,3)[unfolded ik] g] .
    with hi_okD(7)[OF ok k(1) s(1)[unfolded ik] k(3)] s(2) ik show False by simp
  qed
  then show "Suc i = k" "hl_begin Ls' i r \<le> last (hl_free Ls' k)" "last (hl_free Ls' k) < hl_begin Ls' i r + hl_fan Ls' i"
    by (simp_all add: s(3) fr rd(4))
qed

section \<open>Merging upwards\<close>

lemma foldl_filter_push:
  "hv_data (foldl (\<lambda>v j. if Q j then hv_pushBack v j else v) v xs) = hv_data v @ filter Q xs"
  by (induction xs arbitrary: v) auto

lemma hs_mergeSpan_merge:
  assumes ok: "hi_ok R (hs_layers S)" and idle: "hi_idle (hs_layers S) k p"
  shows "hp_merge (hs_layers S) (hs_layers (hs_mergeSpan k p (hl_fan (hs_layers S) k) S)) k p"
    "hs_mergeSpan k p n S = S\<lparr>hs_layers := hs_layers (hs_mergeSpan k p n S)\<rparr>"
proof -
  let ?Ls = "hs_layers S" and ?q = "hl_fan (hs_layers S) k"
  have k: "Suc k < length ?Ls" "k < length ?Ls" "p < hl_count ?Ls k" using idle by (auto simp: hi_idle_def hl_split_def)
  show "hs_mergeSpan k p n S = S\<lparr>hs_layers := hs_layers (hs_mergeSpan k p n S)\<rparr>"
    by (simp add: hs_mergeSpan_def Let_def hs_setLayer_def)
  define C where "C = (?Ls ! Suc k)\<lparr>sy_free_list := foldl (\<lambda>v j. if j < hl_begin ?Ls k p \<or> j \<ge> hl_begin ?Ls k p + ?q
      then hv_pushBack v j else v) hv_new (hv_data (sy_free_list (?Ls ! Suc k))),
    sy_span_free_list := hv_pushBack (sy_span_free_list (?Ls ! Suc k)) (hl_begin ?Ls k p)\<rparr>"
  define P where "P = (let L = sy_updateSlot p (\<lambda>s. (ss_markFree s)\<lparr>ss_child_begin := 0\<rparr>) (?Ls ! k)
    in L\<lparr>sy_free_list := hv_pushBack (sy_free_list L) p\<rparr>)"
  have eq: "hs_layers (hs_mergeSpan k p ?q S) = ?Ls[Suc k := C, k := P]"
    by (simp add: hs_mergeSpan_def Let_def hs_setLayer_def C_def P_def hl_at_def hl_fan_def)
  note upd = hl_update[OF k(1), of C] hl_update[of k "?Ls[Suc k := C]" P]
  have C: "sy_slot_size C = hl_size ?Ls (Suc k)" "sy_slots C = sy_slots (?Ls ! Suc k)"
    "hv_data (sy_free_list C) = filter (\<lambda>j. j < hl_begin ?Ls k p \<or> j \<ge> hl_begin ?Ls k p + ?q) (hl_free ?Ls (Suc k))"
    "hv_data (sy_span_free_list C) = hl_span ?Ls (Suc k) @ [hl_begin ?Ls k p]"
    by (simp_all add: C_def hl_size_def hl_free_def hl_span_def foldl_filter_push)
  have P: "sy_slot_size P = hl_size ?Ls k" "hv_size (sy_slots P) = hl_count ?Ls k"
    "hv_data (sy_free_list P) = hl_free ?Ls k @ [p]" "hv_data (sy_span_free_list P) = hl_span ?Ls k"
    "\<And>j. j < hl_count ?Ls k \<Longrightarrow> hv_nth (sy_slots P) j =
       (if j = p then (hl_at ?Ls k p)\<lparr>ss_state := SlotFree, ss_child_begin := 0\<rparr> else hl_at ?Ls k j)"
    by (simp_all add: P_def hl_size_def hl_free_def hl_span_def hl_count_def hl_at_def ss_markFree_def)
  let ?Ls' = "hs_layers (hs_mergeSpan k p ?q S)"
  have rd: "hl_size ?Ls' i = (if i = k then sy_slot_size P else if i = Suc k then sy_slot_size C else hl_size ?Ls i)"
    "hl_count ?Ls' i = (if i = k then hv_size (sy_slots P) else if i = Suc k then hv_size (sy_slots C) else hl_count ?Ls i)"
    "hl_at ?Ls' i j = (if i = k then hv_nth (sy_slots P) j else if i = Suc k then hv_nth (sy_slots C) j else hl_at ?Ls i j)"
    "hl_free ?Ls' i = (if i = k then hv_data (sy_free_list P) else if i = Suc k then hv_data (sy_free_list C) else hl_free ?Ls i)"
    "hl_span ?Ls' i = (if i = k then hv_data (sy_span_free_list P) else if i = Suc k then hv_data (sy_span_free_list C) else hl_span ?Ls i)"
    for i j
    using upd k by (simp_all add: eq)
  have Cs: "hv_size (sy_slots C) = hl_count ?Ls (Suc k)" "hv_nth (sy_slots C) j = hl_at ?Ls (Suc k) j" for j
    using C(2) by (simp_all add: hl_count_def hl_at_def)
  show "hp_merge ?Ls ?Ls' k p"
    unfolding hp_merge_def
  proof (intro conjI allI impI)
    show "length ?Ls' = length ?Ls" by (simp add: eq)
    fix i
    show "hl_size ?Ls' i = hl_size ?Ls i" "hl_count ?Ls' i = hl_count ?Ls i" using rd(1,2) C(1) Cs(1) P(1,2) by simp_all
    show "hl_free ?Ls' i = (if i = k then hl_free ?Ls i @ [p]
        else if i = Suc k then filter (\<lambda>j. j < hl_begin ?Ls k p \<or> j \<ge> hl_begin ?Ls k p + ?q) (hl_free ?Ls i)
        else hl_free ?Ls i)" using rd(4) C(3) P(3) by simp
    show "hl_span ?Ls' i = (if i = Suc k then hl_span ?Ls i @ [hl_begin ?Ls k p] else hl_span ?Ls i)"
      using rd(5) C(4) P(4) by simp
    fix j assume "j < hl_count ?Ls i"
    then show "hl_at ?Ls' i j = (if i = k \<and> j = p
        then (hl_at ?Ls k p)\<lparr>ss_state := SlotFree, ss_child_begin := 0\<rparr> else hl_at ?Ls i j)"
      by (cases "i = k") (simp_all add: rd(3) P(5) Cs(2))
  qed
qed

lemma hs_allSiblingsFree_iff:
  assumes "Suc k < length Ls" "hl_split Ls k p"
  shows "sy_allSiblingsFree (Ls ! Suc k) (hl_begin Ls k p) (hl_fan Ls k) \<longleftrightarrow> hi_idle Ls k p"
  using assms by (auto simp: sy_allSiblingsFree_def list_all_iff hi_idle_def hl_at_def)

lemma hi_ready_not_idle:
  assumes ok: "hi_ok R Ls" and ready: "hi_ready Ls (Suc k)" and j: "j = last (hl_free Ls (Suc k))"
    and p: "hl_split Ls k p" "hl_begin Ls k p \<le> j" "j < hl_begin Ls k p + hl_fan Ls k" and "\<not> hi_idle Ls k p"
  shows "hi_merged Ls"
  unfolding hi_merged_def
proof (intro allI notI)
  fix i r assume idle: "hi_idle Ls i r"
  with ready j have h: "Suc i = Suc k" "hl_begin Ls i r \<le> j" "j < hl_begin Ls i r + hl_fan Ls i" unfolding hi_ready_def by blast+
  have k: "Suc k < length Ls" "k < length Ls" using ready by (auto simp: hi_ready_def)
  have ik: "i = k" using h(1) by simp
  have r: "hl_split Ls k r" using idle ik by (simp add: hi_idle_def)
  have "hl_begin Ls k r = hl_begin Ls k p"
    using span_unique[OF hi_okD(5)[OF ok k(2) r] hi_okD(5)[OF ok k(2) p(1)] h(2,3)[unfolded ik] p(2,3)] .
  with hi_okD(7)[OF ok k(1) r p(1)] idle ik assms(7) show False by simp
qed

lemma hs_tryMergeUpward_ok:
  assumes "hi_ok R (hs_layers S)" "hi_small (hs_layers S)" "hi_ready (hs_layers S) k" "j = last (hl_free (hs_layers S) k)"
  shows "hi_ok R (hs_layers (hs_tryMergeUpward k j S)) \<and> hi_merged (hs_layers (hs_tryMergeUpward k j S)) \<and>
    hl_used (hs_layers (hs_tryMergeUpward k j S)) = hl_used (hs_layers S) \<and>
    length (hs_layers (hs_tryMergeUpward k j S)) = length (hs_layers S) \<and>
    (\<forall>i. hl_size (hs_layers (hs_tryMergeUpward k j S)) i = hl_size (hs_layers S) i \<and>
      hl_count (hs_layers (hs_tryMergeUpward k j S)) i = hl_count (hs_layers S) i) \<and>
    hs_tryMergeUpward k j S = S\<lparr>hs_layers := hs_layers (hs_tryMergeUpward k j S)\<rparr>"
  using assms
proof (induction k arbitrary: j S)
  case 0
  then have "hi_merged (hs_layers S)" by (auto simp: hi_merged_def hi_ready_def)
  with 0 show ?case by simp
next
  case (Suc k)
  let ?Ls = "hs_layers S"
  note ok = Suc.prems(1)
  have k: "Suc k < length ?Ls" "k < length ?Ls" "j \<in> set (hl_free ?Ls (Suc k))"
    using Suc.prems(3,4) by (auto simp: hi_ready_def)
  then have "hl_live ?Ls (Suc k) j" using hi_okD(15)[OF ok k(1), of j] by simp
  then obtain p where p: "hl_split ?Ls k p" "hl_begin ?Ls k p \<le> j" "j < hl_begin ?Ls k p + hl_fan ?Ls k"
    by (auto simp: hl_live_Suc)
  have "j - hl_begin ?Ls k p < hl_fan ?Ls k" "hl_begin ?Ls k p + (j - hl_begin ?Ls k p) = j" using p by auto
  then have par: "ss_parent_slot (hl_at ?Ls (Suc k) j) = p" using hi_okD(17)[OF ok k(1) p(1)] by metis
  have "p < hl_count ?Ls k" "hl_count ?Ls k < 2 ^ 32" using p(1) Suc.prems(2) k(2) by (auto simp: hl_split_def hi_small_def)
  then have ne: "p \<noteq> hs_kNoParent" by (simp add: hs_kNoParent_def)
  have st: "hl_state ?Ls k p = SlotSplit" using p(1) by (simp add: hl_split_def)
  have step: "hs_tryMergeUpward (Suc k) j S = (if \<not> hi_idle ?Ls k p then S
      else hs_tryMergeUpward k p (hs_mergeSpan k p (hl_fan ?Ls k) S))"
    using par ne st hs_allSiblingsFree_iff[OF k(1) p(1)]
    by (simp add: hs_slotAt_def hl_at_def[symmetric] hl_size_def[symmetric] hl_fan_def[symmetric] Let_def)
  show ?case
  proof (cases "hi_idle ?Ls k p")
    case False
    with hi_ready_not_idle[OF ok Suc.prems(3,4) p False] step Suc.prems show ?thesis by simp
  next
    case True
    let ?S = "hs_mergeSpan k p (hl_fan ?Ls k) S"
    note m = hs_mergeSpan_merge[OF ok True]
    note rd = hp_merge_reads[OF ok m(1) True] and mok = hp_merge_ok[OF ok m(1) True]
    have "hi_small (hs_layers ?S)" using Suc.prems(2) rd(1,3) by (simp add: hi_small_def)
    moreover have "hi_ready (hs_layers ?S) k" by (rule hp_merge_ready[OF ok m(1) True Suc.prems(3)])
    moreover have "p = last (hl_free (hs_layers ?S) k)" using rd(6)[of k] by simp
    ultimately have ih: "hi_ok R (hs_layers (hs_tryMergeUpward k p ?S)) \<and> hi_merged (hs_layers (hs_tryMergeUpward k p ?S)) \<and>
        hl_used (hs_layers (hs_tryMergeUpward k p ?S)) = hl_used (hs_layers ?S) \<and>
        length (hs_layers (hs_tryMergeUpward k p ?S)) = length (hs_layers ?S) \<and>
        (\<forall>i. hl_size (hs_layers (hs_tryMergeUpward k p ?S)) i = hl_size (hs_layers ?S) i \<and>
          hl_count (hs_layers (hs_tryMergeUpward k p ?S)) i = hl_count (hs_layers ?S) i) \<and>
        hs_tryMergeUpward k p ?S = ?S\<lparr>hs_layers := hs_layers (hs_tryMergeUpward k p ?S)\<rparr>"
      by (intro Suc.IH[OF mok(1)])
    have "hs_tryMergeUpward k p ?S = S\<lparr>hs_layers := hs_layers (hs_tryMergeUpward k p ?S)\<rparr>"
      using ih m(2)[of "hl_fan ?Ls k"] by (metis (no_types, lifting) hs_storage.surjective hs_storage.update_convs(3))
    then show ?thesis using ih mok(2) rd(1,2,3) step True by simp
  qed
qed

end
