(* ===== verification/HierarchicalRuns.thy ===== *)
theory HierarchicalRuns
  imports HierarchicalClients
begin

text \<open>
  Programs that allocate and return buffers with the hierarchical slot allocator
  (\<open>hierarchical_slot_storage.h\<close>, \<open>hierarchical_slot_single_ops.h\<close>) over heap operations that keep their
  contract, and what holds in every state they reach.
\<close>

section \<open>Splitting downwards and adding regions\<close>

lemma sy_appendSpan_size: "hv_size (sy_slots (sy_appendSpan P r b m C)) = hv_size (sy_slots C) + m"
  by (simp add: hv_size_def sy_appendSpan_eq)

lemma hs_splitAt_count:
  assumes k: "Suc k < length (hs_layers S)"
  shows "length (hs_layers (hs_splitAt k S)) = length (hs_layers S)"
    "hl_count (hs_layers S) i \<le> hl_count (hs_layers (hs_splitAt k S)) i"
proof -
  let ?Ls = "hs_layers S"
  obtain p Q where pop: "sy_popFreeSlot (?Ls ! k) = (p, Q)" by fastforce
  obtain P C where sp: "hs_splitSlot Q (?Ls ! Suc k) p = (P, C)" by fastforce
  have eq: "hs_layers (hs_splitAt k S) = ?Ls[k := P, Suc k := C]"
    using pop sp by (simp add: hs_splitAt_def hs_setLayer_def)
  then show "length (hs_layers (hs_splitAt k S)) = length ?Ls" by simp
  have Q: "sy_slots Q = sy_slots (?Ls ! k)" using pop by (auto simp: sy_popFreeSlot_def Let_def)
  have P: "hv_size (sy_slots P) = hl_count ?Ls k"
    using sp Q by (auto simp: hs_splitSlot_def Let_def hl_count_def split: if_splits)
  have C: "hl_count ?Ls (Suc k) \<le> hv_size (sy_slots C)"
    using sp by (auto simp: hs_splitSlot_def Let_def hl_count_def sy_reuseSpan_eq(3) sy_appendSpan_size split: if_splits)
  have k': "k < length ?Ls" using k by simp
  show "hl_count ?Ls i \<le> hl_count (hs_layers (hs_splitAt k S)) i"
    using hl_update(2)[OF k', of P] hl_update(2)[of "Suc k" "?Ls[k := P]" C] k P C by (simp add: eq)
qed

lemma hs_splitDown_count:
  assumes "\<forall>k \<in> set ks. Suc k < length (hs_layers S)"
  shows "length (hs_layers (hs_splitDown ks S)) = length (hs_layers S) \<and>
    hl_count (hs_layers S) i \<le> hl_count (hs_layers (hs_splitDown ks S)) i"
  using assms
proof (induction ks arbitrary: S)
  case (Cons k ks)
  have k: "Suc k < length (hs_layers S)" using Cons.prems by simp
  note s = hs_splitAt_count[OF k]
  have "\<forall>k \<in> set ks. Suc k < length (hs_layers (hs_splitAt k S))"
    using Cons.prems hs_splitAt_count(1) by (metis list.set_intros(2))
  then have "length (hs_layers (hs_splitDown ks (hs_splitAt k S))) = length (hs_layers (hs_splitAt k S)) \<and>
      hl_count (hs_layers (hs_splitAt k S)) i \<le> hl_count (hs_layers (hs_splitDown ks (hs_splitAt k S))) i"
    using Cons.IH[of "hs_splitAt k S"] Cons.prems s(1) by simp
  with s(1) s(2)[of i] show ?case by simp
qed simp

lemma hs_splitDown_ok:
  assumes "hi_ok R (hs_layers S)" "hi_ready (hs_layers S) a" "a \<le> t" "t < length (hs_layers S)"
    and "hi_small (hs_layers (hs_splitDown [a..<t] S))"
  shows "hi_ok R (hs_layers (hs_splitDown [a..<t] S)) \<and> hi_ready (hs_layers (hs_splitDown [a..<t] S)) t \<and>
    hl_used (hs_layers (hs_splitDown [a..<t] S)) = hl_used (hs_layers S) \<and>
    map sy_slot_size (hs_layers (hs_splitDown [a..<t] S)) = map sy_slot_size (hs_layers S) \<and>
    hs_splitDown [a..<t] S = S\<lparr>hs_layers := hs_layers (hs_splitDown [a..<t] S)\<rparr>"
  using assms
proof (induction "t - a" arbitrary: a S)
  case 0
  then show ?case by simp
next
  case (Suc d)
  let ?S = "hs_splitAt a S" and ?Ls = "hs_layers S"
  have at: "a < t" "Suc a < length ?Ls" "[a..<t] = a # [Suc a..<t]" using Suc(2,5,6) by (auto simp: upt_conv_Cons)
  have ne: "hl_free ?Ls a \<noteq> []" using Suc(4) by (simp add: hi_ready_def)
  have "\<forall>k \<in> set [Suc a..<t]. Suc k < length (hs_layers ?S)" using hs_splitAt_count(1)[OF at(2)] Suc(6) by auto
  note mono = hs_splitDown_count[OF this]
  have small: "hi_small (hs_layers ?S)"
    unfolding hi_small_def
  proof (intro allI impI)
    fix k assume k: "k < length (hs_layers ?S)"
    then have "hl_count (hs_layers (hs_splitDown [a..<t] S)) k < 2 ^ 32"
      using Suc(7) mono by (simp add: hi_small_def at(3))
    with mono[of k] show "hl_count (hs_layers ?S) k < 2 ^ 32" by (simp add: at(3))
  qed
  have "hl_count (hs_layers ?S) (Suc a) < 2 ^ 32" using small at(2) hs_splitAt_count(1)[OF at(2)] by (simp add: hi_small_def)
  note sp = hs_splitAt_splitting[OF Suc(3) ne at(2) this]
  obtain b where b: "hp_splitting R ?Ls (hs_layers ?S) a (last (hl_free ?Ls a)) b" using sp(1) by blast
  note ok = hp_split_ok[OF b]
  have ih: "hi_ok R (hs_layers (hs_splitDown [Suc a..<t] ?S)) \<and> hi_ready (hs_layers (hs_splitDown [Suc a..<t] ?S)) t \<and>
    hl_used (hs_layers (hs_splitDown [Suc a..<t] ?S)) = hl_used (hs_layers ?S) \<and>
    map sy_slot_size (hs_layers (hs_splitDown [Suc a..<t] ?S)) = map sy_slot_size (hs_layers ?S) \<and>
    hs_splitDown [Suc a..<t] ?S = ?S\<lparr>hs_layers := hs_layers (hs_splitDown [Suc a..<t] ?S)\<rparr>"
    using Suc(2,6,7) at by (intro Suc(1) ok(1) hp_split_ready[OF b Suc(4)]) (auto simp: hs_splitAt_count(1)[OF at(2)])
  have "map sy_slot_size (hs_layers ?S) = map sy_slot_size ?Ls"
    using hp_splitD(2,5)[OF b] by (intro nth_equalityI) (auto simp: hl_size_def)
  moreover have "hs_splitDown [a..<t] S = S\<lparr>hs_layers := hs_layers (hs_splitDown [a..<t] S)\<rparr>"
    using ih sp(2) unfolding at(3) by (metis (no_types, lifting) hs_storage.surjective hs_storage.update_convs(3) hs_splitDown.simps(2))
  ultimately show ?case using ih ok(2) by (simp add: at(3))
qed

lemma hs_carve_eq:
  assumes "0 < sy_slot_size root"
  shows "sy_slot_size (hs_carve base off (m * sy_slot_size root) root) = sy_slot_size root \<and>
    sy_span_free_list (hs_carve base off (m * sy_slot_size root) root) = sy_span_free_list root \<and>
    hv_data (sy_slots (hs_carve base off (m * sy_slot_size root) root)) = hv_data (sy_slots root) @
      map (\<lambda>t. ss_new\<lparr>ss_region := \<lparr>hr_data = base + off + t * sy_slot_size root, hr_size = sy_slot_size root\<rparr>,
        ss_state := SlotFree\<rparr>) [0..<m] \<and>
    hv_data (sy_free_list (hs_carve base off (m * sy_slot_size root) root)) = hv_data (sy_free_list root) @
      map (\<lambda>t. hs_u32 (hv_size (sy_slots root) + t)) [0..<m]"
  using assms
proof (induction m arbitrary: off root)
  case 0
  show ?case by (simp add: hs_carve.simps[of base off 0])
next
  case (Suc m)
  let ?z = "sy_slot_size root"
  define r where "r = root\<lparr>sy_slots := hv_emplaceBack (sy_slots root)
      (ss_new\<lparr>ss_region := \<lparr>hr_data = base + off, hr_size = ?z\<rparr>, ss_state := SlotFree\<rparr>),
    sy_free_list := hv_pushBack (sy_free_list root) (hs_u32 (hv_size (sy_slots root)))\<rparr>"
  have step: "hs_carve base off (Suc m * ?z) root = hs_carve base (off + ?z) (m * sy_slot_size r) r"
    using Suc.prems by (subst hs_carve.simps) (simp add: r_def Let_def)
  have "0 < sy_slot_size r" using Suc.prems by (simp add: r_def)
  note ih = Suc.IH[OF this, of "off + ?z"]
  have r: "sy_slot_size r = ?z" "sy_span_free_list r = sy_span_free_list root"
    "hv_data (sy_slots r) = hv_data (sy_slots root) @
       [ss_new\<lparr>ss_region := \<lparr>hr_data = base + off, hr_size = ?z\<rparr>, ss_state := SlotFree\<rparr>]"
    "hv_data (sy_free_list r) = hv_data (sy_free_list root) @ [hs_u32 (hv_size (sy_slots root))]"
    "hv_size (sy_slots r) = Suc (hv_size (sy_slots root))"
    by (simp_all add: r_def hv_size_def)
  have up: "map f [0..<Suc m] = f 0 # map (\<lambda>t. f (Suc t)) [0..<m]" for f :: "nat \<Rightarrow> 'b"
    by (simp only: upt_conv_Cons[OF zero_less_Suc] list.map map_Suc_upt[symmetric] map_map comp_def)
  have off: "base + (off + ?z) + t * ?z = base + off + Suc t * ?z" for t by simp
  show ?case
    unfolding step up using ih[unfolded r off] by (simp add: r(1))
qed

text \<open>The heap operations keep a set of reserved regions, and mapping hands out the region it is given.\<close>

definition heap_ops_ok :: "'s heap_ops \<Rightarrow> ('s \<Rightarrow> heap_region set) \<Rightarrow> bool" where
  "heap_ops_ok H res \<longleftrightarrow>
     (\<forall>n s. case ho_reserve H n s of
        (Inl e, s') \<Rightarrow> res s' = res s
      | (Inr g, s') \<Rightarrow> res s' = insert g (res s) \<and> hr_size g = n \<and>
          (\<forall>r \<in> res s. hr_range r \<inter> hr_range g = {})) \<and>
     (\<forall>g s. hr_data g \<noteq> 0 \<longrightarrow> (case ho_map H g s of
        (Inl e, s') \<Rightarrow> res s' = res s
      | (Inr v, s') \<Rightarrow> res s' = res s \<and> vw_base v \<noteq> 0 \<and> vw_data v = hr_data g \<and> vw_size v = hr_size g)) \<and>
     (\<forall>g n s. res (snd (ho_unmap H g n s)) = res s) \<and>
     (\<forall>s. \<forall>g \<in> res s. hr_data g \<noteq> 0)"

lemma heap_reserveD:
  assumes "heap_ops_ok H res"
  shows "ho_reserve H n s = (Inl e, s') \<Longrightarrow> res s' = res s"
    "ho_reserve H n s = (Inr g, s') \<Longrightarrow> res s' = insert g (res s) \<and> hr_size g = n \<and>
       (\<forall>r \<in> res s. hr_range r \<inter> hr_range g = {})"
proof -
  have law: "case ho_reserve H n s of (Inl e, s') \<Rightarrow> res s' = res s
      | (Inr g, s') \<Rightarrow> res s' = insert g (res s) \<and> hr_size g = n \<and>
          (\<forall>r \<in> res s. hr_range r \<inter> hr_range g = {})"
    using assms[unfolded heap_ops_ok_def, THEN conjunct1, THEN spec, THEN spec] .
  show "ho_reserve H n s = (Inl e, s') \<Longrightarrow> res s' = res s" using law by simp
  show "ho_reserve H n s = (Inr g, s') \<Longrightarrow> res s' = insert g (res s) \<and> hr_size g = n \<and>
       (\<forall>r \<in> res s. hr_range r \<inter> hr_range g = {})" using law by simp
qed

lemma heap_mapD:
  assumes "heap_ops_ok H res" "hr_data g \<noteq> 0"
  shows "ho_map H g s = (Inl e, s') \<Longrightarrow> res s' = res s"
    "ho_map H g s = (Inr v, s') \<Longrightarrow> res s' = res s \<and> vw_base v \<noteq> 0 \<and> vw_data v = hr_data g \<and> vw_size v = hr_size g"
proof -
  have law: "case ho_map H g s of (Inl e, s') \<Rightarrow> res s' = res s
      | (Inr v, s') \<Rightarrow> res s' = res s \<and> vw_base v \<noteq> 0 \<and> vw_data v = hr_data g \<and> vw_size v = hr_size g"
    using assms(1)[unfolded heap_ops_ok_def, THEN conjunct2, THEN conjunct1, THEN spec, THEN spec, THEN mp, OF assms(2)] .
  show "ho_map H g s = (Inl e, s') \<Longrightarrow> res s' = res s" using law by simp
  show "ho_map H g s = (Inr v, s') \<Longrightarrow> res s' = res s \<and> vw_base v \<noteq> 0 \<and> vw_data v = hr_data g \<and> vw_size v = hr_size g"
    using law by simp
qed

lemma heap_unmapD: "heap_ops_ok H res \<Longrightarrow> ho_unmap H g n s = (x, s') \<Longrightarrow> res s' = res s"
  unfolding heap_ops_ok_def by (metis snd_conv)

lemma heap_resD: "heap_ops_ok H res \<Longrightarrow> g \<in> res s \<Longrightarrow> hr_data g \<noteq> 0"
  unfolding heap_ops_ok_def by blast

lemma hs_carve_add:
  assumes k: "0 < length Ls" and size: "0 < hl_size Ls 0"
    and small: "hl_count (Ls[0 := hs_carve (hr_data g) 0 (m * hl_size Ls 0) (Ls ! 0)]) 0 < 2 ^ 32"
  shows "hp_add Ls (Ls[0 := hs_carve (hr_data g) 0 (m * hl_size Ls 0) (Ls ! 0)]) g m"
proof -
  let ?L = "hs_carve (hr_data g) 0 (m * hl_size Ls 0) (Ls ! 0)"
  note c = hs_carve_eq[of "Ls ! 0" "hr_data g" 0 m, folded hl_size_def, OF size]
  note upd = hl_update[OF k, of ?L]
  have cnt: "hv_size (sy_slots ?L) = hl_count Ls 0 + m" using c by (simp add: hv_size_def hl_count_def)
  have lt: "hl_count Ls 0 + m < 2 ^ 32" using small cnt upd(2)[of 0] by simp
  have free: "map (\<lambda>t. hs_u32 (hl_count Ls 0 + t)) [0..<m] = [hl_count Ls 0..<hl_count Ls 0 + m]"
    using lt by (intro nth_equalityI) (auto simp: hs_u32_id)
  show ?thesis
    unfolding hp_add_def
  proof (intro conjI allI impI)
    show "length (Ls[0 := ?L]) = length Ls" by simp
    fix i
    show "hl_size (Ls[0 := ?L]) i = hl_size Ls i" using upd(1) c by simp
    show "hl_count (Ls[0 := ?L]) i = (if i = 0 then hl_count Ls 0 + m else hl_count Ls i)" using upd(2) cnt by simp
    show "hl_free (Ls[0 := ?L]) i = (if i = 0 then hl_free Ls 0 @ [hl_count Ls 0..<hl_count Ls 0 + m] else hl_free Ls i)"
      using upd(4) c free by (simp add: hl_free_def hl_count_def)
    show "hl_span (Ls[0 := ?L]) i = hl_span Ls i" using upd(5) c by (simp add: hl_span_def)
    fix j assume "j < hl_count Ls i"
    then show "hl_at (Ls[0 := ?L]) i j = hl_at Ls i j"
      using upd(3)[of i j] c
      by (cases "i = 0") (simp_all add: hl_at_def hl_count_def hv_nth_def hv_size_def nth_append)
  next
    fix t assume t: "t < m"
    then show "hl_at (Ls[0 := ?L]) 0 (hl_count Ls 0 + t) =
        ss_new\<lparr>ss_region := \<lparr>hr_data = hr_data g + t * hl_size Ls 0, hr_size = hl_size Ls 0\<rparr>, ss_state := SlotFree\<rparr>"
      using upd(3)[of 0] c by (simp add: hl_count_def hv_nth_def hv_size_def nth_append hl_size_def)
  qed
qed

text \<open>The slots of a forest lie in the reserved regions, so none is at address 0.\<close>

lemma hl_live_region:
  assumes ok: "hi_ok R Ls" and live: "hl_live Ls k j"
  shows "ss_region (hl_at Ls k j) = \<lparr>hr_data = hl_data Ls k j, hr_size = hl_size Ls k\<rparr>"
proof (cases k)
  case 0
  then show ?thesis using hi_okD(18)[OF ok, of j] hl_live_less(2)[OF live] by simp
next
  case (Suc i)
  with live obtain p where i: "Suc i < length Ls" and p: "hl_split Ls i p" "hl_begin Ls i p \<le> j" "j < hl_begin Ls i p + hl_fan Ls i"
    by (auto simp: hl_live_Suc)
  have "j - hl_begin Ls i p < hl_fan Ls i" "hl_begin Ls i p + (j - hl_begin Ls i p) = j" using p by auto
  with hi_okD(16)[OF ok i p(1)] Suc show ?thesis by (metis heap_region.select_convs(1))
qed

lemma hl_live_data:
  assumes "hi_ok R Ls" "hl_live Ls k j" "\<And>g. g \<in> R \<Longrightarrow> hr_data g \<noteq> 0"
  shows "hl_data Ls k j \<noteq> 0"
proof -
  obtain g where g: "g \<in> R" "hl_range Ls k j \<subseteq> hr_range g" using hi_okD(20)[OF assms(1,2)] by blast
  have "hl_data Ls k j \<in> hl_range Ls k j"
    using hi_okD(2)[OF assms(1)] hl_live_less(1)[OF assms(2)] by (simp add: hl_range_def)
  with g have "hr_data g \<le> hl_data Ls k j" by (auto simp: hr_range_def)
  with assms(3)[OF g(1)] show ?thesis by simp
qed

section \<open>The operations on the storage\<close>

text \<open>Operations change neither the configuration nor the sizes of the layers.\<close>

definition hs_same :: "'s hs_storage \<Rightarrow> 's hs_storage \<Rightarrow> bool" where
  "hs_same S S' \<longleftrightarrow> hs_config S' = hs_config S \<and> hs_ops S' = hs_ops S \<and>
     map sy_slot_size (hs_layers S') = map sy_slot_size (hs_layers S)"

lemma hs_same_simps:
  "hs_same S S" "hs_same S S' \<Longrightarrow> hs_same S' S'' \<Longrightarrow> hs_same S S''"
  "hs_same S S' \<Longrightarrow> length (hs_layers S') = length (hs_layers S)"
  by (auto simp: hs_same_def dest: map_eq_imp_length_eq)

lemma map_size_eq:
  "length Ls' = length Ls \<Longrightarrow> (\<And>i. hl_size Ls' i = hl_size Ls i) \<Longrightarrow> map sy_slot_size Ls' = map sy_slot_size Ls"
  by (intro nth_equalityI) (auto simp: hl_size_def)

lemma hs_addRegion_ok:
  assumes law: "heap_ops_ok H res" and ops: "hs_ops S" and ok: "hi_ok (res (hs_world S)) (hs_layers S)"
    and d: "hl_size (hs_layers S) 0 dvd n" "0 < n" and call: "hs_addRegion H n S = (x, S')"
    and small: "hi_small (hs_layers S')"
  shows "hs_same S S'"
    "x = Inl e \<Longrightarrow> hs_layers S' = hs_layers S \<and> res (hs_world S') = res (hs_world S)"
    "x = Inr u \<Longrightarrow> hi_ok (res (hs_world S')) (hs_layers S') \<and> hl_used (hs_layers S') = hl_used (hs_layers S) \<and>
       (\<forall>i p. hi_idle (hs_layers S') i p \<longleftrightarrow> hi_idle (hs_layers S) i p) \<and> hl_free (hs_layers S') 0 \<noteq> []"
proof -
  let ?Ls = "hs_layers S"
  have ne: "0 < length ?Ls" "0 < hl_size ?Ls 0" using hi_okD(1,2)[OF ok] by blast+
  obtain m where m: "n = m * hl_size ?Ls 0" using d(1) by (metis dvd_def mult.commute)
  with d(2) have m0: "0 < m" by simp
  obtain y s where r: "ho_reserve H n (hs_world S) = (y, s)" by fastforce
  have "hs_same S S' \<and> (x = Inl e \<longrightarrow> hs_layers S' = ?Ls \<and> res (hs_world S') = res (hs_world S)) \<and>
    (x = Inr u \<longrightarrow> hi_ok (res (hs_world S')) (hs_layers S') \<and> hl_used (hs_layers S') = hl_used ?Ls \<and>
       (\<forall>i p. hi_idle (hs_layers S') i p \<longleftrightarrow> hi_idle ?Ls i p) \<and> hl_free (hs_layers S') 0 \<noteq> [])"
  proof (cases y)
    case (Inl err)
    then have "x = Inl err" "S' = S\<lparr>hs_world := s\<rparr>"
      using call r ops ne d(2) by (auto simp: hs_addRegion_def bindA_def hs_heap_def)
    then show ?thesis using heap_reserveD(1)[OF law r[unfolded Inl]] by (simp add: hs_same_def)
  next
    case (Inr g)
    have L: "hs_layers S' = ?Ls[0 := hs_carve (hr_data g) 0 n (?Ls ! 0)]" and
      S': "x = Inr ()" "hs_world S' = s" "hs_config S' = hs_config S" "hs_ops S' = hs_ops S"
      using call r ops ne d(2) Inr by (auto simp: hs_addRegion_def bindA_def hs_heap_def hs_setLayer_def)
    note g = heap_reserveD(2)[OF law r[unfolded Inr]]
    have "hl_count (?Ls[0 := hs_carve (hr_data g) 0 (m * hl_size ?Ls 0) (?Ls ! 0)]) 0 < 2 ^ 32"
      using small ne(1) unfolding hi_small_def L m by simp
    note a = hs_carve_add[OF ne this, folded m, folded L]
    have fr: "\<And>r. r \<in> res (hs_world S) \<Longrightarrow> hr_range r \<inter> hr_range g = {}" using g by blast
    have sz: "m * hl_size ?Ls 0 \<le> hr_size g" using g m by simp
    have idle: "\<forall>i p. hi_idle (hs_layers S') i p \<longleftrightarrow> hi_idle ?Ls i p" using hp_add_ok(3)[OF ok a sz fr] by blast
    have "hi_ok (res (hs_world S')) (hs_layers S')" using hp_add_ok(1)[OF ok a sz fr] g S'(2) by simp
    moreover have "hl_used (hs_layers S') = hl_used ?Ls" by (rule hp_add_ok(2)[OF ok a sz fr])
    moreover have "hl_free (hs_layers S') 0 \<noteq> []" using a m0 by (simp add: hp_add_def)
    moreover have "hs_same S S'" using a S'(3,4) map_size_eq[of "hs_layers S'" ?Ls] by (simp add: hs_same_def hp_add_def)
    ultimately show ?thesis using S'(1) idle by simp
  qed
  then show "hs_same S S'" "x = Inl e \<Longrightarrow> hs_layers S' = ?Ls \<and> res (hs_world S') = res (hs_world S)"
    "x = Inr u \<Longrightarrow> hi_ok (res (hs_world S')) (hs_layers S') \<and> hl_used (hs_layers S') = hl_used ?Ls \<and>
       (\<forall>i p. hi_idle (hs_layers S') i p \<longleftrightarrow> hi_idle ?Ls i p) \<and> hl_free (hs_layers S') 0 \<noteq> []"
    by blast+
qed

lemma hs_addRegion_length: "length (hs_layers (snd (hs_addRegion H n S))) = length (hs_layers S)"
  by (simp add: hs_addRegion_def Let_def bindA_def hs_heap_def hs_setLayer_def split: prod.split sum.split)

lemma hs_findParent_Some:
  "hs_findParentWithFreeSlot Ls t = Some p \<Longrightarrow> p < t \<and> hl_free Ls p \<noteq> []"
  by (induction t) (auto simp: sy_hasFreeSlot_def hv_isEmpty_def hl_free_def hv_size_def split: if_splits)

text \<open>What every state between two calls satisfies.\<close>

definition hs_good :: "('s \<Rightarrow> heap_region set) \<Rightarrow> 's hs_storage \<Rightarrow> bool" where
  "hs_good res S \<longleftrightarrow> hs_ops S \<and> hi_ok (res (hs_world S)) (hs_layers S) \<and> hi_small (hs_layers S) \<and> hi_merged (hs_layers S) \<and>
     hc_levels (hs_config S) = map sy_slot_size (hs_layers S) \<and> hl_size (hs_layers S) 0 dvd hc_expand_bytes (hs_config S) \<and>
     length (hs_layers S) < hs_kInvalidLayer"

lemma hi_merged_ready: "hi_merged Ls \<Longrightarrow> k < length Ls \<Longrightarrow> hl_free Ls k \<noteq> [] \<Longrightarrow> hi_ready Ls k"
  by (simp add: hi_ready_def hi_merged_def)

lemma hs_ensureSlotAvailable_ok:
  assumes law: "heap_ops_ok H res" and good: "hs_good res S" and t: "t < length (hs_layers S)"
    and call: "hs_ensureSlotAvailable H t S = (x, S')" and small: "hi_small (hs_layers S')"
  shows "hs_same S S'"
    "x = Inl e \<Longrightarrow> hs_layers S' = hs_layers S \<and> res (hs_world S') = res (hs_world S)"
    "x = Inr u \<Longrightarrow> hi_ok (res (hs_world S')) (hs_layers S') \<and> hl_used (hs_layers S') = hl_used (hs_layers S) \<and>
       hi_ready (hs_layers S') t"
proof -
  let ?Ls = "hs_layers S"
  have ok: "hi_ok (res (hs_world S)) ?Ls" and merged: "hi_merged ?Ls" and ops: "hs_ops S"
    using good by (auto simp: hs_good_def)
  have down: "hs_same A (hs_splitDown [a..<t] A) \<and> hs_world (hs_splitDown [a..<t] A) = hs_world A \<and>
      hi_ok R (hs_layers (hs_splitDown [a..<t] A)) \<and> hl_used (hs_layers (hs_splitDown [a..<t] A)) = hl_used (hs_layers A) \<and>
      hi_ready (hs_layers (hs_splitDown [a..<t] A)) t"
    if "hi_ok R (hs_layers A)" "hi_ready (hs_layers A) a" "a \<le> t" "t < length (hs_layers A)"
      "hi_small (hs_layers (hs_splitDown [a..<t] A))" for A :: "'a hs_storage" and a R
  proof -
    note s = hs_splitDown_ok[OF that]
    then have eq: "hs_splitDown [a..<t] A = A\<lparr>hs_layers := hs_layers (hs_splitDown [a..<t] A)\<rparr>" by blast
    show ?thesis using s arg_cong[OF eq, of hs_config] arg_cong[OF eq, of hs_ops] arg_cong[OF eq, of hs_world]
      by (simp add: hs_same_def)
  qed
  have "hs_same S S' \<and> (x = Inl e \<longrightarrow> hs_layers S' = ?Ls \<and> res (hs_world S') = res (hs_world S)) \<and>
    (x = Inr u \<longrightarrow> hi_ok (res (hs_world S')) (hs_layers S') \<and> hl_used (hs_layers S') = hl_used ?Ls \<and> hi_ready (hs_layers S') t)"
  proof (cases "sy_hasFreeSlot (?Ls ! t)")
    case True
    then have "hl_free ?Ls t \<noteq> []" by (auto simp: sy_hasFreeSlot_def hl_free_def hv_isEmpty_def hv_size_def)
    then show ?thesis using call True ok hi_merged_ready[OF merged t]
      by (simp add: hs_ensureSlotAvailable_def hs_same_simps(1))
  next
    case full: False
    show ?thesis
    proof (cases "hs_findParentWithFreeSlot ?Ls t")
      case (Some p)
      then have p: "p < t" "hl_free ?Ls p \<noteq> []" using hs_findParent_Some by blast+
      have S': "S' = hs_splitDown [p..<t] S" "x = Inr ()" using call full Some by (auto simp: hs_ensureSlotAvailable_def)
      show ?thesis
        using down[OF ok hi_merged_ready[OF merged _ p(2)], of] p(1) t small S' by simp
    next
      case None
      let ?n = "if hc_expand_bytes (hs_config S) = 0 then sy_slot_size (?Ls ! 0) else hc_expand_bytes (hs_config S)"
      obtain y A where a: "hs_addRegion H ?n S = (y, A)" by fastforce
      have d: "hl_size ?Ls 0 dvd ?n" "0 < ?n" using good hi_okD(1,2)[OF ok] by (auto simp: hs_good_def hl_size_def)
      have res: "(x, S') = (case y of Inl e \<Rightarrow> (Inl e, A) | Inr _ \<Rightarrow> (Inr (), hs_splitDown [0..<t] A))"
        using call full None a by (simp add: hs_ensureSlotAvailable_def bindA_def split: sum.splits)
      show ?thesis
      proof (cases y)
        case (Inl err)
        then show ?thesis using hs_addRegion_ok[OF law ops ok d a] small res by auto
      next
        case (Inr u')
        then have S': "S' = hs_splitDown [0..<t] A" "x = Inr ()" using res by auto
        have lenA: "length (hs_layers A) = length ?Ls"
          using hs_addRegion_length[of H ?n S] unfolding a by simp
        have "\<forall>k \<in> set [0..<t]. Suc k < length (hs_layers A)" using t lenA by auto
        note mono = hs_splitDown_count[OF this]
        have "hi_small (hs_layers A)"
          unfolding hi_small_def
        proof (intro allI impI)
          fix k assume "k < length (hs_layers A)"
          then have "hl_count (hs_layers S') k < 2 ^ 32" using small mono S'(1) by (simp add: hi_small_def)
          with mono[of k] S'(1) show "hl_count (hs_layers A) k < 2 ^ 32" by simp
        qed
        note add = hs_addRegion_ok[OF law ops ok d a this]
        have "hi_merged (hs_layers A)" using add(3)[OF Inr] merged by (simp add: hi_merged_def)
        then have "hi_ready (hs_layers A) 0"
          using add(3)[OF Inr] lenA t by (intro hi_merged_ready) auto
        from down[OF _ this, of "res (hs_world A)"] show ?thesis
          using add(3)[OF Inr] add(1) small S' lenA t hs_same_simps(2) by simp blast
      qed
    qed
  qed
  then show "hs_same S S'" "x = Inl e \<Longrightarrow> hs_layers S' = ?Ls \<and> res (hs_world S') = res (hs_world S)"
    "x = Inr u \<Longrightarrow> hi_ok (res (hs_world S')) (hs_layers S') \<and> hl_used (hs_layers S') = hl_used ?Ls \<and> hi_ready (hs_layers S') t"
    by blast+
qed

subsection \<open>Allocation\<close>

lemma hs_acquireSlot_mark:
  assumes "t < length (hs_layers S)" "hl_free (hs_layers S) t \<noteq> []" "hs_acquireSlot t S = (j, S')"
  shows "j = last (hl_free (hs_layers S) t)" "S' = S\<lparr>hs_layers := hs_layers S'\<rparr>"
    "hp_mark (hs_layers S) (hs_layers S') t j SlotInUse" "hl_free (hs_layers S') t = butlast (hl_free (hs_layers S) t)"
proof -
  let ?Ls = "hs_layers S"
  obtain q Q where pop: "sy_popFreeSlot (?Ls ! t) = (q, Q)" by fastforce
  have ne: "hv_data (sy_free_list (?Ls ! t)) \<noteq> []" using assms(2) by (simp add: hl_free_def)
  note Q = sy_popFreeSlot_eq[OF ne, unfolded pop fst_conv snd_conv]
  have j: "j = q" and S': "S' = S\<lparr>hs_layers := ?Ls[t := sy_updateSlot q ss_markInUse Q]\<rparr>"
    using assms(3) pop by (auto simp: hs_acquireSlot_def hs_setLayer_def)
  then show "j = last (hl_free ?Ls t)" "S' = S\<lparr>hs_layers := hs_layers S'\<rparr>" using Q(1) by (simp_all add: hl_free_def)
  let ?L = "sy_updateSlot q ss_markInUse Q"
  have L: "hs_layers S' = ?Ls[t := ?L]" using S' by simp
  note upd = hl_update[OF assms(1), of ?L]
  show "hl_free (hs_layers S') t = butlast (hl_free ?Ls t)" using upd(4) Q(5) by (simp add: L hl_free_def)
  show "hp_mark ?Ls (hs_layers S') t j SlotInUse"
    unfolding hp_mark_def L j
  proof (intro conjI allI impI)
    fix i j assume "j < hl_count ?Ls i"
    then show "hl_at (?Ls[t := ?L]) i j = (if i = t \<and> j = q then (hl_at ?Ls t q)\<lparr>ss_state := SlotInUse\<rparr> else hl_at ?Ls i j)"
      using upd(3)[of i j] Q(3) by (cases "i = t") (simp_all add: hl_at_def hl_count_def ss_markInUse_def)
  qed (use upd Q in \<open>simp_all add: hl_size_def hl_count_def hl_span_def\<close>)
qed

lemma hs_releaseSlot_mark:
  assumes "t < length (hs_layers S)"
  shows "hs_releaseSlot t j S = S\<lparr>hs_layers := hs_layers (hs_releaseSlot t j S)\<rparr>"
    "hp_mark (hs_layers S) (hs_layers (hs_releaseSlot t j S)) t j SlotFree"
    "hl_free (hs_layers (hs_releaseSlot t j S)) t = hl_free (hs_layers S) t @ [j]"
proof -
  let ?Ls = "hs_layers S"
  define L where "L = (let L = sy_updateSlot j ss_markFree (?Ls ! t) in L\<lparr>sy_free_list := hv_pushBack (sy_free_list L) j\<rparr>)"
  have eq: "hs_releaseSlot t j S = S\<lparr>hs_layers := ?Ls[t := L]\<rparr>" by (simp add: hs_releaseSlot_def hs_setLayer_def L_def Let_def)
  then show "hs_releaseSlot t j S = S\<lparr>hs_layers := hs_layers (hs_releaseSlot t j S)\<rparr>" by simp
  have Ls': "hs_layers (hs_releaseSlot t j S) = ?Ls[t := L]" using eq by simp
  note upd = hl_update[OF assms, of L]
  have L: "sy_slot_size L = hl_size ?Ls t" "hv_size (sy_slots L) = hl_count ?Ls t" "hv_data (sy_free_list L) = hl_free ?Ls t @ [j]"
    "hv_data (sy_span_free_list L) = hl_span ?Ls t"
    by (simp_all add: L_def hl_size_def hl_count_def hl_free_def hl_span_def)
  show "hl_free (hs_layers (hs_releaseSlot t j S)) t = hl_free ?Ls t @ [j]" using upd(4) L by (simp add: Ls')
  show "hp_mark ?Ls (hs_layers (hs_releaseSlot t j S)) t j SlotFree"
    unfolding hp_mark_def Ls'
  proof (intro conjI allI impI)
    fix i r assume "r < hl_count ?Ls i"
    then show "hl_at (?Ls[t := L]) i r = (if i = t \<and> r = j then (hl_at ?Ls t j)\<lparr>ss_state := SlotFree\<rparr> else hl_at ?Ls i r)"
      using upd(3)[of i r] by (cases "i = t") (simp_all add: hl_at_def hl_count_def ss_markFree_def L_def)
  qed (use upd L in simp_all)
qed

lemma hp_mark_small: "hp_mark Ls Ls' k p st \<Longrightarrow> hi_small Ls' \<longleftrightarrow> hi_small Ls"
  by (simp add: hp_mark_def hi_small_def)

lemma hp_mark_same:
  assumes "hp_mark (hs_layers S) (hs_layers S') k p st" "S' = S\<lparr>hs_layers := hs_layers S'\<rparr>"
  shows "hs_same S S'" "hs_world S' = hs_world S"
  using assms(1) map_size_eq[of "hs_layers S'" "hs_layers S"] arg_cong[OF assms(2), of hs_config]
    arg_cong[OF assms(2), of hs_ops] arg_cong[OF assms(2), of hs_world]
  by (simp_all add: hs_same_def hp_mark_def)

lemma hs_good_same:
  assumes "hs_good res S" "hs_same S S'" "hi_ok (res (hs_world S')) (hs_layers S')" "hi_small (hs_layers S')" "hi_merged (hs_layers S')"
  shows "hs_good res S'"
proof -
  have "0 < length (hs_layers S)" using assms(1) hi_okD(1) by (auto simp: hs_good_def)
  moreover have eq: "map sy_slot_size (hs_layers S') = map sy_slot_size (hs_layers S)" "length (hs_layers S') = length (hs_layers S)"
    using assms(2) hs_same_simps(3) by (auto simp: hs_same_def)
  ultimately have "hl_size (hs_layers S') 0 = hl_size (hs_layers S) 0"
    by (metis hl_size_def nth_map)
  then show ?thesis using assms eq by (simp add: hs_good_def hs_same_def)
qed

lemma hs_pickFrom_le:
  assumes "sorted_wrt (\<ge>) ls" "length ls + i < hs_kInvalidLayer"
  shows "hs_pickFrom ls n i best = (let m = length (takeWhile (\<lambda>l. n \<le> l) ls) in if m = 0 then best else i + m - 1)"
  using assms by (induction ls arbitrary: i best) (auto simp: Let_def)

text \<open>The layer that is picked is the last one whose slots are large enough.\<close>

lemma hs_pickLayer_fits:
  assumes "sorted_wrt (\<ge>) ls" "length ls < hs_kInvalidLayer" "t = hs_pickLayer ls n"
  shows "t = hs_kInvalidLayer \<longleftrightarrow> (\<forall>l \<in> set ls. l < n)"
    "t \<noteq> hs_kInvalidLayer \<Longrightarrow> t < length ls \<and> n \<le> ls ! t \<and> (\<forall>l \<in> set ls. n \<le> l \<longrightarrow> ls ! t \<le> l)"
proof -
  let ?m = "length (takeWhile (\<lambda>l. n \<le> l) ls)"
  have t: "t = (if ?m = 0 then hs_kInvalidLayer else ?m - 1)"
    using assms hs_pickFrom_le[of ls 0 n hs_kInvalidLayer] by (simp add: hs_pickLayer_def Let_def)
  have le: "?m \<le> length ls" by (rule length_takeWhile_le)
  have in_fits: "n \<le> ls ! i" if "i < ?m" for i
    using set_takeWhileD[OF nth_mem[OF that]] takeWhile_nth[OF that] by simp
  have out: "ls ! i < n" if "?m \<le> i" "i < length ls" for i
  proof -
    have "\<not> n \<le> ls ! ?m" using nth_length_takeWhile[of "\<lambda>l. n \<le> l" ls] that by simp
    moreover have "ls ! i \<le> ls ! ?m"
      using assms(1) that by (cases "i = ?m") (auto simp: sorted_wrt_iff_nth_less)
    ultimately show ?thesis by simp
  qed
  show "t = hs_kInvalidLayer \<longleftrightarrow> (\<forall>l \<in> set ls. l < n)"
  proof (cases "?m = 0")
    case True
    then show ?thesis using t out by (auto simp: in_set_conv_nth)
  next
    case False
    then have "t \<noteq> hs_kInvalidLayer" "n \<le> ls ! 0" "0 < length ls" using t le assms(2) in_fits[of 0] by auto
    then show ?thesis using nth_mem[of 0 ls] by (meson not_le)
  qed
  show "t < length ls \<and> n \<le> ls ! t \<and> (\<forall>l \<in> set ls. n \<le> l \<longrightarrow> ls ! t \<le> l)" if "t \<noteq> hs_kInvalidLayer"
  proof -
    from that t have tm: "t = ?m - 1" "0 < ?m" by (auto split: if_splits)
    have "ls ! t \<le> ls ! i" if "i < length ls" "n \<le> ls ! i" for i
    proof -
      have "i < ?m" using out[of i] that by (meson not_le)
      then have "i \<le> t" "t < length ls" using tm le by auto
      then show ?thesis using assms(1) by (cases "i = t") (auto simp: sorted_wrt_iff_nth_less)
    qed
    moreover have "t < length ls" using tm le by linarith
    moreover have "n \<le> ls ! t" using tm in_fits[of t] by simp
    ultimately show ?thesis by (auto simp: in_set_conv_nth)
  qed
qed

lemma hi_ok_sorted:
  assumes ok: "hi_ok R Ls"
  shows "sorted_wrt (\<ge>) (map sy_slot_size Ls)"
proof -
  have "hl_size Ls (k + d) \<le> hl_size Ls k" if "k + d < length Ls" for k d
    using that
  proof (induction d)
    case (Suc d)
    have "hl_size Ls (Suc (k + d)) \<le> hl_size Ls (k + d)"
      using hi_okD(2,3)[OF ok, of "k + d"] Suc.prems by (intro dvd_imp_le) auto
    with Suc show ?case by simp
  qed simp
  then have "hl_size Ls j \<le> hl_size Ls i" if "i < j" "j < length Ls" for i j
    using that by (metis le_add_diff_inverse less_imp_le)
  then show ?thesis by (auto simp: sorted_wrt_iff_nth_less hl_size_def)
qed

lemma hs_heap_world:
  "hs_heap m S = (x, S') \<Longrightarrow> hs_ops S \<Longrightarrow> \<exists>s. m (hs_world S) = (x, s) \<and> S' = S\<lparr>hs_world := s\<rparr>"
  by (auto simp: hs_heap_def split: prod.splits)

lemma hs_good_world:
  assumes "hs_good res S" "S' = S\<lparr>hs_world := s\<rparr>" "res s = res (hs_world S)"
  shows "hs_good res S'"
  using assms by (simp add: hs_good_def)

lemma hl_used_data_inj:
  assumes "hi_ok R Ls" "(a, m) \<in> hl_used Ls" "(a, m') \<in> hl_used Ls"
  shows "m = m'"
proof -
  have live: "hl_live Ls k j" if "k < length Ls" "j < hl_count Ls k" "hl_state Ls k j = SlotInUse" for k j
    using hi_okD(13)[OF assms(1) that(1,2)] that(3) by simp
  show ?thesis
    using assms(2,3) hl_used_inj[OF assms(1) live live] by (auto simp: hl_used_def)
qed

lemma hs_mapSlot_ok:
  assumes law: "heap_ops_ok H res" and good: "hs_good res S" and t: "t < length (hs_layers S)" "j < hl_count (hs_layers S) t"
    "hl_state (hs_layers S) t j = SlotInUse" and call: "hs_mapSlot H t j S = (x, S')"
  shows "hs_good res S'" "hs_layers S' = hs_layers S"
    "x = Inr v \<Longrightarrow> vw_base v \<noteq> 0 \<and> vw_data v = hl_data (hs_layers S) t j \<and> vw_size v = hl_size (hs_layers S) t"
proof -
  have ok: "hi_ok (res (hs_world S)) (hs_layers S)" and ops: "hs_ops S" using good by (auto simp: hs_good_def)
  have live: "hl_live (hs_layers S) t j" using hi_okD(13)[OF ok t(1,2)] t(3) by simp
  have g: "hr_data (ss_region (hs_slotAt S t j)) = hl_data (hs_layers S) t j" "hr_size (ss_region (hs_slotAt S t j)) = hl_size (hs_layers S) t"
    using arg_cong[OF hl_live_region[OF ok live], of hr_size] by (simp_all add: hs_slotAt_def hl_at_def)
  have nz: "hr_data (ss_region (hs_slotAt S t j)) \<noteq> 0"
    using hl_live_data[OF ok live heap_resD[OF law]] g by simp
  obtain s where s: "ho_map H (ss_region (hs_slotAt S t j)) (hs_world S) = (x, s)" "S' = S\<lparr>hs_world := s\<rparr>"
    using hs_heap_world[OF call[unfolded hs_mapSlot_def] ops] by blast
  have "res s = res (hs_world S)"
    using heap_mapD[OF law nz] s(1) by (cases x) blast+
  then show "hs_good res S'" using hs_good_world[OF good s(2)] by simp
  show "hs_layers S' = hs_layers S" using s(2) by simp
  show "x = Inr v \<Longrightarrow> vw_base v \<noteq> 0 \<and> vw_data v = hl_data (hs_layers S) t j \<and> vw_size v = hl_size (hs_layers S) t"
    using heap_mapD(2)[OF law nz] s(1) g by metis
qed

lemma hs_mapSlot_layers: "hs_layers (snd (hs_mapSlot H t j S)) = hs_layers S"
  by (simp add: hs_mapSlot_def hs_heap_def split: prod.split)

lemma hs_acquireSlot_count:
  "length (hs_layers (snd (hs_acquireSlot t S))) = length (hs_layers S)"
  "hl_count (hs_layers (snd (hs_acquireSlot t S))) i = hl_count (hs_layers S) i"
proof -
  obtain q Q where pop: "sy_popFreeSlot (hs_layers S ! t) = (q, Q)" by fastforce
  have Q: "sy_slots Q = sy_slots (hs_layers S ! t)" using pop by (auto simp: sy_popFreeSlot_def Let_def)
  have eq: "hs_layers (snd (hs_acquireSlot t S)) = (hs_layers S)[t := sy_updateSlot q ss_markInUse Q]"
    using pop by (simp add: hs_acquireSlot_def hs_setLayer_def)
  then show "length (hs_layers (snd (hs_acquireSlot t S))) = length (hs_layers S)" by simp
  show "hl_count (hs_layers (snd (hs_acquireSlot t S))) i = hl_count (hs_layers S) i"
    unfolding eq by (cases "t < length (hs_layers S)") (auto simp: hl_update(2) list_update_beyond, simp_all add: hl_count_def Q)
qed

lemma hs_allocate_ok:
  assumes law: "heap_ops_ok H res" and good: "hs_good res S" and call: "hs_allocate H n S = (x, S')"
    and small: "hi_small (hs_layers S')"
  shows "hs_good res S'" "hs_same S S'"
    "x = Inl e \<Longrightarrow> hl_used (hs_layers S) \<subseteq> hl_used (hs_layers S')"
    "x = Inr v \<Longrightarrow> vw_base v \<noteq> 0 \<and> hl_used (hs_layers S') = insert (vw_data v, vw_size v) (hl_used (hs_layers S)) \<and>
       (\<forall>m. (vw_data v, m) \<notin> hl_used (hs_layers S))"
    "x = Inr v \<Longrightarrow> vw_size v \<in> set (hc_levels (hs_config S)) \<and> n \<le> vw_size v \<and>
       (\<forall>l \<in> set (hc_levels (hs_config S)). n \<le> l \<longrightarrow> vw_size v \<le> l)"
proof -
  let ?Ls = "hs_layers S" and ?levels = "hc_levels (hs_config S)"
  define t where "t = hs_pickLayer ?levels n"
  have ok: "hi_ok (res (hs_world S)) ?Ls" and lv: "?levels = map sy_slot_size ?Ls" and len: "length ?Ls < hs_kInvalidLayer"
    using good by (auto simp: hs_good_def)
  have fits: "t \<noteq> hs_kInvalidLayer \<Longrightarrow> t < length ?Ls \<and> n \<le> ?levels ! t \<and> (\<forall>l \<in> set ?levels. n \<le> l \<longrightarrow> ?levels ! t \<le> l)"
    using hs_pickLayer_fits(2)[OF hi_ok_sorted[OF ok, folded lv] _ t_def] len arg_cong[OF lv, of length] by simp
  have in_levels: "t \<noteq> hs_kInvalidLayer \<Longrightarrow> ?levels ! t \<in> set ?levels" using fits by (auto simp: lv)
  have "hs_good res S' \<and> hs_same S S' \<and> (x = Inl e \<longrightarrow> hl_used ?Ls \<subseteq> hl_used (hs_layers S')) \<and>
    (x = Inr v \<longrightarrow> vw_base v \<noteq> 0 \<and> hl_used (hs_layers S') = insert (vw_data v, vw_size v) (hl_used ?Ls) \<and>
       (\<forall>m. (vw_data v, m) \<notin> hl_used ?Ls) \<and> vw_size v = ?levels ! t \<and> t \<noteq> hs_kInvalidLayer)"
  proof (cases "t = hs_kInvalidLayer")
    case True
    then show ?thesis using call good by (auto simp: hs_allocate_def t_def hs_same_simps(1))
  next
    case False
    with fits have t: "t < length ?Ls" by blast
    obtain y A where ens: "hs_ensureSlotAvailable H t S = (y, A)" by fastforce
    show ?thesis
    proof (cases y)
      case (Inl err)
      have "(x, S') = (Inl err, A)"
        using call ens False Inl by (simp add: hs_allocate_def t_def[symmetric] bindA_def)
      then have eq: "x = Inl err" "S' = A" by auto
      note e = hs_ensureSlotAvailable_ok[OF law good t ens small[unfolded eq]]
      have "hs_good res S'" using hs_good_same[OF good e(1)] e(2)[OF Inl] good eq by (simp add: hs_good_def)
      then show ?thesis using e(1,2) Inl eq by simp
    next
      case (Inr u)
      obtain j B where acq: "hs_acquireSlot t A = (j, B)" by fastforce
      have map: "hs_mapSlot H t j B = (x, S')"
        using call ens False Inr acq by (simp add: hs_allocate_def t_def[symmetric] bindA_def)
      have "hs_layers S' = hs_layers B" using hs_mapSlot_layers[of H t j B] map by simp
      then have smallA: "hi_small (hs_layers A)"
        using small hs_acquireSlot_count[of t A] by (simp add: hi_small_def acq)
      note e = hs_ensureSlotAvailable_ok[OF law good t ens smallA]
      have okA: "hi_ok (res (hs_world A)) (hs_layers A)" and usedA: "hl_used (hs_layers A) = hl_used ?Ls"
        and ready: "hi_ready (hs_layers A) t" using e(3)[OF Inr] by auto
      then have tA: "t < length (hs_layers A)" and free: "hl_free (hs_layers A) t \<noteq> []" by (auto simp: hi_ready_def)
      note m = hs_acquireSlot_mark[OF tA free acq]
      have "j \<in> set (hl_free (hs_layers A) t)" using m(1) free by simp
      then have live: "hl_live (hs_layers A) t j" "hl_state (hs_layers A) t j = SlotFree" using hi_okD(15)[OF okA tA] by auto
      then have ns: "hl_state (hs_layers A) t j \<noteq> SlotSplit" by simp
      have fr: "distinct (hl_free (hs_layers B) t)" "set (hl_free (hs_layers B) t) = set (hl_free (hs_layers A) t) - {j}"
        using set_butlast_distinct[OF free hi_okD(14)[OF okA tA]] hi_okD(14)[OF okA tA] m(1,4)
        by (auto simp: distinct_butlast)
      have sameB: "hs_same A B" "hs_world B = hs_world A" using hp_mark_same[OF m(3,2)] by auto
      have okB: "hi_ok (res (hs_world B)) (hs_layers B)"
        using hp_mark_ok[OF okA m(3) live(1) ns _ fr(1)] fr(2) sameB(2) by simp
      have goodB: "hs_good res B"
        using hs_good_same[OF good hs_same_simps(2)[OF e(1) sameB(1)] okB] hp_mark_small[OF m(3)] smallA
          hp_take_merged[OF okA m(3) ready m(1)] by simp
      have jB: "j < hl_count (hs_layers B) t" "hl_state (hs_layers B) t j = SlotInUse" "hl_data (hs_layers B) t j = hl_data (hs_layers A) t j"
        "hl_size (hs_layers B) t = hl_size (hs_layers A) t" "t < length (hs_layers B)"
        using m(3) hl_live_less[OF live(1)] by (simp_all add: hp_mark_def)
      note mp = hs_mapSlot_ok[OF law goodB jB(5,1,2) map]
      have used: "hl_used (hs_layers S') = insert (hl_data (hs_layers A) t j, hl_size (hs_layers A) t) (hl_used ?Ls)"
        using hp_mark_used(1)[OF okA m(3) live(1) ns] mp(2) usedA by simp
      have size: "hl_size (hs_layers A) t = ?levels ! t"
        using e(1) t tA by (metis hl_size_def hs_same_def lv nth_map)
      have new: "(hl_data (hs_layers A) t j, q) \<notin> hl_used ?Ls" for q
      proof
        assume "(hl_data (hs_layers A) t j, q) \<in> hl_used ?Ls"
        then obtain k i where k: "hl_data (hs_layers A) t j = hl_data (hs_layers A) k i" "k < length (hs_layers A)"
          "i < hl_count (hs_layers A) k" "hl_state (hs_layers A) k i = SlotInUse"
          unfolding usedA[symmetric] by (auto simp: hl_used_def)
        then have "hl_live (hs_layers A) k i" using hi_okD(13)[OF okA] by simp
        from hl_used_inj[OF okA live(1) this ns _ k(1)] k(4) live(2) show False by simp
      qed
      have "hs_same S S'" using hs_same_simps(2)[OF e(1) sameB(1)] map by (auto simp: hs_same_def hs_mapSlot_def hs_heap_def split: if_splits prod.splits)
      moreover have "vw_base v \<noteq> 0 \<and> (vw_data v, vw_size v) = (hl_data (hs_layers A) t j, hl_size (hs_layers A) t)" if "x = Inr v"
        using mp(3)[OF that] jB by simp
      ultimately show ?thesis using mp(1) used new size False by auto
    qed
  qed
  then show "hs_good res S'" "hs_same S S'" "x = Inl e \<Longrightarrow> hl_used ?Ls \<subseteq> hl_used (hs_layers S')"
    "x = Inr v \<Longrightarrow> vw_base v \<noteq> 0 \<and> hl_used (hs_layers S') = insert (vw_data v, vw_size v) (hl_used ?Ls) \<and>
       (\<forall>m. (vw_data v, m) \<notin> hl_used ?Ls)"
    "x = Inr v \<Longrightarrow> vw_size v \<in> set ?levels \<and> n \<le> vw_size v \<and> (\<forall>l \<in> set ?levels. n \<le> l \<longrightarrow> vw_size v \<le> l)"
    using fits in_levels by auto
qed

subsection \<open>Deallocation\<close>

lemma sy_findInUse_Some:
  "sy_findInUse L a = Some j \<Longrightarrow> j < hv_size (sy_slots L) \<and> ss_state (hv_nth (sy_slots L) j) = SlotInUse \<and>
     hr_data (ss_region (hv_nth (sy_slots L) j)) = a"
  by (auto simp: sy_findInUse_def find_Some_iff)

lemma sy_findInUse_None:
  "sy_findInUse L a = None \<longleftrightarrow> (\<forall>j < hv_size (sy_slots L). ss_state (hv_nth (sy_slots L) j) = SlotInUse \<longrightarrow>
     hr_data (ss_region (hv_nth (sy_slots L) j)) \<noteq> a)"
  by (auto simp: sy_findInUse_def find_None_iff)

lemma hs_findSlotFrom_hit:
  assumes "i < length Ls" "j < hl_count Ls i" "hl_state Ls i j = SlotInUse" "hl_data Ls i j = a"
  shows "\<exists>k r. hs_findSlotFrom n Ls a = (n + k, r) \<and> k < length Ls \<and> r < hl_count Ls k \<and> hl_state Ls k r = SlotInUse \<and>
    hl_data Ls k r = a"
  using assms
proof (induction Ls arbitrary: n i)
  case (Cons L Ls)
  show ?case
  proof (cases "sy_findInUse L a")
    case (Some r)
    then show ?thesis
      using sy_findInUse_Some[OF Some]
      by (intro exI[of _ 0] exI[of _ r]) (simp add: hl_count_def hl_at_def)
  next
    case None
    have "i \<noteq> 0"
    proof
      assume "i = 0"
      with Cons.prems have "j < hv_size (sy_slots L)" "ss_state (hv_nth (sy_slots L) j) = SlotInUse"
        "hr_data (ss_region (hv_nth (sy_slots L) j)) = a" by (simp_all add: hl_count_def hl_at_def)
      then show False using None unfolding sy_findInUse_None by blast
    qed
    then obtain i' where i': "i = Suc i'" by (cases i) auto
    have "i' < length Ls" "j < hl_count Ls i'" "hl_state Ls i' j = SlotInUse" "hl_data Ls i' j = a"
      using Cons.prems i' by (simp_all add: hl_count_def hl_at_def)
    from Cons.IH[OF this, of "n + 1"] obtain k r where "hs_findSlotFrom (n + 1) Ls a = (n + 1 + k, r)" "k < length Ls"
      "r < hl_count Ls k" "hl_state Ls k r = SlotInUse" "hl_data Ls k r = a" by blast
    then show ?thesis using None
      by (intro exI[of _ "Suc k"] exI[of _ r]) (simp add: hl_count_def hl_at_def)
  qed
qed simp

lemma hs_findSlot_used:
  assumes ok: "hi_ok R (hs_layers S)" and used: "(vw_data v, m) \<in> hl_used (hs_layers S)"
  shows "\<exists>k j. hs_findSlot v S = (k, j) \<and> k < length (hs_layers S) \<and> j < hl_count (hs_layers S) k \<and>
    hl_state (hs_layers S) k j = SlotInUse \<and> hl_data (hs_layers S) k j = vw_data v \<and> hl_size (hs_layers S) k = m"
proof -
  let ?Ls = "hs_layers S"
  from used obtain i r where i: "i < length ?Ls" "r < hl_count ?Ls i" "hl_state ?Ls i r = SlotInUse" "hl_data ?Ls i r = vw_data v"
    by (auto simp: hl_used_def)
  from hs_findSlotFrom_hit[OF this, of 0] obtain k j where k: "hs_findSlot v S = (k, j)" "k < length ?Ls" "j < hl_count ?Ls k"
    "hl_state ?Ls k j = SlotInUse" "hl_data ?Ls k j = vw_data v" by (auto simp: hs_findSlot_def)
  have "(vw_data v, hl_size ?Ls k) \<in> hl_used ?Ls" using hl_usedI[OF k(2-4)] k(5) by simp
  from hl_used_data_inj[OF ok this used] k show ?thesis by blast
qed

lemma hs_deallocate_ok:
  assumes law: "heap_ops_ok H res" and good: "hs_good res S" and v: "vw_base v \<noteq> 0" "(vw_data v, m) \<in> hl_used (hs_layers S)"
    and call: "hs_deallocate H v S = (x, S')"
  shows "hs_good res S'" "hs_same S S'" "x = Inl e \<Longrightarrow> hl_used (hs_layers S') = hl_used (hs_layers S)"
    "x = Inr u \<Longrightarrow> hl_used (hs_layers S') = hl_used (hs_layers S) - {(vw_data v, m)}"
proof -
  let ?Ls = "hs_layers S"
  have ok: "hi_ok (res (hs_world S)) ?Ls" and small: "hi_small ?Ls" and merged: "hi_merged ?Ls" and ops: "hs_ops S"
    and len: "length ?Ls < hs_kInvalidLayer"
    using good by (auto simp: hs_good_def)
  obtain k j where k: "hs_findSlot v S = (k, j)" "k < length ?Ls" "j < hl_count ?Ls k"
    "hl_state ?Ls k j = SlotInUse" "hl_data ?Ls k j = vw_data v" "hl_size ?Ls k = m" using hs_findSlot_used[OF ok v(2)] by blast
  have kv: "k \<noteq> hs_kInvalidLayer" using k(2) len by simp
  obtain y A where un: "hs_unmapSlot H k j S = (y, A)" by fastforce
  obtain s where s: "A = S\<lparr>hs_world := s\<rparr>" "res s = res (hs_world S)"
    using hs_heap_world[OF un[unfolded hs_unmapSlot_def] ops] heap_unmapD[OF law] by blast
  have goodA: "hs_good res A" by (rule hs_good_world[OF good s])
  have eq: "(x, S') = (case y of Inl e \<Rightarrow> (Inl e, A) | Inr _ \<Rightarrow> (Inr (), hs_tryMergeUpward k j (hs_releaseSlot k j A)))"
    using call v(1) k(1,4) kv un
    by (simp add: hs_deallocate_def vw_empty_def bindA_def hs_slotAt_def hl_at_def[symmetric] split: sum.splits)
  have "hs_good res S' \<and> hs_same S S' \<and> (x = Inl e \<longrightarrow> hl_used (hs_layers S') = hl_used ?Ls) \<and>
    (x = Inr u \<longrightarrow> hl_used (hs_layers S') = hl_used ?Ls - {(vw_data v, m)})"
  proof (cases y)
    case (Inl err)
    then show ?thesis using eq goodA s(1) by (simp add: hs_same_def)
  next
    case (Inr u')
    let ?B = "hs_releaseSlot k j A"
    have x: "x = Inr ()" "S' = hs_tryMergeUpward k j ?B" using eq Inr by auto
    have kA: "k < length (hs_layers A)" using k(2) s(1) by simp
    have okA: "hi_ok (res (hs_world A)) (hs_layers A)" and mergedA: "hi_merged (hs_layers A)" using goodA by (auto simp: hs_good_def)
    have live: "hl_live (hs_layers A) k j" "hl_state (hs_layers A) k j = SlotInUse"
      using hi_okD(13)[OF ok k(2,3)] k(4) s(1) by auto
    then have ns: "hl_state (hs_layers A) k j \<noteq> SlotSplit" by simp
    note m = hs_releaseSlot_mark[OF kA, of j]
    have nin: "j \<notin> set (hl_free (hs_layers A) k)" using hi_okD(15)[OF okA kA, of j] live(2) by simp
    then have fr: "distinct (hl_free (hs_layers ?B) k)" "set (hl_free (hs_layers ?B) k) = insert j (set (hl_free (hs_layers A) k))"
      using hi_okD(14)[OF okA kA] m(3) by auto
    have okB: "hi_ok (res (hs_world A)) (hs_layers ?B)"
      using hp_mark_ok[OF okA m(2) live(1) ns _ fr(1)] fr(2) by simp
    have usedB: "hl_used (hs_layers ?B) = hl_used ?Ls - {(vw_data v, hl_size ?Ls k)}"
      using hp_mark_used(2)[OF okA m(2) live(1) ns] s(1) k(5) by simp
    have readyB: "hi_ready (hs_layers ?B) k" by (rule hp_release_ready[OF okA m(2) live(1) ns mergedA m(3)])
    have smallB: "hi_small (hs_layers ?B)" using hp_mark_small[OF m(2)] small s(1) by simp
    have last: "j = last (hl_free (hs_layers ?B) k)" using m(3) by simp
    note t = hs_tryMergeUpward_ok[OF okB smallB readyB last, folded x(2)]
    have sB: "hs_same A ?B" "hs_world ?B = hs_world A" using hp_mark_same[OF m(2,1)] by auto
    have eqS: "S' = ?B\<lparr>hs_layers := hs_layers S'\<rparr>" using t by blast
    have sS: "hs_config S' = hs_config ?B" "hs_ops S' = hs_ops ?B" "hs_world S' = hs_world ?B"
      using arg_cong[OF eqS, of hs_config] arg_cong[OF eqS, of hs_ops] arg_cong[OF eqS, of hs_world] by simp_all
    have "hs_same ?B S'" using t sS map_size_eq[of "hs_layers S'" "hs_layers ?B"] by (simp add: hs_same_def)
    then have same: "hs_same S S'" using sB(1) s(1) by (simp add: hs_same_def)
    have "hi_small (hs_layers S')" using t smallB by (simp add: hi_small_def)
    then have "hs_good res S'" using t sS sB(2) by (intro hs_good_same[OF good same]) simp_all
    then show ?thesis using x(1) same t usedB k(6) by simp
  qed
  then show "hs_good res S'" "hs_same S S'" "x = Inl e \<Longrightarrow> hl_used (hs_layers S') = hl_used ?Ls"
    "x = Inr u \<Longrightarrow> hl_used (hs_layers S') = hl_used ?Ls - {(vw_data v, m)}"
    by blast+
qed

section \<open>Initialization\<close>

lemma hi_ok_new:
  assumes "0 < length ls" "\<And>k. k < length ls \<Longrightarrow> 0 < ls ! k" "\<And>k. Suc k < length ls \<Longrightarrow> ls ! Suc k dvd ls ! k"
  shows "hi_ok R (map sy_new ls)" "hl_used (map sy_new ls) = {}" "hi_merged (map sy_new ls)"
proof -
  have rd: "hl_size (map sy_new ls) k = ls ! k" "hl_count (map sy_new ls) k = 0" "hl_free (map sy_new ls) k = []"
    "hl_span (map sy_new ls) k = []" if "k < length ls" for k
    using that by (simp_all add: hl_size_def hl_count_def hl_free_def hl_span_def sy_new_def hv_size_def hv_new_def)
  have ns: "\<not> hl_split (map sy_new ls) k p" if "k < length ls" for k p using rd(2)[OF that] by (simp add: hl_split_def)
  have nl: "\<not> hl_live (map sy_new ls) k j" for k j using rd(2)[of k] by (auto simp: hl_live_def)
  show "hi_ok R (map sy_new ls)"
    unfolding hi_ok_def
  proof (intro conjI)
    show "hi_shape (map sy_new ls)" using assms rd(1) by (simp add: hi_shape_def)
    show "hi_spans (map sy_new ls)" using rd ns by (simp add: hi_spans_def)
    show "hi_lists (map sy_new ls)" using rd nl by (simp add: hi_lists_def)
    show "hi_tree (map sy_new ls)" using rd(2)[OF assms(1)] ns by (simp add: hi_tree_def)
    show "hi_apart (map sy_new ls)" "hi_inside R (map sy_new ls)" using nl by (simp_all add: hi_apart_def hi_inside_def)
  qed
  show "hl_used (map sy_new ls) = {}" using rd(2) by (auto simp: hl_used_def)
  show "hi_merged (map sy_new ls)" using ns by (auto simp: hi_merged_def hi_idle_def)
qed

lemma hs_validateFrom_ok:
  assumes "hs_validateFrom h p ls = Inr u"
  shows "\<forall>k < length ls. 0 < ls ! k" "\<forall>k. Suc k < length ls \<longrightarrow> ls ! Suc k dvd ls ! k"
    "ls \<noteq> [] \<longrightarrow> p = Some q \<longrightarrow> ls ! 0 dvd q"
proof -
  have "(\<forall>k < length ls. 0 < ls ! k) \<and> (\<forall>k. Suc k < length ls \<longrightarrow> ls ! Suc k dvd ls ! k) \<and>
      (\<forall>q. ls \<noteq> [] \<longrightarrow> p = Some q \<longrightarrow> ls ! 0 dvd q)"
    using assms
  proof (induction h p ls rule: hs_validateFrom.induct)
    case (2 h p l ls)
    have rest: "hs_validateFrom h (Some l) ls = Inr u" and l: "0 < l" and d: "\<forall>q. p = Some q \<longrightarrow> l dvd q"
      using "2.prems" by (auto split: option.splits if_splits)
    have ih: "(\<forall>k < length ls. 0 < ls ! k) \<and> (\<forall>k. Suc k < length ls \<longrightarrow> ls ! Suc k dvd ls ! k) \<and>
        (\<forall>q. ls \<noteq> [] \<longrightarrow> Some l = Some q \<longrightarrow> ls ! 0 dvd q)"
      using 2 rest by (auto split: option.splits if_splits)
    have "(l # ls) ! Suc k dvd (l # ls) ! k" if "Suc k < length (l # ls)" for k
      using ih that by (cases k) auto
    moreover have "0 < (l # ls) ! k" if "k < length (l # ls)" for k using ih l that by (cases k) auto
    ultimately show ?case using d by auto
  qed simp
  note all = this
  show "\<forall>k < length ls. 0 < ls ! k" using all by (rule conjunct1)
  show "\<forall>k. Suc k < length ls \<longrightarrow> ls ! Suc k dvd ls ! k" using all by simp
  show "ls \<noteq> [] \<longrightarrow> p = Some q \<longrightarrow> ls ! 0 dvd q" using all by simp
qed

lemma hs_initialize_ok:
  assumes law: "heap_ops_ok H res" and call: "hs_initialize H ops config (hs_new s) = (Inr u, S)"
    and small: "hi_small (hs_layers S)" and len: "length (hc_levels config) < hs_kInvalidLayer"
  shows "hs_good res S" "hl_used (hs_layers S) = {}" "hs_config S = config"
proof -
  let ?ls = "hc_levels config"
  let ?A = "(hs_new s)\<lparr>hs_config := config, hs_ops := True, hs_layers := map sy_new ?ls\<rparr>"
  let ?n = "if hc_initial_bytes config = 0 then ?ls ! 0 else hc_initial_bytes config"
  have c: "ops" "?ls \<noteq> []" "\<exists>u. hs_validateLevels ?ls (hc_threshold config) = Inr u"
    "hc_initial_bytes config mod (?ls ! 0) = 0" "hc_expand_bytes config mod (?ls ! 0) = 0"
    and add: "hs_addRegion H ?n ?A = (Inr u, S)"
    using call by (auto simp: hs_initialize_def bindA_def Let_def split: if_splits sum.splits)
  obtain w where "hs_validateFrom (hc_threshold config) None ?ls = Inr w"
    using c(3) by (auto simp: hs_validateLevels_def split: if_splits)
  note v = hs_validateFrom_ok[OF this]
  have l0: "0 < length ?ls" using c(2) by simp
  note new = hi_ok_new[OF l0]
  have ok: "hi_ok (res (hs_world ?A)) (hs_layers ?A)" using new(1) v by (simp add: hs_new_def)
  have sz: "hl_size (hs_layers ?A) 0 = ?ls ! 0" using l0 by (simp add: hl_size_def sy_new_def)
  have d: "hl_size (hs_layers ?A) 0 dvd ?n" "0 < ?n" using c(2,4) v(1) sz by (auto simp: mod_eq_0_iff_dvd)
  note a = hs_addRegion_ok[OF law _ ok d add small]
  have S: "hs_same ?A S" "hi_ok (res (hs_world S)) (hs_layers S)" "hl_used (hs_layers S) = hl_used (hs_layers ?A)"
    "\<forall>i p. hi_idle (hs_layers S) i p \<longleftrightarrow> hi_idle (hs_layers ?A) i p"
    using a(1) a(3)[OF _ refl] by simp_all
  have sizes: "map sy_slot_size (hs_layers S) = ?ls" and cfg: "hs_config S = config" "hs_ops S"
    using S(1) by (simp_all add: hs_same_def comp_def sy_new_def)
  have lenS: "length (hs_layers S) = length ?ls" using arg_cong[OF sizes, of length] by simp
  have "hl_size (hs_layers S) 0 = ?ls ! 0" using sizes l0 lenS by (metis hl_size_def nth_map)
  moreover have "hi_merged (hs_layers S)" using S(4) new(3) v by (simp add: hi_merged_def)
  ultimately show "hs_good res S" using S(2) small cfg sizes lenS len c(5)
    by (simp add: hs_good_def mod_eq_0_iff_dvd)
  show "hl_used (hs_layers S) = {}" using S(3) new(2) v by simp
  show "hs_config S = config" by (rule cfg)
qed

end
