(* ===== verification/HierarchicalHeaps.thy ===== *)
theory HierarchicalHeaps
  imports HierarchicalRuns
begin

text \<open>
  What the hierarchical slot allocator (\<open>hierarchical_slot_storage.h\<close>, \<open>hierarchical_slot_single_ops.h\<close>)
  guarantees its callers, over heap operations that keep their contract: programs, the properties, and a
  simple heap on which the witnesses are evaluated.
\<close>

section \<open>Programs\<close>

text \<open>
  A program initializes the storage, allocates buffers and returns buffers that it holds.  The flag says
  that no allocation has failed: a failed one may keep its slot.  Slot indices stay below \<open>2 ^ 32\<close>.
\<close>

inductive hs_run :: "'s heap_ops \<Rightarrow> 's hs_storage \<Rightarrow> buffer_view list \<Rightarrow> bool \<Rightarrow> bool" for H where
  run_start: "hs_initialize H True config (hs_new s) = (Inr (), S) \<Longrightarrow> hi_small (hs_layers S) \<Longrightarrow>
    length (hc_levels config) < hs_kInvalidLayer \<Longrightarrow> hs_run H S [] True"
| run_allocate: "hs_run H S held c \<Longrightarrow> hs_allocate H n S = (Inr v, S') \<Longrightarrow> hi_small (hs_layers S') \<Longrightarrow>
    hs_run H S' (v # held) c"
| run_allocate_fails: "hs_run H S held c \<Longrightarrow> hs_allocate H n S = (Inl e, S') \<Longrightarrow> hi_small (hs_layers S') \<Longrightarrow>
    hs_run H S' held False"
| run_deallocate: "hs_run H S held c \<Longrightarrow> v \<in> set held \<Longrightarrow> hs_deallocate H v S = (Inr (), S') \<Longrightarrow>
    hs_run H S' (remove1 v held) c"
| run_deallocate_fails: "hs_run H S held c \<Longrightarrow> v \<in> set held \<Longrightarrow> hs_deallocate H v S = (Inl e, S') \<Longrightarrow>
    hs_run H S' held c"

definition vw_key :: "buffer_view \<Rightarrow> nat \<times> nat" where
  "vw_key v = (vw_data v, vw_size v)"

definition vw_span :: "buffer_view \<Rightarrow> nat set" where
  "vw_span v = {vw_data v ..< vw_data v + vw_size v}"

definition hs_holds :: "'s hs_storage \<Rightarrow> buffer_view list \<Rightarrow> bool \<Rightarrow> bool" where
  "hs_holds S held c \<longleftrightarrow> distinct (map vw_data held) \<and> (\<forall>v \<in> set held. vw_base v \<noteq> 0) \<and>
     vw_key ` set held \<subseteq> hl_used (hs_layers S) \<and> (c \<longrightarrow> vw_key ` set held = hl_used (hs_layers S))"

text \<open>Every state that a program reaches satisfies the invariant, and its buffers are the slots in use.\<close>

lemma hs_run_good:
  assumes law: "heap_ops_ok H res" and run: "hs_run H S held c"
  shows "hs_good res S \<and> hs_holds S held c"
  using run
proof induction
  case (run_start config s S)
  from hs_initialize_ok[OF law run_start] show ?case by (simp add: hs_holds_def)
next
  case (run_allocate S held c n v S')
  then have good: "hs_good res S" and holds: "hs_holds S held c" by auto
  note a = hs_allocate_ok[OF law good run_allocate.hyps(2,3)]
  have "vw_data v \<notin> vw_data ` set held"
  proof
    assume "vw_data v \<in> vw_data ` set held"
    then obtain w where "w \<in> set held" "vw_data w = vw_data v" by auto
    with holds have "(vw_data v, vw_size w) \<in> hl_used (hs_layers S)" by (force simp: hs_holds_def vw_key_def)
    with a(4)[OF refl] show False by blast
  qed
  with a(1) a(4)[OF refl] holds show ?case by (auto simp: hs_holds_def vw_key_def)
next
  case (run_allocate_fails S held c n e S')
  then have good: "hs_good res S" and holds: "hs_holds S held c" by auto
  note a = hs_allocate_ok[OF law good run_allocate_fails.hyps(2,3)]
  from a(1) a(3)[OF refl] holds show ?case by (auto simp: hs_holds_def)
next
  case (run_deallocate S held c v S')
  then have good: "hs_good res S" and holds: "hs_holds S held c" by auto
  have d: "distinct (map vw_data held)" "distinct held" using holds by (auto simp: hs_holds_def distinct_map)
  have v: "vw_base v \<noteq> 0" "(vw_data v, vw_size v) \<in> hl_used (hs_layers S)"
    using holds run_deallocate.hyps(2) by (auto simp: hs_holds_def vw_key_def)
  note a = hs_deallocate_ok[OF law good v run_deallocate.hyps(3)]
  have others: "vw_key ` (set held - {v}) = vw_key ` set held - {vw_key v}"
  proof -
    have "vw_data w \<noteq> vw_data v" if "w \<in> set held" "w \<noteq> v" for w
      using d(1) that run_deallocate.hyps(2) by (auto simp: distinct_map dest: inj_onD)
    then show ?thesis by (auto simp: vw_key_def)
  qed
  have set': "set (remove1 v held) = set held - {v}" using d(2) by (rule set_remove1_eq)
  have keys: "vw_key ` set (remove1 v held) = vw_key ` set held - {vw_key v}" unfolding set' by (rule others)
  have used: "hl_used (hs_layers S') = hl_used (hs_layers S) - {vw_key v}" using a(4)[OF refl] by (simp add: vw_key_def)
  have "distinct (map vw_data (remove1 v held))"
    using d inj_on_diff[of vw_data "set held" "{v}"] by (simp add: distinct_map set' distinct_remove1)
  moreover have "\<forall>w \<in> set (remove1 v held). vw_base w \<noteq> 0" using holds unfolding set' hs_holds_def by blast
  moreover have "vw_key ` set held \<subseteq> hl_used (hs_layers S)" "c \<longrightarrow> vw_key ` set held = hl_used (hs_layers S)"
    using holds unfolding hs_holds_def by blast+
  ultimately show ?case
    unfolding hs_holds_def keys used using a(1) by blast
next
  case (run_deallocate_fails S held c v e S')
  then have good: "hs_good res S" and holds: "hs_holds S held c" by auto
  have v: "vw_base v \<noteq> 0" "(vw_data v, vw_size v) \<in> hl_used (hs_layers S)"
    using holds run_deallocate_fails.hyps(2) by (auto simp: hs_holds_def vw_key_def)
  note a = hs_deallocate_ok[OF law good v run_deallocate_fails.hyps(3)]
  from a(1) a(3)[OF refl] holds show ?case by (auto simp: hs_holds_def)
qed

text \<open>A program without failing calls as a list: allocations by size, returned buffers by view.\<close>

fun hs_script :: "'s heap_ops \<Rightarrow> (nat + buffer_view) list \<Rightarrow> 's hs_storage \<Rightarrow> buffer_view list \<Rightarrow>
    ('s hs_storage \<times> buffer_view list) option" where
  "hs_script H [] S held = Some (S, held)"
| "hs_script H (Inl n # cs) S held =
     (case hs_allocate H n S of
        (Inr v, S') \<Rightarrow> if hi_small (hs_layers S') then hs_script H cs S' (v # held) else None
      | (Inl e, S') \<Rightarrow> None)"
| "hs_script H (Inr v # cs) S held =
     (if v \<notin> set held then None
      else case hs_deallocate H v S of
        (Inr _, S') \<Rightarrow> hs_script H cs S' (remove1 v held)
      | (Inl e, S') \<Rightarrow> None)"

definition hs_exec :: "'s heap_ops \<Rightarrow> hs_config \<Rightarrow> 's \<Rightarrow> (nat + buffer_view) list \<Rightarrow>
    ('s hs_storage \<times> buffer_view list) option" where
  "hs_exec H config s cs =
     (case hs_initialize H True config (hs_new s) of
        (Inr _, S) \<Rightarrow> if hi_small (hs_layers S) \<and> length (hc_levels config) < hs_kInvalidLayer then hs_script H cs S [] else None
      | (Inl e, S) \<Rightarrow> None)"

lemma hs_script_run:
  "hs_run H S held True \<Longrightarrow> hs_script H cs S held = Some (S', held') \<Longrightarrow> hs_run H S' held' True"
proof (induction H cs S held rule: hs_script.induct)
  case (2 H n cs S held)
  then obtain v A where "hs_allocate H n S = (Inr v, A)" "hi_small (hs_layers A)" "hs_script H cs A (v # held) = Some (S', held')"
    by (auto split: prod.splits sum.splits if_splits)
  with 2 show ?case using run_allocate[OF 2(2)] by simp
next
  case (3 H v cs S held)
  then obtain A where "v \<in> set held" "hs_deallocate H v S = (Inr (), A)" "hs_script H cs A (remove1 v held) = Some (S', held')"
    by (auto split: prod.splits sum.splits if_splits)
  with 3 show ?case using run_deallocate[OF 3(2)] by simp
qed simp

lemma hs_exec_run: "hs_exec H config s cs = Some (S, held) \<Longrightarrow> hs_run H S held True"
  by (auto simp: hs_exec_def split: prod.splits sum.splits if_splits intro: hs_script_run run_start)

lemma hs_exec_held: "map_option snd (hs_exec H config s cs) = Some held \<Longrightarrow> \<exists>S. hs_run H S held True"
  by (auto intro: hs_exec_run)

lemma hi_small_code [code]: "hi_small Ls \<longleftrightarrow> list_all (\<lambda>L. hv_size (sy_slots L) < 2 ^ 32) Ls"
  by (simp add: hi_small_def hl_count_def list_all_length)

text \<open>A slot in use is live, so its range is inside a region and apart from other slots in use.\<close>

lemma hl_used_slot:
  assumes "hi_ok R Ls" "(a, m) \<in> hl_used Ls"
  shows "\<exists>k j. hl_live Ls k j \<and> hl_state Ls k j = SlotInUse \<and> hl_range Ls k j = {a ..< a + m} \<and> hl_data Ls k j = a"
proof -
  from assms(2) obtain k j where k: "a = hl_data Ls k j" "m = hl_size Ls k" "k < length Ls" "j < hl_count Ls k" "hl_state Ls k j = SlotInUse"
    by (auto simp: hl_used_def)
  then have "hl_live Ls k j" using hi_okD(13)[OF assms(1) k(3,4)] by simp
  with k show ?thesis by (intro exI[of _ k] exI[of _ j]) (simp add: hl_range_def)
qed

lemma hl_used_apart:
  assumes ok: "hi_ok R Ls" and u: "(a, m) \<in> hl_used Ls" "(b, n) \<in> hl_used Ls" and "a \<noteq> b"
  shows "{a ..< a + m} \<inter> {b ..< b + n} = {}"
proof -
  obtain k j where k: "hl_live Ls k j" "hl_state Ls k j = SlotInUse" "hl_range Ls k j = {a ..< a + m}" "hl_data Ls k j = a"
    using hl_used_slot[OF ok u(1)] by blast
  obtain k' j' where k': "hl_live Ls k' j'" "hl_state Ls k' j' = SlotInUse" "hl_range Ls k' j' = {b ..< b + n}" "hl_data Ls k' j' = b"
    using hl_used_slot[OF ok u(2)] by blast
  have "(k, j) \<noteq> (k', j')" using k(4) k'(4) assms(4) by auto
  with hi_okD(19)[OF ok k(1) _ k'(1)] k(2,3) k'(2,3) show ?thesis by simp
qed

text \<open>When no slot is in use, all slots have been merged into free root slots.\<close>

lemma hl_unused_root:
  assumes ok: "hi_ok R Ls" and merged: "hi_merged Ls" and none: "hl_used Ls = {}" and "k < length Ls"
  shows "\<not> hl_split Ls k p"
  using assms(4)
proof (induction "length Ls - k" arbitrary: k p rule: less_induct)
  case less
  show ?case
  proof
    assume split: "hl_split Ls k p"
    then have sk: "Suc k < length Ls" using hi_okD(4)[OF ok less(2)] by blast
    have "hl_state Ls (Suc k) (hl_begin Ls k p + i) = SlotFree" if i: "i < hl_fan Ls k" for i
    proof (cases "hl_state Ls (Suc k) (hl_begin Ls k p + i)")
      case SlotInUse
      note live = hl_live_less[OF hl_live_child[OF ok less(2) split i]]
      from hl_usedI[OF live SlotInUse] none show ?thesis by simp
    next
      case SlotSplit
      note live = hl_live_less[OF hl_live_child[OF ok less(2) split i]]
      from SlotSplit live have "hl_split Ls (Suc k) (hl_begin Ls k p + i)" by (simp add: hl_split_def)
      with less(1)[of "Suc k"] sk show ?thesis by simp
    qed
    then have "hi_idle Ls k p" using sk split by (simp add: hi_idle_def)
    with merged show False by (simp add: hi_merged_def)
  qed
qed

lemma hl_unused_free:
  assumes ok: "hi_ok R Ls" and merged: "hi_merged Ls" and none: "hl_used Ls = {}"
  shows "set (hl_free Ls 0) = {..<hl_count Ls 0}" "0 < k \<Longrightarrow> k < length Ls \<Longrightarrow> hl_free Ls k = []"
proof -
  note root = hl_unused_root[OF assms(1-3)]
  have n: "0 < length Ls" using hi_okD(1)[OF ok] .
  have "hl_live Ls 0 j \<and> hl_state Ls 0 j = SlotFree \<longleftrightarrow> j < hl_count Ls 0" for j
  proof
    assume j: "j < hl_count Ls 0"
    have "hl_state Ls 0 j \<noteq> SlotInUse" using hl_usedI[OF n j] none by auto
    moreover have "hl_state Ls 0 j \<noteq> SlotSplit" using root[OF n, of j] j by (simp add: hl_split_def)
    ultimately have "hl_state Ls 0 j = SlotFree" by (cases "hl_state Ls 0 j") auto
    with j n show "hl_live Ls 0 j \<and> hl_state Ls 0 j = SlotFree" by (simp add: hl_live_def)
  qed (simp add: hl_live_def)
  then show "set (hl_free Ls 0) = {..<hl_count Ls 0}" using hi_okD(15)[OF ok n] by (intro set_eqI) simp
  assume k: "0 < k" "k < length Ls"
  then obtain i where i: "k = Suc i" by (cases k) auto
  have "\<not> hl_live Ls k j" for j using root[of i] k i by (auto simp: hl_live_Suc)
  then have "set (hl_free Ls k) = {}" using hi_okD(15)[OF ok k(2)] by (intro set_eqI) simp
  then show "hl_free Ls k = []" by simp
qed

section \<open>The properties\<close>

text \<open>
  C4: over heap operations that keep their contract, the buffers that a program holds are pairwise
  disjoint and each lies inside a region that was reserved, whatever is allocated and returned in
  whatever order and whatever calls fail.
\<close>

theorem hs_no_overlap:
  assumes law: "heap_ops_ok H res" and run: "hs_run H S held c"
  shows "(\<forall>i j. i < j \<longrightarrow> j < length held \<longrightarrow> vw_span (held ! i) \<inter> vw_span (held ! j) = {}) \<and>
    (\<forall>v \<in> set held. \<exists>r \<in> res (hs_world S). vw_span v \<subseteq> hr_range r)"
proof (intro conjI allI impI ballI)
  have ok: "hi_ok (res (hs_world S)) (hs_layers S)" and holds: "hs_holds S held c"
    using hs_run_good[OF law run] by (auto simp: hs_good_def)
  have used: "(vw_data v, vw_size v) \<in> hl_used (hs_layers S)" if "v \<in> set held" for v
    using holds that by (auto simp: hs_holds_def vw_key_def)
  {
    fix i j :: nat assume ij: "i < j" "j < length held"
    then have "vw_data (held ! i) \<noteq> vw_data (held ! j)"
      using holds nth_eq_iff_index_eq[of "map vw_data held" i j] by (simp add: hs_holds_def)
    with ij show "vw_span (held ! i) \<inter> vw_span (held ! j) = {}"
      unfolding vw_span_def by (intro hl_used_apart[OF ok used used]) auto
  next
    fix v assume "v \<in> set held"
    from hl_used_slot[OF ok used[OF this]] obtain k j where "hl_live (hs_layers S) k j" "hl_range (hs_layers S) k j = vw_span v"
      by (auto simp: vw_span_def)
    with hi_okD(20)[OF ok, of k j] show "\<exists>r \<in> res (hs_world S). vw_span v \<subseteq> hr_range r" by simp
  }
qed

text \<open>
  C17: an allocation gets the smallest level that is large enough; and a request larger than every level
  fails with out of memory and changes nothing.
\<close>

theorem hs_allocate_fits:
  assumes law: "heap_ops_ok H res" and run: "hs_run H S held c"
    and call: "hs_allocate H n S = (x, S')" and small: "hi_small (hs_layers S')"
  shows "(case x of
      Inr v \<Rightarrow> vw_size v \<in> set (hc_levels (hs_config S)) \<and> n \<le> vw_size v \<and>
        (\<forall>l \<in> set (hc_levels (hs_config S)). n \<le> l \<longrightarrow> vw_size v \<le> l)
    | Inl e \<Rightarrow> (\<forall>l \<in> set (hc_levels (hs_config S)). l < n) \<longrightarrow> e = OrteafError OutOfMemory \<and> S' = S)"
proof (cases x)
  case (Inr v)
  have good: "hs_good res S" using hs_run_good[OF law run] by simp
  from hs_allocate_ok(5)[OF law good call small Inr] show ?thesis by (simp only: Inr sum.case) blast
next
  case (Inl e)
  have good: "hs_good res S" using hs_run_good[OF law run] by simp
  then have "hs_pickLayer (hc_levels (hs_config S)) n = hs_kInvalidLayer" if "\<forall>l \<in> set (hc_levels (hs_config S)). l < n"
    using hs_pickLayer_fits(1)[of "hc_levels (hs_config S)", OF _ _ refl, of n] hi_ok_sorted that
    by (auto simp: hs_good_def)
  with call Inl show ?thesis by (auto simp: hs_allocate_def throw_def)
qed

text \<open>
  C5: merging is complete.  When every buffer has been returned and no allocation has failed, all the
  memory is back in the root layer: every root slot is on the freelist of the root layer, and no other
  layer has a free slot left.
\<close>

theorem hs_coalesces:
  assumes law: "heap_ops_ok H res" and run: "hs_run H S [] True"
  shows "set (hv_data (sy_free_list (hs_layers S ! 0))) = {..<hv_size (sy_slots (hs_layers S ! 0))} \<and>
    distinct (hv_data (sy_free_list (hs_layers S ! 0))) \<and>
    (\<forall>k. 0 < k \<longrightarrow> k < length (hs_layers S) \<longrightarrow> hv_data (sy_free_list (hs_layers S ! k)) = [])"
proof -
  have ok: "hi_ok (res (hs_world S)) (hs_layers S)" and merged: "hi_merged (hs_layers S)" and none: "hl_used (hs_layers S) = {}"
    using hs_run_good[OF law run] by (auto simp: hs_good_def hs_holds_def)
  from hl_unused_free[OF ok merged none] hi_okD(14)[OF ok hi_okD(1)[OF ok]] show ?thesis
    by (simp add: hl_free_def hl_count_def)
qed

section \<open>Heap operations that keep their contract\<close>

text \<open>Regions one after the other; the state is the list of the regions.\<close>

definition bp_heap :: "heap_region list heap_ops" where
  "bp_heap = \<lparr>
     ho_reserve = (\<lambda>n rs. let g = \<lparr>hr_data = Suc (sum_list (map (\<lambda>r. hr_data r + hr_size r) rs)), hr_size = n\<rparr> in (Inr g, g # rs)),
     ho_map = (\<lambda>g rs. (Inr \<lparr>vw_base = hr_data g, vw_offset = 0, vw_size = hr_size g\<rparr>, rs)),
     ho_unmap = (\<lambda>g n rs. (Inr (), rs))\<rparr>"

definition bp_regions :: "heap_region list \<Rightarrow> heap_region set" where
  "bp_regions rs = {r \<in> set rs. hr_data r \<noteq> 0}"

lemma bp_heap_ok: "heap_ops_ok bp_heap bp_regions"
proof -
  have below: "hr_data r + hr_size r \<le> sum_list (map (\<lambda>r. hr_data r + hr_size r) rs)" if "r \<in> set rs" for r rs
    using that by (induction rs) auto
  have "hr_range r \<inter> {Suc (sum_list (map (\<lambda>r. hr_data r + hr_size r) rs)) ..< Suc (sum_list (map (\<lambda>r. hr_data r + hr_size r) rs)) + n} = {}"
    if "r \<in> set rs" for r rs n
    using below[OF that] by (auto simp: hr_range_def)
  then show ?thesis
    by (auto simp: heap_ops_ok_def bp_heap_def bp_regions_def vw_data_def hr_range_def Let_def)
qed

definition hs_twoLevels :: hs_config where
  "hs_twoLevels = \<lparr>hc_levels = [8192, 4096], hc_initial_bytes = 16384, hc_expand_bytes = 0, hc_threshold = 0\<rparr>"

text \<open>Two buffers of different levels, and a buffer that is returned.\<close>

lemma bp_two_buffers: "map_option snd (hs_exec bp_heap hs_twoLevels [] [Inl 3000, Inl 5000]) =
    Some [\<lparr>vw_base = 1, vw_offset = 0, vw_size = 8192\<rparr>, \<lparr>vw_base = 12289, vw_offset = 0, vw_size = 4096\<rparr>]"
  by code_simp

lemma bp_returned: "map_option snd (hs_exec bp_heap hs_twoLevels []
    [Inl 3000, Inl 5000, Inr \<lparr>vw_base = 12289, vw_offset = 0, vw_size = 4096\<rparr>, Inr \<lparr>vw_base = 1, vw_offset = 0, vw_size = 8192\<rparr>]) = Some []"
  by code_simp

theorem hs_no_overlap_witness:
  "\<exists>S v w. hs_run bp_heap S [v, w] True \<and> vw_size v = 8192 \<and> vw_size w = 4096 \<and> vw_span v \<inter> vw_span w = {}"
proof -
  let ?v = "\<lparr>vw_base = 1, vw_offset = 0, vw_size = 8192\<rparr>" and ?w = "\<lparr>vw_base = 12289, vw_offset = 0, vw_size = 4096\<rparr>"
  obtain S where run: "hs_run bp_heap S [?v, ?w] True" using hs_exec_held[OF bp_two_buffers] by blast
  have "0 < Suc 0 \<longrightarrow> Suc 0 < length [?v, ?w] \<longrightarrow> vw_span ([?v, ?w] ! 0) \<inter> vw_span ([?v, ?w] ! Suc 0) = {}"
    using hs_no_overlap[OF bp_heap_ok run] by blast
  with run show ?thesis by (intro exI[of _ S] exI[of _ ?v] exI[of _ ?w]) simp
qed

definition bp_full :: "heap_region list hs_storage" where
  "bp_full = fst (the (hs_exec bp_heap hs_twoLevels [] [Inl 3000, Inl 5000]))"

theorem hs_allocate_fits_witness:
  "fst (hs_allocate bp_heap 9000 bp_full) = throw OutOfMemory \<and> snd (hs_allocate bp_heap 9000 bp_full) = bp_full"
proof -
  obtain S held where e: "hs_exec bp_heap hs_twoLevels [] [Inl 3000, Inl 5000] = Some (S, held)"
    using bp_two_buffers by fastforce
  then have run: "hs_run bp_heap bp_full held True" using hs_exec_run[OF e] by (simp add: bp_full_def)
  obtain x S' where call: "hs_allocate bp_heap 9000 bp_full = (x, S')" by fastforce
  have e1: "isl (fst (hs_allocate bp_heap 9000 bp_full))" by code_simp
  have e2: "hi_small (hs_layers (snd (hs_allocate bp_heap 9000 bp_full)))" by code_simp
  have e3: "list_all (\<lambda>l. l < 9000) (hc_levels (hs_config bp_full))" by code_simp
  have small: "hi_small (hs_layers S')" using e2 call by simp
  obtain err where x: "x = Inl err" using e1 call by (cases x) auto
  show ?thesis
    using hs_allocate_fits[OF bp_heap_ok run call small] e3 by (simp add: call x throw_def list_all_iff)
qed

theorem hs_coalesces_witness:
  "\<exists>S. hs_run bp_heap S [] True \<and> distinct (hv_data (sy_free_list (hs_layers S ! 0))) \<and>
    set (hv_data (sy_free_list (hs_layers S ! 0))) = {..<hv_size (sy_slots (hs_layers S ! 0))}"
proof -
  obtain S where run: "hs_run bp_heap S [] True" using hs_exec_held[OF bp_returned] by blast
  from hs_coalesces[OF bp_heap_ok run] run show ?thesis by blast
qed

end
