(* ===== verification/CpuHeap.thy ===== *)
theory CpuHeap
  imports HierarchicalHeaps
begin

text \<open>
  The heap operations of the CPU, \<open>cpu/resource/cpu_heap_region.h\<close> and \<open>cpu/platform/cpu_heap_ops.cpp\<close>,
  and the hierarchical slot allocator over them.  The calls of the operating system are the argument
  \<open>os\<close>: \<open>mmap\<close> of anonymous memory at an address the system chooses, \<open>mprotect\<close> and \<open>munmap\<close>.
\<close>

section \<open>The operations\<close>

record 'o cpu_os =
  os_mmap :: "nat \<Rightarrow> 'o \<Rightarrow> nat option \<times> 'o"
  os_mprotect :: "nat \<Rightarrow> nat \<Rightarrow> 'o \<Rightarrow> bool \<times> 'o"
  os_munmap :: "nat \<Rightarrow> nat \<Rightarrow> 'o \<Rightarrow> bool \<times> 'o"

definition hr_empty :: "heap_region \<Rightarrow> bool" where
  "hr_empty r \<longleftrightarrow> hr_data r = 0 \<or> hr_size r = 0"

definition hr_contains :: "heap_region \<Rightarrow> heap_region \<Rightarrow> bool" where
  "hr_contains r other \<longleftrightarrow> (if hr_data r \<noteq> hr_data other then False else hr_size other \<le> hr_size r)"

definition co_reserve :: "'o cpu_os \<Rightarrow> nat \<Rightarrow> ('o, heap_region) act" where
  "co_reserve os n s =
     (if n = 0 then (Inr \<lparr>hr_data = 0, hr_size = 0\<rparr>, s)
      else case os_mmap os n s of
          (None, s') \<Rightarrow> (throw OutOfMemory, s')
        | (Some base, s') \<Rightarrow> (Inr \<lparr>hr_data = base, hr_size = n\<rparr>, s'))"

definition co_map :: "'o cpu_os \<Rightarrow> heap_region \<Rightarrow> ('o, buffer_view) act" where
  "co_map os region s =
     (if hr_empty region then (Inr vw_none, s)
      else case os_mprotect os (hr_data region) (hr_size region) s of
          (ok, s') \<Rightarrow>
            if \<not> ok then (throw OperationFailed, s')
            else (Inr \<lparr>vw_base = hr_data region, vw_offset = 0, vw_size = hr_size region\<rparr>, s'))"

definition co_unmap :: "'o cpu_os \<Rightarrow> heap_region \<Rightarrow> nat \<Rightarrow> ('o, unit) act" where
  "co_unmap os region n s =
     (if hr_empty region then (Inr (), s)
      else case os_munmap os (hr_data region) n s of
          (ok, s') \<Rightarrow> if \<not> ok then (throw OperationFailed, s') else (Inr (), s'))"

definition co_heap :: "'o cpu_os \<Rightarrow> 'o heap_ops" where
  "co_heap os = \<lparr>ho_reserve = co_reserve os, ho_map = co_map os, ho_unmap = co_unmap os\<rparr>"

section \<open>The operating system\<close>

text \<open>
  What the manual pages promise, in terms of the addresses that are mapped: a new mapping is at unused
  addresses, only mapped addresses can be made accessible, and unmapping gives addresses back.
\<close>

definition cpu_os_ok :: "'o cpu_os \<Rightarrow> ('o \<Rightarrow> nat set) \<Rightarrow> bool" where
  "cpu_os_ok os mapped \<longleftrightarrow>
     (\<forall>n s. case os_mmap os n s of
        (None, s') \<Rightarrow> mapped s' = mapped s
      | (Some a, s') \<Rightarrow> a \<noteq> 0 \<and> mapped s \<inter> {a ..< a + n} = {} \<and> mapped s \<union> {a ..< a + n} \<subseteq> mapped s') \<and>
     (\<forall>a n s. case os_mprotect os a n s of
        (ok, s') \<Rightarrow> mapped s' = mapped s \<and> (ok \<longrightarrow> {a ..< a + n} \<subseteq> mapped s)) \<and>
     (\<forall>a n s. case os_munmap os a n s of
        (ok, s') \<Rightarrow> mapped s' \<subseteq> mapped s \<and> (if ok then mapped s' \<inter> {a ..< a + n} = {} else mapped s' = mapped s))"

text \<open>Pages of 4096 bytes, numbers 16 to 63; a new mapping takes the lowest pages that fit.\<close>

definition pg_of :: "nat \<Rightarrow> nat \<Rightarrow> nat list" where
  "pg_of a n = [a div 4096 ..< (a + n + 4095) div 4096]"

definition pg_os :: "nat list cpu_os" where
  "pg_os = \<lparr>
     os_mmap = (\<lambda>n ps.
       case find (\<lambda>p. list_all (\<lambda>q. q \<notin> set ps) (pg_of (p * 4096) n)) [16..<64] of
         None \<Rightarrow> (None, ps)
       | Some p \<Rightarrow> (Some (p * 4096), pg_of (p * 4096) n @ ps)),
     os_mprotect = (\<lambda>a n ps. (a mod 4096 = 0 \<and> list_all (\<lambda>p. p \<in> set ps) (pg_of a n), ps)),
     os_munmap = (\<lambda>a n ps.
       if a mod 4096 = 0 then (True, filter (\<lambda>p. p \<notin> set (pg_of a n)) ps) else (False, ps))\<rparr>"

definition pg_mapped :: "nat list \<Rightarrow> nat set" where
  "pg_mapped ps = {x. x div 4096 \<in> set ps}"

lemma pg_of_cover: "x \<in> {a ..< a + n} \<Longrightarrow> x div 4096 \<in> set (pg_of a n)"
proof -
  assume "x \<in> {a ..< a + n}"
  then have "a \<le> x" "x + 4096 \<le> a + n + 4095" by auto
  then have "a div 4096 \<le> x div 4096" "(x + 4096) div 4096 \<le> (a + n + 4095) div 4096"
    by (intro div_le_mono; simp)+
  then show ?thesis by (simp add: pg_of_def)
qed

lemma pg_os_ok: "cpu_os_ok pg_os pg_mapped"
  unfolding cpu_os_ok_def
proof (intro conjI allI)
  fix n ps
  show "case os_mmap pg_os n ps of (None, s') \<Rightarrow> pg_mapped s' = pg_mapped ps
      | (Some a, s') \<Rightarrow> a \<noteq> 0 \<and> pg_mapped ps \<inter> {a ..< a + n} = {} \<and> pg_mapped ps \<union> {a ..< a + n} \<subseteq> pg_mapped s'"
  proof (cases "find (\<lambda>p. list_all (\<lambda>q. q \<notin> set ps) (pg_of (p * 4096) n)) [16..<64]")
    case None
    then show ?thesis by (simp add: pg_os_def)
  next
    case (Some p)
    then have "p \<in> set [16..<64]" and q: "list_all (\<lambda>q. q \<notin> set ps) (pg_of (p * 4096) n)"
      unfolding find_Some_iff by (metis nth_mem)+
    then have p: "p \<noteq> 0" "\<forall>q \<in> set (pg_of (p * 4096) n). q \<notin> set ps"
      unfolding set_upt list_all_iff atLeastLessThan_iff by linarith+
    then show ?thesis using pg_of_cover[of _ "p * 4096" n] Some by (auto simp: pg_os_def pg_mapped_def)
  qed
next
  fix a n :: nat and ps
  show "case os_mprotect pg_os a n ps of (ok, s') \<Rightarrow> pg_mapped s' = pg_mapped ps \<and> (ok \<longrightarrow> {a ..< a + n} \<subseteq> pg_mapped ps)"
    using pg_of_cover[of _ a n] by (auto simp: pg_os_def pg_mapped_def list_all_iff)
  show "case os_munmap pg_os a n ps of (ok, s') \<Rightarrow>
      pg_mapped s' \<subseteq> pg_mapped ps \<and> (if ok then pg_mapped s' \<inter> {a ..< a + n} = {} else pg_mapped s' = pg_mapped ps)"
    using pg_of_cover[of _ a n] by (auto simp: pg_os_def pg_mapped_def)
qed

section \<open>Returned slots are given back to the system\<close>

text \<open>
  After \<open>unmap\<close> the region is not reserved any more: the same slot cannot be mapped again, and the
  addresses may be part of a later reservation.
\<close>

lemma co_unmap_map:
  assumes os: "cpu_os_ok os mapped" and r: "\<not> hr_empty r" and un: "co_unmap os r (hr_size r) s = (Inr (), s')"
  shows "\<exists>s''. co_map os r s' = (throw OperationFailed, s'')"
proof -
  obtain ok t where m: "os_munmap os (hr_data r) (hr_size r) s = (ok, t)" by fastforce
  with un r have t: "ok" "t = s'" by (auto simp: co_unmap_def split: if_splits)
  have "mapped s' \<inter> {hr_data r ..< hr_data r + hr_size r} = {}"
    using os[unfolded cpu_os_ok_def, THEN conjunct2, THEN conjunct2, THEN spec[where x = "hr_data r"], THEN spec[where x = "hr_size r"],
      THEN spec[where x = s]] m t by simp
  moreover have "hr_data r \<in> {hr_data r ..< hr_data r + hr_size r}" using r by (simp add: hr_empty_def)
  ultimately have out: "\<not> {hr_data r ..< hr_data r + hr_size r} \<subseteq> mapped s'" by blast
  obtain ok' u where p: "os_mprotect os (hr_data r) (hr_size r) s' = (ok', u)" by fastforce
  have "ok' \<longrightarrow> {hr_data r ..< hr_data r + hr_size r} \<subseteq> mapped s'"
    using os[unfolded cpu_os_ok_def, THEN conjunct2, THEN conjunct1, THEN spec[where x = "hr_data r"], THEN spec[where x = "hr_size r"],
      THEN spec[where x = s']] p by simp
  with out p r show ?thesis by (simp add: co_map_def)
qed

lemma pg_exec: "map_option snd (hs_exec (co_heap pg_os) hs_twoLevels []
    [Inl 4096, Inl 4096, Inl 4096, Inl 4096,
     Inr \<lparr>vw_base = 18 * 4096, vw_offset = 0, vw_size = 4096\<rparr>, Inr \<lparr>vw_base = 17 * 4096, vw_offset = 0, vw_size = 4096\<rparr>,
     Inl 8192, Inl 4096]) =
   Some [\<lparr>vw_base = 69632, vw_offset = 0, vw_size = 4096\<rparr>, \<lparr>vw_base = 69632, vw_offset = 0, vw_size = 8192\<rparr>,
     \<lparr>vw_base = 65536, vw_offset = 0, vw_size = 4096\<rparr>, \<lparr>vw_base = 77824, vw_offset = 0, vw_size = 4096\<rparr>]"
  by code_simp

text \<open>
  C18: over the heap operations of the CPU the buffers of the allocator are not disjoint.  There is an
  operating system that keeps its promises and a program without a failing call that holds two buffers
  with addresses in common: \<open>unmap\<close> gives the pages of a returned slot back to the system, a later
  reservation gets them again, and then both slots are handed out.
\<close>

theorem cpu_heap_overlap:
  "cpu_os_ok pg_os pg_mapped \<and>
   (\<exists>S held. hs_run (co_heap pg_os) S held True \<and>
      (\<exists>i j. i < j \<and> j < length held \<and> vw_span (held ! i) \<inter> vw_span (held ! j) \<noteq> {}))"
proof -
  let ?held = "[\<lparr>vw_base = 69632, vw_offset = 0, vw_size = 4096\<rparr>, \<lparr>vw_base = 69632, vw_offset = 0, vw_size = 8192\<rparr>,
     \<lparr>vw_base = 65536, vw_offset = 0, vw_size = 4096\<rparr>, \<lparr>vw_base = 77824, vw_offset = 0, vw_size = 4096\<rparr>]"
  obtain S where run: "hs_run (co_heap pg_os) S ?held True" using hs_exec_held[OF pg_exec] by blast
  have "0 < Suc 0 \<and> Suc 0 < length ?held \<and> vw_span (?held ! 0) \<inter> vw_span (?held ! Suc 0) \<noteq> {}"
    by (simp add: vw_span_def vw_data_def)
  with run pg_os_ok show ?thesis by blast
qed

end
