(* ===== verification/HierarchicalDense.thy ===== *)
theory HierarchicalDense
  imports HierarchicalHeaps
begin

text \<open>
  Contiguous runs of slots: \<open>computeRequestSlots\<close> of \<open>hierarchical_slot_storage.h\<close> and
  \<open>hierarchical_slot_dense_ops.h\<close>.  A request is the
  number of slots of each layer, \<open>rs\<close>.  \<open>executeAllocationPlan\<close> has no statement, so a call of it
  ends in undefined behaviour, the exception value \<open>MissingReturn\<close>.
\<close>

section \<open>Requests\<close>

text \<open>The loop over the levels; \<open>b\<close> is the smallest level, \<open>N\<close> the number of smallest slots left.\<close>

fun hs_requestFrom :: "nat \<Rightarrow> nat \<Rightarrow> nat list \<Rightarrow> nat list" where
  "hs_requestFrom b N [] = []"
| "hs_requestFrom b N [l] = [hs_u32 N]"
| "hs_requestFrom b N (l # l' # ls) =
     (let u = l div b;
          r = hs_u32 (N div u)
      in r # hs_requestFrom b (N - r * u) (l' # ls))"

definition hs_computeRequestSlots :: "nat list \<Rightarrow> nat \<Rightarrow> nat list" where
  "hs_computeRequestSlots levels bytes =
     (let b = last levels in hs_requestFrom b ((bytes + b - 1) div b) levels)"

text \<open>The bytes of a request.\<close>

definition rq_bytes :: "nat list \<Rightarrow> nat list \<Rightarrow> nat" where
  "rq_bytes rs levels = (\<Sum>(r, l) \<leftarrow> zip rs levels. r * l)"

section \<open>Plans\<close>

datatype hs_direction = DirForward | DirBackward

record hs_plan =
  pl_found :: bool
  pl_end_layer :: nat
  pl_end_slot :: nat

definition pl_new :: hs_plan where
  "pl_new = \<lparr>pl_found = False, pl_end_layer = hs_kInvalidLayer, pl_end_slot = 0\<rparr>"

definition pl_finalize :: "nat \<Rightarrow> nat \<Rightarrow> hs_plan \<Rightarrow> hs_plan" where
  "pl_finalize layer_no slot_no plan = plan\<lparr>pl_end_layer := layer_no, pl_end_slot := slot_no\<rparr>"

definition hs_step :: "hs_direction \<Rightarrow> int" where
  "hs_step dir = (if dir = DirForward then 1 else - 1)"

definition hs_inBounds :: "int \<Rightarrow> int \<Rightarrow> int \<Rightarrow> hs_direction \<Rightarrow> bool" where
  "hs_inBounds idx lower upper dir \<longleftrightarrow> (if dir = DirForward then idx < upper else lower \<le> idx)"

text \<open>A 32-bit value as a signed one, and back.\<close>

definition hs_i32 :: "nat \<Rightarrow> int" where
  "hs_i32 n = (int n + 2 ^ 31) mod 2 ^ 32 - 2 ^ 31"

definition hs_ofInt :: "int \<Rightarrow> nat" where
  "hs_ofInt i = nat (i mod 2 ^ 32)"

text \<open>The loop that measures a run of free slots: the first index after it and its length.\<close>

definition sy_stateAt :: "hs_layer \<Rightarrow> int \<Rightarrow> slot_state" where
  "sy_stateAt L i = ss_state (hv_nth (sy_slots L) (nat i))"

function hs_freeRun :: "hs_layer \<Rightarrow> int \<Rightarrow> int \<Rightarrow> hs_direction \<Rightarrow> int \<Rightarrow> nat \<Rightarrow> int \<times> nat" where
  "hs_freeRun L lower upper dir run_end free_count =
     (if hs_inBounds run_end lower upper dir \<and> sy_stateAt L run_end = SlotFree
      then hs_freeRun L lower upper dir (run_end + hs_step dir) (free_count + 1)
      else (run_end, free_count))"
  by pat_completeness auto
termination
  by (relation "measure (\<lambda>(L, lower, upper, dir, run_end, free_count).
        nat (if dir = DirForward then upper - run_end else run_end - lower + 1))")
     (auto simp: hs_inBounds_def hs_step_def split: if_splits)

declare hs_freeRun.simps [simp del]

text \<open>
  The recursive search.  The plan is an out parameter: it is returned beside the answer.  Several
  branches go on to the children of a split slot (\<open>descend_to_child\<close>) and ignore the answer.
\<close>

function hs_tryFindTrail :: "hs_layer list \<Rightarrow> nat list \<Rightarrow> nat \<Rightarrow> nat \<Rightarrow> nat \<Rightarrow> hs_plan \<Rightarrow> hs_direction \<Rightarrow> nat \<Rightarrow> nat \<Rightarrow>
    bool \<times> hs_plan" where
  "hs_tryFindTrail Ls rs layer_idx start_idx need plan dir lower_bound upper_bound =
     (let layer = Ls ! layer_idx
      in if start_idx \<ge> hv_size (sy_slots layer) \<or> lower_bound \<ge> upper_bound \<or> upper_bound > hv_size (sy_slots layer)
         then (False, plan)
         else let has_child_request = list_ex (\<lambda>r. r \<noteq> 0) (drop (layer_idx + 1) rs);
                  descend_to_child = (\<lambda>slot_index check_siblings.
                    if layer_idx + 1 \<ge> length Ls \<or> layer_idx + 1 \<ge> length rs then (False, plan)
                    else let sibling_count = hs_u32 (sy_slot_size layer div sy_slot_size (Ls ! (layer_idx + 1)))
                         in if check_siblings \<and> sibling_count < rs ! (layer_idx + 1) then (False, plan)
                            else let child_begin = ss_child_begin (hv_nth (sy_slots layer) slot_index);
                                     child_upper = hs_u32 (child_begin + sibling_count)
                                 in hs_tryFindTrail Ls rs (layer_idx + 1)
                                      (if dir = DirForward then child_begin else hs_ofInt (int child_upper - 1))
                                      (rs ! (layer_idx + 1)) plan dir child_begin child_upper);
                  lower = hs_i32 lower_bound;
                  upper = hs_i32 upper_bound;
                  idx = hs_i32 start_idx
              in if \<not> hs_inBounds idx lower upper dir then (False, plan)
                 else let (boundary, free_count) = hs_freeRun layer lower upper dir idx 0;
                          end_slot = (if dir = DirForward then hs_ofInt (boundary - 1) else hs_ofInt idx);
                          finalized = pl_finalize layer_idx end_slot plan;
                          boundary_is_split = (hs_inBounds boundary lower upper dir \<and> sy_stateAt layer boundary = SlotSplit)
                      in if free_count < need then (False, finalized)
                         else case dir of
                             DirForward \<Rightarrow>
                               if free_count > need then
                                 if boundary_is_split then (True, snd (descend_to_child (hs_ofInt boundary) False))
                                 else (True, finalized)
                               else if \<not> has_child_request then
                                 if boundary_is_split then (True, snd (descend_to_child (hs_ofInt boundary) True))
                                 else (True, finalized)
                               else if boundary_is_split then descend_to_child (hs_ofInt boundary) True
                               else (False, finalized)
                           | DirBackward \<Rightarrow>
                               if free_count > need then (True, finalized)
                               else if \<not> has_child_request then (True, finalized)
                               else if boundary_is_split then descend_to_child (hs_ofInt boundary) True
                               else (False, plan))"
  by pat_completeness auto
termination
  by (relation "measure (\<lambda>(Ls, rs, layer_idx, start_idx, need, plan, dir, lower_bound, upper_bound). length Ls - layer_idx)") auto

declare hs_tryFindTrail.simps [simp del]

definition hs_tryFindTrailPlan :: "nat list \<Rightarrow> hs_layer list \<Rightarrow> hs_plan" where
  "hs_tryFindTrailPlan rs Ls =
     (if rs = [] then pl_new
      else if Ls = [] \<or> hv_isEmpty (sy_slots (Ls ! 0)) then pl_new
      else case hs_tryFindTrail Ls rs 0 0 (rs ! 0) pl_new DirForward 0 (hs_u32 (hv_size (sy_slots (Ls ! 0)))) of
          (result, plan) \<Rightarrow> plan\<lparr>pl_found := result\<rparr>)"

text \<open>The loop over the root slots; \<open>slots\<close> are the slots from index \<open>i\<close> on.\<close>

fun hs_middleFrom :: "nat \<Rightarrow> hs_slot list \<Rightarrow> nat \<Rightarrow> nat \<Rightarrow> nat \<Rightarrow> hs_plan" where
  "hs_middleFrom need [] i consecutive_start consecutive_count = pl_new"
| "hs_middleFrom need (slot # slots) i consecutive_start consecutive_count =
     (if ss_state slot = SlotFree
      then let start = (if consecutive_count = 0 then i else consecutive_start);
               count = consecutive_count + 1
           in if count \<ge> need
              then \<lparr>pl_found = True, pl_end_layer = 0, pl_end_slot = start\<rparr>
              else hs_middleFrom need slots (i + 1) start count
      else hs_middleFrom need slots (i + 1) consecutive_start 0)"

definition hs_tryFindMiddlePlan :: "nat list \<Rightarrow> hs_layer list \<Rightarrow> hs_plan" where
  "hs_tryFindMiddlePlan rs Ls =
     (if Ls = [] \<or> rs = [] then pl_new
      else hs_middleFrom (rs ! 0) (hv_data (sy_slots (Ls ! 0))) 0 0 0)"

section \<open>Dense operations\<close>

definition hs_expandForRequest :: "'s heap_ops \<Rightarrow> nat list \<Rightarrow> ('s hs_storage, unit) act" where
  "hs_expandForRequest H rs S =
     (let levels = hc_levels (hs_config S);
          total_needed = rq_bytes rs levels;
          expand = ((total_needed + levels ! 0 - 1) div levels ! 0) * levels ! 0
      in hs_addRegion H expand S)"

definition hs_executeAllocationPlan :: "hs_plan \<Rightarrow> nat list \<Rightarrow> nat \<Rightarrow> ('s hs_storage, buffer_view) act" where
  "hs_executeAllocationPlan plan rs bytes S = (Inl MissingReturn, S)"

definition hs_allocateDense :: "'s heap_ops \<Rightarrow> nat \<Rightarrow> ('s hs_storage, buffer_view) act" where
  "hs_allocateDense H bytes S =
     (let rs = hs_computeRequestSlots (hc_levels (hs_config S)) bytes;
          plan = hs_tryFindTrailPlan rs (hs_layers S);
          plan = (if \<not> pl_found plan then hs_tryFindMiddlePlan rs (hs_layers S) else plan)
      in if pl_found plan then hs_executeAllocationPlan plan rs bytes S
         else bindA (hs_expandForRequest H rs)
                (\<lambda>_ S. let plan = hs_tryFindTrailPlan rs (hs_layers S)
                       in if \<not> pl_found plan then (throw OutOfMemory, S)
                          else hs_executeAllocationPlan plan rs bytes S) S)"

text \<open>The slots of one layer, and the loop over the layers; the result is the offset.\<close>

fun hs_freeDense :: "'s heap_ops \<Rightarrow> nat \<Rightarrow> nat \<Rightarrow> nat \<Rightarrow> nat \<Rightarrow> ('s hs_storage, nat) act" where
  "hs_freeDense H layer_idx base 0 offset S = (Inr offset, S)"
| "hs_freeDense H layer_idx base (Suc n) offset S =
     (let layer = hs_layers S ! layer_idx
      in bindA (\<lambda>S. case sy_findInUse layer (base + offset) of
             None \<Rightarrow> (Inr (), S)
           | Some slot_idx \<Rightarrow>
               bindA (hs_unmapSlot H layer_idx slot_idx)
                 (\<lambda>_ S. (Inr (), hs_tryMergeUpward layer_idx slot_idx (hs_releaseSlot layer_idx slot_idx S))) S)
           (\<lambda>_. hs_freeDense H layer_idx base n (offset + sy_slot_size layer)) S)"

fun hs_freeLayers :: "'s heap_ops \<Rightarrow> nat \<Rightarrow> nat list \<Rightarrow> nat \<Rightarrow> nat \<Rightarrow> ('s hs_storage, unit) act" where
  "hs_freeLayers H layer_idx [] base offset S = (Inr (), S)"
| "hs_freeLayers H layer_idx (r # rs) base offset S =
     bindA (hs_freeDense H layer_idx base r offset) (\<lambda>offset. hs_freeLayers H (layer_idx + 1) rs base offset) S"

definition hs_deallocateDense :: "'s heap_ops \<Rightarrow> buffer_view \<Rightarrow> nat \<Rightarrow> ('s hs_storage, unit) act" where
  "hs_deallocateDense H v bytes S =
     (if vw_empty v then (Inr (), S)
      else hs_freeLayers H 0 (hs_computeRequestSlots (hc_levels (hs_config S)) bytes) (vw_data v) 0 S)"

section \<open>What holds\<close>

text \<open>
  A request covers its bytes with whole smallest slots, exactly, and takes as many slots of every layer
  as fit.
\<close>

lemma hs_requestFrom_sum:
  assumes "ls \<noteq> []" "0 < b" "last ls = b" "\<And>k. k < length ls \<Longrightarrow> b dvd ls ! k" "\<And>k. k < length ls \<Longrightarrow> 0 < ls ! k"
    and "N < 2 ^ 32"
  shows "rq_bytes (hs_requestFrom b N ls) ls = N * b"
    "length (hs_requestFrom b N ls) = length ls"
proof -
  have "rq_bytes (hs_requestFrom b N ls) ls = N * b \<and> length (hs_requestFrom b N ls) = length ls"
    using assms
  proof (induction b N ls rule: hs_requestFrom.induct)
    case (2 b N l)
    then show ?case by (simp add: rq_bytes_def hs_u32_id)
  next
    case (3 b N l l' ls)
    define u where "u = l div b"
    have dvd: "b dvd l" "0 < l" using "3.prems"(4,5)[of 0] by auto
    then have u: "0 < u" "u * b = l" using "3.prems"(2) by (auto simp: u_def dvd_imp_le div_greater_zero_iff)
    have r: "hs_u32 (N div u) = N div u" using "3.prems"(6) by (intro hs_u32_id) (meson div_le_dividend le_less_trans)
    have rest: "rq_bytes (hs_requestFrom b (N - N div u * u) (l' # ls)) (l' # ls) = (N - N div u * u) * b \<and>
        length (hs_requestFrom b (N - N div u * u) (l' # ls)) = length (l' # ls)"
    proof (rule "3.IH"[OF u_def r[symmetric], unfolded r])
      show "b dvd (l' # ls) ! k" if "k < length (l' # ls)" for k using "3.prems"(4)[of "Suc k"] that by simp
      show "0 < (l' # ls) ! k" if "k < length (l' # ls)" for k using "3.prems"(5)[of "Suc k"] that by simp
    qed (use "3.prems" in auto)
    have "N div u * l + (N - N div u * u) * b = N * b"
    proof -
      have "N div u * l = (N div u * u) * b" using u(2) by (simp add: mult.assoc)
      moreover have "N div u * u \<le> N" by simp
      ultimately show ?thesis by (metis add_mult_distrib le_add_diff_inverse)
    qed
    then show ?case using rest r by (simp add: rq_bytes_def u_def[symmetric] Let_def)
  qed simp
  then show "rq_bytes (hs_requestFrom b N ls) ls = N * b" "length (hs_requestFrom b N ls) = length ls" by auto
qed

text \<open>A plan of the middle search names a run of free root slots.\<close>

lemma hs_middleFrom_run:
  assumes "pl_found (hs_middleFrom need slots i s c)" "0 < need" "c = 0 \<or> s + c = i"
  shows "pl_end_layer (hs_middleFrom need slots i s c) = 0 \<and>
    (let e = pl_end_slot (hs_middleFrom need slots i s c)
     in (e = s \<and> 0 < c \<or> i \<le> e) \<and> e + need \<le> i + length slots \<and>
       (\<forall>k. i \<le> k \<longrightarrow> e \<le> k \<longrightarrow> k < e + need \<longrightarrow> ss_state (slots ! (k - i)) = SlotFree))"
  using assms
proof (induction need slots i s c rule: hs_middleFrom.induct)
  case (1 need i s c)
  then show ?case by (simp add: pl_new_def)
next
  case (2 need slot slots i s c)
  show ?case
  proof (cases "ss_state slot = SlotFree \<and> need \<le> c + 1")
    case True
    then show ?thesis using 2(4,5) by (cases "c = 0") (auto simp: Let_def nth_Cons')
  next
    case False
    define s' where "s' = (if ss_state slot = SlotFree then if c = 0 then i else s else s)"
    define c' where "c' = (if ss_state slot = SlotFree then c + 1 else 0)"
    have eq: "hs_middleFrom need (slot # slots) i s c = hs_middleFrom need slots (i + 1) s' c'"
      using False by (auto simp: s'_def c'_def Let_def)
    have ih: "pl_end_layer (hs_middleFrom need slots (i + 1) s' c') = 0 \<and>
      (let e = pl_end_slot (hs_middleFrom need slots (i + 1) s' c')
       in (e = s' \<and> 0 < c' \<or> i + 1 \<le> e) \<and> e + need \<le> i + 1 + length slots \<and>
         (\<forall>k. i + 1 \<le> k \<longrightarrow> e \<le> k \<longrightarrow> k < e + need \<longrightarrow> ss_state (slots ! (k - (i + 1))) = SlotFree))"
    proof (cases "ss_state slot = SlotFree")
      case True
      then show ?thesis using 2(1)[OF True refl refl] 2(3-5) False unfolding eq by (auto simp: s'_def c'_def)
    next
      case st: False
      then show ?thesis using 2(2)[OF st] 2(3-5) unfolding eq by (simp add: s'_def c'_def)
    qed
    let ?e = "pl_end_slot (hs_middleFrom need slots (i + 1) s' c')"
    have "ss_state ((slot # slots) ! (k - i)) = SlotFree" if k: "i \<le> k" "?e \<le> k" "k < ?e + need" for k
    proof (cases "k = i")
      case True
      then have "ss_state slot = SlotFree" using ih k by (auto simp: Let_def c'_def split: if_splits)
      then show ?thesis using True by simp
    next
      case False
      then show ?thesis using ih k by (auto simp: Let_def nth_Cons')
    qed
    moreover have "?e = s \<and> 0 < c \<or> i \<le> ?e"
      using ih by (auto simp: Let_def s'_def c'_def split: if_splits)
    ultimately show ?thesis using ih unfolding eq by (simp add: Let_def)
  qed
qed

lemma hs_middle_plan:
  assumes "pl_found (hs_tryFindMiddlePlan rs Ls)" "0 < rs ! 0"
  shows "\<forall>k. pl_end_slot (hs_tryFindMiddlePlan rs Ls) \<le> k \<longrightarrow> k < pl_end_slot (hs_tryFindMiddlePlan rs Ls) + rs ! 0 \<longrightarrow>
    k < hl_count Ls 0 \<and> hl_state Ls 0 k = SlotFree"
proof -
  have eq: "hs_tryFindMiddlePlan rs Ls = hs_middleFrom (rs ! 0) (hv_data (sy_slots (Ls ! 0))) 0 0 0"
    using assms(1) by (auto simp: hs_tryFindMiddlePlan_def pl_new_def split: if_splits)
  show ?thesis
    using hs_middleFrom_run[OF assms(1)[unfolded eq] assms(2), of] unfolding eq
    by (auto simp: Let_def hl_count_def hl_at_def hv_size_def hv_nth_def)
qed

text \<open>No dense allocation returns a buffer.\<close>

lemma hs_allocateDense_never: "\<exists>e S'. hs_allocateDense H n S = (Inl e, S')"
  by (auto simp: hs_allocateDense_def hs_executeAllocationPlan_def Let_def bindA_def throw_def split: prod.split sum.split)

end
