(* ===== verification/PoolManager.thy ===== *)
theory PoolManager
  imports ControlBlock
begin

text \<open>
  \<open>base/manager/pool_manager.h\<close> with \<open>base/lease/strong_lease.h\<close>: the manager that pairs a payload
  pool with a pool of control blocks and hands out reference-counted leases, with
  \<open>StrongControlBlock\<close> and a plain \<open>SlotPool\<close> of payloads (\<open>T\<close> are the payload pool's traits).  The
  buffer, storage, tensor, fence, event, queue and kernel-base managers instantiate it like this; the
  managers of devices, heaps, libraries, pipelines, graphs and kernel metadata use a \<open>FixedSlotStore\<close> of
  payloads instead.  A lease holds the address of its control block; access to an
  address without an object is the exception value \<open>DanglingPointer\<close>.  The operations are state
  transformers on the manager.
\<close>

section \<open>State\<close>

type_synonym 'w cb = "('w, unit) strong_cb"

record ('w, 'p) pool_manager =
  pm_cb_growth :: nat
  pm_payload_growth :: nat
  pm_cb_block_size :: nat
  pm_payload_block_size :: nat
  pm_configured :: bool
  pm_payloads :: "('w, 'p) slot_pool"
  pm_cbs :: "(8 word, 'w cb) slot_pool"

definition pm_new :: "('g::len word, 'p) pool_manager" where
  "pm_new = \<lparr>pm_cb_growth = 1, pm_payload_growth = 1, pm_cb_block_size = 0,
     pm_payload_block_size = 0, pm_configured = False, pm_payloads = sp_new, pm_cbs = sp_new\<rparr>"

text \<open>\<open>DefaultControlBlockPoolTraits\<close>: creation and destruction do nothing.\<close>

definition cb_traits :: "(8 word, 'g::len word cb, unit, unit) pool_traits" where
  "cb_traits = \<lparr>tr_default = scb_new, tr_create = (\<lambda>p r c. (True, p)), tr_destroy = (\<lambda>p r c. p),
     tr_setHandle = (\<lambda>r h. r), tr_request = (), tr_context = (), tr_destroy_on_release = False,
     tr_has_generation = True\<rparr>"

record strong_lease =
  ls_cb :: "nat option"
  ls_pool :: bool
  ls_handle :: "8 word handle"

definition ls_invalid :: strong_lease where
  "ls_invalid = \<lparr>ls_cb = None, ls_pool = False, ls_handle = handle_invalid\<rparr>"

abbreviation "pm_cb_mem M \<equiv> rbv_mem (sp_payloads (pm_cbs M))"

definition pm_storeCb ::
  "nat \<Rightarrow> 'g::len word cb \<Rightarrow> ('g word, 'p) pool_manager \<Rightarrow> ('g word, 'p) pool_manager" where
  "pm_storeCb a cb M = M\<lparr>pm_cbs := (pm_cbs M)\<lparr>sp_payloads :=
     (sp_payloads (pm_cbs M))\<lparr>rbv_mem := (pm_cb_mem M)(a \<mapsto> cb)\<rparr>\<rparr>\<rparr>"

section \<open>Leases\<close>

text \<open>The acquiring constructor.\<close>

definition sl_construct ::
  "nat \<Rightarrow> 8 word handle \<Rightarrow> (('g::len word, 'p) pool_manager, strong_lease) act" where
  "sl_construct a h M =
     (case pm_cb_mem M a of
        None \<Rightarrow> (Inl DanglingPointer, M)
      | Some cb \<Rightarrow> (Inr \<lparr>ls_cb = Some a, ls_pool = True, ls_handle = h\<rparr>,
                    pm_storeCb a (scb_acquireStrong cb) M))"

definition sl_copyFrom ::
  "strong_lease \<Rightarrow> (('g::len word, 'p) pool_manager, strong_lease) act" where
  "sl_copyFrom other M =
     (case ls_cb other of
        None \<Rightarrow> (Inr ls_invalid, M)
      | Some a \<Rightarrow>
          (case pm_cb_mem M a of
             None \<Rightarrow> (Inl DanglingPointer, M)
           | Some cb \<Rightarrow> (Inr other, pm_storeCb a (scb_acquireStrong cb) M)))"

definition sl_release ::
  "('g::len word, 'p, 'r, 'c) pool_traits \<Rightarrow> strong_lease \<Rightarrow>
   (('g word, 'p) pool_manager, strong_lease) act" where
  "sl_release T l M =
     (case ls_cb l of
        None \<Rightarrow> (Inr l, M)
      | Some a \<Rightarrow>
          (case pm_cb_mem M a of
             None \<Rightarrow> (Inl DanglingPointer, M)
           | Some cb \<Rightarrow>
               (let (released, cb', payloads') =
                      scb_releaseStrong (\<lambda>_ h P. sp_release T P h) cb (pm_payloads M);
                    M' = (pm_storeCb a cb' M)\<lparr>pm_payloads := payloads'\<rparr>;
                    M'' = (if released \<and> ls_pool l \<and> scb_canShutdown cb'
                           then M'\<lparr>pm_cbs := snd (sp_release cb_traits (pm_cbs M') (ls_handle l))\<rparr>
                           else M')
                in (Inr ls_invalid, M''))))"

text \<open>
  Copy assignment and move assignment of a target lease; \<open>self\<close> is the test \<open>this == &other\<close>.  A move
  returns the target and the emptied source, which keeps its handle.
\<close>

definition sl_copyAssign ::
  "('g::len word, 'p, 'r, 'c) pool_traits \<Rightarrow> bool \<Rightarrow> strong_lease \<Rightarrow> strong_lease \<Rightarrow>
   (('g word, 'p) pool_manager, strong_lease) act" where
  "sl_copyAssign T self target other =
     (if self then returnA target else bindA (sl_release T target) (\<lambda>_. sl_copyFrom other))"

definition sl_moveFrom :: "strong_lease \<Rightarrow> strong_lease \<times> strong_lease" where
  "sl_moveFrom other = (other, other\<lparr>ls_cb := None, ls_pool := False\<rparr>)"

definition sl_moveAssign ::
  "('g::len word, 'p, 'r, 'c) pool_traits \<Rightarrow> bool \<Rightarrow> strong_lease \<Rightarrow> strong_lease \<Rightarrow>
   (('g word, 'p) pool_manager, strong_lease \<times> strong_lease) act" where
  "sl_moveAssign T self target other =
     (if self then returnA (target, other)
      else bindA (sl_release T target) (\<lambda>_. returnA (sl_moveFrom other)))"

text \<open>\<open>operator bool\<close>, \<open>operator->\<close> and \<open>strongCount\<close>.\<close>

definition sl_valid :: "strong_lease \<Rightarrow> bool" where
  "sl_valid l \<longleftrightarrow> ls_cb l \<noteq> None"

definition sl_payloadPtr ::
  "strong_lease \<Rightarrow> ('g::len word, 'p) pool_manager \<Rightarrow> nat option res" where
  "sl_payloadPtr l M =
     (case ls_cb l of
        None \<Rightarrow> Inr None
      | Some a \<Rightarrow> (case pm_cb_mem M a of None \<Rightarrow> Inl DanglingPointer | Some cb \<Rightarrow> Inr (scb_ptr cb)))"

definition sl_payloadHandle ::
  "strong_lease \<Rightarrow> ('g::len word, 'p) pool_manager \<Rightarrow> 'g word handle res" where
  "sl_payloadHandle l M =
     (case ls_cb l of
        None \<Rightarrow> Inr handle_invalid
      | Some a \<Rightarrow> (case pm_cb_mem M a of None \<Rightarrow> Inl DanglingPointer | Some cb \<Rightarrow> Inr (scb_handle cb)))"

definition sl_strongCount ::
  "strong_lease \<Rightarrow> ('g::len word, 'p) pool_manager \<Rightarrow> u32 res" where
  "sl_strongCount l M =
     (case ls_cb l of
        None \<Rightarrow> Inr 0
      | Some a \<Rightarrow> (case pm_cb_mem M a of None \<Rightarrow> Inl DanglingPointer | Some cb \<Rightarrow> Inr (scb_strongCount cb)))"

section \<open>Configuration and shutdown\<close>

definition pm_ensureConfigured :: "(('g::len word, 'p) pool_manager, unit) act" where
  "pm_ensureConfigured M = (if \<not> pm_configured M then (throw InvalidState, M) else (Inr (), M))"

definition pm_checkCanShutdown :: "(('g::len word, 'p) pool_manager, unit) act" where
  "pm_checkCanShutdown M =
     (if list_all (\<lambda>(_, cb). scb_canShutdown cb) (sp_createdSlots (pm_cbs M)) then (Inr (), M)
      else (throw InvalidState, M))"

definition pm_checkCanTeardown :: "(('g::len word, 'p) pool_manager, unit) act" where
  "pm_checkCanTeardown M =
     (if list_all (\<lambda>(_, cb). scb_canTeardown cb) (sp_createdSlots (pm_cbs M)) then (Inr (), M)
      else (throw InvalidState, M))"

definition pm_shutdownPayloadPool ::
  "('g::len word, 'p, 'r, 'c) pool_traits \<Rightarrow> 'r \<Rightarrow> 'c \<Rightarrow> (('g word, 'p) pool_manager, unit) act" where
  "pm_shutdownPayloadPool T r c =
     bindA pm_checkCanTeardown
       (\<lambda>_ M. (Inr (), M\<lparr>pm_payloads := sp_clear T (pm_payloads M) r c\<rparr>))"

definition pm_shutdownControlBlockPool :: "(('g::len word, 'p) pool_manager, unit) act" where
  "pm_shutdownControlBlockPool =
     bindA pm_checkCanShutdown
       (\<lambda>_ M. (Inr (), M\<lparr>pm_cbs := sp_clear cb_traits (pm_cbs M) () ()\<rparr>))"

definition pm_shutdown ::
  "('g::len word, 'p, 'r, 'c) pool_traits \<Rightarrow> 'r \<Rightarrow> 'c \<Rightarrow> (('g word, 'p) pool_manager, unit) act" where
  "pm_shutdown T r c M =
     (if \<not> pm_configured M then (Inr (), M)
      else bindA (pm_shutdownPayloadPool T r c) (\<lambda>_. bindA pm_shutdownControlBlockPool
             (\<lambda>_ M. (Inr (), M\<lparr>pm_configured := False\<rparr>))) M)"

text \<open>A throwing pool operation inside a transformer: the pool is left as it was.\<close>

definition pm_onPayloads ::
  "(('g::len word, 'p) slot_pool \<Rightarrow> ('a \<times> ('g word, 'p) slot_pool) res) \<Rightarrow>
   (('g word, 'p) pool_manager, 'a) act" where
  "pm_onPayloads f M =
     (case f (pm_payloads M) of Inl e \<Rightarrow> (Inl e, M) | Inr (x, P) \<Rightarrow> (Inr x, M\<lparr>pm_payloads := P\<rparr>))"

definition pm_onCbs ::
  "((8 word, 'g::len word cb) slot_pool \<Rightarrow> ('a \<times> (8 word, 'g word cb) slot_pool) res) \<Rightarrow>
   (('g word, 'p) pool_manager, 'a) act" where
  "pm_onCbs f M =
     (case f (pm_cbs M) of Inl e \<Rightarrow> (Inl e, M) | Inr (x, P) \<Rightarrow> (Inr x, M\<lparr>pm_cbs := P\<rparr>))"

definition pm_setControlBlockBlockSize :: "nat \<Rightarrow> (('g::len word, 'p) pool_manager, unit) act" where
  "pm_setControlBlockBlockSize n M =
     (if n = 0 then (throw InvalidArgument, M)
      else bindA (\<lambda>M. if pm_cb_block_size M \<noteq> 0 \<and> pm_cb_block_size M \<noteq> n
                      then pm_checkCanShutdown M else (Inr (), M))
             (\<lambda>_ M. bindA (pm_onCbs (\<lambda>P. sp_setBlockSize P n)) (\<lambda>_. returnA ())
                      (M\<lparr>pm_cb_block_size := n\<rparr>)) M)"

definition pm_setPayloadBlockSize :: "nat \<Rightarrow> (('g::len word, 'p) pool_manager, unit) act" where
  "pm_setPayloadBlockSize n M =
     (if n = 0 then (throw InvalidArgument, M)
      else bindA (\<lambda>M. if pm_payload_block_size M \<noteq> 0 \<and> pm_payload_block_size M \<noteq> n
                      then pm_checkCanTeardown M else (Inr (), M))
             (\<lambda>_ M. bindA (pm_onPayloads (\<lambda>P. sp_setBlockSize P n)) (\<lambda>_. returnA ())
                      (M\<lparr>pm_payload_block_size := n\<rparr>)) M)"

definition pm_setControlBlockGrowth :: "nat \<Rightarrow> (('g::len word, 'p) pool_manager, unit) act" where
  "pm_setControlBlockGrowth n M =
     (if n = 0 then (throw InvalidArgument, M) else (Inr (), M\<lparr>pm_cb_growth := n\<rparr>))"

definition pm_setPayloadGrowth :: "nat \<Rightarrow> (('g::len word, 'p) pool_manager, unit) act" where
  "pm_setPayloadGrowth n M =
     (if n = 0 then (throw InvalidArgument, M) else (Inr (), M\<lparr>pm_payload_growth := n\<rparr>))"

text \<open>The settings a \<open>Builder\<close> carries.\<close>

record pm_config =
  cfg_cb_capacity :: nat
  cfg_cb_block_size :: nat
  cfg_cb_growth :: nat
  cfg_payload_capacity :: nat
  cfg_payload_block_size :: nat
  cfg_payload_growth :: nat

definition pm_validateParameters :: "pm_config \<Rightarrow> unit res" where
  "pm_validateParameters cfg =
     (if cfg_cb_block_size cfg = 0 then throw InvalidArgument
      else if cfg_cb_growth cfg = 0 then throw InvalidArgument
      else if cfg_payload_growth cfg = 0 then throw InvalidArgument
      else if cfg_payload_capacity cfg \<noteq> 0 \<and> cfg_payload_block_size cfg = 0 then throw InvalidArgument
      else Inr ())"

definition pm_applyControlBlockConfig :: "nat \<Rightarrow> nat \<Rightarrow> (('g::len word, 'p) pool_manager, unit) act" where
  "pm_applyControlBlockConfig capacity block_size =
     bindA (pm_setControlBlockBlockSize block_size) (\<lambda>_.
     bindA (pm_onCbs (\<lambda>P. sp_resize cb_traits P capacity)) (\<lambda>old_capacity.
     bindA (pm_onCbs (\<lambda>P. sp_createRange cb_traits P old_capacity (sp_size P) () ())) (\<lambda>created.
     if created then returnA () else throwA InvalidState)))"

definition pm_configure ::
  "('g::len word, 'p, 'r, 'c) pool_traits \<Rightarrow> pm_config \<Rightarrow> 'r \<Rightarrow> 'c \<Rightarrow>
   (('g word, 'p) pool_manager, unit) act" where
  "pm_configure T cfg r c =
     bindA (\<lambda>M. (pm_validateParameters cfg, M)) (\<lambda>_.
     bindA (\<lambda>M. if pm_configured M \<and> pm_payload_block_size M \<noteq> cfg_payload_block_size cfg \<and>
                   cfg_payload_block_size cfg \<noteq> 0
                then pm_shutdownPayloadPool T r c M else (Inr (), M)) (\<lambda>_.
     bindA (pm_setPayloadBlockSize (cfg_payload_block_size cfg)) (\<lambda>_.
     bindA (pm_onPayloads (\<lambda>P. sp_resize T P (cfg_payload_capacity cfg))) (\<lambda>_.
     bindA (pm_applyControlBlockConfig (cfg_cb_capacity cfg) (cfg_cb_block_size cfg)) (\<lambda>_.
     bindA (pm_setControlBlockGrowth (cfg_cb_growth cfg)) (\<lambda>_.
     bindA (pm_setPayloadGrowth (cfg_payload_growth cfg)) (\<lambda>_ M.
     (Inr (), M\<lparr>pm_configured := True\<rparr>))))))))"

section \<open>Payloads\<close>

definition pm_isAlive ::
  "('g::len word, 'p, 'r, 'c) pool_traits \<Rightarrow> ('g word, 'p) pool_manager \<Rightarrow> 'g word handle \<Rightarrow> bool" where
  "pm_isAlive T M h \<longleftrightarrow>
     pm_configured M \<and> sp_isValid T (pm_payloads M) h \<and> sp_isCreated T (pm_payloads M) h"

definition pm_emplacePayload ::
  "('g::len word, 'p, 'r, 'c) pool_traits \<Rightarrow> 'g word handle \<Rightarrow> 'r \<Rightarrow> 'c \<Rightarrow>
   (('g word, 'p) pool_manager, bool) act" where
  "pm_emplacePayload T h r c = pm_onPayloads (\<lambda>P. Inr (sp_emplace T P h r c))"

definition pm_createAllPayloads ::
  "('g::len word, 'p, 'r, 'c) pool_traits \<Rightarrow> 'r \<Rightarrow> 'c \<Rightarrow> (('g word, 'p) pool_manager, bool) act" where
  "pm_createAllPayloads T r c = pm_onPayloads (\<lambda>P. sp_createAll T P r c)"

definition pm_growPayloadPoolBy ::
  "('g::len word, 'p, 'r, 'c) pool_traits \<Rightarrow> nat \<Rightarrow> (('g word, 'p) pool_manager, nat) act" where
  "pm_growPayloadPoolBy T grow_by M =
     (if grow_by = 0 then (Inr (sp_size (pm_payloads M)), M)
      else let desired = sp_size (pm_payloads M) + grow_by
           in bindA (pm_onPayloads (\<lambda>P. sp_resize T P desired)) (\<lambda>_. returnA desired) M)"

definition pm_growPayloadPoolByAndCreate ::
  "('g::len word, 'p, 'r, 'c) pool_traits \<Rightarrow> nat \<Rightarrow> 'r \<Rightarrow> 'c \<Rightarrow> (('g word, 'p) pool_manager, bool) act" where
  "pm_growPayloadPoolByAndCreate T grow_by r c M =
     (let old_size = sp_size (pm_payloads M)
      in bindA (pm_growPayloadPoolBy T grow_by)
           (\<lambda>new_size. if new_size = old_size then returnA True
                       else pm_onPayloads (\<lambda>P. sp_createRange T P old_size (sp_size P) r c)) M)"

text \<open>The two \<open>noexcept\<close> acquisitions of the payload pool, as transformers.\<close>

definition pm_tryAcquirePayload ::
  "('g::len word, 'p, 'r, 'c) pool_traits \<Rightarrow> (('g word, 'p) pool_manager, 'g word handle) act" where
  "pm_tryAcquirePayload T = pm_onPayloads (\<lambda>P. Inr (sp_tryAcquireCreated T P))"

definition pm_tryReservePayload ::
  "('g::len word, 'p, 'r, 'c) pool_traits \<Rightarrow> (('g word, 'p) pool_manager, 'g word handle) act" where
  "pm_tryReservePayload T = pm_onPayloads (\<lambda>P. Inr (sp_tryReserveUncreated T P))"

definition pm_acquirePayloadOrGrowAndCreate ::
  "('g::len word, 'p, 'r, 'c) pool_traits \<Rightarrow> 'r \<Rightarrow> 'c \<Rightarrow>
   (('g word, 'p) pool_manager, 'g word handle) act" where
  "pm_acquirePayloadOrGrowAndCreate T r c =
     bindA (pm_tryAcquirePayload T) (\<lambda>h.
     if handle_isValid h then returnA h
     else bindA (\<lambda>M. pm_growPayloadPoolByAndCreate T (pm_payload_growth M) r c M) (\<lambda>created.
          if \<not> created then throwA InvalidState else pm_tryAcquirePayload T))"

definition pm_reserveUncreatedPayloadOrGrow ::
  "('g::len word, 'p, 'r, 'c) pool_traits \<Rightarrow> (('g word, 'p) pool_manager, 'g word handle) act" where
  "pm_reserveUncreatedPayloadOrGrow T =
     bindA (pm_tryReservePayload T) (\<lambda>h.
     if handle_isValid h then returnA h
     else bindA (\<lambda>M. pm_growPayloadPoolBy T (pm_payload_growth M) M) (\<lambda>_. pm_tryReservePayload T))"

section \<open>Control blocks and lease acquisition\<close>

definition pm_growControlBlockPool :: "(('g::len word, 'p) pool_manager, unit) act" where
  "pm_growControlBlockPool M =
     (if pm_cb_block_size M = 0 then (throw InvalidState, M)
      else let desired = sp_size (pm_cbs M) + pm_cb_growth M
           in bindA (pm_onCbs (\<lambda>P. sp_resize cb_traits P desired)) (\<lambda>old_capacity.
              bindA (pm_onCbs (\<lambda>P. sp_createRange cb_traits P old_capacity (sp_size P) () ()))
                (\<lambda>_. returnA ())) M)"

definition pm_tryAcquireCb :: "(('g::len word, 'p) pool_manager, 8 word handle) act" where
  "pm_tryAcquireCb = pm_onCbs (\<lambda>P. Inr (sp_tryAcquireCreated cb_traits P))"

definition pm_acquireControlBlock :: "(('g::len word, 'p) pool_manager, 8 word handle) act" where
  "pm_acquireControlBlock =
     bindA pm_tryAcquireCb (\<lambda>h.
     bindA (if \<not> handle_isValid h then bindA pm_growControlBlockPool (\<lambda>_. pm_tryAcquireCb)
            else returnA h) (\<lambda>h.
     if \<not> handle_isValid h then throwA OutOfRange else returnA h))"

definition pm_releaseControlBlock ::
  "8 word handle \<Rightarrow> (('g::len word, 'p) pool_manager, unit) act" where
  "pm_releaseControlBlock h M =
     (Inr (), M\<lparr>pm_cbs := snd (sp_release cb_traits (pm_cbs M) h)\<rparr>)"

definition pm_acquireLease ::
  "('g::len word, 'p, 'r, 'c) pool_traits \<Rightarrow> 'g word handle \<Rightarrow>
   (('g word, 'p) pool_manager, strong_lease) act" where
  "pm_acquireLease T h =
     bindA pm_ensureConfigured (\<lambda>_ M.
       if \<not> sp_isValid T (pm_payloads M) h then (throw InvalidArgument, M)
       else if \<not> sp_isCreated T (pm_payloads M) h then (throw InvalidState, M)
       else case sp_get T (pm_payloads M) h of
          None \<Rightarrow> (throw InvalidState, M)
        | Some payload_ptr \<Rightarrow>
            bindA pm_acquireControlBlock (\<lambda>cb_handle M.
              case sp_get cb_traits (pm_cbs M) cb_handle of
                None \<Rightarrow> (Inl DanglingPointer, M)
              | Some a \<Rightarrow>
                  (case pm_cb_mem M a of
                     None \<Rightarrow> (Inl DanglingPointer, M)
                   | Some cb \<Rightarrow>
                       (case scb_tryBindPayload h payload_ptr (Some ()) cb of
                          (False, _) \<Rightarrow>
                            bindA (pm_releaseControlBlock cb_handle) (\<lambda>_. throwA InvalidState) M
                        | (True, cb') \<Rightarrow> sl_construct a cb_handle (pm_storeCb a cb' M)))) M)"

end
