(* ===== verification/LeaseSafety.thy ===== *)
theory LeaseSafety
  imports PoolManager
begin

text \<open>
  Clients of a pool manager: any sequence of its operations by a program that owns a list of live
  strong leases.  The invariant ties each control block's count to the leases that name it, and keeps
  every pointer in a lease or a referenced control block on an object.
\<close>

section \<open>The control-block pool and the live leases\<close>

definition lm_refs :: "strong_lease list \<Rightarrow> nat \<Rightarrow> nat" where
  "lm_refs ls i = cnt (\<lambda>l. sp_slot (ls_handle l) = i) ls"

text \<open>\<open>X\<close> are slots that were taken from the freelist and have no lease yet.\<close>

definition lm_cbs_ok :: "nat set \<Rightarrow> (8 word, 'g::len word cb) slot_pool \<Rightarrow> strong_lease list \<Rightarrow> bool" where
  "lm_cbs_ok X C ls \<longleftrightarrow>
     sp_ok C \<and> distinct (sp_free C) \<and> X \<inter> set (sp_free C) = {} \<and> X \<subseteq> {..<sp_size C} \<and>
     (\<forall>i \<in> X. lm_refs ls i = 0) \<and>
     (\<forall>l \<in> set ls. ls_pool l \<and> sp_isValid cb_traits C (ls_handle l) \<and>
        sp_slot (ls_handle l) \<notin> set (sp_free C) \<and> ls_cb l = Some (sp_addr C (sp_slot (ls_handle l)))) \<and>
     (\<forall>i < sp_size C. unat (scb_strong (sp_val C i)) = lm_refs ls i) \<and>
     (\<forall>i < sp_size C. i \<notin> set (sp_free C) \<longrightarrow> sp_created_at C i \<and> (i \<notin> X \<longrightarrow> 0 < lm_refs ls i))"

lemma lm_cbs_okD:
  assumes "lm_cbs_ok X C ls"
  shows "sp_ok C" "distinct (sp_free C)"
    "l \<in> set ls \<Longrightarrow> ls_pool l" "l \<in> set ls \<Longrightarrow> sp_isValid cb_traits C (ls_handle l)"
    "l \<in> set ls \<Longrightarrow> sp_slot (ls_handle l) < sp_size C"
    "l \<in> set ls \<Longrightarrow> sp_slot (ls_handle l) \<notin> set (sp_free C)"
    "l \<in> set ls \<Longrightarrow> ls_cb l = Some (sp_addr C (sp_slot (ls_handle l)))"
    "i < sp_size C \<Longrightarrow> unat (scb_strong (sp_val C i)) = lm_refs ls i"
    "i < sp_size C \<Longrightarrow> i \<notin> set (sp_free C) \<Longrightarrow> sp_created_at C i"
    "i < sp_size C \<Longrightarrow> i \<notin> set (sp_free C) \<Longrightarrow> i \<notin> X \<Longrightarrow> 0 < lm_refs ls i"
  using assms sp_isValid_index[of cb_traits C "ls_handle l"] by (auto simp: lm_cbs_ok_def sp_slot_def)

lemma lm_refs_pos: "l \<in> set ls \<Longrightarrow> 0 < lm_refs ls (sp_slot (ls_handle l))"
  using cnt_eq_0_iff[of "\<lambda>k. sp_slot (ls_handle k) = sp_slot (ls_handle l)" ls]
  by (auto simp: lm_refs_def)

lemma lm_refs_Cons: "lm_refs (l # ls) i = (if sp_slot (ls_handle l) = i then 1 else 0) + lm_refs ls i"
  by (simp add: lm_refs_def)

lemma lm_refs_remove1:
  "l \<in> set ls \<Longrightarrow> lm_refs ls i = (if sp_slot (ls_handle l) = i then 1 else 0) + lm_refs (remove1 l ls) i"
  by (induction ls) (auto simp: lm_refs_def)

lemma lm_refs_le: "lm_refs ls i \<le> length ls"
  by (simp add: lm_refs_def cnt_le_length)

lemma cb_traits_simps [simp]:
  "tr_create cb_traits = (\<lambda>p r c. (True, p))" "tr_default cb_traits = scb_new"
  "tr_has_generation cb_traits" "\<not> tr_destroy_on_release cb_traits"
  by (simp_all add: cb_traits_def)

lemma lm_valid_cong:
  "sp_isValid cb_traits C h \<Longrightarrow> sp_size C \<le> sp_size D \<Longrightarrow>
   sp_gen D (sp_slot h) = sp_gen C (sp_slot h) \<Longrightarrow> sp_isValid cb_traits D h"
  by (auto simp: sp_isValid_gen sp_slot_def)

text \<open>Storing a control block through its address.\<close>

definition lm_put :: "('g::len word, 'p) slot_pool \<Rightarrow> nat \<Rightarrow> 'p \<Rightarrow> ('g word, 'p) slot_pool" where
  "lm_put C i cb = C\<lparr>sp_payloads := rbv_set (sp_payloads C) i cb\<rparr>"

lemma lm_put_fields [simp]:
  "sp_size (lm_put C i cb) = sp_size C" "sp_free (lm_put C i cb) = sp_free C"
  "sp_gen (lm_put C i cb) j = sp_gen C j" "sp_created_at (lm_put C i cb) j = sp_created_at C j"
  "sp_addr (lm_put C i cb) j = sp_addr C j" "sp_blockSize (lm_put C i cb) = sp_blockSize C"
  by (simp_all add: lm_put_def sp_size_def sp_free_def sp_gen_def sp_created_at_def sp_addr_def sp_blockSize_def)

lemma lm_put_ok: "sp_ok C \<Longrightarrow> i < sp_size C \<Longrightarrow> sp_ok (lm_put C i cb)"
  using sp_frame_put[of C i cb] by (simp add: lm_put_def sp_frame_def)

lemma lm_put_val:
  "sp_ok C \<Longrightarrow> i < sp_size C \<Longrightarrow> j < sp_size C \<Longrightarrow> sp_val (lm_put C i cb) j = (if i = j then cb else sp_val C j)"
  by (simp add: lm_put_def sp_val_def sp_size_def rbv_nth_set sp_okD(1))

lemma lm_put_valid [simp]: "sp_isValid T (lm_put C i cb) h = sp_isValid T C h"
  by (simp add: sp_isValid_gen)

lemma pm_storeCb_eq:
  "pm_storeCb (sp_addr (pm_cbs M) i) cb M = M\<lparr>pm_cbs := lm_put (pm_cbs M) i cb\<rparr>"
  by (simp add: pm_storeCb_def lm_put_def sp_addr_def rbv_set_def)

lemma lm_put_cbs_ok:
  assumes ok: "lm_cbs_ok X C ls" and i: "i < sp_size C"
    and cb: "scb_strong cb = scb_strong (sp_val C i)"
  shows "lm_cbs_ok X (lm_put C i cb) ls"
  using ok i cb lm_cbs_okD(1)[OF ok] by (auto simp: lm_cbs_ok_def lm_put_ok lm_put_val)

section \<open>Growth of the control-block pool\<close>

text \<open>Blocks with references are untouched and new blocks have none.\<close>

definition cb_grow :: "(8 word, 'g::len word cb) slot_pool \<Rightarrow> (8 word, 'g word cb) slot_pool \<Rightarrow> bool" where
  "cb_grow C D \<longleftrightarrow> sp_inplace C D \<and>
     (\<forall>i < sp_size D. scb_strong (sp_val D i) \<noteq> 0 \<longrightarrow> i < sp_size C \<and> sp_val D i = sp_val C i)"

lemma cb_grow_refl [simp]: "cb_grow C C \<longleftrightarrow> sp_ok C"
  by (auto simp: cb_grow_def)

lemma cb_grow_trans: "cb_grow C D \<Longrightarrow> cb_grow D E \<Longrightarrow> cb_grow C E"
  unfolding cb_grow_def by (metis sp_inplace_trans)

lemma lm_cbs_ok_resize:
  assumes ok: "lm_cbs_ok X C ls" and r: "sp_resize cb_traits C n = Inr (k, D)"
  shows "lm_cbs_ok X D ls" and "cb_grow C D"
proof -
  note C = lm_cbs_okD(1)[OF ok]
  note s = sp_resize_spec[OF C r]
  note v = sp_resize_val[OF C r]
  have ip: "sp_inplace C D" using C r by (rule sp_resize_inplace)
  show "cb_grow C D"
    using ip v s(2) by (auto simp: cb_grow_def scb_new_def)
  have free: "set (sp_free D) = set (sp_free C) \<union> {sp_size C..<n}"
    using s(5) by auto
  have "i < sp_size C" if "i \<in> set (sp_free C)" for i
    using C that by (rule sp_free_less)
  then have dist: "distinct (sp_free D)"
    using s(5) lm_cbs_okD(2)[OF ok] by fastforce
  have fresh: "lm_refs ls i = 0" if "sp_size C \<le> i" for i
    using lm_cbs_okD(5)[OF ok] that by (fastforce simp: lm_refs_def cnt_eq_0_iff)
  have leases: "ls_pool l \<and> sp_isValid cb_traits D (ls_handle l) \<and>
      sp_slot (ls_handle l) \<notin> set (sp_free D) \<and> ls_cb l = Some (sp_addr D (sp_slot (ls_handle l)))"
    if "l \<in> set ls" for l
    using lm_cbs_okD(3-7)[OF ok that] free s(2,4,6) ip
    by (auto simp: sp_inplace_def intro!: lm_valid_cong[of C])
  have X: "X \<inter> set (sp_free D) = {}" "X \<subseteq> {..<sp_size D}" "\<forall>i \<in> X. lm_refs ls i = 0"
    using ok free s(2,4) by (auto simp: lm_cbs_ok_def)
  have "unat (scb_strong (sp_val D i)) = lm_refs ls i" if "i < sp_size D" for i
    using that v fresh[of i] s(2) lm_cbs_okD(8)[OF ok, of i] by (auto simp: scb_new_def not_less)
  moreover have "sp_created_at D i \<and> (i \<notin> X \<longrightarrow> 0 < lm_refs ls i)"
    if "i < sp_size D" "i \<notin> set (sp_free D)" for i
    using that free s(2,7) lm_cbs_okD(9,10)[OF ok, of i] by auto
  ultimately show "lm_cbs_ok X D ls"
    using s(1) dist X leases by (simp add: lm_cbs_ok_def)
qed

lemma lm_cbs_ok_createRange:
  assumes ok: "lm_cbs_ok X C ls" and r: "sp_createRange cb_traits C a b () () = Inr (k, D)"
  shows "lm_cbs_ok X D ls" and "cb_grow C D"
proof -
  note C = lm_cbs_okD(1)[OF ok]
  have ab: "b \<le> sp_size C" and D: "D = snd (sp_createLoop cb_traits () () [a..<b] True C)"
    using r by (auto simp: sp_createRange_def split: if_splits)
  from sp_createLoop_idle[of cb_traits C "[a..<b]" "()" "()" True] C ab
  have d: "sp_frame C D" "sp_inplace C D"
    "\<And>i. i < sp_size C \<Longrightarrow> sp_val D i = sp_val C i"
    "\<And>i. i < sp_size C \<Longrightarrow> sp_created_at C i \<Longrightarrow> sp_created_at D i"
    by (auto simp: Let_def D)
  then show "cb_grow C D"
    by (auto simp: cb_grow_def sp_frame_okD)
  show "lm_cbs_ok X D ls"
    using ok d sp_inplaceD(4)[OF d(2)] lm_cbs_okD(5)[OF ok]
    by (auto simp: lm_cbs_ok_def sp_frame_okD sp_frame_free sp_frame_isValid)
qed

section \<open>Taking and returning a control block\<close>

lemma lm_cbs_ok_pop:
  assumes ok: "lm_cbs_ok {} C ls" and ne: "sp_free C \<noteq> []" and cr: "sp_created_at C (last (sp_free C))"
  shows "lm_cbs_ok {last (sp_free C)} (sp_pop C) ls" and "cb_grow C (sp_pop C)"
proof -
  let ?i = "last (sp_free C)"
  note C = lm_cbs_okD(1)[OF ok]
  have i: "?i < sp_size C" using C ne by (intro sp_free_less) auto
  have set: "set (sp_free C) = insert ?i (set (butlast (sp_free C)))" "?i \<notin> set (butlast (sp_free C))"
    using insert_Diff[OF last_in_set[OF ne]] distinct_butlast_last[OF ne lm_cbs_okD(2)[OF ok]]
    unfolding set_butlast_distinct[OF ne lm_cbs_okD(2)[OF ok]] by simp_all
  have val: "sp_val (sp_pop C) = sp_val C" "sp_addr (sp_pop C) = sp_addr C" "sp_gen (sp_pop C) = sp_gen C"
    "sp_created_at (sp_pop C) = sp_created_at C" "sp_isValid cb_traits (sp_pop C) = sp_isValid cb_traits C"
    by (simp_all add: fun_eq_iff sp_val_def sp_addr_def sp_gen_def sp_created_at_def sp_isValid_def)
  show "cb_grow C (sp_pop C)"
    using C by (simp add: cb_grow_def sp_pop_inplace val)
  have "lm_refs ls ?i = 0"
    using lm_cbs_okD(6)[OF ok] last_in_set[OF ne] unfolding lm_refs_def cnt_eq_0_iff by metis
  then show "lm_cbs_ok {?i} (sp_pop C) ls"
    using ok i cr set distinct_butlast[OF lm_cbs_okD(2)[OF ok]]
    unfolding lm_cbs_ok_def val sp_pop_fields by (auto simp: sp_ok_pop)
qed

lemma lm_cbs_ok_return:
  assumes ok: "lm_cbs_ok X C ls" and ret: "sp_returned cb_traits h C D"
    and val: "sp_val D = sp_val C" "sp_addr D = sp_addr C" "sp_created_at D = sp_created_at C"
    and out: "sp_slot h \<notin> set (sp_free C)" "lm_refs ls (sp_slot h) = 0"
  shows "lm_cbs_ok (X - {sp_slot h}) D ls"
proof -
  have slot: "sp_slot h < sp_size C" and fr: "sp_free D = sp_free C @ [sp_slot h]" and D: "sp_ok D"
    and sz: "sp_size D = sp_size C"
    and gen: "\<And>i. i < sp_size C \<Longrightarrow> i \<noteq> sp_slot h \<Longrightarrow> sp_gen D i = sp_gen C i"
    using ret sp_isValid_index[of cb_traits C h] by (auto simp: sp_returned_def sp_slot_def)
  have "sp_slot (ls_handle l) \<noteq> sp_slot h" if "l \<in> set ls" for l
    using lm_refs_pos[OF that] out(2) by auto
  then have "ls_pool l \<and> sp_isValid cb_traits D (ls_handle l) \<and>
      sp_slot (ls_handle l) \<notin> set (sp_free D) \<and> ls_cb l = Some (sp_addr D (sp_slot (ls_handle l)))"
    if "l \<in> set ls" for l
    using that lm_cbs_okD(3-7)[OF ok that] gen sz fr val by (auto intro!: lm_valid_cong[of C])
  then show ?thesis
    using ok out fr D sz val by (auto simp: lm_cbs_ok_def)
qed

lemma sp_releaseImpl_val:
  "sp_val (snd (sp_releaseImpl T P h)) = sp_val P" "sp_addr (snd (sp_releaseImpl T P h)) = sp_addr P"
  "sp_created_at (snd (sp_releaseImpl T P h)) = sp_created_at P"
  by (auto simp: fun_eq_iff sp_releaseImpl_def Let_def sp_val_def sp_addr_def sp_created_at_def)

lemma cb_release_eq: "sp_release cb_traits C h = sp_releaseImpl cb_traits C h"
  by (simp add: sp_release_def)

lemma lm_cbs_ok_release:
  assumes ok: "lm_cbs_ok X C ls" and h: "sp_isValid cb_traits C h"
    and out: "sp_slot h \<notin> set (sp_free C)" "lm_refs ls (sp_slot h) = 0"
  shows "lm_cbs_ok (X - {sp_slot h}) (snd (sp_release cb_traits C h)) ls"
    and "cb_grow C (snd (sp_release cb_traits C h))"
proof -
  note C = lm_cbs_okD(1)[OF ok]
  show "lm_cbs_ok (X - {sp_slot h}) (snd (sp_release cb_traits C h)) ls"
    unfolding cb_release_eq
    by (rule lm_cbs_ok_return[OF ok sp_releaseImpl_returned[OF C h] sp_releaseImpl_val out])
  show "cb_grow C (snd (sp_release cb_traits C h))"
    using sp_releaseImpl_inplace[OF C, of cb_traits h] sp_releaseImpl_spec(4)[OF C, of cb_traits h]
    by (simp add: cb_release_eq cb_grow_def sp_releaseImpl_val)
qed

section \<open>The manager\<close>

text \<open>A referenced control block points at a slot of the payload pool.\<close>

definition lm_pay_ok ::
  "('g::len word, 'p) slot_pool \<Rightarrow> (8 word, 'g word cb) slot_pool \<Rightarrow> bool" where
  "lm_pay_ok P C \<longleftrightarrow> sp_ok P \<and>
     (\<forall>i < sp_size C. scb_strong (sp_val C i) \<noteq> 0 \<longrightarrow>
        scb_pool (sp_val C i) = Some () \<and> sp_slot (scb_handle (sp_val C i)) < sp_size P \<and>
        scb_ptr (sp_val C i) = Some (sp_addr P (sp_slot (scb_handle (sp_val C i)))))"

definition lm_ok :: "nat set \<Rightarrow> strong_lease list \<Rightarrow> ('g::len word, 'p) pool_manager \<Rightarrow> bool" where
  "lm_ok X ls M \<longleftrightarrow>
     lm_cbs_ok X (pm_cbs M) ls \<and> lm_pay_ok (pm_payloads M) (pm_cbs M) \<and>
     (ls \<noteq> [] \<longrightarrow> pm_configured M) \<and>
     (pm_configured M \<longrightarrow> pm_payload_block_size M \<noteq> 0 \<and> pm_cb_block_size M \<noteq> 0) \<and>
     (pm_payload_block_size M \<noteq> 0 \<longrightarrow> sp_blockSize (pm_payloads M) = pm_payload_block_size M) \<and>
     (pm_cb_block_size M \<noteq> 0 \<longrightarrow> sp_blockSize (pm_cbs M) = pm_cb_block_size M) \<and>
     length ls < 2 ^ 32"

lemma lm_okD:
  assumes "lm_ok X ls M"
  shows "lm_cbs_ok X (pm_cbs M) ls" "lm_pay_ok (pm_payloads M) (pm_cbs M)"
    "ls \<noteq> [] \<Longrightarrow> pm_configured M" "pm_configured M \<Longrightarrow> pm_payload_block_size M \<noteq> 0"
    "pm_configured M \<Longrightarrow> pm_cb_block_size M \<noteq> 0"
    "pm_payload_block_size M \<noteq> 0 \<Longrightarrow> sp_blockSize (pm_payloads M) = pm_payload_block_size M"
    "pm_cb_block_size M \<noteq> 0 \<Longrightarrow> sp_blockSize (pm_cbs M) = pm_cb_block_size M" "length ls < 2 ^ 32"
    "sp_ok (pm_cbs M)" "sp_ok (pm_payloads M)"
  using assms lm_cbs_okD(1)[of X "pm_cbs M" ls] by (simp_all add: lm_ok_def lm_pay_ok_def)

lemma lm_ok_grow:
  assumes "lm_ok X ls M" "lm_cbs_ok Y D ls" "cb_grow (pm_cbs M) D"
  shows "lm_ok Y ls (M\<lparr>pm_cbs := D\<rparr>)"
proof -
  have "lm_pay_ok (pm_payloads M) D"
    using lm_okD(2)[OF assms(1)] assms(3) by (fastforce simp: lm_pay_ok_def cb_grow_def)
  with assms show ?thesis
    by (auto simp: lm_ok_def cb_grow_def sp_inplaceD(3))
qed

lemma lm_ok_payloads:
  assumes "lm_ok X ls M" "sp_inplace (pm_payloads M) Q"
  shows "lm_ok X ls (M\<lparr>pm_payloads := Q\<rparr>)"
proof -
  have "lm_pay_ok Q (pm_cbs M)"
    using lm_okD(2)[OF assms(1)] assms(2) by (fastforce simp: lm_pay_ok_def sp_inplace_def)
  with assms show ?thesis
    by (auto simp: lm_ok_def sp_inplaceD(3))
qed

lemma lm_ok_new: "lm_ok {} [] pm_new"
proof -
  show ?thesis
    by (simp add: lm_ok_def pm_new_def lm_cbs_ok_def lm_pay_ok_def)
      (simp add: sp_new_def sp_size_def sp_free_def)
qed

subsection \<open>Operations on the payload pool\<close>

text \<open>Every operation on payloads keeps the invariant, whether it returns or throws.\<close>

abbreviation "lm_keeps ls m \<equiv> triple (lm_ok {} ls) m (\<lambda>_. lm_ok {} ls) (\<lambda>_. lm_ok {} ls)"

lemma lm_keeps_onPayloads [triple_rules]:
  assumes "\<And>P x Q. sp_ok P \<Longrightarrow> f P = Inr (x, Q) \<Longrightarrow> sp_inplace P Q"
  shows "lm_keeps ls (pm_onPayloads f)"
  using assms by (auto simp: triple_def pm_onPayloads_def lm_okD(10) intro!: lm_ok_payloads split: sum.split)

lemma lm_keeps_bind [triple_rules]:
  "lm_keeps ls m \<Longrightarrow> (\<And>x. lm_keeps ls (k x)) \<Longrightarrow> lm_keeps ls (bindA m k)"
  by (rule triple_bind)

lemma lm_keeps_payload_calls [triple_rules]:
  "lm_keeps ls (pm_emplacePayload T h r c)" "lm_keeps ls (pm_createAllPayloads T r c)"
  "lm_keeps ls (pm_tryAcquirePayload T)" "lm_keeps ls (pm_tryReservePayload T)"
  unfolding pm_emplacePayload_def pm_createAllPayloads_def pm_tryAcquirePayload_def pm_tryReservePayload_def
  by (rule lm_keeps_onPayloads, metis sp_emplace_inplace sp_createRange_inplace sp_createAll_def
      sp_take_inplace snd_conv sum.inject(2))+

lemma lm_keeps_growPayloadPoolBy [triple_rules]: "lm_keeps ls (pm_growPayloadPoolBy T n)"
proof -
  have "lm_keeps ls (bindA (pm_onPayloads (\<lambda>P. sp_resize T P d)) (\<lambda>_. returnA d))" for d
    by (intro triple_rules) (auto intro: sp_resize_inplace)
  then show ?thesis
    by (auto simp: triple_def pm_growPayloadPoolBy_def Let_def)
qed

lemma lm_keeps_growAndCreate [triple_rules]: "lm_keeps ls (pm_growPayloadPoolByAndCreate T n r c)"
proof -
  have "lm_keeps ls (bindA (pm_growPayloadPoolBy T n) (\<lambda>new_size. if new_size = k then returnA True
      else pm_onPayloads (\<lambda>P. sp_createRange T P k (sp_size P) r c)))" for k
    by (intro triple_rules) (auto intro: sp_createRange_inplace)
  then show ?thesis
    by (auto simp: triple_def pm_growPayloadPoolByAndCreate_def Let_def)
qed

lemma lm_keeps_state:
  "(\<And>M. lm_keeps ls (f M)) \<Longrightarrow> lm_keeps ls (\<lambda>M. f M M)"
  by (simp add: triple_def)

lemma lm_keeps_acquirePayload [triple_rules]: "lm_keeps ls (pm_acquirePayloadOrGrowAndCreate T r c)"
  unfolding pm_acquirePayloadOrGrowAndCreate_def
  by (intro triple_rules lm_keeps_state[of ls "\<lambda>M. pm_growPayloadPoolByAndCreate T (pm_payload_growth M) r c"])

lemma lm_keeps_reservePayload [triple_rules]: "lm_keeps ls (pm_reserveUncreatedPayloadOrGrow T)"
  unfolding pm_reserveUncreatedPayloadOrGrow_def
  by (intro triple_rules lm_keeps_state[of ls "\<lambda>M. pm_growPayloadPoolBy T (pm_payload_growth M)"])

subsection \<open>Shutdown and configuration\<close>

lemma sp_createdSlots_iff:
  "(i, x) \<in> set (sp_createdSlots P) \<longleftrightarrow> i < sp_size P \<and> sp_created_at P i \<and> x = sp_val P i"
  by (auto simp: sp_createdSlots_def sp_created_at_def sp_val_def)

text \<open>The two checks pass only when no lease is alive.\<close>

lemma lm_no_lease:
  assumes ok: "lm_ok {} ls M" and all: "list_all (\<lambda>(_, cb). scb_strong cb = 0) (sp_createdSlots (pm_cbs M))"
  shows "ls = []"
proof (rule ccontr)
  assume "ls \<noteq> []"
  then obtain l where l: "l \<in> set ls" by (cases ls) auto
  let ?i = "sp_slot (ls_handle l)"
  note c = lm_cbs_okD[OF lm_okD(1)[OF ok]]
  have "?i < sp_size (pm_cbs M)" "sp_created_at (pm_cbs M) ?i"
    using c(5,6)[OF l] c(9) by auto
  then have "scb_strong (sp_val (pm_cbs M) ?i) = 0"
    using all by (auto simp: list_all_iff sp_createdSlots_iff)
  with c(8)[of ?i] c(5)[OF l] lm_refs_pos[OF l] show False by simp
qed

lemma lm_checks:
  assumes "lm_ok {} ls M"
  shows "pm_checkCanShutdown M = (Inr (), M') \<Longrightarrow> ls = [] \<and> M' = M"
    "pm_checkCanTeardown M = (Inr (), M') \<Longrightarrow> ls = [] \<and> M' = M"
    "pm_checkCanShutdown M = (Inl e, M') \<Longrightarrow> M' = M" "pm_checkCanTeardown M = (Inl e, M') \<Longrightarrow> M' = M"
  using lm_no_lease[OF assms]
  by (auto simp: pm_checkCanShutdown_def pm_checkCanTeardown_def scb_canShutdown_def
      scb_canTeardown_def scb_strongCount_def split: if_splits)

text \<open>With no lease alive the payload pool may be replaced by any well-formed one.\<close>

lemma lm_ok_free_payloads:
  assumes "lm_ok {} [] M" and "sp_ok Q" and "sp_blockSize Q = sp_blockSize (pm_payloads M)"
  shows "lm_ok {} [] (M\<lparr>pm_payloads := Q\<rparr>)"
proof -
  have "scb_strong (sp_val (pm_cbs M) i) = 0" if "i < sp_size (pm_cbs M)" for i
    using lm_cbs_okD(8)[OF lm_okD(1)[OF assms(1)] that] by (simp add: lm_refs_def unat_eq_0)
  with assms show ?thesis by (auto simp: lm_ok_def lm_pay_ok_def)
qed

lemma lm_checkCanTeardown:
  "triple (lm_ok {} ls) pm_checkCanTeardown (\<lambda>_ M. lm_ok {} ls M \<and> ls = []) (\<lambda>_. lm_ok {} ls)"
  by (rule tripleI) (auto dest: lm_checks)

lemma lm_checkCanShutdown:
  "triple (lm_ok {} ls) pm_checkCanShutdown (\<lambda>_ M. lm_ok {} ls M \<and> ls = []) (\<lambda>_. lm_ok {} ls)"
  by (rule tripleI) (auto dest: lm_checks)

lemma triple_update: "(\<And>s. P s \<Longrightarrow> Q x (f s)) \<Longrightarrow> triple P (\<lambda>s. (Inr x, f s)) Q E"
  by (simp add: triple_def)

lemma triple_cond:
  "triple P m Q E \<Longrightarrow> (\<And>s. P s \<Longrightarrow> Q () s) \<Longrightarrow>
   triple P (\<lambda>s. if b s then m s else (Inr (), s)) Q E"
  by (simp add: triple_def)

lemma lm_shutdownPayloadPool:
  "triple (lm_ok {} ls) (pm_shutdownPayloadPool T r c)
     (\<lambda>_ M. lm_ok {} ls M \<and> ls = []) (\<lambda>_. lm_ok {} ls)"
  unfolding pm_shutdownPayloadPool_def
  by (rule triple_bind[OF lm_checkCanTeardown], rule triple_update)
    (auto simp: sp_clear_spec lm_okD(10) sp_clear_blockSize intro!: lm_ok_free_payloads)

lemma lm_shutdownControlBlockPool:
  "triple (lm_ok {} ls) pm_shutdownControlBlockPool (\<lambda>_ M. lm_ok {} ls M \<and> ls = []) (\<lambda>_. lm_ok {} ls)"
  unfolding pm_shutdownControlBlockPool_def
proof (rule triple_bind[OF lm_checkCanShutdown], rule triple_update)
  fix M :: "('a word, 'b) pool_manager"
  assume "lm_ok {} ls M \<and> ls = []"
  then have ok: "lm_ok {} [] M" and ls: "ls = []" by auto
  have "lm_cbs_ok {} (sp_clear cb_traits (pm_cbs M) () ()) []"
    using sp_clear_spec[OF lm_okD(9)[OF ok], of cb_traits "()" "()"] by (simp add: lm_cbs_ok_def)
  with ok show "lm_ok {} ls (M\<lparr>pm_cbs := sp_clear cb_traits (pm_cbs M) () ()\<rparr>) \<and> ls = []"
    by (auto simp: ls lm_ok_def lm_pay_ok_def sp_clear_spec lm_okD(9)[OF ok] sp_clear_blockSize)
qed

lemma lm_keeps_shutdown: "lm_keeps ls (pm_shutdown T r c)"
proof -
  have "triple (\<lambda>M. lm_ok {} ls M \<and> ls = []) (bindA pm_shutdownControlBlockPool
      (\<lambda>_ M. (Inr (), M\<lparr>pm_configured := False\<rparr>))) (\<lambda>_. lm_ok {} ls) (\<lambda>_. lm_ok {} ls)"
    by (rule triple_bind[where R = "\<lambda>_ M. lm_ok {} ls M \<and> ls = []"],
        rule triple_weaken[OF lm_shutdownControlBlockPool[of ls]])
      (auto intro!: triple_update simp: lm_ok_def)
  from triple_bind[OF lm_shutdownPayloadPool[of ls T r c] this] show ?thesis
    by (simp add: triple_def pm_shutdown_def)
qed

lemma lm_setPayloadBlockSize:
  "triple (lm_ok {} ls) (pm_setPayloadBlockSize n)
     (\<lambda>_ M. lm_ok {} ls M \<and> pm_payload_block_size M \<noteq> 0) (\<lambda>_. lm_ok {} ls)"
proof (cases "n = 0")
  case True
  then show ?thesis by (auto simp: triple_def pm_setPayloadBlockSize_def)
next
  case False
  let ?J = "\<lambda>M :: ('a word, 'b) pool_manager. lm_ok {} ls M \<and> (pm_payload_block_size M = n \<or> ls = [])"
  have chk: "triple (lm_ok {} ls) (\<lambda>M. if pm_payload_block_size M \<noteq> 0 \<and> pm_payload_block_size M \<noteq> n
      then pm_checkCanTeardown M else (Inr (), M)) (\<lambda>_. ?J) (\<lambda>_. lm_ok {} ls)"
  proof (rule triple_split)
    fix M :: "('a word, 'b) pool_manager"
    assume ok: "lm_ok {} ls M"
    have "pm_payload_block_size M = 0 \<Longrightarrow> ls = []"
      using lm_okD(3,4)[OF ok] by blast
    with ok lm_checks(2,4)[OF ok] show "triple (\<lambda>t. t = M) (\<lambda>M. if pm_payload_block_size M \<noteq> 0 \<and>
        pm_payload_block_size M \<noteq> n then pm_checkCanTeardown M else (Inr (), M)) (\<lambda>_. ?J) (\<lambda>_. lm_ok {} ls)"
      by (auto intro!: tripleI split: if_splits)
  qed
  have set: "lm_ok {} ls (M\<lparr>pm_payload_block_size := n, pm_payloads := Q\<rparr>)"
    if M: "?J M" and Q: "sp_setBlockSize (pm_payloads M) n = Inr (k, Q)" for M k Q
  proof -
    have ok: "lm_ok {} ls M" using M by simp
    note P = lm_okD(10)[OF ok]
    have Q': "sp_blockSize Q = n" "sp_ok Q"
      using sp_setBlockSize_blockSize[OF P Q] sp_setBlockSize_frame[OF P Q] by (auto simp: sp_frame_def)
    show ?thesis
    proof (cases "ls = []")
      case True
      have "scb_strong (sp_val (pm_cbs M) i) = 0" if "i < sp_size (pm_cbs M)" for i
        using lm_cbs_okD(8)[OF lm_okD(1)[OF ok] that] True by (simp add: lm_refs_def unat_eq_0)
      then have "lm_pay_ok Q (pm_cbs M)" using Q' by (simp add: lm_pay_ok_def)
      with ok Q' True False show ?thesis by (auto simp: lm_ok_def)
    next
      case ne: False
      then have n: "pm_payload_block_size M = n" using M by simp
      then have "Q = pm_payloads M"
        using sp_setBlockSize_vals(3)[OF P Q] lm_okD(6)[OF ok] False by simp
      moreover have "M\<lparr>pm_payload_block_size := n, pm_payloads := pm_payloads M\<rparr> = M"
        using n by (cases M) simp
      ultimately show ?thesis using ok by simp
    qed
  qed
  have "triple ?J (\<lambda>M. bindA (pm_onPayloads (\<lambda>P. sp_setBlockSize P n)) (\<lambda>_. returnA ())
        (M\<lparr>pm_payload_block_size := n\<rparr>))
      (\<lambda>_ M. lm_ok {} ls M \<and> pm_payload_block_size M \<noteq> 0) (\<lambda>_. lm_ok {} ls)"
  proof (rule triple_split)
    fix M :: "('a word, 'b) pool_manager"
    assume J: "?J M"
    obtain k Q where Q: "sp_setBlockSize (pm_payloads M) n = Inr (k, Q)"
      using sp_setBlockSize_total[OF False] by blast
    with set[OF J Q] False show "triple (\<lambda>t. t = M) (\<lambda>M. bindA (pm_onPayloads (\<lambda>P. sp_setBlockSize P n))
        (\<lambda>_. returnA ()) (M\<lparr>pm_payload_block_size := n\<rparr>))
      (\<lambda>_ M. lm_ok {} ls M \<and> pm_payload_block_size M \<noteq> 0) (\<lambda>_. lm_ok {} ls)"
      by (simp add: triple_def bindA_def pm_onPayloads_def)
  qed
  from triple_bind[OF chk this] False show ?thesis
    by (simp add: triple_def pm_setPayloadBlockSize_def)
qed

lemma lm_setControlBlockBlockSize:
  "triple (lm_ok {} ls) (pm_setControlBlockBlockSize n)
     (\<lambda>_ M. lm_ok {} ls M \<and> pm_cb_block_size M \<noteq> 0) (\<lambda>_. lm_ok {} ls)"
proof (cases "n = 0")
  case True
  then show ?thesis by (auto simp: triple_def pm_setControlBlockBlockSize_def)
next
  case False
  let ?J = "\<lambda>M :: ('a word, 'b) pool_manager. lm_ok {} ls M \<and> (pm_cb_block_size M = n \<or> ls = [])"
  have chk: "triple (lm_ok {} ls) (\<lambda>M. if pm_cb_block_size M \<noteq> 0 \<and> pm_cb_block_size M \<noteq> n
      then pm_checkCanShutdown M else (Inr (), M)) (\<lambda>_. ?J) (\<lambda>_. lm_ok {} ls)"
  proof (rule triple_split)
    fix M :: "('a word, 'b) pool_manager"
    assume ok: "lm_ok {} ls M"
    have "pm_cb_block_size M = 0 \<Longrightarrow> ls = []"
      using lm_okD(3,5)[OF ok] by blast
    with ok lm_checks(1,3)[OF ok] show "triple (\<lambda>t. t = M) (\<lambda>M. if pm_cb_block_size M \<noteq> 0 \<and>
        pm_cb_block_size M \<noteq> n then pm_checkCanShutdown M else (Inr (), M)) (\<lambda>_. ?J) (\<lambda>_. lm_ok {} ls)"
      by (auto intro!: tripleI split: if_splits)
  qed
  have set: "lm_ok {} ls (M\<lparr>pm_cb_block_size := n, pm_cbs := D\<rparr>)"
    if M: "?J M" and D: "sp_setBlockSize (pm_cbs M) n = Inr (k, D)" for M k D
  proof -
    have ok: "lm_ok {} ls M" using M by simp
    note C = lm_okD(9)[OF ok] and cbs = lm_okD(1)[OF ok]
    have fr: "sp_blockSize D = n" "sp_frame (pm_cbs M) D"
      using sp_setBlockSize_blockSize[OF C D] sp_setBlockSize_frame[OF C D] by auto
    note val = sp_setBlockSize_vals(1,2)[OF C D]
    show ?thesis
    proof (cases "ls = []")
      case True
      have zero: "scb_strong (sp_val D i) = 0" if "i < sp_size D" for i
        using lm_cbs_okD(8)[OF cbs, of i] that fr val True by (simp add: lm_refs_def unat_eq_0 sp_frame_okD)
      have "lm_cbs_ok {} D []"
        using cbs fr val zero unfolding lm_cbs_ok_def True
        by (simp add: sp_frame_okD sp_frame_free lm_refs_def)
      moreover have "lm_pay_ok (pm_payloads M) D"
        using zero lm_okD(10)[OF ok] by (simp add: lm_pay_ok_def)
      ultimately show ?thesis using ok fr True False by (auto simp: lm_ok_def)
    next
      case ne: False
      then have n: "pm_cb_block_size M = n" using M by simp
      then have "D = pm_cbs M"
        using sp_setBlockSize_vals(3)[OF C D] lm_okD(7)[OF ok] False by simp
      moreover have "M\<lparr>pm_cb_block_size := n, pm_cbs := pm_cbs M\<rparr> = M"
        using n by (cases M) simp
      ultimately show ?thesis using ok by simp
    qed
  qed
  have "triple ?J (\<lambda>M. bindA (pm_onCbs (\<lambda>P. sp_setBlockSize P n)) (\<lambda>_. returnA ())
        (M\<lparr>pm_cb_block_size := n\<rparr>))
      (\<lambda>_ M. lm_ok {} ls M \<and> pm_cb_block_size M \<noteq> 0) (\<lambda>_. lm_ok {} ls)"
  proof (rule triple_split)
    fix M :: "('a word, 'b) pool_manager"
    assume J: "?J M"
    obtain k D where D: "sp_setBlockSize (pm_cbs M) n = Inr (k, D)"
      using sp_setBlockSize_total[OF False] by blast
    with set[OF J D] False show "triple (\<lambda>t. t = M) (\<lambda>M. bindA (pm_onCbs (\<lambda>P. sp_setBlockSize P n))
        (\<lambda>_. returnA ()) (M\<lparr>pm_cb_block_size := n\<rparr>))
      (\<lambda>_ M. lm_ok {} ls M \<and> pm_cb_block_size M \<noteq> 0) (\<lambda>_. lm_ok {} ls)"
      by (simp add: triple_def bindA_def pm_onCbs_def)
  qed
  from triple_bind[OF chk this] False show ?thesis
    by (simp add: triple_def pm_setControlBlockBlockSize_def)
qed

text \<open>Growing the control-block pool keeps the invariant and the settings.\<close>

lemma lm_onCbs_grow:
  assumes "\<And>C x D. lm_cbs_ok X C ls \<Longrightarrow> f C = Inr (x, D) \<Longrightarrow> lm_cbs_ok X D ls \<and> cb_grow C D"
  shows "triple (\<lambda>M. lm_ok X ls M \<and> S (pm_configured M) (pm_cb_block_size M) (pm_payload_block_size M))
    (pm_onCbs f)
    (\<lambda>_ M. lm_ok X ls M \<and> S (pm_configured M) (pm_cb_block_size M) (pm_payload_block_size M))
    (\<lambda>_. lm_ok X ls)"
proof (rule tripleI)
  fix M x M'
  assume M: "lm_ok X ls M \<and> S (pm_configured M) (pm_cb_block_size M) (pm_payload_block_size M)"
    and r: "pm_onCbs f M = (Inr x, M')"
  then obtain D where D: "f (pm_cbs M) = Inr (x, D)" and M': "M' = M\<lparr>pm_cbs := D\<rparr>"
    by (auto simp: pm_onCbs_def split: sum.splits)
  have "lm_cbs_ok X (pm_cbs M) ls" using M lm_okD(1) by blast
  with assms D have "lm_cbs_ok X D ls \<and> cb_grow (pm_cbs M) D" by blast
  with M show "lm_ok X ls M' \<and> S (pm_configured M') (pm_cb_block_size M') (pm_payload_block_size M')"
    by (auto simp: M' intro: lm_ok_grow)
qed (auto simp: pm_onCbs_def split: sum.splits)

lemma lm_onPayloads_inplace:
  assumes "\<And>P x Q. sp_ok P \<Longrightarrow> f P = Inr (x, Q) \<Longrightarrow> sp_inplace P Q"
  shows "triple (\<lambda>M. lm_ok X ls M \<and> S (pm_configured M) (pm_cb_block_size M) (pm_payload_block_size M))
    (pm_onPayloads f)
    (\<lambda>_ M. lm_ok X ls M \<and> S (pm_configured M) (pm_cb_block_size M) (pm_payload_block_size M))
    (\<lambda>_. lm_ok X ls)"
  using assms by (auto simp: triple_def pm_onPayloads_def lm_okD(10) intro!: lm_ok_payloads split: sum.split)

lemma lm_onCbs_resize: "triple (\<lambda>M. lm_ok X ls M \<and> S (pm_configured M) (pm_cb_block_size M) (pm_payload_block_size M))
    (pm_onCbs (\<lambda>P. sp_resize cb_traits P n))
    (\<lambda>_ M. lm_ok X ls M \<and> S (pm_configured M) (pm_cb_block_size M) (pm_payload_block_size M))
    (\<lambda>_. lm_ok X ls)"
  by (rule lm_onCbs_grow) (auto intro: lm_cbs_ok_resize)

lemma lm_onCbs_createRange: "triple (\<lambda>M. lm_ok X ls M \<and> S (pm_configured M) (pm_cb_block_size M) (pm_payload_block_size M))
    (pm_onCbs (\<lambda>P. sp_createRange cb_traits P a (sp_size P) () ()))
    (\<lambda>_ M. lm_ok X ls M \<and> S (pm_configured M) (pm_cb_block_size M) (pm_payload_block_size M))
    (\<lambda>_. lm_ok X ls)"
  by (rule lm_onCbs_grow) (auto intro: lm_cbs_ok_createRange)

lemma lm_keeps_growControlBlockPool: "lm_keeps ls pm_growControlBlockPool"
proof (rule triple_split)
  fix M :: "('a word, 'b) pool_manager" assume ok: "lm_ok {} ls M"
  note S = lm_onCbs_resize[where S = "\<lambda>_ _ _. True"] lm_onCbs_createRange[where S = "\<lambda>_ _ _. True"]
  have "lm_keeps ls (bindA (pm_onCbs (\<lambda>P. sp_resize cb_traits P d)) (\<lambda>old.
      bindA (pm_onCbs (\<lambda>P. sp_createRange cb_traits P old (sp_size P) () ())) (\<lambda>_. returnA ())))" for d
    using S by (intro triple_bind[where R = "\<lambda>_. lm_ok {} ls"] triple_return) simp_all
  from tripleD[OF this ok] ok show "triple (\<lambda>t. t = M) pm_growControlBlockPool (\<lambda>_. lm_ok {} ls) (\<lambda>_. lm_ok {} ls)"
    by (intro tripleI) (auto simp: pm_growControlBlockPool_def Let_def split: if_splits)
qed

text \<open>
  A configuration call keeps the invariant: where it would discard or move payloads or control
  blocks, its checks have established that no lease is alive.
\<close>

lemma lm_keeps_configure: "lm_keeps ls (pm_configure T cfg r c)"
proof -
  let ?A = "\<lambda>_ M :: ('a word, 'b) pool_manager. lm_ok {} ls M \<and> pm_payload_block_size M \<noteq> 0"
  let ?B = "\<lambda>_ M :: ('a word, 'b) pool_manager. lm_ok {} ls M \<and> pm_payload_block_size M \<noteq> 0 \<and> pm_cb_block_size M \<noteq> 0"
  have shut: "lm_keeps ls (\<lambda>M. if pm_configured M \<and> pm_payload_block_size M \<noteq> cfg_payload_block_size cfg \<and>
      cfg_payload_block_size cfg \<noteq> 0 then pm_shutdownPayloadPool T r c M else (Inr (), M))"
    by (rule triple_cond[OF triple_weaken[OF lm_shutdownPayloadPool[of ls T r c]]]) auto
  have cbsize: "triple (\<lambda>M. lm_ok {} ls M \<and> pm_payload_block_size M \<noteq> 0)
      (pm_setControlBlockBlockSize n) ?B (\<lambda>_. lm_ok {} ls)" for n
  proof (rule tripleI)
    fix M M' :: "('a word, 'b) pool_manager" and x
    assume M: "lm_ok {} ls M \<and> pm_payload_block_size M \<noteq> 0"
      and st: "pm_setControlBlockBlockSize n M = (Inr x, M')"
    from st have "pm_payload_block_size M' = pm_payload_block_size M"
      by (auto simp: pm_setControlBlockBlockSize_def bindA_def pm_onCbs_def pm_checkCanShutdown_def
          split: if_splits sum.splits prod.splits)
    with M tripleD(1)[OF lm_setControlBlockBlockSize _ st, of ls] show "?B x M'" by simp
  qed (use tripleD(2)[OF lm_setControlBlockBlockSize] in blast)
  have cb: "triple (\<lambda>M. lm_ok {} ls M \<and> pm_payload_block_size M \<noteq> 0)
      (pm_applyControlBlockConfig cap n) ?B (\<lambda>_. lm_ok {} ls)" for cap n
    unfolding pm_applyControlBlockConfig_def
    by (intro triple_bind[OF cbsize] triple_if triple_return triple_throw
        triple_bind[OF lm_onCbs_resize[where S = "\<lambda>_ c p. p \<noteq> 0 \<and> c \<noteq> 0"]]
        triple_bind[OF lm_onCbs_createRange[where S = "\<lambda>_ c p. p \<noteq> 0 \<and> c \<noteq> 0"]]) auto
  have set: "triple (\<lambda>M. lm_ok {} ls M \<and> pm_payload_block_size M \<noteq> 0 \<and> pm_cb_block_size M \<noteq> 0)
      (pm_setControlBlockGrowth n) ?B (\<lambda>_. lm_ok {} ls)"
    "triple (\<lambda>M. lm_ok {} ls M \<and> pm_payload_block_size M \<noteq> 0 \<and> pm_cb_block_size M \<noteq> 0)
      (pm_setPayloadGrowth n) ?B (\<lambda>_. lm_ok {} ls)" for n
    by (auto simp: triple_def pm_setControlBlockGrowth_def pm_setPayloadGrowth_def lm_ok_def)
  have resize: "triple (\<lambda>M. lm_ok {} ls M \<and> pm_payload_block_size M \<noteq> 0)
      (pm_onPayloads (\<lambda>P. sp_resize T P n)) ?A (\<lambda>_. lm_ok {} ls)" for n
    using lm_onPayloads_inplace[where S = "\<lambda>_ _ p. p \<noteq> 0", OF sp_resize_inplace] .
  have validate: "lm_keeps ls (\<lambda>M. (pm_validateParameters cfg, M))"
    by (auto simp: triple_def split: sum.split)
  show ?thesis
    unfolding pm_configure_def
    by (intro triple_bind[OF validate] triple_bind[OF shut] triple_bind[OF lm_setPayloadBlockSize]
        triple_bind[OF resize] triple_bind[OF cb] triple_bind[OF set(1)] triple_bind[OF set(2)] triple_update)
      (auto simp: lm_ok_def)
qed

subsection \<open>Acquiring a lease\<close>

definition lm_taken :: "strong_lease list \<Rightarrow> 8 word handle \<Rightarrow> ('g::len word, 'p) pool_manager \<Rightarrow> bool" where
  "lm_taken ls h M \<longleftrightarrow> lm_ok {sp_slot h} ls M \<and> sp_isValid cb_traits (pm_cbs M) h \<and>
     sp_slot h \<notin> set (sp_free (pm_cbs M))"

lemma lm_tryAcquireCb:
  "triple (\<lambda>M. lm_ok {} ls M \<and> S (pm_configured M) (pm_payloads M)) pm_tryAcquireCb
     (\<lambda>h M. S (pm_configured M) (pm_payloads M) \<and>
        (if handle_isValid h then lm_taken ls h M else lm_ok {} ls M)) (\<lambda>_. lm_ok {} ls)"
proof (rule tripleI)
  fix M h and M' :: "('a word, 'b) pool_manager"
  assume M: "lm_ok {} ls M \<and> S (pm_configured M) (pm_payloads M)" and r: "pm_tryAcquireCb M = (Inr h, M')"
  then have ok: "lm_ok {} ls M" by simp
  note C = lm_okD(9)[OF ok]
  let ?C = "pm_cbs M"
  have M': "(h, pm_cbs M') = sp_take cb_traits True ?C" "M' = M\<lparr>pm_cbs := pm_cbs M'\<rparr>"
    using r by (auto simp: pm_tryAcquireCb_def pm_onCbs_def sp_take_def split: prod.splits)
  show "S (pm_configured M') (pm_payloads M') \<and> (if handle_isValid h then lm_taken ls h M' else lm_ok {} ls M')"
  proof (cases "sp_free ?C \<noteq> [] \<and> sp_created_at ?C (last (sp_free ?C))")
    case True
    let ?i = "last (sp_free ?C)"
    have i: "?i \<in> set (sp_free ?C)" using True by simp
    have h: "h = sp_makeHandle cb_traits ?C (word_of_nat ?i)" and C': "pm_cbs M' = sp_pop ?C"
      using M'(1) True by (simp_all add: sp_take_eq[OF C])
    have slot: "sp_slot h = ?i" and valid: "handle_isValid h"
      using sp_makeHandle_word(1)[OF C i] sp_makeHandle_word(2)[OF C i, of cb_traits]
      by (simp_all add: h sp_slot_def)
    have "sp_isValid cb_traits ?C h"
      using sp_free_less[OF C i] sp_makeHandle_word(1)[OF C i] by (simp add: h)
    then have "sp_isValid cb_traits (sp_pop ?C) h"
      by (simp add: sp_isValid_gen sp_gen_def)
    moreover have "?i \<notin> set (butlast (sp_free ?C))"
      using distinct_butlast_last[of "sp_free ?C"] True lm_cbs_okD(2)[OF lm_okD(1)[OF ok]] by blast
    moreover have "lm_ok {?i} ls (M\<lparr>pm_cbs := sp_pop ?C\<rparr>)"
      using lm_cbs_ok_pop[OF lm_okD(1)[OF ok]] True by (intro lm_ok_grow[OF ok]) auto
    moreover have "M' = M\<lparr>pm_cbs := sp_pop ?C\<rparr>" using M'(2) C' by simp
    ultimately show ?thesis
      using M valid slot by (simp add: lm_taken_def)
  next
    case False
    then have "h = handle_invalid" "pm_cbs M' = ?C"
      using M'(1) by (auto simp: sp_take_eq[OF C] split: if_splits)
    moreover from this M'(2) have "M' = M" by simp
    ultimately show ?thesis using M by simp
  qed
qed (auto simp: pm_tryAcquireCb_def pm_onCbs_def split: prod.splits)

lemma lm_growControlBlockPool_settings:
  assumes "pm_growControlBlockPool M = (Inr x, M')"
  shows "pm_configured M' = pm_configured M" "pm_payloads M' = pm_payloads M"
  using assms
  by (auto simp: pm_growControlBlockPool_def Let_def bindA_def pm_onCbs_def split: if_splits sum.splits prod.splits)

lemma lm_acquireControlBlock:
  "triple (\<lambda>M. lm_ok {} ls M \<and> S (pm_configured M) (pm_payloads M)) pm_acquireControlBlock
     (\<lambda>h M. lm_taken ls h M \<and> S (pm_configured M) (pm_payloads M)) (\<lambda>_. lm_ok {} ls)"
proof -
  let ?I = "\<lambda>M :: ('a word, 'b) pool_manager. lm_ok {} ls M \<and> S (pm_configured M) (pm_payloads M)"
  let ?R = "\<lambda>h M :: ('a word, 'b) pool_manager. S (pm_configured M) (pm_payloads M) \<and>
    (if handle_isValid h then lm_taken ls h M else lm_ok {} ls M)"
  have grow: "triple ?I pm_growControlBlockPool (\<lambda>_. ?I) (\<lambda>_. lm_ok {} ls)"
  proof (rule tripleI)
    fix M M' :: "('a word, 'b) pool_manager" and x
    assume M: "?I M" and r: "pm_growControlBlockPool M = (Inr x, M')"
    then have "lm_ok {} ls M'"
      using tripleD(1)[OF lm_keeps_growControlBlockPool _ r, of ls] by simp
    then show "?I M'" using M lm_growControlBlockPool_settings[OF r] by simp
  next
    fix M M' :: "('a word, 'b) pool_manager" and e
    assume M: "?I M" and r: "pm_growControlBlockPool M = (Inl e, M')"
    then show "lm_ok {} ls M'"
      using tripleD(2)[OF lm_keeps_growControlBlockPool _ r, of ls] by simp
  qed
  show ?thesis
    unfolding pm_acquireControlBlock_def
  proof (rule triple_bind[OF lm_tryAcquireCb])
    fix h
    have "triple (?R h) (if \<not> handle_isValid h then bindA pm_growControlBlockPool (\<lambda>_. pm_tryAcquireCb)
        else returnA h) ?R (\<lambda>_. lm_ok {} ls)"
    proof (cases "handle_isValid h")
      case False
      have "triple ?I (bindA pm_growControlBlockPool (\<lambda>_. pm_tryAcquireCb)) ?R (\<lambda>_. lm_ok {} ls)"
        by (rule triple_bind[OF grow lm_tryAcquireCb])
      then show ?thesis
        using False by (simp add: conj_commute)
    qed (auto intro: triple_return)
    then show "triple (?R h) (bindA (if \<not> handle_isValid h then bindA pm_growControlBlockPool (\<lambda>_. pm_tryAcquireCb)
        else returnA h) (\<lambda>h. if \<not> handle_isValid h then throwA OutOfRange else returnA h))
        (\<lambda>h M. lm_taken ls h M \<and> S (pm_configured M) (pm_payloads M)) (\<lambda>_. lm_ok {} ls)"
      by (rule triple_bind) (auto intro!: triple_throw triple_return)
  qed
qed

text \<open>The last step: the taken block is bound to the payload and gets its first reference.\<close>

lemma lm_lease_taken:
  assumes t: "lm_taken ls h M" and conf: "pm_configured M" and hp: "sp_isValid T (pm_payloads M) hp"
    and len: "Suc (length ls) < 2 ^ 32"
    and a: "a = sp_addr (pm_cbs M) (sp_slot h)" and cb: "cb = sp_val (pm_cbs M) (sp_slot h)"
    and p: "p = sp_addr (pm_payloads M) (sp_slot hp)"
  shows "lm_ok {} (\<lparr>ls_cb = Some a, ls_pool = True, ls_handle = h\<rparr> # ls)
    (M\<lparr>pm_cbs := lm_put (pm_cbs M) (sp_slot h) (scb_acquireStrong (scb_bindPayload hp p (Some ()) cb))\<rparr>)"
proof -
  let ?i = "sp_slot h" and ?C = "pm_cbs M"
  have ok: "lm_ok {?i} ls M" and valid: "sp_isValid cb_traits ?C h" and out: "?i \<notin> set (sp_free ?C)"
    using t by (auto simp: lm_taken_def)
  note cbs = lm_okD(1)[OF ok] and C = lm_okD(9)[OF ok]
  have i: "?i < sp_size ?C" using sp_isValid_index[OF valid] by (simp add: sp_slot_def)
  have refs: "lm_refs ls ?i = 0" using cbs by (simp add: lm_cbs_ok_def)
  then have zero: "scb_strong cb = 0" using lm_cbs_okD(8)[OF cbs i] cb by (simp add: unat_eq_0)
  let ?cb = "scb_acquireStrong (scb_bindPayload hp p (Some ()) cb)"
  have f: "scb_strong ?cb = 1" "scb_pool ?cb = Some ()" "scb_handle ?cb = hp" "scb_ptr ?cb = Some p"
    using zero by (simp_all add: scb_acquireStrong_def scb_bindPayload_def)
  let ?ls = "\<lparr>ls_cb = Some a, ls_pool = True, ls_handle = h\<rparr> # ls"
  have cnt: "lm_refs ?ls j = (if j = ?i then 1 else lm_refs ls j)" for j
    using refs by (auto simp: lm_refs_Cons)
  have "lm_cbs_ok {} (lm_put ?C ?i ?cb) ?ls"
    using cbs i valid out f(1) C lm_put_val[OF C i, of _ ?cb]
    unfolding lm_cbs_ok_def cnt by (auto simp: lm_put_ok a)
  moreover have "lm_pay_ok (pm_payloads M) (lm_put ?C ?i ?cb)"
    using lm_okD(2)[OF ok] f sp_isValid_index[OF hp] lm_put_val[OF C i, of _ ?cb]
    by (auto simp: lm_pay_ok_def p sp_slot_def)
  ultimately show ?thesis
    using ok conf len by (simp add: lm_ok_def)
qed

text \<open>Acquiring either adds a lease or throws with the leases as they were; nothing dangles.\<close>

lemma lm_acquireLease:
  assumes len: "Suc (length ls) < 2 ^ 32"
  shows "triple (lm_ok {} ls) (pm_acquireLease T hp)
    (\<lambda>l M. lm_ok {} (l # ls) M \<and> sl_valid l) (\<lambda>e M. lm_ok {} ls M)"
proof (rule triple_split)
  fix M :: "('a word, 'b) pool_manager"
  assume ok: "lm_ok {} ls M"
  show "triple (\<lambda>t. t = M) (pm_acquireLease T hp) (\<lambda>l M. lm_ok {} (l # ls) M \<and> sl_valid l) (\<lambda>e. lm_ok {} ls)"
  proof (cases "pm_configured M \<and> sp_isValid T (pm_payloads M) hp \<and> sp_isCreated T (pm_payloads M) hp")
    case False
    with ok show ?thesis
      by (auto simp: triple_def pm_acquireLease_def bindA_def pm_ensureConfigured_def)
  next
    case True
    let ?p = "sp_addr (pm_payloads M) (sp_slot hp)"
    let ?S = "\<lambda>c P. c \<and> P = pm_payloads M"
    let ?k = "\<lambda>h M. case sp_get cb_traits (pm_cbs M) h of
        None \<Rightarrow> (Inl DanglingPointer, M)
      | Some a \<Rightarrow> (case pm_cb_mem M a of
          None \<Rightarrow> (Inl DanglingPointer, M)
        | Some cb \<Rightarrow> (case scb_tryBindPayload hp ?p (Some ()) cb of
            (False, _) \<Rightarrow> bindA (pm_releaseControlBlock h) (\<lambda>_. throwA InvalidState) M
          | (True, cb') \<Rightarrow> sl_construct a h (pm_storeCb a cb' M)))"
    have eq: "pm_acquireLease T hp M = bindA pm_acquireControlBlock ?k M"
      using True by (simp add: pm_acquireLease_def bindA_def pm_ensureConfigured_def sp_get_addr)
    have k: "triple (\<lambda>N. lm_taken ls h N \<and> ?S (pm_configured N) (pm_payloads N)) (?k h)
        (\<lambda>l M. lm_ok {} (l # ls) M \<and> sl_valid l) (\<lambda>e. lm_ok {} ls)" for h
    proof (rule triple_split)
      fix N assume N: "lm_taken ls h N \<and> ?S (pm_configured N) (pm_payloads N)"
      let ?i = "sp_slot h" and ?C = "pm_cbs N"
      have okN: "lm_ok {?i} ls N" and valid: "sp_isValid cb_traits ?C h" and out: "?i \<notin> set (sp_free ?C)"
        using N by (auto simp: lm_taken_def)
      note C = lm_okD(9)[OF okN] and cbs = lm_okD(1)[OF okN]
      have i: "?i < sp_size ?C" using sp_isValid_index[OF valid] by (simp add: sp_slot_def)
      have mem: "pm_cb_mem N (sp_addr ?C ?i) = Some (sp_val ?C ?i)" using sp_mem_addr[OF C i] .
      have get: "sp_get cb_traits ?C h = Some (sp_addr ?C ?i)" using valid by (simp add: sp_get_addr)
      let ?b = "scb_bindPayload hp ?p (Some ()) (sp_val ?C ?i)"
      show "triple (\<lambda>t. t = N) (?k h) (\<lambda>l M. lm_ok {} (l # ls) M \<and> sl_valid l) (\<lambda>e. lm_ok {} ls)"
      proof (cases "scb_canBindPayload (sp_val ?C ?i)")
        case False
        have "lm_refs ls ?i = 0" using cbs by (simp add: lm_cbs_ok_def)
        then have "lm_ok {} ls (N\<lparr>pm_cbs := snd (sp_release cb_traits ?C h)\<rparr>)"
          using lm_cbs_ok_release[OF cbs valid out] by (intro lm_ok_grow[OF okN]) auto
        with False show ?thesis
          by (simp add: triple_def get mem scb_tryBindPayload_def bindA_def pm_releaseControlBlock_def)
      next
        case bind: True
        let ?b' = "scb_acquireStrong ?b"
        have con: "sl_construct (sp_addr ?C ?i) h (pm_storeCb (sp_addr ?C ?i) ?b N) =
            (Inr \<lparr>ls_cb = Some (sp_addr ?C ?i), ls_pool = True, ls_handle = h\<rparr>,
             N\<lparr>pm_cbs := lm_put ?C ?i ?b'\<rparr>)"
          by (simp add: sl_construct_def pm_storeCb_def lm_put_def sp_addr_def rbv_set_def)
        have "lm_ok {} (\<lparr>ls_cb = Some (sp_addr ?C ?i), ls_pool = True, ls_handle = h\<rparr> # ls)
            (N\<lparr>pm_cbs := lm_put ?C ?i (scb_acquireStrong ?b)\<rparr>)"
          using N True len by (intro lm_lease_taken) auto
        with bind show ?thesis
          by (simp add: triple_def get mem scb_tryBindPayload_def con sl_valid_def)
      qed
    qed
    have "triple (\<lambda>N. lm_ok {} ls N \<and> ?S (pm_configured N) (pm_payloads N))
        (bindA pm_acquireControlBlock ?k) (\<lambda>l M. lm_ok {} (l # ls) M \<and> sl_valid l) (\<lambda>e. lm_ok {} ls)"
      by (rule triple_bind[OF lm_acquireControlBlock k])
    then show ?thesis using ok eq True by (simp add: triple_def)
  qed
qed

subsection \<open>Copying and releasing leases\<close>

lemma lm_lease_mem:
  assumes ok: "lm_ok {} ls M" and l: "l \<in> set ls"
  shows "ls_cb l = Some (sp_addr (pm_cbs M) (sp_slot (ls_handle l)))"
    "pm_cb_mem M (sp_addr (pm_cbs M) (sp_slot (ls_handle l))) = Some (sp_val (pm_cbs M) (sp_slot (ls_handle l)))"
    "unat (scb_strong (sp_val (pm_cbs M) (sp_slot (ls_handle l)))) = lm_refs ls (sp_slot (ls_handle l))"
  using lm_cbs_okD(5,7,8)[OF lm_okD(1)[OF ok]] l sp_mem_addr[OF lm_okD(9)[OF ok]] by blast+

lemma lm_copy:
  assumes ok: "lm_ok {} ls M" and l: "l \<in> set ls" and len: "Suc (length ls) < 2 ^ 32"
  shows "\<exists>M'. sl_copyFrom l M = (Inr l, M') \<and> lm_ok {} (l # ls) M'"
proof -
  let ?i = "sp_slot (ls_handle l)" and ?C = "pm_cbs M"
  note cbs = lm_okD(1)[OF ok] and C = lm_okD(9)[OF ok] and mem = lm_lease_mem[OF ok l]
  have i: "?i < sp_size ?C" using lm_cbs_okD(5)[OF cbs l] .
  let ?cb = "scb_acquireStrong (sp_val ?C ?i)" and ?M' = "M\<lparr>pm_cbs := lm_put ?C ?i (scb_acquireStrong (sp_val ?C ?i))\<rparr>"
  have eq: "sl_copyFrom l M = (Inr l, ?M')"
    using mem(1,2) by (simp add: sl_copyFrom_def pm_storeCb_eq)
  have strong: "unat (scb_strong ?cb) = Suc (lm_refs ls ?i)"
    using lm_refs_le[of ls ?i] len mem(3)
    by (simp add: scb_acquireStrong_def unat_word_ariths)
  have same: "scb_pool ?cb = scb_pool (sp_val ?C ?i)" "scb_handle ?cb = scb_handle (sp_val ?C ?i)"
    "scb_ptr ?cb = scb_ptr (sp_val ?C ?i)" by (simp_all add: scb_acquireStrong_def)
  have nz: "scb_strong (sp_val ?C ?i) \<noteq> 0"
    using mem(3) lm_refs_pos[OF l] by auto
  have "lm_cbs_ok {} (lm_put ?C ?i ?cb) (l # ls)"
    using cbs i l strong C lm_put_val[OF C i, of _ ?cb]
    unfolding lm_cbs_ok_def by (auto simp: lm_put_ok lm_refs_Cons)
  moreover have "lm_pay_ok (pm_payloads M) (lm_put ?C ?i ?cb)"
    using lm_okD(2)[OF ok] same nz i lm_put_val[OF C i, of _ ?cb] by (auto simp: lm_pay_ok_def)
  moreover have "pm_configured M" using lm_okD(3)[OF ok] l by (cases ls) auto
  ultimately have "lm_ok {} (l # ls) ?M'"
    using ok len by (simp add: lm_ok_def)
  with eq show ?thesis by blast
qed

text \<open>One reference less on the block of a lease.\<close>

lemma lm_cbs_ok_drop:
  assumes cbs: "lm_cbs_ok {} C ls" and l: "l \<in> set ls"
    and cb: "scb_strong cb = scb_strong (sp_val C (sp_slot (ls_handle l))) - 1"
  shows "lm_cbs_ok (if lm_refs ls (sp_slot (ls_handle l)) = 1 then {sp_slot (ls_handle l)} else {})
    (lm_put C (sp_slot (ls_handle l)) cb) (remove1 l ls)"
proof -
  let ?i = "sp_slot (ls_handle l)" and ?ls = "remove1 l ls"
  note C = lm_cbs_okD(1)[OF cbs]
  have i: "?i < sp_size C" and out: "?i \<notin> set (sp_free C)" using lm_cbs_okD(5,6)[OF cbs l] by auto
  have refs: "lm_refs ls j = (if ?i = j then 1 else 0) + lm_refs ?ls j" for j
    by (rule lm_refs_remove1[OF l])
  have "scb_strong (sp_val C ?i) \<noteq> 0"
    using lm_cbs_okD(8)[OF cbs i] lm_refs_pos[OF l] by auto
  then have strong: "unat (scb_strong cb) = lm_refs ls ?i - 1"
    using lm_cbs_okD(8)[OF cbs i] cb by (simp add: unat_minus_one)
  have "set ?ls \<subseteq> set ls" by (rule set_remove1_subset)
  with cbs i out strong refs C lm_put_val[OF C i, of _ cb] show ?thesis
    unfolding lm_cbs_ok_def by (auto simp: lm_put_ok split: if_splits)
qed

lemma lm_tryRelease_payloads:
  assumes "sp_ok P" and "scb_tryReleasePayload (\<lambda>_ h P. sp_release T P h) cb P = (cb', P')"
  shows "sp_inplace P P'" "scb_strong cb' = scb_strong cb"
  using assms sp_release_inplace[OF assms(1), of T "scb_handle cb"]
  by (auto simp: scb_tryReleasePayload_def scb_clearPayload_def split: if_splits option.splits prod.splits)

lemma lm_release:
  assumes ok: "lm_ok {} ls M" and l: "l \<in> set ls"
  shows "\<exists>M'. sl_release T l M = (Inr ls_invalid, M') \<and> lm_ok {} (remove1 l ls) M'"
proof -
  let ?i = "sp_slot (ls_handle l)" and ?C = "pm_cbs M" and ?ls = "remove1 l ls"
  note cbs = lm_okD(1)[OF ok] and C = lm_okD(9)[OF ok] and P = lm_okD(10)[OF ok] and mem = lm_lease_mem[OF ok l]
  have i: "?i < sp_size ?C" and out: "?i \<notin> set (sp_free ?C)" using lm_cbs_okD(5,6)[OF cbs l] by auto
  let ?cb = "sp_val ?C ?i" and ?rel = "\<lambda>_ h P. sp_release T P h"
  have nz: "scb_strong ?cb \<noteq> 0" using mem(3) lm_refs_pos[OF l] by auto
  have one: "scb_strong ?cb = 1 \<longleftrightarrow> lm_refs ls ?i = 1"
    using mem(3) by (simp add: word_unat_eq_iff)
  obtain b cb' P' where rel: "scb_releaseStrong ?rel ?cb (pm_payloads M) = (b, cb', P')"
    by (cases "scb_releaseStrong ?rel ?cb (pm_payloads M)") auto
  have cb': "scb_strong cb' = scb_strong ?cb - 1" "sp_inplace (pm_payloads M) P'" "b \<longleftrightarrow> lm_refs ls ?i = 1"
    using rel nz one P lm_tryRelease_payloads[OF P, of T "?cb\<lparr>scb_strong := scb_strong ?cb - 1\<rparr>" cb' P']
    by (auto simp: scb_releaseStrong_def Let_def split: if_splits)
  have keep: "scb_pool cb' = scb_pool ?cb \<and> scb_handle cb' = scb_handle ?cb \<and> scb_ptr cb' = scb_ptr ?cb"
    if "scb_strong cb' \<noteq> 0"
    using that rel nz by (auto simp: scb_releaseStrong_def Let_def lm_tryRelease_payloads(2)[OF P] split: if_splits)
  let ?D = "lm_put ?C ?i cb'" and ?X = "if lm_refs ls ?i = 1 then {?i} else {}"
  have D: "lm_cbs_ok ?X ?D ?ls" by (rule lm_cbs_ok_drop[OF cbs l cb'(1)])
  have pay: "lm_pay_ok P' ?D"
    using lm_okD(2)[OF ok] cb'(2) keep nz i lm_put_val[OF C i, of _ cb']
    by (fastforce simp: lm_pay_ok_def sp_inplace_def split: if_splits)
  let ?M' = "M\<lparr>pm_cbs := ?D, pm_payloads := P'\<rparr>"
  have "?ls \<noteq> [] \<longrightarrow> pm_configured M" using lm_okD(3)[OF ok] l by (cases ls) auto
  moreover have "length ?ls < 2 ^ 32" using lm_okD(8)[OF ok] l by (simp add: length_remove1)
  ultimately have M': "lm_ok ?X ?ls ?M'"
    using ok D pay cb'(2) by (simp add: lm_ok_def sp_inplaceD(3))
  let ?M'' = "if b then ?M'\<lparr>pm_cbs := snd (sp_release cb_traits ?D (ls_handle l))\<rparr> else ?M'"
  have sd: "scb_canShutdown cb' \<longleftrightarrow> lm_refs ls ?i = 1"
    using one cb'(1) nz by (auto simp: scb_canShutdown_def scb_strongCount_def eq_diff_eq)
  have "sl_release T l M = (Inr ls_invalid, ?M'')"
    using mem rel lm_cbs_okD(3)[OF cbs l] sd cb'(3) by (simp add: sl_release_def pm_storeCb_eq Let_def)
  moreover have "lm_ok {} ?ls ?M''"
  proof (cases b)
    case True
    then have refs: "lm_refs ls ?i = 1" "lm_refs ?ls ?i = 0" using cb'(3) lm_refs_remove1[OF l, of ?i] by auto
    have v: "sp_isValid cb_traits ?D (ls_handle l)" using lm_cbs_okD(4)[OF cbs l] by simp
    from lm_cbs_ok_release[OF D v] out refs M' True show ?thesis
      using lm_ok_grow[OF M'] by auto
  qed (use M' cb'(3) in simp)
  ultimately show ?thesis by blast
qed

section \<open>Clients\<close>

text \<open>The operations of a manager that do not hand out a lease; a throwing one counts as called.\<close>

datatype ('w, 'r, 'c) pm_call =
    Configure pm_config 'r 'c
  | Shutdown 'r 'c
  | SetControlBlockBlockSize nat
  | SetPayloadBlockSize nat
  | SetControlBlockGrowth nat
  | SetPayloadGrowth nat
  | EmplacePayload "'w handle" 'r 'c
  | CreateAllPayloads 'r 'c
  | AcquirePayloadOrGrow 'r 'c
  | ReservePayloadOrGrow

fun pm_exec ::
  "('g::len word, 'p, 'r, 'c) pool_traits \<Rightarrow> ('g word, 'r, 'c) pm_call \<Rightarrow>
   ('g word, 'p) pool_manager \<Rightarrow> ('g word, 'p) pool_manager" where
  "pm_exec T (Configure cfg r c) M = snd (pm_configure T cfg r c M)"
| "pm_exec T (Shutdown r c) M = snd (pm_shutdown T r c M)"
| "pm_exec T (SetControlBlockBlockSize n) M = snd (pm_setControlBlockBlockSize n M)"
| "pm_exec T (SetPayloadBlockSize n) M = snd (pm_setPayloadBlockSize n M)"
| "pm_exec T (SetControlBlockGrowth n) M = snd (pm_setControlBlockGrowth n M)"
| "pm_exec T (SetPayloadGrowth n) M = snd (pm_setPayloadGrowth n M)"
| "pm_exec T (EmplacePayload h r c) M = snd (pm_emplacePayload T h r c M)"
| "pm_exec T (CreateAllPayloads r c) M = snd (pm_createAllPayloads T r c M)"
| "pm_exec T (AcquirePayloadOrGrow r c) M = snd (pm_acquirePayloadOrGrowAndCreate T r c M)"
| "pm_exec T ReservePayloadOrGrow M = snd (pm_reserveUncreatedPayloadOrGrow T M)"

text \<open>Fewer than \<open>2^32\<close> leases are alive at any time.\<close>

inductive lm_client ::
  "('g::len word, 'p, 'r, 'c) pool_traits \<Rightarrow> ('g word, 'p) pool_manager \<Rightarrow> strong_lease list \<Rightarrow> bool"
  for T where
  lm_start: "lm_client T pm_new []"
| lm_call: "lm_client T M ls \<Longrightarrow> lm_client T (pm_exec T call M) ls"
| lm_acquired: "lm_client T M ls \<Longrightarrow> Suc (length ls) < 2 ^ 32 \<Longrightarrow>
    pm_acquireLease T h M = (Inr l, M') \<Longrightarrow> lm_client T M' (l # ls)"
| lm_acquire_failed: "lm_client T M ls \<Longrightarrow> Suc (length ls) < 2 ^ 32 \<Longrightarrow>
    pm_acquireLease T h M = (Inl e, M') \<Longrightarrow> lm_client T M' ls"
| lm_copied: "lm_client T M ls \<Longrightarrow> l \<in> set ls \<Longrightarrow> Suc (length ls) < 2 ^ 32 \<Longrightarrow>
    sl_copyFrom l M = (Inr k, M') \<Longrightarrow> lm_client T M' (k # ls)"
| lm_released: "lm_client T M ls \<Longrightarrow> l \<in> set ls \<Longrightarrow> sl_release T l M = (Inr k, M') \<Longrightarrow>
    lm_client T M' (remove1 l ls)"

lemma lm_keeps_snd: "lm_keeps ls m \<Longrightarrow> lm_ok {} ls M \<Longrightarrow> lm_ok {} ls (snd (m M))"
  by (cases "m M"; cases "fst (m M)") (auto dest: tripleD)

lemma lm_keeps_exec:
  assumes "lm_ok {} ls M" shows "lm_ok {} ls (pm_exec T call M)"
proof -
  have block: "lm_keeps ls (pm_setPayloadBlockSize n)" "lm_keeps ls (pm_setControlBlockBlockSize n)" for n
    by (rule triple_weaken[OF lm_setPayloadBlockSize] triple_weaken[OF lm_setControlBlockBlockSize]; simp)+
  have growth: "lm_keeps ls (pm_setControlBlockGrowth n)" "lm_keeps ls (pm_setPayloadGrowth n)" for n
    by (auto simp: triple_def pm_setControlBlockGrowth_def pm_setPayloadGrowth_def lm_ok_def)
  show ?thesis
    by (cases call) (simp_all only: pm_exec.simps lm_keeps_snd[OF _ assms] lm_keeps_configure
        lm_keeps_shutdown block growth lm_keeps_payload_calls(1,2) lm_keeps_acquirePayload
        lm_keeps_reservePayload)
qed

lemma lm_client_ok: "lm_client T M ls \<Longrightarrow> lm_ok {} ls M"
proof (induction rule: lm_client.induct)
  case lm_start
  show ?case by (rule lm_ok_new)
next
  case (lm_call M ls call)
  from lm_call.IH show ?case by (rule lm_keeps_exec)
next
  case (lm_acquired M ls h l M')
  then show ?case using tripleD(1)[OF lm_acquireLease[of ls T h]] by blast
next
  case (lm_acquire_failed M ls h e M')
  then show ?case using tripleD(2)[OF lm_acquireLease[of ls T h]] by blast
next
  case (lm_copied M ls l k M')
  then show ?case using lm_copy[of ls M l] by fastforce
next
  case (lm_released M ls l k M')
  then show ?case using lm_release[of ls M l T] by fastforce
qed

lemma lm_client_acquireI:
  "lm_client T M ls \<Longrightarrow> Suc (length ls) < 2 ^ 32 \<Longrightarrow> fst (pm_acquireLease T h M) = Inr l \<Longrightarrow>
   lm_client T (snd (pm_acquireLease T h M)) (l # ls)"
  by (rule lm_acquired[of T M ls h]) (simp_all add: prod_eq_iff)

text \<open>Leases on the same control block are those with its slot.\<close>

lemma lm_refs_address:
  assumes ok: "lm_ok {} ls M" and l: "l \<in> set ls"
  shows "lm_refs ls (sp_slot (ls_handle l)) = length (filter (\<lambda>k. ls_cb k = ls_cb l) ls)"
proof -
  have "(sp_slot (ls_handle k) = sp_slot (ls_handle l)) = (ls_cb k = ls_cb l)" if "k \<in> set ls" for k
    using lm_cbs_okD(5,7)[OF lm_okD(1)[OF ok]] that l sp_addr_inj[OF lm_okD(9)[OF ok]] by fastforce
  then have "filter (\<lambda>k. sp_slot (ls_handle k) = sp_slot (ls_handle l)) ls = filter (\<lambda>k. ls_cb k = ls_cb l) ls"
    by (rule filter_cong[OF refl])
  then show ?thesis by (simp add: lm_refs_def cnt_def)
qed

lemma lm_client_releaseI:
  assumes "lm_client T M ls" "l \<in> set ls"
  shows "lm_client T (snd (sl_release T l M)) (remove1 l ls)"
  using lm_release[OF lm_client_ok[OF assms(1)] assms(2), of T] lm_released[OF assms] by fastforce

section \<open>Properties\<close>

text \<open>A manager of numbers: creation fails for a zero request.\<close>

definition lm_ex_traits :: "(32 word, nat, nat, unit) pool_traits" where
  "lm_ex_traits = \<lparr>tr_default = 0, tr_create = (\<lambda>p r c. (r \<noteq> 0, r)), tr_destroy = (\<lambda>p r c. 0),
     tr_setHandle = (\<lambda>r h. r), tr_request = 0, tr_context = (), tr_destroy_on_release = False,
     tr_has_generation = True\<rparr>"

definition lm_ex_config :: pm_config where
  "lm_ex_config = \<lparr>cfg_cb_capacity = 2, cfg_cb_block_size = 2, cfg_cb_growth = 1,
     cfg_payload_capacity = 1, cfg_payload_block_size = 2, cfg_payload_growth = 1\<rparr>"

definition lm_ex_manager :: "(32 word, nat) pool_manager" where
  "lm_ex_manager = pm_exec lm_ex_traits (CreateAllPayloads 5 ())
     (pm_exec lm_ex_traits (Configure lm_ex_config 0 ()) pm_new)"

lemma lm_ex_client: "lm_client lm_ex_traits lm_ex_manager []"
  unfolding lm_ex_manager_def by (intro lm_call lm_start)

text \<open>
  C24: a live lease never dangles.  After any sequence of configurations, shutdowns, payload
  operations, lease acquisitions (failed ones too), copies and releases, every live lease still
  reaches its control block, whose count is the number of live leases that share it, and the payload
  pointer it returns is the address of an object of the payload pool.
\<close>

theorem lm_no_dangling_lease:
  assumes "lm_client T M ls" and "l \<in> set ls"
  shows "\<exists>n p. sl_strongCount l M = Inr n \<and> unat n = length (filter (\<lambda>k. ls_cb k = ls_cb l) ls) \<and>
    sl_payloadPtr l M = Inr (Some p) \<and> rbv_mem (sp_payloads (pm_payloads M)) p \<noteq> None"
proof -
  note ok = lm_client_ok[OF assms(1)]
  let ?i = "sp_slot (ls_handle l)" and ?P = "pm_payloads M"
  let ?cb = "sp_val (pm_cbs M) ?i"
  note mem = lm_lease_mem[OF ok assms(2)]
  have "?i < sp_size (pm_cbs M)" using lm_cbs_okD(5)[OF lm_okD(1)[OF ok] assms(2)] .
  moreover have "scb_strong ?cb \<noteq> 0" using mem(3) lm_refs_pos[OF assms(2)] by auto
  ultimately have ptr: "sp_slot (scb_handle ?cb) < sp_size ?P"
    "scb_ptr ?cb = Some (sp_addr ?P (sp_slot (scb_handle ?cb)))"
    using lm_okD(2)[OF ok] by (auto simp: lm_pay_ok_def)
  then show ?thesis
    using mem lm_refs_address[OF ok assms(2)] sp_mem_addr[OF lm_okD(10)[OF ok] ptr(1)]
    by (simp add: sl_strongCount_def sl_payloadPtr_def scb_strongCount_def)
qed

theorem lm_no_dangling_lease_witness:
  "\<exists>M l. lm_client lm_ex_traits M [l] \<and> sl_strongCount l M = Inr 1"
proof -
  let ?r = "pm_acquireLease lm_ex_traits (Handle 0 0) lm_ex_manager"
  let ?l = "\<lparr>ls_cb = Some 0, ls_pool = True, ls_handle = Handle 0 0\<rparr>"
  have "fst ?r = Inr ?l" by code_simp
  then have c: "lm_client lm_ex_traits (snd ?r) [?l]"
    by (intro lm_client_acquireI lm_ex_client) simp_all
  from lm_no_dangling_lease[OF c, of ?l] have "sl_strongCount ?l (snd ?r) = Inr 1"
    by (auto simp: word_unat_eq_iff)
  with c show ?thesis by blast
qed

text \<open>
  shutdown is refused while a lease is alive.  In every reachable state with at least one live
  lease, \<open>shutdown\<close> throws \<open>InvalidState\<close> and changes nothing.
\<close>

theorem lm_shutdown_refused:
  assumes "lm_client T M ls" and "ls \<noteq> []"
  shows "pm_shutdown T r c M = (throw InvalidState, M)"
proof -
  note ok = lm_client_ok[OF assms(1)]
  have "\<not> list_all (\<lambda>(_, cb). scb_strong cb = 0) (sp_createdSlots (pm_cbs M))"
    using lm_no_lease[OF ok] assms(2) by blast
  then have "\<not> list_all (\<lambda>(_, cb). scb_canTeardown cb) (sp_createdSlots (pm_cbs M))"
    by (simp add: scb_canTeardown_def scb_strongCount_def)
  with lm_okD(3)[OF ok assms(2)] show ?thesis
    by (simp add: pm_shutdown_def pm_shutdownPayloadPool_def bindA_def pm_checkCanTeardown_def throw_def)
qed

theorem lm_shutdown_refused_witness:
  "\<exists>M l. lm_client lm_ex_traits M [l] \<and> fst (pm_shutdown lm_ex_traits 0 () M) = throw InvalidState"
proof -
  let ?r = "pm_acquireLease lm_ex_traits (Handle 0 0) lm_ex_manager"
  let ?l = "\<lparr>ls_cb = Some 0, ls_pool = True, ls_handle = Handle 0 0\<rparr>"
  have "fst ?r = Inr ?l" by code_simp
  then have c: "lm_client lm_ex_traits (snd ?r) [?l]"
    by (intro lm_client_acquireI lm_ex_client) simp_all
  with lm_shutdown_refused[OF c, of 0 "()"] show ?thesis by fastforce
qed

text \<open>
  C26: control blocks are not leaked.  In every reachable state a slot of the control-block pool is on
  its freelist exactly if no live lease refers to it, and no slot is on the freelist twice; so once
  all leases are released every control block is available again.
\<close>

theorem lm_control_blocks_accounted:
  assumes "lm_client T M ls"
  shows "distinct (sp_free (pm_cbs M)) \<and>
    set (sp_free (pm_cbs M)) = {..<sp_size (pm_cbs M)} - (\<lambda>l. sp_slot (ls_handle l)) ` set ls"
proof -
  note cbs = lm_okD(1)[OF lm_client_ok[OF assms]]
  have "i \<in> (\<lambda>l. sp_slot (ls_handle l)) ` set ls" if "0 < lm_refs ls i" for i
    using that cnt_eq_0_iff[of "\<lambda>l. sp_slot (ls_handle l) = i" ls] by (auto simp: lm_refs_def)
  then have "x \<in> set (sp_free (pm_cbs M))"
    if "x < sp_size (pm_cbs M)" "x \<notin> (\<lambda>l. sp_slot (ls_handle l)) ` set ls" for x
    using that lm_cbs_okD(10)[OF cbs, of x] by blast
  then show ?thesis
    using lm_cbs_okD(2,6)[OF cbs] sp_free_less[OF lm_cbs_okD(1)[OF cbs]] by blast
qed

theorem lm_control_blocks_accounted_witness:
  "set (sp_free (pm_cbs lm_ex_manager)) = {0, 1}"
proof -
  have "sp_size (pm_cbs lm_ex_manager) = 2" by code_simp
  moreover have "{..<2 :: nat} = {0, 1}" by auto
  ultimately show ?thesis using lm_control_blocks_accounted[OF lm_ex_client] by simp
qed

text \<open>
  Two leases of the same payload, both released: the second release cannot return the payload, and
  its control block goes back to the pool with the payload bound.  Then a new payload is created.
\<close>

definition lm_ex_lease :: "nat \<Rightarrow> u32 \<Rightarrow> strong_lease" where
  "lm_ex_lease a i = \<lparr>ls_cb = Some a, ls_pool = True, ls_handle = Handle i 0\<rparr>"

definition lm_ex_double2 :: "(32 word, nat) pool_manager" where
  "lm_ex_double2 = snd (pm_acquireLease lm_ex_traits (Handle 0 0)
     (snd (pm_acquireLease lm_ex_traits (Handle 0 0)
     (pm_exec lm_ex_traits (AcquirePayloadOrGrow 7 ()) lm_ex_manager))))"

definition lm_ex_double :: "(32 word, nat) pool_manager" where
  "lm_ex_double = pm_exec lm_ex_traits (CreateAllPayloads 5 ())
     (pm_exec lm_ex_traits (Configure (lm_ex_config\<lparr>cfg_payload_capacity := 2\<rparr>) 0 ())
     (snd (sl_release lm_ex_traits (lm_ex_lease 1 1)
     (snd (sl_release lm_ex_traits (lm_ex_lease 0 0) lm_ex_double2)))))"

lemma lm_ex_double_client: "lm_client lm_ex_traits lm_ex_double []"
proof -
  let ?M = "pm_exec lm_ex_traits (AcquirePayloadOrGrow 7 ()) lm_ex_manager"
  have "fst (pm_acquireLease lm_ex_traits (Handle 0 0) ?M) = Inr (lm_ex_lease 0 0)"
    "fst (pm_acquireLease lm_ex_traits (Handle 0 0) (snd (pm_acquireLease lm_ex_traits (Handle 0 0) ?M)))
       = Inr (lm_ex_lease 1 1)"
    by code_simp+
  then have "lm_client lm_ex_traits lm_ex_double2 [lm_ex_lease 1 1, lm_ex_lease 0 0]"
    unfolding lm_ex_double2_def by (intro lm_client_acquireI lm_call lm_ex_client) simp_all
  from lm_client_releaseI[OF lm_client_releaseI[OF this, of "lm_ex_lease 0 0"], of "lm_ex_lease 1 1"]
  have "lm_client lm_ex_traits (snd (sl_release lm_ex_traits (lm_ex_lease 1 1)
      (snd (sl_release lm_ex_traits (lm_ex_lease 0 0) lm_ex_double2)))) []"
    by (simp add: lm_ex_lease_def)
  then show ?thesis unfolding lm_ex_double_def by (intro lm_call)
qed

text \<open>A manager whose next control block still has a payload bound.\<close>

definition lm_poisoned :: "('g::len word, 'p) pool_manager \<Rightarrow> bool" where
  "lm_poisoned M \<longleftrightarrow> sp_ok (pm_cbs M) \<and> sp_free (pm_cbs M) \<noteq> [] \<and>
     sp_created_at (pm_cbs M) (last (sp_free (pm_cbs M))) \<and>
     scb_ptr (sp_val (pm_cbs M) (last (sp_free (pm_cbs M)))) \<noteq> None"

text \<open>
  a control block that went back to its pool with its payload still bound stops the manager for
  good.  If such a block is on top of the freelist, every \<open>acquire\<close> of a live payload throws
  \<open>InvalidState\<close>, puts the block back on top and leaves the payloads as they were, so the next call
  fails the same way.
\<close>

theorem lm_poisoned_forever:
  assumes poisoned: "lm_poisoned M" and alive: "pm_isAlive T M h"
  shows "fst (pm_acquireLease T h M) = throw InvalidState \<and>
    lm_poisoned (snd (pm_acquireLease T h M)) \<and> pm_isAlive T (snd (pm_acquireLease T h M)) h"
proof -
  let ?C = "pm_cbs M" let ?i = "last (sp_free (pm_cbs M))"
  have C: "sp_ok ?C" and i: "?i \<in> set (sp_free ?C)" and cr: "sp_free ?C \<noteq> []" "sp_created_at ?C ?i"
    and ptr: "scb_ptr (sp_val ?C ?i) \<noteq> None"
    using poisoned by (auto simp: lm_poisoned_def)
  let ?h = "sp_makeHandle cb_traits ?C (word_of_nat ?i)" and ?D = "sp_pop ?C"
  note w = sp_makeHandle_word(1)[OF C i] sp_makeHandle_word(2)[OF C i, of cb_traits]
  have slot: "sp_slot ?h = ?i" using w by (simp add: sp_slot_def)
  have "sp_isValid cb_traits ?C ?h" using sp_free_less[OF C i] w by simp
  then have valid: "sp_isValid cb_traits ?D ?h" by (simp add: sp_isValid_gen sp_gen_def)
  have D: "sp_ok ?D" "?i < sp_size ?D" "sp_val ?D ?i = sp_val ?C ?i" "sp_created_at ?D ?i"
    using C sp_free_less[OF C i] cr by (simp_all add: sp_ok_pop sp_val_def sp_created_at_def)
  have mem: "rbv_mem (sp_payloads ?D) (sp_addr ?D ?i) = Some (sp_val ?C ?i)"
    using sp_mem_addr[OF D(1,2)] D(3) by simp
  have acq: "pm_acquireControlBlock M = (Inr ?h, M\<lparr>pm_cbs := ?D\<rparr>)"
    using sp_take_eq[OF C, of cb_traits True] cr w
    by (simp add: pm_acquireControlBlock_def bindA_def pm_tryAcquireCb_def pm_onCbs_def sp_take_def)
  let ?E = "snd (sp_release cb_traits ?D ?h)"
  have res: "pm_acquireLease T h M = (throw InvalidState, M\<lparr>pm_cbs := ?E\<rparr>)"
    using alive acq valid mem ptr slot
    by (simp add: pm_acquireLease_def bindA_def pm_ensureConfigured_def pm_isAlive_def sp_get_addr
        scb_tryBindPayload_def scb_canBindPayload_def pm_releaseControlBlock_def throw_def)
  have E: "sp_ok ?E" "sp_free ?E = butlast (sp_free ?C) @ [?i]" "sp_val ?E = sp_val ?D"
    "sp_created_at ?E = sp_created_at ?D"
    using sp_releaseImpl_spec(3,5)[OF D(1) valid] slot
    by (simp_all add: cb_release_eq sp_releaseImpl_val sp_slot_def)
  then have "lm_poisoned (M\<lparr>pm_cbs := ?E\<rparr>)"
    using D(3,4) ptr by (simp add: lm_poisoned_def)
  with alive show ?thesis by (simp add: res pm_isAlive_def)
qed

theorem lm_poisoned_forever_witness:
  "\<exists>M. lm_client lm_ex_traits M [] \<and> pm_isAlive lm_ex_traits M (Handle 1 0) \<and>
     fst (pm_acquireLease lm_ex_traits (Handle 1 0) M) = throw InvalidState"
proof -
  have "sp_ok (pm_cbs lm_ex_double)"
    using lm_okD(9)[OF lm_client_ok[OF lm_ex_double_client]] .
  moreover have "sp_free (pm_cbs lm_ex_double) \<noteq> []"
    "sp_created_at (pm_cbs lm_ex_double) (last (sp_free (pm_cbs lm_ex_double)))"
    "scb_ptr (sp_val (pm_cbs lm_ex_double) (last (sp_free (pm_cbs lm_ex_double)))) \<noteq> None"
    by code_simp+
  ultimately have "lm_poisoned lm_ex_double" by (simp add: lm_poisoned_def)
  moreover have "pm_isAlive lm_ex_traits lm_ex_double (Handle 1 0)" by code_simp
  ultimately show ?thesis
    using lm_poisoned_forever[of lm_ex_double lm_ex_traits "Handle 1 0"] lm_ex_double_client by blast
qed

end
