(* ===== verification/LeaseOwnership.thy ===== *)
theory LeaseOwnership
  imports LeaseSafety
begin

text \<open>
  Who owns a payload.  The managers get a new lease in one of two ways, both from the payload pool first
  and from the lease factory second: \<open>pm_acquire\<close> takes a created payload, growing the pool when it is
  empty (the buffer, fence, event, command-queue and kernel-base managers), and \<open>pm_acquireReserved\<close>
  reserves an uncreated slot and creates the payload in it (\<open>TensorImplManager\<close>, and
  \<open>TypedStorageManager\<close>, which checks the request first).  For programs that acquire in these ways control
  blocks never share a payload, and no payload of a live lease is available.  A manager that keeps its
  payloads in a cache and makes a lease for one that is already handed out
  (\<open>MpsGraphManager::acquire\<close>, over a \<open>FixedSlotStore\<close>) gives it a second control block, and is not such a
  program.
\<close>

definition pm_acquire ::
  "('g::len word, 'p, 'r, 'c) pool_traits \<Rightarrow> 'r \<Rightarrow> 'c \<Rightarrow> (('g word, 'p) pool_manager, strong_lease) act" where
  "pm_acquire T r c =
     bindA pm_ensureConfigured (\<lambda>_.
     bindA (pm_acquirePayloadOrGrowAndCreate T r c) (\<lambda>h.
     if \<not> handle_isValid h then throwA OutOfRange else pm_acquireLease T h))"

definition pm_acquireReserved ::
  "('g::len word, 'p, 'r, 'c) pool_traits \<Rightarrow> 'r \<Rightarrow> 'c \<Rightarrow> (('g word, 'p) pool_manager, strong_lease) act" where
  "pm_acquireReserved T r c =
     bindA pm_ensureConfigured (\<lambda>_.
     bindA (pm_reserveUncreatedPayloadOrGrow T) (\<lambda>h.
     if \<not> handle_isValid h then throwA OutOfRange
     else bindA (pm_emplacePayload T h r c) (\<lambda>emplaced.
          if \<not> emplaced then throwA InvalidState else pm_acquireLease T h)))"

section \<open>The invariant\<close>

definition po_pools ::
  "('g::len word, 'p, 'r, 'c) pool_traits \<Rightarrow> (8 word, 'g word cb) slot_pool \<Rightarrow> ('g word, 'p) slot_pool \<Rightarrow> bool" where
  "po_pools T C P \<longleftrightarrow> sp_ok C \<and> sp_ok P \<and> distinct (sp_free P) \<and>
     (\<forall>i < sp_size C. scb_strong (sp_val C i) \<noteq> 0 \<longrightarrow>
        sp_isValid T P (scb_handle (sp_val C i)) \<and> sp_slot (scb_handle (sp_val C i)) \<notin> set (sp_free P)) \<and>
     (\<forall>i < sp_size C. \<forall>k < sp_size C.
        scb_strong (sp_val C i) \<noteq> 0 \<and> scb_strong (sp_val C k) \<noteq> 0 \<and>
        sp_slot (scb_handle (sp_val C i)) = sp_slot (scb_handle (sp_val C k)) \<longrightarrow> i = k)"

lemma po_poolsD:
  assumes "po_pools T C P"
  shows "sp_ok C" "sp_ok P" "distinct (sp_free P)"
    "i < sp_size C \<Longrightarrow> scb_strong (sp_val C i) \<noteq> 0 \<Longrightarrow> sp_isValid T P (scb_handle (sp_val C i))"
    "i < sp_size C \<Longrightarrow> scb_strong (sp_val C i) \<noteq> 0 \<Longrightarrow> sp_slot (scb_handle (sp_val C i)) \<notin> set (sp_free P)"
    "i < sp_size C \<Longrightarrow> k < sp_size C \<Longrightarrow> scb_strong (sp_val C i) \<noteq> 0 \<Longrightarrow> scb_strong (sp_val C k) \<noteq> 0 \<Longrightarrow>
      sp_slot (scb_handle (sp_val C i)) = sp_slot (scb_handle (sp_val C k)) \<Longrightarrow> i = k"
  using assms unfolding po_pools_def by blast+

text \<open>Payload calls add new slots to the freelist or take its top.\<close>

lemma po_neutral_keeps:
  assumes "sp_neutral P Q" "sp_isValid T P h" "sp_slot h \<notin> set (sp_free P)"
  shows "sp_isValid T Q h \<and> sp_slot h \<notin> set (sp_free Q)"
  using assms by (auto simp: sp_neutral_def sp_isValid_gen sp_slot_def)

lemma po_neutral:
  assumes "po_pools T C P" "sp_neutral P Q"
  shows "po_pools T C Q"
proof -
  note d = po_poolsD[OF assms(1)]
  have Q: "sp_ok Q" "sp_size P \<le> sp_size Q" "sp_free Q = sp_free P @ rev [sp_size P..<sp_size Q]"
      "\<And>i. i < sp_size P \<Longrightarrow> sp_gen Q i = sp_gen P i"
    using assms(2) by (auto simp: sp_neutral_def)
  have "distinct (sp_free Q)"
    using Q(3) d(3) sp_free_less[OF d(2)] by fastforce
  then show ?thesis
    using assms(1) Q(1) po_neutral_keeps[OF assms(2)] unfolding po_pools_def by blast
qed

lemma po_pop:
  assumes "po_pools T C P"
  shows "po_pools T C (sp_pop P)"
proof -
  have "sp_isValid T (sp_pop P) h = sp_isValid T P h" for h
    by (rule sp_isValid_cong) (simp_all add: sp_pop_def sp_size_def)
  moreover have "set (sp_free (sp_pop P)) \<subseteq> set (sp_free P)" "distinct (sp_free (sp_pop P))"
    using po_poolsD(3)[OF assms] by (auto simp: distinct_butlast dest: in_set_butlastD)
  ultimately show ?thesis
    using assms sp_ok_pop[OF po_poolsD(2)[OF assms]] unfolding po_pools_def by blast
qed

text \<open>Control blocks that are added or recreated have no references.\<close>

definition po_cbs :: "(8 word, 'g::len word cb) slot_pool \<Rightarrow> (8 word, 'g word cb) slot_pool \<Rightarrow> bool" where
  "po_cbs C D \<longleftrightarrow> sp_ok D \<and>
     (\<forall>i < sp_size D. i < sp_size C \<and> sp_val D i = sp_val C i \<or> scb_strong (sp_val D i) = 0)"

lemma po_cbs_refl: "sp_ok C \<Longrightarrow> po_cbs C C"
  by (simp add: po_cbs_def)

lemma po_cbs_trans: "po_cbs C D \<Longrightarrow> po_cbs D E \<Longrightarrow> po_cbs C E"
  unfolding po_cbs_def by metis

lemma po_cbs_pools: "po_pools T C P \<Longrightarrow> po_cbs C D \<Longrightarrow> po_pools T D P"
  unfolding po_pools_def po_cbs_def by metis

lemma scb_new_free: "scb_strong scb_new = 0"
  by (simp add: scb_new_def)

lemma po_cbs_resize: "sp_ok C \<Longrightarrow> sp_resize cb_traits C n = Inr (k, D) \<Longrightarrow> po_cbs C D"
  using sp_resize_spec(1,2)[of C cb_traits n k D] sp_resize_val[of C cb_traits n k D]
  by (auto simp: po_cbs_def scb_new_free)

lemma po_cbs_createRange:
  assumes "sp_ok C" "sp_createRange cb_traits C a b () () = Inr (k, D)"
  shows "po_cbs C D"
proof -
  have "b \<le> sp_size C" "D = snd (sp_createLoop cb_traits () () [a..<b] True C)"
    using assms(2) by (auto simp: sp_createRange_def split: if_splits)
  with sp_createLoop_idle[of cb_traits C "[a..<b]" "()" "()" True] assms(1)
  show ?thesis by (auto simp: po_cbs_def Let_def sp_frame_okD)
qed

lemma po_cbs_setBlockSize: "sp_ok C \<Longrightarrow> sp_setBlockSize C n = Inr (k, D) \<Longrightarrow> po_cbs C D"
  using sp_setBlockSize_vals(1)[of C n k D] sp_setBlockSize_frame[of C n k D]
  by (auto simp: po_cbs_def sp_frame_okD)

lemma po_cbs_clear: "sp_ok C \<Longrightarrow> po_cbs C (sp_clear cb_traits C () ())"
  by (simp add: po_cbs_def sp_clear_spec)

lemma po_cbs_take: "sp_ok C \<Longrightarrow> po_cbs C (snd (sp_tryAcquireCreated cb_traits C))"
  using sp_take_eq[of C cb_traits True] sp_ok_pop[of C]
  by (auto simp: po_cbs_def sp_take_def sp_val_def sp_pop_def sp_size_def split: if_splits)

lemma po_cbs_release: "sp_ok C \<Longrightarrow> po_cbs C (snd (sp_release cb_traits C h))"
  using sp_releaseImpl_spec(2,3,4)[of C cb_traits h]
  by (cases "sp_isValid cb_traits C h") (auto simp: po_cbs_def cb_release_eq sp_releaseImpl_val)

section \<open>The operations of the manager\<close>

definition po_ok :: "('g::len word, 'p, 'r, 'c) pool_traits \<Rightarrow> ('g word, 'p) pool_manager \<Rightarrow> bool" where
  "po_ok T M \<longleftrightarrow> po_pools T (pm_cbs M) (pm_payloads M)"

abbreviation "po_keeps T m \<equiv> triple (po_ok T) m (\<lambda>_. po_ok T) (\<lambda>_. po_ok T)"

lemma po_okD: "po_ok T M \<Longrightarrow> sp_ok (pm_cbs M)" "po_ok T M \<Longrightarrow> sp_ok (pm_payloads M)"
  by (simp_all add: po_ok_def po_poolsD)

lemma po_ok_settings [simp]:
  "po_ok T (M\<lparr>pm_configured := b\<rparr>) = po_ok T M" "po_ok T (M\<lparr>pm_cb_block_size := n\<rparr>) = po_ok T M"
  "po_ok T (M\<lparr>pm_payload_block_size := n\<rparr>) = po_ok T M" "po_ok T (M\<lparr>pm_cb_growth := n\<rparr>) = po_ok T M"
  "po_ok T (M\<lparr>pm_payload_growth := n\<rparr>) = po_ok T M"
  by (simp_all add: po_ok_def)

lemma po_onPayloads:
  assumes "\<And>P x Q. sp_ok P \<Longrightarrow> f P = Inr (x, Q) \<Longrightarrow> sp_neutral P Q \<or> Q = sp_pop P"
  shows "po_keeps T (pm_onPayloads f)"
proof (rule tripleI)
  fix M x M' assume M: "po_ok T M" "pm_onPayloads f M = (Inr x, M')"
  then obtain Q where "f (pm_payloads M) = Inr (x, Q)" and M': "M' = M\<lparr>pm_payloads := Q\<rparr>"
    by (auto simp: pm_onPayloads_def split: sum.splits)
  with assms[OF po_okD(2)[OF M(1)]] M(1) show "po_ok T M'"
    by (auto simp: po_ok_def intro: po_neutral po_pop)
qed (auto simp: pm_onPayloads_def split: sum.splits)

lemma po_onCbs:
  assumes "\<And>C x D. sp_ok C \<Longrightarrow> f C = Inr (x, D) \<Longrightarrow> po_cbs C D"
  shows "po_keeps T (pm_onCbs f)"
proof (rule tripleI)
  fix M x M' assume M: "po_ok T M" "pm_onCbs f M = (Inr x, M')"
  then obtain D where "f (pm_cbs M) = Inr (x, D)" and M': "M' = M\<lparr>pm_cbs := D\<rparr>"
    by (auto simp: pm_onCbs_def split: sum.splits)
  with assms[OF po_okD(1)[OF M(1)]] M(1) show "po_ok T M'"
    by (auto simp: po_ok_def intro: po_cbs_pools)
qed (auto simp: pm_onCbs_def split: sum.splits)

lemma po_neutral_calls:
  assumes "sp_ok P"
  shows "sp_resize T P n = Inr (k, Q) \<Longrightarrow> sp_neutral P Q"
    "sp_setBlockSize P n = Inr (k, Q) \<Longrightarrow> sp_neutral P Q"
    "sp_createRange T P a b r c = Inr (x, Q) \<Longrightarrow> sp_neutral P Q"
    "sp_neutral P (snd (sp_emplace T P h r c))"
proof -
  assume r: "sp_resize T P n = Inr (k, Q)"
  note q = sp_resize_spec[OF assms r]
  show "sp_neutral P Q" using q(1,2,4,5) q(6) by (auto simp: sp_neutral_def)
next
  show "sp_setBlockSize P n = Inr (k, Q) \<Longrightarrow> sp_neutral P Q"
    by (rule sp_frame_neutral) (rule sp_setBlockSize_frame[OF assms])
  show "sp_createRange T P a b r c = Inr (x, Q) \<Longrightarrow> sp_neutral P Q"
    by (rule sp_frame_neutral) (rule sp_createRange_frame[OF assms])
  show "sp_neutral P (snd (sp_emplace T P h r c))"
    unfolding sp_emplace_eq by (rule sp_frame_neutral) (rule sp_emplaceWith_frame[OF assms])
qed

lemma po_take_cases:
  assumes "sp_ok P"
  shows "sp_tryAcquireCreated T P = (h, Q) \<Longrightarrow> sp_neutral P Q \<or> Q = sp_pop P"
    "sp_tryReserveUncreated T P = (h, Q) \<Longrightarrow> sp_neutral P Q \<or> Q = sp_pop P"
  using sp_take_eq[OF assms, of T True] sp_take_eq[OF assms, of T False] assms
  by (auto simp: sp_take_def sp_frame_neutral split: if_splits)

lemma po_payload_calls:
  "po_keeps T (pm_emplacePayload T h r c)" "po_keeps T (pm_createAllPayloads T r c)"
  "po_keeps T (pm_tryAcquirePayload T)" "po_keeps T (pm_tryReservePayload T)"
  "po_keeps T (pm_onPayloads (\<lambda>P. sp_resize T P n))" "po_keeps T (pm_onPayloads (\<lambda>P. sp_setBlockSize P n))"
  "po_keeps T (pm_onPayloads (\<lambda>P. sp_createRange T P a (sp_size P) r c))"
proof -
  have emplace: "sp_neutral P Q" if "sp_ok P" "Inr (sp_emplace T P h r c) = Inr (x, Q)" for P Q x
    using po_neutral_calls(4)[OF that(1), of T h r c] that(2) by simp
  show "po_keeps T (pm_emplacePayload T h r c)"
    unfolding pm_emplacePayload_def by (rule po_onPayloads) (blast dest: emplace)
  show "po_keeps T (pm_createAllPayloads T r c)"
    unfolding pm_createAllPayloads_def sp_createAll_def by (rule po_onPayloads) (blast dest: po_neutral_calls(3))
  show "po_keeps T (pm_tryAcquirePayload T)"
    unfolding pm_tryAcquirePayload_def by (rule po_onPayloads) (simp add: po_take_cases(1))
  show "po_keeps T (pm_tryReservePayload T)"
    unfolding pm_tryReservePayload_def by (rule po_onPayloads) (simp add: po_take_cases(2))
  show "po_keeps T (pm_onPayloads (\<lambda>P. sp_resize T P n))"
    by (rule po_onPayloads) (blast dest: po_neutral_calls(1))
  show "po_keeps T (pm_onPayloads (\<lambda>P. sp_setBlockSize P n))"
    by (rule po_onPayloads) (blast dest: po_neutral_calls(2))
  show "po_keeps T (pm_onPayloads (\<lambda>P. sp_createRange T P a (sp_size P) r c))"
    by (rule po_onPayloads) (blast dest: po_neutral_calls(3))
qed

lemma po_grow:
  "po_keeps T (pm_growPayloadPoolBy T n)" "po_keeps T (pm_growPayloadPoolByAndCreate T n r c)"
proof -
  have "po_keeps T (bindA (pm_onPayloads (\<lambda>P. sp_resize T P d)) (\<lambda>_. returnA d))" for d
    by (intro triple_bind[OF po_payload_calls(5)] triple_return)
  then show grow: "po_keeps T (pm_growPayloadPoolBy T n)"
    by (auto simp: triple_def pm_growPayloadPoolBy_def Let_def)
  have "po_keeps T (bindA (pm_growPayloadPoolBy T n) (\<lambda>new_size. if new_size = k then returnA True
      else pm_onPayloads (\<lambda>P. sp_createRange T P k (sp_size P) r c)))" for k
    by (rule triple_bind[OF grow]) (auto intro: triple_return po_payload_calls)
  then show "po_keeps T (pm_growPayloadPoolByAndCreate T n r c)"
    by (auto simp: triple_def pm_growPayloadPoolByAndCreate_def Let_def)
qed

lemma po_keeps_state: "(\<And>M. po_keeps T (f M)) \<Longrightarrow> po_keeps T (\<lambda>M. f M M)"
  by (simp add: triple_def)

lemma po_acquirePayload:
  "po_keeps T (pm_acquirePayloadOrGrowAndCreate T r c)" "po_keeps T (pm_reserveUncreatedPayloadOrGrow T)"
  unfolding pm_acquirePayloadOrGrowAndCreate_def pm_reserveUncreatedPayloadOrGrow_def
  by (intro triple_bind[OF po_payload_calls(3)] triple_bind[OF po_payload_calls(4)] triple_if triple_return
      triple_bind[OF po_keeps_state[of T "\<lambda>M. pm_growPayloadPoolByAndCreate T (pm_payload_growth M) r c"]]
      triple_bind[OF po_keeps_state[of T "\<lambda>M. pm_growPayloadPoolBy T (pm_payload_growth M)"]]
      triple_throw po_payload_calls po_grow; simp)+

lemma po_cb_calls:
  "po_keeps T (pm_onCbs (\<lambda>P. sp_resize cb_traits P n))"
  "po_keeps T (pm_onCbs (\<lambda>P. sp_createRange cb_traits P a (sp_size P) () ()))"
  "po_keeps T (pm_onCbs (\<lambda>P. sp_setBlockSize P n))"
  "po_keeps T pm_tryAcquireCb"
proof -
  have take: "po_cbs C D" if "sp_ok C" "Inr (sp_tryAcquireCreated cb_traits C) = Inr (x, D)"
    for C D :: "(8 word, 'a word cb) slot_pool" and x
    using po_cbs_take[OF that(1)] that(2) by simp
  show "po_keeps T (pm_onCbs (\<lambda>P. sp_resize cb_traits P n))"
    by (rule po_onCbs) (rule po_cbs_resize)
  show "po_keeps T (pm_onCbs (\<lambda>P. sp_createRange cb_traits P a (sp_size P) () ()))"
    by (rule po_onCbs) (rule po_cbs_createRange)
  show "po_keeps T (pm_onCbs (\<lambda>P. sp_setBlockSize P n))"
    by (rule po_onCbs) (rule po_cbs_setBlockSize)
  show "po_keeps T pm_tryAcquireCb"
    unfolding pm_tryAcquireCb_def by (rule po_onCbs) (rule take)
qed

text \<open>Discarding payloads is preceded by the check that there is no lease.\<close>

lemma po_clear_payloads:
  assumes "lm_ok {} [] M" "po_ok T M"
  shows "po_ok T (M\<lparr>pm_payloads := sp_clear T (pm_payloads M) r c\<rparr>)"
proof -
  have "scb_strong (sp_val (pm_cbs M) i) = 0" if "i < sp_size (pm_cbs M)" for i
    using lm_cbs_okD(8)[OF lm_okD(1)[OF assms(1)] that] by (simp add: lm_refs_def unat_eq_0)
  with assms(2) show ?thesis
    using sp_clear_spec[OF po_okD(2)[OF assms(2)], of T r c] by (auto simp: po_ok_def po_pools_def)
qed

text \<open>A step that keeps the invariant from a state with the lease invariant.\<close>

lemma triple_snd: "triple (\<lambda>s. s = M) m (\<lambda>_. R) (\<lambda>_. R) \<longleftrightarrow> R (snd (m M))"
  by (auto simp: triple_def split: prod.split sum.split)

lemma po_shutdownPayloadPool:
  assumes "lm_ok {} ls M" "po_ok T M"
  shows "triple (\<lambda>s. s = M) (pm_shutdownPayloadPool T r c) (\<lambda>_. po_ok T) (\<lambda>_. po_ok T)"
proof -
  consider "pm_checkCanTeardown M = (throw InvalidState, M)" | "pm_checkCanTeardown M = (Inr (), M)"
    unfolding pm_checkCanTeardown_def by (metis (full_types))
  then show ?thesis
  proof cases
    case 1
    then have "snd (pm_shutdownPayloadPool T r c M) = M"
      by (simp add: pm_shutdownPayloadPool_def bindA_apply throw_def)
    with assms(2) show ?thesis by (simp only: triple_snd)
  next
    case 2
    then have "snd (pm_shutdownPayloadPool T r c M) = M\<lparr>pm_payloads := sp_clear T (pm_payloads M) r c\<rparr>"
      by (simp add: pm_shutdownPayloadPool_def bindA_apply)
    moreover have "ls = []" using lm_checks(2)[OF assms(1) 2] by simp
    ultimately show ?thesis using po_clear_payloads[of M T r c] assms by (simp only: triple_snd)
  qed
qed

lemma po_clear_cbs: "po_keeps T (\<lambda>M. (Inr (), M\<lparr>pm_cbs := sp_clear cb_traits (pm_cbs M) () ()\<rparr>))"
proof (rule triple_update)
  fix M assume M: "po_ok T M"
  show "po_ok T (M\<lparr>pm_cbs := sp_clear cb_traits (pm_cbs M) () ()\<rparr>)"
    using po_cbs_pools[OF M[unfolded po_ok_def] po_cbs_clear[OF po_okD(1)[OF M]]] by (simp add: po_ok_def)
qed

lemma po_shutdown:
  assumes "lm_ok {} ls M" "po_ok T M"
  shows "po_ok T (snd (pm_shutdown T r c M))"
proof -
  have check: "po_keeps T pm_checkCanShutdown"
    by (auto simp: triple_def pm_checkCanShutdown_def)
  have "triple (\<lambda>s. s = M) (bindA (pm_shutdownPayloadPool T r c) (\<lambda>_. bindA pm_shutdownControlBlockPool
      (\<lambda>_ M. (Inr (), M\<lparr>pm_configured := False\<rparr>)))) (\<lambda>_. po_ok T) (\<lambda>_. po_ok T)"
    unfolding pm_shutdownControlBlockPool_def
    by (intro triple_bind[OF po_shutdownPayloadPool[OF assms]] triple_bind[OF triple_bind[OF check po_clear_cbs]] triple_update) simp
  with assms(2) show ?thesis by (simp add: triple_snd pm_shutdown_def)
qed

lemma po_setters:
  "po_keeps T (pm_setPayloadBlockSize n)" "po_keeps T (pm_setControlBlockBlockSize n)"
  "po_keeps T (pm_setControlBlockGrowth n)" "po_keeps T (pm_setPayloadGrowth n)"
proof -
  have check: "po_keeps T pm_checkCanShutdown" "po_keeps T pm_checkCanTeardown"
    by (auto simp: triple_def pm_checkCanShutdown_def pm_checkCanTeardown_def)
  have cond: "po_keeps T (\<lambda>M. if b M then pm_checkCanShutdown M else (Inr (), M))"
    "po_keeps T (\<lambda>M. if b M then pm_checkCanTeardown M else (Inr (), M))" for b
    by (rule triple_cond[OF check(1)] triple_cond[OF check(2)]; simp)+
  have store: "po_keeps T (\<lambda>M. m (M\<lparr>pm_cb_block_size := n\<rparr>))" "po_keeps T (\<lambda>M. m (M\<lparr>pm_payload_block_size := n\<rparr>))"
    if "po_keeps T m" for m :: "(('a word, 'b) pool_manager, unit) act" and n
    using that by (auto simp: triple_def)
  have "po_keeps T (bindA (\<lambda>M. if pm_payload_block_size M \<noteq> 0 \<and> pm_payload_block_size M \<noteq> n
      then pm_checkCanTeardown M else (Inr (), M)) (\<lambda>_ M. bindA (pm_onPayloads (\<lambda>P. sp_setBlockSize P n))
      (\<lambda>_. returnA ()) (M\<lparr>pm_payload_block_size := n\<rparr>)))"
    by (intro triple_bind[OF cond(2)] store triple_bind[OF po_payload_calls(6)] triple_return)
  then show "po_keeps T (pm_setPayloadBlockSize n)" by (simp add: triple_def pm_setPayloadBlockSize_def)
  have "po_keeps T (bindA (\<lambda>M. if pm_cb_block_size M \<noteq> 0 \<and> pm_cb_block_size M \<noteq> n
      then pm_checkCanShutdown M else (Inr (), M)) (\<lambda>_ M. bindA (pm_onCbs (\<lambda>P. sp_setBlockSize P n))
      (\<lambda>_. returnA ()) (M\<lparr>pm_cb_block_size := n\<rparr>)))"
    by (intro triple_bind[OF cond(1)] store triple_bind[OF po_cb_calls(3)] triple_return)
  then show "po_keeps T (pm_setControlBlockBlockSize n)" by (simp add: triple_def pm_setControlBlockBlockSize_def)
  show "po_keeps T (pm_setControlBlockGrowth n)" "po_keeps T (pm_setPayloadGrowth n)"
    by (auto simp: triple_def pm_setControlBlockGrowth_def pm_setPayloadGrowth_def)
qed

lemma po_configure:
  assumes "lm_ok {} ls M" "po_ok T M"
  shows "po_ok T (snd (pm_configure T cfg r c M))"
proof -
  have validate: "triple (\<lambda>s. s = M) (\<lambda>M. (pm_validateParameters cfg, M)) (\<lambda>_ s. s = M) (\<lambda>_. po_ok T)"
    using assms(2) by (auto simp: triple_def split: sum.split)
  have shut: "triple (\<lambda>s. s = M) (\<lambda>M. if pm_configured M \<and> pm_payload_block_size M \<noteq> cfg_payload_block_size cfg \<and>
      cfg_payload_block_size cfg \<noteq> 0 then pm_shutdownPayloadPool T r c M else (Inr (), M)) (\<lambda>_. po_ok T) (\<lambda>_. po_ok T)"
    using po_shutdownPayloadPool[OF assms, of r c] assms(2) by (simp add: triple_snd)
  have cb: "po_keeps T (pm_applyControlBlockConfig cap n)" for cap n
    unfolding pm_applyControlBlockConfig_def
    by (intro triple_bind[OF po_setters(2)] triple_bind[OF po_cb_calls(1)] triple_bind[OF po_cb_calls(2)]
        triple_if triple_return triple_throw)
  have "triple (\<lambda>s. s = M) (pm_configure T cfg r c) (\<lambda>_. po_ok T) (\<lambda>_. po_ok T)"
    unfolding pm_configure_def
    by (intro triple_bind[OF validate] triple_bind[OF shut] triple_bind[OF po_setters(1)] triple_bind[OF po_payload_calls(5)]
        triple_bind[OF cb] triple_bind[OF po_setters(3)] triple_bind[OF po_setters(4)] triple_update) simp
  then show ?thesis by (simp add: triple_snd)
qed


lemma po_keeps_snd: "po_keeps T m \<Longrightarrow> po_ok T M \<Longrightarrow> po_ok T (snd (m M))"
  by (cases "m M"; cases "fst (m M)") (auto dest: tripleD)

lemma po_calls:
  assumes "lm_ok {} ls M" "po_ok T M"
  shows "po_ok T (pm_exec T call M)"
  by (cases call) (simp_all only: pm_exec.simps po_keeps_snd[OF _ assms(2)] po_configure[OF assms]
      po_shutdown[OF assms] po_payload_calls(1,2) po_acquirePayload po_setters)

section \<open>Acquiring, copying and releasing\<close>

text \<open>A payload that no lease leads to and that is not available.\<close>

definition po_fresh ::
  "('g::len word, 'p, 'r, 'c) pool_traits \<Rightarrow> 'g word handle \<Rightarrow> (8 word, 'g word cb) slot_pool \<Rightarrow>
   ('g word, 'p) slot_pool \<Rightarrow> bool" where
  "po_fresh T h C P \<longleftrightarrow> sp_isValid T P h \<and> sp_slot h \<notin> set (sp_free P) \<and>
     (\<forall>i < sp_size C. scb_strong (sp_val C i) \<noteq> 0 \<longrightarrow> sp_slot (scb_handle (sp_val C i)) \<noteq> sp_slot h)"

lemma po_fresh_cbs: "po_fresh T h C P \<Longrightarrow> po_cbs C D \<Longrightarrow> po_fresh T h D P"
  unfolding po_fresh_def po_cbs_def by metis

lemma po_take:
  "triple (po_ok T) (pm_onPayloads (\<lambda>P. Inr (sp_take T want P)))
     (\<lambda>h M. po_ok T M \<and> (handle_isValid h \<longrightarrow> po_fresh T h (pm_cbs M) (pm_payloads M))) (\<lambda>_. po_ok T)"
proof (rule tripleI)
  fix M h and M' :: "('a word, 'b) pool_manager"
  assume M: "po_ok T M" and r: "pm_onPayloads (\<lambda>P. Inr (sp_take T want P)) M = (Inr h, M')"
  let ?P = "pm_payloads M"
  note P = po_okD(2)[OF M] and d = po_poolsD[OF M[unfolded po_ok_def]]
  have M': "(h, pm_payloads M') = sp_take T want ?P" "M' = M\<lparr>pm_payloads := pm_payloads M'\<rparr>"
    using r by (auto simp: pm_onPayloads_def split: prod.splits)
  have "po_keeps T (pm_onPayloads (\<lambda>P. Inr (sp_take T want P)))"
    by (rule po_onPayloads) (auto simp: sp_take_def dest: po_take_cases split: if_splits)
  then have ok: "po_ok T M'" using M r by (simp add: triple_def split: prod.splits sum.splits)
  show "po_ok T M' \<and> (handle_isValid h \<longrightarrow> po_fresh T h (pm_cbs M') (pm_payloads M'))"
  proof (cases "sp_free ?P \<noteq> [] \<and> sp_created_at ?P (last (sp_free ?P)) = want")
    case True
    let ?i = "last (sp_free ?P)"
    have i: "?i \<in> set (sp_free ?P)" using True by simp
    have h: "h = sp_makeHandle T ?P (word_of_nat ?i)" and P': "pm_payloads M' = sp_pop ?P"
      using M'(1) True by (simp_all add: sp_take_eq[OF P])
    have slot: "sp_slot h = ?i" using sp_makeHandle_word(1)[OF P i] by (simp add: h sp_slot_def)
    have "sp_isValid T ?P h" using sp_free_less[OF P i] sp_makeHandle_word(1)[OF P i] by (simp add: h)
    then have "sp_isValid T (sp_pop ?P) h" by (simp add: sp_isValid_gen sp_gen_def)
    moreover have "?i \<notin> set (butlast (sp_free ?P))"
      using distinct_butlast_last[of "sp_free ?P"] True d(3) by blast
    moreover have "pm_cbs M' = pm_cbs M"
      using r by (auto simp: pm_onPayloads_def split: prod.splits)
    moreover have "sp_slot (scb_handle (sp_val (pm_cbs M) k)) \<noteq> ?i"
      if "k < sp_size (pm_cbs M)" "scb_strong (sp_val (pm_cbs M) k) \<noteq> 0" for k
      using d(5)[OF that] i by metis
    ultimately show ?thesis
      using ok slot by (simp add: po_fresh_def P')
  next
    case False
    then have "h = handle_invalid" using M'(1) by (auto simp: sp_take_eq[OF P] split: if_splits)
    with ok show ?thesis by simp
  qed
qed (auto simp: pm_onPayloads_def split: prod.splits)

abbreviation "po_free_or T h M \<equiv> po_ok T M \<and> (handle_isValid h \<longrightarrow> po_fresh T h (pm_cbs M) (pm_payloads M))"

lemma po_tryAcquire: "triple (po_ok T) (pm_tryAcquirePayload T) (po_free_or T) (\<lambda>_. po_ok T)"
  using po_take[of T True] by (simp add: pm_tryAcquirePayload_def sp_take_def)

lemma po_tryReserve: "triple (po_ok T) (pm_tryReservePayload T) (po_free_or T) (\<lambda>_. po_ok T)"
  using po_take[of T False] by (simp add: pm_tryReservePayload_def sp_take_def)

lemma po_reserveFresh: "triple (po_ok T) (pm_reserveUncreatedPayloadOrGrow T) (po_free_or T) (\<lambda>_. po_ok T)"
  unfolding pm_reserveUncreatedPayloadOrGrow_def
proof (rule triple_bind[OF po_tryReserve])
  fix h
  have grow: "triple (po_ok T) (bindA (\<lambda>M. pm_growPayloadPoolBy T (pm_payload_growth M) M)
      (\<lambda>_. pm_tryReservePayload T)) (po_free_or T) (\<lambda>_. po_ok T)"
    by (intro triple_bind[OF po_keeps_state[of T "\<lambda>M. pm_growPayloadPoolBy T (pm_payload_growth M)"]]
        po_tryReserve po_grow)
  show "triple (po_free_or T h)
     (if handle_isValid h then returnA h else bindA (\<lambda>M. pm_growPayloadPoolBy T (pm_payload_growth M) M)
        (\<lambda>_. pm_tryReservePayload T)) (po_free_or T) (\<lambda>_. po_ok T)"
    by (intro triple_if triple_return triple_weaken[OF grow]) auto
qed

lemma po_emplaced:
  "triple (\<lambda>M. po_ok T M \<and> po_fresh T h (pm_cbs M) (pm_payloads M)) (pm_emplacePayload T h r c)
     (\<lambda>_ M. po_ok T M \<and> po_fresh T h (pm_cbs M) (pm_payloads M)) (\<lambda>_. po_ok T)"
proof (rule tripleI)
  fix M x M' assume M: "po_ok T M \<and> po_fresh T h (pm_cbs M) (pm_payloads M)"
    and run: "pm_emplacePayload T h r c M = (Inr x, M')"
  have Q: "sp_neutral (pm_payloads M) (pm_payloads M')" "pm_cbs M' = pm_cbs M"
    using run po_neutral_calls(4)[OF po_okD(2), of T M T h r c] M
    by (auto simp: pm_emplacePayload_def pm_onPayloads_def split: prod.splits)
  have "po_ok T M'" using tripleD(1)[OF po_payload_calls(1) _ run] M by blast
  with M Q(2) po_neutral_keeps[OF Q(1)] show "po_ok T M' \<and> po_fresh T h (pm_cbs M') (pm_payloads M')"
    unfolding po_fresh_def by metis
qed (auto simp: pm_emplacePayload_def pm_onPayloads_def split: prod.splits)

lemma po_acquireFresh:
  "triple (po_ok T) (pm_acquirePayloadOrGrowAndCreate T r c)
     (\<lambda>h M. po_ok T M \<and> (handle_isValid h \<longrightarrow> po_fresh T h (pm_cbs M) (pm_payloads M))) (\<lambda>_. po_ok T)"
  unfolding pm_acquirePayloadOrGrowAndCreate_def
proof (rule triple_bind[OF po_tryAcquire])
  fix h
  have grow: "triple (po_ok T) (bindA (\<lambda>M. pm_growPayloadPoolByAndCreate T (pm_payload_growth M) r c M)
      (\<lambda>created. if \<not> created then throwA InvalidState else pm_tryAcquirePayload T))
      (\<lambda>h M. po_ok T M \<and> (handle_isValid h \<longrightarrow> po_fresh T h (pm_cbs M) (pm_payloads M))) (\<lambda>_. po_ok T)"
    by (intro triple_bind[OF po_keeps_state[of T "\<lambda>M. pm_growPayloadPoolByAndCreate T (pm_payload_growth M) r c"]]
        triple_if triple_throw po_tryAcquire po_grow) simp
  show "triple (\<lambda>M. po_ok T M \<and> (handle_isValid h \<longrightarrow> po_fresh T h (pm_cbs M) (pm_payloads M)))
     (if handle_isValid h then returnA h else bindA (\<lambda>M. pm_growPayloadPoolByAndCreate T (pm_payload_growth M) r c M)
        (\<lambda>created. if \<not> created then throwA InvalidState else pm_tryAcquirePayload T))
     (\<lambda>h M. po_ok T M \<and> (handle_isValid h \<longrightarrow> po_fresh T h (pm_cbs M) (pm_payloads M))) (\<lambda>_. po_ok T)"
    by (intro triple_if triple_return triple_weaken[OF grow]) auto
qed

lemma triple_conj:
  "triple P m Q E \<Longrightarrow> triple P' m Q' E' \<Longrightarrow>
   triple (\<lambda>s. P s \<and> P' s) m (\<lambda>x s. Q x s \<and> Q' x s) (\<lambda>e s. E e s \<and> E' e s)"
  by (fastforce simp: triple_def split: prod.splits sum.splits)

lemma po_onCbs_from:
  fixes C :: "(8 word, 'g::len word cb) slot_pool" and P :: "('g word, 'p) slot_pool"
  assumes "\<And>C x D. sp_ok C \<Longrightarrow> f C = Inr (x, D) \<Longrightarrow> po_cbs C D"
  shows "triple (\<lambda>M. po_cbs C (pm_cbs M) \<and> pm_payloads M = P) (pm_onCbs f)
    (\<lambda>_ M. po_cbs C (pm_cbs M) \<and> pm_payloads M = P) (\<lambda>_ M. po_cbs C (pm_cbs M) \<and> pm_payloads M = P)"
proof (rule tripleI)
  fix M x M' assume M: "po_cbs C (pm_cbs M) \<and> pm_payloads M = P" "pm_onCbs f M = (Inr x, M')"
  then obtain D where D: "f (pm_cbs M) = Inr (x, D)" and M': "M' = M\<lparr>pm_cbs := D\<rparr>"
    by (auto simp: pm_onCbs_def split: sum.splits)
  have "sp_ok (pm_cbs M)" using M(1) by (simp add: po_cbs_def)
  with M D M' show "po_cbs C (pm_cbs M') \<and> pm_payloads M' = P"
    using po_cbs_trans[OF _ assms[OF _ D]] by simp
qed (auto simp: pm_onCbs_def split: sum.splits)

lemma po_acquireCb:
  fixes C :: "(8 word, 'g::len word cb) slot_pool" and P :: "('g word, 'p) slot_pool"
  shows "triple (\<lambda>M. po_cbs C (pm_cbs M) \<and> pm_payloads M = P) pm_acquireControlBlock
    (\<lambda>_ M. po_cbs C (pm_cbs M) \<and> pm_payloads M = P) (\<lambda>_ M. po_cbs C (pm_cbs M) \<and> pm_payloads M = P)"
proof -
  let ?J = "\<lambda>M :: ('g word, 'p) pool_manager. po_cbs C (pm_cbs M) \<and> pm_payloads M = P"
  have tk: "po_cbs C D" if "sp_ok C" "Inr (sp_tryAcquireCreated cb_traits C) = Inr (x, D)"
    for C D :: "(8 word, 'g word cb) slot_pool" and x
    using po_cbs_take[OF that(1)] that(2) by simp
  have take: "triple ?J pm_tryAcquireCb (\<lambda>_. ?J) (\<lambda>_. ?J)"
    unfolding pm_tryAcquireCb_def by (rule po_onCbs_from) (rule tk)
  have resize: "triple ?J (pm_onCbs (\<lambda>P. sp_resize cb_traits P n)) (\<lambda>_. ?J) (\<lambda>_. ?J)" for n
    by (rule po_onCbs_from) (rule po_cbs_resize)
  have create: "triple ?J (pm_onCbs (\<lambda>P. sp_createRange cb_traits P a (sp_size P) () ())) (\<lambda>_. ?J) (\<lambda>_. ?J)" for a
    by (rule po_onCbs_from) (rule po_cbs_createRange)
  have "triple ?J (bindA (pm_onCbs (\<lambda>P. sp_resize cb_traits P d)) (\<lambda>old.
      bindA (pm_onCbs (\<lambda>P. sp_createRange cb_traits P old (sp_size P) () ())) (\<lambda>_. returnA ()))) (\<lambda>_. ?J) (\<lambda>_. ?J)" for d
    by (intro triple_bind[OF resize] triple_bind[OF create] triple_return)
  then have grow: "triple ?J pm_growControlBlockPool (\<lambda>_. ?J) (\<lambda>_. ?J)"
    by (auto simp: triple_def pm_growControlBlockPool_def Let_def)
  show ?thesis
    unfolding pm_acquireControlBlock_def
    by (rule triple_bind[OF take], rule triple_bind[where R = "\<lambda>_. ?J"])
      (intro triple_if triple_bind[OF grow] take triple_return triple_throw; simp)+
qed

text \<open>The first reference to a fresh payload.\<close>

lemma po_bound:
  assumes "po_pools T C P" "po_fresh T h C P" "i < sp_size C" "scb_handle cb = h"
  shows "po_pools T (lm_put C i cb) P"
proof -
  note d = po_poolsD[OF assms(1)]
  note v = lm_put_val[OF d(1) assms(3), of _ cb]
  have fresh: "sp_slot (scb_handle (sp_val C k)) \<noteq> sp_slot h" if "k < sp_size C" "scb_strong (sp_val C k) \<noteq> 0" for k
    using assms(2) that by (simp add: po_fresh_def)
  show ?thesis
    unfolding po_pools_def
  proof (intro conjI allI impI)
    fix j k assume j: "j < sp_size (lm_put C i cb)" and k: "k < sp_size (lm_put C i cb)"
      and x: "scb_strong (sp_val (lm_put C i cb) j) \<noteq> 0 \<and> scb_strong (sp_val (lm_put C i cb) k) \<noteq> 0 \<and>
        sp_slot (scb_handle (sp_val (lm_put C i cb) j)) = sp_slot (scb_handle (sp_val (lm_put C i cb) k))"
    have jk: "j < sp_size C" "k < sp_size C" using j k by simp_all
    show "j = k"
    proof (cases "i = j"; cases "i = k")
      assume "i \<noteq> j" "i \<noteq> k"
      with x v[OF jk(1)] v[OF jk(2)] d(6)[OF jk] show ?thesis by simp
    next
      assume "i = j" "i \<noteq> k"
      with x v[OF jk(1)] v[OF jk(2)] fresh[OF jk(2)] assms(4) show ?thesis by simp
    next
      assume "i \<noteq> j" "i = k"
      with x v[OF jk(1)] v[OF jk(2)] fresh[OF jk(1)] assms(4) show ?thesis by simp
    qed simp
  qed (use assms(2-4) v d lm_put_ok in \<open>auto simp: po_fresh_def split: if_splits\<close>)
qed

lemma po_acquireLease:
  fixes M :: "('g::len word, 'p) pool_manager"
  assumes lm: "lm_ok {} ls M" and ok: "po_ok T M" and fresh: "po_fresh T h (pm_cbs M) (pm_payloads M)"
  shows "po_ok T (snd (pm_acquireLease T h M))"
proof (cases "pm_configured M \<and> sp_isValid T (pm_payloads M) h \<and> sp_isCreated T (pm_payloads M) h")
  case False
  with ok show ?thesis by (auto simp: pm_acquireLease_def bindA_def pm_ensureConfigured_def)
next
  case True
  let ?C = "pm_cbs M" and ?P = "pm_payloads M" and ?p = "sp_addr (pm_payloads M) (sp_slot h)"
  let ?k = "\<lambda>g M. case sp_get cb_traits (pm_cbs M) g of
      None \<Rightarrow> (Inl DanglingPointer, M)
    | Some a \<Rightarrow> (case pm_cb_mem M a of
        None \<Rightarrow> (Inl DanglingPointer, M)
      | Some cb \<Rightarrow> (case scb_tryBindPayload h ?p (Some ()) cb of
          (False, _) \<Rightarrow> bindA (pm_releaseControlBlock g) (\<lambda>_. throwA InvalidState) M
        | (True, cb') \<Rightarrow> sl_construct a g (pm_storeCb a cb' M)))"
  have eq: "pm_acquireLease T h M = bindA pm_acquireControlBlock ?k M"
    using True by (simp add: pm_acquireLease_def bindA_def pm_ensureConfigured_def sp_get_addr)
  have kept: "po_ok T N" if "po_cbs ?C (pm_cbs N) \<and> pm_payloads N = ?P" for N
    using that po_cbs_pools[OF ok[unfolded po_ok_def]] by (simp add: po_ok_def)
  have k: "po_ok T (snd (?k g N))"
    if N: "po_cbs ?C (pm_cbs N) \<and> pm_payloads N = ?P" "lm_taken ls g N" for g and N :: "('g word, 'p) pool_manager"
  proof -
    let ?i = "sp_slot g" and ?D = "pm_cbs N"
    have valid: "sp_isValid cb_traits ?D g" and okN: "lm_ok {?i} ls N" using N(2) by (simp_all add: lm_taken_def)
    note D = lm_okD(9)[OF okN]
    have i: "?i < sp_size ?D" using sp_isValid_index[OF valid] by (simp add: sp_slot_def)
    have mem: "pm_cb_mem N (sp_addr ?D ?i) = Some (sp_val ?D ?i)" using sp_mem_addr[OF D i] .
    have get: "sp_get cb_traits ?D g = Some (sp_addr ?D ?i)" using valid by (simp add: sp_get_addr)
    let ?b = "scb_bindPayload h ?p (Some ()) (sp_val ?D ?i)"
    show ?thesis
    proof (cases "scb_canBindPayload (sp_val ?D ?i)")
      case False
      have "po_ok T (N\<lparr>pm_cbs := snd (sp_release cb_traits ?D g)\<rparr>)"
        using N(1) po_cbs_release[OF D, of g] by (intro kept) (auto intro: po_cbs_trans)
      with False show ?thesis
        by (simp add: get mem scb_tryBindPayload_def bindA_def pm_releaseControlBlock_def)
    next
      case bind: True
      let ?b' = "scb_acquireStrong ?b"
      have con: "sl_construct (sp_addr ?D ?i) g (pm_storeCb (sp_addr ?D ?i) ?b N) =
          (Inr \<lparr>ls_cb = Some (sp_addr ?D ?i), ls_pool = True, ls_handle = g\<rparr>, N\<lparr>pm_cbs := lm_put ?D ?i ?b'\<rparr>)"
        by (simp add: sl_construct_def pm_storeCb_def lm_put_def sp_addr_def rbv_set_def)
      have "po_pools T (lm_put ?D ?i ?b') (pm_payloads N)"
        using kept[OF N(1)] po_fresh_cbs[OF fresh, of ?D] N(1) i
        by (intro po_bound[where h = h]) (auto simp: po_ok_def scb_acquireStrong_def scb_bindPayload_def)
      with bind con show ?thesis
        by (simp add: get mem scb_tryBindPayload_def po_ok_def)
    qed
  qed
  have "triple (\<lambda>N. N = M) (bindA pm_acquireControlBlock ?k) (\<lambda>_. po_ok T) (\<lambda>_. po_ok T)"
  proof (rule triple_bind[where R = "\<lambda>g N. lm_taken ls g N \<and> (po_cbs ?C (pm_cbs N) \<and> pm_payloads N = ?P)"])
    show "triple (\<lambda>N. N = M) pm_acquireControlBlock
        (\<lambda>g N. lm_taken ls g N \<and> (po_cbs ?C (pm_cbs N) \<and> pm_payloads N = ?P)) (\<lambda>_. po_ok T)"
      using triple_conj[OF lm_acquireControlBlock[of ls "\<lambda>_ _. True"] po_acquireCb[of ?C ?P]]
      by (rule triple_weaken) (use lm ok kept in \<open>auto simp: po_cbs_refl po_okD(1)\<close>)
    show "triple (\<lambda>N. lm_taken ls g N \<and> (po_cbs ?C (pm_cbs N) \<and> pm_payloads N = ?P)) (?k g)
        (\<lambda>_. po_ok T) (\<lambda>_. po_ok T)" for g
      by (rule triple_split) (simp only: triple_snd k)
  qed
  then show ?thesis by (simp only: triple_snd eq)
qed

text \<open>A block that keeps its payload, a block that loses its last reference, a payload given back.\<close>

lemma po_same:
  assumes "po_pools T C P" "i < sp_size C" "scb_strong (sp_val C i) \<noteq> 0" "scb_handle cb = scb_handle (sp_val C i)"
  shows "po_pools T (lm_put C i cb) P"
proof -
  note d = po_poolsD[OF assms(1)]
  note v = lm_put_val[OF d(1) assms(2), of _ cb]
  have h: "scb_handle (sp_val (lm_put C i cb) j) = scb_handle (sp_val C j)" if "j < sp_size C" for j
    using v[OF that] assms(4) by simp
  have s: "scb_strong (sp_val C j) \<noteq> 0" if "j < sp_size C" "scb_strong (sp_val (lm_put C i cb) j) \<noteq> 0" for j
    using v[OF that(1)] that(2) assms(3) by (auto split: if_splits)
  show ?thesis
    unfolding po_pools_def
    using d(1-3) lm_put_ok[OF d(1) assms(2)] s d(4-6) by (auto simp: h)
qed

lemma po_dropped:
  assumes "po_pools T C P" "i < sp_size C" "scb_strong cb = 0"
  shows "po_pools T (lm_put C i cb) P"
proof -
  note d = po_poolsD[OF assms(1)]
  have "po_cbs C (lm_put C i cb)"
    using lm_put_val[OF d(1) assms(2), of _ cb] assms(3) lm_put_ok[OF d(1) assms(2)] by (auto simp: po_cbs_def)
  with assms(1) show ?thesis by (rule po_cbs_pools)
qed

lemma po_given_back:
  assumes "po_pools T C P" "i < sp_size C" "scb_strong (sp_val C i) \<noteq> 0" "scb_strong cb = 0"
    and "sp_returned T (scb_handle (sp_val C i)) P Q"
  shows "po_pools T (lm_put C i cb) Q"
proof -
  note d = po_poolsD[OF assms(1)]
  let ?h = "scb_handle (sp_val C i)"
  have Q: "sp_ok Q" "sp_size Q = sp_size P" "sp_free Q = sp_free P @ [sp_slot ?h]"
    "\<And>j. j < sp_size P \<Longrightarrow> j \<noteq> sp_slot ?h \<Longrightarrow> sp_gen Q j = sp_gen P j"
    using assms(5) by (auto simp: sp_returned_def sp_slot_def)
  have dist: "distinct (sp_free Q)" using Q(3) d(3) d(5)[OF assms(2,3)] by simp
  have other: "j \<noteq> i \<and> j < sp_size C \<and> scb_strong (sp_val C j) \<noteq> 0 \<and> sp_val (lm_put C i cb) j = sp_val C j"
    if "j < sp_size (lm_put C i cb)" "scb_strong (sp_val (lm_put C i cb) j) \<noteq> 0" for j
    using that lm_put_val[OF d(1) assms(2), of j cb] assms(4) by (auto split: if_splits)
  have "sp_slot (scb_handle (sp_val C j)) \<noteq> sp_slot ?h" if "j \<noteq> i" "j < sp_size C" "scb_strong (sp_val C j) \<noteq> 0" for j
    using d(6)[OF that(2) assms(2) that(3) assms(3)] that(1) by blast
  then have valid: "sp_isValid T Q (scb_handle (sp_val C j)) \<and> sp_slot (scb_handle (sp_val C j)) \<notin> set (sp_free Q)"
    if "j \<noteq> i" "j < sp_size C" "scb_strong (sp_val C j) \<noteq> 0" for j
    using that d(4,5)[OF that(2,3)] Q(2-4) by (auto simp: sp_isValid_gen sp_slot_def)
  have put: "sp_isValid T Q (scb_handle (sp_val (lm_put C i cb) j)) \<and>
      sp_slot (scb_handle (sp_val (lm_put C i cb) j)) \<notin> set (sp_free Q)"
    if "j < sp_size (lm_put C i cb)" "scb_strong (sp_val (lm_put C i cb) j) \<noteq> 0" for j
    using other[OF that] valid by metis
  show ?thesis
    unfolding po_pools_def
  proof (intro conjI allI impI)
    fix j k assume "j < sp_size (lm_put C i cb)" "k < sp_size (lm_put C i cb)"
      and "scb_strong (sp_val (lm_put C i cb) j) \<noteq> 0 \<and> scb_strong (sp_val (lm_put C i cb) k) \<noteq> 0 \<and>
        sp_slot (scb_handle (sp_val (lm_put C i cb) j)) = sp_slot (scb_handle (sp_val (lm_put C i cb) k))"
    then show "j = k" using other[of j] other[of k] d(6)[of j k] by auto
  qed (use Q(1) dist put lm_put_ok[OF d(1) assms(2)] in blast)+
qed

lemma po_copy:
  assumes "lm_ok {} ls M" "l \<in> set ls" "po_ok T M" "sl_copyFrom l M = (Inr k, M')"
    and len: "Suc (length ls) < 2 ^ 32"
  shows "po_ok T M'"
proof -
  let ?i = "sp_slot (ls_handle l)" and ?C = "pm_cbs M"
  note mem = lm_lease_mem[OF assms(1,2)]
  let ?cb = "scb_acquireStrong (sp_val ?C ?i)"
  have M': "M' = M\<lparr>pm_cbs := lm_put ?C ?i ?cb\<rparr>"
    using assms(4) mem(1,2) by (auto simp: sl_copyFrom_def pm_storeCb_eq)
  have i: "?i < sp_size ?C" using lm_cbs_okD(5)[OF lm_okD(1)[OF assms(1)] assms(2)] .
  have nz: "scb_strong (sp_val ?C ?i) \<noteq> 0" using mem(3) lm_refs_pos[OF assms(2)] by auto
  have "scb_handle ?cb = scb_handle (sp_val ?C ?i)" by (simp add: scb_acquireStrong_def)
  with po_same[OF assms(3)[unfolded po_ok_def] i nz] show ?thesis by (simp add: po_ok_def M')
qed

lemma po_release:
  assumes "lm_ok {} ls M" "l \<in> set ls" "po_ok T M" "sl_release T l M = (Inr k, M')"
  shows "po_ok T M'"
proof -
  let ?i = "sp_slot (ls_handle l)" and ?C = "pm_cbs M" and ?P = "pm_payloads M"
  let ?cb = "sp_val ?C ?i" and ?rel = "\<lambda>_ h P. sp_release T P h"
  note mem = lm_lease_mem[OF assms(1,2)] and pools = assms(3)[unfolded po_ok_def]
  note P = po_okD(2)[OF assms(3)]
  have i: "?i < sp_size ?C" using lm_cbs_okD(5)[OF lm_okD(1)[OF assms(1)] assms(2)] .
  have nz: "scb_strong ?cb \<noteq> 0" using mem(3) lm_refs_pos[OF assms(2)] by auto
  have pool: "scb_pool ?cb = Some ()" using lm_okD(2)[OF assms(1)] i nz by (simp add: lm_pay_ok_def)
  obtain b cb' P' where rel: "scb_releaseStrong ?rel ?cb ?P = (b, cb', P')"
    by (cases "scb_releaseStrong ?rel ?cb ?P") auto
  let ?D = "lm_put ?C ?i cb'"
  have put: "po_pools T ?D P'"
  proof (cases "scb_strong ?cb = 1")
    case False
    then have "P' = ?P" "scb_handle cb' = scb_handle ?cb"
      using rel nz by (auto simp: scb_releaseStrong_def Let_def)
    with po_same[OF pools i nz] show ?thesis by simp
  next
    case True
    let ?cb0 = "?cb\<lparr>scb_strong := 0\<rparr>"
    have "scb_tryReleasePayload ?rel ?cb0 ?P = (cb', P')"
      using rel True by (simp add: scb_releaseStrong_def Let_def)
    then have zero: "scb_strong cb' = 0" and P': "P' = ?P \<or> P' = snd (sp_release T ?P (scb_handle ?cb))"
      using lm_tryRelease_payloads(2)[OF P, of T ?cb0 cb' P'] pool
      by (auto simp: scb_tryReleasePayload_def split: if_splits prod.splits)
    from P' show ?thesis
    proof
      assume "P' = snd (sp_release T ?P (scb_handle ?cb))"
      with sp_release_cases[OF P, of T "scb_handle ?cb"]
      consider "sp_returned T (scb_handle ?cb) ?P P'" | "sp_frame ?P P'" by (metis (full_types))
      then show ?thesis
      proof cases
        case 1
        with po_given_back[OF pools i nz zero] show ?thesis by simp
      next
        case 2
        with po_neutral[OF po_dropped[OF pools i zero] sp_frame_neutral] show ?thesis by simp
      qed
    qed (use po_dropped[OF pools i zero] in simp)
  qed
  let ?M = "M\<lparr>pm_cbs := ?D, pm_payloads := P'\<rparr>"
  have "M' = ?M \<or> M' = ?M\<lparr>pm_cbs := snd (sp_release cb_traits ?D (ls_handle l))\<rparr>"
    using assms(4) mem(1,2) rel by (auto simp: sl_release_def pm_storeCb_eq Let_def split: if_splits)
  with put po_cbs_pools[OF put po_cbs_release[OF po_poolsD(1)[OF put]]] show ?thesis
    by (auto simp: po_ok_def)
qed

section \<open>Programs\<close>

abbreviation "po_both ls T M \<equiv> lm_ok {} ls M \<and> po_ok T M"

lemma po_freshLease:
  assumes "Suc (length ls) < 2 ^ 32"
  shows "triple (\<lambda>M. po_both ls T M \<and> po_fresh T h (pm_cbs M) (pm_payloads M)) (pm_acquireLease T h)
    (\<lambda>l. po_both (l # ls) T) (\<lambda>_. po_both ls T)"
proof (rule triple_split)
  fix N assume N: "po_both ls T N \<and> po_fresh T h (pm_cbs N) (pm_payloads N)"
  have "triple (\<lambda>t. t = N) (pm_acquireLease T h) (\<lambda>_. po_ok T) (\<lambda>_. po_ok T)"
    unfolding triple_snd using po_acquireLease[of ls N T h] N by blast
  from triple_conj[OF lm_acquireLease[OF assms, of T h] this]
  show "triple (\<lambda>t. t = N) (pm_acquireLease T h) (\<lambda>l. po_both (l # ls) T) (\<lambda>_. po_both ls T)"
    by (rule triple_weaken) (use N in auto)
qed

lemma po_configured: "triple (po_both ls T) pm_ensureConfigured (\<lambda>_. po_both ls T) (\<lambda>_. po_both ls T)"
  by (auto simp: triple_def pm_ensureConfigured_def)

lemma po_acquire_triple:
  assumes "Suc (length ls) < 2 ^ 32"
  shows "triple (po_both ls T) (pm_acquire T r c) (\<lambda>l. po_both (l # ls) T) (\<lambda>_. po_both ls T)"
  unfolding pm_acquire_def
proof (rule triple_bind[OF po_configured], rule triple_bind[OF triple_conj[OF lm_keeps_acquirePayload po_acquireFresh]])
  fix h
  show "triple (\<lambda>M. lm_ok {} ls M \<and> po_free_or T h M)
      (if \<not> handle_isValid h then throwA OutOfRange else pm_acquireLease T h)
      (\<lambda>l. po_both (l # ls) T) (\<lambda>_. po_both ls T)"
    by (intro triple_if triple_throw triple_weaken[OF po_freshLease[OF assms]]) auto
qed

lemma po_acquireReserved_triple:
  assumes "Suc (length ls) < 2 ^ 32"
  shows "triple (po_both ls T) (pm_acquireReserved T r c) (\<lambda>l. po_both (l # ls) T) (\<lambda>_. po_both ls T)"
  unfolding pm_acquireReserved_def
proof (rule triple_bind[OF po_configured], rule triple_bind[OF triple_conj[OF lm_keeps_reservePayload po_reserveFresh]])
  fix h
  have emplace: "triple (\<lambda>M. po_both ls T M \<and> po_fresh T h (pm_cbs M) (pm_payloads M))
      (bindA (pm_emplacePayload T h r c)
        (\<lambda>emplaced. if \<not> emplaced then throwA InvalidState else pm_acquireLease T h))
      (\<lambda>l. po_both (l # ls) T) (\<lambda>_. po_both ls T)"
  proof (rule triple_bind)
    show "triple (\<lambda>M. po_both ls T M \<and> po_fresh T h (pm_cbs M) (pm_payloads M)) (pm_emplacePayload T h r c)
        (\<lambda>_ M. po_both ls T M \<and> po_fresh T h (pm_cbs M) (pm_payloads M)) (\<lambda>_. po_both ls T)"
      by (rule triple_weaken[OF triple_conj[OF lm_keeps_payload_calls(1) po_emplaced]]) auto
    show "triple (\<lambda>M. po_both ls T M \<and> po_fresh T h (pm_cbs M) (pm_payloads M))
        (if \<not> emplaced then throwA InvalidState else pm_acquireLease T h)
        (\<lambda>l. po_both (l # ls) T) (\<lambda>_. po_both ls T)" for emplaced
      by (intro triple_if triple_throw po_freshLease[OF assms]) auto
  qed
  show "triple (\<lambda>M. lm_ok {} ls M \<and> po_free_or T h M)
      (if \<not> handle_isValid h then throwA OutOfRange
       else bindA (pm_emplacePayload T h r c)
         (\<lambda>emplaced. if \<not> emplaced then throwA InvalidState else pm_acquireLease T h))
      (\<lambda>l. po_both (l # ls) T) (\<lambda>_. po_both ls T)"
    by (intro triple_if triple_throw triple_weaken[OF emplace]) auto
qed

text \<open>\<open>get\<close> is either of the two ways.\<close>

definition pm_gets ::
  "bool \<Rightarrow> ('g::len word, 'p, 'r, 'c) pool_traits \<Rightarrow> 'r \<Rightarrow> 'c \<Rightarrow> (('g word, 'p) pool_manager, strong_lease) act" where
  "pm_gets reserved T r c = (if reserved then pm_acquireReserved T r c else pm_acquire T r c)"

lemma po_gets:
  assumes "po_both ls T M" and "Suc (length ls) < 2 ^ 32"
  shows "pm_gets reserved T r c M = (Inr l, M') \<Longrightarrow> po_both (l # ls) T M'"
    "pm_gets reserved T r c M = (Inl e, M') \<Longrightarrow> po_both ls T M'"
  using tripleD[OF po_acquire_triple[OF assms(2)] assms(1)] tripleD[OF po_acquireReserved_triple[OF assms(2)] assms(1)]
  by (auto simp: pm_gets_def split: if_splits)

inductive po_client ::
  "('g::len word, 'p, 'r, 'c) pool_traits \<Rightarrow> ('g word, 'p) pool_manager \<Rightarrow> strong_lease list \<Rightarrow> bool"
  for T where
  po_start: "po_client T pm_new []"
| po_call: "po_client T M ls \<Longrightarrow> po_client T (pm_exec T call M) ls"
| po_acquired: "po_client T M ls \<Longrightarrow> Suc (length ls) < 2 ^ 32 \<Longrightarrow>
    pm_gets reserved T r c M = (Inr l, M') \<Longrightarrow> po_client T M' (l # ls)"
| po_acquire_failed: "po_client T M ls \<Longrightarrow> Suc (length ls) < 2 ^ 32 \<Longrightarrow>
    pm_gets reserved T r c M = (Inl e, M') \<Longrightarrow> po_client T M' ls"
| po_copied: "po_client T M ls \<Longrightarrow> l \<in> set ls \<Longrightarrow> Suc (length ls) < 2 ^ 32 \<Longrightarrow>
    sl_copyFrom l M = (Inr k, M') \<Longrightarrow> po_client T M' (k # ls)"
| po_released: "po_client T M ls \<Longrightarrow> l \<in> set ls \<Longrightarrow> sl_release T l M = (Inr k, M') \<Longrightarrow>
    po_client T M' (remove1 l ls)"

lemma po_ok_new: "po_ok T pm_new"
  by (simp add: po_ok_def po_pools_def pm_new_def) (simp add: sp_new_def sp_size_def sp_free_def)

lemma po_client_ok: "po_client T M ls \<Longrightarrow> lm_ok {} ls M \<and> po_ok T M"
proof (induction rule: po_client.induct)
  case po_start
  show ?case by (simp add: lm_ok_new po_ok_new)
next
  case (po_call M ls call)
  then show ?case using lm_keeps_exec po_calls by blast
next
  case po_acquired
  from po_acquired.IH po_acquired.hyps(2,3) show ?case by (rule po_gets(1))
next
  case po_acquire_failed
  from po_acquire_failed.IH po_acquire_failed.hyps(2,3) show ?case by (rule po_gets(2))
next
  case (po_copied M ls l k M')
  then show ?case using lm_copy[of ls M l] po_copy[of ls M l T k M'] by fastforce
next
  case (po_released M ls l k M')
  then show ?case using lm_release[of ls M l T] po_release[of ls M l T k M'] by fastforce
qed

text \<open>
  C25: a payload has one owner.  A program that gets its leases for a payload fresh from the pool (a
  created one, or an uncreated slot in which it creates one), and otherwise configures, shuts down,
  grows, copies and releases in any order, never has two leases with different control blocks that lead
  to the same payload; and the payload a live lease leads to is valid and not available for acquisition.
  Leases made for a payload that is handed out already are not in such a program.
\<close>

theorem pm_exclusive_payloads:
  assumes "po_client T M ls" and "l \<in> set ls" and "k \<in> set ls"
  shows "\<exists>h g. sl_payloadHandle l M = Inr h \<and> sl_payloadHandle k M = Inr g \<and>
    sp_isValid T (pm_payloads M) h \<and> sp_slot h \<notin> set (sp_free (pm_payloads M)) \<and>
    (sp_slot h = sp_slot g \<longleftrightarrow> ls_cb l = ls_cb k)"
proof -
  have lm: "lm_ok {} ls M" and po: "po_pools T (pm_cbs M) (pm_payloads M)"
    using po_client_ok[OF assms(1)] by (simp_all add: po_ok_def)
  let ?cb = "\<lambda>l. sp_val (pm_cbs M) (sp_slot (ls_handle l))"
  have facts: "sl_payloadHandle m M = Inr (scb_handle (?cb m))" "sp_slot (ls_handle m) < sp_size (pm_cbs M)"
    "scb_strong (?cb m) \<noteq> 0" "ls_cb m = Some (sp_addr (pm_cbs M) (sp_slot (ls_handle m)))" if "m \<in> set ls" for m
    using lm_lease_mem[OF lm that] lm_refs_pos[OF that] lm_cbs_okD(5)[OF lm_okD(1)[OF lm] that]
    by (auto simp: sl_payloadHandle_def)
  note d = po_poolsD[OF po]
  have "sp_slot (scb_handle (?cb l)) = sp_slot (scb_handle (?cb k)) \<longleftrightarrow> ls_cb l = ls_cb k"
    using d(6)[of "sp_slot (ls_handle l)" "sp_slot (ls_handle k)"] facts[OF assms(2)] facts[OF assms(3)]
      sp_addr_inj[OF d(1), of "sp_slot (ls_handle l)" "sp_slot (ls_handle k)"] by auto
  with facts[OF assms(2)] facts(1)[OF assms(3)] d(4,5) show ?thesis by metis
qed

theorem pm_exclusive_payloads_witness:
  "\<exists>M l k h g. po_client lm_ex_traits M [l, k] \<and> sl_payloadHandle l M = Inr h \<and> sl_payloadHandle k M = Inr g \<and>
     sp_slot h \<noteq> sp_slot g"
proof -
  let ?k = "\<lparr>ls_cb = Some 0, ls_pool = True, ls_handle = Handle 0 0\<rparr>"
  let ?l = "\<lparr>ls_cb = Some 1, ls_pool = True, ls_handle = Handle 1 0\<rparr>"
  let ?M = "snd (pm_gets False lm_ex_traits 5 () lm_ex_manager)"
  let ?N = "snd (pm_gets True lm_ex_traits 5 () ?M)"
  have start: "po_client lm_ex_traits lm_ex_manager []"
    unfolding lm_ex_manager_def by (intro po_call po_start)
  have k: "fst (pm_gets False lm_ex_traits 5 () lm_ex_manager) = Inr ?k" by code_simp
  have l: "fst (pm_gets True lm_ex_traits 5 () ?M) = Inr ?l" by code_simp
  have "po_client lm_ex_traits ?M [?k]"
    by (rule po_acquired[OF start, of False 5 "()"]) (simp_all add: prod_eq_iff k)
  then have c: "po_client lm_ex_traits ?N [?l, ?k]"
    by (rule po_acquired[of _ _ _ True 5 "()"]) (simp_all add: prod_eq_iff l)
  from pm_exclusive_payloads[OF c, of ?l ?k] obtain h g where
    "sl_payloadHandle ?l ?N = Inr h" "sl_payloadHandle ?k ?N = Inr g" "sp_slot h \<noteq> sp_slot g" by auto
  with c show ?thesis by (intro exI conjI)
qed

end
