(* ===== verification/FixedSlotStore.thy ===== *)
theory FixedSlotStore
  imports PoolFacts
begin

text \<open>
  \<open>base/pool/fixed_slot_store.h\<close>: the store with the interface of a slot pool but without a freelist,
  whose slots are addressed by handle index; the traits are those of \<open>SlotPool\<close>.  A call that throws
  does so before it changes anything.
\<close>

record ('w, 'p) fixed_store =
  fs_payloads :: "'p rbv"
  fs_generations :: "'w heap_vector"
  fs_created :: "u8 heap_vector"
  fs_next_uncreated :: nat

definition fs_new :: "('g::len word, 'p) fixed_store" where
  "fs_new = \<lparr>fs_payloads = rbv_default, fs_generations = hv_new, fs_created = hv_new,
             fs_next_uncreated = 0\<rparr>"

definition fs_size :: "('g::len word, 'p) fixed_store \<Rightarrow> nat" where
  "fs_size S = rbv_size (fs_payloads S)"

definition fs_capacity :: "('g::len word, 'p) fixed_store \<Rightarrow> nat" where
  "fs_capacity S = rbv_capacity (fs_payloads S)"

definition fs_blockSize :: "('g::len word, 'p) fixed_store \<Rightarrow> nat" where
  "fs_blockSize S = rbv_block_size (fs_payloads S)"

definition fs_empty :: "('g::len word, 'p) fixed_store \<Rightarrow> bool" where
  "fs_empty S \<longleftrightarrow> rbv_isEmpty (fs_payloads S)"

section \<open>Validation\<close>

definition fs_isValid ::
  "('g::len word, 'p, 'r, 'c) pool_traits \<Rightarrow> ('g word, 'p) fixed_store \<Rightarrow> 'g word handle \<Rightarrow> bool" where
  "fs_isValid T S h =
     (let idx = unat (h_index h) in
      if idx \<ge> fs_size S then False
      else if tr_has_generation T then h_generation h = hv_nth (fs_generations S) idx
      else True)"

definition fs_isCreated ::
  "('g::len word, 'p, 'r, 'c) pool_traits \<Rightarrow> ('g word, 'p) fixed_store \<Rightarrow> 'g word handle \<Rightarrow> bool" where
  "fs_isCreated T S h =
     (if \<not> fs_isValid T S h then False
      else hv_nth (fs_created S) (unat (h_index h)) \<noteq> 0)"

definition fs_get ::
  "('g::len word, 'p, 'r, 'c) pool_traits \<Rightarrow> ('g word, 'p) fixed_store \<Rightarrow> 'g word handle \<Rightarrow> nat option" where
  "fs_get T S h =
     (if \<not> fs_isValid T S h \<or> \<not> fs_isCreated T S h then None
      else Some (rbv_ptrAt (fs_payloads S) (unat (h_index h))))"

definition fs_makeHandle ::
  "('g::len word, 'p, 'r, 'c) pool_traits \<Rightarrow> ('g word, 'p) fixed_store \<Rightarrow> u32 \<Rightarrow> 'g word handle" where
  "fs_makeHandle T S idx =
     (if tr_has_generation T then Handle idx (hv_nth (fs_generations S) (unat idx))
      else Handle idx 0)"

definition fs_setCreated ::
  "('g::len word, 'p, 'r, 'c) pool_traits \<Rightarrow> ('g word, 'p) fixed_store \<Rightarrow> 'g word handle \<Rightarrow> bool \<Rightarrow>
   ('g word, 'p) fixed_store" where
  "fs_setCreated T S h b =
     (if \<not> fs_isValid T S h then S
      else S\<lparr>fs_created := hv_set (fs_created S) (unat (h_index h)) (if b then 1 else 0)\<rparr>)"

section \<open>Creation and destruction\<close>

text \<open>The loop that moves \<open>next_uncreated_index_\<close> past all created slots.\<close>

function fs_advance :: "('g::len word, 'p) fixed_store \<Rightarrow> ('g word, 'p) fixed_store" where
  "fs_advance S =
     (if fs_next_uncreated S < fs_size S \<and> hv_nth (fs_created S) (fs_next_uncreated S) \<noteq> 0
      then fs_advance (S\<lparr>fs_next_uncreated := fs_next_uncreated S + 1\<rparr>)
      else S)"
  by pat_completeness auto
termination
  by (relation "measure (\<lambda>S. fs_size S - fs_next_uncreated S)") (auto simp: fs_size_def)

declare fs_advance.simps [simp del]

text \<open>The overload with a caller-provided function, then the one that uses the traits.\<close>

definition fs_emplaceWith ::
  "('g::len word, 'p, 'r, 'c) pool_traits \<Rightarrow> ('g word, 'p) fixed_store \<Rightarrow> 'g word handle \<Rightarrow> 'r \<Rightarrow> 'c \<Rightarrow>
   ('p \<Rightarrow> 'r \<Rightarrow> 'c \<Rightarrow> bool \<times> 'p) \<Rightarrow> bool \<times> ('g word, 'p) fixed_store" where
  "fs_emplaceWith T S h request context createFn =
     (if \<not> fs_isValid T S h \<or> fs_isCreated T S h then (False, S)
      else let idx = unat (h_index h);
               S' = (if tr_has_generation T
                     then S\<lparr>fs_generations := hv_set (fs_generations S) idx (h_generation h)\<rparr> else S);
               (created, payload) = createFn (rbv_nth (fs_payloads S') idx) request context;
               S'' = S'\<lparr>fs_payloads := rbv_set (fs_payloads S') idx payload\<rparr>
           in if created then (True, fs_advance (fs_setCreated T S'' h True)) else (False, S''))"

definition fs_emplace ::
  "('g::len word, 'p, 'r, 'c) pool_traits \<Rightarrow> ('g word, 'p) fixed_store \<Rightarrow> 'g word handle \<Rightarrow> 'r \<Rightarrow> 'c \<Rightarrow>
   bool \<times> ('g word, 'p) fixed_store" where
  "fs_emplace T S h request context =
     (if \<not> fs_isValid T S h \<or> fs_isCreated T S h then (False, S)
      else let idx = unat (h_index h);
               S' = (if tr_has_generation T
                     then S\<lparr>fs_generations := hv_set (fs_generations S) idx (h_generation h)\<rparr> else S);
               (created, payload) = tr_create T (rbv_nth (fs_payloads S') idx) request context;
               S'' = S'\<lparr>fs_payloads := rbv_set (fs_payloads S') idx payload\<rparr>
           in if created then (True, fs_advance (fs_setCreated T S'' h True)) else (False, S''))"

text \<open>A destroy function returning \<open>void\<close> is one whose flag is always \<open>True\<close>.\<close>

definition fs_destroyWith ::
  "('g::len word, 'p, 'r, 'c) pool_traits \<Rightarrow> ('g word, 'p) fixed_store \<Rightarrow> 'g word handle \<Rightarrow> 'r \<Rightarrow> 'c \<Rightarrow>
   ('p \<Rightarrow> 'r \<Rightarrow> 'c \<Rightarrow> bool \<times> 'p) \<Rightarrow> bool \<times> ('g word, 'p) fixed_store" where
  "fs_destroyWith T S h request context destroyFn =
     (if \<not> fs_isValid T S h \<or> \<not> fs_isCreated T S h then (False, S)
      else let idx = unat (h_index h);
               (destroyed, payload) = destroyFn (rbv_nth (fs_payloads S) idx) request context;
               S' = S\<lparr>fs_payloads := rbv_set (fs_payloads S) idx payload\<rparr>
           in if \<not> destroyed then (False, S') else (True, fs_setCreated T S' h False))"

definition fs_destroy ::
  "('g::len word, 'p, 'r, 'c) pool_traits \<Rightarrow> ('g word, 'p) fixed_store \<Rightarrow> 'g word handle \<Rightarrow> 'r \<Rightarrow> 'c \<Rightarrow>
   bool \<times> ('g word, 'p) fixed_store" where
  "fs_destroy T S h request context =
     (if \<not> fs_isValid T S h \<or> \<not> fs_isCreated T S h then (False, S)
      else let idx = unat (h_index h);
               payload = tr_destroy T (rbv_nth (fs_payloads S) idx) request context;
               S' = S\<lparr>fs_payloads := rbv_set (fs_payloads S) idx payload\<rparr>
           in (True, fs_setCreated T S' h False))"

fun fs_createLoop ::
  "('g::len word, 'p, 'r, 'c) pool_traits \<Rightarrow> 'r \<Rightarrow> 'c \<Rightarrow> nat list \<Rightarrow> bool \<Rightarrow> ('g word, 'p) fixed_store \<Rightarrow>
   bool \<times> ('g word, 'p) fixed_store" where
  "fs_createLoop T request context [] all_created S = (all_created, S)"
| "fs_createLoop T request context (idx # idxs) all_created S =
     (let slot_request = tr_setHandle T request (fs_makeHandle T S (word_of_nat idx));
          (b, S') = fs_emplace T S (fs_makeHandle T S (word_of_nat idx)) slot_request context
      in fs_createLoop T request context idxs (if \<not> b then False else all_created) S')"

definition fs_createRange ::
  "('g::len word, 'p, 'r, 'c) pool_traits \<Rightarrow> ('g word, 'p) fixed_store \<Rightarrow> nat \<Rightarrow> nat \<Rightarrow> 'r \<Rightarrow> 'c \<Rightarrow>
   (bool \<times> ('g word, 'p) fixed_store) res" where
  "fs_createRange T S start end request context =
     (if start > end \<or> end > fs_size S then throw InvalidArgument
      else Inr (fs_createLoop T request context [start..<end] True S))"

definition fs_createAll ::
  "('g::len word, 'p, 'r, 'c) pool_traits \<Rightarrow> ('g word, 'p) fixed_store \<Rightarrow> 'r \<Rightarrow> 'c \<Rightarrow>
   (bool \<times> ('g word, 'p) fixed_store) res" where
  "fs_createAll T S request context = fs_createRange T S 0 (fs_size S) request context"

section \<open>Acquisition and release\<close>

definition fs_tryAcquireCreated ::
  "('g::len word, 'p, 'r, 'c) pool_traits \<Rightarrow> ('g word, 'p) fixed_store \<Rightarrow> 'g word handle" where
  "fs_tryAcquireCreated T S =
     (if fs_next_uncreated S = 0 then handle_invalid
      else if hv_nth (fs_created S) 0 = 0 then handle_invalid
      else fs_makeHandle T S 0)"

definition fs_tryReserveUncreated ::
  "('g::len word, 'p, 'r, 'c) pool_traits \<Rightarrow> ('g word, 'p) fixed_store \<Rightarrow> 'g word handle" where
  "fs_tryReserveUncreated T S =
     (if fs_next_uncreated S \<ge> fs_size S then handle_invalid
      else if hv_nth (fs_created S) (fs_next_uncreated S) \<noteq> 0 then handle_invalid
      else fs_makeHandle T S (word_of_nat (fs_next_uncreated S)))"

definition fs_acquireCreated ::
  "('g::len word, 'p, 'r, 'c) pool_traits \<Rightarrow> ('g word, 'p) fixed_store \<Rightarrow> 'g word handle res" where
  "fs_acquireCreated T S =
     (let h = fs_tryAcquireCreated T S in if \<not> handle_isValid h then throw OutOfRange else Inr h)"

definition fs_reserveUncreated ::
  "('g::len word, 'p, 'r, 'c) pool_traits \<Rightarrow> ('g word, 'p) fixed_store \<Rightarrow> 'g word handle res" where
  "fs_reserveUncreated T S =
     (let h = fs_tryReserveUncreated T S in if \<not> handle_isValid h then throw OutOfRange else Inr h)"

definition fs_releaseRC ::
  "('g::len word, 'p, 'r, 'c) pool_traits \<Rightarrow> ('g word, 'p) fixed_store \<Rightarrow> 'g word handle \<Rightarrow> 'r \<Rightarrow> 'c \<Rightarrow>
   bool \<times> ('g word, 'p) fixed_store" where
  "fs_releaseRC T S h request context =
     (if \<not> fs_isValid T S h then (False, S)
      else if tr_destroy_on_release T
      then (if \<not> fs_isCreated T S h then (False, S)
            else case fs_destroy T S h request context of
                (False, S') \<Rightarrow> (False, S')
              | (True, S') \<Rightarrow> (True, S'))
      else (True, S))"

definition fs_release ::
  "('g::len word, 'p, 'r, 'c) pool_traits \<Rightarrow> ('g word, 'p) fixed_store \<Rightarrow> 'g word handle \<Rightarrow>
   bool \<times> ('g word, 'p) fixed_store" where
  "fs_release T S h =
     (if tr_destroy_on_release T then fs_releaseRC T S h (tr_request T) (tr_context T)
      else (fs_isValid T S h, S))"

section \<open>Configuration\<close>

definition fs_setBlockSize ::
  "('g::len word, 'p) fixed_store \<Rightarrow> nat \<Rightarrow> (nat \<times> ('g word, 'p) fixed_store) res" where
  "fs_setBlockSize S block_size =
     (if block_size = 0 then throw InvalidArgument
      else let old_block_size = rbv_block_size (fs_payloads S)
           in if old_block_size \<noteq> block_size
              then bindR (rbv_resizeBlocks (fs_payloads S) block_size)
                     (\<lambda>v. Inr (old_block_size, S\<lparr>fs_payloads := v\<rparr>))
              else Inr (old_block_size, S))"

definition fs_reserve :: "('g::len word, 'p) fixed_store \<Rightarrow> nat \<Rightarrow> ('g word, 'p) fixed_store res" where
  "fs_reserve S new_capacity =
     (if new_capacity > unat handle_invalid_index then throw InvalidArgument
      else Inr (S\<lparr>fs_payloads := rbv_reserve (fs_payloads S) new_capacity,
                 fs_generations := hv_reserve (fs_generations S) new_capacity,
                 fs_created := hv_reserve (fs_created S) new_capacity\<rparr>))"

definition fs_resize ::
  "('g::len word, 'p, 'r, 'c) pool_traits \<Rightarrow> ('g word, 'p) fixed_store \<Rightarrow> nat \<Rightarrow>
   (nat \<times> ('g word, 'p) fixed_store) res" where
  "fs_resize T S new_size =
     (let old_size = fs_size S in
      if new_size < old_size then throw InvalidArgument
      else if new_size > unat handle_invalid_index then throw InvalidArgument
      else if new_size = old_size then Inr (old_size, S)
      else Inr (old_size,
             S\<lparr>fs_payloads := rbv_resize (fs_payloads S) new_size (tr_default T),
               fs_generations := hv_resize (fs_generations S) new_size 0,
               fs_created := hv_resize (fs_created S) new_size 0\<rparr>))"

definition fs_destroyCreated ::
  "('g::len word, 'p, 'r, 'c) pool_traits \<Rightarrow> ('g word, 'p) fixed_store \<Rightarrow> 'r \<Rightarrow> 'c \<Rightarrow>
   ('g word, 'p) fixed_store" where
  "fs_destroyCreated T S request context =
     foldl (\<lambda>S idx. if hv_nth (fs_created S) idx \<noteq> 0
                    then snd (fs_destroy T S (fs_makeHandle T S (word_of_nat idx)) request context)
                    else S) S [0..<fs_size S]"

definition fs_clear ::
  "('g::len word, 'p, 'r, 'c) pool_traits \<Rightarrow> ('g word, 'p) fixed_store \<Rightarrow> 'r \<Rightarrow> 'c \<Rightarrow>
   ('g word, 'p) fixed_store" where
  "fs_clear T S request context =
     (let S' = fs_destroyCreated T S request context
      in S'\<lparr>fs_payloads := rbv_clear (fs_payloads S'), fs_generations := hv_clear (fs_generations S'),
           fs_created := hv_clear (fs_created S'), fs_next_uncreated := 0\<rparr>)"

section \<open>The store as a list of slots\<close>

text \<open>
  What the store promises, stated on the list of its slots (the payload and whether it has been
  created) and the position from which slots are handed out for creation.  Handles are plain
  indices: the generation of every handle the store makes or accepts is 0.
\<close>

type_synonym 'p slots = "('p \<times> bool) list \<times> nat"

definition fa_valid :: "('g::len word, 'p, 'r, 'c) pool_traits \<Rightarrow> 'p slots \<Rightarrow> 'g word handle \<Rightarrow> bool" where
  "fa_valid T A h \<longleftrightarrow> unat (h_index h) < length (fst A) \<and> (tr_has_generation T \<longrightarrow> h_generation h = 0)"

definition fa_slot :: "'p slots \<Rightarrow> 'w handle \<Rightarrow> 'p \<times> bool" where
  "fa_slot A h = fst A ! unat (h_index h)"

definition fa_put :: "'p slots \<Rightarrow> 'w handle \<Rightarrow> 'p \<times> bool \<Rightarrow> 'p slots" where
  "fa_put A h x = ((fst A)[unat (h_index h) := x], snd A)"

text \<open>The first uncreated slot from the position on.\<close>

definition fa_forward :: "'p slots \<Rightarrow> 'p slots" where
  "fa_forward A = (fst A, snd A + length (takeWhile snd (drop (snd A) (fst A))))"

definition fa_emplace ::
  "('g::len word, 'p, 'r, 'c) pool_traits \<Rightarrow> 'g word handle \<Rightarrow> 'r \<Rightarrow> 'c \<Rightarrow>
   ('p \<Rightarrow> 'r \<Rightarrow> 'c \<Rightarrow> bool \<times> 'p) \<Rightarrow> 'p slots \<Rightarrow> bool \<times> 'p slots" where
  "fa_emplace T h r c f A =
     (if fa_valid T A h \<and> \<not> snd (fa_slot A h)
      then let (created, p) = f (fst (fa_slot A h)) r c in (created, fa_forward (fa_put A h (p, created)))
      else (False, A))"

definition fa_destroy ::
  "('g::len word, 'p, 'r, 'c) pool_traits \<Rightarrow> 'g word handle \<Rightarrow> 'r \<Rightarrow> 'c \<Rightarrow>
   ('p \<Rightarrow> 'r \<Rightarrow> 'c \<Rightarrow> bool \<times> 'p) \<Rightarrow> 'p slots \<Rightarrow> bool \<times> 'p slots" where
  "fa_destroy T h r c f A =
     (if fa_valid T A h \<and> snd (fa_slot A h)
      then let (destroyed, p) = f (fst (fa_slot A h)) r c in (destroyed, fa_put A h (p, \<not> destroyed))
      else (False, A))"

definition fa_release ::
  "('g::len word, 'p, 'r, 'c) pool_traits \<Rightarrow> 'g word handle \<Rightarrow> 'r \<Rightarrow> 'c \<Rightarrow> 'p slots \<Rightarrow> bool \<times> 'p slots" where
  "fa_release T h r c A =
     (if tr_destroy_on_release T then fa_destroy T h r c (\<lambda>p r c. (True, tr_destroy T p r c)) A
      else (fa_valid T A h, A))"

fun fa_createAt ::
  "('g::len word, 'p, 'r, 'c) pool_traits \<Rightarrow> 'r \<Rightarrow> 'c \<Rightarrow> nat list \<Rightarrow> 'p slots \<Rightarrow> bool \<times> 'p slots" where
  "fa_createAt T r c [] A = (True, A)"
| "fa_createAt T r c (i # idxs) A =
     (let h = Handle (word_of_nat i) 0;
          (b, A') = fa_emplace T h (tr_setHandle T r h) c (tr_create T) A;
          (b', A'') = fa_createAt T r c idxs A'
      in (b \<and> b', A''))"

datatype ('w, 'p, 'r, 'c) fs_call =
    FsEmplace "'w handle" 'r 'c
  | FsEmplaceWith "'w handle" 'r 'c "'p \<Rightarrow> 'r \<Rightarrow> 'c \<Rightarrow> bool \<times> 'p"
  | FsDestroy "'w handle" 'r 'c
  | FsDestroyWith "'w handle" 'r 'c "'p \<Rightarrow> 'r \<Rightarrow> 'c \<Rightarrow> bool \<times> 'p"
  | FsRelease "'w handle"
  | FsReleaseRC "'w handle" 'r 'c
  | FsCreateRange nat nat 'r 'c
  | FsCreateAll 'r 'c
  | FsAcquireCreated
  | FsReserveUncreated
  | FsGet "'w handle"
  | FsIsValid "'w handle"
  | FsIsCreated "'w handle"
  | FsResize nat
  | FsReserve nat
  | FsSize
  | FsEmpty
  | FsSetBlockSize nat
  | FsBlockSize
  | FsClear 'r 'c

text \<open>Answers; a pointer is answered as the payload it points to.\<close>

datatype ('w, 'p) fs_answer =
    AnsBool bool | AnsSize nat | AnsHandle "'w handle" | AnsPayload "'p option" | AnsUnit | AnsThrow exn

definition ans :: "('a \<Rightarrow> ('w, 'p) fs_answer) \<Rightarrow> 's \<Rightarrow> ('a \<times> 's) res \<Rightarrow> ('w, 'p) fs_answer \<times> 's" where
  "ans k s x = (case x of Inl e \<Rightarrow> (AnsThrow e, s) | Inr (a, s') \<Rightarrow> (k a, s'))"

fun fs_exec ::
  "('g::len word, 'p, 'r, 'c) pool_traits \<Rightarrow> ('g word, 'p, 'r, 'c) fs_call \<Rightarrow>
   ('g word, 'p) fixed_store \<Rightarrow> ('g word, 'p) fs_answer \<times> ('g word, 'p) fixed_store" where
  "fs_exec T (FsEmplace h r c) S = apfst AnsBool (fs_emplace T S h r c)"
| "fs_exec T (FsEmplaceWith h r c f) S = apfst AnsBool (fs_emplaceWith T S h r c f)"
| "fs_exec T (FsDestroy h r c) S = apfst AnsBool (fs_destroy T S h r c)"
| "fs_exec T (FsDestroyWith h r c f) S = apfst AnsBool (fs_destroyWith T S h r c f)"
| "fs_exec T (FsRelease h) S = apfst AnsBool (fs_release T S h)"
| "fs_exec T (FsReleaseRC h r c) S = apfst AnsBool (fs_releaseRC T S h r c)"
| "fs_exec T (FsCreateRange a b r c) S = ans AnsBool S (fs_createRange T S a b r c)"
| "fs_exec T (FsCreateAll r c) S = ans AnsBool S (fs_createAll T S r c)"
| "fs_exec T FsAcquireCreated S = ans AnsHandle S (bindR (fs_acquireCreated T S) (\<lambda>h. Inr (h, S)))"
| "fs_exec T FsReserveUncreated S = ans AnsHandle S (bindR (fs_reserveUncreated T S) (\<lambda>h. Inr (h, S)))"
| "fs_exec T (FsGet h) S =
     (AnsPayload (case fs_get T S h of None \<Rightarrow> None | Some a \<Rightarrow> rbv_mem (fs_payloads S) a), S)"
| "fs_exec T (FsIsValid h) S = (AnsBool (fs_isValid T S h), S)"
| "fs_exec T (FsIsCreated h) S = (AnsBool (fs_isCreated T S h), S)"
| "fs_exec T (FsResize n) S = ans AnsSize S (fs_resize T S n)"
| "fs_exec T (FsReserve n) S = ans (\<lambda>_. AnsUnit) S (bindR (fs_reserve S n) (\<lambda>S'. Inr ((), S')))"
| "fs_exec T FsSize S = (AnsSize (fs_size S), S)"
| "fs_exec T FsEmpty S = (AnsBool (fs_empty S), S)"
| "fs_exec T (FsSetBlockSize n) S = ans AnsSize S (fs_setBlockSize S n)"
| "fs_exec T FsBlockSize S = (AnsSize (fs_blockSize S), S)"
| "fs_exec T (FsClear r c) S = (AnsUnit, fs_clear T S r c)"

text \<open>The calls on the slots, and all calls on the slots with the block size.\<close>

fun fa_slots ::
  "('g::len word, 'p, 'r, 'c) pool_traits \<Rightarrow> ('g word, 'p, 'r, 'c) fs_call \<Rightarrow>
   'p slots \<Rightarrow> ('g word, 'p) fs_answer \<times> 'p slots" where
  "fa_slots T (FsEmplace h r c) A = apfst AnsBool (fa_emplace T h r c (tr_create T) A)"
| "fa_slots T (FsEmplaceWith h r c f) A = apfst AnsBool (fa_emplace T h r c f A)"
| "fa_slots T (FsDestroy h r c) A =
     apfst AnsBool (fa_destroy T h r c (\<lambda>p r c. (True, tr_destroy T p r c)) A)"
| "fa_slots T (FsDestroyWith h r c f) A = apfst AnsBool (fa_destroy T h r c f A)"
| "fa_slots T (FsReleaseRC h r c) A = apfst AnsBool (fa_release T h r c A)"
| "fa_slots T (FsRelease h) A = apfst AnsBool (fa_release T h (tr_request T) (tr_context T) A)"
| "fa_slots T (FsCreateRange a b r c) A =
     (if a \<le> b \<and> b \<le> length (fst A) then apfst AnsBool (fa_createAt T r c [a..<b] A)
      else (AnsThrow (OrteafError InvalidArgument), A))"
| "fa_slots T (FsCreateAll r c) A = apfst AnsBool (fa_createAt T r c [0..<length (fst A)] A)"
| "fa_slots T FsAcquireCreated A =
     (if \<exists>p xs. fst A = (p, True) # xs then AnsHandle (Handle 0 0) else AnsThrow (OrteafError OutOfRange), A)"
| "fa_slots T FsReserveUncreated A =
     (if snd A < length (fst A) then AnsHandle (Handle (word_of_nat (snd A)) 0)
      else AnsThrow (OrteafError OutOfRange), A)"
| "fa_slots T (FsGet h) A =
     (AnsPayload (if fa_valid T A h \<and> snd (fa_slot A h) then Some (fst (fa_slot A h)) else None), A)"
| "fa_slots T (FsIsValid h) A = (AnsBool (fa_valid T A h), A)"
| "fa_slots T (FsIsCreated h) A = (AnsBool (fa_valid T A h \<and> snd (fa_slot A h)), A)"
| "fa_slots T (FsResize n) A =
     (if length (fst A) \<le> n \<and> n \<le> 2 ^ 32 - 1
      then (AnsSize (length (fst A)), (fst A @ replicate (n - length (fst A)) (tr_default T, False), snd A))
      else (AnsThrow (OrteafError InvalidArgument), A))"
| "fa_slots T (FsReserve n) A = (if n \<le> 2 ^ 32 - 1 then AnsUnit else AnsThrow (OrteafError InvalidArgument), A)"
| "fa_slots T FsSize A = (AnsSize (length (fst A)), A)"
| "fa_slots T FsEmpty A = (AnsBool (fst A = []), A)"
| "fa_slots T (FsClear r c) A = (AnsUnit, ([], 0))"

definition fa_exec ::
  "('g::len word, 'p, 'r, 'c) pool_traits \<Rightarrow> ('g word, 'p, 'r, 'c) fs_call \<Rightarrow>
   'p slots \<times> nat \<Rightarrow> ('g word, 'p) fs_answer \<times> 'p slots \<times> nat" where
  "fa_exec T call = (\<lambda>(A, block_size). case call of
       FsSetBlockSize n \<Rightarrow>
         (if 0 < n then (AnsSize block_size, A, n) else (AnsThrow (OrteafError InvalidArgument), A, block_size))
     | FsBlockSize \<Rightarrow> (AnsSize block_size, A, block_size)
     | _ \<Rightarrow> apsnd (\<lambda>A. (A, block_size)) (fa_slots T call A))"

section \<open>The store implements the list\<close>

definition fs_abs :: "('g::len word, 'p) fixed_store \<Rightarrow> 'p slots" where
  "fs_abs S = (zip (rbv_list (fs_payloads S)) (map (\<lambda>b. b \<noteq> 0) (hv_data (fs_created S))),
               fs_next_uncreated S)"

definition fs_pre :: "('g::len word, 'p) fixed_store \<Rightarrow> bool" where
  "fs_pre S \<longleftrightarrow> rbv_ok (fs_payloads S) \<and> hv_size (fs_generations S) = fs_size S \<and>
     hv_size (fs_created S) = fs_size S \<and> fs_size S \<le> 2 ^ 32 - 1 \<and>
     (\<forall>i < fs_size S. hv_nth (fs_generations S) i = 0) \<and> fs_next_uncreated S \<le> fs_size S"

text \<open>The slot at \<open>next_uncreated_index_\<close> is never created.\<close>

definition fs_ok :: "('g::len word, 'p) fixed_store \<Rightarrow> bool" where
  "fs_ok S \<longleftrightarrow> fs_pre S \<and>
     (fs_next_uncreated S < fs_size S \<longrightarrow> hv_nth (fs_created S) (fs_next_uncreated S) = 0)"

lemma fs_preD:
  assumes "fs_pre S"
  shows "rbv_ok (fs_payloads S)" "hv_size (fs_generations S) = fs_size S"
    "hv_size (fs_created S) = fs_size S" "fs_size S \<le> 2 ^ 32 - 1"
    "i < fs_size S \<Longrightarrow> hv_nth (fs_generations S) i = 0" "fs_next_uncreated S \<le> fs_size S"
  using assms by (simp_all add: fs_pre_def)

lemma fs_ok_pre: "fs_ok S \<Longrightarrow> fs_pre S"
  by (simp add: fs_ok_def)

lemma fs_abs_next [simp]: "snd (fs_abs S) = fs_next_uncreated S"
  by (simp add: fs_abs_def)

lemma fs_abs_length [simp]: "fs_pre S \<Longrightarrow> length (fst (fs_abs S)) = fs_size S"
  by (simp add: fs_abs_def fs_pre_def fs_size_def hv_size_def)

lemma fs_abs_nth [simp]:
  "fs_pre S \<Longrightarrow> i < fs_size S \<Longrightarrow>
   fst (fs_abs S) ! i = (rbv_nth (fs_payloads S) i, hv_nth (fs_created S) i \<noteq> 0)"
  by (simp add: fs_abs_def fs_pre_def fs_size_def hv_size_def hv_nth_def rbv_nth_list)

lemma fs_isValid_abs [simp]: "fs_pre S \<Longrightarrow> fs_isValid T S h = fa_valid T (fs_abs S) h"
  by (auto simp: fs_isValid_def fa_valid_def Let_def fs_preD)

lemma fs_slot_abs [simp]:
  "fs_pre S \<Longrightarrow> fa_valid T (fs_abs S) h \<Longrightarrow>
   fa_slot (fs_abs S) h = (rbv_nth (fs_payloads S) (unat (h_index h)), hv_nth (fs_created S) (unat (h_index h)) \<noteq> 0)"
  by (simp add: fa_slot_def fa_valid_def)

lemma fs_isCreated_abs:
  "fs_pre S \<Longrightarrow> fs_isCreated T S h \<longleftrightarrow> fa_valid T (fs_abs S) h \<and> snd (fa_slot (fs_abs S) h)"
  by (auto simp: fs_isCreated_def)

lemma fs_makeHandle_zero:
  assumes "fs_pre S" "i < fs_size S"
  shows "fs_makeHandle T S (word_of_nat i) = Handle (word_of_nat i) 0" "unat (word_of_nat i :: u32) = i"
proof -
  show u: "unat (word_of_nat i :: u32) = i"
    using fs_preD(4)[OF assms(1)] assms(2) by (rule index_below_range)
  show "fs_makeHandle T S (word_of_nat i) = Handle (word_of_nat i) 0"
    using assms by (simp add: fs_makeHandle_def fs_preD u)
qed

text \<open>Replacing a payload and its created flag.\<close>

definition fs_put ::
  "('g::len word, 'p) fixed_store \<Rightarrow> nat \<Rightarrow> 'p \<Rightarrow> u8 \<Rightarrow> ('g word, 'p) fixed_store" where
  "fs_put S i p b = S\<lparr>fs_payloads := rbv_set (fs_payloads S) i p, fs_created := hv_set (fs_created S) i b\<rparr>"

lemma fs_put_size [simp]: "fs_size (fs_put S i p b) = fs_size S" "fs_next_uncreated (fs_put S i p b) = fs_next_uncreated S"
  by (simp_all add: fs_put_def fs_size_def)

lemma fs_put_pre: "fs_pre S \<Longrightarrow> i < fs_size S \<Longrightarrow> fs_pre (fs_put S i p b)"
  unfolding fs_pre_def by (auto simp: fs_put_def fs_size_def rbv_set_spec)

lemma fs_put_abs:
  "fs_pre S \<Longrightarrow> i < fs_size S \<Longrightarrow>
   fs_abs (fs_put S i p b) = ((fst (fs_abs S))[i := (p, b \<noteq> 0)], fs_next_uncreated S)"
  by (simp add: fs_abs_def fs_put_def fs_pre_def fs_size_def rbv_set_spec hv_set_def update_zip map_update)

lemma fs_put_created:
  "fs_pre S \<Longrightarrow> i < fs_size S \<Longrightarrow> hv_nth (fs_created (fs_put S i p b)) j = (if i = j then b else hv_nth (fs_created S) j)"
  by (simp add: fs_put_def fs_preD)

lemma fs_advance_spec:
  "fs_pre S \<Longrightarrow> fs_ok (fs_advance S) \<and> fs_abs (fs_advance S) = fa_forward (fs_abs S)"
proof (induction S rule: fs_advance.induct)
  case (1 S)
  let ?n = "fs_next_uncreated S" let ?S = "S\<lparr>fs_next_uncreated := fs_next_uncreated S + 1\<rparr>"
  note pre = 1(2)
  show ?case
  proof (cases "?n < fs_size S \<and> hv_nth (fs_created S) ?n \<noteq> 0")
    case True
    then have "fs_pre ?S" using pre by (auto simp: fs_pre_def fs_size_def)
    from 1(1)[OF True this] have IH: "fs_ok (fs_advance ?S)" "fs_abs (fs_advance ?S) = fa_forward (fs_abs ?S)"
      by auto
    have "fst (fs_abs ?S) = fst (fs_abs S)" by (simp add: fs_abs_def)
    moreover have "drop ?n (fst (fs_abs S)) = fst (fs_abs S) ! ?n # drop (Suc ?n) (fst (fs_abs S))"
      using True pre by (intro Cons_nth_drop_Suc[symmetric]) simp
    ultimately have "fa_forward (fs_abs ?S) = fa_forward (fs_abs S)"
      using True pre by (simp add: fa_forward_def)
    moreover have "fs_advance S = fs_advance ?S" using True by (simp add: fs_advance.simps[of S])
    ultimately show ?thesis using IH by simp
  next
    case False
    have "drop ?n (fst (fs_abs S)) = (if ?n < fs_size S then fst (fs_abs S) ! ?n # drop (Suc ?n) (fst (fs_abs S)) else [])"
      using pre Cons_nth_drop_Suc[of ?n "fst (fs_abs S)"] by auto
    with False pre have "fa_forward (fs_abs S) = fs_abs S"
      by (auto simp: fa_forward_def prod_eq_iff)
    moreover have "fs_ok S" using False pre by (auto simp: fs_ok_def)
    moreover have "fs_advance S = S" using False by (subst fs_advance.simps) auto
    ultimately show ?thesis by simp
  qed
qed

lemma fs_emplace_eq: "fs_emplace T S h r c = fs_emplaceWith T S h r c (tr_create T)"
  by (simp add: fs_emplace_def fs_emplaceWith_def)

lemma fs_destroy_eq:
  "fs_destroy T S h r c = fs_destroyWith T S h r c (\<lambda>p r c. (True, tr_destroy T p r c))"
  by (simp add: fs_destroy_def fs_destroyWith_def)

text \<open>\<open>emplace\<close> stores the generation that is there already.\<close>

lemma fs_same_generation:
  assumes "fs_pre S" "fa_valid T (fs_abs S) h" "tr_has_generation T"
  shows "S\<lparr>fs_generations := hv_set (fs_generations S) (unat (h_index h)) (h_generation h)\<rparr> = S"
proof -
  have "h_generation h = hv_nth (fs_generations S) (unat (h_index h))"
    using assms by (simp add: fa_valid_def fs_preD)
  then show ?thesis by simp
qed

lemma fs_ok_put:
  assumes "fs_ok S" "i < fs_size S" "b = 0 \<or> i \<noteq> fs_next_uncreated S"
  shows "fs_ok (fs_put S i p b)"
  using assms fs_put_pre[OF fs_ok_pre[OF assms(1)] assms(2)]
  by (auto simp: fs_ok_def fs_put_created)

lemma fs_put_payload:
  "fs_pre S \<Longrightarrow> i < fs_size S \<Longrightarrow>
   S\<lparr>fs_payloads := rbv_set (fs_payloads S) i p\<rparr> = fs_put S i p (hv_nth (fs_created S) i)"
  by (simp add: fs_put_def)

lemma fs_setCreated_put:
  "fs_pre S \<Longrightarrow> fa_valid T (fs_abs S) h \<Longrightarrow>
   fs_setCreated T (S\<lparr>fs_payloads := rbv_set (fs_payloads S) (unat (h_index h)) p\<rparr>) h b =
   fs_put S (unat (h_index h)) p (if b then 1 else 0)"
proof -
  assume S: "fs_pre S" "fa_valid T (fs_abs S) h"
  let ?S = "S\<lparr>fs_payloads := rbv_set (fs_payloads S) (unat (h_index h)) p\<rparr>"
  have "fs_isValid T ?S h = fs_isValid T S h" by (simp add: fs_isValid_def fs_size_def)
  with S have "fs_isValid T ?S h" by simp
  then show ?thesis by (simp add: fs_setCreated_def fs_put_def)
qed

text \<open>A concrete operation and its abstract counterpart agree on the answer and on the slots.\<close>

definition fs_agree :: "'a \<times> ('g::len word, 'p) fixed_store \<Rightarrow> 'a \<times> 'p slots \<Rightarrow> bool" where
  "fs_agree x y \<longleftrightarrow> fs_ok (snd x) \<and> fst x = fst y \<and> fs_abs (snd x) = snd y"

lemma fs_forward_ok: "fs_ok S \<Longrightarrow> fa_forward (fs_abs S) = fs_abs S"
proof -
  assume ok: "fs_ok S"
  then have "fs_advance S = S" by (subst fs_advance.simps) (auto simp: fs_ok_def)
  with fs_advance_spec[OF fs_ok_pre[OF ok]] show ?thesis by simp
qed

lemma fs_emplaceWith_agree:
  assumes ok: "fs_ok S"
  shows "fs_agree (fs_emplaceWith T S h r c f) (fa_emplace T h r c f (fs_abs S))"
proof (cases "fa_valid T (fs_abs S) h \<and> \<not> snd (fa_slot (fs_abs S) h)")
  case True
  let ?i = "unat (h_index h)"
  note pre = fs_ok_pre[OF ok]
  obtain b p where f: "f (rbv_nth (fs_payloads S) ?i) r c = (b, p)" by fastforce
  have i: "?i < fs_size S" using True pre by (simp add: fa_valid_def)
  have gen: "(if tr_has_generation T
      then S\<lparr>fs_generations := hv_set (fs_generations S) ?i (h_generation h)\<rparr> else S) = S"
    using fs_same_generation[OF pre, of T h] True by auto
  have nc: "hv_nth (fs_created S) ?i = 0" using True fs_slot_abs[OF pre, of T h] by simp
  note put = fs_put_abs[OF pre i] fs_put_pre[OF pre i]
  have ok': "fs_ok (fs_put S ?i p 0)" using ok i by (rule fs_ok_put) simp
  note fwd = fs_forward_ok[OF ok']
  have "fs_emplaceWith T S h r c f =
      (if b then (True, fs_advance (fs_put S ?i p 1)) else (False, fs_put S ?i p 0))"
    unfolding fs_emplaceWith_def Let_def gen
    using True pre f fs_setCreated_put[OF pre, of T h p True] fs_put_payload[OF pre i, of p]
    by (simp add: fs_isCreated_abs nc)
  moreover have "fa_emplace T h r c f (fs_abs S) = (b, fa_forward (fs_abs (fs_put S ?i p (if b then 1 else 0))))"
    using True f fs_slot_abs[OF pre, of T h] by (simp add: fa_emplace_def fa_put_def put)
  ultimately show ?thesis
    using ok' fwd fs_advance_spec[OF put(2), of p 1] by (auto simp: fs_agree_def)
next
  case False
  with ok show ?thesis
    by (auto simp: fs_agree_def fs_emplaceWith_def fa_emplace_def fs_isCreated_abs fs_ok_pre)
qed

lemma fs_destroyWith_agree:
  assumes ok: "fs_ok S"
  shows "fs_agree (fs_destroyWith T S h r c f) (fa_destroy T h r c f (fs_abs S))"
proof (cases "fa_valid T (fs_abs S) h \<and> snd (fa_slot (fs_abs S) h)")
  case True
  let ?i = "unat (h_index h)"
  note pre = fs_ok_pre[OF ok]
  obtain b p where f: "f (rbv_nth (fs_payloads S) ?i) r c = (b, p)" by fastforce
  have i: "?i < fs_size S" using True pre by (simp add: fa_valid_def)
  have cr: "hv_nth (fs_created S) ?i \<noteq> 0" using True fs_slot_abs[OF pre, of T h] by simp
  then have ne: "?i \<noteq> fs_next_uncreated S" using ok i by (auto simp: fs_ok_def)
  let ?b = "if b then 0 else hv_nth (fs_created S) ?i"
  have "fs_destroyWith T S h r c f = (b, fs_put S ?i p ?b)"
    using True pre f fs_setCreated_put[OF pre, of T h p False] fs_put_payload[OF pre i, of p]
    by (simp add: fs_destroyWith_def fs_isCreated_abs Let_def)
  moreover have "fa_destroy T h r c f (fs_abs S) = (b, fs_abs (fs_put S ?i p ?b))"
    using True f cr fs_slot_abs[OF pre, of T h]
    by (simp add: fa_destroy_def fa_put_def fs_put_abs[OF pre i])
  ultimately show ?thesis
    using fs_ok_put[OF ok i, of ?b p] ne by (simp add: fs_agree_def)
next
  case False
  with ok show ?thesis
    by (auto simp: fs_agree_def fs_destroyWith_def fa_destroy_def fs_isCreated_abs fs_ok_pre)
qed

lemma fs_emplace_agree:
  "fs_ok S \<Longrightarrow> fs_agree (fs_emplace T S h r c) (fa_emplace T h r c (tr_create T) (fs_abs S))"
  by (simp add: fs_emplace_eq fs_emplaceWith_agree)

lemma fs_destroy_agree:
  "fs_ok S \<Longrightarrow> fs_agree (fs_destroy T S h r c)
     (fa_destroy T h r c (\<lambda>p r c. (True, tr_destroy T p r c)) (fs_abs S))"
  by (simp add: fs_destroy_eq fs_destroyWith_agree)

lemma fs_agreeD:
  assumes "fs_agree x y"
  shows "fs_ok (snd x)" "fst x = fst y" "fs_abs (snd x) = snd y"
  using assms by (simp_all add: fs_agree_def)

lemma fs_emplaceWith_size [simp]: "fs_size (snd (fs_emplaceWith T S h r c f)) = fs_size S"
proof -
  have adv: "fs_size (fs_advance U) = fs_size U" for U :: "('g::len word, 'q) fixed_store"
    by (induction U rule: fs_advance.induct) (subst fs_advance.simps, simp add: fs_size_def)
  show ?thesis
    by (auto simp: fs_emplaceWith_def Let_def adv[unfolded fs_size_def] fs_setCreated_def fs_size_def split: prod.split)
qed

lemma fs_emplace_size [simp]: "fs_size (snd (fs_emplace T S h r c)) = fs_size S"
  by (simp add: fs_emplace_eq)

lemma fs_destroy_size [simp]: "fs_size (snd (fs_destroy T S h r c)) = fs_size S"
  by (auto simp: fs_destroy_def Let_def fs_setCreated_def fs_size_def)

lemma fs_createLoop_agree:
  "fs_ok S \<Longrightarrow> \<forall>i \<in> set idxs. i < fs_size S \<Longrightarrow>
   fs_agree (fs_createLoop T r c idxs b S) (apfst (\<lambda>x. b \<and> x) (fa_createAt T r c idxs (fs_abs S)))"
proof (induction idxs arbitrary: b S)
  case Nil
  then show ?case by (simp add: fs_agree_def)
next
  case (Cons i idxs)
  let ?h = "Handle (word_of_nat i) 0"
  have h: "fs_makeHandle T S (word_of_nat i) = ?h"
    using Cons.prems by (intro fs_makeHandle_zero fs_ok_pre) auto
  let ?E = "fs_emplace T S ?h (tr_setHandle T r ?h) c"
  note E = fs_agreeD[OF fs_emplace_agree[OF Cons.prems(1)], of T ?h "tr_setHandle T r ?h" c]
  have "fs_agree (fs_createLoop T r c idxs (b \<and> fst ?E) (snd ?E))
      (apfst (\<lambda>x. (b \<and> fst ?E) \<and> x) (fa_createAt T r c idxs (fs_abs (snd ?E))))"
    using Cons.prems(2) E(1) by (intro Cons.IH) auto
  moreover have "(if \<not> fst ?E then False else b) = (b \<and> fst ?E)" by simp
  ultimately show ?case
    by (simp add: h Let_def split_beta E(2,3) apfst_def map_prod_def conj_assoc)
qed

lemma fs_release_agree:
  assumes ok: "fs_ok S"
  shows "fs_agree (fs_releaseRC T S h r c) (fa_release T h r c (fs_abs S))"
proof (cases "tr_destroy_on_release T")
  case True
  have "fs_releaseRC T S h r c = fs_destroy T S h r c"
    using True by (auto simp: fs_releaseRC_def fs_destroy_def fs_isCreated_def Let_def)
  with True fs_destroy_agree[OF ok] show ?thesis by (simp add: fa_release_def)
next
  case False
  with ok show ?thesis by (simp add: fs_releaseRC_def fa_release_def fs_agree_def fs_ok_pre)
qed

lemma fs_release_RC:
  "fs_release T S h = fs_releaseRC T S h (tr_request T) (tr_context T)"
  by (simp add: fs_release_def fs_releaseRC_def)

lemma fs_resize_agree:
  assumes ok: "fs_ok S" and n: "fs_size S \<le> n" "n \<le> 2 ^ 32 - 1"
  shows "\<exists>S'. fs_resize T S n = Inr (fs_size S, S') \<and> fs_ok S' \<and>
     fs_abs S' = (fst (fs_abs S) @ replicate (n - fs_size S) (tr_default T, False), snd (fs_abs S))"
proof (cases "n = fs_size S")
  case True
  with ok n show ?thesis by (simp add: fs_resize_def unat_invalid_index fs_abs_def)
next
  case False
  let ?S = "S\<lparr>fs_payloads := rbv_resize (fs_payloads S) n (tr_default T),
      fs_generations := hv_resize (fs_generations S) n 0, fs_created := hv_resize (fs_created S) n 0\<rparr>"
  note d = fs_preD[OF fs_ok_pre[OF ok]]
  have sz: "fs_size ?S = n" using d(1) by (simp add: fs_size_def rbv_size_ops)
  have lists: "rbv_list (fs_payloads ?S) = rbv_list (fs_payloads S) @ replicate (n - fs_size S) (tr_default T)"
    "hv_data (fs_created ?S) = hv_data (fs_created S) @ replicate (n - fs_size S) 0"
    "hv_data (fs_generations ?S) = hv_data (fs_generations S) @ replicate (n - fs_size S) 0"
    using n d(1,2,3) by (simp_all add: rbv_resize_spec fs_size_def hv_size_def)
  have "fs_pre ?S"
    using n d(1,2,3,5,6) lists sz
    by (auto simp: fs_pre_def rbv_resize_spec hv_size_def hv_nth_def nth_append)
  moreover have "hv_nth (fs_created ?S) (fs_next_uncreated S) = 0" if "fs_next_uncreated S < n"
    using ok that n d(3,6) lists(2) by (auto simp: fs_ok_def hv_nth_def hv_size_def nth_append)
  moreover have "fs_abs ?S = (fst (fs_abs S) @ replicate (n - fs_size S) (tr_default T, False), snd (fs_abs S))"
    using d(3) lists by (simp add: fs_abs_def hv_size_def fs_size_def zip_append map_replicate_const zip_replicate)
  ultimately show ?thesis
    using n False sz by (auto simp: fs_resize_def unat_invalid_index fs_ok_def)
qed

lemma fs_reserve_agree:
  assumes "fs_ok S" "n \<le> 2 ^ 32 - 1"
  shows "\<exists>S'. fs_reserve S n = Inr S' \<and> fs_ok S' \<and> fs_abs S' = fs_abs S"
  using assms
  by (auto simp: fs_reserve_def unat_invalid_index fs_ok_def fs_pre_def fs_size_def fs_abs_def hv_size_def
      hv_nth_def rbv_reserve_spec rbv_size_ops)

lemma fs_setBlockSize_agree:
  assumes ok: "fs_ok S" and n: "0 < n"
  shows "\<exists>S'. fs_setBlockSize S n = Inr (fs_blockSize S, S') \<and> fs_ok S' \<and> fs_abs S' = fs_abs S \<and> fs_blockSize S' = n"
proof -
  note d = fs_preD[OF fs_ok_pre[OF ok]]
  obtain v where v: "rbv_resizeBlocks (fs_payloads S) n = Inr v"
    using n by (cases "rbv_block_size (fs_payloads S) = n") (auto simp: rbv_resizeBlocks_def)
  note w = rbv_resizeBlocks_spec[OF d(1) v]
  have "rbv_size v = rbv_size (fs_payloads S)" using w(2) by (metis rbv_length_list)
  then have "fs_ok (S\<lparr>fs_payloads := v\<rparr>)" "fs_abs (S\<lparr>fs_payloads := v\<rparr>) = fs_abs S"
    using ok w(1,2) by (simp_all add: fs_ok_def fs_pre_def fs_size_def fs_abs_def)
  with n ok v w(3) show ?thesis by (auto simp: fs_setBlockSize_def fs_blockSize_def Let_def)
qed

lemma fs_clear_agree:
  assumes ok: "fs_ok S"
  shows "fs_ok (fs_clear T S r c)" "fs_abs (fs_clear T S r c) = ([], 0)"
proof -
  have fold: "fs_ok (foldl (\<lambda>S idx. if hv_nth (fs_created S) idx \<noteq> 0
      then snd (fs_destroy T S (fs_makeHandle T S (word_of_nat idx)) r c) else S) S idxs)" for idxs
    using ok by (induction idxs arbitrary: S) (auto simp: fs_agreeD(1)[OF fs_destroy_agree])
  then have "fs_ok (fs_destroyCreated T S r c)" by (simp add: fs_destroyCreated_def)
  from fs_preD(1)[OF fs_ok_pre[OF this]]
  show "fs_ok (fs_clear T S r c)" "fs_abs (fs_clear T S r c) = ([], 0)"
    by (simp_all add: fs_clear_def Let_def fs_ok_def fs_pre_def fs_size_def fs_abs_def rbv_clear_spec hv_size_def)
qed

lemma fs_get_payload:
  assumes "fs_ok S" "fa_valid T (fs_abs S) h"
  shows "rbv_mem (fs_payloads S) (rbv_ptrAt (fs_payloads S) (unat (h_index h))) = Some (fst (fa_slot (fs_abs S) h))"
proof -
  have "unat (h_index h) < rbv_size (fs_payloads S)"
    using assms fs_ok_pre[OF assms(1)] by (simp add: fa_valid_def fs_size_def)
  with fs_slot_abs[OF fs_ok_pre[OF assms(1)] assms(2)] show ?thesis
    using fs_preD(1)[OF fs_ok_pre[OF assms(1)]] by (simp add: rbv_mem_nth)
qed

lemma fs_acquire_agree:
  assumes ok: "fs_ok S"
  shows "fs_acquireCreated T S = (if \<exists>p xs. fst (fs_abs S) = (p, True) # xs then Inr (Handle 0 0) else throw OutOfRange)"
proof -
  note pre = fs_ok_pre[OF ok] note d = fs_preD[OF pre]
  have first: "(\<exists>p xs. fst (fs_abs S) = (p, True) # xs) \<longleftrightarrow> 0 < fs_size S \<and> hv_nth (fs_created S) 0 \<noteq> 0"
    using fs_abs_nth[OF pre, of 0] fs_abs_length[OF pre] by (cases "fst (fs_abs S)") auto
  have zero: "hv_nth (fs_created S) 0 = 0" if "fs_next_uncreated S = 0" "0 < fs_size S"
    using ok that by (simp add: fs_ok_def)
  have h: "fs_makeHandle T S 0 = Handle 0 0" "handle_isValid (Handle 0 (0::'a word))" if "0 < fs_size S"
    using fs_makeHandle_zero(1)[OF pre that, of T] by (auto simp: handle_isValid_def handle_invalid_index_def)
  show ?thesis
    using d(6) first zero h by (auto simp: fs_acquireCreated_def fs_tryAcquireCreated_def)
qed

lemma fs_reserveUncreated_agree:
  assumes ok: "fs_ok S"
  shows "fs_reserveUncreated T S =
    (if fs_next_uncreated S < fs_size S then Inr (Handle (word_of_nat (fs_next_uncreated S)) 0)
     else throw OutOfRange)"
proof -
  note pre = fs_ok_pre[OF ok]
  let ?n = "fs_next_uncreated S"
  have "handle_isValid (Handle (word_of_nat ?n) (0::'a word))" if "?n < fs_size S"
    using fs_makeHandle_zero(2)[OF pre that] fs_preD(4)[OF pre] that by (intro handle_isValidI) simp
  with ok fs_makeHandle_zero(1)[OF pre, of ?n T] show ?thesis
    by (auto simp: fs_reserveUncreated_def fs_tryReserveUncreated_def fs_ok_def)
qed

lemma ans_simps [simp]:
  "ans k s (Inl e) = (AnsThrow e, s)" "ans k s (Inr (a, s')) = (k a, s')"
  "ans k s (throw c) = (AnsThrow (OrteafError c), s)"
  by (simp_all add: ans_def throw_def)

lemma fs_agree_answer: "fs_agree x y \<Longrightarrow> fs_agree (apfst k x) (apfst k y)"
  by (cases x; cases y) (simp add: fs_agree_def)

lemma ans_Inr: "ans k s (Inr x) = apfst k x"
  by (cases x) simp

lemma fs_empty_length: "fs_pre S \<Longrightarrow> fs_empty S \<longleftrightarrow> fst (fs_abs S) = []"
  using fs_abs_length[of S] by (simp add: fs_empty_def rbv_isEmpty_def fs_size_def flip: length_0_conv)

text \<open>Every call keeps the invariant and answers as the list of slots does.\<close>

definition fs_onBlocks :: "('w, 'p, 'r, 'c) fs_call \<Rightarrow> bool" where
  "fs_onBlocks call \<longleftrightarrow> (case call of FsSetBlockSize n \<Rightarrow> True | FsBlockSize \<Rightarrow> True | _ \<Rightarrow> False)"

lemma fs_slots_agree:
  assumes ok: "fs_ok S" and slots: "\<not> fs_onBlocks call"
  shows "fs_agree (fs_exec T call S) (fa_slots T call (fs_abs S))"
proof -
  note pre = fs_ok_pre[OF ok]
  have create: "fs_agree (ans AnsBool S (fs_createRange T S a b r c)) (fa_slots T (FsCreateRange a b r c) (fs_abs S))"
    for a b r c
    using ok pre fs_agree_answer[OF fs_createLoop_agree[OF ok, of "[a..<b]" T r c True], of AnsBool]
    by (auto simp: fs_createRange_def ans_Inr fs_agree_def apfst_def map_prod_def)
  show ?thesis
  proof (cases call)
    case (FsResize n)
    show ?thesis
    proof (cases "fs_size S \<le> n \<and> n \<le> 2 ^ 32 - 1")
      case True
      with fs_resize_agree[OF ok, of n T] pre FsResize show ?thesis
        by (auto simp: fs_agree_def)
    qed (use FsResize ok pre in \<open>auto simp: fs_resize_def unat_invalid_index fs_agree_def Let_def\<close>)
  next
    case (FsReserve n)
    show ?thesis
    proof (cases "n \<le> 2 ^ 32 - 1")
      case True
      with fs_reserve_agree[OF ok, of n] FsReserve show ?thesis by (auto simp: fs_agree_def)
    qed (use FsReserve ok in \<open>auto simp: fs_reserve_def unat_invalid_index fs_agree_def\<close>)
  next
    case FsEmpty
    with ok pre show ?thesis by (simp add: fs_agree_def fs_empty_length)
  next
    case (FsCreateAll r c)
    with create[of 0 "fs_size S" r c] pre show ?thesis by (simp add: fs_createAll_def)
  next
    case (FsGet h)
    with ok pre fs_get_payload[OF ok, of T h] show ?thesis
      by (auto simp: fs_agree_def fs_get_def fs_isCreated_abs)
  next
    case (FsAcquireCreated)
    with ok show ?thesis by (simp add: fs_agree_def fs_acquire_agree)
  next
    case (FsReserveUncreated)
    with ok pre show ?thesis by (simp add: fs_agree_def fs_reserveUncreated_agree)
  qed (use ok pre slots create in \<open>auto simp: fs_onBlocks_def fs_release_RC fs_isCreated_abs fs_clear_agree fs_agree_def[of "(_, _)"]
      intro: fs_agree_answer fs_emplace_agree fs_emplaceWith_agree fs_destroy_agree fs_destroyWith_agree
        fs_release_agree\<close>)
qed

lemma fs_blockSize_calls:
  "fs_blockSize (snd (fs_emplaceWith T S h r c f)) = fs_blockSize S"
  "fs_blockSize (snd (fs_destroyWith T S h r c f)) = fs_blockSize S"
  "fs_blockSize (snd (fs_emplace T S h r c)) = fs_blockSize S"
  "fs_blockSize (snd (fs_destroy T S h r c)) = fs_blockSize S"
  "fs_blockSize (snd (fs_createLoop T r c idxs b S)) = fs_blockSize S"
proof -
  have advance: "fs_blockSize (fs_advance S) = fs_blockSize S" for S :: "('a word, 'b) fixed_store"
    by (induction S rule: fs_advance.induct) (subst fs_advance.simps, simp add: fs_blockSize_def)
  show "fs_blockSize (snd (fs_emplaceWith T S h r c f)) = fs_blockSize S"
    and emplace: "fs_blockSize (snd (fs_emplace T S h r c)) = fs_blockSize S" for S h r c
    by (auto simp: fs_emplaceWith_def fs_emplace_def Let_def advance fs_setCreated_def split: prod.split)
      (simp_all add: fs_blockSize_def)
  show "fs_blockSize (snd (fs_destroyWith T S h r c f)) = fs_blockSize S"
    "fs_blockSize (snd (fs_destroy T S h r c)) = fs_blockSize S"
    by (auto simp: fs_destroyWith_def fs_destroy_def Let_def fs_setCreated_def fs_blockSize_def split: prod.split)
  show "fs_blockSize (snd (fs_createLoop T r c idxs b S)) = fs_blockSize S"
    by (induction idxs arbitrary: b S) (auto simp: Let_def split_beta emplace)
qed

lemma fs_blockSize_clear: "fs_blockSize (fs_clear T S r c) = fs_blockSize S"
proof -
  have "fs_blockSize (foldl (\<lambda>S idx. if hv_nth (fs_created S) idx \<noteq> 0
      then snd (fs_destroy T S (fs_makeHandle T S (word_of_nat idx)) r c) else S) S idxs) = fs_blockSize S" for idxs
    by (induction idxs arbitrary: S) (auto simp: fs_blockSize_calls)
  then show ?thesis
    by (simp add: fs_clear_def Let_def fs_destroyCreated_def fs_blockSize_def rbv_clear_def)
qed

lemma fs_blockSize_kept:
  assumes "fs_ok S" "\<not> fs_onBlocks call"
  shows "fs_blockSize (snd (fs_exec T call S)) = fs_blockSize S"
proof -
  have "rbv_ok (fs_payloads S)" using fs_preD(1)[OF fs_ok_pre[OF assms(1)]] .
  then have resize: "fs_resize T S n = Inr (k, S') \<Longrightarrow> fs_blockSize S' = fs_blockSize S"
    and reserve: "fs_reserve S n = Inr S' \<Longrightarrow> fs_blockSize S' = fs_blockSize S" for n k S'
    using rbv_ensureCapacityFor_spec(2)[of "fs_payloads S" n]
    by (auto simp: fs_resize_def fs_reserve_def Let_def fs_blockSize_def rbv_reserve_def rbv_extends_def split: if_splits)
  have release: "fs_blockSize (snd (fs_releaseRC T S h r c)) = fs_blockSize S" for h r c
    using fs_blockSize_calls(4)[of T S h r c] by (auto simp: fs_releaseRC_def split: prod.split bool.split)
  have loop: "fs_createLoop T r c idxs b S = (x, S') \<Longrightarrow> fs_blockSize S' = fs_blockSize S" for r c idxs b x S'
    using fs_blockSize_calls(5)[of T r c idxs b S] by simp
  show ?thesis
    using assms(2)
    by (cases call)
      (auto simp: fs_onBlocks_def ans_def fs_blockSize_calls fs_blockSize_clear fs_createRange_def fs_createAll_def
        fs_release_def release bindR_def split: sum.split prod.split dest: resize reserve loop)
qed

definition fs_full :: "('g::len word, 'p) fixed_store \<Rightarrow> 'p slots \<times> nat" where
  "fs_full S = (fs_abs S, fs_blockSize S)"

lemma fs_exec_agree:
  assumes ok: "fs_ok S"
  shows "fs_ok (snd (fs_exec T call S))" "fst (fs_exec T call S) = fst (fa_exec T call (fs_full S))"
    "fs_full (snd (fs_exec T call S)) = snd (fa_exec T call (fs_full S))"
proof -
  have "fs_ok (snd (fs_exec T call S)) \<and> fst (fs_exec T call S) = fst (fa_exec T call (fs_full S)) \<and>
    fs_full (snd (fs_exec T call S)) = snd (fa_exec T call (fs_full S))"
  proof (cases "fs_onBlocks call")
    case False
    with fs_slots_agree[OF ok False, of T] fs_blockSize_kept[OF ok False, of T] show ?thesis
      by (cases call) (simp_all add: fs_onBlocks_def fa_exec_def fs_full_def fs_agree_def)
  next
    case True
    then consider (set) n where "call = FsSetBlockSize n" | (get) "call = FsBlockSize"
      by (cases call) (auto simp: fs_onBlocks_def)
    then show ?thesis
    proof cases
      case set
      with fs_setBlockSize_agree[OF ok, of n] ok show ?thesis
        by (cases "n = 0") (auto simp: fa_exec_def fs_full_def fs_setBlockSize_def)
    qed (simp add: ok fa_exec_def fs_full_def)
  qed
  then show "fs_ok (snd (fs_exec T call S))" "fst (fs_exec T call S) = fst (fa_exec T call (fs_full S))"
    "fs_full (snd (fs_exec T call S)) = snd (fa_exec T call (fs_full S))" by simp_all
qed

lemma fs_new_ok: "fs_ok fs_new" "fs_full fs_new = (([], 0), 64)"
proof -
  show "fs_ok fs_new"
    by (simp add: fs_ok_def fs_pre_def fs_new_def fs_size_def hv_size_def hv_new_def)
  show "fs_full fs_new = (([], 0), 64)"
    by (simp add: fs_new_def fs_abs_def fs_full_def fs_blockSize_def hv_new_def) (simp add: rbv_default_def)
qed

lemma fs_runs_agree:
  "fs_ok S \<Longrightarrow> fst (runs (fs_exec T) calls S) = fst (runs (fa_exec T) calls (fs_full S)) \<and>
    fs_full (snd (runs (fs_exec T) calls S)) = snd (runs (fa_exec T) calls (fs_full S))"
proof (induction calls arbitrary: S)
  case (Cons call calls)
  note step = fs_exec_agree[OF Cons.prems, of T call]
  from Cons.IH[OF step(1)] step(2,3) show ?case
    by (simp add: split_beta)
qed simp

section \<open>Properties\<close>

text \<open>
  C32: the fixed-slot store is a list of slots.  Whatever sequence of calls is made on a new store,
  every answer (results, granted handles, sizes, the previous block size, payloads reached through
  \<open>get\<close>, exceptions) is the one of the list of slots: creation and destruction act on the slot the
  handle's index names and on no other, growing appends uncreated slots, changing the block size and
  reserving change no payload.  As the code does, and unlike the comments at \<open>acquireCreated\<close>,
  \<open>reserveUncreated\<close> and \<open>emplace\<close> say, the list hands out slot 0 or the position
  \<open>next_uncreated_index_\<close> without a scan, and keeps every generation at 0.
\<close>

theorem fs_is_slot_list:
  "fst (runs (fs_exec T) calls fs_new) = fst (runs (fa_exec T) calls (([], 0), 64)) \<and>
   fs_abs (snd (runs (fs_exec T) calls fs_new)) = fst (snd (runs (fa_exec T) calls (([], 0), 64))) \<and>
   fs_blockSize (snd (runs (fs_exec T) calls fs_new)) = snd (snd (runs (fa_exec T) calls (([], 0), 64)))"
  using fs_runs_agree[OF fs_new_ok(1), of T calls] unfolding fs_new_ok(2) by (simp add: fs_full_def prod_eq_iff)

lemma fs_answers: "fst (runs (fs_exec T) calls fs_new) = fst (runs (fa_exec T) calls (([], 0), 64))"
  using fs_runs_agree[OF fs_new_ok(1), of T calls] by (simp add: fs_new_ok(2))

lemma replicate_two: "replicate 2 x = [x, x]"
  by (simp add: numeral_2_eq_2)

lemma upt_two: "[0..<2] = [0, 1::nat]"
  by (simp add: numeral_2_eq_2)

text \<open>
  C33: a store with a free slot and a created slot can refuse both.  After two slots have been created
  and the first destroyed, \<open>acquireCreated\<close> throws although the second slot is created, because only
  slot 0 is looked at, and \<open>reserveUncreated\<close> throws although the first is free, because the
  position never moves back; and when the first slot is created again, the handle of the destroyed
  payload is still valid, because no generation ever changes.
\<close>

theorem fs_freed_slot_lost:
  assumes "\<forall>p r c. fst (tr_create T p r c)"
  shows "fst (runs (fs_exec T)
      [FsResize 2, FsCreateAll r c, FsDestroy (Handle 0 0) r c, FsIsCreated (Handle 1 0),
       FsAcquireCreated, FsReserveUncreated, FsEmplace (Handle 0 0) r c, FsIsCreated (Handle 0 0)] fs_new) =
    [AnsSize 0, AnsBool True, AnsBool True, AnsBool True,
     AnsThrow (OrteafError OutOfRange), AnsThrow (OrteafError OutOfRange), AnsBool True, AnsBool True]"
proof -
  have "\<exists>q. tr_create T p r c = (True, q)" for p r c
    using assms by (metis prod.collapse)
  then obtain q where q: "\<And>p r c. tr_create T p r c = (True, q p r c)" by metis
  show ?thesis
    unfolding fs_answers
    by (simp add: fa_exec_def q replicate_two upt_two fa_emplace_def fa_destroy_def fa_valid_def fa_slot_def fa_put_def fa_forward_def Let_def)
qed

theorem fs_freed_slot_lost_witness:
  "fst (runs (fs_exec (sp_ex_traits\<lparr>tr_create := \<lambda>p r c. (True, r)\<rparr>))
      [FsResize 2, FsCreateAll 0 (), FsDestroy (Handle 0 0) 0 (), FsIsCreated (Handle 1 0),
       FsAcquireCreated, FsReserveUncreated, FsEmplace (Handle 0 0) 0 (), FsIsCreated (Handle 0 0)] fs_new) =
    [AnsSize 0, AnsBool True, AnsBool True, AnsBool True,
     AnsThrow (OrteafError OutOfRange), AnsThrow (OrteafError OutOfRange), AnsBool True, AnsBool True]"
  by (rule fs_freed_slot_lost) (simp add: sp_ex_traits_def)

end
