(* ===== verification/LeaseRegistries.thy ===== *)
theory LeaseRegistries
  imports PoolManager
begin

text \<open>
  \<open>base/manager/lease_lifetime_registry.h\<close> and \<open>base/manager/fifo_lease_lifetime_registry.h\<close>: the two
  containers that keep leases alive, one slot per payload index and a queue in order of submission.
  Both are templates over the lease type; the operations of the lease they call are the fields of
  \<open>lease_ops\<close>, state transformers on a world \<open>'s\<close> (the manager the leases belong to).  A registry
  operation works on the registry next to that world.
\<close>

record ('l, 's, 'w) lease_ops =
  lo_empty :: 'l
  lo_valid :: "'l \<Rightarrow> bool"
  lo_release :: "'l \<Rightarrow> ('s, 'l) act"
  lo_copy :: "'l \<Rightarrow> ('s, 'l) act"
  lo_handle :: "'l \<Rightarrow> ('s, 'w handle) act"
  lo_ptr :: "'l \<Rightarrow> ('s, nat option) act"
  lo_moved :: "'l \<Rightarrow> 'l"

text \<open>An operation on the world only; move assignment releases the target first.\<close>

definition onWorld :: "('s, 'a) act \<Rightarrow> ('r \<times> 's, 'a) act" where
  "onWorld m = (\<lambda>(r, s). case m s of (x, s') \<Rightarrow> (x, r, s'))"

definition lo_moveAssign :: "('l, 's, 'w) lease_ops \<Rightarrow> 'l \<Rightarrow> 'l \<Rightarrow> ('s, 'l) act" where
  "lo_moveAssign L target source = bindA (lo_release L target) (\<lambda>_. returnA source)"

section \<open>One lease per payload index\<close>

record 'l lease_registry =
  lg_entries :: "'l heap_vector"
  lg_size :: nat

definition lg_new :: "'l lease_registry" where
  "lg_new = \<lparr>lg_entries = hv_new, lg_size = 0\<rparr>"

definition lg_setEntry :: "nat \<Rightarrow> 'l \<Rightarrow> ('l lease_registry \<times> 's, unit) act" where
  "lg_setEntry i l = (\<lambda>(R, s). (Inr (), R\<lparr>lg_entries := hv_set (lg_entries R) i l\<rparr>, s))"

definition lg_addSize :: "int \<Rightarrow> ('l lease_registry \<times> 's, unit) act" where
  "lg_addSize d = (\<lambda>(R, s). (Inr (), R\<lparr>lg_size := nat (int (lg_size R) + d)\<rparr>, s))"

definition lg_ensureSlot ::
  "('l, 's, 'w) lease_ops \<Rightarrow> nat \<Rightarrow> ('l lease_registry \<times> 's, unit) act" where
  "lg_ensureSlot L index = (\<lambda>(R, s).
     (Inr (), (if index \<ge> hv_size (lg_entries R)
               then R\<lparr>lg_entries := hv_resize (lg_entries R) (index + 1) (lo_empty L)\<rparr> else R), s))"

definition lg_findEntry ::
  "('l, 's, 'w) lease_ops \<Rightarrow> 'w handle \<Rightarrow> 'l lease_registry \<Rightarrow> nat option" where
  "lg_findEntry L h R =
     (if \<not> handle_isValid h then None
      else let index = unat (h_index h)
           in if index \<ge> hv_size (lg_entries R) then None
              else if \<not> lo_valid L (hv_nth (lg_entries R) index) then None
              else Some index)"

definition lg_entry :: "nat \<Rightarrow> ('l lease_registry \<times> 's, 'l) act" where
  "lg_entry i = (\<lambda>(R, s). (Inr (hv_nth (lg_entries R) i), R, s))"

text \<open>The lease is passed by value: when it is not stored it is released on the way out.\<close>

definition lg_set :: "('l, 's, 'w) lease_ops \<Rightarrow> 'l \<Rightarrow> ('l lease_registry \<times> 's, bool) act" where
  "lg_set L lease =
     (if \<not> lo_valid L lease then returnA False
      else bindA (onWorld (lo_handle L lease)) (\<lambda>handle.
        if \<not> handle_isValid handle then bindA (onWorld (lo_release L lease)) (\<lambda>_. returnA False)
        else let i = unat (h_index handle) in
          bindA (lg_ensureSlot L i) (\<lambda>_.
          bindA (lg_entry i) (\<lambda>old.
          bindA (if lo_valid L old
                 then bindA (onWorld (lo_release L old)) (\<lambda>l. lg_setEntry i l)
                 else lg_addSize 1) (\<lambda>_.
          bindA (lg_entry i) (\<lambda>target.
          bindA (onWorld (lo_moveAssign L target lease)) (\<lambda>l.
          bindA (lg_setEntry i l) (\<lambda>_. returnA True))))))))"

definition lg_get :: "('l, 's, 'w) lease_ops \<Rightarrow> 'w handle \<Rightarrow> ('l lease_registry \<times> 's, 'l) act" where
  "lg_get L h = (\<lambda>(R, s). case lg_findEntry L h R of
       None \<Rightarrow> (Inr (lo_empty L), R, s)
     | Some i \<Rightarrow> onWorld (lo_copy L (hv_nth (lg_entries R) i)) (R, s))"

definition lg_has :: "('l, 's, 'w) lease_ops \<Rightarrow> 'w handle \<Rightarrow> 'l lease_registry \<Rightarrow> bool" where
  "lg_has L h R \<longleftrightarrow> lg_findEntry L h R \<noteq> None"

definition lg_release :: "('l, 's, 'w) lease_ops \<Rightarrow> 'w handle \<Rightarrow> ('l lease_registry \<times> 's, unit) act" where
  "lg_release L h = (\<lambda>(R, s). case lg_findEntry L h R of
       None \<Rightarrow> (Inr (), R, s)
     | Some i \<Rightarrow> bindA (onWorld (lo_release L (hv_nth (lg_entries R) i))) (\<lambda>l.
                 bindA (lg_setEntry i l) (\<lambda>_. lg_addSize (- 1))) (R, s))"

fun lg_clearFrom :: "('l, 's, 'w) lease_ops \<Rightarrow> nat list \<Rightarrow> ('l lease_registry \<times> 's, unit) act" where
  "lg_clearFrom L [] = returnA ()"
| "lg_clearFrom L (i # rest) =
     bindA (lg_entry i) (\<lambda>l.
     bindA (if lo_valid L l then bindA (onWorld (lo_release L l)) (\<lambda>l'. lg_setEntry i l')
            else returnA ()) (\<lambda>_. lg_clearFrom L rest))"

definition lg_clear :: "('l, 's, 'w) lease_ops \<Rightarrow> ('l lease_registry \<times> 's, unit) act" where
  "lg_clear L = (\<lambda>(R, s).
     bindA (lg_clearFrom L [0..<hv_size (lg_entries R)]) (\<lambda>_ (R, s). (Inr (), R\<lparr>lg_size := 0\<rparr>, s)) (R, s))"

definition lg_empty :: "'l lease_registry \<Rightarrow> bool" where
  "lg_empty R \<longleftrightarrow> lg_size R = 0"

text \<open>\<open>forEachActiveLease\<close>: the function gets the stored lease by reference.\<close>

fun lg_visit ::
  "('l, 's, 'w) lease_ops \<Rightarrow> ('l \<Rightarrow> ('s, 'l) act) \<Rightarrow> nat list \<Rightarrow> nat \<Rightarrow>
   ('l lease_registry \<times> 's, nat) act" where
  "lg_visit L func [] visited = returnA visited"
| "lg_visit L func (i # rest) visited =
     bindA (lg_entry i) (\<lambda>l.
     if \<not> lo_valid L l then lg_visit L func rest visited
     else bindA (onWorld (func l)) (\<lambda>l'.
          bindA (lg_setEntry i l') (\<lambda>_. lg_visit L func rest (visited + 1))))"

definition lg_forEachActiveLease ::
  "('l, 's, 'w) lease_ops \<Rightarrow> ('l \<Rightarrow> ('s, 'l) act) \<Rightarrow> ('l lease_registry \<times> 's, nat) act" where
  "lg_forEachActiveLease L func = (\<lambda>(R, s). lg_visit L func [0..<hv_size (lg_entries R)] 0 (R, s))"

section \<open>Leases in order of submission\<close>

text \<open>The payload traits, applied to the address of a payload.\<close>

record 's fifo_traits =
  fo_isReady :: "nat \<Rightarrow> ('s, bool) act"
  fo_validate :: "nat \<Rightarrow> ('s, unit) act"
  fo_wait :: "nat \<Rightarrow> ('s, unit) act"

record 'l fifo =
  ff_leases :: "'l heap_vector"
  ff_head :: nat

definition ff_new :: "'l fifo" where
  "ff_new = \<lparr>ff_leases = hv_new, ff_head = 0\<rparr>"

definition ff_push :: "('l, 's, 'w) lease_ops \<Rightarrow> 'l \<Rightarrow> ('l fifo \<times> 's, unit) act" where
  "ff_push L lease = (\<lambda>(F, s).
     (Inr (), (if \<not> lo_valid L lease then F else F\<lparr>ff_leases := hv_pushBack (ff_leases F) lease\<rparr>), s))"

definition ff_size :: "'l fifo \<Rightarrow> nat" where
  "ff_size F = (if ff_head F \<ge> hv_size (ff_leases F) then 0 else hv_size (ff_leases F) - ff_head F)"

definition ff_empty :: "'l fifo \<Rightarrow> bool" where
  "ff_empty F \<longleftrightarrow> ff_size F = 0"

definition ff_reset :: "'l fifo \<Rightarrow> 'l fifo" where
  "ff_reset F = F\<lparr>ff_leases := hv_clear (ff_leases F), ff_head := 0\<rparr>"

text \<open>The lease at a position, and its payload pointer.\<close>

definition ff_ptrAt :: "('l, 's, 'w) lease_ops \<Rightarrow> nat \<Rightarrow> ('l fifo \<times> 's, nat option) act" where
  "ff_ptrAt L i = (\<lambda>(F, s). onWorld (lo_ptr L (hv_nth (ff_leases F) i)) (F, s))"

definition ff_releaseAt :: "('l, 's, 'w) lease_ops \<Rightarrow> nat \<Rightarrow> ('l fifo \<times> 's, unit) act" where
  "ff_releaseAt L i = (\<lambda>(F, s).
     bindA (onWorld (lo_release L (hv_nth (ff_leases F) i)))
       (\<lambda>l (F, s). (Inr (), F\<lparr>ff_leases := hv_set (ff_leases F) i l\<rparr>, s)) (F, s))"

text \<open>The scan of \<open>releaseReady\<close> from the back; the result is \<open>ready_end\<close>.\<close>

fun ff_scan ::
  "('l, 's, 'w) lease_ops \<Rightarrow> 's fifo_traits \<Rightarrow> nat \<Rightarrow> nat \<Rightarrow> ('l fifo \<times> 's, nat) act" where
  "ff_scan L P head i =
     (if i > head
      then bindA (ff_ptrAt L (i - 1)) (\<lambda>payload. case payload of
             None \<Rightarrow> returnA i
           | Some p \<Rightarrow> bindA (onWorld (fo_isReady P p)) (\<lambda>ready.
                if ready then returnA i else ff_scan L P head (i - 1)))
      else returnA 0)"

declare ff_scan.simps [simp del]

fun ff_releaseRange ::
  "('l, 's, 'w) lease_ops \<Rightarrow> 's fifo_traits \<Rightarrow> nat list \<Rightarrow> ('l fifo \<times> 's, unit) act" where
  "ff_releaseRange L P [] = returnA ()"
| "ff_releaseRange L P (i # rest) =
     bindA (ff_ptrAt L i) (\<lambda>payload.
     bindA (case payload of None \<Rightarrow> returnA () | Some p \<Rightarrow> onWorld (fo_validate P p)) (\<lambda>_.
     bindA (ff_releaseAt L i) (\<lambda>_. ff_releaseRange L P rest)))"

fun ff_releaseAll :: "('l, 's, 'w) lease_ops \<Rightarrow> nat list \<Rightarrow> ('l fifo \<times> 's, unit) act" where
  "ff_releaseAll L [] = returnA ()"
| "ff_releaseAll L (i # rest) = bindA (ff_releaseAt L i) (\<lambda>_. ff_releaseAll L rest)"

text \<open>The loop of \<open>compactIfNeeded\<close>: each move assignment releases its target, then empties its source.\<close>

fun ff_moveDown ::
  "('l, 's, 'w) lease_ops \<Rightarrow> nat \<Rightarrow> nat list \<Rightarrow> ('l fifo \<times> 's, unit) act" where
  "ff_moveDown L head [] = returnA ()"
| "ff_moveDown L head (i # rest) = (\<lambda>(F, s).
     let source = hv_nth (ff_leases F) (head + i) in
     bindA (onWorld (lo_moveAssign L (hv_nth (ff_leases F) i) source))
       (\<lambda>l (F, s). ff_moveDown L head rest
          (F\<lparr>ff_leases := hv_set (hv_set (ff_leases F) (head + i) (lo_moved L source)) i l\<rparr>, s)) (F, s))"

definition ff_compactIfNeeded :: "('l, 's, 'w) lease_ops \<Rightarrow> ('l fifo \<times> 's, unit) act" where
  "ff_compactIfNeeded L = (\<lambda>(F, s).
     if ff_head F = 0 then (Inr (), F, s)
     else if ff_head F \<ge> hv_size (ff_leases F) then (Inr (), ff_reset F, s)
     else if ff_head F < hv_size (ff_leases F) div 2 then (Inr (), F, s)
     else let new_size = hv_size (ff_leases F) - ff_head F
          in bindA (ff_moveDown L (ff_head F) [0..<new_size])
               (\<lambda>_ (F, s). (Inr (), F\<lparr>ff_leases := hv_resize (ff_leases F) new_size (lo_empty L),
                                      ff_head := 0\<rparr>, s)) (F, s))"

definition ff_releaseReady ::
  "('l, 's, 'w) lease_ops \<Rightarrow> 's fifo_traits \<Rightarrow> ('l fifo \<times> 's, nat) act" where
  "ff_releaseReady L P = (\<lambda>(F, s).
     if ff_head F \<ge> hv_size (ff_leases F) then (Inr 0, ff_reset F, s)
     else bindA (ff_scan L P (ff_head F) (hv_size (ff_leases F))) (\<lambda>ready_end.
       if ready_end = 0 then returnA 0
       else let released = ready_end - ff_head F in
         bindA (ff_releaseRange L P [ff_head F..<ready_end]) (\<lambda>_.
         bindA (\<lambda>(F, s). (Inr (), F\<lparr>ff_head := ready_end\<rparr>, s)) (\<lambda>_.
         bindA (ff_compactIfNeeded L) (\<lambda>_. returnA released)))) (F, s))"

fun ff_checkReady ::
  "('l, 's, 'w) lease_ops \<Rightarrow> 's fifo_traits \<Rightarrow> nat list \<Rightarrow> ('l fifo \<times> 's, unit) act" where
  "ff_checkReady L P [] = returnA ()"
| "ff_checkReady L P (i # rest) =
     bindA (ff_ptrAt L i) (\<lambda>payload. case payload of
        None \<Rightarrow> ff_checkReady L P rest
      | Some p \<Rightarrow> bindA (onWorld (fo_isReady P p)) (\<lambda>ready.
           if \<not> ready then throwA InvalidState else ff_checkReady L P rest))"

definition ff_clear :: "('l, 's, 'w) lease_ops \<Rightarrow> 's fifo_traits \<Rightarrow> ('l fifo \<times> 's, unit) act" where
  "ff_clear L P = (\<lambda>(F, s).
     if ff_head F \<ge> hv_size (ff_leases F) then (Inr (), ff_reset F, s)
     else let active = [ff_head F..<hv_size (ff_leases F)] in
       bindA (ff_checkReady L P active) (\<lambda>_.
       bindA (ff_releaseAll L active) (\<lambda>_ (F, s). (Inr (), ff_reset F, s))) (F, s))"

fun ff_waitReady ::
  "('l, 's, 'w) lease_ops \<Rightarrow> 's fifo_traits \<Rightarrow> nat list \<Rightarrow> ('l fifo \<times> 's, unit) act" where
  "ff_waitReady L P [] = returnA ()"
| "ff_waitReady L P (i # rest) =
     bindA (ff_ptrAt L i) (\<lambda>payload. case payload of
        None \<Rightarrow> ff_waitReady L P rest
      | Some p \<Rightarrow> bindA (onWorld (fo_wait P p)) (\<lambda>_. bindA (onWorld (fo_isReady P p)) (\<lambda>ready.
           if \<not> ready then throwA InvalidState else ff_waitReady L P rest)))"

definition ff_waitUntilReady ::
  "('l, 's, 'w) lease_ops \<Rightarrow> 's fifo_traits \<Rightarrow> ('l fifo \<times> 's, nat) act" where
  "ff_waitUntilReady L P = (\<lambda>(F, s).
     if ff_head F \<ge> hv_size (ff_leases F) then (Inr 0, ff_reset F, s)
     else let active = [ff_head F..<hv_size (ff_leases F)];
              released = hv_size (ff_leases F) - ff_head F in
       bindA (ff_waitReady L P active) (\<lambda>_.
       bindA (ff_releaseAll L active) (\<lambda>_ (F, s). (Inr released, ff_reset F, s))) (F, s))"

section \<open>The queue\<close>

text \<open>
  What the queue promises, on the list of the leases it holds, oldest first.  The helpers work on
  the leases of a list in order, each with an action on the world: \<open>fq_map\<close> replaces every lease,
  \<open>fq_all\<close> only looks at them; both stop at the first exception.
\<close>

fun fq_map :: "('l \<Rightarrow> ('s, 'l) act) \<Rightarrow> 'l list \<Rightarrow> 's \<Rightarrow> unit res \<times> 'l list \<times> 's" where
  "fq_map f [] s = (Inr (), [], s)"
| "fq_map f (l # ls) s =
     (case f l s of
        (Inl e, s') \<Rightarrow> (Inl e, l # ls, s')
      | (Inr l', s') \<Rightarrow> (case fq_map f ls s' of (r, ls', s'') \<Rightarrow> (r, l' # ls', s'')))"

fun fq_all :: "('l \<Rightarrow> ('s, unit) act) \<Rightarrow> 'l list \<Rightarrow> ('s, unit) act" where
  "fq_all f [] = returnA ()"
| "fq_all f (l # ls) = bindA (f l) (\<lambda>_. fq_all f ls)"

text \<open>How many leases to release: all up to the last ready one; the argument is the list reversed.\<close>

fun fq_lastReady :: "('l, 's, 'w) lease_ops \<Rightarrow> 's fifo_traits \<Rightarrow> 'l list \<Rightarrow> ('s, nat) act" where
  "fq_lastReady L P [] = returnA 0"
| "fq_lastReady L P (l # ls) =
     bindA (lo_ptr L l) (\<lambda>payload. case payload of
        None \<Rightarrow> returnA (Suc (length ls))
      | Some p \<Rightarrow> bindA (fo_isReady P p) (\<lambda>ready.
           if ready then returnA (Suc (length ls)) else fq_lastReady L P ls))"

definition fq_validated :: "('l, 's, 'w) lease_ops \<Rightarrow> 's fifo_traits \<Rightarrow> 'l \<Rightarrow> ('s, 'l) act" where
  "fq_validated L P l =
     bindA (lo_ptr L l) (\<lambda>payload.
     bindA (case payload of None \<Rightarrow> returnA () | Some p \<Rightarrow> fo_validate P p) (\<lambda>_. lo_release L l))"

definition fq_requireReady :: "('l, 's, 'w) lease_ops \<Rightarrow> 's fifo_traits \<Rightarrow> bool \<Rightarrow> 'l \<Rightarrow> ('s, unit) act" where
  "fq_requireReady L P wait l =
     bindA (lo_ptr L l) (\<lambda>payload. case payload of
        None \<Rightarrow> returnA ()
      | Some p \<Rightarrow> bindA (if wait then fo_wait P p else returnA ()) (\<lambda>_. bindA (fo_isReady P p) (\<lambda>ready.
           if ready then returnA () else throwA InvalidState)))"

definition fq_releaseReady ::
  "('l, 's, 'w) lease_ops \<Rightarrow> 's fifo_traits \<Rightarrow> ('l list \<times> 's, nat) act" where
  "fq_releaseReady L P = (\<lambda>(ls, s).
     case fq_lastReady L P (rev ls) s of
       (Inl e, s') \<Rightarrow> (Inl e, ls, s')
     | (Inr n, s') \<Rightarrow>
         (case fq_map (fq_validated L P) (take n ls) s' of
            (Inl e, ls', s'') \<Rightarrow> (Inl e, ls' @ drop n ls, s'')
          | (Inr _, _, s'') \<Rightarrow> (Inr n, drop n ls, s'')))"

text \<open>\<open>clear\<close> and \<open>waitUntilReady\<close>: release everything if everything is ready (after waiting).\<close>

definition fq_drain ::
  "('l, 's, 'w) lease_ops \<Rightarrow> 's fifo_traits \<Rightarrow> bool \<Rightarrow> ('l list \<times> 's, nat) act" where
  "fq_drain L P wait = (\<lambda>(ls, s).
     case fq_all (fq_requireReady L P wait) ls s of
       (Inl e, s') \<Rightarrow> (Inl e, ls, s')
     | (Inr _, s') \<Rightarrow>
         (case fq_map (lo_release L) ls s' of
            (Inl e, ls', s'') \<Rightarrow> (Inl e, ls', s'')
          | (Inr _, _, s'') \<Rightarrow> (Inr (length ls), [], s'')))"

text \<open>The calls on the queue; \<open>FfWorld\<close> is anything the rest of the program does in between.\<close>

datatype ('l, 's) ff_call =
    FfPush 'l | FfReleaseReady | FfClear | FfWaitUntilReady | FfSize | FfWorld "('s, nat) act"

fun ff_exec ::
  "('l, 's, 'w) lease_ops \<Rightarrow> 's fifo_traits \<Rightarrow> ('l, 's) ff_call \<Rightarrow> ('l fifo \<times> 's, nat) act" where
  "ff_exec L P (FfPush l) = bindA (ff_push L l) (\<lambda>_. returnA 0)"
| "ff_exec L P FfReleaseReady = ff_releaseReady L P"
| "ff_exec L P FfClear = bindA (ff_clear L P) (\<lambda>_. returnA 0)"
| "ff_exec L P FfWaitUntilReady = ff_waitUntilReady L P"
| "ff_exec L P FfSize = (\<lambda>(F, s). (Inr (ff_size F), F, s))"
| "ff_exec L P (FfWorld m) = onWorld m"

fun fq_exec ::
  "('l, 's, 'w) lease_ops \<Rightarrow> 's fifo_traits \<Rightarrow> ('l, 's) ff_call \<Rightarrow> ('l list \<times> 's, nat) act" where
  "fq_exec L P (FfPush l) = (\<lambda>(ls, s). (Inr 0, if lo_valid L l then ls @ [l] else ls, s))"
| "fq_exec L P FfReleaseReady = fq_releaseReady L P"
| "fq_exec L P FfClear = bindA (fq_drain L P False) (\<lambda>_. returnA 0)"
| "fq_exec L P FfWaitUntilReady = fq_drain L P True"
| "fq_exec L P FfSize = (\<lambda>(ls, s). (Inr (length ls), ls, s))"
| "fq_exec L P (FfWorld m) = onWorld m"

section \<open>The registry implements the queue\<close>

definition ff_withData :: "'l fifo \<Rightarrow> 'l list \<Rightarrow> 'l fifo" where
  "ff_withData F ls = F\<lparr>ff_leases := (ff_leases F)\<lparr>hv_data := ls\<rparr>\<rparr>"

lemma ff_withData_simps [simp]:
  "hv_data (ff_leases (ff_withData F ls)) = ls" "ff_head (ff_withData F ls) = ff_head F"
  "ff_withData (ff_withData F ls) ls' = ff_withData F ls'"
  "ff_withData F (hv_data (ff_leases F)) = F"
  by (simp_all add: ff_withData_def)

lemma onWorld_apply: "onWorld m (r, s) = (fst (m s), r, snd (m s))"
  by (simp add: onWorld_def split: prod.split)

lemma ff_ptrAt_list:
  "hv_data (ff_leases F) = pre @ l # post \<Longrightarrow>
   ff_ptrAt L (length pre) (F, s) = (fst (lo_ptr L l s), F, snd (lo_ptr L l s))"
  by (simp add: ff_ptrAt_def onWorld_apply hv_nth_def)

lemma ff_releaseAt_list:
  "hv_data (ff_leases F) = pre @ l # post \<Longrightarrow>
   ff_releaseAt L (length pre) (F, s) =
     (case lo_release L l s of
        (Inl e, s') \<Rightarrow> (Inl e, F, s')
      | (Inr l', s') \<Rightarrow> (Inr (), ff_withData F (pre @ l' # post), s'))"
  by (simp add: ff_releaseAt_def bindA_def onWorld_def hv_nth_def hv_set_def ff_withData_def
      split: prod.split sum.split)

lemma bindA_assoc: "bindA (bindA m k) k' = bindA m (\<lambda>x. bindA (k x) k')"
  by (rule ext) (simp add: bindA_def split: prod.split sum.split)

text \<open>One position of the release loop is one element of \<open>fq_map\<close>.\<close>

definition ff_releaseOne ::
  "('l, 's, 'w) lease_ops \<Rightarrow> 's fifo_traits \<Rightarrow> nat \<Rightarrow> ('l fifo \<times> 's, unit) act" where
  "ff_releaseOne L P i =
     bindA (ff_ptrAt L i) (\<lambda>payload.
     bindA (case payload of None \<Rightarrow> returnA () | Some p \<Rightarrow> onWorld (fo_validate P p)) (\<lambda>_. ff_releaseAt L i))"

lemma ff_releaseRange_Cons:
  "ff_releaseRange L P (i # rest) = bindA (ff_releaseOne L P i) (\<lambda>_. ff_releaseRange L P rest)"
  by (simp add: ff_releaseOne_def bindA_assoc)

lemma ff_releaseOne_list:
  assumes data: "hv_data (ff_leases F) = pre @ l # post"
  shows "ff_releaseOne L P (length pre) (F, s) =
     (case fq_validated L P l s of
        (Inl e, s') \<Rightarrow> (Inl e, F, s')
      | (Inr l', s') \<Rightarrow> (Inr (), ff_withData F (pre @ l' # post), s'))"
proof (cases "lo_ptr L l s")
  case (Pair x s1)
  show ?thesis
  proof (cases x)
    case (Inr payload)
    show ?thesis
    proof (cases payload)
      case None
      with Pair Inr show ?thesis
        by (simp add: ff_releaseOne_def fq_validated_def bindA_def ff_ptrAt_list[OF data] ff_releaseAt_list[OF data])
    next
      case (Some p)
      show ?thesis
      proof (cases "fo_validate P p s1")
        case (Pair y s2)
        with Some Inr \<open>lo_ptr L l s = (x, s1)\<close> show ?thesis
          by (cases y) (simp_all add: ff_releaseOne_def fq_validated_def bindA_def onWorld_def
              ff_ptrAt_list[OF data] ff_releaseAt_list[OF data])
      qed
    qed
  qed (use Pair in \<open>simp add: ff_releaseOne_def fq_validated_def bindA_def ff_ptrAt_list[OF data]\<close>)
qed

text \<open>A loop over a range of positions whose body acts as \<open>f\<close> on the lease there.\<close>

lemma ff_loop_list:
  assumes "loop [] = returnA ()" "\<And>i rest. loop (i # rest) = bindA (one i) (\<lambda>_. loop rest)"
    and one: "\<And>F pre l post s. hv_data (ff_leases F) = pre @ l # post \<Longrightarrow>
      one (length pre) (F, s) = (case f l s of
          (Inl e, s') \<Rightarrow> (Inl e, F, s')
        | (Inr l', s') \<Rightarrow> (Inr (), ff_withData F (pre @ l' # post), s'))"
    and "hv_data (ff_leases F) = pre @ ys @ post"
  shows "loop [length pre..<length pre + length ys] (F, s) =
     (case fq_map f ys s of (r, ys', s') \<Rightarrow> (r, ff_withData F (pre @ ys' @ post), s'))"
  using assms(4)
proof (induction ys arbitrary: pre F s)
  case Nil
  from Nil ff_withData_simps(4)[of F] show ?case by (simp add: assms(1) returnA_def)
next
  case (Cons y ys)
  have data: "hv_data (ff_leases F) = pre @ y # (ys @ post)" using Cons.prems by simp
  have IH: "loop [Suc (length pre)..<Suc (length pre + length ys)] (ff_withData F (pre @ l' # ys @ post), s') =
     (case fq_map f ys s' of (r, ys', s'') \<Rightarrow> (r, ff_withData F (pre @ l' # ys' @ post), s''))" for l' s'
    using Cons.IH[of "ff_withData F (pre @ l' # ys @ post)" "pre @ [l']" s'] by (simp del: upt_Suc)
  have range: "[length pre..<length pre + length (y # ys)] = length pre # [Suc (length pre)..<Suc (length pre + length ys)]"
    by (simp add: upt_conv_Cons del: upt_Suc)
  show ?case
  proof (cases "f y s")
    case (Pair x s1)
    then show ?thesis
      unfolding range assms(2)
      by (cases x) (simp_all add: bindA_def one[OF data] IH data[symmetric] del: upt_Suc split: prod.split)
  qed
qed

lemma ff_releaseRange_list:
  "hv_data (ff_leases F) = pre @ ys @ post \<Longrightarrow>
   ff_releaseRange L P [length pre..<length pre + length ys] (F, s) =
     (case fq_map (fq_validated L P) ys s of (r, ys', s') \<Rightarrow> (r, ff_withData F (pre @ ys' @ post), s'))"
  by (rule ff_loop_list[OF _ ff_releaseRange_Cons ff_releaseOne_list]) (simp add: returnA_def)

lemma ff_releaseAll_list:
  "hv_data (ff_leases F) = pre @ ys @ post \<Longrightarrow>
   ff_releaseAll L [length pre..<length pre + length ys] (F, s) =
     (case fq_map (lo_release L) ys s of (r, ys', s') \<Rightarrow> (r, ff_withData F (pre @ ys' @ post), s'))"
  by (rule ff_loop_list[where one = "ff_releaseAt L"]) (simp_all add: ff_releaseAt_list returnA_def)

text \<open>The loops that only look at the leases.\<close>

lemma ff_look_list:
  assumes "loop [] = returnA ()"
    and loop: "\<And>F pre l post s rest. hv_data (ff_leases F) = pre @ l # post \<Longrightarrow>
      loop (length pre # rest) (F, s) = (case f l s of (Inl e, s') \<Rightarrow> (Inl e, F, s') | (Inr _, s') \<Rightarrow> loop rest (F, s'))"
    and "hv_data (ff_leases F) = pre @ ys"
  shows "loop [length pre..<length pre + length ys] (F, s) =
     (case fq_all f ys s of (r, s') \<Rightarrow> (r, F, s'))"
  using assms(3)
proof (induction ys arbitrary: pre s)
  case Nil
  then show ?case by (simp add: assms(1))
next
  case (Cons y ys)
  have range: "[length pre..<length pre + length (y # ys)] = length pre # [Suc (length pre)..<Suc (length pre + length ys)]"
    by (simp add: upt_conv_Cons del: upt_Suc)
  have IH: "loop [Suc (length pre)..<Suc (length pre + length ys)] (F, s') =
     (case fq_all f ys s' of (r, s'') \<Rightarrow> (r, F, s''))" for s'
    using Cons.IH[of "pre @ [y]" s'] Cons.prems by (simp del: upt_Suc)
  show ?case
    unfolding range loop[OF Cons.prems]
    by (auto simp: bindA_def IH simp del: upt_Suc split: prod.split sum.split)
qed

lemma ff_checkReady_list:
  "hv_data (ff_leases F) = pre @ ys \<Longrightarrow>
   ff_checkReady L P [length pre..<length pre + length ys] (F, s) =
     (case fq_all (fq_requireReady L P False) ys s of (r, s') \<Rightarrow> (r, F, s'))"
  by (rule ff_look_list)
    (auto simp: fq_requireReady_def bindA_apply ff_ptrAt_list onWorld_apply split: prod.split sum.split option.split)

lemma ff_waitReady_list:
  "hv_data (ff_leases F) = pre @ ys \<Longrightarrow>
   ff_waitReady L P [length pre..<length pre + length ys] (F, s) =
     (case fq_all (fq_requireReady L P True) ys s of (r, s') \<Rightarrow> (r, F, s'))"
  by (rule ff_look_list)
    (auto simp: fq_requireReady_def bindA_apply ff_ptrAt_list onWorld_apply split: prod.split sum.split option.split)

lemma fq_lastReady_le: "fq_lastReady L P ls s = (Inr n, s') \<Longrightarrow> n \<le> length ls"
  by (induction ls arbitrary: s)
    (fastforce simp: bindA_def split: prod.splits sum.splits option.splits if_splits)+

lemma ff_scan_list:
  "hv_data (ff_leases F) = pre @ ys @ post \<Longrightarrow>
   ff_scan L P (length pre) (length pre + length ys) (F, s) =
     (case fq_lastReady L P (rev ys) s of
        (Inl e, s') \<Rightarrow> (Inl e, F, s')
      | (Inr n, s') \<Rightarrow> (Inr (if n = 0 then 0 else length pre + n), F, s'))"
proof (induction ys arbitrary: post s rule: rev_induct)
  case Nil
  then show ?case by (simp add: ff_scan.simps)
next
  case (snoc y ys)
  have data: "hv_data (ff_leases F) = (pre @ ys) @ y # post" using snoc.prems by simp
  have ptr: "ff_ptrAt L (length pre + length ys) (F, s) = (fst (lo_ptr L y s), F, snd (lo_ptr L y s))"
    using ff_ptrAt_list[OF data, of L s] by simp
  have IH: "ff_scan L P (length pre) (length pre + length ys) (F, s') =
     (case fq_lastReady L P (rev ys) s' of
        (Inl e, s'') \<Rightarrow> (Inl e, F, s'')
      | (Inr n, s'') \<Rightarrow> (Inr (if n = 0 then 0 else length pre + n), F, s''))" for s'
    by (rule snoc.IH) (simp add: data)
  show ?case
    by (subst ff_scan.simps)
      (auto simp: bindA_apply ptr onWorld_apply IH split: prod.split sum.split option.split)
qed

lemma fq_map_length: "fq_map f ls s = (r, ls', s') \<Longrightarrow> length ls' = length ls"
  by (induction ls arbitrary: s r ls' s') (fastforce split: prod.splits sum.splits)+

lemma fq_map_all:
  assumes "\<And>l s l' s'. f l s = (Inr l', s') \<Longrightarrow> Q l'"
  shows "fq_map f ls s = (Inr u, ls', s') \<Longrightarrow> \<forall>l \<in> set ls'. Q l"
  by (induction ls arbitrary: s ls' s') (fastforce split: prod.splits sum.splits dest: assms)+

text \<open>
  The leases before \<open>head_\<close> have been released, and there are at most as many of them as leases in
  the queue.
\<close>

definition ff_rep :: "('l, 's, 'w) lease_ops \<Rightarrow> 'l fifo \<Rightarrow> 'l list \<Rightarrow> bool" where
  "ff_rep L F ls \<longleftrightarrow> (\<exists>pre. hv_data (ff_leases F) = pre @ ls \<and> ff_head F = length pre \<and>
     length pre \<le> length ls \<and> (\<forall>l \<in> set pre. \<not> lo_valid L l))"

definition ff_sim :: "('l, 's, 'w) lease_ops \<Rightarrow> 'a \<times> 'l fifo \<times> 's \<Rightarrow> 'a \<times> 'l list \<times> 's \<Rightarrow> bool" where
  "ff_sim L x y \<longleftrightarrow> fst x = fst y \<and> ff_rep L (fst (snd x)) (fst (snd y)) \<and> snd (snd x) = snd (snd y)"

lemma ff_sim_simps [simp]: "ff_sim L (r, F, s) (r', ls, s') \<longleftrightarrow> r = r' \<and> ff_rep L F ls \<and> s = s'"
  by (simp add: ff_sim_def)

lemma ff_rep_new: "ff_rep L ff_new []"
  by (simp add: ff_rep_def ff_new_def hv_new_def)

lemma ff_rep_reset: "ff_rep L (ff_reset F) []"
  by (simp add: ff_rep_def ff_reset_def)

lemma ff_rep_size:
  assumes "ff_rep L F ls"
  shows "ff_size F = length ls" "hv_size (ff_leases F) \<le> 2 * length ls"
    "ff_head F \<ge> hv_size (ff_leases F) \<longleftrightarrow> ls = []"
  using assms by (auto simp: ff_rep_def ff_size_def hv_size_def)

text \<open>What the registry relies on of a lease: a released lease is empty, and releasing an empty one does nothing.\<close>

locale lease_laws =
  fixes L :: "('l, 's, 'w) lease_ops"
  assumes released: "lo_release L l s = (Inr l', s') \<Longrightarrow> \<not> lo_valid L l'"
    and release_idle: "\<not> lo_valid L l \<Longrightarrow> lo_release L l s = (Inr l, s)"
    and moved: "\<not> lo_valid L (lo_moved L l)"
    and empty_invalid: "\<not> lo_valid L (lo_empty L)"
begin

lemma validated_released: "fq_validated L P l s = (Inr l', s') \<Longrightarrow> \<not> lo_valid L l'"
  by (auto simp: fq_validated_def bindA_def split: prod.splits sum.splits dest: released)

lemma moveDown_steps:
  assumes "0 < h" "i \<le> n"
    and "length d = h + n" "\<forall>j < i. d ! j = D ! (h + j)" "\<forall>j. h + i \<le> j \<and> j < h + n \<longrightarrow> d ! j = D ! j"
      "\<forall>j. i \<le> j \<and> j < h + i \<longrightarrow> \<not> lo_valid L (d ! j)"
  shows "\<exists>d'. ff_moveDown L h [i..<n] (ff_withData F d, s) = (Inr (), ff_withData F d', s) \<and>
     length d' = h + n \<and> (\<forall>j < n. d' ! j = D ! (h + j))"
  using assms(2-)
proof (induction "n - i" arbitrary: i d)
  case 0
  then show ?case by auto
next
  case (Suc k)
  then have i: "i < n" by simp
  let ?d = "d[h + i := lo_moved L (d ! (h + i)), i := d ! (h + i)]"
  have "ff_moveDown L h [i..<n] (ff_withData F d, s) = ff_moveDown L h [Suc i..<n] (ff_withData F ?d, s)"
    using Suc.prems(5) i assms(1)
    by (simp add: upt_conv_Cons bindA_def onWorld_def lo_moveAssign_def hv_nth_def hv_set_def release_idle
        returnA_def ff_withData_def Let_def)
  moreover have "\<exists>d'. ff_moveDown L h [Suc i..<n] (ff_withData F ?d, s) = (Inr (), ff_withData F d', s) \<and>
     length d' = h + n \<and> (\<forall>j < n. d' ! j = D ! (h + j))"
    using Suc.prems i assms(1) Suc.hyps(2)
    by (intro Suc.hyps(1)) (auto simp: nth_list_update less_Suc_eq moved)
  ultimately show ?case by simp
qed

lemma compact_rep:
  assumes data: "hv_data (ff_leases F) = pre @ ls" "ff_head F = length pre" "\<forall>l \<in> set pre. \<not> lo_valid L l"
  shows "\<exists>F'. ff_compactIfNeeded L (F, s) = (Inr (), F', s) \<and> ff_rep L F' ls"
proof -
  consider "pre = []" | "pre \<noteq> []" "ls = []" | "pre \<noteq> []" "ls \<noteq> []" "length pre < (length pre + length ls) div 2"
    | "pre \<noteq> []" "ls \<noteq> []" "(length pre + length ls) div 2 \<le> length pre" by linarith
  then show ?thesis
  proof cases
    case 4
    let ?h = "length pre" let ?n = "length ls"
    obtain d where d: "ff_moveDown L ?h [0..<?n] (ff_withData F (pre @ ls), s) = (Inr (), ff_withData F d, s)"
        "length d = ?h + ?n" "\<forall>j < ?n. d ! j = (pre @ ls) ! (?h + j)"
      using moveDown_steps[of ?h 0 ?n "pre @ ls" "pre @ ls" F s] 4(1) data(3)
      by (auto simp: nth_append simp del: ff_moveDown.simps upt_Suc)
    have F: "ff_withData F (pre @ ls) = F" using ff_withData_simps(4)[of F] data(1) by simp
    have "take ?n d = ls" using d(2,3) by (intro nth_equalityI) auto
    then have "hv_data (hv_resize (ff_leases (ff_withData F d)) ?n (lo_empty L)) = ls"
      using d(2) 4(1) by (simp add: hv_data_resize_down hv_size_def)
    moreover have "ff_compactIfNeeded L (F, s) = (Inr (),
        (ff_withData F d)\<lparr>ff_leases := hv_resize (ff_leases (ff_withData F d)) ?n (lo_empty L), ff_head := 0\<rparr>, s)"
    proof -
      have "ff_moveDown L ?h [0..<?n] (F, s) = (Inr (), ff_withData F d, s)" using d(1) F by simp
      moreover have "?h \<noteq> 0" "\<not> ?h + ?n \<le> ?h" "\<not> ?h < (?h + ?n) div 2" using 4 by auto
      ultimately show ?thesis
        using data(1,2) by (simp add: ff_compactIfNeeded_def hv_size_def bindA_def Let_def)
    qed
    ultimately show ?thesis by (simp add: ff_rep_def)
  qed (use data in \<open>auto simp: ff_compactIfNeeded_def ff_rep_def ff_reset_def hv_size_def\<close>)
qed

lemma releaseReady_sim:
  assumes rep: "ff_rep L F ls"
  shows "ff_sim L (ff_releaseReady L P (F, s)) (fq_releaseReady L P (ls, s))"
proof (cases "ls = []")
  case True
  with rep show ?thesis
    by (simp add: ff_releaseReady_def fq_releaseReady_def ff_rep_size ff_rep_reset)
next
  case False
  obtain pre where data: "hv_data (ff_leases F) = pre @ ls" "ff_head F = length pre"
      "length pre \<le> length ls" "\<forall>l \<in> set pre. \<not> lo_valid L l"
    using rep by (auto simp: ff_rep_def)
  have sz: "\<not> ff_head F \<ge> hv_size (ff_leases F)" "hv_size (ff_leases F) = length pre + length ls"
    using False data by (auto simp: hv_size_def)
  note start = sz(1)[unfolded data(2)]
  have scan: "ff_scan L P (length pre) (length pre + length ls) (F, s) =
     (case fq_lastReady L P (rev ls) s of
        (Inl e, s') \<Rightarrow> (Inl e, F, s')
      | (Inr n, s') \<Rightarrow> (Inr (if n = 0 then 0 else length pre + n), F, s'))"
    by (rule ff_scan_list[where post = "[]"]) (simp add: data)
  obtain x s1 where last: "fq_lastReady L P (rev ls) s = (x, s1)" by fastforce
  show ?thesis
  proof (cases x)
    case (Inl e)
    with False rep data scan last sz show ?thesis
      by (simp add: ff_releaseReady_def fq_releaseReady_def bindA_def)
  next
    case (Inr n)
    have n: "n \<le> length ls" using fq_lastReady_le last Inr by fastforce
    obtain r ls' s2 where m: "fq_map (fq_validated L P) (take n ls) s1 = (r, ls', s2)" by (metis prod_cases3)
    have len: "length ls' = n" using fq_map_length[OF m] n by simp
    have range: "ff_releaseRange L P [length pre..<length pre + n] (F, s1) = (r, ff_withData F (pre @ ls' @ drop n ls), s2)"
      using ff_releaseRange_list[of F pre "take n ls" "drop n ls" L P s1] m n data(1) by simp
    show ?thesis
    proof (cases "n = 0")
      case True
      with m have "r = Inr ()" "s2 = s1" by auto
      with True False rep data scan last sz Inr m show ?thesis
        by (simp add: ff_releaseReady_def fq_releaseReady_def bindA_def)
    next
      case pos: False
      show ?thesis
      proof (cases r)
        case (Inl e)
        have "ff_rep L (ff_withData F (pre @ ls' @ drop n ls)) (ls' @ drop n ls)"
          using data(2,3,4) len n by (auto simp: ff_rep_def)
        with Inl pos False data(2) scan last sz Inr m range show ?thesis
          by (simp add: ff_releaseReady_def fq_releaseReady_def bindA_def)
      next
        case (Inr u)
        let ?F = "(ff_withData F (pre @ ls' @ drop n ls))\<lparr>ff_head := length pre + n\<rparr>"
        have "\<forall>l \<in> set ls'. \<not> lo_valid L l"
          using fq_map_all[of "fq_validated L P" "\<lambda>l. \<not> lo_valid L l"] validated_released m Inr by metis
        then obtain F' where F': "ff_compactIfNeeded L (?F, s2) = (Inr (), F', s2)" "ff_rep L F' (drop n ls)"
          using compact_rep[of ?F "pre @ ls'" "drop n ls" s2] data(4) len by (auto simp: ff_withData_def)
        with Inr pos False data(2) scan last sz \<open>x = Inr n\<close> m range show ?thesis
          by (simp add: ff_releaseReady_def fq_releaseReady_def bindA_def)
      qed
    qed
  qed
qed

lemma drain_sim:
  assumes rep: "ff_rep L F ls"
  shows "ff_sim L (ff_waitUntilReady L P (F, s)) (fq_drain L P True (ls, s))"
    and "ff_sim L (bindA (ff_clear L P) (\<lambda>_. returnA 0) (F, s)) (bindA (fq_drain L P False) (\<lambda>_. returnA 0) (ls, s))"
proof -
  obtain pre where data: "hv_data (ff_leases F) = pre @ ls" "ff_head F = length pre"
      "length pre \<le> length ls" "\<forall>l \<in> set pre. \<not> lo_valid L l"
    using rep by (auto simp: ff_rep_def)
  have sz: "hv_size (ff_leases F) = length pre + length ls"
    using data by (simp add: hv_size_def)
  have all: "ff_releaseAll L [length pre..<length pre + length ls] (F, s1) =
     (case fq_map (lo_release L) ls s1 of (r, ls', s') \<Rightarrow> (r, ff_withData F (pre @ ls'), s'))" for s1
    using ff_releaseAll_list[of F pre ls "[]" L s1] data(1) by simp
  have part: "ff_rep L (ff_withData F (pre @ ls')) ls'" if "fq_map (lo_release L) ls s1 = (r, ls', s2)" for r ls' s1 s2
    using fq_map_length[OF that] data(2,3,4) by (auto simp: ff_rep_def)
  note lists = ff_waitReady_list[OF data(1), of L P s] ff_checkReady_list[OF data(1), of L P s]
  show "ff_sim L (ff_waitUntilReady L P (F, s)) (fq_drain L P True (ls, s))"
  proof (cases "ls = []")
    case False
    with rep data(2) sz lists all part show ?thesis
      by (auto simp: ff_waitUntilReady_def fq_drain_def bindA_def Let_def ff_rep_reset split: prod.split sum.split)
  qed (use rep in \<open>simp add: ff_waitUntilReady_def fq_drain_def ff_rep_size ff_rep_reset\<close>)
  show "ff_sim L (bindA (ff_clear L P) (\<lambda>_. returnA 0) (F, s)) (bindA (fq_drain L P False) (\<lambda>_. returnA 0) (ls, s))"
  proof (cases "ls = []")
    case False
    with rep data(2) sz lists all part show ?thesis
      by (auto simp: ff_clear_def fq_drain_def bindA_def Let_def ff_rep_reset split: prod.split sum.split)
  qed (use rep in \<open>simp add: ff_clear_def fq_drain_def ff_rep_size ff_rep_reset bindA_def\<close>)
qed

lemma exec_sim: "ff_rep L F ls \<Longrightarrow> ff_sim L (ff_exec L P call (F, s)) (fq_exec L P call (ls, s))"
proof (cases call)
  case (FfPush l)
  assume "ff_rep L F ls"
  then have "ff_rep L (F\<lparr>ff_leases := hv_pushBack (ff_leases F) l\<rparr>) (ls @ [l])"
    by (auto simp: ff_rep_def)
  with FfPush \<open>ff_rep L F ls\<close> show ?thesis by (simp add: ff_push_def bindA_def)
qed (auto simp: releaseReady_sim drain_sim ff_rep_size onWorld_def split: prod.split)

lemma runs_sim: "ff_rep L F ls \<Longrightarrow> ff_sim L (runs (ff_exec L P) calls (F, s)) (runs (fq_exec L P) calls (ls, s))"
proof (induction calls arbitrary: F ls s)
  case (Cons call calls)
  obtain r F' s' where x: "ff_exec L P call (F, s) = (r, F', s')" by (metis prod_cases3)
  obtain r' ls' t' where y: "fq_exec L P call (ls, s) = (r', ls', t')" by (metis prod_cases3)
  from exec_sim[OF Cons.prems, of P call s] x y have "r = r'" "ff_rep L F' ls'" "s' = t'" by auto
  with Cons.IH[of F' ls' s'] x y show ?case
    by (auto simp: ff_sim_def split: prod.split)
qed simp

end

section \<open>The map\<close>

text \<open>
  What the per-index registry promises: a map from payload indices to the leases it holds.  The count it
  reports is the number of leases in the map and of those that left it without being counted: a function
  given to \<open>forEachActiveLease\<close> may empty the lease it gets by reference, and \<open>clear\<close> sets the count only
  at its end.
\<close>

type_synonym 'l lease_map = "(nat \<Rightarrow> 'l option) \<times> nat"

definition lmap_size :: "'l lease_map \<Rightarrow> nat" where
  "lmap_size A = card (dom (fst A)) + snd A"

definition lm_releaseAt ::
  "('l, 's, 'w) lease_ops \<Rightarrow> nat \<Rightarrow> ('l lease_map \<times> 's, unit) act" where
  "lm_releaseAt L i = (\<lambda>((m, n), s). case m i of
       None \<Rightarrow> (Inr (), (m, n), s)
     | Some l \<Rightarrow> bindA (onWorld (lo_release L l)) (\<lambda>_ ((m, n), s). (Inr (), (m(i := None), n), s)) ((m, n), s))"

definition lmap_set :: "('l, 's, 'w) lease_ops \<Rightarrow> 'l \<Rightarrow> ('l lease_map \<times> 's, bool) act" where
  "lmap_set L l =
     (if \<not> lo_valid L l then returnA False
      else bindA (onWorld (lo_handle L l)) (\<lambda>h.
        if \<not> handle_isValid h then bindA (onWorld (lo_release L l)) (\<lambda>_. returnA False)
        else let i = unat (h_index h) in
          bindA (lm_releaseAt L i) (\<lambda>_ ((m, n), s). (Inr True, (m(i \<mapsto> l), n), s))))"

definition lmap_find :: "'l lease_map \<Rightarrow> 'w handle \<Rightarrow> 'l option" where
  "lmap_find A h = (if handle_isValid h then fst A (unat (h_index h)) else None)"

definition lmap_get :: "('l, 's, 'w) lease_ops \<Rightarrow> 'w handle \<Rightarrow> ('l lease_map \<times> 's, 'l) act" where
  "lmap_get L h = (\<lambda>(A, s). case lmap_find A h of
       None \<Rightarrow> (Inr (lo_empty L), A, s) | Some l \<Rightarrow> onWorld (lo_copy L l) (A, s))"

definition lmap_release :: "('l, 's, 'w) lease_ops \<Rightarrow> 'w handle \<Rightarrow> ('l lease_map \<times> 's, unit) act" where
  "lmap_release L h = (\<lambda>(A, s). case lmap_find A h of
       None \<Rightarrow> (Inr (), A, s) | Some _ \<Rightarrow> lm_releaseAt L (unat (h_index h)) (A, s))"

text \<open>A function on the leases at some indices; an emptied lease leaves the map uncounted.\<close>

definition lm_put :: "('l, 's, 'w) lease_ops \<Rightarrow> nat \<Rightarrow> 'l \<Rightarrow> ('l lease_map \<times> 's, unit) act" where
  "lm_put L i l = (\<lambda>((m, n), s). (Inr (), if lo_valid L l then (m(i \<mapsto> l), n) else (m(i := None), n + 1), s))"

fun lmap_visit ::
  "('l, 's, 'w) lease_ops \<Rightarrow> ('l \<Rightarrow> ('s, 'l) act) \<Rightarrow> nat list \<Rightarrow> nat \<Rightarrow> ('l lease_map \<times> 's, nat) act" where
  "lmap_visit L func [] visited = returnA visited"
| "lmap_visit L func (i # rest) visited = (\<lambda>((m, n), s). case m i of
       None \<Rightarrow> lmap_visit L func rest visited ((m, n), s)
     | Some l \<Rightarrow> bindA (onWorld (func l)) (\<lambda>l'. bindA (lm_put L i l')
                   (\<lambda>_. lmap_visit L func rest (visited + 1))) ((m, n), s))"

text \<open>\<open>forEachActiveLease\<close> and \<open>clear\<close> go through the leases in the order of their indices.\<close>

definition lmap_each ::
  "('l, 's, 'w) lease_ops \<Rightarrow> ('l \<Rightarrow> ('s, 'l) act) \<Rightarrow> ('l lease_map \<times> 's, nat) act" where
  "lmap_each L func = (\<lambda>(A, s). lmap_visit L func (sorted_list_of_set (dom (fst A))) 0 (A, s))"

definition lmap_clear :: "('l, 's, 'w) lease_ops \<Rightarrow> ('l lease_map \<times> 's, unit) act" where
  "lmap_clear L = bindA (lmap_each L (lo_release L)) (\<lambda>_ (A, s). (Inr (), (Map.empty, 0), s))"

datatype ('l, 's, 'w) lg_call =
    LgSet 'l | LgGet "'w handle" | LgHas "'w handle" | LgRelease "'w handle" | LgClear | LgSize | LgEmpty
  | LgEach "'l \<Rightarrow> ('s, 'l) act" | LgWorld "('s, unit) act"

datatype 'l lg_answer = LgBool bool | LgLease 'l | LgCount nat | LgUnit

definition ansA :: "('a \<Rightarrow> 'b) \<Rightarrow> ('s, 'a) act \<Rightarrow> ('s, 'b) act" where
  "ansA k m = bindA m (\<lambda>x. returnA (k x))"

fun lg_exec ::
  "('l, 's, 'w) lease_ops \<Rightarrow> ('l, 's, 'w) lg_call \<Rightarrow> ('l lease_registry \<times> 's, 'l lg_answer) act" where
  "lg_exec L (LgSet l) = ansA LgBool (lg_set L l)"
| "lg_exec L (LgGet h) = ansA LgLease (lg_get L h)"
| "lg_exec L (LgHas h) = (\<lambda>(R, s). (Inr (LgBool (lg_has L h R)), R, s))"
| "lg_exec L (LgRelease h) = ansA (\<lambda>_. LgUnit) (lg_release L h)"
| "lg_exec L LgClear = ansA (\<lambda>_. LgUnit) (lg_clear L)"
| "lg_exec L LgSize = (\<lambda>(R, s). (Inr (LgCount (lg_size R)), R, s))"
| "lg_exec L LgEmpty = (\<lambda>(R, s). (Inr (LgBool (lg_empty R)), R, s))"
| "lg_exec L (LgEach func) = ansA LgCount (lg_forEachActiveLease L func)"
| "lg_exec L (LgWorld m) = ansA (\<lambda>_. LgUnit) (onWorld m)"

fun lmap_exec ::
  "('l, 's, 'w) lease_ops \<Rightarrow> ('l, 's, 'w) lg_call \<Rightarrow> ('l lease_map \<times> 's, 'l lg_answer) act" where
  "lmap_exec L (LgSet l) = ansA LgBool (lmap_set L l)"
| "lmap_exec L (LgGet h) = ansA LgLease (lmap_get L h)"
| "lmap_exec L (LgHas h) = (\<lambda>(A, s). (Inr (LgBool (lmap_find A h \<noteq> None)), A, s))"
| "lmap_exec L (LgRelease h) = ansA (\<lambda>_. LgUnit) (lmap_release L h)"
| "lmap_exec L LgClear = ansA (\<lambda>_. LgUnit) (lmap_clear L)"
| "lmap_exec L LgSize = (\<lambda>(A, s). (Inr (LgCount (lmap_size A)), A, s))"
| "lmap_exec L LgEmpty = (\<lambda>(A, s). (Inr (LgBool (lmap_size A = 0)), A, s))"
| "lmap_exec L (LgEach func) = ansA LgCount (lmap_each L func)"
| "lmap_exec L (LgWorld m) = ansA (\<lambda>_. LgUnit) (onWorld m)"

definition lg_map :: "('l, 's, 'w) lease_ops \<Rightarrow> 'l lease_registry \<Rightarrow> nat \<Rightarrow> 'l option" where
  "lg_map L R i =
     (if i < hv_size (lg_entries R) \<and> lo_valid L (hv_nth (lg_entries R) i)
      then Some (hv_nth (lg_entries R) i) else None)"

text \<open>The count is at least the number of leases; what it has more is the uncounted part.\<close>

abbreviation "lg_held L R \<equiv> card (dom (lg_map L R))"

definition lg_inv :: "('l, 's, 'w) lease_ops \<Rightarrow> 'l lease_registry \<Rightarrow> bool" where
  "lg_inv L R \<longleftrightarrow> lg_held L R \<le> lg_size R"

definition lg_abs :: "('l, 's, 'w) lease_ops \<Rightarrow> 'l lease_registry \<Rightarrow> 'l lease_map" where
  "lg_abs L R = (lg_map L R, lg_size R - lg_held L R)"

definition lg_sim :: "('l, 's, 'w) lease_ops \<Rightarrow> 'a \<times> 'l lease_registry \<times> 's \<Rightarrow> 'a \<times> 'l lease_map \<times> 's \<Rightarrow> bool" where
  "lg_sim L x y \<longleftrightarrow> fst x = fst y \<and> lg_inv L (fst (snd x)) \<and> lg_abs L (fst (snd x)) = fst (snd y) \<and>
     snd (snd x) = snd (snd y)"

lemma lg_sim_simps [simp]:
  "lg_sim L (r, R, s) (r', A, s') \<longleftrightarrow> r = r' \<and> lg_inv L R \<and> lg_abs L R = A \<and> s = s'"
  by (simp add: lg_sim_def)

lemma lg_sim_bind:
  assumes "lg_sim L (m p) (m' q)"
    and "\<And>x R s. lg_inv L R \<Longrightarrow> lg_sim L (k x (R, s)) (k' x (lg_abs L R, s))"
  shows "lg_sim L (bindA m k p) (bindA m' k' q)"
  using assms by (auto simp: bindA_def lg_sim_def split: prod.splits sum.splits)

lemma lg_sim_ans: "lg_sim L (m p) (m' q) \<Longrightarrow> lg_sim L (ansA f m p) (ansA f m' q)"
  unfolding ansA_def by (erule lg_sim_bind) simp

lemma lg_dom: "dom (lg_map L R) \<subseteq> {..<hv_size (lg_entries R)}"
  by (auto simp: lg_map_def split: if_splits)

lemma lg_finite [simp]: "finite (dom (lg_map L R))"
  using lg_dom by (rule finite_subset) simp

text \<open>How the number of leases changes with one entry.\<close>

lemma lg_held_upd [simp]:
  "card (insert i (dom (lg_map L R))) = (if lg_map L R i = None then lg_held L R + 1 else lg_held L R)"
  "card (dom (lg_map L R) - {i}) = (if lg_map L R i = None then lg_held L R else lg_held L R - 1)"
  by (simp_all add: card_insert_if domIff card_Diff_singleton_if)

lemma lg_held_pos: "lg_map L R i = Some k \<Longrightarrow> 0 < lg_held L R"
  by (auto simp: card_gt_0_iff)

lemma lg_size_abs: "lg_inv L R \<Longrightarrow> lg_size R = lmap_size (lg_abs L R)"
  by (simp add: lmap_size_def lg_abs_def lg_inv_def)

lemma lg_find_abs: "map_option (\<lambda>i. hv_nth (lg_entries R) i) (lg_findEntry L h R) = lmap_find (lg_abs L R) h"
  "lg_findEntry L h R = Some i \<Longrightarrow> i = unat (h_index h)"
  by (auto simp: lg_findEntry_def lmap_find_def lg_abs_def lg_map_def Let_def split: if_splits)

lemma lg_map_set:
  "i < hv_size (lg_entries R) \<Longrightarrow>
   lg_map L (R\<lparr>lg_entries := hv_set (lg_entries R) i l\<rparr>) = (lg_map L R)(i := if lo_valid L l then Some l else None)"
  by (auto simp: lg_map_def hv_size_def hv_set_def hv_nth_def fun_eq_iff)

lemma lg_map_fields [simp]:
  "lg_map L (R\<lparr>lg_size := n\<rparr>) = lg_map L R"
  "lg_map L (R\<lparr>lg_size := n, lg_entries := e\<rparr>) = lg_map L (R\<lparr>lg_entries := e\<rparr>)"
  by (simp_all add: lg_map_def fun_eq_iff)

text \<open>Writing the entry of a lease in the map.\<close>

lemma lg_put_sim:
  assumes "i < hv_size (lg_entries R)" "lo_valid L (hv_nth (lg_entries R) i)" "lg_inv L R"
  shows "lg_sim L (lg_setEntry i l (R, s)) (lm_put L i l (lg_abs L R, s))"
proof -
  have "lg_map L R i = Some (hv_nth (lg_entries R) i)" using assms by (simp add: lg_map_def)
  with assms(3) lg_held_pos[OF this] lg_map_set[OF assms(1), of L l] show ?thesis
    by (auto simp: lg_setEntry_def lm_put_def lg_abs_def lg_inv_def)
qed

lemma lmap_visit_skip:
  "lmap_visit L f idxs v ((m, n), s) = lmap_visit L f (filter (\<lambda>i. m i \<noteq> None) idxs) v ((m, n), s)"
  if "distinct idxs"
  using that
proof (induction idxs arbitrary: m n s v)
  case (Cons i idxs)
  show ?case
  proof (cases "m i")
    case None
    with Cons show ?thesis by simp
  next
    case (Some l)
    have same: "filter (\<lambda>j. (m(i := x)) j \<noteq> None) idxs = filter (\<lambda>j. m j \<noteq> None) idxs" for x
      using Cons.prems by (intro filter_cong) auto
    have IH: "lmap_visit L f idxs v ((m(i := x), n), s) =
        lmap_visit L f (filter (\<lambda>j. m j \<noteq> None) idxs) v ((m(i := x), n), s)" for x n s v
      unfolding same[of x, symmetric] using Cons.prems by (intro Cons.IH) simp
    have "filter (\<lambda>j. m j \<noteq> None) (i # idxs) = i # filter (\<lambda>j. m j \<noteq> None) idxs" using Some by simp
    then show ?thesis
      using Some by (simp only: lmap_visit.simps)
        (simp add: bindA_def lm_put_def onWorld_def IH del: not_None_eq split: prod.split sum.split)
  qed
qed simp

lemma lg_visit_sim:
  "\<forall>i \<in> set idxs. i < hv_size (lg_entries R) \<Longrightarrow> lg_inv L R \<Longrightarrow>
   lg_sim L (lg_visit L f idxs v (R, s)) (lmap_visit L f idxs v (lg_abs L R, s))"
proof (induction idxs arbitrary: R s v)
  case (Cons i idxs)
  let ?l = "hv_nth (lg_entries R) i"
  show ?case
  proof (cases "lo_valid L ?l")
    case False
    then have "lmap_visit L f (i # idxs) v (lg_abs L R, s) = lmap_visit L f idxs v (lg_abs L R, s)"
      by (simp add: lg_abs_def lg_map_def)
    with False Cons.IH[of R v s] Cons.prems show ?thesis
      by (simp add: lg_entry_def bindA_def)
  next
    case True
    obtain x s1 where fx: "f ?l s = (x, s1)" by fastforce
    have at: "lg_map L R i = Some ?l" using True Cons.prems by (simp add: lg_map_def)
    show ?thesis
    proof (cases x)
      case (Inl e)
      with fx at True Cons.prems show ?thesis
        by (simp add: lg_entry_def bindA_def onWorld_def lg_abs_def)
    next
      case (Inr l')
      let ?R = "R\<lparr>lg_entries := hv_set (lg_entries R) i l'\<rparr>"
      have "lg_sim L (lg_setEntry i l' (R, s1)) (lm_put L i l' (lg_abs L R, s1))"
        using lg_put_sim[of i R L] True Cons.prems by simp
      then have put: "lm_put L i l' (lg_abs L R, s1) = (Inr (), lg_abs L ?R, s1)" "lg_inv L ?R"
        by (cases "lm_put L i l' (lg_abs L R, s1)"; auto simp: lg_setEntry_def lg_sim_def)+
      have "lg_visit L f (i # idxs) v (R, s) = lg_visit L f idxs (v + 1) (?R, s1)"
        using True fx Inr by (simp add: lg_entry_def bindA_def onWorld_def lg_setEntry_def)
      moreover have "lmap_visit L f (i # idxs) v (lg_abs L R, s) = lmap_visit L f idxs (v + 1) (lg_abs L ?R, s1)"
        using at fx Inr put(1) by (simp add: bindA_def onWorld_def lg_abs_def)
      moreover have "\<forall>i \<in> set idxs. i < hv_size (lg_entries ?R)"
        using Cons.prems by (simp add: hv_size_def hv_set_def)
      ultimately show ?thesis
        using Cons.IH[of ?R "v + 1" s1] put(2) by simp
    qed
  qed
qed simp

lemma each_sim:
  assumes "lg_inv L R"
  shows "lg_sim L (lg_forEachActiveLease L f (R, s)) (lmap_each L f (lg_abs L R, s))"
proof -
  have "sorted_list_of_set (dom (lg_map L R)) = filter (\<lambda>i. lg_map L R i \<noteq> None) [0..<hv_size (lg_entries R)]"
    using lg_dom[of L R] by (intro sorted_distinct_set_unique) (auto simp: sorted_wrt_filter)
  then have "lmap_each L f (lg_abs L R, s) = lmap_visit L f [0..<hv_size (lg_entries R)] 0 (lg_abs L R, s)"
    using lmap_visit_skip[of "[0..<hv_size (lg_entries R)]" L f 0 "lg_map L R"]
    by (simp add: lmap_each_def lg_abs_def)
  with lg_visit_sim[of "[0..<hv_size (lg_entries R)]" R L f 0 s] assms show ?thesis
    by (simp add: lg_forEachActiveLease_def)
qed

context lease_laws
begin

lemma ensureSlot_spec:
  fixes R i
  defines "R' \<equiv> (if i \<ge> hv_size (lg_entries R)
      then R\<lparr>lg_entries := hv_resize (lg_entries R) (i + 1) (lo_empty L)\<rparr> else R)"
  shows "lg_ensureSlot L i (R, s) = (Inr (), R', s)" "lg_map L R' = lg_map L R" "lg_size R' = lg_size R"
    "i < hv_size (lg_entries R')"
  by (auto simp: R'_def lg_ensureSlot_def lg_map_def hv_size_def hv_nth_def nth_append empty_invalid fun_eq_iff)

lemma set_sim:
  assumes "lg_inv L R"
  shows "lg_sim L (lg_set L l (R, s)) (lmap_set L l (lg_abs L R, s))"
proof (cases "lo_valid L l")
  case True
  obtain x s1 where h: "lo_handle L l s = (x, s1)" by fastforce
  show ?thesis
  proof (cases x)
    case (Inl e)
    with True h assms show ?thesis by (simp add: lg_set_def lmap_set_def bindA_def onWorld_def)
  next
    case (Inr hd)
    let ?i = "unat (h_index hd)"
    obtain R' where R': "lg_ensureSlot L ?i (R, s1) = (Inr (), R', s1)" "lg_map L R' = lg_map L R"
        "lg_size R' = lg_size R" "?i < hv_size (lg_entries R')"
      using ensureSlot_spec by blast
    let ?old = "hv_nth (lg_entries R') ?i"
    have at: "lg_map L R ?i = (if lo_valid L ?old then Some ?old else None)"
      unfolding R'(2)[symmetric] using R'(4) by (simp add: lg_map_def)
    have upd: "lg_map L (R'\<lparr>lg_entries := hv_set (hv_set (lg_entries R') ?i a) ?i l\<rparr>) = (lg_map L R)(?i \<mapsto> l)"
      "lg_map L (R'\<lparr>lg_entries := hv_set (lg_entries R') ?i l\<rparr>) = (lg_map L R)(?i \<mapsto> l)"
      "hv_nth (hv_set (lg_entries R') ?i a) ?i = a" for a
      using R'(2,4) True lg_map_set[of ?i "R'\<lparr>lg_entries := hv_set (lg_entries R') ?i a\<rparr>" L l]
        lg_map_set[of ?i R' L a] lg_map_set[of ?i R' L l] by (simp_all add: hv_nth_def hv_set_def hv_size_def)
    show ?thesis
    proof (cases "handle_isValid hd \<and> lo_valid L ?old")
      case valid: True
      show ?thesis
      proof (cases "lo_release L ?old s1")
        case (Pair y s2)
        show ?thesis
        proof (cases y)
          case (Inl e)
          with True h Inr R' valid Pair at assms show ?thesis
            by (simp add: lg_set_def lmap_set_def lm_releaseAt_def bindA_def onWorld_def lg_entry_def lg_abs_def lg_inv_def Let_def)
        next
          case (Inr l')
          with released[OF Pair[unfolded Inr]] True h \<open>x = Inr hd\<close> R' valid Pair at upd assms show ?thesis
            by (simp add: lg_set_def lmap_set_def lm_releaseAt_def bindA_def onWorld_def lg_entry_def lg_abs_def lg_inv_def Let_def
                lg_setEntry_def lo_moveAssign_def release_idle returnA_def)
        qed
      qed
    next
      case False
      with True h Inr R' at upd assms show ?thesis
        by (auto simp: lg_set_def lmap_set_def lm_releaseAt_def bindA_def onWorld_def lg_entry_def lg_abs_def lg_inv_def Let_def
            lg_setEntry_def lo_moveAssign_def release_idle lg_addSize_def returnA_def nat_add_distrib
            split: prod.split sum.split)
    qed
  qed
qed (use assms in \<open>simp add: lg_set_def lmap_set_def\<close>)

lemma release_sim:
  assumes "lg_inv L R"
  shows "lg_sim L (lg_release L h (R, s)) (lmap_release L h (lg_abs L R, s))"
proof (cases "lg_findEntry L h R")
  case None
  then have "lmap_find (lg_abs L R) h = None" by (simp add: lg_find_abs(1)[symmetric])
  with None assms show ?thesis by (simp add: lg_release_def lmap_release_def)
next
  case (Some i)
  let ?l = "hv_nth (lg_entries R) i"
  have i: "i = unat (h_index h)" "i < hv_size (lg_entries R)" "lo_valid L ?l"
    using Some by (auto simp: lg_findEntry_def Let_def split: if_splits)
  have find: "lmap_find (lg_abs L R) h = Some ?l" using Some by (simp add: lg_find_abs(1)[symmetric])
  have m: "lg_map L R i = Some ?l" using i by (simp add: lg_map_def)
  obtain y s1 where y: "lo_release L ?l s = (y, s1)" by fastforce
  show ?thesis
  proof (cases y)
    case (Inl e)
    with Some find i(1) m y assms show ?thesis
      by (simp add: lg_release_def lmap_release_def lm_releaseAt_def bindA_def onWorld_def lg_abs_def)
  next
    case (Inr l')
    have map: "lg_map L (R\<lparr>lg_entries := hv_set (lg_entries R) i l'\<rparr>) = (lg_map L R)(i := None)"
      using lg_map_set[OF i(2), of L l'] released[OF y[unfolded Inr]] by simp
    with Some find i(1) m y Inr assms lg_held_pos[OF m] show ?thesis
      by (simp add: lg_release_def lmap_release_def lm_releaseAt_def bindA_def onWorld_def lg_abs_def lg_inv_def
          lg_setEntry_def lg_addSize_def nat_diff_distrib)
  qed
qed

text \<open>\<open>clear\<close> is the walk that releases every lease.\<close>

lemma clearFrom_visit:
  "lg_clearFrom L idxs (R, s) = bindA (lg_visit L (lo_release L) idxs v) (\<lambda>_. returnA ()) (R, s)"
proof (induction idxs arbitrary: R s v)
  case (Cons i idxs)
  let ?l = "hv_nth (lg_entries R) i"
  obtain x s1 where x: "lo_release L ?l s = (x, s1)" by fastforce
  show ?case
  proof (cases "lo_valid L ?l")
    case False
    with Cons.IH[of R s v] show ?thesis by (simp add: lg_entry_def bindA_def)
  next
    case True
    then show ?thesis
      using x Cons.IH[of "R\<lparr>lg_entries := hv_set (lg_entries R) i (projr x)\<rparr>" s1 "v + 1"]
      by (cases x) (simp_all add: lg_entry_def bindA_def onWorld_def lg_setEntry_def)
  qed
qed (simp add: bindA_def returnA_def)

lemma visit_empties:
  "lg_visit L (lo_release L) idxs v (R, s) = (Inr x, R', s') \<Longrightarrow> \<forall>i \<in> set idxs. i < hv_size (lg_entries R) \<Longrightarrow>
   lg_map L R' = lg_map L R |` (- set idxs)"
proof (induction idxs arbitrary: R s v)
  case (Cons i idxs)
  let ?l = "hv_nth (lg_entries R) i"
  show ?case
  proof (cases "lo_valid L ?l")
    case False
    then have "lg_map L R i = None" by (simp add: lg_map_def)
    with False Cons show ?thesis
      by (fastforce simp: lg_entry_def bindA_def restrict_map_def fun_eq_iff)
  next
    case True
    then obtain l' s1 where l': "lo_release L ?l s = (Inr l', s1)"
      using Cons.prems(1) by (auto simp: lg_entry_def bindA_def onWorld_def split: prod.splits sum.splits)
    let ?R = "R\<lparr>lg_entries := hv_set (lg_entries R) i l'\<rparr>"
    have "lg_visit L (lo_release L) idxs (v + 1) (?R, s1) = (Inr x, R', s')"
      using Cons.prems(1) True l' by (simp add: lg_entry_def bindA_def onWorld_def lg_setEntry_def)
    from Cons.IH[OF this] Cons.prems(2) have "lg_map L R' = lg_map L ?R |` (- set idxs)"
      by (simp add: hv_size_def hv_set_def)
    with lg_map_set[of i R L l'] released[OF l'] Cons.prems(2) show ?thesis
      by (auto simp: restrict_map_def fun_eq_iff)
  qed
qed (simp add: returnA_def restrict_map_def fun_eq_iff)

lemma clear_sim:
  assumes "lg_inv L R"
  shows "lg_sim L (lg_clear L (R, s)) (lmap_clear L (lg_abs L R, s))"
proof -
  let ?each = "lg_forEachActiveLease L (lo_release L) (R, s)"
  obtain x R' s' where each: "?each = (x, R', s')" by (metis prod_cases3)
  have e: "lg_clear L (R, s) = (case ?each of (Inl e, p) \<Rightarrow> (Inl e, p) | (Inr _, R, s) \<Rightarrow> (Inr (), R\<lparr>lg_size := 0\<rparr>, s))"
    by (auto simp: lg_clear_def lg_forEachActiveLease_def bindA_def clearFrom_visit[where v = 0] returnA_def
        split: prod.split sum.split)
  have sim: "lmap_each L (lo_release L) (lg_abs L R, s) = (x, lg_abs L R', s')" "lg_inv L R'"
    using each_sim[OF assms, of "lo_release L" s] each
    by (cases "lmap_each L (lo_release L) (lg_abs L R, s)"; auto simp: lg_sim_def)+
  show ?thesis
  proof (cases x)
    case (Inl err)
    with each sim show ?thesis by (simp add: e lmap_clear_def bindA_def)
  next
    case (Inr n)
    have "lg_map L R' = lg_map L R |` (- set [0..<hv_size (lg_entries R)])"
      using visit_empties[of "[0..<hv_size (lg_entries R)]" 0 R s] each Inr by (simp add: lg_forEachActiveLease_def)
    then have "lg_map L R' = Map.empty"
      using lg_dom[of L R] by (auto simp: restrict_map_def fun_eq_iff)
    with each sim Inr show ?thesis by (simp add: e lmap_clear_def bindA_def lg_inv_def lg_abs_def)
  qed
qed

lemma lg_exec_sim:
  assumes "lg_inv L R"
  shows "lg_sim L (lg_exec L call (R, s)) (lmap_exec L call (lg_abs L R, s))"
proof (cases call)
  case (LgGet h)
  with assms show ?thesis
    by (cases "lg_findEntry L h R")
      (auto intro!: lg_sim_ans simp: lg_get_def lmap_get_def onWorld_def lg_find_abs(1)[symmetric] split: prod.split)
next
  case (LgHas h)
  with assms show ?thesis by (simp add: lg_has_def lg_find_abs(1)[symmetric])
next
  case (LgWorld m)
  with assms show ?thesis by (auto intro!: lg_sim_ans simp: onWorld_def split: prod.split)
qed (use assms in \<open>simp_all add: lg_sim_ans set_sim release_sim clear_sim each_sim lg_size_abs lg_empty_def\<close>)

lemma lg_runs_sim:
  "lg_inv L R \<Longrightarrow> lg_sim L (runs (lg_exec L) calls (R, s)) (runs (lmap_exec L) calls (lg_abs L R, s))"
proof (induction calls arbitrary: R s)
  case (Cons call calls)
  obtain r R' s' where x: "lg_exec L call (R, s) = (r, R', s')" by (metis prod_cases3)
  with lg_exec_sim[OF Cons.prems, of call s] have y: "lmap_exec L call (lg_abs L R, s) = (r, lg_abs L R', s')" "lg_inv L R'"
    by (cases "lmap_exec L call (lg_abs L R, s)"; auto simp: lg_sim_def)+
  with Cons.IH[OF y(2), of s'] x show ?case
    by (auto simp: lg_sim_def split: prod.split)
qed simp

end

section \<open>Strong leases\<close>

text \<open>The lease operations of \<open>StrongLease\<close>, on the manager the leases belong to.\<close>

definition sl_ops ::
  "('g::len word, 'p, 'r, 'c) pool_traits \<Rightarrow> (strong_lease, ('g word, 'p) pool_manager, 'g word) lease_ops" where
  "sl_ops T = \<lparr>lo_empty = ls_invalid, lo_valid = sl_valid, lo_release = sl_release T, lo_copy = sl_copyFrom,
     lo_handle = (\<lambda>l M. (sl_payloadHandle l M, M)), lo_ptr = (\<lambda>l M. (sl_payloadPtr l M, M)),
     lo_moved = (\<lambda>l. snd (sl_moveFrom l))\<rparr>"

lemma sl_ops_simps [simp]:
  "lo_empty (sl_ops T) = ls_invalid" "lo_valid (sl_ops T) = sl_valid" "lo_release (sl_ops T) = sl_release T"
  "lo_copy (sl_ops T) = sl_copyFrom" "lo_handle (sl_ops T) l M = (sl_payloadHandle l M, M)"
  "lo_ptr (sl_ops T) l M = (sl_payloadPtr l M, M)" "lo_moved (sl_ops T) l = snd (sl_moveFrom l)"
  by (simp_all add: sl_ops_def)

interpretation sl: lease_laws "sl_ops T" for T
proof unfold_locales
  fix l l' s s' assume "lo_release (sl_ops T) l s = (Inr l', s')"
  then show "\<not> lo_valid (sl_ops T) l'"
    by (auto simp: sl_release_def sl_valid_def ls_invalid_def Let_def split: option.splits prod.splits)
next
  fix l s assume "\<not> lo_valid (sl_ops T) l"
  then show "lo_release (sl_ops T) l s = (Inr l, s)" by (simp add: sl_release_def sl_valid_def)
qed (simp_all add: sl_valid_def sl_moveFrom_def ls_invalid_def)

text \<open>
  C30: the FIFO registry of strong leases is a queue.  Whatever is pushed, released, cleared, waited
  for and done with the manager in between, the answers and exceptions are those of the queue of
  leases, which knows no \<open>head_\<close> and no compaction: \<open>releaseReady\<close> releases, oldest first, all leases
  up to the last ready one and keeps the others, \<open>clear\<close> and \<open>waitUntilReady\<close> release all or throw
  before anything is released.  The storage never holds more than twice as many entries as the queue.
\<close>

theorem ff_is_queue:
  "case (runs (ff_exec (sl_ops T) P) calls (ff_new, M), runs (fq_exec (sl_ops T) P) calls ([], M)) of
     ((answers, F, M'), (answers', ls, M'')) \<Rightarrow>
       answers = answers' \<and> M' = M'' \<and> ff_size F = length ls \<and>
       drop (ff_head F) (hv_data (ff_leases F)) = ls \<and> hv_size (ff_leases F) \<le> 2 * length ls"
proof -
  obtain answers F M' where x: "runs (ff_exec (sl_ops T) P) calls (ff_new, M) = (answers, F, M')"
    by (metis prod_cases3)
  obtain answers' ls M'' where y: "runs (fq_exec (sl_ops T) P) calls ([], M) = (answers', ls, M'')"
    by (metis prod_cases3)
  have sim: "answers = answers'" "ff_rep (sl_ops T) F ls" "M' = M''"
    using sl.runs_sim[OF ff_rep_new, of T P calls M] x y by auto
  then have "drop (ff_head F) (hv_data (ff_leases F)) = ls" by (auto simp: ff_rep_def)
  with sim x y ff_rep_size[OF sim(2)] show ?thesis by simp
qed

text \<open>
  C31: the per-index registry of strong leases is a map from payload indices to leases.  Whatever is
  set, copied out, released, cleared, visited and done with the manager in between, the answers and the
  manager are those of the map: \<open>set\<close> replaces (and releases) the lease of its payload's index only,
  \<open>forEachActiveLease\<close> and \<open>clear\<close> go through the leases in the order of the indices.  The reported size
  is the number of leases held and of those that left uncounted: the ones a function given to
  \<open>forEachActiveLease\<close> emptied since the last \<open>clear\<close>.
\<close>

theorem lg_is_map:
  "case (runs (lg_exec (sl_ops T)) calls (lg_new, M), runs (lmap_exec (sl_ops T)) calls ((Map.empty, 0), M)) of
     ((answers, R, M'), (answers', (m, uncounted), M'')) \<Rightarrow>
       answers = answers' \<and> M' = M'' \<and> lg_map (sl_ops T) R = m \<and> lg_size R = card (dom m) + uncounted"
proof -
  have new: "lg_map (sl_ops T) lg_new = Map.empty" "lg_size lg_new = 0"
    by (simp_all add: lg_map_def lg_new_def hv_new_def hv_size_def fun_eq_iff)
  have abs: "lg_abs (sl_ops T) lg_new = (Map.empty, 0)" "lg_inv (sl_ops T) lg_new"
    by (simp_all add: lg_abs_def lg_inv_def new)
  obtain answers R M' where x: "runs (lg_exec (sl_ops T)) calls (lg_new, M) = (answers, R, M')"
    by (metis prod_cases3)
  have sim: "lg_sim (sl_ops T) (answers, R, M') (runs (lmap_exec (sl_ops T)) calls ((Map.empty, 0), M))"
    using sl.lg_runs_sim[OF abs(2), of calls M] by (simp only: x abs(1))
  show ?thesis
    using sim lg_size_abs[of "sl_ops T" R]
    by (cases "runs (lmap_exec (sl_ops T)) calls ((Map.empty, 0), M)") (auto simp: x lg_abs_def lmap_size_def)
qed

end
