(* ===== verification/ArchGen.thy ===== *)
theory ArchGen
  imports Prelude
begin

text \<open>
  The architecture table generator, \<open>src/tools/codegen/gen_architectures.cpp\<close>: validation of the
  execution and architecture lists, resolution of the entries to indices, parent lookup, the
  depth-first cycle check and the hardware detection tables.  A parsed YAML document is a tree and
  \<open>node[key]\<close> its lookup; the conversion of a scalar to an integer belongs to the YAML library and is
  the argument \<open>as_int\<close>.  \<open>Fail\<close> is \<open>None\<close>.  The tables are the arrays that \<open>architecture.h\<close> and the
  detection code include; their rendering as C++ text is not modelled.
\<close>

section \<open>Input\<close>

datatype yaml = YNull | YScalar string | YSequence "yaml list" | YMap "(yaml \<times> yaml) list"

definition yaml_get :: "yaml \<Rightarrow> string \<Rightarrow> yaml option" where
  "yaml_get node key = (case node of YMap kvs \<Rightarrow> map_of kvs (YScalar key) | _ \<Rightarrow> None)"

definition gen_expectKeys :: "yaml \<Rightarrow> string list \<Rightarrow> bool" where
  "gen_expectKeys node allowed \<longleftrightarrow>
     (case node of YMap kvs \<Rightarrow> \<forall>kv \<in> set kvs. (case fst kv of YScalar key \<Rightarrow> key \<in> set allowed | _ \<Rightarrow> False) | _ \<Rightarrow> True)"

definition gen_readRequiredString :: "yaml \<Rightarrow> string \<Rightarrow> string option" where
  "gen_readRequiredString node key =
     (case yaml_get node key of
        Some (YScalar s) \<Rightarrow> if s = [] then None else Some s
      | _ \<Rightarrow> None)"

definition gen_readOptionalString :: "yaml \<Rightarrow> string \<Rightarrow> string option option" where
  "gen_readOptionalString node key =
     (case yaml_get node key of
        None \<Rightarrow> Some None
      | Some (YScalar s) \<Rightarrow> Some (Some s)
      | Some _ \<Rightarrow> None)"

definition gen_readOptionalInt :: "(string \<Rightarrow> int option) \<Rightarrow> yaml \<Rightarrow> string \<Rightarrow> int option option" where
  "gen_readOptionalInt as_int node key =
     (case yaml_get node key of
        None \<Rightarrow> Some None
      | Some (YScalar s) \<Rightarrow> map_option Some (as_int s)
      | Some _ \<Rightarrow> None)"

text \<open>The items of a sequence or the one scalar, each read by \<open>item\<close>.\<close>

primrec gen_readItems :: "('b \<Rightarrow> 'a option) \<Rightarrow> 'b list \<Rightarrow> 'a list option" where
  "gen_readItems item [] = Some []"
| "gen_readItems item (x # xs) = Option.bind (item x) (\<lambda>y. map_option ((#) y) (gen_readItems item xs))"

definition gen_readOptionalIntList :: "(string \<Rightarrow> int option) \<Rightarrow> yaml \<Rightarrow> string \<Rightarrow> int list option" where
  "gen_readOptionalIntList as_int node key =
     (let item = \<lambda>x. (case x of YScalar s \<Rightarrow> as_int s | _ \<Rightarrow> None)
      in case yaml_get node key of
           None \<Rightarrow> Some []
         | Some (YSequence xs) \<Rightarrow> gen_readItems item xs
         | Some (YScalar s) \<Rightarrow> map_option (\<lambda>i. [i]) (as_int s)
         | Some _ \<Rightarrow> None)"

definition gen_readOptionalStringList :: "yaml \<Rightarrow> string \<Rightarrow> string list option" where
  "gen_readOptionalStringList node key =
     (let item = \<lambda>x. (case x of YScalar s \<Rightarrow> if s = [] then None else Some s | _ \<Rightarrow> None)
      in case yaml_get node key of
           None \<Rightarrow> Some []
         | Some (YSequence xs) \<Rightarrow> gen_readItems item xs
         | Some (YScalar s) \<Rightarrow> if s = [] then None else Some [s]
         | Some _ \<Rightarrow> None)"

definition gen_isAlpha :: "char \<Rightarrow> bool" where
  "gen_isAlpha c \<longleftrightarrow> (let n = of_char c :: nat in 65 \<le> n \<and> n \<le> 90 \<or> 97 \<le> n \<and> n \<le> 122)"

definition gen_isAlnum :: "char \<Rightarrow> bool" where
  "gen_isAlnum c \<longleftrightarrow> gen_isAlpha c \<or> (let n = of_char c :: nat in 48 \<le> n \<and> n \<le> 57)"

definition gen_toLower :: "char \<Rightarrow> char" where
  "gen_toLower c = (let n = of_char c :: nat in if 65 \<le> n \<and> n \<le> 90 then char_of (n + 32) else c)"

definition gen_looksLikeIdentifier :: "string \<Rightarrow> bool" where
  "gen_looksLikeIdentifier s \<longleftrightarrow>
     s \<noteq> [] \<and> (gen_isAlpha (hd s) \<or> hd s = CHR ''_'') \<and> (\<forall>ch \<in> set s. gen_isAlnum ch \<or> ch = CHR ''_'')"

record gen_execution =
  ge_id :: string
  ge_display_name :: string

record gen_detect =
  ds_vendor :: string
  ds_family :: "int option"
  ds_models :: "int list"
  ds_features :: "string list"
  ds_machine_ids :: "string list"
  ds_compute_capability :: "int option"
  ds_metal_family :: "string option"

record gen_input =
  gi_id :: string
  gi_execution_id :: string
  gi_display_name :: string
  gi_description :: string
  gi_parent :: "string option"
  gi_detect :: "gen_detect option"

text \<open>A detect block: outside, \<open>None\<close> is failure; inside, a block without any condition.\<close>

definition gen_parseDetectSpec :: "(string \<Rightarrow> int option) \<Rightarrow> yaml \<Rightarrow> gen_detect option option" where
  "gen_parseDetectSpec as_int node =
     (if \<not> (case node of YMap _ \<Rightarrow> True | _ \<Rightarrow> False) then None
      else if \<not> gen_expectKeys node [''vendor'', ''family'', ''model'', ''features'', ''machine_ids'',
                                       ''compute_capability'', ''metal_family''] then None
      else
        Option.bind (gen_readOptionalString node ''vendor'') (\<lambda>vendor.
        Option.bind (gen_readOptionalInt as_int node ''family'') (\<lambda>family.
        Option.bind (gen_readOptionalIntList as_int node ''model'') (\<lambda>models.
        Option.bind (gen_readOptionalStringList node ''features'') (\<lambda>features.
        Option.bind (gen_readOptionalStringList node ''machine_ids'') (\<lambda>machine_ids.
        Option.bind (gen_readOptionalInt as_int node ''compute_capability'') (\<lambda>cc.
        Option.bind (gen_readOptionalString node ''metal_family'') (\<lambda>metal.
        let vendor = (case vendor of None \<Rightarrow> [] | Some v \<Rightarrow> v) in
        if vendor = [] \<and> family = None \<and> models = [] \<and> features = [] \<and> machine_ids = [] \<and> cc = None \<and> metal = None
        then Some None
        else Some (Some \<lparr>ds_vendor = vendor, ds_family = family, ds_models = models, ds_features = features,
               ds_machine_ids = machine_ids, ds_compute_capability = cc, ds_metal_family = metal\<rparr>)))))))))"

primrec gen_parseExecutionsFrom :: "string list \<Rightarrow> yaml list \<Rightarrow> gen_execution list option" where
  "gen_parseExecutionsFrom seen [] = Some []"
| "gen_parseExecutionsFrom seen (node # nodes) =
     (if \<not> (case node of YMap _ \<Rightarrow> True | _ \<Rightarrow> False) then None
      else Option.bind (gen_readRequiredString node ''id'') (\<lambda>i.
     if \<not> gen_looksLikeIdentifier i then None
     else if i \<in> set seen then None
     else Option.bind (gen_readRequiredString node ''display_name'') (\<lambda>d.
          map_option (\<lambda>es. \<lparr>ge_id = i, ge_display_name = d\<rparr> # es) (gen_parseExecutionsFrom (i # seen) nodes))))"

definition gen_parseExecutionConfig :: "yaml \<Rightarrow> gen_execution list option" where
  "gen_parseExecutionConfig root =
     (case yaml_get root ''executions'' of
        Some (YSequence nodes) \<Rightarrow>
          Option.bind (gen_parseExecutionsFrom [] nodes) (\<lambda>es. if es = [] then None else Some es)
      | _ \<Rightarrow> None)"

text \<open>The optional metadata of an entry: parent, description and detect block.\<close>

definition gen_parseMetadata ::
  "(string \<Rightarrow> int option) \<Rightarrow> yaml \<Rightarrow> (string option \<times> string \<times> gen_detect option) option" where
  "gen_parseMetadata as_int node =
     (case yaml_get node ''metadata'' of
        None \<Rightarrow> Some (None, [], None)
      | Some metadata \<Rightarrow>
          if \<not> (case metadata of YMap _ \<Rightarrow> True | _ \<Rightarrow> False) then None
          else if \<not> gen_expectKeys metadata [''description'', ''detect'', ''parent''] then None
          else
            Option.bind (gen_readOptionalString metadata ''parent'') (\<lambda>parent.
            Option.bind (gen_readOptionalString metadata ''description'') (\<lambda>desc.
            Option.bind (case yaml_get metadata ''detect'' of
                           None \<Rightarrow> Some None
                         | Some detect \<Rightarrow> gen_parseDetectSpec as_int detect) (\<lambda>detect.
            Some (parent, case desc of None \<Rightarrow> [] | Some d \<Rightarrow> d, detect)))))"

primrec gen_parseArchitecturesFrom ::
  "(string \<Rightarrow> int option) \<Rightarrow> string list \<Rightarrow> (string \<times> string) list \<Rightarrow> yaml list \<Rightarrow> gen_input list option" where
  "gen_parseArchitecturesFrom as_int valid seen [] = Some []"
| "gen_parseArchitecturesFrom as_int valid seen (node # nodes) =
     (if \<not> (case node of YMap _ \<Rightarrow> True | _ \<Rightarrow> False) then None
      else Option.bind (gen_readRequiredString node ''id'') (\<lambda>i.
       if \<not> gen_looksLikeIdentifier i then None
       else Option.bind (gen_readRequiredString node ''execution'') (\<lambda>e.
            if e \<notin> set valid then None
            else if (e, i) \<in> set seen then None
            else Option.bind (gen_readRequiredString node ''display_name'') (\<lambda>d.
                 Option.bind (gen_parseMetadata as_int node) (\<lambda>(parent, desc, detect).
                 map_option (\<lambda>as. \<lparr>gi_id = i, gi_execution_id = e, gi_display_name = d, gi_description = desc,
                     gi_parent = parent, gi_detect = detect\<rparr> # as)
                   (gen_parseArchitecturesFrom as_int valid ((e, i) # seen) nodes))))))"

definition gen_parseArchitectureConfig ::
  "(string \<Rightarrow> int option) \<Rightarrow> yaml \<Rightarrow> string list \<Rightarrow> gen_input list option" where
  "gen_parseArchitectureConfig as_int root valid =
     (case yaml_get root ''schema_version'' of
        Some (YScalar _) \<Rightarrow>
          (case yaml_get root ''architectures'' of
             Some (YSequence nodes) \<Rightarrow> gen_parseArchitecturesFrom as_int valid [] nodes
           | _ \<Rightarrow> None)
      | _ \<Rightarrow> None)"

section \<open>Resolution\<close>

record gen_resolved =
  gr_enum_name :: string
  gr_architecture_id :: string
  gr_execution_index :: nat
  gr_local_index :: u16
  gr_parent_id :: "string option"
  gr_display_name :: string
  gr_description :: string
  gr_detect :: "gen_detect option"

definition gen_isReserved :: "gen_execution \<Rightarrow> gen_input list \<Rightarrow> bool" where
  "gen_isReserved e entries \<longleftrightarrow>
     (\<exists>i \<in> set entries. map gen_toLower (gi_id i) = map gen_toLower (ge_id e @ ''Generic''))"

definition gen_generic :: "nat \<Rightarrow> gen_execution \<Rightarrow> gen_resolved" where
  "gen_generic ei e = \<lparr>gr_enum_name = ge_id e @ ''Generic'', gr_architecture_id = ge_id e @ ''Generic'',
     gr_execution_index = ei, gr_local_index = 0, gr_parent_id = None,
     gr_display_name = ''Generic '' @ ge_display_name e,
     gr_description = ''Execution-wide fallback architecture for '' @ ge_display_name e, gr_detect = None\<rparr>"

primrec gen_userEntries :: "nat \<Rightarrow> gen_execution \<Rightarrow> u16 \<Rightarrow> gen_input list \<Rightarrow> gen_resolved list" where
  "gen_userEntries ei e local_index [] = []"
| "gen_userEntries ei e local_index (x # xs) =
     \<lparr>gr_enum_name = ge_id e @ gi_id x, gr_architecture_id = gi_id x, gr_execution_index = ei,
      gr_local_index = local_index, gr_parent_id = gi_parent x,
      gr_display_name = gi_display_name x, gr_description = gi_description x, gr_detect = gi_detect x\<rparr> # gen_userEntries ei e (local_index + 1) xs"

text \<open>One round of the loop over the executions, on \<open>(resolved, offsets, counts)\<close>.\<close>

definition gen_resolveExecution ::
  "gen_input list \<Rightarrow> nat \<Rightarrow> gen_execution \<Rightarrow> gen_resolved list \<times> nat list \<times> nat list \<Rightarrow>
   (gen_resolved list \<times> nat list \<times> nat list) option" where
  "gen_resolveExecution architectures ei e = (\<lambda>(resolved, offsets, counts).
     let entries = filter (\<lambda>a. gi_execution_id a = ge_id e) architectures
     in if gen_isReserved e entries then None
        else Some (resolved @ gen_generic ei e # gen_userEntries ei e 1 entries,
                   offsets @ [length resolved], counts[ei := length entries + 1]))"

primrec gen_resolveExecutions ::
  "gen_input list \<Rightarrow> nat \<Rightarrow> gen_execution list \<Rightarrow> gen_resolved list \<times> nat list \<times> nat list \<Rightarrow>
   (gen_resolved list \<times> nat list \<times> nat list) option" where
  "gen_resolveExecutions architectures ei [] s =
     (case s of (resolved, offsets, counts) \<Rightarrow> Some (resolved, offsets @ [length resolved], counts))"
| "gen_resolveExecutions architectures ei (e # es) s =
     Option.bind (gen_resolveExecution architectures ei e s) (gen_resolveExecutions architectures (Suc ei) es)"

definition gen_kInvalidParent :: u16 where
  "gen_kInvalidParent = 0xFFFF"

definition gen_key :: "gen_execution list \<Rightarrow> gen_resolved \<Rightarrow> string" where
  "gen_key executions r = ge_id (executions ! gr_execution_index r) @ '':'' @ gr_architecture_id r"

text \<open>The index map; a later entry replaces an earlier one with the same key.\<close>

definition gen_globalIndex :: "gen_execution list \<Rightarrow> gen_resolved list \<Rightarrow> string \<Rightarrow> nat option" where
  "gen_globalIndex executions resolved =
     map_of (rev (zip (map (gen_key executions) resolved) [0..<length resolved]))"

definition gen_parentIndex ::
  "gen_execution list \<Rightarrow> gen_resolved list \<Rightarrow> gen_resolved \<Rightarrow> u16 option" where
  "gen_parentIndex executions resolved r =
     (if gr_local_index r = 0 then Some gen_kInvalidParent
      else case gr_parent_id r of
          None \<Rightarrow> None
        | Some p \<Rightarrow> map_option of_nat
            (gen_globalIndex executions resolved (ge_id (executions ! gr_execution_index r) @ '':'' @ p)))"

primrec gen_parentIndices ::
  "gen_execution list \<Rightarrow> gen_resolved list \<Rightarrow> gen_resolved list \<Rightarrow> u16 list option" where
  "gen_parentIndices executions resolved [] = Some []"
| "gen_parentIndices executions resolved (r # rs) =
     Option.bind (gen_parentIndex executions resolved r) (\<lambda>p.
     map_option ((#) p) (gen_parentIndices executions resolved rs))"

section \<open>Cycle check\<close>

datatype gen_state = Unvisited | Visiting | Visited

lemma cnt_mark:
  "i < length st \<Longrightarrow> st ! i = Unvisited \<Longrightarrow> cnt (\<lambda>s. s = Unvisited) (st[i := Visiting]) < cnt (\<lambda>s. s = Unvisited) st"
  using cnt_pos[of i st "\<lambda>s. s = Unvisited"] by (simp add: cnt_update)

function gen_detectCycle :: "u16 list \<Rightarrow> gen_state list \<Rightarrow> nat \<Rightarrow> gen_state list option" where
  "gen_detectCycle parents states i =
     (if i < length states
      then case states ! i of
          Visited \<Rightarrow> Some states
        | Visiting \<Rightarrow> None
        | Unvisited \<Rightarrow>
            let states' = states[i := Visiting]
            in map_option (\<lambda>st. st[i := Visited])
                 (if parents ! i \<noteq> gen_kInvalidParent then gen_detectCycle parents states' (unat (parents ! i))
                  else Some states')
      else None)"
  by pat_completeness auto
termination
  by (relation "measure (\<lambda>(ps, st, i). cnt (\<lambda>s. s = Unvisited) st)") (simp_all add: cnt_mark)

declare gen_detectCycle.simps [simp del]

definition gen_checkCycles :: "u16 list \<Rightarrow> gen_state list option" where
  "gen_checkCycles parents =
     foldl (\<lambda>st i. Option.bind st (\<lambda>st. gen_detectCycle parents st i)) (Some (replicate (length parents) Unvisited))
       [0..<length parents]"

section \<open>The tables\<close>

record arch_tables =
  at_execution_indices :: "u16 list"
  at_local_indices :: "u16 list"
  at_parent_indices :: "u16 list"
  at_execution_counts :: "nat list"
  at_execution_offsets :: "nat list"
  at_ids :: "string list"
  at_display_names :: "string list"
  at_descriptions :: "string list"
  at_detect_vendors :: "string list"
  at_detect_cpu_families :: "int list"
  at_detect_compute_caps :: "int list"
  at_detect_metal_families :: "string list"
  at_cpu_model_offsets :: "nat list"
  at_cpu_models :: "int list"
  at_feature_offsets :: "nat list"
  at_features :: "string list"
  at_machine_id_offsets :: "nat list"
  at_machine_ids :: "string list"

text \<open>
  The detection tables: one entry per architecture for the single values, and for the lists one
  concatenated table with the offset at which each architecture begins.
\<close>

primrec gen_offsets :: "nat \<Rightarrow> 'a list list \<Rightarrow> nat list" where
  "gen_offsets n [] = [n]"
| "gen_offsets n (xs # xss) = n # gen_offsets (n + length xs) xss"

definition gen_detectList :: "(gen_detect \<Rightarrow> 'a list) \<Rightarrow> gen_resolved list \<Rightarrow> 'a list list" where
  "gen_detectList f resolved = map (\<lambda>r. case gr_detect r of None \<Rightarrow> [] | Some d \<Rightarrow> f d) resolved"

definition gen_detectValue :: "(gen_detect \<Rightarrow> 'a option) \<Rightarrow> 'a \<Rightarrow> gen_resolved \<Rightarrow> 'a" where
  "gen_detectValue f x r = (case Option.bind (gr_detect r) f of None \<Rightarrow> x | Some y \<Rightarrow> y)"

definition gen_tables :: "gen_resolved list \<Rightarrow> nat list \<Rightarrow> nat list \<Rightarrow> u16 list \<Rightarrow> arch_tables" where
  "gen_tables resolved offsets counts parents =
     \<lparr>at_execution_indices = map (\<lambda>r. of_nat (gr_execution_index r)) resolved,
      at_local_indices = map gr_local_index resolved, at_parent_indices = parents,
      at_execution_counts = counts, at_execution_offsets = offsets,
      at_ids = map gr_architecture_id resolved, at_display_names = map gr_display_name resolved,
      at_descriptions = map gr_description resolved,
      at_detect_vendors = map (gen_detectValue (\<lambda>d. Some (ds_vendor d)) []) resolved,
      at_detect_cpu_families = map (gen_detectValue ds_family (- 1)) resolved,
      at_detect_compute_caps = map (gen_detectValue ds_compute_capability (- 1)) resolved,
      at_detect_metal_families = map (gen_detectValue ds_metal_family []) resolved,
      at_cpu_model_offsets = gen_offsets 0 (gen_detectList ds_models resolved),
      at_cpu_models = concat (gen_detectList ds_models resolved),
      at_feature_offsets = gen_offsets 0 (gen_detectList ds_features resolved),
      at_features = concat (gen_detectList ds_features resolved),
      at_machine_id_offsets = gen_offsets 0 (gen_detectList ds_machine_ids resolved),
      at_machine_ids = concat (gen_detectList ds_machine_ids resolved)\<rparr>"

definition gen_generateOutputs :: "gen_execution list \<Rightarrow> gen_input list \<Rightarrow> arch_tables option" where
  "gen_generateOutputs executions architectures =
     Option.bind (gen_resolveExecutions architectures 0 executions ([], [], replicate (length executions) 0))
       (\<lambda>(resolved, offsets, counts).
     if length resolved > 65535 then None
     else Option.bind (gen_parentIndices executions resolved resolved) (\<lambda>parents.
          Option.bind (gen_checkCycles parents) (\<lambda>_.
          Some (gen_tables resolved offsets counts parents))))"

definition gen_main :: "(string \<Rightarrow> int option) \<Rightarrow> yaml \<Rightarrow> yaml \<Rightarrow> arch_tables option" where
  "gen_main as_int architecture_yaml execution_yaml =
     Option.bind (gen_parseExecutionConfig execution_yaml) (\<lambda>executions.
     Option.bind (gen_parseArchitectureConfig as_int architecture_yaml (map ge_id executions)) (\<lambda>architectures.
     gen_generateOutputs executions architectures))"

end
