(* ===== verification/Architecture.thy ===== *)
theory Architecture
  imports ArchGen
begin

text \<open>
  \<open>architecture/architecture.h\<close>: queries on the generated tables and the fallback walk from an
  architecture to the generic one of its execution.  An architecture is its 16-bit enum value; an
  index past the end of a \<open>std::array\<close> is undefined behaviour, the exception value \<open>DanglingPointer\<close>.
  The walk may not end on arbitrary tables, so it is a partial function; on the tables of the
  generator it always ends.
\<close>

section \<open>Queries\<close>

definition ar_toIndex :: "u16 \<Rightarrow> nat" where
  "ar_toIndex arch = unat arch"

definition ar_fromIndex :: "nat \<Rightarrow> u16" where
  "ar_fromIndex i = of_nat i"

definition ar_isValidIndex :: "arch_tables \<Rightarrow> nat \<Rightarrow> bool" where
  "ar_isValidIndex T i \<longleftrightarrow> i < length (at_parent_indices T)"

definition ar_executionOf :: "arch_tables \<Rightarrow> u16 \<Rightarrow> u16 res" where
  "ar_executionOf T arch = ar_at (at_execution_indices T) (ar_toIndex arch)"

definition ar_localIndexOf :: "arch_tables \<Rightarrow> u16 \<Rightarrow> u16 res" where
  "ar_localIndexOf T arch = ar_at (at_local_indices T) (ar_toIndex arch)"

definition ar_isGeneric :: "arch_tables \<Rightarrow> u16 \<Rightarrow> bool res" where
  "ar_isGeneric T arch = bindR (ar_localIndexOf T arch) (\<lambda>l. Inr (l = 0))"

definition ar_idOf :: "arch_tables \<Rightarrow> u16 \<Rightarrow> string res" where
  "ar_idOf T arch = ar_at (at_ids T) (ar_toIndex arch)"

definition ar_displayNameOf :: "arch_tables \<Rightarrow> u16 \<Rightarrow> string res" where
  "ar_displayNameOf T arch = ar_at (at_display_names T) (ar_toIndex arch)"

definition ar_descriptionOf :: "arch_tables \<Rightarrow> u16 \<Rightarrow> string res" where
  "ar_descriptionOf T arch = ar_at (at_descriptions T) (ar_toIndex arch)"

definition ar_countForExecution :: "arch_tables \<Rightarrow> u16 \<Rightarrow> nat res" where
  "ar_countForExecution T e = ar_at (at_execution_counts T) (unat e)"

definition ar_offsetForExecution :: "arch_tables \<Rightarrow> u16 \<Rightarrow> nat res" where
  "ar_offsetForExecution T e = ar_at (at_execution_offsets T) (unat e)"

definition ar_hasLocalIndex :: "arch_tables \<Rightarrow> u16 \<Rightarrow> u16 \<Rightarrow> bool res" where
  "ar_hasLocalIndex T e l = bindR (ar_countForExecution T e) (\<lambda>c. Inr (unat l < c))"

definition ar_fromExecutionAndLocalIndex :: "arch_tables \<Rightarrow> u16 \<Rightarrow> u16 \<Rightarrow> u16 res" where
  "ar_fromExecutionAndLocalIndex T e l =
     bindR (ar_offsetForExecution T e) (\<lambda>offset. Inr (of_nat (offset + unat l)))"

definition ar_architecturesOf :: "arch_tables \<Rightarrow> u16 \<Rightarrow> u16 list res" where
  "ar_architecturesOf T e =
     bindR (ar_offsetForExecution T e) (\<lambda>offset.
     bindR (ar_countForExecution T e) (\<lambda>count. Inr (map of_nat [offset..<offset + count])))"

definition ar_parentIndexOf :: "arch_tables \<Rightarrow> u16 \<Rightarrow> u16 res" where
  "ar_parentIndexOf T arch = ar_at (at_parent_indices T) (ar_toIndex arch)"

definition ar_hasParent :: "arch_tables \<Rightarrow> u16 \<Rightarrow> bool res" where
  "ar_hasParent T arch = bindR (ar_parentIndexOf T arch) (\<lambda>p. Inr (p \<noteq> gen_kInvalidParent))"

definition ar_parentOf :: "arch_tables \<Rightarrow> u16 \<Rightarrow> u16 res" where
  "ar_parentOf T arch =
     bindR (ar_parentIndexOf T arch) (\<lambda>parent_idx.
     if parent_idx = gen_kInvalidParent then Inr arch else Inr (ar_fromIndex (unat parent_idx)))"

definition ar_genericOf :: "arch_tables \<Rightarrow> u16 \<Rightarrow> u16 res" where
  "ar_genericOf T arch = bindR (ar_executionOf T arch) (\<lambda>e. ar_fromExecutionAndLocalIndex T e 0)"

text \<open>
  The callback \<open>f\<close> works on a state and says whether to go on; a callback without a result always
  goes on.  \<open>None\<close>: the walk does not end.
\<close>

partial_function (option) ar_forEachFallback ::
  "arch_tables \<Rightarrow> (u16 \<Rightarrow> 's \<Rightarrow> bool \<times> 's) \<Rightarrow> u16 \<Rightarrow> 's \<Rightarrow> 's res option" where
  "ar_forEachFallback T f current s =
     (case f current s of (go, s') \<Rightarrow>
        if \<not> go then Some (Inr s')
        else case ar_hasParent T current of
            Inl e \<Rightarrow> Some (Inl e)
          | Inr has \<Rightarrow>
              if \<not> has then Some (Inr s')
              else case ar_parentOf T current of
                  Inl e \<Rightarrow> Some (Inl e)
                | Inr p \<Rightarrow> ar_forEachFallback T f p s')"

section \<open>What the generator guarantees\<close>

text \<open>A parent table without cycles: every index reaches an entry without a parent.\<close>

inductive ar_grounded :: "u16 list \<Rightarrow> nat \<Rightarrow> bool" for ps where
  ar_root: "i < length ps \<Longrightarrow> ps ! i = gen_kInvalidParent \<Longrightarrow> ar_grounded ps i"
| ar_step: "i < length ps \<Longrightarrow> ps ! i \<noteq> gen_kInvalidParent \<Longrightarrow> ar_grounded ps (unat (ps ! i)) \<Longrightarrow> ar_grounded ps i"

lemma gen_detectCycle_grounded:
  assumes "gen_detectCycle ps st i = Some st'" and "length st = length ps"
    and "\<And>j. j < length st \<Longrightarrow> st ! j = Visited \<Longrightarrow> ar_grounded ps j"
  shows "length st' = length ps \<and> ar_grounded ps i \<and>
    (\<forall>j < length st'. st' ! j = Visited \<longrightarrow> ar_grounded ps j)"
  using assms
proof (induction ps st i arbitrary: st' rule: gen_detectCycle.induct)
  case (1 ps st i)
  have i: "i < length st"
    using "1.prems"(1) by (subst (asm) gen_detectCycle.simps) (simp split: if_splits)
  have mark: "ar_grounded ps j" if "j < length (st[i := Visiting])" "st[i := Visiting] ! j = Visited" for j
    using that "1.prems"(3) i by (simp add: nth_list_update split: if_splits)
  consider (seen) "st ! i = Visited" "st' = st"
    | (root) "st ! i = Unvisited" "ps ! i = gen_kInvalidParent" "st' = st[i := Visiting, i := Visited]"
    | (step) st1 where "st ! i = Unvisited" "ps ! i \<noteq> gen_kInvalidParent"
        "gen_detectCycle ps (st[i := Visiting]) (unat (ps ! i)) = Some st1" "st' = st1[i := Visited]"
    using "1.prems"(1) i
    by (subst (asm) gen_detectCycle.simps) (auto simp: Let_def split: gen_state.splits if_splits)
  then show ?case
  proof cases
    case seen
    with "1.prems" i show ?thesis by simp
  next
    case root
    then have "ar_grounded ps i"
      using i "1.prems"(2) by (intro ar_root) simp_all
    with root "1.prems" i show ?thesis by (auto simp: nth_list_update)
  next
    case step
    have "length st1 = length ps \<and> ar_grounded ps (unat (ps ! i)) \<and>
      (\<forall>j < length st1. st1 ! j = Visited \<longrightarrow> ar_grounded ps j)"
      by (rule "1.IH"[OF i step(1) refl step(2,3)]) (use "1.prems"(2) mark in auto)
    then show ?thesis
      using step i "1.prems"(2) ar_step[of i ps] by (auto simp: nth_list_update)
  qed
qed

lemma gen_checkCycles_grounded:
  assumes "gen_checkCycles ps = Some st" and "i < length ps"
  shows "ar_grounded ps i"
proof -
  let ?step = "\<lambda>st i. Option.bind st (\<lambda>st. gen_detectCycle ps st i)"
  have "length st' = length ps \<and> (\<forall>j < length st'. st' ! j = Visited \<longrightarrow> ar_grounded ps j) \<and>
      (\<forall>j < n. ar_grounded ps j)"
    if "foldl ?step (Some (replicate (length ps) Unvisited)) [0..<n] = Some st'" for n st'
    using that
  proof (induction n arbitrary: st')
    case (Suc n)
    then obtain st1 where st1: "foldl ?step (Some (replicate (length ps) Unvisited)) [0..<n] = Some st1"
      "gen_detectCycle ps st1 n = Some st'"
      by (auto simp: bind_eq_Some_conv)
    with Suc.IH[OF st1(1)] gen_detectCycle_grounded[OF st1(2)] show ?case
      by (auto simp: less_Suc_eq)
  qed auto
  from this[of "length ps"] assms show ?thesis
    by (auto simp: gen_checkCycles_def)
qed


lemma gen_userEntries_length [simp]: "length (gen_userEntries ei e l xs) = length xs"
  by (induction xs arbitrary: l) auto

lemma gen_userEntries_nth:
  "j < length xs \<Longrightarrow> gr_execution_index (gen_userEntries ei e l xs ! j) = ei \<and>
   gr_local_index (gen_userEntries ei e l xs ! j) = l + of_nat j"
  by (induction xs arbitrary: l j) (auto simp: nth_Cons' less_Suc_eq_0_disj)

text \<open>Every entry sits at its execution's offset plus its local index.\<close>

definition gen_placed :: "nat \<Rightarrow> gen_resolved list \<Rightarrow> nat list \<Rightarrow> nat list \<Rightarrow> bool" where
  "gen_placed ei resolved offsets counts \<longleftrightarrow>
     ei \<le> length offsets \<and> ei \<le> length counts \<and>
     (\<forall>i < length resolved. gr_execution_index (resolved ! i) < ei \<and>
        i = offsets ! gr_execution_index (resolved ! i) + unat (gr_local_index (resolved ! i)) \<and>
        unat (gr_local_index (resolved ! i)) < counts ! gr_execution_index (resolved ! i)) \<and>
     (\<forall>e < ei. offsets ! e + counts ! e \<le> length resolved \<and> 0 < counts ! e \<and>
        (\<forall>l < counts ! e. gr_execution_index (resolved ! (offsets ! e + l)) = e))"

lemma gen_placed_block:
  assumes "gen_placed ei resolved offsets counts" and "length offsets = ei" and "ei < length counts"
    and "length resolved + length xs < 65535"
  shows "gen_placed (Suc ei) (resolved @ gen_generic ei e # gen_userEntries ei e 1 xs)
    (offsets @ [length resolved]) (counts[ei := length xs + 1])"
proof -
  let ?block = "gen_generic ei e # gen_userEntries ei e 1 xs"
  have block: "gr_execution_index (?block ! j) = ei" "unat (gr_local_index (?block ! j)) = j"
    if "j < length xs + 1" for j
  proof -
    have "gr_execution_index (?block ! j) = ei \<and> gr_local_index (?block ! j) = of_nat j"
      using that gen_userEntries_nth[of "j - 1" xs ei e 1] by (cases j) (auto simp: gen_generic_def)
    moreover have "unat (of_nat j :: u16) = j"
      using that assms(4) by (simp add: unsigned_of_nat take_bit_nat_eq_self)
    ultimately show "gr_execution_index (?block ! j) = ei" "unat (gr_local_index (?block ! j)) = j"
      by auto
  qed
  show ?thesis
    unfolding gen_placed_def
  proof (intro conjI allI impI)
    fix i
    assume i: "i < length (resolved @ ?block)"
    let ?r = "(resolved @ ?block) ! i"
    have "gr_execution_index ?r < Suc ei \<and> i = (offsets @ [length resolved]) ! gr_execution_index ?r + unat (gr_local_index ?r) \<and>
        unat (gr_local_index ?r) < (counts[ei := length xs + 1]) ! gr_execution_index ?r"
    proof (cases "i < length resolved")
      case True
      with assms show ?thesis by (force simp: gen_placed_def nth_append)
    next
      case False
      then obtain j where "i = length resolved + j" "j < length xs + 1"
        using i by (auto simp: not_less le_iff_add)
      with block[of j] assms(2,3) show ?thesis by (simp add: nth_append)
    qed
    then show "gr_execution_index ?r < Suc ei" "i = (offsets @ [length resolved]) ! gr_execution_index ?r + unat (gr_local_index ?r)"
      "unat (gr_local_index ?r) < (counts[ei := length xs + 1]) ! gr_execution_index ?r"
      by auto
  next
    fix k
    assume k: "k < Suc ei"
    have "(offsets @ [length resolved]) ! k + (counts[ei := length xs + 1]) ! k \<le> length (resolved @ ?block) \<and>
        0 < (counts[ei := length xs + 1]) ! k \<and>
        (\<forall>l < (counts[ei := length xs + 1]) ! k. gr_execution_index ((resolved @ ?block) ! ((offsets @ [length resolved]) ! k + l)) = k)"
    proof (cases "k = ei")
      case True
      with assms(2,3) block(1) show ?thesis by (simp add: nth_append)
    next
      case False
      with k have "k < ei" by simp
      with assms show ?thesis by (fastforce simp: gen_placed_def nth_append)
    qed
    then show "(offsets @ [length resolved]) ! k + (counts[ei := length xs + 1]) ! k \<le> length (resolved @ ?block)"
      "0 < (counts[ei := length xs + 1]) ! k"
      "l < (counts[ei := length xs + 1]) ! k \<Longrightarrow>
        gr_execution_index ((resolved @ ?block) ! ((offsets @ [length resolved]) ! k + l)) = k" for l
      by auto
  qed (use assms in auto)
qed

lemma gen_resolveExecutions_grows:
  "gen_resolveExecutions as ei es (resolved, offsets, counts) = Some (resolved', offsets', counts') \<Longrightarrow>
   length resolved \<le> length resolved'"
  by (induction es arbitrary: ei resolved offsets counts)
    (fastforce simp: gen_resolveExecution_def Let_def bind_eq_Some_conv split: if_splits)+

lemma gen_resolveExecutions_placed:
  assumes "gen_resolveExecutions as ei es (resolved, offsets, counts) = Some (resolved', offsets', counts')"
    and "gen_placed ei resolved offsets counts" and "length offsets = ei" and "length counts = ei + length es"
    and "length resolved' \<le> 65535"
  shows "gen_placed (ei + length es) resolved' offsets' counts' \<and> length offsets' = Suc (ei + length es) \<and>
    length counts' = ei + length es"
  using assms
proof (induction es arbitrary: ei resolved offsets counts)
  case Nil
  then show ?case by (auto simp: gen_placed_def nth_append)
next
  case (Cons e es)
  let ?xs = "filter (\<lambda>a. gi_execution_id a = ge_id e) as"
  have step: "gen_resolveExecutions as (Suc ei) es
      (resolved @ gen_generic ei e # gen_userEntries ei e 1 ?xs, offsets @ [length resolved], counts[ei := length ?xs + 1])
    = Some (resolved', offsets', counts')"
    using Cons.prems(1) by (auto simp: gen_resolveExecution_def Let_def split: if_splits)
  have "length resolved + length ?xs < 65535"
    using gen_resolveExecutions_grows[OF step] Cons.prems(5) by simp
  then have "gen_placed (Suc ei) (resolved @ gen_generic ei e # gen_userEntries ei e 1 ?xs)
      (offsets @ [length resolved]) (counts[ei := length ?xs + 1])"
    using Cons.prems(2-4) by (intro gen_placed_block) auto
  from Cons.IH[OF step this] Cons.prems(3-5) show ?case
    by simp
qed


lemma gen_parseExecutionsFrom_ids:
  "gen_parseExecutionsFrom seen nodes = Some es \<Longrightarrow>
   distinct (map ge_id es) \<and> set (map ge_id es) \<inter> set seen = {} \<and> (\<forall>e \<in> set es. gen_looksLikeIdentifier (ge_id e))"
proof (induction nodes arbitrary: seen es)
  case (Cons node nodes)
  then obtain i d es' where e: "es = \<lparr>ge_id = i, ge_display_name = d\<rparr> # es'" "gen_looksLikeIdentifier i" "i \<notin> set seen"
    "gen_parseExecutionsFrom (i # seen) nodes = Some es'"
    by (auto simp: bind_eq_Some_conv split: if_splits)
  with Cons.IH[OF e(4)] show ?case by auto
qed simp

lemma gen_parseExecutionConfig_ids:
  "gen_parseExecutionConfig root = Some es \<Longrightarrow>
   distinct (map ge_id es) \<and> (\<forall>e \<in> set es. gen_looksLikeIdentifier (ge_id e)) \<and> es \<noteq> []"
  using gen_parseExecutionsFrom_ids[of "[]"]
  by (fastforce simp: gen_parseExecutionConfig_def bind_eq_Some_conv split: if_splits option.splits yaml.splits)

lemma gen_identifier_no_colon: "gen_looksLikeIdentifier s \<Longrightarrow> CHR '':'' \<notin> set s"
  by (auto simp: gen_looksLikeIdentifier_def gen_isAlnum_def gen_isAlpha_def Let_def)

lemma append_sep_eq:
  "c \<notin> set xs \<Longrightarrow> c \<notin> set ys \<Longrightarrow> xs @ c # us = ys @ c # vs \<Longrightarrow> xs = ys"
  by (induction xs arbitrary: ys) (auto simp: Cons_eq_append_conv append_eq_Cons_conv)

text \<open>The tables as the queries need them.\<close>

definition arch_ok :: "arch_tables \<Rightarrow> bool" where
  "arch_ok T \<longleftrightarrow>
     (let n = length (at_parent_indices T) in
      n \<le> 65535 \<and> length (at_execution_indices T) = n \<and> length (at_local_indices T) = n \<and>
      length (at_execution_offsets T) = Suc (length (at_execution_counts T)) \<and>
      length (at_execution_counts T) \<le> n \<and>
      (\<forall>i < n. ar_grounded (at_parent_indices T) i \<and>
         (at_parent_indices T ! i = gen_kInvalidParent \<longleftrightarrow> at_local_indices T ! i = 0) \<and>
         (at_parent_indices T ! i \<noteq> gen_kInvalidParent \<longrightarrow>
            at_execution_indices T ! unat (at_parent_indices T ! i) = at_execution_indices T ! i) \<and>
         unat (at_execution_indices T ! i) < length (at_execution_counts T) \<and>
         i = at_execution_offsets T ! unat (at_execution_indices T ! i) + unat (at_local_indices T ! i) \<and>
         unat (at_local_indices T ! i) < at_execution_counts T ! unat (at_execution_indices T ! i)) \<and>
      (\<forall>e < length (at_execution_counts T). 0 < at_execution_counts T ! e \<and>
         at_execution_offsets T ! e + at_execution_counts T ! e \<le> n \<and>
         (\<forall>l < at_execution_counts T ! e.
            at_execution_indices T ! (at_execution_offsets T ! e + l) = of_nat e)))"

lemma gen_parentIndices_nth:
  "gen_parentIndices es resolved rs = Some ps \<Longrightarrow>
   length ps = length rs \<and> (\<forall>i < length rs. gen_parentIndex es resolved (rs ! i) = Some (ps ! i))"
proof (induction rs arbitrary: ps)
  case (Cons r rs)
  then show ?case by (fastforce simp: bind_eq_Some_conv nth_Cons' less_Suc_eq_0_disj)
qed simp

lemma gen_parentIndex_cases:
  assumes p: "gen_parentIndex es resolved r = Some p" and len: "length resolved \<le> 65535"
    and ids: "distinct (map ge_id es)" "\<And>e. e \<in> set es \<Longrightarrow> CHR '':'' \<notin> set (ge_id e)"
    and idx: "\<And>r. r \<in> set resolved \<Longrightarrow> gr_execution_index r < length es" and r: "gr_execution_index r < length es"
  shows "(p = gen_kInvalidParent \<longleftrightarrow> gr_local_index r = 0) \<and>
    (p \<noteq> gen_kInvalidParent \<longrightarrow> unat p < length resolved \<and>
       gr_execution_index (resolved ! unat p) = gr_execution_index r)"
proof (cases "gr_local_index r = 0")
  case True
  with p show ?thesis by (simp add: gen_parentIndex_def)
next
  case False
  then obtain par j where j: "gr_parent_id r = Some par" "p = of_nat j"
    "gen_globalIndex es resolved (ge_id (es ! gr_execution_index r) @ '':'' @ par) = Some j"
    using p by (auto simp: gen_parentIndex_def split: option.splits)
  then have "(ge_id (es ! gr_execution_index r) @ '':'' @ par, j) \<in>
      set (zip (map (gen_key es) resolved) [0..<length resolved])"
    using map_of_SomeD[OF j(3)[unfolded gen_globalIndex_def]] by simp
  then have jl: "j < length resolved" "gen_key es (resolved ! j) = ge_id (es ! gr_execution_index r) @ '':'' @ par"
    by (auto simp: set_zip)
  let ?e = "gr_execution_index (resolved ! j)"
  have e: "?e < length es"
    using idx jl(1) by simp
  have "ge_id (es ! ?e) = ge_id (es ! gr_execution_index r)"
    by (rule append_sep_eq[of "CHR '':''" _ _ "gr_architecture_id (resolved ! j)" par])
      (use jl(2) ids(2) e r in \<open>simp_all add: gen_key_def\<close>)
  then have same: "?e = gr_execution_index r"
    using nth_eq_iff_index_eq[OF ids(1), of ?e "gr_execution_index r"] e r by simp
  have up: "unat p = j"
    unfolding j(2) using jl(1) len by (simp add: unsigned_of_nat take_bit_nat_eq_self)
  moreover have "p \<noteq> gen_kInvalidParent"
  proof
    assume "p = gen_kInvalidParent"
    then have "unat p = 65535"
      by (simp add: gen_kInvalidParent_def)
    with up jl(1) len show False by simp
  qed
  ultimately show ?thesis
    using False jl(1) same by (simp only: up) simp
qed

lemma gen_placedD:
  assumes "gen_placed n resolved offsets counts" and "e < n"
  shows "offsets ! e + counts ! e \<le> length resolved" and "0 < counts ! e"
    and "l < counts ! e \<Longrightarrow> gr_execution_index (resolved ! (offsets ! e + l)) = e"
  using assms by (simp_all add: gen_placed_def)

lemma gen_main_ok:
  assumes "gen_main as_int architecture_yaml execution_yaml = Some T"
  shows "arch_ok T"
proof -
  obtain es as where es: "gen_parseExecutionConfig execution_yaml = Some es" "gen_generateOutputs es as = Some T"
    using assms by (auto simp: gen_main_def bind_eq_Some_conv)
  note ids = gen_parseExecutionConfig_ids[OF es(1)]
  obtain resolved offsets counts parents st where
    res: "gen_resolveExecutions as 0 es ([], [], replicate (length es) 0) = Some (resolved, offsets, counts)"
    and len: "length resolved \<le> 65535" and ps: "gen_parentIndices es resolved resolved = Some parents"
    and cyc: "gen_checkCycles parents = Some st"
    and T: "T = gen_tables resolved offsets counts parents"
    using es(2) by (auto simp: gen_generateOutputs_def bind_eq_Some_conv not_less split: if_splits)
  have placed: "gen_placed (length es) resolved offsets counts" "length offsets = Suc (length es)" "length counts = length es"
    using gen_resolveExecutions_placed[OF res _ _ _ len] by (auto simp: gen_placed_def)
  have plen: "length parents = length resolved"
    and pidx: "\<And>i. i < length resolved \<Longrightarrow> gen_parentIndex es resolved (resolved ! i) = Some (parents ! i)"
    using gen_parentIndices_nth[OF ps] by auto
  have exec: "gr_execution_index r < length es" if "r \<in> set resolved" for r
    using that placed(1) by (auto simp: gen_placed_def in_set_conv_nth)
  have le: "length es \<le> length resolved"
  proof -
    have inj: "inj_on (\<lambda>e. offsets ! e) {..<length es}"
    proof (rule inj_onI)
      fix e e'
      assume e: "e \<in> {..<length es}" "e' \<in> {..<length es}" "offsets ! e = offsets ! e'"
      have "gr_execution_index (resolved ! (offsets ! x)) = x" if "x < length es" for x
        using gen_placedD(2)[OF placed(1) that] gen_placedD(3)[OF placed(1) that, of 0] by (metis add.right_neutral)
      from this[of e] this[of e'] e show "e = e'" by (metis lessThan_iff)
    qed
    have "(\<lambda>e. offsets ! e) ` {..<length es} \<subseteq> {..<length resolved}"
    proof (rule image_subsetI)
      fix e
      assume "e \<in> {..<length es}"
      then have "offsets ! e + counts ! e \<le> length resolved" "0 < counts ! e"
        using gen_placedD[OF placed(1)] by simp_all
      then show "offsets ! e \<in> {..<length resolved}" by simp
    qed
    from card_inj_on_le[OF inj this] show ?thesis by simp
  qed
  have u: "unat (of_nat e :: u16) = e" if "e < length es" for e
    using that le len by (simp add: unsigned_of_nat take_bit_nat_eq_self)
  have par: "(parents ! i = gen_kInvalidParent \<longleftrightarrow> gr_local_index (resolved ! i) = 0) \<and>
      (parents ! i \<noteq> gen_kInvalidParent \<longrightarrow> unat (parents ! i) < length resolved \<and>
        gr_execution_index (resolved ! unat (parents ! i)) = gr_execution_index (resolved ! i))"
    if "i < length resolved" for i
    by (rule gen_parentIndex_cases[OF pidx[OF that] len])
      (use ids gen_identifier_no_colon exec that in auto)
  show ?thesis
    unfolding arch_ok_def Let_def T gen_tables_def
  proof (simp add: plen len le placed(2,3), intro conjI allI impI, goal_cases)
    case (1 i)
    then show ?case using gen_checkCycles_grounded[OF cyc] plen by simp
  next
    case (2 i)
    then show ?case using par[of i] by simp
  next
    case (3 i)
    then show ?case using par[of i] by simp
  next
    case (4 i)
    then show ?case using u exec by simp
  next
    case (5 i)
    then show ?case using placed(1) u exec by (simp add: gen_placed_def)
  next
    case (6 i)
    then show ?case using placed(1) u exec by (simp add: gen_placed_def)
  next
    case (7 e)
    then show ?case using placed(1) by (simp add: gen_placed_def)
  next
    case (8 e)
    then show ?case using placed(1) by (simp add: gen_placed_def)
  next
    case (9 e l)
    then have "offsets ! e + counts ! e \<le> length resolved" "gr_execution_index (resolved ! (offsets ! e + l)) = e"
      using gen_placedD[OF placed(1)] by simp_all
    with 9 show ?case by simp
  qed
qed


section \<open>The fallback walk on generated tables\<close>

lemma arch_okD:
  assumes "arch_ok T" and "i < length (at_parent_indices T)"
  shows "ar_grounded (at_parent_indices T) i"
    and "at_parent_indices T ! i = gen_kInvalidParent \<longleftrightarrow> at_local_indices T ! i = 0"
    and "at_parent_indices T ! i \<noteq> gen_kInvalidParent \<Longrightarrow>
      at_execution_indices T ! unat (at_parent_indices T ! i) = at_execution_indices T ! i"
    and "unat (at_execution_indices T ! i) < length (at_execution_counts T)"
    and "i = at_execution_offsets T ! unat (at_execution_indices T ! i) + unat (at_local_indices T ! i)"
    and "unat (at_local_indices T ! i) < at_execution_counts T ! unat (at_execution_indices T ! i)"
    and "length (at_execution_indices T) = length (at_parent_indices T)"
    and "length (at_local_indices T) = length (at_parent_indices T)"
    and "length (at_execution_offsets T) = Suc (length (at_execution_counts T))"
    and "length (at_parent_indices T) \<le> 65535"
  using assms by (simp_all add: arch_ok_def Let_def)

lemma arch_ok_execD:
  assumes "arch_ok T" and "e < length (at_execution_counts T)"
  shows "at_execution_offsets T ! e + at_execution_counts T ! e \<le> length (at_parent_indices T)"
    and "0 < at_execution_counts T ! e"
    and "l < at_execution_counts T ! e \<Longrightarrow> at_execution_indices T ! (at_execution_offsets T ! e + l) = of_nat e"
  using assms by (simp_all add: arch_ok_def Let_def)

lemma arch_ok_counts: "arch_ok T \<Longrightarrow> length (at_execution_counts T) \<le> 65535"
  unfolding arch_ok_def Let_def by linarith

text \<open>The chain from an architecture to its generic one, and a callback run along a list.\<close>

definition ar_isFallbackChain :: "arch_tables \<Rightarrow> u16 \<Rightarrow> u16 list \<Rightarrow> bool" where
  "ar_isFallbackChain T arch chain \<longleftrightarrow>
     chain \<noteq> [] \<and> hd chain = arch \<and> ar_isGeneric T (last chain) = Inr True \<and>
     ar_genericOf T arch = Inr (last chain) \<and>
     (\<forall>b \<in> set chain. ar_executionOf T b = ar_executionOf T arch) \<and>
     (\<forall>i. Suc i < length chain \<longrightarrow> ar_hasParent T (chain ! i) = Inr True \<and> ar_parentOf T (chain ! i) = Inr (chain ! Suc i))"

primrec ar_visit :: "(u16 \<Rightarrow> 's \<Rightarrow> bool \<times> 's) \<Rightarrow> u16 list \<Rightarrow> 's \<Rightarrow> 's" where
  "ar_visit f [] s = s"
| "ar_visit f (a # as) s = (case f a s of (go, s') \<Rightarrow> if go then ar_visit f as s' else s')"

lemma word_of_unat: "of_nat (unat x) = x"
  by simp

lemma ar_queries:
  assumes ok: "arch_ok T" and i: "unat a < length (at_parent_indices T)"
  shows "ar_hasParent T a = Inr (at_parent_indices T ! unat a \<noteq> gen_kInvalidParent)"
    and "ar_parentOf T a = Inr (if at_parent_indices T ! unat a = gen_kInvalidParent then a else at_parent_indices T ! unat a)"
    and "ar_isGeneric T a = Inr (at_parent_indices T ! unat a = gen_kInvalidParent)"
    and "ar_executionOf T a = Inr (at_execution_indices T ! unat a)"
    and "ar_localIndexOf T a = Inr (at_local_indices T ! unat a)"
    and "at_parent_indices T ! unat a = gen_kInvalidParent \<Longrightarrow> ar_genericOf T a = Inr a"
  using arch_okD[OF ok i] i
  by (simp_all add: ar_hasParent_def ar_parentOf_def ar_isGeneric_def ar_executionOf_def ar_localIndexOf_def
      ar_genericOf_def ar_fromExecutionAndLocalIndex_def ar_offsetForExecution_def ar_parentIndexOf_def ar_at_def
      ar_toIndex_def ar_fromIndex_def)

lemma ar_genericOf_execution:
  "ar_executionOf T a = ar_executionOf T b \<Longrightarrow> ar_genericOf T a = ar_genericOf T b"
  by (simp add: ar_genericOf_def)

lemma ar_forEachFallback_chain:
  assumes ok: "arch_ok T" and "ar_grounded (at_parent_indices T) i" and "i = unat a"
  shows "\<exists>chain. ar_isFallbackChain T a chain \<and>
    (\<forall>f (s::'s). ar_forEachFallback T f a s = Some (Inr (ar_visit f chain s)))"
  using assms(2,3)
proof (induction arbitrary: a rule: ar_grounded.induct)
  case (ar_root i)
  then have i: "unat a < length (at_parent_indices T)" by simp
  note q = ar_queries[OF ok i]
  have "ar_forEachFallback T f a s = Some (Inr (ar_visit f [a] s))" for f and s :: 's
    using q ar_root by (subst ar_forEachFallback.simps) (simp split: prod.split)
  moreover have "ar_isFallbackChain T a [a]"
    using q ar_root by (simp add: ar_isFallbackChain_def)
  ultimately show ?case by blast
next
  case (ar_step i)
  let ?p = "at_parent_indices T ! unat a"
  from ar_step have i: "unat a < length (at_parent_indices T)" by simp
  note q = ar_queries[OF ok i]
  obtain chain where chain: "ar_isFallbackChain T ?p chain"
    "\<And>f (s::'s). ar_forEachFallback T f ?p s = Some (Inr (ar_visit f chain s))"
    using ar_step.IH[of ?p] unfolding ar_step.prems by blast
  have "unat ?p < length (at_parent_indices T)"
    using ar_step.hyps(3) ar_step.prems by (auto elim: ar_grounded.cases)
  then have exec: "ar_executionOf T ?p = ar_executionOf T a"
    using ar_queries(4)[OF ok] q(4) arch_okD(3)[OF ok i] ar_step by simp
  have "ar_forEachFallback T f a s = Some (Inr (ar_visit f (a # chain) s))" for f and s :: 's
    using q ar_step by (subst ar_forEachFallback.simps) (simp add: chain(2) split: prod.split)
  moreover have "ar_isFallbackChain T a (a # chain)"
    using chain(1) q ar_step exec ar_genericOf_execution[OF exec]
    by (auto simp: ar_isFallbackChain_def nth_Cons' hd_conv_nth)
  ultimately show ?case by blast
qed

text \<open>
  C20: the fallback walk ends on every table the generator writes.  For any execution and architecture
  lists the generator accepts and every architecture of its tables, \<open>forEachFallback\<close> returns: there is
  a chain that starts at the architecture, goes from parent to parent within one execution and ends at
  that execution's generic entry, and the callback runs along exactly this chain, in order, until it
  returns false.
\<close>

theorem ar_fallback_terminates:
  assumes "gen_main as_int architecture_yaml execution_yaml = Some T" and "ar_isValidIndex T (ar_toIndex arch)"
  shows "\<exists>chain. ar_isFallbackChain T arch chain \<and>
    (\<forall>f s. ar_forEachFallback T f arch s = Some (Inr (ar_visit f chain s)))"
  using ar_forEachFallback_chain[OF gen_main_ok[OF assms(1)] arch_okD(1)[OF gen_main_ok[OF assms(1)]] refl] assms(2)
  by (simp add: ar_isValidIndex_def ar_toIndex_def)

text \<open>The first entries of \<open>configs/architecture/architectures.yml\<close>, and a reader of digits.\<close>

definition gen_ex_executions :: yaml where
  "gen_ex_executions = YMap [(YScalar ''executions'', YSequence
     [YMap [(YScalar ''id'', YScalar ''Cpu''), (YScalar ''display_name'', YScalar ''CPU'')],
      YMap [(YScalar ''id'', YScalar ''Cuda''), (YScalar ''display_name'', YScalar ''CUDA'')]])]"

definition gen_ex_entry :: "string \<Rightarrow> string \<Rightarrow> string \<Rightarrow> (string \<times> yaml) list \<Rightarrow> yaml" where
  "gen_ex_entry i e par detect = YMap
     [(YScalar ''id'', YScalar i), (YScalar ''execution'', YScalar e), (YScalar ''display_name'', YScalar i),
      (YScalar ''metadata'', YMap [(YScalar ''parent'', YScalar par),
         (YScalar ''detect'', YMap (map (\<lambda>(k, x). (YScalar k, x)) detect))])]"

definition gen_ex_architectures :: yaml where
  "gen_ex_architectures = YMap [(YScalar ''schema_version'', YScalar ''1.0''), (YScalar ''architectures'', YSequence
     [gen_ex_entry ''Sm80'' ''Cuda'' ''CudaGeneric'' [(''vendor'', YScalar ''nvidia''), (''compute_capability'', YScalar ''80'')],
      gen_ex_entry ''Sm86'' ''Cuda'' ''Sm80'' [(''vendor'', YScalar ''nvidia''), (''compute_capability'', YScalar ''86'')],
      gen_ex_entry ''Zen4'' ''Cpu'' ''CpuGeneric''
        [(''vendor'', YScalar ''amd''), (''family'', YScalar ''25''), (''features'', YSequence [YScalar ''avx512''])]])]"

definition gen_ex_as_int :: "string \<Rightarrow> int option" where
  "gen_ex_as_int s =
     foldl (\<lambda>n c. Option.bind n (\<lambda>n. let d = of_char c - 48 in if 0 \<le> d \<and> d \<le> 9 then Some (10 * n + d) else None))
       (Some 0) s"

definition gen_ex_tables :: arch_tables where
  "gen_ex_tables = \<lparr>at_execution_indices = [0, 0, 1, 1, 1], at_local_indices = [0, 1, 0, 1, 2],
     at_parent_indices = [0xFFFF, 0, 0xFFFF, 2, 3], at_execution_counts = [2, 3], at_execution_offsets = [0, 2, 5],
     at_ids = [''CpuGeneric'', ''Zen4'', ''CudaGeneric'', ''Sm80'', ''Sm86''],
     at_display_names = [''Generic CPU'', ''Zen4'', ''Generic CUDA'', ''Sm80'', ''Sm86''],
     at_descriptions = [''Execution-wide fallback architecture for CPU'', [],
       ''Execution-wide fallback architecture for CUDA'', [], []],
     at_detect_vendors = [[], ''amd'', [], ''nvidia'', ''nvidia''], at_detect_cpu_families = [- 1, 25, - 1, - 1, - 1],
     at_detect_compute_caps = [- 1, - 1, - 1, 80, 86], at_detect_metal_families = [[], [], [], [], []],
     at_cpu_model_offsets = [0, 0, 0, 0, 0, 0], at_cpu_models = [],
     at_feature_offsets = [0, 0, 1, 1, 1, 1], at_features = [''avx512''],
     at_machine_id_offsets = [0, 0, 0, 0, 0, 0], at_machine_ids = []\<rparr>"

lemma gen_ex_main: "gen_main gen_ex_as_int gen_ex_architectures gen_ex_executions = Some gen_ex_tables"
  by code_simp

theorem ar_fallback_terminates_witness:
  "\<exists>chain. ar_isFallbackChain gen_ex_tables 4 chain \<and>
    (\<forall>f (s :: u16 list). ar_forEachFallback gen_ex_tables f 4 s = Some (Inr (ar_visit f chain s)))"
  by (rule ar_fallback_terminates[OF gen_ex_main]) code_simp

text \<open>
  C22: the enum, the tables and the per-execution ranges agree.  On every generated table an
  architecture is rebuilt from its execution and local index, its local index is in range, it is
  generic exactly if it has no parent, its parent has the same execution, and \<open>architecturesOf\<close> its
  execution lists it.
\<close>

theorem ar_indices_roundtrip:
  assumes "gen_main as_int architecture_yaml execution_yaml = Some T" and "ar_isValidIndex T (ar_toIndex arch)"
  shows "\<exists>e l g p as. ar_executionOf T arch = Inr e \<and> ar_localIndexOf T arch = Inr l \<and>
    ar_fromExecutionAndLocalIndex T e l = Inr arch \<and> ar_hasLocalIndex T e l = Inr True \<and>
    ar_isGeneric T arch = Inr g \<and> ar_hasParent T arch = Inr (\<not> g) \<and>
    ar_parentOf T arch = Inr p \<and> ar_executionOf T p = Inr e \<and> ar_architecturesOf T e = Inr as \<and> arch \<in> set as"
proof -
  note ok = gen_main_ok[OF assms(1)]
  have i: "unat arch < length (at_parent_indices T)"
    using assms(2) by (simp add: ar_isValidIndex_def ar_toIndex_def)
  note D = arch_okD[OF ok i] and q = ar_queries[OF ok i]
  let ?e = "at_execution_indices T ! unat arch" and ?l = "at_local_indices T ! unat arch"
  let ?p = "at_parent_indices T ! unat arch"
  have "?p \<noteq> gen_kInvalidParent \<Longrightarrow> unat ?p < length (at_parent_indices T)"
    using D(1) by (auto elim: ar_grounded.cases)
  then have parent: "\<exists>p. ar_parentOf T arch = Inr p \<and> ar_executionOf T p = Inr ?e"
    using q(2,4) D(3) ar_queries(4)[OF ok, of ?p] by auto
  have "unat arch \<in> {at_execution_offsets T ! unat ?e..<at_execution_offsets T ! unat ?e + at_execution_counts T ! unat ?e}"
    using D(5,6) by simp
  then have "arch \<in> of_nat ` {at_execution_offsets T ! unat ?e..<at_execution_offsets T ! unat ?e + at_execution_counts T ! unat ?e}"
    by (metis image_eqI word_of_unat)
  moreover have "of_nat (at_execution_offsets T ! unat ?e + unat ?l) = arch"
    using D(5) by (metis word_of_unat)
  ultimately show ?thesis
    using parent q(1,3,4,5) D(4,6,9)
    by (auto simp: ar_fromExecutionAndLocalIndex_def ar_hasLocalIndex_def ar_architecturesOf_def
        ar_offsetForExecution_def ar_countForExecution_def ar_at_def)
qed

theorem ar_indices_roundtrip_witness:
  "\<exists>e l. ar_executionOf gen_ex_tables 4 = Inr e \<and> ar_localIndexOf gen_ex_tables 4 = Inr l \<and>
    ar_fromExecutionAndLocalIndex gen_ex_tables e l = Inr 4"
proof -
  have "ar_isValidIndex gen_ex_tables (ar_toIndex 4)"
    by code_simp
  from ar_indices_roundtrip[OF gen_ex_main this] show ?thesis
    by blast
qed

end
