(* ===== verification/KernelKey.thy ===== *)
theory KernelKey
  imports Prelude
begin

text \<open>
  \<open>kernel/core/kernel_key.h\<close>: the packed 64-bit kernel key.  The fields are laid out by shifts and
  masks as in the code; \<open>kk_bit_make\<close> gives every bit of a packed key, from which the getters follow.
\<close>

unbundle bit_operations_syntax

section \<open>Packed keys\<close>

definition kk_DTypeMask :: u64 where "kk_DTypeMask = 0xFFF"
definition kk_OpMask :: u64 where "kk_OpMask = 0xFFFF"
definition kk_ArchitectureMask :: u64 where "kk_ArchitectureMask = 0xFFFF"
definition kk_LayoutMask :: u64 where "kk_LayoutMask = 0xFF"
definition kk_VariantMask :: u64 where "kk_VariantMask = 0xFF"
definition kk_VersionMask :: u64 where "kk_VersionMask = 0xF"

lemmas kk_masks = kk_DTypeMask_def kk_OpMask_def kk_ArchitectureMask_def kk_LayoutMask_def
  kk_VariantMask_def kk_VersionMask_def

text \<open>\<open>Op\<close>, \<open>Architecture\<close> and \<open>DType\<close> are 16-bit enums, \<open>Layout\<close> and \<open>Variant\<close> 64-bit ones.\<close>

definition kk_make :: "u16 \<Rightarrow> u16 \<Rightarrow> u64 \<Rightarrow> u16 \<Rightarrow> u64 \<Rightarrow> u8 \<Rightarrow> u64" where
  "kk_make op architecture layout dtype variant version =
     (let version_bits = push_bit 60 (ucast version AND kk_VersionMask);
          variant_bits = push_bit 52 (variant AND kk_VariantMask);
          layout_bits = push_bit 44 (layout AND kk_LayoutMask);
          arch_bits = push_bit 28 (ucast architecture AND kk_ArchitectureMask);
          op_bits = push_bit 12 (ucast op AND kk_OpMask);
          dtype_bits = push_bit 0 (ucast dtype AND kk_DTypeMask)
      in version_bits OR variant_bits OR layout_bits OR arch_bits OR op_bits OR dtype_bits)"

definition kk_currentVersion :: u8 where
  "kk_currentVersion = 0"

definition kk_getVersion :: "u64 \<Rightarrow> u8" where
  "kk_getVersion key = ucast (drop_bit 60 key AND kk_VersionMask)"

definition kk_getOp :: "u64 \<Rightarrow> u16" where
  "kk_getOp key = ucast (drop_bit 12 key AND kk_OpMask)"

definition kk_getArchitecture :: "u64 \<Rightarrow> u16" where
  "kk_getArchitecture key = ucast (drop_bit 28 key AND kk_ArchitectureMask)"

definition kk_getLayout :: "u64 \<Rightarrow> u64" where
  "kk_getLayout key = drop_bit 44 key AND kk_LayoutMask"

definition kk_getDType :: "u64 \<Rightarrow> u16" where
  "kk_getDType key = ucast (drop_bit 0 key AND kk_DTypeMask)"

definition kk_getVariant :: "u64 \<Rightarrow> u64" where
  "kk_getVariant key = drop_bit 52 key AND kk_VariantMask"

lemmas kk_defs = kk_make_def kk_getVersion_def kk_getOp_def kk_getArchitecture_def kk_getLayout_def
  kk_getDType_def kk_getVariant_def

text \<open>The bits of the masks and of a packed key.\<close>

lemma mask_numerals:
  "(0xFFF :: u64) = mask 12" "(0xFFFF :: u64) = mask 16" "(0xFF :: u64) = mask 8" "(0xF :: u64) = mask 4"
  by (simp_all add: mask_eq_exp_minus_1)

lemma bit_field:
  fixes x :: "'a::len word"
  shows "bit (push_bit s (ucast x AND mask w) :: u64) n \<longleftrightarrow> n < 64 \<and> s \<le> n \<and> n < s + w \<and> bit x (n - s)"
  by (auto simp: bit_push_bit_iff bit_and_iff bit_mask_iff bit_ucast_iff dest: bit_imp_le_length)

lemma kk_bit_make:
  "bit (kk_make op arch layout dtype variant version) n \<longleftrightarrow>
     n < 64 \<and>
     (if n < 12 then bit dtype n
      else if n < 28 then bit op (n - 12)
      else if n < 44 then bit arch (n - 28)
      else if n < 52 then bit layout (n - 44)
      else if n < 60 then bit variant (n - 52)
      else bit version (n - 60))"
proof -
  note field64 = bit_field[where 'a = 64, unfolded ucast_id]
  have "bit (kk_make op arch layout dtype variant version) n \<longleftrightarrow>
      n < 64 \<and> 60 \<le> n \<and> n < 60 + 4 \<and> bit version (n - 60) \<or> n < 64 \<and> 52 \<le> n \<and> n < 52 + 8 \<and> bit variant (n - 52) \<or>
      n < 64 \<and> 44 \<le> n \<and> n < 44 + 8 \<and> bit layout (n - 44) \<or> n < 64 \<and> 28 \<le> n \<and> n < 28 + 16 \<and> bit arch (n - 28) \<or>
      n < 64 \<and> 12 \<le> n \<and> n < 12 + 16 \<and> bit op (n - 12) \<or> n < 64 \<and> 0 \<le> n \<and> n < 0 + 12 \<and> bit dtype (n - 0)"
    unfolding kk_make_def Let_def kk_masks mask_numerals bit_or_iff bit_field[where 'a = 8] bit_field[where 'a = 16]
    unfolding field64 by (simp only: disj_assoc)
  note eq = this
  consider "n < 12" | "12 \<le> n \<and> n < 28" | "28 \<le> n \<and> n < 44" | "44 \<le> n \<and> n < 52"
    | "52 \<le> n \<and> n < 60" | "60 \<le> n"
    by linarith
  then show ?thesis
    by cases (simp_all add: eq)
qed

lemma bit_unpack:
  "bit (ucast (drop_bit s (key :: u64) AND mask w) :: 'a::len word) n \<longleftrightarrow> n < LENGTH('a) \<and> n < w \<and> bit key (s + n)"
  by (auto simp: bit_ucast_iff bit_and_iff bit_mask_iff bit_drop_bit_eq dest: bit_imp_le_length)

lemmas bit_unpack64 = bit_unpack[where 'a = 64, unfolded ucast_id]

lemmas bit_unpack0 = bit_unpack[where s = 0, unfolded drop_bit_0 id_apply add_0]

lemma bit_masked: "bit (x AND mask w :: 'a::len word) n \<longleftrightarrow> n < w \<and> bit x n"
  by (auto simp: bit_and_iff bit_mask_iff dest: bit_imp_le_length)

lemma small_masks: "(0xF :: u8) = mask 4" "(0xFFF :: u16) = mask 12" "(0xFF :: u64) = mask 8"
  by (simp_all add: mask_eq_exp_minus_1)

lemma bit_u16_bound: "bit (x :: u16) n \<longleftrightarrow> n < 16 \<and> bit x n"
  by (auto dest: bit_imp_le_length)

lemma kk_getters_make:
  "kk_getVersion (kk_make op arch layout dtype variant version) = version AND 0xF"
  "kk_getOp (kk_make op arch layout dtype variant version) = op"
  "kk_getArchitecture (kk_make op arch layout dtype variant version) = arch"
  "kk_getLayout (kk_make op arch layout dtype variant version) = layout AND 0xFF"
  "kk_getDType (kk_make op arch layout dtype variant version) = dtype AND 0xFFF"
  "kk_getVariant (kk_make op arch layout dtype variant version) = variant AND 0xFF"
  unfolding kk_getVersion_def kk_getOp_def kk_getArchitecture_def kk_getLayout_def kk_getDType_def
    kk_getVariant_def kk_masks mask_numerals small_masks
  by (rule bit_word_eqI; auto simp: bit_unpack0 bit_drop_bit_eq bit_unpack64 bit_masked kk_bit_make; fail)+

lemma kk_make_getters:
  "kk_make (kk_getOp key) (kk_getArchitecture key) (kk_getLayout key) (kk_getDType key) (kk_getVariant key)
     (kk_getVersion key) = key"
proof (rule bit_word_eqI)
  fix n :: nat
  assume n: "n < LENGTH(64)"
  consider "n < 12" | "12 \<le> n \<and> n < 28" | "28 \<le> n \<and> n < 44" | "44 \<le> n \<and> n < 52"
    | "52 \<le> n \<and> n < 60" | "60 \<le> n"
    by linarith
  then show "bit (kk_make (kk_getOp key) (kk_getArchitecture key) (kk_getLayout key) (kk_getDType key) (kk_getVariant key)
     (kk_getVersion key)) n = bit key n"
    by cases (use n in \<open>simp_all add: kk_bit_make kk_getVersion_def kk_getOp_def kk_getArchitecture_def kk_getLayout_def
      kk_getDType_def kk_getVariant_def kk_masks mask_numerals bit_unpack0 bit_drop_bit_eq bit_unpack64 less_diff_conv2\<close>)
qed

lemma kk_make_eq_iff:
  "kk_make op arch layout dtype variant version = kk_make op' arch' layout' dtype' variant' version' \<longleftrightarrow>
     op = op' \<and> arch = arch' \<and> layout AND 0xFF = layout' AND 0xFF \<and> dtype AND 0xFFF = dtype' AND 0xFFF \<and>
     variant AND 0xFF = variant' AND 0xFF \<and> version AND 0xF = version' AND 0xF"
  (is "?lhs \<longleftrightarrow> ?rhs")
proof
  assume ?lhs
  then show ?rhs
    using kk_getters_make[of op arch layout dtype variant version] kk_getters_make[of op' arch' layout' dtype' variant' version']
    by simp
next
  assume ?rhs
  then show ?lhs
    by (metis kk_getters_make kk_make_getters)
qed

text \<open>
  a kernel key is an exact encoding of its fields.  Packing any components and reading the fields
  back gives the components, truncated to the field widths (4 bits of version, 12 of data type, 8 of
  layout and variant; operation and architecture are kept whole); packing the fields of any 64-bit
  key gives that key; so two keys are equal exactly if the components agree up to that truncation.
\<close>

theorem kk_roundtrip:
  "kk_getVersion (kk_make op arch layout dtype variant version) = version AND 0xF \<and>
   kk_getOp (kk_make op arch layout dtype variant version) = op \<and>
   kk_getArchitecture (kk_make op arch layout dtype variant version) = arch \<and>
   kk_getLayout (kk_make op arch layout dtype variant version) = layout AND 0xFF \<and>
   kk_getDType (kk_make op arch layout dtype variant version) = dtype AND 0xFFF \<and>
   kk_getVariant (kk_make op arch layout dtype variant version) = variant AND 0xFF \<and>
   kk_make (kk_getOp key) (kk_getArchitecture key) (kk_getLayout key) (kk_getDType key) (kk_getVariant key)
     (kk_getVersion key) = key \<and>
   (kk_make op arch layout dtype variant version = kk_make op' arch' layout' dtype' variant' version' \<longleftrightarrow>
      op = op' \<and> arch = arch' \<and> layout AND 0xFF = layout' AND 0xFF \<and> dtype AND 0xFFF = dtype' AND 0xFFF \<and>
      variant AND 0xFF = variant' AND 0xFF \<and> version AND 0xF = version' AND 0xF)"
  using kk_make_eq_iff by (simp add: kk_getters_make kk_make_getters)

end
