(* ===== verification/SmallVector.thy ===== *)
theory SmallVector
  imports Prelude
begin

text \<open>
  \<open>base/small_vector.h\<close>: the vector with \<open>N\<close> inline elements.  Storage is modelled cell by cell: a
  cell holds a constructed element or nothing, placement new fills an empty cell, a destructor call
  empties one, and reading, assigning or destroying an empty cell, constructing over an element, or any
  access past the end of the storage, is the exception value \<open>DanglingPointer\<close>.  \<open>N\<close> is the number of
  inline cells; element operations are taken not to throw, and a moved-from element keeps its value until
  it is destroyed.  An argument \<open>const T &\<close> refers to an object outside the vector or to one of its own
  elements (\<open>sv_arg\<close>), and is read where the code reads it.  The ranges of \<open>assign\<close> and \<open>insert\<close> are
  lists: they lie outside the vector.
\<close>

section \<open>Cells\<close>

primrec cells_read :: "'a option list \<Rightarrow> nat \<Rightarrow> nat \<Rightarrow> 'a list res" where
  "cells_read cs i 0 = Inr []"
| "cells_read cs i (Suc n) =
     (if i < length cs
      then case cs ! i of
          None \<Rightarrow> Inl DanglingPointer
        | Some x \<Rightarrow> bindR (cells_read cs (Suc i) n) (\<lambda>xs. Inr (x # xs))
      else Inl DanglingPointer)"

primrec cells_construct :: "'a option list \<Rightarrow> nat \<Rightarrow> 'a list \<Rightarrow> 'a option list res" where
  "cells_construct cs i [] = Inr cs"
| "cells_construct cs i (x # xs) =
     (if i < length cs \<and> cs ! i = None then cells_construct (cs[i := Some x]) (Suc i) xs
      else Inl DanglingPointer)"

primrec sv_destroyRange :: "'a option list \<Rightarrow> nat \<Rightarrow> nat \<Rightarrow> 'a option list res" where
  "sv_destroyRange cs first 0 = Inr cs"
| "sv_destroyRange cs first (Suc n) =
     (if first + n < length cs \<and> cs ! (first + n) \<noteq> None then sv_destroyRange (cs[first + n := None]) first n
      else Inl DanglingPointer)"

text \<open>The two shifting loops: \<open>n\<close> is the number of elements still to move.\<close>

primrec sv_shiftRight :: "'a option list \<Rightarrow> nat \<Rightarrow> nat \<Rightarrow> nat \<Rightarrow> 'a option list res" where
  "sv_shiftRight cs index count 0 = Inr cs"
| "sv_shiftRight cs index count (Suc n) =
     (let src = index + n; dest = src + count in
      if count = 0 then Inr cs
      else bindR (cells_read cs src 1) (\<lambda>xs.
           bindR (cells_construct cs dest xs) (\<lambda>cs.
           bindR (sv_destroyRange cs src 1) (\<lambda>cs. sv_shiftRight cs index count n))))"

primrec cells_shiftLeft :: "'a option list \<Rightarrow> nat \<Rightarrow> nat \<Rightarrow> nat \<Rightarrow> 'a option list res" where
  "cells_shiftLeft cs i count 0 = Inr cs"
| "cells_shiftLeft cs i count (Suc n) =
     (if i < length cs \<and> cs ! i \<noteq> None
      then bindR (cells_read cs (i + count) 1) (\<lambda>xs. cells_shiftLeft (cs[i := Some (hd xs)]) (Suc i) count n)
      else Inl DanglingPointer)"

section \<open>The vector\<close>

datatype 'a sv_storage = NullData | InlineData | HeapData "'a option list"

record 'a small_vector =
  sv_inline :: "'a option list"
  sv_size :: nat
  sv_capacity :: nat
  sv_data :: "'a sv_storage"

definition sv_stack_capacity :: "'a small_vector \<Rightarrow> nat" where
  "sv_stack_capacity v = length (sv_inline v)"

definition sv_usingHeapStorage :: "'a small_vector \<Rightarrow> bool" where
  "sv_usingHeapStorage v \<longleftrightarrow> (case sv_data v of HeapData _ \<Rightarrow> True | _ \<Rightarrow> False)"

definition sv_cells :: "'a small_vector \<Rightarrow> 'a option list" where
  "sv_cells v = (case sv_data v of NullData \<Rightarrow> [] | InlineData \<Rightarrow> sv_inline v | HeapData cs \<Rightarrow> cs)"

definition sv_withCells :: "'a small_vector \<Rightarrow> 'a option list \<Rightarrow> 'a small_vector" where
  "sv_withCells v cs =
     (case sv_data v of
        NullData \<Rightarrow> v
      | InlineData \<Rightarrow> v\<lparr>sv_inline := cs\<rparr>
      | HeapData _ \<Rightarrow> v\<lparr>sv_data := HeapData cs\<rparr>)"

definition sv_resetInlinePointer :: "'a small_vector \<Rightarrow> 'a small_vector" where
  "sv_resetInlinePointer v =
     (if sv_stack_capacity v > 0 then v\<lparr>sv_capacity := sv_stack_capacity v, sv_data := InlineData\<rparr>
      else v\<lparr>sv_capacity := 0, sv_data := NullData\<rparr>)"

definition sv_resetToStack :: "'a small_vector \<Rightarrow> 'a small_vector" where
  "sv_resetToStack v = (sv_resetInlinePointer v)\<lparr>sv_size := 0\<rparr>"

definition sv_new :: "nat \<Rightarrow> 'a small_vector" where
  "sv_new N = sv_resetInlinePointer
     \<lparr>sv_inline = replicate N None, sv_size = 0, sv_capacity = N, sv_data = NullData\<rparr>"

definition sv_releaseHeapStorage :: "'a small_vector \<Rightarrow> 'a small_vector" where
  "sv_releaseHeapStorage v = (if sv_usingHeapStorage v then sv_resetInlinePointer v else v)"

definition sv_reallocate :: "'a small_vector \<Rightarrow> nat \<Rightarrow> 'a small_vector res" where
  "sv_reallocate v new_capacity =
     bindR (cells_read (sv_cells v) 0 (sv_size v)) (\<lambda>xs.
     bindR (cells_construct (replicate new_capacity None) 0 xs) (\<lambda>new_data.
     bindR (sv_destroyRange (sv_cells v) 0 (sv_size v)) (\<lambda>cs.
     Inr ((sv_withCells v cs)\<lparr>sv_capacity := new_capacity,
            sv_data := (if new_capacity = 0 then NullData else HeapData new_data)\<rparr>))))"

definition sv_ensureCapacity :: "'a small_vector \<Rightarrow> nat \<Rightarrow> 'a small_vector res" where
  "sv_ensureCapacity v min_capacity =
     (if min_capacity \<le> sv_capacity v then Inr v
      else let c = (if sv_capacity v \<noteq> 0 then sv_capacity v * 2
                    else if sv_stack_capacity v > 0 then sv_stack_capacity v else 0);
               c = (if c = 0 then 1 else c);
               c = (if c < min_capacity then min_capacity else c)
           in sv_reallocate v c)"

text \<open>Placement new of \<open>xs\<close> at \<open>i\<close> in the current storage.\<close>

definition sv_put :: "'a small_vector \<Rightarrow> nat \<Rightarrow> 'a list \<Rightarrow> 'a small_vector res" where
  "sv_put v i xs = bindR (cells_construct (sv_cells v) i xs) (\<lambda>cs. Inr (sv_withCells v cs))"

text \<open>
  A reference argument: to an object outside, or to the element at an index.  \<open>moved\<close>: the storage the
  reference points into was given back or emptied since.
\<close>

datatype 'a sv_arg = Val 'a | Own nat

definition sv_deref :: "bool \<Rightarrow> 'a small_vector \<Rightarrow> 'a sv_arg \<Rightarrow> 'a res" where
  "sv_deref moved v a =
     (case a of
        Val x \<Rightarrow> Inr x
      | Own i \<Rightarrow> if moved then Inl DanglingPointer
                 else bindR (cells_read (sv_cells v) i 1) (\<lambda>xs. Inr (hd xs)))"

definition sv_clear :: "'a small_vector \<Rightarrow> 'a small_vector res" where
  "sv_clear v =
     bindR (sv_destroyRange (sv_cells v) 0 (sv_size v)) (\<lambda>cs. Inr ((sv_withCells v cs)\<lparr>sv_size := 0\<rparr>))"

text \<open>\<open>assign\<close> of a forward range, and of \<open>count\<close> copies of a value.\<close>

definition sv_assignRange :: "'a small_vector \<Rightarrow> 'a list \<Rightarrow> 'a small_vector res" where
  "sv_assignRange v xs =
     bindR (sv_clear v) (\<lambda>v.
     let v = (if sv_stack_capacity v > 0 \<and> sv_usingHeapStorage v \<and> length xs \<le> sv_stack_capacity v
              then sv_releaseHeapStorage v else v)
     in bindR (sv_ensureCapacity v (length xs)) (\<lambda>v.
        bindR (sv_put v 0 xs) (\<lambda>v. Inr (v\<lparr>sv_size := length xs\<rparr>))))"

definition sv_assign :: "'a small_vector \<Rightarrow> nat \<Rightarrow> 'a sv_arg \<Rightarrow> 'a small_vector res" where
  "sv_assign v count value_ref =
     bindR (sv_clear v) (\<lambda>v.
     let release = sv_stack_capacity v > 0 \<and> sv_usingHeapStorage v \<and> count \<le> sv_stack_capacity v;
         v = (if release then sv_releaseHeapStorage v else v);
         grow = count > sv_capacity v
     in bindR (sv_ensureCapacity v count) (\<lambda>v.
        if count = 0 then Inr (v\<lparr>sv_size := 0\<rparr>)
        else bindR (sv_deref (release \<or> grow) v value_ref) (\<lambda>x.
             bindR (sv_put v 0 (replicate count x)) (\<lambda>v. Inr (v\<lparr>sv_size := count\<rparr>)))))"

definition sv_at :: "'a small_vector \<Rightarrow> nat \<Rightarrow> 'a res" where
  "sv_at v i =
     (if i \<ge> sv_size v then Inl StdOutOfRange else bindR (cells_read (sv_cells v) i 1) (\<lambda>xs. Inr (hd xs)))"

text \<open>The whole contents, read through \<open>begin\<close> and \<open>end\<close>.\<close>

definition sv_contents :: "'a small_vector \<Rightarrow> 'a list res" where
  "sv_contents v = cells_read (sv_cells v) 0 (sv_size v)"

definition sv_empty :: "'a small_vector \<Rightarrow> bool" where
  "sv_empty v \<longleftrightarrow> sv_size v = 0"

definition sv_reserve :: "'a small_vector \<Rightarrow> nat \<Rightarrow> 'a small_vector res" where
  "sv_reserve v new_capacity = (if new_capacity > sv_capacity v then sv_reallocate v new_capacity else Inr v)"

text \<open>\<open>resize(count, value)\<close>; \<open>resize(count)\<close> is the same with the default-constructed element.\<close>

definition sv_resize :: "'a small_vector \<Rightarrow> nat \<Rightarrow> 'a sv_arg \<Rightarrow> 'a small_vector res" where
  "sv_resize v count value_ref =
     (if count < sv_size v
      then bindR (sv_destroyRange (sv_cells v) count (sv_size v - count)) (\<lambda>cs.
           Inr ((sv_withCells v cs)\<lparr>sv_size := count\<rparr>))
      else if count > sv_size v
      then let release = sv_stack_capacity v > 0 \<and> sv_usingHeapStorage v \<and> count \<le> sv_stack_capacity v;
               v = (if release then sv_releaseHeapStorage v else v);
               grow = count > sv_capacity v
           in bindR (sv_ensureCapacity v count) (\<lambda>v.
              bindR (sv_deref (release \<or> grow) v value_ref) (\<lambda>x.
              bindR (sv_put v (sv_size v) (replicate (count - sv_size v) x)) (\<lambda>v. Inr (v\<lparr>sv_size := count\<rparr>))))
      else Inr v)"

text \<open>
  \<open>shrinkToFit\<close> of a vector that is inline already constructs each element in its own storage, from
  itself: the new object's construction ends the life of the element it reads.
\<close>

definition sv_shrinkToFit :: "'a small_vector \<Rightarrow> 'a small_vector res" where
  "sv_shrinkToFit v =
     (if sv_size v = 0 then Inr (sv_resetInlinePointer (sv_releaseHeapStorage v))
      else if sv_stack_capacity v > 0 \<and> sv_size v \<le> sv_stack_capacity v
      then if sv_usingHeapStorage v
           then bindR (cells_read (sv_cells v) 0 (sv_size v)) (\<lambda>xs. sv_put (sv_resetInlinePointer v) 0 xs)
           else Inl DanglingPointer
      else if sv_usingHeapStorage v \<and> sv_size v < sv_capacity v then sv_reallocate v (sv_size v)
      else Inr v)"

text \<open>
  The insertions: \<open>emplace\<close> and \<open>insert\<close> of one element, of \<open>count\<close> copies and of a forward range open
  a gap and construct into it.
\<close>

definition sv_openGap :: "'a small_vector \<Rightarrow> nat \<Rightarrow> nat \<Rightarrow> 'a small_vector res" where
  "sv_openGap v index count =
     bindR (sv_ensureCapacity v (sv_size v + count)) (\<lambda>v.
     bindR (sv_shiftRight (sv_cells v) index count (sv_size v - index)) (\<lambda>cs. Inr (sv_withCells v cs)))"

definition sv_insertRange :: "'a small_vector \<Rightarrow> nat \<Rightarrow> 'a list \<Rightarrow> 'a small_vector res" where
  "sv_insertRange v index xs =
     bindR (sv_openGap v index (length xs)) (\<lambda>v.
     bindR (sv_put v index xs) (\<lambda>v.
     Inr (v\<lparr>sv_size := sv_size v + length xs\<rparr>)))"

text \<open>All copies are made of the same object, which is not in the gap if the first one can be made.\<close>

definition sv_insertCount :: "'a small_vector \<Rightarrow> nat \<Rightarrow> nat \<Rightarrow> 'a sv_arg \<Rightarrow> 'a small_vector res" where
  "sv_insertCount v index count value_ref =
     (if count = 0 then Inr v
      else let grow = sv_size v + count > sv_capacity v
           in bindR (sv_openGap v index count) (\<lambda>v.
              bindR (sv_deref grow v value_ref) (\<lambda>x.
              bindR (sv_put v index (replicate count x)) (\<lambda>v.
              Inr (v\<lparr>sv_size := sv_size v + count\<rparr>)))))"

definition sv_emplace :: "'a small_vector \<Rightarrow> nat \<Rightarrow> 'a sv_arg \<Rightarrow> 'a small_vector res" where
  "sv_emplace v index arg = sv_insertCount v index 1 arg"

definition sv_emplaceBack :: "'a small_vector \<Rightarrow> 'a sv_arg \<Rightarrow> 'a small_vector res" where
  "sv_emplaceBack v arg =
     (let grow = sv_size v = sv_capacity v
      in bindR (if grow then sv_ensureCapacity v (sv_size v + 1) else Inr v) (\<lambda>v.
         bindR (sv_deref grow v arg) (\<lambda>x.
         bindR (sv_put v (sv_size v) [x]) (\<lambda>v. Inr (v\<lparr>sv_size := sv_size v + 1\<rparr>)))))"

definition sv_pushBack :: "'a small_vector \<Rightarrow> 'a sv_arg \<Rightarrow> 'a small_vector res" where
  "sv_pushBack v arg = sv_emplaceBack v arg"

definition sv_erase :: "'a small_vector \<Rightarrow> nat \<Rightarrow> nat \<Rightarrow> 'a small_vector res" where
  "sv_erase v start stop =
     (if start = stop then Inr v
      else let count = stop - start in
        bindR (cells_shiftLeft (sv_cells v) start count (sv_size v - count - start)) (\<lambda>cs.
        bindR (sv_destroyRange cs (sv_size v - count) count) (\<lambda>cs.
        Inr ((sv_withCells v cs)\<lparr>sv_size := sv_size v - count\<rparr>))))"

definition sv_popBack :: "'a small_vector \<Rightarrow> 'a small_vector res" where
  "sv_popBack v =
     (if sv_size v > 0
      then bindR (sv_destroyRange (sv_cells v) (sv_size v - 1) 1) (\<lambda>cs.
           Inr ((sv_withCells v cs)\<lparr>sv_size := sv_size v - 1\<rparr>))
      else Inr v)"

definition sv_front :: "'a small_vector \<Rightarrow> 'a res" where
  "sv_front v = bindR (cells_read (sv_cells v) 0 1) (\<lambda>xs. Inr (hd xs))"

definition sv_back :: "'a small_vector \<Rightarrow> 'a res" where
  "sv_back v = bindR (cells_read (sv_cells v) (sv_size v - 1) 1) (\<lambda>xs. Inr (hd xs))"

text \<open>Moves; the results are the two vectors, target and source.\<close>

definition sv_moveFrom :: "'a small_vector \<Rightarrow> 'a small_vector \<Rightarrow> ('a small_vector \<times> 'a small_vector) res" where
  "sv_moveFrom v other =
     (if sv_usingHeapStorage other
      then Inr (v\<lparr>sv_size := sv_size other, sv_capacity := sv_capacity other, sv_data := sv_data other\<rparr>,
                sv_resetToStack other)
      else bindR (cells_read (sv_cells other) 0 (sv_size other)) (\<lambda>xs.
           bindR (sv_put ((sv_resetInlinePointer v)\<lparr>sv_size := 0\<rparr>) 0 xs) (\<lambda>v.
           bindR (sv_clear other) (\<lambda>other'. Inr (v\<lparr>sv_size := sv_size other\<rparr>, other')))))"

definition sv_moveAssign :: "'a small_vector \<Rightarrow> 'a small_vector \<Rightarrow> ('a small_vector \<times> 'a small_vector) res" where
  "sv_moveAssign v other =
     bindR (sv_clear v) (\<lambda>v. sv_moveFrom (sv_releaseHeapStorage v) other)"

definition sv_swap :: "'a small_vector \<Rightarrow> 'a small_vector \<Rightarrow> ('a small_vector \<times> 'a small_vector) res" where
  "sv_swap v other =
     (if sv_usingHeapStorage v \<and> sv_usingHeapStorage other
      then Inr (v\<lparr>sv_size := sv_size other, sv_capacity := sv_capacity other, sv_data := sv_data other\<rparr>,
                other\<lparr>sv_size := sv_size v, sv_capacity := sv_capacity v, sv_data := sv_data v\<rparr>)
      else bindR (sv_moveFrom (sv_new (sv_stack_capacity other)) other) (\<lambda>(tmp, other).
           bindR (sv_moveAssign other v) (\<lambda>(other, v).
           bindR (sv_moveAssign v tmp) (\<lambda>(v, tmp). Inr (v, other)))))"

text \<open>Copy construction and copy assignment from another vector.\<close>

definition sv_copy :: "'a small_vector \<Rightarrow> 'a small_vector res" where
  "sv_copy other = bindR (sv_contents other) (\<lambda>xs. sv_assignRange (sv_new (sv_stack_capacity other)) xs)"

definition sv_copyAssign :: "'a small_vector \<Rightarrow> 'a small_vector \<Rightarrow> 'a small_vector res" where
  "sv_copyAssign v other = bindR (sv_contents other) (sv_assignRange v)"

section \<open>Cell lemmas\<close>

lemma cells_read_append [simp]:
  "cells_read (cs @ map Some xs @ ds) (length cs) (length xs) = Inr xs"
proof (induction xs arbitrary: cs)
  case (Cons x xs)
  from Cons[of "cs @ [Some x]"] show ?case by (simp add: nth_append)
qed simp

lemma cells_read_front [simp]: "cells_read (map Some xs @ ds) 0 (length xs) = Inr xs"
  using cells_read_append[of "[]" xs ds] by simp

lemma cells_construct_append:
  "cells_construct (cs @ replicate (length xs) None @ ds) (length cs) xs = Inr (cs @ map Some xs @ ds)"
proof (induction xs arbitrary: cs)
  case (Cons x xs)
  from Cons.IH[of "cs @ [Some x]"] show ?case by (simp add: list_update_append nth_append)
qed simp

lemma cells_destroy_append:
  "sv_destroyRange (cs @ map Some xs @ ds) (length cs) (length xs) = Inr (cs @ replicate (length xs) None @ ds)"
proof (induction xs arbitrary: ds rule: rev_induct)
  case (snoc x xs)
  have "replicate (Suc (length xs)) None @ ds = replicate (length xs) None @ None # ds" for ds :: "'a option list"
    by (metis append_Cons append_assoc replicate_Suc replicate_append_same self_append_conv2)
  with snoc[of "None # ds"] show ?case
    by (simp add: nth_append list_update_append)
qed simp

lemma cells_destroy_front:
  "sv_destroyRange (map Some xs @ ds) 0 (length xs) = Inr (replicate (length xs) None @ ds)"
  using cells_destroy_append[of "[]" xs ds] by simp

lemma cells_read_1: "i < length cs \<Longrightarrow> cs ! i = Some x \<Longrightarrow> cells_read cs i 1 = Inr [x]"
  by simp

lemma replicate_snoc: "replicate (Suc k) x @ ds = replicate k x @ x # ds"
  by (metis append_Cons append_assoc replicate_Suc replicate_append_same self_append_conv2)

lemma cells_shiftRight_append:
  "sv_shiftRight (cs @ map Some ys @ replicate count None @ ds) (length cs) count (length ys) =
    Inr (cs @ replicate count None @ map Some ys @ ds)"
proof (induction ys arbitrary: ds rule: rev_induct)
  case (snoc y ys)
  show ?case
  proof (cases count)
    case 0
    then show ?thesis by simp
  next
    case (Suc k)
    let ?a = "cs @ map Some ys"
    let ?c0 = "?a @ Some y # replicate (Suc k) None @ ds"
    have c0: "?c0 = (?a @ Some y # replicate k None) @ [None] @ ds"
      by (simp only: replicate_snoc) simp
    have len: "length ?a + Suc k = length (?a @ Some y # replicate k None)"
      by simp
    have 1: "cells_read ?c0 (length ?a) 1 = Inr [y]"
      using cells_read_append[of ?a "[y]"] by simp
    have 2: "cells_construct ?c0 (length ?a + Suc k) [y] = Inr ((?a @ Some y # replicate k None) @ [Some y] @ ds)"
      unfolding c0 len using cells_construct_append[of "?a @ Some y # replicate k None" "[y]" ds]
      by (simp only: replicate.simps list.size list.map append_Cons append_Nil) simp
    have 3: "sv_destroyRange ((?a @ Some y # replicate k None) @ [Some y] @ ds) (length ?a) 1
        = Inr (?a @ replicate (Suc k) None @ Some y # ds)"
      using cells_destroy_append[of ?a "[y]" "replicate k None @ Some y # ds"] by simp
    have "sv_shiftRight (cs @ map Some (ys @ [y]) @ replicate count None @ ds) (length cs) count (length (ys @ [y]))
        = sv_shiftRight (?a @ replicate (Suc k) None @ Some y # ds) (length cs) count (length ys)"
      using 1 2 3 by (simp add: Suc Let_def del: cells_read.simps cells_construct.simps sv_destroyRange.simps)
    with snoc[of "Some y # ds"] show ?thesis
      by (simp add: Suc)
  qed
qed simp

lemma cells_shiftLeft_append:
  "length ys = count \<Longrightarrow> \<exists>gs. length gs = count \<and>
   cells_shiftLeft (map Some (xs @ ys @ zs) @ ds) (length xs) count (length zs) = Inr (map Some (xs @ zs @ gs) @ ds)"
proof (induction zs arbitrary: xs ys)
  case (Cons z zs)
  show ?case
  proof (cases ys)
    case Nil
    with Cons.prems Cons.IH[of "[]" "xs @ [z]"] show ?thesis
      by (simp add: nth_append list_update_append)
  next
    case (Cons y ys')
    with Cons.prems have len: "length (ys' @ [z]) = count" by simp
    from Cons.IH[OF len, of "xs @ [z]"] obtain gs where gs: "length gs = count"
      "cells_shiftLeft (map Some ((xs @ [z]) @ (ys' @ [z]) @ zs) @ ds) (length (xs @ [z])) count (length zs)
        = Inr (map Some ((xs @ [z]) @ zs @ gs) @ ds)"
      by blast
    have "(map Some (xs @ ys @ z # zs) @ ds)[length xs := Some z] = map Some ((xs @ [z]) @ (ys' @ [z]) @ zs) @ ds"
      by (simp add: Cons list_update_append)
    moreover have "cells_read (map Some (xs @ ys @ z # zs) @ ds) (length xs + count) 1 = Inr [z]"
      using Cons.prems by (simp add: nth_append)
    ultimately show ?thesis
      using gs by (intro exI[of _ gs]) (simp add: Cons nth_append del: cells_read.simps)
  qed
qed simp

section \<open>What a vector represents\<close>

text \<open>The vector \<open>v\<close> with \<open>N\<close> inline cells holds the elements \<open>xs\<close>.\<close>

definition sv_rep :: "nat \<Rightarrow> 'a small_vector \<Rightarrow> 'a list \<Rightarrow> bool" where
  "sv_rep N v xs \<longleftrightarrow>
     sv_size v = length xs \<and> length (sv_inline v) = N \<and> length xs \<le> sv_capacity v \<and>
     sv_cells v = map Some xs @ replicate (sv_capacity v - length xs) None \<and>
     (case sv_data v of
        NullData \<Rightarrow> N = 0
      | InlineData \<Rightarrow> 0 < N
      | HeapData cs \<Rightarrow> 0 < sv_capacity v \<and> sv_inline v = replicate N None)"

lemma sv_rep_size: "sv_rep N v xs \<Longrightarrow> sv_size v = length xs"
  by (simp add: sv_rep_def)

lemma sv_rep_stack: "sv_rep N v xs \<Longrightarrow> sv_stack_capacity v = N"
  by (simp add: sv_rep_def sv_stack_capacity_def)

lemma sv_rep_capacity: "sv_rep N v xs \<Longrightarrow> length xs \<le> sv_capacity v"
  by (simp add: sv_rep_def)

lemma sv_rep_cells: "sv_rep N v xs \<Longrightarrow> sv_cells v = map Some xs @ replicate (sv_capacity v - length xs) None"
  by (simp add: sv_rep_def)

lemmas sv_rep_basic = sv_rep_size sv_rep_stack sv_rep_capacity sv_rep_cells

text \<open>Replacing the contents of the current storage, with a fitting number of free cells.\<close>

lemma sv_rep_withCells:
  assumes "sv_rep N v xs" and "length ys \<le> sv_capacity v"
  shows "sv_rep N ((sv_withCells v (map Some ys @ replicate (sv_capacity v - length ys) None))\<lparr>sv_size := length ys\<rparr>) ys"
  using assms by (auto simp: sv_rep_def sv_withCells_def sv_cells_def split: sv_storage.splits)

lemma sv_withCells_simps [simp]:
  "sv_size (sv_withCells v cs) = sv_size v" "sv_capacity (sv_withCells v cs) = sv_capacity v"
  "sv_withCells (sv_withCells v cs) cs' = sv_withCells v cs'"
  "sv_withCells (v\<lparr>sv_size := n\<rparr>) cs = (sv_withCells v cs)\<lparr>sv_size := n\<rparr>"
  "sv_cells (v\<lparr>sv_size := n\<rparr>) = sv_cells v"
  by (simp_all add: sv_withCells_def sv_cells_def split: sv_storage.splits)

lemma sv_cells_withCells: "sv_rep N v xs \<Longrightarrow> length cs = sv_capacity v \<Longrightarrow> sv_cells (sv_withCells v cs) = cs"
  by (auto simp: sv_rep_def sv_withCells_def sv_cells_def split: sv_storage.splits)

lemma sv_contents_rep: "sv_rep N v xs \<Longrightarrow> sv_contents v = Inr xs"
  by (simp add: sv_contents_def sv_rep_basic)

lemma sv_new_rep: "sv_rep N (sv_new N) []"
  by (simp add: sv_rep_def sv_new_def sv_resetInlinePointer_def sv_stack_capacity_def sv_cells_def)

lemma sv_new_stack [simp]: "sv_stack_capacity (sv_new N) = N"
  by (simp add: sv_new_def sv_resetInlinePointer_def sv_stack_capacity_def)

lemma sv_rep_heap: "sv_rep N v xs \<Longrightarrow> sv_usingHeapStorage v \<Longrightarrow> sv_inline v = replicate N None"
  by (auto simp: sv_rep_def sv_usingHeapStorage_def split: sv_storage.splits)

lemma sv_rep_no_heap:
  "sv_rep N v xs \<Longrightarrow> \<not> sv_usingHeapStorage v \<Longrightarrow> sv_data v = (if 0 < N then InlineData else NullData) \<and> sv_capacity v = N"
  by (auto simp: sv_rep_def sv_usingHeapStorage_def sv_cells_def split: sv_storage.splits dest!: arg_cong[where f = length])

text \<open>\<open>resetInlinePointer\<close> on free inline cells gives the empty inline vector.\<close>

lemma sv_rep_reset:
  "sv_inline v = replicate N None \<Longrightarrow> sv_size v = 0 \<Longrightarrow> sv_rep N (sv_resetInlinePointer v) []"
  by (auto simp: sv_rep_def sv_resetInlinePointer_def sv_stack_capacity_def sv_cells_def)

lemma sv_reallocate_rep:
  assumes "sv_rep N v xs" and "length xs \<le> n" and "0 < n"
  shows "\<exists>v'. sv_reallocate v n = Inr v' \<and> sv_rep N v' xs \<and> sv_capacity v' = n"
proof -
  have "cells_construct (replicate n None) 0 xs = Inr (map Some xs @ replicate (n - length xs) None)"
    using cells_construct_append[of "[]" xs "replicate (n - length xs) None"] assms(2)
    by (simp flip: replicate_add)
  moreover have "sv_destroyRange (sv_cells v) 0 (sv_size v) = Inr (replicate (sv_capacity v) None)"
    using assms(1) sv_rep_capacity[OF assms(1)] by (simp add: sv_rep_basic cells_destroy_front flip: replicate_add)
  ultimately show ?thesis
    using assms
    by (auto simp: sv_reallocate_def sv_rep_basic)
      (auto simp: sv_rep_def sv_withCells_def sv_cells_def split: sv_storage.splits)
qed

lemma sv_ensureCapacity_rep:
  assumes "sv_rep N v xs"
  shows "\<exists>v'. sv_ensureCapacity v n = Inr v' \<and> sv_rep N v' xs \<and> n \<le> sv_capacity v' \<and>
    (n \<le> sv_capacity v \<longrightarrow> v' = v) \<and> (sv_capacity v < n \<longrightarrow> 2 * sv_capacity v \<le> sv_capacity v')"
proof (cases "n \<le> sv_capacity v")
  case True
  with assms show ?thesis by (simp add: sv_ensureCapacity_def)
next
  case False
  let ?c = "if sv_capacity v \<noteq> 0 then sv_capacity v * 2 else if sv_stack_capacity v > 0 then sv_stack_capacity v else 0"
  let ?c = "if ?c = 0 then 1 else ?c"
  let ?c = "if ?c < n then n else ?c"
  have c: "n \<le> ?c" "2 * sv_capacity v \<le> ?c" "0 < ?c" "length xs \<le> ?c"
    using False sv_rep_capacity[OF assms] by auto
  have "sv_ensureCapacity v n = sv_reallocate v ?c"
    using False by (simp only: sv_ensureCapacity_def Let_def if_False)
  with sv_reallocate_rep[OF assms c(4,3)] c show ?thesis
    using False by fastforce
qed

text \<open>Constructing \<open>ys\<close> behind the elements and setting the size.\<close>

lemma sv_put_rep:
  assumes "sv_rep N v xs" and "length xs + length ys \<le> sv_capacity v"
  shows "\<exists>v'. sv_put v (length xs) ys = Inr v' \<and> sv_size v' = length xs \<and> sv_rep N (v'\<lparr>sv_size := length xs + length ys\<rparr>) (xs @ ys)"
proof -
  have "sv_cells v = map Some xs @ replicate (length ys) None @ replicate (sv_capacity v - length (xs @ ys)) None"
    using assms by (simp add: sv_rep_cells flip: replicate_add)
  then have "cells_construct (sv_cells v) (length xs) ys = Inr (map Some (xs @ ys) @ replicate (sv_capacity v - length (xs @ ys)) None)"
    using cells_construct_append[of "map Some xs" ys] by simp
  with sv_rep_withCells[OF assms(1), of "xs @ ys"] assms show ?thesis
    by (simp add: sv_put_def sv_rep_size)
qed

section \<open>Operations\<close>

lemma sv_clear_rep:
  assumes "sv_rep N v xs"
  shows "\<exists>v'. sv_clear v = Inr v' \<and> sv_rep N v' []"
proof -
  have "sv_destroyRange (sv_cells v) 0 (sv_size v) = Inr (map Some [] @ replicate (sv_capacity v - length []) None)"
    using assms sv_rep_capacity[OF assms] by (simp add: sv_rep_basic cells_destroy_front flip: replicate_add)
  then show ?thesis
    using sv_rep_withCells[OF assms, of "[]"] by (simp add: sv_clear_def)
qed

lemma sv_releaseHeapStorage_rep:
  assumes "sv_rep N v []"
  shows "sv_rep N (sv_releaseHeapStorage v) []" and "\<not> sv_usingHeapStorage (sv_releaseHeapStorage v)"
proof -
  show "sv_rep N (sv_releaseHeapStorage v) []"
    using assms sv_rep_heap[OF assms] sv_rep_size[OF assms] by (auto simp: sv_releaseHeapStorage_def intro: sv_rep_reset)
  show "\<not> sv_usingHeapStorage (sv_releaseHeapStorage v)"
    by (auto simp: sv_releaseHeapStorage_def sv_usingHeapStorage_def sv_resetInlinePointer_def)
qed

text \<open>Growing to the needed capacity and constructing behind the elements.\<close>

lemma sv_append_rep:
  assumes "sv_rep N v xs" and "n = length xs + length ys" and "k = length xs"
  shows "\<exists>v'. bindR (sv_ensureCapacity v n) (\<lambda>v. bindR (sv_put v k ys) (\<lambda>v. Inr (v\<lparr>sv_size := n\<rparr>))) = Inr v' \<and>
    sv_rep N v' (xs @ ys)"
proof -
  obtain v1 where v1: "sv_ensureCapacity v n = Inr v1" "sv_rep N v1 xs" "n \<le> sv_capacity v1"
    using sv_ensureCapacity_rep[OF assms(1), of n] by blast
  obtain v2 where "sv_put v1 k ys = Inr v2" "sv_rep N (v2\<lparr>sv_size := n\<rparr>) (xs @ ys)"
    using sv_put_rep[OF v1(2), of ys] v1(3) assms(2,3) by auto
  with v1 show ?thesis by simp
qed

lemma sv_assignRange_rep:
  assumes "sv_rep N v xs"
  shows "\<exists>v'. sv_assignRange v ys = Inr v' \<and> sv_rep N v' ys"
proof -
  obtain v1 where v1: "sv_clear v = Inr v1" "sv_rep N v1 []"
    using sv_clear_rep[OF assms] by blast
  let ?v2 = "if sv_stack_capacity v1 > 0 \<and> sv_usingHeapStorage v1 \<and> length ys \<le> sv_stack_capacity v1
              then sv_releaseHeapStorage v1 else v1"
  have "sv_rep N ?v2 []"
    using v1(2) sv_releaseHeapStorage_rep by auto
  from sv_append_rep[OF this, of "length ys" ys 0] show ?thesis
    by (simp add: sv_assignRange_def v1(1) Let_def)
qed

text \<open>An argument denotes an object: its own value, or that of the element it refers to.\<close>

definition sv_value :: "'a list \<Rightarrow> 'a sv_arg \<Rightarrow> 'a" where
  "sv_value xs a = (case a of Val x \<Rightarrow> x | Own i \<Rightarrow> xs ! i)"

definition sv_argOk :: "'a list \<Rightarrow> 'a sv_arg \<Rightarrow> bool" where
  "sv_argOk xs a \<longleftrightarrow> (case a of Val x \<Rightarrow> True | Own i \<Rightarrow> i < length xs)"

definition sv_own :: "'a sv_arg \<Rightarrow> bool" where
  "sv_own a \<longleftrightarrow> (case a of Val x \<Rightarrow> False | Own i \<Rightarrow> True)"

lemma sv_deref_moved: "sv_deref True v a = (if sv_own a then Inl DanglingPointer else Inr (sv_value xs a))"
  by (auto simp: sv_deref_def sv_own_def sv_value_def split: sv_arg.splits)

lemma sv_deref_rep:
  assumes "sv_rep N v xs" and "sv_argOk xs a"
  shows "sv_deref moved v a = (if sv_own a \<and> moved then Inl DanglingPointer else Inr (sv_value xs a))"
  using assms by (auto simp: sv_deref_def sv_own_def sv_value_def sv_argOk_def sv_rep_cells nth_append split: sv_arg.splits)

lemma sv_deref_outside: "\<not> sv_own a \<Longrightarrow> sv_deref moved v a = Inr (sv_value xs a)"
  by (auto simp: sv_deref_def sv_own_def sv_value_def split: sv_arg.splits)

lemma sv_emplaceBack_rep:
  assumes "sv_rep N v xs" and "sv_argOk xs a"
  shows "if sv_own a \<and> length xs = sv_capacity v then sv_emplaceBack v a = Inl DanglingPointer
    else \<exists>v'. sv_emplaceBack v a = Inr v' \<and> sv_rep N v' (xs @ [sv_value xs a])"
proof -
  note D = sv_rep_size[OF assms(1)] sv_rep_capacity[OF assms(1)]
  obtain v1 where v1: "(if sv_size v = sv_capacity v then sv_ensureCapacity v (sv_size v + 1) else Inr v) = Inr v1"
    "sv_rep N v1 xs" "length xs + 1 \<le> sv_capacity v1"
    using sv_ensureCapacity_rep[OF assms(1), of "sv_size v + 1"] assms(1) D by fastforce
  obtain v2 where "sv_put v1 (length xs) [sv_value xs a] = Inr v2" "sv_size v2 = length xs"
    "sv_rep N (v2\<lparr>sv_size := length xs + 1\<rparr>) (xs @ [sv_value xs a])"
    using sv_put_rep[OF v1(2), of "[sv_value xs a]"] v1(3) by auto
  then show ?thesis
    unfolding sv_emplaceBack_def Let_def v1(1)
    using sv_deref_rep[OF v1(2) assms(2)] by (simp add: sv_rep_size[OF v1(2)] D)
qed

lemma sv_reserve_rep:
  assumes "sv_rep N v xs"
  shows "\<exists>v'. sv_reserve v n = Inr v' \<and> sv_rep N v' xs \<and> n \<le> sv_capacity v'"
  using assms sv_reallocate_rep[OF assms, of n] sv_rep_capacity[OF assms] by (fastforce simp: sv_reserve_def)

lemma sv_resize_shrink_rep:
  assumes "sv_rep N v xs" and "n < length xs"
  shows "\<exists>v'. sv_resize v n a = Inr v' \<and> sv_rep N v' (take n xs)"
proof -
  have "sv_cells v = map Some (take n xs) @ map Some (drop n xs) @ replicate (sv_capacity v - length xs) None"
    by (simp only: sv_rep_cells[OF assms(1)] append_assoc[symmetric] map_append[symmetric] append_take_drop_id)
  then have "sv_destroyRange (sv_cells v) n (length xs - n)
      = Inr (map Some (take n xs) @ replicate (sv_capacity v - length (take n xs)) None)"
    using cells_destroy_append[of "map Some (take n xs)" "drop n xs" "replicate (sv_capacity v - length xs) None"]
      assms(2) sv_rep_capacity[OF assms(1)]
    by (simp flip: replicate_add)
  then show ?thesis
    using sv_rep_withCells[OF assms(1), of "take n xs"] assms(2) sv_rep_capacity[OF assms(1)]
    by (simp add: sv_resize_def sv_rep_size[OF assms(1)])
qed

lemma sv_resize_grow_rep:
  assumes "sv_rep N v xs" and "length xs \<le> n" and "\<not> (sv_usingHeapStorage v \<and> length xs < n \<and> n \<le> N)"
    and "sv_argOk xs a"
  shows "if sv_own a \<and> sv_capacity v < n then sv_resize v n a = Inl DanglingPointer
    else \<exists>v'. sv_resize v n a = Inr v' \<and> sv_rep N v' (xs @ replicate (n - length xs) (sv_value xs a))"
proof (cases "n = length xs")
  case True
  with assms sv_rep_capacity[OF assms(1)] show ?thesis by (simp add: sv_resize_def sv_rep_size)
next
  case False
  let ?ys = "replicate (n - length xs) (sv_value xs a)"
  from False assms have "\<not> (sv_stack_capacity v > 0 \<and> sv_usingHeapStorage v \<and> n \<le> sv_stack_capacity v)"
    by (auto simp: sv_rep_stack)
  then have e: "sv_resize v n a = bindR (sv_ensureCapacity v n) (\<lambda>u. bindR (sv_deref (sv_capacity v < n) u a) (\<lambda>x.
      bindR (sv_put u (sv_size u) (replicate (n - sv_size u) x)) (\<lambda>u. Inr (u\<lparr>sv_size := n\<rparr>))))"
    using assms(1,2) False by (simp only: sv_resize_def sv_rep_size[OF assms(1)] Let_def) (simp del: not_less)
  obtain v1 where v1: "sv_ensureCapacity v n = Inr v1" "sv_rep N v1 xs" "n \<le> sv_capacity v1"
    using sv_ensureCapacity_rep[OF assms(1), of n] by blast
  obtain v2 where v2: "sv_put v1 (length xs) ?ys = Inr v2" "sv_rep N (v2\<lparr>sv_size := length xs + length ?ys\<rparr>) (xs @ ?ys)"
    using sv_put_rep[OF v1(2), of ?ys] v1(3) assms(2) by auto
  have "length xs + length ?ys = n" using assms(2) by simp
  with v2 show ?thesis
    by (simp add: e v1(1) sv_rep_size[OF v1(2)] sv_deref_rep[OF v1(2) assms(4)])
qed

lemma sv_assign_rep:
  assumes "sv_rep N v xs"
  shows "if 0 < n \<and> sv_own a then sv_assign v n a = Inl DanglingPointer
    else \<exists>v'. sv_assign v n a = Inr v' \<and> sv_rep N v' (replicate n (sv_value xs a))"
proof -
  obtain v1 where v1: "sv_clear v = Inr v1" "sv_rep N v1 []"
    using sv_clear_rep[OF assms] by blast
  define rel where "rel \<longleftrightarrow> sv_stack_capacity v1 > 0 \<and> sv_usingHeapStorage v1 \<and> n \<le> sv_stack_capacity v1"
  define v2 where "v2 = (if rel then sv_releaseHeapStorage v1 else v1)"
  have r2: "sv_rep N v2 []"
    using v1(2) sv_releaseHeapStorage_rep by (auto simp: v2_def)
  obtain v3 where v3: "sv_ensureCapacity v2 n = Inr v3" "sv_rep N v3 []" "n \<le> sv_capacity v3"
    using sv_ensureCapacity_rep[OF r2, of n] by blast
  have e: "sv_assign v n a = (if n = 0 then Inr (v3\<lparr>sv_size := 0\<rparr>)
      else bindR (sv_deref (rel \<or> n > sv_capacity v2) v3 a) (\<lambda>x.
           bindR (sv_put v3 0 (replicate n x)) (\<lambda>v. Inr (v\<lparr>sv_size := n\<rparr>))))"
    using v3(1) by (simp add: sv_assign_def v1(1) Let_def flip: rel_def v2_def)
  show ?thesis
  proof (cases "0 < n \<and> sv_own a")
    case True
    then obtain i where "a = Own i" by (cases a) (auto simp: sv_own_def)
    then have "sv_deref m v3 a = Inl DanglingPointer" for m
      using sv_rep_cells[OF v3(2)] by (auto simp: sv_deref_def)
    with True e show ?thesis by simp
  next
    case False
    obtain v4 where v4: "sv_put v3 0 (replicate n (sv_value xs a)) = Inr v4"
      "sv_rep N (v4\<lparr>sv_size := n\<rparr>) (replicate n (sv_value xs a))"
      using sv_put_rep[OF v3(2), of "replicate n (sv_value xs a)"] v3(3) by auto
    have "v3\<lparr>sv_size := 0\<rparr> = v3" using sv_rep_size[OF v3(2)] by simp
    then show ?thesis
      using e False v4 v3(2) sv_deref_outside[of a _ v3 xs] by (cases "n = 0") auto
  qed
qed

text \<open>Moving the elements into the inline cells.\<close>

lemma sv_put_inline:
  assumes "0 < N" and "length xs \<le> N" and "sv_inline v = replicate N None"
  shows "\<exists>v'. sv_put (sv_resetInlinePointer v) 0 xs = Inr v' \<and> sv_rep N (v'\<lparr>sv_size := length xs\<rparr>) xs \<and> sv_size v' = sv_size v"
proof -
  let ?v = "sv_resetInlinePointer v"
  have v: "sv_cells ?v = replicate N None" "sv_data ?v = InlineData" "sv_capacity ?v = N"
    "sv_inline ?v = replicate N None" "sv_size ?v = sv_size v"
    using assms by (simp_all add: sv_resetInlinePointer_def sv_stack_capacity_def sv_cells_def)
  have "cells_construct (replicate N None) 0 xs = Inr (map Some xs @ replicate (N - length xs) None)"
    using cells_construct_append[of "[]" xs "replicate (N - length xs) None"] assms(2)
    by (simp flip: replicate_add)
  then show ?thesis
    using assms(1,2) by (auto simp: sv_put_def v sv_rep_def sv_withCells_def sv_cells_def)
qed

lemma sv_rep_inline_free:
  assumes "sv_rep N v xs"
  shows "drop (length xs) (sv_inline v) = replicate (N - length xs) None"
proof (cases "sv_usingHeapStorage v")
  case True
  then show ?thesis by (simp add: sv_rep_heap[OF assms])
next
  case False
  with sv_rep_no_heap[OF assms] sv_rep_cells[OF assms] assms show ?thesis
    by (cases "0 < N") (auto simp: sv_cells_def sv_rep_def)
qed

lemma sv_shrinkToFit_rep:
  assumes "sv_rep N v xs"
  shows "if xs \<noteq> [] \<and> \<not> sv_usingHeapStorage v then sv_shrinkToFit v = Inl DanglingPointer
    else \<exists>v'. sv_shrinkToFit v = Inr v' \<and> sv_rep N v' xs \<and> sv_capacity v' = max N (length xs)"
proof -
  note D = sv_rep_size[OF assms] sv_rep_stack[OF assms] sv_rep_capacity[OF assms]
  consider (empty) "xs = []" | (self) "xs \<noteq> []" "\<not> sv_usingHeapStorage v"
    | (inline) "xs \<noteq> []" "sv_usingHeapStorage v" "0 < N" "length xs \<le> N"
    | (heap) "xs \<noteq> []" "sv_usingHeapStorage v" "N < length xs"
    by fastforce
  then show ?thesis
  proof cases
    case empty
    have "sv_inline v = replicate N None"
      using sv_rep_inline_free[OF assms] empty by simp
    then have "sv_rep N (sv_resetInlinePointer (sv_releaseHeapStorage v)) []"
      using D(1) empty by (intro sv_rep_reset) (auto simp: sv_releaseHeapStorage_def sv_resetInlinePointer_def)
    then show ?thesis
      using D empty by (auto simp: sv_shrinkToFit_def sv_releaseHeapStorage_def sv_resetInlinePointer_def sv_stack_capacity_def)
  next
    case self
    with sv_rep_no_heap[OF assms] D show ?thesis
      by (cases xs) (auto simp: sv_shrinkToFit_def)
  next
    case inline
    obtain v' where v': "sv_put (sv_resetInlinePointer v) 0 xs = Inr v'" "sv_rep N (v'\<lparr>sv_size := length xs\<rparr>) xs" "sv_size v' = sv_size v"
      using sv_put_inline[OF inline(3,4) sv_rep_heap[OF assms inline(2)]] by blast
    have "v'\<lparr>sv_size := length xs\<rparr> = v'"
      using v'(3) D by simp
    moreover have "sv_capacity v' = N"
      using v'(1) D(2) inline(3)
      by (auto simp: sv_put_def bindR_Inr_iff sv_resetInlinePointer_def sv_stack_capacity_def)
    moreover have "sv_shrinkToFit v = sv_put (sv_resetInlinePointer v) 0 xs"
      using inline D by (simp add: sv_shrinkToFit_def sv_rep_cells[OF assms])
    ultimately show ?thesis
      using v' inline by simp
  next
    case heap
    show ?thesis
    proof (cases "length xs < sv_capacity v")
      case True
      with sv_reallocate_rep[OF assms, of "length xs"] heap D show ?thesis
        by (simp add: sv_shrinkToFit_def max_def)
    next
      case False
      with heap D assms show ?thesis
        by (simp add: sv_shrinkToFit_def max_def)
    qed
  qed
qed

text \<open>After the gap is open, the elements before it are in place and those behind it have moved up.\<close>

lemma sv_openGap_rep:
  assumes "sv_rep N v xs" and "i \<le> length xs"
  shows "\<exists>u. sv_openGap v i c = Inr u \<and> sv_size u = length xs \<and> length xs + c \<le> sv_capacity u \<and>
    sv_cells u = map Some (take i xs) @ replicate c None @ map Some (drop i xs) @
      replicate (sv_capacity u - (length xs + c)) None \<and>
    (\<forall>ys. length ys = c \<longrightarrow> (\<exists>w. sv_put u i ys = Inr w \<and> sv_size w = length xs \<and>
       sv_rep N (w\<lparr>sv_size := length xs + c\<rparr>) (take i xs @ ys @ drop i xs)))"
proof -
  obtain v1 where v1: "sv_ensureCapacity v (length xs + c) = Inr v1" "sv_rep N v1 xs" "length xs + c \<le> sv_capacity v1"
    using sv_ensureCapacity_rep[OF assms(1), of "length xs + c"] by blast
  let ?free = "replicate (sv_capacity v1 - (length xs + c)) None"
  let ?cs = "map Some (take i xs) @ replicate c None @ map Some (drop i xs) @ ?free"
  have "sv_cells v1 = map Some (take i xs) @ map Some (drop i xs) @ replicate c None @ ?free"
    using v1(3) by (simp only: sv_rep_cells[OF v1(2)] append_assoc[symmetric] map_append[symmetric] append_take_drop_id)
      (simp flip: replicate_add)
  then have shift: "sv_shiftRight (sv_cells v1) i c (sv_size v1 - i) = Inr ?cs"
    using cells_shiftRight_append[of "map Some (take i xs)" "drop i xs" c ?free] assms(2)
    by (simp add: sv_rep_size[OF v1(2)] min_absorb2)
  have "length ?cs = sv_capacity v1"
    using v1(3) assms(2) by simp
  then have cells: "sv_cells (sv_withCells v1 ?cs) = ?cs"
    by (rule sv_cells_withCells[OF v1(2)])
  have "\<exists>w. sv_put (sv_withCells v1 ?cs) i ys = Inr w \<and> sv_size w = length xs \<and>
      sv_rep N (w\<lparr>sv_size := length xs + c\<rparr>) (take i xs @ ys @ drop i xs)" if ys: "length ys = c" for ys
  proof -
    let ?l = "take i xs @ ys @ drop i xs"
    have l: "length ?l = length xs + c" using assms(2) ys by simp
    have "cells_construct ?cs i ys = Inr (map Some ?l @ replicate (sv_capacity v1 - length ?l) None)"
      using cells_construct_append[of "map Some (take i xs)" ys "map Some (drop i xs) @ ?free"] assms(2) ys l
      by (simp add: min_absorb2)
    then show ?thesis
      using sv_rep_withCells[OF v1(2), of ?l] v1(3) l by (simp add: sv_put_def cells sv_rep_size[OF v1(2)])
  qed
  then show ?thesis
    using v1 shift cells
    by (intro exI[of _ "sv_withCells v1 ?cs"]) (simp add: sv_openGap_def sv_rep_size[OF assms(1)] sv_rep_size[OF v1(2)])
qed

lemma sv_insertRange_rep:
  assumes "sv_rep N v xs" and "i \<le> length xs"
  shows "\<exists>v'. sv_insertRange v i ys = Inr v' \<and> sv_rep N v' (take i xs @ ys @ drop i xs)"
  using sv_openGap_rep[OF assms, of "length ys"] by (fastforce simp: sv_insertRange_def)

text \<open>An own element behind the insertion point is read after it has moved: the cell then holds nothing, or
  an earlier element.\<close>

lemma sv_insertCount_rep:
  assumes "sv_rep N v xs" and "i \<le> length xs" and "sv_argOk xs a" and "0 < c"
  shows "case a of
      Val x \<Rightarrow> \<exists>v'. sv_insertCount v i c a = Inr v' \<and> sv_rep N v' (take i xs @ replicate c x @ drop i xs)
    | Own k \<Rightarrow>
        if sv_capacity v < length xs + c \<or> i \<le> k \<and> k < i + c then sv_insertCount v i c a = Inl DanglingPointer
        else \<exists>v'. sv_insertCount v i c a = Inr v' \<and>
          sv_rep N v' (take i xs @ replicate c (if k < i then xs ! k else xs ! (k - c)) @ drop i xs)"
proof -
  obtain u where u: "sv_openGap v i c = Inr u" "sv_size u = length xs"
    "sv_cells u = map Some (take i xs) @ replicate c None @ map Some (drop i xs) @
      replicate (sv_capacity u - (length xs + c)) None"
    and put: "\<And>ys. length ys = c \<Longrightarrow> \<exists>w. sv_put u i ys = Inr w \<and> sv_size w = length xs \<and>
       sv_rep N (w\<lparr>sv_size := length xs + c\<rparr>) (take i xs @ ys @ drop i xs)"
    using sv_openGap_rep[OF assms(1,2), of c] by blast
  have e: "sv_insertCount v i c a = bindR (sv_deref (sv_capacity v < length xs + c) u a) (\<lambda>x.
      bindR (sv_put u i (replicate c x)) (\<lambda>w. Inr (w\<lparr>sv_size := sv_size w + c\<rparr>)))"
    using assms(4) by (simp add: sv_insertCount_def Let_def sv_rep_size[OF assms(1)] u(1))
  have fin: "\<exists>v'. sv_insertCount v i c a = Inr v' \<and> sv_rep N v' (take i xs @ replicate c x @ drop i xs)"
    if "sv_deref (sv_capacity v < length xs + c) u a = Inr x" for x
    using put[of "replicate c x"] that by (fastforce simp: e)
  show ?thesis
  proof (cases a)
    case (Val x)
    with fin[of x] show ?thesis by (simp add: sv_deref_def)
  next
    case (Own k)
    then have k: "k < length xs" using assms(3) by (simp add: sv_argOk_def)
    have "cells_read (sv_cells u) k 1 =
        (if k < i then Inr [xs ! k] else if k < i + c then Inl DanglingPointer else Inr [xs ! (k - c)])"
      using k assms(2) by (simp add: u(3) nth_append min_absorb2) (auto simp: nth_append)
    then have d: "sv_deref (sv_capacity v < length xs + c) u a =
        (if sv_capacity v < length xs + c \<or> i \<le> k \<and> k < i + c then Inl DanglingPointer
         else Inr (if k < i then xs ! k else xs ! (k - c)))"
      by (simp add: sv_deref_def Own del: cells_read.simps)
    show ?thesis
    proof (cases "sv_capacity v < length xs + c \<or> i \<le> k \<and> k < i + c")
      case True
      with e d show ?thesis by (simp only: Own sv_arg.case if_True) simp
    next
      case False
      with fin[of "if k < i then xs ! k else xs ! (k - c)"] d show ?thesis
        by (simp only: Own sv_arg.case if_False simp_thms)
    qed
  qed
qed

lemma sv_erase_rep:
  assumes "sv_rep N v xs" and "i \<le> j" and "j \<le> length xs"
  shows "\<exists>v'. sv_erase v i j = Inr v' \<and> sv_rep N v' (take i xs @ drop j xs)"
proof (cases "i = j")
  case True
  with assms show ?thesis by (simp add: sv_erase_def)
next
  case False
  let ?free = "replicate (sv_capacity v - length xs) None"
  let ?ys = "drop i (take j xs)"
  have xs: "xs = take i xs @ ?ys @ drop j xs"
    using assms(2) by (metis append_assoc append_take_drop_id min_absorb1 take_take)
  obtain gs where gs: "length gs = j - i"
    "cells_shiftLeft (map Some (take i xs @ ?ys @ drop j xs) @ ?free) (length (take i xs)) (j - i) (length (drop j xs))
      = Inr (map Some (take i xs @ drop j xs @ gs) @ ?free)"
    using cells_shiftLeft_append[of ?ys "j - i" "take i xs" "drop j xs" ?free] assms by fastforce
  have shift: "cells_shiftLeft (sv_cells v) i (j - i) (length xs - (j - i) - i)
      = Inr (map Some (take i xs @ drop j xs) @ map Some gs @ ?free)"
    using gs(2) assms(2,3) by (simp add: sv_rep_cells[OF assms(1)] flip: xs map_append)
  have len: "length (take i xs @ drop j xs) = length xs - (j - i)"
    using assms by simp
  have "sv_destroyRange (map Some (take i xs @ drop j xs) @ map Some gs @ ?free) (length xs - (j - i)) (j - i)
      = Inr (map Some (take i xs @ drop j xs) @ replicate (sv_capacity v - length (take i xs @ drop j xs)) None)"
    using cells_destroy_append[of "map Some (take i xs @ drop j xs)" gs ?free] gs(1) len assms(2,3) sv_rep_capacity[OF assms(1)]
    by (simp flip: replicate_add)
  then show ?thesis
    using sv_rep_withCells[OF assms(1), of "take i xs @ drop j xs"] sv_rep_capacity[OF assms(1)] False shift len
    by (simp add: sv_erase_def sv_rep_size[OF assms(1)] Let_def)
qed

lemma sv_popBack_rep:
  assumes "sv_rep N v xs"
  shows "\<exists>v'. sv_popBack v = Inr v' \<and> sv_rep N v' (butlast xs)"
proof (cases "xs = []")
  case True
  with assms show ?thesis by (simp add: sv_popBack_def sv_rep_size)
next
  case False
  then obtain ys y where xs: "xs = ys @ [y]" by (cases xs rule: rev_cases) auto
  have "replicate (sv_capacity v - length ys) None = None # replicate (sv_capacity v - length xs) (None :: 'a option)"
    using sv_rep_capacity[OF assms] by (simp add: xs Suc_diff_Suc flip: replicate_Suc)
  then have "sv_destroyRange (sv_cells v) (length ys) 1 = Inr (map Some ys @ replicate (sv_capacity v - length ys) None)"
    using cells_destroy_append[of "map Some ys" "[y]" "replicate (sv_capacity v - length xs) None"] sv_rep_capacity[OF assms]
    by (simp add: sv_rep_cells[OF assms] xs del: sv_destroyRange.simps)
  then show ?thesis
    using sv_rep_withCells[OF assms, of ys] sv_rep_capacity[OF assms]
    by (simp add: sv_popBack_def sv_rep_size[OF assms] xs)
qed

lemma sv_moveFrom_rep:
  assumes "sv_rep N v []" and "\<not> sv_usingHeapStorage v" and "sv_rep N other ys"
  shows "\<exists>v' other'. sv_moveFrom v other = Inr (v', other') \<and> sv_rep N v' ys \<and> sv_rep N other' []"
proof (cases "sv_usingHeapStorage other")
  case True
  have free: "sv_inline v = replicate N None"
    using sv_rep_inline_free[OF assms(1)] by simp
  have "sv_rep N (v\<lparr>sv_size := sv_size other, sv_capacity := sv_capacity other, sv_data := sv_data other\<rparr>) ys"
    using assms(3) True free by (auto simp: sv_rep_def sv_usingHeapStorage_def sv_cells_def split: sv_storage.splits)
  moreover have "sv_rep N (sv_resetToStack other) []"
    using sv_rep_heap[OF assms(3) True]
    by (auto simp: sv_resetToStack_def sv_resetInlinePointer_def sv_stack_capacity_def sv_rep_def sv_cells_def)
  ultimately show ?thesis
    using True by (simp add: sv_moveFrom_def)
next
  case False
  obtain other' where other': "sv_clear other = Inr other'" "sv_rep N other' []"
    using sv_clear_rep[OF assms(3)] by blast
  have fits: "length ys \<le> N"
    using sv_rep_no_heap[OF assms(3) False] sv_rep_capacity[OF assms(3)] by simp
  have rep0: "sv_rep N ((sv_resetInlinePointer v)\<lparr>sv_size := 0\<rparr>) []" "sv_capacity ((sv_resetInlinePointer v)\<lparr>sv_size := 0\<rparr>) = N"
    using sv_rep_inline_free[OF assms(1)]
    by (auto simp: sv_resetInlinePointer_def sv_stack_capacity_def sv_rep_def sv_cells_def)
  obtain v' where "sv_put ((sv_resetInlinePointer v)\<lparr>sv_size := 0\<rparr>) 0 ys = Inr v'" "sv_rep N (v'\<lparr>sv_size := length ys\<rparr>) ys"
    using sv_put_rep[OF rep0(1), of ys] fits rep0(2) by auto
  with False other' show ?thesis
    by (simp add: sv_moveFrom_def sv_rep_cells[OF assms(3)] sv_rep_size[OF assms(3)])
qed

lemma sv_moveAssign_rep:
  assumes "sv_rep N v xs" and "sv_rep N other ys"
  shows "\<exists>v' other'. sv_moveAssign v other = Inr (v', other') \<and> sv_rep N v' ys \<and> sv_rep N other' []"
proof -
  obtain v1 where "sv_clear v = Inr v1" "sv_rep N v1 []"
    using sv_clear_rep[OF assms(1)] by blast
  then show ?thesis
    using sv_moveFrom_rep[OF sv_releaseHeapStorage_rep assms(2)] by (simp add: sv_moveAssign_def)
qed

lemma sv_new_no_heap: "\<not> sv_usingHeapStorage (sv_new N)"
  by (simp add: sv_new_def sv_usingHeapStorage_def sv_resetInlinePointer_def)

lemma sv_swap_rep:
  assumes "sv_rep N v xs" and "sv_rep N other ys"
  shows "\<exists>v' other'. sv_swap v other = Inr (v', other') \<and> sv_rep N v' ys \<and> sv_rep N other' xs"
proof (cases "sv_usingHeapStorage v \<and> sv_usingHeapStorage other")
  case True
  with assms show ?thesis
    by (auto simp: sv_swap_def sv_rep_def sv_usingHeapStorage_def sv_cells_def split: sv_storage.splits)
next
  case False
  obtain tmp o1 where 1: "sv_moveFrom (sv_new N) other = Inr (tmp, o1)" "sv_rep N tmp ys" "sv_rep N o1 []"
    using sv_moveFrom_rep[OF sv_new_rep sv_new_no_heap assms(2)] by blast
  obtain o2 v1 where 2: "sv_moveAssign o1 v = Inr (o2, v1)" "sv_rep N o2 xs" "sv_rep N v1 []"
    using sv_moveAssign_rep[OF 1(3) assms(1)] by blast
  obtain v2 tmp' where 3: "sv_moveAssign v1 tmp = Inr (v2, tmp')" "sv_rep N v2 ys"
    using sv_moveAssign_rep[OF 2(3) 1(2)] by blast
  have "sv_swap v other = Inr (v2, o2)"
    unfolding sv_swap_def sv_rep_stack[OF assms(2)] if_not_P[OF False] using 1(1) 2(1) 3(1) by simp
  with 2(2) 3(2) show ?thesis
    by blast
qed

lemma sv_copy_rep:
  assumes "sv_rep N other ys"
  shows "\<exists>v'. sv_copy other = Inr v' \<and> sv_rep N v' ys"
  using sv_assignRange_rep[OF sv_new_rep] by (simp add: sv_copy_def sv_contents_rep[OF assms] sv_rep_stack[OF assms])

lemma sv_copyAssign_rep:
  assumes "sv_rep N v xs" and "sv_rep N other ys"
  shows "\<exists>v'. sv_copyAssign v other = Inr v' \<and> sv_rep N v' ys"
  using sv_assignRange_rep[OF assms(1)] by (simp add: sv_copyAssign_def sv_contents_rep[OF assms(2)])

lemma sv_at_rep:
  assumes "sv_rep N v xs"
  shows "sv_at v i = (if i < length xs then Inr (xs ! i) else Inl StdOutOfRange)"
  using sv_rep_capacity[OF assms] by (auto simp: sv_at_def sv_rep_size[OF assms] sv_rep_cells[OF assms] nth_append)

text \<open>Growing from the heap to a size that fits inline: the elements are lost, if there are any.\<close>

lemma sv_resize_from_heap_empty:
  assumes "sv_rep N v []" and "sv_argOk [] a" and "0 < n"
  shows "\<exists>v'. sv_resize v n a = Inr v' \<and> sv_rep N v' (replicate n (sv_value [] a))"
proof (cases "sv_usingHeapStorage v \<and> n \<le> N")
  case False
  then show ?thesis
    using sv_resize_grow_rep[OF assms(1), of n a] assms(2,3)
    by (cases a) (auto simp: sv_own_def sv_argOk_def)
next
  case True
  let ?u = "sv_releaseHeapStorage v"
  have u: "sv_rep N ?u []" "sv_capacity ?u = N" "sv_size ?u = 0"
    using sv_releaseHeapStorage_rep[OF assms(1)] sv_rep_no_heap sv_rep_size by fastforce+
  obtain x where x: "a = Val x" using assms(2) by (cases a) (auto simp: sv_argOk_def)
  obtain w where "sv_put ?u 0 (replicate n x) = Inr w" "sv_rep N (w\<lparr>sv_size := n\<rparr>) (replicate n x)"
    using sv_put_rep[OF u(1), of "replicate n x"] u(2) True by auto
  then show ?thesis
    using True assms(3) u
    by (simp add: sv_resize_def sv_rep_size[OF assms(1)] sv_rep_stack[OF assms(1)] x sv_deref_def sv_value_def
        sv_ensureCapacity_def)
qed

lemma sv_resize_loses:
  assumes "sv_rep N v xs" and "sv_usingHeapStorage v" and "xs \<noteq> []" and "length xs < n" and "n \<le> N"
  shows "bindR (sv_resize v n a) sv_contents = Inl DanglingPointer"
proof -
  let ?u = "sv_resetInlinePointer v" and ?k = "n - length xs"
  have u: "sv_cells ?u = replicate N None" "sv_data ?u = InlineData" "sv_capacity ?u = N" "sv_size ?u = length xs"
    "sv_inline ?u = replicate N None"
    using sv_rep_heap[OF assms(1,2)] assms sv_rep_size[OF assms(1)]
    by (simp_all add: sv_resetInlinePointer_def sv_stack_capacity_def sv_cells_def)
  have e: "sv_resize v n a = bindR (sv_deref True ?u a) (\<lambda>x.
      bindR (sv_put ?u (length xs) (replicate ?k x)) (\<lambda>w. Inr (w\<lparr>sv_size := n\<rparr>)))"
    using assms u
    by (simp add: sv_resize_def sv_rep_size[OF assms(1)] sv_rep_stack[OF assms(1)] sv_releaseHeapStorage_def
        sv_ensureCapacity_def Let_def)
  have split: "replicate N None = replicate (length xs) None @ replicate ?k None @ replicate (N - n) (None :: 'a option)"
    using assms(4,5) by (simp flip: replicate_add)
  have "cells_construct (replicate N None) (length xs) (replicate ?k x)
      = Inr (replicate (length xs) None @ map Some (replicate ?k x) @ replicate (N - n) None)" for x :: 'a
    using cells_construct_append[of "replicate (length xs) None" "replicate ?k x" "replicate (N - n) None"]
    by (simp add: split)
  then show ?thesis
    unfolding e using assms(3,4)
    by (cases a; cases xs; cases n) (auto simp: sv_deref_def sv_put_def u sv_contents_def sv_withCells_def sv_cells_def)
qed

text \<open>What an operation leaves: the vector of a list, or an exception value.\<close>

definition sv_result :: "nat \<Rightarrow> 'a small_vector res \<Rightarrow> 'a list res \<Rightarrow> bool" where
  "sv_result N r e \<longleftrightarrow>
     (case e of Inl er \<Rightarrow> r = Inl er | Inr ys \<Rightarrow> (\<exists>v'. r = Inr v' \<and> sv_rep N v' ys))"

lemma sv_insertCount_result:
  assumes "sv_rep N v xs" and "i \<le> length xs" and "sv_argOk xs a" and "0 < c"
  shows "sv_result N (sv_insertCount v i c a)
      (case a of
         Val x \<Rightarrow> Inr (take i xs @ replicate c x @ drop i xs)
       | Own k \<Rightarrow>
           if sv_capacity v < length xs + c \<or> i \<le> k \<and> k < i + c then Inl DanglingPointer
           else Inr (take i xs @ replicate c (if k < i then xs ! k else xs ! (k - c)) @ drop i xs))"
proof (cases a)
  case (Val x)
  with sv_insertCount_rep[OF assms] show ?thesis by (simp add: sv_result_def)
next
  case (Own k)
  show ?thesis
  proof (cases "sv_capacity v < length xs + c \<or> i \<le> k \<and> k < i + c")
    case True
    with sv_insertCount_rep[OF assms] Own show ?thesis
      by (simp only: Own sv_arg.case if_True sv_result_def sum.case)
  next
    case False
    with sv_insertCount_rep[OF assms] Own show ?thesis
      by (simp only: Own sv_arg.case if_False sv_result_def sum.case)
  qed
qed

lemma sv_resize_cases:
  assumes "sv_rep N v xs" and "sv_argOk xs a"
  shows "if n < length xs then sv_result N (sv_resize v n a) (Inr (take n xs))
     else if sv_usingHeapStorage v \<and> xs \<noteq> [] \<and> length xs < n \<and> n \<le> N
     then bindR (sv_resize v n a) sv_contents = Inl DanglingPointer
     else sv_result N (sv_resize v n a)
       (if sv_own a \<and> sv_capacity v < n then Inl DanglingPointer
        else Inr (xs @ replicate (n - length xs) (sv_value xs a)))"
proof -
  consider (shrink) "n < length xs"
    | (lost) "sv_usingHeapStorage v" "xs \<noteq> []" "length xs < n" "n \<le> N"
    | (empty) "xs = []" "0 < n"
    | (grow) "length xs \<le> n" "\<not> (sv_usingHeapStorage v \<and> length xs < n \<and> n \<le> N)"
    by fastforce
  then show ?thesis
  proof cases
    case shrink
    with sv_resize_shrink_rep[OF assms(1)] show ?thesis by (simp add: sv_result_def)
  next
    case lost
    with sv_resize_loses[OF assms(1) lost] show ?thesis by simp
  next
    case empty
    with sv_resize_from_heap_empty[of N v a n] assms show ?thesis
      by (cases a) (simp_all add: sv_result_def sv_own_def sv_argOk_def)
  next
    case grow
    with sv_resize_grow_rep[OF assms(1) grow assms(2)] show ?thesis
      by (auto simp: sv_result_def split: if_splits)
  qed
qed


text \<open>A vector with two inline cells that holds three numbers on the heap.\<close>

definition sv_ex :: "nat small_vector" where
  "sv_ex = \<lparr>sv_inline = [None, None], sv_size = 3, sv_capacity = 4,
     sv_data = HeapData [Some 7, Some 8, Some 9, None]\<rparr>"

lemma sv_ex_rep: "sv_rep 2 sv_ex [7, 8, 9]"
  by (simp add: sv_rep_def sv_ex_def sv_cells_def numeral_2_eq_2)


text \<open>
  moving, swapping and copying transfer the elements, whichever of the two vectors is inline and
  whichever is on the heap: the target then holds exactly the elements of the source, a moved-from
  vector is empty and valid, and \<open>swap\<close> exchanges the contents.
\<close>

theorem sv_transfer:
  assumes "sv_rep N v xs" and "sv_rep N other ys"
  shows "(\<exists>v' other'. sv_moveAssign v other = Inr (v', other') \<and> sv_rep N v' ys \<and> sv_rep N other' []) \<and>
    (\<exists>v' other'. sv_moveFrom (sv_new N) other = Inr (v', other') \<and> sv_rep N v' ys \<and> sv_rep N other' []) \<and>
    (\<exists>v' other'. sv_swap v other = Inr (v', other') \<and> sv_rep N v' ys \<and> sv_rep N other' xs) \<and>
    (\<exists>v'. sv_copy other = Inr v' \<and> sv_rep N v' ys) \<and>
    (\<exists>v'. sv_copyAssign v other = Inr v' \<and> sv_rep N v' ys)"
  using sv_moveAssign_rep[OF assms] sv_moveFrom_rep[OF sv_new_rep sv_new_no_heap assms(2)] sv_swap_rep[OF assms]
    sv_copy_rep[OF assms(2)] sv_copyAssign_rep[OF assms]
  by blast

theorem sv_transfer_witness:
  "\<exists>v' other'. sv_swap (sv_new 2) sv_ex = Inr (v', other') \<and> sv_rep 2 v' [7, 8, 9] \<and> sv_rep 2 other' []"
  using sv_transfer[OF sv_new_rep sv_ex_rep] by blast

end
