(* ===== verification/LruList.thy ===== *)
theory LruList
  imports Prelude "HOL-Library.AList"
begin

text \<open>
  \<open>base/lru_list.h\<close>: the intrusive circular doubly linked list.  Nodes live in a heap that maps
  addresses to nodes, the sentinel at address 0; a link is an optional address, \<open>nullptr\<close> is \<open>None\<close>,
  and a dereference of \<open>None\<close> or of an address without a node is the exception value
  \<open>DanglingPointer\<close>.  The operations refine operations on the list of addresses from the most to the
  least recently used (\<open>lru_rep\<close>); the locale \<open>recency\<close> is what the kernel registry relies on.
\<close>

section \<open>Nodes and links\<close>

record 'k lru_node =
  ln_key :: 'k
  ln_prev :: "nat option"
  ln_next :: "nat option"

record 'k lru_list =
  lru_heap :: "nat \<rightharpoonup> 'k lru_node"
  lru_count :: u64

abbreviation (input) lru_sentinel :: nat where "lru_sentinel \<equiv> 0"

definition lru_node_new :: "'k \<Rightarrow> 'k lru_node" where
  "lru_node_new k = \<lparr>ln_key = k, ln_prev = None, ln_next = None\<rparr>"

definition lru_new :: "'k \<Rightarrow> 'k lru_list" where
  "lru_new k0 = \<lparr>lru_heap = [lru_sentinel \<mapsto>
     (lru_node_new k0)\<lparr>ln_prev := Some lru_sentinel, ln_next := Some lru_sentinel\<rparr>], lru_count = 0\<rparr>"

definition lru_deref :: "nat option \<Rightarrow> ('k lru_list, 'k lru_node) act" where
  "lru_deref p L = (case Option.bind p (lru_heap L) of None \<Rightarrow> (Inl DanglingPointer, L) | Some n \<Rightarrow> (Inr n, L))"

definition lru_store :: "nat option \<Rightarrow> ('k lru_node \<Rightarrow> 'k lru_node) \<Rightarrow> ('k lru_list, unit) act" where
  "lru_store p f L =
     (case p of
        None \<Rightarrow> (Inl DanglingPointer, L)
      | Some a \<Rightarrow>
          (case lru_heap L a of
             None \<Rightarrow> (Inl DanglingPointer, L)
           | Some n \<Rightarrow> (Inr (), L\<lparr>lru_heap := (lru_heap L)(a \<mapsto> f n)\<rparr>)))"

definition lru_setPrev :: "nat option \<Rightarrow> nat option \<Rightarrow> ('k lru_list, unit) act" where
  "lru_setPrev p v = lru_store p (ln_prev_update (\<lambda>_. v))"

definition lru_setNext :: "nat option \<Rightarrow> nat option \<Rightarrow> ('k lru_list, unit) act" where
  "lru_setNext p v = lru_store p (ln_next_update (\<lambda>_. v))"

section \<open>Operations\<close>

definition lru_linkAfter :: "nat \<Rightarrow> nat \<Rightarrow> ('k lru_list, unit) act" where
  "lru_linkAfter pos n =
     bindA (lru_setPrev (Some n) (Some pos)) (\<lambda>_.
     bindA (lru_deref (Some pos)) (\<lambda>p.
     bindA (lru_setNext (Some n) (ln_next p)) (\<lambda>_.
     bindA (lru_deref (Some pos)) (\<lambda>p.
     bindA (lru_setPrev (ln_next p) (Some n)) (\<lambda>_.
     lru_setNext (Some pos) (Some n))))))"

definition lru_unlinkNode :: "nat \<Rightarrow> ('k lru_list, unit) act" where
  "lru_unlinkNode n =
     bindA (lru_deref (Some n)) (\<lambda>x.
     bindA (lru_setNext (ln_prev x) (ln_next x)) (\<lambda>_.
     bindA (lru_deref (Some n)) (\<lambda>x.
     bindA (lru_setPrev (ln_next x) (ln_prev x)) (\<lambda>_.
     bindA (lru_setPrev (Some n) None) (\<lambda>_.
     lru_setNext (Some n) None)))))"

definition lru_sentinelNode :: "('k lru_list, 'k lru_node) act" where
  "lru_sentinelNode = lru_deref (Some lru_sentinel)"

definition lru_isEmpty :: "('k lru_list, bool) act" where
  "lru_isEmpty = bindA lru_sentinelNode (\<lambda>s. returnA (ln_next s = Some lru_sentinel))"

definition lru_touch :: "nat option \<Rightarrow> ('k lru_list, unit) act" where
  "lru_touch node =
     (case node of
        None \<Rightarrow> returnA ()
      | Some n \<Rightarrow>
          if n = lru_sentinel then returnA ()
          else bindA lru_sentinelNode (\<lambda>s.
               if ln_next s = Some n then returnA ()
               else bindA (lru_unlinkNode n) (\<lambda>_. lru_linkAfter lru_sentinel n)))"

definition lru_pushFront :: "nat option \<Rightarrow> ('k lru_list, unit) act" where
  "lru_pushFront node =
     (case node of
        None \<Rightarrow> returnA ()
      | Some n \<Rightarrow>
          if n = lru_sentinel then returnA ()
          else bindA (lru_linkAfter lru_sentinel n) (\<lambda>_ L. (Inr (), L\<lparr>lru_count := lru_count L + 1\<rparr>)))"

definition lru_popBack :: "('k lru_list, nat option) act" where
  "lru_popBack =
     bindA lru_isEmpty (\<lambda>e.
     if e then returnA None
     else bindA lru_sentinelNode (\<lambda>s.
          case ln_prev s of
            None \<Rightarrow> (\<lambda>L. (Inl DanglingPointer, L))
          | Some n \<Rightarrow> bindA (lru_unlinkNode n) (\<lambda>_ L. (Inr (Some n), L\<lparr>lru_count := lru_count L - 1\<rparr>))))"

definition lru_remove :: "nat option \<Rightarrow> ('k lru_list, unit) act" where
  "lru_remove node =
     (case node of
        None \<Rightarrow> returnA ()
      | Some n \<Rightarrow>
          if n = lru_sentinel then returnA ()
          else bindA (lru_unlinkNode n) (\<lambda>_ L. (Inr (), L\<lparr>lru_count := lru_count L - 1\<rparr>)))"

definition lru_back :: "('k lru_list, nat option) act" where
  "lru_back =
     bindA lru_isEmpty (\<lambda>e.
     if e then returnA None else bindA lru_sentinelNode (\<lambda>s. returnA (ln_prev s)))"

definition lru_front :: "('k lru_list, nat option) act" where
  "lru_front =
     bindA lru_isEmpty (\<lambda>e.
     if e then returnA None else bindA lru_sentinelNode (\<lambda>s. returnA (ln_next s)))"

definition lru_clear :: "('k lru_list, unit) act" where
  "lru_clear =
     bindA (lru_setPrev (Some lru_sentinel) (Some lru_sentinel)) (\<lambda>_.
     bindA (lru_setNext (Some lru_sentinel) (Some lru_sentinel)) (\<lambda>_ L. (Inr (), L\<lparr>lru_count := 0\<rparr>)))"

text \<open>
  The node's owner (a \<open>std::unique_ptr\<close> in the registry) allocates and frees it: \<open>lru_alloc\<close> takes an
  address at which there is no node.
\<close>

definition lru_alloc :: "nat \<Rightarrow> 'k \<Rightarrow> 'k lru_list \<Rightarrow> 'k lru_list" where
  "lru_alloc a k L = L\<lparr>lru_heap := (lru_heap L)(a \<mapsto> lru_node_new k)\<rparr>"

definition lru_free :: "nat \<Rightarrow> 'k lru_list \<Rightarrow> 'k lru_list" where
  "lru_free a L = L\<lparr>lru_heap := (lru_heap L)(a := None)\<rparr>"

section \<open>Linked segments\<close>

abbreviation "lru_nextOf L a \<equiv> Option.bind (lru_heap L a) ln_next"
abbreviation "lru_prevOf L a \<equiv> Option.bind (lru_heap L a) ln_prev"

fun lru_linked :: "'k lru_list \<Rightarrow> nat list \<Rightarrow> bool" where
  "lru_linked L (a # b # xs) \<longleftrightarrow>
     lru_nextOf L a = Some b \<and> lru_prevOf L b = Some a \<and> lru_linked L (b # xs)"
| "lru_linked L _ \<longleftrightarrow> True"

lemma lru_linked_append: "lru_linked L (xs @ a # ys) \<longleftrightarrow> lru_linked L (xs @ [a]) \<and> lru_linked L (a # ys)"
proof (induction xs)
  case (Cons x xs)
  then show ?case by (cases xs) auto
qed simp

lemma lru_linked_cong:
  assumes "\<And>a. a \<in> set (butlast xs) \<Longrightarrow> lru_nextOf L' a = lru_nextOf L a"
    and "\<And>a. a \<in> set (tl xs) \<Longrightarrow> lru_prevOf L' a = lru_prevOf L a"
  shows "lru_linked L' xs = lru_linked L xs"
  using assms by (induction L xs rule: lru_linked.induct) auto

text \<open>\<open>ns\<close> are the addresses of the list from the most to the least recently used.\<close>

definition lru_rep :: "'k lru_list \<Rightarrow> nat list \<Rightarrow> bool" where
  "lru_rep L ns \<longleftrightarrow>
     distinct (lru_sentinel # ns) \<and> lru_linked L (lru_sentinel # ns @ [lru_sentinel]) \<and>
     lru_sentinel \<in> dom (lru_heap L) \<and> set ns \<subseteq> dom (lru_heap L) \<and> lru_count L = of_nat (length ns)"

lemma lru_rep_new: "lru_rep (lru_new k0) []"
  by (simp add: lru_rep_def lru_new_def)


lemma lru_repD:
  assumes "lru_rep L ns"
  shows "lru_sentinel \<notin> set ns" "distinct ns" "lru_sentinel \<in> dom (lru_heap L)" "set ns \<subseteq> dom (lru_heap L)"
    "lru_count L = of_nat (length ns)" "lru_linked L (lru_sentinel # ns @ [lru_sentinel])"
  using assms by (auto simp: lru_rep_def)

abbreviation "lru_keyOf L a \<equiv> map_option ln_key (lru_heap L a)"

text \<open>What linking and unlinking do to the links of every node.\<close>

lemma lru_linkAfter_effect:
  assumes "lru_nextOf L p = Some b" and "p \<in> dom (lru_heap L)" and "n \<in> dom (lru_heap L)"
    and "b \<in> dom (lru_heap L)" and "n \<noteq> p" and "n \<noteq> b"
  obtains L' where "lru_linkAfter p n L = (Inr (), L')"
    and "\<And>c. lru_nextOf L' c = (if c = p then Some n else if c = n then Some b else lru_nextOf L c)"
    and "\<And>c. lru_prevOf L' c = (if c = b then Some n else if c = n then Some p else lru_prevOf L c)"
    and "dom (lru_heap L') = dom (lru_heap L)" and "lru_count L' = lru_count L"
    and "\<And>c. lru_keyOf L' c = lru_keyOf L c"
proof -
  let ?L' = "snd (lru_linkAfter p n L)"
  have "lru_linkAfter p n L = (Inr (), ?L')
    \<and> (\<forall>c. lru_nextOf ?L' c = (if c = p then Some n else if c = n then Some b else lru_nextOf L c))
    \<and> (\<forall>c. lru_prevOf ?L' c = (if c = b then Some n else if c = n then Some p else lru_prevOf L c))
    \<and> dom (lru_heap ?L') = dom (lru_heap L) \<and> lru_count ?L' = lru_count L
    \<and> (\<forall>c. lru_keyOf ?L' c = lru_keyOf L c)"
    using assms
    by (cases "b = p") (auto simp: lru_linkAfter_def bindA_apply lru_setPrev_def lru_setNext_def lru_store_def
        lru_deref_def split: if_splits)
  then show thesis
    using that[of ?L'] by blast
qed

lemma lru_unlinkNode_effect:
  assumes "lru_nextOf L n = Some b" and "lru_prevOf L n = Some a"
    and "a \<in> dom (lru_heap L)" and "b \<in> dom (lru_heap L)" and "n \<noteq> a" and "n \<noteq> b"
  obtains L' where "lru_unlinkNode n L = (Inr (), L')"
    and "\<And>c. lru_nextOf L' c = (if c = n then None else if c = a then Some b else lru_nextOf L c)"
    and "\<And>c. lru_prevOf L' c = (if c = n then None else if c = b then Some a else lru_prevOf L c)"
    and "dom (lru_heap L') = dom (lru_heap L)" and "lru_count L' = lru_count L"
    and "\<And>c. lru_keyOf L' c = lru_keyOf L c"
proof -
  let ?L' = "snd (lru_unlinkNode n L)"
  obtain x where x: "lru_heap L n = Some x" "ln_next x = Some b" "ln_prev x = Some a"
    using assms(1,2) by (cases "lru_heap L n") auto
  have "lru_unlinkNode n L = (Inr (), ?L')
    \<and> (\<forall>c. lru_nextOf ?L' c = (if c = n then None else if c = a then Some b else lru_nextOf L c))
    \<and> (\<forall>c. lru_prevOf ?L' c = (if c = n then None else if c = b then Some a else lru_prevOf L c))
    \<and> dom (lru_heap ?L') = dom (lru_heap L) \<and> lru_count ?L' = lru_count L
    \<and> (\<forall>c. lru_keyOf ?L' c = lru_keyOf L c)"
    using assms(3-6) x
    by (cases "a = b") (auto simp: lru_unlinkNode_def bindA_apply lru_setPrev_def lru_setNext_def lru_store_def
        lru_deref_def split: if_splits)
  then show thesis
    using that[of ?L'] by blast
qed


definition lru_same :: "'k lru_list \<Rightarrow> 'k lru_list \<Rightarrow> bool" where
  "lru_same L L' \<longleftrightarrow> dom (lru_heap L') = dom (lru_heap L) \<and> (\<forall>a. lru_keyOf L' a = lru_keyOf L a)"

definition lru_chain :: "'k lru_list \<Rightarrow> nat list \<Rightarrow> bool" where
  "lru_chain L ns \<longleftrightarrow>
     distinct (lru_sentinel # ns) \<and> lru_linked L (lru_sentinel # ns @ [lru_sentinel]) \<and>
     lru_sentinel \<in> dom (lru_heap L) \<and> set ns \<subseteq> dom (lru_heap L)"

lemma lru_rep_chain: "lru_rep L ns \<longleftrightarrow> lru_chain L ns \<and> lru_count L = of_nat (length ns)"
  by (auto simp: lru_rep_def lru_chain_def)

lemma lru_linked_count [simp]: "lru_linked (L\<lparr>lru_count := k\<rparr>) xs = lru_linked L xs"
  by (rule lru_linked_cong) simp_all

lemma lru_chain_count [simp]: "lru_chain (L\<lparr>lru_count := k\<rparr>) ns = lru_chain L ns"
  by (simp add: lru_chain_def)

lemma lru_same_count [simp]: "lru_same L (L'\<lparr>lru_count := k\<rparr>) = lru_same L L'"
  by (simp add: lru_same_def)

lemma lru_same_trans: "lru_same L L' \<Longrightarrow> lru_same L' L'' \<Longrightarrow> lru_same L L''"
  by (simp add: lru_same_def)

lemma lru_same_refl [simp]: "lru_same L L"
  by (simp add: lru_same_def)

lemma lru_chain_link:
  assumes "lru_chain L ns" and "n \<in> dom (lru_heap L)" and "n \<notin> set ns" and "n \<noteq> lru_sentinel"
  shows "\<exists>L'. lru_linkAfter lru_sentinel n L = (Inr (), L') \<and> lru_chain L' (n # ns) \<and> lru_same L L' \<and>
    lru_count L' = lru_count L"
proof -
  obtain b B where b: "ns @ [lru_sentinel] = b # B"
    by (cases ns) auto
  have ns: "set ns \<subseteq> dom (lru_heap L)" "distinct ns" "lru_sentinel \<notin> set ns"
    and link: "lru_linked L (lru_sentinel # b # B)" and s: "lru_sentinel \<in> dom (lru_heap L)"
    using assms(1) by (auto simp: lru_chain_def b[symmetric])
  have B: "b \<notin> set B" "set B \<subseteq> insert lru_sentinel (set ns)" "butlast (b # B) = ns"
    "b \<in> insert lru_sentinel (set ns)"
    using arg_cong[OF b, of distinct] arg_cong[OF b, of set] arg_cong[OF b, of butlast] ns by auto
  obtain L' where L': "lru_linkAfter lru_sentinel n L = (Inr (), L')"
    "\<And>c. lru_nextOf L' c = (if c = lru_sentinel then Some n else if c = n then Some b else lru_nextOf L c)"
    "\<And>c. lru_prevOf L' c = (if c = b then Some n else if c = n then Some lru_sentinel else lru_prevOf L c)"
    "dom (lru_heap L') = dom (lru_heap L)" "lru_count L' = lru_count L" "\<And>c. lru_keyOf L' c = lru_keyOf L c"
    by (rule lru_linkAfter_effect[of L lru_sentinel b n]) (use link assms B(4) ns s in auto)
  have "lru_linked L' (b # B) = lru_linked L (b # B)"
    using B assms(3,4) ns(3) by (intro lru_linked_cong) (auto simp: L'(2,3) simp del: butlast.simps)
  with link have "lru_linked L' (lru_sentinel # n # b # B)"
    using assms(3,4) B(4) by (auto simp: L'(2,3))
  then have "lru_chain L' (n # ns)"
    using assms ns s by (simp add: lru_chain_def L'(4) b)
  with L' show ?thesis
    by (auto simp: lru_same_def)
qed


lemma lru_chain_unlink:
  assumes "lru_chain L (us @ n # vs)"
  shows "\<exists>L'. lru_unlinkNode n L = (Inr (), L') \<and> lru_chain L' (us @ vs) \<and> lru_same L L' \<and>
    lru_count L' = lru_count L"
proof -
  obtain a A where a: "lru_sentinel # us = A @ [a]"
    by (cases "lru_sentinel # us" rule: rev_exhaust) auto
  obtain b B where b: "vs @ [lru_sentinel] = b # B"
    by (cases vs) auto
  have d: "distinct us" "distinct vs" "n \<notin> set us" "n \<notin> set vs" "set us \<inter> set vs = {}" "n \<noteq> lru_sentinel"
      "lru_sentinel \<notin> set us" "lru_sentinel \<notin> set vs"
    and heap: "lru_sentinel \<in> dom (lru_heap L)" "n \<in> dom (lru_heap L)" "set us \<subseteq> dom (lru_heap L)"
      "set vs \<subseteq> dom (lru_heap L)"
    using assms by (auto simp: lru_chain_def)
  have A: "a \<notin> set A" "set A \<subseteq> insert lru_sentinel (set us)" "tl (A @ [a]) = us" "a \<in> insert lru_sentinel (set us)"
    using arg_cong[OF a, of distinct] arg_cong[OF a, of set] arg_cong[OF a, of tl] d by auto
  have B: "b \<notin> set B" "set B \<subseteq> insert lru_sentinel (set vs)" "butlast (b # B) = vs"
    "b \<in> insert lru_sentinel (set vs)"
    using arg_cong[OF b, of distinct] arg_cong[OF b, of set] arg_cong[OF b, of butlast] d by auto
  have "lru_sentinel # us @ n # b # B = A @ [a] @ n # b # B"
    using a by (metis append_Cons append_assoc)
  then have "lru_linked L (A @ [a] @ n # b # B)"
    using assms by (metis lru_chain_def b append_Cons append_assoc)
  then have link: "lru_linked L (A @ [a])" "lru_nextOf L a = Some n" "lru_prevOf L n = Some a"
    "lru_nextOf L n = Some b" "lru_prevOf L b = Some n" "lru_linked L (b # B)"
    using lru_linked_append[of L A a "n # b # B"] by auto
  obtain L' where L': "lru_unlinkNode n L = (Inr (), L')"
    "\<And>c. lru_nextOf L' c = (if c = n then None else if c = a then Some b else lru_nextOf L c)"
    "\<And>c. lru_prevOf L' c = (if c = n then None else if c = b then Some a else lru_prevOf L c)"
    "dom (lru_heap L') = dom (lru_heap L)" "lru_count L' = lru_count L" "\<And>c. lru_keyOf L' c = lru_keyOf L c"
    by (rule lru_unlinkNode_effect[of L n b a]) (use link A(4) B(4) d heap in auto)
  have "lru_linked L' (b # B) = lru_linked L (b # B)"
    using B A(4) d by (intro lru_linked_cong) (auto simp: L'(2,3) simp del: butlast.simps)
  moreover have "lru_linked L' (A @ [a]) = lru_linked L (A @ [a])"
    using A B(4) d by (intro lru_linked_cong) (auto simp: L'(2,3))
  ultimately have "lru_linked L' (A @ a # b # B)"
    using link A(4) B(4) d lru_linked_append[of L' A a "b # B"] by (auto simp: L'(2,3))
  then have "lru_linked L' (lru_sentinel # (us @ vs) @ [lru_sentinel])"
    using a b by (metis append_Cons append_assoc append_Nil)
  then have "lru_chain L' (us @ vs)"
    using d heap by (auto simp: lru_chain_def L'(4))
  with L' show ?thesis
    by (auto simp: lru_same_def)
qed

section \<open>The operations on the list of addresses\<close>

lemma lru_chain_first:
  "lru_chain L ns \<Longrightarrow> \<exists>s. lru_heap L lru_sentinel = Some s \<and>
     ln_next s = Some (hd (ns @ [lru_sentinel])) \<and> ln_prev s = Some (last (lru_sentinel # ns))"
proof -
  assume c: "lru_chain L ns"
  then obtain s where s: "lru_heap L lru_sentinel = Some s"
    by (auto simp: lru_chain_def)
  obtain a A where a: "lru_sentinel # ns = A @ [a]"
    by (cases "lru_sentinel # ns" rule: rev_exhaust) auto
  obtain b B where b: "ns @ [lru_sentinel] = b # B"
    by (cases ns) auto
  have "lru_linked L (A @ a # [lru_sentinel])"
    using c a by (auto simp: lru_chain_def) (metis append.assoc append_Cons append_Nil)
  then have "lru_prevOf L lru_sentinel = Some a"
    using lru_linked_append[of L A a "[lru_sentinel]"] by simp
  moreover have "lru_nextOf L lru_sentinel = Some b"
    using c b by (auto simp: lru_chain_def)
  ultimately show ?thesis
    using s a b by (metis bind.bind_lunit last_snoc list.sel(1))
qed

lemma lru_rep_first:
  assumes "lru_rep L ns"
  shows "lru_sentinelNode L = (Inr (the (lru_heap L lru_sentinel)), L)"
    "ln_next (the (lru_heap L lru_sentinel)) = Some (hd (ns @ [lru_sentinel]))"
    "ln_prev (the (lru_heap L lru_sentinel)) = Some (last (lru_sentinel # ns))"
  using lru_chain_first[of L ns] assms
  by (auto simp: lru_rep_chain lru_sentinelNode_def lru_deref_def)

lemma lru_isEmpty_rep: "lru_rep L ns \<Longrightarrow> lru_isEmpty L = (Inr (ns = []), L)"
  using lru_rep_first[of L ns]
  by (cases ns) (auto simp: lru_isEmpty_def bindA_apply lru_rep_def)

lemma lru_pushFront_rep:
  assumes "lru_rep L ns" and "n \<in> dom (lru_heap L)" and "n \<notin> set ns" and "n \<noteq> lru_sentinel"
  shows "\<exists>L'. lru_pushFront (Some n) L = (Inr (), L') \<and> lru_rep L' (n # ns) \<and> lru_same L L'"
  using lru_chain_link[of L ns n] assms
  by (auto simp: lru_rep_chain lru_pushFront_def bindA_apply)

lemma lru_remove_rep:
  assumes "lru_rep L (us @ n # vs)"
  shows "\<exists>L'. lru_remove (Some n) L = (Inr (), L') \<and> lru_rep L' (us @ vs) \<and> lru_same L L'"
  using lru_chain_unlink[of L us n vs] assms
  by (auto simp: lru_rep_chain lru_remove_def bindA_apply lru_chain_def)

lemma lru_popBack_rep:
  assumes "lru_rep L (ns @ [n])"
  shows "\<exists>L'. lru_popBack L = (Inr (Some n), L') \<and> lru_rep L' ns \<and> lru_same L L'"
  using lru_chain_unlink[of L ns n "[]"] assms lru_rep_first[OF assms]
  by (auto simp: lru_rep_chain lru_popBack_def bindA_apply lru_isEmpty_rep[OF assms])

lemma lru_popBack_empty: "lru_rep L [] \<Longrightarrow> lru_popBack L = (Inr None, L)"
  by (simp add: lru_popBack_def bindA_apply lru_isEmpty_rep)

lemma lru_touch_rep:
  assumes "lru_rep L (us @ n # vs)"
  shows "\<exists>L'. lru_touch (Some n) L = (Inr (), L') \<and> lru_rep L' (n # us @ vs) \<and> lru_same L L'"
proof (cases us)
  case Nil
  then show ?thesis
    using assms lru_rep_first[OF assms] by (auto simp: lru_touch_def bindA_apply lru_rep_def)
next
  case (Cons u us')
  have n: "n \<noteq> lru_sentinel" "u \<noteq> n" "n \<notin> set (us @ vs)"
    using assms Cons by (auto simp: lru_rep_def)
  obtain L1 where L1: "lru_unlinkNode n L = (Inr (), L1)" "lru_chain L1 (us @ vs)" "lru_same L L1"
    "lru_count L1 = lru_count L"
    using lru_chain_unlink[of L us n vs] assms by (auto simp: lru_rep_chain)
  have "n \<in> dom (lru_heap L1)"
    using assms L1(3) by (auto simp: lru_rep_def lru_same_def)
  then obtain L2 where "lru_linkAfter lru_sentinel n L1 = (Inr (), L2)" "lru_chain L2 (n # us @ vs)"
    "lru_same L1 L2" "lru_count L2 = lru_count L1"
    using lru_chain_link[OF L1(2), of n] n by auto
  then show ?thesis
    using L1 n Cons lru_rep_first[OF assms] assms lru_same_trans[OF L1(3)]
    by (auto simp: lru_touch_def bindA_apply lru_rep_chain)
qed

lemma lru_back_rep: "lru_rep L ns \<Longrightarrow> lru_back L = (Inr (if ns = [] then None else Some (last ns)), L)"
  using lru_rep_first[of L ns] by (auto simp: lru_back_def bindA_apply lru_isEmpty_rep)

lemma lru_front_rep: "lru_rep L ns \<Longrightarrow> lru_front L = (Inr (if ns = [] then None else Some (hd ns)), L)"
  using lru_rep_first[of L ns] by (cases ns) (auto simp: lru_front_def bindA_apply lru_isEmpty_rep)

lemma lru_clear_rep:
  assumes "lru_rep L ns"
  shows "\<exists>L'. lru_clear L = (Inr (), L') \<and> lru_rep L' [] \<and> lru_same L L'"
  using lru_repD(3)[OF assms]
  by (auto simp: lru_clear_def lru_setPrev_def lru_setNext_def lru_store_def bindA_apply lru_rep_def
      lru_same_def)


section \<open>Recency lists as an interface\<close>

text \<open>The key of a node other than the sentinel.\<close>

definition lru_keys :: "'k lru_list \<Rightarrow> nat \<Rightarrow> 'k option" where
  "lru_keys L a = (if a = lru_sentinel then None else lru_keyOf L a)"

definition lru_fresh :: "'k lru_list \<Rightarrow> nat \<Rightarrow> bool" where
  "lru_fresh L a \<longleftrightarrow> lru_heap L a = None"

text \<open>
  What an owner of nodes relies on.  \<open>rep L ns\<close>: the nodes of \<open>L\<close> from the most to the least
  recently used; \<open>keys\<close>: the key of an allocated node; \<open>fresh\<close>: addresses without a node.
\<close>

locale recency =
  fixes rep :: "'l \<Rightarrow> nat list \<Rightarrow> bool"
    and keys :: "'l \<Rightarrow> nat \<Rightarrow> 'k option"
    and fresh :: "'l \<Rightarrow> nat \<Rightarrow> bool"
    and alloc :: "nat \<Rightarrow> 'k \<Rightarrow> 'l \<Rightarrow> 'l"
    and free :: "nat \<Rightarrow> 'l \<Rightarrow> 'l"
    and push :: "nat option \<Rightarrow> ('l, unit) act"
    and touch :: "nat option \<Rightarrow> ('l, unit) act"
    and remove :: "nat option \<Rightarrow> ('l, unit) act"
    and pop :: "('l, nat option) act"
    and clear :: "('l, unit) act"
  assumes rep_nodes: "rep L ns \<Longrightarrow> distinct ns \<and> (\<forall>a \<in> set ns. keys L a \<noteq> None)"
    and push_new: "rep L ns \<Longrightarrow> fresh L a \<Longrightarrow> \<exists>L'. push (Some a) (alloc a k L) = (Inr (), L') \<and>
      rep L' (a # ns) \<and> keys L' = (keys L)(a \<mapsto> k) \<and> fresh L' = (fresh L)(a := False) \<and> a \<notin> set ns"
    and touch_member: "rep L (us @ a # vs) \<Longrightarrow> \<exists>L'. touch (Some a) L = (Inr (), L') \<and>
      rep L' (a # us @ vs) \<and> keys L' = keys L \<and> fresh L' = fresh L"
    and remove_member: "rep L (us @ a # vs) \<Longrightarrow> \<exists>L'. remove (Some a) L = (Inr (), L') \<and>
      rep L' (us @ vs) \<and> keys L' = keys L \<and> fresh L' = fresh L"
    and pop_last: "rep L (ns @ [a]) \<Longrightarrow> \<exists>L'. pop L = (Inr (Some a), L') \<and>
      rep L' ns \<and> keys L' = keys L \<and> fresh L' = fresh L"
    and pop_empty: "rep L [] \<Longrightarrow> pop L = (Inr None, L)"
    and clear_all: "rep L ns \<Longrightarrow> \<exists>L'. clear L = (Inr (), L') \<and> rep L' [] \<and> keys L' = keys L \<and> fresh L' = fresh L"
    and free_node: "rep L ns \<Longrightarrow> a \<notin> set ns \<Longrightarrow> keys L a \<noteq> None \<or> fresh L a \<Longrightarrow>
      rep (free a L) ns \<and> keys (free a L) = (keys L)(a := None) \<and> fresh (free a L) = (fresh L)(a := True)"
begin

text \<open>
  A tier: an association list \<open>nodes\<close> from keys to the nodes it owns, all of them in \<open>L\<close>, with the
  keys \<open>ks\<close> from the most to the least recently used; addresses from \<open>brk\<close> on are free.
\<close>

definition tier :: "('k \<times> nat) list \<Rightarrow> 'l \<Rightarrow> nat \<Rightarrow> 'k list \<Rightarrow> bool" where
  "tier nodes L brk ks \<longleftrightarrow>
     distinct ks \<and> (\<forall>a \<ge> brk. fresh L a) \<and> (\<forall>a \<in> set (map snd nodes). keys L a \<noteq> None \<or> fresh L a) \<and>
     (\<forall>k. k \<notin> set ks \<longrightarrow> map_of nodes k = None) \<and>
     (\<exists>ns. rep L ns \<and> list_all2 (\<lambda>k a. keys L a = Some k \<and> map_of nodes k = Some a) ks ns)"

lemma tier_node:
  assumes "tier nodes L brk ks"
  shows "map_of nodes k = None \<longleftrightarrow> k \<notin> set ks"
  using assms by (auto simp: tier_def list_all2_conv_all_nth in_set_conv_nth)

lemma tier_distinct: "tier nodes L brk ks \<Longrightarrow> distinct ks"
  by (simp add: tier_def)

lemma tier_mono: "tier nodes L brk ks \<Longrightarrow> brk \<le> brk' \<Longrightarrow> tier nodes L brk' ks"
  by (auto simp: tier_def)

lemma tier_touch:
  assumes "tier nodes L brk (us @ k # vs)"
  shows "\<exists>a L'. map_of nodes k = Some a \<and> touch (Some a) L = (Inr (), L') \<and>
    tier nodes L' brk (k # us @ vs)"
proof -
  obtain us' a vs' where n: "rep L (us' @ a # vs')" "keys L a = Some k" "map_of nodes k = Some a"
    "list_all2 (\<lambda>k a. keys L a = Some k \<and> map_of nodes k = Some a) us us'"
    "list_all2 (\<lambda>k a. keys L a = Some k \<and> map_of nodes k = Some a) vs vs'"
    using assms by (auto simp: tier_def list_all2_append1 list_all2_Cons1)
  obtain L' where "touch (Some a) L = (Inr (), L')" "rep L' (a # us' @ vs')" "keys L' = keys L"
    "fresh L' = fresh L"
    using touch_member[OF n(1)] by blast
  with n assms show ?thesis
    by (auto simp: tier_def intro!: exI[of _ "a # us' @ vs'"] list_all2_appendI)
qed

lemma tier_push:
  assumes "tier nodes L brk ks" and "k \<notin> set ks"
  shows "map_of nodes k = None \<and> (\<exists>L'. push (Some brk) (alloc brk k L) = (Inr (), L') \<and>
    keys L' brk = Some k \<and> tier ((k, brk) # nodes) L' (Suc brk) (k # ks))"
proof -
  obtain ns where ns: "rep L ns" "list_all2 (\<lambda>k a. keys L a = Some k \<and> map_of nodes k = Some a) ks ns"
    using assms(1) by (auto simp: tier_def)
  have fr: "fresh L brk"
    using assms(1) by (simp add: tier_def)
  obtain L' where L': "push (Some brk) (alloc brk k L) = (Inr (), L')" "rep L' (brk # ns)"
    "keys L' = (keys L)(brk \<mapsto> k)" "fresh L' = (fresh L)(brk := False)" "brk \<notin> set ns"
    using push_new[OF ns(1) fr] by blast
  have "list_all2 (\<lambda>k' a. keys L' a = Some k' \<and> map_of ((k, brk) # nodes) k' = Some a) ks ns"
    using ns(2) L'(3,5) assms(2) by (auto elim!: list.rel_mono_strong)
  then have "list_all2 (\<lambda>k' a. keys L' a = Some k' \<and> map_of ((k, brk) # nodes) k' = Some a) (k # ks) (brk # ns)"
    by (simp add: L'(3))
  moreover have "\<forall>k'. k' \<notin> set (k # ks) \<longrightarrow> map_of ((k, brk) # nodes) k' = None"
    using assms(1) by (simp add: tier_def)
  ultimately have "tier ((k, brk) # nodes) L' (Suc brk) (k # ks)"
    using assms L'(2,3,4) unfolding tier_def by (intro conjI exI[of _ "brk # ns"]) auto
  with L' tier_node[OF assms(1), of k] assms(2) show ?thesis
    by auto
qed

lemma tier_drop:
  assumes "rep L' (us' @ vs')" and "keys L' = keys L" and "fresh L' = fresh L"
    and "tier nodes L brk (us @ k # vs)" and "keys L a = Some k"
    and "list_all2 (\<lambda>k a. keys L a = Some k \<and> map_of nodes k = Some a) (us @ vs) (us' @ vs')"
    and "a \<notin> set (us' @ vs')"
  shows "tier (AList.delete k nodes) (free a L') brk (us @ vs)"
proof -
  have f: "rep (free a L') (us' @ vs')" "keys (free a L') = (keys L)(a := None)"
    "fresh (free a L') = (fresh L)(a := True)"
    using free_node[OF assms(1,7)] assms(2,3,5) by auto
  have d: "distinct (us @ k # vs)"
    using assms(4) by (simp add: tier_def)
  have "list_all2 (\<lambda>k' a'. keys (free a L') a' = Some k' \<and> map_of (AList.delete k nodes) k' = Some a')
      (us @ vs) (us' @ vs')"
    using assms(6) by (rule list.rel_mono_strong) (use d assms(7) in \<open>auto simp: f(2) delete_conv'\<close>)
  moreover have "map_of (AList.delete k nodes) k' = None" if "k' \<notin> set (us @ vs)" for k'
    using that assms(4) by (auto simp: tier_def delete_conv')
  moreover have "set (map snd (AList.delete k nodes)) \<subseteq> set (map snd nodes)"
    by (auto simp: AList.delete_eq)
  then have "\<forall>a' \<in> set (map snd (AList.delete k nodes)). keys (free a L') a' \<noteq> None \<or> fresh (free a L') a'"
    using assms(4) by (fastforce simp: tier_def f(2,3) AList.delete_eq)
  ultimately show ?thesis
    using d f(1,3) assms(4) unfolding tier_def by (auto simp del: set_map)
qed

lemma tier_delete:
  assumes "tier nodes L brk (us @ k # vs)"
  shows "\<exists>a L'. map_of nodes k = Some a \<and> remove (Some a) L = (Inr (), L') \<and>
    tier (AList.delete k nodes) (free a L') brk (us @ vs)"
proof -
  obtain us' a vs' where n: "rep L (us' @ a # vs')" "keys L a = Some k" "map_of nodes k = Some a"
    "list_all2 (\<lambda>k a. keys L a = Some k \<and> map_of nodes k = Some a) us us'"
    "list_all2 (\<lambda>k a. keys L a = Some k \<and> map_of nodes k = Some a) vs vs'"
    using assms by (auto simp: tier_def list_all2_append1 list_all2_Cons1)
  obtain L' where L': "remove (Some a) L = (Inr (), L')" "rep L' (us' @ vs')" "keys L' = keys L"
    "fresh L' = fresh L"
    using remove_member[OF n(1)] by blast
  have "a \<notin> set (us' @ vs')"
    using rep_nodes[OF n(1)] by auto
  with tier_drop[OF L'(2-4) assms n(2) list_all2_appendI[OF n(4,5)]] n(3) L'(1) show ?thesis
    by auto
qed

lemma tier_evict:
  assumes "tier nodes L brk (ks @ [k])"
  shows "\<exists>a L'. pop L = (Inr (Some a), L') \<and> keys L' a = Some k \<and> map_of nodes k = Some a \<and>
    tier (AList.delete k nodes) (free a L') brk ks"
proof -
  obtain us' a where n: "rep L (us' @ [a])" "keys L a = Some k" "map_of nodes k = Some a"
    "list_all2 (\<lambda>k a. keys L a = Some k \<and> map_of nodes k = Some a) ks us'"
    using assms by (auto simp: tier_def list_all2_append1 list_all2_Cons1)
  obtain L' where L': "pop L = (Inr (Some a), L')" "rep L' us'" "keys L' = keys L" "fresh L' = fresh L"
    using pop_last[OF n(1)] by blast
  have "a \<notin> set us'"
    using rep_nodes[OF n(1)] by auto
  with tier_drop[of L' us' "[]" L nodes brk ks k "[]" a] assms n L' show ?thesis
    by auto
qed

lemma free_many:
  assumes "rep L []" and "\<And>a. a \<in> set as \<Longrightarrow> keys L a \<noteq> None \<or> fresh L a"
  shows "rep (foldr free as L) [] \<and> (\<forall>a. fresh L a \<or> a \<in> set as \<longrightarrow> fresh (foldr free as L) a) \<and>
    (\<forall>a. keys L a \<noteq> None \<longrightarrow> keys (foldr free as L) a \<noteq> None \<or> fresh (foldr free as L) a)"
  using assms
proof (induction as)
  case (Cons a as)
  then have "rep (foldr free as L) []"
    "keys (foldr free as L) a \<noteq> None \<or> fresh (foldr free as L) a"
    by (metis list.set_intros(1,2))+
  with free_node[of "foldr free as L" "[]" a] Cons show ?case
    by auto
qed simp

lemma tier_clear:
  assumes "tier nodes L brk ks"
  shows "\<exists>L'. clear L = (Inr (), L') \<and> tier [] (foldr free (map snd nodes) L') brk []"
proof -
  obtain ns where "rep L ns"
    using assms by (auto simp: tier_def)
  from clear_all[OF this] obtain L' where L': "clear L = (Inr (), L')" "rep L' []" "keys L' = keys L" "fresh L' = fresh L"
    by blast
  have "rep (foldr free (map snd nodes) L') [] \<and> (\<forall>a. fresh L' a \<or> a \<in> set (map snd nodes) \<longrightarrow> fresh (foldr free (map snd nodes) L') a) \<and>
    (\<forall>a. keys L' a \<noteq> None \<longrightarrow> keys (foldr free (map snd nodes) L') a \<noteq> None \<or> fresh (foldr free (map snd nodes) L') a)"
    using assms L' by (intro free_many) (auto simp: tier_def)
  with L' assms show ?thesis
    by (auto simp: tier_def)
qed

lemma tier_empty:
  assumes "tier nodes L brk []"
  shows "pop L = (Inr None, L)"
  using assms pop_empty by (auto simp: tier_def)

end

lemma lru_keys_same: "lru_same L L' \<Longrightarrow> lru_keys L' = lru_keys L \<and> lru_fresh L' = lru_fresh L"
  by (auto simp: lru_same_def lru_keys_def lru_fresh_def fun_eq_iff)

lemma lru_rep_frame:
  assumes "lru_rep L ns" and "\<And>a. a \<in> set (lru_sentinel # ns) \<Longrightarrow> h a = lru_heap L a"
  shows "lru_rep (L\<lparr>lru_heap := h\<rparr>) ns"
proof -
  have "lru_linked (L\<lparr>lru_heap := h\<rparr>) (lru_sentinel # ns @ [lru_sentinel]) =
    lru_linked L (lru_sentinel # ns @ [lru_sentinel])"
    by (rule lru_linked_cong) (use assms(2) in \<open>auto simp: butlast_append\<close>)
  moreover have "a \<in> dom h" if "a \<in> set (lru_sentinel # ns)" for a
    using assms(2)[OF that] that lru_repD(3,4)[OF assms(1)] by (auto simp: domIff)
  then have "set (lru_sentinel # ns) \<subseteq> dom h"
    by blast
  ultimately show ?thesis
    using assms(1) by (simp add: lru_rep_def)
qed

interpretation lru: recency lru_rep lru_keys lru_fresh lru_alloc lru_free lru_pushFront lru_touch lru_remove
  lru_popBack lru_clear
proof (unfold_locales, goal_cases)
  case (1 L ns)
  then show ?case using lru_repD[OF 1] by (auto simp: lru_keys_def intro: gr0I)
next
  case (2 L ns a k)
  have a: "a \<noteq> lru_sentinel" "a \<notin> set ns"
    using lru_repD(3,4)[OF 2(1)] 2(2) by (intro notI; auto simp: lru_fresh_def)+
  have "lru_rep (lru_alloc a k L) ns"
    unfolding lru_alloc_def by (rule lru_rep_frame[OF 2(1)]) (use a in auto)
  from lru_pushFront_rep[OF this, of a] a obtain L' where L':
    "lru_pushFront (Some a) (lru_alloc a k L) = (Inr (), L')" "lru_rep L' (a # ns)" "lru_same (lru_alloc a k L) L'"
    by (auto simp: lru_alloc_def)
  moreover have "lru_keys (lru_alloc a k L) = (lru_keys L)(a \<mapsto> k)"
    "lru_fresh (lru_alloc a k L) = (lru_fresh L)(a := False)"
    using a by (auto simp: lru_alloc_def lru_keys_def lru_fresh_def fun_eq_iff lru_node_new_def)
  ultimately show ?case
    using lru_keys_same[OF L'(3)] a by simp
next
  case (3 L us a vs)
  then show ?case using lru_touch_rep[OF 3] lru_keys_same by blast
next
  case (4 L us a vs)
  then show ?case using lru_remove_rep[OF 4] lru_keys_same by blast
next
  case (5 L ns a)
  then show ?case using lru_popBack_rep[OF 5] lru_keys_same by blast
next
  case (6 L)
  then show ?case by (rule lru_popBack_empty)
next
  case (7 L ns)
  then show ?case using lru_clear_rep[OF 7] lru_keys_same by blast
next
  case (8 L ns a)
  have "a \<noteq> lru_sentinel"
    using 8(3) lru_repD(3)[OF 8(1)] by (intro notI) (auto simp: lru_keys_def lru_fresh_def)
  then have "lru_rep (lru_free a L) ns"
    unfolding lru_free_def by (intro lru_rep_frame[OF 8(1)]) (use 8(2) in auto)
  then show ?case
    using \<open>a \<noteq> lru_sentinel\<close> by (auto simp: lru_free_def lru_keys_def lru_fresh_def fun_eq_iff)
qed


section \<open>The eviction order\<close>

text \<open>
  A client of one list: \<open>c\<close> are the addresses it pushed or touched, in that order, \<open>A\<close> the members.
  Nodes are allocated before they are pushed and freed once they are out of the list.
\<close>

inductive lru_reach :: "'k lru_list \<Rightarrow> nat list \<Rightarrow> nat set \<Rightarrow> bool" where
  lru_reach_new: "lru_reach (lru_new k0) [] {}"
| lru_reach_push: "lru_reach L c A \<Longrightarrow> lru_fresh L a \<Longrightarrow>
    lru_pushFront (Some a) (lru_alloc a k L) = (r, L') \<Longrightarrow> lru_reach L' (c @ [a]) (insert a A)"
| lru_reach_touch: "lru_reach L c A \<Longrightarrow> a \<in> A \<Longrightarrow> lru_touch (Some a) L = (r, L') \<Longrightarrow> lru_reach L' (c @ [a]) A"
| lru_reach_remove: "lru_reach L c A \<Longrightarrow> a \<in> A \<Longrightarrow> lru_remove (Some a) L = (r, L') \<Longrightarrow>
    lru_reach (lru_free a L') c (A - {a})"
| lru_reach_pop: "lru_reach L c A \<Longrightarrow> lru_popBack L = (Inr (Some a), L') \<Longrightarrow>
    lru_reach (lru_free a L') c (A - {a})"

lemma remdups_snoc: "remdups (c @ [a]) = filter (\<lambda>x. x \<noteq> a) (remdups c) @ [a]"
  by (induction c) auto

lemma lru_free_out:
  assumes "lru_rep L (us @ a # vs)" and "lru_rep L' (us @ vs)" and "lru_keys L' = lru_keys L"
  shows "lru_rep (lru_free a L') (us @ vs)"
proof -
  have "a \<notin> set (us @ vs)" "lru_keys L' a \<noteq> None"
    using lru.rep_nodes[OF assms(1)] assms(3) by auto
  then show ?thesis
    using lru.free_node[OF assms(2)] by blast
qed

lemma filter_other: "a \<notin> set xs \<Longrightarrow> filter (\<lambda>x. x \<noteq> a) xs = xs"
  by (induction xs) auto

lemma filter_drop_middle:
  "distinct xs \<Longrightarrow> filter (\<lambda>x. x \<in> A) xs = us @ a # vs \<Longrightarrow> filter (\<lambda>x. x \<in> A - {a}) xs = us @ vs"
proof -
  assume d: "distinct xs" and eq: "filter (\<lambda>x. x \<in> A) xs = us @ a # vs"
  have "filter (\<lambda>x. x \<in> A - {a}) xs = filter (\<lambda>x. x \<noteq> a) (filter (\<lambda>x. x \<in> A) xs)"
    by (simp add: conj_commute)
  also have "\<dots> = us @ vs"
    using distinct_filter[OF d, of "\<lambda>x. x \<in> A"] by (simp add: eq filter_other)
  finally show ?thesis .
qed

abbreviation "lru_order c A \<equiv> filter (\<lambda>a. a \<in> A) (rev (remdups c))"

lemma lru_order_use:
  assumes "filter (\<lambda>x. x \<noteq> a) (lru_order c A) = ns"
  shows "lru_order (c @ [a]) (insert a A) = a # ns"
proof -
  have "filter (\<lambda>x. x \<in> insert a A) (rev (filter (\<lambda>x. x \<noteq> a) (remdups c))) = ns"
    unfolding assms[symmetric] by (auto simp: rev_filter[symmetric] intro!: filter_cong)
  then show ?thesis
    by (simp add: remdups_snoc)
qed

lemma lru_reach_rep: "lru_reach L c A \<Longrightarrow> lru_rep L (lru_order c A) \<and> A \<subseteq> set c"
proof (induction rule: lru_reach.induct)
  case (lru_reach_new k0)
  then show ?case by (simp add: lru_rep_new)
next
  case (lru_reach_push L c A a k r L')
  then have rep: "lru_rep L (lru_order c A)" and sub: "A \<subseteq> set c"
    by auto
  from lru.push_new[OF rep lru_reach_push(2), of k] lru_reach_push(3)
  have L': "lru_rep L' (a # lru_order c A)" "a \<notin> set (lru_order c A)"
    by auto
  have "lru_order (c @ [a]) (insert a A) = a # lru_order c A"
    by (rule lru_order_use[OF filter_other[OF L'(2)]])
  with L' sub show ?case by auto
next
  case (lru_reach_touch L c A a r L')
  then have rep: "lru_rep L (lru_order c A)" and sub: "A \<subseteq> set c"
    by auto
  obtain us vs where u: "lru_order c A = us @ a # vs"
    using split_list[of a "lru_order c A"] lru_reach_touch(2) sub by auto
  then have "lru_rep L' (a # us @ vs)" and "filter (\<lambda>x. x \<noteq> a) (lru_order c A) = us @ vs"
    using lru.touch_member[of L us a vs] lru.rep_nodes[OF rep] rep lru_reach_touch(3)
    by (auto simp: filter_other)
  with lru_order_use[of a A c "us @ vs"] lru_reach_touch(2) sub show ?case
    by (auto simp: insert_absorb)
next
  case (lru_reach_remove L c A a r L')
  then have rep: "lru_rep L (lru_order c A)" and sub: "A \<subseteq> set c"
    by auto
  obtain us vs where u: "lru_order c A = us @ a # vs"
    using split_list[of a "lru_order c A"] lru_reach_remove(2) sub by auto
  with rep lru.remove_member[of L us a vs] lru_reach_remove(3)
  have "lru_rep L' (us @ vs)" "lru_keys L' = lru_keys L"
    by auto
  with u rep have "lru_rep (lru_free a L') (us @ vs)"
    by (auto intro: lru_free_out)
  with filter_drop_middle[OF _ u] sub show ?case
    by auto
next
  case (lru_reach_pop L c A a L')
  then have rep: "lru_rep L (lru_order c A)" and sub: "A \<subseteq> set c"
    by auto
  show ?case
  proof (cases "lru_order c A" rule: rev_exhaust)
    case Nil
    with rep lru_popBack_empty lru_reach_pop(2) show ?thesis by fastforce
  next
    case (snoc ns b)
    with rep lru.pop_last[of L ns b] lru_reach_pop(2)
    have b: "b = a" "lru_rep L' ns" "lru_keys L' = lru_keys L"
      by auto
    with rep snoc have "lru_rep (lru_free a L') (ns @ [])"
      by (intro lru_free_out) auto
    with filter_drop_middle[of "rev (remdups c)" A ns a "[]"] snoc b sub show ?thesis
      by auto
  qed
qed

text \<open>
  C37: eviction is by least recent use, through the pointers.  Whatever a client pushed, touched,
  removed and popped, \<open>popBack\<close> returns the member whose last push or touch is the oldest, or
  \<open>nullptr\<close> if there is none; no operation on a member dereferences a bad pointer, and \<open>size\<close> is the
  number of members.
\<close>

theorem lru_evicts_oldest:
  assumes "lru_reach L c A"
  shows "fst (lru_popBack L) =
      Inr (case filter (\<lambda>a. a \<in> A) (remdups c) of [] \<Rightarrow> None | a # _ \<Rightarrow> Some a) \<and>
    (\<forall>a \<in> A. fst (lru_touch (Some a) L) = Inr () \<and> fst (lru_remove (Some a) L) = Inr ()) \<and>
    lru_count L = of_nat (card A)"
proof -
  have rep: "lru_rep L (lru_order c A)" and sub: "A \<subseteq> set c"
    using lru_reach_rep[OF assms] by auto
  have "fst (lru_touch (Some a) L) = Inr () \<and> fst (lru_remove (Some a) L) = Inr ()" if "a \<in> A" for a
    using split_list[of a "lru_order c A"] that sub rep lru_touch_rep lru_remove_rep by fastforce
  moreover have "set (lru_order c A) = A"
    using sub by auto
  then have "lru_count L = of_nat (card A)"
    using lru_repD(2,5)[OF rep] distinct_card by metis
  moreover have "fst (lru_popBack L) = Inr (case rev (lru_order c A) of [] \<Rightarrow> None | a # _ \<Rightarrow> Some a)"
    using rep lru_popBack_rep[of L] lru_popBack_empty[of L]
    by (cases "lru_order c A" rule: rev_exhaust) fastforce+
  ultimately show ?thesis
    by (simp add: rev_filter)
qed

definition lru_ex :: "nat lru_list" where
  "lru_ex =
     (let push = \<lambda>a L. snd (lru_pushFront (Some a) (lru_alloc a (10 * a) L))
      in snd (lru_touch (Some 1) (push 3 (push 2 (push 1 (lru_new 0))))))"

lemma lru_ex_reach: "lru_reach lru_ex [1, 2, 3, 1] {1, 2, 3}"
proof -
  let ?push = "\<lambda>a L. snd (lru_pushFront (Some a) (lru_alloc a (10 * a) L))"
  have step: "lru_reach L c A \<Longrightarrow> lru_fresh L a \<Longrightarrow> lru_reach (?push a L) (c @ [a]) (insert a A)"
    for L :: "nat lru_list" and c A a
    by (rule lru_reach_push[where k = "10 * a" and r = "fst (lru_pushFront (Some a) (lru_alloc a (10 * a) L))"]) auto
  have touch: "lru_reach L c A \<Longrightarrow> a \<in> A \<Longrightarrow> lru_reach (snd (lru_touch (Some a) L)) (c @ [a]) A"
    for L :: "nat lru_list" and c A a
    by (rule lru_reach_touch[where r = "fst (lru_touch (Some a) L)"]) auto
  have 1: "lru_reach (?push 1 (lru_new 0)) ([] @ [1]) (insert 1 {})"
    by (rule step[OF lru_reach_new]) code_simp
  have 2: "lru_reach (?push 2 (?push 1 (lru_new 0))) (([] @ [1]) @ [2]) (insert 2 (insert 1 {}))"
    by (rule step[OF 1]) code_simp
  have 3: "lru_reach (?push 3 (?push 2 (?push 1 (lru_new 0)))) ((([] @ [1]) @ [2]) @ [3]) (insert 3 (insert 2 (insert 1 {})))"
    by (rule step[OF 2]) code_simp
  have "lru_reach lru_ex (((([] @ [1]) @ [2]) @ [3]) @ [1]) (insert 3 (insert 2 (insert 1 {})))"
    unfolding lru_ex_def Let_def by (rule touch[OF 3]) simp
  then show ?thesis
    by (simp add: insert_commute)
qed

theorem lru_evicts_oldest_witness: "fst (lru_popBack lru_ex) = Inr (Some 2)"
  using lru_evicts_oldest[OF lru_ex_reach] by simp

end
