(* ===== verification/KernelRegistry.thy ===== *)
theory KernelRegistry
  imports LruList
begin

text \<open>
  \<open>kernel/registry/kernel_registry.h\<close>: the three-tier registry (cache, main memory, secondary
  storage) with LRU eviction, on the pointer model of \<open>LruList\<close>.  A \<open>std::unordered_map\<close> is an
  association list without duplicate keys; entries and nodes live at addresses, allocated one after
  the other; a read of a freed entry is \<open>DanglingPointer\<close>.  \<open>KernelMetadataLease::rebuild\<close> and
  \<open>fromEntry\<close> are arguments of the operations; \<open>kernel/core/kernel_metadata.h\<close> gives them below.
\<close>

section \<open>State\<close>

record kr_stats =
  krs_cache_hits :: u64
  krs_main_memory_hits :: u64
  krs_secondary_hits :: u64
  krs_misses :: u64

definition kr_noStats :: kr_stats where
  "kr_noStats = \<lparr>krs_cache_hits = 0, krs_main_memory_hits = 0, krs_secondary_hits = 0, krs_misses = 0\<rparr>"

text \<open>The defaults of \<open>KernelRegistryConfig\<close> are 8 and 64.\<close>

record kr_config =
  krc_cache_capacity :: nat
  krc_main_memory_capacity :: nat

definition kr_defaultConfig :: kr_config where
  "kr_defaultConfig = \<lparr>krc_cache_capacity = 8, krc_main_memory_capacity = 64\<rparr>"

record ('k, 'e, 'm) kernel_registry =
  kr_cache :: "('k \<times> nat) list"
  kr_cache_nodes :: "('k \<times> nat) list"
  kr_cache_lru :: "'k lru_list"
  kr_main :: "('k \<times> nat) list"
  kr_main_nodes :: "('k \<times> nat) list"
  kr_main_lru :: "'k lru_list"
  kr_secondary :: "('k \<times> 'm) list"
  kr_config :: kr_config
  kr_stats :: kr_stats
  kr_entries :: "nat \<rightharpoonup> 'e"
  kr_brk :: nat

text \<open>\<open>k0\<close> is the key \<open>Key{}\<close> of the sentinels.\<close>

definition kr_new :: "'k \<Rightarrow> kr_config \<Rightarrow> ('k, 'e, 'm) kernel_registry" where
  "kr_new k0 config = \<lparr>kr_cache = [], kr_cache_nodes = [], kr_cache_lru = lru_new k0, kr_main = [],
     kr_main_nodes = [], kr_main_lru = lru_new k0, kr_secondary = [], kr_config = config,
     kr_stats = kr_noStats, kr_entries = Map.empty, kr_brk = 1\<rparr>"

section \<open>Parts of the operations\<close>

definition kr_onCacheLru ::
  "('k lru_list, 'a) act \<Rightarrow> (('k, 'e, 'm) kernel_registry, 'a) act" where
  "kr_onCacheLru f R = (case f (kr_cache_lru R) of (x, L) \<Rightarrow> (x, R\<lparr>kr_cache_lru := L\<rparr>))"

definition kr_onMainLru ::
  "('k lru_list, 'a) act \<Rightarrow> (('k, 'e, 'm) kernel_registry, 'a) act" where
  "kr_onMainLru f R = (case f (kr_main_lru R) of (x, L) \<Rightarrow> (x, R\<lparr>kr_main_lru := L\<rparr>))"

definition kr_nodeKey :: "nat \<Rightarrow> ('k lru_list, 'k) act" where
  "kr_nodeKey a = bindA (lru_deref (Some a)) (\<lambda>n. returnA (ln_key n))"

text \<open>\<open>cache_nodes_.erase\<close> and \<open>main_memory_nodes_.erase\<close>: the map owns the node.\<close>

definition kr_eraseCacheNode :: "'k \<Rightarrow> (('k, 'e, 'm) kernel_registry, unit) act" where
  "kr_eraseCacheNode k R =
     (case map_of (kr_cache_nodes R) k of
        None \<Rightarrow> (Inr (), R)
      | Some a \<Rightarrow> (Inr (), R\<lparr>kr_cache_nodes := AList.delete k (kr_cache_nodes R),
                          kr_cache_lru := lru_free a (kr_cache_lru R)\<rparr>))"

definition kr_eraseMainNode :: "'k \<Rightarrow> (('k, 'e, 'm) kernel_registry, unit) act" where
  "kr_eraseMainNode k R =
     (case map_of (kr_main_nodes R) k of
        None \<Rightarrow> (Inr (), R)
      | Some a \<Rightarrow> (Inr (), R\<lparr>kr_main_nodes := AList.delete k (kr_main_nodes R),
                          kr_main_lru := lru_free a (kr_main_lru R)\<rparr>))"

text \<open>\<open>emplace(key, std::make_unique<LruNode>(key)).first\<close>: a node is made only for a new key.\<close>

definition kr_emplaceCacheNode :: "'k \<Rightarrow> (('k, 'e, 'm) kernel_registry, nat) act" where
  "kr_emplaceCacheNode k R =
     (case map_of (kr_cache_nodes R) k of
        Some a \<Rightarrow> (Inr a, R)
      | None \<Rightarrow> (Inr (kr_brk R), R\<lparr>kr_cache_nodes := (k, kr_brk R) # kr_cache_nodes R,
                  kr_cache_lru := lru_alloc (kr_brk R) k (kr_cache_lru R), kr_brk := Suc (kr_brk R)\<rparr>))"

definition kr_emplaceMainNode :: "'k \<Rightarrow> (('k, 'e, 'm) kernel_registry, nat) act" where
  "kr_emplaceMainNode k R =
     (case map_of (kr_main_nodes R) k of
        Some a \<Rightarrow> (Inr a, R)
      | None \<Rightarrow> (Inr (kr_brk R), R\<lparr>kr_main_nodes := (k, kr_brk R) # kr_main_nodes R,
                  kr_main_lru := lru_alloc (kr_brk R) k (kr_main_lru R), kr_brk := Suc (kr_brk R)\<rparr>))"

section \<open>Cache tier\<close>

definition kr_touchCache :: "'k \<Rightarrow> (('k, 'e, 'm) kernel_registry, unit) act" where
  "kr_touchCache k R =
     (case map_of (kr_cache_nodes R) k of
        None \<Rightarrow> (Inr (), R)
      | Some a \<Rightarrow> kr_onCacheLru (lru_touch (Some a)) R)"

definition kr_lookupCache :: "'k \<Rightarrow> (('k, 'e, 'm) kernel_registry, nat option) act" where
  "kr_lookupCache k R =
     (case map_of (kr_cache R) k of
        None \<Rightarrow> (Inr None, R)
      | Some p \<Rightarrow> bindA (kr_touchCache k) (\<lambda>_. returnA (Some p)) R)"

definition kr_evictFromCache :: "(('k, 'e, 'm) kernel_registry, unit) act" where
  "kr_evictFromCache =
     bindA (kr_onCacheLru lru_popBack) (\<lambda>node.
     case node of
       None \<Rightarrow> returnA ()
     | Some a \<Rightarrow>
         bindA (kr_onCacheLru (kr_nodeKey a)) (\<lambda>k R.
         kr_eraseCacheNode k (R\<lparr>kr_cache := AList.delete k (kr_cache R)\<rparr>)))"

definition kr_promoteToCache :: "'k \<Rightarrow> nat \<Rightarrow> (('k, 'e, 'm) kernel_registry, unit) act" where
  "kr_promoteToCache k entry R =
     (case map_of (kr_cache R) k of
        Some _ \<Rightarrow> kr_touchCache k R
      | None \<Rightarrow>
          bindA (\<lambda>R. if length (kr_cache R) \<ge> krc_cache_capacity (kr_config R)
                     then kr_evictFromCache R else (Inr (), R)) (\<lambda>_ R.
          bindA (kr_emplaceCacheNode k) (\<lambda>a. kr_onCacheLru (lru_pushFront (Some a)))
            (R\<lparr>kr_cache := AList.update k entry (kr_cache R)\<rparr>)) R)"

section \<open>Main memory tier\<close>

definition kr_touchMainMemory :: "'k \<Rightarrow> (('k, 'e, 'm) kernel_registry, unit) act" where
  "kr_touchMainMemory k R =
     (case map_of (kr_main_nodes R) k of
        None \<Rightarrow> (Inr (), R)
      | Some a \<Rightarrow> kr_onMainLru (lru_touch (Some a)) R)"

definition kr_lookupMainMemory :: "'k \<Rightarrow> (('k, 'e, 'm) kernel_registry, nat option) act" where
  "kr_lookupMainMemory k R =
     (case map_of (kr_main R) k of
        None \<Rightarrow> (Inr None, R)
      | Some p \<Rightarrow> bindA (kr_touchMainMemory k) (\<lambda>_. returnA (Some p)) R)"

definition kr_demote ::
  "('e \<Rightarrow> 'm) \<Rightarrow> 'k \<Rightarrow> (('k, 'e, 'm) kernel_registry, unit) act" where
  "kr_demote fromEntry k R =
     (case map_of (kr_main R) k of
        None \<Rightarrow> (Inr (), R)
      | Some p \<Rightarrow>
          (case kr_entries R p of
             None \<Rightarrow> (Inl DanglingPointer, R)
           | Some e \<Rightarrow> (Inr (), R\<lparr>kr_secondary := AList.update k (fromEntry e) (kr_secondary R),
                kr_main := AList.delete k (kr_main R), kr_entries := (kr_entries R)(p := None)\<rparr>)))"

definition kr_dropFromCache :: "'k \<Rightarrow> (('k, 'e, 'm) kernel_registry, unit) act" where
  "kr_dropFromCache k R =
     (let R' = R\<lparr>kr_cache := AList.delete k (kr_cache R)\<rparr>
      in case map_of (kr_cache_nodes R') k of
           None \<Rightarrow> (Inr (), R')
         | Some a \<Rightarrow> bindA (kr_onCacheLru (lru_remove (Some a))) (\<lambda>_. kr_eraseCacheNode k) R')"

definition kr_evictFromMainMemory ::
  "('e \<Rightarrow> 'm) \<Rightarrow> (('k, 'e, 'm) kernel_registry, unit) act" where
  "kr_evictFromMainMemory fromEntry =
     bindA (kr_onMainLru lru_popBack) (\<lambda>node.
     case node of
       None \<Rightarrow> returnA ()
     | Some a \<Rightarrow>
         bindA (kr_onMainLru (kr_nodeKey a)) (\<lambda>k.
         bindA (kr_demote fromEntry k) (\<lambda>_.
         bindA (kr_eraseMainNode k) (\<lambda>_. kr_dropFromCache k))))"

section \<open>Secondary storage tier\<close>

text \<open>\<open>main_memory_[key] = std::make_unique<Entry>(...)\<close> frees the entry it replaces, if any.\<close>

definition kr_storeEntry :: "'k \<Rightarrow> 'e \<Rightarrow> (('k, 'e, 'm) kernel_registry, unit) act" where
  "kr_storeEntry k e R =
     (let p = kr_brk R;
          heap = (case map_of (kr_main R) k of None \<Rightarrow> kr_entries R | Some q \<Rightarrow> (kr_entries R)(q := None))
      in (Inr (), R\<lparr>kr_main := AList.update k p (kr_main R), kr_entries := heap(p \<mapsto> e), kr_brk := Suc p\<rparr>))"

definition kr_lookupSecondaryStorage ::
  "('m \<Rightarrow> 'e) \<Rightarrow> ('e \<Rightarrow> 'm) \<Rightarrow> 'k \<Rightarrow> (('k, 'e, 'm) kernel_registry, nat option) act" where
  "kr_lookupSecondaryStorage rebuild fromEntry k R =
     (case map_of (kr_secondary R) k of
        None \<Rightarrow> (Inr None, R)
      | Some m \<Rightarrow>
          bindA (\<lambda>R. if length (kr_main R) \<ge> krc_main_memory_capacity (kr_config R)
                     then kr_evictFromMainMemory fromEntry R else (Inr (), R)) (\<lambda>_.
          bindA (kr_storeEntry k (rebuild m)) (\<lambda>_.
          bindA (kr_emplaceMainNode k) (\<lambda>a.
          bindA (kr_onMainLru (lru_pushFront (Some a))) (\<lambda>_ R.
          (Inr (map_of (kr_main R) k), R)))))
            (R\<lparr>kr_secondary := AList.delete k (kr_secondary R)\<rparr>))"

section \<open>Public operations\<close>

text \<open>\<open>collect\<close>: the build collects statistics (\<open>ORTEAF_STATS_LEVEL_CORE_VALUE <= 4\<close>).\<close>

definition kr_record ::
  "bool \<Rightarrow> (kr_stats \<Rightarrow> kr_stats) \<Rightarrow> (('k, 'e, 'm) kernel_registry, unit) act" where
  "kr_record collect f R = (Inr (), if collect then R\<lparr>kr_stats := f (kr_stats R)\<rparr> else R)"

definition kr_lookup ::
  "bool \<Rightarrow> ('m \<Rightarrow> 'e) \<Rightarrow> ('e \<Rightarrow> 'm) \<Rightarrow> 'k \<Rightarrow> (('k, 'e, 'm) kernel_registry, nat option) act" where
  "kr_lookup collect rebuild fromEntry k =
     bindA (kr_lookupCache k) (\<lambda>r.
     case r of
       Some p \<Rightarrow> bindA (kr_record collect (\<lambda>s. s\<lparr>krs_cache_hits := krs_cache_hits s + 1\<rparr>)) (\<lambda>_. returnA (Some p))
     | None \<Rightarrow>
         bindA (kr_lookupMainMemory k) (\<lambda>r.
         case r of
           Some p \<Rightarrow> bindA (kr_record collect (\<lambda>s. s\<lparr>krs_main_memory_hits := krs_main_memory_hits s + 1\<rparr>)) (\<lambda>_.
                     bindA (kr_promoteToCache k p) (\<lambda>_. returnA (Some p)))
         | None \<Rightarrow>
             bindA (kr_lookupSecondaryStorage rebuild fromEntry k) (\<lambda>r.
             case r of
               Some p \<Rightarrow> bindA (kr_record collect (\<lambda>s. s\<lparr>krs_secondary_hits := krs_secondary_hits s + 1\<rparr>)) (\<lambda>_.
                         bindA (kr_promoteToCache k p) (\<lambda>_. returnA (Some p)))
             | None \<Rightarrow> bindA (kr_record collect (\<lambda>s. s\<lparr>krs_misses := krs_misses s + 1\<rparr>)) (\<lambda>_. returnA None))))"

definition kr_contains :: "('k, 'e, 'm) kernel_registry \<Rightarrow> 'k \<Rightarrow> bool" where
  "kr_contains R k \<longleftrightarrow> map_of (kr_cache R) k \<noteq> None \<or> map_of (kr_main R) k \<noteq> None \<or>
     map_of (kr_secondary R) k \<noteq> None"

definition kr_registerKernel :: "'k \<Rightarrow> 'm \<Rightarrow> (('k, 'e, 'm) kernel_registry, unit) act" where
  "kr_registerKernel k m R =
     (if map_of (kr_cache R) k \<noteq> None \<or> map_of (kr_main R) k \<noteq> None \<or> map_of (kr_secondary R) k \<noteq> None
      then (Inr (), R)
      else (Inr (), R\<lparr>kr_secondary := AList.update k m (kr_secondary R)\<rparr>))"

definition kr_prefetch ::
  "bool \<Rightarrow> ('m \<Rightarrow> 'e) \<Rightarrow> ('e \<Rightarrow> 'm) \<Rightarrow> 'k \<Rightarrow> (('k, 'e, 'm) kernel_registry, bool) act" where
  "kr_prefetch collect rebuild fromEntry k =
     bindA (kr_lookup collect rebuild fromEntry k) (\<lambda>r. returnA (r \<noteq> None))"

text \<open>Clearing a map of nodes frees them all.\<close>

definition kr_flush :: "(('k, 'e, 'm) kernel_registry, unit) act" where
  "kr_flush R =
     bindA (kr_onCacheLru lru_clear) (\<lambda>_ R.
     (Inr (), R\<lparr>kr_cache_lru := foldr lru_free (map snd (kr_cache_nodes R)) (kr_cache_lru R),
               kr_cache_nodes := []\<rparr>))
       (R\<lparr>kr_cache := []\<rparr>)"

definition kr_clear :: "(('k, 'e, 'm) kernel_registry, unit) act" where
  "kr_clear =
     bindA kr_flush (\<lambda>_ R.
     bindA (kr_onMainLru lru_clear) (\<lambda>_ R.
     (Inr (), R\<lparr>kr_main_lru := foldr lru_free (map snd (kr_main_nodes R)) (kr_main_lru R),
               kr_main_nodes := [], kr_secondary := [], kr_stats := kr_noStats\<rparr>))
       (R\<lparr>kr_main := [], kr_entries := foldr (\<lambda>p h. h(p := None)) (map snd (kr_main R)) (kr_entries R)\<rparr>))"

definition kr_cacheSize :: "('k, 'e, 'm) kernel_registry \<Rightarrow> nat" where
  "kr_cacheSize R = length (kr_cache R)"

definition kr_mainMemorySize :: "('k, 'e, 'm) kernel_registry \<Rightarrow> nat" where
  "kr_mainMemorySize R = length (kr_main R)"

definition kr_secondaryStorageSize :: "('k, 'e, 'm) kernel_registry \<Rightarrow> nat" where
  "kr_secondaryStorageSize R = length (kr_secondary R)"


section \<open>What each part does\<close>

lemma alist_length: "distinct (map fst xs) \<Longrightarrow> length xs = card (dom (map_of xs))"
  by (metis distinct_card dom_map_of_conv_image_fst length_map set_map)

lemma alist_distinct:
  "distinct (map fst xs) \<Longrightarrow> distinct (map fst (AList.delete k xs))"
  "distinct (map fst xs) \<Longrightarrow> distinct (map fst (AList.update k v xs))"
  by (simp_all add: distinct_delete distinct_update)

lemma remove1_split: "distinct (us @ k # vs) \<Longrightarrow> remove1 k (us @ k # vs) = us @ vs"
  by (simp add: remove1_append)

lemma tier_touch1:
  assumes "lru.tier nodes L brk ks" and "k \<in> set ks"
  shows "\<exists>a L'. map_of nodes k = Some a \<and> lru_touch (Some a) L = (Inr (), L') \<and>
    lru.tier nodes L' brk (k # remove1 k ks)"
proof -
  obtain us vs where ks: "ks = us @ k # vs"
    using assms(2) by (auto dest: split_list)
  moreover have "remove1 k ks = us @ vs"
    using lru.tier_distinct[OF assms(1)] remove1_split ks by metis
  ultimately show ?thesis
    using lru.tier_touch[of nodes L brk us k vs] assms(1) by simp
qed

lemma tier_delete1:
  assumes "lru.tier nodes L brk ks" and "k \<in> set ks"
  shows "\<exists>a L'. map_of nodes k = Some a \<and> lru_remove (Some a) L = (Inr (), L') \<and>
    lru.tier (AList.delete k nodes) (lru_free a L') brk (remove1 k ks)"
proof -
  obtain us vs where ks: "ks = us @ k # vs"
    using assms(2) by (auto dest: split_list)
  moreover have "remove1 k ks = us @ vs"
    using lru.tier_distinct[OF assms(1)] remove1_split ks by metis
  ultimately show ?thesis
    using lru.tier_delete[of nodes L brk us k vs] assms(1) by simp
qed

lemma kr_nodeKey_keys: "lru_keys L a = Some k \<Longrightarrow> kr_nodeKey a L = (Inr k, L)"
  by (auto simp: kr_nodeKey_def lru_deref_def bindA_apply lru_keys_def split: if_splits option.splits)

abbreviation "kr_ctier R \<equiv> lru.tier (kr_cache_nodes R) (kr_cache_lru R) (kr_brk R)"
abbreviation "kr_mtier R \<equiv> lru.tier (kr_main_nodes R) (kr_main_lru R) (kr_brk R)"

lemma kr_touchCache_in:
  assumes "kr_ctier R c" and "k \<in> set c"
  obtains L where "kr_touchCache k R = (Inr (), R\<lparr>kr_cache_lru := L\<rparr>)"
    and "lru.tier (kr_cache_nodes R) L (kr_brk R) (k # remove1 k c)"
  using tier_touch1[OF assms] by (auto simp: kr_touchCache_def kr_onCacheLru_def)

lemma kr_touchMain_in:
  assumes "kr_mtier R m" and "k \<in> set m"
  obtains L where "kr_touchMainMemory k R = (Inr (), R\<lparr>kr_main_lru := L\<rparr>)"
    and "lru.tier (kr_main_nodes R) L (kr_brk R) (k # remove1 k m)"
  using tier_touch1[OF assms] by (auto simp: kr_touchMainMemory_def kr_onMainLru_def)

lemma kr_evictFromCache_last:
  assumes "kr_ctier R (c @ [k])"
  obtains L where "kr_evictFromCache R = (Inr (), R\<lparr>kr_cache := AList.delete k (kr_cache R),
      kr_cache_nodes := AList.delete k (kr_cache_nodes R), kr_cache_lru := L\<rparr>)"
    and "lru.tier (AList.delete k (kr_cache_nodes R)) L (kr_brk R) c"
proof -
  obtain a L' where a: "lru_popBack (kr_cache_lru R) = (Inr (Some a), L')" "lru_keys L' a = Some k"
    "map_of (kr_cache_nodes R) k = Some a"
    "lru.tier (AList.delete k (kr_cache_nodes R)) (lru_free a L') (kr_brk R) c"
    using lru.tier_evict[OF assms] by auto
  then show thesis
    using that[of "lru_free a L'"]
    by (simp add: kr_evictFromCache_def bindA_apply kr_onCacheLru_def kr_nodeKey_keys kr_eraseCacheNode_def)
qed

lemma kr_evictFromCache_empty: "kr_ctier R [] \<Longrightarrow> kr_evictFromCache R = (Inr (), R)"
  by (simp add: kr_evictFromCache_def bindA_apply kr_onCacheLru_def lru.tier_empty)

lemma kr_insertCache:
  assumes "kr_ctier R c" and "k \<notin> set c"
  obtains L where "bindA (kr_emplaceCacheNode k) (\<lambda>a. kr_onCacheLru (lru_pushFront (Some a))) R =
      (Inr (), R\<lparr>kr_cache_nodes := (k, kr_brk R) # kr_cache_nodes R, kr_brk := Suc (kr_brk R), kr_cache_lru := L\<rparr>)"
    and "lru.tier ((k, kr_brk R) # kr_cache_nodes R) L (Suc (kr_brk R)) (k # c)"
  using lru.tier_push[OF assms]
  by (auto simp: bindA_apply kr_emplaceCacheNode_def kr_onCacheLru_def)

lemma kr_insertMain:
  assumes "kr_mtier R m" and "k \<notin> set m"
  obtains L where "kr_emplaceMainNode k R = (Inr (kr_brk R), R\<lparr>kr_main_nodes := (k, kr_brk R) # kr_main_nodes R,
      kr_main_lru := lru_alloc (kr_brk R) k (kr_main_lru R), kr_brk := Suc (kr_brk R)\<rparr>)"
    and "lru_pushFront (Some (kr_brk R)) (lru_alloc (kr_brk R) k (kr_main_lru R)) = (Inr (), L)"
    and "lru.tier ((k, kr_brk R) # kr_main_nodes R) L (Suc (kr_brk R)) (k # m)"
  using lru.tier_push[OF assms] by (auto simp: kr_emplaceMainNode_def)

text \<open>The cache list after making room for one more key.\<close>

definition krs_room :: "nat \<Rightarrow> 'k list \<Rightarrow> 'k list" where
  "krs_room cap c = (if length c \<ge> cap then butlast c else c)"

lemma krs_room_subset: "set (krs_room cap c) \<subseteq> set c"
  using set_butlast_subset[of c] by (auto simp: krs_room_def)

lemma kr_promote:
  assumes tier: "kr_ctier R c" and dom: "dom (map_of (kr_cache R)) = set c" and d: "distinct (map fst (kr_cache R))"
    and k: "k \<notin> set c"
  obtains C N L where "kr_promoteToCache k p R = (Inr (), R\<lparr>kr_cache := C, kr_cache_nodes := N,
      kr_brk := Suc (kr_brk R), kr_cache_lru := L\<rparr>)"
    and "lru.tier N L (Suc (kr_brk R)) (k # krs_room (krc_cache_capacity (kr_config R)) c)"
    and "map_of C = (map_of (kr_cache R) |` set (krs_room (krc_cache_capacity (kr_config R)) c))(k \<mapsto> p)"
    and "distinct (map fst C)"
proof -
  let ?cap = "krc_cache_capacity (kr_config R)"
  have none: "map_of (kr_cache R) k = None"
    using dom k by (auto simp: domIff)
  have len: "length (kr_cache R) = length c"
    using alist_length[OF d] dom distinct_card[OF lru.tier_distinct[OF tier]] by simp
  have full: "map_of (kr_cache R) |` set c = map_of (kr_cache R)"
    unfolding dom[symmetric] by (auto simp: fun_eq_iff restrict_map_def domIff)
  consider (keep) "length c < ?cap \<or> c = []" | (evict) c' k' where "c = c' @ [k']" "?cap \<le> length c"
    by (cases c rule: rev_exhaust; cases "length c < ?cap") (auto simp: not_less)
  then show thesis
  proof cases
    case keep
    have room: "krs_room ?cap c = c"
      using keep by (auto simp: krs_room_def)
    let ?R = "R\<lparr>kr_cache := AList.update k p (kr_cache R)\<rparr>"
    obtain L where L: "bindA (kr_emplaceCacheNode k) (\<lambda>a. kr_onCacheLru (lru_pushFront (Some a))) ?R =
        (Inr (), ?R\<lparr>kr_cache_nodes := (k, kr_brk R) # kr_cache_nodes R, kr_brk := Suc (kr_brk R), kr_cache_lru := L\<rparr>)"
      "lru.tier ((k, kr_brk R) # kr_cache_nodes R) L (Suc (kr_brk R)) (k # c)"
      by (rule kr_insertCache[of ?R c k]) (use tier k in auto)
    have "kr_promoteToCache k p R =
        bindA (kr_emplaceCacheNode k) (\<lambda>a. kr_onCacheLru (lru_pushFront (Some a))) ?R"
      using keep none tier len
      by (auto simp: kr_promoteToCache_def bindA_apply[of "\<lambda>R. if _ R then _ R else _ R"] kr_evictFromCache_empty)
    with L that[of L "(k, kr_brk R) # kr_cache_nodes R" "AList.update k p (kr_cache R)"] show thesis
      by (simp add: room update_conv' full alist_distinct d)
  next
    case evict
    have room: "krs_room ?cap c = c'"
      using evict by (auto simp: krs_room_def)
    have c': "k' \<notin> set c'" "k \<notin> set c'" "k \<noteq> k'"
      using lru.tier_distinct[OF tier] evict k by auto
    obtain L1 where L1: "kr_evictFromCache R = (Inr (), R\<lparr>kr_cache := AList.delete k' (kr_cache R),
        kr_cache_nodes := AList.delete k' (kr_cache_nodes R), kr_cache_lru := L1\<rparr>)"
      "lru.tier (AList.delete k' (kr_cache_nodes R)) L1 (kr_brk R) c'"
      by (rule kr_evictFromCache_last[of R c' k']) (use tier evict in auto)
    let ?R = "R\<lparr>kr_cache_nodes := AList.delete k' (kr_cache_nodes R), kr_cache_lru := L1,
        kr_cache := AList.update k p (AList.delete k' (kr_cache R))\<rparr>"
    obtain L where L: "bindA (kr_emplaceCacheNode k) (\<lambda>a. kr_onCacheLru (lru_pushFront (Some a))) ?R =
        (Inr (), ?R\<lparr>kr_cache_nodes := (k, kr_brk R) # AList.delete k' (kr_cache_nodes R), kr_brk := Suc (kr_brk R), kr_cache_lru := L\<rparr>)"
      "lru.tier ((k, kr_brk R) # AList.delete k' (kr_cache_nodes R)) L (Suc (kr_brk R)) (k # c')"
      by (rule kr_insertCache[of ?R c' k]) (use L1 c' in auto)
    have "kr_promoteToCache k p R =
        bindA (kr_emplaceCacheNode k) (\<lambda>a. kr_onCacheLru (lru_pushFront (Some a))) ?R"
      using evict none len L1(1)
      by (simp add: kr_promoteToCache_def bindA_apply[of "\<lambda>R. if _ R then _ R else _ R"])
    moreover have "(map_of (kr_cache R))(k' := None) = map_of (kr_cache R) |` set c'"
      using full c' evict(1) by (auto simp: fun_eq_iff restrict_map_def split: if_splits)
    ultimately show thesis
      using L that[of L "(k, kr_brk R) # AList.delete k' (kr_cache_nodes R)" "AList.update k p (AList.delete k' (kr_cache R))"]
      by (simp add: room update_conv' delete_conv' alist_distinct d)
  qed
qed


lemma kr_evictFromMain_last:
  assumes m: "kr_mtier R (m @ [k])" and c: "kr_ctier R c"
    and entry: "map_of (kr_main R) k = Some p" "kr_entries R p = Some e"
  obtains M1 CN CL where "kr_evictFromMainMemory fromEntry R = (Inr (), R\<lparr>
      kr_secondary := AList.update k (fromEntry e) (kr_secondary R), kr_main := AList.delete k (kr_main R),
      kr_entries := (kr_entries R)(p := None), kr_main_nodes := AList.delete k (kr_main_nodes R),
      kr_main_lru := M1, kr_cache := AList.delete k (kr_cache R), kr_cache_nodes := CN, kr_cache_lru := CL\<rparr>)"
    and "lru.tier (AList.delete k (kr_main_nodes R)) M1 (kr_brk R) m"
    and "lru.tier CN CL (kr_brk R) (remove1 k c)"
proof -
  obtain a L' where a: "lru_popBack (kr_main_lru R) = (Inr (Some a), L')" "lru_keys L' a = Some k"
    "map_of (kr_main_nodes R) k = Some a"
    "lru.tier (AList.delete k (kr_main_nodes R)) (lru_free a L') (kr_brk R) m"
    using lru.tier_evict[OF m] by auto
  let ?R = "R\<lparr>kr_secondary := AList.update k (fromEntry e) (kr_secondary R), kr_main := AList.delete k (kr_main R),
      kr_entries := (kr_entries R)(p := None), kr_main_nodes := AList.delete k (kr_main_nodes R),
      kr_main_lru := lru_free a L'\<rparr>"
  have step: "kr_evictFromMainMemory fromEntry R = kr_dropFromCache k ?R"
    using a entry
    by (simp add: kr_evictFromMainMemory_def bindA_apply kr_onMainLru_def kr_nodeKey_keys kr_demote_def
        kr_eraseMainNode_def)
  show thesis
  proof (cases "k \<in> set c")
    case True
    obtain a' L where L: "map_of (kr_cache_nodes R) k = Some a'"
      "lru_remove (Some a') (kr_cache_lru R) = (Inr (), L)"
      "lru.tier (AList.delete k (kr_cache_nodes R)) (lru_free a' L) (kr_brk R) (remove1 k c)"
      using tier_delete1[OF c True] by auto
    show thesis
      by (rule that[of "lru_free a' L" "AList.delete k (kr_cache_nodes R)" "lru_free a L'"])
        (use L a step in \<open>simp_all add: kr_dropFromCache_def Let_def bindA_apply kr_onCacheLru_def kr_eraseCacheNode_def\<close>)
  next
    case False
    then have "map_of (kr_cache_nodes R) k = None" "remove1 k c = c"
      using lru.tier_node[OF c] by (auto simp: remove1_idem)
    then show thesis
      using a c step by (intro that[of "kr_cache_lru R" "kr_cache_nodes R" "lru_free a L'"])
        (simp_all add: kr_dropFromCache_def Let_def)
  qed
qed

lemma kr_evictFromMain_empty: "kr_mtier R [] \<Longrightarrow> kr_evictFromMainMemory fromEntry R = (Inr (), R)"
  by (simp add: kr_evictFromMainMemory_def bindA_apply kr_onMainLru_def lru.tier_empty)

lemma kr_insert_entry:
  assumes m: "kr_mtier R m" and k: "k \<notin> set m" "map_of (kr_main R) k = None"
  obtains L where "bindA (kr_storeEntry k e) (\<lambda>_. bindA (kr_emplaceMainNode k) (\<lambda>a.
        bindA (kr_onMainLru (lru_pushFront (Some a))) (\<lambda>_ R. (Inr (map_of (kr_main R) k), R)))) R =
      (Inr (Some (kr_brk R)), R\<lparr>kr_main := AList.update k (kr_brk R) (kr_main R),
         kr_entries := (kr_entries R)(kr_brk R \<mapsto> e), kr_main_nodes := (k, Suc (kr_brk R)) # kr_main_nodes R,
         kr_brk := Suc (Suc (kr_brk R)), kr_main_lru := L\<rparr>)"
    and "lru.tier ((k, Suc (kr_brk R)) # kr_main_nodes R) L (Suc (Suc (kr_brk R))) (k # m)"
proof -
  have "lru.tier (kr_main_nodes R) (kr_main_lru R) (Suc (kr_brk R)) m"
    using lru.tier_mono[OF m, of "Suc (kr_brk R)"] by simp
  from lru.tier_push[OF this k(1)] obtain L where
    "map_of (kr_main_nodes R) k = None"
    "lru_pushFront (Some (Suc (kr_brk R))) (lru_alloc (Suc (kr_brk R)) k (kr_main_lru R)) = (Inr (), L)"
    "lru.tier ((k, Suc (kr_brk R)) # kr_main_nodes R) L (Suc (Suc (kr_brk R))) (k # m)"
    by auto
  with k show thesis
    by (intro that[of L]) (simp_all add: bindA_apply kr_storeEntry_def kr_emplaceMainNode_def kr_onMainLru_def
        Let_def update_conv')
qed

section \<open>The invariant and the abstract registry\<close>

text \<open>
  \<open>c\<close> and \<open>m\<close>: the keys of the cache and of main memory, most recently used first.  The cache points
  into main memory, every main-memory pointer owns a live entry of its own, and no key is both in
  main memory and in secondary storage.
\<close>

definition kr_inv :: "('k, 'e, 'm) kernel_registry \<Rightarrow> 'k list \<Rightarrow> 'k list \<Rightarrow> bool" where
  "kr_inv R c m \<longleftrightarrow>
     kr_ctier R c \<and> kr_mtier R m \<and>
     distinct (map fst (kr_cache R)) \<and> distinct (map fst (kr_main R)) \<and> distinct (map fst (kr_secondary R)) \<and>
     dom (map_of (kr_cache R)) = set c \<and> dom (map_of (kr_main R)) = set m \<and>
     map_of (kr_cache R) \<subseteq>\<^sub>m map_of (kr_main R) \<and>
     (\<forall>k \<in> set m. map_of (kr_secondary R) k = None) \<and>
     (\<forall>k p. map_of (kr_main R) k = Some p \<longrightarrow> p < kr_brk R \<and> kr_entries R p \<noteq> None) \<and>
     inj_on (map_of (kr_main R)) (set m) \<and>
     length c \<le> max 1 (krc_cache_capacity (kr_config R)) \<and>
     length m \<le> max 1 (krc_main_memory_capacity (kr_config R))"

text \<open>The entry a key stands for: in main memory, or what secondary storage would rebuild.\<close>

definition kr_value :: "('m \<Rightarrow> 'e) \<Rightarrow> ('k, 'e, 'm) kernel_registry \<Rightarrow> 'k \<Rightarrow> 'e option" where
  "kr_value rebuild R k =
     (case map_of (kr_main R) k of
        Some p \<Rightarrow> kr_entries R p
      | None \<Rightarrow> map_option rebuild (map_of (kr_secondary R) k))"

text \<open>
  Lookup on the abstract registry \<open>(c, m, s)\<close>: \<open>s\<close> is the set of keys in secondary storage.
\<close>

definition krs_lookup ::
  "nat \<Rightarrow> nat \<Rightarrow> 'k \<Rightarrow> 'k list \<times> 'k list \<times> 'k set \<Rightarrow> bool \<times> 'k list \<times> 'k list \<times> 'k set" where
  "krs_lookup ccap mcap k = (\<lambda>(c, m, s).
     if k \<in> set c then (True, k # remove1 k c, m, s)
     else if k \<in> set m then (True, k # krs_room ccap c, k # remove1 k m, s)
     else if k \<in> s then
       (if length m \<ge> mcap \<and> m \<noteq> []
        then (True, k # krs_room ccap (remove1 (last m) c), k # butlast m, insert (last m) (s - {k}))
        else (True, k # krs_room ccap c, k # m, s - {k}))
     else (False, c, m, s))"


lemma kr_invD:
  assumes "kr_inv R c m"
  shows "kr_ctier R c" "kr_mtier R m" "distinct c" "distinct m"
    "dom (map_of (kr_cache R)) = set c" "dom (map_of (kr_main R)) = set m"
    "map_of (kr_cache R) \<subseteq>\<^sub>m map_of (kr_main R)"
    "\<And>k. k \<in> set m \<Longrightarrow> map_of (kr_secondary R) k = None"
    "\<And>k p. map_of (kr_main R) k = Some p \<Longrightarrow> p < kr_brk R \<and> kr_entries R p \<noteq> None"
    "set c \<subseteq> set m"
    "length (kr_cache R) = length c" "length (kr_main R) = length m"
proof -
  show d: "kr_ctier R c" "kr_mtier R m" "distinct c" "distinct m"
    "dom (map_of (kr_cache R)) = set c" "dom (map_of (kr_main R)) = set m"
    "map_of (kr_cache R) \<subseteq>\<^sub>m map_of (kr_main R)"
    using assms lru.tier_distinct by (auto simp: kr_inv_def)
  show "map_of (kr_secondary R) k = None" if "k \<in> set m" for k
    using assms that by (simp add: kr_inv_def)
  show "p < kr_brk R \<and> kr_entries R p \<noteq> None" if "map_of (kr_main R) k = Some p" for k p
    using assms that by (simp add: kr_inv_def)
  show "set c \<subseteq> set m"
    using map_le_implies_dom_le[OF d(7)] d by simp
  show "length (kr_cache R) = length c" "length (kr_main R) = length m"
    using assms d alist_length[of "kr_cache R"] alist_length[of "kr_main R"] distinct_card[OF d(3)] distinct_card[OF d(4)]
    by (auto simp: kr_inv_def)
qed

lemma kr_inv_stats [simp]: "kr_inv (R\<lparr>kr_stats := x\<rparr>) c m = kr_inv R c m"
  by (simp add: kr_inv_def)

lemma kr_record_eq:
  "\<exists>x. kr_record collect f R = (Inr (), R\<lparr>kr_stats := x\<rparr>)"
  unfolding kr_record_def by (rule exI[of _ "if collect then f (kr_stats R) else kr_stats R"]) simp

text \<open>Steps that leave the contents of the registry as they are.\<close>

definition kr_same :: "('k, 'e, 'm) kernel_registry \<Rightarrow> ('k, 'e, 'm) kernel_registry \<Rightarrow> bool" where
  "kr_same R R' \<longleftrightarrow> kr_main R' = kr_main R \<and> kr_entries R' = kr_entries R \<and>
     kr_secondary R' = kr_secondary R \<and> kr_config R' = kr_config R"

lemma kr_same_refl [simp]: "kr_same R R"
  by (simp add: kr_same_def)

lemma kr_same_trans: "kr_same R R' \<Longrightarrow> kr_same R' R'' \<Longrightarrow> kr_same R R''"
  by (simp add: kr_same_def)

lemma kr_same_value: "kr_same R R' \<Longrightarrow> kr_value rebuild R' = kr_value rebuild R"
  by (auto simp: kr_same_def kr_value_def split: option.split)

lemma kr_touchCache_inv:
  assumes inv: "kr_inv R c m" and "k \<in> set c"
  shows "\<exists>R'. kr_touchCache k R = (Inr (), R') \<and> kr_inv R' (k # remove1 k c) m \<and> kr_same R R'"
proof -
  obtain L where L: "kr_touchCache k R = (Inr (), R\<lparr>kr_cache_lru := L\<rparr>)"
    "lru.tier (kr_cache_nodes R) L (kr_brk R) (k # remove1 k c)"
    by (rule kr_touchCache_in[OF kr_invD(1)[OF inv] assms(2)])
  have "set (k # remove1 k c) = set c" "length (k # remove1 k c) = length c"
    using assms(2) kr_invD(3)[OF inv] by (auto simp: length_remove1 dest: length_pos_if_in_set)
  with L inv show ?thesis
    by (auto simp: kr_inv_def kr_same_def)
qed

lemma kr_touchMain_inv:
  assumes inv: "kr_inv R c m" and "k \<in> set m"
  shows "\<exists>R'. kr_touchMainMemory k R = (Inr (), R') \<and> kr_inv R' c (k # remove1 k m) \<and> kr_same R R'"
proof -
  obtain L where L: "kr_touchMainMemory k R = (Inr (), R\<lparr>kr_main_lru := L\<rparr>)"
    "lru.tier (kr_main_nodes R) L (kr_brk R) (k # remove1 k m)"
    by (rule kr_touchMain_in[OF kr_invD(2)[OF inv] assms(2)])
  have s: "set (k # remove1 k m) = set m" "length (k # remove1 k m) = length m"
    using assms(2) kr_invD(4)[OF inv] by (auto simp: length_remove1 dest: length_pos_if_in_set)
  have "kr_inv (R\<lparr>kr_main_lru := L\<rparr>) c (k # remove1 k m)"
    using inv L(2) unfolding kr_inv_def s by simp
  with L(1) show ?thesis
    by (auto simp: kr_same_def)
qed

lemma krs_room_length: "length c \<le> max 1 cap \<Longrightarrow> length (krs_room cap c) < max 1 cap"
  by (auto simp: krs_room_def)

lemma kr_promote_inv:
  assumes inv: "kr_inv R c m" and k: "k \<notin> set c" and p: "map_of (kr_main R) k = Some p"
  shows "\<exists>R'. kr_promoteToCache k p R = (Inr (), R') \<and>
    kr_inv R' (k # krs_room (krc_cache_capacity (kr_config R)) c) m \<and> kr_same R R'"
proof -
  let ?room = "krs_room (krc_cache_capacity (kr_config R)) c"
  note D = kr_invD[OF inv]
  obtain C N L where C: "kr_promoteToCache k p R = (Inr (), R\<lparr>kr_cache := C, kr_cache_nodes := N,
      kr_brk := Suc (kr_brk R), kr_cache_lru := L\<rparr>)"
    "lru.tier N L (Suc (kr_brk R)) (k # ?room)"
    "map_of C = (map_of (kr_cache R) |` set ?room)(k \<mapsto> p)" "distinct (map fst C)"
    by (rule kr_promote[OF D(1,5) _ k]) (use inv in \<open>auto simp: kr_inv_def\<close>)
  have "dom (map_of C) = set (k # ?room)"
    using C(3) D(5) krs_room_subset[of _ c] by auto
  moreover have "map_of C \<subseteq>\<^sub>m map_of (kr_main R)"
    using D(7) p by (auto simp: C(3) map_le_def restrict_map_def domIff)
  moreover have "length (k # ?room) \<le> max 1 (krc_cache_capacity (kr_config R))"
    using inv krs_room_length[of c "krc_cache_capacity (kr_config R)"] by (auto simp: kr_inv_def)
  moreover have "lru.tier (kr_main_nodes R) (kr_main_lru R) (Suc (kr_brk R)) m"
    using lru.tier_mono[OF D(2)] by simp
  ultimately have "kr_inv (R\<lparr>kr_cache := C, kr_cache_nodes := N, kr_brk := Suc (kr_brk R), kr_cache_lru := L\<rparr>)
      (k # ?room) m"
    using inv C(2,4) unfolding kr_inv_def by (auto simp: less_Suc_eq)
  with C(1) show ?thesis
    by (auto simp: kr_same_def)
qed

lemma kr_evict_inv:
  assumes inv: "kr_inv R c (m @ [k])"
  obtains R' e where "kr_evictFromMainMemory fromEntry R = (Inr (), R')" and "kr_inv R' (remove1 k c) m"
    and "kr_value rebuild R k = Some e"
    and "map_of (kr_secondary R') = (map_of (kr_secondary R))(k \<mapsto> fromEntry e)"
    and "map_of (kr_main R') = (map_of (kr_main R))(k := None)"
    and "\<And>k' p'. k' \<noteq> k \<Longrightarrow> map_of (kr_main R) k' = Some p' \<Longrightarrow> kr_entries R' p' = kr_entries R p'"
    and "kr_config R' = kr_config R" and "kr_brk R' = kr_brk R"
proof -
  note D = kr_invD[OF inv]
  have "k \<in> dom (map_of (kr_main R))"
    using D(6) by simp
  then obtain p where p: "map_of (kr_main R) k = Some p"
    by blast
  with D(9) obtain e where e: "kr_entries R p = Some e"
    by blast
  obtain M1 CN CL where E: "kr_evictFromMainMemory fromEntry R = (Inr (), R\<lparr>
      kr_secondary := AList.update k (fromEntry e) (kr_secondary R), kr_main := AList.delete k (kr_main R),
      kr_entries := (kr_entries R)(p := None), kr_main_nodes := AList.delete k (kr_main_nodes R),
      kr_main_lru := M1, kr_cache := AList.delete k (kr_cache R), kr_cache_nodes := CN, kr_cache_lru := CL\<rparr>)"
    (is "_ = (_, ?R)")
    and t: "lru.tier (AList.delete k (kr_main_nodes R)) M1 (kr_brk R) m" "lru.tier CN CL (kr_brk R) (remove1 k c)"
    by (rule kr_evictFromMain_last[OF D(2,1) p e])
  have k: "k \<notin> set m" "set (remove1 k c) = set c - {k}" "\<forall>k' \<in> set m. k' \<noteq> k"
    using D(3,4) by auto
  have other: "p' \<noteq> p" if "k' \<noteq> k" "map_of (kr_main R) k' = Some p'" for k' p'
  proof -
    have "k' \<in> set (m @ [k])"
      using that(2) D(6) by blast
    with that inv p show ?thesis
      by (auto simp: kr_inv_def inj_on_def)
  qed
  have inj: "inj_on ((map_of (kr_main R))(k := None)) (set m)"
    using inv k(1) by (auto simp: kr_inv_def inj_on_def)
  have le: "(map_of (kr_cache R))(k := None) \<subseteq>\<^sub>m (map_of (kr_main R))(k := None)"
    using D(7) by (auto simp: map_le_def)
  have dom: "dom ((map_of (kr_cache R))(k := None)) = set (remove1 k c)"
    "dom ((map_of (kr_main R))(k := None)) = set m"
    using D(5,6) k by auto
  have len: "length (remove1 k c) \<le> length c"
    by (simp add: length_remove1)
  have ptr: "p' < kr_brk R \<and> ((kr_entries R)(p := None)) p' \<noteq> None"
    if "((map_of (kr_main R))(k := None)) k' = Some p'" for k' p'
    using that other[of k' p'] D(9)[of k' p'] by (auto split: if_splits)
  have "kr_inv ?R (remove1 k c) m"
    using inv t inj le dom len ptr k(3) D(8) unfolding kr_inv_def
    by (simp add: alist_distinct delete_conv' update_conv')
  with E p e other show thesis
    by (intro that[of ?R e]) (simp_all add: kr_value_def delete_conv' update_conv')
qed


lemma kr_insert_inv:
  assumes inv: "kr_inv R c m" and k: "k \<notin> set m" and sec: "map_of (kr_secondary R) k = None"
    and room: "length m < max 1 (krc_main_memory_capacity (kr_config R))"
  obtains R' p where "bindA (kr_storeEntry k e) (\<lambda>_. bindA (kr_emplaceMainNode k) (\<lambda>a.
        bindA (kr_onMainLru (lru_pushFront (Some a))) (\<lambda>_ R. (Inr (map_of (kr_main R) k), R)))) R = (Inr (Some p), R')"
    and "kr_inv R' c (k # m)" and "map_of (kr_main R') = (map_of (kr_main R))(k \<mapsto> p)"
    and "kr_entries R' p = Some e" and "\<And>k' p'. map_of (kr_main R) k' = Some p' \<Longrightarrow> kr_entries R' p' = kr_entries R p'"
    and "kr_secondary R' = kr_secondary R" and "kr_config R' = kr_config R"
proof -
  note D = kr_invD[OF inv]
  have none: "map_of (kr_main R) k = None"
    using D(6) k by (auto simp: domIff)
  obtain L where L: "bindA (kr_storeEntry k e) (\<lambda>_. bindA (kr_emplaceMainNode k) (\<lambda>a.
        bindA (kr_onMainLru (lru_pushFront (Some a))) (\<lambda>_ R. (Inr (map_of (kr_main R) k), R)))) R =
      (Inr (Some (kr_brk R)), R\<lparr>kr_main := AList.update k (kr_brk R) (kr_main R),
         kr_entries := (kr_entries R)(kr_brk R \<mapsto> e), kr_main_nodes := (k, Suc (kr_brk R)) # kr_main_nodes R,
         kr_brk := Suc (Suc (kr_brk R)), kr_main_lru := L\<rparr>)" (is "_ = (_, ?R)")
    and t: "lru.tier ((k, Suc (kr_brk R)) # kr_main_nodes R) L (Suc (Suc (kr_brk R))) (k # m)"
    by (rule kr_insert_entry[OF D(2) k none])
  have c: "lru.tier (kr_cache_nodes R) (kr_cache_lru R) (Suc (Suc (kr_brk R))) c"
    using lru.tier_mono[OF D(1)] by simp
  have below: "p' < kr_brk R" if "map_of (kr_main R) k' = Some p'" for k' p'
    using D(9)[OF that] by simp
  have inj: "inj_on ((map_of (kr_main R))(k \<mapsto> kr_brk R)) (set (k # m))"
    using inv k below by (fastforce simp: kr_inv_def inj_on_def)
  have le: "map_of (kr_cache R) \<subseteq>\<^sub>m (map_of (kr_main R))(k \<mapsto> kr_brk R)"
    using D(7) none unfolding map_le_def by (metis domIff fun_upd_other)
  have dom: "dom ((map_of (kr_main R))(k \<mapsto> kr_brk R)) = set (k # m)"
    using D(6) by auto
  have ptr: "p' < Suc (Suc (kr_brk R)) \<and> ((kr_entries R)(kr_brk R \<mapsto> e)) p' \<noteq> None"
    if "((map_of (kr_main R))(k \<mapsto> kr_brk R)) k' = Some p'" for k' p'
    using that D(9)[of k' p'] by (auto split: if_splits)
  have len: "length (k # m) \<le> max 1 (krc_main_memory_capacity (kr_config R))"
    using room by simp
  have "kr_inv ?R c (k # m)"
    using inv t c inj le dom ptr len sec unfolding kr_inv_def
    by (simp add: alist_distinct update_conv' del: length_Cons)
  with L below show thesis
    by (intro that[of "kr_brk R" ?R]) (auto simp: update_conv')
qed

lemma kr_inv_forget:
  "kr_inv R c m \<Longrightarrow> kr_inv (R\<lparr>kr_secondary := AList.delete k (kr_secondary R)\<rparr>) c m"
  by (auto simp: kr_inv_def alist_distinct delete_conv')

section \<open>Lookup refines the abstract lookup\<close>

text \<open>
  What a lookup may do to the entry of a key: leave it, or demote it, so that it will be rebuilt from
  the metadata made of it.
\<close>

definition kr_demoted :: "('m \<Rightarrow> 'e) \<Rightarrow> ('e \<Rightarrow> 'm) \<Rightarrow> 'e \<Rightarrow> 'e \<Rightarrow> bool" where
  "kr_demoted rebuild fromEntry e e' \<longleftrightarrow> e' = e \<or> e' = rebuild (fromEntry e)"

lemma kr_demoted_refl: "rel_option (kr_demoted rebuild fromEntry) v v"
  by (cases v) (simp_all add: kr_demoted_def)

definition kr_refines where
  "kr_refines rebuild fromEntry R k res spec \<longleftrightarrow>
     (case (res, spec) of ((r, R'), (b, c, m, s)) \<Rightarrow> \<exists>p. r = Inr p \<and> b = (p \<noteq> None) \<and> kr_inv R' c m \<and> dom (map_of (kr_secondary R')) = s \<and>
        kr_config R' = kr_config R \<and> (p \<noteq> None \<longrightarrow> map_of (kr_main R') k = p) \<and>
        (\<forall>k'. rel_option (kr_demoted rebuild fromEntry) (kr_value rebuild R k') (kr_value rebuild R' k')))"

lemma kr_same_refines:
  assumes "kr_same R R'" and "kr_inv R' c m" and "map_of (kr_main R) k = Some p"
  shows "kr_refines rebuild fromEntry R k (Inr (Some p), R') (True, c, m, dom (map_of (kr_secondary R)))"
  using assms kr_same_value[OF assms(1)] by (auto simp: kr_refines_def kr_same_def kr_demoted_refl)

lemma kr_lookup_cached:
  assumes inv: "kr_inv R c m" and "k \<in> set c"
  shows "kr_refines rebuild fromEntry R k (kr_lookup collect rebuild fromEntry k R)
    (True, k # remove1 k c, m, dom (map_of (kr_secondary R)))"
proof -
  note D = kr_invD[OF inv]
  have "k \<in> dom (map_of (kr_cache R))"
    using D(5) assms(2) by simp
  then obtain p where p: "map_of (kr_cache R) k = Some p"
    by blast
  then have p': "map_of (kr_main R) k = Some p"
    using D(7) by (metis domI map_le_def)
  obtain R1 where R1: "kr_touchCache k R = (Inr (), R1)" "kr_inv R1 (k # remove1 k c) m" "kr_same R R1"
    using kr_touchCache_inv[OF assms] by auto
  obtain x where x: "kr_record collect (\<lambda>s. s\<lparr>krs_cache_hits := krs_cache_hits s + 1\<rparr>) R1 = (Inr (), R1\<lparr>kr_stats := x\<rparr>)"
    using kr_record_eq by blast
  have "kr_lookup collect rebuild fromEntry k R = (Inr (Some p), R1\<lparr>kr_stats := x\<rparr>)"
    using p R1(1) x by (simp add: kr_lookup_def bindA_apply kr_lookupCache_def)
  moreover have "kr_same R (R1\<lparr>kr_stats := x\<rparr>)"
    using R1(3) by (simp add: kr_same_def)
  ultimately show ?thesis
    using kr_same_refines[of R "R1\<lparr>kr_stats := x\<rparr>"] R1(2) p' by simp
qed

lemma kr_lookup_main:
  assumes inv: "kr_inv R c m" and "k \<notin> set c" and "k \<in> set m"
  shows "kr_refines rebuild fromEntry R k (kr_lookup collect rebuild fromEntry k R)
    (True, k # krs_room (krc_cache_capacity (kr_config R)) c, k # remove1 k m, dom (map_of (kr_secondary R)))"
proof -
  note D = kr_invD[OF inv]
  have "k \<in> dom (map_of (kr_main R))"
    using D(6) assms(3) by simp
  then obtain p where p: "map_of (kr_main R) k = Some p"
    by blast
  have c: "map_of (kr_cache R) k = None"
    using D(5) assms(2) by (auto simp: domIff)
  obtain R1 where R1: "kr_touchMainMemory k R = (Inr (), R1)" "kr_inv R1 c (k # remove1 k m)" "kr_same R R1"
    using kr_touchMain_inv[OF inv assms(3)] by auto
  obtain x where x: "kr_record collect (\<lambda>s. s\<lparr>krs_main_memory_hits := krs_main_memory_hits s + 1\<rparr>) R1 =
      (Inr (), R1\<lparr>kr_stats := x\<rparr>)"
    using kr_record_eq by blast
  have "map_of (kr_main (R1\<lparr>kr_stats := x\<rparr>)) k = Some p"
    using p R1(3) by (simp add: kr_same_def)
  from kr_promote_inv[OF _ assms(2) this] R1(2) obtain R2 where R2:
    "kr_promoteToCache k p (R1\<lparr>kr_stats := x\<rparr>) = (Inr (), R2)"
    "kr_inv R2 (k # krs_room (krc_cache_capacity (kr_config R1)) c) (k # remove1 k m)"
    "kr_same (R1\<lparr>kr_stats := x\<rparr>) R2"
    by auto
  have "kr_lookup collect rebuild fromEntry k R = (Inr (Some p), R2)"
    using p c R1(1) x R2(1) by (simp add: kr_lookup_def bindA_apply kr_lookupCache_def kr_lookupMainMemory_def)
  moreover have "kr_same R R2" "kr_config R1 = kr_config R"
    using R1(3) R2(3) by (simp_all add: kr_same_def)
  ultimately show ?thesis
    using kr_same_refines[of R R2] R2(2) p by simp
qed

lemma kr_lookup_missing:
  assumes inv: "kr_inv R c m" and "k \<notin> set c" and "k \<notin> set m" and "map_of (kr_secondary R) k = None"
  shows "kr_refines rebuild fromEntry R k (kr_lookup collect rebuild fromEntry k R)
    (False, c, m, dom (map_of (kr_secondary R)))"
proof -
  note D = kr_invD[OF inv]
  have n: "map_of (kr_cache R) k = None" "map_of (kr_main R) k = None"
    using D(5,6) assms(2,3) by (auto simp: domIff)
  obtain x where x: "kr_record collect (\<lambda>s. s\<lparr>krs_misses := krs_misses s + 1\<rparr>) R = (Inr (), R\<lparr>kr_stats := x\<rparr>)"
    using kr_record_eq by blast
  have "kr_lookup collect rebuild fromEntry k R = (Inr None, R\<lparr>kr_stats := x\<rparr>)"
    using n x assms(4) by (simp add: kr_lookup_def bindA_apply kr_lookupCache_def kr_lookupMainMemory_def
        kr_lookupSecondaryStorage_def)
  moreover have "kr_value rebuild (R\<lparr>kr_stats := x\<rparr>) = kr_value rebuild R"
    by (rule kr_same_value) (simp add: kr_same_def)
  ultimately show ?thesis
    using inv by (simp add: kr_refines_def kr_demoted_refl)
qed


lemma kr_lookup_finish:
  assumes inv: "kr_inv R c m" and "k \<notin> set c" and p: "map_of (kr_main R) k = Some p"
  shows "\<exists>R'. bindA (kr_record collect f) (\<lambda>_. bindA (kr_promoteToCache k p) (\<lambda>_. returnA (Some p))) R =
      (Inr (Some p), R') \<and> kr_inv R' (k # krs_room (krc_cache_capacity (kr_config R)) c) m \<and> kr_same R R'"
proof -
  obtain x where x: "kr_record collect f R = (Inr (), R\<lparr>kr_stats := x\<rparr>)"
    using kr_record_eq by blast
  obtain R' where "kr_promoteToCache k p (R\<lparr>kr_stats := x\<rparr>) = (Inr (), R')"
    "kr_inv R' (k # krs_room (krc_cache_capacity (kr_config R)) c) m" "kr_same (R\<lparr>kr_stats := x\<rparr>) R'"
    using kr_promote_inv[of "R\<lparr>kr_stats := x\<rparr>" c m k p] assms by auto
  with x show ?thesis
    by (auto simp: bindA_apply kr_same_def)
qed

lemma kr_lookup_secondary_steps:
  assumes inv: "kr_inv R1 c m" and k: "k \<notin> set m" "map_of (kr_secondary R1) k = None"
    and room: "length m < max 1 (krc_main_memory_capacity (kr_config R1))"
    and start: "kr_lookup collect rebuild fromEntry k R =
      bindA (bindA (kr_storeEntry k (rebuild x)) (\<lambda>_. bindA (kr_emplaceMainNode k) (\<lambda>a.
        bindA (kr_onMainLru (lru_pushFront (Some a))) (\<lambda>_ R. (Inr (map_of (kr_main R) k), R))))) (\<lambda>r.
      case r of
        Some p \<Rightarrow> bindA (kr_record collect f) (\<lambda>_. bindA (kr_promoteToCache k p) (\<lambda>_. returnA (Some p)))
      | None \<Rightarrow> g) R1"
    and config: "kr_config R1 = kr_config R"
    and sec: "map_of (kr_secondary R) k = Some x" "map_of (kr_main R) k = None"
    and others: "\<And>k'. k' \<noteq> k \<Longrightarrow>
      rel_option (kr_demoted rebuild fromEntry) (kr_value rebuild R k') (kr_value rebuild R1 k')"
  shows "kr_refines rebuild fromEntry R k (kr_lookup collect rebuild fromEntry k R)
    (True, k # krs_room (krc_cache_capacity (kr_config R)) c, k # m, dom (map_of (kr_secondary R1)))"
proof -
  obtain R2 p where R2: "bindA (kr_storeEntry k (rebuild x)) (\<lambda>_. bindA (kr_emplaceMainNode k) (\<lambda>a.
        bindA (kr_onMainLru (lru_pushFront (Some a))) (\<lambda>_ R. (Inr (map_of (kr_main R) k), R)))) R1 = (Inr (Some p), R2)"
    "kr_inv R2 c (k # m)" "map_of (kr_main R2) = (map_of (kr_main R1))(k \<mapsto> p)" "kr_entries R2 p = Some (rebuild x)"
    "\<And>k' p'. map_of (kr_main R1) k' = Some p' \<Longrightarrow> kr_entries R2 p' = kr_entries R1 p'"
    "kr_secondary R2 = kr_secondary R1" "kr_config R2 = kr_config R1"
    by (rule kr_insert_inv[OF inv k room]) blast
  have "k \<notin> set c"
    using kr_invD(10)[OF inv] k(1) by blast
  then obtain R3 where R3: "bindA (kr_record collect f) (\<lambda>_. bindA (kr_promoteToCache k p) (\<lambda>_. returnA (Some p))) R2 =
      (Inr (Some p), R3)" "kr_inv R3 (k # krs_room (krc_cache_capacity (kr_config R2)) c) (k # m)" "kr_same R2 R3"
    using kr_lookup_finish[OF R2(2), of k p collect f] R2(3) by auto
  have lookup: "kr_lookup collect rebuild fromEntry k R = (Inr (Some p), R3)"
    using R2(1) R3(1) by (simp add: start bindA_apply[of "bindA _ _"])
  have "rel_option (kr_demoted rebuild fromEntry) (kr_value rebuild R k') (kr_value rebuild R3 k')" for k'
  proof (cases "k' = k")
    case True
    then have "kr_value rebuild R3 k' = kr_value rebuild R k'"
      using sec R2(3,4) by (simp add: kr_same_value[OF R3(3)] kr_value_def)
    then show ?thesis by (simp add: kr_demoted_refl)
  next
    case False
    then have "kr_value rebuild R2 k' = kr_value rebuild R1 k'"
      using R2(3,5,6) by (auto simp: kr_value_def split: option.split)
    with others[OF False] show ?thesis
      by (simp add: kr_same_value[OF R3(3)])
  qed
  with R3 R2 config lookup show ?thesis
    by (auto simp: kr_refines_def kr_same_def)
qed

lemma kr_lookup_secondary_start:
  assumes n: "map_of (kr_cache R) k = None" "map_of (kr_main R) k = None" "map_of (kr_secondary R) k = Some x"
    and evict: "(if krc_main_memory_capacity (kr_config R) \<le> length (kr_main R)
        then kr_evictFromMainMemory fromEntry (R\<lparr>kr_secondary := AList.delete k (kr_secondary R)\<rparr>)
        else (Inr (), R\<lparr>kr_secondary := AList.delete k (kr_secondary R)\<rparr>)) = (Inr (), R1)"
  shows "kr_lookup collect rebuild fromEntry k R =
      bindA (bindA (kr_storeEntry k (rebuild x)) (\<lambda>_. bindA (kr_emplaceMainNode k) (\<lambda>a.
        bindA (kr_onMainLru (lru_pushFront (Some a))) (\<lambda>_ R. (Inr (map_of (kr_main R) k), R))))) (\<lambda>r.
      case r of
        Some p \<Rightarrow> bindA (kr_record collect (\<lambda>s. s\<lparr>krs_secondary_hits := krs_secondary_hits s + 1\<rparr>)) (\<lambda>_.
                  bindA (kr_promoteToCache k p) (\<lambda>_. returnA (Some p)))
      | None \<Rightarrow> bindA (kr_record collect (\<lambda>s. s\<lparr>krs_misses := krs_misses s + 1\<rparr>)) (\<lambda>_. returnA None)) R1"
proof -
  have "kr_lookupSecondaryStorage rebuild fromEntry k R =
      bindA (kr_storeEntry k (rebuild x)) (\<lambda>_. bindA (kr_emplaceMainNode k) (\<lambda>a.
        bindA (kr_onMainLru (lru_pushFront (Some a))) (\<lambda>_ R. (Inr (map_of (kr_main R) k), R)))) R1"
    using n evict
    by (simp add: kr_lookupSecondaryStorage_def bindA_apply[of "\<lambda>R. if _ R then _ R else _ R"] split: if_splits)
  then have secondary: "bindA (kr_lookupSecondaryStorage rebuild fromEntry k) f R =
      bindA (bindA (kr_storeEntry k (rebuild x)) (\<lambda>_. bindA (kr_emplaceMainNode k) (\<lambda>a.
        bindA (kr_onMainLru (lru_pushFront (Some a))) (\<lambda>_ R. (Inr (map_of (kr_main R) k), R))))) f R1" for f
    by (rule bindA_from)
  have "kr_lookupCache k R = (Inr None, R)" "kr_lookupMainMemory k R = (Inr None, R)"
    using n by (simp_all add: kr_lookupCache_def kr_lookupMainMemory_def)
  then show ?thesis
    by (simp add: kr_lookup_def bindA_Inr[of "kr_lookupCache k"] bindA_Inr[of "kr_lookupMainMemory k"] secondary)
qed

lemma kr_lookup_secondary:
  assumes inv: "kr_inv R c m" and "k \<notin> set c" and k: "k \<notin> set m" and x: "map_of (kr_secondary R) k = Some x"
  shows "kr_refines rebuild fromEntry R k (kr_lookup collect rebuild fromEntry k R)
    (krs_lookup (krc_cache_capacity (kr_config R)) (krc_main_memory_capacity (kr_config R)) k
      (c, m, dom (map_of (kr_secondary R))))"
proof -
  note D = kr_invD[OF inv]
  let ?R = "R\<lparr>kr_secondary := AList.delete k (kr_secondary R)\<rparr>"
  let ?cap = "krc_main_memory_capacity (kr_config R)"
  note inv' = kr_inv_forget[OF inv, of k]
  have n: "map_of (kr_cache R) k = None" "map_of (kr_main R) k = None"
    using D(5,6) assms(2,3) by (auto simp: domIff)
  have val: "kr_value rebuild ?R k' = kr_value rebuild R k'" if "k' \<noteq> k" for k'
    using that by (simp add: kr_value_def delete_conv' split: option.split)
  have lenm: "length m \<le> max 1 ?cap"
    using inv by (simp add: kr_inv_def)
  consider (keep) "length m < ?cap \<or> m = []" | (evict) m' k' where "m = m' @ [k']" "?cap \<le> length m"
    by (cases m rule: rev_exhaust; cases "length m < ?cap") (auto simp: not_less)
  then show ?thesis
  proof cases
    case keep
    have "kr_refines rebuild fromEntry R k (kr_lookup collect rebuild fromEntry k R)
      (True, k # krs_room (krc_cache_capacity (kr_config R)) c, k # m, dom (map_of (kr_secondary ?R)))"
    proof (rule kr_lookup_secondary_steps[OF inv' k])
      show "kr_lookup collect rebuild fromEntry k R = bindA (bindA (kr_storeEntry k (rebuild x)) (\<lambda>_. bindA (kr_emplaceMainNode k) (\<lambda>a.
        bindA (kr_onMainLru (lru_pushFront (Some a))) (\<lambda>_ R. (Inr (map_of (kr_main R) k), R))))) (\<lambda>r.
      case r of
        Some p \<Rightarrow> bindA (kr_record collect (\<lambda>s. s\<lparr>krs_secondary_hits := krs_secondary_hits s + 1\<rparr>)) (\<lambda>_.
                  bindA (kr_promoteToCache k p) (\<lambda>_. returnA (Some p)))
      | None \<Rightarrow> bindA (kr_record collect (\<lambda>s. s\<lparr>krs_misses := krs_misses s + 1\<rparr>)) (\<lambda>_. returnA None)) ?R"
        using keep D(2) D(12) kr_evictFromMain_empty[of ?R fromEntry]
        by (intro kr_lookup_secondary_start[OF n x]) auto
    qed (use keep lenm x n val in \<open>auto simp: delete_conv' kr_demoted_refl\<close>)
    with keep assms(2) k x show ?thesis
      by (auto simp: krs_lookup_def delete_conv')
  next
    case evict
    obtain R1 e where R1: "kr_evictFromMainMemory fromEntry ?R = (Inr (), R1)" "kr_inv R1 (remove1 k' c) m'"
      "kr_value rebuild ?R k' = Some e" "map_of (kr_secondary R1) = (map_of (kr_secondary ?R))(k' \<mapsto> fromEntry e)"
      "map_of (kr_main R1) = (map_of (kr_main ?R))(k' := None)"
      "\<And>k'' p'. k'' \<noteq> k' \<Longrightarrow> map_of (kr_main ?R) k'' = Some p' \<Longrightarrow> kr_entries R1 p' = kr_entries ?R p'"
      "kr_config R1 = kr_config ?R" "kr_brk R1 = kr_brk ?R"
      using kr_evict_inv[of ?R c m' k'] inv' evict(1) by metis
    have kk: "k \<noteq> k'" "k \<notin> set m'" "k' \<notin> set m'"
      using evict(1) k D(4) by auto
    have "kr_refines rebuild fromEntry R k (kr_lookup collect rebuild fromEntry k R)
      (True, k # krs_room (krc_cache_capacity (kr_config R)) (remove1 k' c), k # m', dom (map_of (kr_secondary R1)))"
    proof (rule kr_lookup_secondary_steps[OF R1(2) kk(2)])
      show "kr_lookup collect rebuild fromEntry k R = bindA (bindA (kr_storeEntry k (rebuild x)) (\<lambda>_. bindA (kr_emplaceMainNode k) (\<lambda>a.
        bindA (kr_onMainLru (lru_pushFront (Some a))) (\<lambda>_ R. (Inr (map_of (kr_main R) k), R))))) (\<lambda>r.
      case r of
        Some p \<Rightarrow> bindA (kr_record collect (\<lambda>s. s\<lparr>krs_secondary_hits := krs_secondary_hits s + 1\<rparr>)) (\<lambda>_.
                  bindA (kr_promoteToCache k p) (\<lambda>_. returnA (Some p)))
      | None \<Rightarrow> bindA (kr_record collect (\<lambda>s. s\<lparr>krs_misses := krs_misses s + 1\<rparr>)) (\<lambda>_. returnA None)) R1"
        using evict D(12) R1(1) by (intro kr_lookup_secondary_start[OF n x]) simp
      show "rel_option (kr_demoted rebuild fromEntry) (kr_value rebuild R k'') (kr_value rebuild R1 k'')"
        if "k'' \<noteq> k" for k''
      proof (cases "k'' = k'")
        case True
        with R1(3-5) val[of k'] kk(1) show ?thesis
          by (simp add: kr_value_def[of rebuild R1] kr_demoted_def)
      next
        case False
        with R1(4-6) val[OF that(1)] have "kr_value rebuild R1 k'' = kr_value rebuild R k''"
          by (auto simp: kr_value_def split: option.splits)
        then show ?thesis by (simp add: kr_demoted_refl)
      qed
      show "length m' < max 1 (krc_main_memory_capacity (kr_config R1))"
        using lenm evict(1) R1(7) by simp
    qed (use R1 x n kk in \<open>auto simp: delete_conv'\<close>)
    moreover have "dom (map_of (kr_secondary R1)) = insert k' (dom (map_of (kr_secondary R)) - {k})"
      using R1(4) by (auto simp: delete_conv')
    ultimately show ?thesis
      using evict assms(2) k x by (auto simp: krs_lookup_def)
  qed
qed


lemma kr_lookup_refines:
  assumes inv: "kr_inv R c m"
  shows "kr_refines rebuild fromEntry R k (kr_lookup collect rebuild fromEntry k R)
    (krs_lookup (krc_cache_capacity (kr_config R)) (krc_main_memory_capacity (kr_config R)) k
      (c, m, dom (map_of (kr_secondary R))))"
proof -
  note D = kr_invD[OF inv]
  show ?thesis
  proof (cases "k \<in> set c")
    case True
    with kr_lookup_cached[OF inv True] show ?thesis
      by (simp add: krs_lookup_def)
  next
    case c: False
    show ?thesis
    proof (cases "k \<in> set m")
      case True
      with kr_lookup_main[OF inv c True] c show ?thesis
        by (simp add: krs_lookup_def)
    next
      case m: False
      show ?thesis
      proof (cases "map_of (kr_secondary R) k")
        case None
        with kr_lookup_missing[OF inv c m None] c m show ?thesis
          by (simp add: krs_lookup_def domIff)
      next
        case (Some x)
        then show ?thesis
          by (rule kr_lookup_secondary[OF inv c m])
      qed
    qed
  qed
qed

section \<open>The other operations\<close>

lemma kr_new_inv: "kr_inv (kr_new k0 config) [] []"
proof -
  have "lru.tier [] (lru_new k0) 1 []"
    using lru_rep_new[of k0] by (auto simp: lru.tier_def lru_new_def lru_fresh_def)
  then show ?thesis
    by (simp add: kr_inv_def kr_new_def)
qed

lemma kr_flush_inv:
  assumes inv: "kr_inv R c m"
  shows "\<exists>R'. kr_flush R = (Inr (), R') \<and> kr_inv R' [] m \<and> kr_same R R'"
proof -
  obtain L where L: "lru_clear (kr_cache_lru R) = (Inr (), L)"
    "lru.tier [] (foldr lru_free (map snd (kr_cache_nodes R)) L) (kr_brk R) []"
    using lru.tier_clear[OF kr_invD(1)[OF inv]] by blast
  have "kr_inv (R\<lparr>kr_cache := [], kr_cache_lru := foldr lru_free (map snd (kr_cache_nodes R)) L, kr_cache_nodes := []\<rparr>) [] m"
    using inv L(2) by (simp add: kr_inv_def)
  with L(1) show ?thesis
    by (simp add: kr_flush_def bindA_apply kr_onCacheLru_def kr_same_def)
qed

lemma kr_clear_inv:
  assumes inv: "kr_inv R c m"
  shows "\<exists>R'. kr_clear R = (Inr (), R') \<and> kr_inv R' [] [] \<and> kr_main R' = [] \<and> kr_secondary R' = [] \<and>
    kr_config R' = kr_config R"
proof -
  obtain R1 where R1: "kr_flush R = (Inr (), R1)" "kr_inv R1 [] m" "kr_same R R1"
    using kr_flush_inv[OF inv] by blast
  obtain L where L: "lru_clear (kr_main_lru R1) = (Inr (), L)"
    "lru.tier [] (foldr lru_free (map snd (kr_main_nodes R1)) L) (kr_brk R1) []"
    using lru.tier_clear[OF kr_invD(2)[OF R1(2)]] by blast
  let ?h = "foldr (\<lambda>p h. h(p := None)) (map snd (kr_main R1)) (kr_entries R1)"
  let ?R = "R1\<lparr>kr_main := [], kr_entries := ?h, kr_main_lru := foldr lru_free (map snd (kr_main_nodes R1)) L,
      kr_main_nodes := [], kr_secondary := [], kr_stats := kr_noStats\<rparr>"
  have "kr_cache R1 = []"
    using kr_invD(11)[OF R1(2)] by simp
  then have "kr_inv ?R [] []"
    using R1(2) L(2) by (simp add: kr_inv_def)
  with R1 L(1) show ?thesis
    by (simp add: kr_clear_def bindA_apply kr_onMainLru_def kr_same_def)
qed

lemma kr_contains_value:
  "kr_inv R c m \<Longrightarrow> kr_contains R k \<longleftrightarrow> kr_value rebuild R k \<noteq> None"
  using kr_invD(5,6,9,10)[of R c m] by (auto simp: kr_contains_def kr_value_def domIff split: option.splits) blast+

lemma kr_value_dom:
  assumes inv: "kr_inv R c m"
  shows "kr_value rebuild R k \<noteq> None \<longleftrightarrow> k \<in> set m \<or> map_of (kr_secondary R) k \<noteq> None"
proof (cases "map_of (kr_main R) k")
  case None
  then have "k \<notin> set m"
    using kr_invD(6)[OF inv] by (auto simp: domIff)
  with None show ?thesis
    by (simp add: kr_value_def)
next
  case (Some p)
  then have "k \<in> set m"
    using kr_invD(6)[OF inv] by blast
  with Some kr_invD(9)[OF inv Some] show ?thesis
    by (simp add: kr_value_def)
qed

lemma kr_register_inv:
  assumes inv: "kr_inv R c m"
  shows "\<exists>R'. kr_registerKernel k x R = (Inr (), R') \<and> kr_inv R' c m \<and>
    kr_value rebuild R' = (if kr_value rebuild R k = None then (kr_value rebuild R)(k \<mapsto> rebuild x) else kr_value rebuild R) \<and>
    kr_config R' = kr_config R"
proof (cases "kr_contains R k")
  case True
  with kr_contains_value[OF inv, of k rebuild] inv show ?thesis
    by (auto simp: kr_registerKernel_def kr_contains_def)
next
  case False
  then have n: "map_of (kr_cache R) k = None" "map_of (kr_main R) k = None" "map_of (kr_secondary R) k = None"
    by (auto simp: kr_contains_def)
  let ?R = "R\<lparr>kr_secondary := AList.update k x (kr_secondary R)\<rparr>"
  have "k \<notin> set m"
    using kr_invD(6)[OF inv] n(2) by (auto simp: domIff)
  then have "kr_inv ?R c m"
    using inv by (auto simp: kr_inv_def alist_distinct update_conv')
  moreover have "kr_value rebuild ?R = (kr_value rebuild R)(k \<mapsto> rebuild x)"
    using n by (auto simp: kr_value_def update_conv' fun_eq_iff split: option.split)
  moreover have "kr_value rebuild R k = None"
    using n by (simp add: kr_value_def)
  ultimately show ?thesis
    using n by (simp add: kr_registerKernel_def)
qed

section \<open>Clients\<close>

text \<open>
  \<open>reg\<close>: the metadata each key was registered with since the last \<open>clear\<close>.  The entries are only
  read through the pointers that \<open>lookup\<close> returns.
\<close>

inductive kr_client ::
  "bool \<Rightarrow> ('m \<Rightarrow> 'e) \<Rightarrow> ('e \<Rightarrow> 'm) \<Rightarrow> kr_config \<Rightarrow> ('k, 'e, 'm) kernel_registry \<Rightarrow> ('k \<rightharpoonup> 'm) \<Rightarrow> bool"
  for collect rebuild fromEntry config where
  krc_new: "kr_client collect rebuild fromEntry config (kr_new k0 config) Map.empty"
| krc_register: "kr_client collect rebuild fromEntry config R reg \<Longrightarrow> kr_registerKernel k x R = (r, R') \<Longrightarrow>
    kr_client collect rebuild fromEntry config R' (if reg k = None then reg(k \<mapsto> x) else reg)"
| krc_lookup: "kr_client collect rebuild fromEntry config R reg \<Longrightarrow>
    kr_lookup collect rebuild fromEntry k R = (r, R') \<Longrightarrow> kr_client collect rebuild fromEntry config R' reg"
| krc_prefetch: "kr_client collect rebuild fromEntry config R reg \<Longrightarrow>
    kr_prefetch collect rebuild fromEntry k R = (r', R') \<Longrightarrow> kr_client collect rebuild fromEntry config R' reg"
| krc_flush: "kr_client collect rebuild fromEntry config R reg \<Longrightarrow> kr_flush R = (r'', R') \<Longrightarrow>
    kr_client collect rebuild fromEntry config R' reg"
| krc_clear: "kr_client collect rebuild fromEntry config R reg \<Longrightarrow> kr_clear R = (r'', R') \<Longrightarrow>
    kr_client collect rebuild fromEntry config R' Map.empty"

lemma kr_prefetch_lookup:
  "kr_prefetch collect rebuild fromEntry k R = (r', R') \<Longrightarrow>
   R' = snd (kr_lookup collect rebuild fromEntry k R)"
  by (auto simp: kr_prefetch_def bindA_apply split: sum.splits)

lemma kr_lookup_inv:
  assumes "kr_inv R c m" and "kr_lookup collect rebuild fromEntry k R = (r, R')"
  shows "\<exists>c' m'. kr_inv R' c' m'" and "kr_config R' = kr_config R"
    and "rel_option (kr_demoted rebuild fromEntry) (kr_value rebuild R k') (kr_value rebuild R' k')"
  using kr_lookup_refines[OF assms(1), of rebuild fromEntry k collect] assms(2)
  by (auto simp: kr_refines_def split: prod.splits)

lemma kr_client_inv:
  assumes "kr_client collect rebuild fromEntry config R reg"
  shows "(\<exists>c m. kr_inv R c m) \<and> kr_config R = config"
  using assms
proof (induction rule: kr_client.induct)
  case (krc_new k0)
  then show ?case using kr_new_inv by (fastforce simp: kr_new_def)
next
  case (krc_register R reg k x r R')
  then show ?case using kr_register_inv[of R _ _ k x] by fastforce
next
  case (krc_lookup R reg k r R')
  then show ?case using kr_lookup_inv(1,2)[OF _ krc_lookup.hyps(2)] by metis
next
  case (krc_prefetch R reg k r' R')
  then obtain c m r where "kr_inv R c m" "kr_lookup collect rebuild fromEntry k R = (r, R')"
    using kr_prefetch_lookup[OF krc_prefetch.hyps(2)] by (metis prod.collapse)
  with krc_prefetch.IH show ?case using kr_lookup_inv(1,2) by metis
next
  case (krc_flush R reg r'' R')
  then show ?case using kr_flush_inv[of R] by (fastforce simp: kr_same_def)
next
  case (krc_clear R reg r'' R')
  then show ?case using kr_clear_inv[of R] by fastforce
qed

text \<open>The entry a key would be served with: the one rebuilt from the metadata it was registered with,
  after any number of demotions.\<close>

definition kr_serves :: "('m \<Rightarrow> 'e) \<Rightarrow> ('e \<Rightarrow> 'm) \<Rightarrow> 'm \<Rightarrow> 'e \<Rightarrow> bool" where
  "kr_serves rebuild fromEntry x e \<longleftrightarrow> (\<exists>n. e = ((\<lambda>e. rebuild (fromEntry e)) ^^ n) (rebuild x))"

lemma kr_serves_self: "kr_serves rebuild fromEntry x (rebuild x)"
  unfolding kr_serves_def by (rule exI[of _ 0]) simp

lemma kr_serves_demoted:
  assumes "kr_serves rebuild fromEntry x e" and "kr_demoted rebuild fromEntry e e'"
  shows "kr_serves rebuild fromEntry x e'"
proof -
  obtain n where n: "e = ((\<lambda>e. rebuild (fromEntry e)) ^^ n) (rebuild x)"
    using assms(1) by (auto simp: kr_serves_def)
  then have "rebuild (fromEntry e) = ((\<lambda>e. rebuild (fromEntry e)) ^^ Suc n) (rebuild x)" by simp
  with assms show ?thesis unfolding kr_serves_def kr_demoted_def by blast
qed

lemma kr_serves_rel:
  assumes "rel_option (kr_serves rebuild fromEntry) x v" and "rel_option (kr_demoted rebuild fromEntry) v v'"
  shows "rel_option (kr_serves rebuild fromEntry) x v'"
  using assms kr_serves_demoted by (cases x; cases v; cases v') auto

lemma kr_serves_lossless:
  assumes "\<And>x. rebuild (fromEntry (rebuild x)) = rebuild x" and "kr_serves rebuild fromEntry x e"
  shows "e = rebuild x"
proof -
  have "((\<lambda>e. rebuild (fromEntry e)) ^^ n) (rebuild x) = rebuild x" for n
    by (induction n) (simp_all add: assms(1))
  with assms(2) show ?thesis by (auto simp: kr_serves_def)
qed

lemma kr_client_value:
  assumes "kr_client collect rebuild fromEntry config R reg"
  shows "rel_option (kr_serves rebuild fromEntry) (reg k') (kr_value rebuild R k')"
  using assms
proof (induction arbitrary: k' rule: kr_client.induct)
  case (krc_new k0)
  then show ?case by (simp add: kr_value_def kr_new_def)
next
  case (krc_register R reg k x r R')
  obtain c m where "kr_inv R c m"
    using kr_client_inv[OF krc_register.hyps(1)] by blast
  then have v: "kr_value rebuild R' = (if kr_value rebuild R k = None then (kr_value rebuild R)(k \<mapsto> rebuild x)
      else kr_value rebuild R)"
    using kr_register_inv[of R c m k x rebuild] krc_register.hyps(2) by auto
  have "reg k = None \<longleftrightarrow> kr_value rebuild R k = None"
    using krc_register.IH[of k] by (cases "reg k"; cases "kr_value rebuild R k") simp_all
  with v krc_register.IH[of k'] kr_serves_self[of rebuild fromEntry x] show ?case
    by (cases "k' = k") simp_all
next
  case (krc_lookup R reg k r R')
  obtain c m where "kr_inv R c m"
    using kr_client_inv[OF krc_lookup.hyps(1)] by blast
  from kr_serves_rel[OF krc_lookup.IH kr_lookup_inv(3)[OF this krc_lookup.hyps(2)]] show ?case .
next
  case (krc_prefetch R reg k r' R')
  obtain c m where inv: "kr_inv R c m"
    using kr_client_inv[OF krc_prefetch.hyps(1)] by blast
  obtain r where "kr_lookup collect rebuild fromEntry k R = (r, R')"
    using kr_prefetch_lookup[OF krc_prefetch.hyps(2)] by (metis prod.collapse)
  from kr_serves_rel[OF krc_prefetch.IH kr_lookup_inv(3)[OF inv this]] show ?case .
next
  case (krc_flush R reg r'' R')
  obtain c m where "kr_inv R c m"
    using kr_client_inv[OF krc_flush.hyps(1)] by blast
  then have "kr_same R R'"
    using kr_flush_inv[of R c m] krc_flush.hyps(2) by auto
  with krc_flush.IH show ?case
    by (simp add: kr_same_value)
next
  case (krc_clear R reg r'' R')
  obtain c m where "kr_inv R c m"
    using kr_client_inv[OF krc_clear.hyps(1)] by blast
  with kr_clear_inv[of R c m] krc_clear.hyps(2) show ?case
    by (auto simp: kr_value_def)
qed


section \<open>Entries and metadata\<close>

text \<open>
  \<open>kernel/core/kernel_entry.h\<close> and \<open>kernel_metadata.h\<close>: a type-erased base or metadata lease
  (\<open>None\<close> is \<open>std::monostate\<close>) and an execution function.  The leases of the execution backends are
  arguments: \<open>payload\<close> reads a metadata lease (\<open>None\<close> if it is empty), \<open>base_payload\<close> a base lease.
\<close>

record ('b, 'x) kernel_entry =
  ke_base :: "'b option"
  ke_execute :: "'x option"

record ('l, 'x) kernel_metadata =
  km_lease :: "'l option"
  km_execute :: "'x option"

definition ke_new :: "('b, 'x) kernel_entry" where
  "ke_new = \<lparr>ke_base = None, ke_execute = None\<rparr>"

definition km_new :: "('l, 'x) kernel_metadata" where
  "km_new = \<lparr>km_lease = None, km_execute = None\<rparr>"

definition km_rebuild ::
  "('l \<Rightarrow> 'p option) \<Rightarrow> ('p \<Rightarrow> ('b, 'x) kernel_entry \<Rightarrow> ('b, 'x) kernel_entry) \<Rightarrow>
   ('l, 'x) kernel_metadata \<Rightarrow> ('b, 'x) kernel_entry" where
  "km_rebuild payload rebuildKernelEntry m =
     (let entry = (case km_lease m of
                     None \<Rightarrow> ke_new
                   | Some l \<Rightarrow> (case payload l of None \<Rightarrow> ke_new | Some p \<Rightarrow> rebuildKernelEntry p ke_new))
      in entry\<lparr>ke_execute := km_execute m\<rparr>)"

definition km_fromEntry ::
  "('b \<Rightarrow> 'q option) \<Rightarrow> ('q \<Rightarrow> ('l, 'x) kernel_metadata) \<Rightarrow>
   ('b, 'x) kernel_entry \<Rightarrow> ('l, 'x) kernel_metadata" where
  "km_fromEntry base_payload buildMetadataLeaseFromBase entry =
     (let metadata = km_new\<lparr>km_execute := ke_execute entry\<rparr>
      in case ke_base entry of
           None \<Rightarrow> metadata
         | Some b \<Rightarrow>
             (case base_payload b of
                None \<Rightarrow> metadata
              | Some q \<Rightarrow> (buildMetadataLeaseFromBase q)\<lparr>km_execute := ke_execute entry\<rparr>))"

text \<open>
  The metadata built from a base that was rebuilt from a payload rebuilds the same base.
\<close>

lemma km_roundtrip:
  assumes "\<And>p. case ke_base (rb p ke_new) of
      None \<Rightarrow> True
    | Some b \<Rightarrow> (\<exists>q l p'. base_payload b = Some q \<and> km_lease (build q) = Some l \<and> payload l = Some p' \<and>
        ke_base (rb p' ke_new) = Some b)"
  shows "km_rebuild payload rb (km_fromEntry base_payload build (km_rebuild payload rb m)) = km_rebuild payload rb m"
proof -
  have "e\<lparr>ke_execute := x\<rparr> = e'\<lparr>ke_execute := x\<rparr>" if "ke_base e = ke_base e'"
    for e e' :: "('a, 'b) kernel_entry" and x
    using that by simp
  with assms show ?thesis
    by (fastforce simp: km_rebuild_def km_fromEntry_def km_new_def ke_new_def Let_def split: option.splits)
qed

section \<open>Properties\<close>

lemma kr_lookup_serves:
  assumes "kr_client collect rebuild fromEntry config R reg"
  shows "(case kr_lookup collect rebuild fromEntry k R of (r, R') \<Rightarrow>
      case reg k of
        None \<Rightarrow> r = Inr None
      | Some x \<Rightarrow> \<exists>p e. r = Inr (Some p) \<and> kr_entries R' p = Some e \<and> kr_serves rebuild fromEntry x e) \<and>
    (kr_contains R k \<longleftrightarrow> reg k \<noteq> None)"
proof -
  obtain c m where inv: "kr_inv R c m"
    using kr_client_inv[OF assms] by blast
  note val = kr_client_value[OF assms, of k]
  then have dom: "kr_value rebuild R k \<noteq> None \<longleftrightarrow> reg k \<noteq> None"
    by (cases "reg k"; cases "kr_value rebuild R k") simp_all
  then have reg: "reg k \<noteq> None \<longleftrightarrow> k \<in> set m \<or> map_of (kr_secondary R) k \<noteq> None"
    using kr_value_dom[OF inv, of rebuild k] by simp
  have cm: "k \<in> set c \<Longrightarrow> k \<in> set m"
    using kr_invD(10)[OF inv] by blast
  obtain r R' where lookup: "kr_lookup collect rebuild fromEntry k R = (r, R')"
    by fastforce
  with kr_lookup_refines[OF inv, of rebuild fromEntry k collect] obtain p where
    p: "r = Inr p" "p \<noteq> None \<longleftrightarrow> reg k \<noteq> None" "p \<noteq> None \<Longrightarrow> map_of (kr_main R') k = p"
    using reg cm
    by (auto simp: kr_refines_def krs_lookup_def split: prod.splits if_splits)
  have val': "rel_option (kr_serves rebuild fromEntry) (reg k) (kr_value rebuild R' k)"
    by (rule kr_serves_rel[OF val kr_lookup_inv(3)[OF inv lookup]])
  have "kr_contains R k \<longleftrightarrow> reg k \<noteq> None"
    using kr_contains_value[OF inv, of k rebuild] dom by simp
  moreover have "case reg k of None \<Rightarrow> r = Inr None
      | Some x \<Rightarrow> \<exists>p e. r = Inr (Some p) \<and> kr_entries R' p = Some e \<and> kr_serves rebuild fromEntry x e"
  proof (cases "reg k")
    case None
    with p show ?thesis by simp
  next
    case (Some x)
    then obtain q where q: "p = Some q" "map_of (kr_main R') k = Some q" using p by auto
    obtain e where "kr_value rebuild R' k = Some e" "kr_serves rebuild fromEntry x e"
      using val' Some by (cases "kr_value rebuild R' k") auto
    with q p(1) Some show ?thesis by (simp add: kr_value_def)
  qed
  ultimately show ?thesis using lookup by simp
qed

lemma kr_lookup_client:
  assumes "kr_client collect rebuild fromEntry config R reg"
    and "\<And>x. rebuild (fromEntry (rebuild x)) = rebuild x"
  shows "(case kr_lookup collect rebuild fromEntry k R of (r, R') \<Rightarrow>
      case reg k of
        None \<Rightarrow> r = Inr None
      | Some x \<Rightarrow> \<exists>p. r = Inr (Some p) \<and> kr_entries R' p = Some (rebuild x)) \<and>
    (kr_contains R k \<longleftrightarrow> reg k \<noteq> None)"
  using kr_lookup_serves[OF assms(1), of k] kr_serves_lossless[of rebuild fromEntry, OF assms(2)]
  by (auto split: prod.splits option.splits)

text \<open>
  C34: the tiers are invisible.  If demoting a rebuilt entry and rebuilding it gives it back, then
  after any calls of \<open>registerKernel\<close>, \<open>lookup\<close>, \<open>prefetch\<close>, \<open>flush\<close> and \<open>clear\<close>, whatever was evicted
  in between: \<open>contains k\<close> holds exactly if \<open>k\<close> was registered since the last \<open>clear\<close>, and \<open>lookup k\<close>
  returns \<open>nullptr\<close> if it was not and otherwise a pointer to a live entry, the one rebuilt from the
  metadata \<open>k\<close> was first registered with.
\<close>

theorem kr_transparent:
  assumes "kr_client collect rebuild fromEntry config R reg"
    and "\<And>x. rebuild (fromEntry (rebuild x)) = rebuild x"
  shows "(case kr_lookup collect rebuild fromEntry k R of (r, R') \<Rightarrow>
      case reg k of
        None \<Rightarrow> r = Inr None
      | Some x \<Rightarrow> \<exists>p. r = Inr (Some p) \<and> kr_entries R' p = Some (rebuild x)) \<and>
    (kr_contains R k \<longleftrightarrow> reg k \<noteq> None)"
  by (rule kr_lookup_client[OF assms])

text \<open>
  The build without an accelerator backend: no leases, execution functions are numbers.  Keys are
  \<open>1\<close> and \<open>2\<close>, every tier above secondary storage holds one kernel.
\<close>

definition kr_ex_rebuild :: "(unit, nat) kernel_metadata \<Rightarrow> (unit, nat) kernel_entry" where
  "kr_ex_rebuild = km_rebuild (\<lambda>_. None :: unit option) (\<lambda>_ e. e)"

definition kr_ex_fromEntry :: "(unit, nat) kernel_entry \<Rightarrow> (unit, nat) kernel_metadata" where
  "kr_ex_fromEntry = km_fromEntry (\<lambda>_. None :: unit option) (\<lambda>_. km_new)"

definition kr_ex_lookup ::
  "nat \<Rightarrow> (nat, (unit, nat) kernel_entry, (unit, nat) kernel_metadata) kernel_registry \<Rightarrow>
   (nat, (unit, nat) kernel_entry, (unit, nat) kernel_metadata) kernel_registry" where
  "kr_ex_lookup k R = snd (kr_lookup True kr_ex_rebuild kr_ex_fromEntry k R)"

definition kr_ex_start ::
  "kr_config \<Rightarrow> (nat, (unit, nat) kernel_entry, (unit, nat) kernel_metadata) kernel_registry" where
  "kr_ex_start config =
     (let register = \<lambda>k R. snd (kr_registerKernel k (km_new\<lparr>km_execute := Some (10 * k)\<rparr>) R)
      in register 2 (register 1 (kr_new 0 config)))"

abbreviation "kr_ex_config \<equiv> \<lparr>krc_cache_capacity = 1, krc_main_memory_capacity = 1\<rparr>"

definition kr_ex :: "(nat, (unit, nat) kernel_entry, (unit, nat) kernel_metadata) kernel_registry" where
  "kr_ex = kr_ex_lookup 2 (kr_ex_lookup 1 (kr_ex_start kr_ex_config))"

abbreviation kr_ex_reg :: "nat \<rightharpoonup> (unit, nat) kernel_metadata" where
  "kr_ex_reg \<equiv> [1 \<mapsto> km_new\<lparr>km_execute := Some 10\<rparr>, 2 \<mapsto> km_new\<lparr>km_execute := Some 20\<rparr>]"

lemma kr_ex_client: "kr_client True kr_ex_rebuild kr_ex_fromEntry kr_ex_config kr_ex kr_ex_reg"
proof -
  let ?C = "kr_client True kr_ex_rebuild kr_ex_fromEntry kr_ex_config"
  have lookup: "?C R reg \<Longrightarrow> ?C (kr_ex_lookup k R) reg"
    for R :: "(nat, (unit, nat) kernel_entry, (unit, nat) kernel_metadata) kernel_registry" and reg k
    unfolding kr_ex_lookup_def by (rule krc_lookup[where r = "fst (kr_lookup True kr_ex_rebuild kr_ex_fromEntry k R)"]) auto
  have register: "?C R reg \<Longrightarrow> reg k = None \<Longrightarrow> ?C (snd (kr_registerKernel k x R)) (reg(k \<mapsto> x))"
    for R :: "(nat, (unit, nat) kernel_entry, (unit, nat) kernel_metadata) kernel_registry" and reg k x
    using krc_register[of True kr_ex_rebuild kr_ex_fromEntry kr_ex_config R reg k x "fst (kr_registerKernel k x R)"]
    by auto
  have "?C (snd (kr_registerKernel (1::nat) (km_new\<lparr>km_execute := Some 10\<rparr>) (kr_new 0 kr_ex_config)))
      [1 \<mapsto> km_new\<lparr>km_execute := Some 10\<rparr>]"
    using register[OF krc_new[of _ _ _ _ 0], of 1 "km_new\<lparr>km_execute := Some 10\<rparr>"] by simp
  then have "?C (kr_ex_start kr_ex_config) kr_ex_reg"
    using register[of _ _ 2 "km_new\<lparr>km_execute := Some 20\<rparr>"] by (simp add: kr_ex_start_def)
  then show ?thesis
    unfolding kr_ex_def by (intro lookup)
qed

lemma kr_ex_law: "kr_ex_rebuild (kr_ex_fromEntry (kr_ex_rebuild x)) = kr_ex_rebuild x"
  unfolding kr_ex_rebuild_def kr_ex_fromEntry_def by (rule km_roundtrip) (simp add: ke_new_def)

theorem kr_transparent_witness:
  "case kr_lookup True kr_ex_rebuild kr_ex_fromEntry 1 kr_ex of (r, R') \<Rightarrow>
     \<exists>p. r = Inr (Some p) \<and> kr_entries R' p = Some (kr_ex_rebuild (km_new\<lparr>km_execute := Some 10\<rparr>))"
  using kr_transparent[OF kr_ex_client kr_ex_law, of 1] by (auto split: prod.splits)

text \<open>
  \<open>lookup\<close> is the three-tier lookup of \<open>krs_lookup\<close>.  In every reachable state there are the lists \<open>c\<close> and
  \<open>m\<close> of the keys of the cache and of main memory by recency, the cache pointing into main memory,
  and \<open>lookup k\<close> changes them as \<open>krs_lookup\<close> says: a cached key moves to the front of the cache only, a
  key of main memory moves to the front of both, a key of secondary storage enters both; a full
  cache drops its last key, a full main memory sends its last key to secondary storage and out of the
  cache.  No step fails.
\<close>

lemma kr_lookup_abstract:
  assumes "kr_client collect rebuild fromEntry config R reg"
  shows "\<exists>c m. kr_inv R c m \<and>
    (case (kr_lookup collect rebuild fromEntry k R,
           krs_lookup (krc_cache_capacity config) (krc_main_memory_capacity config) k
             (c, m, dom (map_of (kr_secondary R)))) of
       ((r, R'), (b, c', m', s')) \<Rightarrow>
         (\<exists>p. r = Inr p \<and> b = (p \<noteq> None)) \<and> kr_inv R' c' m' \<and> dom (map_of (kr_secondary R')) = s')"
proof -
  obtain c m where inv: "kr_inv R c m" and config: "kr_config R = config"
    using kr_client_inv[OF assms] by blast
  show ?thesis
    using kr_lookup_refines[OF inv, of rebuild fromEntry k collect] inv
    by (intro exI[of _ c] exI[of _ m]) (auto simp: kr_refines_def config split: prod.splits)
qed

lemma kr_cache_hits:
  assumes "kr_inv R c m" and "k \<in> set c"
  shows "\<exists>c'. kr_inv (((\<lambda>R. snd (kr_lookup collect rebuild fromEntry k R)) ^^ n) R) c' m \<and> k \<in> set c' \<and>
    dom (map_of (kr_secondary (((\<lambda>R. snd (kr_lookup collect rebuild fromEntry k R)) ^^ n) R))) =
      dom (map_of (kr_secondary R)) \<and>
    kr_config (((\<lambda>R. snd (kr_lookup collect rebuild fromEntry k R)) ^^ n) R) = kr_config R"
proof (induction n)
  case 0
  with assms show ?case by auto
next
  case (Suc n)
  then obtain c' where c': "kr_inv (((\<lambda>R. snd (kr_lookup collect rebuild fromEntry k R)) ^^ n) R) c' m" "k \<in> set c'"
    "dom (map_of (kr_secondary (((\<lambda>R. snd (kr_lookup collect rebuild fromEntry k R)) ^^ n) R))) = dom (map_of (kr_secondary R))"
    "kr_config (((\<lambda>R. snd (kr_lookup collect rebuild fromEntry k R)) ^^ n) R) = kr_config R"
    by blast
  from kr_lookup_cached[OF c'(1,2), of rebuild fromEntry collect] c'(3,4) show ?case
    by (intro exI[of _ "k # remove1 k c'"]) (auto simp: kr_refines_def split: prod.splits)
qed

text \<open>
  C35: a cache hit is not a use of main memory.  The documentation promises eviction of the least
  recently used key at each tier, with the position updated on access.  But take any reachable state
  in which main memory is full, \<open>k\<close> is cached and is the key of main memory that was longest not moved:
  however often \<open>k\<close> is then looked up, each time with success, the next lookup of a key of secondary
  storage evicts \<open>k\<close>, the key used last, from main memory and from the cache.
\<close>

theorem kr_hot_key_evicted:
  assumes "kr_client collect rebuild fromEntry config R reg" and "kr_inv R c (m @ [k])"
    and "k \<in> set c" and "krc_main_memory_capacity config \<le> Suc (length m)" and "map_of (kr_secondary R) k2 \<noteq> None"
  shows "let R1 = ((\<lambda>R. snd (kr_lookup collect rebuild fromEntry k R)) ^^ n) R;
      R2 = snd (kr_lookup collect rebuild fromEntry k2 R1)
    in (\<exists>p. fst (kr_lookup collect rebuild fromEntry k R1) = Inr (Some p)) \<and>
       (\<exists>p. fst (kr_lookup collect rebuild fromEntry k2 R1) = Inr (Some p)) \<and>
       map_of (kr_cache R2) k = None \<and> map_of (kr_main R2) k = None \<and> map_of (kr_secondary R2) k \<noteq> None"
proof -
  let ?R1 = "((\<lambda>R. snd (kr_lookup collect rebuild fromEntry k R)) ^^ n) R"
  have config: "kr_config R = config" using kr_client_inv[OF assms(1)] by blast
  obtain c' where c': "kr_inv ?R1 c' (m @ [k])" "k \<in> set c'"
    "dom (map_of (kr_secondary ?R1)) = dom (map_of (kr_secondary R))" "kr_config ?R1 = config"
    using kr_cache_hits[OF assms(2,3), of n collect rebuild fromEntry] config by blast
  note D = kr_invD[OF c'(1)]
  have k2: "k2 \<in> dom (map_of (kr_secondary ?R1))" using c'(3) assms(5) by (simp add: domIff)
  have out: "k2 \<notin> set (m @ [k])" "k2 \<notin> set c'" using D(8,10) k2 by (auto simp: domIff)
  obtain r2 R2 where l2: "kr_lookup collect rebuild fromEntry k2 ?R1 = (r2, R2)" by fastforce
  have "krs_lookup (krc_cache_capacity config) (krc_main_memory_capacity config) k2
      (c', m @ [k], dom (map_of (kr_secondary ?R1))) =
    (True, k2 # krs_room (krc_cache_capacity config) (remove1 k c'), k2 # m,
      insert k (dom (map_of (kr_secondary ?R1)) - {k2}))"
    using out k2 assms(4) by (simp add: krs_lookup_def)
  with kr_lookup_refines[OF c'(1), of rebuild fromEntry k2 collect] l2 c'(4)
  have two: "\<exists>p. r2 = Inr (Some p)" "kr_inv R2 (k2 # krs_room (krc_cache_capacity config) (remove1 k c')) (k2 # m)"
    "k \<in> dom (map_of (kr_secondary R2))"
    by (auto simp: kr_refines_def)
  note D2 = kr_invD[OF two(2)]
  have "k \<notin> set (k2 # m)" using D(4) out(1) by auto
  then have "map_of (kr_main R2) k = None" "map_of (kr_cache R2) k = None"
    using D2(5,6,10) by (auto simp: domIff)
  moreover have "\<exists>p. fst (kr_lookup collect rebuild fromEntry k ?R1) = Inr (Some p)"
    using kr_lookup_cached[OF c'(1,2), of rebuild fromEntry collect] by (auto simp: kr_refines_def split: prod.splits)
  ultimately show ?thesis
    using two l2 by (simp add: Let_def domIff)
qed

text \<open>
  C36: the tiers stay within their capacities and no key is lost between them.  In every reachable
  state the cache holds at most \<open>max 1 cache_capacity\<close> and main memory at most
  \<open>max 1 main_memory_capacity\<close> kernels, every cached pointer is the main-memory pointer of its key and
  points to a live entry, and no key is in main memory and in secondary storage at once.
\<close>

theorem kr_tiers_bounded:
  assumes "kr_client collect rebuild fromEntry config R reg"
  shows "kr_cacheSize R \<le> max 1 (krc_cache_capacity config) \<and>
    kr_mainMemorySize R \<le> max 1 (krc_main_memory_capacity config) \<and>
    (\<forall>k p. map_of (kr_cache R) k = Some p \<longrightarrow> map_of (kr_main R) k = Some p \<and> kr_entries R p \<noteq> None) \<and>
    dom (map_of (kr_main R)) \<inter> dom (map_of (kr_secondary R)) = {}"
proof -
  obtain c m where inv: "kr_inv R c m" and config: "kr_config R = config"
    using kr_client_inv[OF assms] by blast
  note D = kr_invD[OF inv]
  have "map_of (kr_main R) k = Some p" if "map_of (kr_cache R) k = Some p" for k p
    using that D(7) by (metis domI map_le_def)
  moreover have "dom (map_of (kr_main R)) \<inter> dom (map_of (kr_secondary R)) = {}"
    using D(6,8) by auto
  ultimately show ?thesis
    using inv D(9,11,12) config unfolding kr_cacheSize_def kr_mainMemorySize_def kr_inv_def by metis
qed

theorem kr_tiers_bounded_witness: "kr_cacheSize kr_ex \<le> 1 \<and> kr_mainMemorySize kr_ex \<le> 1"
  using kr_tiers_bounded[OF kr_ex_client] by simp

text \<open>Three kernels, two cache slots and two main-memory slots: 1 and 2 are loaded, 1 is hit again and again,
  loading 3 evicts 1.\<close>

definition kr_hot :: "(nat, (unit, nat) kernel_entry, (unit, nat) kernel_metadata) kernel_registry" where
  "kr_hot = kr_ex_lookup 2 (kr_ex_lookup 1 (snd (kr_registerKernel 3 km_new
     (kr_ex_start \<lparr>krc_cache_capacity = 2, krc_main_memory_capacity = 2\<rparr>))))"

lemma kr_hot_client:
  "\<exists>reg. kr_client True kr_ex_rebuild kr_ex_fromEntry \<lparr>krc_cache_capacity = 2, krc_main_memory_capacity = 2\<rparr> kr_hot reg"
proof -
  let ?C = "kr_client True kr_ex_rebuild kr_ex_fromEntry \<lparr>krc_cache_capacity = 2, krc_main_memory_capacity = 2\<rparr>"
  have lookup: "\<exists>reg. ?C R reg \<Longrightarrow> \<exists>reg. ?C (kr_ex_lookup k R) reg"
    for R :: "(nat, (unit, nat) kernel_entry, (unit, nat) kernel_metadata) kernel_registry" and k
    unfolding kr_ex_lookup_def by (metis krc_lookup prod.collapse)
  have register: "\<exists>reg. ?C R reg \<Longrightarrow> \<exists>reg. ?C (snd (kr_registerKernel k x R)) reg"
    for R :: "(nat, (unit, nat) kernel_entry, (unit, nat) kernel_metadata) kernel_registry" and k x
    by (metis krc_register prod.collapse)
  have "\<exists>reg. ?C (kr_new 0 \<lparr>krc_cache_capacity = 2, krc_main_memory_capacity = 2\<rparr>) reg"
    by (intro exI) (rule krc_new)
  then show ?thesis
    unfolding kr_hot_def kr_ex_start_def Let_def by (intro lookup register)
qed

lemma kr_ex_lookup_inv:
  assumes "kr_inv R c m" and "dom (map_of (kr_secondary R)) = s"
    and "krs_lookup (krc_cache_capacity (kr_config R)) (krc_main_memory_capacity (kr_config R)) k (c, m, s) = (b, c', m', s')"
  shows "kr_inv (kr_ex_lookup k R) c' m' \<and> dom (map_of (kr_secondary (kr_ex_lookup k R))) = s' \<and>
    kr_config (kr_ex_lookup k R) = kr_config R"
  using kr_lookup_refines[OF assms(1), of kr_ex_rebuild kr_ex_fromEntry k True] assms(2,3)
  by (auto simp: kr_refines_def kr_ex_lookup_def split: prod.splits)

lemma kr_hot_inv: "kr_inv kr_hot [2, 1] ([2] @ [1]) \<and> map_of (kr_secondary kr_hot) 3 \<noteq> None"
proof -
  let ?R = "snd (kr_registerKernel 3 km_new (kr_ex_start \<lparr>krc_cache_capacity = 2, krc_main_memory_capacity = 2\<rparr>))
    :: (nat, (unit, nat) kernel_entry, (unit, nat) kernel_metadata) kernel_registry"
  have register: "kr_inv R c m \<Longrightarrow> kr_inv (snd (kr_registerKernel k x R)) c m"
    for R :: "(nat, (unit, nat) kernel_entry, (unit, nat) kernel_metadata) kernel_registry" and c m k x
    using kr_register_inv[of R c m k x] by fastforce
  have r: "kr_inv ?R [] []"
    unfolding kr_ex_start_def Let_def by (intro register kr_new_inv)
  have keys: "map fst (kr_secondary ?R) = [1, 2, 3] \<and> kr_config ?R = \<lparr>krc_cache_capacity = 2, krc_main_memory_capacity = 2\<rparr>"
    by code_simp
  then have dom: "dom (map_of (kr_secondary ?R)) = {1, 2, 3}"
    by (simp add: dom_map_of_conv_image_fst flip: set_map)
  have one: "kr_inv (kr_ex_lookup 1 ?R) [1] [1]" "dom (map_of (kr_secondary (kr_ex_lookup 1 ?R))) = {2, 3}"
    "kr_config (kr_ex_lookup 1 ?R) = kr_config ?R"
    using kr_ex_lookup_inv[OF r dom, of 1 True "[1]" "[1]" "{2, 3}"] keys by (auto simp: krs_lookup_def krs_room_def)
  have "kr_inv kr_hot [2, 1] [2, 1] \<and> dom (map_of (kr_secondary kr_hot)) = {3}"
    using kr_ex_lookup_inv[OF one(1,2), of 2 True "[2, 1]" "[2, 1]" "{3}"] keys one(3)
    by (auto simp: krs_lookup_def krs_room_def kr_hot_def)
  then show ?thesis by (auto simp: domIff)
qed

theorem kr_hot_key_evicted_witness:
  "map_of (kr_main (kr_ex_lookup 3 (kr_ex_lookup 1 (kr_ex_lookup 1 kr_hot)))) 1 = None"
proof -
  obtain reg where client:
    "kr_client True kr_ex_rebuild kr_ex_fromEntry \<lparr>krc_cache_capacity = 2, krc_main_memory_capacity = 2\<rparr> kr_hot reg"
    using kr_hot_client by blast
  note i = kr_hot_inv[THEN conjunct1] and s = kr_hot_inv[THEN conjunct2]
  show ?thesis
    using kr_hot_key_evicted[OF client i _ _ s, of 2] by (simp add: Let_def kr_ex_lookup_def numeral_2_eq_2)
qed

end
