(* ===== verification/KeyResolver.thy ===== *)
theory KeyResolver
  imports Architecture KernelKey SmallVector KernelRegistry
begin

text \<open>
  \<open>kernel/core/key_components.h\<close> and \<open>key_resolver.h\<close> with \<open>key_resolver.cpp\<close>: a request is turned
  into a list of rules along the fallback chain of its architecture, and the first rule that verifies
  and whose key is registered wins.  Kernel arguments are opaque to this code: their type is a
  parameter and a predicate is a function of them.
\<close>

section \<open>Components, rules, contexts\<close>

record key_request =
  rq_op :: u16
  rq_dtype :: u16
  rq_architecture :: u16

record fixed_components =
  fc_op :: u16
  fc_dtype :: u16

record variable_components =
  vc_arch :: u16
  vc_layout :: u64
  vc_variant :: u64

definition kk_makeKey :: "fixed_components \<Rightarrow> variable_components \<Rightarrow> u64" where
  "kk_makeKey fixed variable =
     kk_make (fc_op fixed) (vc_arch variable) (vc_layout variable) (fc_dtype fixed) (vc_variant variable)
       kk_currentVersion"

record 'args key_rule =
  kr_components :: variable_components
  kr_predicate :: "('args \<Rightarrow> bool) option"

record 'args resolve_context =
  rc_fixed :: fixed_components
  rc_rules :: "'args key_rule small_vector"

text \<open>The execution of a key is the one of its architecture.\<close>

definition kk_getExecution :: "arch_tables \<Rightarrow> u64 \<Rightarrow> u16 res" where
  "kk_getExecution T key = ar_executionOf T (kk_getArchitecture key)"

section \<open>Resolution\<close>

text \<open>
  The lambda that \<open>buildContext\<close> passes to \<open>forEachFallback\<close>: it has no result, so the walk goes on;
  it changes the rules, or ends in the exception of \<open>pushBack\<close>.
\<close>

definition kv_addRule :: "u16 \<Rightarrow> 'args key_rule small_vector res \<Rightarrow> bool \<times> 'args key_rule small_vector res" where
  "kv_addRule architecture rules =
     (True, bindR rules (\<lambda>rules. sv_pushBack rules
        (Val \<lparr>kr_components = \<lparr>vc_arch = architecture, vc_layout = 0, vc_variant = 0\<rparr>, kr_predicate = None\<rparr>)))"

definition kv_buildContext :: "arch_tables \<Rightarrow> key_request \<Rightarrow> 'args resolve_context res option" where
  "kv_buildContext T request =
     map_option (\<lambda>r. bindR r (\<lambda>rules. bindR rules (\<lambda>rules.
         Inr \<lparr>rc_fixed = \<lparr>fc_op = rq_op request, fc_dtype = rq_dtype request\<rparr>, rc_rules = rules\<rparr>)))
       (ar_forEachFallback T kv_addRule (rq_architecture request) (Inr (sv_new 8)))"

definition kv_defaultVerify :: "variable_components \<Rightarrow> 'args \<Rightarrow> bool" where
  "kv_defaultVerify components args = True"

definition kv_verify :: "'args key_rule \<Rightarrow> 'args \<Rightarrow> bool" where
  "kv_verify rule args =
     (case kr_predicate rule of Some p \<Rightarrow> p args | None \<Rightarrow> kv_defaultVerify (kr_components rule) args)"

primrec kv_tryRules :: "(u64 \<Rightarrow> bool) \<Rightarrow> fixed_components \<Rightarrow> 'args \<Rightarrow> 'args key_rule list \<Rightarrow> u64 option" where
  "kv_tryRules contains fixed args [] = None"
| "kv_tryRules contains fixed args (rule # rules) =
     (if kv_verify rule args \<and> contains (kk_makeKey fixed (kr_components rule))
      then Some (kk_makeKey fixed (kr_components rule))
      else kv_tryRules contains fixed args rules)"

text \<open>\<open>None\<close> outside: the walk along the fallbacks does not end.\<close>

definition kv_resolve :: "arch_tables \<Rightarrow> (u64 \<Rightarrow> bool) \<Rightarrow> key_request \<Rightarrow> 'args \<Rightarrow> u64 option res option" where
  "kv_resolve T contains request args =
     map_option (\<lambda>r. bindR r (\<lambda>context. bindR (sv_contents (rc_rules context)) (\<lambda>rules.
         Inr (kv_tryRules contains (rc_fixed context) args rules))))
       (kv_buildContext T request)"

section \<open>What resolution returns\<close>

definition kv_rule :: "u16 \<Rightarrow> 'args key_rule" where
  "kv_rule a = \<lparr>kr_components = \<lparr>vc_arch = a, vc_layout = 0, vc_variant = 0\<rparr>, kr_predicate = None\<rparr>"

definition kv_key :: "key_request \<Rightarrow> u16 \<Rightarrow> u64" where
  "kv_key request a = kk_make (rq_op request) a 0 (rq_dtype request) 0 0"

lemma kv_visit_rules:
  assumes "sv_rep 8 v xs"
  shows "\<exists>v'. ar_visit kv_addRule chain (Inr v) = Inr v' \<and> sv_rep 8 v' (xs @ map kv_rule chain)"
  using assms
proof (induction chain arbitrary: v xs)
  case (Cons a chain)
  obtain v1 where v1: "sv_pushBack v (Val (kv_rule a)) = Inr v1" "sv_rep 8 v1 (xs @ [kv_rule a])"
    using sv_emplaceBack_rep[OF Cons.prems, of "Val (kv_rule a)"]
    by (auto simp: sv_pushBack_def sv_argOk_def sv_own_def sv_value_def)
  then show ?case
    using Cons.IH[OF v1(2)] by (simp add: kv_addRule_def kv_rule_def)
qed simp

lemma kv_buildContext_chain:
  assumes "\<And>f (s :: 'args key_rule small_vector res). ar_forEachFallback T f (rq_architecture request) s = Some (Inr (ar_visit f chain s))"
  shows "\<exists>rules :: 'args key_rule small_vector. kv_buildContext T request =
      Some (Inr \<lparr>rc_fixed = \<lparr>fc_op = rq_op request, fc_dtype = rq_dtype request\<rparr>, rc_rules = rules\<rparr>) \<and>
    sv_rep 8 rules (map kv_rule chain)"
proof -
  obtain rules :: "'args key_rule small_vector"
    where "ar_visit kv_addRule chain (Inr (sv_new 8)) = Inr rules" "sv_rep 8 rules (map kv_rule chain)"
    using kv_visit_rules[OF sv_new_rep] by force
  then show ?thesis
    by (simp add: kv_buildContext_def assms)
qed

lemma kv_tryRules_chain:
  "kv_tryRules contains \<lparr>fc_op = rq_op request, fc_dtype = rq_dtype request\<rparr> args (map kv_rule chain) =
   find contains (map (kv_key request) chain)"
  by (induction chain)
    (simp_all add: kv_rule_def kv_verify_def kv_defaultVerify_def kk_makeKey_def kv_key_def kk_currentVersion_def)

lemma kv_resolve_chain:
  assumes "arch_ok T" and "ar_isValidIndex T (ar_toIndex (rq_architecture request))"
  shows "\<exists>chain. ar_isFallbackChain T (rq_architecture request) chain \<and>
    kv_resolve T contains request args = Some (Inr (find contains (map (kv_key request) chain)))"
proof -
  have "ar_grounded (at_parent_indices T) (unat (rq_architecture request))"
    using arch_okD(1)[OF assms(1)] assms(2) by (simp add: ar_isValidIndex_def ar_toIndex_def)
  from ar_forEachFallback_chain[OF assms(1) this refl]
  obtain chain where chain: "ar_isFallbackChain T (rq_architecture request) chain"
    "\<And>f (s :: 'a key_rule small_vector res). ar_forEachFallback T f (rq_architecture request) s = Some (Inr (ar_visit f chain s))"
    by blast
  from kv_buildContext_chain[OF chain(2)] chain(1) show ?thesis
    by (auto simp: kv_resolve_def sv_contents_rep kv_tryRules_chain)
qed

lemma find_split:
  "case find P xs of
     None \<Rightarrow> \<forall>x \<in> set xs. \<not> P x
   | Some x \<Rightarrow> \<exists>us vs. xs = us @ x # vs \<and> P x \<and> (\<forall>u \<in> set us. \<not> P u)"
proof (induction xs)
  case (Cons x xs)
  show ?case
  proof (cases "\<not> P x \<and> find P xs \<noteq> None")
    case True
    then obtain y us vs where "find P xs = Some y" "xs = us @ y # vs" "P y" "\<forall>u \<in> set us. \<not> P u"
      using Cons by auto
    with True show ?thesis
      by (simp, intro exI[of _ "x # us"] exI[of _ vs]) simp
  qed (use Cons in \<open>auto intro: exI[of _ "[]"]\<close>)
qed simp

text \<open>
  C19: resolving a request and looking the result up serves the closest registered kernel.  On tables
  of the generator and after any calls of the registry, \<open>resolve\<close> returns; there is a fallback chain
  from the requested architecture to the generic one of its execution, and if no key along it, with
  the request's operation and data type, is registered, the result is \<open>nullopt\<close>.  Otherwise it is the
  key of the first architecture along the chain that has a registered kernel, and \<open>lookup\<close> of it
  returns a live pointer to an entry that comes from that kernel's metadata: the one rebuilt from it,
  demoted and rebuilt again any number of times (the same entry if demotion loses nothing).
\<close>

theorem kv_resolve_closest:
  fixes R :: "(u64, 'e, 'm) kernel_registry" and args :: 'args
  assumes "gen_main as_int architecture_yaml execution_yaml = Some T"
    and "ar_isValidIndex T (ar_toIndex (rq_architecture request))"
    and "kr_client collect rebuild fromEntry config R reg"
  shows "\<exists>chain found. ar_isFallbackChain T (rq_architecture request) chain \<and>
    kv_resolve T (kr_contains R) request args = Some (Inr found) \<and>
    (case found of
       None \<Rightarrow> \<forall>a \<in> set chain. reg (kv_key request a) = None
     | Some k \<Rightarrow> \<exists>before a after x p e. chain = before @ a # after \<and> k = kv_key request a \<and>
         (\<forall>b \<in> set before. reg (kv_key request b) = None) \<and> reg k = Some x \<and>
         kk_getArchitecture k = a \<and> kk_getOp k = rq_op request \<and> kk_getDType k = rq_dtype request AND 0xFFF \<and>
         fst (kr_lookup collect rebuild fromEntry k R) = Inr (Some p) \<and>
         kr_entries (snd (kr_lookup collect rebuild fromEntry k R)) p = Some e \<and> kr_serves rebuild fromEntry x e)"
proof -
  note client = kr_lookup_serves[OF assms(3)]
  obtain chain where chain: "ar_isFallbackChain T (rq_architecture request) chain"
    "kv_resolve T (kr_contains R) request args = Some (Inr (find (kr_contains R) (map (kv_key request) chain)))"
    using kv_resolve_chain[OF gen_main_ok[OF assms(1)] assms(2), where contains = "kr_contains R" and args = args] by blast
  have "case find (kr_contains R) (map (kv_key request) chain) of
      None \<Rightarrow> \<forall>a \<in> set chain. reg (kv_key request a) = None
    | Some k \<Rightarrow> \<exists>before a after x p e. chain = before @ a # after \<and> k = kv_key request a \<and>
        (\<forall>b \<in> set before. reg (kv_key request b) = None) \<and> reg k = Some x \<and>
        kk_getArchitecture k = a \<and> kk_getOp k = rq_op request \<and> kk_getDType k = rq_dtype request AND 0xFFF \<and>
        fst (kr_lookup collect rebuild fromEntry k R) = Inr (Some p) \<and>
        kr_entries (snd (kr_lookup collect rebuild fromEntry k R)) p = Some e \<and> kr_serves rebuild fromEntry x e"
  proof (cases "find (kr_contains R) (map (kv_key request) chain)")
    case None
    then show ?thesis
      using find_split[of "map (kv_key request) chain" "kr_contains R"] client by auto
  next
    case (Some k)
    then obtain before a after where split: "chain = before @ a # after" "k = kv_key request a"
      "kr_contains R k" "\<forall>b \<in> set before. \<not> kr_contains R (kv_key request b)"
      using find_split[of "map (kv_key request) chain" "kr_contains R"]
      by (auto simp: map_eq_append_conv)
    obtain x where x: "reg k = Some x"
      using split(3) client[of k] by auto
    obtain p e where p: "fst (kr_lookup collect rebuild fromEntry k R) = Inr (Some p)"
      "kr_entries (snd (kr_lookup collect rebuild fromEntry k R)) p = Some e" "kr_serves rebuild fromEntry x e"
      using client[of k] x by (auto split: prod.splits)
    have fields: "kk_getArchitecture k = a" "kk_getOp k = rq_op request" "kk_getDType k = rq_dtype request AND 0xFFF"
      unfolding split(2) kv_key_def by (simp_all add: kk_getters_make)
    have "\<forall>b \<in> set before. reg (kv_key request b) = None"
      using split(4) client by auto
    with split(1,2) x p fields Some show ?thesis
      by auto
  qed
  with chain show ?thesis
    by blast
qed

text \<open>A kernel for SM80, requested on an SM86 device.\<close>

definition kv_ex_request :: key_request where
  "kv_ex_request = \<lparr>rq_op = 7, rq_dtype = 2, rq_architecture = 4\<rparr>"

definition kv_ex_registry :: "(u64, (unit, nat) kernel_entry, (unit, nat) kernel_metadata) kernel_registry" where
  "kv_ex_registry = snd (kr_registerKernel (kv_key kv_ex_request 3) (km_new\<lparr>km_execute := Some 80\<rparr>) (kr_new 0 kr_ex_config))"

lemma kv_ex_client:
  "kr_client True kr_ex_rebuild kr_ex_fromEntry kr_ex_config kv_ex_registry
     [kv_key kv_ex_request 3 \<mapsto> km_new\<lparr>km_execute := Some 80\<rparr>]"
proof -
  let ?k = "kv_key kv_ex_request 3" and ?x = "km_new\<lparr>km_execute := Some 80\<rparr>"
  let ?R = "kr_new 0 kr_ex_config :: (u64, (unit, nat) kernel_entry, (unit, nat) kernel_metadata) kernel_registry"
  have "kr_registerKernel ?k ?x ?R = (fst (kr_registerKernel ?k ?x ?R), kv_ex_registry)"
    by (simp add: kv_ex_registry_def)
  from krc_register[OF krc_new this] show ?thesis
    by simp
qed

theorem kv_resolve_closest_witness:
  "\<exists>chain found. ar_isFallbackChain gen_ex_tables 4 chain \<and>
     kv_resolve gen_ex_tables (kr_contains kv_ex_registry) kv_ex_request () = Some (Inr found)"
proof -
  have "ar_isValidIndex gen_ex_tables (ar_toIndex (rq_architecture kv_ex_request))"
    by code_simp
  from kv_resolve_closest[OF gen_ex_main this kv_ex_client, of "()"] show ?thesis
    by (auto simp: kv_ex_request_def)
qed

end
