(* ===== verification/ArchDetect.thy ===== *)
theory ArchDetect
  imports Architecture
begin

text \<open>
  \<open>src/orteaf/src/internal/architecture/{cpu,cuda,mps}_detect.cpp\<close>: choosing the architecture of the
  host CPU or of a GPU from the detection tables.  \<open>Execution::Cpu\<close> and \<open>Architecture::CpuGeneric\<close>
  come from generated enums and are arguments, as are the CPUID instruction, the first lines of the
  system files and the calls of the device wrappers.  The CPU build is x86-64 without Apple's system
  interfaces.  Releasing the MPS device handle is not modelled.
\<close>

unbundle bit_operations_syntax

section \<open>Matching\<close>

record cpu_info =
  ci_vendor :: string
  ci_family :: "int option"
  ci_model :: "int option"
  ci_features :: "string list"
  ci_machine_id :: string

definition det_toLowerCopy :: "string \<Rightarrow> string" where
  "det_toLowerCopy s = map gen_toLower s"

text \<open>The loops over a range of a table, which stop at the first hit or miss.\<close>

primrec det_all :: "(nat \<Rightarrow> bool res) \<Rightarrow> nat list \<Rightarrow> bool res" where
  "det_all p [] = Inr True"
| "det_all p (i # is) = bindR (p i) (\<lambda>b. if b then det_all p is else Inr False)"

primrec det_any :: "(nat \<Rightarrow> bool res) \<Rightarrow> nat list \<Rightarrow> bool res" where
  "det_any p [] = Inr False"
| "det_any p (i # is) = bindR (p i) (\<lambda>b. if b then Inr True else det_any p is)"

definition det_hasAllFeatures :: "arch_tables \<Rightarrow> cpu_info \<Rightarrow> nat \<Rightarrow> nat \<Rightarrow> bool res" where
  "det_hasAllFeatures T info lo hi =
     (if lo = hi then Inr True
      else if ci_features info = [] then Inr False
      else det_all (\<lambda>i. bindR (ar_at (at_features T) i) (\<lambda>spec. Inr (det_toLowerCopy spec \<in> set (ci_features info))))
             [lo..<hi])"

definition det_matchesMachineId :: "arch_tables \<Rightarrow> cpu_info \<Rightarrow> nat \<Rightarrow> nat \<Rightarrow> bool res" where
  "det_matchesMachineId T info lo hi =
     (if lo = hi then Inr True
      else if ci_machine_id info = [] then Inr False
      else det_any (\<lambda>i. bindR (ar_at (at_machine_ids T) i) (\<lambda>spec. Inr (det_toLowerCopy spec = ci_machine_id info)))
             [lo..<hi])"

definition det_matchesCpuModels :: "arch_tables \<Rightarrow> cpu_info \<Rightarrow> nat \<Rightarrow> nat \<Rightarrow> bool res" where
  "det_matchesCpuModels T info lo hi =
     (if lo = hi then Inr True
      else case ci_model info of
          None \<Rightarrow> Inr False
        | Some model \<Rightarrow> det_any (\<lambda>i. bindR (ar_at (at_cpu_models T) i) (\<lambda>m. Inr (m = model))) [lo..<hi])"

definition det_matchesDetectSpec :: "arch_tables \<Rightarrow> nat \<Rightarrow> cpu_info \<Rightarrow> bool res" where
  "det_matchesDetectSpec T index info =
     bindR (ar_at (at_detect_vendors T) index) (\<lambda>vendor.
     if vendor \<noteq> [] \<and> ci_vendor info \<noteq> det_toLowerCopy vendor then Inr False else
     bindR (ar_at (at_detect_cpu_families T) index) (\<lambda>family.
     if family \<ge> 0 \<and> (case ci_family info of None \<Rightarrow> True | Some f \<Rightarrow> f \<noteq> family) then Inr False else
     bindR (ar_at (at_cpu_model_offsets T) index) (\<lambda>model_begin.
     bindR (ar_at (at_cpu_model_offsets T) (index + 1)) (\<lambda>model_end.
     bindR (det_matchesCpuModels T info model_begin model_end) (\<lambda>models.
     if \<not> models then Inr False else
     bindR (ar_at (at_feature_offsets T) index) (\<lambda>feature_begin.
     bindR (ar_at (at_feature_offsets T) (index + 1)) (\<lambda>feature_end.
     bindR (det_hasAllFeatures T info feature_begin feature_end) (\<lambda>features.
     if \<not> features then Inr False else
     bindR (ar_at (at_machine_id_offsets T) index) (\<lambda>machine_begin.
     bindR (ar_at (at_machine_id_offsets T) (index + 1)) (\<lambda>machine_end.
     det_matchesMachineId T info machine_begin machine_end))))))))))"

text \<open>The scan that the three detection functions share: skip generic entries and other executions.\<close>

primrec det_scan :: "arch_tables \<Rightarrow> u16 \<Rightarrow> u16 \<Rightarrow> (nat \<Rightarrow> bool res) \<Rightarrow> nat list \<Rightarrow> u16 res" where
  "det_scan T execution fallback matches [] = Inr fallback"
| "det_scan T execution fallback matches (index # rest) =
     (let arch = of_nat index in
      bindR (ar_localIndexOf T arch) (\<lambda>l.
      if l = 0 then det_scan T execution fallback matches rest
      else bindR (ar_executionOf T arch) (\<lambda>e.
           if e \<noteq> execution then det_scan T execution fallback matches rest
           else bindR (matches index) (\<lambda>b.
                if \<not> b then det_scan T execution fallback matches rest else Inr arch))))"

definition det_detectCpuArchitecture :: "arch_tables \<Rightarrow> u16 \<Rightarrow> u16 \<Rightarrow> cpu_info \<Rightarrow> u16 res" where
  "det_detectCpuArchitecture T cpu cpu_generic info =
     det_scan T cpu cpu_generic (\<lambda>index. det_matchesDetectSpec T index info) [0..<length (at_parent_indices T)]"

definition det_matchesVendor :: "string \<Rightarrow> string \<Rightarrow> bool" where
  "det_matchesVendor required actual_lower \<longleftrightarrow> required = [] \<or> det_toLowerCopy required = actual_lower"

definition det_detectCudaArchitecture :: "arch_tables \<Rightarrow> u16 \<Rightarrow> u16 \<Rightarrow> int \<Rightarrow> string \<Rightarrow> u16 res" where
  "det_detectCudaArchitecture T cuda cuda_generic compute_capability vendor_hint =
     (let vendor_lower = det_toLowerCopy vendor_hint in
      det_scan T cuda cuda_generic
        (\<lambda>index. bindR (ar_at (at_detect_vendors T) index) (\<lambda>required_vendor.
           if \<not> det_matchesVendor required_vendor vendor_lower then Inr False
           else bindR (ar_at (at_detect_compute_caps T) index) (\<lambda>required_cc.
                Inr (\<not> (required_cc \<ge> 0 \<and> required_cc \<noteq> compute_capability)))))
        [0..<length (at_parent_indices T)])"

definition det_detectMpsArchitecture :: "arch_tables \<Rightarrow> u16 \<Rightarrow> u16 \<Rightarrow> string \<Rightarrow> string \<Rightarrow> u16 res" where
  "det_detectMpsArchitecture T mps mps_generic metal_family vendor_hint =
     (let metal_lower = det_toLowerCopy metal_family; vendor_lower = det_toLowerCopy vendor_hint in
      det_scan T mps mps_generic
        (\<lambda>index. bindR (ar_at (at_detect_vendors T) index) (\<lambda>required_vendor.
           if \<not> det_matchesVendor required_vendor vendor_lower then Inr False
           else bindR (ar_at (at_detect_metal_families T) index) (\<lambda>required_family.
                Inr (\<not> (required_family \<noteq> [] \<and> det_toLowerCopy required_family \<noteq> metal_lower)))))
        [0..<length (at_parent_indices T)])"

section \<open>The host and its devices\<close>

definition det_contains :: "string \<Rightarrow> string \<Rightarrow> bool" where
  "det_contains needle s \<longleftrightarrow> (\<exists>i \<in> set [0..<Suc (length s)]. take (length needle) (drop i s) = needle)"

text \<open>The four bytes of a register in memory order.\<close>

definition det_bytes :: "u32 \<Rightarrow> string" where
  "det_bytes w = map (\<lambda>i. char_of (unat (drop_bit (8 * i) w AND 0xFF))) [0..<4]"

definition det_family :: "u32 \<Rightarrow> u32" where
  "det_family eax =
     (let base_family = drop_bit 8 eax AND 0xF; ext_family = drop_bit 20 eax AND 0xFF
      in if base_family = 0xF then base_family + ext_family else base_family)"

definition det_model :: "u32 \<Rightarrow> u32" where
  "det_model eax =
     (let base_family = drop_bit 8 eax AND 0xF; base_model = drop_bit 4 eax AND 0xF; ext_model = drop_bit 16 eax AND 0xF
      in if base_family = 0x6 \<or> base_family = 0xF then base_model OR push_bit 4 ext_model else base_model)"

text \<open>\<open>read_line path\<close> is the first line of the file, \<open>None\<close> if it cannot be opened.\<close>

primrec det_readFirstExistingFileLower :: "(string \<Rightarrow> string option) \<Rightarrow> string list \<Rightarrow> string" where
  "det_readFirstExistingFileLower read_line [] = []"
| "det_readFirstExistingFileLower read_line (path # paths) =
     (case read_line path of
        None \<Rightarrow> det_readFirstExistingFileLower read_line paths
      | Some line \<Rightarrow> if line \<noteq> [] then det_toLowerCopy line else det_readFirstExistingFileLower read_line paths)"

text \<open>\<open>cpuid leaf subleaf\<close> gives \<open>(eax, ebx, ecx, edx)\<close>, \<open>None\<close> if the leaf is not supported.\<close>

definition det_collectCpuInfo ::
  "(string \<Rightarrow> string option) \<Rightarrow> (u32 \<Rightarrow> u32 \<Rightarrow> (u32 \<times> u32 \<times> u32 \<times> u32) option) \<Rightarrow> cpu_info" where
  "det_collectCpuInfo read_line cpuid =
     (let machine_id = det_readFirstExistingFileLower read_line
            [''/sys/devices/virtual/dmi/id/product_name'', ''/sys/devices/virtual/dmi/id/board_name''];
          vendor = (case cpuid 0 0 of
              None \<Rightarrow> []
            | Some (eax, ebx, ecx, edx) \<Rightarrow>
                let vendor_lower = det_toLowerCopy (det_bytes ebx @ det_bytes edx @ det_bytes ecx)
                in if det_contains ''intel'' vendor_lower then ''intel''
                   else if det_contains ''amd'' vendor_lower then ''amd'' else vendor_lower);
          leaf1 = cpuid 1 0;
          features = (case cpuid 7 0 of
              None \<Rightarrow> []
            | Some (eax, ebx, ecx, edx) \<Rightarrow>
                (if bit ebx 5 then [''avx2''] else []) @ (if bit ebx 16 then [''avx512''] else []))
      in \<lparr>ci_vendor = (if vendor = [] then ''generic'' else vendor),
          ci_family = map_option (\<lambda>(eax, _). uint (det_family eax)) leaf1,
          ci_model = map_option (\<lambda>(eax, _). uint (det_model eax)) leaf1,
          ci_features = features, ci_machine_id = det_toLowerCopy machine_id\<rparr>)"

text \<open>
  The device queries: a failing wrapper call is an exception, and the exception
  \<open>ExecutionUnavailable\<close> is answered with the generic architecture.
\<close>

definition det_orGeneric :: "u16 \<Rightarrow> u16 res \<Rightarrow> u16 res" where
  "det_orGeneric generic r =
     (case r of Inl (OrteafError ExecutionUnavailable) \<Rightarrow> Inr generic | _ \<Rightarrow> r)"

definition det_cudaForDevice ::
  "arch_tables \<Rightarrow> u16 \<Rightarrow> u16 \<Rightarrow> int res \<Rightarrow> (u32 \<Rightarrow> 'd option res) \<Rightarrow> ('d \<Rightarrow> (int \<times> int) res) \<Rightarrow> ('d \<Rightarrow> string res) \<Rightarrow>
   u32 \<Rightarrow> u16 res" where
  "det_cudaForDevice T cuda cuda_generic getDeviceCount getDevice getComputeCapability getDeviceVendor device_index =
     det_orGeneric cuda_generic
       (bindR getDeviceCount (\<lambda>count.
        if count \<le> 0 \<or> uint device_index \<ge> count then Inr cuda_generic
        else bindR (getDevice device_index) (\<lambda>device.
             case device of
               None \<Rightarrow> Inr cuda_generic
             | Some d \<Rightarrow>
                 bindR (getComputeCapability d) (\<lambda>(major, minor).
                 bindR (getDeviceVendor d) (\<lambda>vendor.
                 det_detectCudaArchitecture T cuda cuda_generic (major * 10 + minor)
                   (if vendor = [] then ''nvidia'' else vendor))))))"

definition det_mpsForDevice ::
  "arch_tables \<Rightarrow> u16 \<Rightarrow> u16 \<Rightarrow> int res \<Rightarrow> (u32 \<Rightarrow> 'd option res) \<Rightarrow> ('d \<Rightarrow> string res) \<Rightarrow> ('d \<Rightarrow> string res) \<Rightarrow>
   u32 \<Rightarrow> u16 res" where
  "det_mpsForDevice T mps mps_generic getDeviceCount getDevice getDeviceMetalFamily getDeviceVendor device_index =
     det_orGeneric mps_generic
       (bindR getDeviceCount (\<lambda>count.
        if count \<le> 0 \<or> uint device_index \<ge> count then Inr mps_generic
        else bindR (getDevice device_index) (\<lambda>device.
             case device of
               None \<Rightarrow> Inr mps_generic
             | Some d \<Rightarrow>
                 bindR (getDeviceMetalFamily d) (\<lambda>metal_family.
                 bindR (getDeviceVendor d) (\<lambda>vendor.
                 det_detectMpsArchitecture T mps mps_generic metal_family (if vendor = [] then ''apple'' else vendor))))))"

section \<open>The detection tables hold the detect blocks\<close>

lemma gen_offsets_length [simp]: "length (gen_offsets n xss) = Suc (length xss)"
  by (induction xss arbitrary: n) auto

lemma gen_offsets_nth: "i \<le> length xss \<Longrightarrow> gen_offsets n xss ! i = n + length (concat (take i xss))"
proof (induction xss arbitrary: n i)
  case (Cons xs xss)
  then show ?case by (cases i) auto
qed simp

lemma gen_offsets_slice:
  assumes "i < length xss"
  shows "gen_offsets 0 xss ! Suc i = gen_offsets 0 xss ! i + length (xss ! i)"
    and "gen_offsets 0 xss ! Suc i \<le> length (concat xss)"
    and "k < length (xss ! i) \<Longrightarrow> concat xss ! (gen_offsets 0 xss ! i + k) = xss ! i ! k"
proof -
  have xss: "concat xss = concat (take i xss) @ xss ! i @ concat (drop (Suc i) xss)"
    using id_take_nth_drop[OF assms] by (metis concat.simps(2) concat_append)
  show next_offset: "gen_offsets 0 xss ! Suc i = gen_offsets 0 xss ! i + length (xss ! i)"
    using assms by (simp add: gen_offsets_nth take_Suc_conv_app_nth del: length_concat)
  show "gen_offsets 0 xss ! Suc i \<le> length (concat xss)"
    unfolding next_offset using assms by (subst xss) (simp add: gen_offsets_nth del: length_concat)
  show "concat xss ! (gen_offsets 0 xss ! i + k) = xss ! i ! k" if "k < length (xss ! i)"
    using assms that by (subst xss) (simp add: gen_offsets_nth nth_append del: length_concat)
qed

lemma gen_offsets_range:
  assumes "i < length xss"
  shows "(\<forall>j \<in> {gen_offsets 0 xss ! i..<gen_offsets 0 xss ! Suc i}. P (concat xss ! j)) \<longleftrightarrow> (\<forall>x \<in> set (xss ! i). P x)"
proof -
  have "{gen_offsets 0 xss ! i..<gen_offsets 0 xss ! Suc i} = (\<lambda>k. gen_offsets 0 xss ! i + k) ` {..<length (xss ! i)}"
    unfolding gen_offsets_slice(1)[OF assms] by (simp add: lessThan_atLeast0 add.commute)
  then show ?thesis
    using gen_offsets_slice(3)[OF assms] by (auto simp: all_set_conv_all_nth)
qed

lemma det_all_eq:
  "\<forall>i \<in> set is. i < length xs \<Longrightarrow> det_all (\<lambda>i. bindR (ar_at xs i) (\<lambda>x. Inr (P x))) is = Inr (\<forall>i \<in> set is. P (xs ! i))"
  by (induction "is") (auto simp: ar_at_def)

lemma det_any_eq:
  "\<forall>i \<in> set is. i < length xs \<Longrightarrow> det_any (\<lambda>i. bindR (ar_at xs i) (\<lambda>x. Inr (P x))) is = Inr (\<exists>i \<in> set is. P (xs ! i))"
  by (induction "is") (auto simp: ar_at_def)

text \<open>The range of architecture \<open>i\<close> in a concatenated table.\<close>

lemma det_all_slice:
  assumes "i < length xss"
  shows "det_all (\<lambda>j. bindR (ar_at (concat xss) j) (\<lambda>x. Inr (P x))) [gen_offsets 0 xss ! i..<gen_offsets 0 xss ! Suc i] =
    Inr (\<forall>x \<in> set (xss ! i). P x)"
  using gen_offsets_range[OF assms, of P] gen_offsets_slice(2)[OF assms]
  by (subst det_all_eq) (auto simp del: length_concat)

lemma det_any_slice:
  assumes "i < length xss"
  shows "det_any (\<lambda>j. bindR (ar_at (concat xss) j) (\<lambda>x. Inr (P x))) [gen_offsets 0 xss ! i..<gen_offsets 0 xss ! Suc i] =
    Inr (\<exists>x \<in> set (xss ! i). P x)"
  using gen_offsets_range[OF assms, of "\<lambda>x. \<not> P x"] gen_offsets_slice(2)[OF assms]
  by (subst det_any_eq) (auto simp del: length_concat)

lemma gen_offsets_empty: "i < length xss \<Longrightarrow> gen_offsets 0 xss ! i = gen_offsets 0 xss ! Suc i \<longleftrightarrow> xss ! i = []"
  using gen_offsets_slice(1)[of i xss] by auto

text \<open>What a detect block asks of a CPU; an entry without one accepts every CPU.\<close>

definition det_specMatches :: "cpu_info \<Rightarrow> gen_detect option \<Rightarrow> bool" where
  "det_specMatches info spec \<longleftrightarrow>
     (case spec of
        None \<Rightarrow> True
      | Some d \<Rightarrow>
          (ds_vendor d = [] \<or> ci_vendor info = det_toLowerCopy (ds_vendor d)) \<and>
          (case ds_family d of None \<Rightarrow> True | Some f \<Rightarrow> f < 0 \<or> ci_family info = Some f) \<and>
          (ds_models d = [] \<or> (case ci_model info of None \<Rightarrow> False | Some m \<Rightarrow> m \<in> set (ds_models d))) \<and>
          (\<forall>f \<in> set (ds_features d). det_toLowerCopy f \<in> set (ci_features info)) \<and>
          (ds_machine_ids d = [] \<or>
             ci_machine_id info \<noteq> [] \<and> (\<exists>i \<in> set (ds_machine_ids d). det_toLowerCopy i = ci_machine_id info)))"

lemma gen_detectList_length [simp]: "length (gen_detectList f resolved) = length resolved"
  by (simp add: gen_detectList_def)

lemma gen_detectList_nth:
  "i < length resolved \<Longrightarrow>
   gen_detectList f resolved ! i = (case gr_detect (resolved ! i) of None \<Rightarrow> [] | Some d \<Rightarrow> f d)"
  by (simp add: gen_detectList_def)

lemma det_lists_eq:
  assumes "i < length resolved"
  shows "det_matchesCpuModels (gen_tables resolved offsets counts parents) info
      (gen_offsets 0 (gen_detectList ds_models resolved) ! i) (gen_offsets 0 (gen_detectList ds_models resolved) ! Suc i) =
    Inr (gen_detectList ds_models resolved ! i = [] \<or> (\<exists>m. ci_model info = Some m \<and> m \<in> set (gen_detectList ds_models resolved ! i)))"
    and "det_hasAllFeatures (gen_tables resolved offsets counts parents) info
      (gen_offsets 0 (gen_detectList ds_features resolved) ! i) (gen_offsets 0 (gen_detectList ds_features resolved) ! Suc i) =
    Inr (\<forall>f \<in> set (gen_detectList ds_features resolved ! i). det_toLowerCopy f \<in> set (ci_features info))"
    and "det_matchesMachineId (gen_tables resolved offsets counts parents) info
      (gen_offsets 0 (gen_detectList ds_machine_ids resolved) ! i) (gen_offsets 0 (gen_detectList ds_machine_ids resolved) ! Suc i) =
    Inr (gen_detectList ds_machine_ids resolved ! i = [] \<or>
      ci_machine_id info \<noteq> [] \<and> (\<exists>s \<in> set (gen_detectList ds_machine_ids resolved ! i). det_toLowerCopy s = ci_machine_id info))"
proof -
  show "det_matchesCpuModels (gen_tables resolved offsets counts parents) info
      (gen_offsets 0 (gen_detectList ds_models resolved) ! i) (gen_offsets 0 (gen_detectList ds_models resolved) ! Suc i) =
    Inr (gen_detectList ds_models resolved ! i = [] \<or> (\<exists>m. ci_model info = Some m \<and> m \<in> set (gen_detectList ds_models resolved ! i)))"
    using assms by (auto simp: det_matchesCpuModels_def gen_offsets_empty det_any_slice gen_tables_def split: option.splits)
  show "det_hasAllFeatures (gen_tables resolved offsets counts parents) info
      (gen_offsets 0 (gen_detectList ds_features resolved) ! i) (gen_offsets 0 (gen_detectList ds_features resolved) ! Suc i) =
    Inr (\<forall>f \<in> set (gen_detectList ds_features resolved ! i). det_toLowerCopy f \<in> set (ci_features info))"
    using assms by (auto simp: det_hasAllFeatures_def gen_offsets_empty det_all_slice gen_tables_def neq_Nil_conv)
  show "det_matchesMachineId (gen_tables resolved offsets counts parents) info
      (gen_offsets 0 (gen_detectList ds_machine_ids resolved) ! i) (gen_offsets 0 (gen_detectList ds_machine_ids resolved) ! Suc i) =
    Inr (gen_detectList ds_machine_ids resolved ! i = [] \<or>
      ci_machine_id info \<noteq> [] \<and> (\<exists>s \<in> set (gen_detectList ds_machine_ids resolved ! i). det_toLowerCopy s = ci_machine_id info))"
    using assms by (auto simp: det_matchesMachineId_def gen_offsets_empty det_any_slice gen_tables_def)
qed

lemma det_matchesDetectSpec_eq:
  assumes "i < length resolved"
  shows "det_matchesDetectSpec (gen_tables resolved offsets counts parents) i info =
    Inr (det_specMatches info (gr_detect (resolved ! i)))"
proof -
  let ?T = "gen_tables resolved offsets counts parents"
  have at: "ar_at (at_detect_vendors ?T) i = Inr (gen_detectValue (\<lambda>d. Some (ds_vendor d)) [] (resolved ! i))"
    "ar_at (at_detect_cpu_families ?T) i = Inr (gen_detectValue ds_family (- 1) (resolved ! i))"
    "ar_at (at_cpu_model_offsets ?T) i = Inr (gen_offsets 0 (gen_detectList ds_models resolved) ! i)"
    "ar_at (at_cpu_model_offsets ?T) (i + 1) = Inr (gen_offsets 0 (gen_detectList ds_models resolved) ! Suc i)"
    "ar_at (at_feature_offsets ?T) i = Inr (gen_offsets 0 (gen_detectList ds_features resolved) ! i)"
    "ar_at (at_feature_offsets ?T) (i + 1) = Inr (gen_offsets 0 (gen_detectList ds_features resolved) ! Suc i)"
    "ar_at (at_machine_id_offsets ?T) i = Inr (gen_offsets 0 (gen_detectList ds_machine_ids resolved) ! i)"
    "ar_at (at_machine_id_offsets ?T) (i + 1) = Inr (gen_offsets 0 (gen_detectList ds_machine_ids resolved) ! Suc i)"
    using assms by (simp_all add: ar_at_def gen_tables_def gen_detectList_def)
  show ?thesis
    unfolding det_matchesDetectSpec_def at bindR_simps det_lists_eq[OF assms] gen_detectList_nth[OF assms]
    by (cases "gr_detect (resolved ! i)"; cases "ds_family (the (gr_detect (resolved ! i)))")
      (auto simp: det_specMatches_def gen_detectValue_def split: option.splits)
qed

section \<open>The scan finds the first matching entry\<close>

lemma det_scan_find:
  assumes "\<And>i. i \<in> set is \<Longrightarrow> i < length (at_local_indices T) \<and> i < length (at_execution_indices T) \<and> i < 2 ^ 16 \<and>
    matches i = Inr (p i)"
  shows "det_scan T execution fallback matches is =
    Inr (case find (\<lambda>i. at_local_indices T ! i \<noteq> 0 \<and> at_execution_indices T ! i = execution \<and> p i) is of
           None \<Rightarrow> fallback | Some i \<Rightarrow> of_nat i)"
  using assms
proof (induction "is")
  case (Cons i "is")
  have u: "unat (of_nat i :: u16) = i"
    using Cons.prems[of i] by (simp add: unsigned_of_nat take_bit_nat_eq_self)
  show ?case
    using Cons.IH Cons.prems[of i] Cons.prems
    by (simp add: ar_localIndexOf_def ar_executionOf_def ar_toIndex_def ar_at_def u Let_def)
qed simp

lemma upt_split: "i \<le> j \<Longrightarrow> j \<le> k \<Longrightarrow> [i..<k] = [i..<j] @ [j..<k]"
  using upt_add_eq_append[of i j "k - j"] by simp

lemma find_append: "find P (xs @ ys) = (case find P xs of None \<Rightarrow> find P ys | Some x \<Rightarrow> Some x)"
  by (induction xs) auto

lemma find_none: "(\<And>x. x \<in> set xs \<Longrightarrow> \<not> P x) \<Longrightarrow> find P xs = None"
  by (simp add: find_None_iff)

lemma find_cong_list: "(\<And>x. x \<in> set xs \<Longrightarrow> P x = Q x) \<Longrightarrow> find P xs = find Q xs"
  by (induction xs) auto

text \<open>Among all indices, those of one execution beyond its generic entry are one range.\<close>

lemma arch_ok_range:
  assumes "arch_ok T" and "e < length (at_execution_counts T)" and "i < length (at_parent_indices T)"
  shows "at_local_indices T ! i \<noteq> 0 \<and> at_execution_indices T ! i = of_nat e \<longleftrightarrow>
    at_execution_offsets T ! e < i \<and> i < at_execution_offsets T ! e + at_execution_counts T ! e"
proof
  note D = arch_okD[OF assms(1,3)]
  have n: "length (at_execution_counts T) \<le> 65535"
    using assms(1) by (rule arch_ok_counts)
  assume l: "at_local_indices T ! i \<noteq> 0 \<and> at_execution_indices T ! i = of_nat e"
  moreover have "unat (of_nat e :: u16) = e"
    using assms(2) n by (simp add: unsigned_of_nat take_bit_nat_eq_self)
  moreover have "0 < unat (at_local_indices T ! i)"
    using l by (simp add: unat_gt_0)
  ultimately show "at_execution_offsets T ! e < i \<and> i < at_execution_offsets T ! e + at_execution_counts T ! e"
    using D(5,6) by simp
next
  assume i: "at_execution_offsets T ! e < i \<and> i < at_execution_offsets T ! e + at_execution_counts T ! e"
  note D = arch_okD[OF assms(1,3)]
  have n: "length (at_execution_counts T) \<le> 65535"
    using assms(1) by (rule arch_ok_counts)
  obtain l where l: "i = at_execution_offsets T ! e + l" "l < at_execution_counts T ! e"
    using i by (auto simp: less_iff_Suc_add)
  then have e: "at_execution_indices T ! i = of_nat e"
    using arch_ok_execD(3)[OF assms(1,2)] by simp
  moreover have "unat (of_nat e :: u16) = e"
    using assms(2) n by (simp add: unsigned_of_nat take_bit_nat_eq_self)
  ultimately have "unat (at_local_indices T ! i) \<noteq> 0"
    using D(5) i by simp
  with e show "at_local_indices T ! i \<noteq> 0 \<and> at_execution_indices T ! i = of_nat e"
    by auto
qed

lemma det_scan_execution:
  assumes "arch_ok T" and "e < length (at_execution_counts T)"
    and "\<And>i. i < length (at_parent_indices T) \<Longrightarrow> matches i = Inr (p i)"
  shows "det_scan T (of_nat e) fallback matches [0..<length (at_parent_indices T)] =
    Inr (case find p [Suc (at_execution_offsets T ! e)..<at_execution_offsets T ! e + at_execution_counts T ! e] of
           None \<Rightarrow> fallback | Some i \<Rightarrow> of_nat i)"
proof -
  let ?n = "length (at_parent_indices T)"
  let ?o = "at_execution_offsets T ! e"
  let ?c = "at_execution_counts T ! e"
  let ?P = "\<lambda>i. at_local_indices T ! i \<noteq> 0 \<and> at_execution_indices T ! i = of_nat e \<and> p i"
  have bounds: "?o + ?c \<le> ?n" "0 < ?c" "?n \<le> 65535" "length (at_local_indices T) = ?n" "length (at_execution_indices T) = ?n"
    using assms(1) arch_ok_execD[OF assms(1,2)] by (simp_all add: arch_ok_def Let_def)
  have P: "?P i \<longleftrightarrow> ?o < i \<and> i < ?o + ?c \<and> p i" if "i < ?n" for i
    using arch_ok_range[OF assms(1,2) that] by blast
  have "[0..<?n] = [0..<Suc ?o] @ [Suc ?o..<?o + ?c] @ [?o + ?c..<?n]"
    using bounds(1,2) upt_split[of 0 "Suc ?o" ?n] upt_split[of "Suc ?o" "?o + ?c" ?n] by simp
  moreover have "\<not> ?P i" if "i \<in> set [0..<Suc ?o] \<union> set [?o + ?c..<?n]" for i
    using that bounds(1,2) P[of i] by (auto simp del: upt_Suc)
  then have "find ?P [0..<Suc ?o] = None" "find ?P [?o + ?c..<?n] = None"
    by (rule find_none; blast)+
  moreover have "find ?P [Suc ?o..<?o + ?c] = find p [Suc ?o..<?o + ?c]"
    using bounds(1) P by (intro find_cong_list) auto
  ultimately have "find ?P [0..<?n] = find p [Suc ?o..<?o + ?c]"
    by (simp add: find_append del: upt_Suc split: option.split)
  moreover have "det_scan T (of_nat e) fallback matches [0..<?n] =
      Inr (case find ?P [0..<?n] of None \<Rightarrow> fallback | Some i \<Rightarrow> of_nat i)"
    using bounds assms(3) by (intro det_scan_find) auto
  ultimately show ?thesis
    by simp
qed

section \<open>The entries of an execution\<close>

abbreviation gen_entriesOf :: "gen_input list \<Rightarrow> gen_execution list \<Rightarrow> nat \<Rightarrow> gen_input list" where
  "gen_entriesOf as es k \<equiv> filter (\<lambda>a. gi_execution_id a = ge_id (es ! k)) as"

definition gen_filled ::
  "gen_input list \<Rightarrow> gen_execution list \<Rightarrow> nat \<Rightarrow> gen_resolved list \<Rightarrow> nat list \<Rightarrow> nat list \<Rightarrow> bool" where
  "gen_filled as es n resolved offsets counts \<longleftrightarrow>
     (\<forall>k < n. k < length offsets \<and> k < length counts \<and> counts ! k = Suc (length (gen_entriesOf as es k)) \<and>
        offsets ! k + counts ! k \<le> length resolved \<and>
        (\<forall>j < length (gen_entriesOf as es k).
           gr_detect (resolved ! (offsets ! k + Suc j)) = gi_detect (gen_entriesOf as es k ! j)))"

lemma gen_userEntries_detect:
  "j < length xs \<Longrightarrow> gr_detect (gen_userEntries ei e l xs ! j) = gi_detect (xs ! j)"
  by (induction xs arbitrary: l j) (auto simp: nth_Cons' less_Suc_eq_0_disj)

lemma gen_resolveExecutions_filled:
  assumes "gen_resolveExecutions as n es' (resolved, offsets, counts) = Some (resolved', offsets', counts')"
    and "gen_filled as es n resolved offsets counts" and "es' = drop n es" and "length offsets = n"
    and "length counts = length es"
  shows "gen_filled as es (n + length es') resolved' offsets' counts'"
  using assms
proof (induction es' arbitrary: n resolved offsets counts)
  case Nil
  then show ?case by (auto simp: gen_filled_def nth_append)
next
  case (Cons e es')
  let ?xs = "filter (\<lambda>a. gi_execution_id a = ge_id e) as"
  let ?block = "gen_generic n e # gen_userEntries n e 1 ?xs"
  have e: "es ! n = e" "n < length es" "es' = drop (Suc n) es"
    using Cons.prems(3) by (metis nth_via_drop, metis drop_all linorder_not_less list.distinct(1),
      metis drop_Suc drop_tl list.sel(3))
  have step: "gen_resolveExecutions as (Suc n) es'
      (resolved @ ?block, offsets @ [length resolved], counts[n := length ?xs + 1]) = Some (resolved', offsets', counts')"
    using Cons.prems(1) by (auto simp: gen_resolveExecution_def Let_def split: if_splits)
  have "gen_filled as es (Suc n) (resolved @ ?block) (offsets @ [length resolved]) (counts[n := length ?xs + 1])"
    unfolding gen_filled_def
  proof (intro allI impI)
    fix k
    assume k: "k < Suc n"
    show "k < length (offsets @ [length resolved]) \<and> k < length (counts[n := length ?xs + 1]) \<and>
        (counts[n := length ?xs + 1]) ! k = Suc (length (gen_entriesOf as es k)) \<and>
        (offsets @ [length resolved]) ! k + (counts[n := length ?xs + 1]) ! k \<le> length (resolved @ ?block) \<and>
        (\<forall>j < length (gen_entriesOf as es k). gr_detect ((resolved @ ?block) ! ((offsets @ [length resolved]) ! k + Suc j)) =
           gi_detect (gen_entriesOf as es k ! j))"
    proof (cases "k = n")
      case True
      with Cons.prems(4,5) e show ?thesis
        by (simp add: nth_append gen_userEntries_detect)
    next
      case False
      with k have "k < n" by simp
      with Cons.prems(2,4,5) show ?thesis
        by (auto simp: gen_filled_def nth_append)
    qed
  qed
  from Cons.IH[OF step this e(3)] Cons.prems(4,5) show ?case
    by simp
qed

lemma find_map_index:
  "find p [a..<a + n] = map_option (\<lambda>j. a + j) (find (\<lambda>j. p (a + j)) [0..<n])"
proof (induction n)
  case (Suc n)
  then show ?case by (simp add: find_append split: option.splits)
qed simp

lemma det_scan_entries:
  assumes "gen_parseExecutionConfig execution_yaml = Some es"
    and "gen_parseArchitectureConfig as_int architecture_yaml (map ge_id es) = Some as"
    and "gen_generateOutputs es as = Some T" and "e < length es"
    and "ar_fromExecutionAndLocalIndex T (of_nat e) 0 = Inr generic"
    and match: "\<And>resolved offsets counts parents i. i < length resolved \<Longrightarrow>
      matches (gen_tables resolved offsets counts parents) i = Inr (P (gr_detect (resolved ! i)))"
  shows "det_scan T (of_nat e) generic (matches T) [0..<length (at_parent_indices T)] =
    Inr (case find (\<lambda>j. P (gi_detect (gen_entriesOf as es e ! j))) [0..<length (gen_entriesOf as es e)] of
           None \<Rightarrow> generic | Some j \<Rightarrow> generic + 1 + of_nat j)"
proof -
  let ?xs = "gen_entriesOf as es e"
  have ok: "arch_ok T"
    using assms(1-3) by (intro gen_main_ok[of as_int architecture_yaml execution_yaml]) (simp add: gen_main_def)
  obtain resolved offsets counts parents where
    res: "gen_resolveExecutions as 0 es ([], [], replicate (length es) 0) = Some (resolved, offsets, counts)"
    and T: "T = gen_tables resolved offsets counts parents" and ps: "gen_parentIndices es resolved resolved = Some parents"
    using assms(3) by (auto simp: gen_generateOutputs_def bind_eq_Some_conv split: if_splits)
  have filled: "gen_filled as es (length es) resolved offsets counts"
    using gen_resolveExecutions_filled[OF res, of es] by (simp add: gen_filled_def[of _ _ 0])
  then have e: "e < length counts" "e < length offsets" "counts ! e = Suc (length ?xs)" "offsets ! e + counts ! e \<le> length resolved"
    using assms(4) by (auto simp: gen_filled_def)
  have tab: "at_execution_counts T = counts" "at_execution_offsets T = offsets" "at_parent_indices T = parents"
    "length parents = length resolved"
    using gen_parentIndices_nth[OF ps] by (simp_all add: T gen_tables_def)
  have small: "length resolved \<le> 65535"
    using ok tab by (simp add: arch_ok_def Let_def)
  have "unat (of_nat e :: u16) = e"
    using e(1) arch_ok_counts[OF ok] tab by (simp add: unsigned_of_nat take_bit_nat_eq_self)
  then have generic: "generic = of_nat (offsets ! e)"
    using assms(5) e(2) by (simp add: ar_fromExecutionAndLocalIndex_def ar_offsetForExecution_def ar_at_def tab)
  have "find (\<lambda>i. P (gr_detect (resolved ! i))) [Suc (offsets ! e)..<offsets ! e + counts ! e] =
      map_option (\<lambda>j. Suc (offsets ! e) + j) (find (\<lambda>j. P (gi_detect (?xs ! j))) [0..<length ?xs])"
  proof -
    have "find (\<lambda>j. P (gr_detect (resolved ! (Suc (offsets ! e) + j)))) [0..<length ?xs] =
        find (\<lambda>j. P (gi_detect (?xs ! j))) [0..<length ?xs]"
      using filled assms(4) by (intro find_cong_list) (simp add: gen_filled_def)
    then show ?thesis
      using find_map_index[of "\<lambda>i. P (gr_detect (resolved ! i))" "Suc (offsets ! e)" "length ?xs"] e(3)
      by simp
  qed
  moreover have "det_scan T (of_nat e) generic (matches T) [0..<length (at_parent_indices T)] =
      Inr (case find (\<lambda>i. P (gr_detect (resolved ! i))) [Suc (offsets ! e)..<offsets ! e + counts ! e] of
             None \<Rightarrow> generic | Some i \<Rightarrow> of_nat i)"
    using det_scan_execution[OF ok, of e "matches T" "\<lambda>i. P (gr_detect (resolved ! i))" generic] e(1) tab
    by (simp add: T match)
  ultimately show ?thesis
    by (auto simp: generic add.commute add.left_commute split: option.splits)
qed

text \<open>What a detect block asks of a CUDA device and of an MPS device.\<close>

definition det_cudaMatches :: "int \<Rightarrow> string \<Rightarrow> gen_detect option \<Rightarrow> bool" where
  "det_cudaMatches cc vendor spec \<longleftrightarrow>
     (case spec of
        None \<Rightarrow> True
      | Some d \<Rightarrow>
          (ds_vendor d = [] \<or> det_toLowerCopy (ds_vendor d) = det_toLowerCopy vendor) \<and>
          (case ds_compute_capability d of None \<Rightarrow> True | Some c \<Rightarrow> c < 0 \<or> c = cc))"

definition det_mpsMatches :: "string \<Rightarrow> string \<Rightarrow> gen_detect option \<Rightarrow> bool" where
  "det_mpsMatches metal vendor spec \<longleftrightarrow>
     (case spec of
        None \<Rightarrow> True
      | Some d \<Rightarrow>
          (ds_vendor d = [] \<or> det_toLowerCopy (ds_vendor d) = det_toLowerCopy vendor) \<and>
          (case ds_metal_family d of None \<Rightarrow> True | Some m \<Rightarrow> m = [] \<or> det_toLowerCopy m = det_toLowerCopy metal))"

text \<open>The architecture of the first matching entry of an execution, its generic one if there is none.\<close>

definition det_firstMatch :: "(gen_detect option \<Rightarrow> bool) \<Rightarrow> gen_input list \<Rightarrow> u16 \<Rightarrow> u16" where
  "det_firstMatch P entries generic =
     (case find (\<lambda>j. P (gi_detect (entries ! j))) [0..<length entries] of
        None \<Rightarrow> generic | Some j \<Rightarrow> generic + 1 + of_nat j)"

text \<open>
  The scan over the generated tables never reads outside a table and returns the first entry of the
  execution, in the order of the YAML file, that fits.  A block constrains only what it names, and names
  and identifiers compare without case; an entry without a block fits everything.
\<close>

lemma det_first_match:
  assumes "gen_parseExecutionConfig execution_yaml = Some es"
    and "gen_parseArchitectureConfig as_int architecture_yaml (map ge_id es) = Some as"
    and "gen_generateOutputs es as = Some T" and "e < length es"
    and "ar_fromExecutionAndLocalIndex T (of_nat e) 0 = Inr generic"
  shows "det_detectCpuArchitecture T (of_nat e) generic info =
      Inr (det_firstMatch (det_specMatches info) (gen_entriesOf as es e) generic) \<and>
    det_detectCudaArchitecture T (of_nat e) generic cc vendor =
      Inr (det_firstMatch (det_cudaMatches cc vendor) (gen_entriesOf as es e) generic) \<and>
    det_detectMpsArchitecture T (of_nat e) generic metal vendor =
      Inr (det_firstMatch (det_mpsMatches metal vendor) (gen_entriesOf as es e) generic)"
proof (intro conjI)
  note scan = det_scan_entries[OF assms, folded det_firstMatch_def]
  show "det_detectCpuArchitecture T (of_nat e) generic info =
      Inr (det_firstMatch (det_specMatches info) (gen_entriesOf as es e) generic)"
    unfolding det_detectCpuArchitecture_def
    by (rule scan[where matches = "\<lambda>T index. det_matchesDetectSpec T index info"]) (rule det_matchesDetectSpec_eq)
  show "det_detectCudaArchitecture T (of_nat e) generic cc vendor =
      Inr (det_firstMatch (det_cudaMatches cc vendor) (gen_entriesOf as es e) generic)"
    unfolding det_detectCudaArchitecture_def Let_def
    by (rule scan[where matches = "\<lambda>T index. bindR (ar_at (at_detect_vendors T) index) (\<lambda>required_vendor.
           if \<not> det_matchesVendor required_vendor (det_toLowerCopy vendor) then Inr False
           else bindR (ar_at (at_detect_compute_caps T) index) (\<lambda>required_cc.
                Inr (\<not> (required_cc \<ge> 0 \<and> required_cc \<noteq> cc))))"])
      (auto simp: ar_at_def gen_tables_def gen_detectValue_def det_cudaMatches_def det_matchesVendor_def
        split: option.splits)
  show "det_detectMpsArchitecture T (of_nat e) generic metal vendor =
      Inr (det_firstMatch (det_mpsMatches metal vendor) (gen_entriesOf as es e) generic)"
    unfolding det_detectMpsArchitecture_def Let_def
    by (rule scan[where matches = "\<lambda>T index. bindR (ar_at (at_detect_vendors T) index) (\<lambda>required_vendor.
           if \<not> det_matchesVendor required_vendor (det_toLowerCopy vendor) then Inr False
           else bindR (ar_at (at_detect_metal_families T) index) (\<lambda>required_family.
                Inr (\<not> (required_family \<noteq> [] \<and> det_toLowerCopy required_family \<noteq> det_toLowerCopy metal))))"])
      (auto simp: ar_at_def gen_tables_def gen_detectValue_def det_mpsMatches_def det_matchesVendor_def
        split: option.splits)
qed

section \<open>Best match\<close>

text \<open>An entry without a block asks for nothing.\<close>

definition det_asks :: "gen_detect option \<Rightarrow> gen_detect" where
  "det_asks spec = (case spec of Some d \<Rightarrow> d
     | None \<Rightarrow> \<lparr>ds_vendor = [], ds_family = None, ds_models = [], ds_features = [], ds_machine_ids = [],
         ds_compute_capability = None, ds_metal_family = None\<rparr>)"

text \<open>Everything a block asks of a CPU, another one asks too.\<close>

definition det_refines :: "gen_detect option \<Rightarrow> gen_detect option \<Rightarrow> bool" where
  "det_refines y x \<longleftrightarrow>
     (let d = det_asks x; f = det_asks y
      in (ds_vendor d = [] \<or> ds_vendor f \<noteq> [] \<and> det_toLowerCopy (ds_vendor f) = det_toLowerCopy (ds_vendor d)) \<and>
         (case ds_family d of None \<Rightarrow> True | Some n \<Rightarrow> n < 0 \<or> ds_family f = Some n) \<and>
         (ds_models d = [] \<or> ds_models f \<noteq> [] \<and> set (ds_models f) \<subseteq> set (ds_models d)) \<and>
         set (map det_toLowerCopy (ds_features d)) \<subseteq> set (map det_toLowerCopy (ds_features f)) \<and>
         (ds_machine_ids d = [] \<or> ds_machine_ids f \<noteq> [] \<and>
            set (map det_toLowerCopy (ds_machine_ids f)) \<subseteq> set (map det_toLowerCopy (ds_machine_ids d))))"

lemma det_specMatches_asks: "det_specMatches info spec \<longleftrightarrow> det_specMatches info (Some (det_asks spec))"
  by (cases spec) (simp_all add: det_specMatches_def det_asks_def)

lemma det_refines_sound:
  assumes "det_refines y x" and "det_specMatches info y"
  shows "det_specMatches info x"
proof -
  let ?d = "det_asks x" and ?f = "det_asks y"
  have f: "det_specMatches info (Some ?f)" using assms(2) det_specMatches_asks by blast
  from assms(1) have r: "ds_vendor ?d = [] \<or> ds_vendor ?f \<noteq> [] \<and> det_toLowerCopy (ds_vendor ?f) = det_toLowerCopy (ds_vendor ?d)"
    "case ds_family ?d of None \<Rightarrow> True | Some n \<Rightarrow> n < 0 \<or> ds_family ?f = Some n"
    "ds_models ?d = [] \<or> ds_models ?f \<noteq> [] \<and> set (ds_models ?f) \<subseteq> set (ds_models ?d)"
    "\<forall>g \<in> set (ds_features ?d). det_toLowerCopy g \<in> det_toLowerCopy ` set (ds_features ?f)"
    "ds_machine_ids ?d = [] \<or> ds_machine_ids ?f \<noteq> [] \<and>
       det_toLowerCopy ` set (ds_machine_ids ?f) \<subseteq> det_toLowerCopy ` set (ds_machine_ids ?d)"
    unfolding det_refines_def Let_def by auto
  from f have m: "ds_vendor ?f = [] \<or> ci_vendor info = det_toLowerCopy (ds_vendor ?f)"
    "case ds_family ?f of None \<Rightarrow> True | Some n \<Rightarrow> n < 0 \<or> ci_family info = Some n"
    "ds_models ?f = [] \<or> (case ci_model info of None \<Rightarrow> False | Some n \<Rightarrow> n \<in> set (ds_models ?f))"
    "\<forall>g \<in> set (ds_features ?f). det_toLowerCopy g \<in> set (ci_features info)"
    "ds_machine_ids ?f = [] \<or>
       ci_machine_id info \<noteq> [] \<and> (\<exists>i \<in> set (ds_machine_ids ?f). det_toLowerCopy i = ci_machine_id info)"
    unfolding det_specMatches_def by simp_all
  have "ds_vendor ?d = [] \<or> ci_vendor info = det_toLowerCopy (ds_vendor ?d)" using r(1) m(1) by auto
  moreover have "case ds_family ?d of None \<Rightarrow> True | Some n \<Rightarrow> n < 0 \<or> ci_family info = Some n"
    using r(2) m(2) by (auto split: option.splits)
  moreover have "ds_models ?d = [] \<or> (case ci_model info of None \<Rightarrow> False | Some n \<Rightarrow> n \<in> set (ds_models ?d))"
    using r(3) m(3) by (auto split: option.splits)
  moreover have "\<forall>g \<in> set (ds_features ?d). det_toLowerCopy g \<in> set (ci_features info)"
    using r(4) m(4) by fastforce
  moreover have "ds_machine_ids ?d = [] \<or>
      ci_machine_id info \<noteq> [] \<and> (\<exists>i \<in> set (ds_machine_ids ?d). det_toLowerCopy i = ci_machine_id info)"
    using r(5) m(5) by fastforce
  ultimately have "det_specMatches info (Some ?d)"
    unfolding det_specMatches_def by simp
  then show ?thesis using det_specMatches_asks by blast
qed

definition det_finer :: "gen_input \<Rightarrow> gen_input \<Rightarrow> bool" where
  "det_finer y x \<longleftrightarrow> det_refines (gi_detect y) (gi_detect x) \<and> \<not> det_refines (gi_detect x) (gi_detect y)"

text \<open>The file lists the more specific entries of an execution first.\<close>

definition det_specificFirst :: "gen_input list \<Rightarrow> bool" where
  "det_specificFirst entries \<longleftrightarrow>
     (\<forall>j < length entries. \<forall>i < j. \<not> det_finer (entries ! j) (entries ! i))"

text \<open>The architecture of a matching entry that no other matching entry is more specific than, and the
  generic one if nothing matches.\<close>

definition det_isBest :: "(gen_detect option \<Rightarrow> bool) \<Rightarrow> gen_input list \<Rightarrow> u16 \<Rightarrow> u16 \<Rightarrow> bool" where
  "det_isBest P entries generic a \<longleftrightarrow>
     (if \<exists>x \<in> set entries. P (gi_detect x)
      then \<exists>j < length entries. a = generic + 1 + of_nat j \<and> P (gi_detect (entries ! j)) \<and>
        (\<forall>y \<in> set entries. P (gi_detect y) \<longrightarrow> \<not> det_finer y (entries ! j))
      else a = generic)"

lemma det_firstMatch_best:
  assumes "det_specificFirst entries"
  shows "det_isBest P entries generic (det_firstMatch P entries generic)"
proof (cases "find (\<lambda>j. P (gi_detect (entries ! j))) [0..<length entries]")
  case None
  then have "\<not> (\<exists>x \<in> set entries. P (gi_detect x))"
    by (auto simp: find_None_iff in_set_conv_nth)
  with None show ?thesis by (simp add: det_isBest_def det_firstMatch_def)
next
  case (Some j)
  then have j: "j < length entries" "P (gi_detect (entries ! j))" "\<forall>i < j. \<not> P (gi_detect (entries ! i))"
    by (auto simp: find_Some_iff)
  have "\<not> det_finer y (entries ! j)" if "y \<in> set entries" "P (gi_detect y)" for y
  proof -
    obtain k where k: "k < length entries" "y = entries ! k" using \<open>y \<in> set entries\<close> by (metis in_set_conv_nth)
    with that(2) j(3) have "j \<le> k" by (meson not_less)
    with k assms show ?thesis
      by (cases "j = k") (auto simp: det_specificFirst_def det_finer_def)
  qed
  with j Some show ?thesis
    by (auto simp: det_isBest_def det_firstMatch_def)
qed

definition det_definesCapability :: "gen_input \<Rightarrow> bool" where
  "det_definesCapability x \<longleftrightarrow> (case ds_compute_capability (det_asks (gi_detect x)) of None \<Rightarrow> False | Some c \<Rightarrow> 0 \<le> c)"

lemma det_cuda_negative:
  assumes "\<forall>x \<in> set entries. det_definesCapability x" and "cc < 0"
  shows "det_firstMatch (det_cudaMatches cc vendor) entries generic = generic"
proof -
  have "\<not> det_cudaMatches cc vendor (gi_detect x)" if "x \<in> set entries" for x
    using assms that by (fastforce simp: det_definesCapability_def det_asks_def det_cudaMatches_def split: option.splits)
  then have "find (\<lambda>j. det_cudaMatches cc vendor (gi_detect (entries ! j))) [0..<length entries] = None"
    by (auto simp: find_None_iff)
  then show ?thesis by (simp add: det_firstMatch_def)
qed


text \<open>A Zen 4 processor: \<open>AuthenticAMD\<close>, family 25, AVX2 and AVX-512.\<close>

definition det_ex_cpuid :: "u32 \<Rightarrow> u32 \<Rightarrow> (u32 \<times> u32 \<times> u32 \<times> u32) option" where
  "det_ex_cpuid leaf subleaf =
     (if leaf = 0 then Some (0x10, 0x68747541, 0x444D4163, 0x69746E65)
      else if leaf = 1 then Some (0xA60F12, 0, 0, 0)
      else if leaf = 7 then Some (0, 0x10020, 0, 0) else None)"

abbreviation "det_ex_info \<equiv> det_collectCpuInfo (\<lambda>_. None) det_ex_cpuid"

definition det_ex_executions :: "gen_execution list" where
  "det_ex_executions =
     [\<lparr>ge_id = ''Cpu'', ge_display_name = ''CPU''\<rparr>, \<lparr>ge_id = ''Cuda'', ge_display_name = ''CUDA''\<rparr>]"

definition det_ex_input :: "string \<Rightarrow> string \<Rightarrow> string \<Rightarrow> gen_detect \<Rightarrow> gen_input" where
  "det_ex_input i e par d = \<lparr>gi_id = i, gi_execution_id = e, gi_display_name = i, gi_description = [],
     gi_parent = Some par, gi_detect = Some d\<rparr>"

definition det_ex_inputs :: "gen_input list" where
  "det_ex_inputs =
     (let d = \<lparr>ds_vendor = ''nvidia'', ds_family = None, ds_models = [], ds_features = [], ds_machine_ids = [],
                ds_compute_capability = Some 80, ds_metal_family = None\<rparr>
      in [det_ex_input ''Sm80'' ''Cuda'' ''CudaGeneric'' d,
          det_ex_input ''Sm86'' ''Cuda'' ''Sm80'' (d\<lparr>ds_compute_capability := Some 86\<rparr>),
          det_ex_input ''Zen4'' ''Cpu'' ''CpuGeneric''
            (d\<lparr>ds_vendor := ''amd'', ds_family := Some 25, ds_features := [''avx512''], ds_compute_capability := None\<rparr>)])"

lemma det_ex_executions: "gen_parseExecutionConfig gen_ex_executions = Some det_ex_executions"
  by code_simp

lemma det_ex_inputs:
  "gen_parseArchitectureConfig gen_ex_as_int gen_ex_architectures (map ge_id det_ex_executions) = Some det_ex_inputs"
  by code_simp

lemma det_ex_outputs: "gen_generateOutputs det_ex_executions det_ex_inputs = Some gen_ex_tables"
  by code_simp

lemma det_ex_bytes:
  "det_bytes 0x68747541 = ''Auth''" "det_bytes 0x69746E65 = ''enti''" "det_bytes 0x444D4163 = ''cAMD''"
  by (simp_all add: det_bytes_def upt_rec char_of_def bit_0)

lemma det_ex_registers:
  "det_family 0xA60F12 = 25" "det_model 0xA60F12 = 97" "bit (0x10020 :: u32) 5" "bit (0x10020 :: u32) 16"
  "det_toLowerCopy ''AuthenticAMD'' = ''authenticamd''"
  "\<not> det_contains ''intel'' ''authenticamd''" "det_contains ''amd'' ''authenticamd''"
  by code_simp+

lemma det_ex_info:
  "det_ex_info = \<lparr>ci_vendor = ''amd'', ci_family = Some 25, ci_model = Some 97, ci_features = [''avx2'', ''avx512''],
     ci_machine_id = []\<rparr>"
  unfolding det_collectCpuInfo_def det_ex_cpuid_def
  using det_ex_registers by (simp add: det_ex_bytes Let_def det_toLowerCopy_def)


text \<open>The detection of the example finds the entry for Zen 4.\<close>

lemma det_ex_zen4: "det_detectCpuArchitecture gen_ex_tables 0 0 det_ex_info = Inr 1"
proof -
  have cpu: "0 < length det_ex_executions" "ar_fromExecutionAndLocalIndex gen_ex_tables (of_nat 0) 0 = Inr 0"
    by code_simp+
  have "det_firstMatch (det_specMatches det_ex_info) (gen_entriesOf det_ex_inputs det_ex_executions 0) 0 = 1"
    unfolding det_ex_info by code_simp
  with det_first_match[OF det_ex_executions det_ex_inputs det_ex_outputs cpu, of det_ex_info] show ?thesis
    by simp
qed

end
