(* ===== verification/TensorLayout.thy ===== *)
theory TensorLayout
  imports Prelude
begin

text \<open>
  \<open>extension/tensor/layout/dense_tensor_layout.h\<close>: shape, strides and offset of a strided tensor and
  the view operations.  Dimensions are 64-bit signed integers: every product and sum is checked, and
  an overflow, undefined in C++, is the exception value \<open>SignedOverflow\<close>.  The vectors of dimensions
  are lists: they are only built by \<open>assign\<close>, \<open>pushBack\<close> and \<open>resize\<close> of a new vector, for which
  theory \<open>SmallVector\<close> shows that the inline vector is one.  Binding the parameters of a kernel is
  not modelled.
\<close>

section \<open>Layouts\<close>

record dense_layout =
  dl_shape :: "int list"
  dl_strides :: "int list"
  dl_offset :: int

definition dl_validateRankMatch :: "int list \<Rightarrow> int list \<Rightarrow> unit res" where
  "dl_validateRankMatch shape strides =
     (if length shape \<noteq> length strides then throw InvalidParameter else Inr ())"

definition dl_validateShape :: "int list \<Rightarrow> unit res" where
  "dl_validateShape shape = (if \<exists>dim \<in> set shape. dim < 0 then throw InvalidParameter else Inr ())"

definition dl_make :: "int list \<Rightarrow> int list \<Rightarrow> int \<Rightarrow> dense_layout res" where
  "dl_make shape strides offset =
     bindR (dl_validateShape shape) (\<lambda>_.
     bindR (dl_validateRankMatch shape strides) (\<lambda>_.
     Inr \<lparr>dl_shape = shape, dl_strides = strides, dl_offset = offset\<rparr>))"

definition dl_rank :: "dense_layout \<Rightarrow> nat" where
  "dl_rank L = length (dl_shape L)"

primrec dl_numelFrom :: "int \<Rightarrow> int list \<Rightarrow> int res" where
  "dl_numelFrom acc [] = Inr acc"
| "dl_numelFrom acc (dim # dims) =
     (if dim = 0 then Inr 0 else bindR (i64 (acc * dim)) (\<lambda>acc. dl_numelFrom acc dims))"

definition dl_numelOf :: "int list \<Rightarrow> int res" where
  "dl_numelOf shape = dl_numelFrom 1 shape"

definition dl_numel :: "dense_layout \<Rightarrow> int res" where
  "dl_numel L = dl_numelOf (dl_shape L)"

text \<open>The loop from the last dimension to the first: the running stride and the strides so far.\<close>

primrec dl_stridesFrom :: "int list \<Rightarrow> (int \<times> int list) res" where
  "dl_stridesFrom [] = Inr (1, [])"
| "dl_stridesFrom (dim # dims) =
     bindR (dl_stridesFrom dims) (\<lambda>(stride, strides).
     bindR (i64 (stride * dim)) (\<lambda>stride'. Inr (stride', stride # strides)))"

definition dl_makeContiguousStrides :: "int list \<Rightarrow> int list res" where
  "dl_makeContiguousStrides shape = bindR (dl_stridesFrom shape) (\<lambda>(stride, strides). Inr strides)"

definition dl_contiguous :: "int list \<Rightarrow> dense_layout res" where
  "dl_contiguous shape =
     bindR (dl_validateShape shape) (\<lambda>_.
     bindR (dl_makeContiguousStrides shape) (\<lambda>strides. dl_make shape strides 0))"

text \<open>The comparison runs from the last dimension; \<open>None\<close> is the early return with false.\<close>

primrec dl_contiguousFrom :: "(int \<times> int) list \<Rightarrow> int option res" where
  "dl_contiguousFrom [] = Inr (Some 1)"
| "dl_contiguousFrom (ds # rest) =
     bindR (dl_contiguousFrom rest) (\<lambda>e.
     case e of
       None \<Rightarrow> Inr None
     | Some expected \<Rightarrow>
         if snd ds \<noteq> expected then Inr None
         else bindR (i64 (expected * fst ds)) (\<lambda>expected. Inr (Some expected)))"

definition dl_isContiguous :: "dense_layout \<Rightarrow> bool res" where
  "dl_isContiguous L =
     (if dl_shape L = [] then Inr True
      else bindR (dl_contiguousFrom (zip (dl_shape L) (dl_strides L))) (\<lambda>e. Inr (e \<noteq> None)))"

section \<open>Views\<close>

primrec dl_transposeFrom :: "dense_layout \<Rightarrow> nat list \<Rightarrow> nat list \<Rightarrow> (int list \<times> int list) res" where
  "dl_transposeFrom L seen [] = Inr ([], [])"
| "dl_transposeFrom L seen (dim # perm) =
     (if dim \<ge> dl_rank L then throw OutOfRange
      else if dim \<in> set seen then throw InvalidParameter
      else bindR (dl_transposeFrom L (seen @ [dim]) perm) (\<lambda>(shape, strides).
           Inr (dl_shape L ! dim # shape, dl_strides L ! dim # strides)))"

definition dl_transpose :: "dense_layout \<Rightarrow> nat list \<Rightarrow> dense_layout res" where
  "dl_transpose L perm =
     (if length perm \<noteq> dl_rank L then throw InvalidParameter
      else bindR (dl_transposeFrom L [] perm) (\<lambda>(shape, strides). dl_make shape strides (dl_offset L)))"

text \<open>One round of the loop of \<open>slice\<close>: new dimension, new stride, new offset.\<close>

definition dl_sliceDim :: "int \<Rightarrow> int \<Rightarrow> int \<Rightarrow> int \<Rightarrow> int \<Rightarrow> int \<Rightarrow> (int \<times> int \<times> int) res" where
  "dl_sliceDim dim stride start extent step offset =
     (if start < 0 \<or> start > dim then throw OutOfRange
      else if extent < 0 then throw InvalidParameter
      else if step = 0 then throw InvalidParameter
      else
        let move = (\<lambda>n. bindR (i64 (stride * step)) (\<lambda>new_stride.
                        bindR (i64 (start * stride)) (\<lambda>d.
                        bindR (i64 (offset + d)) (\<lambda>new_offset. Inr (n, new_stride, new_offset)))))
        in if extent = 0 then move 0
           else if start \<ge> dim then throw OutOfRange
           else bindR (i64 ((extent - 1) * step)) (\<lambda>d.
                bindR (i64 (start + d)) (\<lambda>final.
                if (if step > 0 then final \<ge> dim else final < 0) then throw OutOfRange
                else move extent)))"

primrec dl_sliceFrom ::
  "(int \<times> int) list \<Rightarrow> int list \<Rightarrow> int list \<Rightarrow> int list \<Rightarrow> int \<Rightarrow> (int list \<times> int list \<times> int) res" where
  "dl_sliceFrom [] starts sizes steps offset = Inr ([], [], offset)"
| "dl_sliceFrom (ds # rest) starts sizes steps offset =
     bindR (dl_sliceDim (fst ds) (snd ds) (hd starts) (hd sizes) (if steps = [] then 1 else hd steps) offset)
       (\<lambda>(n, stride, offset).
     bindR (dl_sliceFrom rest (tl starts) (tl sizes) (tl steps) offset) (\<lambda>(shape, strides, offset).
     Inr (n # shape, stride # strides, offset)))"

definition dl_slice :: "dense_layout \<Rightarrow> int list \<Rightarrow> int list \<Rightarrow> int list \<Rightarrow> dense_layout res" where
  "dl_slice L starts sizes steps =
     (if length starts \<noteq> dl_rank L \<or> length sizes \<noteq> dl_rank L \<or> (steps \<noteq> [] \<and> length steps \<noteq> dl_rank L)
      then throw InvalidParameter
      else bindR (dl_sliceFrom (zip (dl_shape L) (dl_strides L)) starts sizes steps (dl_offset L))
             (\<lambda>(shape, strides, offset). dl_make shape strides offset))"

text \<open>The scan of \<open>reshape\<close>: index of the inferred dimension, known product, whether a zero occurs.\<close>

primrec dl_reshapeScan :: "int list \<Rightarrow> nat \<Rightarrow> nat option \<times> int \<times> bool \<Rightarrow> (nat option \<times> int \<times> bool) res" where
  "dl_reshapeScan [] i s = Inr s"
| "dl_reshapeScan (dim # dims) i s =
     (case s of (inferred, known_product, has_zero) \<Rightarrow>
        if dim = -1
        then if inferred \<noteq> None then throw InvalidParameter
             else dl_reshapeScan dims (Suc i) (Some i, known_product, has_zero)
        else if dim < 0 then throw InvalidParameter
        else if dim = 0 then dl_reshapeScan dims (Suc i) (inferred, known_product, True)
        else bindR (i64 (known_product * dim)) (\<lambda>known_product.
             dl_reshapeScan dims (Suc i) (inferred, known_product, has_zero)))"

definition dl_reshape :: "dense_layout \<Rightarrow> int list \<Rightarrow> dense_layout res" where
  "dl_reshape L new_shape =
     bindR (dl_isContiguous L) (\<lambda>contiguous.
     if \<not> contiguous then throw InvalidState
     else bindR (dl_reshapeScan new_shape 0 (None, 1, False)) (\<lambda>(inferred, known_product, has_zero).
          bindR (dl_numel L) (\<lambda>current.
          bindR (case inferred of
                   None \<Rightarrow>
                     if current \<noteq> (if has_zero then 0 else known_product) then throw InvalidParameter
                     else Inr new_shape
                 | Some i \<Rightarrow>
                     if has_zero then throw InvalidParameter
                     else if current = 0 then throw InvalidParameter
                     else if known_product = 0 \<or> current mod known_product \<noteq> 0 then throw InvalidParameter
                     else Inr (new_shape[i := current div known_product])) (\<lambda>resolved_shape.
          bindR (dl_makeContiguousStrides resolved_shape) (\<lambda>strides.
          dl_make resolved_shape strides (dl_offset L))))))"

text \<open>The loop of \<open>broadcastTo\<close>, both shapes from the last dimension on.\<close>

primrec dl_broadcastRev :: "int list \<Rightarrow> (int \<times> int) list \<Rightarrow> int list res" where
  "dl_broadcastRev [] old = Inr []"
| "dl_broadcastRev (new_dim # dims) old =
     (let old_dim = (case old of [] \<Rightarrow> 1 | ds # _ \<Rightarrow> fst ds);
          old_stride = (case old of [] \<Rightarrow> 0 | ds # _ \<Rightarrow> snd ds)
      in if old_dim = new_dim
         then bindR (dl_broadcastRev dims (tl old)) (\<lambda>strides. Inr (old_stride # strides))
         else if old_dim = 1
         then bindR (dl_broadcastRev dims (tl old)) (\<lambda>strides. Inr (0 # strides))
         else throw InvalidParameter)"

definition dl_broadcastTo :: "dense_layout \<Rightarrow> int list \<Rightarrow> dense_layout res" where
  "dl_broadcastTo L new_shape =
     bindR (dl_validateShape new_shape) (\<lambda>_.
     if length new_shape < dl_rank L then throw InvalidParameter
     else bindR (dl_broadcastRev (rev new_shape) (rev (zip (dl_shape L) (dl_strides L)))) (\<lambda>strides.
          dl_make new_shape (rev strides) (dl_offset L)))"

definition dl_squeeze :: "dense_layout \<Rightarrow> dense_layout res" where
  "dl_squeeze L =
     (let kept = filter (\<lambda>i. dl_shape L ! i \<noteq> 1) [0..<dl_rank L]
      in dl_make (map (\<lambda>i. dl_shape L ! i) kept) (map (\<lambda>i. dl_strides L ! i) kept) (dl_offset L))"

primrec dl_squeezeMark :: "dense_layout \<Rightarrow> nat list \<Rightarrow> bool list \<Rightarrow> bool list res" where
  "dl_squeezeMark L [] remove = Inr remove"
| "dl_squeezeMark L (dim # dims) remove =
     (if dim \<ge> dl_rank L then throw OutOfRange
      else if remove ! dim then throw InvalidParameter
      else if dl_shape L ! dim \<noteq> 1 then throw InvalidParameter
      else dl_squeezeMark L dims (remove[dim := True]))"

definition dl_squeezeDims :: "dense_layout \<Rightarrow> nat list \<Rightarrow> dense_layout res" where
  "dl_squeezeDims L dims =
     bindR (dl_squeezeMark L dims (replicate (dl_rank L) False)) (\<lambda>remove.
     let kept = filter (\<lambda>i. \<not> remove ! i) [0..<dl_rank L]
     in dl_make (map (\<lambda>i. dl_shape L ! i) kept) (map (\<lambda>i. dl_strides L ! i) kept) (dl_offset L))"

definition dl_unsqueeze :: "dense_layout \<Rightarrow> nat \<Rightarrow> dense_layout res" where
  "dl_unsqueeze L dim =
     (if dim > dl_rank L then throw OutOfRange
      else bindR (if dim < dl_rank L then i64 (dl_strides L ! dim * dl_shape L ! dim) else Inr 1) (\<lambda>stride.
           dl_make (take dim (dl_shape L) @ 1 # drop dim (dl_shape L))
             (take dim (dl_strides L) @ stride # drop dim (dl_strides L)) (dl_offset L)))"

section \<open>Indices and addresses\<close>

definition dl_ok :: "dense_layout \<Rightarrow> bool" where
  "dl_ok L \<longleftrightarrow> length (dl_strides L) = length (dl_shape L) \<and> (\<forall>d \<in> set (dl_shape L). 0 \<le> d)"

definition dl_inBounds :: "int list \<Rightarrow> int list \<Rightarrow> bool" where
  "dl_inBounds shape idx \<longleftrightarrow> list_all2 (\<lambda>i d. 0 \<le> i \<and> i < d) idx shape"

definition dl_dot :: "int list \<Rightarrow> int list \<Rightarrow> int" where
  "dl_dot idx strides = sum_list (map2 (*) idx strides)"

text \<open>The element that an index addresses, counted from the start of the buffer.\<close>

definition dl_address :: "dense_layout \<Rightarrow> int list \<Rightarrow> int" where
  "dl_address L idx = dl_offset L + dl_dot idx (dl_strides L)"

text \<open>The position of an index in row-major order.\<close>

primrec dl_position :: "int list \<Rightarrow> int list \<Rightarrow> int" where
  "dl_position [] idx = 0"
| "dl_position (d # ds) idx = hd idx * prod_list ds + dl_position ds (tl idx)"

lemma dl_inBounds_simps [simp]:
  "dl_inBounds [] idx \<longleftrightarrow> idx = []"
  "dl_inBounds (d # ds) (i # idx) \<longleftrightarrow> 0 \<le> i \<and> i < d \<and> dl_inBounds ds idx"
  "\<not> dl_inBounds (d # ds) []"
  by (auto simp: dl_inBounds_def)

lemma dl_inBounds_Cons: "dl_inBounds (d # ds) idx \<longleftrightarrow> (\<exists>i is. idx = i # is \<and> 0 \<le> i \<and> i < d \<and> dl_inBounds ds is)"
  by (cases idx) auto

lemma dl_inBounds_nth:
  "dl_inBounds shape idx \<longleftrightarrow> length idx = length shape \<and> (\<forall>k < length shape. 0 \<le> idx ! k \<and> idx ! k < shape ! k)"
  by (auto simp: dl_inBounds_def list_all2_conv_all_nth)

lemma dl_inBounds_append:
  "length idx1 = length sh1 \<Longrightarrow> dl_inBounds (sh1 @ sh2) (idx1 @ idx2) \<longleftrightarrow> dl_inBounds sh1 idx1 \<and> dl_inBounds sh2 idx2"
  by (simp add: dl_inBounds_def list_all2_append)

lemma dl_inBounds_rev: "dl_inBounds (rev shape) (rev idx) \<longleftrightarrow> dl_inBounds shape idx"
  by (simp add: dl_inBounds_def)

lemma dl_dot_simps [simp]:
  "dl_dot [] strides = 0" "dl_dot idx [] = 0" "dl_dot (i # idx) (s # strides) = i * s + dl_dot idx strides"
  by (simp_all add: dl_dot_def)

lemma dl_dot_append: "length a = length b \<Longrightarrow> dl_dot (a @ a') (b @ b') = dl_dot a b + dl_dot a' b'"
  by (simp add: dl_dot_def)

lemma dl_dot_rev: "length a = length b \<Longrightarrow> dl_dot (rev a) (rev b) = dl_dot a b"
  by (simp add: dl_dot_def zip_rev rev_map[symmetric] sum_list_rev)

lemma dl_dot_sum: "length a = length b \<Longrightarrow> dl_dot a b = (\<Sum>k<length b. a ! k * b ! k)"
  by (simp add: dl_dot_def sum_list_sum_nth lessThan_atLeast0)

lemma dl_make_Inr_iff:
  "dl_make shape strides offset = Inr L \<longleftrightarrow>
     L = \<lparr>dl_shape = shape, dl_strides = strides, dl_offset = offset\<rparr> \<and> length strides = length shape \<and>
     (\<forall>d \<in> set shape. 0 \<le> d)"
  by (fastforce simp: dl_make_def dl_validateShape_def dl_validateRankMatch_def not_le split: if_splits)

lemma dl_make_ok: "dl_make shape strides offset = Inr L \<Longrightarrow> dl_ok L"
  by (auto simp: dl_make_Inr_iff dl_ok_def)

section \<open>Row-major strides\<close>

lemma dl_numelFrom_prod: "dl_numelFrom acc shape = Inr n \<Longrightarrow> n = acc * prod_list shape"
  by (induction shape arbitrary: acc) (fastforce simp: bindR_Inr_iff mult.assoc split: if_splits)+

lemma dl_stridesFrom_prod: "dl_stridesFrom shape = Inr (n, strides) \<Longrightarrow> n = prod_list shape \<and> length strides = length shape"
  by (induction shape arbitrary: n strides) (auto simp: bindR_Inr_iff)

lemma dl_contiguousFrom_strides:
  "length strides = length shape \<Longrightarrow> dl_contiguousFrom (zip shape strides) = Inr (Some e) \<Longrightarrow>
   dl_stridesFrom shape = Inr (e, strides)"
proof (induction shape arbitrary: strides e)
  case (Cons d ds)
  then obtain s ss where strides: "strides = s # ss" "length ss = length ds"
    by (cases strides) auto
  with Cons.prems(2) obtain e' where "dl_contiguousFrom (zip ds ss) = Inr (Some e')" "s = e'" "i64 (e' * d) = Inr e"
    by (auto simp: bindR_Inr_iff split: option.splits if_splits)
  with Cons.IH[OF strides(2)] strides show ?case
    by (simp add: bindR_Inr_iff)
qed simp

lemma dl_isContiguous_strides:
  assumes "dl_ok L" and "dl_isContiguous L = Inr True"
  shows "\<exists>n. dl_stridesFrom (dl_shape L) = Inr (n, dl_strides L)"
  using assms dl_contiguousFrom_strides[of "dl_strides L" "dl_shape L"]
  by (auto simp: dl_isContiguous_def dl_ok_def bindR_Inr_iff split: if_splits)

lemma dl_strides_isContiguous:
  assumes "dl_stridesFrom shape = Inr (n, strides)"
  shows "dl_contiguousFrom (zip shape strides) = Inr (Some n)"
  using assms
proof (induction shape arbitrary: n strides)
  case (Cons d ds)
  then show ?case
    by (auto simp: bindR_Inr_iff)
qed simp

lemma dl_prod_nonneg: "\<forall>d \<in> set shape. 0 \<le> d \<Longrightarrow> 0 \<le> prod_list (shape :: int list)"
  by (induction shape) auto

lemma dl_dot_position:
  "dl_stridesFrom shape = Inr (n, strides) \<Longrightarrow> dl_inBounds shape idx \<Longrightarrow> dl_dot idx strides = dl_position shape idx"
proof (induction shape arbitrary: n strides idx)
  case (Cons d ds)
  then obtain m ss where m: "dl_stridesFrom ds = Inr (m, ss)" "strides = m # ss"
    by (auto simp: bindR_Inr_iff)
  moreover obtain i "is" where "idx = i # is" "dl_inBounds ds is"
    using Cons.prems(2) by (auto simp: dl_inBounds_Cons)
  ultimately show ?case
    using Cons.IH dl_stridesFrom_prod[OF m(1)] by simp
qed simp

text \<open>Row-major positions number the indices of a shape: they are a bijection onto an interval.\<close>

lemma dl_position_bounds: "dl_inBounds shape idx \<Longrightarrow> 0 \<le> dl_position shape idx \<and> dl_position shape idx < prod_list shape"
proof (induction shape arbitrary: idx)
  case (Cons d ds)
  then obtain i "is" where idx: "idx = i # is" "0 \<le> i" "i < d" "dl_inBounds ds is"
    by (auto simp: dl_inBounds_Cons)
  note b = Cons.IH[OF idx(4)]
  have "i * prod_list ds + prod_list ds \<le> d * prod_list ds"
    using idx(3) b mult_right_mono[of "i + 1" d "prod_list ds"] by (simp add: distrib_right)
  with b idx show ?case by simp
qed simp

lemma dl_position_inj:
  "dl_inBounds shape idx \<Longrightarrow> dl_inBounds shape idx' \<Longrightarrow> dl_position shape idx = dl_position shape idx' \<Longrightarrow> idx = idx'"
proof (induction shape arbitrary: idx idx')
  case (Cons d ds)
  then obtain i "is" i' is' where idx: "idx = i # is" "dl_inBounds ds is" "idx' = i' # is'" "dl_inBounds ds is'"
    by (auto simp: dl_inBounds_Cons)
  note b = dl_position_bounds[OF idx(2)] dl_position_bounds[OF idx(4)]
  have "i * prod_list ds + dl_position ds is = i' * prod_list ds + dl_position ds is'"
    using Cons.prems(3) idx by simp
  then have "(i * prod_list ds + dl_position ds is) div prod_list ds = (i' * prod_list ds + dl_position ds is') div prod_list ds"
    "(i * prod_list ds + dl_position ds is) mod prod_list ds = (i' * prod_list ds + dl_position ds is') mod prod_list ds"
    by simp_all
  then have "i = i'" "dl_position ds is = dl_position ds is'"
    using b by (simp_all add: div_pos_pos_trivial mod_pos_pos_trivial)
  with Cons.IH idx show ?case by simp
qed simp

lemma dl_position_surj:
  "\<forall>d \<in> set shape. 0 \<le> d \<Longrightarrow> 0 \<le> k \<Longrightarrow> k < prod_list shape \<Longrightarrow> \<exists>idx. dl_inBounds shape idx \<and> dl_position shape idx = k"
proof (induction shape arbitrary: k)
  case (Cons d ds)
  let ?p = "prod_list ds"
  have p: "0 < ?p"
    using Cons.prems dl_prod_nonneg[of ds] by (cases "?p = 0") auto
  obtain "is" where "is": "dl_inBounds ds is" "dl_position ds is = k mod ?p"
    using Cons.IH[of "k mod ?p"] Cons.prems(1) p by auto
  have "k div ?p < d"
  proof (rule ccontr)
    assume "\<not> k div ?p < d"
    then have "d * ?p \<le> k div ?p * ?p"
      using p by (intro mult_right_mono) auto
    also have "\<dots> \<le> k"
      using p by (simp add: minus_mod_eq_div_mult[symmetric])
    finally show False using Cons.prems(3) by simp
  qed
  moreover have "0 \<le> k div ?p"
    using Cons.prems p by (simp add: pos_imp_zdiv_nonneg_iff)
  ultimately show ?case
    using "is" by (intro exI[of _ "k div ?p # is"]) simp
qed simp

section \<open>Picking dimensions: transposition and squeezing\<close>

text \<open>
  The result of picking the dimensions \<open>ks\<close>: distinct ones, and those left out have one element.
\<close>

definition dl_picks :: "dense_layout \<Rightarrow> nat list \<Rightarrow> dense_layout \<Rightarrow> bool" where
  "dl_picks L ks R \<longleftrightarrow>
     distinct ks \<and> (\<forall>k \<in> set ks. k < dl_rank L) \<and> (\<forall>d < dl_rank L. d \<notin> set ks \<longrightarrow> dl_shape L ! d = 1) \<and>
     R = \<lparr>dl_shape = map (\<lambda>k. dl_shape L ! k) ks, dl_strides = map (\<lambda>k. dl_strides L ! k) ks, dl_offset = dl_offset L\<rparr>"

lemma dl_picks_address:
  assumes "dl_ok L" and "dl_picks L ks R" and "dl_inBounds (dl_shape L) jdx"
  shows "dl_inBounds (dl_shape R) (map (\<lambda>k. jdx ! k) ks)" and "dl_address R (map (\<lambda>k. jdx ! k) ks) = dl_address L jdx"
proof -
  note P = assms(2)[unfolded dl_picks_def]
  have n: "length jdx = dl_rank L" "length (dl_strides L) = dl_rank L"
    using assms(1,3) by (simp_all add: dl_ok_def dl_rank_def dl_inBounds_nth)
  show "dl_inBounds (dl_shape R) (map (\<lambda>k. jdx ! k) ks)"
    using P assms(3) by (auto simp: dl_inBounds_nth dl_rank_def)
  have zero: "jdx ! d = 0" if "d < dl_rank L" "d \<notin> set ks" for d
    using that P assms(3) by (fastforce simp: dl_inBounds_nth dl_rank_def)
  have "dl_dot (map (\<lambda>k. jdx ! k) ks) (dl_strides R) = sum_list (map (\<lambda>k. jdx ! k * dl_strides L ! k) ks)"
    using P by (simp add: dl_dot_def zip_map_map) (simp add: zip_same_conv_map comp_def)
  also have "\<dots> = (\<Sum>k \<in> set ks. jdx ! k * dl_strides L ! k)"
    using P by (simp add: sum_list_distinct_conv_sum_set)
  also have "\<dots> = (\<Sum>k < dl_rank L. jdx ! k * dl_strides L ! k)"
    using P zero by (intro sum.mono_neutral_left) auto
  also have "\<dots> = dl_dot jdx (dl_strides L)"
    using n by (simp add: dl_dot_sum)
  finally show "dl_address R (map (\<lambda>k. jdx ! k) ks) = dl_address L jdx"
    using P by (simp add: dl_address_def)
qed

text \<open>The index in the original of an index of the picked dimensions: 0 in the dimensions left out.\<close>

definition dl_pickPos :: "dense_layout \<Rightarrow> nat list \<Rightarrow> int list \<Rightarrow> int list" where
  "dl_pickPos L ks idx = map (\<lambda>d. case map_of (zip ks idx) d of None \<Rightarrow> 0 | Some x \<Rightarrow> x) [0..<dl_rank L]"

lemma dl_pickPos_picks:
  assumes "dl_ok L" and "dl_picks L ks R" and "dl_inBounds (dl_shape R) idx"
  shows "dl_inBounds (dl_shape L) (dl_pickPos L ks idx)" and "idx = map (\<lambda>k. dl_pickPos L ks idx ! k) ks"
proof -
  note P = assms(2)[unfolded dl_picks_def]
  have len: "length idx = length ks"
    using assms(3) P by (simp add: dl_inBounds_nth)
  define jdx where "jdx = dl_pickPos L ks idx"
  note jdx_def' = jdx_def[unfolded dl_pickPos_def]
  have at: "jdx ! (ks ! k) = idx ! k" if "k < length ks" for k
    using that P len map_of_zip_nth[of ks idx k] by (simp add: jdx_def')
  have "0 \<le> jdx ! d \<and> jdx ! d < dl_shape L ! d" if "d < dl_rank L" for d
  proof (cases "d \<in> set ks")
    case True
    then obtain k where "k < length ks" "d = ks ! k" by (auto simp: in_set_conv_nth)
    with at[of k] assms(3) P show ?thesis by (simp add: dl_inBounds_nth)
  next
    case False
    then have "map_of (zip ks idx) d = None"
      using len by (simp add: map_of_zip_is_None)
    with that False P show ?thesis by (simp add: jdx_def')
  qed
  then show "dl_inBounds (dl_shape L) (dl_pickPos L ks idx)"
    by (simp add: dl_inBounds_nth jdx_def' dl_rank_def flip: jdx_def)
  show "idx = map (\<lambda>k. dl_pickPos L ks idx ! k) ks"
    using at len by (simp add: nth_equalityI flip: jdx_def)
qed

lemma dl_transposeFrom_picks:
  "dl_transposeFrom L seen perm = Inr (shape, strides) \<Longrightarrow> distinct seen \<Longrightarrow>
   shape = map (\<lambda>k. dl_shape L ! k) perm \<and> strides = map (\<lambda>k. dl_strides L ! k) perm \<and>
   distinct (seen @ perm) \<and> (\<forall>k \<in> set perm. k < dl_rank L)"
proof (induction perm arbitrary: seen shape strides)
  case (Cons dim perm)
  then obtain sh st where step: "dl_transposeFrom L (seen @ [dim]) perm = Inr (sh, st)" "dim < dl_rank L" "dim \<notin> set seen"
    "shape = dl_shape L ! dim # sh" "strides = dl_strides L ! dim # st"
    by (auto simp: bindR_Inr_iff split: if_splits)
  with Cons.IH[OF step(1)] Cons.prems(2) show ?case by auto
qed simp

lemma dl_transpose_picks:
  assumes "dl_ok L" and "dl_transpose L perm = Inr R"
  shows "dl_picks L perm R" and "set perm = {..<dl_rank L}"
proof -
  have P: "length perm = dl_rank L" "distinct perm" "\<forall>k \<in> set perm. k < dl_rank L"
    "R = \<lparr>dl_shape = map (\<lambda>k. dl_shape L ! k) perm, dl_strides = map (\<lambda>k. dl_strides L ! k) perm, dl_offset = dl_offset L\<rparr>"
    using assms(2) dl_transposeFrom_picks[of L "[]" perm]
    by (auto simp: dl_transpose_def bindR_Inr_iff dl_make_Inr_iff split: if_splits)
  have "set perm \<subseteq> {..<dl_rank L}" "card (set perm) = card {..<dl_rank L}"
    using P by (auto simp: distinct_card)
  then show "set perm = {..<dl_rank L}"
    by (metis card_subset_eq finite_lessThan)
  with P show "dl_picks L perm R"
    by (auto simp: dl_picks_def)
qed

lemma dl_squeeze_picks:
  assumes "dl_squeeze L = Inr R"
  shows "dl_picks L (filter (\<lambda>i. dl_shape L ! i \<noteq> 1) [0..<dl_rank L]) R"
  using assms by (auto simp: dl_squeeze_def dl_picks_def dl_make_Inr_iff Let_def)

lemma dl_squeezeMark_sound:
  "dl_squeezeMark L dims remove = Inr remove' \<Longrightarrow> length remove = dl_rank L \<Longrightarrow>
   length remove' = dl_rank L \<and> (\<forall>i < dl_rank L. remove' ! i \<longleftrightarrow> remove ! i \<or> i \<in> set dims) \<and>
   (\<forall>i \<in> set dims. i < dl_rank L \<and> dl_shape L ! i = 1)"
proof (induction dims arbitrary: remove)
  case (Cons dim dims)
  then have step: "dim < dl_rank L" "dl_shape L ! dim = 1" "dl_squeezeMark L dims (remove[dim := True]) = Inr remove'"
    by (auto split: if_splits)
  with Cons.IH[OF step(3)] Cons.prems(2) show ?case
    by (auto simp: nth_list_update)
qed simp

lemma dl_squeezeDims_picks:
  assumes "dl_squeezeDims L dims = Inr R"
  shows "dl_picks L (filter (\<lambda>i. i \<notin> set dims) [0..<dl_rank L]) R"
proof -
  obtain remove where mark: "dl_squeezeMark L dims (replicate (dl_rank L) False) = Inr remove"
    and R: "dl_make (map (\<lambda>i. dl_shape L ! i) (filter (\<lambda>i. \<not> remove ! i) [0..<dl_rank L]))
      (map (\<lambda>i. dl_strides L ! i) (filter (\<lambda>i. \<not> remove ! i) [0..<dl_rank L])) (dl_offset L) = Inr R"
    using assms by (auto simp: dl_squeezeDims_def bindR_Inr_iff Let_def)
  have "filter (\<lambda>i. \<not> remove ! i) [0..<dl_rank L] = filter (\<lambda>i. i \<notin> set dims) [0..<dl_rank L]"
    using dl_squeezeMark_sound[OF mark] by (intro filter_cong) auto
  with R dl_squeezeMark_sound[OF mark] show ?thesis
    by (auto simp: dl_picks_def dl_make_Inr_iff)
qed

section \<open>Slicing\<close>

text \<open>The index in the sliced layout of an index of the slice.\<close>

primrec dl_slicePos :: "int list \<Rightarrow> int list \<Rightarrow> int list \<Rightarrow> int list" where
  "dl_slicePos [] steps idx = []"
| "dl_slicePos (start # starts) steps idx =
     (start + hd idx * (if steps = [] then 1 else hd steps)) # dl_slicePos starts (tl steps) (tl idx)"

lemma dl_sliceDim_Inr:
  assumes "dl_sliceDim dim stride start extent step offset = Inr (n, new_stride, new_offset)"
  shows "n = extent" and "0 \<le> n" and "new_stride = stride * step" and "new_offset = offset + start * stride"
    and "0 \<le> i \<Longrightarrow> i < n \<Longrightarrow> 0 \<le> start + i * step \<and> start + i * step < dim"
proof -
  show basic: "n = extent" "0 \<le> n" "new_stride = stride * step" "new_offset = offset + start * stride"
    using assms by (auto simp: dl_sliceDim_def bindR_Inr_iff Let_def split: if_splits)
  show "0 \<le> start + i * step \<and> start + i * step < dim" if i: "0 \<le> i" "i < n"
  proof -
    have b: "0 \<le> start" "start < dim" "step > 0 \<Longrightarrow> start + (extent - 1) * step < dim"
      "step \<noteq> 0" "step < 0 \<Longrightarrow> 0 \<le> start + (extent - 1) * step"
      using assms i by (auto simp: dl_sliceDim_def bindR_Inr_iff Let_def split: if_splits)
    show ?thesis
    proof (cases "step > 0")
      case True
      then have "0 \<le> i * step" "i * step \<le> (extent - 1) * step"
        using i basic(1) mult_right_mono[of i "extent - 1" step] by simp_all
      with b(1) b(3)[OF True] show ?thesis by linarith
    next
      case False
      then have "i * step \<le> 0" "(extent - 1) * step \<le> i * step"
        using i basic(1) mult_right_mono_neg[of i "extent - 1" step] by (simp_all add: mult_nonneg_nonpos)
      moreover have "step < 0"
        using False b(4) by simp
      ultimately show ?thesis
        using b(2) b(5) by linarith
    qed
  qed
qed

lemma dl_sliceFrom_address:
  "dl_sliceFrom ds starts sizes steps offset = Inr (shape, strides, offset') \<Longrightarrow>
   length starts = length ds \<Longrightarrow> length sizes = length ds \<Longrightarrow> steps = [] \<or> length steps = length ds \<Longrightarrow>
   shape = sizes \<and> length strides = length ds \<and> (\<forall>d \<in> set shape. 0 \<le> d) \<and>
   (dl_inBounds shape idx \<longrightarrow> dl_inBounds (map fst ds) (dl_slicePos starts steps idx) \<and>
      offset' + dl_dot idx strides = offset + dl_dot (dl_slicePos starts steps idx) (map snd ds))"
proof (induction ds arbitrary: starts sizes steps offset shape strides idx)
  case (Cons d ds)
  obtain st starts' where starts: "starts = st # starts'" "length starts' = length ds"
    using Cons.prems(2) by (cases starts) auto
  obtain sz sizes' where sizes: "sizes = sz # sizes'" "length sizes' = length ds"
    using Cons.prems(3) by (cases sizes) auto
  let ?step = "if steps = [] then 1 else hd steps"
  obtain n s off1 sh ss where step: "dl_sliceDim (fst d) (snd d) st sz ?step offset = Inr (n, s, off1)"
    "dl_sliceFrom ds starts' sizes' (tl steps) off1 = Inr (sh, ss, offset')" "shape = n # sh" "strides = s # ss"
    using Cons.prems(1) starts(1) sizes(1) by (auto simp: bindR_Inr_iff)
  have steps: "tl steps = [] \<or> length (tl steps) = length ds"
    using Cons.prems(4) by auto
  note D = dl_sliceDim_Inr[OF step(1)]
  have IH: "sh = sizes' \<and> length ss = length ds \<and> (\<forall>d \<in> set sh. 0 \<le> d) \<and>
     (dl_inBounds sh is \<longrightarrow> dl_inBounds (map fst ds) (dl_slicePos starts' (tl steps) is) \<and>
      offset' + dl_dot is ss = off1 + dl_dot (dl_slicePos starts' (tl steps) is) (map snd ds))" for "is"
    by (rule Cons.IH[OF step(2) starts(2) sizes(2) steps])
  have "dl_inBounds (map fst (d # ds)) (dl_slicePos starts steps idx) \<and>
      offset' + dl_dot idx strides = offset + dl_dot (dl_slicePos starts steps idx) (map snd (d # ds))"
    if b: "dl_inBounds shape idx"
  proof -
    obtain i "is" where idx: "idx = i # is" "0 \<le> i" "i < n" "dl_inBounds sh is"
      using b step(3) by (auto simp: dl_inBounds_Cons)
    from IH[of "is"] D(5)[OF idx(2,3)] idx(1,4) show ?thesis
      by (auto simp: starts(1) step(4) D(3,4) algebra_simps)
  qed
  with IH D(1,2) step(3,4) sizes(1) show ?case
    by auto
qed simp

lemma dl_slice_address:
  assumes "dl_ok L" and "dl_slice L starts sizes steps = Inr R"
  shows "dl_shape R = sizes" and "dl_inBounds sizes idx \<Longrightarrow>
    dl_inBounds (dl_shape L) (dl_slicePos starts steps idx) \<and> dl_address R idx = dl_address L (dl_slicePos starts steps idx)"
proof -
  have len: "length starts = length (zip (dl_shape L) (dl_strides L))" "length sizes = length (zip (dl_shape L) (dl_strides L))"
    "steps = [] \<or> length steps = length (zip (dl_shape L) (dl_strides L))"
    using assms by (auto simp: dl_slice_def dl_rank_def dl_ok_def split: if_splits)
  obtain shape strides offset where R: "dl_sliceFrom (zip (dl_shape L) (dl_strides L)) starts sizes steps (dl_offset L) = Inr (shape, strides, offset)"
    "R = \<lparr>dl_shape = shape, dl_strides = strides, dl_offset = offset\<rparr>"
    using assms(2) by (auto simp: dl_slice_def bindR_Inr_iff dl_make_Inr_iff split: if_splits)
  from dl_sliceFrom_address[OF R(1) len] assms(1) R(2)
  show "dl_shape R = sizes" "dl_inBounds sizes idx \<Longrightarrow>
    dl_inBounds (dl_shape L) (dl_slicePos starts steps idx) \<and> dl_address R idx = dl_address L (dl_slicePos starts steps idx)"
    by (auto simp: dl_address_def dl_ok_def)
qed

section \<open>Broadcasting, unsqueezing, reshaping\<close>

text \<open>
  The index in the original layout of an index of the broadcast one, both from the last dimension on:
  a stretched dimension is read at 0.
\<close>

primrec dl_broadcastPosRev :: "int list \<Rightarrow> int list \<Rightarrow> int list \<Rightarrow> int list" where
  "dl_broadcastPosRev [] dims idx = []"
| "dl_broadcastPosRev (old # olds) dims idx =
     (if old = hd dims then hd idx else 0) # dl_broadcastPosRev olds (tl dims) (tl idx)"

definition dl_broadcastPos :: "int list \<Rightarrow> int list \<Rightarrow> int list \<Rightarrow> int list" where
  "dl_broadcastPos old new idx = rev (dl_broadcastPosRev (rev old) (rev new) (rev idx))"

lemma dl_broadcastRev_address:
  "dl_broadcastRev dims old = Inr strides \<Longrightarrow> length old \<le> length dims \<Longrightarrow>
   length strides = length dims \<and>
   (dl_inBounds dims idx \<longrightarrow> dl_inBounds (map fst old) (dl_broadcastPosRev (map fst old) dims idx) \<and>
      dl_dot idx strides = dl_dot (dl_broadcastPosRev (map fst old) dims idx) (map snd old))"
proof (induction dims arbitrary: old strides idx)
  case (Cons n dims)
  show ?case
  proof (cases old)
    case Nil
    obtain ss where ss: "dl_broadcastRev dims [] = Inr ss" "strides = 0 # ss"
      using Cons.prems(1) Nil by (auto simp: bindR_Inr_iff split: if_splits)
    with Cons.IH[OF ss(1)] Nil show ?thesis
      by (auto simp: dl_inBounds_Cons)
  next
    case (Cons d ds)
    obtain ss where ss: "dl_broadcastRev dims ds = Inr ss"
      "fst d = n \<and> strides = snd d # ss \<or> fst d \<noteq> n \<and> fst d = 1 \<and> strides = 0 # ss"
      using Cons.prems(1) Cons by (auto simp: bindR_Inr_iff Let_def split: if_splits)
    have "length ds \<le> length dims"
      using Cons.prems(2) Cons by simp
    from Cons.IH[OF ss(1) this] ss(2) Cons show ?thesis
      by (auto simp: dl_inBounds_Cons)
  qed
qed simp

lemma dl_broadcast_address:
  assumes "dl_ok L" and "dl_broadcastTo L new = Inr R"
  shows "dl_shape R = new" and "dl_inBounds new idx \<Longrightarrow>
    dl_inBounds (dl_shape L) (dl_broadcastPos (dl_shape L) new idx) \<and>
    dl_address R idx = dl_address L (dl_broadcastPos (dl_shape L) new idx)"
proof -
  let ?old = "rev (zip (dl_shape L) (dl_strides L))"
  have ok: "length (dl_strides L) = length (dl_shape L)"
    using assms(1) by (simp add: dl_ok_def)
  then have old: "map fst ?old = rev (dl_shape L)" "map snd ?old = rev (dl_strides L)"
    by (simp_all add: rev_map[symmetric])
  obtain ss where ss: "dl_broadcastRev (rev new) ?old = Inr ss" "dl_rank L \<le> length new"
    and R: "R = \<lparr>dl_shape = new, dl_strides = rev ss, dl_offset = dl_offset L\<rparr>"
    using assms(2) by (auto simp: dl_broadcastTo_def bindR_Inr_iff dl_make_Inr_iff not_less split: if_splits)
  show "dl_shape R = new"
    by (simp add: R)
  assume idx: "dl_inBounds new idx"
  let ?pos = "dl_broadcastPosRev (rev (dl_shape L)) (rev new) (rev idx)"
  have "length ss = length (rev new) \<and> dl_inBounds (rev (dl_shape L)) ?pos \<and>
      dl_dot (rev idx) ss = dl_dot ?pos (rev (dl_strides L))"
    using dl_broadcastRev_address[OF ss(1), of "rev idx", unfolded old] idx ss(2) ok
    by (simp add: dl_rank_def dl_inBounds_rev)
  then have A: "length ss = length new" "dl_inBounds (rev (dl_shape L)) ?pos" "dl_dot (rev idx) ss = dl_dot ?pos (rev (dl_strides L))"
    by simp_all
  have "length idx = length new" "length ?pos = length (dl_strides L)"
    using idx A(2) ok by (simp_all add: dl_inBounds_nth)
  then have "dl_dot idx (rev ss) = dl_dot (rev ?pos) (dl_strides L)"
    using A(1,3) dl_dot_rev[of "rev idx" ss] dl_dot_rev[of ?pos "rev (dl_strides L)"] by simp
  with A(2) show "dl_inBounds (dl_shape L) (dl_broadcastPos (dl_shape L) new idx) \<and>
    dl_address R idx = dl_address L (dl_broadcastPos (dl_shape L) new idx)"
    using dl_inBounds_rev[of "dl_shape L" "rev ?pos"] by (simp add: R dl_address_def dl_broadcastPos_def)
qed

lemma dl_unsqueeze_address:
  assumes "dl_ok L" and "dl_unsqueeze L d = Inr R"
  shows "d \<le> dl_rank L" and "dl_shape R = take d (dl_shape L) @ 1 # drop d (dl_shape L)"
    and "dl_inBounds (dl_shape R) idx \<longleftrightarrow> (\<exists>jdx. idx = take d jdx @ 0 # drop d jdx \<and> dl_inBounds (dl_shape L) jdx)"
    and "dl_inBounds (dl_shape L) jdx \<Longrightarrow> dl_address R (take d jdx @ 0 # drop d jdx) = dl_address L jdx"
proof -
  have ok: "length (dl_strides L) = length (dl_shape L)"
    using assms(1) by (simp add: dl_ok_def)
  obtain s where d: "d \<le> length (dl_shape L)" and R: "R = \<lparr>dl_shape = take d (dl_shape L) @ 1 # drop d (dl_shape L),
      dl_strides = take d (dl_strides L) @ s # drop d (dl_strides L), dl_offset = dl_offset L\<rparr>"
    using assms(2) by (auto simp: dl_unsqueeze_def bindR_Inr_iff dl_make_Inr_iff dl_rank_def split: if_splits)
  show "d \<le> dl_rank L" "dl_shape R = take d (dl_shape L) @ 1 # drop d (dl_shape L)"
    using d by (simp_all add: R dl_rank_def)
  have shape: "dl_inBounds (take d (dl_shape L) @ drop d (dl_shape L)) jdx \<longleftrightarrow> dl_inBounds (dl_shape L) jdx" for jdx
    by simp
  have split: "dl_inBounds (dl_shape L) jdx \<longleftrightarrow> dl_inBounds (take d (dl_shape L)) (take d jdx) \<and> dl_inBounds (drop d (dl_shape L)) (drop d jdx)"
    for jdx
  proof (cases "length jdx = length (dl_shape L)")
    case True
    then have "length (take d jdx) = length (take d (dl_shape L))" by simp
    from dl_inBounds_append[OF this, of "drop d (dl_shape L)" "drop d jdx"] show ?thesis
      by simp
  next
    case False
    then show ?thesis
      using d by (auto simp: dl_inBounds_nth)
  qed
  show "dl_inBounds (dl_shape R) idx \<longleftrightarrow> (\<exists>jdx. idx = take d jdx @ 0 # drop d jdx \<and> dl_inBounds (dl_shape L) jdx)"
  proof
    assume b: "dl_inBounds (dl_shape R) idx"
    then have len: "length idx = Suc (length (dl_shape L))"
      using d by (simp add: R dl_inBounds_nth)
    define us where "us = take d idx"
    obtain i "is" where drop: "drop d idx = i # is"
      using len d by (cases "drop d idx") auto
    have idx: "idx = us @ i # is" "length us = d"
      using len d by (simp_all add: us_def flip: drop)
    then have "length us = length (take d (dl_shape L))"
      using d by simp
    from dl_inBounds_append[OF this, of "1 # drop d (dl_shape L)" "i # is"] b idx
    have bb: "dl_inBounds (take d (dl_shape L)) us" "i = 0" "dl_inBounds (drop d (dl_shape L)) is"
      by (auto simp: R)
    have "take d (us @ is) = us" "drop d (us @ is) = is"
      using idx(2) by simp_all
    with bb idx split[of "us @ is"] show "\<exists>jdx. idx = take d jdx @ 0 # drop d jdx \<and> dl_inBounds (dl_shape L) jdx"
      by (intro exI[of _ "us @ is"]) simp
  next
    assume "\<exists>jdx. idx = take d jdx @ 0 # drop d jdx \<and> dl_inBounds (dl_shape L) jdx"
    then obtain jdx where j: "idx = take d jdx @ 0 # drop d jdx" "dl_inBounds (dl_shape L) jdx" by blast
    then have "length (take d jdx) = length (take d (dl_shape L))"
      by (simp add: dl_inBounds_nth)
    from dl_inBounds_append[OF this, of "1 # drop d (dl_shape L)" "0 # drop d jdx"] j split[of jdx]
    show "dl_inBounds (dl_shape R) idx" by (simp add: R)
  qed
  show "dl_address R (take d jdx @ 0 # drop d jdx) = dl_address L jdx" if b: "dl_inBounds (dl_shape L) jdx"
  proof -
    have len: "length (take d jdx) = length (take d (dl_strides L))"
      using b ok by (simp add: dl_inBounds_nth)
    show ?thesis
      using dl_dot_append[OF len, of "0 # drop d jdx" "s # drop d (dl_strides L)"]
        dl_dot_append[OF len, of "drop d jdx" "drop d (dl_strides L)"]
      by (simp add: R dl_address_def)
  qed
qed

text \<open>The dimensions a reshape resolves to multiply to the current number of elements.\<close>

lemma dl_reshapeScan_sound:
  assumes "dl_reshapeScan dims i (q, p, z) = Inr (q', p', z')"
  shows "z' = (z \<or> 0 \<in> set dims) \<and> p' = p * prod_list (filter (\<lambda>d. d \<noteq> 0 \<and> d \<noteq> -1) dims) \<and>
    (\<forall>d \<in> set dims. d = -1 \<or> 0 \<le> d) \<and>
    (q' = q \<and> -1 \<notin> set dims \<or>
     q = None \<and> (\<exists>us vs. dims = us @ -1 # vs \<and> q' = Some (i + length us) \<and> -1 \<notin> set us \<and> -1 \<notin> set vs))"
  using assms
proof (induction dims arbitrary: i q p z)
  case (Cons d dims)
  consider (minus) "d = -1" "q = None" "dl_reshapeScan dims (Suc i) (Some i, p, z) = Inr (q', p', z')"
    | (zero) "d = 0" "dl_reshapeScan dims (Suc i) (q, p, True) = Inr (q', p', z')"
    | (pos) "0 < d" "dl_reshapeScan dims (Suc i) (q, p * d, z) = Inr (q', p', z')"
    using Cons.prems by (auto simp: bindR_Inr_iff split: if_splits)
  then show ?case
  proof cases
    case minus
    with Cons.IH[OF minus(3)] show ?thesis
      by (auto intro: exI[of _ "[]"])
  next
    case zero
    from Cons.IH[OF zero(2)] zero(1) show ?thesis
      by (fastforce intro: exI[of _ "0 # _"])
  next
    case pos
    from Cons.IH[OF pos(2)] pos(1) show ?thesis
      by (fastforce intro: exI[of _ "d # _"] simp: mult.assoc)
  qed
qed simp

lemma prod_list_filter_pos:
  "0 \<notin> set dims \<Longrightarrow> -1 \<notin> set dims \<Longrightarrow> prod_list (filter (\<lambda>d. d \<noteq> 0 \<and> d \<noteq> -1) dims) = prod_list (dims :: int list)"
  by (induction dims) auto

lemma prod_list_zero_int: "0 \<in> set dims \<Longrightarrow> prod_list (dims :: int list) = 0"
  by (induction dims) auto

lemma dl_reshape_shape:
  assumes "dl_ok L" and "dl_reshape L new = Inr R"
  shows "dl_ok R" and "dl_offset R = dl_offset L" and "prod_list (dl_shape R) = prod_list (dl_shape L)"
    and "\<exists>n. dl_stridesFrom (dl_shape R) = Inr (n, dl_strides R)" and "\<exists>n. dl_stridesFrom (dl_shape L) = Inr (n, dl_strides L)"
    and "length (dl_shape R) = length new \<and> (\<forall>k < length new. new ! k \<noteq> -1 \<longrightarrow> dl_shape R ! k = new ! k)"
proof -
  obtain q p z current resolved strides where contig: "dl_isContiguous L = Inr True"
    and scan: "dl_reshapeScan new 0 (None, 1, False) = Inr (q, p, z)" and cur: "dl_numel L = Inr current"
    and res: "(case q of
                   None \<Rightarrow> if current \<noteq> (if z then 0 else p) then throw InvalidParameter else Inr new
                 | Some i \<Rightarrow>
                     if z then throw InvalidParameter
                     else if current = 0 then throw InvalidParameter
                     else if p = 0 \<or> current mod p \<noteq> 0 then throw InvalidParameter
                     else Inr (new[i := current div p])) = Inr resolved"
    and st: "dl_makeContiguousStrides resolved = Inr strides" and R: "dl_make resolved strides (dl_offset L) = Inr R"
    using assms(2) unfolding dl_reshape_def by (auto simp: bindR_Inr_iff split: if_splits)
  show "dl_ok R" "dl_offset R = dl_offset L"
    using R dl_make_ok by (auto simp: dl_make_Inr_iff)
  show "\<exists>n. dl_stridesFrom (dl_shape R) = Inr (n, dl_strides R)"
    using st R by (auto simp: dl_makeContiguousStrides_def bindR_Inr_iff dl_make_Inr_iff)
  show "\<exists>n. dl_stridesFrom (dl_shape L) = Inr (n, dl_strides L)"
    by (rule dl_isContiguous_strides[OF assms(1) contig])
  have current: "current = prod_list (dl_shape L)"
    using cur dl_numelFrom_prod[of 1] by (simp add: dl_numel_def dl_numelOf_def)
  note S = dl_reshapeScan_sound[OF scan]
  have "prod_list resolved = current \<and> length resolved = length new \<and> (\<forall>k < length new. new ! k \<noteq> -1 \<longrightarrow> resolved ! k = new ! k)"
  proof (cases q)
    case None
    with S have "-1 \<notin> set new" by auto
    with S res None show ?thesis
      by (cases z) (auto simp: prod_list_filter_pos prod_list_zero_int split: if_splits)
  next
    case (Some i)
    with S obtain us vs where new: "new = us @ -1 # vs" "i = length us" "-1 \<notin> set us" "-1 \<notin> set vs" by auto
    from Some res S have "0 \<notin> set new" "current mod p = 0" "resolved = new[i := current div p]"
      by (auto split: if_splits)
    with S new have "p = prod_list us * prod_list vs" "resolved = us @ current div p # vs" "current = p * (current div p)"
      by (auto simp: prod_list_filter_pos)
    with new show ?thesis
      by (auto simp: nth_append nth_Cons' algebra_simps)
  qed
  with R current show "prod_list (dl_shape R) = prod_list (dl_shape L)"
    "length (dl_shape R) = length new \<and> (\<forall>k < length new. new ! k \<noteq> -1 \<longrightarrow> dl_shape R ! k = new ! k)"
    by (auto simp: dl_make_Inr_iff)
qed

section \<open>Chains of views\<close>

inductive dl_derived :: "dense_layout \<Rightarrow> dense_layout \<Rightarrow> bool" for L where
  dl_self: "dl_derived L L"
| dl_by_transpose: "dl_derived L M \<Longrightarrow> dl_transpose M perm = Inr R \<Longrightarrow> dl_derived L R"
| dl_by_slice: "dl_derived L M \<Longrightarrow> dl_slice M starts sizes steps = Inr R \<Longrightarrow> dl_derived L R"
| dl_by_reshape: "dl_derived L M \<Longrightarrow> dl_reshape M new = Inr R \<Longrightarrow> dl_derived L R"
| dl_by_broadcast: "dl_derived L M \<Longrightarrow> dl_broadcastTo M new = Inr R \<Longrightarrow> dl_derived L R"
| dl_by_squeeze: "dl_derived L M \<Longrightarrow> dl_squeeze M = Inr R \<Longrightarrow> dl_derived L R"
| dl_by_squeezeDims: "dl_derived L M \<Longrightarrow> dl_squeezeDims M dims = Inr R \<Longrightarrow> dl_derived L R"
| dl_by_unsqueeze: "dl_derived L M \<Longrightarrow> dl_unsqueeze M d = Inr R \<Longrightarrow> dl_derived L R"

definition dl_addresses :: "dense_layout \<Rightarrow> int set" where
  "dl_addresses L = {dl_address L idx |idx. dl_inBounds (dl_shape L) idx}"

lemma dl_results_ok:
  "dl_transpose M perm = Inr R \<Longrightarrow> dl_ok R" "dl_slice M starts sizes steps = Inr R \<Longrightarrow> dl_ok R"
  "dl_broadcastTo M new = Inr R \<Longrightarrow> dl_ok R" "dl_squeeze M = Inr R \<Longrightarrow> dl_ok R"
  "dl_squeezeDims M dims = Inr R \<Longrightarrow> dl_ok R" "dl_unsqueeze M d = Inr R \<Longrightarrow> dl_ok R"
  by (auto simp: dl_transpose_def dl_slice_def dl_broadcastTo_def dl_squeeze_def dl_squeezeDims_def dl_unsqueeze_def
      bindR_Inr_iff Let_def dl_make_ok split: if_splits)

lemma dl_picks_addresses: "dl_ok L \<Longrightarrow> dl_picks L ks R \<Longrightarrow> dl_addresses R \<subseteq> dl_addresses L"
  unfolding dl_addresses_def using dl_pickPos_picks[of L ks R] dl_picks_address(2)[of L ks R] by fastforce

lemma dl_strides_addresses:
  assumes "dl_ok L" and "dl_stridesFrom (dl_shape L) = Inr (n, dl_strides L)"
  shows "dl_addresses L = {dl_offset L..<dl_offset L + prod_list (dl_shape L)}"
proof
  show "dl_addresses L \<subseteq> {dl_offset L..<dl_offset L + prod_list (dl_shape L)}"
    using dl_dot_position[OF assms(2)] dl_position_bounds by (fastforce simp: dl_addresses_def dl_address_def)
  show "{dl_offset L..<dl_offset L + prod_list (dl_shape L)} \<subseteq> dl_addresses L"
  proof
    fix a
    assume "a \<in> {dl_offset L..<dl_offset L + prod_list (dl_shape L)}"
    then obtain idx where "dl_inBounds (dl_shape L) idx" "dl_position (dl_shape L) idx = a - dl_offset L"
      using dl_position_surj[of "dl_shape L" "a - dl_offset L"] assms(1) by (auto simp: dl_ok_def)
    then show "a \<in> dl_addresses L"
      using dl_dot_position[OF assms(2)] by (force simp: dl_addresses_def dl_address_def)
  qed
qed

lemma dl_reshape_addresses: "dl_ok L \<Longrightarrow> dl_reshape L new = Inr R \<Longrightarrow> dl_addresses R = dl_addresses L"
  using dl_reshape_shape[of L new R] dl_strides_addresses[of L] dl_strides_addresses[of R] by auto

lemma dl_derived_ok:
  assumes "dl_derived L V" and "dl_ok L"
  shows "dl_ok V \<and> dl_addresses V \<subseteq> dl_addresses L"
  using assms(1)
proof (induction rule: dl_derived.induct)
  case (dl_by_transpose M perm R)
  then have "dl_addresses R \<subseteq> dl_addresses M"
    using dl_picks_addresses dl_transpose_picks(1) by blast
  with dl_by_transpose.IH dl_results_ok(1)[OF dl_by_transpose.hyps(2)] show ?case by auto
next
  case (dl_by_slice M starts sizes steps R)
  then have "dl_addresses R \<subseteq> dl_addresses M"
    using dl_slice_address[of M starts sizes steps R] by (fastforce simp: dl_addresses_def)
  with dl_by_slice.IH dl_results_ok(2)[OF dl_by_slice.hyps(2)] show ?case by auto
next
  case (dl_by_reshape M new R)
  then show ?case
    using dl_reshape_addresses dl_reshape_shape(1) by blast
next
  case (dl_by_broadcast M new R)
  then have "dl_addresses R \<subseteq> dl_addresses M"
    using dl_broadcast_address[of M new R] by (fastforce simp: dl_addresses_def)
  with dl_by_broadcast.IH dl_results_ok(3)[OF dl_by_broadcast.hyps(2)] show ?case by auto
next
  case (dl_by_squeeze M R)
  then have "dl_addresses R \<subseteq> dl_addresses M"
    using dl_picks_addresses dl_squeeze_picks by blast
  with dl_by_squeeze.IH dl_results_ok(4)[OF dl_by_squeeze.hyps(2)] show ?case by auto
next
  case (dl_by_squeezeDims M dims R)
  then have "dl_addresses R \<subseteq> dl_addresses M"
    using dl_picks_addresses dl_squeezeDims_picks by blast
  with dl_by_squeezeDims.IH dl_results_ok(5)[OF dl_by_squeezeDims.hyps(2)] show ?case by auto
next
  case (dl_by_unsqueeze M d R)
  then have "dl_addresses R \<subseteq> dl_addresses M"
    using dl_unsqueeze_address(3,4)[of M d R] by (fastforce simp: dl_addresses_def)
  with dl_by_unsqueeze.IH dl_results_ok(6)[OF dl_by_unsqueeze.hyps(2)] show ?case by auto
qed (use assms(2) in simp)

lemma dl_contiguous_strides:
  "dl_contiguous shape = Inr B \<Longrightarrow>
   dl_ok B \<and> dl_shape B = shape \<and> dl_offset B = 0 \<and> (\<exists>n. dl_stridesFrom shape = Inr (n, dl_strides B))"
  by (auto simp: dl_contiguous_def dl_makeContiguousStrides_def bindR_Inr_iff dl_make_Inr_iff dl_ok_def)

section \<open>Properties\<close>

text \<open>
  C38: a view never leaves the buffer of its tensor.  Start from the contiguous layout of any shape and
  apply any sequence of \<open>transpose\<close>, \<open>slice\<close> (with steps of either sign), \<open>reshape\<close>, \<open>broadcastTo\<close>,
  \<open>squeeze\<close> and \<open>unsqueeze\<close> that does not throw and does not overflow: the resulting layout is well formed, and every
  index within its shape addresses one of the elements \<open>0, \<dots>, numel - 1\<close> of the contiguous tensor.
\<close>

theorem dl_views_stay_in_buffer:
  assumes "dl_contiguous shape = Inr B" and "dl_derived B V"
  shows "dl_ok V \<and> (\<forall>idx. dl_inBounds (dl_shape V) idx \<longrightarrow> 0 \<le> dl_address V idx \<and> dl_address V idx < prod_list shape)"
proof -
  obtain n where B: "dl_ok B" "dl_shape B = shape" "dl_offset B = 0" "dl_stridesFrom shape = Inr (n, dl_strides B)"
    using dl_contiguous_strides[OF assms(1)] by blast
  have "dl_addresses B = {0..<prod_list shape}"
    using dl_strides_addresses[of B n] B by simp
  with dl_derived_ok[OF assms(2) B(1)] show ?thesis
    by (fastforce simp: dl_addresses_def)
qed

theorem dl_views_stay_in_buffer_witness:
  "\<exists>B V. dl_contiguous [4, 6] = Inr B \<and> dl_slice B [3, 1] [4, 2] [-1, 3] = Inr V \<and>
     (\<forall>idx. dl_inBounds (dl_shape V) idx \<longrightarrow> 0 \<le> dl_address V idx \<and> dl_address V idx < 24)"
proof -
  let ?B = "\<lparr>dl_shape = [4, 6], dl_strides = [6, 1], dl_offset = 0\<rparr>"
  let ?V = "\<lparr>dl_shape = [4, 2], dl_strides = [-6, 3], dl_offset = 19\<rparr>"
  have B: "dl_contiguous [4, 6] = Inr ?B" and V: "dl_slice ?B [3, 1] [4, 2] [-1, 3] = Inr ?V"
    by code_simp+
  have "dl_derived ?B ?V"
    by (rule dl_by_slice[OF dl_self V])
  from dl_views_stay_in_buffer[OF B this] B V show ?thesis
    by (intro exI[of _ ?B] exI[of _ ?V]) simp
qed

text \<open>What it means that a view reads, at every index of its shape, the element at a mapped index.\<close>

definition dl_reads :: "dense_layout \<Rightarrow> dense_layout \<Rightarrow> (int list \<Rightarrow> int list) \<Rightarrow> bool" where
  "dl_reads L R pos \<longleftrightarrow> (\<forall>idx. dl_inBounds (dl_shape R) idx \<longrightarrow>
     dl_inBounds (dl_shape L) (pos idx) \<and> dl_address R idx = dl_address L (pos idx))"

lemma dl_picks_reads: "dl_ok L \<Longrightarrow> dl_picks L ks R \<Longrightarrow> dl_reads L R (dl_pickPos L ks)"
  unfolding dl_reads_def using dl_pickPos_picks dl_picks_address(2) by metis

lemma dl_unsqueeze_reads:
  assumes "dl_ok L" and "dl_unsqueeze L d = Inr R"
  shows "dl_reads L R (\<lambda>idx. take d idx @ drop (Suc d) idx)"
  unfolding dl_reads_def
proof (intro allI impI)
  fix idx assume "dl_inBounds (dl_shape R) idx"
  then obtain jdx where j: "idx = take d jdx @ 0 # drop d jdx" "dl_inBounds (dl_shape L) jdx"
    using dl_unsqueeze_address(3)[OF assms] by blast
  have "d \<le> length jdx" using j(2) dl_unsqueeze_address(1)[OF assms] by (simp add: dl_inBounds_nth dl_rank_def)
  then have "take d idx @ drop (Suc d) idx = jdx" by (simp add: j(1))
  with j dl_unsqueeze_address(4)[OF assms j(2)]
  show "dl_inBounds (dl_shape L) (take d idx @ drop (Suc d) idx) \<and>
      dl_address R idx = dl_address L (take d idx @ drop (Suc d) idx)" by metis
qed

lemma dl_reshape_reads:
  assumes "dl_ok L" and "dl_reshape L new = Inr R" and "dl_inBounds (dl_shape R) idx"
  shows "\<exists>jdx. dl_inBounds (dl_shape L) jdx \<and> dl_position (dl_shape L) jdx = dl_position (dl_shape R) idx \<and>
    dl_address R idx = dl_address L jdx"
proof -
  note R = dl_reshape_shape[OF assms(1,2)]
  obtain jdx where "dl_inBounds (dl_shape L) jdx" "dl_position (dl_shape L) jdx = dl_position (dl_shape R) idx"
    using dl_position_surj[of "dl_shape L"] dl_position_bounds[OF assms(3)] R(3) assms(1) by (metis dl_ok_def)
  with R(2,4,5) assms(3) dl_dot_position show ?thesis
    by (metis dl_address_def)
qed

text \<open>
  C39: each view reads the elements it should, at every index of its own shape.  For a well-formed
  layout, the index of the view is mapped to an index within the original shape, and both address the
  same element: \<open>transpose\<close> reads the coordinate of a dimension where the permutation puts it; \<open>slice\<close>
  reads \<open>start + i * step\<close> in each dimension; \<open>broadcastTo\<close> reads a stretched dimension at 0 and drops
  the added ones; both \<open>squeeze\<close> operations read the dropped dimensions at 0; \<open>unsqueeze\<close> drops the
  added coordinate; \<open>reshape\<close> reads the element with the same row-major position.
\<close>

theorem dl_views_read:
  assumes "dl_ok L"
  shows "(dl_transpose L perm = Inr R \<longrightarrow> dl_reads L R (dl_pickPos L perm)) \<and>
    (dl_slice L starts sizes steps = Inr R \<longrightarrow> dl_reads L R (dl_slicePos starts steps)) \<and>
    (dl_broadcastTo L new = Inr R \<longrightarrow> dl_reads L R (dl_broadcastPos (dl_shape L) new)) \<and>
    (dl_squeeze L = Inr R \<longrightarrow> dl_reads L R (dl_pickPos L (filter (\<lambda>i. dl_shape L ! i \<noteq> 1) [0..<dl_rank L]))) \<and>
    (dl_squeezeDims L dims = Inr R \<longrightarrow> dl_reads L R (dl_pickPos L (filter (\<lambda>i. i \<notin> set dims) [0..<dl_rank L]))) \<and>
    (dl_unsqueeze L d = Inr R \<longrightarrow> dl_reads L R (\<lambda>idx. take d idx @ drop (Suc d) idx)) \<and>
    (dl_reshape L new = Inr R \<longrightarrow> (\<forall>idx. dl_inBounds (dl_shape R) idx \<longrightarrow>
      (\<exists>jdx. dl_inBounds (dl_shape L) jdx \<and> dl_position (dl_shape L) jdx = dl_position (dl_shape R) idx \<and>
        dl_address R idx = dl_address L jdx)))"
proof (intro conjI impI allI)
  show "dl_slice L starts sizes steps = Inr R \<Longrightarrow> dl_reads L R (dl_slicePos starts steps)"
    using dl_slice_address[OF assms] unfolding dl_reads_def by blast
  show "dl_broadcastTo L new = Inr R \<Longrightarrow> dl_reads L R (dl_broadcastPos (dl_shape L) new)"
    using dl_broadcast_address[OF assms] unfolding dl_reads_def by blast
  show "\<exists>jdx. dl_inBounds (dl_shape L) jdx \<and> dl_position (dl_shape L) jdx = dl_position (dl_shape R) idx \<and>
      dl_address R idx = dl_address L jdx"
    if "dl_reshape L new = Inr R" "dl_inBounds (dl_shape R) idx" for idx
    using dl_reshape_reads[OF assms that] .
qed (use assms in \<open>simp_all add: dl_picks_reads dl_transpose_picks(1) dl_squeeze_picks dl_squeezeDims_picks dl_unsqueeze_reads\<close>)

definition dl_ex :: dense_layout where
  "dl_ex = \<lparr>dl_shape = [2, 1, 3], dl_strides = [3, 3, 1], dl_offset = 0\<rparr>"

theorem dl_views_read_witness:
  "\<exists>R. dl_transpose dl_ex [2, 0, 1] = Inr R \<and> dl_address R [2, 1, 0] = dl_address dl_ex [1, 0, 2]"
proof -
  have R: "dl_transpose dl_ex [2, 0, 1] = Inr \<lparr>dl_shape = [3, 2, 1], dl_strides = [1, 3, 3], dl_offset = 0\<rparr>"
    by code_simp
  let ?R = "\<lparr>dl_shape = [3, 2, 1], dl_strides = [1, 3, 3], dl_offset = 0\<rparr>"
  have ok: "dl_ok dl_ex" and idx: "dl_inBounds (dl_shape ?R) [2, 1, 0]"
    by (simp_all add: dl_ok_def dl_ex_def)
  have "dl_reads dl_ex ?R (dl_pickPos dl_ex [2, 0, 1])"
    using dl_views_read[OF ok, of "[2, 0, 1]" ?R] R by blast
  moreover have "dl_pickPos dl_ex [2, 0, 1] [2, 1, 0] = [1, 0, 2]"
    by code_simp
  ultimately have "dl_address ?R [2, 1, 0] = dl_address dl_ex [1, 0, 2]"
    using idx unfolding dl_reads_def by fastforce
  with R show ?thesis by blast
qed

lemma dl_broadcastRev_compatible:
  "dl_broadcastRev dims old = Inr strides \<Longrightarrow> length old \<le> length dims \<Longrightarrow>
   k < length old \<Longrightarrow> fst (old ! k) = dims ! k \<or> fst (old ! k) = 1"
proof (induction dims arbitrary: old strides k)
  case (Cons n dims)
  then obtain d ds where old: "old = d # ds" by (cases old) auto
  with Cons.prems obtain ss where "dl_broadcastRev dims ds = Inr ss" "fst d = n \<or> fst d = 1"
    by (auto simp: bindR_Inr_iff Let_def split: if_splits)
  with Cons.IH[of ds ss "k - 1"] Cons.prems old show ?case
    by (cases k) auto
qed simp

lemma dl_broadcast_compatible:
  assumes "dl_ok L" and "dl_broadcastTo L new = Inr R" and "k < dl_rank L"
  shows "dl_rank L \<le> length new" and "dl_shape L ! k = new ! (length new - dl_rank L + k) \<or> dl_shape L ! k = 1"
proof -
  let ?old = "rev (zip (dl_shape L) (dl_strides L))"
  obtain ss where ss: "dl_broadcastRev (rev new) ?old = Inr ss" "dl_rank L \<le> length new"
    using assms(2) by (auto simp: dl_broadcastTo_def bindR_Inr_iff not_less split: if_splits)
  show "dl_rank L \<le> length new"
    by (rule ss(2))
  have "fst (?old ! (dl_rank L - Suc k)) = rev new ! (dl_rank L - Suc k) \<or> fst (?old ! (dl_rank L - Suc k)) = 1"
    using ss(2) assms(1,3) by (intro dl_broadcastRev_compatible[OF ss(1)]) (auto simp: dl_rank_def dl_ok_def)
  moreover have "length new - Suc (dl_rank L - Suc k) = length new - dl_rank L + k"
    using ss(2) assms(3) by simp
  ultimately show "dl_shape L ! k = new ! (length new - dl_rank L + k) \<or> dl_shape L ! k = 1"
    using assms(1,3) ss(2) by (simp add: rev_nth dl_rank_def dl_ok_def)
qed

text \<open>
  C40: the shape of every view follows from its arguments.  A view operation that does not throw
  returns a well-formed layout (as many strides as dimensions, no negative dimension) with this shape:
  \<open>transpose\<close> the dimensions in the order of a permutation; \<open>slice\<close> the sizes asked for; \<open>reshape\<close>
  the dimensions asked for, with \<open>-1\<close> replaced so that the number of elements is kept; \<open>broadcastTo\<close>
  the new shape, each old dimension being equal to its new one or 1; \<open>squeeze\<close> the dimensions other
  than 1; \<open>unsqueeze\<close> the shape with a 1 inserted.
\<close>

theorem dl_view_shapes:
  assumes "dl_ok L"
  shows "(dl_transpose L perm = Inr R \<longrightarrow> dl_ok R \<and> distinct perm \<and> set perm = {..<dl_rank L} \<and>
      dl_shape R = map (\<lambda>k. dl_shape L ! k) perm) \<and>
    (dl_slice L starts sizes steps = Inr R \<longrightarrow> dl_ok R \<and> dl_shape R = sizes) \<and>
    (dl_reshape L new = Inr R \<longrightarrow> dl_ok R \<and> length (dl_shape R) = length new \<and>
      (\<forall>k < length new. new ! k \<noteq> -1 \<longrightarrow> dl_shape R ! k = new ! k) \<and> prod_list (dl_shape R) = prod_list (dl_shape L)) \<and>
    (dl_broadcastTo L new = Inr R \<longrightarrow> dl_ok R \<and> dl_shape R = new \<and>
      (\<forall>k < dl_rank L. dl_shape L ! k = new ! (length new - dl_rank L + k) \<or> dl_shape L ! k = 1)) \<and>
    (dl_squeeze L = Inr R \<longrightarrow> dl_ok R \<and> dl_shape R = filter (\<lambda>d. d \<noteq> 1) (dl_shape L)) \<and>
    (dl_unsqueeze L d = Inr R \<longrightarrow> dl_ok R \<and> dl_shape R = take d (dl_shape L) @ 1 # drop d (dl_shape L))"
proof (intro conjI)
  show "dl_transpose L perm = Inr R \<longrightarrow> dl_ok R \<and> distinct perm \<and> set perm = {..<dl_rank L} \<and>
      dl_shape R = map (\<lambda>k. dl_shape L ! k) perm"
  proof
    assume t: "dl_transpose L perm = Inr R"
    then show "dl_ok R \<and> distinct perm \<and> set perm = {..<dl_rank L} \<and> dl_shape R = map (\<lambda>k. dl_shape L ! k) perm"
      using dl_transpose_picks[OF assms t] dl_results_ok(1)[OF t] unfolding dl_picks_def by simp
  qed
  show "dl_slice L starts sizes steps = Inr R \<longrightarrow> dl_ok R \<and> dl_shape R = sizes"
    using dl_slice_address(1)[OF assms] dl_results_ok(2) by blast
  show "dl_reshape L new = Inr R \<longrightarrow> dl_ok R \<and> length (dl_shape R) = length new \<and>
      (\<forall>k < length new. new ! k \<noteq> -1 \<longrightarrow> dl_shape R ! k = new ! k) \<and> prod_list (dl_shape R) = prod_list (dl_shape L)"
    using dl_reshape_shape(1,3,6)[OF assms] by blast
  show "dl_broadcastTo L new = Inr R \<longrightarrow> dl_ok R \<and> dl_shape R = new \<and>
      (\<forall>k < dl_rank L. dl_shape L ! k = new ! (length new - dl_rank L + k) \<or> dl_shape L ! k = 1)"
    using dl_broadcast_address(1)[OF assms] dl_broadcast_compatible(2)[OF assms] dl_results_ok(3) by blast
  show "dl_squeeze L = Inr R \<longrightarrow> dl_ok R \<and> dl_shape R = filter (\<lambda>d. d \<noteq> 1) (dl_shape L)"
  proof
    assume sq: "dl_squeeze L = Inr R"
    then have "dl_shape R = map (\<lambda>k. dl_shape L ! k) (filter (\<lambda>i. dl_shape L ! i \<noteq> 1) [0..<dl_rank L])"
      using dl_squeeze_picks[of L R] by (simp add: dl_picks_def)
    also have "\<dots> = filter (\<lambda>d. d \<noteq> 1) (map (\<lambda>k. dl_shape L ! k) [0..<dl_rank L])"
      by (simp add: filter_map comp_def)
    finally show "dl_ok R \<and> dl_shape R = filter (\<lambda>d. d \<noteq> 1) (dl_shape L)"
      using dl_results_ok(4)[OF sq] by (simp add: dl_rank_def map_nth)
  qed
  show "dl_unsqueeze L d = Inr R \<longrightarrow> dl_ok R \<and> dl_shape R = take d (dl_shape L) @ 1 # drop d (dl_shape L)"
    using dl_unsqueeze_address(2)[OF assms] dl_results_ok(6) by blast
qed

theorem dl_view_shapes_witness:
  "\<exists>R. dl_reshape dl_ex [-1, 2] = Inr R \<and> length (dl_shape R) = 2 \<and> prod_list (dl_shape R) = 6"
proof -
  have R: "dl_reshape dl_ex [-1, 2] = Inr \<lparr>dl_shape = [3, 2], dl_strides = [2, 1], dl_offset = 0\<rparr>"
    by code_simp
  have "dl_ok dl_ex"
    by (simp add: dl_ok_def dl_ex_def)
  from dl_view_shapes[OF this, of _ _ _ _ _ "[-1, 2]"] R show ?thesis
    by (auto simp: dl_ex_def)
qed

lemma dl_squeezeMark_succeeds:
  "distinct dims \<Longrightarrow> \<forall>d \<in> set dims. d < dl_rank L \<and> dl_shape L ! d = 1 \<and> \<not> remove ! d \<Longrightarrow> length remove = dl_rank L \<Longrightarrow>
   \<exists>remove'. dl_squeezeMark L dims remove = Inr remove'"
proof (induction dims arbitrary: remove)
  case (Cons a dims)
  then have "\<forall>d \<in> set dims. d < dl_rank L \<and> dl_shape L ! d = 1 \<and> \<not> remove[a := True] ! d"
    by (auto simp: nth_list_update)
  with Cons show ?case by simp
qed simp

lemma dl_squeezeDims_eq:
  assumes "distinct dims" and "\<forall>d \<in> set dims. d < dl_rank L \<and> dl_shape L ! d = 1"
  shows "dl_squeezeDims L dims =
    (let kept = filter (\<lambda>i. i \<notin> set dims) [0..<dl_rank L]
     in dl_make (map (\<lambda>i. dl_shape L ! i) kept) (map (\<lambda>i. dl_strides L ! i) kept) (dl_offset L))"
proof -
  obtain remove where mark: "dl_squeezeMark L dims (replicate (dl_rank L) False) = Inr remove"
    using dl_squeezeMark_succeeds[of dims L "replicate (dl_rank L) False"] assms by auto
  have "filter (\<lambda>i. \<not> remove ! i) [0..<dl_rank L] = filter (\<lambda>i. i \<notin> set dims) [0..<dl_rank L]"
    using dl_squeezeMark_sound[OF mark] by (intro filter_cong) auto
  with mark show ?thesis
    by (simp add: dl_squeezeDims_def)
qed

lemma filter_skip: "d < Suc n \<Longrightarrow> filter (\<lambda>i. i \<noteq> d) [0..<Suc n] = [0..<d] @ [Suc d..<Suc n]"
proof -
  assume d: "d < Suc n"
  have "[0..<Suc n] = [0..<d] @ d # [Suc d..<Suc n]"
    using d upt_add_eq_append[of 0 d "Suc n - d"] upt_conv_Cons[of d "Suc n"] by simp
  moreover have "filter (\<lambda>i. i \<noteq> d) [0..<d] = [0..<d]" "filter (\<lambda>i. i \<noteq> d) [Suc d..<Suc n] = [Suc d..<Suc n]"
    by (auto intro!: filter_True simp del: upt_Suc)
  ultimately show ?thesis
    by (simp del: upt_Suc)
qed

lemma map_nth_insert:
  assumes "d \<le> length xs"
  shows "map (\<lambda>i. (take d xs @ x # drop d xs) ! i) ([0..<d] @ [Suc d..<Suc (length xs)]) = xs"
proof -
  have "map (\<lambda>i. (take d xs @ x # drop d xs) ! i) [0..<d] = take d xs"
    using assms by (intro nth_equalityI) (simp_all add: nth_append)
  moreover have "map (\<lambda>i. (take d xs @ x # drop d xs) ! i) [Suc d..<Suc (length xs)] = drop d xs"
    using assms by (intro nth_equalityI) (simp_all add: nth_append del: upt_Suc)
  ultimately show ?thesis by simp
qed

text \<open>
  the two forms of \<open>squeeze\<close> agree, and \<open>unsqueeze\<close> is undone.  \<open>squeeze()\<close> equals \<open>squeeze(dims)\<close>
  for any list of exactly the dimensions with one element, without repetition; and squeezing the
  dimension that a successful \<open>unsqueeze\<close> inserted gives back the layout, strides and offset included.
\<close>

theorem dl_squeeze_equivalence:
  assumes "dl_ok L" and "distinct dims" and "set dims = {d. d < dl_rank L \<and> dl_shape L ! d = 1}"
  shows "dl_squeezeDims L dims = dl_squeeze L \<and> (\<forall>d R. dl_unsqueeze L d = Inr R \<longrightarrow> dl_squeezeDims R [d] = Inr L)"
proof (intro conjI allI impI)
  have "filter (\<lambda>i. i \<notin> set dims) [0..<dl_rank L] = filter (\<lambda>i. dl_shape L ! i \<noteq> 1) [0..<dl_rank L]"
    using assms(3) by (intro filter_cong) auto
  then show "dl_squeezeDims L dims = dl_squeeze L"
    using dl_squeezeDims_eq[OF assms(2), of L] assms(3) by (simp add: dl_squeeze_def)
next
  fix d R
  assume "dl_unsqueeze L d = Inr R"
  then obtain s where d: "d \<le> length (dl_shape L)" and R: "R = \<lparr>dl_shape = take d (dl_shape L) @ 1 # drop d (dl_shape L),
      dl_strides = take d (dl_strides L) @ s # drop d (dl_strides L), dl_offset = dl_offset L\<rparr>"
    by (auto simp: dl_unsqueeze_def bindR_Inr_iff dl_make_Inr_iff dl_rank_def split: if_splits)
  have rank: "dl_rank R = Suc (length (dl_shape L))" "dl_shape R ! d = 1"
    using d by (simp_all add: R dl_rank_def nth_append)
  have kept: "filter (\<lambda>i. i \<noteq> d) [0..<Suc (length (dl_shape L))] = [0..<d] @ [Suc d..<Suc (length (dl_shape L))]"
    using d by (intro filter_skip) simp
  have "map (\<lambda>i. dl_shape R ! i) ([0..<d] @ [Suc d..<Suc (length (dl_shape L))]) = dl_shape L"
    using map_nth_insert[OF d] by (simp add: R del: upt_Suc map_append)
  moreover have "map (\<lambda>i. dl_strides R ! i) ([0..<d] @ [Suc d..<Suc (length (dl_shape L))]) = dl_strides L"
    using map_nth_insert[of d "dl_strides L" s] d assms(1) by (simp add: R dl_ok_def del: upt_Suc map_append)
  moreover have "dl_make (dl_shape L) (dl_strides L) (dl_offset L) = Inr L"
    using assms(1) by (simp add: dl_make_Inr_iff dl_ok_def)
  ultimately show "dl_squeezeDims R [d] = Inr L"
    using dl_squeezeDims_eq[of "[d]" R] rank d by (simp add: kept Let_def R del: map_append upt_Suc)
qed

theorem dl_squeeze_equivalence_witness: "dl_squeezeDims dl_ex [1] = dl_squeeze dl_ex"
proof -
  have "set [1] = {d. d < dl_rank dl_ex \<and> dl_shape dl_ex ! d = 1}"
    by (auto simp: dl_rank_def dl_ex_def less_Suc_eq numeral_3_eq_3)
  from dl_squeeze_equivalence[OF _ _ this] show ?thesis
    by (simp add: dl_ok_def dl_ex_def)
qed

text \<open>
  an empty tensor can overflow.  The strides are computed with the product of all dimensions, the
  last of which is not needed: the contiguous layout of shape \<open>[0, 2^40, 2^40]\<close>, which has no element,
  overflows, and so does counting the elements of \<open>[2^40, 2^40, 0]\<close>, although the same dimensions in
  the other order count as 0.
\<close>

theorem dl_empty_overflow:
  "dl_contiguous [0, 2 ^ 40, 2 ^ 40] = Inl SignedOverflow \<and> dl_numelOf [0, 2 ^ 40, 2 ^ 40] = Inr 0 \<and>
   dl_numelOf [2 ^ 40, 2 ^ 40, 0] = Inl SignedOverflow \<and>
   bindR (dl_contiguous [0, 8]) (\<lambda>L. dl_reshape L [0, 2 ^ 40, 2 ^ 40]) = Inl SignedOverflow"
  by code_simp

end
