(* ===== verification/CpuMemory.thy ===== *)
theory CpuMemory
  imports SegregateSafety MathUtils
begin

text \<open>
  Memory of the CPU: the aligned allocation of \<open>execution/cpu/platform/wrapper/cpu_alloc.h\<close> and the
  resource on it, \<open>allocator/resource/cpu/cpu_resource.cpp\<close>.  \<open>posix_memalign\<close> and \<open>free\<close> are
  arguments; \<open>'h\<close> is the state of the C heap.  The counters of \<open>cpu_stats.h\<close> are not modelled.
\<close>

section \<open>Aligned allocation\<close>

text \<open>\<open>posix_memalign\<close> gives an address, or fails (\<open>None\<close>: a non-zero code or a null pointer).\<close>

record 'h c_heap =
  ch_memalign :: "nat \<Rightarrow> nat \<Rightarrow> 'h \<Rightarrow> nat option \<times> 'h"
  ch_free :: "nat \<Rightarrow> 'h \<Rightarrow> 'h"

definition ca_minAlign :: u64 where
  "ca_minAlign = 16"

definition ca_alignment :: "u64 \<Rightarrow> u64" where
  "ca_alignment alignment =
     (let alignment = (if alignment < ca_minAlign then ca_minAlign else alignment)
      in if \<not> mu_isPowerOfTwo alignment then mu_nextPowerOfTwo alignment else alignment)"

definition ca_allocAligned :: "'h c_heap \<Rightarrow> nat \<Rightarrow> u64 \<Rightarrow> ('h, nat) act" where
  "ca_allocAligned H n alignment h =
     (if n = 0 then (throw InvalidParameter, h)
      else case ch_memalign H (unat (ca_alignment alignment)) n h of
          (None, h') \<Rightarrow> (Inl StdBadAlloc, h')
        | (Some p, h') \<Rightarrow> (Inr p, h'))"

definition ca_alloc :: "'h c_heap \<Rightarrow> nat \<Rightarrow> ('h, nat) act" where
  "ca_alloc H n = ca_allocAligned H n ca_minAlign"

definition ca_dealloc :: "'h c_heap \<Rightarrow> nat \<Rightarrow> nat \<Rightarrow> 'h \<Rightarrow> 'h" where
  "ca_dealloc H p n h = (if p = 0 then h else ch_free H p h)"

section \<open>The resource\<close>

definition cr_allocate :: "'h c_heap \<Rightarrow> nat \<Rightarrow> u64 \<Rightarrow> ('h, buffer_view) act" where
  "cr_allocate H n alignment =
     (if n = 0 then throwA InvalidParameter
      else bindA (ca_allocAligned H n alignment) (\<lambda>base.
           returnA \<lparr>vw_base = base, vw_offset = 0, vw_size = n\<rparr>))"

definition cr_deallocate :: "'h c_heap \<Rightarrow> buffer_view \<Rightarrow> nat \<Rightarrow> 'h \<Rightarrow> 'h" where
  "cr_deallocate H v n h =
     (if vw_empty v then h else ca_dealloc H (vw_base v + vw_offset v - vw_offset v) n h)"

definition cr_isCompleted :: "'h \<Rightarrow> 't \<Rightarrow> bool" where
  "cr_isCompleted h token = True"

section \<open>Powers of two\<close>

lemma and_pred_zero:
  assumes "v \<noteq> 0" and "v AND (v - 1) = (0 :: u64)"
  shows "\<exists>k < 64. unat v = 2 ^ k"
proof -
  have u: "unat (v - 1) = unat v - 1" by (metis assms(1) unat_minus_one)
  have pos: "0 < unat v" using assms(1) by (simp add: unat_gt_0)
  then obtain k where k: "2 ^ k \<le> unat v" "unat v < (2::nat) ^ Suc k" using nat_log2 by blast
  have "unat v < 2 ^ 64" by (rule order.strict_trans2[OF unsigned_less]) simp
  then have "(2::nat) ^ k < 2 ^ 64" using k(1) by linarith
  then have k64: "k < 64" by (rule power_less_imp_less_exp[rotated]) simp
  have "unat v = 2 ^ k"
  proof (rule ccontr)
    assume "unat v \<noteq> 2 ^ k"
    with k have "2 ^ k \<le> unat v - 1" "unat v - 1 < 2 ^ Suc k" by simp_all
    then have "(unat v - 1) div 2 ^ k = 1" by (intro div_nat_eqI) simp_all
    moreover have "unat v div 2 ^ k = 1" using k by (intro div_nat_eqI) simp_all
    ultimately have "bit v k" "bit (v - 1) k" by (simp_all add: bit_u64_div u)
    then have "bit (v AND (v - 1)) k" by (simp add: bit_and_iff)
    with assms(2) show False by simp
  qed
  with k64 show ?thesis by blast
qed

lemma mu_isPowerOfTwo_iff: "mu_isPowerOfTwo v \<longleftrightarrow> (\<exists>k < 64. unat v = 2 ^ k)"
proof
  assume "\<exists>k < 64. unat v = 2 ^ k"
  then obtain k where k: "k < 64" "unat v = 2 ^ k" by blast
  then have "v = 2 ^ k" by (metis unat_power64 word_unat_eq_iff)
  moreover have "(2 ^ k :: u64) AND mask k = 0"
    by (rule bit_word_eqI) (auto simp: bit_simps)
  ultimately show "mu_isPowerOfTwo v"
    using k by (auto simp: mu_isPowerOfTwo_def mask_eq_exp_minus_1)
qed (auto simp: mu_isPowerOfTwo_def and_pred_zero)

lemma ca_alignment_eq:
  assumes "unat al \<le> 2 ^ 63"
  shows "unat (ca_alignment al) = sc_bit_ceil (max 16 (unat al))"
proof -
  define b where "b = (if al < ca_minAlign then ca_minAlign else al)"
  have b: "unat b = max 16 (unat al)"
    by (auto simp: b_def ca_minAlign_def word_less_nat_alt)
  have "unat (mu_nextPowerOfTwo b) = sc_bit_ceil (unat b)" using mu_next_unat[of b] assms b by simp
  moreover have "sc_bit_ceil (unat b) = unat b" if "mu_isPowerOfTwo b"
    using that sc_bit_ceil_power by (auto simp: mu_isPowerOfTwo_iff)
  moreover have "ca_alignment al = (if \<not> mu_isPowerOfTwo b then mu_nextPowerOfTwo b else b)"
    by (simp add: ca_alignment_def b_def Let_def)
  ultimately show ?thesis by (simp add: b)
qed

lemma ca_alignment_power: "mu_isPowerOfTwo (ca_alignment al) \<or> ca_alignment al = 0"
proof (cases "unat al \<le> 2 ^ 63")
  case True
  obtain k where k: "sc_bit_ceil (max 16 (unat al)) = 2 ^ k" using sc_bit_ceil_pow by blast
  then have "unat (ca_alignment al) = 2 ^ k" using ca_alignment_eq[OF True] by simp
  moreover have "unat (ca_alignment al) < 2 ^ 64" by (rule order.strict_trans2[OF unsigned_less]) simp
  ultimately have "(2::nat) ^ k < 2 ^ 64" by simp
  then have "k < 64" by (rule power_less_imp_less_exp[rotated]) simp
  with \<open>unat (ca_alignment al) = 2 ^ k\<close> show ?thesis by (auto simp: mu_isPowerOfTwo_iff)
next
  case False
  then have "\<not> al < ca_minAlign" by (simp add: ca_minAlign_def word_less_nat_alt)
  then show ?thesis
    using mu_next_big[of al] False by (simp add: ca_alignment_def Let_def)
qed

section \<open>The C heap\<close>

text \<open>
  What is relied on of \<open>posix_memalign\<close> and \<open>free\<close>: a region it returns has the alignment and the size asked
  for and lies outside the regions that are allocated, and an alignment of zero is refused.
\<close>

definition heap_ok :: "'h c_heap \<Rightarrow> ('h \<Rightarrow> (nat \<times> nat) set) \<Rightarrow> bool" where
  "heap_ok H regions \<longleftrightarrow>
     (\<forall>al n h. (case ch_memalign H al n h of
        (None, h') \<Rightarrow> regions h' = regions h
      | (Some p, h') \<Rightarrow> al \<noteq> 0 \<and> al dvd p \<and> p \<noteq> 0 \<and> regions h' = insert (p, n) (regions h) \<and>
          (\<forall>(q, m) \<in> regions h. {q ..< q + m} \<inter> {p ..< p + n} = {}))) \<and>
     (\<forall>p n h. p \<noteq> 0 \<longrightarrow> (p, n) \<in> regions h \<longrightarrow> regions (ch_free H p h) = regions h - {(p, n)})"

lemma heap_okD:
  fixes n al :: nat and h :: 'h
  assumes "heap_ok H regions"
  shows "ch_memalign H al n h = (None, h') \<Longrightarrow> regions h' = regions h"
    and "ch_memalign H al n h = (Some p, h') \<Longrightarrow> al \<noteq> 0 \<and> al dvd p \<and> p \<noteq> 0 \<and> regions h' = insert (p, n) (regions h)"
    and "ch_memalign H al n h = (Some p, h') \<Longrightarrow> (q, m) \<in> regions h \<Longrightarrow> {q ..< q + m} \<inter> {p ..< p + n} = {}"
    and "p \<noteq> 0 \<Longrightarrow> (p, n) \<in> regions h \<Longrightarrow> regions (ch_free H p h) = regions h - {(p, n)}"
proof -
  note ok = conjunct1[OF assms[unfolded heap_ok_def], rule_format, where al = al and n = n and h = h]
  show "ch_memalign H al n h = (None, h') \<Longrightarrow> regions h' = regions h"
    and "ch_memalign H al n h = (Some p, h') \<Longrightarrow> al \<noteq> 0 \<and> al dvd p \<and> p \<noteq> 0 \<and> regions h' = insert (p, n) (regions h)"
    using ok by simp_all
  show "ch_memalign H al n h = (Some p, h') \<Longrightarrow> (q, m) \<in> regions h \<Longrightarrow> {q ..< q + m} \<inter> {p ..< p + n} = {}"
    using ok by fastforce
  show "p \<noteq> 0 \<Longrightarrow> (p, n) \<in> regions h \<Longrightarrow> regions (ch_free H p h) = regions h - {(p, n)}"
    using assms unfolding heap_ok_def by blast
qed

definition cpu_view :: "nat \<times> nat \<Rightarrow> buffer_view" where
  "cpu_view r = \<lparr>vw_base = fst r, vw_offset = 0, vw_size = snd r\<rparr>"

lemma cr_allocate_cases:
  assumes ok: "heap_ok H regions" and run: "cr_allocate H n al h = (x, h')"
  shows "(\<exists>e. x = Inl e \<and> regions h' = regions h) \<or>
    (\<exists>p. x = Inr (cpu_view (p, n)) \<and> n \<noteq> 0 \<and> p \<noteq> 0 \<and> ca_alignment al \<noteq> 0 \<and> unat (ca_alignment al) dvd p \<and>
       regions h' = insert (p, n) (regions h) \<and>
       (\<forall>(q, m) \<in> regions h. {q ..< q + m} \<inter> {p ..< p + n} = {}))"
proof (cases "n = 0")
  case True
  with run show ?thesis by (auto simp: cr_allocate_def throw_def)
next
  case False
  obtain y g where mem: "ch_memalign H (unat (ca_alignment al)) n h = (y, g)" by fastforce
  show ?thesis
  proof (cases y)
    case None
    with run mem False heap_okD(1)[OF ok] show ?thesis
      by (auto simp: cr_allocate_def bindA_def ca_allocAligned_def)
  next
    case (Some p)
    then have "x = Inr (cpu_view (p, n))" "h' = g"
      using run mem False by (auto simp: cr_allocate_def bindA_def ca_allocAligned_def cpu_view_def)
    moreover have "\<forall>(q, m) \<in> regions h. {q ..< q + m} \<inter> {p ..< p + n} = {}"
      using heap_okD(3)[OF ok mem[unfolded Some]] by blast
    moreover have "ca_alignment al \<noteq> 0 \<and> unat (ca_alignment al) dvd p \<and> p \<noteq> 0 \<and> regions h' = insert (p, n) (regions h)"
      using heap_okD(2)[OF ok mem[unfolded Some]] \<open>h' = g\<close> by (auto simp del: unat_eq_zero)
    ultimately show ?thesis using False by blast
  qed
qed

lemma ca_alignment_zero:
  assumes "2 ^ 63 < unat al"
  shows "ca_alignment al = 0"
proof -
  have "\<not> al < ca_minAlign" using assms by (simp add: ca_minAlign_def word_less_nat_alt)
  moreover have "\<not> mu_isPowerOfTwo al"
  proof
    assume "mu_isPowerOfTwo al"
    then obtain k where k: "k < 64" "unat al = 2 ^ k" by (auto simp: mu_isPowerOfTwo_iff)
    then have "(2::nat) ^ k \<le> 2 ^ 63" by (intro power_increasing) simp_all
    with k assms show False by simp
  qed
  ultimately show ?thesis using mu_next_big[OF assms] by (simp add: ca_alignment_def Let_def)
qed

section \<open>Programs on the resource\<close>

text \<open>
  A program holds views with the alignment it asked for.  It allocates any size with any alignment,
  gives back any view it holds with the size of the view, and the rest of the process uses the same C
  heap in any way that leaves the held regions alone.
\<close>

inductive cr_reach :: "'h c_heap \<Rightarrow> ('h \<Rightarrow> (nat \<times> nat) set) \<Rightarrow> 'h \<Rightarrow> (buffer_view \<times> u64) list \<Rightarrow> bool"
  for H regions where
  cr_start: "cr_reach H regions h []"
| cr_alloc: "cr_reach H regions h held \<Longrightarrow> cr_allocate H n al h = (x, h') \<Longrightarrow>
    cr_reach H regions h' (case x of Inl e \<Rightarrow> held | Inr v \<Rightarrow> (v, al) # held)"
| cr_dealloc: "cr_reach H regions h held \<Longrightarrow> i < length held \<Longrightarrow>
    cr_reach H regions (cr_deallocate H (fst (held ! i)) (vw_size (fst (held ! i))) h) (take i held @ drop (Suc i) held)"
| cr_others: "cr_reach H regions h held \<Longrightarrow>
    \<forall>(v, al) \<in> set held. (vw_base v, vw_size v) \<in> regions h' \<Longrightarrow> cr_reach H regions h' held"

definition cr_holds :: "(nat \<times> nat) set \<Rightarrow> buffer_view \<times> u64 \<Rightarrow> bool" where
  "cr_holds R x \<longleftrightarrow> (vw_base (fst x), vw_size (fst x)) \<in> R \<and> fst x = cpu_view (vw_base (fst x), vw_size (fst x)) \<and>
     vw_base (fst x) \<noteq> 0 \<and> 0 < vw_size (fst x) \<and> unat (snd x) \<le> 2 ^ 63 \<and>
     sc_bit_ceil (max 16 (unat (snd x))) dvd vw_base (fst x)"

definition cr_apart :: "buffer_view \<times> u64 \<Rightarrow> buffer_view \<times> u64 \<Rightarrow> bool" where
  "cr_apart x y \<longleftrightarrow> vw_region (fst x) \<inter> vw_region (fst y) = {}"

lemma cpu_view_region: "vw_region (cpu_view (p, n)) = {p ..< p + n}"
  by (simp add: cpu_view_def vw_region_def)

lemma cr_apart_regions:
  assumes "cr_holds R x" and "cr_holds R y" and "cr_apart x y"
  shows "(vw_base (fst x), vw_size (fst x)) \<noteq> (vw_base (fst y), vw_size (fst y))"
proof
  assume "(vw_base (fst x), vw_size (fst x)) = (vw_base (fst y), vw_size (fst y))"
  then have eq: "fst x = fst y" using assms(1,2) by (simp add: cr_holds_def)
  have "vw_region (fst x) = {vw_base (fst x) ..< vw_base (fst x) + vw_size (fst x)}"
    using assms(1) cpu_view_region by (metis cr_holds_def)
  with assms(1,3) eq show False by (simp add: cr_apart_def cr_holds_def)
qed

lemma cr_reach_inv:
  assumes ok: "heap_ok H regions"
  shows "cr_reach H regions h held \<Longrightarrow>
    (\<forall>x \<in> set held. cr_holds (regions h) x) \<and> sorted_wrt cr_apart held"
proof (induction rule: cr_reach.induct)
  case (cr_alloc h held n al x h')
  note hold = cr_alloc.IH[THEN conjunct1, rule_format] and apart = cr_alloc.IH[THEN conjunct2]
  from cr_allocate_cases[OF ok cr_alloc.hyps(2)] show ?case
  proof (elim disjE exE conjE)
    fix e assume "x = Inl e" "regions h' = regions h"
    with cr_alloc.IH show ?case by simp
  next
    fix p assume x: "x = Inr (cpu_view (p, n))" and new: "n \<noteq> 0" "p \<noteq> 0" "ca_alignment al \<noteq> 0"
      "unat (ca_alignment al) dvd p" "regions h' = insert (p, n) (regions h)"
      and free: "\<forall>(q, m) \<in> regions h. {q ..< q + m} \<inter> {p ..< p + n} = {}"
    have al: "unat al \<le> 2 ^ 63" using new(3) ca_alignment_zero[of al] by force
    have "cr_holds (regions h') (cpu_view (p, n), al)"
      using new al ca_alignment_eq[OF al] by (simp add: cr_holds_def cpu_view_def)
    moreover have "cr_holds (regions h') y" if "y \<in> set held" for y
      using hold[OF that] new(5) by (simp add: cr_holds_def)
    moreover have "cr_apart (cpu_view (p, n), al) y" if "y \<in> set held" for y
    proof -
      have "(vw_base (fst y), vw_size (fst y)) \<in> regions h" "fst y = cpu_view (vw_base (fst y), vw_size (fst y))"
        using hold[OF that] by (simp_all add: cr_holds_def)
      moreover from this(1) free have "{vw_base (fst y) ..< vw_base (fst y) + vw_size (fst y)} \<inter> {p ..< p + n} = {}"
        by blast
      ultimately show ?thesis using cpu_view_region by (metis cr_apart_def fst_conv inf_commute)
    qed
    ultimately show ?case using x apart by simp
  qed
next
  case (cr_dealloc h held i)
  note hold = cr_dealloc.IH[THEN conjunct1, rule_format] and apart = cr_dealloc.IH[THEN conjunct2]
  let ?v = "fst (held ! i)" and ?rest = "take i held @ drop (Suc i) held"
  have split: "held = take i held @ held ! i # drop (Suc i) held"
    using cr_dealloc.hyps(2) by (simp add: id_take_nth_drop)
  have v: "cr_holds (regions h) (held ! i)" using hold cr_dealloc.hyps(2) by simp
  have "cr_deallocate H ?v (vw_size ?v) h = ch_free H (vw_base ?v) h"
    using v by (auto simp: cr_holds_def cr_deallocate_def ca_dealloc_def cpu_view_def vw_empty_def)
  then have left: "regions (cr_deallocate H ?v (vw_size ?v) h) = regions h - {(vw_base ?v, vw_size ?v)}"
    using v heap_okD(4)[OF ok] by (simp add: cr_holds_def)
  have "sorted_wrt cr_apart (take i held @ held ! i # drop (Suc i) held)" using apart split by simp
  then have s: "sorted_wrt cr_apart ?rest" "\<forall>y \<in> set ?rest. cr_apart (held ! i) y \<or> cr_apart y (held ! i)"
    by (auto simp: sorted_wrt_append)
  have "cr_holds (regions (cr_deallocate H ?v (vw_size ?v) h)) y" if y: "y \<in> set ?rest" for y
  proof -
    have hy: "cr_holds (regions h) y" using hold[of y] y by (auto dest: in_set_takeD in_set_dropD)
    moreover have "(vw_base (fst y), vw_size (fst y)) \<noteq> (vw_base ?v, vw_size ?v)"
      using s(2) y cr_apart_regions[OF v hy] cr_apart_regions[OF hy v] by metis
    ultimately show ?thesis by (simp add: cr_holds_def left)
  qed
  with s(1) show ?case by blast
qed (auto simp: cr_holds_def)

text \<open>
  C8: memory of the CPU resource.  If \<open>posix_memalign\<close> and \<open>free\<close> do what they promise, then whatever a
  program allocates from \<open>CpuResource\<close> and gives back, in any order and beside any other use of the C
  heap, the views it holds do not overlap, and each is exactly a region of the heap, at offset 0, whose
  address is a multiple of the requested alignment, rounded up to a power of two of at least 16.  No
  alignment above \<open>2^63\<close> is ever granted.
\<close>

theorem cr_views_safe:
  assumes "heap_ok H regions" and "cr_reach H regions h held"
  shows "(\<forall>i j. i < j \<longrightarrow> j < length held \<longrightarrow>
       vw_region (fst (held ! i)) \<inter> vw_region (fst (held ! j)) = {}) \<and>
     (\<forall>(v, al) \<in> set held. (vw_base v, vw_size v) \<in> regions h \<and> vw_offset v = 0 \<and> 0 < vw_size v \<and>
        unat al \<le> 2 ^ 63 \<and> sc_bit_ceil (max 16 (unat al)) dvd vw_base v)"
proof (intro conjI allI impI ballI)
  note inv = cr_reach_inv[OF assms]
  show "i < j \<Longrightarrow> j < length held \<Longrightarrow> vw_region (fst (held ! i)) \<inter> vw_region (fst (held ! j)) = {}" for i j
    using inv by (auto simp: cr_apart_def sorted_wrt_iff_nth_less)
  show "case x of (v, al) \<Rightarrow> (vw_base v, vw_size v) \<in> regions h \<and> vw_offset v = 0 \<and> 0 < vw_size v \<and>
        unat al \<le> 2 ^ 63 \<and> sc_bit_ceil (max 16 (unat al)) dvd vw_base v" if "x \<in> set held" for x
    using conjunct1[OF inv, rule_format, OF that]
    by (cases x) (auto simp: cr_holds_def cpu_view_def dest: arg_cong[where f = vw_offset])
qed

text \<open>A heap that places each region after all others, rounded up to the alignment.\<close>

definition lh_end :: "(nat \<times> nat) list \<Rightarrow> nat" where
  "lh_end h = foldr (\<lambda>r. max (fst r + snd r)) h 4096"

definition lh_place :: "nat \<Rightarrow> (nat \<times> nat) list \<Rightarrow> nat" where
  "lh_place al h = (lh_end h div al + 1) * al"

definition lh_heap :: "(nat \<times> nat) list c_heap" where
  "lh_heap = \<lparr>
     ch_memalign = (\<lambda>al n h. if al = 0 then (None, h) else (Some (lh_place al h), (lh_place al h, n) # h)),
     ch_free = (\<lambda>p h. filter (\<lambda>r. fst r \<noteq> p) h)\<rparr>"

definition lh_regions :: "(nat \<times> nat) list \<Rightarrow> (nat \<times> nat) set" where
  "lh_regions h = {(p, n). map_of h p = Some n}"

lemma lh_end_le: "(q, m) \<in> set h \<Longrightarrow> q + m \<le> lh_end h"
  by (induction h) (auto simp: lh_end_def)

lemma lh_heap_ok: "heap_ok lh_heap lh_regions"
  unfolding heap_ok_def
proof (intro conjI allI impI)
  fix al n and h :: "(nat \<times> nat) list"
  show "case ch_memalign lh_heap al n h of (None, h') \<Rightarrow> lh_regions h' = lh_regions h
      | (Some p, h') \<Rightarrow> al \<noteq> 0 \<and> al dvd p \<and> p \<noteq> 0 \<and> lh_regions h' = insert (p, n) (lh_regions h) \<and>
          (\<forall>(q, m) \<in> lh_regions h. {q ..< q + m} \<inter> {p ..< p + n} = {})"
  proof (cases "al = 0")
    case False
    define p where "p = lh_place al h"
    have "lh_end h < p"
      using dividend_less_div_times[of al "lh_end h"] False by (simp add: p_def lh_place_def)
    then have lt: "q + m < p" if "map_of h q = Some m" for q m
      using lh_end_le[OF map_of_SomeD[OF that]] by simp
    then have "map_of h p = None" by (metis not_add_less1 option.exhaust)
    then have "lh_regions ((p, n) # h) = insert (p, n) (lh_regions h)"
      by (auto simp: lh_regions_def split: if_splits)
    moreover have "\<forall>(q, m) \<in> lh_regions h. {q ..< q + m} \<inter> {p ..< p + n} = {}"
      using lt by (force simp: lh_regions_def)
    moreover have "al dvd p" "p \<noteq> 0" using False by (simp_all add: p_def lh_place_def)
    ultimately show ?thesis using False by (simp add: lh_heap_def p_def[symmetric])
  qed (simp add: lh_heap_def)
next
  fix p n and h :: "(nat \<times> nat) list"
  have "map_of (filter (\<lambda>r. fst r \<noteq> p) h) q = (if q = p then None else map_of h q)" for q
    by (induction h) auto
  then show "lh_regions (ch_free lh_heap p h) = lh_regions h - {(p, n)}" if "(p, n) \<in> lh_regions h"
    using that by (auto simp: lh_regions_def lh_heap_def split: if_splits)
qed

theorem cr_views_safe_witness:
  "\<exists>h held. cr_reach lh_heap lh_regions h held \<and> map (\<lambda>(v, al). (vw_base v, vw_size v, al)) held =
       [(4128, 40, 24), (4112, 10, 8)] \<and> sc_bit_ceil (max 16 (unat (24 :: u64))) dvd 4128"
proof -
  define r1 where "r1 = cr_allocate lh_heap 10 8 []"
  define r2 where "r2 = cr_allocate lh_heap 40 24 (snd r1)"
  have c: "fst r1 = Inr (cpu_view (4112, 10)) \<and> fst r2 = Inr (cpu_view (4128, 40))"
    unfolding r1_def r2_def cpu_view_def by code_simp
  have "cr_reach lh_heap lh_regions (snd r1) [(cpu_view (4112, 10), 8)]"
    using cr_alloc[OF cr_start, of lh_heap 10 8 "[]" "fst r1" "snd r1"] c by (simp add: r1_def)
  from cr_alloc[OF this, of 40 24 "fst r2" "snd r2"]
  have "cr_reach lh_heap lh_regions (snd r2) [(cpu_view (4128, 40), 24), (cpu_view (4112, 10), 8)]"
    using c by (simp add: r2_def)
  with cr_views_safe[OF lh_heap_ok this] show ?thesis by (fastforce simp: cpu_view_def)
qed

end
