(* ===== verification/CpuBuffers.thy ===== *)
theory CpuBuffers
  imports PoolManager CpuMemory
begin

text \<open>
  \<open>execution/cpu/manager/cpu_buffer_manager.h\<close>: the pool manager of CPU buffers, an instance of
  \<open>PoolManager\<close> whose payloads are created by the traits below.  \<open>CpuSlowOps::allocBuffer\<close> is an argument
  of the context: the address it answers a creation with, as a function of the request (whose handle
  tells creations apart), 0 when it fails; \<open>None\<close> is a null \<open>ops\<close> pointer.
\<close>

section \<open>Payload traits\<close>

record buffer_request =
  br_size :: nat
  br_alignment :: nat
  br_handle :: "u32 handle"

type_synonym cpu_buffer = "unit buffer_resource"
type_synonym buffer_ops = "(buffer_request \<Rightarrow> nat) option"
type_synonym buffer_core = "(u32, cpu_buffer) pool_manager"

definition cb_payload :: cpu_buffer where
  "cb_payload = \<lparr>bf_handle = bk_invalidHandle, bf_view = vw_none, bf_token = None\<rparr>"

definition br_default :: buffer_request where
  "br_default = \<lparr>br_size = 0, br_alignment = 0, br_handle = handle_invalid\<rparr>"

definition cb_create :: "cpu_buffer \<Rightarrow> buffer_request \<Rightarrow> buffer_ops \<Rightarrow> bool \<times> cpu_buffer" where
  "cb_create payload request ops =
     (case ops of
        None \<Rightarrow> (False, payload)
      | Some alloc \<Rightarrow>
          if br_size request = 0 \<or> \<not> handle_isValid (br_handle request) then (False, payload)
          else let ptr = alloc request
               in if ptr = 0 then (False, payload)
                  else (True, payload\<lparr>bf_handle := h_index (br_handle request),
                          bf_view := \<lparr>vw_base = ptr, vw_offset = 0, vw_size = br_size request\<rparr>\<rparr>))"

definition cb_destroy :: "cpu_buffer \<Rightarrow> buffer_request \<Rightarrow> buffer_ops \<Rightarrow> cpu_buffer" where
  "cb_destroy payload request ops = cb_payload"

definition buffer_traits :: "(u32, cpu_buffer, buffer_request, buffer_ops) pool_traits" where
  "buffer_traits = \<lparr>tr_default = cb_payload, tr_create = cb_create, tr_destroy = cb_destroy,
     tr_setHandle = (\<lambda>r h. r\<lparr>br_handle := h\<rparr>), tr_request = br_default, tr_context = None,
     tr_destroy_on_release = False, tr_has_generation = True\<rparr>"

section \<open>The manager\<close>

record buffer_config =
  bc_control_block_capacity :: nat
  bc_control_block_block_size :: nat
  bc_control_block_growth_chunk_size :: nat
  bc_payload_capacity :: nat
  bc_payload_block_size :: nat
  bc_payload_growth_chunk_size :: nat

definition bc_default :: buffer_config where
  "bc_default = \<lparr>bc_control_block_capacity = 0, bc_control_block_block_size = 0, bc_control_block_growth_chunk_size = 1,
     bc_payload_capacity = 0, bc_payload_block_size = 0, bc_payload_growth_chunk_size = 1\<rparr>"

record buffer_manager =
  bm_ops :: buffer_ops
  bm_core :: buffer_core

definition bm_new :: buffer_manager where
  "bm_new = \<lparr>bm_ops = None, bm_core = pm_new\<rparr>"

definition bm_onCore :: "(buffer_core, 'a) act \<Rightarrow> (buffer_manager, 'a) act" where
  "bm_onCore m B = (case m (bm_core B) of (x, M) \<Rightarrow> (x, B\<lparr>bm_core := M\<rparr>))"

definition bm_orDefault :: "nat \<Rightarrow> nat \<Rightarrow> nat" where
  "bm_orDefault n d = (if n = 0 then d else n)"

definition bm_configure :: "buffer_config \<Rightarrow> buffer_ops \<Rightarrow> (buffer_manager, unit) act" where
  "bm_configure cfg ops B =
     bm_onCore (pm_configure buffer_traits
         \<lparr>cfg_cb_capacity = bm_orDefault (bc_control_block_capacity cfg) 64,
          cfg_cb_block_size = bm_orDefault (bc_control_block_block_size cfg) 16,
          cfg_cb_growth = bc_control_block_growth_chunk_size cfg,
          cfg_payload_capacity = bm_orDefault (bc_payload_capacity cfg) 64,
          cfg_payload_block_size = bm_orDefault (bc_payload_block_size cfg) 16,
          cfg_payload_growth = bc_payload_growth_chunk_size cfg\<rparr> br_default ops) (B\<lparr>bm_ops := ops\<rparr>)"

definition bm_shutdown :: "(buffer_manager, unit) act" where
  "bm_shutdown B =
     bindA (bm_onCore (pm_shutdown buffer_traits br_default (bm_ops B))) (\<lambda>_ B. (Inr (), B\<lparr>bm_ops := None\<rparr>)) B"

definition bm_acquire :: "nat \<Rightarrow> nat \<Rightarrow> (buffer_manager, strong_lease) act" where
  "bm_acquire n alignment B =
     bindA (bm_onCore pm_ensureConfigured) (\<lambda>_.
     if n = 0 then throwA InvalidParameter
     else bindA (bm_onCore (pm_acquirePayloadOrGrowAndCreate buffer_traits
                   (br_default\<lparr>br_size := n, br_alignment := alignment\<rparr>) (bm_ops B))) (\<lambda>h.
          if \<not> handle_isValid h then throwA OutOfRange
          else bm_onCore (pm_acquireLease buffer_traits h))) B"

definition bm_release :: "strong_lease \<Rightarrow> (buffer_manager, strong_lease) act" where
  "bm_release l = bm_onCore (sl_release buffer_traits l)"

text \<open>The buffer a lease gives access to.\<close>

definition bm_payload :: "buffer_manager \<Rightarrow> strong_lease \<Rightarrow> cpu_buffer option" where
  "bm_payload B l =
     (case sl_payloadPtr l (bm_core B) of
        Inr (Some a) \<Rightarrow> rbv_mem (sp_payloads (pm_payloads (bm_core B))) a
      | _ \<Rightarrow> None)"

text \<open>Addresses of a test allocator: each slot index has its own megabyte.\<close>

definition ex_ops :: buffer_ops where
  "ex_ops = Some (\<lambda>r. (unat (h_index (br_handle r)) + 1) * 2 ^ 20)"

definition ex_config :: buffer_config where
  "ex_config = bc_default\<lparr>bc_control_block_capacity := 1, bc_control_block_block_size := 1,
     bc_payload_capacity := 1, bc_payload_block_size := 1\<rparr>"

section \<open>Reuse of buffers\<close>

text \<open>
  a released buffer is handed out again whatever its size.  After a buffer of 16 bytes has been
  acquired and released, \<open>acquire(4096)\<close> succeeds and its lease leads to the same buffer of 16 bytes:
  the payload pool keeps created payloads and takes any of them, and the request's size is only used
  when a payload is created.
\<close>

theorem bm_acquire_ignores_size:
  "case bm_configure ex_config ex_ops bm_new of (_, B1) \<Rightarrow>
   case bm_acquire 16 0 B1 of (Inl _, _) \<Rightarrow> False | (Inr l1, B2) \<Rightarrow>
   case bm_release l1 B2 of (_, B3) \<Rightarrow>
   case bm_acquire 4096 0 B3 of (Inl _, _) \<Rightarrow> False | (Inr l2, B4) \<Rightarrow>
     map_option (\<lambda>b. vw_size (bf_view b)) (bm_payload B2 l1) = Some 16 \<and>
     map_option (\<lambda>b. vw_size (bf_view b)) (bm_payload B4 l2) = Some 16"
  by code_simp

end
