(* ===== verification/DTypeGen.thy ===== *)
theory DTypeGen
  imports ArchGen
begin

text \<open>
  The dtype table generator, \<open>src/tools/codegen/gen_dtypes.cpp\<close>: parsing of \<open>dtypes.yml\<close>, checks of
  the references, promotion table, cast masks and the rendering of the two generated files.  \<open>Fail\<close> is
  \<open>None\<close>; the conversion of a scalar to \<open>int\<close> is the argument \<open>as_int\<close>, as in \<open>ArchGen\<close>.
\<close>

unbundle bit_operations_syntax

section \<open>Reading\<close>

definition yaml_isMap :: "yaml \<Rightarrow> bool" where
  "yaml_isMap node \<longleftrightarrow> (case node of YMap _ \<Rightarrow> True | _ \<Rightarrow> False)"

definition dg_readString :: "yaml \<Rightarrow> string \<Rightarrow> bool \<Rightarrow> string option" where
  "dg_readString node key required =
     (case yaml_get node key of
        None \<Rightarrow> if required then None else Some []
      | Some (YScalar s) \<Rightarrow> Some s
      | Some _ \<Rightarrow> None)"

definition dg_readStringList :: "yaml \<Rightarrow> string \<Rightarrow> string list option" where
  "dg_readStringList node key =
     (case yaml_get node key of
        None \<Rightarrow> Some []
      | Some (YSequence xs) \<Rightarrow> gen_readItems (\<lambda>x. case x of YScalar s \<Rightarrow> Some s | _ \<Rightarrow> None) xs
      | Some _ \<Rightarrow> None)"

definition dg_readInt :: "(string \<Rightarrow> int option) \<Rightarrow> yaml \<Rightarrow> string \<Rightarrow> int \<Rightarrow> int option" where
  "dg_readInt as_int node key default_value =
     (case yaml_get node key of
        None \<Rightarrow> Some default_value
      | Some (YScalar s) \<Rightarrow> as_int s
      | Some _ \<Rightarrow> None)"

record dtype_def =
  dd_id :: string
  dd_cpp_type :: string
  dd_display_name :: string
  dd_category :: string
  dd_promotion_priority :: int
  dd_compute_dtype :: string
  dd_implicit_cast_to :: "string list"
  dd_explicit_cast_to :: "string list"
  dd_metadata :: "yaml option"

record promotion_override =
  po_lhs :: string
  po_rhs :: string
  po_result :: string

record dtype_config =
  dc_schema_version :: string
  dc_dtypes :: "dtype_def list"
  dc_promotion_overrides :: "promotion_override list"

definition dg_orElse :: "string \<Rightarrow> string \<Rightarrow> string" where
  "dg_orElse s d = (if s = [] then d else s)"

text \<open>One entry of \<open>dtypes\<close>, with the ids and C++ types of the entries before it.\<close>

definition dg_parseDType ::
  "(string \<Rightarrow> int option) \<Rightarrow> string list \<Rightarrow> string list \<Rightarrow> yaml \<Rightarrow> dtype_def option" where
  "dg_parseDType as_int seen_ids seen_cpp_types node =
     (if \<not> yaml_isMap node then None
      else Option.bind (dg_readString node ''id'' True) (\<lambda>i.
      if i = [] \<or> i \<in> set seen_ids then None
      else Option.bind (dg_readString node ''cpp_type'' True) (\<lambda>c.
      if c = [] \<or> c \<in> set seen_cpp_types then None
      else
        Option.bind (dg_readString node ''display_name'' False) (\<lambda>d.
        Option.bind (dg_readString node ''category'' False) (\<lambda>cat.
        Option.bind (dg_readInt as_int node ''promotion_priority'' 0) (\<lambda>p.
        Option.bind (dg_readString node ''compute_dtype'' False) (\<lambda>compute.
        Option.bind (dg_readStringList node ''implicit_cast_to'') (\<lambda>implicit.
        Option.bind (dg_readStringList node ''explicit_cast_to'') (\<lambda>explicit.
        Some \<lparr>dd_id = i, dd_cpp_type = c, dd_display_name = dg_orElse d i, dd_category = dg_orElse cat ''unknown'',
          dd_promotion_priority = p, dd_compute_dtype = dg_orElse compute i, dd_implicit_cast_to = implicit,
          dd_explicit_cast_to = explicit, dd_metadata = yaml_get node ''metadata''\<rparr>))))))))) "

primrec dg_parseDTypes ::
  "(string \<Rightarrow> int option) \<Rightarrow> string list \<Rightarrow> string list \<Rightarrow> yaml list \<Rightarrow> dtype_def list option" where
  "dg_parseDTypes as_int seen_ids seen_cpp_types [] = Some []"
| "dg_parseDTypes as_int seen_ids seen_cpp_types (node # nodes) =
     Option.bind (dg_parseDType as_int seen_ids seen_cpp_types node) (\<lambda>d.
     map_option ((#) d) (dg_parseDTypes as_int (dd_id d # seen_ids) (dd_cpp_type d # seen_cpp_types) nodes))"

definition dg_parseOverride :: "yaml \<Rightarrow> promotion_override option" where
  "dg_parseOverride node =
     (if \<not> yaml_isMap node then None
      else Option.bind (dg_readString node ''lhs'' True) (\<lambda>l.
           Option.bind (dg_readString node ''rhs'' True) (\<lambda>r.
           Option.bind (dg_readString node ''result'' True) (\<lambda>res.
           Some \<lparr>po_lhs = l, po_rhs = r, po_result = res\<rparr>))))"

definition dg_parseConfig :: "(string \<Rightarrow> int option) \<Rightarrow> yaml \<Rightarrow> dtype_config option" where
  "dg_parseConfig as_int root =
     (if \<not> yaml_isMap root then None
      else case yaml_get root ''schema_version'' of
        Some (YScalar v) \<Rightarrow>
          (case yaml_get root ''dtypes'' of
             Some (YSequence nodes) \<Rightarrow>
               Option.bind (dg_parseDTypes as_int [] [] nodes) (\<lambda>dtypes.
               Option.bind (case yaml_get root ''promotion_overrides'' of
                              None \<Rightarrow> Some []
                            | Some (YSequence os) \<Rightarrow> gen_readItems dg_parseOverride os
                            | Some _ \<Rightarrow> None) (\<lambda>overrides.
               Some \<lparr>dc_schema_version = v, dc_dtypes = dtypes, dc_promotion_overrides = overrides\<rparr>))
           | _ \<Rightarrow> None)
      | _ \<Rightarrow> None)"

section \<open>Resolution\<close>

text \<open>\<open>emplace\<close> keeps the first entry of an id.\<close>

definition dg_idToIndex :: "dtype_def list \<Rightarrow> string \<Rightarrow> nat option" where
  "dg_idToIndex dtypes = map_of (zip (map dd_id dtypes) [0..<length dtypes])"

definition dg_known :: "dtype_def list \<Rightarrow> string \<Rightarrow> bool" where
  "dg_known dtypes i \<longleftrightarrow> dg_idToIndex dtypes i \<noteq> None"

definition dg_resolveConfig :: "dtype_config \<Rightarrow> dtype_config option" where
  "dg_resolveConfig config =
     (let known = dg_known (dc_dtypes config)
      in if dc_schema_version config = ''1.0'' \<and>
            (\<forall>d \<in> set (dc_dtypes config). known (dd_compute_dtype d) \<and>
               (\<forall>t \<in> set (dd_implicit_cast_to d). known t) \<and> distinct (dd_implicit_cast_to d) \<and>
               (\<forall>t \<in> set (dd_explicit_cast_to d). known t) \<and> distinct (dd_explicit_cast_to d)) \<and>
            (\<forall>p \<in> set (dc_promotion_overrides config). known (po_lhs p) \<and> known (po_rhs p) \<and> known (po_result p))
         then Some config else None)"

section \<open>Tables\<close>

definition dg_promotionBase :: "dtype_def list \<Rightarrow> nat list list" where
  "dg_promotionBase dtypes =
     map (\<lambda>lhs. map (\<lambda>rhs. if dd_promotion_priority (dtypes ! lhs) \<ge> dd_promotion_priority (dtypes ! rhs) then lhs else rhs)
       [0..<length dtypes]) [0..<length dtypes]"

definition dg_index :: "dtype_def list \<Rightarrow> string \<Rightarrow> nat" where
  "dg_index dtypes i = the (dg_idToIndex dtypes i)"

definition dg_applyOverride :: "dtype_def list \<Rightarrow> nat list list \<Rightarrow> promotion_override \<Rightarrow> nat list list" where
  "dg_applyOverride dtypes table p =
     (let l = dg_index dtypes (po_lhs p)
      in table[l := (table ! l)[dg_index dtypes (po_rhs p) := dg_index dtypes (po_result p)]])"

definition dg_promotionTable :: "dtype_config \<Rightarrow> nat list list" where
  "dg_promotionTable config =
     foldl (dg_applyOverride (dc_dtypes config)) (dg_promotionBase (dc_dtypes config)) (dc_promotion_overrides config)"

definition dg_setBit :: "dtype_def list \<Rightarrow> u64 \<Rightarrow> string \<Rightarrow> u64" where
  "dg_setBit dtypes m target = m OR push_bit (dg_index dtypes target) 1"

definition dg_implicitMask :: "dtype_def list \<Rightarrow> nat \<Rightarrow> u64" where
  "dg_implicitMask dtypes i = foldl (dg_setBit dtypes) (push_bit i 1) (dd_implicit_cast_to (dtypes ! i))"

definition dg_explicitMask :: "dtype_def list \<Rightarrow> nat \<Rightarrow> u64" where
  "dg_explicitMask dtypes i =
     foldl (dg_setBit dtypes) (foldl (dg_setBit dtypes) (push_bit i 1) (dd_implicit_cast_to (dtypes ! i)))
       (dd_explicit_cast_to (dtypes ! i))"

text \<open>
  What the compiler reads: the enumerators of \<open>dtype.def\<close> and the arrays of \<open>dtype_tables.h\<close>, where a
  dtype is written as the name of its enumerator.
\<close>

record dtype_tables =
  dt_ids :: "string list"
  dt_display_names :: "string list"
  dt_categories :: "string list"
  dt_priorities :: "int list"
  dt_cpp_types :: "string list"
  dt_compute_types :: "string list"
  dt_promotion :: "string list list"
  dt_implicit :: "u64 list"
  dt_explicit :: "u64 list"

definition dg_tables :: "dtype_config \<Rightarrow> dtype_tables" where
  "dg_tables config =
     (let ds = dc_dtypes config; is = [0..<length ds]
      in \<lparr>dt_ids = map dd_id ds, dt_display_names = map dd_display_name ds, dt_categories = map dd_category ds,
          dt_priorities = map dd_promotion_priority ds, dt_cpp_types = map dd_cpp_type ds,
          dt_compute_types = map dd_compute_dtype ds,
          dt_promotion = map (map (\<lambda>r. dd_id (ds ! r))) (dg_promotionTable config),
          dt_implicit = map (dg_implicitMask ds) is, dt_explicit = map (dg_explicitMask ds) is\<rparr>)"

definition dg_generateOutputs :: "dtype_config \<Rightarrow> dtype_tables option" where
  "dg_generateOutputs config =
     (if length (dc_dtypes config) = 0 then None
      else if length (dc_dtypes config) > 64 then None
      else Some (dg_tables config))"

definition dg_main :: "(string \<Rightarrow> int option) \<Rightarrow> yaml \<Rightarrow> dtype_tables option" where
  "dg_main as_int root =
     Option.bind (dg_parseConfig as_int root) (\<lambda>parsed.
     Option.bind (dg_resolveConfig parsed) dg_generateOutputs)"

section \<open>Rendering\<close>

definition dg_escapeChar :: "char \<Rightarrow> string" where
  "dg_escapeChar ch =
     (if ch = CHR 0x5C then [CHR 0x5C, CHR 0x5C]
      else if ch = CHR 0x22 then [CHR 0x5C, CHR 0x22]
      else if ch = CHR 0x0A then [CHR 0x5C, CHR ''n'']
      else if ch = CHR 0x09 then [CHR 0x5C, CHR ''t'']
      else [ch])"

definition dg_escape :: "string \<Rightarrow> string" where
  "dg_escape value = concat (map dg_escapeChar value)"

definition dg_hexDigit :: "nat \<Rightarrow> char" where
  "dg_hexDigit d = ''0123456789ABCDEF'' ! d"

fun dg_showBase :: "nat \<Rightarrow> nat \<Rightarrow> string" where
  "dg_showBase b n = (if b \<le> 1 \<or> n < b then [dg_hexDigit n] else dg_showBase b (n div b) @ [dg_hexDigit (n mod b)])"

declare dg_showBase.simps [simp del]

definition dg_showInt :: "int \<Rightarrow> string" where
  "dg_showInt i = (if i < 0 then CHR ''-'' # dg_showBase 10 (nat (- i)) else dg_showBase 10 (nat i))"

definition dg_formatBitMask :: "u64 \<Rightarrow> string" where
  "dg_formatBitMask m = ''0x'' @ dg_showBase 16 (unat m) @ ''ULL''"

definition dg_line :: "string \<Rightarrow> string" where
  "dg_line s = s @ [CHR 0x0A]"

definition dg_quote :: "string \<Rightarrow> string" where
  "dg_quote s = CHR 0x22 # s @ [CHR 0x22]"

definition dg_defText :: "dtype_tables \<Rightarrow> string" where
  "dg_defText T =
     dg_line ''// Auto-generated. Do not edit.'' @
     concat (map (\<lambda>(i, c, d). dg_line (''DTYPE('' @ i @ '', '' @ c @ '', '' @ dg_quote (dg_escape d) @ '')''))
       (zip (dt_ids T) (zip (dt_cpp_types T) (dt_display_names T))))"

definition dg_array :: "string \<Rightarrow> string \<Rightarrow> string list \<Rightarrow> string" where
  "dg_array type name entries =
     dg_line (''inline constexpr std::array<'' @ type @ '', kDTypeCount> '' @ name @ '' = {'') @
     concat (map (\<lambda>e. dg_line (''    '' @ e @ '','')) entries) @ dg_line ''};'' @ dg_line []"

definition dg_dtypeName :: string where
  "dg_dtypeName = ''::orteaf::internal::DType''"

definition dg_promotionRow :: "string list \<Rightarrow> string" where
  "dg_promotionRow row =
     dg_line (''    std::array<'' @ dg_dtypeName @ '', kDTypeCount>{'') @
     concat (map (\<lambda>r. dg_line (''        '' @ dg_dtypeName @ ''::'' @ r @ '','')) row) @ dg_line ''    },''"

definition dg_castMatrix :: "string \<Rightarrow> u64 list \<Rightarrow> string" where
  "dg_castMatrix name masks =
     dg_array ''std::bitset<kDTypeCount>'' name
       (map (\<lambda>m. ''std::bitset<kDTypeCount>{'' @ dg_formatBitMask m @ ''}'') masks)"

definition dg_headerText :: "dtype_tables \<Rightarrow> string" where
  "dg_headerText T =
     dg_line ''// Auto-generated. Do not edit.'' @ dg_line ''#pragma once'' @ dg_line [] @
     concat (map (\<lambda>h. dg_line (''#include <'' @ h @ ''>'')) [''array'', ''bitset'', ''cstddef'', ''cstdint'', ''string_view'']) @
     dg_line [] @ dg_line ''namespace orteaf::generated::dtype_tables {'' @
     dg_line ''using ::orteaf::internal::DType;'' @ dg_line [] @
     dg_line (''inline constexpr std::size_t kDTypeCount = '' @ dg_showBase 10 (length (dt_ids T)) @ '';'') @ dg_line [] @
     dg_array ''std::string_view'' ''kDTypeDisplayNames'' (map (\<lambda>d. dg_quote (dg_escape d)) (dt_display_names T)) @
     dg_array ''std::string_view'' ''kDTypeCategories'' (map (\<lambda>d. dg_quote (dg_escape d)) (dt_categories T)) @
     dg_array ''int'' ''kDTypePromotionPriorities'' (map dg_showInt (dt_priorities T)) @
     dg_array ''std::size_t'' ''kDTypeSize'' (map (\<lambda>c. ''sizeof('' @ c @ '')'') (dt_cpp_types T)) @
     dg_array ''std::size_t'' ''kDTypeAlignment'' (map (\<lambda>c. ''alignof('' @ c @ '')'') (dt_cpp_types T)) @
     dg_array dg_dtypeName ''kDTypeComputeType'' (map (\<lambda>c. dg_dtypeName @ ''::'' @ c) (dt_compute_types T)) @
     dg_line (''inline constexpr std::array<std::array<'' @ dg_dtypeName @ '', kDTypeCount>, kDTypeCount> kPromotionTable = {'') @
     concat (map dg_promotionRow (dt_promotion T)) @ dg_line ''};'' @ dg_line [] @
     dg_castMatrix ''kImplicitCastMatrix'' (dt_implicit T) @ dg_castMatrix ''kExplicitCastMatrix'' (dt_explicit T) @
     dg_line ''}  // namespace orteaf::generated::dtype_tables''"

section \<open>The generated literals\<close>

text \<open>
  How C++ reads the contents of a string literal after its opening quote: up to the first quote that is
  not escaped, a newline ends it with an error.  The escapes are those the generator writes.
\<close>

definition cxx_escape :: "char \<Rightarrow> char" where
  "cxx_escape e = (if e = CHR ''n'' then CHR 0x0A else if e = CHR ''t'' then CHR 0x09 else e)"

fun cxx_readLiteral :: "string \<Rightarrow> (string \<times> string) option" where
  "cxx_readLiteral [] = None"
| "cxx_readLiteral (ch # chs) =
     (if ch = CHR 0x22 then Some ([], chs)
      else if ch = CHR 0x0A then None
      else if ch = CHR 0x5C then
        (case chs of [] \<Rightarrow> None | e # es \<Rightarrow> map_option (\<lambda>(s, r). (cxx_escape e # s, r)) (cxx_readLiteral es))
      else map_option (\<lambda>(s, r). (ch # s, r)) (cxx_readLiteral chs))"

definition cxx_digit :: "char \<Rightarrow> nat" where
  "cxx_digit ch = (let n = of_char ch in if n < 58 then n - 48 else n - 55)"

definition cxx_readBase :: "nat \<Rightarrow> string \<Rightarrow> nat" where
  "cxx_readBase b s = foldl (\<lambda>n ch. n * b + cxx_digit ch) 0 s"

lemma cxx_digit_hex:
  assumes "d < 16"
  shows "cxx_digit (dg_hexDigit d) = d"
proof -
  have "\<forall>d \<in> set [0..<16]. cxx_digit (dg_hexDigit d) = d" by code_simp
  with assms show ?thesis by simp
qed

lemma cxx_readBase_show:
  assumes "1 < b" and "b \<le> 16"
  shows "cxx_readBase b (dg_showBase b n) = n"
proof (induction n rule: less_induct)
  case (less n)
  show ?case
  proof (cases "n < b")
    case True
    with assms show ?thesis
      by (simp add: dg_showBase.simps[of b n] cxx_readBase_def cxx_digit_hex)
  next
    case False
    then have "n div b < n" using assms by (intro div_less_dividend) simp_all
    moreover have "n mod b < 16" using assms by (intro less_le_trans[OF mod_less_divisor]) simp_all
    ultimately show ?thesis
      using less.IH[of "n div b"] False assms
      by (simp add: dg_showBase.simps[of b n] cxx_readBase_def cxx_digit_hex)
  qed
qed

text \<open>
  the literals of the generated files denote the values they were made from.  A C++ compiler reads
  an escaped name, put between quotes, as that name and continues right after the closing quote,
  whatever characters the name has, so no name can break out of its literal; and the hexadecimal digits
  of a cast mask and the decimal digits of a count denote the mask and the count.
\<close>

theorem dg_literals_roundtrip:
  "cxx_readLiteral (tl (dg_quote (dg_escape name) @ rest)) = Some (name, rest) \<and>
   (\<exists>digits. dg_formatBitMask m = ''0x'' @ digits @ ''ULL'' \<and> cxx_readBase 16 digits = unat m) \<and>
   cxx_readBase 10 (dg_showBase 10 count) = count"
proof (intro conjI)
  show "cxx_readLiteral (tl (dg_quote (dg_escape name) @ rest)) = Some (name, rest)"
    by (induction name) (auto simp: dg_quote_def dg_escape_def dg_escapeChar_def cxx_escape_def)
  show "\<exists>digits. dg_formatBitMask m = ''0x'' @ digits @ ''ULL'' \<and> cxx_readBase 16 digits = unat m"
    by (simp add: dg_formatBitMask_def cxx_readBase_show)
  show "cxx_readBase 10 (dg_showBase 10 count) = count"
    by (simp add: cxx_readBase_show)
qed

end
