(* ===== verification/DTypes.thy ===== *)
theory DTypes
  imports DTypeGen
begin

text \<open>
  \<open>dtype/dtype.h\<close>: element types, promotion and casts on the generated tables.  A dtype is its 16-bit
  enum value.  \<open>dt_readTables\<close> gives the tables the generated files define when they compile: it turns the
  enumerator names into values; \<open>sizeof\<close> and \<open>alignof\<close> of the C++ types belong to the compiler and are
  arguments.  Whether the files compile is not modelled: the generator does not check that an id is a C++
  identifier (and not \<open>Count\<close>, which \<open>dtype.h\<close> adds), nor that \<open>cpp_type\<close> names a type.
\<close>

section \<open>The tables\<close>

record dtype_lib =
  dl_ids :: "string list"
  dl_display_names :: "string list"
  dl_categories :: "string list"
  dl_priorities :: "int list"
  dl_sizes :: "nat list"
  dl_alignments :: "nat list"
  dl_compute :: "u16 list"
  dl_promotion :: "u16 list list"
  dl_implicit :: "u64 list"
  dl_explicit :: "u64 list"

text \<open>The value of an enumerator: its position in \<open>dtype.def\<close>.  \<open>None\<close>: there is no such enumerator.\<close>

definition dt_enumerator :: "dtype_tables \<Rightarrow> string \<Rightarrow> u16 option" where
  "dt_enumerator T name = map_option of_nat (map_of (zip (dt_ids T) [0..<length (dt_ids T)]) name)"

definition dt_readTables :: "(string \<Rightarrow> nat) \<Rightarrow> (string \<Rightarrow> nat) \<Rightarrow> dtype_tables \<Rightarrow> dtype_lib option" where
  "dt_readTables sz al T =
     Option.bind (gen_readItems (dt_enumerator T) (dt_compute_types T)) (\<lambda>compute.
     Option.bind (gen_readItems (gen_readItems (dt_enumerator T)) (dt_promotion T)) (\<lambda>promotion.
     Some \<lparr>dl_ids = dt_ids T, dl_display_names = dt_display_names T, dl_categories = dt_categories T,
       dl_priorities = dt_priorities T, dl_sizes = map sz (dt_cpp_types T), dl_alignments = map al (dt_cpp_types T),
       dl_compute = compute, dl_promotion = promotion, dl_implicit = dt_implicit T, dl_explicit = dt_explicit T\<rparr>))"

section \<open>Queries\<close>

definition dt_toIndex :: "u16 \<Rightarrow> nat" where
  "dt_toIndex dtype = unat dtype"

definition dt_fromIndex :: "nat \<Rightarrow> u16" where
  "dt_fromIndex i = of_nat i"

definition dt_count :: "dtype_lib \<Rightarrow> nat" where
  "dt_count L = length (dl_ids L)"

definition dt_allDTypes :: "dtype_lib \<Rightarrow> u16 list" where
  "dt_allDTypes L = map of_nat [0..<dt_count L]"

definition dt_isValidIndex :: "dtype_lib \<Rightarrow> nat \<Rightarrow> bool" where
  "dt_isValidIndex L i \<longleftrightarrow> i < dt_count L"

definition dt_idOf :: "dtype_lib \<Rightarrow> u16 \<Rightarrow> string res" where
  "dt_idOf L dtype = ar_at (dl_ids L) (dt_toIndex dtype)"

definition dt_displayNameOf :: "dtype_lib \<Rightarrow> u16 \<Rightarrow> string res" where
  "dt_displayNameOf L dtype = ar_at (dl_display_names L) (dt_toIndex dtype)"

definition dt_categoryOf :: "dtype_lib \<Rightarrow> u16 \<Rightarrow> string res" where
  "dt_categoryOf L dtype = ar_at (dl_categories L) (dt_toIndex dtype)"

definition dt_promotionPriority :: "dtype_lib \<Rightarrow> u16 \<Rightarrow> int res" where
  "dt_promotionPriority L dtype = ar_at (dl_priorities L) (dt_toIndex dtype)"

definition dt_sizeOf :: "dtype_lib \<Rightarrow> u16 \<Rightarrow> nat res" where
  "dt_sizeOf L dtype = ar_at (dl_sizes L) (dt_toIndex dtype)"

definition dt_alignmentOf :: "dtype_lib \<Rightarrow> u16 \<Rightarrow> nat res" where
  "dt_alignmentOf L dtype = ar_at (dl_alignments L) (dt_toIndex dtype)"

definition dt_computeType :: "dtype_lib \<Rightarrow> u16 \<Rightarrow> u16 res" where
  "dt_computeType L dtype = ar_at (dl_compute L) (dt_toIndex dtype)"

definition dt_promote :: "dtype_lib \<Rightarrow> u16 \<Rightarrow> u16 \<Rightarrow> u16 res" where
  "dt_promote L lhs rhs = bindR (ar_at (dl_promotion L) (dt_toIndex lhs)) (\<lambda>row. ar_at row (dt_toIndex rhs))"

datatype cast_mode = Implicit | Explicit

text \<open>A row of the cast matrix is a \<open>std::bitset<kDTypeCount>\<close>.\<close>

definition dt_canCast :: "dtype_lib \<Rightarrow> u16 \<Rightarrow> u16 \<Rightarrow> cast_mode \<Rightarrow> bool res" where
  "dt_canCast L src dst mode =
     bindR (ar_at (case mode of Implicit \<Rightarrow> dl_implicit L | Explicit \<Rightarrow> dl_explicit L) (dt_toIndex src)) (\<lambda>row.
     if dt_toIndex dst < dt_count L then Inr (bit row (dt_toIndex dst)) else Inl DanglingPointer)"

definition dt_canImplicitlyCast :: "dtype_lib \<Rightarrow> u16 \<Rightarrow> u16 \<Rightarrow> bool res" where
  "dt_canImplicitlyCast L src dst = dt_canCast L src dst Implicit"

definition dt_canExplicitlyCast :: "dtype_lib \<Rightarrow> u16 \<Rightarrow> u16 \<Rightarrow> bool res" where
  "dt_canExplicitlyCast L src dst = dt_canCast L src dst Explicit"

section \<open>What the generator guarantees\<close>

definition dg_wf :: "dtype_config \<Rightarrow> bool" where
  "dg_wf c \<longleftrightarrow> distinct (map dd_id (dc_dtypes c)) \<and> 0 < length (dc_dtypes c) \<and> length (dc_dtypes c) \<le> 64 \<and>
     dg_resolveConfig c = Some c"

lemma dg_parseDTypes_distinct:
  "dg_parseDTypes as_int ids types nodes = Some ds \<Longrightarrow>
   distinct (map dd_id ds) \<and> set (map dd_id ds) \<inter> set ids = {}"
proof (induction nodes arbitrary: ids types ds)
  case (Cons node nodes)
  then obtain d es where d: "dg_parseDType as_int ids types node = Some d" "ds = d # es"
    "dg_parseDTypes as_int (dd_id d # ids) (dd_cpp_type d # types) nodes = Some es"
    by (auto simp: bind_eq_Some_conv)
  have "dd_id d \<notin> set ids"
    using d(1) by (auto simp: dg_parseDType_def bind_eq_Some_conv split: if_splits)
  with d(2) Cons.IH[OF d(3)] show ?case by auto
qed simp

lemma dg_resolveConfig_same: "dg_resolveConfig c = Some d \<Longrightarrow> d = c"
  by (simp add: dg_resolveConfig_def Let_def split: if_splits)

lemma dg_main_wf:
  assumes "dg_main as_int root = Some T"
  obtains c where "dg_parseConfig as_int root = Some c" "dg_wf c" "T = dg_tables c"
proof -
  obtain c where c: "dg_parseConfig as_int root = Some c" "dg_resolveConfig c = Some c" "dg_generateOutputs c = Some T"
    using assms by (auto simp: dg_main_def bind_eq_Some_conv dest: dg_resolveConfig_same)
  have "\<exists>nodes. dg_parseDTypes as_int [] [] nodes = Some (dc_dtypes c)"
    using c(1) by (auto simp: dg_parseConfig_def bind_eq_Some_conv split: if_splits option.splits yaml.splits)
  then have "distinct (map dd_id (dc_dtypes c))" using dg_parseDTypes_distinct by blast
  moreover have "0 < length (dc_dtypes c)" "length (dc_dtypes c) \<le> 64" "T = dg_tables c"
    using c(3) by (simp_all add: dg_generateOutputs_def split: if_splits)
  ultimately show thesis using that c(1,2) by (simp add: dg_wf_def)
qed

lemma dg_idToIndex_id:
  "distinct (map dd_id ds) \<Longrightarrow> i < length ds \<Longrightarrow> dg_idToIndex ds (dd_id (ds ! i)) = Some i"
  by (simp add: dg_idToIndex_def map_of_zip_nth[of "map dd_id ds" "[0..<length ds]" i, simplified])

lemma dg_index_id:
  "distinct (map dd_id ds) \<Longrightarrow> i < length ds \<Longrightarrow> dg_index ds (dd_id (ds ! i)) = i"
  by (simp add: dg_index_def dg_idToIndex_id)

lemma dg_knownE:
  assumes "dg_known ds t" and "distinct (map dd_id ds)"
  obtains k where "k < length ds" "dd_id (ds ! k) = t" "dg_index ds t = k" "dg_idToIndex ds t = Some k"
proof -
  have "t \<in> set (map dd_id ds)"
    using assms(1) map_of_zip_is_Some[of "map dd_id ds" "[0..<length ds]" t]
    by (simp add: dg_known_def dg_idToIndex_def)
  then obtain k where k: "k < length ds" "dd_id (ds ! k) = t"
    unfolding in_set_conv_nth by auto
  show thesis
    using that[OF k] dg_index_id[OF assms(2) k(1)] dg_idToIndex_id[OF assms(2) k(1)] k(2) by simp
qed

lemma dg_wfD:
  assumes "dg_wf c"
  shows "distinct (map dd_id (dc_dtypes c))" "0 < length (dc_dtypes c)" "length (dc_dtypes c) \<le> 64"
    and "d \<in> set (dc_dtypes c) \<Longrightarrow> dg_known (dc_dtypes c) (dd_compute_dtype d)"
    and "d \<in> set (dc_dtypes c) \<Longrightarrow> t \<in> set (dd_implicit_cast_to d) \<Longrightarrow> dg_known (dc_dtypes c) t"
    and "d \<in> set (dc_dtypes c) \<Longrightarrow> t \<in> set (dd_explicit_cast_to d) \<Longrightarrow> dg_known (dc_dtypes c) t"
    and "p \<in> set (dc_promotion_overrides c) \<Longrightarrow>
      dg_known (dc_dtypes c) (po_lhs p) \<and> dg_known (dc_dtypes c) (po_rhs p) \<and> dg_known (dc_dtypes c) (po_result p)"
proof -
  have "\<forall>d \<in> set (dc_dtypes c). dg_known (dc_dtypes c) (dd_compute_dtype d) \<and>
      (\<forall>t \<in> set (dd_implicit_cast_to d). dg_known (dc_dtypes c) t) \<and>
      (\<forall>t \<in> set (dd_explicit_cast_to d). dg_known (dc_dtypes c) t)"
    and "\<forall>p \<in> set (dc_promotion_overrides c). dg_known (dc_dtypes c) (po_lhs p) \<and>
      dg_known (dc_dtypes c) (po_rhs p) \<and> dg_known (dc_dtypes c) (po_result p)"
    using assms by (simp_all add: dg_wf_def dg_resolveConfig_def Let_def split: if_splits)
  then show "d \<in> set (dc_dtypes c) \<Longrightarrow> dg_known (dc_dtypes c) (dd_compute_dtype d)"
    and "d \<in> set (dc_dtypes c) \<Longrightarrow> t \<in> set (dd_implicit_cast_to d) \<Longrightarrow> dg_known (dc_dtypes c) t"
    and "d \<in> set (dc_dtypes c) \<Longrightarrow> t \<in> set (dd_explicit_cast_to d) \<Longrightarrow> dg_known (dc_dtypes c) t"
    and "p \<in> set (dc_promotion_overrides c) \<Longrightarrow>
      dg_known (dc_dtypes c) (po_lhs p) \<and> dg_known (dc_dtypes c) (po_rhs p) \<and> dg_known (dc_dtypes c) (po_result p)"
    by simp_all
qed (use assms in \<open>simp_all add: dg_wf_def\<close>)

text \<open>The promotion table holds what the configuration says: the last override, or the higher priority.\<close>

definition dg_overrideOf :: "promotion_override list \<Rightarrow> string \<Rightarrow> string \<Rightarrow> string option" where
  "dg_overrideOf os l r = map_of (rev (map (\<lambda>p. ((po_lhs p, po_rhs p), po_result p)) os)) (l, r)"

definition dg_promoted :: "dtype_config \<Rightarrow> nat \<Rightarrow> nat \<Rightarrow> string" where
  "dg_promoted c i j =
     (let x = dc_dtypes c ! i; y = dc_dtypes c ! j
      in case dg_overrideOf (dc_promotion_overrides c) (dd_id x) (dd_id y) of
           Some r \<Rightarrow> r
         | None \<Rightarrow> if dd_promotion_priority x \<ge> dd_promotion_priority y then dd_id x else dd_id y)"

lemma dg_applyOverride_nth:
  assumes "i < length table"
  shows "length (dg_applyOverride ds table p) = length table"
    and "length (dg_applyOverride ds table p ! i) = length (table ! i)"
    and "j < length (table ! i) \<Longrightarrow> dg_applyOverride ds table p ! i ! j =
      (if i = dg_index ds (po_lhs p) \<and> j = dg_index ds (po_rhs p) then dg_index ds (po_result p) else table ! i ! j)"
  using assms by (cases "dg_index ds (po_lhs p) = i"; auto simp: dg_applyOverride_def Let_def nth_list_update)+

lemma dg_overrides_fold:
  assumes ds: "distinct (map dd_id ds)"
    and os: "\<And>p. p \<in> set os \<Longrightarrow> dg_known ds (po_lhs p) \<and> dg_known ds (po_rhs p) \<and> dg_known ds (po_result p)"
    and i: "i < length ds" "j < length ds"
  shows "length (foldl (dg_applyOverride ds) (dg_promotionBase ds) os) = length ds \<and>
    length (foldl (dg_applyOverride ds) (dg_promotionBase ds) os ! i) = length ds \<and>
    foldl (dg_applyOverride ds) (dg_promotionBase ds) os ! i ! j =
     (case dg_overrideOf os (dd_id (ds ! i)) (dd_id (ds ! j)) of
        Some r \<Rightarrow> dg_index ds r
      | None \<Rightarrow> if dd_promotion_priority (ds ! i) \<ge> dd_promotion_priority (ds ! j) then i else j)"
  using os
proof (induction os rule: rev_induct)
  case Nil
  then show ?case using i by (simp add: dg_promotionBase_def dg_overrideOf_def)
next
  case (snoc p os)
  let ?t = "foldl (dg_applyOverride ds) (dg_promotionBase ds) os"
  have IH: "length ?t = length ds \<and> length (?t ! i) = length ds \<and> ?t ! i ! j =
     (case dg_overrideOf os (dd_id (ds ! i)) (dd_id (ds ! j)) of
        Some r \<Rightarrow> dg_index ds r
      | None \<Rightarrow> if dd_promotion_priority (ds ! i) \<ge> dd_promotion_priority (ds ! j) then i else j)"
    by (rule snoc.IH) (simp add: snoc.prems)
  obtain l where l: "l < length ds" "dd_id (ds ! l) = po_lhs p" "dg_index ds (po_lhs p) = l"
    using snoc.prems[of p] dg_knownE[OF _ ds] by (metis in_set_conv_decomp)
  obtain r where r: "r < length ds" "dd_id (ds ! r) = po_rhs p" "dg_index ds (po_rhs p) = r"
    using snoc.prems[of p] dg_knownE[OF _ ds] by (metis in_set_conv_decomp)
  have eq: "po_lhs p = dd_id (ds ! i) \<longleftrightarrow> i = l" "po_rhs p = dd_id (ds ! j) \<longleftrightarrow> j = r"
    using dg_index_id[OF ds] l r i by metis+
  have ov: "dg_overrideOf (os @ [p]) (dd_id (ds ! i)) (dd_id (ds ! j)) =
      (if i = l \<and> j = r then Some (po_result p) else dg_overrideOf os (dd_id (ds ! i)) (dd_id (ds ! j)))"
    using eq by (auto simp: dg_overrideOf_def)
  show ?case
    using IH i l(3) r(3) by (simp add: ov dg_applyOverride_nth)
qed

lemma dg_promotionTable_nth:
  assumes "dg_wf c" and "i < length (dc_dtypes c)" and "j < length (dc_dtypes c)"
  shows "length (dg_promotionTable c) = length (dc_dtypes c)"
    and "length (dg_promotionTable c ! i) = length (dc_dtypes c)"
    and "dg_promotionTable c ! i ! j < length (dc_dtypes c)"
    and "dd_id (dc_dtypes c ! (dg_promotionTable c ! i ! j)) = dg_promoted c i j"
proof -
  let ?ds = "dc_dtypes c"
  note w = dg_wfD[OF assms(1)]
  have f: "length (dg_promotionTable c) = length ?ds \<and> length (dg_promotionTable c ! i) = length ?ds \<and>
    dg_promotionTable c ! i ! j =
     (case dg_overrideOf (dc_promotion_overrides c) (dd_id (?ds ! i)) (dd_id (?ds ! j)) of
        Some r \<Rightarrow> dg_index ?ds r
      | None \<Rightarrow> if dd_promotion_priority (?ds ! i) \<ge> dd_promotion_priority (?ds ! j) then i else j)"
    unfolding dg_promotionTable_def using w(7) by (rule dg_overrides_fold[OF w(1) _ assms(2,3)])
  then show "length (dg_promotionTable c) = length ?ds" "length (dg_promotionTable c ! i) = length ?ds" by simp_all
  have "dg_promotionTable c ! i ! j < length ?ds \<and> dd_id (?ds ! (dg_promotionTable c ! i ! j)) = dg_promoted c i j"
  proof (cases "dg_overrideOf (dc_promotion_overrides c) (dd_id (?ds ! i)) (dd_id (?ds ! j))")
    case (Some r)
    then obtain p where "p \<in> set (dc_promotion_overrides c)" "r = po_result p"
      by (auto simp: dg_overrideOf_def dest!: map_of_SomeD)
    then obtain k where "k < length ?ds" "dd_id (?ds ! k) = r" "dg_index ?ds r = k"
      using w(7) dg_knownE[OF _ w(1)] by metis
    with f Some show ?thesis by (simp add: dg_promoted_def)
  qed (use f assms(2,3) in \<open>simp add: dg_promoted_def\<close>)
  then show "dg_promotionTable c ! i ! j < length ?ds" "dd_id (?ds ! (dg_promotionTable c ! i ! j)) = dg_promoted c i j"
    by simp_all
qed

section \<open>Masks and compilation\<close>

lemma dg_setBits:
  "j < 64 \<Longrightarrow> bit (foldl (dg_setBit ds) m ts) j \<longleftrightarrow> bit m j \<or> (\<exists>t \<in> set ts. dg_index ds t = j)"
proof (induction ts arbitrary: m)
  case (Cons t ts)
  then show ?case by (auto simp: dg_setBit_def bit_simps)
qed simp

lemma dg_masks_bit:
  assumes "j < 64"
  shows "bit (dg_implicitMask ds i) j \<longleftrightarrow> i = j \<or> (\<exists>t \<in> set (dd_implicit_cast_to (ds ! i)). dg_index ds t = j)"
    and "bit (dg_explicitMask ds i) j \<longleftrightarrow>
      i = j \<or> (\<exists>t \<in> set (dd_implicit_cast_to (ds ! i)) \<union> set (dd_explicit_cast_to (ds ! i)). dg_index ds t = j)"
  using assms by (auto simp: dg_implicitMask_def dg_explicitMask_def dg_setBits bit_simps)

lemma dg_index_iff:
  assumes "dg_known ds t" and "distinct (map dd_id ds)" and "j < length ds"
  shows "dg_index ds t = j \<longleftrightarrow> t = dd_id (ds ! j)"
  using dg_knownE[OF assms(1,2)] dg_index_id[OF assms(2,3)] by metis

lemma gen_readItems_map:
  "(\<And>x. x \<in> set xs \<Longrightarrow> f x = Some (g x)) \<Longrightarrow> gen_readItems f xs = Some (map g xs)"
  by (induction xs) simp_all

lemma dt_enumerator_known:
  assumes "dg_known (dc_dtypes c) t"
  shows "dt_enumerator (dg_tables c) t = Some (of_nat (dg_index (dc_dtypes c) t))"
proof -
  obtain k where "dg_idToIndex (dc_dtypes c) t = Some k" using assms by (auto simp: dg_known_def)
  then show ?thesis
    by (simp add: dt_enumerator_def dg_tables_def Let_def dg_index_def dg_idToIndex_def)
qed

definition dt_lib :: "(string \<Rightarrow> nat) \<Rightarrow> (string \<Rightarrow> nat) \<Rightarrow> dtype_config \<Rightarrow> dtype_lib" where
  "dt_lib sz al c =
     (let ds = dc_dtypes c; T = dg_tables c
      in \<lparr>dl_ids = dt_ids T, dl_display_names = dt_display_names T, dl_categories = dt_categories T,
          dl_priorities = dt_priorities T, dl_sizes = map sz (dt_cpp_types T), dl_alignments = map al (dt_cpp_types T),
          dl_compute = map (\<lambda>t. of_nat (dg_index ds t)) (dt_compute_types T),
          dl_promotion = map (map (\<lambda>t. of_nat (dg_index ds t))) (dt_promotion T),
          dl_implicit = dt_implicit T, dl_explicit = dt_explicit T\<rparr>)"

lemma dg_promotionTable_known:
  assumes "dg_wf c" and "row \<in> set (dg_promotionTable c)" and "r \<in> set row"
  shows "dg_known (dc_dtypes c) (dd_id (dc_dtypes c ! r))"
proof -
  let ?n = "length (dc_dtypes c)"
  have n: "0 < ?n" by (rule dg_wfD(2)[OF assms(1)])
  from dg_promotionTable_nth(1)[OF assms(1) n n] assms(2) obtain i where i: "i < ?n" "row = dg_promotionTable c ! i"
    unfolding in_set_conv_nth by auto
  from dg_promotionTable_nth(2)[OF assms(1) i(1) n] assms(3) i(2) obtain j where j: "j < ?n" "r = dg_promotionTable c ! i ! j"
    unfolding in_set_conv_nth by auto
  have "r < ?n" using dg_promotionTable_nth(3)[OF assms(1) i(1) j(1)] j(2) by simp
  then show ?thesis
    by (simp add: dg_known_def dg_idToIndex_id[OF dg_wfD(1)[OF assms(1)]])
qed

lemma dt_readTables_lib:
  assumes "dg_wf c"
  shows "dt_readTables sz al (dg_tables c) = Some (dt_lib sz al c)"
proof -
  let ?e = "dt_enumerator (dg_tables c)" and ?g = "\<lambda>t. of_nat (dg_index (dc_dtypes c) t) :: u16"
  have "gen_readItems ?e (dt_compute_types (dg_tables c)) = Some (map ?g (dt_compute_types (dg_tables c)))"
    using dg_wfD(4)[OF assms]
    by (intro gen_readItems_map dt_enumerator_known) (auto simp: dg_tables_def Let_def)
  moreover have "gen_readItems (gen_readItems ?e) (dt_promotion (dg_tables c)) =
      Some (map (map ?g) (dt_promotion (dg_tables c)))"
    using dg_promotionTable_known[OF assms]
    by (intro gen_readItems_map dt_enumerator_known) (fastforce simp: dg_tables_def Let_def)
  ultimately show ?thesis by (simp add: dt_readTables_def dt_lib_def Let_def)
qed

lemma dt_count_lib: "dt_count (dt_lib sz al c) = length (dc_dtypes c)"
  by (simp add: dt_count_def dt_lib_def dg_tables_def Let_def)

lemma dt_index_from: "i < 2 ^ 16 \<Longrightarrow> dt_toIndex (dt_fromIndex i) = i"
  by (simp add: dt_toIndex_def dt_fromIndex_def unsigned_of_nat take_bit_nat_eq_self)

text \<open>Every query on the tables of a well-formed configuration.\<close>

lemma dt_queries:
  fixes sz al :: "string \<Rightarrow> nat"
  assumes wf: "dg_wf c" and i: "i < length (dc_dtypes c)" and j: "j < length (dc_dtypes c)"
  defines "L \<equiv> dt_lib sz al c" and "x \<equiv> dc_dtypes c ! i" and "y \<equiv> dc_dtypes c ! j"
    and "a \<equiv> dt_fromIndex i" and "b \<equiv> dt_fromIndex j"
  shows "dt_toIndex a = i"
    and "dt_idOf L a = Inr (dd_id x)" "dt_displayNameOf L a = Inr (dd_display_name x)"
    and "dt_categoryOf L a = Inr (dd_category x)" "dt_promotionPriority L a = Inr (dd_promotion_priority x)"
    and "dt_sizeOf L a = Inr (sz (dd_cpp_type x))" "dt_alignmentOf L a = Inr (al (dd_cpp_type x))"
    and "bindR (dt_computeType L a) (dt_idOf L) = Inr (dd_compute_dtype x)"
    and "dt_promote L a b = Inr (dt_fromIndex (dg_promotionTable c ! i ! j))"
    and "bindR (dt_promote L a b) (dt_idOf L) = Inr (dg_promoted c i j)"
    and "dt_canImplicitlyCast L a b = Inr (i = j \<or> dd_id y \<in> set (dd_implicit_cast_to x))"
    and "dt_canExplicitlyCast L a b =
      Inr (i = j \<or> dd_id y \<in> set (dd_implicit_cast_to x) \<or> dd_id y \<in> set (dd_explicit_cast_to x))"
proof -
  note w = dg_wfD[OF wf]
  have small: "k < 2 ^ 16" if "k < length (dc_dtypes c)" for k using that w(3) by simp
  have ia: "dt_toIndex a = i" "dt_toIndex b = j"
    using small i j by (simp_all add: a_def b_def dt_index_from)
  have idx: "dt_idOf L (dt_fromIndex k) = Inr (dd_id (dc_dtypes c ! k))" if "k < length (dc_dtypes c)" for k
    using that small by (simp add: dt_idOf_def ar_at_def dt_index_from L_def dt_lib_def dg_tables_def Let_def)
  have xi: "x \<in> set (dc_dtypes c)" using i by (simp add: x_def)
  show "dt_toIndex a = i" by (rule ia(1))
  show "dt_idOf L a = Inr (dd_id x)" unfolding a_def x_def by (rule idx[OF i])
  show "dt_displayNameOf L a = Inr (dd_display_name x)" "dt_categoryOf L a = Inr (dd_category x)"
    "dt_promotionPriority L a = Inr (dd_promotion_priority x)"
    "dt_sizeOf L a = Inr (sz (dd_cpp_type x))" "dt_alignmentOf L a = Inr (al (dd_cpp_type x))"
    using i by (simp_all add: ia x_def dt_displayNameOf_def dt_categoryOf_def dt_promotionPriority_def dt_sizeOf_def
        dt_alignmentOf_def ar_at_def L_def dt_lib_def dg_tables_def Let_def)
  obtain k where k: "k < length (dc_dtypes c)" "dd_id (dc_dtypes c ! k) = dd_compute_dtype x"
    "dg_index (dc_dtypes c) (dd_compute_dtype x) = k"
    using dg_knownE[OF w(4)[OF xi] w(1)] by blast
  have "dt_computeType L a = Inr (dt_fromIndex k)"
    using i k(3) by (simp add: dt_computeType_def ar_at_def ia L_def dt_lib_def dg_tables_def Let_def x_def dt_fromIndex_def)
  then show "bindR (dt_computeType L a) (dt_idOf L) = Inr (dd_compute_dtype x)"
    using idx[OF k(1)] k(2) by simp
  note p = dg_promotionTable_nth[OF wf i j]
  show pr: "dt_promote L a b = Inr (dt_fromIndex (dg_promotionTable c ! i ! j))"
    using i j p(1-3) dg_index_id[OF w(1) p(3)]
    by (simp add: dt_promote_def ar_at_def ia L_def dt_lib_def dg_tables_def Let_def dt_fromIndex_def)
  show "bindR (dt_promote L a b) (dt_idOf L) = Inr (dg_promoted c i j)"
    using pr idx[OF p(3)] p(4) by simp
  have j64: "j < 64" using j w(3) by simp
  have bits: "(\<exists>t \<in> A. dg_index (dc_dtypes c) t = j) \<longleftrightarrow> dd_id y \<in> A" if "\<forall>t \<in> A. dg_known (dc_dtypes c) t" for A
    using that dg_index_iff[OF _ w(1) j] by (auto simp: y_def)
  show "dt_canImplicitlyCast L a b = Inr (i = j \<or> dd_id y \<in> set (dd_implicit_cast_to x))"
    using i j w(5)[OF xi] dg_masks_bit(1)[OF j64, of "dc_dtypes c" i] bits[of "set (dd_implicit_cast_to x)"]
    by (simp add: dt_canImplicitlyCast_def dt_canCast_def ar_at_def ia dt_count_lib L_def)
       (simp add: dt_lib_def dg_tables_def Let_def x_def)
  show "dt_canExplicitlyCast L a b =
      Inr (i = j \<or> dd_id y \<in> set (dd_implicit_cast_to x) \<or> dd_id y \<in> set (dd_explicit_cast_to x))"
    using i j w(5,6)[OF xi] dg_masks_bit(2)[OF j64, of "dc_dtypes c" i]
      bits[of "set (dd_implicit_cast_to x) \<union> set (dd_explicit_cast_to x)"]
    by (simp add: dt_canExplicitlyCast_def dt_canCast_def ar_at_def ia dt_count_lib L_def)
       (auto simp: dt_lib_def dg_tables_def Let_def x_def)
qed

section \<open>Contract\<close>

text \<open>
  C9: the runtime answers what the configuration says.  For every configuration the generator accepts,
  every dtype named in the generated tables is an enumerator, and on these tables (when the files that
  hold them compile) the enum has one value per entry in the order of the file, every query
  of \<open>dtype.h\<close> returns the value of the entry, \<open>promote\<close> returns the result of the last override of the
  pair and otherwise the operand of the higher priority (the left one on a tie), an implicit cast is
  allowed exactly to the type itself and its \<open>implicit_cast_to\<close>, an explicit one also to its
  \<open>explicit_cast_to\<close>.
\<close>

theorem dt_tables_faithful:
  fixes sz al :: "string \<Rightarrow> nat"
  assumes "dg_parseConfig as_int root = Some c" and "dg_main as_int root = Some T"
  shows "\<exists>L. dt_readTables sz al T = Some L \<and> dt_count L = length (dc_dtypes c) \<and>
    (\<forall>i < dt_count L. \<forall>j < dt_count L.
       let x = dc_dtypes c ! i; y = dc_dtypes c ! j; a = dt_fromIndex i; b = dt_fromIndex j
       in dt_toIndex a = i \<and> dt_idOf L a = Inr (dd_id x) \<and> dt_displayNameOf L a = Inr (dd_display_name x) \<and>
          dt_categoryOf L a = Inr (dd_category x) \<and> dt_promotionPriority L a = Inr (dd_promotion_priority x) \<and>
          dt_sizeOf L a = Inr (sz (dd_cpp_type x)) \<and> dt_alignmentOf L a = Inr (al (dd_cpp_type x)) \<and>
          bindR (dt_computeType L a) (dt_idOf L) = Inr (dd_compute_dtype x) \<and>
          bindR (dt_promote L a b) (dt_idOf L) = Inr (dg_promoted c i j) \<and>
          dt_canImplicitlyCast L a b = Inr (i = j \<or> dd_id y \<in> set (dd_implicit_cast_to x)) \<and>
          dt_canExplicitlyCast L a b =
            Inr (i = j \<or> dd_id y \<in> set (dd_implicit_cast_to x) \<or> dd_id y \<in> set (dd_explicit_cast_to x)))"
proof -
  obtain c' where "dg_parseConfig as_int root = Some c'" "dg_wf c'" "T = dg_tables c'"
    using dg_main_wf[OF assms(2)] by metis
  then have wf: "dg_wf c" "T = dg_tables c" using assms(1) by simp_all
  have "let x = dc_dtypes c ! i; y = dc_dtypes c ! j; a = dt_fromIndex i; b = dt_fromIndex j; L = dt_lib sz al c
       in dt_toIndex a = i \<and> dt_idOf L a = Inr (dd_id x) \<and> dt_displayNameOf L a = Inr (dd_display_name x) \<and>
          dt_categoryOf L a = Inr (dd_category x) \<and> dt_promotionPriority L a = Inr (dd_promotion_priority x) \<and>
          dt_sizeOf L a = Inr (sz (dd_cpp_type x)) \<and> dt_alignmentOf L a = Inr (al (dd_cpp_type x)) \<and>
          bindR (dt_computeType L a) (dt_idOf L) = Inr (dd_compute_dtype x) \<and>
          bindR (dt_promote L a b) (dt_idOf L) = Inr (dg_promoted c i j) \<and>
          dt_canImplicitlyCast L a b = Inr (i = j \<or> dd_id y \<in> set (dd_implicit_cast_to x)) \<and>
          dt_canExplicitlyCast L a b =
            Inr (i = j \<or> dd_id y \<in> set (dd_implicit_cast_to x) \<or> dd_id y \<in> set (dd_explicit_cast_to x))"
    if "i < length (dc_dtypes c)" "j < length (dc_dtypes c)" for i j
    unfolding Let_def by (intro conjI dt_queries[OF wf(1) that])
  then show ?thesis
    by (intro exI[of _ "dt_lib sz al c"]) (simp add: wf(2) dt_readTables_lib[OF wf(1)] dt_count_lib Let_def)
qed

text \<open>The entries of \<open>configs/dtype/dtypes.yml\<close>, without their metadata, which nothing reads.\<close>

definition dt_ex_entry :: "string \<Rightarrow> string \<Rightarrow> string \<Rightarrow> string \<Rightarrow> string \<Rightarrow> string \<Rightarrow> string list \<Rightarrow> string list \<Rightarrow> yaml" where
  "dt_ex_entry i c d cat p compute implicit explicit = YMap
     [(YScalar ''id'', YScalar i), (YScalar ''cpp_type'', YScalar c), (YScalar ''display_name'', YScalar d),
      (YScalar ''category'', YScalar cat), (YScalar ''promotion_priority'', YScalar p), (YScalar ''compute_dtype'', YScalar compute),
      (YScalar ''implicit_cast_to'', YSequence (map YScalar implicit)), (YScalar ''explicit_cast_to'', YSequence (map YScalar explicit))]"

definition dt_ex_override :: "string \<Rightarrow> string \<Rightarrow> string \<Rightarrow> yaml" where
  "dt_ex_override l r res = YMap [(YScalar ''lhs'', YScalar l), (YScalar ''rhs'', YScalar r), (YScalar ''result'', YScalar res)]"

definition dt_ex_yaml :: yaml where
  "dt_ex_yaml = YMap [(YScalar ''schema_version'', YScalar ''1.0''),
     (YScalar ''dtypes'', YSequence [
      dt_ex_entry ''Bool'' ''bool'' ''bool'' ''boolean'' ''10'' ''Bool''
        [''I8'', ''U8'']
        [''I16'', ''I32'', ''I64'', ''F16'', ''F32'', ''F64''],
      dt_ex_entry ''I8'' ''std::int8_t'' ''int8'' ''signed_integer'' ''100'' ''I32''
        [''I16'', ''I32'', ''F16'', ''F32'']
        [''I64'', ''F64'', ''Bool''],
      dt_ex_entry ''I16'' ''std::int16_t'' ''int16'' ''signed_integer'' ''200'' ''I32''
        [''I32'', ''F16'', ''F32'']
        [''I8'', ''I64'', ''F64'', ''Bool''],
      dt_ex_entry ''I32'' ''std::int32_t'' ''int32'' ''signed_integer'' ''300'' ''I32''
        [''I64'', ''F32'', ''F64'']
        [''I8'', ''I16'', ''Bool'', ''F16''],
      dt_ex_entry ''I64'' ''std::int64_t'' ''int64'' ''signed_integer'' ''400'' ''I64''
        [''F32'', ''F64'']
        [''I8'', ''I16'', ''I32'', ''Bool'', ''F16''],
      dt_ex_entry ''U8'' ''std::uint8_t'' ''uint8'' ''unsigned_integer'' ''110'' ''I32''
        [''U16'', ''U32'', ''I16'', ''I32'', ''F16'', ''F32'']
        [''I8'', ''U64'', ''I64'', ''F64'', ''Bool''],
      dt_ex_entry ''U16'' ''std::uint16_t'' ''uint16'' ''unsigned_integer'' ''210'' ''I32''
        [''U32'', ''I32'', ''F16'', ''F32'']
        [''U8'', ''U64'', ''I64'', ''F64'', ''Bool''],
      dt_ex_entry ''U32'' ''std::uint32_t'' ''uint32'' ''unsigned_integer'' ''310'' ''I32''
        [''U64'', ''I64'', ''F32'', ''F64'']
        [''U8'', ''U16'', ''I32'', ''Bool'', ''F16''],
      dt_ex_entry ''U64'' ''std::uint64_t'' ''uint64'' ''unsigned_integer'' ''410'' ''I64''
        [''F32'', ''F64'']
        [''U8'', ''U16'', ''U32'', ''I64'', ''Bool'', ''F16''],
      dt_ex_entry ''F8E4M3'' ''::orteaf::internal::Float8E4M3'' ''float8 (e4m3)'' ''floating_point'' ''420'' ''F16''
        [''F16'', ''F32'', ''F64'']
        [''I16'', ''I32'', ''I64'', ''U16'', ''U32'', ''U64'', ''Bool'', ''F8E5M2''],
      dt_ex_entry ''F8E5M2'' ''::orteaf::internal::Float8E5M2'' ''float8 (e5m2)'' ''floating_point'' ''430'' ''F16''
        [''F16'', ''F32'', ''F64'']
        [''I16'', ''I32'', ''I64'', ''U16'', ''U32'', ''U64'', ''Bool'', ''F8E4M3''],
      dt_ex_entry ''F16'' ''::orteaf::internal::Float16'' ''float16'' ''floating_point'' ''500'' ''F32''
        [''F32'', ''F64'']
        [''I16'', ''I32'', ''I64'', ''U16'', ''U32'', ''U64'', ''Bool''],
      dt_ex_entry ''F32'' ''float'' ''float32'' ''floating_point'' ''600'' ''F32''
        [''F64'']
        [''F16'', ''I32'', ''I64'', ''U32'', ''U64'', ''Bool''],
      dt_ex_entry ''F64'' ''double'' ''float64'' ''floating_point'' ''700'' ''F64''
        []
        [''F32'', ''F16'', ''I32'', ''I64'', ''U64'', ''Bool'']]),
     (YScalar ''promotion_overrides'', YSequence (map (\<lambda>r. dt_ex_override ''Bool'' r r) [''Bool'', ''F16'', ''F32'', ''F64'']))]"

definition dt_ex_as_int :: "string \<Rightarrow> int option" where
  "dt_ex_as_int s =
     foldl (\<lambda>n c. Option.bind n (\<lambda>n. let d = of_char c - 48 in if 0 \<le> d \<and> d \<le> 9 then Some (10 * n + d) else None))
       (Some 0) s"


definition dt_ex_def :: "string \<Rightarrow> string \<Rightarrow> string \<Rightarrow> string \<Rightarrow> int \<Rightarrow> string \<Rightarrow> string list \<Rightarrow> string list \<Rightarrow> dtype_def" where
  "dt_ex_def i c d cat p compute implicit explicit = \<lparr>dd_id = i, dd_cpp_type = c, dd_display_name = d, dd_category = cat,
     dd_promotion_priority = p, dd_compute_dtype = compute, dd_implicit_cast_to = implicit, dd_explicit_cast_to = explicit, dd_metadata = None\<rparr>"

definition dt_ex_config :: dtype_config where
  "dt_ex_config = \<lparr>dc_schema_version = ''1.0'', dc_dtypes = [
      dt_ex_def ''Bool'' ''bool'' ''bool'' ''boolean'' 10 ''Bool''
        [''I8'', ''U8'']
        [''I16'', ''I32'', ''I64'', ''F16'', ''F32'', ''F64''],
      dt_ex_def ''I8'' ''std::int8_t'' ''int8'' ''signed_integer'' 100 ''I32''
        [''I16'', ''I32'', ''F16'', ''F32'']
        [''I64'', ''F64'', ''Bool''],
      dt_ex_def ''I16'' ''std::int16_t'' ''int16'' ''signed_integer'' 200 ''I32''
        [''I32'', ''F16'', ''F32'']
        [''I8'', ''I64'', ''F64'', ''Bool''],
      dt_ex_def ''I32'' ''std::int32_t'' ''int32'' ''signed_integer'' 300 ''I32''
        [''I64'', ''F32'', ''F64'']
        [''I8'', ''I16'', ''Bool'', ''F16''],
      dt_ex_def ''I64'' ''std::int64_t'' ''int64'' ''signed_integer'' 400 ''I64''
        [''F32'', ''F64'']
        [''I8'', ''I16'', ''I32'', ''Bool'', ''F16''],
      dt_ex_def ''U8'' ''std::uint8_t'' ''uint8'' ''unsigned_integer'' 110 ''I32''
        [''U16'', ''U32'', ''I16'', ''I32'', ''F16'', ''F32'']
        [''I8'', ''U64'', ''I64'', ''F64'', ''Bool''],
      dt_ex_def ''U16'' ''std::uint16_t'' ''uint16'' ''unsigned_integer'' 210 ''I32''
        [''U32'', ''I32'', ''F16'', ''F32'']
        [''U8'', ''U64'', ''I64'', ''F64'', ''Bool''],
      dt_ex_def ''U32'' ''std::uint32_t'' ''uint32'' ''unsigned_integer'' 310 ''I32''
        [''U64'', ''I64'', ''F32'', ''F64'']
        [''U8'', ''U16'', ''I32'', ''Bool'', ''F16''],
      dt_ex_def ''U64'' ''std::uint64_t'' ''uint64'' ''unsigned_integer'' 410 ''I64''
        [''F32'', ''F64'']
        [''U8'', ''U16'', ''U32'', ''I64'', ''Bool'', ''F16''],
      dt_ex_def ''F8E4M3'' ''::orteaf::internal::Float8E4M3'' ''float8 (e4m3)'' ''floating_point'' 420 ''F16''
        [''F16'', ''F32'', ''F64'']
        [''I16'', ''I32'', ''I64'', ''U16'', ''U32'', ''U64'', ''Bool'', ''F8E5M2''],
      dt_ex_def ''F8E5M2'' ''::orteaf::internal::Float8E5M2'' ''float8 (e5m2)'' ''floating_point'' 430 ''F16''
        [''F16'', ''F32'', ''F64'']
        [''I16'', ''I32'', ''I64'', ''U16'', ''U32'', ''U64'', ''Bool'', ''F8E4M3''],
      dt_ex_def ''F16'' ''::orteaf::internal::Float16'' ''float16'' ''floating_point'' 500 ''F32''
        [''F32'', ''F64'']
        [''I16'', ''I32'', ''I64'', ''U16'', ''U32'', ''U64'', ''Bool''],
      dt_ex_def ''F32'' ''float'' ''float32'' ''floating_point'' 600 ''F32''
        [''F64'']
        [''F16'', ''I32'', ''I64'', ''U32'', ''U64'', ''Bool''],
      dt_ex_def ''F64'' ''double'' ''float64'' ''floating_point'' 700 ''F64''
        []
        [''F32'', ''F16'', ''I32'', ''I64'', ''U64'', ''Bool'']],
     dc_promotion_overrides = map (\<lambda>r. \<lparr>po_lhs = ''Bool'', po_rhs = r, po_result = r\<rparr>) [''Bool'', ''F16'', ''F32'', ''F64'']\<rparr>"

lemma dt_ex_parse: "dg_parseConfig dt_ex_as_int dt_ex_yaml = Some dt_ex_config"
  by code_simp

lemma dt_ex_main: "dg_main dt_ex_as_int dt_ex_yaml = Some (dg_tables dt_ex_config)"
proof -
  have "dg_resolveConfig dt_ex_config \<noteq> None" by code_simp
  then have "dg_resolveConfig dt_ex_config = Some dt_ex_config" using dg_resolveConfig_same by blast
  then show ?thesis
    by (simp add: dg_main_def dt_ex_parse dg_generateOutputs_def) (simp add: dt_ex_config_def)
qed

lemma ex_all2D:
  fixes n :: nat
  assumes "\<exists>L. A L \<and> N L = n \<and> (\<forall>i < N L. \<forall>j < N L. R L i j)" and "i < n" "j < n" "i' < n" "j' < n"
  shows "\<exists>L. A L \<and> N L = n \<and> R L i j \<and> R L i' j'"
  using assms by blast

theorem dt_tables_faithful_witness:
  "\<exists>L. dt_readTables length length (dg_tables dt_ex_config) = Some L \<and> dt_count L = 14 \<and>
     bindR (dt_promote L 11 12) (dt_idOf L) = Inr ''F32'' \<and> dt_canImplicitlyCast L 11 12 = Inr True \<and>
     dt_canExplicitlyCast L 12 0 = Inr True"
proof -
  have n: "length (dc_dtypes dt_ex_config) = 14" by (simp add: dt_ex_config_def)
  have e: "dg_promoted dt_ex_config 11 12 = ''F32''" by code_simp
  have d: "dc_dtypes dt_ex_config ! 11 = dt_ex_def ''F16'' ''::orteaf::internal::Float16'' ''float16'' ''floating_point'' 500 ''F32''
        [''F32'', ''F64''] [''I16'', ''I32'', ''I64'', ''U16'', ''U32'', ''U64'', ''Bool'']"
    "dc_dtypes dt_ex_config ! 12 = dt_ex_def ''F32'' ''float'' ''float32'' ''floating_point'' 600 ''F32''
        [''F64''] [''F16'', ''I32'', ''I64'', ''U32'', ''U64'', ''Bool'']"
    "dd_id (dc_dtypes dt_ex_config ! 0) = ''Bool''"
    by (simp_all add: dt_ex_config_def dt_ex_def_def)
  show ?thesis
    by (rule ex_forward[OF ex_all2D[OF dt_tables_faithful[OF dt_ex_parse dt_ex_main, of length length, unfolded n],
          of 11 12 12 0]]) (simp_all add: Let_def dt_fromIndex_def e d dt_ex_def_def)
qed

text \<open>The overrides name the operand of the higher priority.\<close>

definition dg_overridesAgree :: "dtype_config \<Rightarrow> bool" where
  "dg_overridesAgree c \<longleftrightarrow>
     (\<forall>p \<in> set (dc_promotion_overrides c). \<forall>x \<in> set (dc_dtypes c). \<forall>y \<in> set (dc_dtypes c).
        dd_id x = po_lhs p \<longrightarrow> dd_id y = po_rhs p \<longrightarrow>
        po_result p = (if dd_promotion_priority x \<ge> dd_promotion_priority y then dd_id x else dd_id y))"

lemma dg_promotionTable_agree:
  assumes wf: "dg_wf c" and ov: "dg_overridesAgree c" and i: "i < length (dc_dtypes c)" "j < length (dc_dtypes c)"
  shows "dg_promotionTable c ! i ! j =
    (if dd_promotion_priority (dc_dtypes c ! i) \<ge> dd_promotion_priority (dc_dtypes c ! j) then i else j)"
proof -
  let ?m = "if dd_promotion_priority (dc_dtypes c ! i) \<ge> dd_promotion_priority (dc_dtypes c ! j) then i else j"
  have "dg_promoted c i j = dd_id (dc_dtypes c ! ?m)"
  proof (cases "dg_overrideOf (dc_promotion_overrides c) (dd_id (dc_dtypes c ! i)) (dd_id (dc_dtypes c ! j))")
    case (Some r)
    then obtain p where p: "p \<in> set (dc_promotion_overrides c)" "po_lhs p = dd_id (dc_dtypes c ! i)"
      "po_rhs p = dd_id (dc_dtypes c ! j)" "po_result p = r"
      by (auto simp: dg_overrideOf_def dest!: map_of_SomeD)
    have "po_result p = dd_id (dc_dtypes c ! ?m)"
      using ov[unfolded dg_overridesAgree_def, rule_format, OF p(1) nth_mem[OF i(1)] nth_mem[OF i(2)]] p(2,3) by simp
    with Some p(4) show ?thesis by (simp add: dg_promoted_def)
  qed (simp add: dg_promoted_def)
  moreover have "?m < length (dc_dtypes c)" using i by simp
  ultimately show ?thesis
    using dg_promotionTable_nth(3,4)[OF wf i] dg_index_id[OF dg_wfD(1)[OF wf]] by metis
qed

text \<open>
  C10: promotion is a semilattice.  When no two types share a priority and the overrides agree with the
  priorities, promotion never fails on the types of the table, returns one of its operands, the one of
  the larger priority, does not depend on the order of the operands, and is associative, so the result
  type of an expression does not depend on how it is evaluated.
\<close>

theorem dt_promotion_semilattice:
  assumes "dg_parseConfig as_int root = Some c" and "dg_main as_int root = Some T"
    and "dt_readTables sz al T = Some L" and "distinct (map dd_promotion_priority (dc_dtypes c))" and "dg_overridesAgree c"
    and "a \<in> set (dt_allDTypes L)" and "b \<in> set (dt_allDTypes L)" and "d \<in> set (dt_allDTypes L)"
  shows "\<exists>m n k. dt_promote L a b = Inr m \<and> dt_promote L b a = Inr m \<and> m \<in> {a, b} \<and> dt_promote L a a = Inr a \<and>
    bindR (dt_promotionPriority L a) (\<lambda>x. bindR (dt_promotionPriority L b) (\<lambda>y. Inr (max x y))) = dt_promotionPriority L m \<and>
    dt_promote L b d = Inr n \<and> dt_promote L m d = Inr k \<and> dt_promote L a n = Inr k"
proof -
  obtain c' where "dg_parseConfig as_int root = Some c'" "dg_wf c'" "T = dg_tables c'"
    using dg_main_wf[OF assms(2)] by metis
  then have wf: "dg_wf c" "T = dg_tables c" using assms(1) by simp_all
  then have L: "L = dt_lib sz al c" using dt_readTables_lib[OF wf(1)] assms(3) by simp
  define P where "P = (\<lambda>i. dd_promotion_priority (dc_dtypes c ! i))"
  define N where "N = length (dc_dtypes c)"
  obtain i j k where ijk: "i < N" "a = dt_fromIndex i" "j < N" "b = dt_fromIndex j" "k < N" "d = dt_fromIndex k"
    using assms(6-8) by (auto simp: dt_allDTypes_def L dt_count_lib dt_fromIndex_def N_def)
  have pr: "dt_promote L (dt_fromIndex x) (dt_fromIndex y) = Inr (dt_fromIndex (if P x \<ge> P y then x else y))"
    if "x < N" "y < N" for x y
    using dt_queries(9)[OF wf(1), of x y sz al] dg_promotionTable_agree[OF wf(1) assms(5), of x y] that
    by (simp add: L P_def N_def)
  have prio: "dt_promotionPriority L (dt_fromIndex x) = Inr (P x)" if "x < N" for x
    using dt_queries(5)[OF wf(1), of x x sz al] that by (simp add: L P_def N_def)
  have inj: "x = y" if "P x = P y" "x < N" "y < N" for x y
    using assms(4) that by (simp add: distinct_conv_nth P_def N_def) metis
  show ?thesis
  proof (intro exI conjI)
    show "dt_promote L a b = Inr (dt_fromIndex (if P i \<ge> P j then i else j))" by (simp only: ijk pr[OF ijk(1,3)])
    show "dt_promote L b a = Inr (dt_fromIndex (if P i \<ge> P j then i else j))"
      using inj[OF _ ijk(1,3)] by (auto simp: ijk pr[OF ijk(3,1)])
    show "dt_promote L a a = Inr a" by (simp add: ijk pr)
    show "dt_fromIndex (if P i \<ge> P j then i else j) \<in> {a, b}" by (simp add: ijk)
    show "bindR (dt_promotionPriority L a) (\<lambda>x. bindR (dt_promotionPriority L b) (\<lambda>y. Inr (max x y))) =
        dt_promotionPriority L (dt_fromIndex (if P i \<ge> P j then i else j))"
      by (simp add: ijk prio max_def)
    show "dt_promote L b d = Inr (dt_fromIndex (if P j \<ge> P k then j else k))" by (simp only: ijk pr[OF ijk(3,5)])
    let ?k = "if P (if P i \<ge> P j then i else j) \<ge> P k then (if P i \<ge> P j then i else j) else k"
    show "dt_promote L (dt_fromIndex (if P i \<ge> P j then i else j)) d = Inr (dt_fromIndex ?k)"
      using ijk by (simp add: pr)
    show "dt_promote L a (dt_fromIndex (if P j \<ge> P k then j else k)) = Inr (dt_fromIndex ?k)"
      using ijk by (simp add: pr)
  qed
qed

theorem dt_promotion_semilattice_witness:
  "\<exists>m. dt_promote (dt_lib length length dt_ex_config) 4 12 = Inr m \<and> dt_promote (dt_lib length length dt_ex_config) 12 4 = Inr m"
proof -
  have c: "dt_readTables length length (dg_tables dt_ex_config) = Some (dt_lib length length dt_ex_config)"
    using dg_main_wf[OF dt_ex_main] dt_ex_parse by (metis dt_readTables_lib option.inject)
  have d: "distinct (map dd_promotion_priority (dc_dtypes dt_ex_config))" by code_simp
  have o: "dg_overridesAgree dt_ex_config" by code_simp
  have "(of_nat i :: u16) \<in> set (dt_allDTypes (dt_lib length length dt_ex_config))" if "i < 14" for i
    using that by (simp add: dt_allDTypes_def dt_count_lib) (simp add: dt_ex_config_def)
  from this[of 4] this[of 12] show ?thesis
    using dt_promotion_semilattice[OF dt_ex_parse dt_ex_main c d o, of 4 12 4] by auto
qed

text \<open>
  on \<open>configs/dtype/dtypes.yml\<close> promotion leaves the casts behind.  A 64-bit integer and an 8-bit
  float promote to the 8-bit float, to which the integer can be cast neither implicitly nor explicitly;
  two 8-bit integers of different signedness promote to \<open>U8\<close>, to which \<open>I8\<close> cannot be cast either.
\<close>

theorem dt_promotion_without_cast:
  "\<exists>L. Option.bind (dg_main dt_ex_as_int dt_ex_yaml) (dt_readTables length length) = Some L \<and>
     dt_idOf L 4 = Inr ''I64'' \<and> dt_idOf L 9 = Inr ''F8E4M3'' \<and> bindR (dt_promote L 4 9) (dt_idOf L) = Inr ''F8E4M3'' \<and>
     dt_canImplicitlyCast L 4 9 = Inr False \<and> dt_canExplicitlyCast L 4 9 = Inr False \<and>
     dt_idOf L 1 = Inr ''I8'' \<and> dt_idOf L 5 = Inr ''U8'' \<and> bindR (dt_promote L 1 5) (dt_idOf L) = Inr ''U8'' \<and>
     dt_canImplicitlyCast L 1 5 = Inr False \<and> dt_canExplicitlyCast L 1 5 = Inr False"
proof -
  have wf: "dg_wf dt_ex_config" using dg_main_wf[OF dt_ex_main] dt_ex_parse by (metis option.inject)
  have n: "length (dc_dtypes dt_ex_config) = 14" by (simp add: dt_ex_config_def)
  have d: "dc_dtypes dt_ex_config ! 4 = dt_ex_def ''I64'' ''std::int64_t'' ''int64'' ''signed_integer'' 400 ''I64''
        [''F32'', ''F64''] [''I8'', ''I16'', ''I32'', ''Bool'', ''F16'']"
    "dc_dtypes dt_ex_config ! 1 = dt_ex_def ''I8'' ''std::int8_t'' ''int8'' ''signed_integer'' 100 ''I32''
        [''I16'', ''I32'', ''F16'', ''F32''] [''I64'', ''F64'', ''Bool'']"
    "dd_id (dc_dtypes dt_ex_config ! 5) = ''U8''" "dd_id (dc_dtypes dt_ex_config ! 9) = ''F8E4M3''"
    by (simp_all add: dt_ex_config_def dt_ex_def_def)
  have e: "dg_promoted dt_ex_config 4 9 = ''F8E4M3''" "dg_promoted dt_ex_config 1 5 = ''U8''" by code_simp+
  note q = dt_queries[OF wf, unfolded n]
  show ?thesis
    using q(2)[of 4 4 length length] q(10-12)[of 4 9 length length] q(2)[of 1 1 length length] q(10-12)[of 1 5 length length]
      q(2)[of 9 9 length length] q(2)[of 5 5 length length]
    by (intro exI[of _ "dt_lib length length dt_ex_config"])
      (simp add: dt_ex_main dt_readTables_lib[OF wf] dt_fromIndex_def d dt_ex_def_def e del: One_nat_def)
qed

end
