(* ===== verification/WordFields.thy ===== *)
theory WordFields
  imports Prelude
begin

text \<open>
  Fields of machine words: masks, shifts and disjoint ORs as arithmetic on the unsigned value, so that
  proofs about packed formats become proofs about quotients and remainders.
\<close>

unbundle bit_operations_syntax

named_theorems field_simps_word \<open>unsigned values of masked, shifted and merged words\<close>

lemma unat_take [field_simps_word]: "unat (take_bit n w) = unat w mod 2 ^ n"
  by (subst unsigned_take_bit_eq) (rule take_bit_eq_mod)

lemma unat_drop [field_simps_word]: "unat (drop_bit n w) = unat w div 2 ^ n"
  by (subst unat_drop_bit_eq) (rule drop_bit_eq_div)

lemma unat_push: "unat (push_bit n w) = unat w * 2 ^ n mod 2 ^ LENGTH('a)" for w :: "'a::len word"
  by (subst unsigned_push_bit_eq) (simp only: take_bit_eq_mod push_bit_eq_mult)

lemma unat_push_small: "unat w * 2 ^ n < 2 ^ LENGTH('a) \<Longrightarrow> unat (push_bit n w) = unat w * 2 ^ n" for w :: "'a::len word"
  by (simp add: unat_push)

lemma unat_shrink [field_simps_word]:
  "unat (ucast w :: 'b::len word) = unat w mod 2 ^ LENGTH('b)"
  by (simp add: unsigned_ucast_eq take_bit_eq_mod)

lemma unat_or_add:
  fixes a b :: "'a::len word"
  assumes "2 ^ n dvd unat a" and "unat b < 2 ^ n"
  shows "unat (a OR b) = unat a + unat b"
proof -
  have "\<not> bit (unat a) k \<or> \<not> bit (unat b) k" for k
  proof (cases "k < n")
    case True
    obtain q where "unat a = 2 ^ n * q" using assms(1) by (rule dvdE)
    with True show ?thesis by (simp add: bit_iff_odd flip: push_bit_eq_mult)
        (metis bit_iff_odd bit_push_bit_iff_nat mult.commute not_less push_bit_eq_mult)
  next
    case False
    then have "(2::nat) ^ n \<le> 2 ^ k" by (intro power_increasing) simp_all
    then have "unat b < 2 ^ k" using assms(2) by linarith
    then show ?thesis by (simp add: bit_iff_odd)
  qed
  then have "unat a + unat b = unat a OR unat b" by (rule disjunctive_add)
  then show ?thesis by (simp add: unsigned_or_eq)
qed

lemma unat_bit: "bit w k \<longleftrightarrow> odd (unat w div 2 ^ k)" for w :: "'a::len word"
  by (metis bit_iff_odd bit_unsigned_iff possible_bit_nat)

lemma word_even: "even w \<longleftrightarrow> even (unat w)" for w :: "'a::len word"
  using unat_bit[of w 0] by (simp add: bit_0)

lemma and_pow2: "w AND 2 ^ k = (if odd (unat w div 2 ^ k) then 2 ^ k else 0)" for w :: "'a::len word"
  unfolding unat_bit[symmetric] by (rule bit_word_eqI) (auto simp: bit_simps)

lemma word_mask_fields:
  "(w :: u32) AND 0x7FFFFF = take_bit 23 w" "(w :: u32) AND 0x1FFF = take_bit 13 w" "(w :: u32) AND 0xFF = take_bit 8 w"
  "(w :: u32) AND 0x7FFFFFFF = take_bit 31 w"
  "(v :: u16) AND 0x1F = take_bit 5 v" "(v :: u16) AND 0x3FF = take_bit 10 v"
  by (simp_all add: take_bit_eq_mask mask_eq_exp_minus_1)

text \<open>Three adjacent fields of a number, the lowest below \<open>c\<close> and the next below \<open>b\<close>.\<close>

lemma fields_split: "(n::nat) = n div (c * b) * (c * b) + n div c mod b * c + n mod c"
proof -
  have "n div (c * b) * (c * b) + n div c mod b * c = (n div c div b * b + n div c mod b) * c"
    unfolding div_mult2_eq by (simp only: add_mult_distrib mult.assoc mult.commute[of c b])
  also have "\<dots> = n div c * c" by (simp only: div_mult_mod_eq)
  finally show ?thesis by (simp only: div_mult_mod_eq)
qed

lemma fields_join:
  assumes "(m::nat) < c" and "e < b"
  shows "(s * (c * b) + e * c + m) mod c = m"
    and "(s * (c * b) + e * c + m) div c mod b = e"
    and "(s * (c * b) + e * c + m) div (c * b) = s"
proof -
  have eq: "s * (c * b) + e * c + m = (s * b + e) * c + m" by (simp add: algebra_simps)
  have d: "((s * b + e) * c + m) div c = s * b + e" using assms(1) by simp
  show "(s * (c * b) + e * c + m) mod c = m" unfolding eq using assms(1) by simp
  show "(s * (c * b) + e * c + m) div c mod b = e" unfolding eq d using assms(2) by simp
  show "(s * (c * b) + e * c + m) div (c * b) = s"
    unfolding eq div_mult2_eq d using assms(2) by simp
qed

lemma pow_join: "a + b = c \<Longrightarrow> (2::nat) ^ a * 2 ^ b = 2 ^ c"
  by (auto simp: power_add)

lemma fields_high: "(n::nat) < 2 * d \<Longrightarrow> n div d \<le> 1"
  by (metis One_nat_def less_Suc_eq_le less_mult_imp_div_less numeral_2_eq_2)

end
