(* ===== verification/Float16.thy ===== *)
theory Float16
  imports WordFields
begin

text \<open>
  \<open>dtype/float16.h\<close>: the conversions between binary32 and binary16.  A \<open>float\<close> is its bit pattern
  (\<open>bitCast\<close> is the identity), and every finite value of both formats is an integer multiple of
  \<open>2^-149\<close>, in which the values below are measured.  The CUDA conversions and those of \<open>_Float16\<close> belong
  to other compilers.
\<close>

unbundle bit_operations_syntax

section \<open>Conversions\<close>

definition f16_pack :: "u32 \<Rightarrow> int \<Rightarrow> u32 \<Rightarrow> u16" where
  "f16_pack sign half_exponent mantissa =
     ucast (sign OR push_bit 10 (ucast (of_int half_exponent :: u16)) OR drop_bit 13 mantissa)"

definition f16_float32ToHalfBits :: "u32 \<Rightarrow> u16" where
  "f16_float32ToHalfBits bits =
     (let sign = drop_bit 16 bits AND 0x8000; mantissa = bits AND 0x7FFFFF; exponent = uint (drop_bit 23 bits AND 0xFF)
      in if exponent = 255 then
           (if mantissa = 0 then ucast (sign OR 0x7C00)
            else let nan = (ucast (sign OR 0x7C00 OR drop_bit 13 mantissa) :: u16)
                 in nan OR (if mantissa AND 0x1FFF \<noteq> 0 then 1 else 0))
         else let half_exponent = exponent - 127 + 15
         in if half_exponent \<le> 0 then
              (if half_exponent < - 10 then ucast sign
               else let mantissa = mantissa OR 0x800000; shift = nat (1 - half_exponent); mant = drop_bit shift mantissa;
                        mask = push_bit shift 1 - 1; remainder = mantissa AND mask; halfway = push_bit (shift - 1) 1;
                        mant = (if remainder > halfway \<or> remainder = halfway \<and> mant AND 1 \<noteq> 0 then mant + 1 else mant)
                    in ucast (sign OR mant))
            else if half_exponent \<ge> 31 then ucast (sign OR 0x7C00)
            else let mantissa = mantissa + 0x1000
            in if mantissa AND 0x800000 \<noteq> 0 then
                 (let half_exponent = half_exponent + 1
                  in if half_exponent \<ge> 31 then ucast (sign OR 0x7C00) else f16_pack sign half_exponent 0)
               else f16_pack sign half_exponent mantissa)"

text \<open>The normalisation loop, which ends when bit 10 is set.\<close>

partial_function (option) f16_normalize :: "u32 \<Rightarrow> int \<Rightarrow> (u32 \<times> int) option" where
  "f16_normalize mantissa e =
     (if mantissa AND 0x400 = 0 then f16_normalize (push_bit 1 mantissa) (e - 1) else Some (mantissa, e))"

definition f16_halfBitsToFloat32 :: "u16 \<Rightarrow> u32 option" where
  "f16_halfBitsToFloat32 bits =
     (let sign = push_bit 16 (ucast (bits AND 0x8000)); exponent = ucast (drop_bit 10 bits AND 0x1F) :: u32;
          mantissa = ucast (bits AND 0x3FF) :: u32
      in if exponent = 0 then
           (if mantissa = 0 then Some sign
            else map_option (\<lambda>(mantissa, e).
                   let mantissa = mantissa AND 0x3FF; exp32 = of_int (e + 127); mant32 = push_bit 13 mantissa
                   in sign OR push_bit 23 exp32 OR mant32) (f16_normalize mantissa (- 14)))
         else if exponent = 0x1F then
           (let result = sign OR 0x7F800000 OR push_bit 13 mantissa
            in Some (if mantissa \<noteq> 0 then result OR 1 else result))
         else Some (let exp32 = exponent + (127 - 15); mant32 = push_bit 13 mantissa
                    in sign OR push_bit 23 exp32 OR mant32))"

section \<open>Fields\<close>

definition f32_sign :: "u32 \<Rightarrow> nat" where "f32_sign w = unat w div 2 ^ 31"
definition f32_exp :: "u32 \<Rightarrow> nat" where "f32_exp w = unat w div 2 ^ 23 mod 2 ^ 8"
definition f32_man :: "u32 \<Rightarrow> nat" where "f32_man w = unat w mod 2 ^ 23"
definition f16_sign :: "u16 \<Rightarrow> nat" where "f16_sign h = unat h div 2 ^ 15"
definition f16_exp :: "u16 \<Rightarrow> nat" where "f16_exp h = unat h div 2 ^ 10 mod 2 ^ 5"
definition f16_man :: "u16 \<Rightarrow> nat" where "f16_man h = unat h mod 2 ^ 10"

text \<open>What a bit pattern stands for: a NaN, an infinity or a multiple of \<open>2^-149\<close>.\<close>

datatype fp_value = FpNaN | FpInf bool | FpFinite bool nat

definition f32_value :: "u32 \<Rightarrow> fp_value" where
  "f32_value w =
     (if f32_exp w = 255 then (if f32_man w = 0 then FpInf (f32_sign w = 1) else FpNaN)
      else if f32_exp w = 0 then FpFinite (f32_sign w = 1) (f32_man w)
      else FpFinite (f32_sign w = 1) ((2 ^ 23 + f32_man w) * 2 ^ (f32_exp w - 1)))"

definition f16_value :: "u16 \<Rightarrow> fp_value" where
  "f16_value h =
     (if f16_exp h = 31 then (if f16_man h = 0 then FpInf (f16_sign h = 1) else FpNaN)
      else if f16_exp h = 0 then FpFinite (f16_sign h = 1) (f16_man h * 2 ^ 125)
      else FpFinite (f16_sign h = 1) ((2 ^ 10 + f16_man h) * 2 ^ (f16_exp h + 124)))"

lemmas f32_value_simps = f32_value_def f32_exp_def f32_man_def f32_sign_def
lemmas f16_value_simps = f16_value_def f16_exp_def f16_man_def f16_sign_def

lemma f32_bounds: "f32_sign w \<le> 1" "f32_exp w < 256" "f32_man w < 2 ^ 23"
  and f32_unat: "unat w = f32_sign w * 2 ^ 31 + f32_exp w * 2 ^ 23 + f32_man w"
proof -
  have "unat w < 2 * 2 ^ 31" by (rule order.strict_trans2[OF unsigned_less]) simp
  then show "f32_sign w \<le> 1" unfolding f32_sign_def by (rule fields_high)
  show "f32_exp w < 256" "f32_man w < 2 ^ 23" by (simp_all add: f32_exp_def f32_man_def)
  show "unat w = f32_sign w * 2 ^ 31 + f32_exp w * 2 ^ 23 + f32_man w"
    using fields_split[of "unat w" "2 ^ 23" "2 ^ 8"]
    unfolding f32_sign_def f32_exp_def f32_man_def by (simp only: power_add[symmetric]) simp
qed

lemma f32_fields:
  assumes "unat w = s * 2 ^ 31 + e * 2 ^ 23 + m" and "e < 256" and "m < 2 ^ 23"
  shows "f32_sign w = s" "f32_exp w = e" "f32_man w = m"
proof -
  have eq: "unat w = s * (2 ^ 23 * 2 ^ 8) + e * 2 ^ 23 + m" using assms(1) by simp
  have hi: "(2 ^ 31 :: nat) = 2 ^ 23 * 2 ^ 8" by simp
  have b: "e < 2 ^ 8" using assms(2) by simp
  show "f32_sign w = s" unfolding f32_sign_def hi eq by (rule fields_join(3)[OF assms(3) b])
  show "f32_exp w = e" unfolding f32_exp_def eq by (rule fields_join(2)[OF assms(3) b])
  show "f32_man w = m" unfolding f32_man_def eq by (rule fields_join(1)[OF assms(3) b])
qed

lemma f16_bounds: "f16_sign h \<le> 1" "f16_exp h < 32" "f16_man h < 2 ^ 10"
  and f16_unat: "unat h = f16_sign h * 2 ^ 15 + f16_exp h * 2 ^ 10 + f16_man h"
proof -
  have "unat h < 2 * 2 ^ 15" by (rule order.strict_trans2[OF unsigned_less]) simp
  then show "f16_sign h \<le> 1" unfolding f16_sign_def by (rule fields_high)
  show "f16_exp h < 32" "f16_man h < 2 ^ 10" by (simp_all add: f16_exp_def f16_man_def)
  show "unat h = f16_sign h * 2 ^ 15 + f16_exp h * 2 ^ 10 + f16_man h"
    using fields_split[of "unat h" "2 ^ 10" "2 ^ 5"]
    unfolding f16_sign_def f16_exp_def f16_man_def by (simp only: power_add[symmetric]) simp
qed

lemma f16_fields:
  assumes "unat h = s * 2 ^ 15 + e * 2 ^ 10 + m" and "e < 32" and "m < 2 ^ 10"
  shows "f16_sign h = s" "f16_exp h = e" "f16_man h = m"
proof -
  have eq: "unat h = s * (2 ^ 10 * 2 ^ 5) + e * 2 ^ 10 + m" using assms(1) by simp
  have hi: "(2 ^ 15 :: nat) = 2 ^ 10 * 2 ^ 5" by simp
  have b: "e < 2 ^ 5" using assms(2) by simp
  show "f16_sign h = s" unfolding f16_sign_def hi eq by (rule fields_join(3)[OF assms(3) b])
  show "f16_exp h = e" unfolding f16_exp_def eq by (rule fields_join(2)[OF assms(3) b])
  show "f16_man h = m" unfolding f16_man_def eq by (rule fields_join(1)[OF assms(3) b])
qed

section \<open>Encoding by fields\<close>

lemma f16_enc_sign: "unat (drop_bit 16 bits AND 0x8000 :: u32) = f32_sign bits * 2 ^ 15"
proof -
  have "unat (drop_bit 16 bits) div 2 ^ 15 = f32_sign bits"
    unfolding unat_drop f32_sign_def by (simp flip: div_mult2_eq)
  moreover have "f32_sign bits = 0 \<or> f32_sign bits = 1" using f32_bounds(1)[of bits] by linarith
  ultimately show ?thesis using and_pow2[of "drop_bit 16 bits" 15] by auto
qed

lemma f16_enc_man: "unat (bits AND 0x7FFFFF) = f32_man bits" for bits :: u32
  by (simp add: word_mask_fields unat_take f32_man_def)

lemma f16_enc_exp: "uint (drop_bit 23 bits AND 0xFF) = int (f32_exp bits)" for bits :: u32
proof -
  have "unat (drop_bit 23 bits AND 0xFF) = f32_exp bits"
    by (simp only: word_mask_fields unat_take unat_drop f32_exp_def)
  then show ?thesis by (metis uint_nat)
qed

lemma f16_shrink: "unat w < 2 ^ 16 \<Longrightarrow> unat (ucast w :: u16) = unat w" for w :: u32
  by (simp add: unat_shrink)

lemma f16_shrink_low: "unat (ucast w :: u16) mod 2 ^ 13 = unat (take_bit 13 w)" for w :: u32
  by (simp add: unat_shrink unat_take mod_mod_cancel)

text \<open>A sign bit, five bits and ten bits, put together.\<close>

lemma f16_merge:
  fixes sg x y :: u32
  assumes "unat sg = s * 2 ^ 15" "s \<le> 1" and "unat x = e * 2 ^ 10" "e < 32" and "unat y < 2 ^ 10"
  shows "unat (ucast (sg OR x OR y) :: u16) = s * 2 ^ 15 + e * 2 ^ 10 + unat y"
proof -
  have e: "unat x + unat y < 2 ^ 15" using assms(3-5) by simp
  have xy: "unat (x OR y) = unat x + unat y" by (rule unat_or_add[OF _ assms(5)]) (simp add: assms(3))
  have "unat (sg OR (x OR y)) = unat sg + unat (x OR y)"
    by (rule unat_or_add[of 15]) (use e xy assms(1) in simp_all)
  moreover have "\<dots> < 2 ^ 16" using e xy assms(1,2) by simp
  ultimately show ?thesis using xy assms(1,3) by (simp add: or.assoc f16_shrink)
qed

lemma f16_pack_unat:
  assumes "unat sg = s * 2 ^ 15" "s \<le> 1" and "0 \<le> he" "he < 32" and "unat m < 2 ^ 23"
  shows "unat (f16_pack sg he m) = s * 2 ^ 15 + nat he * 2 ^ 10 + unat m div 2 ^ 13"
proof -
  have "unat (of_int he :: u16) = nat he"
    using assms(3,4) by (simp add: unsigned_of_int take_bit_int_eq_self)
  then have "unat (ucast (of_int he :: u16) :: u32) = nat he"
    using assms(3,4) by (simp add: unat_shrink)
  then have x: "unat (push_bit 10 (ucast (of_int he :: u16) :: u32)) = nat he * 2 ^ 10"
    using assms(3,4) by (subst unat_push_small) simp_all
  have y: "unat (drop_bit 13 m) < 2 ^ 10" using assms(5) unfolding unat_drop by (intro less_mult_imp_div_less) simp
  show ?thesis
    unfolding f16_pack_def by (subst f16_merge[OF assms(1,2) x _ y]) (use assms(3,4) in \<open>simp_all add: unat_drop\<close>)
qed

text \<open>The branches of the encoder; the subnormal branch follows below.\<close>

lemma f16_enc_inf:
  assumes "f32_exp bits = 255 \<and> f32_man bits = 0 \<or> 143 \<le> f32_exp bits \<and> f32_exp bits \<noteq> 255"
  shows "unat (f16_float32ToHalfBits bits) = f32_sign bits * 2 ^ 15 + 31 * 2 ^ 10"
proof -
  have "unat (ucast ((drop_bit 16 bits AND 0x8000) OR 0x7C00 OR (0 :: u32)) :: u16) = f32_sign bits * 2 ^ 15 + 31 * 2 ^ 10 + unat (0 :: u32)"
    by (rule f16_merge[OF f16_enc_sign f32_bounds(1)]) simp_all
  moreover have "unat (bits AND 0x7FFFFF) = 0" if "f32_exp bits = 255" using assms that by (simp only: f16_enc_man) simp
  then have "bits AND 0x7FFFFF = 0" if "f32_exp bits = 255" using that by (simp only: unat_eq_zero)
  ultimately show ?thesis
    using assms by (auto simp: f16_float32ToHalfBits_def f16_enc_exp Let_def)
qed

lemma f16_enc_zero:
  assumes "f32_exp bits < 102"
  shows "unat (f16_float32ToHalfBits bits) = f32_sign bits * 2 ^ 15"
proof -
  have "unat (ucast ((drop_bit 16 bits AND 0x8000)) :: u16) = f32_sign bits * 2 ^ 15"
    using f32_bounds(1)[of bits] by (subst f16_shrink) (simp_all add: f16_enc_sign)
  then show ?thesis using assms by (simp add: f16_float32ToHalfBits_def f16_enc_exp Let_def)
qed

lemma f16_enc_nan:
  assumes "f32_exp bits = 255" and "f32_man bits \<noteq> 0"
  defines "p \<equiv> f32_man bits div 2 ^ 13"
  defines "q \<equiv> (if f32_man bits mod 2 ^ 13 = 0 \<or> odd p then p else p + 1)"
  shows "unat (f16_float32ToHalfBits bits) = f32_sign bits * 2 ^ 15 + 31 * 2 ^ 10 + q" and "q < 2 ^ 10" and "q \<noteq> 0"
proof -
  let ?sg = "drop_bit 16 bits AND 0x8000" and ?m = "bits AND 0x7FFFFF"
  define nan where "nan = (ucast (?sg OR 0x7C00 OR drop_bit 13 ?m) :: u16)"
  have m: "?m \<noteq> 0" using assms(2) f16_enc_man by (metis unsigned_0)
  have pm: "unat (drop_bit 13 ?m) = p" by (simp only: unat_drop f16_enc_man p_def)
  have p: "p < 2 ^ 10" unfolding p_def using f32_bounds(3)[of bits] by (intro less_mult_imp_div_less) simp
  have nan: "unat nan = f32_sign bits * 2 ^ 15 + 31 * 2 ^ 10 + p"
    unfolding nan_def using f16_merge[OF f16_enc_sign f32_bounds(1), where x = "0x7C00" and e = 31 and y = "drop_bit 13 ?m"] p pm by simp
  have enc: "f16_float32ToHalfBits bits = nan OR (if ?m AND 0x1FFF \<noteq> 0 then 1 else 0)"
    using assms(1) m by (simp add: f16_float32ToHalfBits_def f16_enc_exp Let_def nan_def)
  have "unat (?m AND 0x1FFF) = f32_man bits mod 2 ^ 13" by (simp only: word_mask_fields(2) unat_take f16_enc_man)
  then have low: "?m AND 0x1FFF = 0 \<longleftrightarrow> f32_man bits mod 2 ^ 13 = 0" by (metis unat_eq_zero)
  have one: "nan OR 1 = (if even p then nan + 1 else nan)"
    using nan by (simp add: or_one_eq word_even)
  have suc: "unat (nan + 1) = unat nan + 1" if "even p"
  proof -
    have "p \<noteq> 1023" using that by auto
    then have "unat nan + 1 < 2 ^ 16" using nan p f32_bounds(1)[of bits] by simp
    then show ?thesis by (subst unat_word_ariths) simp
  qed
  show "unat (f16_float32ToHalfBits bits) = f32_sign bits * 2 ^ 15 + 31 * 2 ^ 10 + q"
    using enc low one suc nan by (auto simp: q_def)
  show "q < 2 ^ 10" using p by (auto simp: q_def elim!: evenE)
  have "f32_man bits = p * 2 ^ 13 + f32_man bits mod 2 ^ 13" by (simp only: p_def div_mult_mod_eq)
  then show "q \<noteq> 0" using assms(2) by (auto simp: q_def odd_pos)
qed

lemma f16_enc_subnormal_multiple:
  assumes E: "f32_exp bits = 113 - k" "1 \<le> k" "k \<le> 11" and M: "2 ^ 23 + f32_man bits = c * 2 ^ 13 * 2 ^ k"
  shows "unat (f16_float32ToHalfBits bits) mod 2 ^ 13 = 0"
proof -
  let ?sg = "drop_bit 16 bits AND 0x8000" and ?m = "(bits AND 0x7FFFFF) OR 0x800000"
  have m: "unat ?m = 2 ^ 23 + f32_man bits"
    using unat_or_add[of 23 "0x800000 :: u32" "bits AND 0x7FFFFF"] f32_bounds(3)[of bits]
    by (simp add: f16_enc_man or.commute)
  have mant: "unat (drop_bit k ?m) = c * 2 ^ 13" by (simp only: unat_drop m M) simp
  have "push_bit k 1 - 1 = (mask k :: u32)" by (simp add: mask_eq_exp_minus_1 push_bit_of_1)
  then have "unat (?m AND (push_bit k 1 - 1)) = unat ?m mod 2 ^ k" by (simp only: unat_take flip: take_bit_eq_mask)
  also have "\<dots> = 0" by (simp only: m M) simp
  finally have rem: "?m AND (push_bit k 1 - 1) = 0" by (simp only: unat_eq_zero)
  have "unat (push_bit (k - 1) 1 :: u32) = 2 ^ (k - 1)"
  proof -
    have "(2::nat) ^ (k - 1) < 2 ^ 32" using E(3) by (intro power_strict_increasing) simp_all
    then show ?thesis by (subst unat_push_small) simp_all
  qed
  then have half: "push_bit (k - 1) 1 \<noteq> (0 :: u32)" by (metis power_not_zero unsigned_0 zero_neq_numeral)
  have he: "int (113 - k) \<noteq> 255" "int (113 - k) - 127 + 15 \<le> 0" "\<not> int (113 - k) - 127 + 15 < - 10"
    "nat (1 - (int (113 - k) - 127 + 15)) = k" using E(2,3) by simp_all
  have "f16_float32ToHalfBits bits = ucast (?sg OR drop_bit k ?m)"
    using he rem half
    by (simp only: f16_float32ToHalfBits_def f16_enc_exp E(1) Let_def if_True if_False simp_thms) auto
  then have "unat (f16_float32ToHalfBits bits) mod 2 ^ 13 = unat (take_bit 13 (?sg OR drop_bit k ?m))"
    by (simp only: f16_shrink_low)
  also have "\<dots> = unat (take_bit 13 ?sg OR take_bit 13 (drop_bit k ?m))" by (simp only: take_bit_or)
  also have "take_bit 13 ?sg = 0"
    using f16_enc_sign[of bits] by (subst unat_eq_zero[symmetric]) (simp add: unat_take)
  also have "take_bit 13 (drop_bit k ?m) = 0"
    using mant by (subst unat_eq_zero[symmetric]) (simp only: unat_take, simp)
  finally show ?thesis by simp
qed

lemma f16_enc_normal:
  assumes "113 \<le> f32_exp bits" "f32_exp bits \<le> 142"
  defines "r \<equiv> f32_man bits + 2 ^ 12"
  shows "unat (f16_float32ToHalfBits bits) = f32_sign bits * 2 ^ 15 +
    (if r < 2 ^ 23 then (f32_exp bits - 112) * 2 ^ 10 + r div 2 ^ 13 else (f32_exp bits - 111) * 2 ^ 10)"
proof -
  let ?sg = "drop_bit 16 bits AND 0x8000" and ?m = "(bits AND 0x7FFFFF) + 0x1000"
  have r: "unat ?m = r"
    using f32_bounds(3)[of bits] by (subst unat_word_ariths) (simp add: f16_enc_man r_def)
  have lt: "r < 2 ^ 24" using f32_bounds(3)[of bits] by (simp add: r_def)
  have b: "?m AND 0x800000 = 0 \<longleftrightarrow> r < 2 ^ 23"
  proof -
    have "(0x800000 :: u32) = 2 ^ 23" by simp
    then have "?m AND 0x800000 = 0 \<longleftrightarrow> even (r div 2 ^ 23)"
      by (simp only: and_pow2 r) simp
    also have "\<dots> \<longleftrightarrow> r < 2 ^ 23"
    proof (cases "r < 2 ^ 23")
      case False
      then have "r div 2 ^ 23 = 1" using lt by (intro div_nat_eqI) simp_all
      with False show ?thesis by simp
    qed simp
    finally show ?thesis .
  qed
  have he: "\<not> int (f32_exp bits) - 127 + 15 \<le> 0" "\<not> 31 \<le> int (f32_exp bits) - 127 + 15" "int (f32_exp bits) \<noteq> 255"
    using assms(1,2) by simp_all
  note sg = f16_enc_sign[of bits] f32_bounds(1)[of bits]
  show ?thesis
  proof (cases "r < 2 ^ 23")
    case True
    have "f16_float32ToHalfBits bits = f16_pack ?sg (int (f32_exp bits) - 127 + 15) ?m"
      using he b True by (simp only: f16_float32ToHalfBits_def f16_enc_exp Let_def if_False simp_thms)
    moreover have "nat (int (f32_exp bits) - 127 + 15) = f32_exp bits - 112" using assms(1) by simp
    ultimately show ?thesis
      using True assms(1,2) f16_pack_unat[OF sg, of "int (f32_exp bits) - 127 + 15" ?m] r by simp
  next
    case False
    show ?thesis
    proof (cases "f32_exp bits = 142")
      case True
      have "unat (ucast (?sg OR 0x7C00 OR (0 :: u32)) :: u16) = f32_sign bits * 2 ^ 15 + 31 * 2 ^ 10 + unat (0 :: u32)"
        by (rule f16_merge[OF sg]) simp_all
      moreover have "f16_float32ToHalfBits bits = ucast (?sg OR 0x7C00)"
        using he b True \<open>\<not> r < 2 ^ 23\<close> by (simp add: f16_float32ToHalfBits_def f16_enc_exp Let_def)
      ultimately show ?thesis using True \<open>\<not> r < 2 ^ 23\<close> by simp
    next
      case ne: False
      have "f16_float32ToHalfBits bits = f16_pack ?sg (int (f32_exp bits) - 127 + 15 + 1) 0"
        using he b \<open>\<not> r < 2 ^ 23\<close> ne assms(2) by (simp add: f16_float32ToHalfBits_def f16_enc_exp Let_def)
      moreover have "nat (int (f32_exp bits) - 127 + 15 + 1) = f32_exp bits - 111" using assms(1) by simp
      ultimately show ?thesis
        using \<open>\<not> r < 2 ^ 23\<close> assms(1,2) ne f16_pack_unat[OF sg, of "int (f32_exp bits) - 127 + 15 + 1" 0] by simp
    qed
  qed
qed

section \<open>Decoding by fields\<close>

lemma f32_merge:
  fixes sg x y :: u32
  assumes "unat sg = s * 2 ^ 31" "s \<le> 1" and "unat x = e * 2 ^ 23" "e < 256" and "unat y < 2 ^ 23"
  shows "unat (sg OR x OR y) = s * 2 ^ 31 + e * 2 ^ 23 + unat y"
proof -
  have e: "unat x + unat y < 2 ^ 31" using assms(3-5) by simp
  have xy: "unat (x OR y) = unat x + unat y" by (rule unat_or_add[OF _ assms(5)]) (simp add: assms(3))
  have "unat (sg OR (x OR y)) = unat sg + unat (x OR y)"
    by (rule unat_or_add[of 31]) (use e xy assms(1) in simp_all)
  then show ?thesis using xy assms(1,3) by (simp add: or.assoc)
qed

lemma f16_dec_sign: "unat (push_bit 16 (ucast (h AND 0x8000)) :: u32) = f16_sign h * 2 ^ 31" for h :: u16
proof -
  have "f16_sign h = 0 \<or> f16_sign h = 1" using f16_bounds(1)[of h] by linarith
  then have "unat (h AND 0x8000) = f16_sign h * 2 ^ 15"
    using and_pow2[of h 15] by (auto simp: f16_sign_def)
  then have "unat (ucast (h AND 0x8000) :: u32) = f16_sign h * 2 ^ 15"
    using f16_bounds(1)[of h] by (simp add: unat_shrink)
  then show ?thesis using f16_bounds(1)[of h] by (subst unat_push_small) simp_all
qed

lemma f16_dec_exp: "unat (ucast (drop_bit 10 h AND 0x1F) :: u32) = f16_exp h" for h :: u16
  using f16_bounds(2)[of h] by (simp add: unat_shrink word_mask_fields unat_take unat_drop f16_exp_def)

lemma f16_dec_man: "unat (ucast (h AND 0x3FF) :: u32) = f16_man h" for h :: u16
  using f16_bounds(3)[of h] by (simp add: unat_shrink word_mask_fields unat_take f16_man_def)

lemma f16_dec_man32:
  fixes m :: u32
  assumes "unat m < 2 ^ 10"
  shows "unat (push_bit 13 m) = unat m * 2 ^ 13"
  using assms by (subst unat_push_small) simp_all

lemma f16_normalize_loop:
  assumes "0 < unat w" and "unat w < 2 ^ 11"
  shows "\<exists>k w'. f16_normalize w e = Some (w', e - int k) \<and> unat w' = unat w * 2 ^ k \<and> 2 ^ 10 \<le> unat w' \<and> unat w' < 2 ^ 11"
  using assms
proof (induction "2 ^ 11 - unat w" arbitrary: w e rule: less_induct)
  case less
  have b: "w AND 0x400 = 0 \<longleftrightarrow> unat w < 2 ^ 10"
  proof -
    have "w AND 0x400 = 0 \<longleftrightarrow> even (unat w div 2 ^ 10)" using and_pow2[of w 10] by simp
    also have "\<dots> \<longleftrightarrow> unat w < 2 ^ 10"
    proof (cases "unat w < 2 ^ 10")
      case False
      then have "unat w div 2 ^ 10 = 1" using less.prems(2) by (intro div_nat_eqI) simp_all
      with False show ?thesis by simp
    qed simp
    finally show ?thesis .
  qed
  show ?case
  proof (cases "unat w < 2 ^ 10")
    case True
    have d: "unat (push_bit 1 w) = unat w * 2 ^ 1" using True by (subst unat_push_small) simp_all
    have "0 < unat (push_bit 1 w)" "unat (push_bit 1 w) < 2 ^ 11" "2 ^ 11 - unat (push_bit 1 w) < 2 ^ 11 - unat w"
      unfolding d using True less.prems by simp_all
    from less.hyps[OF this(3,1,2), of "e - 1"] obtain k w' where
      k: "f16_normalize (push_bit 1 w) (e - 1) = Some (w', e - 1 - int k)" "unat w' = unat (push_bit 1 w) * 2 ^ k"
        "2 ^ 10 \<le> unat w'" "unat w' < 2 ^ 11" by blast
    have "f16_normalize w e = Some (w', e - int (Suc k))"
      using True b k(1) by (subst f16_normalize.simps) simp
    moreover have "unat w' = unat w * 2 ^ Suc k" using k(2) d by simp
    ultimately show ?thesis using k(3,4) by blast
  next
    case False
    then have "f16_normalize w e = Some (w, e - int 0)" using b by (subst f16_normalize.simps) simp
    then show ?thesis using False less.prems(2) by (intro exI[of _ 0] exI[of _ w]) simp
  qed
qed

lemma f16_dec_normal:
  assumes "f16_exp h \<noteq> 0" and "f16_exp h \<noteq> 31"
  shows "\<exists>f. f16_halfBitsToFloat32 h = Some f \<and>
    unat f = f16_sign h * 2 ^ 31 + (f16_exp h + 112) * 2 ^ 23 + f16_man h * 2 ^ 13"
proof -
  let ?x = "ucast (drop_bit 10 h AND 0x1F) :: u32" and ?m = "ucast (h AND 0x3FF) :: u32"
  have x: "unat (?x + (127 - 15)) = f16_exp h + 112"
    using f16_bounds(2)[of h] by (subst unat_word_ariths) (simp add: f16_dec_exp)
  then have "unat (push_bit 23 (?x + (127 - 15))) = (f16_exp h + 112) * 2 ^ 23"
    using f16_bounds(2)[of h] by (subst unat_push_small) simp_all
  moreover have "unat (push_bit 13 ?m) = f16_man h * 2 ^ 13"
    using f16_bounds(3)[of h] by (subst f16_dec_man32) (simp_all add: f16_dec_man)
  moreover have "?x \<noteq> 0" "?x \<noteq> 0x1F" using assms f16_dec_exp[of h] by auto
  ultimately show ?thesis
    using f32_merge[OF f16_dec_sign f16_bounds(1), of "push_bit 23 (?x + (127 - 15))" "f16_exp h + 112" "push_bit 13 ?m" h]
      f16_bounds(2,3)[of h]
    by (simp add: f16_halfBitsToFloat32_def Let_def)
qed

lemma f16_dec_special:
  assumes "f16_exp h = 31"
  shows "\<exists>f. f16_halfBitsToFloat32 h = Some f \<and>
    unat f = f16_sign h * 2 ^ 31 + 255 * 2 ^ 23 + (if f16_man h = 0 then 0 else f16_man h * 2 ^ 13 + 1)"
proof -
  let ?x = "ucast (drop_bit 10 h AND 0x1F) :: u32" and ?m = "ucast (h AND 0x3FF) :: u32"
  have x: "?x = 0x1F" by (rule unsigned_word_eqI[where 'a = nat]) (simp add: f16_dec_exp assms)
  have m: "?m = 0 \<longleftrightarrow> f16_man h = 0" using f16_dec_man[of h] by (metis unat_eq_zero)
  have y: "unat (push_bit 13 ?m) = f16_man h * 2 ^ 13"
    using f16_bounds(3)[of h] by (subst f16_dec_man32) (simp_all add: f16_dec_man)
  have r: "unat (push_bit 16 (ucast (h AND 0x8000)) OR 0x7F800000 OR push_bit 13 ?m :: u32) =
      f16_sign h * 2 ^ 31 + 255 * 2 ^ 23 + f16_man h * 2 ^ 13"
    using f32_merge[OF f16_dec_sign f16_bounds(1), where x = "0x7F800000" and e = 255 and y = "push_bit 13 ?m"]
      f16_bounds(3)[of h] y by simp
  have "unat ((push_bit 16 (ucast (h AND 0x8000)) OR 0x7F800000 OR push_bit 13 ?m) OR (1 :: u32)) =
      f16_sign h * 2 ^ 31 + 255 * 2 ^ 23 + f16_man h * 2 ^ 13 + 1"
    unfolding r[symmetric] by (subst unat_or_add[of 13]) (simp_all add: r)
  then show ?thesis
    using r y m x by (auto simp: f16_halfBitsToFloat32_def Let_def)
qed

lemma f16_dec_zero:
  assumes "f16_exp h = 0" and "f16_man h = 0"
  shows "\<exists>f. f16_halfBitsToFloat32 h = Some f \<and> unat f = f16_sign h * 2 ^ 31"
proof -
  have "(ucast (drop_bit 10 h AND 0x1F) :: u32) = 0" "(ucast (h AND 0x3FF) :: u32) = 0"
    using assms f16_dec_exp[of h] f16_dec_man[of h] by (metis unat_eq_zero)+
  then show ?thesis using f16_dec_sign[of h] by (simp add: f16_halfBitsToFloat32_def Let_def)
qed

lemma f16_dec_subnormal:
  assumes "f16_exp h = 0" and "f16_man h \<noteq> 0"
  shows "\<exists>f k. f16_halfBitsToFloat32 h = Some f \<and> 1 \<le> k \<and> k \<le> 10 \<and>
    2 ^ 10 \<le> f16_man h * 2 ^ k \<and> f16_man h * 2 ^ k < 2 ^ 11 \<and>
    unat f = f16_sign h * 2 ^ 31 + (113 - k) * 2 ^ 23 + (f16_man h * 2 ^ k - 2 ^ 10) * 2 ^ 13"
proof -
  let ?m = "ucast (h AND 0x3FF) :: u32"
  have x: "(ucast (drop_bit 10 h AND 0x1F) :: u32) = 0"
    using assms(1) f16_dec_exp[of h] by (metis unat_eq_zero)
  have m: "?m \<noteq> 0" using assms(2) f16_dec_man[of h] by (metis unsigned_0)
  have "0 < unat ?m" "unat ?m < 2 ^ 11" using assms(2) f16_bounds(3)[of h] by (simp_all add: f16_dec_man)
  from f16_normalize_loop[OF this, of "- 14"] obtain k w where
    k: "f16_normalize ?m (- 14) = Some (w, - 14 - int k)" "unat w = f16_man h * 2 ^ k" "2 ^ 10 \<le> unat w" "unat w < 2 ^ 11"
    unfolding f16_dec_man by blast
  have "k \<noteq> 0"
  proof
    assume "k = 0"
    with k(2,3) f16_bounds(3)[of h] show False by simp
  qed
  have "k \<le> 10"
  proof (rule ccontr)
    assume "\<not> k \<le> 10"
    then have "(2::nat) ^ 11 \<le> 2 ^ k" by (intro power_increasing) simp_all
    also have "\<dots> \<le> f16_man h * 2 ^ k" using assms(2) by simp
    finally show False using k(2,4) by simp
  qed
  have w: "unat (w AND 0x3FF) = unat w - 2 ^ 10"
  proof -
    have "w AND 0x3FF = take_bit 10 w" by (simp add: take_bit_eq_mask mask_eq_exp_minus_1)
    then have "unat (w AND 0x3FF) = unat w mod 2 ^ 10" by (simp only: unat_take)
    also have "\<dots> = unat w - 2 ^ 10" using k(3,4) by (subst mod_if) (simp add: mod_less)
    finally show ?thesis .
  qed
  have y: "unat (push_bit 13 (w AND 0x3FF)) = (unat w - 2 ^ 10) * 2 ^ 13"
    using k(4) by (subst f16_dec_man32) (simp_all add: w)
  have e: "- 14 - int k + 127 = int (113 - k)" using \<open>k \<le> 10\<close> by simp
  have "unat (of_int (int (113 - k)) :: u32) = 113 - k" by (simp add: unsigned_of_nat take_bit_nat_eq_self)
  then have x23: "unat (push_bit 23 (of_int (- 14 - int k + 127) :: u32)) = (113 - k) * 2 ^ 23"
    unfolding e by (subst unat_push_small) simp_all
  have "unat (push_bit 16 (ucast (h AND 0x8000)) OR push_bit 23 (of_int (- 14 - int k + 127)) OR push_bit 13 (w AND 0x3FF) :: u32) =
      f16_sign h * 2 ^ 31 + (113 - k) * 2 ^ 23 + (unat w - 2 ^ 10) * 2 ^ 13"
    by (subst f32_merge[OF f16_dec_sign f16_bounds(1) x23]) (use y k(4) in simp_all)
  moreover have "f16_halfBitsToFloat32 h =
      Some (push_bit 16 (ucast (h AND 0x8000)) OR push_bit 23 (of_int (- 14 - int k + 127)) OR push_bit 13 (w AND 0x3FF))"
    using x m k(1) by (simp only: f16_halfBitsToFloat32_def Let_def if_True if_False simp_thms option.map prod.case)
  ultimately show ?thesis using k(2-4) \<open>k \<noteq> 0\<close> \<open>k \<le> 10\<close> by (intro exI[of _ k] exI conjI) simp_all
qed

section \<open>Contract\<close>

text \<open>
  C11: decoding is exact and always returns.  For every 16-bit pattern the normalisation loop ends and
  the resulting binary32 pattern stands for the same value: the same NaN-ness, the same signed infinity
  or the same signed multiple of \<open>2^-149\<close>, subnormals included.
\<close>

theorem f16_decode_exact:
  "\<exists>f. f16_halfBitsToFloat32 h = Some f \<and> f32_value f = f16_value h"
proof (cases "f16_exp h = 0")
  case True
  show ?thesis
  proof (cases "f16_man h = 0")
    case man: True
    obtain f where f: "f16_halfBitsToFloat32 h = Some f" "unat f = f16_sign h * 2 ^ 31"
      using f16_dec_zero[OF True man] by blast
    have "unat f = f16_sign h * 2 ^ 31 + 0 * 2 ^ 23 + 0" using f(2) by simp
    note F = f32_fields[OF this]
    show ?thesis using f(1) F True man by (simp add: f32_value_def f16_value_def)
  next
    case man: False
    obtain f k where f: "f16_halfBitsToFloat32 h = Some f" and k: "1 \<le> k" "k \<le> 10" "2 ^ 10 \<le> f16_man h * 2 ^ k"
      "f16_man h * 2 ^ k < 2 ^ 11"
      and u: "unat f = f16_sign h * 2 ^ 31 + (113 - k) * 2 ^ 23 + (f16_man h * 2 ^ k - 2 ^ 10) * 2 ^ 13"
      using f16_dec_subnormal[OF True man] by blast
    have "f32_sign f = f16_sign h" "f32_exp f = 113 - k" "f32_man f = (f16_man h * 2 ^ k - 2 ^ 10) * 2 ^ 13"
      by (rule f32_fields[OF u]; use k in simp)+
    moreover have "(2 ^ 23 + (f16_man h * 2 ^ k - 2 ^ 10) * 2 ^ 13) * 2 ^ (113 - k - 1) = f16_man h * (2::nat) ^ 125"
    proof -
      have "2 ^ 23 + (f16_man h * 2 ^ k - 2 ^ 10) * 2 ^ 13 = f16_man h * 2 ^ k * (2::nat) ^ 13"
        using k(3) by (simp add: diff_mult_distrib)
      then have "(2 ^ 23 + (f16_man h * 2 ^ k - 2 ^ 10) * 2 ^ 13) * 2 ^ (113 - k - 1) =
          f16_man h * (2 ^ k * 2 ^ 13 * (2::nat) ^ (112 - k))" by (simp only: mult.assoc) simp
      also have "(2::nat) ^ k * 2 ^ 13 * 2 ^ (112 - k) = 2 ^ (k + 13 + (112 - k))" by (simp only: power_add)
      also have "k + 13 + (112 - k) = 125" using k(2) by simp
      finally show ?thesis .
    qed
    ultimately show ?thesis using f True k by (simp add: f32_value_def f16_value_def)
  qed
next
  case e0: False
  show ?thesis
  proof (cases "f16_exp h = 31")
    case True
    obtain f where f: "f16_halfBitsToFloat32 h = Some f"
      "unat f = f16_sign h * 2 ^ 31 + 255 * 2 ^ 23 + (if f16_man h = 0 then 0 else f16_man h * 2 ^ 13 + 1)"
      using f16_dec_special[OF True] by blast
    have "f32_sign f = f16_sign h" "f32_exp f = 255" "f32_man f = (if f16_man h = 0 then 0 else f16_man h * 2 ^ 13 + 1)"
      by (rule f32_fields[OF f(2)]; use f16_bounds(3)[of h] in simp)+
    then show ?thesis using f(1) True by (simp add: f32_value_def f16_value_def)
  next
    case False
    obtain f where f: "f16_halfBitsToFloat32 h = Some f"
      "unat f = f16_sign h * 2 ^ 31 + (f16_exp h + 112) * 2 ^ 23 + f16_man h * 2 ^ 13"
      using f16_dec_normal[OF e0 False] by blast
    have F: "f32_sign f = f16_sign h" "f32_exp f = f16_exp h + 112" "f32_man f = f16_man h * 2 ^ 13"
      by (rule f32_fields[OF f(2)]; use f16_bounds(2,3)[of h] in simp)+
    have "(2 ^ 23 + f16_man h * 2 ^ 13) * 2 ^ (f16_exp h + 112 - 1) = (2 ^ 10 + f16_man h) * (2::nat) ^ (f16_exp h + 124)"
    proof -
      have "(2 ^ 23 + f16_man h * 2 ^ 13) = (2 ^ 10 + f16_man h) * (2::nat) ^ 13" by simp
      moreover have "(2::nat) ^ 13 * 2 ^ (f16_exp h + 112 - 1) = 2 ^ (f16_exp h + 124)"
        by (rule pow_join) simp
      ultimately show ?thesis by (simp only: mult.assoc)
    qed
    then show ?thesis using f(1) F e0 False f16_bounds(2)[of h] by (simp add: f32_value_def f16_value_def)
  qed
qed

text \<open>Rounding half up to a multiple of \<open>d\<close> gives a nearest multiple.\<close>

lemma round_half_up_nearest:
  fixes a k :: int
  assumes "0 < d"
  shows "\<bar>(a + d) div (2 * d) * (2 * d) - a\<bar> \<le> \<bar>k * (2 * d) - a\<bar>"
proof -
  define Q where "Q = (a + d) div (2 * d)"
  have eq: "a + d = Q * (2 * d) + (a + d) mod (2 * d)" unfolding Q_def by (simp only: div_mult_mod_eq)
  have m: "0 \<le> (a + d) mod (2 * d)" "(a + d) mod (2 * d) < 2 * d" using assms by simp_all
  have b: "\<bar>Q * (2 * d) - a\<bar> \<le> d" using eq m by linarith
  show ?thesis
  proof (cases "k = Q")
    case False
    have "k * (2 * d) - a = (k - Q) * (2 * d) + (Q * (2 * d) - a)" by (simp add: algebra_simps)
    moreover have "2 * d \<le> \<bar>(k - Q) * (2 * d)\<bar>" using False assms by (simp add: abs_mult)
    ultimately show ?thesis using b unfolding Q_def[symmetric] by linarith
  qed (simp add: Q_def)
qed

lemma f16_finite_shape:
  assumes "f16_value h = FpFinite s q" and "113 \<le> E"
  shows "(\<exists>k. q = k * 2 ^ (E + 12)) \<or> q < 2 ^ 10 * 2 ^ (E + 12)"
proof (cases "f16_exp h = 0")
  case True
  have "(2::nat) ^ 125 \<le> 2 ^ (E + 12)" using assms(2) by (intro power_increasing) simp_all
  moreover have "q = f16_man h * 2 ^ 125" using assms(1) True by (simp add: f16_value_def)
  ultimately have "q < 2 ^ 10 * 2 ^ (E + 12)"
    using f16_bounds(3)[of h] by (metis mult_less_le_imp_less zero_le zero_less_numeral zero_less_power)
  then show ?thesis ..
next
  case False
  then have q: "q = (2 ^ 10 + f16_man h) * 2 ^ (f16_exp h + 124)"
    using assms(1) by (simp add: f16_value_def split: if_splits)
  show ?thesis
  proof (cases "E + 12 \<le> f16_exp h + 124")
    case True
    then have "(2::nat) ^ (f16_exp h + 124) = 2 ^ (f16_exp h + 124 - (E + 12)) * 2 ^ (E + 12)"
      by (simp flip: power_add)
    then have "q = ((2 ^ 10 + f16_man h) * 2 ^ (f16_exp h + 124 - (E + 12))) * 2 ^ (E + 12)"
      unfolding q by (simp only: mult.assoc)
    then show ?thesis by blast
  next
    case lt: False
    then have p: "2 * (2::nat) ^ (f16_exp h + 124) \<le> 2 ^ (E + 12)"
      by (metis not_less_eq_eq one_le_numeral power_Suc power_increasing)
    have "q < 2 ^ 11 * 2 ^ (f16_exp h + 124)" using f16_bounds(3)[of h] unfolding q by simp
    also have "\<dots> = 2 ^ 10 * (2 * 2 ^ (f16_exp h + 124))" by simp
    also have "\<dots> \<le> 2 ^ 10 * 2 ^ (E + 12)" using p by (intro mult_left_mono) simp_all
    finally show ?thesis ..
  qed
qed

lemma f16_enc_normal_value:
  assumes "113 \<le> f32_exp f" "f32_exp f \<le> 142"
  defines "Q \<equiv> (2 ^ 23 + f32_man f + 2 ^ 12) div 2 ^ 13"
  shows "f16_value (f16_float32ToHalfBits f) =
    (if f32_exp f = 142 \<and> 2 ^ 23 \<le> f32_man f + 2 ^ 12 then FpInf (f32_sign f = 1)
     else FpFinite (f32_sign f = 1) (Q * 2 ^ (f32_exp f + 12)))"
proof -
  let ?h = "f16_float32ToHalfBits f" and ?r = "f32_man f + 2 ^ 12"
  note u = f16_enc_normal[OF assms(1,2)]
  have Q: "Q = 2 ^ 10 + ?r div 2 ^ 13"
    using div_add_self2[of "2 ^ 13" ?r] by (simp add: Q_def div_plus_div_distrib_dvd_left)
  show ?thesis
  proof (cases "?r < 2 ^ 23")
    case True
    then have m: "?r div 2 ^ 13 < 2 ^ 10" by (intro less_mult_imp_div_less) simp
    have "unat ?h = f32_sign f * 2 ^ 15 + (f32_exp f - 112) * 2 ^ 10 + ?r div 2 ^ 13" using u True by simp
    note F = f16_fields[OF this _ m]
    have "f32_exp f - 112 + 124 = f32_exp f + 12" using assms(1) by simp
    with F True assms(1,2) Q show ?thesis by (simp add: f16_value_def)
  next
    case False
    have "?r < 2 ^ 23 + 2 ^ 13" using f32_bounds(3)[of f] by simp
    then have "?r div 2 ^ 13 = 2 ^ 10" using False by (intro div_nat_eqI) simp_all
    then have Q11: "Q = 2 ^ 11" using Q by simp
    have "unat ?h = f32_sign f * 2 ^ 15 + (f32_exp f - 111) * 2 ^ 10 + 0" using u False by simp
    note F = f16_fields[OF this]
    show ?thesis
    proof (cases "f32_exp f = 142")
      case True
      with F False show ?thesis by (simp add: f16_value_def)
    next
      case ne: False
      have "f32_exp f - 111 + 124 = Suc (f32_exp f + 12)" using assms(1) by simp
      then have "2 ^ 10 * (2::nat) ^ (f32_exp f - 111 + 124) = 2 ^ 11 * 2 ^ (f32_exp f + 12)"
        by (simp only: power_Suc) simp
      with F False ne assms(1,2) Q11 show ?thesis by (simp add: f16_value_def)
    qed
  qed
qed

lemma f32_finite_normal:
  assumes "f32_value f = FpFinite s n" and "2 ^ 24 \<le> n"
  shows "f32_exp f \<noteq> 0" "f32_exp f \<noteq> 255" "s = (f32_sign f = 1)" "n = (2 ^ 23 + f32_man f) * 2 ^ (f32_exp f - 1)"
  using assms f32_bounds(3)[of f] by (auto simp: f32_value_def split: if_splits)

lemma f32_normal_range:
  assumes "f32_exp f \<noteq> 0"
  shows "2 ^ (f32_exp f + 22) \<le> (2 ^ 23 + f32_man f) * 2 ^ (f32_exp f - 1)"
    and "(2 ^ 23 + f32_man f) * 2 ^ (f32_exp f - 1) < 2 ^ (f32_exp f + 23)"
proof -
  have p: "(2::nat) ^ (f32_exp f + 22) = 2 ^ 23 * 2 ^ (f32_exp f - 1)" "(2::nat) ^ (f32_exp f + 23) = 2 ^ 24 * 2 ^ (f32_exp f - 1)"
    by (rule pow_join[symmetric]; use assms in simp)+
  show "2 ^ (f32_exp f + 22) \<le> (2 ^ 23 + f32_man f) * 2 ^ (f32_exp f - 1)"
    unfolding p by simp
  show "(2 ^ 23 + f32_man f) * 2 ^ (f32_exp f - 1) < 2 ^ (f32_exp f + 23)"
    unfolding p using f32_bounds(3)[of f] by simp
qed

text \<open>
  C12: what encoding does outside the subnormal range.  A NaN stays a NaN and an infinity the same
  infinity; a finite value of at least 65520 in magnitude becomes the infinity of its sign; one below
  \<open>2^-25\<close> becomes the zero of its sign; and one between \<open>2^-14\<close>, the least normal half, and 65520 becomes
  a half of the same sign to which no other finite half is closer in magnitude.  (Values are multiples of
  \<open>2^-149\<close>: \<open>2^135\<close> is \<open>2^-14\<close>, \<open>2^124\<close> is \<open>2^-25\<close>.)
\<close>

theorem f16_encode_nearest:
  "case f32_value f of
     FpNaN \<Rightarrow> f16_value (f16_float32ToHalfBits f) = FpNaN
   | FpInf s \<Rightarrow> f16_value (f16_float32ToHalfBits f) = FpInf s
   | FpFinite s n \<Rightarrow>
       if 65520 * 2 ^ 149 \<le> n then f16_value (f16_float32ToHalfBits f) = FpInf s
       else if 2 ^ 135 \<le> n then
         \<exists>q. f16_value (f16_float32ToHalfBits f) = FpFinite s q \<and>
             (\<forall>h s' q'. f16_value h = FpFinite s' q' \<longrightarrow> \<bar>int q - int n\<bar> \<le> \<bar>int q' - int n\<bar>)
       else n < 2 ^ 124 \<longrightarrow> f16_value (f16_float32ToHalfBits f) = FpFinite s 0"
proof (cases "f32_value f")
  case FpNaN
  then have "f32_exp f = 255" "f32_man f \<noteq> 0" by (auto simp: f32_value_def split: if_splits)
  note N = f16_enc_nan[OF this]
  show ?thesis using FpNaN f16_fields[OF N(1) _ N(2)] N(3) by (simp add: f16_value_def)
next
  case (FpInf s)
  then have e: "f32_exp f = 255" "f32_man f = 0" "s = (f32_sign f = 1)" by (auto simp: f32_value_def split: if_splits)
  have "unat (f16_float32ToHalfBits f) = f32_sign f * 2 ^ 15 + 31 * 2 ^ 10 + 0" using f16_enc_inf[of f] e by simp
  note F = f16_fields[OF this]
  then show ?thesis using FpInf e by (simp add: f16_value_def)
next
  case (FpFinite s n)
  let ?E = "f32_exp f" and ?h = "f16_float32ToHalfBits f"
  have inf: "f16_value ?h = FpInf s" if n: "65520 * 2 ^ 149 \<le> n"
  proof -
    have "(2::nat) ^ 24 \<le> 65520 * 2 ^ 149" by simp
    then have "2 ^ 24 \<le> n" using n by (rule order.trans)
    note N = f32_finite_normal[OF FpFinite this]
    have E: "142 \<le> ?E"
    proof (rule ccontr)
      assume "\<not> 142 \<le> ?E"
      then have "(2::nat) ^ (?E + 23) \<le> 2 ^ 164" by (intro power_increasing) simp_all
      also have "(2::nat) ^ 164 < 65520 * 2 ^ 149" by simp
      finally show False using f32_normal_range(2)[OF N(1)] n N(4) by simp
    qed
    show ?thesis
    proof (cases "?E = 142")
      case True
      have "65520 * 2 ^ 149 \<le> (2 ^ 23 + f32_man f) * (2::nat) ^ 141" using n N(4) True by simp
      then have "65520 * 2 ^ 8 * 2 ^ 141 \<le> (2 ^ 23 + f32_man f) * (2::nat) ^ 141" by simp
      then have "65520 * 2 ^ 8 \<le> 2 ^ 23 + f32_man f" by (simp only: mult_le_cancel2) simp
      then show ?thesis using f16_enc_normal_value[of f] True N(3) by simp
    next
      case False
      then have "unat ?h = f32_sign f * 2 ^ 15 + 31 * 2 ^ 10 + 0" using f16_enc_inf[of f] E N(2) by simp
      note F = f16_fields[OF this]
      then show ?thesis using N(3) by (simp add: f16_value_def)
    qed
  qed
  have nearest: "\<exists>q. f16_value ?h = FpFinite s q \<and>
      (\<forall>h s' q'. f16_value h = FpFinite s' q' \<longrightarrow> \<bar>int q - int n\<bar> \<le> \<bar>int q' - int n\<bar>)"
    if n: "2 ^ 135 \<le> n" "n < 65520 * 2 ^ 149"
  proof -
    have "(2::nat) ^ 24 \<le> 2 ^ 135" by simp
    then have "2 ^ 24 \<le> n" using n(1) by (rule order.trans)
    note N = f32_finite_normal[OF FpFinite this]
    have E1: "113 \<le> ?E"
    proof (rule ccontr)
      assume "\<not> 113 \<le> ?E"
      then have "(2::nat) ^ (?E + 23) \<le> 2 ^ 135" by (intro power_increasing) simp_all
      then show False using f32_normal_range(2)[OF N(1)] n(1) N(4) by linarith
    qed
    have E2: "?E \<le> 142"
    proof (rule ccontr)
      assume "\<not> ?E \<le> 142"
      then have "(2::nat) ^ 165 \<le> 2 ^ (?E + 22)" by (intro power_increasing) simp_all
      moreover have "(65520::nat) * 2 ^ 149 \<le> 2 ^ 165" by simp
      ultimately show False using f32_normal_range(1)[OF N(1)] n(2) N(4) by linarith
    qed
    define g where "g = (2::nat) ^ (?E - 1)"
    define a where "a = 2 ^ 23 + f32_man f"
    define Q where "Q = (a + 2 ^ 12) div 2 ^ 13"
    have na: "n = a * g" using N(4) by (simp add: a_def g_def)
    have G: "(2::nat) ^ (?E + 12) = 2 ^ 13 * g" using E1 unfolding g_def by (intro pow_join[symmetric]) simp
    have fin: "\<not> (?E = 142 \<and> 2 ^ 23 \<le> f32_man f + 2 ^ 12)"
    proof
      assume x: "?E = 142 \<and> 2 ^ 23 \<le> f32_man f + 2 ^ 12"
      then have "65520 * 2 ^ 8 \<le> a" by (simp add: a_def)
      then have "65520 * 2 ^ 8 * g \<le> n" unfolding na by (rule mult_right_mono) simp
      moreover have "g = 2 ^ 141" using x by (simp add: g_def)
      ultimately show False using n(2) by simp
    qed
    have v: "f16_value ?h = FpFinite s (Q * (2 ^ 13 * g))"
      using f16_enc_normal_value[OF E1 E2] fin N(3) by (simp only: G a_def Q_def if_False)
    have mult: "\<bar>int (Q * (2 ^ 13 * g)) - int n\<bar> \<le> \<bar>int (k * (2 ^ 13 * g)) - int n\<bar>" for k
    proof -
      have "int Q = (int a + 2 ^ 12) div (2 * 2 ^ 12)" unfolding Q_def by (simp add: zdiv_int)
      then have "\<bar>int Q * (2 * 2 ^ 12) - int a\<bar> \<le> \<bar>int k * (2 * 2 ^ 12) - int a\<bar>"
        using round_half_up_nearest[of "2 ^ 12" "int a" "int k"] by simp
      then have "\<bar>int Q * (2 * 2 ^ 12) - int a\<bar> * int g \<le> \<bar>int k * (2 * 2 ^ 12) - int a\<bar> * int g"
        by (rule mult_right_mono) simp
      then have "\<bar>(int Q * (2 * 2 ^ 12) - int a) * int g\<bar> \<le> \<bar>(int k * (2 * 2 ^ 12) - int a) * int g\<bar>"
        by (simp only: abs_mult abs_of_nat)
      then show ?thesis by (simp add: na algebra_simps)
    qed
    have "\<bar>int (Q * (2 ^ 13 * g)) - int n\<bar> \<le> \<bar>int q' - int n\<bar>" if h: "f16_value h = FpFinite s' q'" for h s' q'
      using f16_finite_shape[OF h E1] unfolding G
    proof
      assume "\<exists>k. q' = k * (2 ^ 13 * g)"
      then show ?thesis using mult by blast
    next
      assume lt: "q' < 2 ^ 10 * (2 ^ 13 * g)"
      have "2 ^ 10 * (2 ^ 13 * g) \<le> n" unfolding na a_def by simp
      with lt have "\<bar>int (2 ^ 10 * (2 ^ 13 * g)) - int n\<bar> \<le> \<bar>int q' - int n\<bar>" by linarith
      with mult[of "2 ^ 10"] show ?thesis by linarith
    qed
    with v show ?thesis by blast
  qed
  have zero: "f16_value ?h = FpFinite s 0" if n: "n < 2 ^ 124"
  proof -
    have E: "?E < 102"
    proof (rule ccontr)
      assume "\<not> ?E < 102"
      then have "(2::nat) ^ 124 \<le> 2 ^ (?E + 22)" by (intro power_increasing) simp_all
      moreover have "?E \<noteq> 0" using \<open>\<not> ?E < 102\<close> by simp
      moreover have "n = (2 ^ 23 + f32_man f) * 2 ^ (?E - 1)"
        using FpFinite calculation(2) by (simp add: f32_value_def split: if_splits)
      ultimately show False using f32_normal_range(1)[of f] n by linarith
    qed
    have "unat ?h = f32_sign f * 2 ^ 15 + 0 * 2 ^ 10 + 0" using f16_enc_zero[OF E] by simp
    note F = f16_fields[OF this]
    moreover have "s = (f32_sign f = 1)" using FpFinite by (auto simp: f32_value_def split: if_splits)
    ultimately show ?thesis by (simp add: f16_value_def)
  qed
  show ?thesis using FpFinite inf nearest zero by (simp del: power_numeral)
qed

theorem f16_encode_nearest_witness:
  "f16_value (f16_float32ToHalfBits 0x3F800000) = FpFinite False (2 ^ 149)"
proof -
  have f: "f32_value 0x3F800000 = FpFinite False (2 ^ 149)" by (simp add: f32_value_simps)
  have h: "f16_value 0x3C00 = FpFinite False (2 ^ 149)" by (simp add: f16_value_simps)
  have b: "\<not> 65520 * 2 ^ 149 \<le> (2 ^ 149 :: nat)" "(2::nat) ^ 135 \<le> 2 ^ 149" by simp_all
  obtain q where q: "f16_value (f16_float32ToHalfBits 0x3F800000) = FpFinite False q"
    and near: "\<forall>h s' q'. f16_value h = FpFinite s' q' \<longrightarrow> \<bar>int q - int (2 ^ 149)\<bar> \<le> \<bar>int q' - int (2 ^ 149)\<bar>"
    using f16_encode_nearest[of "0x3F800000", unfolded f fp_value.case if_not_P[OF b(1)] if_P[OF b(2)]] by blast
  have "\<bar>int q - int (2 ^ 149)\<bar> \<le> \<bar>int (2 ^ 149) - int (2 ^ 149)\<bar>" using near h by blast
  then have "q = 2 ^ 149" by (simp del: of_nat_power)
  with q show ?thesis by simp
qed

text \<open>
  C13: which halves survive the way to binary32 and back.  Exactly the zeros, the normal halves, the
  infinities and the NaNs with an odd payload: no subnormal half does, and a NaN with an even payload
  becomes another NaN.
\<close>

theorem f16_roundtrip_exactly:
  "\<exists>f. f16_halfBitsToFloat32 h = Some f \<and>
     (f16_float32ToHalfBits f = h \<longleftrightarrow>
        \<not> (f16_exp h = 0 \<and> f16_man h \<noteq> 0) \<and> \<not> (f16_exp h = 31 \<and> f16_man h \<noteq> 0 \<and> even (f16_man h)))"
proof (cases "f16_exp h = 0")
  case True
  show ?thesis
  proof (cases "f16_man h = 0")
    case man: True
    obtain f where f: "f16_halfBitsToFloat32 h = Some f" "unat f = f16_sign h * 2 ^ 31"
      using f16_dec_zero[OF True man] by blast
    have "unat f = f16_sign h * 2 ^ 31 + 0 * 2 ^ 23 + 0" using f(2) by simp
    note F = f32_fields[OF this]
    have "unat (f16_float32ToHalfBits f) = f16_sign h * 2 ^ 15" using f16_enc_zero[of f] F by simp
    then have "f16_float32ToHalfBits f = h"
      using f16_unat[of h] True man by (intro unsigned_word_eqI[where 'a = nat]) simp
    then show ?thesis using f(1) man True by simp
  next
    case man: False
    obtain f k where f: "f16_halfBitsToFloat32 h = Some f" and k: "1 \<le> k" "k \<le> 10" "2 ^ 10 \<le> f16_man h * 2 ^ k"
      "f16_man h * 2 ^ k < 2 ^ 11"
      and u: "unat f = f16_sign h * 2 ^ 31 + (113 - k) * 2 ^ 23 + (f16_man h * 2 ^ k - 2 ^ 10) * 2 ^ 13"
      using f16_dec_subnormal[OF True man] by blast
    have F: "f32_exp f = 113 - k" "f32_man f = (f16_man h * 2 ^ k - 2 ^ 10) * 2 ^ 13"
      by (rule f32_fields[OF u]; use k in simp)+
    have "2 ^ 23 + f32_man f = f16_man h * 2 ^ 13 * 2 ^ k" using k(3) by (simp add: F diff_mult_distrib)
    from f16_enc_subnormal_multiple[OF F(1) k(1) _ this] k(2) have "unat (f16_float32ToHalfBits f) mod 2 ^ 13 = 0" by simp
    moreover have "unat h mod 2 ^ 13 = f16_man h"
    proof -
      have eq: "unat h = f16_man h + f16_sign h * 2 ^ 2 * 2 ^ 13" using f16_unat[of h] True by simp
      show ?thesis unfolding eq mod_mult_self1 using f16_bounds(3)[of h] by simp
    qed
    ultimately have "f16_float32ToHalfBits f \<noteq> h" using man by auto
    then show ?thesis using f True man by simp
  qed
next
  case e0: False
  show ?thesis
  proof (cases "f16_exp h = 31")
    case True
    obtain f where f: "f16_halfBitsToFloat32 h = Some f"
      "unat f = f16_sign h * 2 ^ 31 + 255 * 2 ^ 23 + (if f16_man h = 0 then 0 else f16_man h * 2 ^ 13 + 1)"
      using f16_dec_special[OF True] by blast
    have F: "f32_sign f = f16_sign h" "f32_exp f = 255" "f32_man f = (if f16_man h = 0 then 0 else f16_man h * 2 ^ 13 + 1)"
      by (rule f32_fields[OF f(2)]; use f16_bounds(3)[of h] in simp)+
    show ?thesis
    proof (cases "f16_man h = 0")
      case man: True
      then have "unat (f16_float32ToHalfBits f) = f16_sign h * 2 ^ 15 + 31 * 2 ^ 10"
        using f16_enc_inf[of f] F by simp
      then have "f16_float32ToHalfBits f = h"
        using f16_unat[of h] True man by (intro unsigned_word_eqI[where 'a = nat]) simp
      then show ?thesis using f(1) True man by simp
    next
      case man: False
      define q where "q = (if even (f16_man h) then f16_man h + 1 else f16_man h)"
      have d: "f32_man f mod 2 ^ 13 \<noteq> 0" "f32_man f div 2 ^ 13 = f16_man h" "f32_man f \<noteq> 0"
      proof -
        have eq: "f32_man f = f16_man h * 2 ^ 13 + 1" using F(3) man by simp
        show "f32_man f mod 2 ^ 13 \<noteq> 0" unfolding eq mod_mult_self3 by simp
        show "f32_man f div 2 ^ 13 = f16_man h" unfolding eq by (subst div_mult_self3) simp_all
        show "f32_man f \<noteq> 0" unfolding eq by simp
      qed
      have "unat (f16_float32ToHalfBits f) = f16_sign h * 2 ^ 15 + 31 * 2 ^ 10 + q"
        using f16_enc_nan(1)[OF F(2) d(3)] d(1,2) F(1) by (simp add: q_def)
      moreover have "unat h = f16_sign h * 2 ^ 15 + 31 * 2 ^ 10 + f16_man h" using f16_unat[of h] True by simp
      ultimately have "unat (f16_float32ToHalfBits f) = unat h \<longleftrightarrow> odd (f16_man h)" by (simp add: q_def)
      then have "f16_float32ToHalfBits f = h \<longleftrightarrow> odd (f16_man h)" by (auto intro: unsigned_word_eqI[where 'a = nat])
      then show ?thesis using f(1) True man by simp
    qed
  next
    case False
    obtain f where f: "f16_halfBitsToFloat32 h = Some f"
      "unat f = f16_sign h * 2 ^ 31 + (f16_exp h + 112) * 2 ^ 23 + f16_man h * 2 ^ 13"
      using f16_dec_normal[OF e0 False] by blast
    have F: "f32_sign f = f16_sign h" "f32_exp f = f16_exp h + 112" "f32_man f = f16_man h * 2 ^ 13"
      by (rule f32_fields[OF f(2)]; use f16_bounds(2,3)[of h] in simp)+
    have m: "(f16_man h * 2 ^ 13 + 2 ^ 12) div 2 ^ 13 = f16_man h" by simp
    have "f16_man h * 2 ^ 13 + 2 ^ 12 < 2 ^ 23" using f16_bounds(3)[of h] by simp
    then have "unat (f16_float32ToHalfBits f) = f16_sign h * 2 ^ 15 + f16_exp h * 2 ^ 10 + f16_man h"
      using f16_enc_normal[of f] F e0 False f16_bounds(2)[of h] by simp
    then have "f16_float32ToHalfBits f = h"
      using f16_unat[of h] by (intro unsigned_word_eqI[where 'a = nat]) simp
    then show ?thesis using f(1) e0 False by simp
  qed
qed

text \<open>
  three defects of the encoder.  \<open>2^-15\<close> is a subnormal half but is encoded as zero; \<open>2^-25\<close>, which is
  below half of the least subnormal, is encoded as \<open>2^-11\<close>, 16384 times as much; and \<open>1 + 2^-11\<close>, which
  lies midway between \<open>1\<close> and the odd pattern \<open>1 + 2^-10\<close>, is rounded to the odd one, although the
  comment says round to nearest even.
\<close>

theorem f16_encoder_defects:
  "f32_value 0x38000000 = FpFinite False (2 ^ 134) \<and> f16_value 0x200 = FpFinite False (2 ^ 134) \<and>
     f16_value (f16_float32ToHalfBits 0x38000000) = FpFinite False 0 \<and>
   f32_value 0x33000000 = FpFinite False (2 ^ 124) \<and>
     f16_value (f16_float32ToHalfBits 0x33000000) = FpFinite False (2 ^ 138) \<and>
   f32_value 0x3F801000 = FpFinite False (2 ^ 149 + 2 ^ 138) \<and> f16_float32ToHalfBits 0x3F801000 = 0x3C01"
  by code_simp

end
