(* ===== verification/Float8.thy ===== *)
theory Float8
  imports Float16
begin

text \<open>
  \<open>dtype/float8.h\<close>: the conversions between binary32 and the 8-bit formats E4M3 and E5M2.  Decoding
  computes with floats; each operation it makes has an exact result with at most four significant bits,
  which IEEE arithmetic returns, so \<open>fl_add\<close>, \<open>fl_mul\<close> and \<open>fl_div\<close> below are the exact operations on
  multiples of \<open>2^-149\<close>.
\<close>

unbundle bit_operations_syntax

section \<open>Formats\<close>

record fp8_spec =
  sp8_exponent_bits :: nat
  sp8_mantissa_bits :: nat
  sp8_exponent_bias :: int
  sp8_has_infinity :: bool
  sp8_saturate_for_nan_inf :: bool

definition fp8_exponentMask :: "fp8_spec \<Rightarrow> u8" where
  "fp8_exponentMask sp = ucast (push_bit (sp8_exponent_bits sp) 1 - 1 :: u32)"

definition fp8_mantissaMask :: "fp8_spec \<Rightarrow> u8" where
  "fp8_mantissaMask sp = ucast (push_bit (sp8_mantissa_bits sp) 1 - 1 :: u32)"

definition fp8_maxFiniteExponentField :: "fp8_spec \<Rightarrow> u8" where
  "fp8_maxFiniteExponentField sp =
     (let mask = fp8_exponentMask sp in if sp8_has_infinity sp then mask - 1 else mask)"

definition fp8_maxFiniteBits :: "fp8_spec \<Rightarrow> u8" where
  "fp8_maxFiniteBits sp =
     ucast (push_bit (sp8_mantissa_bits sp) (ucast (fp8_maxFiniteExponentField sp)) OR ucast (fp8_mantissaMask sp) :: u32)"

definition fp8_infinityBits :: "fp8_spec \<Rightarrow> u8" where
  "fp8_infinityBits sp = ucast (push_bit (sp8_mantissa_bits sp) (ucast (fp8_exponentMask sp)) :: u32)"

definition fp8_quietNaNBits :: "fp8_spec \<Rightarrow> u8" where
  "fp8_quietNaNBits sp = ucast (push_bit (sp8_mantissa_bits sp) (ucast (fp8_exponentMask sp)) OR 1 :: u32)"

definition fp8_kFormatE4M3 :: fp8_spec where
  "fp8_kFormatE4M3 = \<lparr>sp8_exponent_bits = 4, sp8_mantissa_bits = 3, sp8_exponent_bias = 7, sp8_has_infinity = False,
     sp8_saturate_for_nan_inf = True\<rparr>"

definition fp8_kFormatE5M2 :: fp8_spec where
  "fp8_kFormatE5M2 = \<lparr>sp8_exponent_bits = 5, sp8_mantissa_bits = 2, sp8_exponent_bias = 15, sp8_has_infinity = True,
     sp8_saturate_for_nan_inf = False\<rparr>"

definition fp8_packFp8Bits :: "u8 \<Rightarrow> u8 \<Rightarrow> u8 \<Rightarrow> fp8_spec \<Rightarrow> u8" where
  "fp8_packFp8Bits sign exponent_field mantissa_field sp =
     ucast (push_bit 7 (ucast sign) OR push_bit (sp8_mantissa_bits sp) (ucast exponent_field) OR ucast mantissa_field :: u32)"

section \<open>Encoding\<close>

text \<open>Shifting right with rounding to nearest, ties to even.\<close>

definition fp8_roundShift :: "u32 \<Rightarrow> nat \<Rightarrow> u32" where
  "fp8_roundShift mantissa_full shift =
     (let mant = drop_bit shift mantissa_full; remainder_mask = push_bit shift 1 - 1;
          remainder = mantissa_full AND remainder_mask; halfway = push_bit (shift - 1) 1
      in if remainder > halfway \<or> remainder = halfway \<and> mant AND 1 \<noteq> 0 then mant + 1 else mant)"

definition fp8_float32ToFp8 :: "u32 \<Rightarrow> fp8_spec \<Rightarrow> u8" where
  "fp8_float32ToFp8 bits sp =
     (let sign = ucast (drop_bit 31 bits) :: u8; exponent = drop_bit 23 bits AND 0xFF; mantissa = bits AND 0x7FFFFF;
          sign_bits = push_bit 7 sign
      in if exponent = 0xFF then
           (if mantissa = 0 then
              (if sp8_has_infinity sp then sign_bits OR fp8_infinityBits sp else sign_bits OR fp8_maxFiniteBits sp)
            else sign_bits OR fp8_quietNaNBits sp)
         else if bits AND 0x7FFFFFFF = 0 then sign_bits
         else let max_finite_exponent = uint (fp8_maxFiniteExponentField sp); mantissa_full = mantissa OR 0x800000;
                  exponent_field = uint exponent - 127 + sp8_exponent_bias sp
         in if exponent_field > max_finite_exponent then
              (if sp8_has_infinity sp then sign_bits OR fp8_infinityBits sp else sign_bits OR fp8_maxFiniteBits sp)
            else let mantissa_shift = 23 - sp8_mantissa_bits sp
            in if exponent_field \<le> 0 then
                 (let shift = nat (1 - exponent_field) + mantissa_shift
                  in if shift \<ge> 32 then sign_bits
                     else let mant = fp8_roundShift mantissa_full shift
                          in if mant = push_bit (sp8_mantissa_bits sp) 1 then fp8_packFp8Bits sign 1 0 sp
                             else fp8_packFp8Bits sign 0 (ucast (mant AND ucast (fp8_mantissaMask sp))) sp)
               else let mant = fp8_roundShift mantissa_full mantissa_shift
               in if mant = push_bit (sp8_mantissa_bits sp + 1) 1 then
                    (let mant = drop_bit 1 mant; exponent_field = exponent_field + 1
                     in if exponent_field > max_finite_exponent then
                          (if sp8_has_infinity sp then sign_bits OR fp8_infinityBits sp else sign_bits OR fp8_maxFiniteBits sp)
                        else fp8_packFp8Bits sign (of_int exponent_field) (ucast (mant AND ucast (fp8_mantissaMask sp))) sp)
                  else fp8_packFp8Bits sign (of_int exponent_field) (ucast (mant AND ucast (fp8_mantissaMask sp))) sp)"

section \<open>Decoding\<close>

definition fl_nat :: "nat \<Rightarrow> fp_value" where
  "fl_nat n = FpFinite False (n * 2 ^ 149)"

fun fl_mul :: "fp_value \<Rightarrow> fp_value \<Rightarrow> fp_value" where
  "fl_mul (FpFinite s a) (FpFinite t b) = FpFinite (s \<noteq> t) (a * b div 2 ^ 149)"
| "fl_mul _ _ = FpNaN"

fun fl_div :: "fp_value \<Rightarrow> fp_value \<Rightarrow> fp_value" where
  "fl_div (FpFinite s a) (FpFinite t b) = FpFinite (s \<noteq> t) (a * 2 ^ 149 div b)"
| "fl_div _ _ = FpNaN"

fun fl_add :: "fp_value \<Rightarrow> fp_value \<Rightarrow> fp_value" where
  "fl_add (FpFinite False a) (FpFinite False b) = FpFinite False (a + b)"
| "fl_add _ _ = FpNaN"

definition fp8_pow2 :: "int \<Rightarrow> fp_value" where
  "fp8_pow2 e =
     (if e > 0 then ((\<lambda>v. fl_mul v (fl_nat 2)) ^^ nat e) (fl_nat 1)
      else ((\<lambda>v. fl_mul v (FpFinite False (2 ^ 148))) ^^ nat (- e)) (fl_nat 1))"

definition fp8_fp8ToFloat32 :: "u8 \<Rightarrow> fp8_spec \<Rightarrow> fp_value" where
  "fp8_fp8ToFloat32 storage sp =
     (let sign = drop_bit 7 storage \<noteq> 0; exponent_field = drop_bit (sp8_mantissa_bits sp) storage AND fp8_exponentMask sp;
          mantissa_field = storage AND fp8_mantissaMask sp; sign_value = FpFinite sign (2 ^ 149);
          denom = fl_nat (2 ^ sp8_mantissa_bits sp)
      in if exponent_field = fp8_exponentMask sp then
           (if sp8_has_infinity sp \<and> mantissa_field = 0 then FpInf sign else FpNaN)
         else if exponent_field = 0 then
           (if mantissa_field = 0 then FpFinite sign 0
            else let fraction = fl_div (fl_nat (unat mantissa_field)) denom;
                     magnitude = fl_mul fraction (fp8_pow2 (1 - sp8_exponent_bias sp))
                 in fl_mul sign_value magnitude)
         else let fraction = fl_add (fl_nat 1) (fl_div (fl_nat (unat mantissa_field)) denom);
                  exponent = uint exponent_field - sp8_exponent_bias sp
              in fl_mul (fl_mul sign_value fraction) (fp8_pow2 exponent))"

section \<open>Rounding\<close>

definition fp8_rne :: "nat \<Rightarrow> nat \<Rightarrow> nat" where
  "fp8_rne a s = (let q = a div 2 ^ s; r = a mod 2 ^ s in if 2 ^ (s - 1) < r \<or> r = 2 ^ (s - 1) \<and> odd q then q + 1 else q)"

lemma fp8_rne_error:
  assumes "1 \<le> s"
  shows "\<bar>int (fp8_rne a s) * 2 ^ s - int a\<bar> \<le> 2 ^ (s - 1)"
    and "\<bar>int (fp8_rne a s) * 2 ^ s - int a\<bar> = 2 ^ (s - 1) \<Longrightarrow> even (fp8_rne a s)"
proof -
  define h where "h = (2::nat) ^ (s - 1)"
  have d: "(2::nat) ^ s = 2 * h" using assms by (simp add: h_def power_eq_if)
  define q r where "q = a div (2 * h)" and "r = a mod (2 * h)"
  have "a = q * (2 * h) + r" unfolding q_def r_def by (simp only: div_mult_mod_eq)
  then have "int a = int (q * (2 * h) + r)" by (simp only:)
  then have a: "int a = int q * (2 * int h) + int r" by (simp only: of_nat_add of_nat_mult of_nat_numeral)
  have r: "r < 2 * h" by (simp add: r_def h_def)
  have e: "int (fp8_rne a s) * 2 ^ s - int a = (if h < r \<or> r = h \<and> odd q then 2 * int h - int r else - int r)"
  proof -
    have "(2::int) ^ s = int (2 ^ s)" by simp
    then have d2: "(2::int) ^ s = 2 * int h" unfolding d by simp
    have "fp8_rne a s = (if h < r \<or> r = h \<and> odd q then q + 1 else q)"
      unfolding fp8_rne_def d h_def[symmetric] Let_def q_def[symmetric] r_def[symmetric] ..
    then show ?thesis unfolding d2 a by (simp add: algebra_simps)
  qed
  have h2: "(2::int) ^ (s - 1) = int h" by (simp add: h_def)
  show "\<bar>int (fp8_rne a s) * 2 ^ s - int a\<bar> \<le> 2 ^ (s - 1)"
    unfolding e h2 using r by (auto split: if_splits)
  assume "\<bar>int (fp8_rne a s) * 2 ^ s - int a\<bar> = 2 ^ (s - 1)"
  then have "r = h" unfolding e h2 using r by (auto split: if_splits)
  then show "even (fp8_rne a s)"
    unfolding fp8_rne_def d h_def[symmetric] Let_def q_def[symmetric] r_def[symmetric] by simp
qed

lemma fp8_rne_nearest:
  assumes "1 \<le> s"
  shows "\<bar>int (fp8_rne a s) * 2 ^ s - int a\<bar> \<le> \<bar>k * 2 ^ s - int a\<bar>"
    and "\<bar>k * 2 ^ s - int a\<bar> = \<bar>int (fp8_rne a s) * 2 ^ s - int a\<bar> \<Longrightarrow> k \<noteq> int (fp8_rne a s) \<Longrightarrow> even (fp8_rne a s)"
proof -
  let ?Q = "int (fp8_rne a s)" and ?d = "(2::int) ^ s" and ?h = "(2::int) ^ (s - 1)"
  have d: "?d = 2 * ?h" using assms by (simp add: power_eq_if)
  have far: "2 * ?h \<le> \<bar>k * ?d - int a\<bar> + \<bar>?Q * ?d - int a\<bar>" if "k \<noteq> ?Q"
  proof -
    have "1 \<le> \<bar>k - ?Q\<bar>" using that by simp
    then have "1 * ?d \<le> \<bar>k - ?Q\<bar> * ?d" by (rule mult_right_mono) simp
    moreover have "(k - ?Q) * ?d = (k * ?d - int a) - (?Q * ?d - int a)" by (simp add: left_diff_distrib)
    then have "\<bar>k - ?Q\<bar> * ?d = \<bar>(k * ?d - int a) - (?Q * ?d - int a)\<bar>" by (metis abs_mult abs_numeral power_abs)
    ultimately show ?thesis using d by linarith
  qed
  note b = fp8_rne_error[OF assms, of a]
  show "\<bar>?Q * ?d - int a\<bar> \<le> \<bar>k * ?d - int a\<bar>"
  proof (cases "k = ?Q")
    case False
    from far[OF this] b(1) show ?thesis by linarith
  qed simp
  assume "\<bar>k * ?d - int a\<bar> = \<bar>?Q * ?d - int a\<bar>" "k \<noteq> ?Q"
  with far b(1) have "\<bar>?Q * ?d - int a\<bar> = ?h" by linarith
  then show "even (fp8_rne a s)" by (rule b(2))
qed

lemma fp8_rne_exact: "1 \<le> s \<Longrightarrow> fp8_rne (c * 2 ^ s) s = c"
  by (simp add: fp8_rne_def)

lemma fp8_rne_le: "a < c * 2 ^ s \<Longrightarrow> fp8_rne a s \<le> c"
proof -
  assume "a < c * 2 ^ s"
  then have "a div 2 ^ s < c" by (simp add: less_mult_imp_div_less)
  then show ?thesis by (simp add: fp8_rne_def Let_def)
qed

lemma fp8_rne_ge: "c * 2 ^ s \<le> a \<Longrightarrow> c \<le> fp8_rne a s"
proof -
  assume "c * 2 ^ s \<le> a"
  then have "c * 2 ^ s div 2 ^ s \<le> a div 2 ^ s" by (rule div_le_mono)
  then have "c \<le> a div 2 ^ s" by simp
  then show ?thesis by (simp add: fp8_rne_def Let_def)
qed

lemma fp8_roundShift_unat:
  assumes "1 \<le> s" "s < 32" "unat a < 2 ^ 24"
  shows "unat (fp8_roundShift a s) = fp8_rne (unat a) s"
proof -
  have q: "unat (drop_bit s a) = unat a div 2 ^ s" by (simp only: unat_drop)
  have "push_bit s 1 - 1 = (mask s :: u32)" by (simp add: mask_eq_exp_minus_1 push_bit_of_1)
  then have r: "unat (a AND (push_bit s 1 - 1)) = unat a mod 2 ^ s" by (simp only: unat_take flip: take_bit_eq_mask)
  have h: "unat (push_bit (s - 1) 1 :: u32) = 2 ^ (s - 1)"
  proof -
    have "(2::nat) ^ (s - 1) < 2 ^ 32" using assms(2) by (intro power_strict_increasing) simp_all
    then show ?thesis by (subst unat_push_small) simp_all
  qed
  have o: "drop_bit s a AND 1 \<noteq> 0 \<longleftrightarrow> odd (unat a div 2 ^ s)"
    unfolding q[symmetric] word_even[symmetric] by (simp add: and_one_eq even_iff_mod_2_eq_zero)
  have "unat a div 2 ^ s \<le> unat a" by (rule div_le_dividend)
  moreover have "unat a + 1 < 2 ^ 32" using assms(3) by simp
  ultimately have "unat a div 2 ^ s + 1 < 2 ^ 32" by linarith
  then have s1: "unat (drop_bit s a + 1) = unat a div 2 ^ s + 1" by (subst unat_word_ariths) (simp add: q)
  have c: "push_bit (s - 1) 1 < a AND (push_bit s 1 - 1) \<longleftrightarrow> 2 ^ (s - 1) < unat a mod 2 ^ s"
    "a AND (push_bit s 1 - 1) = push_bit (s - 1) 1 \<longleftrightarrow> unat a mod 2 ^ s = 2 ^ (s - 1)"
    unfolding r[symmetric] h[symmetric] by (auto simp: word_less_nat_alt intro: unsigned_word_eqI[where 'a = nat])
  show ?thesis
    unfolding fp8_roundShift_def fp8_rne_def Let_def c o using q s1 by simp
qed

section \<open>Values of bytes\<close>

text \<open>
  The standard reading of a byte: E5M2 has infinities and NaNs at the largest exponent, as IEEE formats
  do; E4M3 has no infinity and a single NaN pattern, all ones, so its largest exponent holds finite values
  up to 448.  \<open>fp8_mag\<close> is the magnitude of the low seven bits.
\<close>

definition fp8_std :: "fp8_spec \<Rightarrow> bool" where
  "fp8_std sp \<longleftrightarrow> sp = fp8_kFormatE4M3 \<or> sp = fp8_kFormatE5M2"

definition fp8_mag :: "fp8_spec \<Rightarrow> nat \<Rightarrow> nat" where
  "fp8_mag sp n =
     (let mb = sp8_mantissa_bits sp; bias = nat (sp8_exponent_bias sp); ef = n div 2 ^ mb; m = n mod 2 ^ mb
      in if ef = 0 then m * 2 ^ (150 - bias - mb) else (2 ^ mb + m) * 2 ^ (149 + ef - bias - mb))"

definition fp8_value :: "fp8_spec \<Rightarrow> u8 \<Rightarrow> fp_value" where
  "fp8_value sp b =
     (let s = (unat b div 128 = 1); n = unat b mod 128
      in if sp8_has_infinity sp then
           (if n = 124 then FpInf s else if n > 124 then FpNaN else FpFinite s (fp8_mag sp n))
         else if n = 127 then FpNaN else FpFinite s (fp8_mag sp n))"

definition fp8_largest :: "fp8_spec \<Rightarrow> nat" where
  "fp8_largest sp = (if sp8_has_infinity sp then 57344 * 2 ^ 149 else 448 * 2 ^ 149)"

lemmas fp8_mask_simps = fp8_exponentMask_def fp8_mantissaMask_def fp8_maxFiniteExponentField_def fp8_maxFiniteBits_def
  fp8_infinityBits_def fp8_kFormatE4M3_def fp8_kFormatE5M2_def Let_def

lemma fp8_std_facts:
  assumes "fp8_std sp"
  obtains mb bias where "sp8_mantissa_bits sp = mb" "sp8_exponent_bias sp = int bias" "2 \<le> mb" "mb \<le> 3"
    "bias = 2 ^ (6 - mb) - 1" "unat (fp8_exponentMask sp) = 2 ^ (7 - mb) - 1" "unat (fp8_mantissaMask sp) = 2 ^ mb - 1"
    "unat (fp8_maxFiniteExponentField sp) = (if sp8_has_infinity sp then 2 ^ (7 - mb) - 2 else 2 ^ (7 - mb) - 1)"
proof -
  consider "sp = fp8_kFormatE4M3" | "sp = fp8_kFormatE5M2" using assms by (auto simp: fp8_std_def)
  then show thesis
  proof cases
    case 1
    have "unat (fp8_exponentMask fp8_kFormatE4M3) = 15" "unat (fp8_mantissaMask fp8_kFormatE4M3) = 7"
      "unat (fp8_maxFiniteExponentField fp8_kFormatE4M3) = 15" by (simp_all add: fp8_mask_simps)
    with 1 show thesis by (intro that[of 3 7]) (simp_all add: fp8_kFormatE4M3_def)
  next
    case 2
    have "unat (fp8_exponentMask fp8_kFormatE5M2) = 31" "unat (fp8_mantissaMask fp8_kFormatE5M2) = 3"
      "unat (fp8_maxFiniteExponentField fp8_kFormatE5M2) = 30" by (simp_all add: fp8_mask_simps)
    with 2 show thesis by (intro that[of 2 15]) (simp_all add: fp8_kFormatE5M2_def)
  qed
qed

lemma fp8_pack_unat:
  assumes "sp8_mantissa_bits sp = mb" "mb \<le> 7" and "unat sg \<le> 1" "unat ef < 2 ^ (7 - mb)" "unat m < 2 ^ mb"
  shows "unat (fp8_packFp8Bits sg ef m sp) = unat sg * 128 + unat ef * 2 ^ mb + unat m"
proof -
  have w: "unat (ucast v :: u32) = unat v" for v :: u8
  proof -
    have "unat v < 2 ^ 8" by (rule order.strict_trans2[OF unsigned_less]) simp
    then show ?thesis by (simp add: unat_shrink)
  qed
  have p: "(2::nat) ^ (7 - mb) * 2 ^ mb = 128" using assms(2) pow_join[of "7 - mb" mb 7] by simp
  have "unat ef * 2 ^ mb + 2 ^ mb \<le> 2 ^ (7 - mb) * 2 ^ mb"
    using assms(4) by (metis Suc_leI add.commute mult_Suc mult_le_mono1)
  then have e: "unat ef * 2 ^ mb + unat m < 128" using p assms(5) by linarith
  have x: "unat (push_bit mb (ucast ef) :: u32) = unat ef * 2 ^ mb"
    using e by (subst unat_push_small) (simp_all add: w)
  have y: "unat (push_bit 7 (ucast sg) :: u32) = unat sg * 2 ^ 7"
    using assms(3) by (subst unat_push_small) (simp_all add: w)
  have xy: "unat (push_bit mb (ucast ef) OR ucast m :: u32) = unat ef * 2 ^ mb + unat m"
    by (subst unat_or_add[of mb]) (simp_all add: x w assms(5))
  have "unat (push_bit 7 (ucast sg) OR (push_bit mb (ucast ef) OR ucast m) :: u32) = unat sg * 2 ^ 7 + (unat ef * 2 ^ mb + unat m)"
    using e by (subst unat_or_add[of 7]) (simp_all add: y xy)
  moreover have "unat sg * 2 ^ 7 + (unat ef * 2 ^ mb + unat m) < 2 ^ 8" using e assms(3) by simp
  ultimately show ?thesis
    by (simp add: fp8_packFp8Bits_def assms(1) or.assoc unat_shrink)
qed

text \<open>Magnitude codes near a rounded significand: the carry into the exponent comes for free.\<close>

lemma fp8_mag_small:
  assumes "sp8_mantissa_bits sp = mb" "sp8_exponent_bias sp = int bias" "Q \<le> 2 ^ mb"
  shows "fp8_mag sp Q = Q * 2 ^ (150 - bias - mb)"
proof (cases "Q = 2 ^ mb")
  case True
  then show ?thesis by (simp add: fp8_mag_def Let_def assms(1,2))
next
  case False
  then show ?thesis using assms(3) by (simp add: fp8_mag_def Let_def assms(1,2))
qed

lemma fp8_mag_normal:
  assumes "sp8_mantissa_bits sp = mb" "sp8_exponent_bias sp = int bias" "2 ^ mb \<le> Q" "Q \<le> 2 * 2 ^ mb" "1 \<le> x"
    and "bias + mb \<le> 149"
  shows "fp8_mag sp ((x - 1) * 2 ^ mb + Q) = Q * 2 ^ (149 + x - bias - mb)"
proof (cases "Q = 2 * 2 ^ mb")
  case True
  then have eq: "(x - 1) * 2 ^ mb + Q = (x + 1) * 2 ^ mb" using assms(5) by (simp add: algebra_simps diff_mult_distrib)
  have "149 + (x + 1) - bias - mb = Suc (149 + x - bias - mb)" using assms(6) by simp
  then show ?thesis unfolding eq by (simp add: fp8_mag_def Let_def assms(1,2) True)
next
  case False
  define m where "m = Q - 2 ^ mb"
  have m: "m < 2 ^ mb" "Q = 2 ^ mb + m" using False assms(3,4) by (simp_all add: m_def)
  have eq: "(x - 1) * 2 ^ mb + Q = m + x * 2 ^ mb" using assms(5) m(2) by (simp add: diff_mult_distrib)
  have "(m + x * 2 ^ mb) div 2 ^ mb = x" "(m + x * 2 ^ mb) mod 2 ^ mb = m" using m(1) by simp_all
  then show ?thesis unfolding eq using assms(5) m(2) by (simp add: fp8_mag_def Let_def assms(1,2))
qed

section \<open>Encoding by fields\<close>

text \<open>The exponent field before rounding, and the amount of the shift.\<close>

definition fp8_X :: "fp8_spec \<Rightarrow> u32 \<Rightarrow> int" where
  "fp8_X sp f = int (f32_exp f) - 127 + sp8_exponent_bias sp"

lemma fp8_sign:
  "unat (ucast (drop_bit 31 f) :: u8) = f32_sign f" "unat (push_bit 7 (ucast (drop_bit 31 f)) :: u8) = f32_sign f * 128"
proof -
  show s: "unat (ucast (drop_bit 31 f) :: u8) = f32_sign f"
    using f32_bounds(1)[of f] unfolding unat_shrink unat_drop by (simp add: f32_sign_def)
  show "unat (push_bit 7 (ucast (drop_bit 31 f)) :: u8) = f32_sign f * 128"
    using f32_bounds(1)[of f] by (subst unat_push_small) (simp_all add: s)
qed

lemma fp8_exp_word: "unat (drop_bit 23 f AND 0xFF) = f32_exp f" for f :: u32
  by (simp only: word_mask_fields unat_take unat_drop f32_exp_def)

lemma fp8_full: "unat ((f AND 0x7FFFFF) OR 0x800000) = 2 ^ 23 + f32_man f" for f :: u32
  using unat_or_add[of 23 "0x800000 :: u32" "f AND 0x7FFFFF"] f32_bounds(3)[of f]
  by (simp add: f16_enc_man or.commute)

lemma fp8_zero_iff: "f AND 0x7FFFFFFF = 0 \<longleftrightarrow> f32_exp f = 0 \<and> f32_man f = 0" for f :: u32
proof -
  have "unat (f AND 0x7FFFFFFF) = unat f mod 2 ^ 31" by (simp only: word_mask_fields unat_take)
  also have "\<dots> = f32_exp f * 2 ^ 23 + f32_man f"
  proof -
    have "f32_exp f * 2 ^ 23 + f32_man f < 2 ^ 31" using f32_bounds(2,3)[of f] by simp
    then show ?thesis unfolding f32_unat[of f] by (simp add: add.assoc)
  qed
  finally show ?thesis by (simp flip: unat_eq_zero)
qed

lemma fp8_or_sign:
  assumes "unat b < 128"
  shows "unat (push_bit 7 (ucast (drop_bit 31 f)) OR b :: u8) = f32_sign f * 128 + unat b"
  using assms unat_or_add[of 7 "push_bit 7 (ucast (drop_bit 31 f)) :: u8" b] fp8_sign(2)[of f] by simp

lemma unat_exp_eq: "k < 32 \<Longrightarrow> unat (push_bit k 1 :: u32) = 2 ^ k"
proof -
  assume "k < 32"
  then have "(2::nat) ^ k < 2 ^ 32" by (intro power_strict_increasing) simp_all
  then show ?thesis by (subst unat_push_small) simp_all
qed

text \<open>The low bits of a rounded significand, as the encoder masks them.\<close>

lemma fp8_low:
  fixes w :: u32
  assumes "unat (fp8_mantissaMask sp) = 2 ^ mb - 1" "mb \<le> 7"
  shows "unat (ucast (w AND ucast (fp8_mantissaMask sp)) :: u8) = unat w mod 2 ^ mb"
proof -
  have "(2::nat) ^ mb \<le> 2 ^ 7" using assms(2) by (intro power_increasing) simp_all
  then have le: "(2::nat) ^ mb \<le> 128" by simp
  have e: "unat (push_bit mb 1 :: u32) = 2 ^ mb" using assms(2) by (intro unat_exp_eq) simp
  then have "push_bit mb 1 \<noteq> (0 :: u32)" by (metis power_not_zero unsigned_0 zero_neq_numeral)
  then have "unat (mask mb :: u32) = 2 ^ mb - 1"
    using unat_minus_one[of "push_bit mb 1 :: u32"] e by (simp add: mask_eq_exp_minus_1 push_bit_of_1)
  moreover have "unat (ucast (fp8_mantissaMask sp) :: u32) = 2 ^ mb - 1"
    using le assms(1) by (simp add: unat_shrink)
  ultimately have "ucast (fp8_mantissaMask sp) = (mask mb :: u32)" by (intro unsigned_word_eqI[where 'a = nat]) simp
  then have "unat (w AND ucast (fp8_mantissaMask sp)) = unat w mod 2 ^ mb"
    by (simp only: unat_take flip: take_bit_eq_mask)
  moreover have "unat w mod 2 ^ mb < 256" using le by (intro less_le_trans[OF mod_less_divisor]) simp_all
  ultimately show ?thesis by (simp add: unat_shrink)
qed

lemma word_eq_exp: "k < 32 \<Longrightarrow> w = push_bit k 1 \<longleftrightarrow> unat w = 2 ^ k" for w :: u32
  by (metis unat_exp_eq unsigned_word_eqI)

definition fp8_overflow :: "fp8_spec \<Rightarrow> nat" where
  "fp8_overflow sp = (if sp8_has_infinity sp then 124 else 127)"

lemma fp8_overflow_bits:
  assumes "fp8_std sp"
  shows "unat (if sp8_has_infinity sp then push_bit 7 (ucast (drop_bit 31 f)) OR fp8_infinityBits sp
      else push_bit 7 (ucast (drop_bit 31 f)) OR fp8_maxFiniteBits sp :: u8) = f32_sign f * 128 + fp8_overflow sp"
proof -
  have "unat (fp8_maxFiniteBits fp8_kFormatE4M3) = 127" "unat (fp8_infinityBits fp8_kFormatE5M2) = 124"
    by (simp_all add: fp8_mask_simps)
  then show ?thesis using assms
    by (auto simp: fp8_std_def fp8_overflow_def fp8_or_sign fp8_kFormatE4M3_def fp8_kFormatE5M2_def)
qed

text \<open>The three ways the encoder ends on a finite value.\<close>

lemma fp8_enc_small:
  assumes std: "fp8_std sp" and mb: "sp8_mantissa_bits sp = mb" and E: "f32_exp f \<noteq> 255" and X: "fp8_X sp f \<le> 0"
  defines "s \<equiv> nat (1 - fp8_X sp f) + (23 - mb)"
  shows "unat (fp8_float32ToFp8 f sp) = f32_sign f * 128 + (if 32 \<le> s then 0 else fp8_rne (2 ^ 23 + f32_man f) s)"
    and "s < 32 \<Longrightarrow> fp8_rne (2 ^ 23 + f32_man f) s \<le> 2 ^ mb"
proof -
  obtain bias where F: "sp8_exponent_bias sp = int bias" "2 \<le> mb" "mb \<le> 3" "bias = 2 ^ (6 - mb) - 1"
    "unat (fp8_mantissaMask sp) = 2 ^ mb - 1" using fp8_std_facts[OF std] mb by metis
  have mb23: "mb = 2 \<or> mb = 3" using F(2,3) by linarith
  then have b15: "bias \<le> 15" using F(4) by auto
  have s1: "1 \<le> s" using X by (simp add: s_def)
  have s23: "24 - mb \<le> s" using X F(3) by (simp add: s_def)
  have "(2::nat) ^ 24 = 2 ^ mb * 2 ^ (24 - mb)" using F(3) by (intro pow_join[symmetric]) simp
  also have "\<dots> \<le> 2 ^ mb * 2 ^ s" using s23 by (intro mult_left_mono power_increasing) simp_all
  finally have "2 ^ 23 + f32_man f < 2 ^ mb * 2 ^ s" using f32_bounds(3)[of f] by simp
  then show q: "fp8_rne (2 ^ 23 + f32_man f) s \<le> 2 ^ mb" if "s < 32" by (rule fp8_rne_le)
  let ?m = "(f AND 0x7FFFFF) OR 0x800000"
  have r: "unat (fp8_roundShift ?m s) = fp8_rne (2 ^ 23 + f32_man f) s" if "s < 32"
    using fp8_roundShift_unat[OF s1 that, of ?m] f32_bounds(3)[of f] by (simp add: fp8_full)
  have e255: "drop_bit 23 f AND 0xFF \<noteq> 0xFF" using E fp8_exp_word[of f] by auto
  have X1: "uint (drop_bit 23 f AND 0xFF) - 127 + sp8_exponent_bias sp = fp8_X sp f"
    unfolding fp8_X_def using fp8_exp_word[of f] by (metis uint_nat)
  have X2: "\<not> uint (fp8_maxFiniteExponentField sp) < fp8_X sp f" using X by (simp only: not_less uint_nat)
  have zero: "32 \<le> s" if "f AND 0x7FFFFFFF = 0"
  proof -
    have "f32_exp f = 0" using that fp8_zero_iff by blast
    then show ?thesis using b15 F(1,3) by (simp add: s_def fp8_X_def)
  qed
  show "unat (fp8_float32ToFp8 f sp) = f32_sign f * 128 + (if 32 \<le> s then 0 else fp8_rne (2 ^ 23 + f32_man f) s)"
  proof (cases "32 \<le> s")
    case True
    then have "fp8_float32ToFp8 f sp = push_bit 7 (ucast (drop_bit 31 f))"
      using e255 X X2 by (simp add: fp8_float32ToFp8_def Let_def X1 mb s_def)
    then show ?thesis using True fp8_sign(2)[of f] by simp
  next
    case False
    then have nz: "f AND 0x7FFFFFFF \<noteq> 0" using zero by blast
    have s32: "s < 32" using False by simp
    have mb32: "mb < 32" using F(3) by simp
    have enc: "fp8_float32ToFp8 f sp =
        (if fp8_roundShift ?m s = push_bit mb 1 then fp8_packFp8Bits (ucast (drop_bit 31 f)) 1 0 sp
         else fp8_packFp8Bits (ucast (drop_bit 31 f)) 0 (ucast (fp8_roundShift ?m s AND ucast (fp8_mantissaMask sp))) sp)"
      using e255 X X2 nz False by (simp add: fp8_float32ToFp8_def Let_def X1 mb s_def)
    note pack = fp8_pack_unat[OF mb, of "ucast (drop_bit 31 f)"]
    show ?thesis
    proof (cases "fp8_rne (2 ^ 23 + f32_man f) s = 2 ^ mb")
      case True
      then have "fp8_roundShift ?m s = push_bit mb 1" using r[OF s32] word_eq_exp[OF mb32] by simp
      then show ?thesis
        using enc False True pack[of 1 0] mb23 f32_bounds(1)[of f] by (auto simp: fp8_sign(1))
    next
      case ne: False
      then have "fp8_roundShift ?m s \<noteq> push_bit mb 1" using r[OF s32] word_eq_exp[OF mb32] by simp
      moreover have "fp8_rne (2 ^ 23 + f32_man f) s < 2 ^ mb" using q[OF s32] ne by simp
      ultimately show ?thesis
        using enc False pack[of 0 "ucast (fp8_roundShift ?m s AND ucast (fp8_mantissaMask sp))"] F(2,3) f32_bounds(1)[of f]
        by (simp add: fp8_sign(1) fp8_low[OF F(5)] r[OF s32])
    qed
  qed
qed

lemma fp8_enc_normal:
  assumes std: "fp8_std sp" and mb: "sp8_mantissa_bits sp = mb" and E: "f32_exp f \<noteq> 255" and X: "1 \<le> fp8_X sp f"
  defines "Q \<equiv> fp8_rne (2 ^ 23 + f32_man f) (23 - mb)" and "lim \<equiv> int (unat (fp8_maxFiniteExponentField sp))"
  shows "unat (fp8_float32ToFp8 f sp) = f32_sign f * 128 +
      (if lim < fp8_X sp f \<or> fp8_X sp f = lim \<and> Q = 2 * 2 ^ mb then fp8_overflow sp
       else (nat (fp8_X sp f) - 1) * 2 ^ mb + Q)"
    and "2 ^ mb \<le> Q" "Q \<le> 2 * 2 ^ mb"
proof -
  obtain bias where F: "sp8_exponent_bias sp = int bias" "2 \<le> mb" "mb \<le> 3" "bias = 2 ^ (6 - mb) - 1"
    "unat (fp8_mantissaMask sp) = 2 ^ mb - 1"
    "unat (fp8_maxFiniteExponentField sp) = (if sp8_has_infinity sp then 2 ^ (7 - mb) - 2 else 2 ^ (7 - mb) - 1)"
    using fp8_std_facts[OF std] mb by metis
  have lim7: "lim < 2 ^ (7 - mb)"
    unfolding lim_def F(6) by (cases "mb = 2") (use F(2,3) in \<open>auto simp: le_Suc_eq numeral_eq_Suc\<close>)
  let ?m = "(f AND 0x7FFFFF) OR 0x800000" and ?X = "fp8_X sp f"
  have p24: "(2::nat) ^ 24 = 2 * 2 ^ mb * 2 ^ (23 - mb)"
    using F(3) pow_join[of "Suc mb" "23 - mb" 24] by simp
  have p23: "(2::nat) ^ 23 = 2 ^ mb * 2 ^ (23 - mb)" using F(3) by (intro pow_join[symmetric]) simp
  show Q1: "2 ^ mb \<le> Q" unfolding Q_def by (rule fp8_rne_ge) (simp only: p23[symmetric] le_add1)
  show Q2: "Q \<le> 2 * 2 ^ mb"
    unfolding Q_def by (rule fp8_rne_le) (use f32_bounds(3)[of f] p24 in simp)
  have r: "unat (fp8_roundShift ?m (23 - mb)) = Q"
    using fp8_roundShift_unat[of "23 - mb" ?m] F(2,3) f32_bounds(3)[of f] by (simp add: fp8_full Q_def)
  have e255: "drop_bit 23 f AND 0xFF \<noteq> 0xFF" using E fp8_exp_word[of f] by auto
  have X1: "uint (drop_bit 23 f AND 0xFF) - 127 + sp8_exponent_bias sp = ?X"
    unfolding fp8_X_def using fp8_exp_word[of f] by (metis uint_nat)
  have lim: "uint (fp8_maxFiniteExponentField sp) = lim" by (simp only: lim_def uint_nat)
  have nz: "f AND 0x7FFFFFFF \<noteq> 0"
  proof
    assume "f AND 0x7FFFFFFF = 0"
    then have "f32_exp f = 0" using fp8_zero_iff by blast
    moreover have "mb = 2 \<or> mb = 3" using F(2,3) by linarith
    then have "bias \<le> 15" using F(4) by auto
    ultimately show False using X F(1) by (simp add: fp8_X_def)
  qed
  note over = fp8_overflow_bits[OF std, of f]
  have mb32: "mb + 1 < 32" using F(3) by simp
  have carry: "fp8_roundShift ?m (23 - mb) = push_bit (mb + 1) 1 \<longleftrightarrow> Q = 2 * 2 ^ mb"
    unfolding word_eq_exp[OF mb32] r by simp
  note pack = fp8_pack_unat[OF mb, of "ucast (drop_bit 31 f)"]
  have ef: "unat (of_int x :: u8) = nat x" if "0 \<le> x" "x < 2 ^ (7 - mb)" for x
  proof -
    have "(2::int) ^ (7 - mb) \<le> 2 ^ 7" by (intro power_increasing) simp_all
    then show ?thesis using that by (simp add: unsigned_of_int take_bit_int_eq_self)
  qed
  show "unat (fp8_float32ToFp8 f sp) = f32_sign f * 128 +
      (if lim < ?X \<or> ?X = lim \<and> Q = 2 * 2 ^ mb then fp8_overflow sp else (nat ?X - 1) * 2 ^ mb + Q)"
  proof (cases "lim < ?X")
    case True
    then show ?thesis
      using over e255 nz by (simp add: fp8_float32ToFp8_def Let_def X1 lim cong: if_cong)
  next
    case le: False
    then have Xb: "?X < 2 ^ (7 - mb)" using lim7 by simp
    show ?thesis
    proof (cases "Q = 2 * 2 ^ mb")
      case c: True
      show ?thesis
      proof (cases "?X = lim")
        case True
        then show ?thesis
          using over e255 nz X c carry by (simp add: fp8_float32ToFp8_def Let_def X1 lim mb cong: if_cong)
      next
        case False
        then have X2: "?X + 1 < 2 ^ (7 - mb)" "\<not> lim < ?X + 1" using le lim7 by simp_all
        let ?w = "ucast (drop_bit 1 (fp8_roundShift ?m (23 - mb)) AND ucast (fp8_mantissaMask sp)) :: u8"
        have "unat ?w = 0" using fp8_low[OF F(5)] F(3) r c by (simp add: unat_drop)
        moreover have "fp8_float32ToFp8 f sp = fp8_packFp8Bits (ucast (drop_bit 31 f)) (of_int (?X + 1)) ?w sp"
          using e255 nz X le X2 c carry by (simp add: fp8_float32ToFp8_def Let_def X1 lim mb)
        moreover have "nat (?X + 1) < 2 ^ (7 - mb)" using X2 X by (simp add: nat_less_iff)
        ultimately have "unat (fp8_float32ToFp8 f sp) = f32_sign f * 128 + nat (?X + 1) * 2 ^ mb"
          using pack[of "of_int (?X + 1)" ?w] ef[of "?X + 1"] X X2 F(3) f32_bounds(1)[of f] by (simp add: fp8_sign(1))
        moreover have "nat (?X + 1) * 2 ^ mb = (nat ?X - 1) * 2 ^ mb + Q"
          using X by (simp add: c nat_add_distrib diff_mult_distrib add_mult_distrib flip: add_mult_distrib)
        ultimately show ?thesis using le False by simp
      qed
    next
      case nc: False
      let ?w = "ucast (fp8_roundShift ?m (23 - mb) AND ucast (fp8_mantissaMask sp)) :: u8"
      have "Q mod 2 ^ mb = Q - 2 ^ mb" using Q1 Q2 nc by (simp add: mod_if)
      then have "unat ?w = Q - 2 ^ mb" using fp8_low[OF F(5)] F(3) r by simp
      moreover have "fp8_float32ToFp8 f sp = fp8_packFp8Bits (ucast (drop_bit 31 f)) (of_int ?X) ?w sp"
        using e255 nz X le nc carry by (simp add: fp8_float32ToFp8_def Let_def X1 lim mb)
      moreover have "nat ?X < 2 ^ (7 - mb)" using Xb X by (simp add: nat_less_iff)
      ultimately have "unat (fp8_float32ToFp8 f sp) = f32_sign f * 128 + nat ?X * 2 ^ mb + (Q - 2 ^ mb)"
        using pack[of "of_int ?X" ?w] ef[of ?X] X Xb F(3) f32_bounds(1)[of f] Q1 Q2 nc by (simp add: fp8_sign(1))
      moreover have "nat ?X * 2 ^ mb + (Q - 2 ^ mb) = (nat ?X - 1) * 2 ^ mb + Q"
        using X Q1 by (simp add: diff_mult_distrib)
      ultimately show ?thesis using le nc by simp
    qed
  qed
qed

section \<open>Decoding by fields\<close>

lemma fp8_pow2_value: "0 \<le> 149 + e \<Longrightarrow> fp8_pow2 e = FpFinite False (2 ^ nat (149 + e))"
proof -
  assume e: "0 \<le> 149 + e"
  have up: "((\<lambda>v. fl_mul v (fl_nat 2)) ^^ n) (fl_nat 1) = FpFinite False (2 ^ (149 + n))" for n
  proof (induction n)
    case (Suc n)
    have "(2::nat) ^ (149 + n) * (2 * 2 ^ 149) = 2 ^ (149 + Suc n) * 2 ^ 149" by (simp only: power_Suc add_Suc_right mult.assoc mult.left_commute)
    then have "(2::nat) ^ (149 + n) * (2 * 2 ^ 149) div 2 ^ 149 = 2 ^ (149 + Suc n)"
      by (simp only:) (rule nonzero_mult_div_cancel_right, simp)
    then show ?case using Suc.IH by (simp only: funpow.simps comp_apply fl_nat_def fl_mul.simps simp_thms)
  qed (simp add: fl_nat_def)
  have down: "n \<le> 149 \<Longrightarrow> ((\<lambda>v. fl_mul v (FpFinite False (2 ^ 148))) ^^ n) (fl_nat 1) = FpFinite False (2 ^ (149 - n))" for n
  proof (induction n)
    case (Suc n)
    have "(2::nat) ^ (149 - n) * 2 ^ 148 = 2 ^ (149 - Suc n) * 2 ^ 149"
      using Suc.prems by (simp only: power_add[symmetric]) (rule arg_cong[where f = "(^) 2"], simp)
    then have "(2::nat) ^ (149 - n) * 2 ^ 148 div 2 ^ 149 = 2 ^ (149 - Suc n)"
      by (simp only:) (rule nonzero_mult_div_cancel_right, simp)
    then show ?case using Suc by (simp only: funpow.simps comp_apply fl_nat_def fl_mul.simps simp_thms)
  qed (simp add: fl_nat_def)
  show ?thesis
  proof (cases "e > 0")
    case True
    then have "149 + nat e = nat (149 + e)" by simp
    then show ?thesis using up[of "nat e"] True by (simp add: fp8_pow2_def)
  next
    case False
    then have "149 - nat (- e) = nat (149 + e)" using e by simp
    then show ?thesis using down[of "nat (- e)"] False e by (simp add: fp8_pow2_def)
  qed
qed

lemma fp8_byte: "unat b div 128 \<le> 1" for b :: u8
proof -
  have "unat b < 2 * 128" by (rule order.strict_trans2[OF unsigned_less]) simp
  then show ?thesis by (rule fields_high)
qed

lemma fp8_scale: "z \<le> x + y \<Longrightarrow> a * 2 ^ x * 2 ^ y div 2 ^ z = a * (2::nat) ^ (x + y - z)"
proof -
  assume z: "z \<le> x + y"
  have "a * 2 ^ x * 2 ^ y = a * 2 ^ (x + y - z) * (2::nat) ^ z"
    using pow_join[of x y "x + y"] pow_join[of "x + y - z" z "x + y"] z by (simp add: mult.assoc)
  then show ?thesis by (simp only:) (rule nonzero_mult_div_cancel_right, simp)
qed

lemma fl_quotient: "mb \<le> 149 \<Longrightarrow> fl_div (fl_nat m) (fl_nat (2 ^ mb)) = FpFinite False (m * 2 ^ (149 - mb))"
proof -
  assume mb: "mb \<le> 149"
  have "m * 2 ^ 149 * 2 ^ 149 = m * 2 ^ (149 - mb) * (2 ^ mb * (2::nat) ^ 149)"
    using pow_join[of "149 - mb" mb 149] mb by (simp only: mult.assoc le_add_diff_inverse2) (simp only: mult.left_commute[of "2 ^ 149"] mult.assoc[symmetric])
  then have "m * 2 ^ 149 * 2 ^ 149 div (2 ^ mb * (2::nat) ^ 149) = m * 2 ^ (149 - mb)"
    by (simp only:) (rule nonzero_mult_div_cancel_right, simp)
  then show ?thesis by (simp only: fl_nat_def fl_div.simps simp_thms)
qed

lemma fp8_decode_std:
  assumes "fp8_std sp"
  shows "fp8_fp8ToFloat32 b sp = (if \<not> sp8_has_infinity sp \<and> 120 \<le> unat b mod 128 then FpNaN else fp8_value sp b)"
proof -
  obtain mb bias where F: "sp8_mantissa_bits sp = mb" "sp8_exponent_bias sp = int bias" "2 \<le> mb" "mb \<le> 3"
    "bias = 2 ^ (6 - mb) - 1" "unat (fp8_exponentMask sp) = 2 ^ (7 - mb) - 1" "unat (fp8_mantissaMask sp) = 2 ^ mb - 1"
    "sp8_has_infinity sp = (mb = 2)"
    using assms
  proof -
    have "sp8_has_infinity sp = (sp8_mantissa_bits sp = 2)"
      using assms by (auto simp: fp8_std_def fp8_kFormatE4M3_def fp8_kFormatE5M2_def)
    then show thesis using fp8_std_facts[OF assms] that by metis
  qed
  have mb23: "mb = 2 \<or> mb = 3" using F(3,4) by linarith
  define n ef m where "n = unat b mod 128" and "ef = n div 2 ^ mb" and "m = n mod 2 ^ mb"
  have mask: "unat (v AND fp8_exponentMask sp) = unat v mod 2 ^ (7 - mb)" "unat (v AND fp8_mantissaMask sp) = unat v mod 2 ^ mb"
    for v :: u8
  proof -
    have "fp8_exponentMask sp = mask (7 - mb)" "fp8_mantissaMask sp = mask mb"
      using mb23 F(6,7) by (auto intro!: unsigned_word_eqI[where 'a = nat] simp: mask_eq_exp_minus_1)
    then show "unat (v AND fp8_exponentMask sp) = unat v mod 2 ^ (7 - mb)" "unat (v AND fp8_mantissaMask sp) = unat v mod 2 ^ mb"
      by (simp_all only: unat_take flip: take_bit_eq_mask)
  qed
  have p: "(2::nat) ^ mb * 2 ^ (7 - mb) = 128" using F(4) pow_join[of mb "7 - mb" 7] by simp
  have ef: "unat (drop_bit mb b AND fp8_exponentMask sp) = ef"
    unfolding mask unat_drop ef_def n_def p[symmetric] by (simp add: mod_mult2_eq)
  have m: "unat (b AND fp8_mantissaMask sp) = m"
    unfolding mask m_def n_def p[symmetric] by (simp add: mod_mult_self2 mod_mult2_eq)
  have s: "drop_bit 7 b \<noteq> 0 \<longleftrightarrow> unat b div 128 = 1"
  proof -
    have "unat (drop_bit 7 b) = unat b div 128" by (simp add: unat_drop)
    then show ?thesis using fp8_byte[of b] by (metis One_nat_def le_Suc_eq le_zero_eq unat_eq_zero zero_neq_one)
  qed
  have eq: "drop_bit mb b AND fp8_exponentMask sp = fp8_exponentMask sp \<longleftrightarrow> ef = 2 ^ (7 - mb) - 1"
    using ef F(6) by (metis unsigned_word_eqI)
  have e0: "drop_bit mb b AND fp8_exponentMask sp = 0 \<longleftrightarrow> ef = 0" using ef by (metis unat_eq_zero)
  have m0: "b AND fp8_mantissaMask sp = 0 \<longleftrightarrow> m = 0" using m by (metis unat_eq_zero)
  have n: "n = ef * 2 ^ mb + m" unfolding ef_def m_def by (simp only: div_mult_mod_eq)
  have m_lt: "m < 2 ^ mb" by (simp add: m_def)
  have n_lt: "n < 128" by (simp add: n_def)
  have ef_lt: "ef < 2 ^ (7 - mb)" using n_lt p unfolding ef_def by (simp add: less_mult_imp_div_less mult.commute)
  let ?s = "unat b div 128 = 1"
  have dec: "fp8_fp8ToFloat32 b sp =
      (if ef = 2 ^ (7 - mb) - 1 then (if mb = 2 \<and> m = 0 then FpInf ?s else FpNaN) else FpFinite ?s (fp8_mag sp n))"
  proof -
    have b149: "bias + mb \<le> 149" "bias \<le> 15" using mb23 F(5) by auto
    have nef: "n div 2 ^ mb = ef" "n mod 2 ^ mb = m" by (simp_all add: ef_def m_def)
    show ?thesis
    proof (cases "ef = 0")
      case True
      have "ef \<noteq> 2 ^ (7 - mb) - 1" using mb23 True by auto
      moreover have "fl_mul (FpFinite ?s (2 ^ 149)) (fl_mul (FpFinite False (m * 2 ^ (149 - mb))) (fp8_pow2 (1 - int bias))) =
          FpFinite ?s (m * 2 ^ (150 - bias - mb))"
      proof -
        have "nat (149 + (1 - int bias)) = 150 - bias" by simp
        moreover have "m * 2 ^ (149 - mb) * 2 ^ (150 - bias) div 2 ^ 149 = m * 2 ^ (150 - bias - mb)"
          using fp8_scale[of 149 "149 - mb" "150 - bias" m] b149 by (simp add: add.commute)
        ultimately show ?thesis using fp8_pow2_value[of "1 - int bias"] b149 by simp
      qed
      ultimately show ?thesis
        using True b149 fl_quotient[of mb m]
        by (simp add: fp8_fp8ToFloat32_def Let_def F(1,2,8) eq e0 m0 m s fp8_mag_def nef)
    next
      case False
      have "fl_mul (fl_mul (FpFinite ?s (2 ^ 149)) (fl_add (fl_nat 1) (FpFinite False (m * 2 ^ (149 - mb))))) (fp8_pow2 (int ef - int bias)) =
          FpFinite ?s ((2 ^ mb + m) * 2 ^ (149 + ef - bias - mb))"
      proof -
        have "nat (149 + (int ef - int bias)) = 149 + ef - bias" using b149 by simp
        moreover have "2 ^ 149 + m * 2 ^ (149 - mb) = (2 ^ mb + m) * (2::nat) ^ (149 - mb)"
          using pow_join[of mb "149 - mb" 149] b149 by (simp add: add_mult_distrib)
        moreover have "(2 ^ mb + m) * 2 ^ (149 - mb) * 2 ^ (149 + ef - bias) div 2 ^ 149 = (2 ^ mb + m) * 2 ^ (149 + ef - bias - mb)"
          using fp8_scale[of 149 "149 - mb" "149 + ef - bias" "2 ^ mb + m"] b149 by simp
        ultimately show ?thesis using fp8_pow2_value[of "int ef - int bias"] b149 by (simp add: fl_nat_def)
      qed
      moreover have "uint (drop_bit mb b AND fp8_exponentMask sp) = int ef" using ef by (metis uint_nat)
      ultimately show ?thesis
        using False b149 fl_quotient[of mb m]
        by (simp add: fp8_fp8ToFloat32_def Let_def F(1,2,8) eq e0 m0 m s fp8_mag_def nef)
    qed
  qed
  have "mb = 2 \<Longrightarrow> m = 0 \<and> ef = 31 \<longleftrightarrow> n = 124" using n m_lt by simp presburger
  moreover have "ef = 2 ^ (7 - mb) - 1 \<longleftrightarrow> (if mb = 2 then 124 \<le> n else 120 \<le> n)"
    using mb23 n m_lt ef_lt by (auto split: if_splits)
  ultimately show ?thesis
    unfolding dec fp8_value_def n_def[symmetric] Let_def F(8) using mb23 by auto
qed

text \<open>
  what decoding returns.  The float of a byte is its value as the standard reads it, except that the
  E4M3 bytes of either sign with the largest exponent, which stand for 256 to 448 (and one NaN), all
  come out as NaN.
\<close>

theorem fp8_decode:
  "fp8_fp8ToFloat32 b fp8_kFormatE5M2 = fp8_value fp8_kFormatE5M2 b \<and>
   fp8_fp8ToFloat32 b fp8_kFormatE4M3 = (if 120 \<le> unat b mod 128 then FpNaN else fp8_value fp8_kFormatE4M3 b)"
  by (simp add: fp8_decode_std fp8_std_def) (simp add: fp8_kFormatE4M3_def fp8_kFormatE5M2_def)

section \<open>Nearest values\<close>

text \<open>The finite magnitudes are multiples of the grain at \<open>x\<close> or below its binade.\<close>

lemma fp8_mag_shape:
  assumes "sp8_mantissa_bits sp = mb" "sp8_exponent_bias sp = int bias" "bias + mb \<le> 149" "1 \<le> x"
  shows "(\<exists>k. fp8_mag sp n = k * 2 ^ (149 + x - bias - mb)) \<or> fp8_mag sp n < 2 ^ mb * 2 ^ (149 + x - bias - mb)"
proof -
  define e where "e = max 1 (n div 2 ^ mb)"
  define c where "c = (if n div 2 ^ mb = 0 then n mod 2 ^ mb else 2 ^ mb + n mod 2 ^ mb)"
  have v: "fp8_mag sp n = c * 2 ^ (149 + e - bias - mb)"
    by (auto simp: fp8_mag_def Let_def assms(1,2) e_def c_def max_def)
  have "n mod 2 ^ mb < 2 ^ mb" by simp
  then have c: "c < 2 * 2 ^ mb" unfolding c_def by (split if_split) linarith
  show ?thesis
  proof (cases "x \<le> e")
    case True
    then have "149 + e - bias - mb = (e - x) + (149 + x - bias - mb)" using assms(3) by simp
    then have "fp8_mag sp n = c * 2 ^ (e - x) * 2 ^ (149 + x - bias - mb)" by (simp add: v power_add)
    then show ?thesis by blast
  next
    case False
    then have "Suc (149 + e - bias - mb) \<le> 149 + x - bias - mb" using assms(3) by simp
    then have "(2::nat) * 2 ^ (149 + e - bias - mb) \<le> 2 ^ (149 + x - bias - mb)"
      by (metis one_le_numeral power_Suc power_increasing)
    then have "2 ^ mb * (2 * 2 ^ (149 + e - bias - mb)) \<le> 2 ^ mb * (2::nat) ^ (149 + x - bias - mb)"
      by (rule mult_left_mono) simp
    moreover have "fp8_mag sp n < 2 * 2 ^ mb * 2 ^ (149 + e - bias - mb)" using c by (simp add: v)
    ultimately have "fp8_mag sp n < 2 ^ mb * 2 ^ (149 + x - bias - mb)" by (simp only: mult.assoc mult.left_commute)
    then show ?thesis ..
  qed
qed

lemmas fp8_value_simps = fp8_value_def fp8_mag_def fp8_largest_def fp8_kFormatE4M3_def fp8_kFormatE5M2_def Let_def

lemma fp8_value_finite:
  "fp8_value sp b = FpFinite s q \<Longrightarrow> q = fp8_mag sp (unat b mod 128)"
  by (auto simp: fp8_value_def Let_def split: if_splits)

text \<open>A rounded significand is nearest among the multiples of its grain and all smaller values.\<close>

lemma fp8_nearest_scaled:
  assumes "1 \<le> s" and n: "n = a * g" and G: "G = 2 ^ s * g"
    and q': "(\<exists>k. q' = k * G) \<or> q' < c * G \<and> c * G \<le> n"
  shows "\<bar>int (fp8_rne a s * G) - int n\<bar> \<le> \<bar>int q' - int n\<bar> \<and>
    (\<bar>int q' - int n\<bar> = \<bar>int (fp8_rne a s * G) - int n\<bar> \<longrightarrow> q' \<noteq> fp8_rne a s * G \<longrightarrow> even (fp8_rne a s))"
proof (cases "g = 0")
  case True
  then show ?thesis using n G q' by auto
next
  case False
  let ?Q = "int (fp8_rne a s)"
  have scale: "\<bar>int (k * G) - int n\<bar> = \<bar>int k * 2 ^ s - int a\<bar> * int g" for k
  proof -
    have "int (k * G) - int n = (int k * 2 ^ s - int a) * int g" by (simp add: n G algebra_simps)
    then show ?thesis by (simp only: abs_mult abs_of_nat)
  qed
  have near: "\<bar>int (fp8_rne a s * G) - int n\<bar> \<le> \<bar>int (k * G) - int n\<bar>" for k
    unfolding scale using fp8_rne_nearest(1)[OF assms(1), of a "int k"] by (rule mult_right_mono) simp
  from q' show ?thesis
  proof
    assume "\<exists>k. q' = k * G"
    then obtain k where k: "q' = k * G" ..
    have "even (fp8_rne a s)" if t: "\<bar>int q' - int n\<bar> = \<bar>int (fp8_rne a s * G) - int n\<bar>" "q' \<noteq> fp8_rne a s * G"
    proof -
      have "\<bar>int k * 2 ^ s - int a\<bar> = \<bar>?Q * 2 ^ s - int a\<bar>" using t(1) False unfolding k scale by simp
      moreover have "int k \<noteq> ?Q" using t(2) k by auto
      ultimately show ?thesis by (rule fp8_rne_nearest(2)[OF assms(1)])
    qed
    with near[of k] show ?thesis unfolding k by blast
  next
    assume "q' < c * G \<and> c * G \<le> n"
    then have "\<bar>int (c * G) - int n\<bar> < \<bar>int q' - int n\<bar>" by linarith
    with near[of c] show ?thesis by linarith
  qed
qed

lemma fp8_mag_multiple:
  assumes "sp8_mantissa_bits sp = mb" "sp8_exponent_bias sp = int bias" "bias + mb \<le> 149"
  shows "\<exists>k. fp8_mag sp n = k * 2 ^ (150 - bias - mb)"
proof (cases "n div 2 ^ mb = 0")
  case True
  then show ?thesis by (auto simp: fp8_mag_def Let_def assms(1,2))
next
  case False
  then have e: "149 + n div 2 ^ mb - bias - mb = (n div 2 ^ mb - 1) + (150 - bias - mb)" using assms(3) by simp
  have "fp8_mag sp n = (2 ^ mb + n mod 2 ^ mb) * 2 ^ (149 + n div 2 ^ mb - bias - mb)"
    using False by (simp add: fp8_mag_def Let_def assms(1,2))
  then have "fp8_mag sp n = (2 ^ mb + n mod 2 ^ mb) * 2 ^ (n div 2 ^ mb - 1) * 2 ^ (150 - bias - mb)"
    unfolding e by (simp only: power_add mult.assoc)
  then show ?thesis by blast
qed

text \<open>The value of the encoded byte once its seven magnitude bits are known.\<close>

lemma fp8_value_code:
  assumes "unat b = f32_sign f * 128 + c" and "c < (if sp8_has_infinity sp then 124 else 127)"
  shows "fp8_value sp b = FpFinite (f32_sign f = 1) (fp8_mag sp c)"
proof -
  have c: "c < 128" using assms(2) by (auto split: if_splits)
  then have "unat b div 128 = f32_sign f" "unat b mod 128 = c" by (simp_all add: assms(1))
  then show ?thesis using assms(2) by (auto simp: fp8_value_def Let_def split: if_splits)
qed

lemma fp8_even_code: "2 \<le> mb \<Longrightarrow> even ((s * 128 + (x * 2 ^ mb + Q)) :: nat) \<longleftrightarrow> even Q"
  by simp

definition fp8_is_nearest :: "fp8_spec \<Rightarrow> u32 \<Rightarrow> bool \<Rightarrow> nat \<Rightarrow> bool" where
  "fp8_is_nearest sp f s n \<longleftrightarrow> (\<exists>q. fp8_value sp (fp8_float32ToFp8 f sp) = FpFinite s q \<and>
    (\<forall>b s' q'. fp8_value sp b = FpFinite s' q' \<longrightarrow> \<bar>int q - int n\<bar> \<le> \<bar>int q' - int n\<bar> \<and>
       (\<bar>int q' - int n\<bar> = \<bar>int q - int n\<bar> \<longrightarrow> q' \<noteq> q \<longrightarrow> even (unat (fp8_float32ToFp8 f sp)))))"

lemma fp8_nearest_small:
  assumes std: "fp8_std sp" and v: "f32_value f = FpFinite s n" and X: "fp8_X sp f \<le> 0"
  shows "fp8_is_nearest sp f s n"
proof -
  obtain mb bias where F: "sp8_mantissa_bits sp = mb" "sp8_exponent_bias sp = int bias" "2 \<le> mb" "mb \<le> 3" "bias = 2 ^ (6 - mb) - 1"
    using fp8_std_facts[OF std] by metis
  have mb23: "mb = 2 \<or> mb = 3" using F(3,4) by linarith
  then have b: "bias \<le> 15" "bias + mb \<le> 149" "2 ^ mb < (100::nat)" using F(5) by auto
  have E: "f32_exp f \<noteq> 255" "s = (f32_sign f = 1)" using v by (auto simp: f32_value_def split: if_splits)
  define sh where "sh = nat (1 - fp8_X sp f) + (23 - mb)"
  define G where "G = (2::nat) ^ (150 - bias - mb)"
  note enc = fp8_enc_small[OF std F(1) E(1) X, folded sh_def]
  have mult: "\<exists>k. q' = k * G" if "fp8_value sp b = FpFinite s' q'" for b s' q'
    using fp8_mag_multiple[OF F(1,2) b(2)] fp8_value_finite[OF that] by (simp add: G_def)
  show ?thesis
  proof (cases "32 \<le> sh")
    case True
    then have u: "unat (fp8_float32ToFp8 f sp) = f32_sign f * 128 + 0" using enc(1) by simp
    have "fp8_mag sp 0 = 0" by (simp add: fp8_mag_def Let_def)
    then have q: "fp8_value sp (fp8_float32ToFp8 f sp) = FpFinite s 0" using fp8_value_code[OF u] E(2) by simp
    have "2 * n < G"
    proof (cases "f32_exp f = 0")
      case True
      then have "n < 2 ^ 23" using v f32_bounds(3)[of f] by (auto simp: f32_value_def split: if_splits)
      moreover have "(2::nat) ^ 24 \<le> G" unfolding G_def using b(1) F(4) by (intro power_increasing) simp_all
      ultimately show ?thesis by simp
    next
      case False
      then have n: "n = (2 ^ 23 + f32_man f) * 2 ^ (f32_exp f - 1)" using v E(1) by (simp add: f32_value_def)
      have "Suc (f32_exp f + 23) \<le> 150 - bias - mb" using \<open>32 \<le> sh\<close> X b(1) F(2,4) by (simp add: sh_def fp8_X_def)
      then have "(2::nat) ^ Suc (f32_exp f + 23) \<le> G" unfolding G_def by (intro power_increasing) simp_all
      then have "2 * (2::nat) ^ (f32_exp f + 23) \<le> G" by (simp only: power_Suc)
      then show ?thesis using f32_normal_range(2)[OF False] unfolding n by linarith
    qed
    then have "\<bar>int 0 - int n\<bar> < \<bar>int (k * G) - int n\<bar>" if "k * G \<noteq> 0" for k
    proof -
      have "1 * G \<le> k * G" using that by (intro mult_right_mono) (auto simp: not_less_eq_eq)
      then show ?thesis using \<open>2 * n < G\<close> by linarith
    qed
    then show ?thesis unfolding fp8_is_nearest_def using q mult by (metis abs_ge_zero less_le order.refl order_less_imp_le less_irrefl)
  next
    case False
    let ?Q = "fp8_rne (2 ^ 23 + f32_man f) sh"
    have e0: "f32_exp f \<noteq> 0" using False b(1) F(2,4) by (auto simp: sh_def fp8_X_def)
    then have n: "n = (2 ^ 23 + f32_man f) * 2 ^ (f32_exp f - 1)" using v E(1) by (simp add: f32_value_def)
    have sh1: "1 \<le> sh" using X by (simp add: sh_def)
    have "sh + (f32_exp f - 1) = 150 - bias - mb" using e0 X b(1) F(2,4) by (simp add: sh_def fp8_X_def)
    then have G: "G = 2 ^ sh * 2 ^ (f32_exp f - 1)" unfolding G_def by (rule pow_join[symmetric])
    have Q: "?Q \<le> 2 ^ mb" using enc(2) False by simp
    have u: "unat (fp8_float32ToFp8 f sp) = f32_sign f * 128 + ?Q" using enc(1) False by simp
    have "fp8_value sp (fp8_float32ToFp8 f sp) = FpFinite s (?Q * G)"
      using fp8_value_code[OF u] Q b(3) E(2) fp8_mag_small[OF F(1,2) Q] by (simp add: G_def)
    moreover have "even (unat (fp8_float32ToFp8 f sp)) \<longleftrightarrow> even ?Q" by (simp add: u)
    ultimately show ?thesis
      unfolding fp8_is_nearest_def using fp8_nearest_scaled[OF sh1 n G] mult by metis
  qed
qed

lemma fp8_nearest_normal:
  assumes std: "fp8_std sp" and v: "f32_value f = FpFinite s n" and X: "1 \<le> fp8_X sp f" and le: "n \<le> fp8_largest sp"
  shows "fp8_is_nearest sp f s n"
proof -
  obtain mb bias where F: "sp8_mantissa_bits sp = mb" "sp8_exponent_bias sp = int bias" "2 \<le> mb" "mb \<le> 3" "bias = 2 ^ (6 - mb) - 1"
    "unat (fp8_maxFiniteExponentField sp) = (if sp8_has_infinity sp then 2 ^ (7 - mb) - 2 else 2 ^ (7 - mb) - 1)"
    using fp8_std_facts[OF std] by metis
  have inf: "sp8_has_infinity sp = (mb = 2)"
    using std F(1) by (auto simp: fp8_std_def fp8_kFormatE4M3_def fp8_kFormatE5M2_def)
  have mb23: "mb = 2 \<or> mb = 3" using F(3,4) by linarith
  have b: "bias \<le> 15" "bias + mb \<le> 149" using mb23 F(5) by auto
  define x where "x = nat (fp8_X sp f)"
  define maxE where "maxE = unat (fp8_maxFiniteExponentField sp)"
  define t where "t = (if mb = 2 then 7 else 14 :: nat)"
  have max: "maxE = (if mb = 2 then 30 else 15)" using mb23 F(6) inf by (auto simp: maxE_def)
  have x1: "1 \<le> x" "fp8_X sp f = int x" using X by (simp_all add: x_def)
  have E: "f32_exp f \<noteq> 255" "s = (f32_sign f = 1)" using v by (auto simp: f32_value_def split: if_splits)
  have Ex: "f32_exp f + bias = x + 127" using x1(2) F(2) by (simp add: fp8_X_def)
  then have e0: "f32_exp f \<noteq> 0" using x1(1) b(1) by simp
  then have n: "n = (2 ^ 23 + f32_man f) * 2 ^ (f32_exp f - 1)" using v E(1) by (simp add: f32_value_def)
  define sh where "sh = 23 - mb"
  define Q where "Q = fp8_rne (2 ^ 23 + f32_man f) sh"
  have sh1: "1 \<le> sh" using F(4) by (simp add: sh_def)
  define G where "G = (2::nat) ^ (149 + x - bias - mb)"
  have "sh + (f32_exp f - 1) = 149 + x - bias - mb" using Ex e0 F(4) b by (simp add: sh_def)
  then have G: "G = 2 ^ sh * 2 ^ (f32_exp f - 1)" unfolding G_def by (rule pow_join[symmetric])
  have "(2::nat) ^ mb * 2 ^ sh = 2 ^ 23" using F(4) by (intro pow_join) (simp add: sh_def)
  then have "2 ^ mb * G = 2 ^ 23 * 2 ^ (f32_exp f - 1)" by (simp only: G mult.assoc[symmetric])
  then have low: "2 ^ mb * G \<le> n" unfolding n by simp
  have largest: "fp8_largest sp = t * 2 ^ (149 + maxE - bias - mb)"
    using mb23 F(5) inf max by (auto simp: fp8_largest_def t_def)
  have xmax: "x \<le> maxE"
  proof (rule ccontr)
    assume "\<not> x \<le> maxE"
    then have "Suc (149 + maxE - bias - mb) \<le> 149 + x - bias - mb" using b(2) by simp
    then have "(2::nat) ^ Suc (149 + maxE - bias - mb) \<le> G" unfolding G_def by (intro power_increasing) simp_all
    then have "2 ^ mb * (2::nat) ^ Suc (149 + maxE - bias - mb) \<le> n" using low by (meson mult_le_mono2 order.trans)
    moreover have "t < 2 ^ mb * 2" using mb23 by (auto simp: t_def)
    then have "t * 2 ^ (149 + maxE - bias - mb) < 2 ^ mb * (2::nat) ^ Suc (149 + maxE - bias - mb)"
      by (simp only: power_Suc mult.assoc[symmetric]) simp
    ultimately show False using le largest by linarith
  qed
  have Qt: "Q \<le> t" if "x = maxE"
  proof -
    have "(2 ^ 23 + f32_man f) * 2 ^ (f32_exp f - 1) \<le> t * 2 ^ sh * 2 ^ (f32_exp f - 1)"
      using le largest n that G by (simp only: G_def mult.assoc)
    then have "2 ^ 23 + f32_man f \<le> t * 2 ^ sh" by (simp only: mult_le_cancel2) simp
    then show ?thesis
      using fp8_rne_le[of "2 ^ 23 + f32_man f" t sh] fp8_rne_exact[OF sh1, of t] unfolding Q_def by (cases "2 ^ 23 + f32_man f = t * 2 ^ sh") simp_all
  qed
  note enc = fp8_enc_normal[OF std F(1) E(1) X, folded sh_def, folded Q_def maxE_def x_def]
  have "\<not> (int maxE < fp8_X sp f \<or> fp8_X sp f = int maxE \<and> Q = 2 * 2 ^ mb)"
  proof -
    have "t < 2 * 2 ^ mb" using mb23 by (auto simp: t_def)
    then show ?thesis using xmax Qt x1(2) by auto
  qed
  then have u: "unat (fp8_float32ToFp8 f sp) = f32_sign f * 128 + ((x - 1) * 2 ^ mb + Q)" using enc(1) by (simp only: if_False)
  have code: "(x - 1) * 2 ^ mb + Q < (if sp8_has_infinity sp then 124 else 127)"
  proof (cases "x = maxE")
    case True
    then show ?thesis using Qt[OF True] max inf mb23 by (auto simp: t_def)
  next
    case False
    then have "(x - 1) * 2 ^ mb \<le> (maxE - 2) * 2 ^ mb" using xmax by (intro mult_right_mono) simp_all
    then show ?thesis using enc(3) max inf mb23 by (auto split: if_splits)
  qed
  have "fp8_value sp (fp8_float32ToFp8 f sp) = FpFinite s (Q * G)"
    using fp8_value_code[OF u code] E(2) fp8_mag_normal[OF F(1,2) enc(2,3) x1(1) b(2)] by (simp add: G_def)
  moreover have "even (unat (fp8_float32ToFp8 f sp)) \<longleftrightarrow> even Q" unfolding u by (rule fp8_even_code[OF F(3)])
  moreover have "(\<exists>k. q' = k * G) \<or> q' < 2 ^ mb * G \<and> 2 ^ mb * G \<le> n" if "fp8_value sp b = FpFinite s' q'" for b s' q'
    using fp8_mag_shape[OF F(1,2) b(2) x1(1), of "unat b mod 128"] fp8_value_finite[OF that] low by (simp add: G_def)
  ultimately show ?thesis
    unfolding fp8_is_nearest_def Q_def using fp8_nearest_scaled[OF sh1 n G] by metis
qed

lemma fp8_nearest_std:
  "fp8_std sp \<Longrightarrow> f32_value f = FpFinite s n \<Longrightarrow> n \<le> fp8_largest sp \<Longrightarrow> fp8_is_nearest sp f s n"
  using fp8_nearest_small fp8_nearest_normal by (meson int_one_le_iff_zero_less not_less)

text \<open>
  C15: encoding rounds to nearest, ties to even.  For both formats and every finite binary32 value whose
  magnitude is at most the largest finite value of the format (448 for E4M3, 57344 for E5M2), the byte
  stands for a value of the same sign to which no other finite byte is closer in magnitude, and when
  another one is as close the byte is the even one; subnormal results and zeros included.
\<close>

theorem fp8_encode_nearest:
  assumes "fp8_std sp" and "f32_value f = FpFinite s n" and "n \<le> fp8_largest sp"
  shows "\<exists>q. fp8_value sp (fp8_float32ToFp8 f sp) = FpFinite s q \<and>
    (\<forall>b s' q'. fp8_value sp b = FpFinite s' q' \<longrightarrow> \<bar>int q - int n\<bar> \<le> \<bar>int q' - int n\<bar> \<and>
       (\<bar>int q' - int n\<bar> = \<bar>int q - int n\<bar> \<longrightarrow> q' \<noteq> q \<longrightarrow> even (unat (fp8_float32ToFp8 f sp))))"
  using fp8_nearest_std[OF assms] unfolding fp8_is_nearest_def .

theorem fp8_encode_nearest_witness:
  "\<exists>q. fp8_value fp8_kFormatE4M3 (fp8_float32ToFp8 0x3F800000 fp8_kFormatE4M3) = FpFinite False q \<and>
     \<bar>int q - 2 ^ 149\<bar> \<le> \<bar>int (9 * 2 ^ 146) - 2 ^ 149\<bar>"
proof -
  have f: "f32_value 0x3F800000 = FpFinite False (2 ^ 149)" by (simp add: f32_value_simps)
  have b: "fp8_value fp8_kFormatE4M3 0x39 = FpFinite False (9 * 2 ^ 146)" by (simp add: fp8_value_simps)
  have l: "2 ^ 149 \<le> fp8_largest fp8_kFormatE4M3" by (simp add: fp8_value_simps)
  have "fp8_std fp8_kFormatE4M3" by (simp add: fp8_std_def)
  from fp8_encode_nearest[OF this f l] obtain q where q: "fp8_value fp8_kFormatE4M3 (fp8_float32ToFp8 0x3F800000 fp8_kFormatE4M3) = FpFinite False q"
    and near: "\<forall>b s' q'. fp8_value fp8_kFormatE4M3 b = FpFinite s' q' \<longrightarrow> \<bar>int q - int (2 ^ 149)\<bar> \<le> \<bar>int q' - int (2 ^ 149)\<bar>"
    by blast
  show ?thesis using q near[rule_format, OF b] by (intro exI[of _ q]) simp
qed

lemma fp8_mag_step:
  assumes "fp8_std sp"
  shows "fp8_mag sp c < fp8_mag sp (Suc c)"
proof -
  obtain mb bias where F: "sp8_mantissa_bits sp = mb" "sp8_exponent_bias sp = int bias" "2 \<le> mb" "mb \<le> 3" "bias = 2 ^ (6 - mb) - 1"
    using fp8_std_facts[OF assms] by metis
  have "mb = 2 \<or> mb = 3" using F(3,4) by linarith
  then have b: "bias + mb \<le> 149" using F(5) by auto
  show ?thesis
  proof (cases "c < 2 ^ mb")
    case True
    then show ?thesis using fp8_mag_small[OF F(1,2), of c] fp8_mag_small[OF F(1,2), of "Suc c"] by simp
  next
    case False
    define x Q where "x = c div 2 ^ mb" and "Q = 2 ^ mb + c mod 2 ^ mb"
    have x: "1 \<le> x" using False unfolding x_def by (simp add: Suc_le_eq div_greater_zero_iff)
    have "c mod 2 ^ mb < 2 ^ mb" by simp
    then have Q: "2 ^ mb \<le> Q" "Suc Q \<le> 2 * 2 ^ mb" unfolding Q_def by linarith+
    have "(x - 1) * 2 ^ mb + Q = x * 2 ^ mb + c mod 2 ^ mb" using x by (simp add: Q_def diff_mult_distrib)
    then have c: "(x - 1) * 2 ^ mb + Q = c" unfolding x_def by (simp only: div_mult_mod_eq)
    have "fp8_mag sp c = Q * 2 ^ (149 + x - bias - mb)"
      using fp8_mag_normal[OF F(1,2) Q(1) _ x b] Q(2) c by simp
    moreover have "fp8_mag sp (Suc c) = Suc Q * 2 ^ (149 + x - bias - mb)"
      using fp8_mag_normal[OF F(1,2) _ Q(2) x b] Q(1) c by simp
    ultimately show ?thesis by simp
  qed
qed

lemma fp8_mag_strict: "fp8_std sp \<Longrightarrow> c < d \<Longrightarrow> fp8_mag sp c < fp8_mag sp d"
  by (rule lift_Suc_mono_less[of "fp8_mag sp"]) (rule fp8_mag_step)

lemma fp8_finite_code:
  assumes "fp8_value sp b = FpFinite s n"
  shows "s = (unat b div 128 = 1)" "n = fp8_mag sp (unat b mod 128)" "unat b mod 128 < (if sp8_has_infinity sp then 124 else 127)"
  using assms by (auto simp: fp8_value_def Let_def split: if_splits)

lemma fp8_value_inj:
  assumes "fp8_std sp" and "fp8_value sp b = FpFinite s n" and "fp8_value sp d = FpFinite s n"
  shows "b = d"
proof -
  note B = fp8_finite_code[OF assms(2)] and D = fp8_finite_code[OF assms(3)]
  have "unat b mod 128 = unat d mod 128"
    using fp8_mag_strict[OF assms(1), of "unat b mod 128" "unat d mod 128"]
      fp8_mag_strict[OF assms(1), of "unat d mod 128" "unat b mod 128"] B(2) D(2) by (metis less_irrefl linorder_less_linear)
  moreover have "unat b div 128 = unat d div 128" using B(1) D(1) fp8_byte[of b] fp8_byte[of d] by (metis One_nat_def le_Suc_eq le_zero_eq)
  ultimately have "unat b = unat d" by (metis div_mult_mod_eq)
  then show ?thesis by (rule unsigned_word_eqI)
qed

lemma fp8_mag_largest:
  assumes "fp8_std sp" and "c < (if sp8_has_infinity sp then 124 else 127)"
  shows "fp8_mag sp c \<le> fp8_largest sp"
proof -
  let ?m = "if sp8_has_infinity sp then 123 else 126"
  have "fp8_mag fp8_kFormatE4M3 126 = fp8_largest fp8_kFormatE4M3" "fp8_mag fp8_kFormatE5M2 123 = fp8_largest fp8_kFormatE5M2"
    by (simp_all add: fp8_value_simps)
  then have "fp8_mag sp ?m = fp8_largest sp"
    using assms(1) by (auto simp: fp8_std_def) (simp_all add: fp8_kFormatE4M3_def fp8_kFormatE5M2_def)
  moreover have "fp8_mag sp c \<le> fp8_mag sp ?m"
    using fp8_mag_strict[OF assms(1), of c ?m] assms(2) by (cases "c = ?m") (auto split: if_splits)
  ultimately show ?thesis by simp
qed

text \<open>
  C16: every byte that decodes to a finite value survives the round trip.  If a binary32 pattern has the
  value that decoding a byte returns, encoding it gives the byte back, in both formats and with the sign
  of zero.
\<close>

theorem fp8_roundtrip:
  assumes "fp8_std sp" and "fp8_fp8ToFloat32 b sp = FpFinite s n" and "f32_value f = FpFinite s n"
  shows "fp8_float32ToFp8 f sp = b"
proof -
  have v: "fp8_value sp b = FpFinite s n" using assms(1,2) by (simp add: fp8_decode_std split: if_splits)
  note B = fp8_finite_code[OF v]
  have "n \<le> fp8_largest sp" using fp8_mag_largest[OF assms(1) B(3)] B(2) by simp
  from fp8_nearest_std[OF assms(1,3) this] obtain q where q: "fp8_value sp (fp8_float32ToFp8 f sp) = FpFinite s q"
    and near: "\<forall>b s' q'. fp8_value sp b = FpFinite s' q' \<longrightarrow> \<bar>int q - int n\<bar> \<le> \<bar>int q' - int n\<bar>"
    unfolding fp8_is_nearest_def by blast
  have "\<bar>int q - int n\<bar> \<le> \<bar>int n - int n\<bar>" using near v by blast
  then have "q = n" by simp
  with fp8_value_inj[OF assms(1) q] v show ?thesis by simp
qed

theorem fp8_roundtrip_witness:
  "fp8_float32ToFp8 0x3F800000 fp8_kFormatE5M2 = 0x3C"
proof -
  have "fp8_value fp8_kFormatE5M2 0x3C = FpFinite False (2 ^ 149)" "f32_value 0x3F800000 = FpFinite False (2 ^ 149)"
    by (simp_all add: f32_value_simps fp8_value_simps)
  moreover from this(1) have "fp8_fp8ToFloat32 0x3C fp8_kFormatE5M2 = FpFinite False (2 ^ 149)"
    by (simp add: fp8_decode_std fp8_std_def)
  ultimately show ?thesis using fp8_roundtrip[of fp8_kFormatE5M2] by (simp add: fp8_std_def)
qed

text \<open>
  E4M3 loses its upper binade.  The encoder uses the largest exponent for finite values and saturates
  to all ones, the decoder reads every byte with that exponent as a NaN: 256, 1000000000 and infinity are
  encoded as \<open>0x78\<close>, \<open>0x7F\<close> and \<open>0x7F\<close>, and all three decode to NaN, although 256 has the E4M3 value of
  \<open>0x78\<close>.
\<close>

theorem fp8_e4m3_defects:
  "f32_value 0x43800000 = FpFinite False (256 * 2 ^ 149) \<and> f32_value 0x4E6E6B28 = FpFinite False (1000000000 * 2 ^ 149) \<and>
   f32_value 0x7F800000 = FpInf False \<and>
   fp8_float32ToFp8 0x43800000 fp8_kFormatE4M3 = 0x78 \<and> fp8_float32ToFp8 0x4E6E6B28 fp8_kFormatE4M3 = 0x7F \<and>
   fp8_float32ToFp8 0x7F800000 fp8_kFormatE4M3 = 0x7F \<and>
   fp8_value fp8_kFormatE4M3 0x78 = FpFinite False (256 * 2 ^ 149) \<and>
   fp8_fp8ToFloat32 0x78 fp8_kFormatE4M3 = FpNaN \<and> fp8_fp8ToFloat32 0x7F fp8_kFormatE4M3 = FpNaN"
  by code_simp

end
