(* ===== verification/Spec2Isabelle.thy ===== *)
theory Spec2Isabelle
  imports LeaseRace CpuHeap HierarchicalDense LeaseOwnership FixedSlotStore LeaseRegistries KeyResolver ArchDetect TensorLayout CpuBuffers DTypes Float8
begin

text \<open>
  A verification development for the core of orteaf, a C++20 library of containers, pools, lease managers,
  memory allocators, kernel registries, element types and tensor layouts.  Paths without a leading \<open>src/\<close>
  are relative to \<open>src/orteaf/include/orteaf/internal/\<close>.  This theory imports all others; every property
  stands in the theory of the component it is about, after a text with its number.

  \<^bold>\<open>The program and its parts.\<close>  Containers (\<open>base/\<close>) hold the bookkeeping of pools; a pool manager pairs
  a pool of payloads with a pool of reference-counted control blocks and hands out leases; the managers of
  buffers, fences, storages and tensors are instances of it.  Memory comes from two allocators, a segregated
  pool with size classes and a hierarchical slot allocator, both over a resource of the execution.  Kernels
  are found by a packed key: a resolver turns a request into candidate keys along the fallback chain of an
  architecture and asks a registry with three tiers.  Element types and architectures are tables that
  generators write from YAML lists and headers query.

  \<^bold>\<open>Conventions.\<close>  \<open>Prelude\<close>: a call that throws before it changes anything returns \<open>'a res\<close>; one that
  can throw after a change is a state transformer \<open>('s, 'a) act\<close> that returns the state the exception leaves
  behind.  Undefined behaviour is an exception value of its own (\<open>SignedOverflow\<close>, \<open>DanglingPointer\<close>,
  \<open>MissingReturn\<close>).  Fixed-width integers whose wrap-around matters are words or taken modulo \<open>2 ^ 32\<close>
  where the code converts; sizes of memory are natural numbers, below \<open>2 ^ 62\<close> in the segregated pool and
  below \<open>2 ^ 64\<close> elsewhere.  Pointers into stores that the code keeps are addresses.  Template parameters
  and code outside the repository (C heap, operating system, resources, traits, lease types, YAML scalars)
  are arguments; what is asked of them is a named predicate with a concrete instance in a witness.

  \<^bold>\<open>Containers.\<close>
  \<^item> \<open>HeapVector\<close>: \<open>base/heap_vector.h\<close>; the locale \<open>vector\<close> with its capacity laws.  \<open>BlockVector\<close>:
    \<open>base/runtime_block_vector.h\<close> with addresses, elements never move; it interprets the same locale.
  \<^item> \<open>SmallVector\<close>: \<open>base/small_vector.h\<close> cell by cell, with arguments that may refer to own elements; every
    operation is a list operation, except in the cases it names (a growing \<open>resize\<close> back to the inline
    cells, \<open>shrinkToFit\<close> in place, own elements read after they were moved or given back).
  \<^item> \<open>LruList\<close>: \<open>base/lru_list.h\<close>, linked nodes in a heap, refining recency lists (locale \<open>recency\<close>).
  \<^item> \<open>MathUtils\<close>: \<open>base/math_utils.h\<close>.  \<open>Handles\<close>: \<open>base/handle.h\<close>.

  \<^bold>\<open>Pools, managers and leases.\<close>
  \<^item> \<open>SlotPool\<close> and \<open>PoolFacts\<close>: \<open>base/pool/slot_pool.h\<close>; ownership of slots, when a stale handle is valid
    again, stability of payload addresses.  \<open>FixedSlotStore\<close>: \<open>base/pool/fixed_slot_store.h\<close>, a list of
    slots, which does not scan for free ones as its comments say.
  \<^item> \<open>ControlBlock\<close>: \<open>base/lease/control_block/\<close> (locale \<open>strong_counted\<close>); \<open>LeaseRace\<close>: the same calls and
    those of \<open>base/lease/\<close> and \<open>releaseImpl\<close> of the control-block pool, split at every access to a shared
    variable, with any number of threads, for one life of one block: strong leases alone are safe, weak
    leases add a race.
  \<^item> \<open>PoolManager\<close>, \<open>LeaseSafety\<close>, \<open>LeaseOwnership\<close>: \<open>base/manager/pool_manager.h\<close> with
    \<open>base/lease/strong_lease.h\<close>, over a \<open>SlotPool\<close> of payloads (the managers over a \<open>FixedSlotStore\<close> are not
    modelled); no lease dangles, control blocks are accounted for, and payloads are exclusive when every
    lease is made for a payload fresh from the pool.
  \<^item> \<open>LeaseRegistries\<close>: \<open>base/manager/lease_lifetime_registry.h\<close> refines a map and
    \<open>fifo_lease_lifetime_registry.h\<close> a queue; what they ask of a lease is the locale \<open>lease_laws\<close>.
  \<^item> \<open>CpuBuffers\<close>: \<open>execution/cpu/manager/cpu_buffer_manager.h\<close>, an instance of the pool manager.

  \<^bold>\<open>Memory.\<close>
  \<^item> \<open>SegregatePool\<close>, \<open>SizeClasses\<close>, \<open>SegregateSafety\<close>: \<open>execution/allocator/pool/segregate_pool.h\<close> with its
    policies and \<open>size_class_utils.h\<close>; buffers never overlap, idle chunks are released.  \<open>CpuMemory\<close>: the
    aligned allocation and the resource of the CPU (\<open>CpuResource\<close> has not the members the pool asks of a
    resource, so there is no pool on top of it).
  \<^item> \<open>HierarchicalSlots\<close>: \<open>execution/allocator/lowlevel/hierarchical_slot_storage.h\<close> and
    \<open>hierarchical_slot_single_ops.h\<close>.  \<open>HierarchicalSafety\<close> and \<open>HierarchicalMerge\<close>: the slots as a forest,
    its invariant \<open>hi_ok\<close> (the leaves are disjoint and inside the regions, freelists and spans name exactly the
    free ones) and the four changes that keep it: splitting, marking, merging, adding a region.
    \<open>HierarchicalClients\<close> and \<open>HierarchicalRuns\<close>: the code performs these changes, and between two calls no
    split slot has only free children.  \<open>HierarchicalHeaps\<close>: programs and their properties.
    \<open>HierarchicalDense\<close>: \<open>hierarchical_slot_dense_ops.h\<close>.  \<open>CpuHeap\<close>:
    \<open>src/orteaf/src/internal/execution/cpu/platform/cpu_heap_ops.cpp\<close>, which breaks the contract.

  \<^bold>\<open>Kernels and architectures.\<close>
  \<^item> \<open>WordFields\<close>, \<open>KernelKey\<close>: \<open>kernel/core/kernel_key.h\<close>.  \<open>KernelRegistry\<close>:
    \<open>kernel/registry/kernel_registry.h\<close> on the nodes of \<open>LruList\<close>; rebuilding an entry and demoting it, calls
    of the backends that may throw in the code, are total functions.  A cache hit leaves main memory's order
    as it is, so the tiers are not LRU as documented.  \<open>KeyResolver\<close>: \<open>kernel/core/key_resolver.h\<close> and
    \<open>.cpp\<close>, \<open>key_components.h\<close>.
  \<^item> \<open>ArchGen\<close>: \<open>src/tools/codegen/gen_architectures.cpp\<close>; \<open>Architecture\<close>: \<open>architecture/architecture.h\<close> on the
    tables it writes; \<open>ArchDetect\<close>: the detection code under \<open>src/orteaf/src/internal/architecture/\<close>, which
    finds the best match when the lists are ordered for it.

  \<^bold>\<open>Element types and tensors.\<close>
  \<^item> \<open>DTypeGen\<close>: \<open>src/tools/codegen/gen_dtypes.cpp\<close>; \<open>DTypes\<close>: \<open>dtype/dtype.h\<close> on its output (that
    the generated text is valid C++ is not modelled).  \<open>Float16\<close>,
    \<open>Float8\<close>: \<open>dtype/float16.h\<close>, \<open>dtype/float8.h\<close>, exact values as multiples of \<open>2 ^ -149\<close>.
  \<^item> \<open>TensorLayout\<close>: \<open>src/orteaf/include/orteaf/extension/tensor/layout/dense_tensor_layout.h\<close>.

  \<^bold>\<open>Loops and bounds.\<close>  No definition uses fuel.  Loops are structural or have a measure, with two
  exceptions that are partial functions: the fallback walk over an arbitrary architecture table and the
  normalization loop of \<open>float16.h\<close>; that they end is proved for generated tables and for every half.  A loop
  that would run forever on a slot size of 0 (\<open>addRegion\<close>) stops in the model; the levels that are accepted
  are positive.  Programs over the hierarchical allocator keep less than \<open>2 ^ 32\<close> slots per layer.

  \<^bold>\<open>Not modelled.\<close>  Locks (calls are sequential except in \<open>LeaseRace\<close>, where accesses are sequentially
  consistent), statistics, logging, error texts, tests and debug snapshots, moves of whole managers and
  registries.  CUDA and Metal wrappers and managers, whose operations are driver calls or instances of the pool
  manager.  Kernel arguments, parameters and schemas, storage and tensor managers, start-up of the executions,
  the other code generators and the tables only they write: not done.  The superseded
  \<open>hierarchical_slot_allocator_old.h\<close> and the facade \<open>hierarchical_slot_allocator.h\<close>, which only forwards.
\<close>

end
